(* ===== verification/Prelude.thy ===== *)
theory Prelude
  imports Main "HOL-Library.Word"
begin

text \<open>
  Shared vocabulary of the development.

  Go's \<open>int\<close> and \<open>int64\<close> are 64-bit two's complement values on every platform the
  program is built for. They are modelled as HOL integers; every operation of the source
  that can leave the range is written with \<open>wrap64\<close> around it, so that overflow behaves as
  the language defines it. Division truncates towards zero (\<open>go_quot\<close>, \<open>go_rem\<close>).
  Errors are the left values of a sum; \<open>res_bind\<close> is the early return on error.
\<close>

named_theorems go_int \<open>unfolding rules of the machine integer operations\<close>
named_theorems go_res \<open>rules for results that may be errors\<close>

type_synonym ('e, 'a) result = "'e + 'a"

section \<open>Machine integers\<close>

definition max_int64 :: int where
  "max_int64 = 9223372036854775807"

definition min_int64 :: int where
  "min_int64 = - 9223372036854775808"

definition max_uint64 :: int where
  "max_uint64 = 18446744073709551615"

definition in_int64 :: "int \<Rightarrow> bool" where
  "in_int64 x \<longleftrightarrow> min_int64 \<le> x \<and> x \<le> max_int64"

definition wrap64 :: "int \<Rightarrow> int" where
  "wrap64 x = (x + 9223372036854775808) mod 18446744073709551616 - 9223372036854775808"

definition wrapu64 :: "int \<Rightarrow> int" where
  "wrapu64 x = x mod 18446744073709551616"

definition go_quot :: "int \<Rightarrow> int \<Rightarrow> int" where
  "go_quot a b = sgn a * sgn b * (\<bar>a\<bar> div \<bar>b\<bar>)"

definition go_rem :: "int \<Rightarrow> int \<Rightarrow> int" where
  "go_rem a b = a - b * go_quot a b"

lemmas int64_bounds [go_int] = max_int64_def min_int64_def max_uint64_def in_int64_def

lemma wrap64_id [simp]: "in_int64 x \<Longrightarrow> wrap64 x = x"
  by (simp add: wrap64_def go_int)

lemma wrap64_range [simp, intro]: "in_int64 (wrap64 x)"
proof -
  have "0 \<le> (x + 9223372036854775808) mod 18446744073709551616"
    and "(x + 9223372036854775808) mod 18446744073709551616 < (18446744073709551616::int)"
    by (rule pos_mod_sign, simp) (rule pos_mod_bound, simp)
  then show ?thesis unfolding wrap64_def by (simp add: go_int)
qed

lemma wrap64_sint: "wrap64 x = sint (word_of_int x :: 64 word)"
  by (simp add: wrap64_def sint_sbintrunc' signed_take_bit_eq_take_bit_shift take_bit_eq_mod)

lemma in_int64_0 [simp]: "in_int64 0"
  by (simp add: go_int)

lemma in_int64_between: "0 \<le> x \<Longrightarrow> x \<le> y \<Longrightarrow> in_int64 y \<Longrightarrow> in_int64 x"
  by (simp add: go_int)

lemma in_int64_diff: "0 \<le> x \<Longrightarrow> 0 \<le> y \<Longrightarrow> in_int64 x \<Longrightarrow> in_int64 y \<Longrightarrow> in_int64 (x - y)"
  by (simp add: go_int)

lemma go_quot_nonneg: "0 \<le> a \<Longrightarrow> 0 \<le> b \<Longrightarrow> go_quot a b = a div b"
  by (auto simp: go_quot_def sgn_if)

lemma go_rem_nonneg: "0 \<le> a \<Longrightarrow> 0 \<le> b \<Longrightarrow> go_rem a b = a mod b"
  by (simp add: go_rem_def go_quot_nonneg minus_mult_div_eq_mod)

lemma div_less_iff_int:
  fixes a b m :: int
  assumes "0 < b"
  shows "m div b < a \<longleftrightarrow> m < a * b"
proof -
  have m: "m = b * (m div b) + m mod b" by simp
  have r: "0 \<le> m mod b" "m mod b < b" using assms by simp_all
  show ?thesis
  proof
    assume "m div b < a"
    then have "b * (m div b + 1) \<le> b * a" using assms by (intro mult_left_mono) simp_all
    moreover have "m < b * (m div b) + b" using m r by linarith
    ultimately show "m < a * b" by (simp add: algebra_simps)
  next
    assume "m < a * b"
    moreover have "b * (m div b) \<le> m" using m r by linarith
    ultimately have "b * (m div b) < b * a" by (simp only: mult.commute [of b a])
    then show "m div b < a" using assms by (simp only: mult_less_cancel_left_pos)
  qed
qed

section \<open>Error values\<close>

text \<open>
  An error of the source is what built it: \<open>Errorf\<close> a format and its arguments, \<open>Wrapf\<close>
  the same around an inner error (the \<open>%w\<close> verb), \<open>Sentinel\<close> a package-level error value,
  \<open>Joined\<close> the result of \<open>errors.Join\<close>, \<open>External\<close> an error that code outside the program
  returned. \<open>Panic\<close> stands for a run-time panic (an index out of range), so that a function
  that could panic has a branch for it. \<open>errors_is\<close> is the standard library's \<open>errors.Is\<close>.
\<close>

datatype err_arg = AS string | AN int

datatype go_error =
    Errorf string "err_arg list"
  | Wrapf string "err_arg list" go_error
  | Sentinel string
  | Joined "go_error list"
  | External int
  | Panic

fun errors_is :: "go_error \<Rightarrow> string \<Rightarrow> bool" where
  "errors_is (Sentinel s) t \<longleftrightarrow> s = t"
| "errors_is (Wrapf f as e) t \<longleftrightarrow> errors_is e t"
| "errors_is (Joined es) t \<longleftrightarrow> (\<exists>e \<in> set es. errors_is e t)"
| "errors_is _ t \<longleftrightarrow> False"

section \<open>Results\<close>

definition res_bind :: "('e + 'a) \<Rightarrow> ('a \<Rightarrow> 'e + 'b) \<Rightarrow> 'e + 'b" where
  "res_bind r f = (case r of Inl e \<Rightarrow> Inl e | Inr x \<Rightarrow> f x)"

lemma res_bind_simps [simp]:
  "res_bind (Inl e) f = Inl e"
  "res_bind (Inr x) f = f x"
  by (simp_all add: res_bind_def)

lemma res_bind_Inr [go_res]: "res_bind r f = Inr y \<longleftrightarrow> (\<exists>x. r = Inr x \<and> f x = Inr y)"
  by (cases r) auto

lemma res_bind_Inl [go_res]:
  "res_bind r f = Inl e \<longleftrightarrow> r = Inl e \<or> (\<exists>x. r = Inr x \<and> f x = Inl e)"
  by (cases r) auto

lemma res_bind_cong [fundef_cong]:
  "r = r' \<Longrightarrow> (\<And>x. r' = Inr x \<Longrightarrow> f x = g x) \<Longrightarrow> res_bind r f = res_bind r' g"
  by (cases r') auto

text \<open>A loop over a slice that stops at the first error, collecting one value per element.\<close>

fun res_map :: "('a \<Rightarrow> 'e + 'b) \<Rightarrow> 'a list \<Rightarrow> 'e + 'b list" where
  "res_map f [] = Inr []"
| "res_map f (x # xs) = res_bind (f x) (\<lambda>y. res_bind (res_map f xs) (\<lambda>ys. Inr (y # ys)))"

lemma res_map_Inr: "res_map f xs = Inr ys \<longleftrightarrow> list_all2 (\<lambda>x y. f x = Inr y) xs ys"
  by (induction xs arbitrary: ys) (auto simp: go_res list_all2_Cons1)

lemma res_map_length: "res_map f xs = Inr ys \<Longrightarrow> length ys = length xs"
  by (simp add: res_map_Inr list_all2_lengthD)

lemma res_map_nth: "res_map f xs = Inr ys \<Longrightarrow> i < length xs \<Longrightarrow> f (xs ! i) = Inr (ys ! i)"
  using list_all2_nthD by (fastforce simp: res_map_Inr)

lemma res_map_Inl: "res_map f xs = Inl e \<Longrightarrow> \<exists>x \<in> set xs. f x = Inl e"
  by (induction xs) (auto simp: go_res)

lemma res_map_guard:
  "res_map (\<lambda>x. if P x then Inl (e x) else Inr (g x)) xs = Inr ys \<longleftrightarrow>
     (\<forall>x \<in> set xs. \<not> P x) \<and> ys = map g xs"
  by (induction xs arbitrary: ys) (auto simp: go_res)

text \<open>A loop over a slice that only checks.\<close>

fun res_iter :: "('a \<Rightarrow> 'e + unit) \<Rightarrow> 'a list \<Rightarrow> 'e + unit" where
  "res_iter f [] = Inr ()"
| "res_iter f (x # xs) = res_bind (f x) (\<lambda>_. res_iter f xs)"

lemma res_iter_Inr: "res_iter f xs = Inr () \<longleftrightarrow> (\<forall>x \<in> set xs. f x = Inr ())"
  by (induction xs) (auto simp: go_res)

section \<open>Effects\<close>

text \<open>
  Code that calls out of the program (a scorer, a clock, a piece of scheduled work) is a
  function of the state \<open>'w\<close> of the world behind those interfaces; it returns its result and
  the world after the call. \<open>io_bind\<close> sequences two such computations and stops at an error.
\<close>

type_synonym ('w, 'a) io = "'w \<Rightarrow> (go_error + 'a) \<times> 'w"

definition io_return :: "'a \<Rightarrow> ('w, 'a) io" where
  "io_return x = (\<lambda>w. (Inr x, w))"

definition io_lift :: "(go_error + 'a) \<Rightarrow> ('w, 'a) io" where
  "io_lift r = (\<lambda>w. (r, w))"

definition io_bind :: "('w, 'a) io \<Rightarrow> ('a \<Rightarrow> ('w, 'b) io) \<Rightarrow> ('w, 'b) io" where
  "io_bind m f = (\<lambda>w. case m w of (Inl e, w') \<Rightarrow> (Inl e, w') | (Inr x, w') \<Rightarrow> f x w')"

definition io_get :: "('w \<Rightarrow> 'a \<times> 'w) \<Rightarrow> ('w, 'a) io" where
  "io_get f = (\<lambda>w. let (x, w') = f w in (Inr x, w'))"

lemma io_simps [simp]:
  "io_return x w = (Inr x, w)"
  "io_lift r w = (r, w)"
  by (simp_all add: io_return_def io_lift_def)

lemma io_bind_Inr [go_res]:
  "io_bind m f w = (Inr y, w'') \<longleftrightarrow> (\<exists>x w'. m w = (Inr x, w') \<and> f x w' = (Inr y, w''))"
  by (auto simp: io_bind_def split: prod.splits sum.splits)

lemma io_bind_Inl:
  "io_bind m f w = (Inl e, w'') \<longleftrightarrow> m w = (Inl e, w'') \<or> (\<exists>x w'. m w = (Inr x, w') \<and> f x w' = (Inl e, w''))"
  by (auto simp: io_bind_def split: prod.splits sum.splits)

lemma io_bind_lift [simp]:
  "io_bind (io_lift (Inl e)) f = io_lift (Inl e)"
  "io_bind (io_lift (Inr x)) f = f x"
  "io_bind (io_return x) f = f x"
  by (simp_all add: io_bind_def io_lift_def io_return_def)

lemma io_get_Inr [go_res]: "io_get f w = (Inr x, w') \<longleftrightarrow> f w = (x, w')"
  by (auto simp: io_get_def split: prod.splits)

lemma io_lift_Inr [go_res]: "io_lift r w = (Inr x, w') \<longleftrightarrow> r = Inr x \<and> w' = w"
  by (auto simp: io_lift_def)

lemma io_return_Inr [go_res]: "io_return x w = (Inr y, w') \<longleftrightarrow> y = x \<and> w' = w"
  by auto

lemma io_case_eq:
  "(case p of (Inl e, w) \<Rightarrow> f e w | (Inr x, w) \<Rightarrow> g x w) = y \<longleftrightarrow>
     (\<exists>e w. p = (Inl e, w) \<and> f e w = y) \<or> (\<exists>x w. p = (Inr x, w) \<and> g x w = y)"
  by (cases p; cases "fst p") auto

lemma sum_case_eq:
  "(case r of Inl e \<Rightarrow> f e | Inr x \<Rightarrow> g x) = y \<longleftrightarrow> (\<exists>e. r = Inl e \<and> f e = y) \<or> (\<exists>x. r = Inr x \<and> g x = y)"
  by (cases r) auto

section \<open>Alignment\<close>

unbundle bit_operations_syntax

text \<open>Go's \<open>&^\<close>.\<close>

definition and_not :: "int \<Rightarrow> int \<Rightarrow> int" where
  "and_not x m = x AND (NOT m)"

lemma and_not_mask: "and_not x (2 ^ k - 1) = x - x mod 2 ^ k"
proof -
  have "x - take_bit k x = x AND NOT (take_bit k x)" by (rule disjunctive_diff) (simp add: bit_take_bit_iff)
  also have "\<dots> = x AND NOT (mask k)" by (rule bit_eqI) (auto simp: bit_and_iff bit_not_iff bit_take_bit_iff bit_mask_iff)
  finally show ?thesis by (simp add: and_not_def mask_eq_exp_minus_1 take_bit_eq_mod)
qed

lemma round_up:
  fixes p x :: int
  assumes "0 < p"
  shows "(x + p - 1) - (x + p - 1) mod p = p * ((x + p - 1) div p)" "x \<le> p * ((x + p - 1) div p)" "p * ((x + p - 1) div p) < x + p"
    "x mod p = 0 \<Longrightarrow> p * ((x + p - 1) div p) = x"
proof -
  have d: "p * ((x + p - 1) div p) + (x + p - 1) mod p = x + p - 1" by simp
  have m: "0 \<le> (x + p - 1) mod p" "(x + p - 1) mod p < p" using assms by simp_all
  show "(x + p - 1) - (x + p - 1) mod p = p * ((x + p - 1) div p)" using d by linarith
  show "x \<le> p * ((x + p - 1) div p)" "p * ((x + p - 1) div p) < x + p" using d m by linarith+
  assume "x mod p = 0"
  then obtain q where q: "x = p * q" by (metis mult_div_mod_eq add.right_neutral)
  have "(p - 1 + p * q) div p = q" using assms by (subst div_mult_self2) simp_all
  then show "p * ((x + p - 1) div p) = x" using q by (simp add: algebra_simps)
qed

lemma power_of_two:
  fixes v :: int
  assumes "0 < v" "v AND (v - 1) = 0"
  shows "\<exists>k. v = 2 ^ k"
  using assms
proof (induction "nat v" arbitrary: v rule: less_induct)
  case less
  have halves: "(v div 2) AND ((v - 1) div 2) = 0"
    using less.prems(2) drop_bit_and [of 1 v "v - 1"] by (simp add: drop_bit_eq_div)
  show ?case
  proof (cases "even v")
    case True
    then obtain u where u: "v = 2 * u" by (elim evenE)
    have "0 < u" using less.prems(1) u by simp
    moreover have "(2 * u - 1) div 2 = u - 1" by presburger
    then have "u AND (u - 1) = 0" using halves by (simp add: u)
    ultimately obtain k where "u = 2 ^ k" using less.hyps [of u] u by auto
    then have "v = 2 ^ Suc k" by (simp add: u)
    then show ?thesis ..
  next
    case False
    then obtain u where u: "v = 2 * u + 1" by (elim oddE)
    have "v = 2 ^ 0" using halves by (simp add: u)
    then show ?thesis ..
  qed
qed

section \<open>Lists\<close>

lemma map_update_id [simp]: "f y = f (xs ! i) \<Longrightarrow> map f (xs[i := y]) = map f xs"
  by (cases "i < length xs") (simp_all add: map_update list_update_same_conv list_update_beyond)

lemma sum_list_nonneg_int: "(\<And>x. x \<in> set xs \<Longrightarrow> 0 \<le> f x) \<Longrightarrow> 0 \<le> sum_list (map f xs)" for f :: "'a \<Rightarrow> int"
  by (induction xs) auto

lemma sum_list_remove1_int:
  "x \<in> set xs \<Longrightarrow> sum_list (map f (remove1 x xs)) = sum_list (map f xs) - f x" for f :: "'a \<Rightarrow> int"
  by (induction xs) auto

lemma sum_list_filter_le_int:
  "(\<And>x. x \<in> set xs \<Longrightarrow> 0 \<le> f x) \<Longrightarrow> sum_list (map f (filter P xs)) \<le> sum_list (map f xs)"
  for f :: "'a \<Rightarrow> int"
  by (induction xs) (auto intro: add_increasing)

end
