(* ===== verification/Checked.thy ===== *)
theory Checked
  imports Prelude
begin

text \<open>
  \<open>internal/checked/int.go\<close>: saturating and checked arithmetic on \<open>int64\<close> and \<open>int\<close>.
  Every intermediate value of the source is a 64-bit value, so each operation is written
  with the wrap-around of the language; the lemmas show that no guarded operation wraps.
  The locale \<open>saturating\<close> is the contract the placement estimator relies on.
\<close>

definition MaxInt64 :: int where
  "MaxInt64 = wrap64 (wrapu64 (- 1) div 2)"

definition SaturatingAddInt64 :: "int \<Rightarrow> int \<Rightarrow> int" where
  "SaturatingAddInt64 a b =
     (if a < 0 \<or> b < 0 then 0
      else if a > wrap64 (MaxInt64 - b) then MaxInt64
      else wrap64 (a + b))"

definition SaturatingMulInt64 :: "int \<Rightarrow> int \<Rightarrow> int" where
  "SaturatingMulInt64 a b =
     (if a < 0 \<or> b < 0 then 0
      else if b \<noteq> 0 \<and> a > go_quot MaxInt64 b then MaxInt64
      else wrap64 (a * b))"

definition AddInt :: "int \<Rightarrow> int \<Rightarrow> int \<times> bool" where
  "AddInt a b =
     (if a < 0 \<or> b < 0 then (0, False)
      else if a > wrap64 (MaxInt64 - b) then (0, False)
      else (wrap64 (a + b), True))"

definition MulInt :: "int \<Rightarrow> int \<Rightarrow> int \<times> bool" where
  "MulInt a b =
     (if a < 0 \<or> b < 0 then (0, False)
      else if b \<noteq> 0 \<and> a > go_quot MaxInt64 b then (0, False)
      else (wrap64 (a * b), True))"

lemma MaxInt64_eq [simp]: "MaxInt64 = max_int64"
  by (simp add: MaxInt64_def wrapu64_def wrap64_def go_int)

section \<open>Functional behaviour\<close>

lemma wrap64_max_diff: "0 \<le> b \<Longrightarrow> in_int64 b \<Longrightarrow> wrap64 (max_int64 - b) = max_int64 - b"
  by (rule wrap64_id) (simp add: go_int)

lemma quot_guard: "0 \<le> a \<Longrightarrow> 0 < b \<Longrightarrow> a > go_quot max_int64 b \<longleftrightarrow> max_int64 < a * b"
  by (simp add: go_quot_nonneg div_less_iff_int go_int)

lemma mul_in_int64: "0 \<le> a \<Longrightarrow> 0 \<le> b \<Longrightarrow> \<not> max_int64 < a * b \<Longrightarrow> in_int64 (a * b)"
  for a b :: int
  using mult_nonneg_nonneg [of a b] by (auto simp: go_int simp del: mult_nonneg_nonneg)

lemma SaturatingAddInt64_spec:
  assumes "in_int64 a" "in_int64 b"
  shows "SaturatingAddInt64 a b = (if a < 0 \<or> b < 0 then 0 else min (a + b) max_int64)"
  using assms by (auto simp: SaturatingAddInt64_def wrap64_max_diff min_def go_int wrap64_def)

lemma SaturatingMulInt64_spec:
  assumes "in_int64 a" "in_int64 b"
  shows "SaturatingMulInt64 a b = (if a < 0 \<or> b < 0 then 0 else min (a * b) max_int64)"
proof (cases "a < 0 \<or> b \<le> 0")
  case True
  then show ?thesis by (auto simp: SaturatingMulInt64_def go_int)
next
  case False
  then have ab: "0 \<le> a" "0 < b" by auto
  show ?thesis
  proof (cases "max_int64 < a * b")
    case True
    then show ?thesis using ab by (simp add: SaturatingMulInt64_def quot_guard)
  next
    case F: False
    then have "in_int64 (a * b)" using ab by (simp add: mul_in_int64)
    then show ?thesis using ab F by (simp add: SaturatingMulInt64_def quot_guard)
  qed
qed

lemma AddInt_spec:
  assumes "in_int64 a" "in_int64 b"
  shows "AddInt a b =
    (if 0 \<le> a \<and> 0 \<le> b \<and> a + b \<le> max_int64 then (a + b, True) else (0, False))"
  using assms by (auto simp: AddInt_def wrap64_max_diff go_int wrap64_def)

lemma MulInt_spec:
  assumes "in_int64 a" "in_int64 b"
  shows "MulInt a b =
    (if 0 \<le> a \<and> 0 \<le> b \<and> a * b \<le> max_int64 then (a * b, True) else (0, False))"
proof (cases "a < 0 \<or> b \<le> 0")
  case True
  then show ?thesis by (auto simp: MulInt_def go_int)
next
  case False
  then have ab: "0 \<le> a" "0 < b" by auto
  show ?thesis
  proof (cases "max_int64 < a * b")
    case True
    then show ?thesis using ab by (simp add: MulInt_def quot_guard)
  next
    case F: False
    then have "in_int64 (a * b)" using ab by (simp add: mul_in_int64)
    then show ?thesis using ab F by (simp add: MulInt_def quot_guard)
  qed
qed

section \<open>The contract of saturating arithmetic\<close>

text \<open>
  What a client of saturating arithmetic relies on: results stay in the non-negative
  range, and on non-negative arguments the operations are the mathematical ones clamped
  to the cap. Everything a size estimator needs follows from these laws.
\<close>

locale saturating =
  fixes add :: "int \<Rightarrow> int \<Rightarrow> int" and mul :: "int \<Rightarrow> int \<Rightarrow> int" and cap :: int
  assumes cap_pos: "0 < cap"
    and add_eq: "\<lbrakk>0 \<le> a; a \<le> cap; 0 \<le> b; b \<le> cap\<rbrakk> \<Longrightarrow> add a b = min (a + b) cap"
    and mul_eq: "\<lbrakk>0 \<le> a; a \<le> cap; 0 \<le> b; b \<le> cap\<rbrakk> \<Longrightarrow> mul a b = min (a * b) cap"
begin

definition ok :: "int \<Rightarrow> bool" where
  "ok x \<longleftrightarrow> 0 \<le> x \<and> x \<le> cap"

lemma okI: "0 \<le> x \<Longrightarrow> x \<le> cap \<Longrightarrow> ok x"
  by (simp add: ok_def)

lemma ok_0 [simp]: "ok 0"
  using cap_pos by (simp add: ok_def)

lemma ok_add [simp]: "ok a \<Longrightarrow> ok b \<Longrightarrow> ok (add a b)"
  using cap_pos by (simp add: ok_def add_eq)

lemma ok_mul [simp]: "ok a \<Longrightarrow> ok b \<Longrightarrow> ok (mul a b)"
  using cap_pos by (simp add: ok_def mul_eq)

lemma add_mono: "\<lbrakk>ok a; ok a'; ok b; ok b'; a \<le> a'; b \<le> b'\<rbrakk> \<Longrightarrow> add a b \<le> add a' b'"
  by (simp add: ok_def add_eq min_def)

lemma mul_mono:
  assumes "ok a" "ok a'" "ok b" "ok b'" "a \<le> a'" "b \<le> b'"
  shows "mul a b \<le> mul a' b'"
proof -
  have "a * b \<le> a' * b'" using assms by (intro mult_mono) (simp_all add: ok_def)
  then show ?thesis using assms by (simp add: ok_def mul_eq min_def)
qed

lemma add_ge_left: "ok a \<Longrightarrow> ok b \<Longrightarrow> a \<le> add a b"
  by (simp add: ok_def add_eq)

lemma add_ge_right: "ok a \<Longrightarrow> ok b \<Longrightarrow> b \<le> add a b"
  by (simp add: ok_def add_eq)

text \<open>Accumulating a list saturates exactly when the true sum exceeds the cap.\<close>

lemma fold_add:
  "\<lbrakk>\<And>x. x \<in> set xs \<Longrightarrow> ok x; ok acc\<rbrakk> \<Longrightarrow>
    fold (\<lambda>v s. add s v) xs acc = min (acc + sum_list xs) cap"
proof (induction xs arbitrary: acc)
  case Nil
  then show ?case by (simp add: ok_def)
next
  case (Cons x xs)
  then have "ok x" "ok (add acc x)" by simp_all
  moreover have "0 \<le> sum_list xs"
    using Cons.prems by (intro sum_list_nonneg) (simp add: ok_def)
  ultimately show ?case
    using Cons by (simp add: ok_def add_eq min_def)
qed

end

interpretation checked: saturating SaturatingAddInt64 SaturatingMulInt64 max_int64
proof unfold_locales
  fix a b :: int
  assume *: "0 \<le> a" "a \<le> max_int64" "0 \<le> b" "b \<le> max_int64"
  then have "in_int64 a" "in_int64 b" by (simp_all add: go_int)
  with * show "SaturatingAddInt64 a b = min (a + b) max_int64"
    and "SaturatingMulInt64 a b = min (a * b) max_int64"
    by (simp_all add: SaturatingAddInt64_spec SaturatingMulInt64_spec)
qed (simp add: go_int)

end
