(* ===== verification/DecisionTypes.thy ===== *)
theory DecisionTypes
  imports Prelude
begin

text \<open>
  \<open>model/gosystemone/types.go\<close>: the wire types of the decision service, its limits, and
  request normalisation. Strings and \<open>json.RawMessage\<close> are byte strings.
  Floating-point values have the type parameter \<open>'f\<close>.
\<close>

section \<open>Limits\<close>

definition MaxContexts :: nat where "MaxContexts = 256"
definition MaxFields :: nat where "MaxFields = 32"
definition MaxCandidates :: nat where "MaxCandidates = 255"
definition MaxContextTokens :: nat where "MaxContextTokens = 32 * 1024"
definition DefaultTreeMax :: int where "DefaultTreeMax = 128"

definition ModeAuto :: string where "ModeAuto = ''auto''"
definition ModeTree :: string where "ModeTree = ''tree''"

lemmas limits = MaxContexts_def MaxFields_def MaxCandidates_def MaxContextTokens_def
  DefaultTreeMax_def

lemma mode_distinct [simp]:
  "ModeAuto \<noteq> ModeTree" "ModeTree \<noteq> ModeAuto" "ModeAuto \<noteq> []" "ModeTree \<noteq> []"
  by (simp_all add: ModeAuto_def ModeTree_def)

section \<open>Requests\<close>

record request =
  req_model :: string
  req_instructions :: string
  req_schema :: string
  req_contexts :: "string list"
  req_mode :: string
  req_tree_max :: int
  req_cache_prompt :: "bool option"

text \<open>The first empty context, as the loop over \<open>r.Contexts\<close> finds it.\<close>

fun first_empty :: "nat \<Rightarrow> string list \<Rightarrow> nat option" where
  "first_empty i [] = None"
| "first_empty i (c # cs) = (if c = [] then Some i else first_empty (Suc i) cs)"

definition NormalizeAndValidate :: "request option \<Rightarrow> go_error + request" where
  "NormalizeAndValidate ro = (case ro of None \<Rightarrow> Inl (Errorf ''nil decision request'' []) | Some r \<Rightarrow>
     if length (req_contexts r) < 1 \<or> length (req_contexts r) > MaxContexts then Inl (Errorf ''contexts must contain 1-%d strings'' [AN (int MaxContexts)])
     else case first_empty 0 (req_contexts r) of Some i \<Rightarrow> Inl (Errorf ''contexts[%d] must not be empty'' [AN (int i)]) | None \<Rightarrow>
     if length (req_schema r) = 0 then Inl (Errorf ''schema is required'' [])
     else
       let r1 = (if req_mode r = [] then r\<lparr>req_mode := ModeAuto\<rparr> else r)
       in if req_mode r1 \<noteq> ModeAuto \<and> req_mode r1 \<noteq> ModeTree then Inl (Errorf ''mode must be auto or tree'' [])
       else
         let r2 = (if req_tree_max r1 = 0 then r1\<lparr>req_tree_max := DefaultTreeMax\<rparr> else r1)
         in if req_tree_max r2 < 1 \<or> req_tree_max r2 > int MaxCandidates then Inl (Errorf ''tree_max must be 1-%d'' [AN (int MaxCandidates)])
         else Inr r2)"

definition AllowCache :: "request \<Rightarrow> bool" where
  "AllowCache r \<longleftrightarrow> req_cache_prompt r = None \<or> req_cache_prompt r = Some True"

section \<open>Candidates, schemas and results\<close>

record candidate =
  cand_id :: string
  encoded :: string
  cand_value :: string

record field_spec =
  fs_name :: string
  fs_type :: string
  fs_description :: string
  fs_candidates :: "candidate list"

record field_input =
  fi_suffix :: string
  fi_candidates :: "candidate list"

record compiled_schema =
  system_text :: string
  cs_fields :: "field_spec list"
  cs_inputs :: "field_input list"

record 'f candidate_result =
  cr_value :: string
  cr_probability :: 'f
  cr_selected :: bool

record 'f field_result =
  fr_value :: string
  fr_probability :: 'f
  fr_candidates :: "'f candidate_result list"
  fr_scored_nodes :: nat
  fr_tree :: bool

record 'f item_result =
  it_decision :: "string \<rightharpoonup> string"
  it_fields :: "string \<rightharpoonup> 'f field_result"
  it_context_tokens :: nat
  it_scored_rows :: nat

record usage =
  us_prompt_tokens :: nat
  us_cached_tokens :: nat
  us_context_tokens :: nat
  us_scored_rows :: nat

record 'f timings =
  tm_prefill_ms :: 'f
  tm_scoring_ms :: 'f
  tm_total_ms :: 'f
  tm_rounds :: nat
  tm_per_decision_ms :: 'f

record 'f response =
  rs_object :: string
  rs_model :: string
  rs_created :: int
  rs_results :: "'f item_result list"
  rs_usage :: usage
  rs_timings :: "'f timings"

section \<open>Request validation\<close>

lemma first_empty_None: "first_empty i cs = None \<longleftrightarrow> [] \<notin> set cs"
  by (induction cs arbitrary: i) auto

lemma first_empty_Some:
  "first_empty i cs = Some j \<Longrightarrow> i \<le> j \<and> j - i < length cs \<and> cs ! (j - i) = []"
proof (induction cs arbitrary: i)
  case (Cons c cs)
  show ?case
  proof (cases "c = []")
    case False
    with Cons.prems have "first_empty (Suc i) cs = Some j" by simp
    from Cons.IH [OF this] show ?thesis by (auto simp: nth_Cons' Suc_diff_Suc)
  qed (use Cons.prems in simp)
qed simp

text \<open>
  What a request satisfies once it has been accepted: these are the bounds that the rest
  of the package relies on.
\<close>

definition request_ok :: "request \<Rightarrow> bool" where
  "request_ok r \<longleftrightarrow> 1 \<le> length (req_contexts r) \<and> length (req_contexts r) \<le> MaxContexts \<and>
     [] \<notin> set (req_contexts r) \<and> req_schema r \<noteq> [] \<and>
     (req_mode r = ModeAuto \<or> req_mode r = ModeTree) \<and>
     1 \<le> req_tree_max r \<and> req_tree_max r \<le> int MaxCandidates"

lemma NormalizeAndValidate_ok: "NormalizeAndValidate (Some r) = Inr r' \<Longrightarrow> request_ok r'"
  by (auto simp: NormalizeAndValidate_def request_ok_def Let_def first_empty_None Suc_le_eq
      split: if_splits option.splits)

lemma NormalizeAndValidate_contexts:
  "NormalizeAndValidate (Some r) = Inr r' \<Longrightarrow>
     req_contexts r' = req_contexts r \<and> req_schema r' = req_schema r \<and>
     req_model r' = req_model r \<and> req_instructions r' = req_instructions r \<and>
     req_cache_prompt r' = req_cache_prompt r"
  by (auto simp: NormalizeAndValidate_def Let_def split: if_splits option.splits)

text \<open>Normalising an accepted request again changes nothing.\<close>

lemma NormalizeAndValidate_fixed: "request_ok r \<Longrightarrow> NormalizeAndValidate (Some r) = Inr r"
proof -
  assume "request_ok r"
  then have "first_empty 0 (req_contexts r) = None" "req_mode r \<noteq> []"
    by (auto simp: request_ok_def first_empty_None)
  with \<open>request_ok r\<close> show ?thesis
    by (auto simp: NormalizeAndValidate_def request_ok_def Let_def)
qed

end
