(* ===== verification/Trie.thy ===== *)
theory Trie
  imports DecisionTypes "HOL-Library.Sublist"
begin

text \<open>
  \<open>model/gosystemone/trie.go\<close>, the compilation half: a field's candidate strings are
  tokenised, split at their longest shared token prefix, checked for colliding paths, and
  the branching points of the resulting token trie are listed by a work-list loop.
  The tokenizer is the code's \<open>Tokenizer\<close> interface, here the function argument \<open>tok\<close>
  (\<open>None\<close> is the nil interface).
\<close>

type_synonym token = int

record candidate_path =
  path_candidate :: candidate
  path_tokens :: "token list"

record trie_node =
  node_prefix :: "token list"
  node_options :: "token list"

record compiled_field =
  cf_suffix :: "token list"
  cf_paths :: "candidate_path list"
  cf_nodes :: "trie_node list"
  cf_tree :: bool
  cf_rows :: nat

section \<open>Splitting the token sequences\<close>

text \<open>The inner loop of the common-prefix computation: the first index below \<open>common\<close> at which
  the two sequences differ, or \<open>common\<close>.\<close>

function first_diff :: "token list \<Rightarrow> token list \<Rightarrow> nat \<Rightarrow> nat \<Rightarrow> nat" where
  "first_diff seq seq0 i common =
     (if i < common then (if seq ! i \<noteq> seq0 ! i then i else first_diff seq seq0 (Suc i) common)
      else common)"
  by pat_completeness auto
termination
  by (relation "measure (\<lambda>(seq, seq0, i, common). common - i)") auto

declare first_diff.simps [simp del]

fun common_length :: "token list \<Rightarrow> nat \<Rightarrow> token list list \<Rightarrow> nat" where
  "common_length seq0 common [] = common"
| "common_length seq0 common (seq # seqs) =
     common_length seq0 (first_diff seq seq0 0 (min common (length seq - 1))) seqs"

fun tokenPrefixCollision :: "token list \<Rightarrow> token list \<Rightarrow> bool" where
  "tokenPrefixCollision (a # as) (b # bs) = (if a \<noteq> b then False else tokenPrefixCollision as bs)"
| "tokenPrefixCollision _ _ = True"

text \<open>The first earlier path that collides (the loop over \<open>j < i\<close>).\<close>

fun find_collision :: "token list \<Rightarrow> candidate_path list \<Rightarrow> candidate_path option" where
  "find_collision path [] = None"
| "find_collision path (p # ps) =
     (if tokenPrefixCollision path (path_tokens p) then Some p else find_collision path ps)"

fun compile_paths ::
  "nat \<Rightarrow> (candidate \<times> token list) list \<Rightarrow> candidate_path list \<Rightarrow> nat \<Rightarrow>
     go_error + (candidate_path list \<times> nat)" where
  "compile_paths common [] done maxPath = Inr (done, maxPath)"
| "compile_paths common ((c, seq) # rest) done maxPath =
     (let path = drop common seq in
      if path = [] then Inl (Errorf ''candidate %s has no distinct path'' [AS (cand_id c)])
      else case find_collision path done of
        Some p \<Rightarrow> Inl (Errorf ''candidates %s and %s tokenize to colliding paths''
                    [AS (cand_id (path_candidate p)), AS (cand_id c)])
      | None \<Rightarrow> compile_paths common rest
          (done @ [\<lparr>path_candidate = c, path_tokens = path\<rparr>]) (max maxPath (length path)))"

section \<open>The branching points of the trie\<close>

text \<open>The distinct next tokens of the active paths, in order of first occurrence.\<close>

fun collect_options ::
  "candidate_path list \<Rightarrow> nat \<Rightarrow> nat list \<Rightarrow> token list \<Rightarrow> token list" where
  "collect_options paths depth [] options = options"
| "collect_options paths depth (c # cs) options =
     (if depth \<ge> length (path_tokens (paths ! c)) then collect_options paths depth cs options
      else let token = path_tokens (paths ! c) ! depth in
        if token \<in> set options then collect_options paths depth cs options
        else collect_options paths depth cs (options @ [token]))"

definition sub_active :: "candidate_path list \<Rightarrow> nat list \<Rightarrow> nat \<Rightarrow> token \<Rightarrow> nat list" where
  "sub_active paths active depth token =
     filter (\<lambda>c. depth < length (path_tokens (paths ! c)) \<and>
                 path_tokens (paths ! c) ! depth = token) active"

definition trie_options :: "candidate_path list \<Rightarrow> nat list \<Rightarrow> nat \<Rightarrow> token list" where
  "trie_options paths active depth = sort (collect_options paths depth active [])"

text \<open>What the loop has left to do on a path from a given depth on: the termination measure.\<close>

definition path_work :: "candidate_path list \<Rightarrow> nat \<Rightarrow> nat \<Rightarrow> nat" where
  "path_work paths depth c = 2 * (length (path_tokens (paths ! c)) + 1 - depth)"

definition item_work :: "candidate_path list \<Rightarrow> nat list \<times> nat \<Rightarrow> nat" where
  "item_work paths item = 1 + sum_list (map (path_work paths (snd item)) (fst item))"

lemma collect_options_set:
  "set (collect_options paths depth active options) =
     set options \<union> {path_tokens (paths ! c) ! depth | c.
        c \<in> set active \<and> depth < length (path_tokens (paths ! c))}"
  by (induction paths depth active options rule: collect_options.induct) (auto simp: Let_def)

lemma collect_options_distinct:
  "distinct options \<Longrightarrow> distinct (collect_options paths depth active options)"
  by (induction paths depth active options rule: collect_options.induct) (auto simp: Let_def)

lemma trie_options_set:
  "set (trie_options paths active depth) = {path_tokens (paths ! c) ! depth | c.
        c \<in> set active \<and> depth < length (path_tokens (paths ! c))}"
  by (simp add: trie_options_def collect_options_set)

lemma trie_options_distinct [simp]: "distinct (trie_options paths active depth)"
  by (simp add: trie_options_def collect_options_distinct)

lemma trie_options_sorted [simp]: "sorted (trie_options paths active depth)"
  by (simp add: trie_options_def)

text \<open>Grouping by distinct keys cannot make a sum larger.\<close>

lemma sum_list_groups_le:
  fixes f :: "'a \<Rightarrow> nat"
  assumes "distinct ks"
  shows "sum_list (map (\<lambda>k. sum_list (map f (filter (\<lambda>x. P x \<and> g x = k) xs))) ks)
           \<le> sum_list (map f (filter P xs))"
proof (induction xs)
  case (Cons x xs)
  have one: "sum_list (map (\<lambda>k. if P x \<and> g x = k then f x else 0) ks)
      \<le> (if P x then f x else 0)"
    using assms by (induction ks) auto
  have "sum_list (map (\<lambda>k. sum_list (map f (filter (\<lambda>x. P x \<and> g x = k) (x # xs)))) ks) =
     sum_list (map (\<lambda>k. (if P x \<and> g x = k then f x else 0) +
        sum_list (map f (filter (\<lambda>x. P x \<and> g x = k) xs))) ks)"
    by (rule arg_cong [where f = sum_list], rule map_cong) auto
  also have "\<dots> = sum_list (map (\<lambda>k. if P x \<and> g x = k then f x else 0) ks) +
     sum_list (map (\<lambda>k. sum_list (map f (filter (\<lambda>x. P x \<and> g x = k) xs))) ks)"
    by (rule sum_list_addf)
  also have "\<dots> \<le> (if P x then f x else 0) + sum_list (map f (filter P xs))"
    using one Cons.IH by (rule add_mono)
  finally show ?case by (cases "P x") simp_all
qed simp

lemma subitems_work:
  assumes "length active > 1"
  shows "sum_list (map (item_work paths)
      (map (\<lambda>t. (sub_active paths active depth t, Suc depth)) (trie_options paths active depth)))
    < item_work paths (active, depth)"
proof -
  let ?P = "\<lambda>c. depth < length (path_tokens (paths ! c))"
  let ?g = "\<lambda>c. path_tokens (paths ! c) ! depth"
  let ?opts = "trie_options paths active depth"
  let ?f = "\<lambda>c. 1 + path_work paths (Suc depth) c"
  have item: "item_work paths (sub_active paths active depth t, Suc depth)
      \<le> sum_list (map ?f (filter (\<lambda>c. ?P c \<and> ?g c = t) active))" if t: "t \<in> set ?opts" for t
  proof -
    from t obtain c where "c \<in> set active" "?P c" "?g c = t"
      by (auto simp: trie_options_set)
    then have "filter (\<lambda>c. ?P c \<and> ?g c = t) active \<noteq> []"
      by (auto simp: filter_empty_conv)
    then have "1 \<le> length (filter (\<lambda>c. ?P c \<and> ?g c = t) active)"
      by (simp add: Suc_le_eq)
    then show ?thesis
      by (simp add: item_work_def sub_active_def sum_list_addf sum_list_Suc)
  qed
  have "sum_list (map (item_work paths)
      (map (\<lambda>t. (sub_active paths active depth t, Suc depth)) ?opts))
    \<le> sum_list (map (\<lambda>t. sum_list (map ?f (filter (\<lambda>c. ?P c \<and> ?g c = t) active))) ?opts)"
    by (simp add: comp_def) (rule sum_list_mono, use item in simp)
  also have "\<dots> \<le> sum_list (map ?f (filter ?P active))"
    by (rule sum_list_groups_le) simp
  also have "\<dots> \<le> sum_list (map (path_work paths depth) (filter ?P active))"
    by (rule sum_list_mono) (auto simp: path_work_def)
  also have "\<dots> \<le> sum_list (map (path_work paths depth) active)"
    by (induction active) auto
  finally show ?thesis by (simp add: item_work_def)
qed

text \<open>
  The work list, its head the top of the source's stack. Pushing the sub-items in reverse
  and popping from the end visits them in ascending token order, so here they are put in
  front in that order.
\<close>

function trie_loop ::
  "candidate_path list \<Rightarrow> (nat list \<times> nat) list \<Rightarrow> trie_node list \<Rightarrow> trie_node list" where
  "trie_loop paths [] nodes = nodes"
| "trie_loop paths ((active, depth) # stack) nodes =
     (if length active \<le> 1 then trie_loop paths stack nodes
      else
        let options = trie_options paths active depth;
            nodes' = (if length options > 1
              then nodes @ [\<lparr>node_prefix = take depth (path_tokens (paths ! hd active)),
                             node_options = options\<rparr>]
              else nodes)
        in trie_loop paths
             (map (\<lambda>t. (sub_active paths active depth t, Suc depth)) options @ stack) nodes')"
  by pat_completeness auto
termination
proof (relation "measure (\<lambda>(paths, stack, nodes). sum_list (map (item_work paths) stack))",
    goal_cases)
  case (3 paths active depth stack nodes options nodes')
  then show ?case using subitems_work [of active paths depth] by simp
qed (simp_all add: item_work_def)

declare trie_loop.simps(2) [simp del]

definition buildTrieNodes :: "candidate_path list \<Rightarrow> trie_node list" where
  "buildTrieNodes paths = trie_loop paths [([0..<length paths], 0)] []"

section \<open>Compiling a field\<close>

text \<open>The tokenisation loop: every candidate's complete \<open>suffix + value + newline\<close> text.\<close>

definition newline :: char where "newline = CHR 0x0A"

definition tokenize_candidates ::
  "(string \<Rightarrow> token list) \<Rightarrow> field_input \<Rightarrow> go_error + (candidate \<times> token list) list" where
  "tokenize_candidates enc input = res_map (\<lambda>c.
     let seq = enc (fi_suffix input @ encoded c @ [newline]) in
     if seq = [] then Inl (Errorf ''candidate %s tokenized to an empty path'' [AS (cand_id c)])
     else Inr (c, seq)) (fi_candidates input)"

definition CompileField ::
  "(string \<Rightarrow> token list) option \<Rightarrow> field_input \<Rightarrow> string \<Rightarrow> int \<Rightarrow> go_error + compiled_field" where
  "CompileField tok input mode0 treeMax0 = (case tok of None \<Rightarrow> Inl (Errorf ''nil tokenizer'' [])
   | Some enc \<Rightarrow>
     if length (fi_candidates input) < 1 \<or> length (fi_candidates input) > MaxCandidates
     then Inl (Errorf ''field needs 1-%d candidates'' [AN (int MaxCandidates)])
     else
       let mode = (if mode0 = [] then ModeAuto else mode0);
           treeMax = (if treeMax0 = 0 then DefaultTreeMax else treeMax0)
       in res_bind (tokenize_candidates enc input) (\<lambda>pairs.
         let seqs = map snd pairs;
             common = common_length (hd seqs) (length (hd seqs) - 1) (tl seqs);
             suffix = take common (hd seqs)
         in if suffix = [] then Inl (Errorf ''field suffix tokenized to an empty path'' [])
         else res_bind (compile_paths common pairs [] 0) (\<lambda>(paths, maxPath).
           let nodes = buildTrieNodes paths;
               tree = (mode = ModeTree \<or> mode = ModeAuto \<and> int (length paths) \<le> treeMax);
               rows = (if tree
                 then sum_list (map (\<lambda>n. length suffix + length (node_prefix n)) nodes)
                 else length suffix + maxPath)
           in Inr \<lparr>cf_suffix = suffix, cf_paths = paths, cf_nodes = nodes,
                   cf_tree = tree, cf_rows = rows\<rparr>)))"

end
