(* ===== verification/TrieSpec.thy ===== *)
theory TrieSpec
  imports Trie "HOL-Library.List_Lexorder"
begin

text \<open>
  What the field compiler of \<open>Trie\<close> computes. The abstract view of a list of paths is the
  set of token strings they pass through: \<open>next_tokens paths p\<close> are the tokens that follow
  the prefix \<open>p\<close>, and \<open>p\<close> is a branching point when there are two of them. The work-list loop
  is shown to list exactly the branching points, in ascending lexicographic order.
\<close>

section \<open>The abstract trie\<close>

definition toks :: "candidate_path list \<Rightarrow> nat \<Rightarrow> token list" where
  "toks paths i = path_tokens (paths ! i)"

definition actives :: "candidate_path list \<Rightarrow> token list \<Rightarrow> nat list" where
  "actives paths p = filter (\<lambda>i. prefix p (toks paths i)) [0..<length paths]"

definition next_tokens :: "candidate_path list \<Rightarrow> token list \<Rightarrow> token set" where
  "next_tokens paths p = {t. \<exists>i < length paths. prefix (p @ [t]) (toks paths i)}"

definition branching :: "candidate_path list \<Rightarrow> token list \<Rightarrow> bool" where
  "branching paths p \<longleftrightarrow> 2 \<le> card (next_tokens paths p)"

definition node_at :: "candidate_path list \<Rightarrow> token list \<Rightarrow> trie_node" where
  "node_at paths p = \<lparr>node_prefix = p, node_options = sorted_list_of_set (next_tokens paths p)\<rparr>"

definition item_at :: "candidate_path list \<Rightarrow> token list \<Rightarrow> nat list \<times> nat" where
  "item_at paths p = (actives paths p, length p)"

lemma node_at_sel [simp]:
  "node_prefix (node_at paths p) = p"
  "node_options (node_at paths p) = sorted_list_of_set (next_tokens paths p)"
  by (simp_all add: node_at_def)

lemma prefix_snoc_nth: "prefix (p @ [t]) xs \<longleftrightarrow> prefix p xs \<and> length p < length xs \<and> xs ! length p = t"
proof
  assume "prefix (p @ [t]) xs"
  then obtain zs where "xs = p @ t # zs" by (auto simp: prefix_def)
  then show "prefix p xs \<and> length p < length xs \<and> xs ! length p = t" by simp
next
  assume *: "prefix p xs \<and> length p < length xs \<and> xs ! length p = t"
  then obtain zs where xs: "xs = p @ zs" by (auto simp: prefix_def)
  with * obtain z zs' where "zs = z # zs'" by (cases zs) auto
  with xs * show "prefix (p @ [t]) xs" by simp
qed

lemma set_actives: "set (actives paths p) = {i. i < length paths \<and> prefix p (toks paths i)}"
  by (auto simp: actives_def)

lemma distinct_actives [simp]: "distinct (actives paths p)"
  by (simp add: actives_def)

lemma actives_Nil [simp]: "actives paths [] = [0..<length paths]"
  by (simp add: actives_def)

lemma next_tokens_active:
  "next_tokens paths p = {toks paths i ! length p | i.
     i \<in> set (actives paths p) \<and> length p < length (toks paths i)}"
  by (auto simp: next_tokens_def set_actives prefix_snoc_nth)

lemma finite_next_tokens [simp]: "finite (next_tokens paths p)"
  by (simp add: next_tokens_active)

lemma sub_active_actives:
  "sub_active paths (actives paths p) (length p) t = actives paths (p @ [t])"
  by (auto simp: sub_active_def actives_def prefix_snoc_nth toks_def intro!: filter_cong)

lemma trie_options_actives:
  "trie_options paths (actives paths p) (length p) = sorted_list_of_set (next_tokens paths p)"
proof (rule sorted_distinct_set_unique)
  show "set (trie_options paths (actives paths p) (length p)) =
      set (sorted_list_of_set (next_tokens paths p))"
    by (simp add: trie_options_set) (simp add: next_tokens_active toks_def)
qed simp_all

lemma two_next_tokens_two_active:
  assumes "branching paths q" "prefix p q"
  shows "1 < length (actives paths p)"
proof -
  obtain t u where tu: "t \<in> next_tokens paths q" "u \<in> next_tokens paths q" "t \<noteq> u"
    using assms(1) by (auto simp: branching_def numeral_2_eq_2 card_le_Suc_iff)
  then obtain i j where i: "i < length paths" "prefix (q @ [t]) (toks paths i)"
    and j: "j < length paths" "prefix (q @ [u]) (toks paths j)"
    by (auto simp: next_tokens_def)
  have "i \<noteq> j" using i j tu by (auto simp: prefix_snoc_nth)
  moreover have "{i, j} \<subseteq> set (actives paths p)"
    using i j assms(2) by (auto simp: set_actives prefix_snoc_nth dest: prefix_order.trans)
  ultimately have "2 \<le> card (set (actives paths p))"
    by (metis card_2_iff card_mono List.finite_set)
  then show ?thesis by (simp add: distinct_card)
qed

lemma hd_active_prefix:
  "actives paths p \<noteq> [] \<Longrightarrow> take (length p) (toks paths (hd (actives paths p))) = p"
  using list.set_sel(1) [of "actives paths p"] by (auto simp: set_actives prefix_def)

text \<open>The branching points below \<open>p\<close>: \<open>p\<close> itself, or a branching point below a child.\<close>

definition below :: "candidate_path list \<Rightarrow> token list \<Rightarrow> token list set" where
  "below paths p = {q. prefix p q \<and> branching paths q}"

lemma branching_next: "branching paths q \<Longrightarrow> strict_prefix p q \<Longrightarrow>
    \<exists>t \<in> next_tokens paths p. prefix (p @ [t]) q"
proof -
  assume *: "branching paths q" "strict_prefix p q"
  then obtain zs where "q = p @ zs" "zs \<noteq> []" by (auto simp: strict_prefix_def prefix_def)
  then obtain t r where q: "q = p @ t # r" by (cases zs) auto
  from * have "actives paths q \<noteq> []"
    using two_next_tokens_two_active [of paths q q] by auto
  then obtain i where "i < length paths" "prefix q (toks paths i)"
    by (fastforce simp: set_actives neq_Nil_conv dest: list.set_sel(1) intro: list.set_intros)
  then have "t \<in> next_tokens paths p"
    using q by (auto simp: next_tokens_def prefix_def)
  then show ?thesis using q by auto
qed

lemma below_unfold:
  "below paths p = (if branching paths p then {p} else {}) \<union>
     (\<Union>t \<in> next_tokens paths p. below paths (p @ [t]))" (is "?l = ?r")
proof
  show "?l \<subseteq> ?r"
  proof
    fix q assume "q \<in> ?l"
    then have q: "prefix p q" "branching paths q" by (auto simp: below_def)
    show "q \<in> ?r"
    proof (cases "q = p")
      case False
      with q have "strict_prefix p q" by (simp add: strict_prefix_def)
      from branching_next [OF q(2) this] q show ?thesis by (auto simp: below_def)
    qed (use q in simp)
  qed
  show "?r \<subseteq> ?l"
    by (auto simp: below_def prefix_def)
qed

section \<open>The loop lists the branching points\<close>

text \<open>\<open>p\<close> comes before \<open>q\<close>, and so does everything below \<open>p\<close> before everything below \<open>q\<close>.\<close>

definition precedes :: "token list \<Rightarrow> token list \<Rightarrow> bool" where
  "precedes p q \<longleftrightarrow> (\<forall>x y. prefix p x \<longrightarrow> prefix q y \<longrightarrow> x < y)"

lemma list_less_append_same: "(r @ xs < r @ ys) = (xs < (ys :: int list))"
  by (induction r) simp_all

lemma precedes_children: "t < u \<Longrightarrow> precedes (p @ [t]) (p @ [u])"
  by (auto simp: precedes_def prefix_def list_less_append_same)

lemma precedes_ext: "precedes p q \<Longrightarrow> prefix p p' \<Longrightarrow> prefix q q' \<Longrightarrow> precedes p' q'"
  by (meson precedes_def prefix_order.trans)

lemma less_child: "prefix (p @ [t]) x \<Longrightarrow> p < (x :: int list)"
  by (auto simp: prefix_def list_less_append_same [of p "[]", simplified])

lemma sorted_children:
  "sorted_wrt precedes (map (\<lambda>t. p @ [t]) (sorted_list_of_set (next_tokens paths p)))"
  by (simp only: sorted_wrt_map)
     (rule sorted_wrt_mono_rel [OF _ strict_sorted_list_of_set], rule precedes_children)

lemma trie_loop_spec:
  assumes "stack = map (item_at paths) ps"
    and "sorted_wrt precedes ps"
    and "sorted_wrt (<) (map node_prefix nodes)"
    and "\<And>n p x. n \<in> set nodes \<Longrightarrow> p \<in> set ps \<Longrightarrow> prefix p x \<Longrightarrow> node_prefix n < x"
  shows "set (trie_loop paths stack nodes) =
           set nodes \<union> node_at paths ` (\<Union>p \<in> set ps. below paths p) \<and>
         sorted_wrt (<) (map node_prefix (trie_loop paths stack nodes))"
  using assms
proof (induction paths stack nodes arbitrary: ps rule: trie_loop.induct)
  case (1 paths nodes)
  then show ?case by simp
next
  case (2 paths active depth stack nodes)
  then obtain p ps' where ps: "ps = p # ps'" by (cases ps) auto
  with "2.prems"(1) have item: "active = actives paths p" "depth = length p"
    and stack: "stack = map (item_at paths) ps'" by (simp_all add: item_at_def)
  show ?case
  proof (cases "length active \<le> 1")
    case True
    then have none: "below paths p = {}"
      using two_next_tokens_two_active [of paths _ p] by (auto simp: below_def item)
    have "set (trie_loop paths stack nodes) =
           set nodes \<union> node_at paths ` (\<Union>p \<in> set ps'. below paths p) \<and>
         sorted_wrt (<) (map node_prefix (trie_loop paths stack nodes))"
      by (rule "2.IH"(1)) (use True stack "2.prems" ps in auto)
    then show ?thesis using True none ps by (simp add: trie_loop.simps(2))
  next
    case False
    let ?opts = "sorted_list_of_set (next_tokens paths p)"
    let ?kids = "map (\<lambda>t. p @ [t]) ?opts"
    let ?nodes = "if 1 < length ?opts then nodes @ [node_at paths p] else nodes"
    have opts: "trie_options paths active depth = ?opts"
      by (simp add: item trie_options_actives)
    have hd: "take (length p) (path_tokens (paths ! hd (actives paths p))) = p"
      using False hd_active_prefix [of paths p] by (cases "actives paths p") (simp_all add: item toks_def)
    have len: "1 < length ?opts \<longleftrightarrow> branching paths p"
      by (auto simp: branching_def)
    have kids: "map (\<lambda>t. (sub_active paths active depth t, Suc depth)) ?opts @ stack =
        map (item_at paths) (?kids @ ps')"
      by (simp add: stack item sub_active_actives item_at_def)
    have nodes': "(if 1 < length ?opts then nodes @ [\<lparr>node_prefix = take depth
        (path_tokens (paths ! hd active)), node_options = ?opts\<rparr>] else nodes) = ?nodes"
      by (simp add: item hd node_at_def)
    have step: "trie_loop paths ((active, depth) # stack) nodes =
        trie_loop paths (map (item_at paths) (?kids @ ps')) ?nodes"
      using False by (simp only: trie_loop.simps(2) opts Let_def nodes' kids if_False)
    have before: "\<And>n x. n \<in> set nodes \<Longrightarrow> prefix p x \<Longrightarrow> node_prefix n < x"
      by (rule "2.prems"(4)) (simp_all add: ps)
    have p_ps: "precedes p q" if "q \<in> set ps'" for q
      using "2.prems"(2) that by (simp add: ps)
    have kid_ps: "precedes k q" if "k \<in> set ?kids" "q \<in> set ps'" for k q
      by (rule precedes_ext [OF p_ps [OF that(2)]]) (use that(1) in auto)
    have sorted_stack: "sorted_wrt precedes (?kids @ ps')"
      using sorted_children [of p paths] "2.prems"(2) kid_ps
      by (simp add: sorted_wrt_append ps)
    have sorted_nodes: "sorted_wrt (<) (map node_prefix ?nodes)"
      using "2.prems"(3) before [where x = p] by (simp add: sorted_wrt_append)
    have ps'_after: "\<And>n q x. n \<in> set nodes \<Longrightarrow> q \<in> set ps' \<Longrightarrow> prefix q x \<Longrightarrow> node_prefix n < x"
      by (rule "2.prems"(4)) (simp_all add: ps)
    have p_before: "p < x" if "q \<in> set ps'" "prefix q x" for q x
      using p_ps [OF that(1)] that(2) unfolding precedes_def by blast
    have after: "node_prefix n < x"
      if "n \<in> set ?nodes" "q \<in> set (?kids @ ps')" "prefix q x" for n q x
    proof -
      have "prefix p x" if "q \<in> set ?kids" using that \<open>prefix q x\<close>
        by (auto simp: prefix_def)
      with that before ps'_after p_before show ?thesis
        by (auto split: if_splits intro: less_child)
    qed
    have IH: "set (trie_loop paths (map (item_at paths) (?kids @ ps')) ?nodes) =
           set ?nodes \<union> node_at paths ` (\<Union>q \<in> set (?kids @ ps'). below paths q) \<and>
         sorted_wrt (<) (map node_prefix
           (trie_loop paths (map (item_at paths) (?kids @ ps')) ?nodes))"
      using "2.IH"(2) [OF False refl refl, unfolded opts nodes' kids, OF refl sorted_stack
          sorted_nodes after] .
    have "set ?nodes \<union> node_at paths ` (\<Union>q \<in> set (?kids @ ps'). below paths q) =
        set nodes \<union> node_at paths ` (\<Union>q \<in> set ps. below paths q)"
      using len by (simp add: ps below_unfold [of paths p] image_Un image_UN Un_ac)
    then show ?thesis using IH by (simp only: step)
  qed
qed

lemma buildTrieNodes_set:
  "set (buildTrieNodes paths) = {node_at paths p | p. branching paths p}"
  and buildTrieNodes_sorted: "sorted_wrt (<) (map node_prefix (buildTrieNodes paths))"
proof -
  have "set (buildTrieNodes paths) = set [] \<union> node_at paths ` (\<Union>p \<in> set [[]]. below paths p) \<and>
     sorted_wrt (<) (map node_prefix (buildTrieNodes paths))"
    unfolding buildTrieNodes_def
    by (rule trie_loop_spec) (simp_all add: item_at_def)
  then show "set (buildTrieNodes paths) = {node_at paths p | p. branching paths p}"
    and "sorted_wrt (<) (map node_prefix (buildTrieNodes paths))"
    by (auto simp: below_def)
qed

lemma buildTrieNodes_distinct: "distinct (map node_prefix (buildTrieNodes paths))"
  using buildTrieNodes_sorted [of paths] strict_sorted_iff by blast

section \<open>Splitting the sequences\<close>

lemma first_diff_le: "i \<le> common \<Longrightarrow> i \<le> first_diff s s0 i common \<and> first_diff s s0 i common \<le> common"
proof (induction s s0 i common rule: first_diff.induct)
  case (1 s s0 i common)
  then show ?case by (auto simp: first_diff.simps [of s s0 i common])
qed

lemma first_diff_same: "i \<le> k \<Longrightarrow> k < first_diff s s0 i common \<Longrightarrow> s ! k = s0 ! k"
proof (induction s s0 i common rule: first_diff.induct)
  case (1 s s0 i common)
  show ?case
  proof (cases "i < common \<and> s ! i = s0 ! i")
    case True
    then show ?thesis using 1 by (cases "k = i") (auto simp: first_diff.simps [of s s0 i common])
  next
    case False
    then show ?thesis using "1.prems" first_diff_le [of i common s s0]
      by (auto simp: first_diff.simps [of s s0 i common] split: if_splits)
  qed
qed

lemma first_diff_stop: "i \<le> common \<Longrightarrow> first_diff s s0 i common < common \<Longrightarrow>
    s ! first_diff s s0 i common \<noteq> s0 ! first_diff s s0 i common"
proof (induction s s0 i common rule: first_diff.induct)
  case (1 s s0 i common)
  then show ?case by (auto simp: first_diff.simps [of s s0 i common] split: if_splits)
qed

lemma common_length_le: "common_length s0 c seqs \<le> c"
proof (induction seqs arbitrary: c)
  case (Cons s seqs)
  show ?case
    using Cons.IH [of "first_diff s s0 0 (min c (length s - 1))"]
      first_diff_le [of 0 "min c (length s - 1)" s s0] by simp
qed simp

lemma common_length_each:
  "s \<in> set seqs \<Longrightarrow> common_length s0 c seqs \<le> length s - 1 \<and>
     (\<forall>k < common_length s0 c seqs. s ! k = s0 ! k)"
proof (induction seqs arbitrary: c)
  case (Cons s' seqs)
  let ?c = "first_diff s' s0 0 (min c (length s' - 1))"
  show ?case
  proof (cases "s = s'")
    case True
    have "common_length s0 ?c seqs \<le> ?c" by (rule common_length_le)
    moreover have "?c \<le> length s' - 1"
      using first_diff_le [of 0 "min c (length s' - 1)" s' s0] by simp
    moreover have "\<forall>k < ?c. s' ! k = s0 ! k" using first_diff_same [of 0] by blast
    ultimately show ?thesis using True by auto
  qed (use Cons in auto)
qed simp

lemma common_length_max:
  "(\<And>s. s \<in> set seqs \<Longrightarrow> d \<le> length s - 1 \<and> (\<forall>k < d. s ! k = s0 ! k)) \<Longrightarrow> d \<le> c \<Longrightarrow>
     d \<le> common_length s0 c seqs"
proof (induction seqs arbitrary: c)
  case (Cons s seqs)
  let ?m = "min c (length s - 1)"
  have m: "d \<le> ?m" and same: "\<forall>k < d. s ! k = s0 ! k" using Cons.prems by simp_all
  let ?f = "first_diff s s0 0 ?m"
  have "d \<le> ?f"
  proof (rule ccontr)
    assume "\<not> d \<le> ?f"
    then have f: "?f < d" by simp
    from f m have "?f < ?m" by (rule order.strict_trans2)
    with first_diff_stop [of 0 ?m s s0] have "s ! ?f \<noteq> s0 ! ?f" by blast
    with same f show False by blast
  qed
  then show ?case using Cons by simp
qed simp

lemma tokenPrefixCollision_iff: "tokenPrefixCollision a b \<longleftrightarrow> prefix a b \<or> prefix b a"
  by (induction a b rule: tokenPrefixCollision.induct) auto

text \<open>No two paths of the list are prefixes of one another.\<close>

definition prefix_free :: "candidate_path list \<Rightarrow> bool" where
  "prefix_free paths \<longleftrightarrow> (\<forall>i < length paths. \<forall>j < length paths. i \<noteq> j \<longrightarrow>
     \<not> prefix (toks paths i) (toks paths j))"

lemma find_collision_None:
  "find_collision path ps = None \<longleftrightarrow> (\<forall>p \<in> set ps. \<not> tokenPrefixCollision path (path_tokens p))"
  by (induction ps) auto

lemma prefix_free_snoc:
  "prefix_free (ps @ [p]) \<longleftrightarrow> prefix_free ps \<and> find_collision (path_tokens p) ps = None"
  unfolding prefix_free_def toks_def find_collision_None tokenPrefixCollision_iff
  by (auto simp: nth_append less_Suc_eq all_set_conv_all_nth)

lemma prefix_free_append: "prefix_free (ps @ qs) \<Longrightarrow> prefix_free ps"
  unfolding prefix_free_def toks_def
proof (intro allI impI)
  fix i j
  assume *: "\<forall>i < length (ps @ qs). \<forall>j < length (ps @ qs). i \<noteq> j \<longrightarrow>
      \<not> prefix (path_tokens ((ps @ qs) ! i)) (path_tokens ((ps @ qs) ! j))"
    and ij: "i < length ps" "j < length ps" "i \<noteq> j"
  from ij * [rule_format, of i j] show "\<not> prefix (path_tokens (ps ! i)) (path_tokens (ps ! j))"
    by (simp add: nth_append)
qed

definition split_path :: "nat \<Rightarrow> candidate \<times> token list \<Rightarrow> candidate_path" where
  "split_path common cs = \<lparr>path_candidate = fst cs, path_tokens = drop common (snd cs)\<rparr>"

lemma compile_paths_Inr:
  "prefix_free done \<Longrightarrow> compile_paths common pairs done m = Inr (paths, m') \<longleftrightarrow>
     (\<forall>(c, s) \<in> set pairs. drop common s \<noteq> []) \<and>
     paths = done @ map (split_path common) pairs \<and> prefix_free paths \<and>
     m' = fold (\<lambda>(c, s). max (length s - common)) pairs m"
proof (induction common pairs "done" m rule: compile_paths.induct)
  case (2 common c seq rest "done" m)
  let ?p = "\<lparr>path_candidate = c, path_tokens = drop common seq\<rparr>"
  show ?case
  proof (cases "drop common seq = [] \<or> find_collision (drop common seq) done \<noteq> None")
    case True
    have "\<not> prefix_free (done @ split_path common (c, seq) # map (split_path common) rest)"
      if "find_collision (drop common seq) done \<noteq> None"
      using that prefix_free_append [of "done @ [split_path common (c, seq)]"
          "map (split_path common) rest"]
      by (auto simp: prefix_free_snoc split_path_def)
    with True show ?thesis by (auto simp: Let_def split: option.splits)
  next
    case False
    then have "prefix_free (done @ [?p])" using "2.prems" by (simp add: prefix_free_snoc)
    with 2(1) [OF refl _ _ this] False show ?thesis
      by (auto simp: split_path_def max.commute Let_def)
  qed
qed auto

section \<open>A compiled field\<close>

text \<open>The token sequence of one candidate, as the model would have to write it.\<close>

definition cand_tokens :: "(string \<Rightarrow> token list) \<Rightarrow> field_input \<Rightarrow> nat \<Rightarrow> token list" where
  "cand_tokens enc input i =
     enc (fi_suffix input @ encoded (fi_candidates input ! i) @ [newline])"

lemma tokenize_candidates_Inr:
  "tokenize_candidates enc input = Inr pairs \<longleftrightarrow>
     (\<forall>i < length (fi_candidates input). cand_tokens enc input i \<noteq> []) \<and>
     pairs = map (\<lambda>i. (fi_candidates input ! i, cand_tokens enc input i))
       [0..<length (fi_candidates input)]"
proof -
  have "map (\<lambda>c. (c, enc (fi_suffix input @ encoded c @ [newline]))) (fi_candidates input) =
      map (\<lambda>i. (fi_candidates input ! i, cand_tokens enc input i)) [0..<length (fi_candidates input)]"
    by (rule nth_equalityI) (simp_all add: cand_tokens_def)
  then show ?thesis
    unfolding tokenize_candidates_def Let_def res_map_guard
    by (simp add: all_set_conv_all_nth cand_tokens_def)
qed

text \<open>A field as \<open>CompileField\<close> leaves it, and the invariant the scorers rely on.\<close>

definition field_ok :: "compiled_field \<Rightarrow> bool" where
  "field_ok cf \<longleftrightarrow> cf_suffix cf \<noteq> [] \<and> cf_paths cf \<noteq> [] \<and>
     length (cf_paths cf) \<le> MaxCandidates \<and>
     (\<forall>p \<in> set (cf_paths cf). path_tokens p \<noteq> []) \<and>
     prefix_free (cf_paths cf) \<and> cf_nodes cf = buildTrieNodes (cf_paths cf)"

definition split_point :: "(string \<Rightarrow> token list) \<Rightarrow> field_input \<Rightarrow> nat" where
  "split_point enc input = common_length (cand_tokens enc input 0)
     (length (cand_tokens enc input 0) - 1)
     (map (cand_tokens enc input) [1..<length (fi_candidates input)])"

lemma upt_0_split: "0 < n \<Longrightarrow> [0..<n] = 0 # [1..<n]"
  by (simp add: upt_rec)

lemma CompileField_unfold:
  assumes "0 < length (fi_candidates input)" "length (fi_candidates input) \<le> MaxCandidates"
    and "\<forall>i < length (fi_candidates input). cand_tokens enc input i \<noteq> []"
  shows "CompileField (Some enc) input mode treeMax =
    (let n = length (fi_candidates input); common = split_point enc input;
         suffix = take common (cand_tokens enc input 0);
         pairs = map (\<lambda>i. (fi_candidates input ! i, cand_tokens enc input i)) [0..<n];
         mode = (if mode = [] then ModeAuto else mode);
         treeMax = (if treeMax = 0 then DefaultTreeMax else treeMax)
     in if suffix = [] then Inl (Errorf ''field suffix tokenized to an empty path'' [])
     else res_bind (compile_paths common pairs [] 0) (\<lambda>(paths, maxPath).
       let tree = (mode = ModeTree \<or> mode = ModeAuto \<and> int (length paths) \<le> treeMax)
       in Inr \<lparr>cf_suffix = suffix, cf_paths = paths, cf_nodes = buildTrieNodes paths,
           cf_tree = tree, cf_rows = (if tree
             then sum_list (map (\<lambda>n. length suffix + length (node_prefix n)) (buildTrieNodes paths))
             else length suffix + maxPath)\<rparr>))"
proof -
  let ?n = "length (fi_candidates input)"
  let ?pairs = "map (\<lambda>i. (fi_candidates input ! i, cand_tokens enc input i)) [0..<?n]"
  have tok: "tokenize_candidates enc input = Inr ?pairs"
    using assms(3) by (simp add: tokenize_candidates_Inr)
  have seqs: "map snd ?pairs = cand_tokens enc input 0 # map (cand_tokens enc input) [1..<?n]"
    using assms(1) by (simp add: comp_def upt_0_split)
  have n: "\<not> (?n < 1 \<or> ?n > MaxCandidates)" using assms by simp
  show ?thesis
    unfolding CompileField_def option.case Let_def tok res_bind_simps seqs list.sel
      split_point_def [symmetric]
    using n by simp
qed

lemma split_point_le: "i < length (fi_candidates input) \<Longrightarrow>
    split_point enc input \<le> length (cand_tokens enc input i) - 1"
proof (cases i)
  case 0
  then show ?thesis by (simp add: split_point_def common_length_le)
next
  case (Suc k)
  assume "i < length (fi_candidates input)"
  with Suc have "cand_tokens enc input i \<in> set (map (cand_tokens enc input) [1..<length (fi_candidates input)])"
    by auto
  from common_length_each [OF this] show ?thesis by (simp add: split_point_def)
qed

lemma split_point_less: "i < length (fi_candidates input) \<Longrightarrow> cand_tokens enc input i \<noteq> [] \<Longrightarrow>
    split_point enc input < length (cand_tokens enc input i)"
  using split_point_le [of i input enc] by (cases "cand_tokens enc input i") auto

lemma split_point_same: "i < length (fi_candidates input) \<Longrightarrow> k < split_point enc input \<Longrightarrow>
    cand_tokens enc input i ! k = cand_tokens enc input 0 ! k"
proof (cases i)
  case (Suc j)
  assume "i < length (fi_candidates input)" and k: "k < split_point enc input"
  with Suc have "cand_tokens enc input i \<in> set (map (cand_tokens enc input) [1..<length (fi_candidates input)])"
    by auto
  from common_length_each [OF this] k show ?thesis by (simp add: split_point_def)
qed simp

text \<open>The split point is the longest one that leaves every candidate a token of its own.\<close>

lemma split_point_max:
  assumes "0 < length (fi_candidates input)"
    and "\<And>i. i < length (fi_candidates input) \<Longrightarrow> d \<le> length (cand_tokens enc input i) - 1 \<and>
           (\<forall>k < d. cand_tokens enc input i ! k = cand_tokens enc input 0 ! k)"
  shows "d \<le> split_point enc input"
  unfolding split_point_def
proof (rule common_length_max)
  fix s assume "s \<in> set (map (cand_tokens enc input) [1..<length (fi_candidates input)])"
  then show "d \<le> length s - 1 \<and> (\<forall>k < d. s ! k = cand_tokens enc input 0 ! k)"
    using assms(2) by auto
qed (use assms in simp)

lemma split_point_take:
  assumes "i < length (fi_candidates input)" "cand_tokens enc input i \<noteq> []"
    and "cand_tokens enc input 0 \<noteq> []"
  shows "take (split_point enc input) (cand_tokens enc input i) =
         take (split_point enc input) (cand_tokens enc input 0)"
proof (rule nth_equalityI)
  have "split_point enc input < length (cand_tokens enc input i)"
    using assms by (simp add: split_point_less)
  moreover have "0 < length (fi_candidates input)" using assms(1) by (rule order.strict_trans1 [OF le0])
  then have "split_point enc input < length (cand_tokens enc input 0)"
    using assms(3) by (rule split_point_less)
  ultimately show "length (take (split_point enc input) (cand_tokens enc input i)) =
      length (take (split_point enc input) (cand_tokens enc input 0))" by simp
qed (use assms in \<open>simp add: split_point_same\<close>)

lemma CompileField_nonempty:
  assumes "CompileField (Some enc) input mode treeMax = Inr cf"
  shows "0 < length (fi_candidates input)" "length (fi_candidates input) \<le> MaxCandidates"
    and "i < length (fi_candidates input) \<Longrightarrow> cand_tokens enc input i \<noteq> []"
  using assms
  by (auto simp: CompileField_def Let_def go_res tokenize_candidates_Inr Suc_le_eq split: if_splits)

definition field_paths :: "(string \<Rightarrow> token list) \<Rightarrow> field_input \<Rightarrow> candidate_path list" where
  "field_paths enc input = map (\<lambda>i. \<lparr>path_candidate = fi_candidates input ! i,
     path_tokens = drop (split_point enc input) (cand_tokens enc input i)\<rparr>)
     [0..<length (fi_candidates input)]"

lemma prefix_free_Nil [simp]: "prefix_free []"
  by (simp add: prefix_free_def)

lemma compile_paths_field:
  assumes "\<And>i. i < length (fi_candidates input) \<Longrightarrow> cand_tokens enc input i \<noteq> []"
  shows "compile_paths (split_point enc input)
      (map (\<lambda>i. (fi_candidates input ! i, cand_tokens enc input i))
        [0..<length (fi_candidates input)]) [] 0 = Inr (paths, m) \<longleftrightarrow>
    paths = field_paths enc input \<and> prefix_free paths \<and>
    m = fold (\<lambda>i. max (length (cand_tokens enc input i) - split_point enc input))
      [0..<length (fi_candidates input)] 0"
proof -
  have "\<not> length (cand_tokens enc input i) \<le> split_point enc input"
    if "i < length (fi_candidates input)" for i
    using split_point_less [OF that assms [OF that]] by simp
  then show ?thesis
    by (auto simp: compile_paths_Inr field_paths_def split_path_def comp_def fold_map)
qed

lemma CompileField_Inr:
  assumes "CompileField (Some enc) input mode treeMax = Inr cf"
  shows "cf_suffix cf = take (split_point enc input) (cand_tokens enc input 0)"
    and "cf_paths cf = field_paths enc input" and "field_ok cf"
proof -
  note ne = CompileField_nonempty [OF assms]
  have "\<forall>i < length (fi_candidates input). cand_tokens enc input i \<noteq> []" using ne(3) by blast
  with assms have *: "cf_suffix cf = take (split_point enc input) (cand_tokens enc input 0) \<and>
      cf_suffix cf \<noteq> [] \<and> cf_paths cf = field_paths enc input \<and> prefix_free (cf_paths cf) \<and>
      cf_nodes cf = buildTrieNodes (cf_paths cf)"
    by (auto simp: CompileField_unfold [OF ne(1,2)] Let_def go_res compile_paths_field [OF ne(3)]
        split: if_splits)
  have "path_tokens p \<noteq> []" if "p \<in> set (field_paths enc input)" for p
  proof -
    from that obtain i where i: "i < length (fi_candidates input)"
      and p: "path_tokens p = drop (split_point enc input) (cand_tokens enc input i)"
      by (auto simp: field_paths_def)
    show ?thesis using split_point_less [OF i ne(3) [OF i]] p by simp
  qed
  with * ne show "cf_suffix cf = take (split_point enc input) (cand_tokens enc input 0)"
    and "cf_paths cf = field_paths enc input" and "field_ok cf"
    by (auto simp: field_ok_def field_paths_def)
qed

lemma CompileField_path:
  assumes "CompileField (Some enc) input mode treeMax = Inr cf" "i < length (fi_candidates input)"
  shows "path_candidate (cf_paths cf ! i) = fi_candidates input ! i"
    and "cf_suffix cf @ path_tokens (cf_paths cf ! i) = cand_tokens enc input i"
proof -
  note ne = CompileField_nonempty [OF assms(1)]
  show "path_candidate (cf_paths cf ! i) = fi_candidates input ! i"
    using assms by (simp add: CompileField_Inr(2) [OF assms(1)] field_paths_def)
  show "cf_suffix cf @ path_tokens (cf_paths cf ! i) = cand_tokens enc input i"
    using split_point_take [OF assms(2) ne(3) [OF assms(2)] ne(3) [OF ne(1)], symmetric] assms(2)
    by (simp add: CompileField_Inr(1,2) [OF assms(1)] field_paths_def)
qed

lemma CompileField_length:
  "CompileField (Some enc) input mode treeMax = Inr cf \<Longrightarrow>
     length (cf_paths cf) = length (fi_candidates input)"
  by (simp add: CompileField_Inr(2) field_paths_def)

lemma prefix_append_same: "prefix (p @ xs) (p @ ys) \<longleftrightarrow> prefix xs ys"
  by (simp add: prefix_def)

lemma prefix_free_field_paths:
  assumes "\<And>i. i < length (fi_candidates input) \<Longrightarrow> cand_tokens enc input i \<noteq> []"
  shows "prefix_free (field_paths enc input) \<longleftrightarrow>
    (\<forall>i < length (fi_candidates input). \<forall>j < length (fi_candidates input). i \<noteq> j \<longrightarrow>
       \<not> prefix (cand_tokens enc input i) (cand_tokens enc input j))"
proof -
  let ?k = "split_point enc input"
  have "prefix (drop ?k (cand_tokens enc input i)) (drop ?k (cand_tokens enc input j)) \<longleftrightarrow>
      prefix (cand_tokens enc input i) (cand_tokens enc input j)"
    if ij: "i < length (fi_candidates input)" "j < length (fi_candidates input)" for i j
  proof -
    have 0: "0 < length (fi_candidates input)" using ij(1) by (rule order.strict_trans1 [OF le0])
    have "take ?k (cand_tokens enc input i) = take ?k (cand_tokens enc input j)"
      using split_point_take [OF ij(1) assms assms] split_point_take [OF ij(2) assms assms] ij 0
      by simp
    then show ?thesis
      using prefix_append_same [of "take ?k (cand_tokens enc input i)"
          "drop ?k (cand_tokens enc input i)" "drop ?k (cand_tokens enc input j)"]
      by (metis append_take_drop_id)
  qed
  then show ?thesis by (auto simp: prefix_free_def toks_def field_paths_def)
qed

text \<open>Exactly when a field compiles.\<close>

lemma CompileField_succeeds_iff:
  "(\<exists>cf. CompileField (Some enc) input mode treeMax = Inr cf) \<longleftrightarrow>
     0 < length (fi_candidates input) \<and> length (fi_candidates input) \<le> MaxCandidates \<and>
     (\<forall>i < length (fi_candidates input). cand_tokens enc input i \<noteq> []) \<and>
     (\<forall>i < length (fi_candidates input). \<forall>j < length (fi_candidates input). i \<noteq> j \<longrightarrow>
        \<not> prefix (cand_tokens enc input i) (cand_tokens enc input j)) \<and>
     0 < split_point enc input" (is "?l \<longleftrightarrow> ?r")
proof
  assume ?l
  then obtain cf where cf: "CompileField (Some enc) input mode treeMax = Inr cf" ..
  note ne = CompileField_nonempty [OF cf] and inr = CompileField_Inr [OF cf]
  have "0 < split_point enc input" using inr(1,3) by (auto simp: field_ok_def)
  moreover have "prefix_free (field_paths enc input)" using inr(2,3) by (simp add: field_ok_def)
  ultimately show ?r using ne prefix_free_field_paths [OF ne(3)] by simp
next
  assume r: ?r
  then have ne: "\<And>i. i < length (fi_candidates input) \<Longrightarrow> cand_tokens enc input i \<noteq> []"
    by blast
  have "take (split_point enc input) (cand_tokens enc input 0) \<noteq> []"
    using r ne [of 0] by simp
  moreover have "prefix_free (field_paths enc input)"
    using r prefix_free_field_paths [OF ne] by blast
  ultimately show ?l
    using r by (simp add: CompileField_unfold Let_def go_res compile_paths_field [OF ne] split_def)
qed

end
