(* ===== verification/Floats.thy ===== *)
theory Floats
  imports Complex_Main Prelude
begin

text \<open>
  Floating-point arithmetic. The scoring code computes on \<open>float64\<close> (and on \<open>float32\<close> logits,
  which it only compares or converts exactly to \<open>float64\<close>). The definitions of the
  development take the arithmetic as a record of operations, so that the control flow of the
  source, including what a comparison with a NaN does, is in the definition and the rounding
  is not fixed: results proved for every \<open>fops\<close> hold for IEEE arithmetic as they stand.
  \<open>real_ops\<close> is exact arithmetic, on which the mathematical meaning of a score is stated;
  \<open>nan_ops\<close> extends it with one undefined value that compares false with everything.
\<close>

record 'f fops =
  f_zero :: 'f
  f_one :: 'f
  f_add :: "'f \<Rightarrow> 'f \<Rightarrow> 'f"
  f_sub :: "'f \<Rightarrow> 'f \<Rightarrow> 'f"
  f_mul :: "'f \<Rightarrow> 'f \<Rightarrow> 'f"
  f_div :: "'f \<Rightarrow> 'f \<Rightarrow> 'f"
  f_exp :: "'f \<Rightarrow> 'f"
  f_log :: "'f \<Rightarrow> 'f"
  f_abs :: "'f \<Rightarrow> 'f"
  f_mathmax :: "'f \<Rightarrow> 'f \<Rightarrow> 'f"
  f_max :: "'f \<Rightarrow> 'f \<Rightarrow> 'f"
  f_min :: "'f \<Rightarrow> 'f \<Rightarrow> 'f"
  f_lt :: "'f \<Rightarrow> 'f \<Rightarrow> bool"
  f_of_int :: "int \<Rightarrow> 'f"
  f_isnan :: "'f \<Rightarrow> bool"
  f_isinf :: "'f \<Rightarrow> bool"
  f_1e9 :: 'f

definition real_ops :: "real fops" where
  "real_ops = \<lparr>f_zero = 0, f_one = 1, f_add = (+), f_sub = (-), f_mul = (*), f_div = (/),
     f_exp = exp, f_log = ln, f_abs = abs, f_mathmax = max, f_max = max, f_min = min,
     f_lt = (<), f_of_int = of_int, f_isnan = (\<lambda>_. False), f_isinf = (\<lambda>_. False),
     f_1e9 = 1 / 1000000000\<rparr>"

lemma real_ops_sel [simp]:
  "f_zero real_ops = 0" "f_one real_ops = 1" "f_add real_ops = (+)" "f_sub real_ops = (-)"
  "f_mul real_ops = (*)" "f_div real_ops = (/)" "f_exp real_ops = exp" "f_log real_ops = ln"
  "f_abs real_ops = abs" "f_mathmax real_ops = max" "f_max real_ops = max"
  "f_min real_ops = min" "f_lt real_ops = (<)" "f_of_int real_ops = of_int"
  "f_isnan real_ops x = False" "f_isinf real_ops x = False" "f_1e9 real_ops = 1 / 1000000000"
  by (simp_all add: real_ops_def)

definition opt2 :: "('a \<Rightarrow> 'a \<Rightarrow> 'a) \<Rightarrow> 'a option \<Rightarrow> 'a option \<Rightarrow> 'a option" where
  "opt2 f x y = (case x of None \<Rightarrow> None | Some a \<Rightarrow> map_option (f a) y)"

definition nan_ops :: "real option fops" where
  "nan_ops = \<lparr>f_zero = Some 0, f_one = Some 1, f_add = opt2 (+), f_sub = opt2 (-),
     f_mul = opt2 (*), f_div = opt2 (/), f_exp = map_option exp, f_log = map_option ln,
     f_abs = map_option abs, f_mathmax = opt2 max, f_max = opt2 max, f_min = opt2 min,
     f_lt = (\<lambda>x y. case x of None \<Rightarrow> False | Some a \<Rightarrow> (case y of None \<Rightarrow> False | Some b \<Rightarrow> a < b)),
     f_of_int = (\<lambda>i. Some (of_int i)), f_isnan = (\<lambda>x. x = None), f_isinf = (\<lambda>_. False),
     f_1e9 = Some (1 / 1000000000)\<rparr>"

section \<open>The first maximum of a list\<close>

text \<open>The loop \<open>for i := 1; i < len(xs); i++ { if xs[i] > xs[w] { w = i } }\<close>.\<close>

definition argmax :: "('f \<Rightarrow> 'f \<Rightarrow> bool) \<Rightarrow> 'f list \<Rightarrow> nat" where
  "argmax lt xs = fold (\<lambda>i w. if lt (xs ! w) (xs ! i) then i else w) [1..<length xs] 0"

lemma fold_argmax_mem:
  "fold (\<lambda>i w. if lt (xs ! w) (xs ! i) then i else w) is w \<in> insert w (set is)"
  by (induction "is" arbitrary: w) auto

lemma argmax_less: "xs \<noteq> [] \<Longrightarrow> argmax lt xs < length xs"
  using fold_argmax_mem [of lt xs "[1..<length xs]" 0] by (auto simp: argmax_def)

text \<open>
  With a comparison that is a strict weak order on the values, the loop returns the first
  index of a maximal value. The locale is the contract of such a comparison.
\<close>

locale strict_weak =
  fixes lt :: "'f \<Rightarrow> 'f \<Rightarrow> bool"
  assumes asym: "lt x y \<Longrightarrow> \<not> lt y x"
    and neg_trans: "\<not> lt x y \<Longrightarrow> \<not> lt y z \<Longrightarrow> \<not> lt x z"
begin

lemma irrefl: "\<not> lt x x"
  using asym by blast

lemma lt_not_lt_trans: "lt x y \<Longrightarrow> \<not> lt z y \<Longrightarrow> lt x z"
  using neg_trans by blast

lemma fold_argmax:
  "n \<ge> 1 \<Longrightarrow>
     (let m = fold (\<lambda>i w. if lt (xs ! w) (xs ! i) then i else w) [1..<n] 0 in
       m < n \<and> (\<forall>i < n. \<not> lt (xs ! m) (xs ! i)) \<and> (\<forall>i < m. lt (xs ! i) (xs ! m)))"
proof (induction n rule: dec_induct)
  case base
  then show ?case by (simp add: irrefl)
next
  case (step n)
  let ?m = "fold (\<lambda>i w. if lt (xs ! w) (xs ! i) then i else w) [1..<n] 0"
  have m: "?m < n" "\<And>i. i < n \<Longrightarrow> \<not> lt (xs ! ?m) (xs ! i)"
    "\<And>i. i < ?m \<Longrightarrow> lt (xs ! i) (xs ! ?m)"
    using step.IH by (simp_all add: Let_def)
  have f: "fold (\<lambda>i w. if lt (xs ! w) (xs ! i) then i else w) [1..<Suc n] 0 =
      (if lt (xs ! ?m) (xs ! n) then n else ?m)"
    using step.hyps by simp
  show ?case
  proof (cases "lt (xs ! ?m) (xs ! n)")
    case True
    then have "lt (xs ! i) (xs ! n)" if "i < n" for i
      using m(2) [OF that] neg_trans by blast
    then show ?thesis unfolding f Let_def using True
      by (auto simp: less_Suc_eq irrefl dest: asym)
  next
    case False
    then show ?thesis unfolding f Let_def using m by (auto simp: less_Suc_eq)
  qed
qed

lemma argmax_max: "i < length xs \<Longrightarrow> \<not> lt (xs ! argmax lt xs) (xs ! i)"
  and argmax_first: "i < argmax lt xs \<Longrightarrow> lt (xs ! i) (xs ! argmax lt xs)"
proof -
  show "i < length xs \<Longrightarrow> \<not> lt (xs ! argmax lt xs) (xs ! i)"
    using fold_argmax [of "length xs" xs]
    by (cases "xs = []") (auto simp: Let_def argmax_def Suc_le_eq)
  show "i < argmax lt xs \<Longrightarrow> lt (xs ! i) (xs ! argmax lt xs)"
    using fold_argmax [of "length xs" xs]
    by (cases "xs = []") (auto simp: Let_def argmax_def Suc_le_eq)
qed

end

interpretation real_lt: strict_weak "f_lt real_ops"
  by unfold_locales auto

end
