(* ===== verification/TreeScore.thy ===== *)
theory TreeScore
  imports TrieSpec Floats
begin

text \<open>
  \<open>model/gosystemone/trie.go\<close>, \<open>FinishTree\<close>: the per-node candidate logits become a
  distribution over the full candidate paths. The definitions compute with any float
  arithmetic \<open>ops\<close>; the loops, their order and their error exits are the source's.
\<close>

fun sameTokens :: "token list \<Rightarrow> token list \<Rightarrow> bool" where
  "sameTokens [] [] = True"
| "sameTokens (a # as) (b # bs) = (if a \<noteq> b then False else sameTokens as bs)"
| "sameTokens _ _ = False"

text \<open>The log-probabilities of one node: log-softmax of its scores.\<close>

definition node_max :: "'f fops \<Rightarrow> 'f list \<Rightarrow> 'f" where
  "node_max ops scores = fold (\<lambda>s m. f_mathmax ops m s) (tl scores) (hd scores)"

definition node_log_probs :: "'f fops \<Rightarrow> 'f list \<Rightarrow> 'f list" where
  "node_log_probs ops scores =
     (let mx = node_max ops scores;
          z = fold (\<lambda>s z. f_add ops z (f_exp ops (f_sub ops s mx))) scores (f_zero ops);
          lz = f_add ops mx (f_log ops z)
      in map (\<lambda>s. f_sub ops s lz) scores)"

fun node_scores ::
  "'f fops \<Rightarrow> nat \<Rightarrow> trie_node list \<Rightarrow> 'f list list \<Rightarrow> go_error + 'f list list" where
  "node_scores ops i (node # nodes) (scores # rest) =
     (if length scores \<noteq> length (node_options node)
      then Inl (Errorf ''node %d logits=%d, want %d''
             [AN (int i), AN (int (length scores)), AN (int (length (node_options node)))])
      else if scores = [] then Inl Panic
      else res_bind (node_scores ops (Suc i) nodes rest) (\<lambda>ls.
             Inr (node_log_probs ops scores # ls)))"
| "node_scores ops i _ _ = Inr []"

fun option_index :: "token \<Rightarrow> token list \<Rightarrow> nat option" where
  "option_index t [] = None"
| "option_index t (u # us) = (if u = t then Some 0 else map_option Suc (option_index t us))"

fun path_log_prob ::
  "'f fops \<Rightarrow> candidate_path \<Rightarrow> nat \<Rightarrow> trie_node list \<Rightarrow> 'f list list \<Rightarrow> 'f \<Rightarrow> go_error + 'f" where
  "path_log_prob ops path n (node # nodes) (lp # lps) acc =
     (if length (node_prefix node) \<ge> length (path_tokens path) \<or>
         \<not> sameTokens (node_prefix node) (take (length (node_prefix node)) (path_tokens path))
      then path_log_prob ops path (Suc n) nodes lps acc
      else case option_index (path_tokens path ! length (node_prefix node)) (node_options node) of
        None \<Rightarrow> Inl (Errorf ''candidate %s token missing from trie node %d''
                  [AS (cand_id (path_candidate path)), AN (int n)])
      | Some j \<Rightarrow> path_log_prob ops path (Suc n) nodes lps (f_add ops acc (lp ! j)))"
| "path_log_prob ops path n _ _ acc = Inr acc"

definition normalise :: "'f fops \<Rightarrow> 'f list \<Rightarrow> nat \<Rightarrow> 'f list" where
  "normalise ops scores winner =
     (let z = fold (\<lambda>s z. f_add ops z (f_exp ops (f_sub ops s (scores ! winner)))) scores (f_zero ops)
      in map (\<lambda>s. f_div ops (f_exp ops (f_sub ops s (scores ! winner))) z) scores)"

definition FinishTree ::
  "'f fops \<Rightarrow> compiled_field \<Rightarrow> 'f list list \<Rightarrow> go_error + (nat \<times> 'f list)" where
  "FinishTree ops field nodeLogits =
     (if length nodeLogits \<noteq> length (cf_nodes field)
      then Inl (Errorf ''node logits=%d, want %d''
             [AN (int (length nodeLogits)), AN (int (length (cf_nodes field)))])
      else res_bind (node_scores ops 0 (cf_nodes field) nodeLogits) (\<lambda>nodeLogP.
        res_bind (res_map (\<lambda>p. path_log_prob ops p 0 (cf_nodes field) nodeLogP (f_zero ops))
            (cf_paths field)) (\<lambda>pathLogP.
          let winner = argmax (f_lt ops) pathLogP
          in Inr (winner, normalise ops pathLogP winner))))"

section \<open>Shape: a compiled field never fails on logits of the right shape\<close>

definition logits_shape :: "compiled_field \<Rightarrow> 'f list list \<Rightarrow> bool" where
  "logits_shape cf logits \<longleftrightarrow>
     list_all2 (\<lambda>node scores. length scores = length (node_options node)) (cf_nodes cf) logits"

lemma sameTokens_iff [simp]: "sameTokens a b \<longleftrightarrow> a = b"
  by (induction a b rule: sameTokens.induct) auto

lemma length_node_log_probs [simp]: "length (node_log_probs ops scores) = length scores"
  by (simp add: node_log_probs_def Let_def)

lemma length_normalise [simp]: "length (normalise ops xs w) = length xs"
  by (simp add: normalise_def Let_def)

lemma option_index_Some: "t \<in> set us \<Longrightarrow> \<exists>j. option_index t us = Some j \<and> j < length us \<and> us ! j = t"
  by (induction us) auto

lemma option_index_distinct: "distinct us \<Longrightarrow> j < length us \<Longrightarrow> option_index (us ! j) us = Some j"
  by (induction us arbitrary: j) (auto simp: nth_Cons split: nat.splits)

lemma node_scores_Inr:
  "list_all2 (\<lambda>node scores. length scores = length (node_options node) \<and> node_options node \<noteq> [])
     nodes logits \<Longrightarrow> node_scores ops i nodes logits = Inr (map (node_log_probs ops) logits)"
  by (induction nodes logits arbitrary: i rule: list_all2_induct) auto

text \<open>A node lies on a path when its prefix is a proper prefix of it.\<close>

definition on_path :: "candidate_path \<Rightarrow> token list \<Rightarrow> bool" where
  "on_path path p \<longleftrightarrow> length p < length (path_tokens path) \<and> take (length p) (path_tokens path) = p"

definition lp_at :: "trie_node \<Rightarrow> 'f list \<Rightarrow> candidate_path \<Rightarrow> 'f" where
  "lp_at node lp path = lp ! the (option_index (path_tokens path ! length (node_prefix node)) (node_options node))"

lemma path_log_prob_Inr:
  "length nodes = length lps \<Longrightarrow>
   (\<And>node. node \<in> set nodes \<Longrightarrow> on_path path (node_prefix node) \<Longrightarrow>
      path_tokens path ! length (node_prefix node) \<in> set (node_options node)) \<Longrightarrow>
   path_log_prob ops path n nodes lps acc =
     Inr (fold (\<lambda>(node, lp) acc. if on_path path (node_prefix node)
            then f_add ops acc (lp_at node lp path) else acc) (zip nodes lps) acc)"
proof (induction nodes lps arbitrary: n acc rule: list_induct2)
  case (Cons node nodes lp lps)
  show ?case
  proof (cases "on_path path (node_prefix node)")
    case True
    with Cons.prems have "path_tokens path ! length (node_prefix node) \<in> set (node_options node)"
      by simp
    from option_index_Some [OF this] obtain j where
      "option_index (path_tokens path ! length (node_prefix node)) (node_options node) = Some j"
      by blast
    with True Cons show ?thesis by (auto simp: on_path_def lp_at_def)
  next
    case False
    then have "length (path_tokens path) \<le> length (node_prefix node) \<or>
        node_prefix node \<noteq> take (length (node_prefix node)) (path_tokens path)"
      by (auto simp: on_path_def)
    with False Cons show ?thesis by simp
  qed
qed simp

lemma on_path_prefix: "on_path path p \<longleftrightarrow> strict_prefix p (path_tokens path)"
proof
  assume "on_path path p"
  then have "prefix p (path_tokens path)" "length p < length (path_tokens path)"
    by (auto simp: on_path_def) (metis take_is_prefix)
  then show "strict_prefix p (path_tokens path)" by (auto simp: strict_prefix_def)
next
  assume "strict_prefix p (path_tokens path)"
  then show "on_path path p"
    by (auto simp: on_path_def strict_prefix_def prefix_def)
qed

lemma node_token_in_options:
  assumes "node \<in> set (buildTrieNodes paths)" "path \<in> set paths" "on_path path (node_prefix node)"
  shows "path_tokens path ! length (node_prefix node) \<in> set (node_options node)"
proof -
  from assms(1) obtain p where node: "node = node_at paths p" by (auto simp: buildTrieNodes_set)
  from assms(2) obtain i where i: "i < length paths" "path = paths ! i" by (auto simp: in_set_conv_nth)
  with assms(3) node have "prefix (p @ [path_tokens path ! length p]) (toks paths i)"
    unfolding prefix_snoc_nth toks_def
    using on_path_prefix [of path p] by (auto simp: on_path_def strict_prefix_def)
  with i have "path_tokens path ! length p \<in> next_tokens paths p"
    by (auto simp: next_tokens_def)
  with node show ?thesis by simp
qed

lemma node_options_nonempty: "node \<in> set (buildTrieNodes paths) \<Longrightarrow> 2 \<le> length (node_options node)"
  by (auto simp: buildTrieNodes_set branching_def)

text \<open>The scores a field's paths get, before normalisation.\<close>

definition path_scores :: "'f fops \<Rightarrow> compiled_field \<Rightarrow> 'f list list \<Rightarrow> 'f list" where
  "path_scores ops cf logits = map (\<lambda>path.
     fold (\<lambda>(node, lp) acc. if on_path path (node_prefix node)
            then f_add ops acc (lp_at node lp path) else acc)
       (zip (cf_nodes cf) (map (node_log_probs ops) logits)) (f_zero ops)) (cf_paths cf)"

lemma FinishTree_total:
  assumes "field_ok cf" "logits_shape cf logits"
  shows "FinishTree ops cf logits =
    Inr (argmax (f_lt ops) (path_scores ops cf logits),
         normalise ops (path_scores ops cf logits) (argmax (f_lt ops) (path_scores ops cf logits)))"
proof -
  have nodes: "cf_nodes cf = buildTrieNodes (cf_paths cf)" using assms(1) by (simp add: field_ok_def)
  have len: "length (cf_nodes cf) = length logits"
    using assms(2) by (auto simp: logits_shape_def dest: list_all2_lengthD)
  have "list_all2 (\<lambda>node scores. length scores = length (node_options node) \<and>
      node_options node \<noteq> []) (cf_nodes cf) logits"
    unfolding list_all2_conv_all_nth
  proof (intro conjI allI impI)
    fix i assume i: "i < length (cf_nodes cf)"
    with assms(2) show "length (logits ! i) = length (node_options (cf_nodes cf ! i))"
      by (simp add: logits_shape_def list_all2_conv_all_nth)
    from i have "cf_nodes cf ! i \<in> set (buildTrieNodes (cf_paths cf))" by (simp flip: nodes)
    from node_options_nonempty [OF this] show "node_options (cf_nodes cf ! i) \<noteq> []" by auto
  qed (rule len)
  note scores = node_scores_Inr [OF this]
  have "res_map (\<lambda>p. path_log_prob ops p 0 (cf_nodes cf) (map (node_log_probs ops) logits)
      (f_zero ops)) (cf_paths cf) = Inr (path_scores ops cf logits)"
    unfolding path_scores_def res_map_Inr list_all2_map2
    by (rule list_all2_same [THEN iffD2], intro ballI path_log_prob_Inr)
       (simp add: len, rule node_token_in_options [where paths = "cf_paths cf"], simp_all add: nodes)
  then show ?thesis by (simp add: FinishTree_def len scores Let_def)
qed

section \<open>Exact arithmetic: the scores are the constrained distribution\<close>

text \<open>On the reals, a node's log-probabilities are the logarithm of the softmax of its scores.\<close>

definition softmax :: "real list \<Rightarrow> nat \<Rightarrow> real" where
  "softmax scores j = exp (scores ! j) / sum_list (map exp scores)"

lemma fold_add_exp: "fold (\<lambda>s z. z + f s) xs a = a + sum_list (map f xs)" for f :: "'a \<Rightarrow> real"
  by (induction xs arbitrary: a) simp_all

lemma sum_exp_pos: "xs \<noteq> [] \<Longrightarrow> 0 < sum_list (map (\<lambda>x. exp (f x)) xs)" for f :: "'a \<Rightarrow> real"
proof (induction xs)
  case (Cons x xs)
  have "0 \<le> sum_list (map (\<lambda>x. exp (f x)) xs)" by (rule sum_list_nonneg) auto
  then show ?case by (simp add: add_pos_nonneg)
qed simp

lemma exp_node_log_probs:
  assumes "j < length scores"
  shows "exp (node_log_probs real_ops scores ! j) = softmax scores j"
proof -
  let ?mx = "node_max real_ops scores"
  have ne: "scores \<noteq> []" using assms by auto
  have pos: "0 < sum_list (map (\<lambda>s. exp (s - ?mx)) scores)" using ne by (rule sum_exp_pos)
  have "sum_list (map (\<lambda>s. exp (s - m)) xs) = sum_list (map exp xs) / exp m" for m :: real and xs
    by (induction xs) (simp_all add: exp_diff add_divide_distrib)
  moreover have "exp (node_log_probs real_ops scores ! j) =
      exp (scores ! j) / (exp ?mx * sum_list (map (\<lambda>s. exp (s - ?mx)) scores))"
    using assms pos by (simp add: node_log_probs_def Let_def fold_add_exp exp_diff exp_add)
  ultimately show ?thesis by (simp add: softmax_def)
qed

lemma sum_softmax: "scores \<noteq> [] \<Longrightarrow> (\<Sum>j < length scores. softmax scores j) = 1"
proof -
  assume "scores \<noteq> []"
  then have "0 < sum_list (map exp scores)" using sum_exp_pos [of scores "\<lambda>x. x"] by simp
  moreover have "(\<Sum>j < length scores. softmax scores j) =
      (\<Sum>j < length scores. exp (scores ! j)) / sum_list (map exp scores)"
    by (simp add: softmax_def sum_divide_distrib)
  moreover have "(\<Sum>j < length scores. exp (scores ! j)) = sum_list (map exp scores)"
    by (simp add: sum_list_sum_nth atLeast0LessThan)
  ultimately show ?thesis by simp
qed

text \<open>
  A probability for every branching point: \<open>P p t\<close> is the chance of token \<open>t\<close> after the prefix
  \<open>p\<close>. The weight of a path from depth \<open>d\<close> on is the product over its branching points; the
  weights of the paths below any prefix sum to one.
\<close>

definition step_prob :: "candidate_path list \<Rightarrow> (token list \<Rightarrow> token \<Rightarrow> real) \<Rightarrow> nat \<Rightarrow> nat \<Rightarrow> real" where
  "step_prob paths P i k = (let p = take k (toks paths i) in
     if branching paths p then P p (toks paths i ! k) else 1)"

definition path_weight ::
  "candidate_path list \<Rightarrow> (token list \<Rightarrow> token \<Rightarrow> real) \<Rightarrow> nat \<Rightarrow> nat \<Rightarrow> real" where
  "path_weight paths P d i = (\<Prod>k \<in> {d..<length (toks paths i)}. step_prob paths P i k)"

lemma actives_split:
  assumes "\<And>i. i \<in> set (actives paths p) \<Longrightarrow> length p < length (toks paths i)"
  shows "set (actives paths p) = (\<Union>t \<in> next_tokens paths p. set (actives paths (p @ [t])))"
  using assms by (auto simp: set_actives next_tokens_def prefix_snoc_nth)

lemma weights_sum_to_one:
  assumes "prefix_free paths"
    and P: "\<And>q. branching paths q \<Longrightarrow> (\<Sum>t \<in> next_tokens paths q. P q t) = 1"
    and bound: "\<And>i. i < length paths \<Longrightarrow> length (toks paths i) \<le> M"
  shows "set (actives paths p) \<noteq> {} \<Longrightarrow>
    (\<Sum>i \<in> set (actives paths p). path_weight paths P (length p) i) = 1"
proof (induction "M - length p" arbitrary: p rule: less_induct)
  case less
  show ?case
  proof (cases "\<exists>i \<in> set (actives paths p). length (toks paths i) \<le> length p")
    case True
    then obtain i where i: "i < length paths" "prefix p (toks paths i)" "length (toks paths i) \<le> length p"
      by (auto simp: set_actives)
    then have eq: "toks paths i = p" by (auto simp: prefix_def)
    have "set (actives paths p) = {i}"
      using assms(1) i eq unfolding prefix_free_def set_actives by blast
    then show ?thesis using i by (simp add: path_weight_def)
  next
    case False
    then have long: "\<And>i. i \<in> set (actives paths p) \<Longrightarrow> length p < length (toks paths i)"
      by (meson not_le)
    let ?N = "next_tokens paths p"
    let ?c = "\<lambda>t. if branching paths p then P p t else 1"
    have step: "path_weight paths P (length p) i = ?c t * path_weight paths P (Suc (length p)) i"
      if "i \<in> set (actives paths (p @ [t]))" for i t
    proof -
      from that have "prefix p (toks paths i)" "length p < length (toks paths i)"
        "toks paths i ! length p = t" by (auto simp: set_actives prefix_snoc_nth)
      moreover from this have "take (length p) (toks paths i) = p" by (auto simp: prefix_def)
      ultimately show ?thesis
        by (simp add: path_weight_def step_prob_def prod.atLeast_Suc_lessThan)
    qed
    have child: "(\<Sum>i \<in> set (actives paths (p @ [t])). path_weight paths P (length p) i) = ?c t"
      if t: "t \<in> ?N" for t
    proof -
      from t obtain j where j: "j < length paths" "prefix (p @ [t]) (toks paths j)"
        by (auto simp: next_tokens_def)
      then have ne: "set (actives paths (p @ [t])) \<noteq> {}" by (auto simp: set_actives)
      have "length p < length (toks paths j)" using j by (simp add: prefix_snoc_nth)
      then have "M - length (p @ [t]) < M - length p" using bound [OF j(1)] by simp
      from less.hyps [OF this ne]
      have "(\<Sum>i \<in> set (actives paths (p @ [t])). path_weight paths P (Suc (length p)) i) = 1"
        by simp
      then show ?thesis using step by (simp flip: sum_distrib_left)
    qed
    have "(\<Sum>i \<in> set (actives paths p). path_weight paths P (length p) i) =
        (\<Sum>t \<in> ?N. \<Sum>i \<in> set (actives paths (p @ [t])). path_weight paths P (length p) i)"
      by (subst actives_split [OF long], assumption, rule sum.UNION_disjoint)
         (auto simp: set_actives prefix_snoc_nth)
    also have "\<dots> = (\<Sum>t \<in> ?N. ?c t)" by (rule sum.cong [OF refl child])
    also have "\<dots> = 1"
    proof (cases "branching paths p")
      case True
      then show ?thesis using P by simp
    next
      case nb: False
      from less.prems obtain i where "i \<in> set (actives paths p)" by (meson ex_in_conv)
      with long have "toks paths i ! length p \<in> ?N" by (auto simp: next_tokens_active)
      then have "0 < card ?N" by (auto simp: card_gt_0_iff)
      then have "card ?N = 1" using nb unfolding branching_def by linarith
      with nb show ?thesis by simp
    qed
    finally show ?thesis .
  qed
qed

text \<open>The probability that the logits give to token \<open>t\<close> at the branching point \<open>p\<close>.\<close>

definition branch_prob :: "compiled_field \<Rightarrow> real list list \<Rightarrow> token list \<Rightarrow> token \<Rightarrow> real" where
  "branch_prob cf logits p t =
     (case map_of (zip (map node_prefix (cf_nodes cf)) logits) p of None \<Rightarrow> 0
      | Some scores \<Rightarrow> softmax scores (the (option_index t (sorted_list_of_set (next_tokens (cf_paths cf) p)))))"

text \<open>The exact constrained distribution: the product of the branch probabilities along a path.\<close>

definition exact_prob :: "compiled_field \<Rightarrow> real list list \<Rightarrow> nat \<Rightarrow> real" where
  "exact_prob cf logits i = path_weight (cf_paths cf) (branch_prob cf logits) 0 i"

lemma fold_log_sum:
  "fold (\<lambda>x acc. if c x then acc + f x else acc) xs a = a + sum_list (map f (filter c xs))"
  for f :: "'a \<Rightarrow> real"
  by (induction xs arbitrary: a) auto

lemma exp_sum_list: "exp (sum_list xs) = prod_list (map exp xs)" for xs :: "real list"
  by (induction xs) (simp_all add: exp_add)

lemma branching_on_path_prod:
  "(\<Prod>p \<in> {p. branching paths p \<and> on_path (paths ! i) p}. P p (toks paths i ! length p)) =
     path_weight paths P 0 i"
proof -
  let ?ts = "toks paths i"
  have set: "{p. branching paths p \<and> on_path (paths ! i) p} =
      (\<lambda>k. take k ?ts) ` {k \<in> {0..<length ?ts}. branching paths (take k ?ts)}" (is "?A = ?f ` ?K")
  proof
    show "?A \<subseteq> ?f ` ?K"
    proof
      fix p assume "p \<in> ?A"
      then have "branching paths p" "length p < length ?ts" and p: "take (length p) ?ts = p"
        by (simp_all add: on_path_def toks_def)
      then show "p \<in> ?f ` ?K" by (intro image_eqI [of _ _ "length p"]) (simp_all add: p)
    qed
  qed (auto simp: on_path_def toks_def min_def)
  have inj: "inj_on ?f ?K"
  proof (rule inj_onI)
    fix j k assume jk: "j \<in> ?K" "k \<in> ?K" and eq: "?f j = ?f k"
    from arg_cong [OF eq, of length] have "min (length ?ts) j = min (length ?ts) k"
      by (simp only: length_take)
    with jk show "j = k" by (auto simp: min_def split: if_splits)
  qed
  have "(\<Prod>p \<in> ?A. P p (?ts ! length p)) = (\<Prod>k \<in> ?K. P (take k ?ts) (?ts ! k))"
    unfolding set by (subst prod.reindex [OF inj]) (auto intro!: prod.cong simp: min_def)
  also have "\<dots> = path_weight paths P 0 i"
    by (simp add: path_weight_def step_prob_def Let_def flip: prod.inter_filter)
  finally show ?thesis .
qed

lemma exp_path_scores:
  assumes ok: "field_ok cf" and shape: "logits_shape cf logits" and i: "i < length (cf_paths cf)"
  shows "exp (path_scores real_ops cf logits ! i) = exact_prob cf logits i"
proof -
  let ?path = "cf_paths cf ! i" and ?nodes = "cf_nodes cf"
  let ?h = "\<lambda>p. branch_prob cf logits p (toks (cf_paths cf) i ! length p)"
  have nodes: "?nodes = buildTrieNodes (cf_paths cf)" using ok by (simp add: field_ok_def)
  have len: "length ?nodes = length logits"
    using shape by (auto simp: logits_shape_def dest: list_all2_lengthD)
  have dist: "distinct (map node_prefix ?nodes)" by (simp add: nodes buildTrieNodes_distinct)
  have score: "exp (lp_at node (node_log_probs real_ops scores) ?path) = ?h (node_prefix node)"
    if mem: "(node, scores) \<in> set (zip ?nodes logits)" and on: "on_path ?path (node_prefix node)"
    for node scores
  proof -
    from mem have nmem: "node \<in> set (buildTrieNodes (cf_paths cf))"
      by (simp flip: nodes) (erule set_zip_leftD)
    then have node: "node_options node = sorted_list_of_set (next_tokens (cf_paths cf) (node_prefix node))"
      by (auto simp: buildTrieNodes_set)
    have w: "length scores = length (node_options node)"
      using shape mem unfolding logits_shape_def list_all2_iff by auto
    from nmem i on have "?path \<in> set (cf_paths cf)" by simp
    from node_token_in_options [OF nmem this on]
    obtain j where j: "option_index (path_tokens ?path ! length (node_prefix node)) (node_options node) = Some j"
      "j < length (node_options node)"
      using option_index_Some by blast
    have "map_of (zip (map node_prefix ?nodes) logits) (node_prefix node) = Some scores"
    proof (rule map_of_is_SomeI)
      show "distinct (map fst (zip (map node_prefix ?nodes) logits))" using dist len by simp
      show "(node_prefix node, scores) \<in> set (zip (map node_prefix ?nodes) logits)"
        using mem by (auto simp: zip_map1 intro: rev_image_eqI)
    qed
    then have "?h (node_prefix node) = softmax scores j"
      using j by (simp add: branch_prob_def toks_def flip: node)
    then show ?thesis using j w by (simp add: lp_at_def exp_node_log_probs)
  qed
  let ?on = "\<lambda>(node :: trie_node, lp :: real list). on_path ?path (node_prefix node)"
  have "exp (path_scores real_ops cf logits ! i) =
      prod_list (map (\<lambda>(node, lp). exp (lp_at node lp ?path))
        (filter ?on (zip ?nodes (map (node_log_probs real_ops) logits))))"
    using i unfolding path_scores_def real_ops_sel split_def
    by (simp only: nth_map fold_log_sum add_0 exp_sum_list map_map comp_def)
  also have "\<dots> = prod_list (map (\<lambda>(node, s). ?h (node_prefix node)) (filter ?on (zip ?nodes logits)))"
    by (simp add: zip_map2 filter_map comp_def split_def)
       (rule arg_cong [where f = prod_list], rule map_cong, use score in \<open>auto simp: split_def\<close>)
  also have "\<dots> = prod_list (map ?h (filter (on_path ?path) (map node_prefix ?nodes)))"
  proof -
    have "map fst (zip ?nodes logits) = ?nodes" using len by simp
    then have "map node_prefix ?nodes = map (\<lambda>(n, s). node_prefix n) (zip ?nodes logits)"
      by (metis (no_types, lifting) map_map comp_def split_def map_eq_conv)
    then show ?thesis by (simp add: filter_map comp_def split_def)
  qed
  also have "\<dots> = (\<Prod>p \<in> set (filter (on_path ?path) (map node_prefix ?nodes)). ?h p)"
    by (rule prod.distinct_set_conv_list [symmetric]) (use dist in simp)
  also have "set (filter (on_path ?path) (map node_prefix ?nodes)) =
      {p. branching (cf_paths cf) p \<and> on_path ?path p}"
    by (auto simp: nodes buildTrieNodes_set image_iff)
  finally show ?thesis by (simp add: branching_on_path_prod exact_prob_def)
qed

lemma branch_prob_sum:
  assumes "field_ok cf" "logits_shape cf logits" "branching (cf_paths cf) q"
  shows "(\<Sum>t \<in> next_tokens (cf_paths cf) q. branch_prob cf logits q t) = 1"
proof -
  let ?N = "next_tokens (cf_paths cf) q" and ?us = "sorted_list_of_set (next_tokens (cf_paths cf) q)"
  have nodes: "cf_nodes cf = buildTrieNodes (cf_paths cf)" using assms(1) by (simp add: field_ok_def)
  have len: "length (cf_nodes cf) = length logits"
    using assms(2) by (auto simp: logits_shape_def dest: list_all2_lengthD)
  have "node_at (cf_paths cf) q \<in> set (cf_nodes cf)"
    using assms(3) by (auto simp: nodes buildTrieNodes_set)
  then obtain k where k: "k < length (cf_nodes cf)" "cf_nodes cf ! k = node_at (cf_paths cf) q"
    by (auto simp: in_set_conv_nth)
  have "map_of (zip (map node_prefix (cf_nodes cf)) logits) q = Some (logits ! k)"
    by (rule map_of_is_SomeI)
       (use k len buildTrieNodes_distinct [of "cf_paths cf"] in \<open>auto simp: nodes [symmetric] in_set_zip intro!: exI [of _ k]\<close>)
  moreover have w: "length (logits ! k) = length ?us"
    using assms(2) k by (auto simp: logits_shape_def list_all2_conv_all_nth)
  ultimately have bp: "branch_prob cf logits q (?us ! j) = softmax (logits ! k) j" if "j < length ?us" for j
    using that by (simp add: branch_prob_def option_index_distinct)
  have "(\<Sum>t \<in> ?N. branch_prob cf logits q t) = sum_list (map (branch_prob cf logits q) ?us)"
    using sum.distinct_set_conv_list [of ?us "branch_prob cf logits q"] by simp
  also have "\<dots> = (\<Sum>j < length ?us. branch_prob cf logits q (?us ! j))"
    by (simp add: sum_list_sum_nth atLeast0LessThan)
  also have "\<dots> = (\<Sum>j < length (logits ! k). softmax (logits ! k) j)"
    using w bp by simp
  also have "\<dots> = 1"
    by (rule sum_softmax) (use w assms(3) in \<open>auto simp: branching_def\<close>)
  finally show ?thesis .
qed

lemma exact_prob_sum:
  assumes "field_ok cf" "logits_shape cf logits"
  shows "(\<Sum>i < length (cf_paths cf). exact_prob cf logits i) = 1"
proof -
  let ?paths = "cf_paths cf"
  have "(\<Sum>i \<in> set (actives ?paths []). path_weight ?paths (branch_prob cf logits) (length ([] :: token list)) i) = 1"
  proof (rule weights_sum_to_one)
    show "length (toks ?paths i) \<le> Max ((\<lambda>i. length (toks ?paths i)) ` {..<length ?paths})"
      if "i < length ?paths" for i using that by simp
  qed (use assms branch_prob_sum in \<open>auto simp: field_ok_def\<close>)
  then show ?thesis by (simp add: exact_prob_def atLeast0LessThan)
qed

lemma FinishTree_exact:
  assumes "field_ok cf" "logits_shape cf logits"
  shows "\<exists>w. FinishTree real_ops cf logits =
      Inr (w, map (exact_prob cf logits) [0..<length (cf_paths cf)]) \<and>
    w < length (cf_paths cf) \<and>
    (\<forall>i < length (cf_paths cf). exact_prob cf logits i \<le> exact_prob cf logits w) \<and>
    (\<forall>i < w. exact_prob cf logits i < exact_prob cf logits w)"
proof -
  let ?s = "path_scores real_ops cf logits" and ?n = "length (cf_paths cf)"
  let ?w = "argmax (f_lt real_ops) ?s"
  note total = FinishTree_total [OF assms, of real_ops]
  have len: "length ?s = ?n" by (simp add: path_scores_def)
  have "?s \<noteq> []" using assms(1) by (simp add: path_scores_def field_ok_def)
  from argmax_less [OF this, of "f_lt real_ops"] have w: "?w < ?n" by (simp only: len)
  have exp: "\<And>i. i < ?n \<Longrightarrow> exp (?s ! i) = exact_prob cf logits i"
    by (rule exp_path_scores [OF assms])
  have "sum_list (map exp ?s) = (\<Sum>i < ?n. exp (?s ! i))"
    by (simp add: sum_list_sum_nth len atLeast0LessThan)
  then have one: "sum_list (map exp ?s) = 1" using exact_prob_sum [OF assms] exp by simp
  have "sum_list (map (\<lambda>s. exp (s - m)) xs) = sum_list (map exp xs) / exp m" for m :: real and xs
    by (induction xs) (simp_all add: exp_diff add_divide_distrib)
  then have "normalise real_ops ?s ?w = map exp ?s"
    by (simp add: normalise_def Let_def fold_add_exp one exp_diff)
  also have "\<dots> = map (exact_prob cf logits) [0..<?n]"
    by (rule nth_equalityI) (simp_all add: len exp)
  finally have norm: "normalise real_ops ?s ?w = map (exact_prob cf logits) [0..<?n]" .
  have "exact_prob cf logits i \<le> exact_prob cf logits ?w" if "i < ?n" for i
  proof -
    have "?s ! i \<le> ?s ! ?w" using real_lt.argmax_max [of i ?s] that len by simp
    then show ?thesis using exp [OF that] exp [OF w] by (metis exp_le_cancel_iff)
  qed
  moreover have "exact_prob cf logits i < exact_prob cf logits ?w" if "i < ?w" for i
  proof -
    have "?s ! i < ?s ! ?w" using real_lt.argmax_first [of i ?s] that by simp
    moreover have "i < ?n" using that w by simp
    ultimately show ?thesis using exp [of i] exp [OF w] by (metis exp_less_cancel_iff)
  qed
  ultimately show ?thesis using total norm w by auto
qed

end
