(* ===== verification/GoText.thy ===== *)
theory GoText
  imports Prelude "HOL-Library.Char_ord" "HOL-Library.List_Lexorder"
begin

text \<open>
  What the program uses of Go's text packages, on byte strings: UTF-8 decoding
  (\<open>unicode/utf8\<close>), \<open>strings.TrimSpace\<close>, \<open>strconv.Quote\<close>, decimal formatting and the \<open>%03d\<close>
  verb. Which code points beyond ASCII are printable is Unicode table data and is the
  argument \<open>isprint\<close>.
\<close>

definition byte :: "char \<Rightarrow> nat" where
  "byte c = of_char c"

definition chr :: "nat \<Rightarrow> char" where
  "chr n = char_of n"

lemma byte_less: "byte c < 256"
  by (simp add: byte_def)

section \<open>UTF-8\<close>

definition is_cont :: "char \<Rightarrow> bool" where
  "is_cont c \<longleftrightarrow> 128 \<le> byte c \<and> byte c \<le> 191"

definition in_range :: "nat \<Rightarrow> nat \<Rightarrow> char \<Rightarrow> bool" where
  "in_range lo hi c \<longleftrightarrow> lo \<le> byte c \<and> byte c \<le> hi"

text \<open>The first rune of a string: \<open>Some (rune, size)\<close>, or \<open>None\<close> for an ill-formed byte, which
  Go reads as the replacement character of width one.\<close>

fun decode_rune :: "string \<Rightarrow> (nat \<times> nat) option" where
  "decode_rune [] = None"
| "decode_rune (a # s) =
     (if byte a < 128 then Some (byte a, 1)
      else if byte a < 194 then None
      else if byte a < 224 then (case s of
          b # _ \<Rightarrow> if is_cont b then Some ((byte a - 192) * 64 + (byte b - 128), 2) else None
        | _ \<Rightarrow> None)
      else if byte a < 240 then (case s of
          b # c # _ \<Rightarrow>
            if in_range (if byte a = 224 then 160 else 128) (if byte a = 237 then 159 else 191) b
               \<and> is_cont c
            then Some ((byte a - 224) * 4096 + (byte b - 128) * 64 + (byte c - 128), 3) else None
        | _ \<Rightarrow> None)
      else if byte a < 245 then (case s of
          b # c # d # _ \<Rightarrow>
            if in_range (if byte a = 240 then 144 else 128) (if byte a = 244 then 143 else 191) b
               \<and> is_cont c \<and> is_cont d
            then Some ((byte a - 240) * 262144 + (byte b - 128) * 4096 +
                       (byte c - 128) * 64 + (byte d - 128), 4) else None
        | _ \<Rightarrow> None)
      else None)"

text \<open>The string cut into runes: each chunk with its code point, \<open>None\<close> for an ill-formed byte.\<close>

lemma decode_rune_size: "decode_rune s = Some (r, n) \<Longrightarrow> 0 < n \<and> n \<le> length s"
  by (induction s rule: decode_rune.induct) (auto split: if_splits list.splits)

function runes :: "string \<Rightarrow> (nat option \<times> string) list" where
  "runes s = (if s = [] then [] else case decode_rune s of
       None \<Rightarrow> (None, take 1 s) # runes (drop 1 s)
     | Some (r, n) \<Rightarrow> (Some r, take n s) # runes (drop n s))"
  by pat_completeness auto
termination
proof (relation "measure length", goal_cases)
  case (3 s x r n)
  then show ?case using decode_rune_size [of s r n] by simp
qed simp_all

declare runes.simps [simp del]

definition ValidString :: "string \<Rightarrow> bool" where
  "ValidString s \<longleftrightarrow> list_all (\<lambda>(r, _). r \<noteq> None) (runes s)"

definition encode_rune :: "nat \<Rightarrow> string" where
  "encode_rune r =
     (if r < 128 then [chr r]
      else if r < 2048 then [chr (192 + r div 64), chr (128 + r mod 64)]
      else if r > 1114111 \<or> (55296 \<le> r \<and> r \<le> 57343) then [chr 239, chr 191, chr 189]
      else if r < 65536 then [chr (224 + r div 4096), chr (128 + r div 64 mod 64), chr (128 + r mod 64)]
      else [chr (240 + r div 262144), chr (128 + r div 4096 mod 64), chr (128 + r div 64 mod 64),
            chr (128 + r mod 64)])"

definition replacement :: string where
  "replacement = [chr 239, chr 191, chr 189]"

section \<open>Trimming\<close>

definition is_space_rune :: "nat option \<Rightarrow> bool" where
  "is_space_rune r = (case r of None \<Rightarrow> False | Some n \<Rightarrow>
     n \<in> {9, 10, 11, 12, 13, 32, 133, 160, 5760, 8232, 8233, 8239, 8287, 12288} \<or>
     8192 \<le> n \<and> n \<le> 8202)"

definition TrimSpace :: "string \<Rightarrow> string" where
  "TrimSpace s = concat (map snd (rev (dropWhile (is_space_rune \<circ> fst)
     (rev (dropWhile (is_space_rune \<circ> fst) (runes s))))))"

section \<open>Lower case\<close>

text \<open>\<open>strings.ToLower\<close>; \<open>lower\<close> is the Unicode table beyond ASCII.\<close>

definition ascii_lower :: "nat \<Rightarrow> nat" where
  "ascii_lower n = (if 65 \<le> n \<and> n \<le> 90 then n + 32 else n)"

definition ToLower :: "(nat \<Rightarrow> nat) \<Rightarrow> string \<Rightarrow> string" where
  "ToLower lower s = concat (map (\<lambda>(r, _). case r of None \<Rightarrow> replacement
     | Some n \<Rightarrow> encode_rune (if n < 128 then ascii_lower n else lower n)) (runes s))"

section \<open>ASCII\<close>

text \<open>On ASCII strings, runes are bytes; the code equations below evaluate without tables.\<close>

fun ascii :: "char \<Rightarrow> bool" where
  "ascii (Char b0 b1 b2 b3 b4 b5 b6 b7) = (\<not> b7)"

definition blank :: "char \<Rightarrow> bool" where
  "blank c \<longleftrightarrow> c \<in> {CHR 0x09, CHR 0x0A, CHR 0x0B, CHR 0x0C, CHR 0x0D, CHR 0x20}"

lemma ascii_byte: "ascii c \<longleftrightarrow> byte c < 128"
  by (cases c) (auto simp: byte_def of_char_def)

lemma runes_ascii: "list_all ascii s \<Longrightarrow> runes s = map (\<lambda>c. (Some (byte c), [c])) s"
proof (induction s)
  case (Cons a s)
  then show ?case by (simp add: runes.simps [of "a # s"] ascii_byte)
qed (simp add: runes.simps)

lemma blank_byte: "ascii c \<Longrightarrow> is_space_rune (Some (byte c)) = blank c"
proof -
  assume a: "ascii c"
  have e: "c = d \<longleftrightarrow> byte c = byte d" for d by (simp add: byte_def)
  have "blank c \<longleftrightarrow> byte c \<in> {9, 10, 11, 12, 13, 32}" unfolding blank_def insert_iff e empty_iff by (simp add: byte_def)
  then show ?thesis using a by (auto simp: is_space_rune_def ascii_byte)
qed

lemma TrimSpace_code [code]:
  "TrimSpace s = (if list_all ascii s then rev (dropWhile blank (rev (dropWhile blank s)))
     else concat (map snd (rev (dropWhile (is_space_rune \<circ> fst) (rev (dropWhile (is_space_rune \<circ> fst) (runes s)))))))"
proof (cases "list_all ascii s")
  case True
  have d: "dropWhile (is_space_rune \<circ> fst) (map (\<lambda>c. (Some (byte c), [c])) xs) = map (\<lambda>c. (Some (byte c), [c])) (dropWhile blank xs)" if "list_all ascii xs" for xs
    using that by (induction xs) (simp_all add: blank_byte)
  have r: "list_all ascii (rev (dropWhile blank s))" using True set_dropWhileD by (fastforce simp: list_all_iff)
  show ?thesis unfolding TrimSpace_def runes_ascii [OF True] d [OF True] rev_map d [OF r] using True by (simp add: comp_def)
qed (simp add: TrimSpace_def)

lemma ToLower_code [code]:
  "ToLower lower s = (if list_all ascii s then map (\<lambda>c. chr (ascii_lower (byte c))) s
     else concat (map (\<lambda>(r, _). case r of None \<Rightarrow> replacement | Some n \<Rightarrow> encode_rune (if n < 128 then ascii_lower n else lower n)) (runes s)))"
proof (cases "list_all ascii s")
  case True
  have "encode_rune (if byte c < 128 then ascii_lower (byte c) else lower (byte c)) = [chr (ascii_lower (byte c))]" if "ascii c" for c
    using that by (simp add: ascii_byte encode_rune_def ascii_lower_def)
  then have "concat (map (\<lambda>c. encode_rune (if byte c < 128 then ascii_lower (byte c) else lower (byte c))) s) = map (\<lambda>c. chr (ascii_lower (byte c))) s"
    using True by (induction s) simp_all
  then show ?thesis unfolding ToLower_def runes_ascii [OF True] using True by (simp add: comp_def)
qed (simp add: ToLower_def)

section \<open>Numbers as text\<close>

definition digit :: "nat \<Rightarrow> char" where
  "digit d = chr (48 + d)"

fun nat_text :: "nat \<Rightarrow> string" where
  "nat_text n = (if n < 10 then [digit n] else nat_text (n div 10) @ [digit (n mod 10)])"

declare nat_text.simps [simp del]

definition Itoa :: "int \<Rightarrow> string" where
  "Itoa i = (if i < 0 then ''-'' @ nat_text (nat (- i)) else nat_text (nat i))"

definition pad3 :: "nat \<Rightarrow> string" where
  "pad3 n = (let t = nat_text n in replicate (3 - length t) (digit 0) @ t)"

definition hexdigit :: "nat \<Rightarrow> char" where
  "hexdigit d = (if d < 10 then chr (48 + d) else chr (87 + d))"

fun hex_text :: "nat \<Rightarrow> nat \<Rightarrow> string" where
  "hex_text 0 n = []"
| "hex_text (Suc k) n = hex_text k (n div 16) @ [hexdigit (n mod 16)]"

section \<open>strconv.Quote\<close>

definition backslash :: char where "backslash = CHR 0x5C"
definition dquote :: char where "dquote = CHR 0x22"

definition quote_rune :: "(nat \<Rightarrow> bool) \<Rightarrow> nat option \<times> string \<Rightarrow> string" where
  "quote_rune isprint ru = (case fst ru of
       None \<Rightarrow> [backslash, CHR ''x''] @ concat (map (\<lambda>c. hex_text 2 (byte c)) (snd ru))
     | Some r \<Rightarrow>
         if r = 34 \<or> r = 92 then [backslash, chr r]
         else if (r < 128 \<and> 32 \<le> r \<and> r < 127) \<or> (128 \<le> r \<and> isprint r) then snd ru
         else if r = 7 then [backslash, CHR ''a'']
         else if r = 8 then [backslash, CHR ''b'']
         else if r = 12 then [backslash, CHR ''f'']
         else if r = 10 then [backslash, CHR ''n'']
         else if r = 13 then [backslash, CHR ''r'']
         else if r = 9 then [backslash, CHR ''t'']
         else if r = 11 then [backslash, CHR ''v'']
         else if r < 32 \<or> r = 127 then [backslash, CHR ''x''] @ hex_text 2 r
         else if r < 65536 then [backslash, CHR ''u''] @ hex_text 4 r
         else [backslash, CHR ''U''] @ hex_text 8 r)"

definition Quote :: "(nat \<Rightarrow> bool) \<Rightarrow> string \<Rightarrow> string" where
  "Quote isprint s = [dquote] @ concat (map (quote_rune isprint) (runes s)) @ [dquote]"

section \<open>Facts\<close>

lemma runes_concat: "concat (map snd (runes s)) = s"
proof (induction s rule: runes.induct)
  case (1 s)
  show ?case
  proof (cases "s = []")
    case False
    with 1 show ?thesis
      by (subst runes.simps) (auto split: option.splits simp del: take_Suc drop_Suc)
  qed (simp add: runes.simps)
qed

lemma nat_text_digits: "set (nat_text n) \<subseteq> digit ` {0..<10}"
proof (induction n rule: nat_text.induct)
  case (1 n)
  then show ?case by (subst nat_text.simps) auto
qed

lemma nat_text_nonempty [simp]: "nat_text n \<noteq> []"
  by (subst nat_text.simps) simp

lemma digit_inj: "a < 10 \<Longrightarrow> b < 10 \<Longrightarrow> digit a = digit b \<longleftrightarrow> a = b"
proof -
  assume "a < 10" "b < 10"
  have "(of_char (digit a) :: nat) = 48 + a" "(of_char (digit b) :: nat) = 48 + b"
    using \<open>a < 10\<close> \<open>b < 10\<close> by (simp_all only: digit_def chr_def of_char_of take_bit_eq_mod) simp_all
  then show ?thesis by (metis add_left_cancel)
qed

lemma nat_text_inj: "nat_text m = nat_text n \<longleftrightarrow> m = n"
proof
  show "nat_text m = nat_text n \<Longrightarrow> m = n"
  proof (induction m arbitrary: n rule: nat_text.induct)
    case (1 m)
    show ?case
    proof (cases "m < 10 \<longleftrightarrow> n < 10")
      case False
      with "1.prems" show ?thesis
        by (auto simp: nat_text.simps [of m] nat_text.simps [of n] nat_text_nonempty [symmetric]
            split: if_splits)
    next
      case True
      with "1.prems" "1.IH" [of "n div 10"] show ?thesis
        by (auto simp: nat_text.simps [of m] nat_text.simps [of n] digit_inj split: if_splits)
           (metis div_mult_mod_eq)
    qed
  qed
qed simp

lemma quote_ends: "Quote isprint s \<noteq> []"
  by (simp add: Quote_def)

end
