(* ===== verification/Json.thy ===== *)
theory Json
  imports GoText
begin

text \<open>
  What the program uses of \<open>encoding/json\<close>: reading a document, the generic decoding targets
  (\<open>map[string]json.RawMessage\<close>, slices of raw messages, strings), the token stream of a
  \<open>json.Decoder\<close>, \<open>json.Compact\<close>, and \<open>json.Marshal\<close> of a string. A document is its byte
  string; \<open>json_first\<close> reads the next value off a string, and \<open>json_doc\<close> accepts a string
  that is exactly one value. The library's nesting limit of 10000 is not modelled.
\<close>

text \<open>A value as read: objects keep the order and the duplicates of their members, and each
  member and element keeps its source text (the raw message).\<close>

datatype json =
    JNull
  | JBool bool
  | JNum string
  | JStr string
  | JArr "(string \<times> json) list"
  | JObj "(string \<times> string \<times> json) list"

section \<open>Reading\<close>

definition is_ws :: "char \<Rightarrow> bool" where
  "is_ws c \<longleftrightarrow> byte c = 32 \<or> byte c = 9 \<or> byte c = 10 \<or> byte c = 13"

definition skip_ws :: "string \<Rightarrow> string" where
  "skip_ws s = dropWhile is_ws s"

definition is_digit :: "char \<Rightarrow> bool" where
  "is_digit c \<longleftrightarrow> 48 \<le> byte c \<and> byte c \<le> 57"

definition hex_value :: "char \<Rightarrow> nat option" where
  "hex_value c = (let b = byte c in
     if 48 \<le> b \<and> b \<le> 57 then Some (b - 48)
     else if 97 \<le> b \<and> b \<le> 102 then Some (b - 87)
     else if 65 \<le> b \<and> b \<le> 70 then Some (b - 55) else None)"

fun hex4 :: "string \<Rightarrow> nat option" where
  "hex4 (a # b # c # d # s) = (case (hex_value a, hex_value b, hex_value c, hex_value d) of
     (Some w, Some x, Some y, Some z) \<Rightarrow> Some (w * 4096 + x * 256 + y * 16 + z) | _ \<Rightarrow> None)"
| "hex4 _ = None"

text \<open>The body of a string literal, after the opening quote: its source text and the rest.\<close>

fun scan_string :: "string \<Rightarrow> (string \<times> string) option" where
  "scan_string [] = None"
| "scan_string (c # s) =
     (if c = dquote then Some ([], s)
      else if c = backslash then (case s of
          [] \<Rightarrow> None
        | e # s' \<Rightarrow>
            if e \<in> {dquote, backslash, CHR ''/'', CHR ''b'', CHR ''f'', CHR ''n'', CHR ''r'', CHR ''t''}
            then map_option (\<lambda>(b, r). (c # e # b, r)) (scan_string s')
            else if e = CHR ''u'' \<and> hex4 s' \<noteq> None
            then map_option (\<lambda>(b, r). (c # e # b, r)) (scan_string s')
            else None)
      else if byte c < 32 then None
      else map_option (\<lambda>(b, r). (c # b, r)) (scan_string s))"

text \<open>Decoding a literal's body: escapes, surrogate pairs, and ill-formed UTF-8, which becomes
  the replacement character.\<close>

definition escape_char :: "char \<Rightarrow> char" where
  "escape_char e = (if e = CHR ''b'' then chr 8 else if e = CHR ''f'' then chr 12
     else if e = CHR ''n'' then chr 10 else if e = CHR ''r'' then chr 13
     else if e = CHR ''t'' then chr 9 else e)"

definition is_surrogate :: "nat \<Rightarrow> bool" where
  "is_surrogate r \<longleftrightarrow> 55296 \<le> r \<and> r < 57344"

function unquote :: "string \<Rightarrow> string" where
  "unquote s = (case s of [] \<Rightarrow> []
     | c # s1 \<Rightarrow>
       if c = backslash then (case s1 of
           [] \<Rightarrow> []
         | e # s2 \<Rightarrow>
           if e = CHR ''u'' then (case hex4 s2 of
               None \<Rightarrow> []
             | Some r \<Rightarrow>
               if is_surrogate r then
                 (let s3 = drop 4 s2;
                      lo = (if take 2 s3 = [backslash, CHR ''u''] then hex4 (drop 2 s3) else None)
                  in case lo of
                    Some l \<Rightarrow> if r < 56320 \<and> 56320 \<le> l \<and> l < 57344
                       then encode_rune ((r - 55296) * 1024 + (l - 56320) + 65536) @ unquote (drop 6 s3)
                       else replacement @ unquote s3
                  | None \<Rightarrow> replacement @ unquote s3)
               else encode_rune r @ unquote (drop 4 s2))
           else escape_char e # unquote s2)
       else case decode_rune s of
           None \<Rightarrow> replacement @ unquote s1
         | Some (r, n) \<Rightarrow> take n s @ unquote (drop (max 1 n) s))"
  by pat_completeness auto
termination
  by (relation "measure length") auto

declare unquote.simps [simp del]

fun take_digits :: "string \<Rightarrow> string \<times> string" where
  "take_digits [] = ([], [])"
| "take_digits (c # s) = (if is_digit c then (let (d, r) = take_digits s in (c # d, r)) else ([], c # s))"

text \<open>A number literal, by the grammar of the format.\<close>

definition scan_int :: "string \<Rightarrow> (string \<times> string) option" where
  "scan_int s = (case s of [] \<Rightarrow> None
     | c # r \<Rightarrow> if c = CHR ''0'' then Some ([c], r)
         else if is_digit c then Some (take_digits s) else None)"

definition scan_frac :: "string \<Rightarrow> (string \<times> string) option" where
  "scan_frac s = (case s of [] \<Rightarrow> Some ([], [])
     | c # r \<Rightarrow> if c = CHR ''.'' then (let (d, r') = take_digits r in
           if d = [] then None else Some (c # d, r')) else Some ([], s))"

definition scan_exp :: "string \<Rightarrow> (string \<times> string) option" where
  "scan_exp s = (case s of [] \<Rightarrow> Some ([], [])
     | c # r \<Rightarrow> if c = CHR ''e'' \<or> c = CHR ''E'' then
           (let (sgn, r1) = (case r of [] \<Rightarrow> ([], []) | x # xs \<Rightarrow>
                  if x = CHR ''+'' \<or> x = CHR ''-'' then ([x], xs) else ([], r));
                (d, r') = take_digits r1 in
            if d = [] then None else Some (c # sgn @ d, r')) else Some ([], s))"

definition scan_number :: "string \<Rightarrow> (string \<times> string) option" where
  "scan_number s =
     (let (sgn, s0) = (case s of [] \<Rightarrow> ([], []) | c # r \<Rightarrow> if c = CHR ''-'' then ([c], r) else ([], s))
      in case scan_int s0 of None \<Rightarrow> None | Some (i, s1) \<Rightarrow>
         case scan_frac s1 of None \<Rightarrow> None | Some (f, s2) \<Rightarrow>
         case scan_exp s2 of None \<Rightarrow> None | Some (e, s3) \<Rightarrow> Some (sgn @ i @ f @ e, s3))"

definition starts_with :: "string \<Rightarrow> string \<Rightarrow> bool" where
  "starts_with p s \<longleftrightarrow> take (length p) s = p"

text \<open>
  Recursive descent. The input of every recursive call is a proper suffix of the caller's;
  the guard states it, so that the recursion is well-founded without a bound on depth.
\<close>

definition source :: "string \<Rightarrow> string \<Rightarrow> string" where
  "source s rest = take (length s - length rest) s"

function (sequential)
  parse_value :: "string \<Rightarrow> (json \<times> string) option" and
  parse_elems :: "string \<Rightarrow> ((string \<times> json) list \<times> string) option" and
  parse_members :: "string \<Rightarrow> ((string \<times> string \<times> json) list \<times> string) option" where
  "parse_value [] = None"
| "parse_value (c # s) =
     (if c = dquote then map_option (\<lambda>(b, r). (JStr (unquote b), r)) (scan_string s)
      else if c = CHR ''{'' then
        (case skip_ws s of
           [] \<Rightarrow> None
         | d # r \<Rightarrow> if d = CHR ''}'' then Some (JObj [], r)
             else map_option (\<lambda>(ms, r). (JObj ms, r)) (parse_members (skip_ws s)))
      else if c = CHR ''['' then
        (case skip_ws s of
           [] \<Rightarrow> None
         | d # r \<Rightarrow> if d = CHR '']'' then Some (JArr [], r)
             else map_option (\<lambda>(es, r). (JArr es, r)) (parse_elems (skip_ws s)))
      else if starts_with ''true'' (c # s) then Some (JBool True, drop 4 (c # s))
      else if starts_with ''false'' (c # s) then Some (JBool False, drop 5 (c # s))
      else if starts_with ''null'' (c # s) then Some (JNull, drop 4 (c # s))
      else map_option (\<lambda>(n, r). (JNum n, r)) (scan_number (c # s)))"
| "parse_elems s =
     (case parse_value s of None \<Rightarrow> None
      | Some (v, r) \<Rightarrow>
        (case skip_ws r of [] \<Rightarrow> None
         | d # r' \<Rightarrow>
           if d = CHR '']'' then Some ([(source s r, v)], r')
           else if d = CHR '','' \<and> length (skip_ws r') < length s
           then map_option (\<lambda>(es, q). ((source s r, v) # es, q)) (parse_elems (skip_ws r'))
           else None))"
| "parse_members s =
     (case s of [] \<Rightarrow> None
      | q # s1 \<Rightarrow>
        if q \<noteq> dquote then None
        else case scan_string s1 of None \<Rightarrow> None
        | Some (k, s2) \<Rightarrow>
          (case skip_ws s2 of [] \<Rightarrow> None
           | col # s3 \<Rightarrow>
             if col \<noteq> CHR '':'' \<or> \<not> length (skip_ws s3) < length s then None
             else case parse_value (skip_ws s3) of None \<Rightarrow> None
             | Some (v, r) \<Rightarrow>
               (case skip_ws r of [] \<Rightarrow> None
                | d # r' \<Rightarrow>
                  if d = CHR ''}'' then Some ([(unquote k, source (skip_ws s3) r, v)], r')
                  else if d = CHR '','' \<and> length (skip_ws r') < length s
                  then map_option (\<lambda>(ms, q). ((unquote k, source (skip_ws s3) r, v) # ms, q))
                         (parse_members (skip_ws r'))
                  else None)))"
  by pat_completeness auto
termination
proof (relation "measure (\<lambda>x. case x of Inl s \<Rightarrow> 2 * length s
    | Inr (Inl s) \<Rightarrow> 2 * length s + 1 | Inr (Inr s) \<Rightarrow> 2 * length s + 1)", goal_cases)
  case (2 c s x21 x22)
  then show ?case using length_dropWhile_le [of is_ws s] by (simp add: skip_ws_def)
next
  case (3 c s x21 x22)
  then show ?case using length_dropWhile_le [of is_ws s] by (simp add: skip_ws_def)
qed auto

declare parse_value.simps [simp del] parse_elems.simps [simp del] parse_members.simps [simp del]

text \<open>The next value of a decoder over \<open>s\<close>: its source text, the value, and the unread input.\<close>

definition json_first :: "string \<Rightarrow> (string \<times> json \<times> string) option" where
  "json_first s = (case parse_value (skip_ws s) of None \<Rightarrow> None
     | Some (v, r) \<Rightarrow> Some (source (skip_ws s) r, v, r))"

definition json_doc :: "string \<Rightarrow> json option" where
  "json_doc s = (case json_first s of None \<Rightarrow> None
     | Some (_, v, r) \<Rightarrow> if skip_ws r = [] then Some v else None)"

section \<open>Decoding targets\<close>

definition last_value :: "('k \<times> 'v) list \<Rightarrow> 'k \<Rightarrow> 'v option" where
  "last_value kvs k = map_of (rev kvs) k"

text \<open>\<open>map[string]json.RawMessage\<close>: \<open>Some None\<close> is the nil map that \<open>null\<close> gives.\<close>

definition decode_map :: "json \<Rightarrow> (string \<times> string) list option option" where
  "decode_map v = (case v of
     JNull \<Rightarrow> Some None
   | JObj ms \<Rightarrow> Some (Some (map (\<lambda>(k, raw, _). (k, raw)) ms))
   | _ \<Rightarrow> None)"

text \<open>A field of type \<open>string\<close> or \<open>[]json.RawMessage\<close>: \<open>null\<close> leaves the string and clears the
  slice.\<close>

definition decode_string :: "string \<Rightarrow> json \<Rightarrow> string option" where
  "decode_string old v = (case v of JStr s \<Rightarrow> Some s | JNull \<Rightarrow> Some old | _ \<Rightarrow> None)"

definition decode_raws :: "json \<Rightarrow> string list option" where
  "decode_raws v = (case v of JArr es \<Rightarrow> Some (map fst es) | JNull \<Rightarrow> Some [] | _ \<Rightarrow> None)"

text \<open>How struct fields match member names: exact, or equal after case folding (on the letters
  the field names use, the only non-ASCII fold is the long s).\<close>

fun fold_name :: "string \<Rightarrow> string" where
  "fold_name (a # b # s) =
     (if byte a = 197 \<and> byte b = 191 then CHR ''s'' # fold_name s
      else (if 65 \<le> byte a \<and> byte a \<le> 90 then chr (byte a + 32) else a) # fold_name (b # s))"
| "fold_name [a] = [if 65 \<le> byte a \<and> byte a \<le> 90 then chr (byte a + 32) else a]"
| "fold_name [] = []"

section \<open>Writing\<close>

text \<open>\<open>json.Marshal\<close> of a string, with the HTML escaping that it applies.\<close>

definition marshal_rune :: "nat option \<times> string \<Rightarrow> string" where
  "marshal_rune ru = (case fst ru of
       None \<Rightarrow> [backslash] @ ''ufffd''
     | Some r \<Rightarrow>
         if r = 34 \<or> r = 92 then [backslash, chr r]
         else if r = 8 then [backslash, CHR ''b'']
         else if r = 12 then [backslash, CHR ''f'']
         else if r = 10 then [backslash, CHR ''n'']
         else if r = 13 then [backslash, CHR ''r'']
         else if r = 9 then [backslash, CHR ''t'']
         else if r < 32 \<or> r = 60 \<or> r = 62 \<or> r = 38 then [backslash] @ ''u00'' @ hex_text 2 r
         else if r = 8232 \<or> r = 8233 then [backslash] @ ''u'' @ hex_text 4 r
         else snd ru)"

definition marshal_string :: "string \<Rightarrow> string" where
  "marshal_string s = [dquote] @ concat (map marshal_rune (runes s)) @ [dquote]"

text \<open>\<open>json.Compact\<close>: white space outside string literals is dropped.\<close>

fun compact :: "bool \<Rightarrow> string \<Rightarrow> string" where
  "compact in_str [] = []"
| "compact True (c # s) =
     (if c = backslash then (case s of [] \<Rightarrow> [c] | e # s' \<Rightarrow> c # e # compact True s')
      else c # compact (c \<noteq> dquote) s)"
| "compact False (c # s) =
     (if is_ws c then compact False s else c # compact (c = dquote) s)"

section \<open>Facts\<close>

lemma marshal_string_ends: "marshal_string s = dquote # butlast (tl (marshal_string s)) @ [dquote]"
  by (simp add: marshal_string_def butlast_append)

end
