(* ===== verification/Schema.thy ===== *)
theory Schema
  imports DecisionTypes Json "HOL-Library.Sublist"
begin

text \<open>
  \<open>model/gosystemone/schema.go\<close>: a decision schema (compact field objects or JSON Schema
  properties) is compiled into ordered fields with their candidate values, the text that
  precedes each value in the prompt, and the system prompt. \<open>isprint\<close> is the Unicode table
  behind \<open>strconv.Quote\<close>.
\<close>

section \<open>Field descriptions\<close>

record raw_field =
  rf_type :: string
  rf_description :: string
  rf_choices :: "string list"
  rf_enum :: "string list"

definition raw_field_zero :: raw_field where
  "raw_field_zero = \<lparr>rf_type = [], rf_description = [], rf_choices = [], rf_enum = []\<rparr>"

definition set_raw_field :: "string \<Rightarrow> json \<Rightarrow> raw_field \<Rightarrow> raw_field option" where
  "set_raw_field k v f =
     (let n = fold_name k in
      if n = ''type'' then map_option (\<lambda>s. f\<lparr>rf_type := s\<rparr>) (decode_string (rf_type f) v)
      else if n = ''description''
      then map_option (\<lambda>s. f\<lparr>rf_description := s\<rparr>) (decode_string (rf_description f) v)
      else if n = ''choices'' then map_option (\<lambda>rs. f\<lparr>rf_choices := rs\<rparr>) (decode_raws v)
      else if n = ''enum'' then map_option (\<lambda>rs. f\<lparr>rf_enum := rs\<rparr>) (decode_raws v)
      else Some f)"

fun set_raw_fields :: "(string \<times> string \<times> json) list \<Rightarrow> raw_field \<Rightarrow> raw_field option" where
  "set_raw_fields [] f = Some f"
| "set_raw_fields ((k, _, v) # ms) f =
     (case set_raw_field k v f of None \<Rightarrow> None | Some f' \<Rightarrow> set_raw_fields ms f')"

definition decode_raw_field :: "string \<Rightarrow> raw_field option" where
  "decode_raw_field raw = (case json_doc raw of
       Some (JObj ms) \<Rightarrow> set_raw_fields ms raw_field_zero
     | Some JNull \<Rightarrow> Some raw_field_zero
     | _ \<Rightarrow> None)"

section \<open>The candidate values of a field\<close>

definition is_json_string :: "json \<Rightarrow> bool" where
  "is_json_string v = (case v of JStr _ \<Rightarrow> True | _ \<Rightarrow> False)"

definition marshal_typed :: "json \<Rightarrow> string option" where
  "marshal_typed v = (case v of JStr s \<Rightarrow> Some (marshal_string s)
     | JBool b \<Rightarrow> Some (if b then ''true'' else ''false'') | _ \<Rightarrow> None)"

definition json_error :: go_error where
  "json_error = Sentinel ''json: syntax error''"

fun compile_values ::
  "string \<Rightarrow> string \<Rightarrow> nat \<Rightarrow> string list \<Rightarrow> string list \<Rightarrow> go_error + candidate list" where
  "compile_values name ty i seen [] = Inr []"
| "compile_values name ty i seen (v # vs) =
     (case json_first v of
        None \<Rightarrow> Inl (Wrapf ''field %q candidate %d: %w'' [AS name, AN (int i)] json_error)
      | Some (_, typed, _) \<Rightarrow>
        if ty = ''enum'' \<and> \<not> is_json_string typed
        then Inl (Errorf ''field %q: enum choices must be strings'' [AS name])
        else case marshal_typed typed of
          None \<Rightarrow> Inl (Wrapf ''field %q candidate %d: %w'' [AS name, AN (int i)] json_error)
        | Some key \<Rightarrow>
          if key \<in> set seen
          then Inl (Errorf ''field %q has duplicate allowed value %s'' [AS name, AS key])
          else res_bind (compile_values name ty (Suc i) (seen @ [key]) vs) (\<lambda>cs.
            Inr (\<lparr>cand_id = name @ '':'' @ pad3 i, encoded = key, cand_value = key\<rparr> # cs)))"

definition compileField :: "string \<Rightarrow> raw_field \<Rightarrow> go_error + field_spec" where
  "compileField name raw =
     (let values = (if rf_enum raw \<noteq> [] then rf_enum raw else rf_choices raw);
          ty = (if rf_enum raw \<noteq> [] then ''enum'' else rf_type raw);
          finish = (\<lambda>ty values.
            if length values > MaxCandidates
            then Inl (Errorf ''field %q needs 1-%d allowed values'' [AS name, AN (int MaxCandidates)])
            else res_bind (compile_values name ty 0 [] values) (\<lambda>cs.
              Inr \<lparr>fs_name = name, fs_type = ty, fs_description = rf_description raw,
                   fs_candidates = cs\<rparr>))
      in if ty = ''boolean'' then finish ''boolean'' [''true'', ''false'']
         else if ty \<in> {''enum'', ''choice'', ''selection'', ''string''}
         then (if values = [] then Inl (Errorf ''field %q: enum fields need choices'' [AS name])
               else finish ''enum'' values)
         else Inl (Errorf ''field %q: supported types are boolean and enum'' [AS name]))"

text \<open>The byte-wise common prefix of two strings, and of all encodings.\<close>

fun lcp :: "string \<Rightarrow> string \<Rightarrow> string" where
  "lcp (a # s) (b # t) = (if a = b then a # lcp s t else [])"
| "lcp _ _ = []"

definition commonPrefix :: "candidate list \<Rightarrow> string" where
  "commonPrefix cs = (case cs of [] \<Rightarrow> [] | c # cs' \<Rightarrow> fold (\<lambda>d p. lcp p (encoded d)) cs' (encoded c))"

definition TrimPrefix :: "string \<Rightarrow> string \<Rightarrow> string" where
  "TrimPrefix s p = (if starts_with p s then drop (length p) s else s)"

section \<open>The whole schema\<close>

definition field_suffix :: "(nat \<Rightarrow> bool) \<Rightarrow> string \<Rightarrow> string" where
  "field_suffix isprint name = ''  '' @ Quote isprint name @ '': ''"

definition field_to_input :: "(nat \<Rightarrow> bool) \<Rightarrow> field_spec \<Rightarrow> field_input" where
  "field_to_input isprint f =
     (let common = commonPrefix (fs_candidates f) in
      \<lparr>fi_suffix = field_suffix isprint (fs_name f) @ common,
       fi_candidates = map (\<lambda>c. c\<lparr>encoded := TrimPrefix (encoded c) common\<rparr>) (fs_candidates f)\<rparr>)"

fun join :: "string \<Rightarrow> string list \<Rightarrow> string" where
  "join sep [] = []"
| "join sep [x] = x"
| "join sep (x # xs) = x @ sep @ join sep xs"

definition catalog_entry :: "(nat \<Rightarrow> bool) \<Rightarrow> field_spec \<Rightarrow> string" where
  "catalog_entry isprint f =
     Quote isprint (fs_name f) @
     (if fs_description f \<noteq> [] then '': '' @ fs_description f else []) @
     [chr 10] @ ''Allowed values: '' @ join '', '' (map encoded (fs_candidates f))"

definition schema_field :: "bool \<Rightarrow> string \<Rightarrow> string \<Rightarrow> go_error + field_spec" where
  "schema_field jsonSchema name rawText =
     (if name = [] then Inl (Errorf ''field name must not be empty'' [])
      else case decode_raw_field rawText of
        None \<Rightarrow> Inl (Errorf ''field %q must be an object'' [AS name])
      | Some raw \<Rightarrow>
        if \<not> jsonSchema \<and> TrimSpace (rf_description raw) = []
        then Inl (Errorf ''field %q needs a description'' [AS name])
        else compileField name raw)"

definition schema_props :: "string \<Rightarrow> go_error + (bool \<times> (string \<times> string) list)" where
  "schema_props data =
     (let trimmed = TrimSpace data in
      if trimmed = [] \<or> hd trimmed \<noteq> CHR ''{'' then Inl (Errorf ''schema must be an object'' [])
      else case json_first trimmed of
        None \<Rightarrow> Inl (Wrapf ''schema: %w'' [] json_error)
      | Some (_, v, _) \<Rightarrow>
        (case decode_map v of
           None \<Rightarrow> Inl (Wrapf ''schema: %w'' [] json_error)
         | Some None \<Rightarrow> Inl (Errorf ''schema must be an object'' [])
         | Some (Some members) \<Rightarrow>
           (case last_value members ''properties'' of
              None \<Rightarrow> Inr (False, members)
            | Some raw \<Rightarrow>
              (case json_doc raw of
                 None \<Rightarrow> Inl (Errorf ''schema properties must be an object'' [])
               | Some pv \<Rightarrow>
                 (case decode_map pv of
                    Some (Some decoded) \<Rightarrow> Inr (True, decoded)
                  | _ \<Rightarrow> Inl (Errorf ''schema properties must be an object'' []))))))"

definition prompt_head :: string where
  "prompt_head = ''Select the requested field value from its allowed values, based on the context. Respond with the JSON value only.'' @ [chr 10, chr 10] @ ''Fields:'' @ [chr 10]"

definition CompileSchema ::
  "(nat \<Rightarrow> bool) \<Rightarrow> string \<Rightarrow> string \<Rightarrow> go_error + compiled_schema" where
  "CompileSchema isprint data instructions =
     res_bind (schema_props data) (\<lambda>(jsonSchema, props).
       let names = sort (remdups (map fst props)) in
       if length names < 1 \<or> length names > MaxFields
       then Inl (Errorf ''schema must define 1-%d fields'' [AN (int MaxFields)])
       else res_bind (res_map (\<lambda>name. schema_field jsonSchema name (the (last_value props name))) names)
         (\<lambda>fields. Inr
           \<lparr>system_text = prompt_head @ join [chr 10] (map (catalog_entry isprint) fields) @
              (if instructions \<noteq> [] then [chr 10] @ instructions else []),
            cs_fields = fields,
            cs_inputs = map (field_to_input isprint) fields\<rparr>))"

section \<open>Facts about one field\<close>

lemma compile_values_length: "compile_values name ty i seen vs = Inr cs \<Longrightarrow> length cs = length vs"
  by (induction name ty i seen vs arbitrary: cs rule: compile_values.induct)
     (auto simp: go_res split: option.splits if_splits prod.splits)

lemma compile_values_distinct:
  "compile_values name ty i seen vs = Inr cs \<Longrightarrow>
     distinct (map encoded cs) \<and> set seen \<inter> set (map encoded cs) = {}"
  by (induction name ty i seen vs arbitrary: cs rule: compile_values.induct)
     (fastforce simp: go_res split: option.splits if_splits prod.splits)+

lemma compile_values_value:
  "compile_values name ty i seen vs = Inr cs \<Longrightarrow> c \<in> set cs \<Longrightarrow> cand_value c = encoded c"
  by (induction name ty i seen vs arbitrary: cs rule: compile_values.induct)
     (auto simp: go_res split: option.splits if_splits prod.splits)

lemma compile_values_enum:
  "compile_values name ty i seen vs = Inr cs \<Longrightarrow> ty = ''enum'' \<Longrightarrow> c \<in> set cs \<Longrightarrow>
     encoded c \<in> range marshal_string"
  by (induction name ty i seen vs arbitrary: cs rule: compile_values.induct)
     (auto simp: go_res is_json_string_def marshal_typed_def
       split: option.splits if_splits prod.splits json.splits)

lemma compile_values_id:
  "compile_values name ty i seen vs = Inr cs \<Longrightarrow> k < length cs \<Longrightarrow>
     cand_id (cs ! k) = name @ '':'' @ pad3 (i + k)"
proof (induction name ty i seen vs arbitrary: cs k rule: compile_values.induct)
  case (2 name ty i seen v vs)
  then show ?case
    by (auto simp: go_res nth_Cons' split: option.splits if_splits prod.splits)
qed simp

text \<open>A field that compiled: between 1 and 255 distinct values, each value its own encoding.\<close>

definition field_spec_ok :: "field_spec \<Rightarrow> bool" where
  "field_spec_ok f \<longleftrightarrow> fs_name f \<noteq> [] \<and> 1 \<le> length (fs_candidates f) \<and>
     length (fs_candidates f) \<le> MaxCandidates \<and> distinct (map encoded (fs_candidates f)) \<and>
     (\<forall>c \<in> set (fs_candidates f). cand_value c = encoded c) \<and>
     (fs_type f = ''boolean'' \<and> map encoded (fs_candidates f) = [''true'', ''false''] \<or>
      fs_type f = ''enum'' \<and> (\<forall>c \<in> set (fs_candidates f). encoded c \<in> range marshal_string))"

lemma true_false_values:
  "json_first ''true'' = Some (''true'', JBool True, [])"
  "json_first ''false'' = Some (''false'', JBool False, [])"
  by code_simp+

lemma boolean_values:
  "compile_values name ''boolean'' 0 [] [''true'', ''false''] = Inr cs \<Longrightarrow>
     map encoded cs = [''true'', ''false'']"
  by (auto simp: true_false_values marshal_typed_def go_res)

lemma compileField_ok:
  assumes "compileField name raw = Inr f" "name \<noteq> []"
  shows "field_spec_ok f" "fs_name f = name"
proof -
  obtain ty vs cs where ty: "ty = ''boolean'' \<and> vs = [''true'', ''false''] \<or> ty = ''enum''"
    and vs: "vs \<noteq> []" "length vs \<le> MaxCandidates"
    and cs: "compile_values name ty 0 [] vs = Inr cs"
    and f: "f = \<lparr>fs_name = name, fs_type = ty, fs_description = rf_description raw, fs_candidates = cs\<rparr>"
  proof (cases "(if rf_enum raw \<noteq> [] then ''enum'' else rf_type raw) = ''boolean''")
    case True
    with assms(1) show ?thesis
      by (intro that [of "''boolean''" "[''true'', ''false'']" "fs_candidates f"])
         (auto simp: compileField_def Let_def go_res simp del: compile_values.simps split: if_splits)
  next
    case False
    with assms(1) show ?thesis
      by (intro that [of "''enum''" "if rf_enum raw \<noteq> [] then rf_enum raw else rf_choices raw" "fs_candidates f"])
         (auto simp: compileField_def Let_def go_res split: if_splits)
  qed
  from f show "fs_name f = name" by simp
  from vs compile_values_length [OF cs] have "1 \<le> length cs" "length cs \<le> MaxCandidates"
    by (auto simp: Suc_le_eq)
  moreover have "ty = ''boolean'' \<and> map encoded cs = [''true'', ''false''] \<or>
      ty = ''enum'' \<and> (\<forall>c \<in> set cs. encoded c \<in> range marshal_string)"
    using ty cs boolean_values compile_values_enum by blast
  ultimately show "field_spec_ok f"
    using f assms(2) compile_values_distinct [OF cs] compile_values_value [OF cs]
    by (simp add: field_spec_ok_def)
qed

section \<open>The shared prefix of the encodings\<close>

lemma lcp_prefix: "prefix (lcp a b) a" "prefix (lcp a b) b"
  by (induction a b rule: lcp.induct) auto

lemma commonPrefix_prefix: "c \<in> set cs \<Longrightarrow> prefix (commonPrefix cs) (encoded c)"
proof -
  have *: "prefix (fold (\<lambda>d p. lcp p (encoded d)) ds p) p \<and>
      (\<forall>d \<in> set ds. prefix (fold (\<lambda>d p. lcp p (encoded d)) ds p) (encoded d))" for ds p
  proof (induction ds arbitrary: p)
    case (Cons d ds)
    from Cons.IH [of "lcp p (encoded d)"] show ?case
      using lcp_prefix [of p "encoded d"] by (auto dest: prefix_order.trans)
  qed simp
  assume "c \<in> set cs"
  then show ?thesis
    using * [of "tl cs" "encoded (hd cs)"] by (cases cs) (auto simp: commonPrefix_def)
qed

lemma starts_with_prefix: "starts_with p s \<longleftrightarrow> prefix p s"
  by (auto simp: starts_with_def prefix_def) (metis append_take_drop_id)

lemma TrimPrefix_append: "prefix p s \<Longrightarrow> p @ TrimPrefix s p = s"
  by (auto simp: TrimPrefix_def starts_with_prefix prefix_def)

text \<open>The text the model would write for a value is the same before and after factoring out
  the shared prefix.\<close>

lemma field_to_input_text:
  assumes "i < length (fs_candidates f)"
  shows "fi_suffix (field_to_input isprint f) @ encoded (fi_candidates (field_to_input isprint f) ! i) =
    field_suffix isprint (fs_name f) @ encoded (fs_candidates f ! i)"
  using assms by (simp add: field_to_input_def Let_def TrimPrefix_append commonPrefix_prefix)

lemma field_to_input_candidates [simp]:
  "length (fi_candidates (field_to_input isprint f)) = length (fs_candidates f)"
  "i < length (fs_candidates f) \<Longrightarrow>
     cand_id (fi_candidates (field_to_input isprint f) ! i) = cand_id (fs_candidates f ! i)"
  by (simp_all add: field_to_input_def Let_def)

section \<open>A compiled schema\<close>

definition schema_ok :: "(nat \<Rightarrow> bool) \<Rightarrow> compiled_schema \<Rightarrow> bool" where
  "schema_ok isprint s \<longleftrightarrow> 1 \<le> length (cs_fields s) \<and> length (cs_fields s) \<le> MaxFields \<and>
     sorted_wrt (<) (map fs_name (cs_fields s)) \<and> (\<forall>f \<in> set (cs_fields s). field_spec_ok f) \<and>
     cs_inputs s = map (field_to_input isprint) (cs_fields s)"

lemma schema_field_ok:
  "schema_field js name raw = Inr f \<Longrightarrow> field_spec_ok f \<and> fs_name f = name"
  by (auto simp: schema_field_def compileField_ok split: if_splits option.splits)

lemma CompileSchema_Inr:
  assumes "CompileSchema isprint data instructions = Inr s"
  shows "schema_ok isprint s"
proof -
  from assms obtain js props where p: "schema_props data = Inr (js, props)"
    by (cases "schema_props data") (auto simp: CompileSchema_def)
  from assms have
    names: "\<not> (length (sort (remdups (map fst props))) < 1)"
      "\<not> length (sort (remdups (map fst props))) > MaxFields"
    and fields: "res_map (\<lambda>name. schema_field js name (the (last_value props name)))
        (sort (remdups (map fst props))) = Inr (cs_fields s)"
    and inputs: "cs_inputs s = map (field_to_input isprint) (cs_fields s)"
    by (auto simp: CompileSchema_def p go_res Let_def split: if_splits)
  let ?names = "sort (remdups (map fst props))"
  have all2: "list_all2 (\<lambda>n f. fs_name f = n \<and> field_spec_ok f) ?names (cs_fields s)"
    using fields unfolding res_map_Inr
    by (rule list_all2_mono) (use schema_field_ok in blast)
  then have "map fs_name (cs_fields s) = ?names"
    by (auto simp: list_all2_conv_all_nth intro: nth_equalityI)
  moreover have "sorted_wrt (<) ?names"
    by (simp add: strict_sorted_iff)
  moreover have "\<forall>f \<in> set (cs_fields s). field_spec_ok f"
    using all2 by (auto simp: list_all2_conv_all_nth in_set_conv_nth)
  moreover have "1 \<le> length (cs_fields s)" "length (cs_fields s) \<le> MaxFields"
    using names list_all2_lengthD [OF all2] by linarith+
  ultimately show ?thesis using inputs by (simp add: schema_ok_def)
qed

end
