(* ===== verification/Engine.thy ===== *)
theory Engine
  imports TreeScore Schema
begin

text \<open>
  \<open>model/gosystemone/engine.go\<close>: the decision engine. The scorer (the model behind the
  \<open>ContextScorer\<close> interfaces), the clock, the request context and the tokenizer are the
  record \<open>engine\<close>; their calls may change a world state \<open>'w\<close> and may fail. The optional
  interfaces of the scorer are options.
\<close>

section \<open>Interfaces and state\<close>

record branch =
  br_tokens :: "token list"
  br_candidates :: "token list"

record ('w, 'f) scorer =
  score_context :: "token list \<Rightarrow> branch list \<Rightarrow> bool \<Rightarrow> ('w, 'f list list) io"
  score_split :: "(token list \<Rightarrow> token list \<Rightarrow> branch list \<Rightarrow> bool \<Rightarrow> ('w, 'f list list) io) option"
  score_batch :: "(token list \<Rightarrow> token list list \<Rightarrow> branch \<Rightarrow> bool \<Rightarrow> ('w, 'f list list) io) option"
  score_trees ::
    "(token list \<Rightarrow> token list list \<Rightarrow> branch list \<Rightarrow> bool \<Rightarrow> ('w, 'f list list list) io) option"

text \<open>A clock reading: the wall clock's Unix seconds and the reading that differences use.\<close>

record go_time =
  gt_unix :: int
  gt_nanos :: int

record ('w, 'f) engine =
  en_tokenizer :: "(string \<Rightarrow> token list) option"
  en_validator :: "(string \<Rightarrow> go_error option) option"
  en_scorer :: "('w, 'f) scorer option"
  en_bos :: int
  en_now :: "'w \<Rightarrow> go_time \<times> 'w"
  en_ctx_err :: "'w \<Rightarrow> go_error option \<times> 'w"

record 'f field_state =
  st_compiled :: compiled_field
  st_winner :: int
  st_probabilities :: "'f list"
  st_path_score :: 'f
  st_scored_nodes :: nat
  st_active :: "nat list"
  st_chosen :: "token list"

definition newFieldState :: "'f fops \<Rightarrow> compiled_field \<Rightarrow> 'f field_state" where
  "newFieldState ops field =
     (let active = [0..<length (cf_paths field)] in
      \<lparr>st_compiled = field,
       st_winner = (if length active = 1 then int (hd active) else -1),
       st_probabilities = [], st_path_score = f_one ops, st_scored_nodes = 0,
       st_active = active, st_chosen = []\<rparr>)"

section \<open>Greedy scoring of one field\<close>

text \<open>The distinct next tokens of the active candidates, \<open>None\<close> when one of them has ended.\<close>

fun greedy_tokens :: "compiled_field \<Rightarrow> nat \<Rightarrow> nat list \<Rightarrow> token list \<Rightarrow> token list option" where
  "greedy_tokens cf depth [] options = Some options"
| "greedy_tokens cf depth (c # cs) options =
     (if depth \<ge> length (path_tokens (cf_paths cf ! c)) then None
      else let token = path_tokens (cf_paths cf ! c) ! depth in
        greedy_tokens cf depth cs (if token \<in> set options then options else options @ [token]))"

lemma greedy_tokens_Cons_Some:
  "greedy_tokens cf depth (c # cs) options = Some options' \<longleftrightarrow>
     depth < length (path_tokens (cf_paths cf ! c)) \<and>
     greedy_tokens cf depth cs (if path_tokens (cf_paths cf ! c) ! depth \<in> set options then options
       else options @ [path_tokens (cf_paths cf ! c) ! depth]) = Some options'"
  by (simp add: Let_def not_le)

lemma greedy_tokens_Some:
  assumes "greedy_tokens cf depth cs options = Some options'"
  shows "(\<forall>c \<in> set cs. depth < length (path_tokens (cf_paths cf ! c))) \<and>
     set options' = set options \<union> (\<lambda>c. path_tokens (cf_paths cf ! c) ! depth) ` set cs \<and>
     (distinct options \<longrightarrow> distinct options')"
  using assms
proof (induction cs arbitrary: options)
  case (Cons c cs)
  let ?t = "path_tokens (cf_paths cf ! c) ! depth"
  let ?opts = "if ?t \<in> set options then options else options @ [?t]"
  have depth: "depth < length (path_tokens (cf_paths cf ! c))" and
    rest: "greedy_tokens cf depth cs ?opts = Some options'"
    using Cons.prems unfolding greedy_tokens_Cons_Some by blast+
  have opts: "set ?opts = insert ?t (set options)" "distinct options \<longrightarrow> distinct ?opts" by auto
  from Cons.IH [OF rest] depth show ?case unfolding opts(1) using opts(2) by auto
qed simp

function greedyOptions :: "'f field_state \<Rightarrow> token list \<times> 'f field_state" where
  "greedyOptions s =
     (if length (st_active s) > 1 then
        (case greedy_tokens (st_compiled s) (length (st_chosen s)) (st_active s) [] of
           None \<Rightarrow> ([], s)
         | Some options \<Rightarrow>
           if length options > 1 then (options, s)
           else greedyOptions (s\<lparr>st_chosen := st_chosen s @ [hd options]\<rparr>))
      else if length (st_active s) = 1 then ([], s\<lparr>st_winner := int (hd (st_active s))\<rparr>)
      else ([], s))"
  by pat_completeness auto
termination
proof (relation "measure (\<lambda>s. length (path_tokens (cf_paths (st_compiled s) ! hd (st_active s)))
    - length (st_chosen s))", goal_cases)
  case (2 s options)
  then have "hd (st_active s) \<in> set (st_active s)" by (cases "st_active s") auto
  with 2 greedy_tokens_Some [of "st_compiled s" "length (st_chosen s)" "st_active s" "[]" options]
  show ?case by (auto intro: diff_less_mono2)
qed simp

declare greedyOptions.simps [simp del]

definition selectGreedy :: "'f fops \<Rightarrow> token \<Rightarrow> 'f \<Rightarrow> 'f field_state \<Rightarrow> go_error + 'f field_state" where
  "selectGreedy ops token probability s =
     (let depth = length (st_chosen s);
          remaining = filter (\<lambda>c. let path = path_tokens (cf_paths (st_compiled s) ! c) in
            depth < length path \<and> path ! depth = token) (st_active s)
      in if remaining = [] then Inl (Errorf ''selected token %d is not on an active path'' [AN token])
         else Inr (s\<lparr>st_active := remaining, st_chosen := st_chosen s @ [token],
                    st_path_score := f_mul ops (st_path_score s) probability,
                    st_scored_nodes := Suc (st_scored_nodes s)\<rparr>))"

definition constrainedProbability :: "'f fops \<Rightarrow> 'f list \<Rightarrow> nat \<Rightarrow> 'f" where
  "constrainedProbability ops scores selected =
     f_div ops (f_one ops)
       (fold (\<lambda>s z. f_add ops z (f_exp ops (f_sub ops s (scores ! selected)))) scores (f_zero ops))"

section \<open>One round of scoring all fields\<close>

text \<open>A row of a round: the field it belongs to, whether it is a trie node, and its branch.\<close>

type_synonym row = "(nat \<times> bool) \<times> branch"

definition node_branch :: "compiled_field \<Rightarrow> trie_node \<Rightarrow> branch" where
  "node_branch cf node = \<lparr>br_tokens = cf_suffix cf @ node_prefix node, br_candidates = node_options node\<rparr>"

fun collect_rows ::
  "bool \<Rightarrow> nat \<Rightarrow> 'f field_state list \<Rightarrow> row list \<times> 'f field_state list" where
  "collect_rows first f [] = ([], [])"
| "collect_rows first f (s # ss) =
     (let (rows, ss') = collect_rows first (Suc f) ss in
      if cf_tree (st_compiled s) then
        ((if first then map (\<lambda>n. ((f, True), node_branch (st_compiled s) n)) (cf_nodes (st_compiled s))
          else []) @ rows, s # ss')
      else
        (let (options, s') = greedyOptions s in
         ((if options \<noteq> [] then [((f, False), \<lparr>br_tokens = cf_suffix (st_compiled s') @ st_chosen s',
             br_candidates = options\<rparr>)] else []) @ rows, s' # ss')))"

fun apply_rows ::
  "'f fops \<Rightarrow> (row \<times> 'f list) list \<Rightarrow> 'f field_state list \<Rightarrow> (nat \<Rightarrow> 'f list list) \<Rightarrow>
     go_error + ('f field_state list \<times> (nat \<Rightarrow> 'f list list))" where
  "apply_rows ops [] ss tree = Inr (ss, tree)"
| "apply_rows ops ((((f, is_node), br), scores) # rest) ss tree =
     (if is_node then apply_rows ops rest ss (tree(f := tree f @ [scores]))
      else if length scores \<noteq> length (br_candidates br)
      then Inl (Errorf ''field %d logits=%d, want %d''
             [AN (int f), AN (int (length scores)), AN (int (length (br_candidates br)))])
      else
        let best = argmax (f_lt ops) scores;
            probability = constrainedProbability ops scores best
        in case selectGreedy ops (br_candidates br ! best) probability (ss ! f) of
             Inl e \<Rightarrow> Inl (Wrapf ''field %d: %w'' [AN (int f)] e)
           | Inr s' \<Rightarrow> apply_rows ops rest (ss[f := s']) tree)"

definition set_tree_result :: "'f field_state \<Rightarrow> nat \<times> 'f list \<Rightarrow> 'f field_state" where
  "set_tree_result s r = (case r of (winner, probabilities) \<Rightarrow>
     s\<lparr>st_winner := int winner, st_probabilities := probabilities,
       st_path_score := probabilities ! winner, st_scored_nodes := length (cf_nodes (st_compiled s))\<rparr>)"

fun finish_trees ::
  "'f fops \<Rightarrow> (nat \<Rightarrow> 'f list list) \<Rightarrow> nat \<Rightarrow> 'f field_state list \<Rightarrow> go_error + 'f field_state list" where
  "finish_trees ops tree f [] = Inr []"
| "finish_trees ops tree f (s # ss) =
     (if \<not> cf_tree (st_compiled s)
      then res_bind (finish_trees ops tree (Suc f) ss) (\<lambda>ss'. Inr (s # ss'))
      else case FinishTree ops (st_compiled s) (tree f) of
        Inl e \<Rightarrow> Inl (Wrapf ''field %d: %w'' [AN (int f)] e)
      | Inr r \<Rightarrow> res_bind (finish_trees ops tree (Suc f) ss) (\<lambda>ss'. Inr (set_tree_result s r # ss')))"

text \<open>
  One iteration of the scoring loop. It returns the field states and whether the loop goes on
  (there was something to score).
\<close>

definition call_scorer ::
  "('w, 'f) scorer \<Rightarrow> token list \<Rightarrow> token list \<Rightarrow> branch list \<Rightarrow> bool \<Rightarrow> ('w, 'f list list) io" where
  "call_scorer sc shared ctx branches allow = (case score_split sc of
      Some split \<Rightarrow> split shared ctx branches allow
    | None \<Rightarrow> score_context sc (shared @ ctx) branches allow)"

definition score_round ::
  "'f fops \<Rightarrow> ('w, 'f) scorer \<Rightarrow> token list \<Rightarrow> token list \<Rightarrow> bool \<Rightarrow> bool \<Rightarrow> 'f field_state list \<Rightarrow>
     ('w, 'f field_state list \<times> bool) io" where
  "score_round ops sc shared ctx allow first ss =
     (let (rows, ss1) = collect_rows first 0 ss in
      if rows = [] then io_return (ss1, False)
      else io_bind (call_scorer sc shared ctx (map snd rows) allow) (\<lambda>scores.
        io_lift (if length scores \<noteq> length rows
          then Inl (Errorf ''scorer rows=%d, want %d'' [AN (int (length scores)), AN (int (length rows))])
          else res_bind (apply_rows ops (zip rows scores) ss1 (\<lambda>_. [])) (\<lambda>(ss2, tree).
            res_bind (if first then finish_trees ops tree 0 ss2 else Inr ss2) (\<lambda>ss3. Inr (ss3, True))))))"

section \<open>The scoring loop ends\<close>

text \<open>
  A round that scored something has either used up the one tree round or has made the active
  set of some greedy field smaller. No assumption on the scorer is needed: the selected token
  is always one of the options the loop offered.
\<close>

definition row_ready :: "'f field_state \<Rightarrow> branch \<Rightarrow> bool" where
  "row_ready s br \<longleftrightarrow> 1 < length (br_candidates br) \<and>
     greedy_tokens (st_compiled s) (length (st_chosen s)) (st_active s) [] = Some (br_candidates br)"

definition active_work :: "'f field_state list \<Rightarrow> nat" where
  "active_work ss = sum_list (map (\<lambda>s. length (st_active s)) ss)"

lemma greedyOptions_ready:
  "greedyOptions s = (options, s') \<Longrightarrow>
     st_active s' = st_active s \<and> st_compiled s' = st_compiled s \<and> st_probabilities s' = st_probabilities s \<and>
     (options \<noteq> [] \<longrightarrow> row_ready s' (b\<lparr>br_candidates := options\<rparr>))"
proof (induction s rule: greedyOptions.induct)
  case (1 s)
  show ?case
  proof (cases "1 < length (st_active s)")
    case long: True
    show ?thesis
    proof (cases "greedy_tokens (st_compiled s) (length (st_chosen s)) (st_active s) []")
      case None
      with long 1(2) show ?thesis by (auto simp: greedyOptions.simps [of s])
    next
      case (Some opts)
      show ?thesis
      proof (cases "1 < length opts")
        case True
        with Some long 1(2) show ?thesis by (auto simp: greedyOptions.simps [of s] row_ready_def)
      next
        case False
        with Some long 1(2)
        have "greedyOptions (s\<lparr>st_chosen := st_chosen s @ [hd opts]\<rparr>) = (options, s')"
          by (simp add: greedyOptions.simps [of s])
        from 1(1) [OF long Some False this] show ?thesis by simp
      qed
    qed
  next
    case False
    with 1(2) show ?thesis by (auto simp: greedyOptions.simps [of s] split: if_splits)
  qed
qed

definition row_ok :: "'f field_state list \<Rightarrow> nat \<Rightarrow> row \<Rightarrow> bool" where
  "row_ok ss f row \<longleftrightarrow> f \<le> fst (fst row) \<and> fst (fst row) < f + length ss \<and>
     (\<not> snd (fst row) \<longrightarrow> row_ready (ss ! (fst (fst row) - f)) (snd row))"

lemma row_ok_Cons: "row_ok ss (Suc f) row \<Longrightarrow> row_ok (s # ss) f row"
  by (auto simp: row_ok_def nth_Cons' Suc_diff_Suc)

lemma collect_rows_ok:
  "collect_rows first f ss = (rows, ss') \<Longrightarrow>
     (\<forall>row \<in> set rows. row_ok ss' f row \<and> (\<not> first \<longrightarrow> \<not> snd (fst row))) \<and>
     map st_active ss' = map st_active ss \<and> map st_compiled ss' = map st_compiled ss \<and>
     map st_probabilities ss' = map st_probabilities ss"
proof (induction first f ss arbitrary: rows ss' rule: collect_rows.induct)
  case (2 first f s ss)
  obtain rows0 ss0 where rec: "collect_rows first (Suc f) ss = (rows0, ss0)" by fastforce
  from 2(1) [OF rec]
  have rows0: "\<And>row s. row \<in> set rows0 \<Longrightarrow> row_ok (s # ss0) f row \<and> (\<not> first \<longrightarrow> \<not> snd (fst row))"
    and same: "map st_active ss0 = map st_active ss" "map st_compiled ss0 = map st_compiled ss"
      "map st_probabilities ss0 = map st_probabilities ss"
    by (auto intro: row_ok_Cons)
  show ?case
  proof (cases "cf_tree (st_compiled s)")
    case True
    with rec 2(2) have "ss' = s # ss0"
      "rows = (if first then map (\<lambda>n. ((f, True), node_branch (st_compiled s) n)) (cf_nodes (st_compiled s))
        else []) @ rows0" by auto
    with rows0 [of _ s] same show ?thesis by (auto simp: row_ok_def)
  next
    case False
    obtain options s' where g: "greedyOptions s = (options, s')" by fastforce
    with False rec 2(2) have "ss' = s' # ss0"
      "rows = (if options \<noteq> [] then [((f, False), \<lparr>br_tokens = cf_suffix (st_compiled s') @ st_chosen s',
             br_candidates = options\<rparr>)] else []) @ rows0" by auto
    with rows0 [of _ s'] same
      greedyOptions_ready [OF g, of "\<lparr>br_tokens = cf_suffix (st_compiled s') @ st_chosen s', br_candidates = []\<rparr>"]
    show ?thesis by (auto simp: row_ok_def)
  qed
qed simp

lemma selectGreedy_ready:
  assumes "row_ready s br" "t \<in> set (br_candidates br)"
  shows "\<exists>s'. selectGreedy ops t p s = Inr s' \<and> st_compiled s' = st_compiled s \<and>
    length (st_active s') < length (st_active s) \<and> st_active s' \<noteq> []"
proof -
  let ?at = "\<lambda>c. path_tokens (cf_paths (st_compiled s) ! c) ! length (st_chosen s)"
  let ?keep = "\<lambda>c. length (st_chosen s) < length (path_tokens (cf_paths (st_compiled s) ! c)) \<and> ?at c = t"
  have g: "greedy_tokens (st_compiled s) (length (st_chosen s)) (st_active s) [] = Some (br_candidates br)"
    and two: "1 < length (br_candidates br)" using assms(1) by (auto simp: row_ready_def)
  from greedy_tokens_Some [OF g]
  have depth: "\<And>c. c \<in> set (st_active s) \<Longrightarrow>
      length (st_chosen s) < length (path_tokens (cf_paths (st_compiled s) ! c))"
    and opts: "set (br_candidates br) = ?at ` set (st_active s)" and dist: "distinct (br_candidates br)"
    by auto
  from two dist have "card (set (br_candidates br)) \<noteq> 1" by (simp add: distinct_card)
  with assms(2) have "\<exists>u \<in> set (br_candidates br). u \<noteq> t"
    by (metis card_1_singleton_iff ex_in_conv insertI1 singletonI insert_absorb
        is_singletonI' is_singleton_altdef)
  then obtain c where "c \<in> set (st_active s)" "?at c \<noteq> t" unfolding opts by auto
  then have "length (filter ?keep (st_active s)) < length (st_active s)"
    by (intro length_filter_less) auto
  moreover from assms(2) obtain d where "d \<in> set (st_active s)" "?at d = t" unfolding opts by auto
  then have "filter ?keep (st_active s) \<noteq> []" using depth by (auto simp: filter_empty_conv)
  ultimately show ?thesis by (simp add: selectGreedy_def Let_def)
qed

lemma selectGreedy_le: "selectGreedy ops t p s = Inr s' \<Longrightarrow> length (st_active s') \<le> length (st_active s)"
  by (auto simp: selectGreedy_def Let_def split: if_splits)

lemma active_work_update: "f < length ss \<Longrightarrow>
    active_work (ss[f := s']) + length (st_active (ss ! f)) = active_work ss + length (st_active s')"
  by (induction ss arbitrary: f) (auto simp: active_work_def split: nat.splits)

lemma active_work_update_le:
  "length (st_active s') \<le> length (st_active (ss ! f)) \<Longrightarrow> active_work (ss[f := s']) \<le> active_work ss"
  using active_work_update [of f ss s'] by (cases "f < length ss") (auto simp: list_update_beyond)

lemma apply_rows_le: "apply_rows ops rows ss tree = Inr (ss', tree') \<Longrightarrow> active_work ss' \<le> active_work ss"
proof (induction ops rows ss tree arbitrary: ss' tree' rule: apply_rows.induct)
  case (2 ops f is_node br scores rest ss tree)
  then show ?case
    by (fastforce simp: Let_def split: if_splits sum.splits
      dest!: selectGreedy_le intro: order.trans active_work_update_le)
qed simp

lemma finish_trees_active: "finish_trees ops tree f ss = Inr ss' \<Longrightarrow>
    map st_active ss' = map st_active ss \<and> map st_compiled ss' = map st_compiled ss"
  by (induction ops tree f ss arbitrary: ss' rule: finish_trees.induct)
     (auto simp: go_res set_tree_result_def split: if_splits sum.splits)

lemma apply_rows_less:
  assumes "apply_rows ops (((own, br), scores) # rest) ss tree = Inr (ss', tree')"
    and "row_ok ss 0 (own, br)" "\<not> snd own"
  shows "active_work ss' < active_work ss"
proof -
  obtain f where own: "own = (f, False)" using assms(3) by (cases own) auto
  then have f: "f < length ss" and ready: "row_ready (ss ! f) br"
    using assms(2) by (auto simp: row_ok_def)
  let ?best = "argmax (f_lt ops) scores"
  have len: "length scores = length (br_candidates br)" and
    rest: "\<exists>s'. selectGreedy ops (br_candidates br ! ?best) (constrainedProbability ops scores ?best) (ss ! f) = Inr s' \<and>
      apply_rows ops rest (ss[f := s']) tree = Inr (ss', tree')"
    using assms(1) unfolding own by (auto simp: Let_def split: if_splits sum.splits)
  have "?best < length scores"
    using ready len by (intro argmax_less) (auto simp: row_ready_def)
  then have "br_candidates br ! ?best \<in> set (br_candidates br)" using len by simp
  then obtain s0 where
    s0: "selectGreedy ops (br_candidates br ! ?best) (constrainedProbability ops scores ?best) (ss ! f) = Inr s0"
      "length (st_active s0) < length (st_active (ss ! f))"
    using selectGreedy_ready [OF ready] by blast
  with rest have "apply_rows ops rest (ss[f := s0]) tree = Inr (ss', tree')" by simp
  from apply_rows_le [OF this] active_work_update [OF f, of s0] s0(2) show ?thesis by linarith
qed

lemma active_work_map: "map st_active ss = map st_active ss' \<Longrightarrow> active_work ss = active_work ss'"
  for ss ss' :: "'f field_state list"
proof -
  assume eq: "map st_active ss = map st_active ss'"
  have sum: "active_work ts = sum_list (map length (map st_active ts))" for ts :: "'f field_state list"
    by (simp add: active_work_def comp_def)
  show ?thesis unfolding sum eq ..
qed

definition loop_work :: "bool \<Rightarrow> 'f field_state list \<Rightarrow> nat" where
  "loop_work first ss = (if first then 1 else 0) + active_work ss"

lemma score_round_Inr:
  "score_round ops sc shared ctx allow first ss w = (Inr (ss', again), w') \<longleftrightarrow>
     (\<exists>rows ss1. collect_rows first 0 ss = (rows, ss1) \<and>
       (if rows = [] then ss' = ss1 \<and> \<not> again \<and> w' = w
        else again \<and> (\<exists>scores ss2 tree.
          call_scorer sc shared ctx (map snd rows) allow w = (Inr scores, w') \<and>
          length scores = length rows \<and>
          apply_rows ops (zip rows scores) ss1 (\<lambda>_. []) = Inr (ss2, tree) \<and>
          (if first then finish_trees ops tree 0 ss2 = Inr ss' else ss' = ss2))))"
proof (cases "collect_rows first 0 ss")
  case (Pair rows ss1)
  show ?thesis
  proof (cases "rows = []")
    case True
    with Pair show ?thesis by (auto simp: score_round_def)
  next
    case False
    with Pair show ?thesis
      by (cases first) (auto simp: score_round_def go_res split: if_splits)
  qed
qed

lemma score_round_decreases:
  assumes "score_round ops sc shared ctx allow first ss w = (Inr (ss', True), w')"
  shows "loop_work False ss' < loop_work first ss"
proof -
  from assms [unfolded score_round_Inr] obtain rows ss1 scores ss2 tree where
    c: "collect_rows first 0 ss = (rows, ss1)" and ne: "rows \<noteq> []" and
    len: "length scores = length rows" and
    a: "apply_rows ops (zip rows scores) ss1 (\<lambda>_. []) = Inr (ss2, tree)" and
    fin: "if first then finish_trees ops tree 0 ss2 = Inr ss' else ss' = ss2"
    by (auto split: if_splits)
  note ok = collect_rows_ok [OF c]
  have ss1: "active_work ss1 = active_work ss" using ok by (intro active_work_map) simp
  have ss': "active_work ss' = active_work ss2"
    using fin finish_trees_active [of ops tree 0 ss2 ss'] by (auto intro: active_work_map split: if_splits)
  show ?thesis
  proof (cases first)
    case True
    with apply_rows_le [OF a] ss1 ss' show ?thesis by (simp add: loop_work_def)
  next
    case False
    from ne len obtain own br rest x xs where r: "rows = (own, br) # rest" "scores = x # xs"
      by (metis length_0_conv neq_Nil_conv surj_pair)
    from a have "apply_rows ops (((own, br), x) # zip rest xs) ss1 (\<lambda>_. []) = Inr (ss2, tree)" by (simp add: r)
    moreover have "row_ok ss1 0 (own, br)" "\<not> snd own" using ok False r by auto
    ultimately have "active_work ss2 < active_work ss1" by (rule apply_rows_less)
    with ss1 ss' show ?thesis by (simp add: loop_work_def)
  qed
qed

text \<open>The loop of \<open>scoreFields\<close>, from the given round on.\<close>

function score_loop ::
  "'f fops \<Rightarrow> ('w, 'f) scorer \<Rightarrow> token list \<Rightarrow> token list \<Rightarrow> bool \<Rightarrow> bool \<Rightarrow> nat \<Rightarrow> 'f field_state list \<Rightarrow>
     ('w, 'f field_state list \<times> nat) io" where
  "score_loop ops sc shared ctx allow first rounds ss w =
     (case score_round ops sc shared ctx allow first ss w of
        (Inl e, w') \<Rightarrow> (Inl e, w')
      | (Inr (ss', again), w') \<Rightarrow>
          if again then score_loop ops sc shared ctx allow False (Suc rounds) ss' w'
          else (Inr (ss', rounds), w'))"
  by pat_completeness auto
termination
proof (relation "measure (\<lambda>(ops, sc, shared, ctx, allow, first, rounds, ss, w). loop_work first ss)",
    goal_cases)
  case (2 ops sc shared ctx allow first rounds ss w r w' p ss' again)
  then show ?case using score_round_decreases [of ops sc shared ctx allow first ss w ss' w'] by simp
qed simp

declare score_loop.simps [simp del]

definition scoreFields ::
  "'f fops \<Rightarrow> ('w, 'f) scorer \<Rightarrow> token list \<Rightarrow> token list \<Rightarrow> 'f field_state list \<Rightarrow> bool \<Rightarrow>
     ('w, 'f field_state list \<times> nat) io" where
  "scoreFields ops sc shared ctx ss allow = score_loop ops sc shared ctx allow True 0 ss"

text \<open>The number of rounds is bounded by the number of candidates.\<close>

lemma score_loop_rounds:
  "score_loop ops sc shared ctx allow first rounds ss w = (Inr (ss', n), w') \<Longrightarrow>
     rounds \<le> n \<and> n \<le> rounds + loop_work first ss"
proof (induction ops sc shared ctx allow first rounds ss w rule: score_loop.induct)
  case (1 ops sc shared ctx allow first rounds ss w)
  show ?case
  proof (cases "score_round ops sc shared ctx allow first ss w")
    case (Pair r w1)
    show ?thesis
    proof (cases r)
      case (Inl e)
      with Pair 1(2) show ?thesis by (simp add: score_loop.simps [of ops])
    next
      case (Inr p)
      obtain ss1 again where p: "p = (ss1, again)" by fastforce
      show ?thesis
      proof (cases again)
        case True
        with 1(2) Pair Inr p have
          rec: "score_loop ops sc shared ctx allow False (Suc rounds) ss1 w1 = (Inr (ss', n), w')"
          by (simp add: score_loop.simps [of ops sc shared ctx allow first])
        from 1(1) [OF Pair [symmetric] Inr p [symmetric] True rec]
          score_round_decreases [of ops sc shared ctx allow first ss w ss1 w1] Pair Inr p True
        show ?thesis by simp
      next
        case False
        with 1(2) Pair Inr p show ?thesis by (simp add: score_loop.simps [of ops sc shared ctx allow first])
      qed
    qed
  qed
qed

end
