(* ===== verification/Decide.thy ===== *)
theory Decide
  imports Engine
begin

text \<open>
  \<open>model/gosystemone/engine.go\<close>, \<open>decide\<close> and the assembly of its results: a request is
  normalised, its schema compiled, every context tokenised and bounded, every field scored
  (packed over all contexts when the scorer offers it, otherwise context by context), and the
  winners, probabilities, usage counts and timings become the response. Everything that
  touches the outside (clock, cancellation, scorer) threads the world.
\<close>

section \<open>Results\<close>

fun candidate_results ::
  "'f fops \<Rightarrow> field_spec \<Rightarrow> int \<Rightarrow> nat \<Rightarrow> candidate list \<Rightarrow> 'f list \<Rightarrow> 'f \<Rightarrow>
     go_error + ('f candidate_result list \<times> 'f)" where
  "candidate_results ops field winner i (c # cs) (p # ps) acc =
     (if f_isnan ops p \<or> f_isinf ops p \<or> f_lt ops p (f_zero ops) \<or> f_lt ops (f_one ops) p
      then Inl (Errorf ''field %q candidate %d has invalid probability'' [AS (fs_name field), AN (int i)])
      else res_bind (candidate_results ops field winner (Suc i) cs ps (f_add ops acc p)) (\<lambda>(rs, total).
        Inr (\<lparr>cr_value = cand_value c, cr_probability = p, cr_selected = (int i = winner)\<rparr> # rs, total)))"
| "candidate_results ops field winner i _ _ acc = Inr ([], acc)"

definition assembleCandidateResults ::
  "'f fops \<Rightarrow> field_spec \<Rightarrow> 'f field_state \<Rightarrow> go_error + 'f candidate_result list" where
  "assembleCandidateResults ops field state =
     (if st_probabilities state = [] then Inr []
      else if length (st_probabilities state) \<noteq> length (fs_candidates field)
      then Inl (Errorf ''field %q candidate probabilities=%d want %d'' [AS (fs_name field),
             AN (int (length (st_probabilities state))), AN (int (length (fs_candidates field)))])
      else res_bind (candidate_results ops field (st_winner state) 0 (fs_candidates field)
             (st_probabilities state) (f_zero ops)) (\<lambda>(rs, total).
        if f_lt ops (f_1e9 ops) (f_abs ops (f_sub ops total (f_one ops)))
        then Inl (Errorf ''field %q candidate probabilities sum=%g'' [AS (fs_name field)])
        else Inr rs))"

fun assemble_fields ::
  "'f fops \<Rightarrow> field_spec list \<Rightarrow> 'f field_state list \<Rightarrow> 'f item_result \<Rightarrow> go_error + 'f item_result" where
  "assemble_fields ops flds [] out = Inr out"
| "assemble_fields ops [] (state # states) out = Inl Panic"
| "assemble_fields ops (field # flds) (state # states) out =
     (if st_winner state < 0 \<or> st_winner state \<ge> int (length (fs_candidates field))
      then Inl (Errorf ''field %q has no selected value'' [AS (fs_name field)])
      else
        let candidate = fs_candidates field ! nat (st_winner state)
        in res_bind (assembleCandidateResults ops field state) (\<lambda>candidateResults.
          assemble_fields ops flds states
            (out\<lparr>it_decision := (it_decision out)(fs_name field \<mapsto> cand_value candidate),
                 it_fields := (it_fields out)(fs_name field \<mapsto>
                   \<lparr>fr_value = cand_value candidate, fr_probability = st_path_score state,
                    fr_candidates = candidateResults, fr_scored_nodes = st_scored_nodes state,
                    fr_tree = cf_tree (st_compiled state)\<rparr>),
                 it_scored_rows := it_scored_rows out + cf_rows (st_compiled state)\<rparr>)))"

definition assembleResult ::
  "'f fops \<Rightarrow> compiled_schema \<Rightarrow> 'f field_state list \<Rightarrow> nat \<Rightarrow> go_error + 'f item_result" where
  "assembleResult ops schema states contextTokens =
     res_bind (assemble_fields ops (cs_fields schema) states
       \<lparr>it_decision = Map.empty, it_fields = Map.empty, it_context_tokens = 0, it_scored_rows = 0\<rparr>)
       (\<lambda>out. Inr (out\<lparr>it_context_tokens := contextTokens\<rparr>))"

section \<open>Preparing a request\<close>

fun validate_contexts :: "(string \<Rightarrow> go_error option) \<Rightarrow> nat \<Rightarrow> string list \<Rightarrow> go_error option" where
  "validate_contexts v i [] = None"
| "validate_contexts v i (text # texts) = (case v text of
     Some e \<Rightarrow> Some (Wrapf ''contexts[%d]: %w'' [AN (int i)] e)
   | None \<Rightarrow> validate_contexts v (Suc i) texts)"

definition validateRequestUserText :: "(string \<Rightarrow> go_error option) \<Rightarrow> request \<Rightarrow> go_error option" where
  "validateRequestUserText v request = (case v (req_schema request) of
     Some e \<Rightarrow> Some (Wrapf ''schema: %w'' [] e)
   | None \<Rightarrow> (case v (req_instructions request) of
       Some e \<Rightarrow> Some (Wrapf ''instructions: %w'' [] e)
     | None \<Rightarrow> validate_contexts v 0 (req_contexts request)))"

definition renderShared :: "string \<Rightarrow> string" where
  "renderShared system = ''<|turn>system'' @ [newline] @ TrimSpace system @ ''<turn|>'' @ [newline] @
     ''<|turn>user'' @ [newline]"

definition renderContext :: "string \<Rightarrow> string" where
  "renderContext text = TrimSpace text @ ''<turn|>'' @ [newline] @ ''<|turn>model'' @ [newline] @
     ''<|channel>thought'' @ [newline] @ ''<channel|>{'' @ [newline]"

fun compile_fields ::
  "(string \<Rightarrow> token list) \<Rightarrow> string \<Rightarrow> int \<Rightarrow> field_input list \<Rightarrow> field_spec list \<Rightarrow>
     go_error + compiled_field list" where
  "compile_fields enc mode treeMax [] specs = Inr []"
| "compile_fields enc mode treeMax (input # inputs) specs =
     (case CompileField (Some enc) input mode treeMax of
        Inl e \<Rightarrow> if specs = [] then Inl Panic
          else Inl (Wrapf ''field %q: %w'' [AS (fs_name (hd specs))] e)
      | Inr cf \<Rightarrow> res_bind (compile_fields enc mode treeMax inputs (tl specs)) (\<lambda>cfs. Inr (cf # cfs)))"

record prepared =
  pr_request :: request
  pr_schema :: compiled_schema
  pr_fields :: "compiled_field list"
  pr_shared :: "token list"

definition prepare ::
  "(nat \<Rightarrow> bool) \<Rightarrow> (string \<Rightarrow> token list) \<Rightarrow> (string \<Rightarrow> go_error option) option \<Rightarrow> int \<Rightarrow> request \<Rightarrow>
     compiled_schema option \<Rightarrow> go_error + prepared" where
  "prepare isprint enc validator bos request0 compiled =
     res_bind (NormalizeAndValidate (Some request0)) (\<lambda>request.
     case (case validator of None \<Rightarrow> None | Some v \<Rightarrow> validateRequestUserText v request) of
       Some e \<Rightarrow> Inl e
     | None \<Rightarrow>
       res_bind (case compiled of None \<Rightarrow> CompileSchema isprint (req_schema request) (req_instructions request)
           | Some schema \<Rightarrow> Inr schema) (\<lambda>schema.
       res_bind (compile_fields enc (req_mode request) (req_tree_max request) (cs_inputs schema) (cs_fields schema))
         (\<lambda>flds.
         let sharedTokens0 = enc (renderShared (system_text schema));
             sharedTokens = (if bos \<ge> 0 then bos # sharedTokens0 else sharedTokens0)
         in if sharedTokens = [] then Inl (Errorf ''decision shared prompt tokenized to empty'' [])
            else Inr \<lparr>pr_request = request, pr_schema = schema, pr_fields = flds,
                     pr_shared = sharedTokens\<rparr>)))"

fun encode_contexts ::
  "(string \<Rightarrow> token list) \<Rightarrow> nat \<Rightarrow> nat \<Rightarrow> string list \<Rightarrow> go_error + token list list" where
  "encode_contexts enc sharedLen i [] = Inr []"
| "encode_contexts enc sharedLen i (text # texts) =
     (let contextTokens = enc (renderContext text); promptLen = sharedLen + length contextTokens
      in if contextTokens = [] then Inl (Errorf ''contexts[%d] tokenized to empty'' [AN (int i)])
         else if promptLen > MaxContextTokens
         then Inl (Errorf ''contexts[%d] prompt tokens=%d exceeds %d''
                [AN (int i), AN (int promptLen), AN (int MaxContextTokens)])
         else res_bind (encode_contexts enc sharedLen (Suc i) texts) (\<lambda>cs. Inr (contextTokens # cs)))"

section \<open>Scoring the contexts\<close>

definition all_branches :: "compiled_field list \<Rightarrow> branch list" where
  "all_branches flds = concat (map (\<lambda>field. map (node_branch field) (cf_nodes field)) flds)"

text \<open>The packed scores of all contexts, \<open>None\<close> when they are scored one context at a time.\<close>

definition packed_scores ::
  "('w, 'f) scorer \<Rightarrow> token list \<Rightarrow> token list list \<Rightarrow> compiled_field list \<Rightarrow> bool \<Rightarrow>
     ('w, 'f list list list option) io" where
  "packed_scores sc shared contexts flds allow =
     (let allTree = (\<forall>field \<in> set flds. cf_tree field); branches = all_branches flds;
          mismatch = io_lift (Inl (Errorf ''batch scorer context count mismatch'' []))
      in if score_trees sc \<noteq> None \<and> allTree \<and> length branches > 0 then
           io_bind (the (score_trees sc) shared contexts branches allow) (\<lambda>packed.
             if length packed \<noteq> length contexts then mismatch else io_return (Some packed))
         else if score_batch sc \<noteq> None \<and> length contexts > 1 \<and> allTree \<and> length flds = 1 \<and>
             length branches = 1 then
           io_bind (the (score_batch sc) shared contexts (branches ! 0) allow) (\<lambda>rows.
             if length rows \<noteq> length contexts then mismatch
             else io_return (Some (map (\<lambda>row. [row]) rows)))
         else io_return None)"

fun packed_states ::
  "'f fops \<Rightarrow> compiled_field list \<Rightarrow> 'f list list \<Rightarrow> go_error + 'f field_state list" where
  "packed_states ops [] rows = Inr []"
| "packed_states ops (field # flds) rows =
     (let n = length (cf_nodes field); scores = take n rows in
      if \<exists>(node, s) \<in> set (zip (cf_nodes field) scores). length s \<noteq> length (node_options node)
      then Inl (Errorf ''batch candidate count mismatch'' [])
      else res_bind (FinishTree ops field scores) (\<lambda>r.
        res_bind (packed_states ops flds (drop n rows)) (\<lambda>states.
          Inr (set_tree_result (newFieldState ops field) r # states))))"

text \<open>The field states of context \<open>i\<close> and the rounds it took.\<close>

definition context_states ::
  "'f fops \<Rightarrow> ('w, 'f) scorer \<Rightarrow> prepared \<Rightarrow> nat \<Rightarrow> token list \<Rightarrow> 'f list list option \<Rightarrow>
     ('w, 'f field_state list \<times> nat) io" where
  "context_states ops sc pr i contextTokens packed = (case packed of
     Some rows \<Rightarrow>
       io_lift (if length rows \<noteq> length (all_branches (pr_fields pr))
         then Inl (Errorf ''batch scorer branch count mismatch'' [])
         else res_bind (packed_states ops (pr_fields pr) rows) (\<lambda>states. Inr (states, 1)))
   | None \<Rightarrow> (\<lambda>w. case scoreFields ops sc (pr_shared pr) contextTokens
         (map (newFieldState ops) (pr_fields pr)) (AllowCache (pr_request pr)) w of
       (Inl e, w') \<Rightarrow> (Inl (Wrapf ''contexts[%d]: %w'' [AN (int i)] e), w')
     | (Inr r, w') \<Rightarrow> (Inr r, w')))"

fun score_contexts ::
  "'f fops \<Rightarrow> ('w, 'f) scorer \<Rightarrow> prepared \<Rightarrow> 'f list list list option \<Rightarrow> nat \<Rightarrow> token list list \<Rightarrow>
     ('w, ('f item_result \<times> nat) list) io" where
  "score_contexts ops sc pr packed i [] = io_return []"
| "score_contexts ops sc pr packed i (contextTokens # rest) =
     io_bind (context_states ops sc pr i contextTokens (map_option (\<lambda>p. p ! i) packed)) (\<lambda>(states, rounds).
     io_bind (io_lift (case assembleResult ops (pr_schema pr) states (length contextTokens) of
         Inl e \<Rightarrow> Inl (Wrapf ''contexts[%d]: %w'' [AN (int i)] e) | Inr item \<Rightarrow> Inr item)) (\<lambda>item.
     io_bind (score_contexts ops sc pr packed (Suc i) rest) (\<lambda>items.
     io_return ((item, rounds) # items))))"

section \<open>The whole decision\<close>

definition durationMS :: "'f fops \<Rightarrow> int \<Rightarrow> 'f" where
  "durationMS ops d = f_div ops (f_of_int ops d) (f_of_int ops 1000000)"

text \<open>\<open>time.Time.Sub\<close>: the difference in nanoseconds, saturating.\<close>

definition Sub :: "go_time \<Rightarrow> go_time \<Rightarrow> int" where
  "Sub t u = max min_int64 (min max_int64 (gt_nanos t - gt_nanos u))"

definition build_response ::
  "'f fops \<Rightarrow> prepared \<Rightarrow> go_time \<Rightarrow> ('f item_result \<times> nat) list \<Rightarrow> int \<Rightarrow> int \<Rightarrow> int \<Rightarrow> 'f response" where
  "build_response ops pr created items prefill scoring elapsed =
     (let contextTokens = sum_list (map (it_context_tokens \<circ> fst) items);
          totalMS = durationMS ops elapsed
      in \<lparr>rs_object = ''decision'', rs_model = req_model (pr_request pr), rs_created = gt_unix created,
          rs_results = map fst items,
          rs_usage = \<lparr>us_prompt_tokens = length (pr_shared pr) + contextTokens,
            us_cached_tokens = (if AllowCache (pr_request pr) then length (pr_shared pr) else 0),
            us_context_tokens = contextTokens,
            us_scored_rows = sum_list (map (it_scored_rows \<circ> fst) items)\<rparr>,
          rs_timings = \<lparr>tm_prefill_ms = durationMS ops prefill, tm_scoring_ms = durationMS ops scoring,
            tm_total_ms = totalMS, tm_rounds = sum_list (map snd items),
            tm_per_decision_ms = (if length items > 0 then f_div ops totalMS (f_of_int ops (int (length items)))
              else f_zero ops)\<rparr>\<rparr>)"

definition not_configured :: go_error where
  "not_configured = Errorf ''go-system-one engine is not configured'' []"

text \<open>The part after the request is prepared (from \<open>response := \<dots>\<close> on).\<close>

definition run_prepared ::
  "'f fops \<Rightarrow> ('w, 'f) engine \<Rightarrow> (string \<Rightarrow> token list) \<Rightarrow> ('w, 'f) scorer \<Rightarrow> go_time \<Rightarrow> prepared \<Rightarrow>
     ('w, 'f response) io" where
  "run_prepared ops e enc sc started pr =
     io_bind (io_get (en_now e)) (\<lambda>created.
     io_bind (io_get (en_now e)) (\<lambda>prefillStart.
     io_bind (io_lift (encode_contexts enc (length (pr_shared pr)) 0 (req_contexts (pr_request pr)))) (\<lambda>contexts.
     io_bind (io_get (en_now e)) (\<lambda>prefillEnd.
     io_bind (io_get (en_now e)) (\<lambda>scoringStart.
     io_bind (packed_scores sc (pr_shared pr) contexts (pr_fields pr) (AllowCache (pr_request pr))) (\<lambda>packed.
     io_bind (score_contexts ops sc pr packed 0 contexts) (\<lambda>items.
     io_bind (io_get (en_now e)) (\<lambda>scoringEnd.
     io_bind (io_get (en_now e)) (\<lambda>finished.
     io_return (build_response ops pr created items (Sub prefillEnd prefillStart)
       (Sub scoringEnd scoringStart) (Sub finished started)))))))))))"

definition decide ::
  "'f fops \<Rightarrow> (nat \<Rightarrow> bool) \<Rightarrow> ('w, 'f) engine option \<Rightarrow> request \<Rightarrow> compiled_schema option \<Rightarrow>
     ('w, 'f response) io" where
  "decide ops isprint eo request compiled = (case eo of None \<Rightarrow> io_lift (Inl not_configured) | Some e \<Rightarrow>
     io_bind (io_get (en_now e)) (\<lambda>started.
     io_bind (io_get (en_ctx_err e)) (\<lambda>err. case err of Some x \<Rightarrow> io_lift (Inl x) | None \<Rightarrow>
     case en_tokenizer e of None \<Rightarrow> io_lift (Inl not_configured) | Some enc \<Rightarrow>
     case en_scorer e of None \<Rightarrow> io_lift (Inl not_configured) | Some sc \<Rightarrow>
     io_bind (io_lift (prepare isprint enc (en_validator e) (en_bos e) request compiled))
       (run_prepared ops e enc sc started))))"

definition Decide ::
  "'f fops \<Rightarrow> (nat \<Rightarrow> bool) \<Rightarrow> ('w, 'f) engine option \<Rightarrow> request \<Rightarrow> ('w, 'f response) io" where
  "Decide ops isprint eo request = decide ops isprint eo request None"

end
