(* ===== verification/EngineFacts.thy ===== *)
theory EngineFacts
  imports Decide
begin

text \<open>
  Facts about the decision engine: whatever the scorer answers, a scoring loop that returns has
  selected one of the candidates of every field; a scorer whose rows have the widths asked for
  is never refused; scoring all contexts in one packed call gives the states that scoring them
  one by one gives.
\<close>

section \<open>The greedy invariant\<close>

definition greedy_ok :: "'f field_state \<Rightarrow> bool" where
  "greedy_ok s \<longleftrightarrow> st_active s \<noteq> [] \<and> distinct (st_active s) \<and>
     (\<forall>c \<in> set (st_active s). c < length (cf_paths (st_compiled s)) \<and>
        prefix (st_chosen s) (toks (cf_paths (st_compiled s)) c))"

definition selected :: "'f field_state \<Rightarrow> bool" where
  "selected s \<longleftrightarrow> 0 \<le> st_winner s \<and> st_winner s < int (length (cf_paths (st_compiled s)))"

lemma prefix_eq_take: "prefix p xs \<Longrightarrow> length xs \<le> length p \<Longrightarrow> xs = p"
  by (auto simp: prefix_def)

lemma greedy_tokens_not_None:
  assumes ok: "field_ok (st_compiled s)" "greedy_ok s" and two: "1 < length (st_active s)"
  shows "greedy_tokens (st_compiled s) (length (st_chosen s)) (st_active s) [] \<noteq> None"
proof -
  let ?paths = "cf_paths (st_compiled s)"
  have depth: "length (st_chosen s) < length (path_tokens (?paths ! c))" if c: "c \<in> set (st_active s)" for c
  proof (rule ccontr)
    assume short: "\<not> length (st_chosen s) < length (path_tokens (?paths ! c))"
    from c ok(2) have "prefix (st_chosen s) (toks ?paths c)" by (simp add: greedy_ok_def)
    with short have eq: "toks ?paths c = st_chosen s" by (intro prefix_eq_take) (simp_all add: toks_def)
    from two ok(2) have "card (set (st_active s)) \<noteq> 1" by (simp add: distinct_card greedy_ok_def)
    with c obtain d where d: "d \<in> set (st_active s)" "d \<noteq> c"
      by (metis card_1_singleton_iff insertI1 is_singletonI' is_singleton_altdef empty_iff)
    from d ok(2) have "prefix (toks ?paths c) (toks ?paths d)" by (simp add: eq greedy_ok_def)
    moreover from c d ok(2) have "c < length ?paths" "d < length ?paths" by (simp_all add: greedy_ok_def)
    ultimately show False using ok(1) d(2) by (auto simp: field_ok_def prefix_free_def)
  qed
  have "greedy_tokens (st_compiled s) (length (st_chosen s)) cs opts \<noteq> None"
    if "\<And>c. c \<in> set cs \<Longrightarrow> length (st_chosen s) < length (path_tokens (?paths ! c))" for cs opts
    using that
  proof (induction cs arbitrary: opts)
    case (Cons c cs)
    have "greedy_tokens (st_compiled s) (length (st_chosen s)) cs o' \<noteq> None" for o'
      by (rule Cons.IH) (use Cons.prems in simp)
    moreover have "length (st_chosen s) < length (path_tokens (?paths ! c))" using Cons.prems by simp
    ultimately show ?case by (simp add: Let_def not_le)
  qed simp
  then show ?thesis using depth by blast
qed

lemma greedy_ok_extend:
  assumes "greedy_ok s" "\<And>c. c \<in> set cs \<Longrightarrow> c \<in> set (st_active s) \<and>
      length (st_chosen s) < length (path_tokens (cf_paths (st_compiled s) ! c)) \<and>
      path_tokens (cf_paths (st_compiled s) ! c) ! length (st_chosen s) = t"
    and "cs \<noteq> []" "distinct cs" "st_active s' = cs" "st_chosen s' = st_chosen s @ [t]"
      "st_compiled s' = st_compiled s"
  shows "greedy_ok s'"
  using assms by (auto simp: greedy_ok_def prefix_snoc_nth toks_def)

lemma greedyOptions_ok:
  "field_ok (st_compiled s) \<Longrightarrow> greedy_ok s \<Longrightarrow> greedyOptions s = (options, s') \<Longrightarrow>
     greedy_ok s' \<and> (options = [] \<longrightarrow> selected s')"
proof (induction s rule: greedyOptions.induct)
  case (1 s)
  show ?case
  proof (cases "1 < length (st_active s)")
    case long: True
    from greedy_tokens_not_None [OF 1(2,3) long] obtain opts where
      g: "greedy_tokens (st_compiled s) (length (st_chosen s)) (st_active s) [] = Some opts" by blast
    note opts = greedy_tokens_Some [OF g]
    show ?thesis
    proof (cases "1 < length opts")
      case True
      with g long 1(3,4) show ?thesis by (auto simp: greedyOptions.simps [of s])
    next
      case False
      from opts long have "opts \<noteq> []" by (cases "st_active s") auto
      with False have single: "opts = [hd opts]" by (cases opts) (auto simp: Suc_le_eq not_less)
      have eq: "greedyOptions (s\<lparr>st_chosen := st_chosen s @ [hd opts]\<rparr>) = (options, s')"
        using False g long 1(4) by (simp add: greedyOptions.simps [of s])
      have "set (st_active s) \<subseteq> {c. path_tokens (cf_paths (st_compiled s) ! c) ! length (st_chosen s) = hd opts}"
        using opts by (subst (asm) single) auto
      then have ok: "greedy_ok (s\<lparr>st_chosen := st_chosen s @ [hd opts]\<rparr>)"
        using opts 1(3) long by (intro greedy_ok_extend [OF 1(3), of "st_active s" "hd opts"])
          (auto simp: greedy_ok_def)
      from 1(1) [OF long g False _ ok eq] 1(2) show ?thesis by simp
    qed
  next
    case False
    with 1(3) have one: "length (st_active s) = 1" by (cases "st_active s") (auto simp: greedy_ok_def)
    then have mem: "hd (st_active s) \<in> set (st_active s)" by (cases "st_active s") auto
    from one 1(4) have "s' = s\<lparr>st_winner := int (hd (st_active s))\<rparr>" by (simp add: greedyOptions.simps [of s])
    with 1(3) mem show ?thesis by (auto simp: greedy_ok_def selected_def)
  qed
qed

lemma selectGreedy_ok:
  assumes "selectGreedy ops t p s = Inr s'"
  shows "st_compiled s' = st_compiled s" "st_winner s' = st_winner s"
    "st_probabilities s' = st_probabilities s" "greedy_ok s \<Longrightarrow> greedy_ok s'"
proof -
  let ?keep = "\<lambda>c. length (st_chosen s) < length (path_tokens (cf_paths (st_compiled s) ! c)) \<and>
    path_tokens (cf_paths (st_compiled s) ! c) ! length (st_chosen s) = t"
  have s': "filter ?keep (st_active s) \<noteq> []" "s' = s\<lparr>st_active := filter ?keep (st_active s),
      st_chosen := st_chosen s @ [t], st_path_score := f_mul ops (st_path_score s) p,
      st_scored_nodes := Suc (st_scored_nodes s)\<rparr>"
    using assms by (auto simp: selectGreedy_def Let_def split: if_splits)
  then show "st_compiled s' = st_compiled s" "st_winner s' = st_winner s"
    "st_probabilities s' = st_probabilities s" by simp_all
  show "greedy_ok s'" if "greedy_ok s"
    by (rule greedy_ok_extend [OF that, of "filter ?keep (st_active s)" t])
       (use s' that in \<open>auto simp: greedy_ok_def\<close>)
qed

section \<open>The invariant of the scoring loop\<close>

definition state_ok :: "bool \<Rightarrow> 'f field_state \<Rightarrow> bool" where
  "state_ok first s \<longleftrightarrow> field_ok (st_compiled s) \<and>
     (st_probabilities s = [] \<or> length (st_probabilities s) = length (cf_paths (st_compiled s))) \<and>
     (if cf_tree (st_compiled s) then selected s \<or> first \<and> 1 < length (cf_paths (st_compiled s))
      else greedy_ok s)"

lemma newFieldState_ok: "field_ok cf \<Longrightarrow> state_ok True (newFieldState ops cf)"
proof -
  assume ok: "field_ok cf"
  then have ne: "cf_paths cf \<noteq> []" by (simp add: field_ok_def)
  show ?thesis
  proof (cases "length (cf_paths cf) = 1")
    case True
    with ok show ?thesis
      by (simp add: state_ok_def newFieldState_def Let_def selected_def greedy_ok_def toks_def)
  next
    case False
    with ne have "1 < length (cf_paths cf)" by (cases "cf_paths cf") auto
    with ok ne show ?thesis by (simp add: state_ok_def newFieldState_def Let_def greedy_ok_def toks_def)
  qed
qed

text \<open>Two candidates always leave a branching point.\<close>

lemma two_paths_node:
  assumes "field_ok cf" "1 < length (cf_paths cf)"
  shows "cf_nodes cf \<noteq> []"
proof -
  let ?p = "toks (cf_paths cf) 0" and ?q = "toks (cf_paths cf) 1"
  have "parallel ?p ?q"
    using assms by (auto simp: field_ok_def prefix_free_def parallel_def)
  from parallel_decomp [OF this] obtain as b bs c cs where
    split: "b \<noteq> c" "?p = as @ b # bs" "?q = as @ c # cs" by blast
  have "{b, c} \<subseteq> next_tokens (cf_paths cf) as"
  proof -
    have "prefix (as @ [b]) ?p" "prefix (as @ [c]) ?q" using split by auto
    then show ?thesis using assms(2) unfolding next_tokens_def by (auto intro: exI [of _ 0] exI [of _ 1])
  qed
  then have "card {b, c} \<le> card (next_tokens (cf_paths cf) as)" by (rule card_mono [rotated]) simp
  then have "branching (cf_paths cf) as" using split(1) by (simp add: branching_def)
  then have "node_at (cf_paths cf) as \<in> set (cf_nodes cf)"
    using assms(1) by (auto simp: field_ok_def buildTrieNodes_set)
  then show ?thesis by auto
qed

lemma collect_rows_state_ok:
  "collect_rows first f ss = (rows, ss') \<Longrightarrow> \<forall>s \<in> set ss. state_ok first s \<Longrightarrow>
     (\<forall>s \<in> set ss'. state_ok first s) \<and> (rows = [] \<longrightarrow> (\<forall>s \<in> set ss'. selected s))"
proof (induction first f ss arbitrary: rows ss' rule: collect_rows.induct)
  case (2 first f s ss)
  obtain rows0 ss0 where rec: "collect_rows first (Suc f) ss = (rows0, ss0)" by fastforce
  from 2(3) have s: "state_ok first s" and ss: "\<forall>s \<in> set ss. state_ok first s" by simp_all
  note IH = 2(1) [OF rec ss]
  show ?case
  proof (cases "cf_tree (st_compiled s)")
    case True
    with rec 2(2) have ss': "ss' = s # ss0" and rows:
      "rows = (if first then map (\<lambda>n. ((f, True), node_branch (st_compiled s) n)) (cf_nodes (st_compiled s))
        else []) @ rows0" by auto
    have "selected s" if "rows = []"
    proof (rule ccontr)
      assume "\<not> selected s"
      with s True have "first" "1 < length (cf_paths (st_compiled s))" "field_ok (st_compiled s)"
        by (auto simp: state_ok_def)
      with two_paths_node [of "st_compiled s"] that rows show False by simp
    qed
    with IH s ss' rows show ?thesis by auto
  next
    case False
    obtain options s' where g: "greedyOptions s = (options, s')" by fastforce
    with False rec 2(2) have ss': "ss' = s' # ss0" and rows:
      "rows = (if options \<noteq> [] then [((f, False), \<lparr>br_tokens = cf_suffix (st_compiled s') @ st_chosen s',
             br_candidates = options\<rparr>)] else []) @ rows0" by auto
    from s False have "field_ok (st_compiled s)" "greedy_ok s" by (simp_all add: state_ok_def)
    from greedyOptions_ok [OF this g] greedyOptions_ready [OF g] s False
    have "state_ok first s'" "options = [] \<Longrightarrow> selected s'" by (auto simp: state_ok_def)
    with IH ss' rows show ?thesis by auto
  qed
qed simp

lemma selectGreedy_state_ok: "selectGreedy ops t p s = Inr s' \<Longrightarrow> state_ok first s \<Longrightarrow> state_ok first s'"
  using selectGreedy_ok [of ops t p s s'] by (auto simp: state_ok_def selected_def)

lemma update_state_ok:
  assumes "\<forall>s \<in> set ss. state_ok first s" "f < length ss \<Longrightarrow> state_ok first s'"
  shows "\<forall>s \<in> set (ss[f := s']). state_ok first s"
proof (cases "f < length ss")
  case True
  then show ?thesis using assms set_update_subset_insert [of ss f s'] by auto
qed (use assms in \<open>simp add: list_update_beyond\<close>)

lemma apply_rows_state_ok:
  "apply_rows ops rows ss tree = Inr (ss', tree') \<Longrightarrow> \<forall>s \<in> set ss. state_ok first s \<Longrightarrow>
     \<forall>s \<in> set ss'. state_ok first s"
proof (induction ops rows ss tree arbitrary: ss' tree' rule: apply_rows.induct)
  case (2 ops f is_node br scores rest ss tree)
  show ?case
  proof (cases is_node)
    case True
    with 2(3) have "apply_rows ops rest ss (tree(f := tree f @ [scores])) = Inr (ss', tree')" by simp
    from 2(1) [OF True this 2(4)] show ?thesis .
  next
    case False
    let ?best = "argmax (f_lt ops) scores"
    from False 2(3) have len: "\<not> length scores \<noteq> length (br_candidates br)" by (auto split: if_splits)
    from False 2(3) len obtain s' where
      s': "selectGreedy ops (br_candidates br ! ?best) (constrainedProbability ops scores ?best) (ss ! f) = Inr s'"
        "apply_rows ops rest (ss[f := s']) tree = Inr (ss', tree')"
      by (auto simp: Let_def split: sum.splits)
    have "\<forall>s \<in> set (ss[f := s']). state_ok first s"
      by (rule update_state_ok [OF 2(4)], rule selectGreedy_state_ok [OF s'(1)]) (use 2(4) in simp)
    from 2(2) [OF False len refl refl s'(1) s'(2) this] show ?thesis .
  qed
qed simp

lemma FinishTree_Inr:
  assumes "FinishTree ops cf logits = Inr (w, ps)"
  shows "length ps = length (cf_paths cf)" "cf_paths cf \<noteq> [] \<Longrightarrow> w < length (cf_paths cf)"
proof -
  from assms obtain lps xs where
    map: "res_map (\<lambda>p. path_log_prob ops p 0 (cf_nodes cf) lps (f_zero ops)) (cf_paths cf) = Inr xs"
    and xs: "w = argmax (f_lt ops) xs" "ps = normalise ops xs w"
    by (auto simp: FinishTree_def go_res Let_def split: if_splits)
  note xs = res_map_length [OF map] xs
  then show "length ps = length (cf_paths cf)" by simp
  show "w < length (cf_paths cf)" if "cf_paths cf \<noteq> []"
  proof -
    from xs(1) that have "xs \<noteq> []" by (metis length_0_conv)
    from argmax_less [OF this, of "f_lt ops"] xs show ?thesis by simp
  qed
qed

lemma set_tree_result_ok:
  assumes "FinishTree ops (st_compiled s) logits = Inr r" "state_ok first s" "cf_tree (st_compiled s)"
  shows "state_ok False (set_tree_result s r)"
proof -
  obtain w ps where r: "r = (w, ps)" by fastforce
  have "cf_paths (st_compiled s) \<noteq> []" using assms(2) by (simp add: state_ok_def field_ok_def)
  with FinishTree_Inr [OF assms(1) [unfolded r]] assms r show ?thesis
    by (simp add: state_ok_def set_tree_result_def selected_def)
qed

lemma finish_trees_state_ok:
  "finish_trees ops tree f ss = Inr ss' \<Longrightarrow> \<forall>s \<in> set ss. state_ok True s \<Longrightarrow>
     \<forall>s \<in> set ss'. state_ok False s"
proof (induction ops tree f ss arbitrary: ss' rule: finish_trees.induct)
  case (2 ops tree f s ss)
  show ?case
  proof (cases "cf_tree (st_compiled s)")
    case True
    with 2(3) obtain r ss0 where r: "FinishTree ops (st_compiled s) (tree f) = Inr r"
      and rec: "finish_trees ops tree (Suc f) ss = Inr ss0" and ss': "ss' = set_tree_result s r # ss0"
      by (auto simp: go_res split: sum.splits)
    have "\<forall>s \<in> set ss0. state_ok False s" using 2(2) [of r ss0] True r rec 2(4) by simp
    moreover have "state_ok False (set_tree_result s r)"
      using set_tree_result_ok [OF r, of True] True 2(4) by simp
    ultimately show ?thesis by (simp add: ss')
  next
    case False
    with 2(3) obtain ss0 where rec: "finish_trees ops tree (Suc f) ss = Inr ss0" and ss': "ss' = s # ss0"
      by (auto simp: go_res)
    have "\<forall>s \<in> set ss0. state_ok False s" using 2(1) [of ss0] False rec 2(4) by simp
    moreover have "state_ok False s" using 2(4) False by (simp add: state_ok_def)
    ultimately show ?thesis by (simp add: ss')
  qed
qed simp

section \<open>The loop\<close>

lemma score_round_state_ok:
  assumes "score_round ops sc shared ctx allow first ss w = (Inr (ss', again), w')"
    and "\<forall>s \<in> set ss. state_ok first s"
  shows "if again then \<forall>s \<in> set ss'. state_ok False s
    else \<forall>s \<in> set ss'. state_ok first s \<and> selected s"
proof -
  from assms(1) [unfolded score_round_Inr] obtain rows ss1 where
    c: "collect_rows first 0 ss = (rows, ss1)" and
    r: "if rows = [] then ss' = ss1 \<and> \<not> again \<and> w' = w
        else again \<and> (\<exists>scores ss2 tree.
          call_scorer sc shared ctx (map snd rows) allow w = (Inr scores, w') \<and>
          length scores = length rows \<and>
          apply_rows ops (zip rows scores) ss1 (\<lambda>_. []) = Inr (ss2, tree) \<and>
          (if first then finish_trees ops tree 0 ss2 = Inr ss' else ss' = ss2))" by blast
  from collect_rows_state_ok [OF c assms(2)] have
    ss1: "\<forall>s \<in> set ss1. state_ok first s" "rows = [] \<longrightarrow> (\<forall>s \<in> set ss1. selected s)" by blast+
  show ?thesis
  proof (cases "rows = []")
    case True
    with r ss1 show ?thesis by simp
  next
    case False
    with r obtain scores ss2 tree where again and
      a: "apply_rows ops (zip rows scores) ss1 (\<lambda>_. []) = Inr (ss2, tree)" and
      fin: "if first then finish_trees ops tree 0 ss2 = Inr ss' else ss' = ss2" by auto
    from apply_rows_state_ok [OF a ss1(1)] have "\<forall>s \<in> set ss2. state_ok first s" .
    with fin \<open>again\<close> finish_trees_state_ok [of ops tree 0 ss2 ss'] show ?thesis by (cases first) auto
  qed
qed

lemma score_loop_state_ok:
  "score_loop ops sc shared ctx allow first rounds ss w = (Inr (ss', n), w') \<Longrightarrow>
     \<forall>s \<in> set ss. state_ok first s \<Longrightarrow> \<forall>s \<in> set ss'. selected s \<and> (\<exists>b. state_ok b s)"
proof (induction ops sc shared ctx allow first rounds ss w rule: score_loop.induct)
  case (1 ops sc shared ctx allow first rounds ss w)
  obtain r w1 where round: "score_round ops sc shared ctx allow first ss w = (r, w1)" by fastforce
  with 1(2) obtain ss1 again where r: "r = Inr (ss1, again)"
    by (cases r) (auto simp: score_loop.simps [of ops sc shared ctx allow first])
  note step = score_round_state_ok [OF round [unfolded r] 1(3)]
  show ?case
  proof (cases again)
    case True
    with 1(2) round r have "score_loop ops sc shared ctx allow False (Suc rounds) ss1 w1 = (Inr (ss', n), w')"
      by (simp add: score_loop.simps [of ops sc shared ctx allow first])
    from 1(1) [OF round [symmetric] r refl True this] step True show ?thesis by simp
  next
    case False
    with 1(2) round r have "ss' = ss1" by (simp add: score_loop.simps [of ops sc shared ctx allow first])
    with step False show ?thesis by auto
  qed
qed

text \<open>The fields keep their place.\<close>

lemma selectGreedy_compiled: "selectGreedy ops t p s = Inr s' \<Longrightarrow> st_compiled s' = st_compiled s"
  by (rule selectGreedy_ok(1))

lemma apply_rows_compiled:
  "apply_rows ops rows ss tree = Inr (ss', tree') \<Longrightarrow> map st_compiled ss' = map st_compiled ss"
proof (induction ops rows ss tree arbitrary: ss' tree' rule: apply_rows.induct)
  case (2 ops f is_node br scores rest ss tree)
  show ?case
  proof (cases is_node)
    case True
    with 2(3) have "apply_rows ops rest ss (tree(f := tree f @ [scores])) = Inr (ss', tree')" by simp
    from 2(1) [OF True this] show ?thesis .
  next
    case False
    let ?best = "argmax (f_lt ops) scores"
    from False 2(3) have len: "\<not> length scores \<noteq> length (br_candidates br)" by (auto split: if_splits)
    from False 2(3) len obtain s' where
      s': "selectGreedy ops (br_candidates br ! ?best) (constrainedProbability ops scores ?best) (ss ! f) = Inr s'"
        "apply_rows ops rest (ss[f := s']) tree = Inr (ss', tree')"
      by (auto simp: Let_def split: sum.splits)
    have "map st_compiled (ss[f := s']) = map st_compiled ss"
      by (cases "f < length ss")
        (simp_all add: map_update selectGreedy_compiled [OF s'(1)] list_update_same_conv list_update_beyond)
    with 2(2) [OF False len refl refl s'(1) s'(2)] show ?thesis by simp
  qed
qed simp

lemma score_round_compiled:
  assumes "score_round ops sc shared ctx allow first ss w = (Inr (ss', again), w')"
  shows "map st_compiled ss' = map st_compiled ss"
proof -
  from assms [unfolded score_round_Inr] obtain rows ss1 where
    c: "collect_rows first 0 ss = (rows, ss1)" and
    r: "if rows = [] then ss' = ss1 \<and> \<not> again \<and> w' = w
        else again \<and> (\<exists>scores ss2 tree.
          call_scorer sc shared ctx (map snd rows) allow w = (Inr scores, w') \<and>
          length scores = length rows \<and>
          apply_rows ops (zip rows scores) ss1 (\<lambda>_. []) = Inr (ss2, tree) \<and>
          (if first then finish_trees ops tree 0 ss2 = Inr ss' else ss' = ss2))" by blast
  have ss1: "map st_compiled ss1 = map st_compiled ss" using collect_rows_ok [OF c] by blast
  show ?thesis
  proof (cases "rows = []")
    case True
    with r ss1 show ?thesis by simp
  next
    case False
    with r obtain scores ss2 tree where
      a: "apply_rows ops (zip rows scores) ss1 (\<lambda>_. []) = Inr (ss2, tree)" and
      fin: "if first then finish_trees ops tree 0 ss2 = Inr ss' else ss' = ss2" by auto
    from apply_rows_compiled [OF a] ss1 have "map st_compiled ss2 = map st_compiled ss" by simp
    with fin finish_trees_active [of ops tree 0 ss2 ss'] show ?thesis by (cases first) auto
  qed
qed

lemma score_loop_compiled:
  "score_loop ops sc shared ctx allow first rounds ss w = (Inr (ss', n), w') \<Longrightarrow>
     map st_compiled ss' = map st_compiled ss"
proof (induction ops sc shared ctx allow first rounds ss w rule: score_loop.induct)
  case (1 ops sc shared ctx allow first rounds ss w)
  obtain r w1 where round: "score_round ops sc shared ctx allow first ss w = (r, w1)" by fastforce
  with 1(2) obtain ss1 again where r: "r = Inr (ss1, again)"
    by (cases r) (auto simp: score_loop.simps [of ops sc shared ctx allow first])
  note step = score_round_compiled [OF round [unfolded r]]
  show ?case
  proof (cases again)
    case True
    with 1(2) round r have "score_loop ops sc shared ctx allow False (Suc rounds) ss1 w1 = (Inr (ss', n), w')"
      by (simp add: score_loop.simps [of ops sc shared ctx allow first])
    from 1(1) [OF round [symmetric] r refl True this] step show ?thesis by simp
  next
    case False
    with 1(2) round r step show ?thesis by (simp add: score_loop.simps [of ops sc shared ctx allow first])
  qed
qed

text \<open>Whatever the scorer answered: if scoring returns, every field has one of its candidates.\<close>

lemma scoreFields_selects:
  assumes "\<forall>cf \<in> set cfs. field_ok cf"
    and "scoreFields ops sc shared ctx (map (newFieldState ops) cfs) allow w = (Inr (ss', n), w')"
  shows "map st_compiled ss' = cfs" "\<forall>s \<in> set ss'. selected s \<and> (\<exists>b. state_ok b s)"
    "n \<le> 1 + sum_list (map (length \<circ> cf_paths) cfs)"
proof -
  note loop = assms(2) [unfolded scoreFields_def]
  have comp: "map st_compiled (map (newFieldState ops) cfs) = cfs"
    by (simp add: comp_def newFieldState_def Let_def)
  from score_loop_compiled [OF loop] show "map st_compiled ss' = cfs" unfolding comp .
  show "\<forall>s \<in> set ss'. selected s \<and> (\<exists>b. state_ok b s)"
    by (rule score_loop_state_ok [OF loop]) (use assms(1) newFieldState_ok in auto)
  have "active_work (map (newFieldState ops) cfs) = sum_list (map (length \<circ> cf_paths) cfs)"
    by (simp add: active_work_def comp_def newFieldState_def Let_def)
  with score_loop_rounds [OF loop] show "n \<le> 1 + sum_list (map (length \<circ> cf_paths) cfs)"
    by (simp add: loop_work_def)
qed

section \<open>Scorers whose rows have the widths asked for\<close>

text \<open>A scorer that answers every call with one row per branch, one logit per candidate.\<close>

definition wide :: "branch list \<Rightarrow> 'f list list \<Rightarrow> bool" where
  "wide branches scores \<longleftrightarrow> list_all2 (\<lambda>br s. length s = length (br_candidates br)) branches scores"

definition scorer_wide :: "('w, 'f) scorer \<Rightarrow> bool" where
  "scorer_wide sc \<longleftrightarrow> (\<forall>shared ctx branches allow w. \<exists>scores w'.
     call_scorer sc shared ctx branches allow w = (Inr scores, w') \<and> wide branches scores)"

lemma apply_rows_tree:
  "apply_rows ops rows ss tree = Inr (ss', tree') \<Longrightarrow>
     tree' g = tree g @ map snd (filter (\<lambda>r. fst (fst r) = (g, True)) rows)"
proof (induction ops rows ss tree arbitrary: ss' tree' rule: apply_rows.induct)
  case (2 ops f is_node br scores rest ss tree)
  show ?case
  proof (cases is_node)
    case True
    with 2(3) have "apply_rows ops rest ss (tree(f := tree f @ [scores])) = Inr (ss', tree')" by simp
    from 2(1) [OF True this] True show ?thesis by simp
  next
    case False
    let ?best = "argmax (f_lt ops) scores"
    from False 2(3) have len: "\<not> length scores \<noteq> length (br_candidates br)" by (auto split: if_splits)
    from False 2(3) len obtain s' where
      s': "selectGreedy ops (br_candidates br ! ?best) (constrainedProbability ops scores ?best) (ss ! f) = Inr s'"
        "apply_rows ops rest (ss[f := s']) tree = Inr (ss', tree')"
      by (auto simp: Let_def split: sum.splits)
    from 2(2) [OF False len refl refl s'] False show ?thesis by simp
  qed
qed simp

lemma collect_rows_owner:
  "collect_rows first f ss = (rows, ss') \<Longrightarrow>
     (\<forall>r \<in> set rows. f \<le> fst (fst r)) \<and>
     sorted_wrt (<) (map (fst \<circ> fst) (filter (\<lambda>r. \<not> snd (fst r)) rows)) \<and>
     (\<forall>k < length ss. filter (\<lambda>r. fst r = (f + k, True)) rows =
        (if cf_tree (st_compiled (ss ! k)) \<and> first
         then map (\<lambda>n. ((f + k, True), node_branch (st_compiled (ss ! k)) n)) (cf_nodes (st_compiled (ss ! k)))
         else []))"
proof (induction first f ss arbitrary: rows ss' rule: collect_rows.induct)
  case (2 first f s ss)
  obtain rows0 ss0 where rec: "collect_rows first (Suc f) ss = (rows0, ss0)" by fastforce
  note IH = 2(1) [OF rec]
  from IH have ge: "\<And>r. r \<in> set rows0 \<Longrightarrow> Suc f \<le> fst (fst r)" by blast
  have none: "filter (\<lambda>r. fst r = (f, True)) rows0 = []"
    using ge by (fastforce simp: filter_empty_conv)
  have tail: "filter (\<lambda>r. fst r = (f + Suc k, True)) rows0 =
      (if cf_tree (st_compiled (ss ! k)) \<and> first
       then map (\<lambda>n. ((f + Suc k, True), node_branch (st_compiled (ss ! k)) n)) (cf_nodes (st_compiled (ss ! k)))
       else [])" if "k < length ss" for k
    using IH that by simp
  obtain new where rows: "rows = new @ rows0"
    and own: "\<And>r. r \<in> set new \<Longrightarrow> fst (fst r) = f"
    and greedy: "filter (\<lambda>r. \<not> snd (fst r)) new = [] \<or> (\<exists>r. filter (\<lambda>r. \<not> snd (fst r)) new = [r])"
    and nodes: "filter (\<lambda>r. fst r = (f, True)) new = (if cf_tree (st_compiled s) \<and> first
       then map (\<lambda>n. ((f, True), node_branch (st_compiled s) n)) (cf_nodes (st_compiled s)) else [])"
  proof (cases "cf_tree (st_compiled s)")
    case True
    let ?new = "if first then map (\<lambda>n. ((f, True), node_branch (st_compiled s) n)) (cf_nodes (st_compiled s)) else []"
    show ?thesis by (rule that [of ?new]) (use True rec 2(2) in \<open>auto simp: filter_map comp_def\<close>)
  next
    case False
    obtain options s' where g: "greedyOptions s = (options, s')" by fastforce
    let ?new = "if options \<noteq> [] then [((f, False), \<lparr>br_tokens = cf_suffix (st_compiled s') @ st_chosen s',
             br_candidates = options\<rparr>)] else []"
    show ?thesis by (rule that [of ?new]) (use False rec g 2(2) in auto)
  qed
  have "sorted_wrt (<) (map (fst \<circ> fst) (filter (\<lambda>r. \<not> snd (fst r)) rows))"
  proof -
    have "f < fst (fst r)" if "r \<in> set rows0" for r using ge [OF that] by simp
    moreover have "fst (fst r) = f" if "filter (\<lambda>r. \<not> snd (fst r)) new = [r]" for r
    proof -
      from that have "r \<in> set (filter (\<lambda>r. \<not> snd (fst r)) new)" by simp
      then show ?thesis using own by simp
    qed
    ultimately show ?thesis using IH greedy by (auto simp: rows comp_def)
  qed
  moreover have "filter (\<lambda>r. fst r = (f + k, True)) rows =
        (if cf_tree (st_compiled ((s # ss) ! k)) \<and> first
         then map (\<lambda>n. ((f + k, True), node_branch (st_compiled ((s # ss) ! k)) n))
           (cf_nodes (st_compiled ((s # ss) ! k))) else [])"
    if "k < length (s # ss)" for k
  proof (cases k)
    case 0
    then show ?thesis by (simp add: rows nodes none)
  next
    case (Suc j)
    have "filter (\<lambda>r. fst r = (f + k, True)) new = []" using own Suc by (fastforce simp: filter_empty_conv)
    then show ?thesis using tail [of j] that Suc by (simp add: rows)
  qed
  moreover have "\<forall>r \<in> set rows. f \<le> fst (fst r)" using ge own by (auto simp: rows intro: Suc_leD)
  ultimately show ?case by blast
qed simp

lemma apply_rows_total:
  assumes "length rows = length scores"
    and "wide (map snd rows) scores"
    and "\<forall>r \<in> set rows. row_ok ss 0 r"
    and "distinct (map (fst \<circ> fst) (filter (\<lambda>r. \<not> snd (fst r)) rows))"
  shows "\<exists>res. apply_rows ops (zip rows scores) ss tree = Inr res"
  using assms
proof (induction rows scores arbitrary: ss tree rule: list_induct2)
  case (Cons r rows x scores)
  obtain f is_node br where r: "r = ((f, is_node), br)" by (metis surj_pair)
  have wide: "length x = length (br_candidates br)" "wide (map snd rows) scores"
    using Cons.prems(1) by (auto simp: wide_def r)
  show ?case
  proof (cases is_node)
    case True
    have "\<exists>res. apply_rows ops (zip rows scores) ss (tree(f := tree f @ [x])) = Inr res"
      by (rule Cons.IH) (use Cons.prems wide True in \<open>auto simp: r\<close>)
    with True show ?thesis by (simp add: r)
  next
    case False
    with Cons.prems(2) have f: "f < length ss" and ready: "row_ready (ss ! f) br"
      by (auto simp: r row_ok_def)
    let ?best = "argmax (f_lt ops) x"
    have "?best < length x" using ready wide(1) by (intro argmax_less) (auto simp: row_ready_def)
    then have "br_candidates br ! ?best \<in> set (br_candidates br)" using wide(1) by simp
    from selectGreedy_ready [OF ready this] obtain s' where
      s': "selectGreedy ops (br_candidates br ! ?best) (constrainedProbability ops x ?best) (ss ! f) = Inr s'"
      by blast
    have "row_ok (ss[f := s']) 0 r'" if "r' \<in> set rows" for r'
    proof -
      have "row_ok ss 0 r'" using Cons.prems(2) that by simp
      moreover have "snd (fst r') \<or> fst (fst r') \<noteq> f"
      proof (rule ccontr)
        assume "\<not> (snd (fst r') \<or> fst (fst r') \<noteq> f)"
        with that have "f \<in> (fst \<circ> fst) ` {r \<in> set rows. \<not> snd (fst r)}"
          by (intro image_eqI [of _ _ r']) auto
        with Cons.prems(3) False show False by (simp add: r)
      qed
      ultimately show ?thesis by (auto simp: row_ok_def)
    qed
    then have "\<exists>res. apply_rows ops (zip rows scores) (ss[f := s']) tree = Inr res"
      by (intro Cons.IH) (use Cons.prems wide False in \<open>auto simp: r\<close>)
    with False wide(1) s' show ?thesis by (simp add: r Let_def)
  qed
qed simp

lemma list_all2_filter_zip:
  "list_all2 P xs ys \<Longrightarrow>
     list_all2 P (filter Q xs) (map snd (filter (\<lambda>p. Q (fst p)) (zip xs ys)))"
  by (induction rule: list_all2_induct) auto

lemma finish_trees_total:
  assumes "\<And>k. k < length ss \<Longrightarrow> cf_tree (st_compiled (ss ! k)) \<Longrightarrow>
      \<exists>r. FinishTree ops (st_compiled (ss ! k)) (tree (f + k)) = Inr r"
  shows "\<exists>ss'. finish_trees ops tree f ss = Inr ss'"
  using assms
proof (induction ss arbitrary: f)
  case (Cons s ss)
  have "\<exists>ss'. finish_trees ops tree (Suc f) ss = Inr ss'"
  proof (rule Cons.IH)
    fix k assume "k < length ss" "cf_tree (st_compiled (ss ! k))"
    then show "\<exists>r. FinishTree ops (st_compiled (ss ! k)) (tree (Suc f + k)) = Inr r"
      using Cons.prems [of "Suc k"] by simp
  qed
  then obtain ss' where ss': "finish_trees ops tree (Suc f) ss = Inr ss'" by blast
  show ?case
  proof (cases "cf_tree (st_compiled s)")
    case True
    then obtain r where "FinishTree ops (st_compiled s) (tree f) = Inr r"
      using Cons.prems [of 0] by auto
    with True ss' show ?thesis by simp
  qed (use ss' in simp)
qed simp

lemma score_round_total:
  assumes "scorer_wide sc" "\<forall>s \<in> set ss. field_ok (st_compiled s)"
  shows "\<exists>res w'. score_round ops sc shared ctx allow first ss w = (Inr res, w')"
proof -
  obtain rows ss1 where c: "collect_rows first 0 ss = (rows, ss1)" by fastforce
  note ok = collect_rows_ok [OF c]
  show ?thesis
  proof (cases "rows = []")
    case True
    with c have "score_round ops sc shared ctx allow first ss w = (Inr (ss1, False), w)"
      by (simp add: score_round_def)
    then show ?thesis by blast
  next
    case False
    from assms(1) obtain scores w1 where
      call: "call_scorer sc shared ctx (map snd rows) allow w = (Inr scores, w1)"
      and wide: "wide (map snd rows) scores" unfolding scorer_wide_def by blast
    then have len: "length rows = length scores" by (auto simp: wide_def dest: list_all2_lengthD)
    have "distinct (map (fst \<circ> fst) (filter (\<lambda>r. \<not> snd (fst r)) rows))"
      using collect_rows_owner [OF c] strict_sorted_iff by blast
    with apply_rows_total [OF len wide] ok obtain ss2 tree where
      a: "apply_rows ops (zip rows scores) ss1 (\<lambda>_. []) = Inr (ss2, tree)" by (metis surj_pair)
    have comp: "map st_compiled ss2 = map st_compiled ss"
      using apply_rows_compiled [OF a] ok by simp
    then have len2: "length ss2 = length ss" by (metis length_map)
    have "\<exists>ss3. (if first then finish_trees ops tree 0 ss2 else Inr ss2) = Inr ss3"
    proof (cases first)
      case True
      have "\<exists>ss3. finish_trees ops tree 0 ss2 = Inr ss3"
      proof (rule finish_trees_total)
        fix k assume k: "k < length ss2" "cf_tree (st_compiled (ss2 ! k))"
        let ?cf = "st_compiled (ss ! k)"
        from k comp len2 have cf: "st_compiled (ss2 ! k) = ?cf" by (metis nth_map)
        let ?own = "\<lambda>r. fst r = (k, True)"
        have rows: "filter ?own rows = map (\<lambda>n. ((k, True), node_branch ?cf n)) (cf_nodes ?cf)"
          using collect_rows_owner [OF c] k cf len2 True by simp
        have "list_all2 (\<lambda>r s. length s = length (br_candidates (snd r))) rows scores"
          using wide by (simp add: wide_def list.rel_map)
        then have "list_all2 (\<lambda>r s. length s = length (br_candidates (snd r))) (filter ?own rows)
            (map snd (filter (\<lambda>p. ?own (fst p)) (zip rows scores)))"
          by (rule list_all2_filter_zip)
        then have "list_all2 (\<lambda>r s. length s = length (br_candidates (snd r))) (filter ?own rows) (tree k)"
          using apply_rows_tree [OF a, of k] by simp
        then have "logits_shape ?cf (tree k)"
          by (simp add: rows logits_shape_def list.rel_map node_branch_def)
        moreover have "field_ok ?cf" using assms(2) k len2 by simp
        ultimately show "\<exists>r. FinishTree ops (st_compiled (ss2 ! k)) (tree (0 + k)) = Inr r"
          using FinishTree_total [of ?cf "tree k" ops] by (simp add: cf)
      qed
      with True show ?thesis by simp
    qed simp
    with c False call len a show ?thesis
      by (auto simp: score_round_def io_bind_def)
  qed
qed

lemma score_loop_total:
  "scorer_wide sc \<Longrightarrow> \<forall>s \<in> set ss. field_ok (st_compiled s) \<Longrightarrow>
     \<exists>res w'. score_loop ops sc shared ctx allow first rounds ss w = (Inr res, w')"
proof (induction ops sc shared ctx allow first rounds ss w rule: score_loop.induct)
  case (1 ops sc shared ctx allow first rounds ss w)
  from score_round_total [OF 1(2,3)] obtain ss1 again w1 where
    round: "score_round ops sc shared ctx allow first ss w = (Inr (ss1, again), w1)" by (metis surj_pair)
  show ?case
  proof (cases again)
    case True
    have "\<forall>s \<in> set ss1. field_ok (st_compiled s)"
    proof -
      have "st_compiled ` set ss1 = st_compiled ` set ss"
        using score_round_compiled [OF round] by (metis list.set_map)
      with 1(3) show ?thesis by (metis imageI image_iff)
    qed
    from 1(1) [OF round [symmetric] refl refl True 1(2) this] round True show ?thesis
      by (simp add: score_loop.simps [of ops sc shared ctx allow first])
  next
    case False
    with round show ?thesis by (simp add: score_loop.simps [of ops sc shared ctx allow first])
  qed
qed

lemma scoreFields_total:
  assumes "scorer_wide sc" "\<forall>cf \<in> set cfs. field_ok cf"
  shows "\<exists>res w'. scoreFields ops sc shared ctx (map (newFieldState ops) cfs) allow w = (Inr res, w')"
  unfolding scoreFields_def
  by (rule score_loop_total [OF assms(1)]) (use assms(2) in \<open>auto simp: newFieldState_def Let_def\<close>)

end
