(* ===== verification/DecideFacts.thy ===== *)
theory DecideFacts
  imports EngineFacts
begin

text \<open>
  Facts about \<open>decide\<close>: one result per context, decisions inside the candidate sets, the token
  accounting, and that the packed scoring path of a batch scorer computes the states of the
  sequential path.
\<close>

section \<open>Packed and sequential scoring\<close>

text \<open>A scorer whose logits are a function of the prompt and the branch.\<close>

definition serial_scorer :: "(token list \<Rightarrow> token list \<Rightarrow> branch \<Rightarrow> 'f list) \<Rightarrow> ('w, 'f) scorer \<Rightarrow> bool" where
  "serial_scorer lg sc \<longleftrightarrow> (\<forall>shared ctx branches allow w.
     call_scorer sc shared ctx branches allow w = (Inr (map (lg shared ctx) branches), w))"

definition packed_scorer :: "(token list \<Rightarrow> token list \<Rightarrow> branch \<Rightarrow> 'f list) \<Rightarrow> ('w, 'f) scorer \<Rightarrow> bool" where
  "packed_scorer lg sc \<longleftrightarrow> (\<forall>trees. score_trees sc = Some trees \<longrightarrow> (\<forall>shared contexts branches allow w.
     trees shared contexts branches allow w =
       (Inr (map (\<lambda>ctx. map (lg shared ctx) branches) contexts), w))) \<and>
     (\<forall>batch. score_batch sc = Some batch \<longrightarrow> (\<forall>shared contexts branch allow w.
     batch shared contexts branch allow w = (Inr (map (\<lambda>ctx. lg shared ctx branch) contexts), w)))"

text \<open>The state of a tree field once its nodes are scored.\<close>

definition tree_state :: "'f fops \<Rightarrow> (branch \<Rightarrow> 'f list) \<Rightarrow> compiled_field \<Rightarrow> 'f field_state" where
  "tree_state ops lg cf = set_tree_result (newFieldState ops cf)
     (projr (FinishTree ops cf (map lg (map (node_branch cf) (cf_nodes cf)))))"

lemma newFieldState_compiled [simp]: "st_compiled (newFieldState ops cf) = cf"
  by (simp add: newFieldState_def Let_def)

lemma collect_rows_all_tree:
  "(\<And>s. s \<in> set ss \<Longrightarrow> cf_tree (st_compiled s)) \<Longrightarrow>
     \<exists>rows. collect_rows first f ss = (rows, ss) \<and> (\<forall>r \<in> set rows. snd (fst r)) \<and>
       map snd rows = (if first then all_branches (map st_compiled ss) else [])"
proof (induction ss arbitrary: f)
  case (Cons s ss)
  from Cons.IH [of "Suc f"] Cons.prems obtain rows where
    "collect_rows first (Suc f) ss = (rows, ss)" "\<forall>r \<in> set rows. snd (fst r)"
    "map snd rows = (if first then all_branches (map st_compiled ss) else [])" by auto
  moreover have "cf_tree (st_compiled s)" using Cons.prems by simp
  ultimately show ?case by (auto simp: all_branches_def comp_def)
qed (simp add: all_branches_def)

lemma apply_rows_all_node:
  "length rows = length scores \<Longrightarrow> \<forall>r \<in> set rows. snd (fst r) \<Longrightarrow>
     \<exists>tree'. apply_rows ops (zip rows scores) ss tree = Inr (ss, tree')"
proof (induction rows scores arbitrary: tree rule: list_induct2)
  case (Cons r rows x scores)
  obtain f is_node br where r: "r = ((f, is_node), br)" by (metis surj_pair)
  then have is_node using Cons.prems by simp
  from Cons.IH [of "tree(f := tree f @ [x])"] Cons.prems
  show ?case unfolding r by (simp add: \<open>is_node\<close> del: fun_upd_apply)
qed simp

lemma finish_trees_all_tree:
  "(\<And>k. k < length cfs \<Longrightarrow> cf_tree (cfs ! k) \<and>
      FinishTree ops (cfs ! k) (tree (f + k)) = Inr (r (cfs ! k))) \<Longrightarrow>
     finish_trees ops tree f (map (newFieldState ops) cfs) =
       Inr (map (\<lambda>cf. set_tree_result (newFieldState ops cf) (r cf)) cfs)"
proof (induction cfs arbitrary: f)
  case (Cons cf cfs)
  have "finish_trees ops tree (Suc f) (map (newFieldState ops) cfs) =
       Inr (map (\<lambda>cf. set_tree_result (newFieldState ops cf) (r cf)) cfs)"
  proof (rule Cons.IH)
    fix k assume "k < length cfs"
    then show "cf_tree (cfs ! k) \<and> FinishTree ops (cfs ! k) (tree (Suc f + k)) = Inr (r (cfs ! k))"
      using Cons.prems [of "Suc k"] by simp
  qed
  then show ?case using Cons.prems [of 0] by simp
qed simp

lemma filter_map_fst_zip:
  "map snd (filter (\<lambda>p. Q (fst p)) (zip xs (map g xs))) = map g (filter Q xs)"
  by (induction xs) auto

lemma FinishTree_node_branches:
  assumes "field_ok cf" "\<And>br. length (lg br) = length (br_candidates br)"
  shows "FinishTree ops cf (map lg (map (node_branch cf) (cf_nodes cf))) =
    Inr (projr (FinishTree ops cf (map lg (map (node_branch cf) (cf_nodes cf)))))"
proof -
  have "logits_shape cf (map lg (map (node_branch cf) (cf_nodes cf)))"
    using assms(2) by (simp add: logits_shape_def list_all2_conv_all_nth node_branch_def)
  from FinishTree_total [OF assms(1) this] show ?thesis by simp
qed

lemma scoreFields_all_tree:
  assumes "serial_scorer lg sc" "\<And>br. length (lg shared ctx br) = length (br_candidates br)"
    and fields: "\<And>cf. cf \<in> set cfs \<Longrightarrow> field_ok cf \<and> cf_tree cf" and "all_branches cfs \<noteq> []"
  shows "scoreFields ops sc shared ctx (map (newFieldState ops) cfs) allow w =
    (Inr (map (tree_state ops (lg shared ctx)) cfs, 1), w)"
proof -
  let ?ss = "map (newFieldState ops) cfs" and ?ss' = "map (tree_state ops (lg shared ctx)) cfs"
  have comp: "map st_compiled ?ss = cfs" "map st_compiled ?ss' = cfs"
    by (simp_all add: comp_def tree_state_def set_tree_result_def split_def)
  have tree1: "cf_tree (st_compiled s)" if "s \<in> set ?ss" for s using that fields by auto
  from collect_rows_all_tree [of ?ss True 0, OF tree1] comp(1) obtain rows where
    c: "collect_rows True 0 ?ss = (rows, ?ss)" "\<forall>r \<in> set rows. snd (fst r)"
      "map snd rows = all_branches cfs" by auto
  let ?scores = "map (lg shared ctx) (map snd rows)"
  from apply_rows_all_node [of rows ?scores ops ?ss "\<lambda>_. []"] c(2) obtain tree where
    a: "apply_rows ops (zip rows ?scores) ?ss (\<lambda>_. []) = Inr (?ss, tree)" by auto
  have tree: "tree k = map (lg shared ctx) (map (node_branch (cfs ! k)) (cf_nodes (cfs ! k)))"
    if "k < length cfs" for k
  proof -
    have "tree k = map (lg shared ctx \<circ> snd) (filter (\<lambda>r. fst r = (k, True)) rows)"
      using apply_rows_tree [OF a, of k]
        filter_map_fst_zip [of "\<lambda>r. fst r = (k, True)" rows "lg shared ctx \<circ> snd"]
      by simp
    moreover have "filter (\<lambda>r. fst r = (k, True)) rows =
        map (\<lambda>n. ((k, True), node_branch (cfs ! k) n)) (cf_nodes (cfs ! k))"
      using collect_rows_owner [OF c(1)] that fields [of "cfs ! k"] by simp
    ultimately show ?thesis by (simp add: comp_def)
  qed
  have fin: "finish_trees ops tree 0 ?ss = Inr ?ss'"
    unfolding tree_state_def
    by (rule finish_trees_all_tree)
       (use fields tree FinishTree_node_branches [where lg = "lg shared ctx"] assms(2) in simp)
  have "rows \<noteq> []" "length (all_branches cfs) = length rows" using c(3) assms(4) by (auto simp flip: c(3))
  then have r1: "score_round ops sc shared ctx allow True ?ss w = (Inr (?ss', True), w)"
    using c a fin assms(1) unfolding score_round_Inr serial_scorer_def by auto
  have tree2: "cf_tree (st_compiled s)" if "s \<in> set ?ss'" for s
    using that fields by (auto simp: tree_state_def set_tree_result_def split_def)
  from collect_rows_all_tree [of ?ss' False 0, OF tree2]
  have "collect_rows False 0 ?ss' = ([], ?ss')" by auto
  then have r2: "score_round ops sc shared ctx allow False ?ss' w = (Inr (?ss', False), w)"
    by (simp add: score_round_def)
  show ?thesis unfolding scoreFields_def
    by (simp add: score_loop.simps [of ops sc shared ctx allow True] r1
        score_loop.simps [of ops sc shared ctx allow False] r2)
qed

lemma packed_states_all:
  assumes "\<And>br. length (lg br) = length (br_candidates br)" "\<And>cf. cf \<in> set cfs \<Longrightarrow> field_ok cf"
  shows "packed_states ops cfs (map lg (all_branches cfs)) = Inr (map (tree_state ops lg) cfs)"
  using assms(2)
proof (induction cfs)
  case (Cons cf cfs)
  let ?rows = "map lg (map (node_branch cf) (cf_nodes cf))"
  have split: "map lg (all_branches (cf # cfs)) = ?rows @ map lg (all_branches cfs)"
    by (simp add: all_branches_def)
  have widths: "\<not> (\<exists>(node, s) \<in> set (zip (cf_nodes cf) ?rows). length s \<noteq> length (node_options node))"
    using assms(1) by (auto simp: set_zip node_branch_def)
  have "packed_states ops cfs (map lg (all_branches cfs)) = Inr (map (tree_state ops lg) cfs)"
    by (rule Cons.IH) (use Cons.prems in simp)
  moreover have "FinishTree ops cf ?rows = Inr (projr (FinishTree ops cf ?rows))"
    by (rule FinishTree_node_branches) (use Cons.prems assms(1) in simp_all)
  then have "res_bind (FinishTree ops cf ?rows) g = g (projr (FinishTree ops cf ?rows))" for g ::
      "nat \<times> 'a list \<Rightarrow> go_error + 'a field_state list"
    by (metis res_bind_simps(2))
  ultimately show ?case using widths
    unfolding split by (simp add: Let_def tree_state_def)
qed (simp add: all_branches_def)

text \<open>
  Packed scoring gives every context the states and the round count that scoring it alone gives.
\<close>

lemma packed_equals_sequential:
  assumes "serial_scorer lg sc" "packed_scorer lg sc"
    and wide: "\<And>shared ctx br. length (lg shared ctx br) = length (br_candidates br)"
    and ok: "\<And>cf. cf \<in> set (pr_fields pr) \<Longrightarrow> field_ok cf"
    and packed: "packed_scores sc (pr_shared pr) contexts (pr_fields pr) allow w = (Inr (Some p), w')"
    and i: "i < length contexts"
  shows "w' = w \<and> context_states ops sc pr i (contexts ! i) (Some (p ! i)) w =
    context_states ops sc pr i (contexts ! i) None w"
proof -
  let ?lg = "lg (pr_shared pr)" and ?brs = "all_branches (pr_fields pr)"
  have all: "\<forall>cf \<in> set (pr_fields pr). cf_tree cf" and ne: "?brs \<noteq> []" and
    w': "w' = w" and p: "p = map (\<lambda>ctx. map (?lg ctx) ?brs) contexts"
  proof -
    from packed have "(\<forall>cf \<in> set (pr_fields pr). cf_tree cf) \<and> ?brs \<noteq> [] \<and> w' = w \<and>
        p = map (\<lambda>ctx. map (?lg ctx) ?brs) contexts"
    proof (cases "score_trees sc \<noteq> None \<and> (\<forall>cf \<in> set (pr_fields pr). cf_tree cf) \<and> ?brs \<noteq> []")
      case True
      then obtain trees where t: "score_trees sc = Some trees" by auto
      with assms(2) have "trees (pr_shared pr) contexts ?brs allow w =
          (Inr (map (\<lambda>ctx. map (?lg ctx) ?brs) contexts), w)" by (simp add: packed_scorer_def)
      with True t packed show ?thesis by (simp add: packed_scores_def io_bind_def Let_def)
    next
      case False
      then have nt: "\<not> (score_trees sc \<noteq> None \<and> (\<forall>cf \<in> set (pr_fields pr). cf_tree cf) \<and> length ?brs > 0)"
        by simp
      show ?thesis
      proof (cases "score_batch sc \<noteq> None \<and> length contexts > 1 \<and> (\<forall>cf \<in> set (pr_fields pr). cf_tree cf) \<and>
          length (pr_fields pr) = 1 \<and> length ?brs = 1")
        case True
        then obtain batch where b: "score_batch sc = Some batch" by auto
        from True obtain br where br: "?brs = [br]" by (auto simp: length_Suc_conv)
        from b assms(2) have "batch (pr_shared pr) contexts br allow w =
            (Inr (map (\<lambda>ctx. ?lg ctx br) contexts), w)" by (simp add: packed_scorer_def)
        with True b br packed False show ?thesis
          by (auto simp: packed_scores_def io_bind_def Let_def split: if_splits)
      next
        case no: False
        with nt packed show ?thesis
          by (simp only: packed_scores_def Let_def if_False) simp
      qed
    qed
    then show "\<forall>cf \<in> set (pr_fields pr). cf_tree cf" "?brs \<noteq> []" "w' = w"
      "p = map (\<lambda>ctx. map (?lg ctx) ?brs) contexts" by blast+
  qed
  have "context_states ops sc pr i (contexts ! i) None w =
      (Inr (map (tree_state ops (?lg (contexts ! i))) (pr_fields pr), 1), w)"
    using scoreFields_all_tree [OF assms(1), of "pr_shared pr" "contexts ! i" "pr_fields pr"] wide ok all ne
    by (simp add: context_states_def)
  moreover have "context_states ops sc pr i (contexts ! i) (Some (p ! i)) w =
      (Inr (map (tree_state ops (?lg (contexts ! i))) (pr_fields pr), 1), w)"
    using packed_states_all [of "?lg (contexts ! i)" "pr_fields pr" ops] wide ok i
    by (simp add: context_states_def p)
  ultimately show ?thesis using w' by simp
qed

section \<open>The results\<close>

definition winner_value :: "field_spec \<Rightarrow> 'f field_state \<Rightarrow> string" where
  "winner_value field s = cand_value (fs_candidates field ! nat (st_winner s))"

lemma assemble_fields_Inr:
  "assemble_fields ops flds states out = Inr item \<Longrightarrow>
     length states \<le> length flds \<and>
     it_decision item = it_decision out ++
       map_of (rev (zip (map fs_name flds) (map2 winner_value flds states))) \<and>
     dom (it_fields item) = dom (it_fields out) \<union> fs_name ` set (take (length states) flds) \<and>
     it_context_tokens item = it_context_tokens out \<and>
     it_scored_rows item = it_scored_rows out + sum_list (map (cf_rows \<circ> st_compiled) states) \<and>
     (\<forall>k < length states. 0 \<le> st_winner (states ! k) \<and>
        st_winner (states ! k) < int (length (fs_candidates (flds ! k))))"
proof (induction ops flds states out rule: assemble_fields.induct)
  case (3 ops field flds state states out)
  from 3(2) obtain rs where bound: "\<not> (st_winner state < 0 \<or> st_winner state \<ge> int (length (fs_candidates field)))"
    and rs: "assembleCandidateResults ops field state = Inr rs"
    and rest: "assemble_fields ops flds states
            (out\<lparr>it_decision := (it_decision out)(fs_name field \<mapsto> winner_value field state),
                 it_fields := (it_fields out)(fs_name field \<mapsto>
                   \<lparr>fr_value = winner_value field state, fr_probability = st_path_score state,
                    fr_candidates = rs, fr_scored_nodes = st_scored_nodes state,
                    fr_tree = cf_tree (st_compiled state)\<rparr>),
                 it_scored_rows := it_scored_rows out + cf_rows (st_compiled state)\<rparr>) = Inr item"
    by (auto simp: Let_def go_res winner_value_def split: if_splits)
  note IH = 3(1) [OF bound refl rs rest [unfolded winner_value_def]]
  have nth: "\<forall>k < length states. 0 \<le> st_winner (states ! k) \<and>
        st_winner (states ! k) < int (length (fs_candidates (flds ! k)))" using IH by blast
  have dec: "it_decision item = (it_decision out)(fs_name field \<mapsto> winner_value field state) ++
       map_of (rev (zip (map fs_name flds) (map2 winner_value flds states)))"
    using IH by (simp add: winner_value_def fun_upd_def)
  have "\<forall>k < length (state # states). 0 \<le> st_winner ((state # states) ! k) \<and>
      st_winner ((state # states) ! k) < int (length (fs_candidates ((field # flds) ! k)))"
    using nth bound by (auto simp: nth_Cons split: nat.splits)
  moreover have "it_decision item = it_decision out ++
       map_of (rev (zip (map fs_name (field # flds)) (map2 winner_value (field # flds) (state # states))))"
    unfolding dec by (simp add: map_add_assoc [symmetric])
  moreover have "dom (it_fields item) =
      dom (it_fields out) \<union> fs_name ` set (take (length (state # states)) (field # flds))"
    using IH by (auto simp: dom_def)
  ultimately show ?case using IH by simp
qed simp_all

text \<open>With distinct field names, each field's value is the winner's.\<close>

lemma assembleResult_Inr:
  assumes "assembleResult ops schema states n = Inr item" "length states = length (cs_fields schema)"
    and "distinct (map fs_name (cs_fields schema))"
  shows "dom (it_decision item) = fs_name ` set (cs_fields schema)"
    and "dom (it_fields item) = fs_name ` set (cs_fields schema)"
    and "it_context_tokens item = n"
    and "it_scored_rows item = sum_list (map (cf_rows \<circ> st_compiled) states)"
    and "k < length states \<Longrightarrow> st_winner (states ! k) \<ge> 0 \<and>
      nat (st_winner (states ! k)) < length (fs_candidates (cs_fields schema ! k)) \<and>
      it_decision item (fs_name (cs_fields schema ! k)) =
        Some (cand_value (fs_candidates (cs_fields schema ! k) ! nat (st_winner (states ! k))))"
proof -
  from assms(1) obtain out where
    out: "assemble_fields ops (cs_fields schema) states
       \<lparr>it_decision = Map.empty, it_fields = Map.empty, it_context_tokens = 0, it_scored_rows = 0\<rparr> = Inr out"
    and item: "item = out\<lparr>it_context_tokens := n\<rparr>"
    by (auto simp: assembleResult_def go_res)
  note spec = assemble_fields_Inr [OF out]
  let ?names = "map fs_name (cs_fields schema)" and ?vals = "map2 winner_value (cs_fields schema) states"
  have len: "length ?vals = length ?names" using assms(2) by simp
  from spec have dec: "it_decision item = map_of (zip ?names ?vals)"
  proof -
    have dist: "distinct (map fst (zip ?names ?vals))" using assms(3) len by simp
    then have "map_of (rev (zip ?names ?vals)) = map_of (zip ?names ?vals)"
      by (subst map_of_inject_set) (simp_all flip: rev_map)
    with spec show ?thesis by (simp add: item)
  qed
  from len show "dom (it_decision item) = fs_name ` set (cs_fields schema)"
    unfolding dec by simp
  show "dom (it_fields item) = fs_name ` set (cs_fields schema)" "it_context_tokens item = n"
    "it_scored_rows item = sum_list (map (cf_rows \<circ> st_compiled) states)"
    using spec assms(2) by (simp_all add: item)
  assume k: "k < length states"
  then have "map_of (zip ?names ?vals) (?names ! k) = Some (?vals ! k)"
    using assms(2,3) by (intro map_of_zip_nth) simp_all
  with k assms(2) have "it_decision item (fs_name (cs_fields schema ! k)) =
      Some (winner_value (cs_fields schema ! k) (states ! k))" by (simp add: dec)
  moreover have "0 \<le> st_winner (states ! k) \<and>
      st_winner (states ! k) < int (length (fs_candidates (cs_fields schema ! k)))" using spec k by blast
  ultimately show "st_winner (states ! k) \<ge> 0 \<and>
      nat (st_winner (states ! k)) < length (fs_candidates (cs_fields schema ! k)) \<and>
      it_decision item (fs_name (cs_fields schema ! k)) =
        Some (cand_value (fs_candidates (cs_fields schema ! k) ! nat (st_winner (states ! k))))"
    by (auto simp: winner_value_def)
qed

lemma encode_contexts_Inr:
  "encode_contexts enc sharedLen i texts = Inr cs \<longleftrightarrow>
     cs = map (enc \<circ> renderContext) texts \<and>
     (\<forall>c \<in> set cs. c \<noteq> [] \<and> sharedLen + length c \<le> MaxContextTokens)"
proof (induction enc sharedLen i texts arbitrary: cs rule: encode_contexts.induct)
  case (2 enc sharedLen i t ts)
  let ?c = "enc (renderContext t)"
  show ?case
  proof (cases "?c = [] \<or> sharedLen + length ?c > MaxContextTokens")
    case True
    then show ?thesis by (auto simp: Let_def)
  next
    case False
    with 2 [OF refl refl] show ?thesis by (auto simp: Let_def go_res) metis
  qed
qed auto

lemma compile_fields_Inr:
  "compile_fields enc mode treeMax inputs specs = Inr cfs \<Longrightarrow>
     list_all2 (\<lambda>input cf. CompileField (Some enc) input mode treeMax = Inr cf) inputs cfs"
  by (induction enc mode treeMax inputs specs arbitrary: cfs rule: compile_fields.induct)
     (auto simp: go_res split: sum.splits if_splits)

lemma compile_fields_ok:
  assumes "compile_fields enc mode treeMax inputs specs = Inr cfs"
  shows "\<forall>cf \<in> set cfs. field_ok cf" "length cfs = length inputs"
proof -
  note all = compile_fields_Inr [OF assms]
  then show "length cfs = length inputs" by (auto dest: list_all2_lengthD)
  show "\<forall>cf \<in> set cfs. field_ok cf"
  proof
    fix cf assume "cf \<in> set cfs"
    with all obtain input where "CompileField (Some enc) input mode treeMax = Inr cf"
      by (auto simp: list_all2_conv_all_nth in_set_conv_nth)
    then show "field_ok cf" by (rule CompileField_Inr(3))
  qed
qed

lemma score_contexts_Inr:
  "score_contexts ops sc pr packed i contexts w = (Inr items, w') \<Longrightarrow>
     list_all2 (\<lambda>ctx (item, rounds). \<exists>states k w1 w2.
       context_states ops sc pr k ctx (map_option (\<lambda>p. p ! k) packed) w1 = (Inr (states, rounds), w2) \<and>
       assembleResult ops (pr_schema pr) states (length ctx) = Inr item) contexts items"
proof (induction contexts arbitrary: i items w)
  case (Cons ctx contexts)
  from Cons.prems obtain r w1 where
    cs: "context_states ops sc pr i ctx (map_option (\<lambda>p. p ! i) packed) w = (Inr r, w1)"
    unfolding score_contexts.simps io_bind_Inr by blast
  obtain states rounds where r: "r = (states, rounds)" by fastforce
  show ?case
  proof (cases "assembleResult ops (pr_schema pr) states (length ctx)")
    case (Inl e)
    with Cons.prems cs r show ?thesis by (simp add: io_bind_def)
  next
    case (Inr item)
    with Cons.prems cs r have
      "io_bind (score_contexts ops sc pr packed (Suc i) contexts) (\<lambda>items. io_return ((item, rounds) # items)) w1 =
        (Inr items, w')" by (simp add: io_bind_def)
    then obtain items0 w2 where rest: "score_contexts ops sc pr packed (Suc i) contexts w1 = (Inr items0, w2)"
      and items: "items = (item, rounds) # items0" "w2 = w'"
      unfolding io_bind_Inr by auto
    from Cons.IH [OF rest [unfolded items(2)]] cs Inr show ?thesis unfolding items(1) r by auto
  qed
qed simp

lemma packed_states_compiled:
  "packed_states ops cfs rows = Inr states \<Longrightarrow> map st_compiled states = cfs"
  by (induction ops cfs rows arbitrary: states rule: packed_states.induct)
     (auto simp: Let_def go_res set_tree_result_def split: if_splits prod.splits)

lemma context_states_compiled:
  assumes "context_states ops sc pr i ctx packed w = (Inr (states, rounds), w')"
    and "\<forall>cf \<in> set (pr_fields pr). field_ok cf"
  shows "map st_compiled states = pr_fields pr"
proof (cases packed)
  case None
  with assms(1) have "scoreFields ops sc (pr_shared pr) ctx (map (newFieldState ops) (pr_fields pr))
      (AllowCache (pr_request pr)) w = (Inr (states, rounds), w')"
    by (auto simp: context_states_def split: prod.splits sum.splits)
  from scoreFields_selects(1) [OF assms(2) this] show ?thesis .
next
  case (Some rows)
  with assms(1) show ?thesis
    by (auto simp: context_states_def go_res packed_states_compiled split: if_splits)
qed

section \<open>The decision\<close>

lemma io_bind_case_ctx:
  "io_bind m f w = (Inr y, w'') \<Longrightarrow> \<exists>x w'. m w = (Inr x, w') \<and> f x w' = (Inr y, w'')"
  by (simp add: io_bind_Inr)

text \<open>A decision that returns ran all its phases.\<close>

lemma decide_Inr:
  assumes "decide ops isprint (Some e) request compiled w = (Inr response, w')"
  obtains enc sc pr contexts packed items where
    "en_tokenizer e = Some enc" "en_scorer e = Some sc"
    "prepare isprint enc (en_validator e) (en_bos e) request compiled = Inr pr"
    "encode_contexts enc (length (pr_shared pr)) 0 (req_contexts (pr_request pr)) = Inr contexts"
    "\<exists>w1 w2. packed_scores sc (pr_shared pr) contexts (pr_fields pr) (AllowCache (pr_request pr)) w1 =
       (Inr packed, w2)"
    "\<exists>w1 w2. score_contexts ops sc pr packed 0 contexts w1 = (Inr items, w2)"
    "\<exists>created t1 t2 t3. response = build_response ops pr created items t1 t2 t3"
proof -
  from assms obtain started err w1 w2 where
    "(case err of Some x \<Rightarrow> io_lift (Inl x) | None \<Rightarrow>
     case en_tokenizer e of None \<Rightarrow> io_lift (Inl not_configured) | Some enc \<Rightarrow>
     case en_scorer e of None \<Rightarrow> io_lift (Inl not_configured) | Some sc \<Rightarrow>
     io_bind (io_lift (prepare isprint enc (en_validator e) (en_bos e) request compiled))
       (run_prepared ops e enc sc started)) w1 = (Inr response, w2)"
    unfolding decide_def option.case io_bind_Inr by blast
  then obtain enc sc pr where enc: "en_tokenizer e = Some enc" and sc: "en_scorer e = Some sc"
    and pr: "prepare isprint enc (en_validator e) (en_bos e) request compiled = Inr pr"
    and run: "run_prepared ops e enc sc started pr w1 = (Inr response, w2)"
    by (cases err; cases "en_tokenizer e"; cases "en_scorer e") (auto simp: io_bind_Inr io_lift_Inr)
  from run show thesis
    unfolding run_prepared_def io_bind_Inr io_lift_Inr io_return_Inr
    by (elim exE conjE, intro that [OF enc sc pr]) (assumption | blast)+
qed

lemma prepare_Inr:
  assumes "prepare isprint enc validator bos request compiled = Inr pr"
  shows "NormalizeAndValidate (Some request) = Inr (pr_request pr)"
    and "compiled = None \<Longrightarrow>
      CompileSchema isprint (req_schema request) (req_instructions request) = Inr (pr_schema pr)"
    and "compiled = Some schema \<Longrightarrow> pr_schema pr = schema"
    and "compile_fields enc (req_mode (pr_request pr)) (req_tree_max (pr_request pr))
           (cs_inputs (pr_schema pr)) (cs_fields (pr_schema pr)) = Inr (pr_fields pr)"
    and "pr_shared pr \<noteq> []"
proof -
  note p = assms [unfolded prepare_def res_bind_Inr]
  show n: "NormalizeAndValidate (Some request) = Inr (pr_request pr)"
    using p by (auto simp: go_res Let_def split: option.splits if_splits)
  show "compiled = None \<Longrightarrow>
      CompileSchema isprint (req_schema request) (req_instructions request) = Inr (pr_schema pr)"
    using p NormalizeAndValidate_contexts [OF n]
    by (auto simp: go_res Let_def split: option.splits if_splits)
  show "compiled = Some schema \<Longrightarrow> pr_schema pr = schema"
    "compile_fields enc (req_mode (pr_request pr)) (req_tree_max (pr_request pr))
           (cs_inputs (pr_schema pr)) (cs_fields (pr_schema pr)) = Inr (pr_fields pr)"
    "pr_shared pr \<noteq> []"
    using p by (auto simp: go_res Let_def split: option.splits if_splits)
qed

definition item_ok :: "compiled_schema \<Rightarrow> 'f item_result \<Rightarrow> bool" where
  "item_ok schema item \<longleftrightarrow>
     dom (it_decision item) = fs_name ` set (cs_fields schema) \<and>
     dom (it_fields item) = fs_name ` set (cs_fields schema) \<and>
     (\<forall>f \<in> set (cs_fields schema). \<exists>c \<in> set (fs_candidates f).
        it_decision item (fs_name f) = Some (cand_value c))"

lemma assembleResult_item_ok:
  assumes "assembleResult ops schema states n = Inr item" "length states = length (cs_fields schema)"
    and "distinct (map fs_name (cs_fields schema))"
  shows "item_ok schema item"
proof -
  note spec = assembleResult_Inr [OF assms]
  have "\<exists>c \<in> set (fs_candidates f). it_decision item (fs_name f) = Some (cand_value c)"
    if f: "f \<in> set (cs_fields schema)" for f
  proof -
    from f obtain k where k: "k < length states" "f = cs_fields schema ! k"
      using assms(2) by (auto simp: in_set_conv_nth)
    from spec(5) [OF k(1)] show ?thesis
      by (intro bexI [of _ "fs_candidates f ! nat (st_winner (states ! k))"]) (simp_all add: k(2))
  qed
  with spec(1,2) show ?thesis by (simp add: item_ok_def)
qed

text \<open>Every answer of \<open>decide\<close>, for the schema that was compiled or handed in.\<close>

lemma decide_items:
  assumes "decide ops isprint (Some e) request compiled w = (Inr response, w')"
    and "\<And>s. compiled = Some s \<Longrightarrow> distinct (map fs_name (cs_fields s)) \<and>
      length (cs_inputs s) = length (cs_fields s)"
  obtains schema where
    "(case compiled of None \<Rightarrow> CompileSchema isprint (req_schema request) (req_instructions request) = Inr schema
      | Some s \<Rightarrow> s = schema)"
    "length (rs_results response) = length (req_contexts request)"
    "\<forall>item \<in> set (rs_results response). item_ok schema item \<and>
       us_cached_tokens (rs_usage response) \<le> us_prompt_tokens (rs_usage response) - us_context_tokens (rs_usage response) \<and>
       us_prompt_tokens (rs_usage response) - us_context_tokens (rs_usage response) +
         it_context_tokens item \<le> MaxContextTokens"
    "us_context_tokens (rs_usage response) = sum_list (map it_context_tokens (rs_results response))"
    "us_scored_rows (rs_usage response) = sum_list (map it_scored_rows (rs_results response))"
    "us_context_tokens (rs_usage response) < us_prompt_tokens (rs_usage response)"
proof (rule decide_Inr [OF assms(1)])
  fix enc sc pr contexts packed items
  assume "en_tokenizer e = Some enc" "en_scorer e = Some sc"
  assume prep: "prepare isprint enc (en_validator e) (en_bos e) request compiled = Inr pr"
    and ctxs: "encode_contexts enc (length (pr_shared pr)) 0 (req_contexts (pr_request pr)) = Inr contexts"
    and "\<exists>w1 w2. packed_scores sc (pr_shared pr) contexts (pr_fields pr) (AllowCache (pr_request pr)) w1 =
       (Inr packed, w2)"
    and items: "\<exists>w1 w2. score_contexts ops sc pr packed 0 contexts w1 = (Inr items, w2)"
    and resp: "\<exists>created t1 t2 t3. response = build_response ops pr created items t1 t2 t3"
  let ?schema = "pr_schema pr"
  note P = prepare_Inr [OF prep]
  have schema: "case compiled of
      None \<Rightarrow> CompileSchema isprint (req_schema request) (req_instructions request) = Inr ?schema
    | Some s \<Rightarrow> s = ?schema"
    using P(2,3) by (cases compiled) auto
  have shape: "distinct (map fs_name (cs_fields ?schema))" "length (cs_inputs ?schema) = length (cs_fields ?schema)"
    using schema assms(2) CompileSchema_Inr
    by (cases compiled; force simp: schema_ok_def strict_sorted_iff)+
  note ok = compile_fields_ok [OF P(4)]
  from items obtain w1 w2 where "score_contexts ops sc pr packed 0 contexts w1 = (Inr items, w2)" by blast
  note all = score_contexts_Inr [OF this]
  from all have len: "length items = length contexts" by (auto dest: list_all2_lengthD)
  note enc = ctxs [unfolded encode_contexts_Inr]
  have each: "item_ok ?schema item \<and> length (pr_shared pr) + it_context_tokens item \<le> MaxContextTokens"
    if item: "item \<in> fst ` set items" for item
  proof -
    from item obtain k rounds where k: "k < length items" "items ! k = (item, rounds)"
      by (auto simp: in_set_conv_nth)
    with all len obtain states j v1 v2 where
      cs: "context_states ops sc pr j (contexts ! k) (map_option (\<lambda>p. p ! j) packed) v1 = (Inr (states, rounds), v2)"
      and ar: "assembleResult ops ?schema states (length (contexts ! k)) = Inr item"
      by (fastforce simp: list_all2_conv_all_nth)
    from context_states_compiled [OF cs ok(1)] ok(2) shape(2)
    have st: "length states = length (cs_fields ?schema)" by (metis length_map)
    have "it_context_tokens item = length (contexts ! k)" using assembleResult_Inr(3) [OF ar st shape(1)] .
    moreover have "length (pr_shared pr) + length (contexts ! k) \<le> MaxContextTokens"
      using enc k len by simp
    ultimately show ?thesis using assembleResult_item_ok [OF ar st shape(1)] by simp
  qed
  have ctx_len: "length contexts = length (req_contexts request)"
    using enc NormalizeAndValidate_contexts [OF P(1)] by simp
  from resp obtain created t1 t2 t3 where resp: "response = build_response ops pr created items t1 t2 t3" by blast
  show thesis
  proof (rule that [OF schema])
    show "length (rs_results response) = length (req_contexts request)"
      by (simp add: resp build_response_def Let_def len ctx_len)
    show "\<forall>item \<in> set (rs_results response). item_ok ?schema item \<and>
       us_cached_tokens (rs_usage response) \<le> us_prompt_tokens (rs_usage response) - us_context_tokens (rs_usage response) \<and>
       us_prompt_tokens (rs_usage response) - us_context_tokens (rs_usage response) +
         it_context_tokens item \<le> MaxContextTokens"
      using each by (simp add: resp build_response_def Let_def)
    show "us_context_tokens (rs_usage response) = sum_list (map it_context_tokens (rs_results response))"
      "us_scored_rows (rs_usage response) = sum_list (map it_scored_rows (rs_results response))"
      "us_context_tokens (rs_usage response) < us_prompt_tokens (rs_usage response)"
      using P(5) by (simp_all add: resp build_response_def Let_def comp_def)
  qed
qed

text \<open>An expired request context and a missing engine, tokenizer or scorer are errors, before
  anything else happens.\<close>

lemma decide_cancelled:
  assumes "en_ctx_err e (snd (en_now e w)) = (Some x, w')"
  shows "decide ops isprint (Some e) request compiled w = (Inl x, w')"
  using assms by (simp add: decide_def io_bind_def io_get_def split_def Let_def)

lemma decide_unconfigured:
  "decide ops isprint None request compiled w = (Inl not_configured, w)"
  "en_ctx_err e (snd (en_now e w)) = (None, w') \<Longrightarrow> en_tokenizer e = None \<or> en_scorer e = None \<Longrightarrow>
     decide ops isprint (Some e) request compiled w = (Inl not_configured, w')"
  by (auto simp: decide_def io_bind_def io_get_def split_def Let_def split: option.splits)

end
