(* ===== verification/SystemOne.thy ===== *)
theory SystemOne
  imports DecideFacts
begin

text \<open>
  \<open>model/gosystemone/systemone.go\<close>: the typed question interface over the decision engine.
  Questions are read in document order, compiled to a schema of their own, decided by the tree
  scorer, and the distributions become noul, choice and score answers.
\<close>

section \<open>Reading ordered objects\<close>

definition object_error :: go_error where
  "object_error = Errorf ''expected an object'' []"

text \<open>
  The loop of \<open>orderedObject\<close> from the place before a member: \<open>first\<close> holds after the opening
  brace, otherwise a comma or the closing brace must follow. The guards on the lengths hold for
  every input; they make the recursion well-founded.
\<close>

function ordered_members ::
  "bool \<Rightarrow> string list \<Rightarrow> string \<Rightarrow> go_error + ((string \<times> string) list \<times> string)" where
  "ordered_members first seen s = (case skip_ws s of
     [] \<Rightarrow> Inl json_error
   | c # r \<Rightarrow>
     if c = CHR ''}'' then Inr ([], r)
     else if c = CHR '']'' \<or> \<not> first \<and> c \<noteq> CHR '','' then Inl json_error
     else (case (if first then c # r else skip_ws r) of
         [] \<Rightarrow> Inl json_error
       | q # s1 \<Rightarrow>
         if q \<noteq> dquote then Inl json_error
         else case scan_string s1 of None \<Rightarrow> Inl json_error
         | Some (k, s2) \<Rightarrow>
           if unquote k \<in> set seen
           then Inl (Errorf ''duplicate or invalid object key %q'' [AS (unquote k)])
           else (case skip_ws s2 of
               [] \<Rightarrow> Inl json_error
             | col # s3 \<Rightarrow>
               if col \<noteq> CHR '':'' then Inl json_error
               else case json_first s3 of None \<Rightarrow> Inl json_error
               | Some (raw, v, s4) \<Rightarrow>
                 if \<not> length s4 < length s then Inl json_error
                 else res_bind (ordered_members False (seen @ [unquote k]) s4) (\<lambda>(ms, rest).
                   Inr ((unquote k, raw) # ms, rest)))))"
  by pat_completeness auto
termination
  by (relation "measure (\<lambda>(first, seen, s). length s)") auto

declare ordered_members.simps [simp del]

definition orderedObject :: "string \<Rightarrow> go_error + (string \<times> string) list" where
  "orderedObject raw = (case skip_ws raw of
     [] \<Rightarrow> Inl object_error
   | c # s \<Rightarrow> if c \<noteq> CHR ''{'' then Inl object_error
       else res_bind (ordered_members True [] s) (\<lambda>(ms, rest).
         if skip_ws rest \<noteq> [] then Inl (Errorf ''expected exactly one object'' []) else Inr ms))"

lemma ordered_members_distinct:
  "ordered_members first seen s = Inr (ms, rest) \<Longrightarrow>
     distinct (map fst ms) \<and> set (map fst ms) \<inter> set seen = {}"
proof (induction first seen s arbitrary: ms rest rule: ordered_members.induct)
  case (1 first seen s)
  from 1(2) show ?case
    by (subst (asm) ordered_members.simps)
       (fastforce dest!: 1(1) simp: go_res split: list.splits if_splits option.splits prod.splits)
qed

lemma orderedObject_distinct: "orderedObject raw = Inr ms \<Longrightarrow> distinct (map fst ms)"
  by (auto simp: orderedObject_def go_res dest: ordered_members_distinct split: list.splits if_splits)

section \<open>Requests\<close>

record system_request =
  sr_model :: string
  sr_state :: string
  sr_questions :: string

definition system_request_zero :: system_request where
  "system_request_zero = \<lparr>sr_model = [], sr_state = [], sr_questions = []\<rparr>"

fun set_members :: "(string \<times> string) list \<Rightarrow> system_request \<Rightarrow> go_error + system_request" where
  "set_members [] r = Inr r"
| "set_members ((name, value) # ms) r =
     (if name = ''model'' then
        (case json_doc value of None \<Rightarrow> Inl (Errorf ''model must be a string'' [])
         | Some v \<Rightarrow> (case decode_string (sr_model r) v of
             None \<Rightarrow> Inl (Errorf ''model must be a string'' [])
           | Some m \<Rightarrow> set_members ms (r\<lparr>sr_model := m\<rparr>)))
      else if name = ''state'' then set_members ms (r\<lparr>sr_state := value\<rparr>)
      else if name = ''questions'' then set_members ms (r\<lparr>sr_questions := value\<rparr>)
      else Inl (Errorf ''unknown property %q'' [AS name]))"

definition UnmarshalJSON :: "string \<Rightarrow> go_error + system_request" where
  "UnmarshalJSON data = res_bind (orderedObject data) (\<lambda>members. set_members members system_request_zero)"

text \<open>An entry is text, an object, an array or null.\<close>

definition entryText :: "string \<Rightarrow> bool \<Rightarrow> go_error + string" where
  "entryText raw optional =
     (if raw = [] then (if optional then Inr ''null''
        else Inl (Errorf ''entry is required (explicit null is allowed)'' []))
      else case json_first raw of None \<Rightarrow> Inl json_error
      | Some (_, v, rest) \<Rightarrow>
        if skip_ws rest \<noteq> [] then Inl (Errorf ''entry must contain one JSON value'' [])
        else case v of
          JStr s \<Rightarrow> Inr s
        | JNull \<Rightarrow> Inr (compact False raw)
        | JObj _ \<Rightarrow> Inr (compact False raw)
        | JArr _ \<Rightarrow> Inr (compact False raw)
        | _ \<Rightarrow> Inl (Errorf ''entry must be text, object, array or null'' []))"

section \<open>Validating every decoded string\<close>

text \<open>The decoder's token state, with the stack of the enclosing containers.\<close>

datatype token_state = TTop | TArrStart | TArrValue | TArrComma | TObjStart | TObjKey | TObjColon
  | TObjValue | TObjComma

definition value_allowed :: "token_state \<Rightarrow> bool" where
  "value_allowed st \<longleftrightarrow> st \<in> {TTop, TArrStart, TArrValue, TObjValue}"

definition value_end :: "token_state \<Rightarrow> token_state" where
  "value_end st = (if st \<in> {TArrStart, TArrValue} then TArrComma
     else if st = TObjValue then TObjComma else st)"

text \<open>A number literal that overflows \<open>float64\<close> does not decode: \<open>digits \<cdot> 10^e\<close> rounds to
  infinity from \<open>2^1024 - 2^970\<close> on.\<close>

definition digits_value :: "string \<Rightarrow> nat" where
  "digits_value ds = fold (\<lambda>d n. 10 * n + (byte d - 48)) ds 0"

definition float_overflows :: "string \<Rightarrow> bool" where
  "float_overflows lit =
     (let unsigned = dropWhile (\<lambda>c. c = CHR ''-'') lit;
          (ip, r1) = take_digits unsigned;
          (fp, r2) = (case r1 of [] \<Rightarrow> ([], []) | c # r \<Rightarrow> if c = CHR ''.'' then take_digits r else ([], r1));
          (neg, ex) = (case r2 of [] \<Rightarrow> (False, [])
            | _ # r \<Rightarrow> (case r of [] \<Rightarrow> (False, []) | x # xs \<Rightarrow>
                if x = CHR ''-'' then (True, xs) else if x = CHR ''+'' then (False, xs) else (False, r)));
          m = digits_value (ip @ fp); e = digits_value ex
      in if neg then m \<ge> (2 ^ 1024 - 2 ^ 970) * 10 ^ (length fp + e)
         else m * 10 ^ e \<ge> (2 ^ 1024 - 2 ^ 970) * 10 ^ length fp)"

fun has_overflow :: "json \<Rightarrow> bool" where
  "has_overflow (JNum n) = float_overflows n"
| "has_overflow _ = False"

function validate_tokens ::
  "(string \<Rightarrow> go_error option) \<Rightarrow> token_state \<Rightarrow> token_state list \<Rightarrow> string \<Rightarrow> go_error option" where
  "validate_tokens v st stack s = (case skip_ws s of
     [] \<Rightarrow> None
   | c # r \<Rightarrow>
     if \<not> length r < length s then Some json_error
     else if c = CHR ''['' then
       (if value_allowed st then validate_tokens v TArrStart (st # stack) r else Some json_error)
     else if c = CHR '']'' then
       (if st \<in> {TArrStart, TArrComma} then validate_tokens v (value_end (hd stack)) (tl stack) r
        else Some json_error)
     else if c = CHR ''{'' then
       (if value_allowed st then validate_tokens v TObjStart (st # stack) r else Some json_error)
     else if c = CHR ''}'' then
       (if st \<in> {TObjStart, TObjComma} then validate_tokens v (value_end (hd stack)) (tl stack) r
        else Some json_error)
     else if c = CHR '':'' then
       (if st = TObjColon then validate_tokens v TObjValue stack r else Some json_error)
     else if c = CHR '','' then
       (if st = TArrComma then validate_tokens v TArrValue stack r
        else if st = TObjComma then validate_tokens v TObjKey stack r else Some json_error)
     else if c = dquote \<and> st \<in> {TObjStart, TObjKey} then
       (case scan_string r of None \<Rightarrow> Some json_error
        | Some (b, r') \<Rightarrow>
          if \<not> length r' < length s then Some json_error
          else case v (unquote b) of Some e \<Rightarrow> Some e | None \<Rightarrow> validate_tokens v TObjColon stack r')
     else if \<not> value_allowed st then Some json_error
     else case parse_value (c # r) of None \<Rightarrow> Some json_error
       | Some (j, r') \<Rightarrow>
         if has_overflow j \<or> \<not> length r' < length s then Some json_error
         else case (case j of JStr t \<Rightarrow> v t | _ \<Rightarrow> None) of
             Some e \<Rightarrow> Some e
           | None \<Rightarrow> validate_tokens v (value_end st) stack r')"
  by pat_completeness auto
termination
  by (relation "measure (\<lambda>(v, st, stack, s). length s)") auto

declare validate_tokens.simps [simp del]

definition validateSystemOneText :: "(string \<Rightarrow> go_error option) \<Rightarrow> string \<Rightarrow> go_error option" where
  "validateSystemOneText v raw = validate_tokens v TTop [] raw"

section \<open>Compiling the questions\<close>

record system_question =
  sq_name :: string
  sq_kind :: string
  sq_keys :: "string list"
  sq_legend :: "(string \<times> string) list"
  sq_instruction :: string
  sq_criteria :: string

fun set_question_members :: "(string \<times> string) list \<Rightarrow> system_question \<Rightarrow> go_error + system_question" where
  "set_question_members [] q = Inr q"
| "set_question_members ((name, value) # ms) q =
     (if name = ''type'' then
        (case json_doc value of
           None \<Rightarrow> Inl (Errorf ''question %q: type must be a string'' [AS (sq_name q)])
         | Some v \<Rightarrow> (case decode_string (sq_kind q) v of
             None \<Rightarrow> Inl (Errorf ''question %q: type must be a string'' [AS (sq_name q)])
           | Some k \<Rightarrow> set_question_members ms (q\<lparr>sq_kind := k\<rparr>)))
      else if name = ''instructions'' then set_question_members ms (q\<lparr>sq_instruction := value\<rparr>)
      else if name = ''criteria'' then set_question_members ms (q\<lparr>sq_criteria := value\<rparr>)
      else Inl (Errorf ''question %q: unknown property %q'' [AS (sq_name q), AS name]))"

text \<open>The entries of a question: key, encoding and description of each allowed value.\<close>

definition criteria_error :: "string \<Rightarrow> go_error \<Rightarrow> go_error" where
  "criteria_error name e = Wrapf ''question %q criteria: %w'' [AS name] e"

fun noul_descriptions ::
  "string \<Rightarrow> (string \<times> string) list \<Rightarrow> string \<times> string \<Rightarrow> go_error + string \<times> string" where
  "noul_descriptions name [] d = Inr d"
| "noul_descriptions name ((k, raw) # cs) (no, yes) =
     (if k \<noteq> ''false'' \<and> k \<noteq> ''true''
      then Inl (Errorf ''question %q: noul criteria keys must be true or false'' [AS name])
      else case entryText raw False of Inl e \<Rightarrow> Inl (criteria_error name e)
      | Inr t \<Rightarrow> noul_descriptions name cs
          (if t = ''null'' then (no, yes) else if k = ''false'' then (t, yes) else (no, t)))"

definition noul_entries :: "string \<Rightarrow> string \<Rightarrow> go_error + (string \<times> string \<times> string) list" where
  "noul_entries name criteria =
     res_bind (if criteria \<noteq> [] \<and> TrimSpace criteria \<noteq> ''null'' then
         (case orderedObject criteria of
            Inl _ \<Rightarrow> Inl (Errorf ''question %q: noul criteria must be an object or null'' [AS name])
          | Inr cs \<Rightarrow> noul_descriptions name cs (''The answer is no.'', ''The answer is yes.''))
       else Inr (''The answer is no.'', ''The answer is yes.''))
     (\<lambda>(no, yes). Inr [(''false'', ''false'', no), (''true'', ''true'', yes)])"

definition choice_entries :: "string \<Rightarrow> string \<Rightarrow> go_error + (string \<times> string \<times> string) list" where
  "choice_entries name criteria = (case orderedObject criteria of
     Inl _ \<Rightarrow> Inl (Errorf ''question %q: choice criteria need 1-%d named entries'' [AS name, AN (int MaxCandidates)])
   | Inr cs \<Rightarrow>
     if length cs < 1 \<or> length cs > MaxCandidates
     then Inl (Errorf ''question %q: choice criteria need 1-%d named entries'' [AS name, AN (int MaxCandidates)])
     else res_map (\<lambda>(k, raw). case entryText raw False of Inl e \<Rightarrow> Inl (criteria_error name e)
       | Inr t \<Rightarrow> Inr (k, marshal_string k, t)) cs)"

definition score_levels :: "string \<Rightarrow> string \<Rightarrow> go_error + string list" where
  "score_levels name criteria = (case Option.bind (json_doc criteria) decode_raws of
     None \<Rightarrow> Inl (Errorf ''question %q: score criteria need 2-%d ordered entries'' [AS name, AN (int MaxCandidates)])
   | Some levels \<Rightarrow>
     if length levels < 2 \<or> length levels > MaxCandidates
     then Inl (Errorf ''question %q: score criteria need 2-%d ordered entries'' [AS name, AN (int MaxCandidates)])
     else Inr levels)"

definition score_entries :: "string \<Rightarrow> string list \<Rightarrow> go_error + (string \<times> string \<times> string) list" where
  "score_entries name levels = res_map (\<lambda>(i, level).
     case entryText level False of Inl e \<Rightarrow> Inl (criteria_error name e)
     | Inr t \<Rightarrow> Inr (Itoa (int i), Itoa (int i), t)) (enumerate 0 levels)"

definition value_line :: "string \<times> string \<times> string \<Rightarrow> string" where
  "value_line ent = (case ent of (key, enc, description) \<Rightarrow>
     ''Value '' @ enc @ '': '' @ description @ [newline])"

definition add_entries ::
  "(nat \<Rightarrow> bool) \<Rightarrow> system_question \<Rightarrow> (string \<times> string \<times> string) list \<Rightarrow>
     field_spec \<times> field_input \<times> system_question" where
  "add_entries isprint q entries =
     (let cs = map (\<lambda>(i, (key, enc, description)).
            \<lparr>cand_id = sq_name q @ '':'' @ pad3 i, encoded = enc, cand_value = enc\<rparr>) (enumerate 0 entries)
      in (\<lparr>fs_name = sq_name q, fs_type = sq_kind q, fs_description = [], fs_candidates = cs\<rparr>,
          \<lparr>fi_suffix = field_suffix isprint (sq_name q), fi_candidates = cs\<rparr>,
          q\<lparr>sq_keys := map fst entries\<rparr>))"

definition compile_question ::
  "(nat \<Rightarrow> bool) \<Rightarrow> string \<times> string \<Rightarrow>
     go_error + ((field_spec \<times> field_input \<times> system_question) \<times> string)" where
  "compile_question isprint ent = (case ent of (name, value) \<Rightarrow>
     if name = [] then Inl (Errorf ''question name must not be empty'' [])
     else case orderedObject value of Inl e \<Rightarrow> Inl (Wrapf ''question %q: %w'' [AS name] e)
     | Inr members \<Rightarrow>
       res_bind (set_question_members members \<lparr>sq_name = name, sq_kind = [], sq_keys = [], sq_legend = [],
           sq_instruction = [], sq_criteria = []\<rparr>) (\<lambda>q.
       case entryText (sq_instruction q) True of
         Inl e \<Rightarrow> Inl (Wrapf ''question %q instructions: %w'' [AS name] e)
       | Inr instruction \<Rightarrow>
         let head = Quote isprint name @ '' ('' @ sq_kind q @ '')'' @ [newline] @
               ''Instructions: '' @ instruction @ [newline]
         in if sq_kind q = ''noul'' then
              res_bind (noul_entries name (sq_criteria q)) (\<lambda>es. Inr (add_entries isprint q es,
                head @ concat (map value_line es) @ [newline]))
            else if sq_kind q = ''choice'' then
              res_bind (choice_entries name (sq_criteria q)) (\<lambda>es. Inr (add_entries isprint q es,
                head @ concat (map value_line es) @ [newline]))
            else if sq_kind q = ''score'' then
              res_bind (score_levels name (sq_criteria q)) (\<lambda>levels.
              res_bind (score_entries name levels) (\<lambda>es. Inr
                (add_entries isprint (q\<lparr>sq_legend := map (\<lambda>(i, l). (Itoa (int i), l)) (enumerate 0 levels)\<rparr>) es,
                 head @ ''Rubric levels are ordered from lowest to highest. Select the best matching level.'' @
                 [newline] @ concat (map value_line es) @ [newline])))
            else Inl (Errorf ''question %q: supported types are noul, choice and score'' [AS name])))"

definition question_head :: string where
  "question_head = ''Answer each question independently using the supplied state and rubric. Select only an allowed JSON value for that question.'' @ [newline, newline] @ ''Questions:'' @ [newline]"

definition compileSystemOne ::
  "(nat \<Rightarrow> bool) \<Rightarrow> system_request \<Rightarrow> go_error + (compiled_schema \<times> system_question list \<times> string)" where
  "compileSystemOne isprint request = (case entryText (sr_state request) False of
     Inl e \<Rightarrow> Inl (Wrapf ''state: %w'' [] e)
   | Inr state \<Rightarrow> (case orderedObject (sr_questions request) of
       Inl e \<Rightarrow> Inl (Wrapf ''questions: %w'' [] e)
     | Inr questions \<Rightarrow>
       if length questions < 1 \<or> length questions > MaxFields
       then Inl (Errorf ''questions must contain 1-%d questions'' [AN (int MaxFields)])
       else res_bind (res_map (compile_question isprint) questions) (\<lambda>parts. Inr
         (\<lparr>system_text = question_head @ concat (map snd parts),
           cs_fields = map (fst \<circ> fst) parts, cs_inputs = map (fst \<circ> snd \<circ> fst) parts\<rparr>,
          map (snd \<circ> snd \<circ> fst) parts, ''State: '' @ state))))"

section \<open>Answers\<close>

datatype 'f answer =
  NoulAnswer 'f
| ChoiceAnswer string 'f "(string \<times> 'f) list"
| ScoreAnswer 'f 'f "(string \<times> 'f) list" "(string \<times> string) list"

text \<open>The loop over the candidates: sum, expected index, peak and its index.\<close>

fun scan_candidates ::
  "'f fops \<Rightarrow> string \<Rightarrow> nat \<Rightarrow> 'f list \<Rightarrow> 'f \<times> 'f \<times> 'f \<times> nat \<Rightarrow> go_error + 'f \<times> 'f \<times> 'f \<times> nat" where
  "scan_candidates ops name i [] acc = Inr acc"
| "scan_candidates ops name i (p # ps) (mass, score, peak, winner) =
     (if f_isnan ops p \<or> f_isinf ops p \<or> f_lt ops p (f_zero ops) \<or> f_lt ops (f_one ops) p
      then Inl (Errorf ''question %q: invalid probability'' [AS name])
      else scan_candidates ops name (Suc i) ps
        (f_add ops mass p, f_add ops score (f_mul ops (f_of_int ops (int i)) p),
         (if f_lt ops peak p then p else peak), (if f_lt ops peak p then i else winner)))"

definition clamp :: "'f fops \<Rightarrow> 'f \<Rightarrow> 'f" where
  "clamp ops x = f_min ops (f_one ops) (f_max ops (f_zero ops) x)"

definition mode_distance :: "'f fops \<Rightarrow> 'f list \<Rightarrow> nat \<Rightarrow> 'f" where
  "mode_distance ops ps winner = fold (\<lambda>(i, p) d.
     f_add ops d (f_mul ops p (f_abs ops (f_of_int ops (int i - int winner))))) (enumerate 0 ps) (f_zero ops)"

definition systemOneAnswer ::
  "'f fops \<Rightarrow> system_question \<Rightarrow> 'f field_result \<Rightarrow> go_error + 'f answer" where
  "systemOneAnswer ops q field =
     (let n = length (sq_keys q); ps = map cr_probability (fr_candidates field) in
      if sq_kind q = ''choice'' \<and> n = 1 \<and> fr_candidates field = []
      then Inr (ChoiceAnswer (sq_keys q ! 0) (f_one ops) [(sq_keys q ! 0, f_one ops)])
      else if length ps \<noteq> n \<or> n = 0
      then Inl (Errorf ''question %q: full distribution required'' [AS (sq_name q)])
      else res_bind (scan_candidates ops (sq_name q) 0 ps
          (f_zero ops, f_zero ops, f_of_int ops (- 1), 0)) (\<lambda>(mass, score, peak, winner).
        let probabilities = zip (sq_keys q) ps in
        if f_lt ops (f_1e9 ops) (f_abs ops (f_sub ops mass (f_one ops)))
        then Inl (Errorf ''question %q: distribution is not normalised'' [AS (sq_name q)])
        else if sq_kind q = ''noul''
        then Inr (NoulAnswer (case last_value probabilities ''true'' of None \<Rightarrow> f_zero ops | Some p \<Rightarrow> p))
        else if sq_kind q = ''choice'' then
          (let uniform = f_div ops (f_one ops) (f_of_int ops (int n));
               confidence = (if n > 1
                 then f_div ops (f_sub ops peak uniform) (f_sub ops (f_one ops) uniform) else f_one ops)
           in Inr (ChoiceAnswer (sq_keys q ! winner) (clamp ops confidence) probabilities))
        else if sq_kind q = ''score'' then
          (let confidence = f_sub ops (f_one ops)
             (f_div ops (mode_distance ops ps winner) (f_of_int ops (int n - 1)))
           in Inr (ScoreAnswer score (clamp ops confidence) probabilities (sq_legend q)))
        else Inl (Errorf ''unsupported question type %q'' [AS (sq_kind q)])))"

record 'f system_response =
  sp_model :: string
  sp_answers :: "(string \<times> 'f answer) list"
  sp_input_tokens :: nat
  sp_output_tokens :: nat

text \<open>The serialised answers, which are only counted. \<open>ftext\<close> is the shortest decimal form of a
  float, undefined for infinities and NaN.\<close>

fun html_escape :: "string \<Rightarrow> string" where
  "html_escape (c # s) =
     (if c = CHR ''<'' then [backslash] @ ''u003c'' @ html_escape s
      else if c = CHR ''>'' then [backslash] @ ''u003e'' @ html_escape s
      else if c = CHR ''&'' then [backslash] @ ''u0026'' @ html_escape s
      else if byte c = 226 \<and> length s \<ge> 2 \<and> byte (s ! 0) = 128 \<and> byte (s ! 1) \<in> {168, 169}
      then [backslash] @ ''u202'' @ [if byte (s ! 1) = 168 then CHR ''8'' else CHR ''9''] @ html_escape (drop 2 s)
      else c # html_escape s)"
| "html_escape [] = []"

definition marshal_object :: "(string \<times> string) list \<Rightarrow> string" where
  "marshal_object kvs = ''{'' @ join '','' (map (\<lambda>(k, v). marshal_string k @ '':'' @ v) (sort_key fst kvs)) @ ''}''"

definition marshal_floats :: "('f \<Rightarrow> string option) \<Rightarrow> (string \<times> 'f) list \<Rightarrow> go_error + string" where
  "marshal_floats ftext kvs = res_bind (res_map (\<lambda>(k, x). case ftext x of
       None \<Rightarrow> Inl (Sentinel ''json: unsupported value'') | Some t \<Rightarrow> Inr (k, t)) kvs)
     (\<lambda>ts. Inr (marshal_object ts))"

definition marshal_float :: "('f \<Rightarrow> string option) \<Rightarrow> 'f \<Rightarrow> go_error + string" where
  "marshal_float ftext x = (case ftext x of None \<Rightarrow> Inl (Sentinel ''json: unsupported value'') | Some t \<Rightarrow> Inr t)"

definition member_text :: "string \<Rightarrow> string \<Rightarrow> string" where
  "member_text k v = marshal_string k @ '':'' @ v"

definition marshal_answer :: "('f \<Rightarrow> string option) \<Rightarrow> 'f answer \<Rightarrow> go_error + string" where
  "marshal_answer ftext a = (case a of
     NoulAnswer p \<Rightarrow> res_bind (marshal_float ftext p) (\<lambda>t.
       Inr (''{'' @ join '','' [member_text ''type'' (marshal_string ''noul''), member_text ''noul'' t] @ ''}''))
   | ChoiceAnswer c conf ps \<Rightarrow> res_bind (marshal_float ftext conf) (\<lambda>t.
       res_bind (marshal_floats ftext ps) (\<lambda>pt.
       Inr (''{'' @ join '','' [member_text ''type'' (marshal_string ''choice''),
         member_text ''choice'' (marshal_string c), member_text ''confidence'' t,
         member_text ''probabilities'' pt] @ ''}'')))
   | ScoreAnswer score conf ps legend \<Rightarrow> res_bind (marshal_float ftext score) (\<lambda>s.
       res_bind (marshal_float ftext conf) (\<lambda>t. res_bind (marshal_floats ftext ps) (\<lambda>pt.
       Inr (''{'' @ join '','' [member_text ''type'' (marshal_string ''score''), member_text ''score'' s,
         member_text ''confidence'' t, member_text ''probabilities'' pt,
         member_text ''legend'' (marshal_object (map (\<lambda>(k, raw). (k, html_escape (compact False raw))) legend))] @
         ''}'')))))"

definition marshal_answers :: "('f \<Rightarrow> string option) \<Rightarrow> (string \<times> 'f answer) list \<Rightarrow> go_error + string" where
  "marshal_answers ftext as = res_bind (res_map (\<lambda>(k, a). res_bind (marshal_answer ftext a) (\<lambda>t. Inr (k, t))) as)
     (\<lambda>ts. Inr (marshal_object ts))"

section \<open>The route\<close>

definition no_field_result :: "'f fops \<Rightarrow> 'f field_result" where
  "no_field_result ops = \<lparr>fr_value = [], fr_probability = f_zero ops, fr_candidates = [],
     fr_scored_nodes = 0, fr_tree = False\<rparr>"

definition system_answers ::
  "'f fops \<Rightarrow> (string \<rightharpoonup> 'f field_result) \<Rightarrow> system_question list \<Rightarrow> go_error + (string \<times> 'f answer) list" where
  "system_answers ops flds questions = res_map (\<lambda>q.
     res_bind (systemOneAnswer ops q (case flds (sq_name q) of Some r \<Rightarrow> r | None \<Rightarrow> no_field_result ops))
       (\<lambda>a. Inr (sq_name q, a))) questions"

definition decision_request :: "system_request \<Rightarrow> compiled_schema \<Rightarrow> string \<Rightarrow> request" where
  "decision_request r schema state = \<lparr>req_model = sr_model r, req_instructions = system_text schema,
     req_schema = sr_questions r, req_contexts = [state], req_mode = ModeTree, req_tree_max = 0,
     req_cache_prompt = None\<rparr>"

definition SystemOne ::
  "'f fops \<Rightarrow> (nat \<Rightarrow> bool) \<Rightarrow> ('f \<Rightarrow> string option) \<Rightarrow> ('w, 'f) engine option \<Rightarrow> system_request \<Rightarrow>
     ('w, 'f system_response) io" where
  "SystemOne ops isprint ftext eo request = (case eo of None \<Rightarrow> io_lift (Inl not_configured) | Some e \<Rightarrow>
     case en_tokenizer e of None \<Rightarrow> io_lift (Inl not_configured) | Some enc \<Rightarrow>
     if en_scorer e = None then io_lift (Inl not_configured) else
     io_bind (io_get (en_ctx_err e)) (\<lambda>err. case err of Some x \<Rightarrow> io_lift (Inl x) | None \<Rightarrow>
     case (case en_validator e of None \<Rightarrow> None
         | Some v \<Rightarrow> (case validateSystemOneText v (sr_state request) of Some x \<Rightarrow> Some x
             | None \<Rightarrow> validateSystemOneText v (sr_questions request))) of
       Some x \<Rightarrow> io_lift (Inl x)
     | None \<Rightarrow>
       io_bind (io_lift (compileSystemOne isprint request)) (\<lambda>(schema, questions, state).
       io_bind (decide ops isprint (Some e) (decision_request request schema state) (Some schema)) (\<lambda>decision.
       io_lift (case rs_results decision of [] \<Rightarrow> Inl Panic | item # _ \<Rightarrow>
         res_bind (system_answers ops (it_fields item) questions) (\<lambda>answers.
         res_bind (marshal_answers ftext answers) (\<lambda>enctext. Inr
           \<lparr>sp_model = sr_model request, sp_answers = answers,
            sp_input_tokens = us_prompt_tokens (rs_usage decision),
            sp_output_tokens = length (enc enctext)\<rparr>)))))))"

end
