(* ===== verification/SystemOneFacts.thy ===== *)
theory SystemOneFacts
  imports SystemOne
begin

text \<open>
  Facts about the typed questions: what a compiled question set satisfies, the range and the
  meaning of the answers on exact arithmetic, and the shape of a response.
\<close>

section \<open>Compiled questions\<close>

definition question_ok :: "(field_spec \<times> field_input \<times> system_question) \<Rightarrow> bool" where
  "question_ok p = (case p of (f, inp, q) \<Rightarrow>
     fs_name f = sq_name q \<and> fs_type f = sq_kind q \<and> fs_name f \<noteq> [] \<and>
     length (sq_keys q) = length (fs_candidates f) \<and> fi_candidates inp = fs_candidates f \<and>
     1 \<le> length (fs_candidates f) \<and> length (fs_candidates f) \<le> MaxCandidates \<and>
     distinct (sq_keys q) \<and>
     (sq_kind q = ''noul'' \<and> sq_keys q = [''false'', ''true''] \<or>
      sq_kind q = ''choice'' \<or> sq_kind q = ''score'' \<and> 2 \<le> length (sq_keys q)))"

lemma add_entries_sel:
  "add_entries isprint q es = (f, inp, q') \<Longrightarrow>
     fs_name f = sq_name q \<and> fs_type f = sq_kind q \<and> sq_name q' = sq_name q \<and> sq_kind q' = sq_kind q \<and>
     sq_keys q' = map fst es \<and> length (fs_candidates f) = length es \<and> fi_candidates inp = fs_candidates f \<and>
     map encoded (fs_candidates f) = map (fst \<circ> snd) es \<and> sq_legend q' = sq_legend q"
  by (auto simp: add_entries_def Let_def enumerate_eq_zip split_def intro!: nth_equalityI)

lemma Itoa_inj: "Itoa (int i) = Itoa (int j) \<longleftrightarrow> i = j"
  by (simp add: Itoa_def nat_text_inj)

lemma set_question_members_name:
  "set_question_members ms q = Inr q' \<Longrightarrow> sq_name q' = sq_name q"
  by (induction ms q rule: set_question_members.induct)
     (auto split: if_splits option.splits)

lemma score_entries_keys:
  assumes "score_entries name levels = Inr es"
  shows "map fst es = map (\<lambda>i. Itoa (int i)) [0..<length levels]" "length es = length levels"
proof -
  note all = assms [unfolded score_entries_def res_map_Inr]
  then show len: "length es = length levels" by (auto dest: list_all2_lengthD)
  show "map fst es = map (\<lambda>i. Itoa (int i)) [0..<length levels]"
  proof (rule nth_equalityI)
    fix i assume "i < length (map fst es)"
    then have i: "i < length levels" using len by simp
    have "(case entryText (levels ! i) False of Inl e \<Rightarrow> Inl (criteria_error name e)
        | Inr t \<Rightarrow> Inr (Itoa (int i), Itoa (int i), t)) = Inr (es ! i)"
      using list_all2_nthD [OF all, of i] i by (simp add: nth_enumerate_eq)
    then have "fst (es ! i) = Itoa (int i)" by (cases "entryText (levels ! i) False") (auto simp: fst_def split: prod.splits)
    then show "map fst es ! i = map (\<lambda>i. Itoa (int i)) [0..<length levels] ! i" using i len by simp
  qed (simp add: len)
qed

lemma choice_entries_keys:
  assumes "choice_entries name criteria = Inr es"
  shows "distinct (map fst es)" "1 \<le> length es" "length es \<le> MaxCandidates"
proof -
  from assms obtain cs where cs: "orderedObject criteria = Inr cs" "\<not> length cs < 1" "\<not> length cs > MaxCandidates"
    and m: "res_map (\<lambda>(k, raw). case entryText raw False of Inl e \<Rightarrow> Inl (criteria_error name e)
       | Inr t \<Rightarrow> Inr (k, marshal_string k, t)) cs = Inr es"
    by (auto simp: choice_entries_def split: sum.splits if_splits)
  have all: "list_all2 (\<lambda>c e. fst e = fst c) cs es"
    using m unfolding res_map_Inr by (rule list_all2_mono) (auto split: sum.splits)
  have "map fst es = map fst cs"
    using all by (auto simp: list_all2_conv_all_nth intro!: nth_equalityI)
  then show "distinct (map fst es)" using orderedObject_distinct [OF cs(1)] by simp
  from list_all2_lengthD [OF all] cs(2,3) show "1 \<le> length es" "length es \<le> MaxCandidates" by linarith+
qed

lemma compile_question_ok:
  assumes "compile_question isprint ent = Inr (p, t)"
  shows "question_ok p \<and> fs_name (fst p) = fst ent"
proof -
  obtain name val where ent: "ent = (name, val)" by fastforce
  let ?q0 = "\<lparr>sq_name = name, sq_kind = [], sq_keys = [], sq_legend = [], sq_instruction = [], sq_criteria = []\<rparr>"
  from assms have name: "name \<noteq> []" by (auto simp: compile_question_def ent)
  with assms obtain members where "orderedObject val = Inr members"
    by (cases "orderedObject val") (auto simp: compile_question_def ent)
  with assms name obtain q where q: "set_question_members members ?q0 = Inr q"
    by (cases "set_question_members members ?q0") (auto simp: compile_question_def ent)
  with assms name \<open>orderedObject val = Inr members\<close> obtain instruction where "entryText (sq_instruction q) True = Inr instruction"
    by (cases "entryText (sq_instruction q) True") (auto simp: compile_question_def ent)
  with assms name q \<open>orderedObject val = Inr members\<close> have
    cases: "(\<exists>es. sq_kind q = ''noul'' \<and> noul_entries name (sq_criteria q) = Inr es \<and> p = add_entries isprint q es) \<or>
      (\<exists>es. sq_kind q = ''choice'' \<and> choice_entries name (sq_criteria q) = Inr es \<and> p = add_entries isprint q es) \<or>
      (\<exists>levels es lg. sq_kind q = ''score'' \<and> score_levels name (sq_criteria q) = Inr levels \<and>
         score_entries name levels = Inr es \<and> p = add_entries isprint (q\<lparr>sq_legend := lg\<rparr>) es)"
    by (auto simp: compile_question_def ent go_res Let_def split: if_splits)
  have qn: "sq_name q = name" using set_question_members_name [OF q] by simp
  obtain f inp q' where p: "p = (f, inp, q')" by (metis surj_pair)
  from cases show ?thesis
  proof (elim disjE exE conjE)
    fix es assume *: "sq_kind q = ''noul''" "noul_entries name (sq_criteria q) = Inr es" "p = add_entries isprint q es"
    then have "map fst es = [''false'', ''true'']" "length es = 2"
      by (auto simp: noul_entries_def go_res)
    with add_entries_sel [OF *(3) [symmetric, unfolded p]] *(1) name qn show ?thesis
      by (simp add: p question_ok_def limits ent)
  next
    fix es assume *: "sq_kind q = ''choice''" "choice_entries name (sq_criteria q) = Inr es" "p = add_entries isprint q es"
    from add_entries_sel [OF *(3) [symmetric, unfolded p]] choice_entries_keys [OF *(2)] *(1) name qn show ?thesis
      by (simp add: p question_ok_def ent)
  next
    fix levels es lg assume *: "sq_kind q = ''score''" "score_levels name (sq_criteria q) = Inr levels"
      "score_entries name levels = Inr es" "p = add_entries isprint (q\<lparr>sq_legend := lg\<rparr>) es"
    from *(2) have "2 \<le> length levels" "length levels \<le> MaxCandidates"
      by (auto simp: score_levels_def split: option.splits if_splits)
    moreover have "distinct (map fst es)"
      by (simp add: score_entries_keys [OF *(3)] distinct_map inj_on_def Itoa_inj)
    ultimately show ?thesis
      using add_entries_sel [OF *(4) [symmetric, unfolded p]] *(1) name qn score_entries_keys [OF *(3)]
      by (simp add: p question_ok_def ent)
  qed
qed

lemma compileSystemOne_ok:
  assumes "compileSystemOne isprint request = Inr (schema, questions, state)"
  shows "list_all question_ok (zip (cs_fields schema) (zip (cs_inputs schema) questions))"
    and "length (cs_inputs schema) = length (cs_fields schema)" "length questions = length (cs_fields schema)"
    and "distinct (map fs_name (cs_fields schema))" "map sq_name questions = map fs_name (cs_fields schema)"
    and "1 \<le> length questions" "length questions \<le> MaxFields"
proof -
  from assms obtain ms parts where ms: "orderedObject (sr_questions request) = Inr ms"
    "\<not> length ms < 1" "\<not> length ms > MaxFields"
    and parts: "res_map (compile_question isprint) ms = Inr parts"
    and s: "cs_fields schema = map (fst \<circ> fst) parts" "cs_inputs schema = map (fst \<circ> snd \<circ> fst) parts"
      "questions = map (snd \<circ> snd \<circ> fst) parts"
    by (auto simp: compileSystemOne_def go_res split: sum.splits if_splits)
  note all = parts [unfolded res_map_Inr]
  have ok: "question_ok (fst (parts ! k)) \<and> fs_name (fst (fst (parts ! k))) = fst (ms ! k)"
    if "k < length parts" for k
    using compile_question_ok [of isprint "ms ! k" "fst (parts ! k)" "snd (parts ! k)"] all that
    by (auto simp: list_all2_conv_all_nth)
  have len: "length ms = length parts" using list_all2_lengthD [OF all] .
  show "list_all question_ok (zip (cs_fields schema) (zip (cs_inputs schema) questions))"
    using ok by (auto simp: list_all_length s)
  show "length (cs_inputs schema) = length (cs_fields schema)" "length questions = length (cs_fields schema)"
    by (simp_all add: s)
  have "map fs_name (cs_fields schema) = map fst ms"
    using ok len by (auto simp: s intro!: nth_equalityI)
  then show "distinct (map fs_name (cs_fields schema))" using orderedObject_distinct [OF ms(1)] by simp
  show "map sq_name questions = map fs_name (cs_fields schema)"
  proof -
    have "sq_name (snd (snd (fst pt))) = fs_name (fst (fst pt))" if "pt \<in> set parts" for pt
      using ok that by (auto simp: in_set_conv_nth question_ok_def split_def)
    then show ?thesis by (simp add: s)
  qed
  show "1 \<le> length questions" "length questions \<le> MaxFields" using ms(2,3) len unfolding s by (simp_all only: length_map)
qed

section \<open>Answers on exact arithmetic\<close>

definition unit_values :: "real list \<Rightarrow> bool" where
  "unit_values ps \<longleftrightarrow> (\<forall>p \<in> set ps. 0 \<le> p \<and> p \<le> 1)"

definition expectation :: "nat \<Rightarrow> real list \<Rightarrow> real" where
  "expectation i ps = (\<Sum>k < length ps. (real i + real k) * ps ! k)"

lemma expectation_Cons: "expectation i (p # ps) = real i * p + expectation (Suc i) ps"
  unfolding expectation_def list.size add_Suc_right sum.lessThan_Suc_shift
  by (simp add: algebra_simps)

lemma scan_candidates_real:
  "scan_candidates real_ops name i ps (m, s, pk, w) = Inr (m', s', pk', w') \<Longrightarrow>
     unit_values ps \<and> m' = m + sum_list ps \<and> s' = s + expectation i ps"
proof (induction ps arbitrary: i m s pk w)
  case (Cons p ps)
  then have "0 \<le> p" "p \<le> 1" by (auto split: if_splits)
  moreover from Cons.prems this have
    "scan_candidates real_ops name (Suc i) ps (m + p, s + real i * p, if pk < p then p else pk, if pk < p then i else w) =
      Inr (m', s', pk', w')" by simp
  from Cons.IH [OF this] have "unit_values ps" "m' = m + p + sum_list ps"
    "s' = s + real i * p + expectation (Suc i) ps" by simp_all
  ultimately show ?case by (simp add: unit_values_def expectation_Cons)
qed (simp add: unit_values_def expectation_def)

text \<open>The running peak: of the values read so far, the first maximum.\<close>

definition peak_of :: "real list \<Rightarrow> real \<Rightarrow> nat \<Rightarrow> bool" where
  "peak_of qs pk w \<longleftrightarrow> (if qs = [] then pk = -1 \<and> w = 0
     else w < length qs \<and> pk = qs ! w \<and> (\<forall>j < w. qs ! j < pk) \<and> (\<forall>j < length qs. qs ! j \<le> pk))"

lemma peak_of_step: "peak_of qs pk w \<Longrightarrow> 0 \<le> p \<Longrightarrow>
    peak_of (qs @ [p]) (if pk < p then p else pk) (if pk < p then length qs else w)"
  by (force simp: peak_of_def nth_append less_Suc_eq split: if_splits)

lemma scan_candidates_peak:
  "scan_candidates real_ops name (length qs) ps (m, s, pk, w) = Inr (m', s', pk', w') \<Longrightarrow>
     peak_of qs pk w \<Longrightarrow> peak_of (qs @ ps) pk' w'"
proof (induction ps arbitrary: qs m s pk w)
  case (Cons p ps)
  then have p: "0 \<le> p" "p \<le> 1" by (auto split: if_splits)
  have "scan_candidates real_ops name (length (qs @ [p])) ps
      (m + p, s + real (length qs) * p, if pk < p then p else pk, if pk < p then length qs else w) =
      Inr (m', s', pk', w')" using Cons.prems(1) p by simp
  from Cons.IH [OF this peak_of_step [OF Cons.prems(2) p(1)]] show ?case by simp
qed simp

lemma answer_scan:
  assumes "systemOneAnswer real_ops q field = Inr a" "fr_candidates field \<noteq> []"
  obtains ps pk w where "ps = map cr_probability (fr_candidates field)" "length ps = length (sq_keys q)"
    "unit_values ps" "\<bar>sum_list ps - 1\<bar> \<le> 1 / 1000000000" "peak_of ps pk w" "w < length ps"
    "sq_kind q = ''noul'' \<Longrightarrow> a = NoulAnswer (case last_value (zip (sq_keys q) ps) ''true'' of None \<Rightarrow> 0 | Some p \<Rightarrow> p)"
    "sq_kind q = ''choice'' \<Longrightarrow> a = ChoiceAnswer (sq_keys q ! w)
       (clamp real_ops (if length ps > 1 then (pk - 1 / length ps) / (1 - 1 / length ps) else 1)) (zip (sq_keys q) ps)"
    "sq_kind q = ''score'' \<Longrightarrow> a = ScoreAnswer (expectation 0 ps)
       (clamp real_ops (1 - mode_distance real_ops ps w / (int (length ps) - 1))) (zip (sq_keys q) ps) (sq_legend q)"
    "sq_kind q \<in> {''noul'', ''choice'', ''score''}"
proof -
  let ?ps = "map cr_probability (fr_candidates field)" and ?n = "length (sq_keys q)"
  from assms(2) have nosingle: "\<not> (sq_kind q = ''choice'' \<and> ?n = 1 \<and> fr_candidates field = [])" by simp
  have len: "length ?ps = ?n" and n: "?n \<noteq> 0"
    using assms nosingle by (auto simp: systemOneAnswer_def Let_def split: if_splits)
  have full: "\<not> (length ?ps \<noteq> ?n \<or> ?n = 0)" using len n by simp
  have step: "res_bind (scan_candidates real_ops (sq_name q) 0 ?ps (0, 0, -1, 0)) g = Inr a"
    if "systemOneAnswer real_ops q field = (if sq_kind q = ''choice'' \<and> ?n = 1 \<and> fr_candidates field = [] then x
      else if length ?ps \<noteq> ?n \<or> ?n = 0 then y
      else res_bind (scan_candidates real_ops (sq_name q) 0 ?ps (0, 0, -1, 0)) g)" for x y g
    using that [unfolded if_not_P [OF nosingle] if_not_P [OF full] assms(1)] by (rule sym)
  note bind = step [OF systemOneAnswer_def [of real_ops q field, unfolded Let_def real_ops_sel of_int_minus of_int_1]]
  then obtain r where "scan_candidates real_ops (sq_name q) 0 ?ps (0, 0, -1, 0) = Inr r"
    unfolding res_bind_Inr by blast
  then obtain m s pk w where
    scan: "scan_candidates real_ops (sq_name q) 0 ?ps (0, 0, -1, 0) = Inr (m, s, pk, w)"
    by (metis surj_pair)
  have rest: "(if 1 / 1000000000 < \<bar>m - 1\<bar>
        then Inl (Errorf ''question %q: distribution is not normalised'' [AS (sq_name q)])
        else if sq_kind q = ''noul''
        then Inr (NoulAnswer (case last_value (zip (sq_keys q) ?ps) ''true'' of None \<Rightarrow> 0 | Some p \<Rightarrow> p))
        else if sq_kind q = ''choice'' then
          (let uniform = 1 / real_of_int (int ?n);
               confidence = (if ?n > 1 then (pk - uniform) / (1 - uniform) else 1)
           in Inr (ChoiceAnswer (sq_keys q ! w) (clamp real_ops confidence) (zip (sq_keys q) ?ps)))
        else if sq_kind q = ''score'' then
          (let confidence = 1 - (mode_distance real_ops ?ps w / real_of_int (int ?n - 1))
           in Inr (ScoreAnswer s (clamp real_ops confidence) (zip (sq_keys q) ?ps) (sq_legend q)))
        else Inl (Errorf ''unsupported question type %q'' [AS (sq_kind q)])) = Inr a"
    using bind unfolding scan res_bind_simps prod.case Let_def .
  from scan_candidates_real [OF scan] have R: "unit_values ?ps" "m = sum_list ?ps" "s = expectation 0 ?ps"
    by simp_all
  have P: "peak_of ?ps pk w"
    using scan_candidates_peak [of "sq_name q" "[]" ?ps 0 0 "-1" 0 m s pk w] scan by (simp add: peak_of_def)
  have w: "w < length ?ps" using P assms(2) by (auto simp: peak_of_def)
  show thesis
    by (rule that [OF refl len R(1) _ P w]) (use rest R len in \<open>auto simp: Let_def split: if_splits\<close>)
qed

lemma clamp_real: "0 \<le> clamp real_ops x \<and> clamp real_ops x \<le> 1"
  "0 \<le> x \<Longrightarrow> x \<le> 1 \<Longrightarrow> clamp real_ops x = x"
  by (auto simp: clamp_def)

lemma expectation_bound:
  assumes "unit_values ps" "ps \<noteq> []"
  shows "0 \<le> expectation 0 ps \<and> expectation 0 ps \<le> (real (length ps) - 1) * sum_list ps"
proof -
  have nonneg: "0 \<le> ps ! k" if "k < length ps" for k using assms(1) that by (simp add: unit_values_def)
  have "expectation 0 ps \<le> (\<Sum>k < length ps. (real (length ps) - 1) * ps ! k)"
    unfolding expectation_def by (rule sum_mono, rule mult_right_mono) (use nonneg in auto)
  also have "\<dots> = (real (length ps) - 1) * sum_list ps"
    by (simp add: sum_list_sum_nth atLeast0LessThan sum_distrib_left)
  finally show ?thesis using nonneg by (auto simp: expectation_def intro!: sum_nonneg)
qed

text \<open>
  The answers on exact arithmetic. A noul is the probability of the key true. The option chosen is the
  first with maximal probability, and its confidence the margin over a uniform guess. A score is the
  expected level; its confidence falls with the mean distance from the most probable level. A mean is
  at most the last level, up to the error that is accepted in the sum of the probabilities.
\<close>

definition first_max :: "real list \<Rightarrow> nat \<Rightarrow> bool" where
  "first_max ps w \<longleftrightarrow> w < length ps \<and> (\<forall>j < length ps. ps ! j \<le> ps ! w) \<and> (\<forall>j < w. ps ! j < ps ! w)"

definition exact_answer :: "system_question \<Rightarrow> real list \<Rightarrow> real answer \<Rightarrow> bool" where
  "exact_answer q ps a = (let n = length ps in case a of
     NoulAnswer p \<Rightarrow> sq_kind q = ''noul'' \<and> 0 \<le> p \<and> p \<le> 1 \<and>
       (distinct (sq_keys q) \<longrightarrow> (\<forall>i < n. sq_keys q ! i = ''true'' \<longrightarrow> p = ps ! i))
   | ChoiceAnswer c conf pairs \<Rightarrow> sq_kind q = ''choice'' \<and> pairs = zip (sq_keys q) ps \<and>
       (\<exists>w. first_max ps w \<and> c = sq_keys q ! w \<and> conf = (if n = 1 then 1 else max 0 ((ps ! w - 1 / n) / (1 - 1 / n))))
   | ScoreAnswer score conf pairs legend \<Rightarrow> sq_kind q = ''score'' \<and> pairs = zip (sq_keys q) ps \<and> legend = sq_legend q \<and>
       score = (\<Sum>j < n. real j * ps ! j) \<and> 0 \<le> score \<and> score \<le> (real n - 1) * (1 + 1 / 1000000000) \<and>
       (sum_list ps = 1 \<longrightarrow> score \<le> real n - 1) \<and>
       (2 \<le> n \<longrightarrow> (\<exists>w. first_max ps w \<and> conf = max 0 (1 - (\<Sum>j < n. ps ! j * \<bar>real j - real w\<bar>) / (real n - 1)))))"

lemma fold_distance:
  "fold (\<lambda>(i, p) d. d + p * \<bar>real_of_int (int i - int w)\<bar>) (enumerate k ps) d =
     d + (\<Sum>j < length ps. ps ! j * \<bar>real (k + j) - real w\<bar>)"
proof (induction ps arbitrary: k d)
  case (Cons p ps)
  have "(\<Sum>j < length (p # ps). (p # ps) ! j * \<bar>real (k + j) - real w\<bar>) =
      p * \<bar>real k - real w\<bar> + (\<Sum>j < length ps. ps ! j * \<bar>real (Suc k + j) - real w\<bar>)"
    unfolding list.size add_Suc_right add_0_right sum.lessThan_Suc_shift by simp
  then show ?case using Cons.IH [of "Suc k"] by simp
qed simp

lemma mode_distance_real: "mode_distance real_ops ps w = (\<Sum>j < length ps. ps ! j * \<bar>real j - real w\<bar>)"
  using fold_distance [of w 0 ps 0] by (simp add: mode_distance_def)

lemma clamp_le_1: "x \<le> 1 \<Longrightarrow> clamp real_ops x = max 0 x"
  by (simp add: clamp_def)

lemma expectation_0: "expectation 0 ps = (\<Sum>j < length ps. real j * ps ! j)"
  by (simp add: expectation_def)

lemma systemOneAnswer_exact:
  assumes "systemOneAnswer real_ops q field = Inr a" "fr_candidates field \<noteq> []" "ps = map cr_probability (fr_candidates field)"
  shows "length ps = length (sq_keys q) \<and> unit_values ps \<and> \<bar>sum_list ps - 1\<bar> \<le> 1 / 1000000000 \<and> exact_answer q ps a"
proof (rule answer_scan [OF assms(1,2), folded assms(3)])
  fix ps' pk w
  assume ps': "ps' = ps" and len: "length ps' = length (sq_keys q)" and unit': "unit_values ps'" and total': "\<bar>sum_list ps' - 1\<bar> \<le> 1 / 1000000000"
    and peak: "peak_of ps' pk w" and w': "w < length ps'"
    and noul: "sq_kind q = ''noul'' \<Longrightarrow>
      a = NoulAnswer (case last_value (zip (sq_keys q) ps') ''true'' of None \<Rightarrow> 0 | Some p \<Rightarrow> p)"
    and choice: "sq_kind q = ''choice'' \<Longrightarrow> a = ChoiceAnswer (sq_keys q ! w)
       (clamp real_ops (if length ps' > 1 then (pk - 1 / length ps') / (1 - 1 / length ps') else 1)) (zip (sq_keys q) ps')"
    and score: "sq_kind q = ''score'' \<Longrightarrow> a = ScoreAnswer (expectation 0 ps')
       (clamp real_ops (1 - mode_distance real_ops ps' w / (int (length ps') - 1))) (zip (sq_keys q) ps') (sq_legend q)"
    and kind: "sq_kind q \<in> {''noul'', ''choice'', ''score''}"
  note S = len [unfolded ps'] unit' [unfolded ps'] total' [unfolded ps'] w' [unfolded ps']
  let ?n = "length ps"
  have pos: "0 < ?n" using S(4) by linarith
  have nonneg: "0 \<le> ps ! j \<and> ps ! j \<le> 1" if "j < ?n" for j using S(2) that by (simp add: unit_values_def)
  have first: "first_max ps w" "pk = ps ! w" using peak pos unfolding ps' by (auto simp: peak_of_def first_max_def split: if_splits)
  have "exact_answer q ps a"
    using kind
  proof (elim insertE emptyE)
    assume k: "sq_kind q = ''noul''"
    define p where "p = (case last_value (zip (sq_keys q) ps) ''true'' of None \<Rightarrow> 0 | Some p \<Rightarrow> p)"
    have "0 \<le> p \<and> p \<le> 1"
    proof (cases "last_value (zip (sq_keys q) ps) ''true''")
      case (Some x)
      then have "(''true'', x) \<in> set (zip (sq_keys q) ps)" by (auto simp: last_value_def dest: map_of_SomeD)
      then have "x \<in> set ps" by (rule set_zip_rightD)
      then show ?thesis using S(2) Some by (simp add: p_def unit_values_def)
    qed (simp add: p_def)
    moreover have "p = ps ! i" if "distinct (sq_keys q)" "i < ?n" "sq_keys q ! i = ''true''" for i
    proof -
      have "(''true'', ps ! i) \<in> set (zip (sq_keys q) ps)" unfolding set_zip using that S(1) by (auto intro!: exI [of _ i])
      moreover have "distinct (map fst (rev (zip (sq_keys q) ps)))" using that(1) S(1) by (simp flip: rev_map)
      ultimately have "last_value (zip (sq_keys q) ps) ''true'' = Some (ps ! i)" by (simp add: last_value_def)
      then show ?thesis by (simp add: p_def)
    qed
    ultimately show ?thesis using noul [OF k, unfolded ps'] k by (simp add: exact_answer_def p_def [symmetric])
  next
    assume k: "sq_kind q = ''choice''"
    have "clamp real_ops (if ?n > 1 then (pk - 1 / ?n) / (1 - 1 / ?n) else 1) = (if ?n = 1 then 1 else max 0 ((ps ! w - 1 / ?n) / (1 - 1 / ?n)))"
    proof (cases "?n = 1")
      case False
      then have n: "1 < ?n" using pos by linarith
      then have "0 < 1 - 1 / real ?n" by (simp add: divide_less_eq)
      then have "(ps ! w - 1 / ?n) / (1 - 1 / ?n) \<le> 1" using nonneg [OF S(4)] by simp
      then show ?thesis using n first(2) by (simp add: clamp_le_1)
    qed (simp add: clamp_def)
    then show ?thesis using choice [OF k, unfolded ps'] k first(1) by (auto simp: exact_answer_def Let_def)
  next
    assume k: "sq_kind q = ''score''"
    let ?d = "\<Sum>j < ?n. ps ! j * \<bar>real j - real w\<bar>"
    have d: "0 \<le> ?d" by (rule sum_nonneg) (simp add: nonneg)
    have "clamp real_ops (1 - mode_distance real_ops ps w / (int ?n - 1)) = max 0 (1 - ?d / (real ?n - 1))" if "2 \<le> ?n"
    proof -
      have "0 \<le> ?d / (real ?n - 1)" using d that by simp
      then show ?thesis by (simp add: mode_distance_real clamp_le_1)
    qed
    moreover have b: "0 \<le> expectation 0 ps \<and> expectation 0 ps \<le> (real ?n - 1) * sum_list ps" by (rule expectation_bound [OF S(2)]) (use pos in simp)
    moreover have "(real ?n - 1) * sum_list ps \<le> (real ?n - 1) * (1 + 1 / 1000000000)"
      by (rule mult_left_mono) (use S(3) pos in linarith)+
    ultimately show ?thesis using score [OF k, unfolded ps'] k first(1)
      by (auto simp: exact_answer_def Let_def expectation_0)
  qed
  then show ?thesis using S by blast
qed

section \<open>The exact distribution reaches the answers\<close>

lemma candidate_results_real:
  "length cs = length ps \<Longrightarrow> unit_values ps \<Longrightarrow>
     \<exists>rs. candidate_results real_ops field winner i cs ps acc = Inr (rs, acc + sum_list ps) \<and>
       map cr_probability rs = ps \<and> map cr_value rs = map cand_value cs \<and>
       map cr_selected rs = map (\<lambda>j. int j = winner) [i..<i + length cs]"
proof (induction cs ps arbitrary: i acc rule: list_induct2)
  case (Cons c cs p ps)
  from Cons.IH [of "Suc i" "acc + p"] Cons.prems obtain rs where
    rs: "candidate_results real_ops field winner (Suc i) cs ps (acc + p) = Inr (rs, acc + p + sum_list ps)"
      "map cr_probability rs = ps" "map cr_value rs = map cand_value cs"
      "map cr_selected rs = map (\<lambda>j. int j = winner) [Suc i..<Suc i + length cs]"
    by (auto simp: unit_values_def)
  have upt: "[i..<i + length (c # cs)] = i # [Suc i..<Suc i + length cs]" by (simp add: upt_rec)
  have "\<not> p < 0" "\<not> 1 < p" using Cons.prems by (simp_all add: unit_values_def)
  with rs show ?case unfolding upt by (simp add: add.assoc)
qed simp

definition field_logits :: "(branch \<Rightarrow> real list) \<Rightarrow> compiled_field \<Rightarrow> real list list" where
  "field_logits lg cf = map lg (map (node_branch cf) (cf_nodes cf))"

lemma field_logits_shape:
  "(\<And>br. length (lg br) = length (br_candidates br)) \<Longrightarrow> logits_shape cf (field_logits lg cf)"
  by (simp add: field_logits_def logits_shape_def list_all2_conv_all_nth node_branch_def)

lemma exact_prob_nonneg:
  assumes "field_ok cf" "logits_shape cf logits" "i < length (cf_paths cf)"
  shows "0 \<le> exact_prob cf logits i"
  using exp_path_scores [OF assms] by (metis exp_ge_zero)

lemma exact_prob_unit:
  assumes "field_ok cf" "logits_shape cf logits"
  shows "unit_values (map (exact_prob cf logits) [0..<length (cf_paths cf)])"
    and "sum_list (map (exact_prob cf logits) [0..<length (cf_paths cf)]) = 1"
proof -
  have one: "(\<Sum>i < length (cf_paths cf). exact_prob cf logits i) = 1" by (rule exact_prob_sum [OF assms])
  then show "sum_list (map (exact_prob cf logits) [0..<length (cf_paths cf)]) = 1"
    by (simp add: interv_sum_list_conv_sum_set_nat atLeast0LessThan)
  have "exact_prob cf logits i \<le> 1" if "i < length (cf_paths cf)" for i
    unfolding one [symmetric] using that
    by (intro member_le_sum) (simp_all add: exact_prob_nonneg [OF assms])
  then show "unit_values (map (exact_prob cf logits) [0..<length (cf_paths cf)])"
    by (auto simp: unit_values_def exact_prob_nonneg [OF assms])
qed

text \<open>
  A tree field scored on exact arithmetic: its candidates carry the product distribution, its
  winner is the first most probable one, and the distribution checks accept it.
\<close>

lemma tree_state_exact:
  assumes "field_ok cf" "\<And>br. length (lg br) = length (br_candidates br)"
  obtains w where "w < length (cf_paths cf)"
    "tree_state real_ops lg cf = set_tree_result (newFieldState real_ops cf)
       (w, map (exact_prob cf (field_logits lg cf)) [0..<length (cf_paths cf)])"
    "\<forall>i < length (cf_paths cf). exact_prob cf (field_logits lg cf) i \<le> exact_prob cf (field_logits lg cf) w"
    "\<forall>i < w. exact_prob cf (field_logits lg cf) i < exact_prob cf (field_logits lg cf) w"
proof -
  from FinishTree_exact [OF assms(1) field_logits_shape [of lg, OF assms(2)]] obtain w where
    "FinishTree real_ops cf (field_logits lg cf) =
       Inr (w, map (exact_prob cf (field_logits lg cf)) [0..<length (cf_paths cf)])"
    "w < length (cf_paths cf)"
    "\<forall>i < length (cf_paths cf). exact_prob cf (field_logits lg cf) i \<le> exact_prob cf (field_logits lg cf) w"
    "\<forall>i < w. exact_prob cf (field_logits lg cf) i < exact_prob cf (field_logits lg cf) w" by blast
  then show thesis by (intro that [of w]) (simp_all add: tree_state_def field_logits_def)
qed

lemma assembleCandidateResults_exact:
  assumes "field_ok cf" "\<And>br. length (lg br) = length (br_candidates br)"
    and "length (fs_candidates field) = length (cf_paths cf)"
  shows "\<exists>rs. assembleCandidateResults real_ops field (tree_state real_ops lg cf) = Inr rs \<and>
    map cr_probability rs = map (exact_prob cf (field_logits lg cf)) [0..<length (cf_paths cf)] \<and>
    map cr_value rs = map cand_value (fs_candidates field)"
proof -
  let ?ps = "map (exact_prob cf (field_logits lg cf)) [0..<length (cf_paths cf)]"
  obtain w where st: "tree_state real_ops lg cf = set_tree_result (newFieldState real_ops cf) (w, ?ps)"
    by (rule tree_state_exact [OF assms(1,2)])
  note unit = exact_prob_unit [OF assms(1) field_logits_shape [of lg, OF assms(2)]]
  from candidate_results_real [OF _ unit(1), of "fs_candidates field" field "int w" 0 0] assms(3) unit(2)
  obtain rs where "candidate_results real_ops field (int w) 0 (fs_candidates field) ?ps 0 = Inr (rs, 1)"
    "map cr_probability rs = ?ps" "map cr_value rs = map cand_value (fs_candidates field)" by auto
  moreover have "?ps \<noteq> []" using assms(1) by (simp add: field_ok_def)
  ultimately show ?thesis using assms(3) by (simp add: assembleCandidateResults_def st set_tree_result_def)
qed

section \<open>The shape of a response\<close>

lemma system_answers_Inr:
  assumes "system_answers ops flds questions = Inr answers"
  shows "map fst answers = map sq_name questions"
    and "k < length questions \<Longrightarrow> systemOneAnswer ops (questions ! k)
      (case flds (sq_name (questions ! k)) of Some r \<Rightarrow> r | None \<Rightarrow> no_field_result ops) = Inr (snd (answers ! k))"
proof -
  note all = assms [unfolded system_answers_def res_map_Inr]
  have each: "fst (answers ! k) = sq_name (questions ! k) \<and> systemOneAnswer ops (questions ! k)
      (case flds (sq_name (questions ! k)) of Some r \<Rightarrow> r | None \<Rightarrow> no_field_result ops) = Inr (snd (answers ! k))"
    if "k < length questions" for k
    using list_all2_nthD [OF all that] by (auto simp: res_bind_Inr) (metis fst_conv snd_conv)+
  then show "map fst answers = map sq_name questions"
    using list_all2_lengthD [OF all] by (auto intro!: nth_equalityI)
  show "k < length questions \<Longrightarrow> systemOneAnswer ops (questions ! k)
      (case flds (sq_name (questions ! k)) of Some r \<Rightarrow> r | None \<Rightarrow> no_field_result ops) = Inr (snd (answers ! k))"
    using each by blast
qed

lemma SystemOne_Inr:
  assumes "SystemOne ops isprint ftext (Some e) request w = (Inr resp, w')"
  obtains schema questions state decision w1 w2 item where
    "compileSystemOne isprint request = Inr (schema, questions, state)"
    "decide ops isprint (Some e) (decision_request request schema state) (Some schema) w1 = (Inr decision, w2)"
    "rs_results decision = [item]"
    "system_answers ops (it_fields item) questions = Inr (sp_answers resp)"
    "sp_model resp = sr_model request" "sp_input_tokens resp = us_prompt_tokens (rs_usage decision)"
proof -
  obtain enc where enc: "en_tokenizer e = Some enc" and sc: "en_scorer e \<noteq> None"
    using assms by (cases "en_tokenizer e") (auto simp: SystemOne_def split: if_splits)
  let ?v = "case en_validator e of None \<Rightarrow> None
         | Some v \<Rightarrow> (case validateSystemOneText v (sr_state request) of Some x \<Rightarrow> Some x
             | None \<Rightarrow> validateSystemOneText v (sr_questions request))"
  from assms [unfolded SystemOne_def option.case enc if_not_P [OF sc] io_bind_Inr [of "io_get _"]] obtain err w1 where
    body: "(case err of Some x \<Rightarrow> io_lift (Inl x) | None \<Rightarrow> case ?v of Some x \<Rightarrow> io_lift (Inl x) | None \<Rightarrow>
       io_bind (io_lift (compileSystemOne isprint request)) (\<lambda>(schema, questions, state).
       io_bind (decide ops isprint (Some e) (decision_request request schema state) (Some schema)) (\<lambda>decision.
       io_lift (case rs_results decision of [] \<Rightarrow> Inl Panic | item # _ \<Rightarrow>
         res_bind (system_answers ops (it_fields item) questions) (\<lambda>answers.
         res_bind (marshal_answers ftext answers) (\<lambda>enctext. Inr
           \<lparr>sp_model = sr_model request, sp_answers = answers,
            sp_input_tokens = us_prompt_tokens (rs_usage decision),
            sp_output_tokens = length (enc enctext)\<rparr>)))))) w1 = (Inr resp, w')"
    by (auto split: if_splits)
  have "err = None" using body by (cases err) auto
  moreover from this body have "?v = None" by (cases ?v) auto
  ultimately obtain schema questions state where c: "compileSystemOne isprint request = Inr (schema, questions, state)"
    and rest: "io_bind (decide ops isprint (Some e) (decision_request request schema state) (Some schema)) (\<lambda>decision.
       io_lift (case rs_results decision of [] \<Rightarrow> Inl Panic | item # _ \<Rightarrow>
         res_bind (system_answers ops (it_fields item) questions) (\<lambda>answers.
         res_bind (marshal_answers ftext answers) (\<lambda>enctext. Inr
           \<lparr>sp_model = sr_model request, sp_answers = answers,
            sp_input_tokens = us_prompt_tokens (rs_usage decision),
            sp_output_tokens = length (enc enctext)\<rparr>)))) w1 = (Inr resp, w')"
    using body by (cases "compileSystemOne isprint request") auto
  from rest [unfolded io_bind_Inr] obtain decision w2 where
    d: "decide ops isprint (Some e) (decision_request request schema state) (Some schema) w1 = (Inr decision, w2)"
    and r: "(case rs_results decision of [] \<Rightarrow> Inl Panic | item # _ \<Rightarrow>
         res_bind (system_answers ops (it_fields item) questions) (\<lambda>answers.
         res_bind (marshal_answers ftext answers) (\<lambda>enctext. Inr
           \<lparr>sp_model = sr_model request, sp_answers = answers,
            sp_input_tokens = us_prompt_tokens (rs_usage decision),
            sp_output_tokens = length (enc enctext)\<rparr>))) = Inr resp"
    by (auto simp: io_lift_Inr)
  note ok = compileSystemOne_ok [OF c]
  have one: "length (rs_results decision) = 1"
    by (rule decide_items [OF d]) (use ok in \<open>auto simp: decision_request_def\<close>)
  then obtain item where "rs_results decision = [item]" by (auto simp: length_Suc_conv)
  with r c d show thesis by (auto simp: res_bind_Inr intro: that)
qed

section \<open>Where the answers come from\<close>

text \<open>The result of one field, made of its specification and its scored state.\<close>

definition field_result_of :: "'f fops \<Rightarrow> field_spec \<Rightarrow> 'f field_state \<Rightarrow> go_error + 'f field_result" where
  "field_result_of ops spec state = res_bind (assembleCandidateResults ops spec state) (\<lambda>rs.
     Inr \<lparr>fr_value = cand_value (fs_candidates spec ! nat (st_winner state)), fr_probability = st_path_score state,
       fr_candidates = rs, fr_scored_nodes = st_scored_nodes state, fr_tree = cf_tree (st_compiled state)\<rparr>)"

lemma assemble_fields_results:
  "assemble_fields ops flds states out = Inr item \<Longrightarrow> length states = length flds \<Longrightarrow> distinct (map fs_name flds) \<Longrightarrow>
    (\<forall>k < length flds. \<exists>fr. field_result_of ops (flds ! k) (states ! k) = Inr fr \<and> it_fields item (fs_name (flds ! k)) = Some fr) \<and>
    (\<forall>n. n \<notin> fs_name ` set flds \<longrightarrow> it_fields item n = it_fields out n)"
proof (induction flds arbitrary: states out)
  case (Cons f flds)
  obtain st sts where states: "states = st # sts" "length sts = length flds" using Cons.prems(2) by (cases states) auto
  obtain rs where rs: "assembleCandidateResults ops f st = Inr rs"
    using Cons.prems(1) by (auto simp: states res_bind_Inr Let_def split: if_splits)
  let ?fr = "\<lparr>fr_value = cand_value (fs_candidates f ! nat (st_winner st)), fr_probability = st_path_score st,
       fr_candidates = rs, fr_scored_nodes = st_scored_nodes st, fr_tree = cf_tree (st_compiled st)\<rparr>"
  have fr: "field_result_of ops f st = Inr ?fr" using rs by (simp add: field_result_of_def go_res)
  obtain out' where run: "assemble_fields ops flds sts out' = Inr item" and o: "it_fields out' = (it_fields out)(fs_name f \<mapsto> ?fr)"
    using Cons.prems(1) rs by (auto simp: states go_res Let_def split: if_splits)
  have d: "distinct (map fs_name flds)" "fs_name f \<notin> fs_name ` set flds" using Cons.prems(3) by auto
  note IH = Cons.IH [OF run states(2) d(1)]
  have "it_fields item (fs_name f) = Some ?fr" using IH d(2) o by simp
  then have "\<exists>x. field_result_of ops ((f # flds) ! k) (states ! k) = Inr x \<and> it_fields item (fs_name ((f # flds) ! k)) = Some x"
    if "k < length (f # flds)" for k
    using that IH fr by (cases k) (auto simp: states)
  then show ?case using IH o by simp
qed simp

lemma compile_fields_nth:
  "compile_fields enc mode treeMax inputs specs = Inr cfs \<Longrightarrow> k < length inputs \<Longrightarrow> CompileField (Some enc) (inputs ! k) mode treeMax = Inr (cfs ! k)"
proof (induction enc mode treeMax inputs specs arbitrary: cfs k rule: compile_fields.induct)
  case (2 enc mode treeMax input inputs specs)
  obtain cf where cf: "CompileField (Some enc) input mode treeMax = Inr cf" using "2.prems"(1) by (auto split: sum.splits if_splits)
  obtain rest where rest: "compile_fields enc mode treeMax inputs (tl specs) = Inr rest" "cfs = cf # rest"
    using "2.prems"(1) cf by (auto simp: res_bind_Inr)
  show ?case
  proof (cases k)
    case (Suc j)
    then show ?thesis using "2.IH" [OF cf rest(1)] "2.prems"(2) rest(2) by simp
  qed (simp add: cf rest(2))
qed simp

text \<open>
  The states are what scoring the only context of a request gave: state \<open>k\<close> is the scored state of the
  field that input \<open>k\<close> of the schema compiles to.
\<close>

definition scored_states ::
  "'f fops \<Rightarrow> (nat \<Rightarrow> bool) \<Rightarrow> ('w, 'f) engine \<Rightarrow> request \<Rightarrow> compiled_schema \<Rightarrow> 'f field_state list \<Rightarrow> bool" where
  "scored_states ops isprint e req schema states \<longleftrightarrow> length states = length (cs_fields schema) \<and>
     (\<exists>enc sc pr ctx i packed rounds v v'. en_tokenizer e = Some enc \<and> en_scorer e = Some sc \<and>
        prepare isprint enc (en_validator e) (en_bos e) req (Some schema) = Inr pr \<and>
        encode_contexts enc (length (pr_shared pr)) 0 (req_contexts (pr_request pr)) = Inr [ctx] \<and>
        context_states ops sc pr i ctx packed v = (Inr (states, rounds), v') \<and>
        (\<forall>k < length (cs_inputs schema). CompileField (Some enc) (cs_inputs schema ! k) (req_mode (pr_request pr)) (req_tree_max (pr_request pr)) =
           Inr (st_compiled (states ! k))))"

lemma decide_one_context:
  assumes "decide ops isprint (Some e) req (Some schema) w = (Inr response, w')" "rs_results response = [item]"
    and "distinct (map fs_name (cs_fields schema))" "length (cs_inputs schema) = length (cs_fields schema)"
  obtains states where "scored_states ops isprint e req schema states"
    "\<forall>k < length (cs_fields schema). \<exists>fr. field_result_of ops (cs_fields schema ! k) (states ! k) = Inr fr \<and>
       it_fields item (fs_name (cs_fields schema ! k)) = Some fr"
proof (rule decide_Inr [OF assms(1)])
  fix enc sc pr contexts packed items
  assume es: "en_tokenizer e = Some enc" "en_scorer e = Some sc"
    and prep: "prepare isprint enc (en_validator e) (en_bos e) req (Some schema) = Inr pr"
    and ctxs: "encode_contexts enc (length (pr_shared pr)) 0 (req_contexts (pr_request pr)) = Inr contexts"
    and items: "\<exists>w1 w2. score_contexts ops sc pr packed 0 contexts w1 = (Inr items, w2)"
    and resp: "\<exists>created t1 t2 t3. response = build_response ops pr created items t1 t2 t3"
  note P = prepare_Inr [OF prep]
  have sch: "pr_schema pr = schema" by (rule P(3)) simp
  note comp = P(4) [unfolded sch]
  obtain w1 w2 where "score_contexts ops sc pr packed 0 contexts w1 = (Inr items, w2)" using items by blast
  note all = score_contexts_Inr [OF this]
  have "map fst items = [item]" using resp assms(2) by (auto simp: build_response_def Let_def)
  then obtain rounds where it: "items = [(item, rounds)]" by (cases items) auto
  then obtain ctx where ctx: "contexts = [ctx]" using all by (auto simp: list_all2_Cons2)
  obtain states i v1 v2 where
    cs: "context_states ops sc pr i ctx (map_option (\<lambda>p. p ! i) packed) v1 = (Inr (states, rounds), v2)"
    and ar: "assembleResult ops schema states (length ctx) = Inr item"
    using all unfolding it ctx sch by auto
  note ok = compile_fields_ok [OF comp]
  have st: "map st_compiled states = pr_fields pr" by (rule context_states_compiled [OF cs ok(1)])
  then have len: "length states = length (cs_fields schema)" using ok(2) assms(4) by (metis length_map)
  have "CompileField (Some enc) (cs_inputs schema ! k) (req_mode (pr_request pr)) (req_tree_max (pr_request pr)) = Inr (st_compiled (states ! k))"
    if "k < length (cs_inputs schema)" for k
    using compile_fields_nth [OF comp that] st len that assms(4) by (metis nth_map)
  then have scored: "scored_states ops isprint e req schema states"
    unfolding scored_states_def using es prep ctxs [unfolded ctx] cs len by blast
  obtain out where out: "assemble_fields ops (cs_fields schema) states
       \<lparr>it_decision = Map.empty, it_fields = Map.empty, it_context_tokens = 0, it_scored_rows = 0\<rparr> = Inr out" "it_fields item = it_fields out"
    using ar by (auto simp: assembleResult_def res_bind_Inr)
  show thesis
    by (rule that [OF scored]) (use assemble_fields_results [OF out(1) len assms(3)] out(2) in simp)
qed

end
