(* ===== verification/Http.thy ===== *)
theory Http
  imports SystemOneFacts
begin

text \<open>
  \<open>model/gosystemone/http.go\<close> and \<open>internal/httpinput/json.go\<close>: bounded decoding of a request
  body, the mapping of outcomes to status codes, and the admission gate that the two routes
  and the \<open>Busy\<close> probe share. The body is what the connection delivers; the size limit cuts it
  the way \<open>http.MaxBytesReader\<close> does.
\<close>

section \<open>Incomplete documents\<close>

text \<open>
  The decoder's byte scanner, to tell a document that is wrong from one that the size limit
  cut short.
\<close>

datatype scan_state = BeginValue | BeginValueOrEmpty | BeginString | BeginStringOrEmpty
  | InString | InEscape | InHex nat | AfterMinus | Digits | AfterZero | AfterDot | Fraction
  | AfterExp | AfterExpSign | Exponent | Literal string | EndValue

datatype frame = InArray | InKey | InObjectValue

definition end_value :: "frame list \<Rightarrow> char \<Rightarrow> (scan_state \<times> frame list) option" where
  "end_value stack c =
     (if is_ws c then Some (EndValue, stack)
      else case stack of [] \<Rightarrow> None
      | f # fs \<Rightarrow> (case f of
          InKey \<Rightarrow> if c = CHR '':'' then Some (BeginValue, InObjectValue # fs) else None
        | InObjectValue \<Rightarrow> if c = CHR '','' then Some (BeginString, InKey # fs)
            else if c = CHR ''}'' then Some (EndValue, fs) else None
        | InArray \<Rightarrow> if c = CHR '','' then Some (BeginValue, stack)
            else if c = CHR '']'' then Some (EndValue, fs) else None))"

definition begin_value :: "frame list \<Rightarrow> char \<Rightarrow> (scan_state \<times> frame list) option" where
  "begin_value stack c =
     (if is_ws c then Some (BeginValue, stack)
      else if c = CHR ''{'' then Some (BeginStringOrEmpty, InKey # stack)
      else if c = CHR ''['' then Some (BeginValueOrEmpty, InArray # stack)
      else if c = dquote then Some (InString, stack)
      else if c = CHR ''-'' then Some (AfterMinus, stack)
      else if c = CHR ''0'' then Some (AfterZero, stack)
      else if is_digit c then Some (Digits, stack)
      else if c = CHR ''t'' then Some (Literal ''rue'', stack)
      else if c = CHR ''f'' then Some (Literal ''alse'', stack)
      else if c = CHR ''n'' then Some (Literal ''ull'', stack)
      else None)"

definition scan_step :: "scan_state \<times> frame list \<Rightarrow> char \<Rightarrow> (scan_state \<times> frame list) option" where
  "scan_step st c = (case st of (s, stack) \<Rightarrow> (case s of
     BeginValue \<Rightarrow> begin_value stack c
   | BeginValueOrEmpty \<Rightarrow> if is_ws c then Some (BeginValueOrEmpty, stack)
       else if c = CHR '']'' then Some (EndValue, tl stack) else begin_value stack c
   | BeginString \<Rightarrow> if is_ws c then Some (BeginString, stack)
       else if c = dquote then Some (InString, stack) else None
   | BeginStringOrEmpty \<Rightarrow> if is_ws c then Some (BeginStringOrEmpty, stack)
       else if c = CHR ''}'' then Some (EndValue, tl stack)
       else if c = dquote then Some (InString, stack) else None
   | InString \<Rightarrow> if c = dquote then Some (EndValue, stack)
       else if c = backslash then Some (InEscape, stack)
       else if byte c < 32 then None else Some (InString, stack)
   | InEscape \<Rightarrow> if c \<in> {CHR ''b'', CHR ''f'', CHR ''n'', CHR ''r'', CHR ''t'', backslash, CHR ''/'', dquote}
       then Some (InString, stack) else if c = CHR ''u'' then Some (InHex 4, stack) else None
   | InHex n \<Rightarrow> if hex_value c = None then None
       else if n \<le> 1 then Some (InString, stack) else Some (InHex (n - 1), stack)
   | AfterMinus \<Rightarrow> if c = CHR ''0'' then Some (AfterZero, stack)
       else if is_digit c then Some (Digits, stack) else None
   | Digits \<Rightarrow> if is_digit c then Some (Digits, stack)
       else if c = CHR ''.'' then Some (AfterDot, stack)
       else if c = CHR ''e'' \<or> c = CHR ''E'' then Some (AfterExp, stack) else end_value stack c
   | AfterZero \<Rightarrow> if c = CHR ''.'' then Some (AfterDot, stack)
       else if c = CHR ''e'' \<or> c = CHR ''E'' then Some (AfterExp, stack) else end_value stack c
   | AfterDot \<Rightarrow> if is_digit c then Some (Fraction, stack) else None
   | Fraction \<Rightarrow> if is_digit c then Some (Fraction, stack)
       else if c = CHR ''e'' \<or> c = CHR ''E'' then Some (AfterExp, stack) else end_value stack c
   | AfterExp \<Rightarrow> if c = CHR ''+'' \<or> c = CHR ''-'' then Some (AfterExpSign, stack)
       else if is_digit c then Some (Exponent, stack) else None
   | AfterExpSign \<Rightarrow> if is_digit c then Some (Exponent, stack) else None
   | Exponent \<Rightarrow> if is_digit c then Some (Exponent, stack) else end_value stack c
   | Literal ls \<Rightarrow> (case ls of [] \<Rightarrow> end_value stack c
       | l # ls' \<Rightarrow> if c = l then Some (if ls' = [] then EndValue else Literal ls', stack) else None)
   | EndValue \<Rightarrow> end_value stack c))"

fun scan_all :: "scan_state \<times> frame list \<Rightarrow> string \<Rightarrow> bool" where
  "scan_all st [] = True"
| "scan_all st (c # s) = (case scan_step st c of None \<Rightarrow> False | Some st' \<Rightarrow> scan_all st' s)"

text \<open>No byte of \<open>s\<close> is wrong: when \<open>s\<close> holds no complete value, the decoder reads on.\<close>

definition wants_more :: "string \<Rightarrow> bool" where
  "wants_more s \<longleftrightarrow> scan_all (BeginValue, []) s"

section \<open>Bounded single-document decoding\<close>

definition MaxBytesError :: string where "MaxBytesError = ''http: request body too large''"

definition max_bytes_error :: go_error where
  "max_bytes_error = Sentinel MaxBytesError"

definition is_number :: "json \<Rightarrow> bool" where
  "is_number v = (case v of JNum _ \<Rightarrow> True | _ \<Rightarrow> False)"

text \<open>The next value of the decoder. \<open>over\<close>: the body goes on beyond the limit.\<close>

definition next_value :: "bool \<Rightarrow> string \<Rightarrow> go_error + (string \<times> json \<times> string)" where
  "next_value over s = (case json_first s of
     Some (raw, v, r) \<Rightarrow> if over \<and> r = [] \<and> is_number v then Inl max_bytes_error else Inr (raw, v, r)
   | None \<Rightarrow> if over \<and> wants_more s then Inl max_bytes_error else Inl json_error)"

definition DecodeJSON ::
  "(string \<Rightarrow> json \<Rightarrow> go_error + 'a) \<Rightarrow> int \<Rightarrow> string \<Rightarrow> go_error + 'a" where
  "DecodeJSON decode limit body =
     (if limit \<le> 0 then Inl (Errorf ''invalid JSON body limit'' [])
      else let over = int (length body) > limit; avail = take (nat limit) body in
        res_bind (next_value over avail) (\<lambda>(raw, v, r).
        res_bind (decode raw v) (\<lambda>x.
          if skip_ws r = [] then (if over then Inl max_bytes_error else Inr x)
          else case next_value over r of Inl e \<Rightarrow> Inl e
            | Inr _ \<Rightarrow> Inl (Errorf ''expected a single JSON value'' []))))"

definition ErrorStatus :: "go_error \<Rightarrow> nat" where
  "ErrorStatus e = (if errors_is e MaxBytesError then 413 else 400)"

section \<open>Decoding a decision request\<close>

text \<open>The elements of a slice of strings. A \<open>null\<close> element keeps what the backing array holds,
  which an earlier member of the same name may have left.\<close>

fun decode_strings :: "string list \<Rightarrow> json list \<Rightarrow> string list option" where
  "decode_strings old [] = Some []"
| "decode_strings old (v # vs) =
     (case decode_string (case old of [] \<Rightarrow> [] | x # _ \<Rightarrow> x) v of None \<Rightarrow> None
      | Some s \<Rightarrow> map_option ((#) s) (decode_strings (tl old) vs))"

definition decode_int :: "string \<Rightarrow> int option" where
  "decode_int lit =
     (let neg = (lit \<noteq> [] \<and> hd lit = CHR ''-''); ds = (if neg then tl lit else lit);
          n = int (digits_value ds); x = (if neg then - n else n)
      in if list_all is_digit ds \<and> in_int64 x then Some x else None)"

record decode_state =
  ds_request :: request
  ds_backing :: "string list"

definition set_request_field :: "string \<Rightarrow> string \<Rightarrow> json \<Rightarrow> decode_state \<Rightarrow> decode_state option" where
  "set_request_field k raw v d =
     (let n = fold_name k; r = ds_request d in
      if n = ''model'' then map_option (\<lambda>s. d\<lparr>ds_request := r\<lparr>req_model := s\<rparr>\<rparr>) (decode_string (req_model r) v)
      else if n = ''instructions''
      then map_option (\<lambda>s. d\<lparr>ds_request := r\<lparr>req_instructions := s\<rparr>\<rparr>) (decode_string (req_instructions r) v)
      else if n = ''schema'' then Some (d\<lparr>ds_request := r\<lparr>req_schema := raw\<rparr>\<rparr>)
      else if n = ''contexts'' then (case v of
          JNull \<Rightarrow> Some (d\<lparr>ds_request := r\<lparr>req_contexts := []\<rparr>, ds_backing := []\<rparr>)
        | JArr es \<Rightarrow> map_option (\<lambda>cs. d\<lparr>ds_request := r\<lparr>req_contexts := cs\<rparr>,
              ds_backing := (if cs = [] then [] else cs @ drop (length cs) (ds_backing d))\<rparr>)
            (decode_strings (ds_backing d) (map snd es))
        | _ \<Rightarrow> None)
      else if n = ''mode'' then map_option (\<lambda>s. d\<lparr>ds_request := r\<lparr>req_mode := s\<rparr>\<rparr>) (decode_string (req_mode r) v)
      else if n = ''tree_max'' then (case v of JNull \<Rightarrow> Some d
        | JNum l \<Rightarrow> map_option (\<lambda>i. d\<lparr>ds_request := r\<lparr>req_tree_max := i\<rparr>\<rparr>) (decode_int l)
        | _ \<Rightarrow> None)
      else if n = ''cache_prompt'' then (case v of
          JNull \<Rightarrow> Some (d\<lparr>ds_request := r\<lparr>req_cache_prompt := None\<rparr>\<rparr>)
        | JBool b \<Rightarrow> Some (d\<lparr>ds_request := r\<lparr>req_cache_prompt := Some b\<rparr>\<rparr>)
        | _ \<Rightarrow> None)
      else None)"

fun set_request_fields :: "(string \<times> string \<times> json) list \<Rightarrow> decode_state \<Rightarrow> decode_state option" where
  "set_request_fields [] d = Some d"
| "set_request_fields ((k, raw, v) # ms) d =
     (case set_request_field k raw v d of None \<Rightarrow> None | Some d' \<Rightarrow> set_request_fields ms d')"

definition request_zero :: request where
  "request_zero = \<lparr>req_model = [], req_instructions = [], req_schema = [], req_contexts = [], req_mode = [],
     req_tree_max = 0, req_cache_prompt = None\<rparr>"

definition decode_request :: "string \<Rightarrow> json \<Rightarrow> go_error + request" where
  "decode_request raw v = (case v of
     JNull \<Rightarrow> Inr request_zero
   | JObj ms \<Rightarrow> (case set_request_fields ms \<lparr>ds_request = request_zero, ds_backing = []\<rparr> of
       None \<Rightarrow> Inl json_error | Some d \<Rightarrow> Inr (ds_request d))
   | _ \<Rightarrow> Inl json_error)"

section \<open>Serving one request\<close>

definition MaxRequestBytes :: int where "MaxRequestBytes = 1048576"

definition ErrBusy :: string where "ErrBusy = ''decision inference busy; retry later''"

definition ErrGemma4ContextCapacity :: string where
  "ErrGemma4ContextCapacity = ''NVIDIA decision context exceeds capacity''"

definition Canceled :: string where "Canceled = ''context canceled''"
definition DeadlineExceeded :: string where "DeadlineExceeded = ''context deadline exceeded''"

record ('w, 'f) handler =
  hd_engine :: "('w, 'f) engine option"
  hd_model :: string

record http_request =
  hr_method :: string
  hr_body :: string

datatype 'f http_body = ErrorText string | ErrorOf string go_error | DecisionBody "'f response"
  | SystemOneBody "'f system_response"

type_synonym 'f http_reply = "nat \<times> 'f http_body"

definition error_reply_status :: "go_error \<Rightarrow> nat" where
  "error_reply_status e =
     (if errors_is e Canceled \<or> errors_is e DeadlineExceeded then 408
      else if errors_is e ErrGemma4ContextCapacity then 422 else 400)"

text \<open>Running the engine on a decoded request; both routes.\<close>

definition run_engine ::
  "'f fops \<Rightarrow> (nat \<Rightarrow> bool) \<Rightarrow> ('f \<Rightarrow> string option) \<Rightarrow> ('w, 'f) handler \<Rightarrow> request + system_request \<Rightarrow> 'w \<Rightarrow>
     'f http_reply \<times> 'w" where
  "run_engine ops isprint ftext h target w =
     (let modelID = (case target of Inl r \<Rightarrow> req_model r | Inr t \<Rightarrow> sr_model t) in
      if hd_engine h = None \<or> hd_model h = [] then ((503, ErrorText ''decision engine is not configured''), w)
      else if modelID \<noteq> [] \<and> modelID \<noteq> hd_model h then ((400, ErrorText ''unknown model''), w)
      else case target of
        Inl r \<Rightarrow> (case Decide ops isprint (hd_engine h) (r\<lparr>req_model := hd_model h\<rparr>) w of
            (Inl e, w') \<Rightarrow> ((error_reply_status e, ErrorOf [] e), w')
          | (Inr resp, w') \<Rightarrow> ((200, DecisionBody resp), w'))
      | Inr t \<Rightarrow> (case SystemOne ops isprint ftext (hd_engine h) (t\<lparr>sr_model := hd_model h\<rparr>) w of
            (Inl e, w') \<Rightarrow> ((error_reply_status e, ErrorOf [] e), w')
          | (Inr resp, w') \<Rightarrow> ((200, SystemOneBody resp), w')))"

definition decode_target :: "bool \<Rightarrow> string \<Rightarrow> go_error + (request + system_request)" where
  "decode_target systemOne body =
     (if systemOne
      then res_bind (DecodeJSON (\<lambda>raw v. UnmarshalJSON raw) MaxRequestBytes body) (\<lambda>t. Inr (Inr t))
      else res_bind (DecodeJSON decode_request MaxRequestBytes body) (\<lambda>r. Inr (Inl r)))"

text \<open>The part of \<open>serve\<close> that runs while the gate is held.\<close>

definition serve_locked ::
  "'f fops \<Rightarrow> (nat \<Rightarrow> bool) \<Rightarrow> ('f \<Rightarrow> string option) \<Rightarrow> ('w, 'f) handler \<Rightarrow> ('w \<Rightarrow> go_error option \<times> 'w) \<Rightarrow>
     bool \<Rightarrow> http_request \<Rightarrow> 'w \<Rightarrow> 'f http_reply \<times> 'w" where
  "serve_locked ops isprint ftext h ctx_err systemOne rq w =
     (case ctx_err w of (Some e, w1) \<Rightarrow> ((408, ErrorOf [] e), w1)
      | (None, w1) \<Rightarrow> (case decode_target systemOne (hr_body rq) of
          Inl e \<Rightarrow> ((ErrorStatus e, ErrorOf ''bad request: '' e), w1)
        | Inr target \<Rightarrow> run_engine ops isprint ftext h target w1))"

text \<open>The whole handler as one request sees it: \<open>locked\<close> is what \<open>TryLock\<close> finds.\<close>

definition serve ::
  "'f fops \<Rightarrow> (nat \<Rightarrow> bool) \<Rightarrow> ('f \<Rightarrow> string option) \<Rightarrow> ('w, 'f) handler \<Rightarrow> ('w \<Rightarrow> go_error option \<times> 'w) \<Rightarrow>
     bool \<Rightarrow> bool \<Rightarrow> http_request \<Rightarrow> 'w \<Rightarrow> 'f http_reply \<times> 'w" where
  "serve ops isprint ftext h ctx_err locked systemOne rq w =
     (if hr_method rq \<noteq> ''POST'' then ((405, ErrorText ''Method Not Allowed''), w)
      else if locked then ((429, ErrorText ErrBusy), w)
      else serve_locked ops isprint ftext h ctx_err systemOne rq w)"

definition ServeHTTP where
  "ServeHTTP ops isprint ftext h ctx_err locked rq w = serve ops isprint ftext h ctx_err locked False rq w"

definition ServeSystemOne where
  "ServeSystemOne ops isprint ftext h ctx_err locked rq w = serve ops isprint ftext h ctx_err locked True rq w"

end
