(* ===== verification/Gate.thy ===== *)
theory Gate
  imports Http
begin

text \<open>
  Facts about the HTTP layer, and its concurrency: the admission gate (one mutex, taken with
  \<open>TryLock\<close>) under interleaved requests and \<open>Busy\<close> probes.
\<close>

section \<open>Status codes\<close>

lemma DecodeJSON_Inr:
  "DecodeJSON decode limit body = Inr x \<longleftrightarrow> 0 < limit \<and> int (length body) \<le> limit \<and>
     (\<exists>raw v r. json_first body = Some (raw, v, r) \<and> decode raw v = Inr x \<and> skip_ws r = [])"
  (is "?l \<longleftrightarrow> ?r")
proof
  assume l: ?l
  then have limit: "0 < limit" by (auto simp: DecodeJSON_def split: if_splits)
  from l limit obtain raw v r where nv: "next_value (int (length body) > limit) (take (nat limit) body) = Inr (raw, v, r)"
    and d: "decode raw v = Inr x" and ws: "skip_ws r = []" and len: "int (length body) \<le> limit"
    by (auto simp: DecodeJSON_def Let_def go_res split: if_splits sum.splits)
  from len limit have "take (nat limit) body = body" by simp
  with nv have "json_first body = Some (raw, v, r)"
    by (auto simp: next_value_def split: option.splits if_splits)
  with limit len d ws show ?r by blast
next
  assume ?r
  then obtain raw v r where *: "0 < limit" "int (length body) \<le> limit"
    "json_first body = Some (raw, v, r)" "decode raw v = Inr x" "skip_ws r = []" by blast
  then have "take (nat limit) body = body" by simp
  with * show ?l by (simp add: DecodeJSON_def next_value_def Let_def)
qed

lemma decide_model:
  assumes "decide ops isprint eo request compiled w = (Inr resp, w')"
  shows "rs_model resp = req_model request \<and> rs_object resp = ''decision''"
proof -
  obtain e where eo: "eo = Some e" using assms by (cases eo) (auto simp: decide_def)
  show ?thesis
  proof (rule decide_Inr [OF assms [unfolded eo]])
    fix enc sc pr contexts packed items
    assume prep: "prepare isprint enc (en_validator e) (en_bos e) request compiled = Inr pr"
      and "\<exists>created t1 t2 t3. resp = build_response ops pr created items t1 t2 t3"
    with NormalizeAndValidate_contexts [OF prepare_Inr(1) [OF prep]]
    show "rs_model resp = req_model request \<and> rs_object resp = ''decision''"
      by (auto simp: build_response_def Let_def)
  qed
qed

lemma serve_locked_status:
  "fst (fst (serve_locked ops isprint ftext h ctx_err systemOne rq w)) \<in> {200, 400, 408, 413, 422, 503}"
  by (auto simp: serve_locked_def run_engine_def ErrorStatus_def error_reply_status_def Let_def
      split: prod.splits option.splits sum.splits)

lemma serve_status:
  "fst (fst (serve ops isprint ftext h ctx_err lk systemOne rq w)) \<in> {200, 400, 405, 408, 413, 422, 429, 503}"
  using serve_locked_status [of ops isprint ftext h ctx_err systemOne rq w] by (auto simp: serve_def)

lemma serve_429_iff:
  "fst (fst (serve ops isprint ftext h ctx_err lk systemOne rq w)) = 429 \<longleftrightarrow> hr_method rq = ''POST'' \<and> lk"
  using serve_locked_status [of ops isprint ftext h ctx_err systemOne rq w] by (auto simp: serve_def)

lemma serve_405_iff:
  "fst (fst (serve ops isprint ftext h ctx_err lk systemOne rq w)) = 405 \<longleftrightarrow> hr_method rq \<noteq> ''POST''"
  using serve_locked_status [of ops isprint ftext h ctx_err systemOne rq w] by (auto simp: serve_def)

lemma serve_refused_no_effect:
  "hr_method rq \<noteq> ''POST'' \<or> lk \<Longrightarrow> snd (serve ops isprint ftext h ctx_err lk systemOne rq w) = w"
  by (auto simp: serve_def)

text \<open>A reply of 200 means the request was admitted, decoded whole under the limit, addressed to
  the served model, and answered by the engine for that model.\<close>

lemma serve_200_decision:
  assumes "serve ops isprint ftext h ctx_err lk False rq w = ((200, b), w')"
  shows "hr_method rq = ''POST'' \<and> \<not> lk \<and> int (length (hr_body rq)) \<le> MaxRequestBytes \<and>
    (\<exists>raw v r request resp w1. json_first (hr_body rq) = Some (raw, v, r) \<and> skip_ws r = [] \<and>
       decode_request raw v = Inr request \<and> (req_model request = [] \<or> req_model request = hd_model h) \<and>
       Decide ops isprint (hd_engine h) (request\<lparr>req_model := hd_model h\<rparr>) w1 = (Inr resp, w') \<and>
       b = DecisionBody resp \<and> rs_model resp = hd_model h)"
proof -
  from assms have adm: "hr_method rq = ''POST''" "\<not> lk"
    and sl: "serve_locked ops isprint ftext h ctx_err False rq w = ((200, b), w')"
    by (auto simp: serve_def split: if_splits)
  from sl obtain w1 target where dt: "decode_target False (hr_body rq) = Inr target"
    and run: "run_engine ops isprint ftext h target w1 = ((200, b), w')"
    by (auto simp: serve_locked_def ErrorStatus_def split: prod.splits option.splits sum.splits if_splits)
  from dt obtain request where req: "DecodeJSON decode_request MaxRequestBytes (hr_body rq) = Inr request"
    and target: "target = Inl request" by (auto simp: decode_target_def go_res)
  from run target obtain resp where resp: "req_model request = [] \<or> req_model request = hd_model h"
    "Decide ops isprint (hd_engine h) (request\<lparr>req_model := hd_model h\<rparr>) w1 = (Inr resp, w')" "b = DecisionBody resp"
    by (auto simp: run_engine_def Let_def error_reply_status_def split: if_splits prod.splits sum.splits)
  from decide_model [OF resp(2) [unfolded Decide_def]] have "rs_model resp = hd_model h" by simp
  with adm req [unfolded DecodeJSON_Inr] resp show ?thesis by blast
qed

section \<open>The gate\<close>

datatype client_pc = Outside | Serving | Probing

datatype client_event = Admitted | Rejected | Finished | ReportedFree | ReportedBusy

record gate_state =
  locked :: bool
  pcs :: "nat \<Rightarrow> client_pc"
  events :: "(nat \<times> client_event) list"

definition TryLock :: "gate_state \<Rightarrow> bool \<times> gate_state" where
  "TryLock g = (if locked g then (False, g) else (True, g\<lparr>locked := True\<rparr>))"

text \<open>Unlocking an unlocked mutex is a fatal error.\<close>

definition Unlock :: "gate_state \<Rightarrow> gate_state option" where
  "Unlock g = (if locked g then Some (g\<lparr>locked := False\<rparr>) else None)"

definition goto :: "nat \<Rightarrow> client_pc \<Rightarrow> gate_state \<Rightarrow> gate_state" where
  "goto i pc g = g\<lparr>pcs := (pcs g)(i := pc)\<rparr>"

definition emit :: "nat \<Rightarrow> client_event \<Rightarrow> gate_state \<Rightarrow> gate_state" where
  "emit i ev g = g\<lparr>events := events g @ [(i, ev)]\<rparr>"

definition gate_init :: gate_state where
  "gate_init = \<lparr>locked = False, pcs = (\<lambda>_. Outside), events = []\<rparr>"

text \<open>
  One atomic step of one goroutine: a request (\<open>serve\<close>, whose body runs between \<open>admit\<close> and
  \<open>finish\<close>) or a probe (\<open>Busy\<close>, which takes the gate and gives it back at once).
\<close>

inductive gate_step :: "gate_state \<Rightarrow> gate_state \<Rightarrow> bool" where
  admit: "pcs g i = Outside \<Longrightarrow> TryLock g = (True, g') \<Longrightarrow>
    gate_step g (emit i Admitted (goto i Serving g'))"
| reject: "pcs g i = Outside \<Longrightarrow> TryLock g = (False, g') \<Longrightarrow> gate_step g (emit i Rejected g')"
| finish: "pcs g i = Serving \<Longrightarrow> Unlock g = Some g' \<Longrightarrow>
    gate_step g (emit i Finished (goto i Outside g'))"
| probe: "pcs g i = Outside \<Longrightarrow> TryLock g = (True, g') \<Longrightarrow> gate_step g (goto i Probing g')"
| probe_free: "pcs g i = Probing \<Longrightarrow> Unlock g = Some g' \<Longrightarrow>
    gate_step g (emit i ReportedFree (goto i Outside g'))"
| probe_busy: "pcs g i = Outside \<Longrightarrow> TryLock g = (False, g') \<Longrightarrow> gate_step g (emit i ReportedBusy g')"

inductive_cases gate_stepE: "gate_step g g'"

inductive gate_reachable :: "gate_state \<Rightarrow> bool" where
  init: "gate_reachable gate_init"
| step: "gate_reachable g \<Longrightarrow> gate_step g g' \<Longrightarrow> gate_reachable g'"

definition gate_ok :: "gate_state \<Rightarrow> bool" where
  "gate_ok g \<longleftrightarrow> locked g = (\<exists>i. pcs g i \<noteq> Outside) \<and>
     (\<forall>i j. pcs g i \<noteq> Outside \<longrightarrow> pcs g j \<noteq> Outside \<longrightarrow> i = j)"

lemma gate_step_ok:
  assumes "gate_step g g'" "gate_ok g"
  shows "gate_ok g'"
  using assms(1)
proof (cases rule: gate_step.cases)
  case (finish i g1)
  have "\<forall>j. j \<noteq> i \<longrightarrow> pcs g j = Outside"
    using finish(2) assms(2) unfolding gate_ok_def by (metis client_pc.distinct(1))
  with finish show ?thesis by (auto simp: gate_ok_def Unlock_def goto_def emit_def split: if_splits)
next
  case (probe_free i g1)
  have "\<forall>j. j \<noteq> i \<longrightarrow> pcs g j = Outside"
    using probe_free(2) assms(2) unfolding gate_ok_def by (metis client_pc.distinct(3))
  with probe_free show ?thesis by (auto simp: gate_ok_def Unlock_def goto_def emit_def split: if_splits)
qed (use assms(2) in \<open>auto simp: gate_ok_def TryLock_def goto_def emit_def split: if_splits\<close>)

lemma gate_reachable_ok: "gate_reachable g \<Longrightarrow> gate_ok g"
proof (induction rule: gate_reachable.induct)
  case init
  then show ?case by (simp add: gate_ok_def gate_init_def)
next
  case (step g g')
  then show ?case using gate_step_ok by blast
qed

lemma gate_mutex: "gate_reachable g \<Longrightarrow> pcs g i \<noteq> Outside \<Longrightarrow> pcs g j \<noteq> Outside \<Longrightarrow> i = j"
  using gate_reachable_ok [of g] by (auto simp: gate_ok_def split: if_splits)

lemma gate_unlock_defined: "gate_reachable g \<Longrightarrow> pcs g i \<noteq> Outside \<Longrightarrow> Unlock g \<noteq> None"
  using gate_reachable_ok [of g] by (auto simp: gate_ok_def Unlock_def split: if_splits)

text \<open>Admissions alternate with the finishes of the admitted request.\<close>

definition count_ev :: "client_event \<Rightarrow> gate_state \<Rightarrow> nat" where
  "count_ev ev g = length (filter (\<lambda>e. snd e = ev) (events g))"

lemma gate_counts:
  "gate_reachable g \<Longrightarrow> count_ev Admitted g = count_ev Finished g + (if \<exists>i. pcs g i = Serving then 1 else 0)"
proof (induction rule: gate_reachable.induct)
  case init
  then show ?case by (simp add: count_ev_def gate_init_def)
next
  case (step g g')
  have ok: "gate_ok g" using step(1) by (rule gate_reachable_ok)
  from step(2) show ?case
  proof (cases rule: gate_step.cases)
    case (admit i g1)
    then have "\<forall>j. pcs g j \<noteq> Serving" using ok by (auto simp: TryLock_def gate_ok_def split: if_splits)
    with admit step(3) show ?thesis
      by (auto simp: TryLock_def goto_def emit_def count_ev_def split: if_splits)
  next
    case (finish i g1)
    then have "\<forall>j. j \<noteq> i \<longrightarrow> pcs g j \<noteq> Serving" using ok unfolding gate_ok_def by (metis client_pc.distinct(1,3))
    with finish step(3) show ?thesis
      by (auto simp: Unlock_def goto_def emit_def count_ev_def split: if_splits)
  next
    case (probe i g1)
    then have "\<forall>j. pcs g j \<noteq> Serving" using ok by (auto simp: TryLock_def gate_ok_def split: if_splits)
    with probe step(3) show ?thesis
      by (auto simp: TryLock_def goto_def emit_def count_ev_def split: if_splits)
  next
    case (probe_free i g1)
    then have "pcs g j \<noteq> Serving" for j
      using ok unfolding gate_ok_def by (metis client_pc.distinct(1,3,5))
    with probe_free step(3) show ?thesis
      by (auto simp: Unlock_def goto_def emit_def count_ev_def split: if_splits)
  qed (use step(3) in \<open>auto simp: TryLock_def emit_def count_ev_def split: if_splits\<close>)
qed

text \<open>
  \<open>Busy\<close> is not only about requests: while one probe holds the gate, a second probe reports
  busy and a request is rejected, although no request was ever admitted.
\<close>

definition probe_held :: gate_state where
  "probe_held = goto 0 Probing (gate_init\<lparr>locked := True\<rparr>)"

lemma busy_without_request:
  "\<exists>g. gate_reachable g \<and> (1, ReportedBusy) \<in> set (events g) \<and> (2, Rejected) \<in> set (events g) \<and>
     count_ev Admitted g = 0 \<and> (\<forall>i. pcs g i \<noteq> Serving)"
proof -
  let ?g2 = "emit 1 ReportedBusy probe_held"
  let ?g3 = "emit 2 Rejected ?g2"
  have "gate_step gate_init probe_held"
    unfolding probe_held_def by (rule probe) (simp_all add: gate_init_def TryLock_def)
  with gate_reachable.init have 1: "gate_reachable probe_held" by (rule gate_reachable.step)
  have "gate_step probe_held ?g2"
    by (rule probe_busy) (simp_all add: probe_held_def goto_def gate_init_def TryLock_def)
  with 1 have 2: "gate_reachable ?g2" by (rule gate_reachable.step)
  have "gate_step ?g2 ?g3"
    by (rule reject) (simp_all add: probe_held_def goto_def emit_def gate_init_def TryLock_def)
  with 2 have "gate_reachable ?g3" by (rule gate_reachable.step)
  then show ?thesis
    by (intro exI [of _ ?g3]) (simp add: probe_held_def goto_def emit_def gate_init_def count_ev_def)
qed

end
