(* ===== verification/Scheduler.thy ===== *)
theory Scheduler
  imports Floats "HOL-Library.Multiset"
begin

text \<open>
  \<open>runtime/inferencesched/scheduler.go\<close>: the decode/prefill scheduler. The unit of work is the
  \<open>Work\<close> interface, here a record of operations on a work handle that may change the world
  \<open>'w\<close>; a request context is a handle too, absent for the background context. An entry's
  pointer identity is its \<open>order\<close>, which \<open>Add\<close> never reuses. \<open>rn_closed\<close> is a history variable:
  the entries whose work was closed, in order.
\<close>

section \<open>Interfaces and state\<close>

definition ErrClosed :: go_error where "ErrClosed = Sentinel ''inferencesched: closed''"
definition ErrNilRequest :: go_error where "ErrNilRequest = Sentinel ''inferencesched: nil request''"
definition ErrNilWork :: go_error where "ErrNilWork = Sentinel ''inferencesched: nil work''"
definition ErrEmptyRequestID :: go_error where "ErrEmptyRequestID = Sentinel ''inferencesched: empty request id''"
definition ErrDuplicateID :: go_error where "ErrDuplicateID = Sentinel ''inferencesched: duplicate request id''"
definition ErrOverflow :: go_error where "ErrOverflow = Sentinel ''inferencesched: overflow''"
definition ErrInvalidProgress :: go_error where "ErrInvalidProgress = Sentinel ''inferencesched: invalid progress''"

record 'w work_ops =
  wk_remaining :: "nat \<Rightarrow> 'w \<Rightarrow> int \<times> 'w"
  wk_prefill :: "nat \<Rightarrow> int \<Rightarrow> 'w \<Rightarrow> (int \<times> go_error option) \<times> 'w"
  wk_decode :: "nat \<Rightarrow> int \<Rightarrow> 'w \<Rightarrow> (int \<times> go_error option) \<times> 'w"
  wk_finished :: "nat \<Rightarrow> 'w \<Rightarrow> bool \<times> 'w"
  wk_cancel :: "nat \<Rightarrow> 'w \<Rightarrow> 'w"
  wk_close :: "nat \<Rightarrow> 'w \<Rightarrow> go_error option \<times> 'w"
  wk_ctx_err :: "nat \<Rightarrow> 'w \<Rightarrow> go_error option \<times> 'w"

record sched_config =
  MaxActive :: int
  DecodeBudget :: int
  PrefillBudget :: int

definition Validate :: "sched_config \<Rightarrow> go_error option" where
  "Validate cfg =
     (if MaxActive cfg \<le> 0 then Some (Errorf ''inferencesched: max active must be positive'' [])
      else if DecodeBudget cfg < 0 then Some (Errorf ''inferencesched: decode budget must be non-negative'' [])
      else if PrefillBudget cfg < 0 then Some (Errorf ''inferencesched: prefill budget must be non-negative'' [])
      else None)"

record entry =
  ent_ctx :: "nat option"
  ent_id :: string
  ent_seq :: int
  ent_work :: nat
  ent_order :: int

record step_result =
  sr_id :: string
  sr_seq :: int
  sr_consumed :: int
  sr_emitted :: int
  sr_admitted :: bool
  sr_finished :: bool
  sr_canceled :: bool
  sr_err :: "go_error option"

record step_stats =
  ss_decode_budget :: int
  ss_prefill_budget :: int
  ss_decode_used :: int
  ss_prefill_used :: int
  ss_consumed :: int
  ss_emitted :: int
  ss_admitted :: nat
  ss_finished :: nat
  ss_canceled :: nat
  ss_errors :: nat
  ss_waiting :: nat
  ss_running :: nat

record sched =
  sd_cfg :: sched_config
  sd_closed :: bool
  sd_waiting :: "entry list"
  sd_running :: "entry list"
  sd_index :: "string \<rightharpoonup> int"
  sd_add_order :: int
  sd_decode_cursor :: int
  sd_prefill_cursor :: int

definition New :: "sched_config \<Rightarrow> go_error + sched" where
  "New cfg = (case Validate cfg of Some e \<Rightarrow> Inl e | None \<Rightarrow>
     Inr \<lparr>sd_cfg = cfg, sd_closed = False, sd_waiting = [], sd_running = [], sd_index = Map.empty,
          sd_add_order = 0, sd_decode_cursor = 0, sd_prefill_cursor = 0\<rparr>)"

section \<open>Adding\<close>

definition entryLess :: "entry \<Rightarrow> entry \<Rightarrow> bool" where
  "entryLess a b \<longleftrightarrow> (if ent_seq a \<noteq> ent_seq b then ent_seq a < ent_seq b else ent_order a < ent_order b)"

text \<open>\<open>sort.Search\<close>: the binary search of the standard library.\<close>

function sort_search :: "(nat \<Rightarrow> bool) \<Rightarrow> nat \<Rightarrow> nat \<Rightarrow> nat" where
  "sort_search f i j =
     (if i < j then
        (let h = (i + j) div 2 in if \<not> f h then sort_search f (Suc h) j else sort_search f i h)
      else i)"
  by pat_completeness auto
termination
  by (relation "measure (\<lambda>(f, i, j). j - i)") auto

declare sort_search.simps [simp del]

definition insertEntry :: "entry list \<Rightarrow> nat \<Rightarrow> entry \<Rightarrow> entry list" where
  "insertEntry dst pos ent = take pos dst @ [ent] @ drop pos dst"

definition max_uint :: int where "max_uint = 18446744073709551615"

definition Add ::
  "sched option \<Rightarrow> nat option \<Rightarrow> (string \<times> int) option \<Rightarrow> nat option \<Rightarrow> go_error + sched" where
  "Add so ctx req work = (case so of None \<Rightarrow> Inl (Errorf ''inferencesched: nil scheduler'' []) | Some s \<Rightarrow>
     case req of None \<Rightarrow> Inl ErrNilRequest | Some (i, seq) \<Rightarrow>
     case work of None \<Rightarrow> Inl ErrNilWork | Some wk \<Rightarrow>
     if i = [] then Inl ErrEmptyRequestID
     else if sd_closed s then Inl ErrClosed
     else if sd_index s i \<noteq> None then Inl (Wrapf ''%w: %s'' [AS i] ErrDuplicateID)
     else if sd_add_order s = max_uint then Inl ErrOverflow
     else
       let ent = \<lparr>ent_ctx = ctx, ent_id = i, ent_seq = seq, ent_work = wk, ent_order = sd_add_order s\<rparr>;
           pos = sort_search (\<lambda>k. entryLess ent (sd_waiting s ! k)) 0 (length (sd_waiting s))
       in Inr (s\<lparr>sd_add_order := sd_add_order s + 1, sd_index := (sd_index s)(i \<mapsto> ent_order ent),
                 sd_waiting := insertEntry (sd_waiting s) pos ent\<rparr>))"

section \<open>The step builder\<close>

definition saturatingAdd :: "int \<Rightarrow> int \<Rightarrow> int" where
  "saturatingAdd dst add = (if add \<le> 0 then dst else if dst > max_int64 - add then max_int64 else dst + add)"

record builder =
  bd_order :: "step_result list"
  bd_stats :: step_stats

definition new_result :: "entry \<Rightarrow> step_result" where
  "new_result ent = \<lparr>sr_id = ent_id ent, sr_seq = ent_seq ent, sr_consumed = 0, sr_emitted = 0,
     sr_admitted = False, sr_finished = False, sr_canceled = False, sr_err = None\<rparr>"

definition find_result :: "string \<Rightarrow> builder \<Rightarrow> step_result option" where
  "find_result i b = find (\<lambda>r. sr_id r = i) (bd_order b)"

text \<open>The result of an entry, appended when it is new.\<close>

definition result :: "entry \<Rightarrow> builder \<Rightarrow> step_result \<times> builder" where
  "result ent b = (case find_result (ent_id ent) b of
     Some r \<Rightarrow> (r, b)
   | None \<Rightarrow> (new_result ent, b\<lparr>bd_order := bd_order b @ [new_result ent]\<rparr>))"

definition put_result :: "step_result \<Rightarrow> builder \<Rightarrow> builder" where
  "put_result r b = b\<lparr>bd_order := map (\<lambda>q. if sr_id q = sr_id r then r else q) (bd_order b)\<rparr>"

definition markAdmitted :: "entry \<Rightarrow> builder \<Rightarrow> builder" where
  "markAdmitted ent b0 = (let (r, b) = result ent b0 in
     if \<not> sr_admitted r then put_result (r\<lparr>sr_admitted := True\<rparr>)
       (b\<lparr>bd_stats := (bd_stats b)\<lparr>ss_admitted := Suc (ss_admitted (bd_stats b))\<rparr>\<rparr>) else b)"

definition markFinished :: "entry \<Rightarrow> builder \<Rightarrow> builder" where
  "markFinished ent b0 = (let (r, b) = result ent b0 in
     if \<not> sr_finished r then put_result (r\<lparr>sr_finished := True\<rparr>)
       (b\<lparr>bd_stats := (bd_stats b)\<lparr>ss_finished := Suc (ss_finished (bd_stats b))\<rparr>\<rparr>) else b)"

definition markCanceled :: "entry \<Rightarrow> builder \<Rightarrow> builder" where
  "markCanceled ent b0 = (let (r, b) = result ent b0 in
     if \<not> sr_canceled r then put_result (r\<lparr>sr_canceled := True\<rparr>)
       (b\<lparr>bd_stats := (bd_stats b)\<lparr>ss_canceled := Suc (ss_canceled (bd_stats b))\<rparr>\<rparr>) else b)"

definition setError :: "entry \<Rightarrow> go_error \<Rightarrow> builder \<Rightarrow> builder" where
  "setError ent err b0 = (let (r, b) = result ent b0 in case sr_err r of
     None \<Rightarrow> put_result (r\<lparr>sr_err := Some err\<rparr>)
       (b\<lparr>bd_stats := (bd_stats b)\<lparr>ss_errors := Suc (ss_errors (bd_stats b))\<rparr>\<rparr>)
   | Some e \<Rightarrow> put_result (r\<lparr>sr_err := Some (Joined [e, err])\<rparr>) b)"

definition addConsumed :: "entry \<Rightarrow> int \<Rightarrow> builder \<Rightarrow> builder" where
  "addConsumed ent tokens b0 = (let (r, b) = result ent b0 in
     put_result (r\<lparr>sr_consumed := saturatingAdd (sr_consumed r) tokens\<rparr>)
       (b\<lparr>bd_stats := (bd_stats b)\<lparr>ss_prefill_used := saturatingAdd (ss_prefill_used (bd_stats b)) tokens,
          ss_consumed := saturatingAdd (ss_consumed (bd_stats b)) tokens\<rparr>\<rparr>))"

definition addEmitted :: "entry \<Rightarrow> int \<Rightarrow> builder \<Rightarrow> builder" where
  "addEmitted ent tokens b0 = (let (r, b) = result ent b0 in
     put_result (r\<lparr>sr_emitted := saturatingAdd (sr_emitted r) tokens\<rparr>)
       (b\<lparr>bd_stats := (bd_stats b)\<lparr>ss_decode_used := saturatingAdd (ss_decode_used (bd_stats b)) tokens,
          ss_emitted := saturatingAdd (ss_emitted (bd_stats b)) tokens\<rparr>\<rparr>))"

section \<open>Retiring entries\<close>

record 'w run =
  rn_sched :: sched
  rn_builder :: builder
  rn_dead :: "int set"
  rn_world :: 'w
  rn_closed :: "int list"

definition isDead :: "'w run \<Rightarrow> entry \<Rightarrow> bool" where
  "isDead r ent \<longleftrightarrow> ent_order ent \<in> rn_dead r"

definition build :: "(builder \<Rightarrow> builder) \<Rightarrow> 'w run \<Rightarrow> 'w run" where
  "build f r = r\<lparr>rn_builder := f (rn_builder r)\<rparr>"

definition set_error_opt :: "entry \<Rightarrow> go_error option \<Rightarrow> 'w run \<Rightarrow> 'w run" where
  "set_error_opt ent e r = (case e of None \<Rightarrow> r | Some x \<Rightarrow> build (setError ent x) r)"

text \<open>What every way of retiring an entry ends with: close its work, forget it.\<close>

definition retire :: "'w work_ops \<Rightarrow> entry \<Rightarrow> 'w run \<Rightarrow> 'w run" where
  "retire ops ent r0 =
     (let (e, w) = wk_close ops (ent_work ent) (rn_world r0);
          r = set_error_opt ent e (r0\<lparr>rn_world := w, rn_closed := rn_closed r0 @ [ent_order ent]\<rparr>)
      in r\<lparr>rn_sched := (rn_sched r)\<lparr>sd_index := (sd_index (rn_sched r))(ent_id ent := None)\<rparr>,
           rn_dead := insert (ent_order ent) (rn_dead r)\<rparr>)"

definition cancelEntry :: "'w work_ops \<Rightarrow> entry \<Rightarrow> 'w run \<Rightarrow> 'w run" where
  "cancelEntry ops ent r = (if isDead r ent then r
     else let r1 = build (markCanceled ent) r
       in retire ops ent (r1\<lparr>rn_world := wk_cancel ops (ent_work ent) (rn_world r1)\<rparr>))"

definition finishEntry :: "'w work_ops \<Rightarrow> entry \<Rightarrow> 'w run \<Rightarrow> 'w run" where
  "finishEntry ops ent r = (if isDead r ent then r else retire ops ent (build (markFinished ent) r))"

definition errorEntry :: "'w work_ops \<Rightarrow> entry \<Rightarrow> go_error \<Rightarrow> 'w run \<Rightarrow> 'w run" where
  "errorEntry ops ent err r = (if isDead r ent then r else retire ops ent (build (setError ent err) r))"

definition ctx_done :: "'w work_ops \<Rightarrow> entry \<Rightarrow> 'w run \<Rightarrow> bool \<times> 'w run" where
  "ctx_done ops ent r = (case ent_ctx ent of None \<Rightarrow> (False, r)
     | Some c \<Rightarrow> (let (e, w) = wk_ctx_err ops c (rn_world r) in (e \<noteq> None, r\<lparr>rn_world := w\<rparr>)))"

definition work_finished :: "'w work_ops \<Rightarrow> entry \<Rightarrow> 'w run \<Rightarrow> bool \<times> 'w run" where
  "work_finished ops ent r =
     (let (b, w) = wk_finished ops (ent_work ent) (rn_world r) in (b, r\<lparr>rn_world := w\<rparr>))"

fun cancelDone :: "'w work_ops \<Rightarrow> entry list \<Rightarrow> 'w run \<Rightarrow> 'w run" where
  "cancelDone ops [] r = r"
| "cancelDone ops (ent # es) r =
     (if isDead r ent then cancelDone ops es r
      else let (done, r1) = ctx_done ops ent r
        in cancelDone ops es (if done then cancelEntry ops ent r1 else r1))"

definition cancelDoneWaiting :: "'w work_ops \<Rightarrow> 'w run \<Rightarrow> 'w run" where
  "cancelDoneWaiting ops r = cancelDone ops (sd_waiting (rn_sched r)) r"

definition cancelDoneRunning :: "'w work_ops \<Rightarrow> 'w run \<Rightarrow> 'w run" where
  "cancelDoneRunning ops r = cancelDone ops (sd_running (rn_sched r)) r"

fun finish_completed :: "'w work_ops \<Rightarrow> entry list \<Rightarrow> 'w run \<Rightarrow> 'w run" where
  "finish_completed ops [] r = r"
| "finish_completed ops (ent # es) r =
     (if isDead r ent then finish_completed ops es r
      else let (fin, r1) = work_finished ops ent r
        in finish_completed ops es (if fin then finishEntry ops ent r1 else r1))"

definition finishCompletedRunning :: "'w work_ops \<Rightarrow> 'w run \<Rightarrow> 'w run" where
  "finishCompletedRunning ops r = finish_completed ops (sd_running (rn_sched r)) r"

text \<open>After a call on an entry's work: finished entries retire, cancelled ones too.\<close>

definition finish_or_cancel :: "'w work_ops \<Rightarrow> entry \<Rightarrow> 'w run \<Rightarrow> 'w run" where
  "finish_or_cancel ops ent r =
     (let (fin, r1) = work_finished ops ent r
      in if fin then finishEntry ops ent r1
         else let (done, r2) = ctx_done ops ent r1 in if done then cancelEntry ops ent r2 else r2)"

fun finish_or_cancel_all :: "'w work_ops \<Rightarrow> entry list \<Rightarrow> 'w run \<Rightarrow> 'w run" where
  "finish_or_cancel_all ops [] r = r"
| "finish_or_cancel_all ops (ent # es) r =
     finish_or_cancel_all ops es (if isDead r ent then r else finish_or_cancel ops ent r)"

definition finishOrCancelRunning :: "'w work_ops \<Rightarrow> 'w run \<Rightarrow> 'w run" where
  "finishOrCancelRunning ops r = finish_or_cancel_all ops (sd_running (rn_sched r)) r"

definition compactEntries :: "'w run \<Rightarrow> entry list \<Rightarrow> entry list" where
  "compactEntries r src = filter (\<lambda>e. \<not> isDead r e) src"

definition compact :: "'w run \<Rightarrow> 'w run" where
  "compact r =
     (let s = rn_sched r; running = compactEntries r (sd_running s); n = int (length running)
      in r\<lparr>rn_sched := s\<lparr>sd_waiting := compactEntries r (sd_waiting s), sd_running := running,
            sd_decode_cursor := (if running = [] then 0 else go_rem (sd_decode_cursor s) n),
            sd_prefill_cursor := (if running = [] then 0 else go_rem (sd_prefill_cursor s) n)\<rparr>\<rparr>)"

section \<open>Decode and prefill\<close>

definition validateProgress :: "int \<Rightarrow> int \<Rightarrow> go_error option" where
  "validateProgress progress limit =
     (if progress < 0 then Some (Wrapf ''%w: negative progress'' [] ErrInvalidProgress)
      else if progress > limit
      then Some (Wrapf ''%w: progress %d exceeds limit %d'' [AN progress, AN limit] ErrInvalidProgress)
      else None)"

definition validateRemainingPrefill :: "'w work_ops \<Rightarrow> entry \<Rightarrow> 'w run \<Rightarrow> (go_error + int) \<times> 'w run" where
  "validateRemainingPrefill ops ent r =
     (let (rem, w) = wk_remaining ops (ent_work ent) (rn_world r)
      in (if rem < 0 then Inl (Wrapf ''%w: negative remaining prefill'' [] ErrInvalidProgress) else Inr rem,
          r\<lparr>rn_world := w\<rparr>))"

text \<open>After a call that reported \<open>progress\<close>; the first component is the budget it used.\<close>

definition account ::
  "'w work_ops \<Rightarrow> (entry \<Rightarrow> int \<Rightarrow> builder \<Rightarrow> builder) \<Rightarrow> entry \<Rightarrow> int \<Rightarrow> (int \<times> go_error option) \<times> 'w \<Rightarrow> 'w run \<Rightarrow>
     int \<times> 'w run" where
  "account ops add ent limit outcome r0 = (case outcome of ((progress, callErr), w) \<Rightarrow>
     let r = r0\<lparr>rn_world := w\<rparr> in
     case validateProgress progress limit of
       Some perr \<Rightarrow> (0, errorEntry ops ent perr r)
     | None \<Rightarrow>
       let r1 = (if progress > 0 then build (add ent progress) r else r)
       in (progress, case callErr of Some e \<Rightarrow> errorEntry ops ent e r1 | None \<Rightarrow> finish_or_cancel ops ent r1))"

definition decode_one :: "'w work_ops \<Rightarrow> entry \<Rightarrow> int \<Rightarrow> 'w run \<Rightarrow> int \<times> 'w run" where
  "decode_one ops ent budget r0 =
     (if isDead r0 ent then (0, r0)
      else let (rem, r1) = validateRemainingPrefill ops ent r0 in
        case rem of Inl err \<Rightarrow> (0, errorEntry ops ent err r1)
        | Inr n \<Rightarrow>
          if n \<noteq> 0 then (0, r1)
          else let (fin, r2) = work_finished ops ent r1 in
            if fin then (0, r2)
            else account ops addEmitted ent budget (wk_decode ops (ent_work ent) budget (rn_world r2)) r2)"

definition prefill_one :: "'w work_ops \<Rightarrow> entry \<Rightarrow> int \<Rightarrow> 'w run \<Rightarrow> int \<times> 'w run" where
  "prefill_one ops ent budget r0 =
     (if isDead r0 ent then (0, r0)
      else let (rem, r1) = validateRemainingPrefill ops ent r0 in
        case rem of Inl err \<Rightarrow> (0, errorEntry ops ent err r1)
        | Inr n \<Rightarrow>
          if \<not> n > 0 then (0, r1)
          else let (fin, r2) = work_finished ops ent r1 in
            if fin then (0, r2)
            else let limit = (if n < budget then n else budget) in
              account ops addConsumed ent limit (wk_prefill ops (ent_work ent) limit (rn_world r2)) r2)"

definition normalizeCursor :: "int \<Rightarrow> nat \<Rightarrow> nat" where
  "normalizeCursor cursor n = (if n = 0 then 0 else nat (go_rem (max 0 cursor) (int n)))"

text \<open>The visiting loop of both phases: \<open>left\<close> entries to go, from index \<open>idx\<close>, \<open>last\<close> the last one
  that used budget.\<close>

fun visit ::
  "(entry \<Rightarrow> int \<Rightarrow> 'w run \<Rightarrow> int \<times> 'w run) \<Rightarrow> nat \<Rightarrow> nat \<Rightarrow> nat \<Rightarrow> int \<Rightarrow> nat option \<Rightarrow> 'w run \<Rightarrow>
     nat option \<times> 'w run" where
  "visit one n idx 0 budget lst r = (lst, r)"
| "visit one n idx (Suc left) budget lst r =
     (if budget \<le> 0 then (lst, r)
      else let (used, r') = one (sd_running (rn_sched r) ! idx) budget r in
        visit one n (Suc idx mod n) left (budget - used) (if used > 0 then Some idx else lst) r')"

definition next_cursor :: "nat \<Rightarrow> nat \<Rightarrow> nat option \<Rightarrow> int" where
  "next_cursor n start lst = int (case lst of Some i \<Rightarrow> Suc i mod n | None \<Rightarrow> Suc start mod n)"

definition runDecode :: "'w work_ops \<Rightarrow> 'w run \<Rightarrow> 'w run" where
  "runDecode ops r =
     (let s = rn_sched r; n = length (sd_running s); budget = DecodeBudget (sd_cfg s) in
      if budget \<le> 0 \<or> n = 0 then r
      else let start = normalizeCursor (sd_decode_cursor s) n;
               (lst, r') = visit (decode_one ops) n start n budget None r
        in r'\<lparr>rn_sched := (rn_sched r')\<lparr>sd_decode_cursor := next_cursor n start lst\<rparr>\<rparr>)"

definition runPrefill :: "'w work_ops \<Rightarrow> 'w run \<Rightarrow> 'w run" where
  "runPrefill ops r =
     (let s = rn_sched r; n = length (sd_running s); budget = PrefillBudget (sd_cfg s) in
      if budget \<le> 0 \<or> n = 0 then r
      else let start = normalizeCursor (sd_prefill_cursor s) n;
               (lst, r') = visit (prefill_one ops) n start n budget None r
        in r'\<lparr>rn_sched := (rn_sched r')\<lparr>sd_prefill_cursor := next_cursor n start lst\<rparr>\<rparr>)"

section \<open>A step\<close>

text \<open>The admission loop.\<close>

fun admit :: "entry list \<Rightarrow> 'w run \<Rightarrow> 'w run" where
  "admit [] r = r"
| "admit (ent # es) r =
     (let s = rn_sched r in
      if int (length (sd_running s)) < MaxActive (sd_cfg s)
      then admit es (build (markAdmitted ent)
        (r\<lparr>rn_sched := s\<lparr>sd_waiting := es, sd_running := sd_running s @ [ent]\<rparr>\<rparr>))
      else r)"

definition start_run :: "sched \<Rightarrow> 'w \<Rightarrow> 'w run" where
  "start_run s w = \<lparr>rn_sched = s,
     rn_builder = \<lparr>bd_order = [], bd_stats = \<lparr>ss_decode_budget = DecodeBudget (sd_cfg s),
       ss_prefill_budget = PrefillBudget (sd_cfg s), ss_decode_used = 0, ss_prefill_used = 0,
       ss_consumed = 0, ss_emitted = 0, ss_admitted = 0, ss_finished = 0, ss_canceled = 0,
       ss_errors = 0, ss_waiting = 0, ss_running = 0\<rparr>\<rparr>,
     rn_dead = {}, rn_world = w, rn_closed = []\<rparr>"

definition step_run :: "'w work_ops \<Rightarrow> 'w run \<Rightarrow> 'w run" where
  "step_run ops r0 =
     (let r1 = compact (cancelDoneRunning ops (cancelDoneWaiting ops r0));
          r2 = admit (sd_waiting (rn_sched r1)) r1;
          r3 = finishCompletedRunning ops r2;
          r4 = runDecode ops r3;
          r5 = runPrefill ops r4
      in compact (finishOrCancelRunning ops (cancelDoneWaiting ops r5)))"

text \<open>\<open>Step\<close>: the report, the scheduler and the world after it, and the entries it closed.\<close>

definition Step ::
  "'w work_ops \<Rightarrow> sched option \<Rightarrow> nat option \<Rightarrow> 'w \<Rightarrow>
     (go_error + (step_result list \<times> step_stats \<times> sched \<times> int list)) \<times> 'w" where
  "Step ops so ctx w = (case so of None \<Rightarrow> (Inl (Errorf ''inferencesched: nil scheduler'' []), w) | Some s \<Rightarrow>
     let (err, w1) = (case ctx of None \<Rightarrow> (None, w) | Some c \<Rightarrow> wk_ctx_err ops c w) in
     if err \<noteq> None then (Inl (the err), w1)
     else if sd_closed s then (Inl ErrClosed, w1)
     else let r = step_run ops (start_run s w1); s' = rn_sched r;
              stats = (bd_stats (rn_builder r))\<lparr>ss_waiting := length (sd_waiting s'),
                ss_running := length (sd_running s')\<rparr>
       in (Inr (bd_order (rn_builder r), stats, s', rn_closed r), rn_world r))"

text \<open>\<open>Close\<close>: each work is cancelled and closed; the errors the works returned, and the entries
  whose work was closed, as the calls are made.\<close>

fun close_all :: "'w work_ops \<Rightarrow> entry list \<Rightarrow> 'w \<Rightarrow> go_error list \<times> int list \<times> 'w" where
  "close_all ops [] w = ([], [], w)"
| "close_all ops (ent # es) w =
     (let (e, w1) = wk_close ops (ent_work ent) (wk_cancel ops (ent_work ent) w);
          (errs, shut, w2) = close_all ops es w1
      in ((case e of None \<Rightarrow> errs | Some x \<Rightarrow> x # errs), ent_order ent # shut, w2))"

definition Close :: "'w work_ops \<Rightarrow> sched option \<Rightarrow> 'w \<Rightarrow> go_error option \<times> sched option \<times> int list \<times> 'w" where
  "Close ops so w = (case so of None \<Rightarrow> (None, None, [], w) | Some s \<Rightarrow>
     if sd_closed s then (None, Some s, [], w)
     else let (errs, shut, w') = close_all ops (sd_waiting s @ sd_running s) w
        in (if errs = [] then None else Some (Joined errs),
            Some (s\<lparr>sd_closed := True, sd_waiting := [], sd_running := [], sd_index := Map.empty\<rparr>), shut, w'))"

end
