(* ===== verification/SchedulerFacts.thy ===== *)
theory SchedulerFacts
  imports Scheduler
begin

text \<open>
  Facts about the scheduler: the waiting queue stays sorted and \<open>Add\<close> inserts by binary search;
  a step keeps the index equal to the live entries, closes exactly the entries it removes, once
  each, and stays within its budgets; every entry ever added is closed at most once, and exactly
  once by the time the scheduler is closed.
\<close>

section \<open>The order of the queue\<close>

interpretation entry_lt: strict_weak entryLess
  by unfold_locales (auto simp: entryLess_def split: if_splits)

lemma entryLess_total: "ent_order a \<noteq> ent_order b \<Longrightarrow> entryLess a b \<or> entryLess b a"
  by (auto simp: entryLess_def)

lemma entryLess_trans: "entryLess a b \<Longrightarrow> entryLess b c \<Longrightarrow> entryLess a c"
  using entry_lt.lt_not_lt_trans entry_lt.asym by blast

lemma sort_search_range: "i \<le> j \<Longrightarrow> i \<le> sort_search f i j \<and> sort_search f i j \<le> j"
proof (induction f i j rule: sort_search.induct)
  case (1 f i j)
  show ?case
  proof (cases "i < j")
    case True
    let ?h = "(i + j) div 2"
    have h: "i \<le> ?h" "?h < j" using True by auto
    show ?thesis
    proof (cases "f ?h")
      case True
      with 1(2) \<open>i < j\<close> h show ?thesis by (subst (1 2) sort_search.simps) (simp add: Let_def)
    next
      case False
      with 1(1) \<open>i < j\<close> h show ?thesis by (subst (1 2) sort_search.simps) (simp add: Let_def)
    qed
  qed (simp add: 1(3) sort_search.simps)
qed

lemma sort_search_least:
  "i \<le> j \<Longrightarrow> (\<And>a b. i \<le> a \<Longrightarrow> a \<le> b \<Longrightarrow> b < j \<Longrightarrow> f a \<Longrightarrow> f b) \<Longrightarrow>
     (\<forall>k. i \<le> k \<longrightarrow> k < sort_search f i j \<longrightarrow> \<not> f k) \<and>
     (\<forall>k. sort_search f i j \<le> k \<longrightarrow> k < j \<longrightarrow> f k)"
proof (induction f i j rule: sort_search.induct)
  case (1 f i j)
  show ?case
  proof (cases "i < j")
    case True
    let ?h = "(i + j) div 2"
    have h: "i \<le> ?h" "?h < j" using True by auto
    show ?thesis
    proof (cases "f ?h")
      case fh: True
      have eq: "sort_search f i j = sort_search f i ?h"
        using True fh by (subst sort_search.simps) (simp add: Let_def)
      have IH: "(\<forall>k. i \<le> k \<longrightarrow> k < sort_search f i ?h \<longrightarrow> \<not> f k) \<and>
          (\<forall>k. sort_search f i ?h \<le> k \<longrightarrow> k < ?h \<longrightarrow> f k)"
      proof (rule 1(2) [OF True refl])
        show "f b" if "i \<le> a" "a \<le> b" "b < ?h" "f a" for a b using 1(4) [OF that(1,2) _ that(4)] that(3) h by linarith
      qed (use fh h in simp_all)
      have "f k" if "?h \<le> k" "k < j" for k using 1(4) [of ?h k] fh h that by simp
      then show ?thesis unfolding eq using IH by (metis not_le_imp_less)
    next
      case fh: False
      have eq: "sort_search f i j = sort_search f (Suc ?h) j"
        using True fh by (subst sort_search.simps) (simp add: Let_def)
      have IH: "(\<forall>k. Suc ?h \<le> k \<longrightarrow> k < sort_search f (Suc ?h) j \<longrightarrow> \<not> f k) \<and>
          (\<forall>k. sort_search f (Suc ?h) j \<le> k \<longrightarrow> k < j \<longrightarrow> f k)"
      proof (rule 1(1) [OF True refl])
        show "f b" if "Suc ?h \<le> a" "a \<le> b" "b < j" "f a" for a b
          using 1(4) [OF _ that(2-4)] that(1) h by linarith
      qed (use fh h in simp_all)
      have "\<not> f k" if "i \<le> k" "k \<le> ?h" for k using 1(4) [of k ?h] fh h that by auto
      then show ?thesis unfolding eq using IH by (metis not_less_eq_eq)
    qed
  next
    case False
    with 1(3) show ?thesis by (simp add: sort_search.simps)
  qed
qed

lemma set_insertEntry: "pos \<le> length dst \<Longrightarrow> set (insertEntry dst pos ent) = insert ent (set dst)"
  by (simp add: insertEntry_def) (metis Un_insert_right append_take_drop_id set_append)

lemma insertEntry_sorted:
  assumes "sorted_wrt entryLess ws" "\<And>w. w \<in> set ws \<Longrightarrow> ent_order w \<noteq> ent_order ent"
  shows "sorted_wrt entryLess
    (insertEntry ws (sort_search (\<lambda>k. entryLess ent (ws ! k)) 0 (length ws)) ent)"
proof -
  let ?f = "\<lambda>k. entryLess ent (ws ! k)"
  let ?p = "sort_search ?f 0 (length ws)"
  have mono: "?f b" if "0 \<le> a" "a \<le> b" "b < length ws" "?f a" for a b
    using assms(1) that entryLess_trans
    by (cases "a = b") (auto simp: sorted_wrt_iff_nth_less)
  have sp: "(\<forall>k. 0 \<le> k \<longrightarrow> k < ?p \<longrightarrow> \<not> ?f k) \<and> (\<forall>k. ?p \<le> k \<longrightarrow> k < length ws \<longrightarrow> ?f k)"
    by (rule sort_search_least [OF le0], rule mono)
  have p: "?p \<le> length ws" using sort_search_range [of 0 "length ws" ?f] by simp
  have before: "entryLess w ent" if "w \<in> set (take ?p ws)" for w
  proof -
    from that obtain k where k: "k < ?p" "w = ws ! k" "k < length ws" by (auto simp: in_set_conv_nth)
    then have "\<not> ?f k" using sp [THEN conjunct1, rule_format, OF le0 k(1)] by blast
    then show ?thesis using entryLess_total [of ent w] assms(2) [of w] k by auto
  qed
  have after: "entryLess ent w" if "w \<in> set (drop ?p ws)" for w
  proof -
    from that obtain k where k: "k < length ws - ?p" "w = ws ! (?p + k)" by (auto simp: in_set_conv_nth)
    then show ?thesis using sp [THEN conjunct2, rule_format, OF le_add1, of k] by simp
  qed
  have "entryLess v w" if "v \<in> set (take ?p ws)" "w \<in> set (drop ?p ws)" for v w
    using before [OF that(1)] after [OF that(2)] by (rule entryLess_trans)
  moreover have "sorted_wrt entryLess (take ?p ws)" "sorted_wrt entryLess (drop ?p ws)"
    using assms(1) by (auto simp: sorted_wrt_take sorted_wrt_drop)
  ultimately show ?thesis
    unfolding insertEntry_def sorted_wrt_append
    by (simp only: sorted_wrt.simps list.set insert_iff empty_iff set_append Un_iff simp_thms ball_simps)
       (use before after in blast)
qed

section \<open>The invariant\<close>

definition entries :: "sched \<Rightarrow> entry list" where
  "entries s = sd_waiting s @ sd_running s"

definition config_ok :: "sched_config \<Rightarrow> bool" where
  "config_ok cfg \<longleftrightarrow> 0 < MaxActive cfg \<and> 0 \<le> DecodeBudget cfg \<and> 0 \<le> PrefillBudget cfg"

definition cursor_ok :: "int \<Rightarrow> nat \<Rightarrow> bool" where
  "cursor_ok c n \<longleftrightarrow> 0 \<le> c \<and> (if n = 0 then c = 0 else c < int n)"

definition lists_ok :: "sched \<Rightarrow> bool" where
  "lists_ok s \<longleftrightarrow> config_ok (sd_cfg s) \<and>
     distinct (map ent_order (entries s)) \<and> distinct (map ent_id (entries s)) \<and>
     (\<forall>e \<in> set (entries s). 0 \<le> ent_order e \<and> ent_order e < sd_add_order s) \<and>
     0 \<le> sd_add_order s \<and> sd_add_order s \<le> max_uint \<and>
     sorted_wrt entryLess (sd_waiting s) \<and> int (length (sd_running s)) \<le> MaxActive (sd_cfg s)"

definition index_of :: "entry list \<Rightarrow> string \<rightharpoonup> int" where
  "index_of es = map_of (map (\<lambda>e. (ent_id e, ent_order e)) es)"

definition sched_ok :: "sched \<Rightarrow> bool" where
  "sched_ok s \<longleftrightarrow> lists_ok s \<and> sd_index s = index_of (entries s) \<and>
     0 \<le> sd_decode_cursor s \<and> 0 \<le> sd_prefill_cursor s \<and>
     (if sd_closed s then entries s = []
      else cursor_ok (sd_decode_cursor s) (length (sd_running s)) \<and>
           cursor_ok (sd_prefill_cursor s) (length (sd_running s)))"

lemma New_ok: "New cfg = Inr s \<Longrightarrow> sched_ok s \<and> \<not> sd_closed s \<and> entries s = [] \<and> sd_add_order s = 0"
  by (auto simp: New_def Validate_def sched_ok_def lists_ok_def config_ok_def entries_def index_of_def
      cursor_ok_def max_uint_def split: option.splits if_splits)

lemma index_of_None: "index_of es i = None \<longleftrightarrow> i \<notin> ent_id ` set es"
  by (force simp: index_of_def map_of_eq_None_iff)

lemma Add_Inr:
  assumes "Add (Some s) ctx req work = Inr s'"
  obtains i seq wk ent pos where "req = Some (i, seq)" "work = Some wk" "i \<noteq> []" "\<not> sd_closed s"
    "sd_index s i = None" "sd_add_order s \<noteq> max_uint"
    "ent = \<lparr>ent_ctx = ctx, ent_id = i, ent_seq = seq, ent_work = wk, ent_order = sd_add_order s\<rparr>"
    "pos = sort_search (\<lambda>k. entryLess ent (sd_waiting s ! k)) 0 (length (sd_waiting s))"
    "s' = s\<lparr>sd_add_order := sd_add_order s + 1, sd_index := (sd_index s)(i \<mapsto> ent_order ent),
            sd_waiting := insertEntry (sd_waiting s) pos ent\<rparr>"
  using assms by (auto simp: Add_def Let_def split: option.splits if_splits)

lemma index_of_perm:
  assumes "distinct (map ent_id es)" "distinct (map ent_id es')" "set es = set es'"
  shows "index_of es = index_of es'"
  unfolding index_of_def using assms
  by (intro map_of_inject_set [THEN iffD2]) (simp_all add: comp_def)

lemma Add_ok:
  assumes "Add (Some s) ctx req work = Inr s'" "sched_ok s"
  shows "sched_ok s'" and "\<exists>ent. set (entries s') = insert ent (set (entries s)) \<and>
      ent_order ent = sd_add_order s \<and> sd_add_order s' = sd_add_order s + 1 \<and> Some (ent_id ent) = map_option fst req"
proof -
  obtain i seq wk ent pos where *: "req = Some (i, seq)" "i \<noteq> []" "\<not> sd_closed s"
    "sd_index s i = None" "sd_add_order s \<noteq> max_uint"
    "ent = \<lparr>ent_ctx = ctx, ent_id = i, ent_seq = seq, ent_work = wk, ent_order = sd_add_order s\<rparr>"
    "pos = sort_search (\<lambda>k. entryLess ent (sd_waiting s ! k)) 0 (length (sd_waiting s))"
    "s' = s\<lparr>sd_add_order := sd_add_order s + 1, sd_index := (sd_index s)(i \<mapsto> ent_order ent),
            sd_waiting := insertEntry (sd_waiting s) pos ent\<rparr>"
    by (rule Add_Inr [OF assms(1)]) blast
  have pos: "pos \<le> length (sd_waiting s)" using sort_search_range [of 0 "length (sd_waiting s)"] *(7) by simp
  have old: "lists_ok s" "sd_index s = index_of (entries s)" using assms(2) by (simp_all add: sched_ok_def)
  then have ord: "\<And>e. e \<in> set (entries s) \<Longrightarrow> ent_order e < sd_add_order s" by (simp add: lists_ok_def)
  have fresh: "i \<notin> ent_id ` set (entries s)" using *(4) old(2) index_of_None by metis
  have perm: "mset (entries s') = add_mset ent (mset (entries s))"
    using pos by (simp add: *(8) entries_def insertEntry_def)
      (metis append_take_drop_id mset_append union_mset_add_mset_left union_commute)
  have set': "set (entries s') = insert ent (set (entries s))"
    using perm by (metis set_mset_add_mset_insert set_mset_mset)
  have dist_ids: "distinct (map ent_id (entries s'))"
  proof -
    have "mset (map ent_id (entries s')) = mset (map ent_id (ent # entries s))" by (simp add: perm)
    moreover have "distinct (map ent_id (ent # entries s))"
      using fresh old(1) *(6) by (simp add: lists_ok_def)
    ultimately show ?thesis by (metis mset_eq_imp_distinct_iff)
  qed
  have "sd_add_order s \<notin> ent_order ` set (entries s)" using ord by fastforce
  have dist_ord: "distinct (map ent_order (entries s'))"
  proof -
    have "mset (map ent_order (entries s')) = mset (map ent_order (ent # entries s))" by (simp add: perm)
    moreover have "distinct (map ent_order (ent # entries s))"
      using \<open>sd_add_order s \<notin> _\<close> old(1) *(6) by (simp add: lists_ok_def)
    ultimately show ?thesis by (metis mset_eq_imp_distinct_iff)
  qed
  have sorted: "sorted_wrt entryLess (sd_waiting s')"
    unfolding *(8) *(7) using old(1) ord *(6)
    by (simp, intro insertEntry_sorted) (force simp: lists_ok_def entries_def)+
  have idx: "sd_index s' = index_of (entries s')"
  proof -
    have "index_of (entries s') = index_of (ent # entries s)"
      by (rule index_of_perm [OF dist_ids]) (use fresh old(1) *(6) set' in \<open>auto simp: lists_ok_def\<close>)
    then show ?thesis by (simp add: *(8) old(2) index_of_def *(6))
  qed
  have "lists_ok s'"
    unfolding lists_ok_def set' using old(1) dist_ids dist_ord sorted *(5,6,8)
    by (auto simp: lists_ok_def)
  then show "sched_ok s'" using idx assms(2) *(3,8) by (simp add: sched_ok_def)
  show "\<exists>ent. set (entries s') = insert ent (set (entries s)) \<and>
      ent_order ent = sd_add_order s \<and> sd_add_order s' = sd_add_order s + 1 \<and> Some (ent_id ent) = map_option fst req"
    using set' *(1,6,8) by (intro exI [of _ ent]) simp
qed

section \<open>The phases of a step\<close>

definition live :: "'w run \<Rightarrow> entry list" where
  "live r = filter (\<lambda>e. \<not> isDead r e) (entries (rn_sched r))"

definition run_ok :: "'w run \<Rightarrow> bool" where
  "run_ok r \<longleftrightarrow> lists_ok (rn_sched r) \<and> sd_index (rn_sched r) = index_of (live r) \<and>
     set (rn_closed r) = rn_dead r \<and> distinct (rn_closed r)"

text \<open>What a phase that only works on entries, and retires some, leaves alone.\<close>

definition same_core :: "'w run \<Rightarrow> 'w run \<Rightarrow> bool" where
  "same_core r r' \<longleftrightarrow>
     sd_waiting (rn_sched r') = sd_waiting (rn_sched r) \<and> sd_running (rn_sched r') = sd_running (rn_sched r) \<and>
     sd_cfg (rn_sched r') = sd_cfg (rn_sched r) \<and> sd_add_order (rn_sched r') = sd_add_order (rn_sched r) \<and>
     sd_closed (rn_sched r') = sd_closed (rn_sched r) \<and>
     (0 \<le> sd_decode_cursor (rn_sched r) \<longrightarrow> 0 \<le> sd_decode_cursor (rn_sched r')) \<and>
     (0 \<le> sd_prefill_cursor (rn_sched r) \<longrightarrow> 0 \<le> sd_prefill_cursor (rn_sched r')) \<and>
     rn_dead r \<subseteq> rn_dead r' \<and> rn_dead r' \<subseteq> rn_dead r \<union> ent_order ` set (entries (rn_sched r))"

definition phase :: "'w run \<Rightarrow> 'w run \<Rightarrow> bool" where
  "phase r r' \<longleftrightarrow> same_core r r' \<and> (run_ok r \<longrightarrow> run_ok r')"

lemma same_core_entries: "same_core r r' \<Longrightarrow> entries (rn_sched r') = entries (rn_sched r)"
  by (simp add: same_core_def entries_def)

lemma phase_refl [simp]: "phase r r"
  by (simp add: phase_def same_core_def)

lemma phase_trans: "phase r r' \<Longrightarrow> phase r' r'' \<Longrightarrow> phase r r''"
  using same_core_entries [of r r'] by (auto simp: phase_def same_core_def)

lemma phase_entries: "phase r r' \<Longrightarrow> entries (rn_sched r') = entries (rn_sched r)"
  by (simp add: phase_def same_core_entries)

lemma phase_running: "phase r r' \<Longrightarrow> sd_running (rn_sched r') = sd_running (rn_sched r)"
  by (simp add: phase_def same_core_def)

lemma phase_world [simp]: "phase r (r\<lparr>rn_world := w\<rparr>)"
  by (simp add: phase_def same_core_def run_ok_def live_def isDead_def)

lemma phase_build [simp]: "phase r (build f r)"
  by (simp add: phase_def same_core_def run_ok_def live_def isDead_def build_def)

lemma isDead_simps [simp]: "isDead (r\<lparr>rn_world := w\<rparr>) e = isDead r e" "isDead (build f r) e = isDead r e"
  by (simp_all add: isDead_def build_def)

lemma lists_ok_update [simp]:
  "lists_ok (s\<lparr>sd_index := i\<rparr>) = lists_ok s" "lists_ok (s\<lparr>sd_decode_cursor := c\<rparr>) = lists_ok s"
  "lists_ok (s\<lparr>sd_prefill_cursor := c\<rparr>) = lists_ok s"
  "entries (s\<lparr>sd_index := i\<rparr>) = entries s" "entries (s\<lparr>sd_decode_cursor := c\<rparr>) = entries s"
  "entries (s\<lparr>sd_prefill_cursor := c\<rparr>) = entries s"
  by (simp_all add: lists_ok_def entries_def)

lemma index_of_filter: "index_of (filter (\<lambda>e. ent_id e \<noteq> i) es) = (index_of es)(i := None)"
  by (induction es) (auto simp: index_of_def fun_eq_iff)

lemma index_of_retire:
  assumes "distinct (map ent_id es)" "distinct (map ent_order es)" "ent \<in> set es"
  shows "(index_of es)(ent_id ent := None) = index_of (filter (\<lambda>e. ent_order e \<noteq> ent_order ent) es)"
proof -
  have "(ent_order e \<noteq> ent_order ent) = (ent_id e \<noteq> ent_id ent)" if "e \<in> set es" for e
    using assms that by (auto simp: distinct_map inj_on_def)
  then have "filter (\<lambda>e. ent_order e \<noteq> ent_order ent) es = filter (\<lambda>e. ent_id e \<noteq> ent_id ent) es"
    by (rule filter_cong [OF refl])
  then show ?thesis by (simp add: index_of_filter)
qed

lemma retire_sel:
  "rn_sched (retire ops ent r) = (rn_sched r)\<lparr>sd_index := (sd_index (rn_sched r))(ent_id ent := None)\<rparr>"
  "rn_dead (retire ops ent r) = insert (ent_order ent) (rn_dead r)"
  "rn_closed (retire ops ent r) = rn_closed r @ [ent_order ent]"
  by (simp_all add: retire_def Let_def set_error_opt_def build_def split: prod.splits option.splits)

lemma phase_retire:
  assumes "ent \<in> set (entries (rn_sched r))" "\<not> isDead r ent"
  shows "phase r (retire ops ent r)"
proof -
  have "run_ok (retire ops ent r)" if ok: "run_ok r"
  proof -
    have lists: "lists_ok (rn_sched r)" using ok by (simp add: run_ok_def)
    have "(index_of (live r))(ent_id ent := None) =
        index_of (filter (\<lambda>e. ent_order e \<noteq> ent_order ent) (live r))"
      by (rule index_of_retire)
        (use lists assms in \<open>auto simp: live_def lists_ok_def distinct_map inj_on_def distinct_filter\<close>)
    moreover have "live (retire ops ent r) = filter (\<lambda>e. ent_order e \<noteq> ent_order ent) (live r)"
      by (auto simp: live_def retire_sel isDead_def intro: filter_cong)
    ultimately show ?thesis using ok assms(2) by (simp add: run_ok_def retire_sel isDead_def)
  qed
  then show ?thesis using assms by (auto simp: phase_def same_core_def retire_sel)
qed

lemma phase_retire_after:
  "phase r r1 \<Longrightarrow> ent \<in> set (entries (rn_sched r)) \<Longrightarrow> \<not> isDead r1 ent \<Longrightarrow> phase r (retire ops ent r1)"
  using phase_entries [of r r1] phase_retire [of ent r1 ops] phase_trans by metis

lemma phase_cancelEntry: "ent \<in> set (entries (rn_sched r)) \<Longrightarrow> phase r (cancelEntry ops ent r)"
  by (auto simp: cancelEntry_def Let_def intro!: phase_retire_after intro: phase_trans [OF phase_build phase_world])

lemma phase_finishEntry: "ent \<in> set (entries (rn_sched r)) \<Longrightarrow> phase r (finishEntry ops ent r)"
  by (auto simp: finishEntry_def intro!: phase_retire_after)

lemma phase_errorEntry: "ent \<in> set (entries (rn_sched r)) \<Longrightarrow> phase r (errorEntry ops ent e r)"
  by (auto simp: errorEntry_def intro!: phase_retire_after)

text \<open>Composition: a phase followed by one of the three.\<close>

lemma phase_then:
  assumes "phase r r1" "ent \<in> set (entries (rn_sched r))"
  shows "phase r (cancelEntry ops ent r1)" "phase r (finishEntry ops ent r1)" "phase r (errorEntry ops ent e r1)"
  using assms phase_entries [OF assms(1)]
  by (metis phase_trans phase_cancelEntry, metis phase_trans phase_finishEntry, metis phase_trans phase_errorEntry)

lemma phase_ctx_done: "phase r (snd (ctx_done ops ent r))"
  by (simp add: ctx_done_def split: option.splits prod.splits)

lemma phase_work_finished: "phase r (snd (work_finished ops ent r))"
  by (simp add: work_finished_def split: prod.splits)

lemma phase_finish_or_cancel: "ent \<in> set (entries (rn_sched r)) \<Longrightarrow> phase r (finish_or_cancel ops ent r)"
proof -
  assume ent: "ent \<in> set (entries (rn_sched r))"
  obtain fin r1 where f: "work_finished ops ent r = (fin, r1)" by fastforce
  obtain gone r2 where c: "ctx_done ops ent r1 = (gone, r2)" by fastforce
  have 1: "phase r r1" using phase_work_finished [of r ops ent] by (simp add: f)
  have 2: "phase r r2" using phase_trans [OF 1 phase_ctx_done [of r1 ops ent]] by (simp add: c)
  show ?thesis using phase_then [OF 1 ent] phase_then [OF 2 ent] 2
    by (simp add: finish_or_cancel_def f c)
qed

lemma phase_cancelDone: "set es \<subseteq> set (entries (rn_sched r)) \<Longrightarrow> phase r (cancelDone ops es r)"
proof (induction ops es r rule: cancelDone.induct)
  case (2 ops ent es r)
  show ?case
  proof (cases "isDead r ent")
    case True
    with 2 show ?thesis by simp
  next
    case False
    obtain gone r1 where c: "ctx_done ops ent r = (gone, r1)" by fastforce
    have 1: "phase r r1" using phase_ctx_done [of r ops ent] by (simp add: c)
    let ?r2 = "if gone then cancelEntry ops ent r1 else r1"
    have p2: "phase r ?r2" using phase_then(1) [OF 1, of ent ops] 2(3) 1 by simp
    have "phase ?r2 (cancelDone ops es ?r2)"
      by (rule 2(2) [OF False c [symmetric] refl]) (use 2(3) phase_entries [OF p2] in simp)
    from phase_trans [OF p2 this] False c show ?thesis by simp
  qed
qed simp

lemma phase_finish_completed: "set es \<subseteq> set (entries (rn_sched r)) \<Longrightarrow> phase r (finish_completed ops es r)"
proof (induction ops es r rule: finish_completed.induct)
  case (2 ops ent es r)
  show ?case
  proof (cases "isDead r ent")
    case True
    with 2 show ?thesis by simp
  next
    case False
    obtain fin r1 where c: "work_finished ops ent r = (fin, r1)" by fastforce
    have 1: "phase r r1" using phase_work_finished [of r ops ent] by (simp add: c)
    let ?r2 = "if fin then finishEntry ops ent r1 else r1"
    have p2: "phase r ?r2" using phase_then(2) [OF 1, of ent ops] 2(3) 1 by simp
    have "phase ?r2 (finish_completed ops es ?r2)"
      by (rule 2(2) [OF False c [symmetric] refl]) (use 2(3) phase_entries [OF p2] in simp)
    from phase_trans [OF p2 this] False c show ?thesis by simp
  qed
qed simp

lemma phase_finish_or_cancel_all:
  "set es \<subseteq> set (entries (rn_sched r)) \<Longrightarrow> phase r (finish_or_cancel_all ops es r)"
proof (induction ops es r rule: finish_or_cancel_all.induct)
  case (2 ops ent es r)
  let ?r1 = "if isDead r ent then r else finish_or_cancel ops ent r"
  have 1: "phase r ?r1" using phase_finish_or_cancel [of ent r ops] 2(2) by simp
  have "phase ?r1 (finish_or_cancel_all ops es ?r1)"
    by (rule 2(1)) (use 2(2) phase_entries [OF 1] in simp)
  from phase_trans [OF 1 this] show ?case by simp
qed simp

lemma entries_parts: "set (sd_waiting s) \<subseteq> set (entries s)" "set (sd_running s) \<subseteq> set (entries s)"
  by (simp_all add: entries_def)

section \<open>Budgets\<close>

definition decode_used :: "'w run \<Rightarrow> int" where
  "decode_used r = ss_decode_used (bd_stats (rn_builder r))"

definition prefill_used :: "'w run \<Rightarrow> int" where
  "prefill_used r = ss_prefill_used (bd_stats (rn_builder r))"

lemmas used_defs = decode_used_def prefill_used_def

lemma result_stats [simp]: "bd_stats (snd (result ent b)) = bd_stats b"
  by (simp add: result_def split: option.splits)

lemma mark_used [simp]:
  "ss_decode_used (bd_stats (markFinished ent b)) = ss_decode_used (bd_stats b)"
  "ss_prefill_used (bd_stats (markFinished ent b)) = ss_prefill_used (bd_stats b)"
  "ss_decode_used (bd_stats (markCanceled ent b)) = ss_decode_used (bd_stats b)"
  "ss_prefill_used (bd_stats (markCanceled ent b)) = ss_prefill_used (bd_stats b)"
  "ss_decode_used (bd_stats (markAdmitted ent b)) = ss_decode_used (bd_stats b)"
  "ss_prefill_used (bd_stats (markAdmitted ent b)) = ss_prefill_used (bd_stats b)"
  "ss_decode_used (bd_stats (setError ent e b)) = ss_decode_used (bd_stats b)"
  "ss_prefill_used (bd_stats (setError ent e b)) = ss_prefill_used (bd_stats b)"
  "ss_decode_used (bd_stats (addEmitted ent k b)) = saturatingAdd (ss_decode_used (bd_stats b)) k"
  "ss_prefill_used (bd_stats (addEmitted ent k b)) = ss_prefill_used (bd_stats b)"
  "ss_decode_used (bd_stats (addConsumed ent k b)) = ss_decode_used (bd_stats b)"
  "ss_prefill_used (bd_stats (addConsumed ent k b)) = saturatingAdd (ss_prefill_used (bd_stats b)) k"
  using result_stats [of ent b]
  by (auto simp: markFinished_def markCanceled_def markAdmitted_def setError_def addEmitted_def
      addConsumed_def put_result_def split_def Let_def split: option.splits)

lemma run_used [simp]:
  "decode_used (r\<lparr>rn_world := w\<rparr>) = decode_used r" "prefill_used (r\<lparr>rn_world := w\<rparr>) = prefill_used r"
  "decode_used (retire ops ent r) = decode_used r" "prefill_used (retire ops ent r) = prefill_used r"
  "decode_used (cancelEntry ops ent r) = decode_used r" "prefill_used (cancelEntry ops ent r) = prefill_used r"
  "decode_used (finishEntry ops ent r) = decode_used r" "prefill_used (finishEntry ops ent r) = prefill_used r"
  "decode_used (errorEntry ops ent e r) = decode_used r" "prefill_used (errorEntry ops ent e r) = prefill_used r"
proof -
  show ret: "decode_used (retire ops ent r) = decode_used r" "prefill_used (retire ops ent r) = prefill_used r" for r
    by (simp_all add: used_defs retire_def Let_def set_error_opt_def build_def split: prod.splits option.splits)
  show w: "decode_used (r\<lparr>rn_world := w\<rparr>) = decode_used r" "prefill_used (r\<lparr>rn_world := w\<rparr>) = prefill_used r" for r w
    by (simp_all add: used_defs)
  show "decode_used (cancelEntry ops ent r) = decode_used r" "prefill_used (cancelEntry ops ent r) = prefill_used r"
    "decode_used (finishEntry ops ent r) = decode_used r" "prefill_used (finishEntry ops ent r) = prefill_used r"
    "decode_used (errorEntry ops ent e r) = decode_used r" "prefill_used (errorEntry ops ent e r) = prefill_used r"
    by (simp_all add: cancelEntry_def finishEntry_def errorEntry_def Let_def ret w)
       (simp_all add: used_defs build_def)
qed

lemma done_used [simp]:
  "decode_used (snd (ctx_done ops ent r)) = decode_used r" "prefill_used (snd (ctx_done ops ent r)) = prefill_used r"
  "decode_used (snd (work_finished ops ent r)) = decode_used r"
  "prefill_used (snd (work_finished ops ent r)) = prefill_used r"
  by (simp_all add: ctx_done_def work_finished_def split: option.splits prod.splits)

lemma finish_or_cancel_used [simp]:
  "decode_used (finish_or_cancel ops ent r) = decode_used r"
  "prefill_used (finish_or_cancel ops ent r) = prefill_used r"
  using done_used [of ops ent] by (simp_all add: finish_or_cancel_def Let_def split_def)

text \<open>
  The contract of one visit: it works on its entry only, and what it reports as used lies
  within the budget it was offered and is what it added to its meter.
\<close>

locale budgeted_visit =
  fixes one :: "entry \<Rightarrow> int \<Rightarrow> 'w run \<Rightarrow> int \<times> 'w run"
    and meter :: "'w run \<Rightarrow> int" and other :: "'w run \<Rightarrow> int"
  assumes one_phase: "ent \<in> set (entries (rn_sched r)) \<Longrightarrow> 0 < budget \<Longrightarrow> one ent budget r = (u, r') \<Longrightarrow> phase r r'"
    and one_used: "0 < budget \<Longrightarrow> one ent budget r = (u, r') \<Longrightarrow>
      0 \<le> u \<and> u \<le> budget \<and> meter r' = saturatingAdd (meter r) u \<and> other r' = other r"
begin

lemma visit_spec:
  "visit one n idx left budget lst r = (l, r') \<Longrightarrow> n = length (sd_running (rn_sched r)) \<Longrightarrow> idx < n \<Longrightarrow>
     0 \<le> budget \<Longrightarrow> 0 \<le> meter r \<Longrightarrow> meter r + budget \<le> max_int64 \<Longrightarrow> (\<And>i. lst = Some i \<Longrightarrow> i < n) \<Longrightarrow>
     phase r r' \<and> meter r \<le> meter r' \<and> meter r' \<le> meter r + budget \<and> other r' = other r \<and>
     (\<forall>i. l = Some i \<longrightarrow> i < n)"
proof (induction left arbitrary: idx budget lst r)
  case (Suc left)
  show ?case
  proof (cases "budget \<le> 0")
    case True
    with Suc.prems show ?thesis by auto
  next
    case False
    obtain u r1 where o: "one (sd_running (rn_sched r) ! idx) budget r = (u, r1)" by fastforce
    have mem: "sd_running (rn_sched r) ! idx \<in> set (entries (rn_sched r))"
      using Suc.prems(2,3) entries_parts(2) [of "rn_sched r"] by auto
    have ph: "phase r r1" by (rule one_phase [OF mem _ o]) (use False in simp)
    have used: "0 \<le> u" "u \<le> budget" "meter r1 = meter r + u" "other r1 = other r"
      using one_used [OF _ o] False Suc.prems(5,6) by (auto simp: saturatingAdd_def)
    have rest: "visit one n (Suc idx mod n) left (budget - u) (if u > 0 then Some idx else lst) r1 = (l, r')"
      using Suc.prems(1) False o by simp
    have "phase r1 r' \<and> meter r1 \<le> meter r' \<and> meter r' \<le> meter r1 + (budget - u) \<and> other r' = other r1 \<and>
        (\<forall>i. l = Some i \<longrightarrow> i < n)"
    proof (rule Suc.IH [OF rest])
      show "n = length (sd_running (rn_sched r1))" using Suc.prems(2) phase_running [OF ph] by simp
      show "Suc idx mod n < n" using Suc.prems(3) by (intro mod_less_divisor) simp
      show "i < n" if "(if u > 0 then Some idx else lst) = Some i" for i
        using that Suc.prems(3,7) by (auto split: if_splits)
    qed (use Suc.prems(5,6) used in auto)
    then show ?thesis using used phase_trans [OF ph, of r'] by auto
  qed
qed auto

end

lemma account_spec:
  assumes "account ops add ent limit outcome r = (u, r')"
  shows "ent \<in> set (entries (rn_sched r)) \<Longrightarrow> phase r r'"
    and "0 < limit \<Longrightarrow> 0 \<le> u \<and> u \<le> limit"
    and "(\<And>k b. ss_decode_used (bd_stats (add ent k b)) = saturatingAdd (ss_decode_used (bd_stats b)) k) \<Longrightarrow>
      decode_used r' = saturatingAdd (decode_used r) u"
    and "(\<And>k b. ss_prefill_used (bd_stats (add ent k b)) = saturatingAdd (ss_prefill_used (bd_stats b)) k) \<Longrightarrow>
      prefill_used r' = saturatingAdd (prefill_used r) u"
    and "(\<And>k b. ss_decode_used (bd_stats (add ent k b)) = ss_decode_used (bd_stats b)) \<Longrightarrow>
      decode_used r' = decode_used r"
    and "(\<And>k b. ss_prefill_used (bd_stats (add ent k b)) = ss_prefill_used (bd_stats b)) \<Longrightarrow>
      prefill_used r' = prefill_used r"
proof -
  obtain progress callErr w where out: "outcome = ((progress, callErr), w)" by (metis surj_pair)
  let ?r = "r\<lparr>rn_world := w\<rparr>"
  let ?r1 = "if progress > 0 then build (add ent progress) ?r else ?r"
  have ph1: "phase r ?r1" by (auto intro: phase_trans [OF phase_world phase_build])
  have sat0: "saturatingAdd x 0 = x" "\<not> 0 < k \<Longrightarrow> saturatingAdd x k = x" for x k by (simp_all add: saturatingAdd_def)
  have cases: "(\<exists>e. u = 0 \<and> r' = errorEntry ops ent e ?r) \<or>
      (0 \<le> progress \<and> progress \<le> limit \<and> u = progress \<and>
        (r' = finish_or_cancel ops ent ?r1 \<or> (\<exists>e. r' = errorEntry ops ent e ?r1)))"
    using assms by (auto simp: account_def out Let_def validateProgress_def split: if_splits option.splits)
  show "phase r r'" if "ent \<in> set (entries (rn_sched r))"
    using cases phase_then(3) [OF ph1 that] phase_then(3) [OF phase_world that]
      phase_trans [OF ph1 phase_finish_or_cancel [of ent ?r1 ops]] phase_entries [OF ph1] that by metis
  show "0 < limit \<Longrightarrow> 0 \<le> u \<and> u \<le> limit" using cases by auto
  show "decode_used r' = saturatingAdd (decode_used r) u"
    if "\<And>k b. ss_decode_used (bd_stats (add ent k b)) = saturatingAdd (ss_decode_used (bd_stats b)) k"
    using cases by (auto simp: sat0) (auto simp: decode_used_def build_def that)
  show "prefill_used r' = saturatingAdd (prefill_used r) u"
    if "\<And>k b. ss_prefill_used (bd_stats (add ent k b)) = saturatingAdd (ss_prefill_used (bd_stats b)) k"
    using cases by (auto simp: sat0) (auto simp: prefill_used_def build_def that)
  show "decode_used r' = decode_used r"
    if "\<And>k b. ss_decode_used (bd_stats (add ent k b)) = ss_decode_used (bd_stats b)"
    using cases by auto (auto simp: decode_used_def build_def that)
  show "prefill_used r' = prefill_used r"
    if "\<And>k b. ss_prefill_used (bd_stats (add ent k b)) = ss_prefill_used (bd_stats b)"
    using cases by auto (auto simp: prefill_used_def build_def that)
qed

text \<open>Both visiting functions start the same way.\<close>

lemma visit_prologue:
  assumes v: "validateRemainingPrefill ops ent r0 = (rem, r1)"
  shows "phase r0 r1" "decode_used r1 = decode_used r0" "prefill_used r1 = prefill_used r0"
    "isDead r1 e = isDead r0 e"
  using v by (auto simp: validateRemainingPrefill_def split: prod.splits)

lemma visit_cases:
  assumes "decode_one ops ent budget r0 = (u, r')"
  obtains "u = 0" "r' = r0"
  | rem r1 e where "validateRemainingPrefill ops ent r0 = (rem, r1)" "u = 0" "r' = errorEntry ops ent e r1"
  | rem r1 where "validateRemainingPrefill ops ent r0 = (rem, r1)" "u = 0"
      "r' = r1 \<or> r' = snd (work_finished ops ent r1)"
  | rem r1 r2 where "validateRemainingPrefill ops ent r0 = (rem, r1)" "r2 = snd (work_finished ops ent r1)"
      "account ops addEmitted ent budget (wk_decode ops (ent_work ent) budget (rn_world r2)) r2 = (u, r')"
  using assms by (auto simp: decode_one_def split: if_splits prod.splits sum.splits)

lemma visit_cases_prefill:
  assumes "prefill_one ops ent budget r0 = (u, r')"
  obtains "u = 0" "r' = r0"
  | rem r1 e where "validateRemainingPrefill ops ent r0 = (rem, r1)" "u = 0" "r' = errorEntry ops ent e r1"
  | rem r1 where "validateRemainingPrefill ops ent r0 = (rem, r1)" "u = 0"
      "r' = r1 \<or> r' = snd (work_finished ops ent r1)"
  | n r1 r2 limit where "validateRemainingPrefill ops ent r0 = (Inr n, r1)" "r2 = snd (work_finished ops ent r1)"
      "0 < n" "limit = (if n < budget then n else budget)"
      "account ops addConsumed ent limit (wk_prefill ops (ent_work ent) limit (rn_world r2)) r2 = (u, r')"
  using assms by (auto simp: prefill_one_def Let_def split: if_splits prod.splits sum.splits)

lemma decode_one_spec:
  assumes "decode_one ops ent budget r = (u, r')" "0 < budget"
  shows "ent \<in> set (entries (rn_sched r)) \<Longrightarrow> phase r r'"
    and "0 \<le> u \<and> u \<le> budget \<and> decode_used r' = saturatingAdd (decode_used r) u \<and> prefill_used r' = prefill_used r"
proof -
  have zero: "saturatingAdd x 0 = x" for x by (simp add: saturatingAdd_def)
  show "phase r r'" if ent: "ent \<in> set (entries (rn_sched r))"
    using assms(1)
  proof (cases rule: visit_cases)
    case (2 rem r1 e)
    then show ?thesis using phase_then(3) [OF visit_prologue(1) [OF 2(1)] ent] by simp
  next
    case (3 rem r1)
    then show ?thesis using visit_prologue(1) [OF 3(1)] phase_work_finished phase_trans by metis
  next
    case (4 rem r1 r2)
    have p: "phase r r2" using visit_prologue(1) [OF 4(1)] phase_work_finished phase_trans 4(2) by metis
    then show ?thesis using phase_trans [OF p account_spec(1) [OF 4(3)]] phase_entries [OF p] ent by simp
  qed simp
  show "0 \<le> u \<and> u \<le> budget \<and> decode_used r' = saturatingAdd (decode_used r) u \<and> prefill_used r' = prefill_used r"
    using assms(1)
  proof (cases rule: visit_cases)
    case (2 rem r1 e)
    then show ?thesis using visit_prologue(2,3) [OF 2(1)] assms(2) by (simp add: zero)
  next
    case (3 rem r1)
    then show ?thesis using visit_prologue(2,3) [OF 3(1)] assms(2) by (auto simp: zero)
  next
    case (4 rem r1 r2)
    then show ?thesis using account_spec(2) [OF 4(3) assms(2)] account_spec(3,6) [OF 4(3)]
      visit_prologue(2,3) [OF 4(1)] by simp
  qed (use assms(2) in \<open>simp add: zero\<close>)
qed

lemma prefill_one_spec:
  assumes "prefill_one ops ent budget r = (u, r')" "0 < budget"
  shows "ent \<in> set (entries (rn_sched r)) \<Longrightarrow> phase r r'"
    and "0 \<le> u \<and> u \<le> budget \<and> prefill_used r' = saturatingAdd (prefill_used r) u \<and> decode_used r' = decode_used r"
proof -
  have zero: "saturatingAdd x 0 = x" for x by (simp add: saturatingAdd_def)
  show "phase r r'" if ent: "ent \<in> set (entries (rn_sched r))"
    using assms(1)
  proof (cases rule: visit_cases_prefill)
    case (2 rem r1 e)
    then show ?thesis using phase_then(3) [OF visit_prologue(1) [OF 2(1)] ent] by simp
  next
    case (3 rem r1)
    then show ?thesis using visit_prologue(1) [OF 3(1)] phase_work_finished phase_trans by metis
  next
    case (4 n r1 r2 limit)
    have p: "phase r r2" using visit_prologue(1) [OF 4(1)] phase_work_finished phase_trans 4(2) by metis
    then show ?thesis using phase_trans [OF p account_spec(1) [OF 4(5)]] phase_entries [OF p] ent by simp
  qed simp
  show "0 \<le> u \<and> u \<le> budget \<and> prefill_used r' = saturatingAdd (prefill_used r) u \<and> decode_used r' = decode_used r"
    using assms(1)
  proof (cases rule: visit_cases_prefill)
    case (2 rem r1 e)
    then show ?thesis using visit_prologue(2,3) [OF 2(1)] assms(2) by (simp add: zero)
  next
    case (3 rem r1)
    then show ?thesis using visit_prologue(2,3) [OF 3(1)] assms(2) by (auto simp: zero)
  next
    case (4 n r1 r2 limit)
    then show ?thesis using account_spec(2) [OF 4(5)] account_spec(4,5) [OF 4(5)]
      visit_prologue(2,3) [OF 4(1)] assms(2) by (auto split: if_splits)
  qed (use assms(2) in \<open>simp add: zero\<close>)
qed

interpretation decode: budgeted_visit "decode_one ops" decode_used prefill_used for ops :: "'w work_ops"
  by unfold_locales (rule decode_one_spec; assumption)+

interpretation prefill: budgeted_visit "prefill_one ops" prefill_used decode_used for ops :: "'w work_ops"
  by unfold_locales (rule prefill_one_spec; assumption)+

lemma phase_cursor [simp]:
  "phase r r' \<Longrightarrow> 0 \<le> c \<Longrightarrow> phase r (r'\<lparr>rn_sched := (rn_sched r')\<lparr>sd_decode_cursor := c\<rparr>\<rparr>)"
  "phase r r' \<Longrightarrow> 0 \<le> c \<Longrightarrow> phase r (r'\<lparr>rn_sched := (rn_sched r')\<lparr>sd_prefill_cursor := c\<rparr>\<rparr>)"
  by (simp_all add: phase_def same_core_def run_ok_def live_def isDead_def)

lemma normalizeCursor_less: "0 < n \<Longrightarrow> normalizeCursor c n < n"
  by (simp add: normalizeCursor_def go_rem_nonneg nat_less_iff)

lemma runDecode_spec:
  assumes "0 \<le> decode_used r" "decode_used r + DecodeBudget (sd_cfg (rn_sched r)) \<le> max_int64"
  shows "phase r (runDecode ops r)" "prefill_used (runDecode ops r) = prefill_used r"
    "decode_used r \<le> decode_used (runDecode ops r)"
    "decode_used (runDecode ops r) \<le> decode_used r + max 0 (DecodeBudget (sd_cfg (rn_sched r)))"
proof -
  let ?s = "rn_sched r" and ?n = "length (sd_running (rn_sched r))"
  have "phase r (runDecode ops r) \<and> prefill_used (runDecode ops r) = prefill_used r \<and>
    decode_used r \<le> decode_used (runDecode ops r) \<and>
    decode_used (runDecode ops r) \<le> decode_used r + max 0 (DecodeBudget (sd_cfg ?s))"
  proof (cases "DecodeBudget (sd_cfg ?s) \<le> 0 \<or> ?n = 0")
    case True
    then have "runDecode ops r = r" by (simp add: runDecode_def Let_def)
    then show ?thesis by simp
  next
    case False
    then have n: "0 < ?n" by simp
    obtain l r1 where v: "visit (decode_one ops) ?n (normalizeCursor (sd_decode_cursor ?s) ?n) ?n
        (DecodeBudget (sd_cfg ?s)) None r = (l, r1)" by fastforce
    from decode.visit_spec [OF v refl normalizeCursor_less [OF n]] False assms
    have spec: "phase r r1" "decode_used r \<le> decode_used r1"
      "decode_used r1 \<le> decode_used r + DecodeBudget (sd_cfg ?s)" "prefill_used r1 = prefill_used r" by auto
    from False v have run: "runDecode ops r =
        r1\<lparr>rn_sched := (rn_sched r1)\<lparr>sd_decode_cursor :=
          next_cursor ?n (normalizeCursor (sd_decode_cursor ?s) ?n) l\<rparr>\<rparr>"
      by (simp add: runDecode_def Let_def)
    show ?thesis unfolding run using spec by (simp add: used_defs next_cursor_def)
  qed
  then show "phase r (runDecode ops r)" "prefill_used (runDecode ops r) = prefill_used r"
    "decode_used r \<le> decode_used (runDecode ops r)"
    "decode_used (runDecode ops r) \<le> decode_used r + max 0 (DecodeBudget (sd_cfg (rn_sched r)))" by blast+
qed

lemma runPrefill_spec:
  assumes "0 \<le> prefill_used r" "prefill_used r + PrefillBudget (sd_cfg (rn_sched r)) \<le> max_int64"
  shows "phase r (runPrefill ops r)" "decode_used (runPrefill ops r) = decode_used r"
    "prefill_used r \<le> prefill_used (runPrefill ops r)"
    "prefill_used (runPrefill ops r) \<le> prefill_used r + max 0 (PrefillBudget (sd_cfg (rn_sched r)))"
proof -
  let ?s = "rn_sched r" and ?n = "length (sd_running (rn_sched r))"
  have "phase r (runPrefill ops r) \<and> decode_used (runPrefill ops r) = decode_used r \<and>
    prefill_used r \<le> prefill_used (runPrefill ops r) \<and>
    prefill_used (runPrefill ops r) \<le> prefill_used r + max 0 (PrefillBudget (sd_cfg ?s))"
  proof (cases "PrefillBudget (sd_cfg ?s) \<le> 0 \<or> ?n = 0")
    case True
    then have "runPrefill ops r = r" by (simp add: runPrefill_def Let_def)
    then show ?thesis by simp
  next
    case False
    then have n: "0 < ?n" by simp
    obtain l r1 where v: "visit (prefill_one ops) ?n (normalizeCursor (sd_prefill_cursor ?s) ?n) ?n
        (PrefillBudget (sd_cfg ?s)) None r = (l, r1)" by fastforce
    from prefill.visit_spec [OF v refl normalizeCursor_less [OF n]] False assms
    have spec: "phase r r1" "prefill_used r \<le> prefill_used r1"
      "prefill_used r1 \<le> prefill_used r + PrefillBudget (sd_cfg ?s)" "decode_used r1 = decode_used r" by auto
    from False v have run: "runPrefill ops r =
        r1\<lparr>rn_sched := (rn_sched r1)\<lparr>sd_prefill_cursor :=
          next_cursor ?n (normalizeCursor (sd_prefill_cursor ?s) ?n) l\<rparr>\<rparr>"
      by (simp add: runPrefill_def Let_def)
    show ?thesis unfolding run using spec by (simp add: used_defs next_cursor_def)
  qed
  then show "phase r (runPrefill ops r)" "decode_used (runPrefill ops r) = decode_used r"
    "prefill_used r \<le> prefill_used (runPrefill ops r)"
    "prefill_used (runPrefill ops r) \<le> prefill_used r + max 0 (PrefillBudget (sd_cfg (rn_sched r)))" by blast+
qed

section \<open>A whole step\<close>

definition evolves :: "'w run \<Rightarrow> 'w run \<Rightarrow> bool" where
  "evolves r r' \<longleftrightarrow> (run_ok r \<longrightarrow> run_ok r') \<and>
     set (entries (rn_sched r')) \<subseteq> set (entries (rn_sched r)) \<and>
     (\<forall>e \<in> set (entries (rn_sched r)). e \<notin> set (entries (rn_sched r')) \<longrightarrow> ent_order e \<in> rn_dead r') \<and>
     rn_dead r \<subseteq> rn_dead r' \<and> rn_dead r' \<subseteq> rn_dead r \<union> ent_order ` set (entries (rn_sched r)) \<and>
     sd_cfg (rn_sched r') = sd_cfg (rn_sched r) \<and> sd_add_order (rn_sched r') = sd_add_order (rn_sched r) \<and>
     sd_closed (rn_sched r') = sd_closed (rn_sched r) \<and>
     (0 \<le> sd_decode_cursor (rn_sched r) \<longrightarrow> 0 \<le> sd_decode_cursor (rn_sched r')) \<and>
     (0 \<le> sd_prefill_cursor (rn_sched r) \<longrightarrow> 0 \<le> sd_prefill_cursor (rn_sched r'))"

lemma evolves_trans: "evolves r r' \<Longrightarrow> evolves r' r'' \<Longrightarrow> evolves r r''"
proof -
  assume a: "evolves r r'" and b: "evolves r' r''"
  have dead: "rn_dead r' \<subseteq> rn_dead r''" using b by (simp add: evolves_def)
  have ents: "set (entries (rn_sched r')) \<subseteq> set (entries (rn_sched r))" using a by (simp add: evolves_def)
  have gone: "ent_order e \<in> rn_dead r''"
    if "e \<in> set (entries (rn_sched r))" "e \<notin> set (entries (rn_sched r''))" for e
    using that a b dead unfolding evolves_def by blast
  have within: "rn_dead r'' \<subseteq> rn_dead r \<union> ent_order ` set (entries (rn_sched r))"
  proof -
    have "rn_dead r'' \<subseteq> rn_dead r' \<union> ent_order ` set (entries (rn_sched r'))" using b by (simp add: evolves_def)
    moreover have "rn_dead r' \<subseteq> rn_dead r \<union> ent_order ` set (entries (rn_sched r))"
      using a by (simp add: evolves_def)
    ultimately show ?thesis using image_mono [OF ents, of ent_order] by blast
  qed
  show "evolves r r''" using a b gone within dead ents unfolding evolves_def
    by (simp only: simp_thms ball_simps) (metis subset_trans)
qed

lemma phase_evolves: "phase r r' \<Longrightarrow> evolves r r'"
  using phase_entries [of r r'] by (auto simp: evolves_def phase_def same_core_def)

lemma compact_sel:
  "sd_waiting (rn_sched (compact r)) = filter (\<lambda>e. \<not> isDead r e) (sd_waiting (rn_sched r))"
  "sd_running (rn_sched (compact r)) = filter (\<lambda>e. \<not> isDead r e) (sd_running (rn_sched r))"
  "entries (rn_sched (compact r)) = live r" "rn_dead (compact r) = rn_dead r"
  "rn_closed (compact r) = rn_closed r" "rn_builder (compact r) = rn_builder r"
  "sd_index (rn_sched (compact r)) = sd_index (rn_sched r)" "sd_cfg (rn_sched (compact r)) = sd_cfg (rn_sched r)"
  "sd_add_order (rn_sched (compact r)) = sd_add_order (rn_sched r)"
  "sd_closed (rn_sched (compact r)) = sd_closed (rn_sched r)"
  by (simp_all add: compact_def Let_def compactEntries_def entries_def live_def)

lemma live_compact: "live (compact r) = entries (rn_sched (compact r))"
  by (simp add: live_def compact_sel isDead_def)

lemma lists_ok_filter:
  assumes "lists_ok s" "sd_waiting s' = filter P (sd_waiting s)" "sd_running s' = filter P (sd_running s)"
    and "sd_cfg s' = sd_cfg s" "sd_add_order s' = sd_add_order s"
  shows "lists_ok s'"
proof -
  have e: "entries s' = filter P (entries s)" using assms(2,3) by (simp add: entries_def)
  have "int (length (filter P (sd_running s))) \<le> MaxActive (sd_cfg s)"
  proof -
    have "length (filter P (sd_running s)) \<le> length (sd_running s)" by (rule length_filter_le)
    moreover have "int (length (sd_running s)) \<le> MaxActive (sd_cfg s)" using assms(1) by (simp add: lists_ok_def)
    ultimately show ?thesis by linarith
  qed
  then show ?thesis using assms unfolding lists_ok_def e
    by (auto simp: distinct_map inj_on_def sorted_wrt_filter)
qed

lemma compact_cursor:
  "cursor_ok (sd_decode_cursor (rn_sched (compact r))) (length (sd_running (rn_sched (compact r))))"
  if "0 \<le> sd_decode_cursor (rn_sched r)" for r :: "'w run"
  using that by (simp add: compact_def Let_def cursor_ok_def go_rem_nonneg)

lemma compact_prefill_cursor:
  "cursor_ok (sd_prefill_cursor (rn_sched (compact r))) (length (sd_running (rn_sched (compact r))))"
  if "0 \<le> sd_prefill_cursor (rn_sched r)" for r :: "'w run"
  using that by (simp add: compact_def Let_def cursor_ok_def go_rem_nonneg)

lemma compact_run_ok: "run_ok r \<Longrightarrow> run_ok (compact r)"
proof -
  assume ok: "run_ok r"
  then have "lists_ok (rn_sched r)" by (simp add: run_ok_def)
  from lists_ok_filter [OF this compact_sel(1,2,8,9)] have "lists_ok (rn_sched (compact r))" .
  then show ?thesis using ok unfolding run_ok_def live_compact unfolding compact_sel by blast
qed

lemma compact_evolves: "evolves r (compact r)"
  using compact_run_ok [of r] compact_cursor [of r] compact_prefill_cursor [of r]
  by (auto simp: evolves_def compact_sel live_def isDead_def cursor_ok_def)

text \<open>Admission takes the queue's first entries, as many as there is room for.\<close>

lemma admit_spec:
  "sd_waiting (rn_sched r) = es \<Longrightarrow>
     (let k = min (length es) (nat (MaxActive (sd_cfg (rn_sched r)) - int (length (sd_running (rn_sched r)))))
      in sd_running (rn_sched (admit es r)) = sd_running (rn_sched r) @ take k es \<and>
         sd_waiting (rn_sched (admit es r)) = drop k es) \<and>
     rn_dead (admit es r) = rn_dead r \<and> rn_closed (admit es r) = rn_closed r \<and>
     sd_cfg (rn_sched (admit es r)) = sd_cfg (rn_sched r) \<and>
     sd_index (rn_sched (admit es r)) = sd_index (rn_sched r) \<and>
     sd_add_order (rn_sched (admit es r)) = sd_add_order (rn_sched r) \<and>
     sd_closed (rn_sched (admit es r)) = sd_closed (rn_sched r) \<and>
     sd_decode_cursor (rn_sched (admit es r)) = sd_decode_cursor (rn_sched r) \<and>
     sd_prefill_cursor (rn_sched (admit es r)) = sd_prefill_cursor (rn_sched r) \<and>
     decode_used (admit es r) = decode_used r \<and> prefill_used (admit es r) = prefill_used r"
proof (induction es r rule: admit.induct)
  case (2 ent es r)
  let ?s = "rn_sched r"
  show ?case
  proof (cases "int (length (sd_running ?s)) < MaxActive (sd_cfg ?s)")
    case True
    let ?r1 = "build (markAdmitted ent) (r\<lparr>rn_sched := ?s\<lparr>sd_waiting := es, sd_running := sd_running ?s @ [ent]\<rparr>\<rparr>)"
    have IH: "sd_waiting (rn_sched ?r1) = es" by (simp add: build_def)
    have room: "nat (MaxActive (sd_cfg ?s) - int (length (sd_running ?s))) =
        Suc (nat (MaxActive (sd_cfg ?s) - int (length (sd_running ?s @ [ent]))))" using True by simp
    from 2(1) [OF refl True IH] True show ?thesis
      unfolding Let_def room by (simp add: build_def used_defs Let_def)
  next
    case False
    with 2(2) show ?thesis by simp
  qed
qed (simp add: used_defs)

lemma sorted_wrt_dropD: "sorted_wrt P xs \<Longrightarrow> sorted_wrt P (drop k xs)"
  by (rule sorted_wrt_drop)

lemma admit_evolves:
  assumes "sd_waiting (rn_sched r) = es"
  shows "evolves r (admit es r)"
proof -
  note A = admit_spec [OF assms]
  let ?k = "min (length es) (nat (MaxActive (sd_cfg (rn_sched r)) - int (length (sd_running (rn_sched r)))))"
  have run: "sd_running (rn_sched (admit es r)) = sd_running (rn_sched r) @ take ?k es"
    and wait: "sd_waiting (rn_sched (admit es r)) = drop ?k es" using A by (simp_all add: Let_def)
  have perm: "mset (entries (rn_sched (admit es r))) = mset (entries (rn_sched r))"
  proof -
    have "mset es = mset (take ?k es) + mset (drop ?k es)" by (metis append_take_drop_id mset_append)
    then show ?thesis by (simp add: entries_def run wait assms)
  qed
  then have set: "set (entries (rn_sched (admit es r))) = set (entries (rn_sched r))" by (rule mset_eq_setD)
  have "run_ok (admit es r)" if ok: "run_ok r"
  proof -
    have lists: "lists_ok (rn_sched r)" using ok by (simp add: run_ok_def)
    have dist: "distinct (map ent_order (entries (rn_sched (admit es r))))"
      "distinct (map ent_id (entries (rn_sched (admit es r))))"
      using lists perm by (metis lists_ok_def mset_map mset_eq_imp_distinct_iff)+
    have "lists_ok (rn_sched (admit es r))"
      unfolding lists_ok_def set using lists dist A
      by (auto simp: lists_ok_def run wait assms sorted_wrt_dropD)
    moreover have "index_of (live (admit es r)) = index_of (live r)"
    proof (rule index_of_perm)
      show "distinct (map ent_id (live (admit es r)))" using dist by (simp add: live_def distinct_map_filter)
      show "distinct (map ent_id (live r))" using lists by (simp add: live_def lists_ok_def distinct_map_filter)
      show "set (live (admit es r)) = set (live r)" using set A by (simp add: live_def isDead_def)
    qed
    ultimately show ?thesis using ok A by (simp add: run_ok_def)
  qed
  then show ?thesis using A set by (simp add: evolves_def)
qed

lemma start_run_ok: "sched_ok s \<Longrightarrow> run_ok (start_run s w)"
  by (simp add: sched_ok_def run_ok_def start_run_def live_def isDead_def)

lemma phases_used:
  "decode_used (cancelDone ops es r) = decode_used r \<and> prefill_used (cancelDone ops es r) = prefill_used r"
  "decode_used (finish_completed ops es r) = decode_used r \<and> prefill_used (finish_completed ops es r) = prefill_used r"
  "decode_used (finish_or_cancel_all ops es r) = decode_used r \<and>
     prefill_used (finish_or_cancel_all ops es r) = prefill_used r"
proof -
  show "decode_used (cancelDone ops es r) = decode_used r \<and> prefill_used (cancelDone ops es r) = prefill_used r"
  proof (induction ops es r rule: cancelDone.induct)
    case (2 ops ent es r)
    then show ?case using done_used(1,2) [of ops ent r] by (auto simp: split_def Let_def)
  qed simp
  show "decode_used (finish_completed ops es r) = decode_used r \<and> prefill_used (finish_completed ops es r) = prefill_used r"
  proof (induction ops es r rule: finish_completed.induct)
    case (2 ops ent es r)
    then show ?case using done_used(3,4) [of ops ent r] by (auto simp: split_def Let_def)
  qed simp
  show "decode_used (finish_or_cancel_all ops es r) = decode_used r \<and>
     prefill_used (finish_or_cancel_all ops es r) = prefill_used r"
  proof (induction ops es r rule: finish_or_cancel_all.induct)
    case (2 ops ent es r)
    then show ?case by auto
  qed simp
qed

lemmas phases_used_eq = phases_used [THEN conjunct1] phases_used [THEN conjunct2]

lemma compact_used [simp]: "decode_used (compact r) = decode_used r" "prefill_used (compact r) = prefill_used r"
  by (simp_all add: used_defs compact_sel)

lemma step_run_spec:
  assumes ok: "sched_ok s" and big: "DecodeBudget (sd_cfg s) \<le> max_int64" "PrefillBudget (sd_cfg s) \<le> max_int64"
    and r_def: "r = step_run ops (start_run s w)"
  shows "evolves (start_run s w) r" and "run_ok r" and "live r = entries (rn_sched r)"
    and "sched_ok (rn_sched r) \<or> sd_closed s"
    and "0 \<le> decode_used r \<and> decode_used r \<le> DecodeBudget (sd_cfg s)"
    and "0 \<le> prefill_used r \<and> prefill_used r \<le> PrefillBudget (sd_cfg s)"
proof -
  let ?r0 = "start_run s w"
  let ?r1 = "compact (cancelDoneRunning ops (cancelDoneWaiting ops ?r0))"
  let ?r2 = "admit (sd_waiting (rn_sched ?r1)) ?r1"
  let ?r3 = "finishCompletedRunning ops ?r2"
  let ?r4 = "runDecode ops ?r3"
  let ?r5 = "runPrefill ops ?r4"
  let ?r6 = "finishOrCancelRunning ops (cancelDoneWaiting ops ?r5)"
  have r: "r = compact ?r6" by (simp add: r_def step_run_def Let_def)
  have cfg: "config_ok (sd_cfg s)" using ok by (simp add: sched_ok_def lists_ok_def)
  have waiting: "phase q (cancelDoneWaiting ops q)" for q
    unfolding cancelDoneWaiting_def by (rule phase_cancelDone) (rule entries_parts)
  have running: "phase q (cancelDoneRunning ops q)" for q
    unfolding cancelDoneRunning_def by (rule phase_cancelDone) (rule entries_parts)
  have completed: "phase q (finishCompletedRunning ops q)" for q
    unfolding finishCompletedRunning_def by (rule phase_finish_completed) (rule entries_parts)
  have final: "phase q (finishOrCancelRunning ops q)" for q
    unfolding finishOrCancelRunning_def by (rule phase_finish_or_cancel_all) (rule entries_parts)
  have e1: "evolves ?r0 ?r1"
    by (rule evolves_trans [OF phase_evolves [OF phase_trans [OF waiting running]] compact_evolves])
  have e2: "evolves ?r0 ?r2" by (rule evolves_trans [OF e1 admit_evolves [OF refl]])
  have e3: "evolves ?r0 ?r3" by (rule evolves_trans [OF e2 phase_evolves [OF completed]])
  have c3: "sd_cfg (rn_sched ?r3) = sd_cfg s" using e3 by (simp add: evolves_def start_run_def)
  have u0: "decode_used ?r0 = 0" "prefill_used ?r0 = 0" by (simp_all add: used_defs start_run_def)
  have u3: "decode_used ?r3 = 0" "prefill_used ?r3 = 0"
  proof -
    have u1: "decode_used ?r1 = 0" "prefill_used ?r1 = 0"
      unfolding cancelDoneRunning_def cancelDoneWaiting_def compact_used phases_used_eq by (rule u0)+
    have "decode_used ?r2 = decode_used ?r1" "prefill_used ?r2 = prefill_used ?r1"
      using admit_spec [OF refl, of ?r1] by blast+
    with u1 have "decode_used ?r2 = 0" "prefill_used ?r2 = 0" by (simp_all only:)
    then show "decode_used ?r3 = 0" "prefill_used ?r3 = 0"
      unfolding finishCompletedRunning_def phases_used_eq .
  qed
  note D = runDecode_spec [of ?r3 ops, unfolded c3 u3]
  have big': "0 + DecodeBudget (sd_cfg s) \<le> max_int64" "0 + PrefillBudget (sd_cfg s) \<le> max_int64" using big by simp_all
  have e4: "evolves ?r0 ?r4" by (rule evolves_trans [OF e3 phase_evolves [OF D(1) [OF order_refl big'(1)]]])
  have c4: "sd_cfg (rn_sched ?r4) = sd_cfg s" using e4 by (simp add: evolves_def start_run_def)
  have u4: "prefill_used ?r4 = 0" "0 \<le> decode_used ?r4" "decode_used ?r4 \<le> DecodeBudget (sd_cfg s)"
    using D(2-4) [OF order_refl big'(1)] cfg by (simp_all add: config_ok_def)
  note P = runPrefill_spec [of ?r4 ops, unfolded c4 u4(1)]
  have e5: "evolves ?r0 ?r5" by (rule evolves_trans [OF e4 phase_evolves [OF P(1) [OF order_refl big'(2)]]])
  have e6: "evolves ?r0 ?r6" by (rule evolves_trans [OF e5 phase_evolves [OF phase_trans [OF waiting final]]])
  show ev: "evolves ?r0 r" unfolding r by (rule evolves_trans [OF e6 compact_evolves])
  then show rok: "run_ok r" using start_run_ok [OF ok, of w] by (simp add: evolves_def)
  show lv: "live r = entries (rn_sched r)" unfolding r by (rule live_compact)
  have u5: "decode_used ?r5 = decode_used ?r4" "0 \<le> prefill_used ?r5" "prefill_used ?r5 \<le> PrefillBudget (sd_cfg s)"
    using P(2-4) [OF order_refl big'(2)] cfg by (simp_all add: config_ok_def)
  have "decode_used r = decode_used ?r5" "prefill_used r = prefill_used ?r5"
    unfolding r finishOrCancelRunning_def cancelDoneWaiting_def compact_used phases_used_eq by (rule refl)+
  then show "0 \<le> decode_used r \<and> decode_used r \<le> DecodeBudget (sd_cfg s)"
    "0 \<le> prefill_used r \<and> prefill_used r \<le> PrefillBudget (sd_cfg s)" using u4 u5 by simp_all
  have cursors: "0 \<le> sd_decode_cursor (rn_sched ?r6)" "0 \<le> sd_prefill_cursor (rn_sched ?r6)"
    using e6 ok by (simp_all add: evolves_def start_run_def sched_ok_def cursor_ok_def)
  have nonneg: "0 \<le> sd_decode_cursor (rn_sched r)" "0 \<le> sd_prefill_cursor (rn_sched r)"
    using ev ok by (simp_all add: evolves_def start_run_def sched_ok_def)
  have "sd_closed (rn_sched r) = sd_closed s" using ev by (simp add: evolves_def start_run_def)
  then show "sched_ok (rn_sched r) \<or> sd_closed s"
    using rok lv nonneg compact_cursor [OF cursors(1), folded r] compact_prefill_cursor [OF cursors(2), folded r]
    by (simp add: sched_ok_def run_ok_def)
qed

lemma Step_ok:
  assumes "Step ops (Some s) ctx w = (Inr (results, stats, s', shut), w')" "sched_ok s"
    and "DecodeBudget (sd_cfg s) \<le> max_int64" "PrefillBudget (sd_cfg s) \<le> max_int64"
  shows "sched_ok s'" "\<not> sd_closed s'" "sd_cfg s' = sd_cfg s" "sd_add_order s' = sd_add_order s"
    and "set (entries s') \<subseteq> set (entries s)"
    and "distinct shut" "set shut = ent_order ` (set (entries s) - set (entries s'))"
    and "0 \<le> ss_decode_used stats \<and> ss_decode_used stats \<le> DecodeBudget (sd_cfg s)"
    and "0 \<le> ss_prefill_used stats \<and> ss_prefill_used stats \<le> PrefillBudget (sd_cfg s)"
    and "ss_waiting stats = length (sd_waiting s')" "ss_running stats = length (sd_running s')"
proof -
  from assms(1) obtain w1 where open': "\<not> sd_closed s"
    and eq: "s' = rn_sched (step_run ops (start_run s w1))" "shut = rn_closed (step_run ops (start_run s w1))"
      "stats = (bd_stats (rn_builder (step_run ops (start_run s w1))))\<lparr>ss_waiting := length (sd_waiting s'),
         ss_running := length (sd_running s')\<rparr>"
    by (auto simp: Step_def Let_def split: prod.splits if_splits)
  let ?r = "step_run ops (start_run s w1)"
  note S = step_run_spec [OF assms(2-4), of "step_run ops (start_run s w1)" ops w1, OF refl]
  have sc: "rn_sched (start_run s w1) = s" "rn_dead (start_run s w1) = {}" by (simp_all add: start_run_def)
  show s': "sched_ok s'" using S(4) open' by (simp add: eq(1))
  show "\<not> sd_closed s'" "sd_cfg s' = sd_cfg s" "sd_add_order s' = sd_add_order s" "set (entries s') \<subseteq> set (entries s)"
    using S(1) open' by (simp_all add: evolves_def sc eq(1))
  have cl: "set shut = rn_dead ?r" "distinct shut" using S(2) by (simp_all add: run_ok_def eq(2))
  then show "distinct shut" by blast
  have alive: "ent_order e \<notin> rn_dead ?r" if "e \<in> set (entries s')" for e
  proof -
    from that have "e \<in> set (live ?r)" unfolding S(3) eq(1) .
    then show ?thesis by (simp add: live_def isDead_def)
  qed
  show "set shut = ent_order ` (set (entries s) - set (entries s'))"
    unfolding cl(1)
  proof
    show "rn_dead ?r \<subseteq> ent_order ` (set (entries s) - set (entries s'))"
      using S(1) alive unfolding evolves_def sc by blast
    show "ent_order ` (set (entries s) - set (entries s')) \<subseteq> rn_dead ?r"
      using S(1) unfolding evolves_def sc eq(1) by blast
  qed
  show "0 \<le> ss_decode_used stats \<and> ss_decode_used stats \<le> DecodeBudget (sd_cfg s)"
    "0 \<le> ss_prefill_used stats \<and> ss_prefill_used stats \<le> PrefillBudget (sd_cfg s)"
    "ss_waiting stats = length (sd_waiting s')" "ss_running stats = length (sd_running s')"
    using S(5,6) by (simp_all add: eq(3) used_defs)
qed

section \<open>Every entry is closed once\<close>

datatype sched_call =
  CAdd "nat option" "(string \<times> int) option" "nat option"
| CStep "nat option"
| CClose

lemma close_all_orders: "close_all ops es w = (errs, shut, w') \<Longrightarrow> shut = map ent_order es"
  by (induction es arbitrary: w errs shut) (auto split: prod.splits)

text \<open>A history of calls on one scheduler: its state, the world, and the entries closed so far.\<close>

fun run_call :: "'w work_ops \<Rightarrow> sched_call \<Rightarrow> sched \<times> 'w \<times> int list \<Rightarrow> sched \<times> 'w \<times> int list" where
  "run_call ops (CAdd ctx req work) (s, w, shut) =
     (case Add (Some s) ctx req work of Inl _ \<Rightarrow> (s, w, shut) | Inr s' \<Rightarrow> (s', w, shut))"
| "run_call ops (CStep ctx) (s, w, shut) =
     (case Step ops (Some s) ctx w of (Inl _, w') \<Rightarrow> (s, w', shut)
      | (Inr (results, stats, s', cl), w') \<Rightarrow> (s', w', shut @ cl))"
| "run_call ops CClose (s, w, shut) =
     (case Close ops (Some s) w of (err, so, cl, w') \<Rightarrow>
       ((case so of None \<Rightarrow> s | Some s' \<Rightarrow> s'), w', shut @ cl))"

definition run_calls :: "'w work_ops \<Rightarrow> sched_call list \<Rightarrow> sched \<times> 'w \<times> int list \<Rightarrow> sched \<times> 'w \<times> int list" where
  "run_calls ops calls st = fold (run_call ops) calls st"

definition history_ok :: "sched \<times> 'w \<times> int list \<Rightarrow> bool" where
  "history_ok st = (case st of (s, w, shut) \<Rightarrow>
     sched_ok s \<and> DecodeBudget (sd_cfg s) \<le> max_int64 \<and> PrefillBudget (sd_cfg s) \<le> max_int64 \<and>
     distinct shut \<and> set shut \<inter> ent_order ` set (entries s) = {} \<and>
     set shut \<union> ent_order ` set (entries s) = {0..<sd_add_order s})"

lemma run_call_ok: "history_ok st \<Longrightarrow> history_ok (run_call ops call st)"
proof -
  obtain s w shut where st: "st = (s, w, shut)" by (metis surj_pair)
  assume "history_ok st"
  then have ok: "sched_ok s" "DecodeBudget (sd_cfg s) \<le> max_int64" "PrefillBudget (sd_cfg s) \<le> max_int64"
    and dist: "distinct shut" and disj: "set shut \<inter> ent_order ` set (entries s) = {}"
    and un: "set shut \<union> ent_order ` set (entries s) = {0..<sd_add_order s}"
    by (simp_all add: history_ok_def st)
  show ?thesis
  proof (cases call)
    case (CAdd ctx req work)
    show ?thesis
    proof (cases "Add (Some s) ctx req work")
      case (Inl e)
      then show ?thesis using ok dist disj un by (simp add: CAdd st history_ok_def)
    next
      case (Inr s')
      from Add_ok(2) [OF Inr ok(1)] obtain ent where ent: "set (entries s') = insert ent (set (entries s))"
        "ent_order ent = sd_add_order s" "sd_add_order s' = sd_add_order s + 1" by blast
      have cfg: "sd_cfg s' = sd_cfg s" by (rule Add_Inr [OF Inr]) simp
      have nonneg: "0 \<le> sd_add_order s" using ok(1) by (simp add: sched_ok_def lists_ok_def)
      have "set shut \<union> insert (sd_add_order s) (ent_order ` set (entries s)) = {0..<sd_add_order s + 1}"
        using un nonneg by auto
      moreover have "sd_add_order s \<notin> set shut" using un by auto
      ultimately show ?thesis
        using Add_ok(1) [OF Inr ok(1)] ok dist disj by (simp add: CAdd st Inr history_ok_def ent cfg)
    qed
  next
    case (CStep ctx)
    obtain r w' where step: "Step ops (Some s) ctx w = (r, w')" by fastforce
    show ?thesis
    proof (cases r)
      case (Inl e)
      then show ?thesis using ok dist disj un by (simp add: CStep st step history_ok_def)
    next
      case (Inr q)
      obtain results stats s' cl where q: "q = (results, stats, s', cl)" by (metis surj_pair)
      note S = Step_ok [OF step [unfolded Inr q] ok]
      have orders: "ent_order ` set (entries s) = ent_order ` (set (entries s) - set (entries s')) \<union> ent_order ` set (entries s')"
        using S(5) by auto
      have inj: "inj_on ent_order (set (entries s))" using ok(1) by (simp add: sched_ok_def lists_ok_def distinct_map)
      have apart: "ent_order ` (set (entries s) - set (entries s')) \<inter> ent_order ` set (entries s') = {}"
        using inj S(5) by (auto simp: inj_on_def)
      show ?thesis
        using S(1,3,4,6,7) ok dist disj un orders apart
        by (simp add: CStep st step Inr q history_ok_def) blast
    qed
  next
    case CClose
    show ?thesis
    proof (cases "sd_closed s")
      case True
      then show ?thesis using ok dist disj un by (simp add: CClose st history_ok_def Close_def)
    next
      case False
      obtain errs cl w' where "close_all ops (entries s) w = (errs, cl, w')" by (metis surj_pair)
      then have c: "close_all ops (entries s) w = (errs, map ent_order (entries s), w')" using close_all_orders by metis
      let ?s' = "s\<lparr>sd_closed := True, sd_waiting := [], sd_running := [], sd_index := Map.empty\<rparr>"
      have call: "run_call ops CClose (s, w, shut) = (?s', w', shut @ map ent_order (entries s))"
        using False c by (simp add: Close_def Let_def entries_def)
      have "sched_ok ?s'" using ok(1) by (simp add: sched_ok_def lists_ok_def entries_def index_of_def)
      moreover have "distinct (map ent_order (entries s))" using ok(1) by (simp add: sched_ok_def lists_ok_def)
      moreover have "entries ?s' = []" by (simp add: entries_def)
      ultimately show ?thesis unfolding CClose st call history_ok_def
        using ok dist disj un by simp
    qed
  qed
qed

lemma run_calls_ok: "history_ok st \<Longrightarrow> history_ok (run_calls ops calls st)"
  unfolding run_calls_def by (induction calls arbitrary: st) (simp_all add: run_call_ok)

lemma history_start:
  assumes "New cfg = Inr s" "DecodeBudget cfg \<le> max_int64" "PrefillBudget cfg \<le> max_int64"
  shows "history_ok (s, w, [])"
proof -
  have "sd_cfg s = cfg" using assms(1) by (auto simp: New_def split: option.splits)
  then show ?thesis using New_ok [OF assms(1)] assms(2,3) by (simp add: history_ok_def)
qed

text \<open>From the start: nothing is closed twice, and a final \<open>Close\<close> leaves nothing unclosed.\<close>

lemma closed_once:
  assumes "New cfg = Inr s0" "DecodeBudget cfg \<le> max_int64" "PrefillBudget cfg \<le> max_int64"
    and "run_calls ops (calls @ [CClose]) (s0, w0, []) = (s, w, shut)"
  shows "distinct shut \<and> set shut = {0..<sd_add_order s} \<and> entries s = [] \<and> sd_closed s"
proof -
  obtain s1 w1 shut1 where pre: "run_calls ops calls (s0, w0, []) = (s1, w1, shut1)" by (metis surj_pair)
  have "history_ok (s, w, shut)"
    using run_calls_ok [OF history_start [OF assms(1-3)], of ops "calls @ [CClose]" w0] assms(4) by simp
  moreover have "sd_closed s \<and> entries s = []"
  proof -
    have ok1: "sched_ok s1"
      using run_calls_ok [OF history_start [OF assms(1-3)], of ops calls w0] by (simp add: pre history_ok_def)
    have "run_call ops CClose (s1, w1, shut1) = (s, w, shut)"
      using assms(4) pre by (simp add: run_calls_def)
    then show ?thesis using ok1
      by (auto simp: Close_def Let_def entries_def sched_ok_def split: if_splits prod.splits)
  qed
  ultimately show ?thesis by (simp add: history_ok_def)
qed

lemma after_close:
  assumes "sd_closed s"
  shows "Add (Some s) ctx (Some (x # xs, seq)) (Some wk) = Inl ErrClosed"
    and "Step ops (Some s) None w = (Inl ErrClosed, w)"
    and "Close ops (Some s) w = (None, Some s, [], w)"
  using assms by (simp_all add: Add_def Step_def Close_def)

text \<open>Admission is first in, first out in the queue's order.\<close>

lemma admit_fifo:
  assumes "sd_waiting (rn_sched r) = es"
  shows "\<exists>k. sd_running (rn_sched (admit es r)) = sd_running (rn_sched r) @ take k es \<and>
    sd_waiting (rn_sched (admit es r)) = drop k es \<and>
    (k < length es \<longrightarrow> MaxActive (sd_cfg (rn_sched r)) \<le> int (length (sd_running (rn_sched (admit es r)))))"
proof -
  let ?k = "min (length es) (nat (MaxActive (sd_cfg (rn_sched r)) - int (length (sd_running (rn_sched r)))))"
  from admit_spec [OF assms] have
    "sd_running (rn_sched (admit es r)) = sd_running (rn_sched r) @ take ?k es"
    "sd_waiting (rn_sched (admit es r)) = drop ?k es" by (simp_all add: Let_def)
  then show ?thesis by (intro exI [of _ ?k]) auto
qed

end
