(* ===== verification/Identity.thy ===== *)
theory Identity
  imports GoText Prelude
begin

text \<open>
  \<open>runtime/promptcache/identity.go\<close>: the identity under which a cached prompt may be reused,
  its validation and its canonical byte form. Distinct identities have distinct bytes.
\<close>

definition ErrInvalidIdentity :: go_error where "ErrInvalidIdentity = Sentinel ''promptcache: invalid identity''"

record identity =
  ModelFingerprint :: string
  CheckpointFingerprint :: string
  Backend :: string
  WeightLayout :: string
  WeightDType :: string
  KVPolicy :: string
  KVPrecision :: string
  ConfigFingerprint :: string
  RoPEFingerprint :: string
  AdapterID :: string
  MultimodalHash :: string
  CacheSalt :: string

definition identity_fields :: "identity \<Rightarrow> (string \<times> string \<times> bool) list" where
  "identity_fields d =
     [(''model_fingerprint'', ModelFingerprint d, True),
      (''checkpoint_fingerprint'', CheckpointFingerprint d, True),
      (''backend'', Backend d, True), (''weight_layout'', WeightLayout d, True),
      (''weight_dtype'', WeightDType d, True), (''kv_policy'', KVPolicy d, True),
      (''kv_precision'', KVPrecision d, True), (''config_fingerprint'', ConfigFingerprint d, True),
      (''rope_fingerprint'', RoPEFingerprint d, True), (''adapter_id'', AdapterID d, False),
      (''multimodal_hash'', MultimodalHash d, False), (''cache_salt'', CacheSalt d, False)]"

fun validate_fields :: "(string \<times> string \<times> bool) list \<Rightarrow> go_error option" where
  "validate_fields [] = None"
| "validate_fields ((name, val, required) # fs) =
     (if required \<and> val = [] then Some (Wrapf ''%w: %s is empty'' [AS name] ErrInvalidIdentity)
      else if \<not> ValidString val then Some (Wrapf ''%w: %s is not valid UTF-8'' [AS name] ErrInvalidIdentity)
      else validate_fields fs)"

definition ValidateIdentity :: "identity \<Rightarrow> go_error option" where
  "ValidateIdentity d = validate_fields (identity_fields d)"

text \<open>\<open>binary.BigEndian.PutUint32\<close> and \<open>PutUint64\<close>.\<close>

fun be_bytes :: "nat \<Rightarrow> nat \<Rightarrow> string" where
  "be_bytes 0 n = []"
| "be_bytes (Suc k) n = be_bytes k (n div 256) @ [chr (n mod 256)]"

fun encode_fields :: "string list \<Rightarrow> go_error + string" where
  "encode_fields [] = Inr []"
| "encode_fields (f # fs) =
     (if length f > 4294967295 then Inl (Wrapf ''%w: field too large'' [] ErrInvalidIdentity)
      else res_bind (encode_fields fs) (\<lambda>rest. Inr (be_bytes 4 (length f) @ f @ rest)))"

definition CanonicalBytes :: "identity \<Rightarrow> go_error + string" where
  "CanonicalBytes d = (case ValidateIdentity d of Some e \<Rightarrow> Inl e
     | None \<Rightarrow> res_bind (encode_fields (map (\<lambda>(n, v, r). v) (identity_fields d))) (\<lambda>fs.
         Inr (''promptcache.identity.v1'' @ fs)))"

section \<open>Facts\<close>

lemma length_be_bytes [simp]: "length (be_bytes k n) = k"
  by (induction k arbitrary: n) simp_all

lemma chr_inj: "a < 256 \<Longrightarrow> b < 256 \<Longrightarrow> chr a = chr b \<longleftrightarrow> a = b"
proof -
  assume "a < 256" "b < 256"
  then have "(of_char (chr a) :: nat) = a" "(of_char (chr b) :: nat) = b"
    by (simp_all add: chr_def of_char_of take_bit_eq_mod)
  then show ?thesis by metis
qed

lemma be_bytes_inj: "m < 256 ^ k \<Longrightarrow> n < 256 ^ k \<Longrightarrow> be_bytes k m = be_bytes k n \<longleftrightarrow> m = n"
proof (induction k arbitrary: m n)
  case (Suc k)
  then have "m div 256 < 256 ^ k" "n div 256 < 256 ^ k"
    by (simp_all add: less_mult_imp_div_less mult.commute)
  from Suc.IH [OF this] show ?case by (auto simp: chr_inj) (metis div_mult_mod_eq)
qed simp

lemma encode_fields_inj:
  "encode_fields fs = Inr x \<Longrightarrow> encode_fields gs = Inr y \<Longrightarrow> length fs = length gs \<Longrightarrow> x @ r = y @ r' \<Longrightarrow>
     fs = gs \<and> r = r'"
proof (induction fs arbitrary: gs x y)
  case (Cons f fs)
  then obtain g gs' where gs: "gs = g # gs'" by (cases gs) auto
  from Cons.prems(1) obtain x' where f: "length f \<le> 4294967295" "encode_fields fs = Inr x'"
    "x = be_bytes 4 (length f) @ f @ x'" by (auto simp: go_res split: if_splits)
  from Cons.prems(2) obtain y' where g: "length g \<le> 4294967295" "encode_fields gs' = Inr y'"
    "y = be_bytes 4 (length g) @ g @ y'" by (auto simp: gs go_res split: if_splits)
  from Cons.prems(4) f(3) g(3) have "be_bytes 4 (length f) = be_bytes 4 (length g)"
    and rest: "f @ x' @ r = g @ y' @ r'" by (auto simp: append_eq_append_conv)
  then have "length f = length g" using f(1) g(1) be_bytes_inj [of "length f" 4 "length g"] by simp
  with rest have "f = g" "x' @ r = y' @ r'" by auto
  with Cons.IH [OF f(2) g(2)] Cons.prems(3) gs show ?case by simp
qed simp

lemma CanonicalBytes_inj:
  assumes "CanonicalBytes a = Inr x" "CanonicalBytes b = Inr x"
  shows "a = b"
proof -
  let ?vals = "\<lambda>d. map (\<lambda>(n, v, r). v) (identity_fields d)"
  from assms(1) obtain xa where a: "encode_fields (?vals a) = Inr xa" "x = ''promptcache.identity.v1'' @ xa"
    by (auto simp: CanonicalBytes_def go_res split: option.splits)
  from assms(2) obtain xb where b: "encode_fields (?vals b) = Inr xb" "x = ''promptcache.identity.v1'' @ xb"
    by (auto simp: CanonicalBytes_def go_res split: option.splits)
  from a(2) b(2) have "xa @ [] = xb @ []" by simp
  from encode_fields_inj [OF a(1) b(1) _ this] have "?vals a = ?vals b" by (simp add: identity_fields_def)
  then show ?thesis by (intro identity.equality) (simp_all add: identity_fields_def)
qed

lemma CanonicalBytes_valid:
  "CanonicalBytes a = Inr x \<Longrightarrow> ModelFingerprint a \<noteq> [] \<and> CheckpointFingerprint a \<noteq> [] \<and> Backend a \<noteq> [] \<and>
     WeightLayout a \<noteq> [] \<and> WeightDType a \<noteq> [] \<and> KVPolicy a \<noteq> [] \<and> KVPrecision a \<noteq> [] \<and>
     ConfigFingerprint a \<noteq> [] \<and> RoPEFingerprint a \<noteq> []"
  by (auto simp: CanonicalBytes_def ValidateIdentity_def identity_fields_def split: if_splits option.splits)

end
