(* ===== verification/PromptCache.thy ===== *)
theory PromptCache
  imports Identity "HOL-Library.Multiset"
begin

text \<open>
  \<open>runtime/promptcache/cache.go\<close>: a byte-budgeted LRU cache of prompt snapshots under chained
  block hashes. A snapshot is a value of \<open>'s\<close>, a nil one \<open>None\<close>; what the code calls on it
  threads a world \<open>'w\<close>. A list element is an identifier that is never reused; a bucket is the
  list of identifiers under its key. The hash is any function.
\<close>

section \<open>State\<close>

definition ErrInvalidBlockSize :: go_error where "ErrInvalidBlockSize = Sentinel ''promptcache: invalid block size''"
definition ErrIncompleteBlock :: go_error where "ErrIncompleteBlock = Sentinel ''promptcache: incomplete token block''"
definition ErrNilSnapshot :: go_error where "ErrNilSnapshot = Sentinel ''promptcache: nil snapshot''"
definition ErrPositionMismatch :: go_error where "ErrPositionMismatch = Sentinel ''promptcache: snapshot position mismatch''"
definition ErrSizeOverflow :: go_error where "ErrSizeOverflow = Sentinel ''promptcache: size overflow''"
definition over_budget_name :: string where "over_budget_name = ''promptcache: over budget''"
definition ErrOverBudget :: go_error where "ErrOverBudget = Sentinel over_budget_name"
definition nil_cache :: go_error where "nil_cache = Errorf ''promptcache: nil cache'' []"

record ('w, 's) snap_ops =
  sn_position :: "'s \<Rightarrow> 'w \<Rightarrow> int \<times> 'w"
  sn_size :: "'s \<Rightarrow> 'w \<Rightarrow> (go_error + int) \<times> 'w"
  sn_clone :: "'s \<Rightarrow> 'w \<Rightarrow> 's option \<times> 'w"

type_synonym digest = string

record block_key =
  bk_digest :: digest
  bk_size :: int
  bk_end :: int

record 's centry =
  ce_identity :: string
  ce_block :: int
  ce_end :: int
  ce_digest :: digest
  ce_tokens :: "int list"
  ce_snapshot :: 's
  ce_bytes :: int

record cstats =
  cs_max_bytes :: int
  cs_used_bytes :: int
  cs_entries :: nat
  cs_puts :: int
  cs_lookups :: int
  cs_hits :: int
  cs_misses :: int
  cs_replacements :: int
  cs_evictions :: int
  cs_collisions :: int
  cs_budget_rejections :: int
  cs_invalid_rejections :: int

record 's cache =
  ca_max :: int
  ca_used :: int
  ca_hash :: "string \<Rightarrow> digest"
  ca_ll :: "(nat \<times> 's centry) list"
  ca_buckets :: "block_key \<Rightarrow> nat list"
  ca_stats :: cstats
  ca_next :: nat

definition entryOverhead :: int where "entryOverhead = 256"

definition entryBytes :: "int \<Rightarrow> int \<Rightarrow> int \<Rightarrow> go_error + int" where
  "entryBytes snapshotBytes identityBytes tokens =
     (if snapshotBytes < 0 \<or> identityBytes < 0 \<or> tokens < 0 then Inl ErrSizeOverflow
      else if tokens > go_quot (max_int64 - entryOverhead) 8 then Inl ErrSizeOverflow
      else let metadata = entryOverhead + tokens * 8 in
        if identityBytes > max_int64 - metadata then Inl ErrSizeOverflow
        else let metadata' = metadata + identityBytes in
          if snapshotBytes > max_int64 - metadata' then Inl ErrSizeOverflow
          else Inr (metadata' + snapshotBytes))"

definition zero_stats :: "int \<Rightarrow> cstats" where
  "zero_stats m = \<lparr>cs_max_bytes = m, cs_used_bytes = 0, cs_entries = 0, cs_puts = 0, cs_lookups = 0, cs_hits = 0,
     cs_misses = 0, cs_replacements = 0, cs_evictions = 0, cs_collisions = 0, cs_budget_rejections = 0,
     cs_invalid_rejections = 0\<rparr>"

text \<open>\<open>New\<close>, the option being the hash (\<open>sha\<close> is SHA-256).\<close>

definition NewCache :: "(string \<Rightarrow> digest) \<Rightarrow> int \<Rightarrow> (string \<Rightarrow> digest) option \<Rightarrow> 's cache" where
  "NewCache sha maxBytes0 hash =
     (let maxBytes = (if maxBytes0 < 0 then 0 else maxBytes0) in
      \<lparr>ca_max = maxBytes, ca_used = 0, ca_hash = (case hash of None \<Rightarrow> sha | Some h \<Rightarrow> h),
       ca_ll = [], ca_buckets = (\<lambda>_. []), ca_stats = zero_stats maxBytes, ca_next = 0\<rparr>)"

section \<open>Keys\<close>

text \<open>\<open>uint64(int64(token))\<close>, big endian.\<close>

definition token_bytes :: "int \<Rightarrow> string" where
  "token_bytes t = be_bytes 8 (nat (wrapu64 t))"

definition hashBlock :: "(string \<Rightarrow> digest) \<Rightarrow> string \<Rightarrow> digest \<Rightarrow> int list \<Rightarrow> digest" where
  "hashBlock hash ident prev tokens = hash (ident @ prev @ concat (map token_bytes tokens))"

fun prefix_loop ::
  "(string \<Rightarrow> digest) \<Rightarrow> string \<Rightarrow> nat \<Rightarrow> int list \<Rightarrow> digest \<Rightarrow> nat \<Rightarrow> nat \<Rightarrow> block_key list" where
  "prefix_loop hash ident bs tokens prev fin 0 = []"
| "prefix_loop hash ident bs tokens prev fin (Suc n) =
     (let d = hashBlock hash ident prev (take bs (drop fin tokens)) in
      \<lparr>bk_digest = d, bk_size = int bs, bk_end = int (fin + bs)\<rparr> #
        prefix_loop hash ident bs tokens d (fin + bs) n)"

definition zero_digest :: digest where "zero_digest = replicate 32 (chr 0)"

definition prefixKeys :: "string \<Rightarrow> int \<Rightarrow> int list \<Rightarrow> (string \<Rightarrow> digest) \<Rightarrow> block_key list" where
  "prefixKeys ident blockSize tokens hash =
     (if blockSize \<le> 0 then []
      else prefix_loop hash ident (nat blockSize) tokens zero_digest 0 (length tokens div nat blockSize))"

definition entry_key :: "'s centry \<Rightarrow> block_key" where
  "entry_key e = \<lparr>bk_digest = ce_digest e, bk_size = ce_block e, bk_end = ce_end e\<rparr>"

definition matches :: "'s centry \<Rightarrow> string \<Rightarrow> int list \<Rightarrow> bool" where
  "matches e ident tokens \<longleftrightarrow> ce_identity e = ident \<and> ce_tokens e = tokens"

section \<open>Snapshots\<close>

definition cloneSnapshotForStore ::
  "('w, 's) snap_ops \<Rightarrow> 's option \<Rightarrow> int \<Rightarrow> 'w \<Rightarrow> (go_error + 's \<times> int) \<times> 'w" where
  "cloneSnapshotForStore ops snap expected w0 = (case snap of None \<Rightarrow> (Inl ErrNilSnapshot, w0) | Some s \<Rightarrow>
     let (p, w1) = sn_position ops s w0 in
     if p \<noteq> expected then (Inl ErrPositionMismatch, w1)
     else let (c, w2) = sn_clone ops s w1 in case c of None \<Rightarrow> (Inl ErrNilSnapshot, w2) | Some k \<Rightarrow>
       let (q, w3) = sn_position ops k w2 in
       if q \<noteq> expected then (Inl ErrPositionMismatch, w3)
       else let (b, w4) = sn_size ops k w3 in case b of Inl e \<Rightarrow> (Inl e, w4) | Inr n \<Rightarrow>
         if n < 0 then (Inl ErrSizeOverflow, w4) else (Inr (k, n), w4))"

definition cloneSnapshotForRead :: "('w, 's) snap_ops \<Rightarrow> 's \<Rightarrow> int \<Rightarrow> 'w \<Rightarrow> 's option \<times> 'w" where
  "cloneSnapshotForRead ops s expected w0 =
     (let (p, w1) = sn_position ops s w0 in
      if p \<noteq> expected then (None, w1)
      else let (c, w2) = sn_clone ops s w1 in case c of None \<Rightarrow> (None, w2) | Some k \<Rightarrow>
        let (q, w3) = sn_position ops k w2 in
        if q \<noteq> expected then (None, w3)
        else let (b, w4) = sn_size ops k w3 in case b of Inl e \<Rightarrow> (None, w4) | Inr n \<Rightarrow>
          if n < 0 then (None, w4) else (Some k, w4))"

text \<open>The validated snapshot, its charge and its key.\<close>

definition prepare_put ::
  "('w, 's) snap_ops \<Rightarrow> 's cache \<Rightarrow> identity \<Rightarrow> int \<Rightarrow> int list \<Rightarrow> 's option \<Rightarrow> 'w \<Rightarrow>
     (go_error + string \<times> 's \<times> int \<times> block_key) \<times> 'w" where
  "prepare_put ops c identity blockSize tokens snap w =
     (if blockSize \<le> 0 then (Inl ErrInvalidBlockSize, w)
      else if tokens = [] \<or> go_rem (int (length tokens)) blockSize \<noteq> 0 then (Inl ErrIncompleteBlock, w)
      else case CanonicalBytes identity of Inl e \<Rightarrow> (Inl e, w) | Inr ident \<Rightarrow>
      case snap of None \<Rightarrow> (Inl ErrNilSnapshot, w) | Some s \<Rightarrow>
      let (p, w1) = sn_position ops s w in
      if p \<noteq> int (length tokens) then (Inl ErrPositionMismatch, w1)
      else let (b, w2) = sn_size ops s w1 in case b of Inl e \<Rightarrow> (Inl e, w2) | Inr sourceBytes \<Rightarrow>
      case entryBytes sourceBytes (int (length ident)) (int (length tokens)) of Inl e \<Rightarrow> (Inl e, w2) | Inr charged \<Rightarrow>
      if charged > ca_max c then (Inl ErrOverBudget, w2)
      else let (r, w3) = cloneSnapshotForStore ops snap (int (length tokens)) w2 in
      case r of Inl e \<Rightarrow> (Inl e, w3) | Inr (clone, cloneBytes) \<Rightarrow>
      case entryBytes cloneBytes (int (length ident)) (int (length tokens)) of Inl e \<Rightarrow> (Inl e, w3) | Inr sizeBytes \<Rightarrow>
      if ca_max c \<le> 0 \<or> sizeBytes > ca_max c then (Inl ErrOverBudget, w3)
      else let keys = prefixKeys ident blockSize tokens (ca_hash c) in
        if keys = [] then (Inl ErrIncompleteBlock, w3)
        else (Inr (ident, clone, sizeBytes, List.last keys), w3))"

section \<open>Eviction\<close>

definition upd_stats :: "(cstats \<Rightarrow> cstats) \<Rightarrow> 's cache \<Rightarrow> 's cache" where
  "upd_stats f c = c\<lparr>ca_stats := f (ca_stats c)\<rparr>"

definition sync_stats :: "'s cache \<Rightarrow> 's cache" where
  "sync_stats c = upd_stats (\<lambda>st. st\<lparr>cs_used_bytes := ca_used c, cs_entries := length (ca_ll c)\<rparr>) c"

definition removeBucketElement :: "block_key \<Rightarrow> nat \<Rightarrow> 's cache \<Rightarrow> 's cache" where
  "removeBucketElement key i c = c\<lparr>ca_buckets := (ca_buckets c)(key := remove1 i (ca_buckets c key))\<rparr>"

definition evictOne :: "nat option \<Rightarrow> 's cache \<Rightarrow> 's cache option" where
  "evictOne skip c = (case find (\<lambda>el. Some (fst el) \<noteq> skip) (rev (ca_ll c)) of
     None \<Rightarrow> None
   | Some (i, ent) \<Rightarrow>
     let c1 = removeBucketElement (entry_key ent) i c;
         used = ca_used c1 - ce_bytes ent;
         c2 = c1\<lparr>ca_ll := filter (\<lambda>el. fst el \<noteq> i) (ca_ll c1), ca_used := (if used < 0 then 0 else used)\<rparr>
     in Some (sync_stats (upd_stats (\<lambda>st. st\<lparr>cs_evictions := cs_evictions st + 1\<rparr>) c2)))"

lemma find_SomeD: "find P xs = Some x \<Longrightarrow> P x \<and> x \<in> set xs"
  by (induction xs) (auto split: if_splits)

lemma evictOne_shorter: "evictOne skip c = Some c' \<Longrightarrow> length (ca_ll c') < length (ca_ll c)"
proof -
  assume e: "evictOne skip c = Some c'"
  then obtain i ent where f: "find (\<lambda>el. Some (fst el) \<noteq> skip) (rev (ca_ll c)) = Some (i, ent)"
    by (auto simp: evictOne_def split: option.splits prod.splits)
  then have "(i, ent) \<in> set (ca_ll c)" using find_SomeD by fastforce
  then have "length (filter (\<lambda>el. fst el \<noteq> i) (ca_ll c)) < length (ca_ll c)"
    by (intro length_filter_less [of "(i, ent)"]) simp_all
  with e f show ?thesis
    by (auto simp: evictOne_def Let_def sync_stats_def upd_stats_def removeBucketElement_def)
qed

text \<open>The eviction loops: while the bytes in use beyond \<open>own\<close> exceed the threshold.\<close>

function evict_loop :: "nat option \<Rightarrow> int \<Rightarrow> int \<Rightarrow> 's cache \<Rightarrow> 's cache" where
  "evict_loop skip own threshold c =
     (if ca_used c - own > threshold then
        (case evictOne skip c of None \<Rightarrow> c | Some c' \<Rightarrow> evict_loop skip own threshold c')
      else c)"
  by pat_completeness auto
termination
  by (relation "measure (\<lambda>(skip, own, threshold, c). length (ca_ll c))") (auto dest: evictOne_shorter)

declare evict_loop.simps [simp del]

section \<open>Storing\<close>

text \<open>The first matching element of a bucket, and the number of others before it.\<close>

fun find_match ::
  "(nat \<times> 's centry) list \<Rightarrow> string \<Rightarrow> int list \<Rightarrow> nat list \<Rightarrow> (nat \<times> 's centry) option \<times> int" where
  "find_match ll ident tokens [] = (None, 0)"
| "find_match ll ident tokens (i # is) = (case map_of ll i of
     None \<Rightarrow> find_match ll ident tokens is
   | Some ent \<Rightarrow>
     if matches ent ident tokens then (Some (i, ent), 0)
     else let (r, n) = find_match ll ident tokens is in (r, n + 1))"

definition move_to_front :: "nat \<Rightarrow> (nat \<times> 's centry) list \<Rightarrow> (nat \<times> 's centry) list" where
  "move_to_front i ll = filter (\<lambda>el. fst el = i) ll @ filter (\<lambda>el. fst el \<noteq> i) ll"

definition replace_entry ::
  "nat \<Rightarrow> 's centry \<Rightarrow> int \<Rightarrow> int list \<Rightarrow> 's \<Rightarrow> int \<Rightarrow> block_key \<Rightarrow> 's cache \<Rightarrow> 's cache" where
  "replace_entry i ent blockSize tokens snap sizeBytes key c0 =
     (let c = evict_loop (Some i) (ce_bytes ent) (ca_max c0 - sizeBytes) c0;
          base = ca_used c - ce_bytes ent; baseUsed = (if base < 0 then 0 else base);
          ent' = ent\<lparr>ce_snapshot := snap, ce_bytes := sizeBytes, ce_block := blockSize,
                     ce_end := int (length tokens), ce_digest := bk_digest key\<rparr>;
          c1 = c\<lparr>ca_used := baseUsed + sizeBytes,
                 ca_ll := move_to_front i (map (\<lambda>el. if fst el = i then (i, ent') else el) (ca_ll c))\<rparr>
      in upd_stats (\<lambda>st. st\<lparr>cs_replacements := cs_replacements st + 1\<rparr>) (sync_stats c1))"

definition insert_entry ::
  "string \<Rightarrow> int \<Rightarrow> int list \<Rightarrow> 's \<Rightarrow> int \<Rightarrow> block_key \<Rightarrow> 's cache \<Rightarrow> 's cache" where
  "insert_entry ident blockSize tokens snap sizeBytes key c0 =
     (let c = evict_loop None 0 (ca_max c0 - sizeBytes) c0;
          ent = \<lparr>ce_identity = ident, ce_block = blockSize, ce_end = int (length tokens),
                 ce_digest = bk_digest key, ce_tokens = tokens, ce_snapshot = snap, ce_bytes = sizeBytes\<rparr>;
          i = ca_next c
      in sync_stats (c\<lparr>ca_ll := (i, ent) # ca_ll c, ca_next := Suc i,
           ca_buckets := (ca_buckets c)(key := ca_buckets c key @ [i]), ca_used := ca_used c + sizeBytes\<rparr>))"

definition Put ::
  "('w, 's) snap_ops \<Rightarrow> 's cache option \<Rightarrow> identity \<Rightarrow> int \<Rightarrow> int list \<Rightarrow> 's option \<Rightarrow> 'w \<Rightarrow>
     go_error option \<times> 's cache option \<times> 'w" where
  "Put ops co identity blockSize tokens snap w = (case co of None \<Rightarrow> (Some nil_cache, None, w) | Some c \<Rightarrow>
     case prepare_put ops c identity blockSize tokens snap w of
       (Inl err, w') \<Rightarrow>
         (Some err, Some (upd_stats (\<lambda>st. if errors_is err over_budget_name
            then st\<lparr>cs_budget_rejections := cs_budget_rejections st + 1\<rparr>
            else st\<lparr>cs_invalid_rejections := cs_invalid_rejections st + 1\<rparr>) c), w')
     | (Inr (ident, clone, sizeBytes, key), w') \<Rightarrow>
         let (found, n) = find_match (ca_ll c) ident tokens (ca_buckets c key);
             c1 = upd_stats (\<lambda>st. st\<lparr>cs_puts := cs_puts st + 1, cs_collisions := cs_collisions st + n\<rparr>) c
         in (None, Some (case found of
               Some (i, ent) \<Rightarrow> replace_entry i ent blockSize tokens clone sizeBytes key c1
             | None \<Rightarrow> insert_entry ident blockSize tokens clone sizeBytes key c1), w'))"

section \<open>Looking up\<close>

text \<open>The search, longest prefix first, under the lock; the keys come longest first.\<close>

fun find_keys ::
  "'s cache \<Rightarrow> string \<Rightarrow> int list \<Rightarrow> block_key list \<Rightarrow> (nat \<times> 's centry) option \<times> int" where
  "find_keys c ident tokens [] = (None, 0)"
| "find_keys c ident tokens (key # keys) =
     (case find_match (ca_ll c) ident (take (nat (bk_end key)) tokens) (ca_buckets c key) of
        (Some r, n) \<Rightarrow> (Some r, n)
      | (None, n) \<Rightarrow> let (r, m) = find_keys c ident tokens keys in (r, n + m))"

text \<open>
  While the snapshot is cloned the lock is not held: \<open>mid\<close> is whatever other goroutines do to
  the cache in between.
\<close>

definition FindLongest ::
  "('w, 's) snap_ops \<Rightarrow> ('s cache \<Rightarrow> 's cache) \<Rightarrow> 's cache option \<Rightarrow> identity \<Rightarrow> int \<Rightarrow> int list \<Rightarrow> 'w \<Rightarrow>
     (go_error + 's option) \<times> 's cache option \<times> 'w" where
  "FindLongest ops mid co identity blockSize tokens w = (case co of None \<Rightarrow> (Inl nil_cache, None, w) | Some c \<Rightarrow>
     let invalid = upd_stats (\<lambda>st. st\<lparr>cs_invalid_rejections := cs_invalid_rejections st + 1\<rparr>) in
     if blockSize \<le> 0 then (Inl ErrInvalidBlockSize, Some (invalid c), w)
     else case CanonicalBytes identity of Inl e \<Rightarrow> (Inl e, Some (invalid c), w) | Inr ident \<Rightarrow>
     let keys = prefixKeys ident blockSize tokens (ca_hash c);
         (found, n) = find_keys c ident tokens (rev keys);
         c1 = upd_stats (\<lambda>st. st\<lparr>cs_lookups := cs_lookups st + 1, cs_collisions := cs_collisions st + n\<rparr>) c
     in case found of
          None \<Rightarrow> (Inr None, Some (upd_stats (\<lambda>st. st\<lparr>cs_misses := cs_misses st + 1\<rparr>) c1), w)
        | Some (i, ent) \<Rightarrow>
          let c2 = mid (c1\<lparr>ca_ll := move_to_front i (ca_ll c1)\<rparr>);
              (clone, w1) = cloneSnapshotForRead ops (ce_snapshot ent) (ce_end ent) w
          in case clone of
               None \<Rightarrow> (Inr None, Some (upd_stats (\<lambda>st. st\<lparr>cs_misses := cs_misses st + 1\<rparr>) c2), w1)
             | Some k \<Rightarrow>
               let (b, w2) = sn_size ops k w1;
                   ok = (case b of Inl e \<Rightarrow> False | Inr n \<Rightarrow>
                     (case entryBytes n (int (length (ce_identity ent))) (int (length (ce_tokens ent))) of
                        Inl e \<Rightarrow> False | Inr charged \<Rightarrow> charged \<le> ce_bytes ent))
               in if ok then (Inr (Some k), Some (upd_stats (\<lambda>st. st\<lparr>cs_hits := cs_hits st + 1\<rparr>) c2), w2)
                  else (Inr None, Some (upd_stats (\<lambda>st. st\<lparr>cs_misses := cs_misses st + 1\<rparr>) c2), w2))"

definition CacheStats :: "'s cache option \<Rightarrow> cstats" where
  "CacheStats co = (case co of None \<Rightarrow> zero_stats 0 | Some c \<Rightarrow>
     (ca_stats c)\<lparr>cs_max_bytes := ca_max c, cs_used_bytes := ca_used c, cs_entries := length (ca_ll c)\<rparr>)"

end
