(* ===== verification/PromptCacheFacts.thy ===== *)
theory PromptCacheFacts
  imports PromptCache "HOL-Library.Sublist"
begin

text \<open>
  Facts about the prompt cache: the byte count is the sum of the entries' charges and within
  the budget, list and buckets hold the same entries, eviction takes the least recently used
  one, and a lookup returns the longest stored prefix of the query under the same identity,
  whatever the hash function is.
\<close>

section \<open>The invariant\<close>

definition total_bytes :: "'s cache \<Rightarrow> int" where
  "total_bytes c = sum_list (map (ce_bytes \<circ> snd) (ca_ll c))"

definition entry_ok :: "(string \<Rightarrow> digest) \<Rightarrow> 's centry \<Rightarrow> bool" where
  "entry_ok hash e \<longleftrightarrow> 0 < ce_block e \<and> ce_end e = int (length (ce_tokens e)) \<and> entryOverhead \<le> ce_bytes e \<and>
     prefixKeys (ce_identity e) (ce_block e) (ce_tokens e) hash \<noteq> [] \<and>
     length (ce_tokens e) mod nat (ce_block e) = 0 \<and>
     entry_key e = last (prefixKeys (ce_identity e) (ce_block e) (ce_tokens e) hash)"

definition same_prompt :: "'s centry \<Rightarrow> 's centry \<Rightarrow> bool" where
  "same_prompt a b \<longleftrightarrow> ce_identity a = ce_identity b \<and> ce_block a = ce_block b \<and> ce_tokens a = ce_tokens b"

definition cache_ok :: "'s cache \<Rightarrow> bool" where
  "cache_ok c \<longleftrightarrow> distinct (map fst (ca_ll c)) \<and> (\<forall>el \<in> set (ca_ll c). fst el < ca_next c) \<and>
     (\<forall>el \<in> set (ca_ll c). entry_ok (ca_hash c) (snd el)) \<and>
     (\<forall>k. distinct (ca_buckets c k)) \<and>
     (\<forall>k i. i \<in> set (ca_buckets c k) \<longleftrightarrow> (\<exists>e. (i, e) \<in> set (ca_ll c) \<and> entry_key e = k)) \<and>
     (\<forall>a \<in> set (ca_ll c). \<forall>b \<in> set (ca_ll c). same_prompt (snd a) (snd b) \<longrightarrow> fst a = fst b) \<and>
     ca_used c = total_bytes c \<and> ca_used c \<le> ca_max c \<and> 0 \<le> ca_max c \<and>
     cs_used_bytes (ca_stats c) = ca_used c \<and> cs_entries (ca_stats c) = length (ca_ll c)"

lemma cache_okI:
  assumes "distinct (map fst (ca_ll c))" "\<And>i e. (i, e) \<in> set (ca_ll c) \<Longrightarrow> i < ca_next c"
    and "\<And>i e. (i, e) \<in> set (ca_ll c) \<Longrightarrow> entry_ok (ca_hash c) e" "\<And>k. distinct (ca_buckets c k)"
    and "\<And>k i. i \<in> set (ca_buckets c k) \<longleftrightarrow> (\<exists>e. (i, e) \<in> set (ca_ll c) \<and> entry_key e = k)"
    and "\<And>i e j f. (i, e) \<in> set (ca_ll c) \<Longrightarrow> (j, f) \<in> set (ca_ll c) \<Longrightarrow> same_prompt e f \<Longrightarrow> i = j"
    and "ca_used c = total_bytes c" "ca_used c \<le> ca_max c" "0 \<le> ca_max c"
    and "cs_used_bytes (ca_stats c) = ca_used c" "cs_entries (ca_stats c) = length (ca_ll c)"
  shows "cache_ok c"
  unfolding cache_ok_def using assms by (intro conjI ballI allI impI; (fastforce | simp))

lemma cache_okD:
  assumes "cache_ok c"
  shows "distinct (map fst (ca_ll c))" "(i, e) \<in> set (ca_ll c) \<Longrightarrow> i < ca_next c"
    "(i, e) \<in> set (ca_ll c) \<Longrightarrow> entry_ok (ca_hash c) e" "distinct (ca_buckets c k)"
    "i \<in> set (ca_buckets c k) \<longleftrightarrow> (\<exists>e. (i, e) \<in> set (ca_ll c) \<and> entry_key e = k)"
    "(i, e) \<in> set (ca_ll c) \<Longrightarrow> (j, f) \<in> set (ca_ll c) \<Longrightarrow> same_prompt e f \<Longrightarrow> i = j"
    "ca_used c = total_bytes c" "ca_used c \<le> ca_max c" "0 \<le> ca_max c"
    "cs_used_bytes (ca_stats c) = ca_used c" "cs_entries (ca_stats c) = length (ca_ll c)"
  using assms unfolding cache_ok_def by (blast | fastforce)+

lemma NewCache_ok: "cache_ok (NewCache sha m h)"
  by (simp add: cache_ok_def NewCache_def Let_def total_bytes_def zero_stats_def)

lemma entryBytes_Inr:
  "entryBytes b i t = Inr n \<Longrightarrow> 0 \<le> b \<and> 0 \<le> i \<and> 0 \<le> t \<and> n = 256 + t * 8 + i + b \<and> n \<le> max_int64"
  by (auto simp: entryBytes_def Let_def entryOverhead_def split: if_splits)

lemma sum_bytes_filter:
  "distinct (map fst ll) \<Longrightarrow> (i, e) \<in> set ll \<Longrightarrow>
     sum_list (map (ce_bytes \<circ> snd) (filter (\<lambda>el. fst el \<noteq> i) ll)) = sum_list (map (ce_bytes \<circ> snd) ll) - ce_bytes e"
proof (induction ll)
  case (Cons el ll)
  show ?case
  proof (cases "el = (i, e)")
    case True
    with Cons.prems have "filter (\<lambda>el. fst el \<noteq> i) ll = ll" by (force simp: filter_id_conv)
    with True show ?thesis by simp
  next
    case False
    with Cons have "(i, e) \<in> set ll" "fst el \<noteq> i" by auto (force simp: image_iff)
    with Cons show ?thesis by simp
  qed
qed simp

lemma total_nonneg: "cache_ok c \<Longrightarrow> (i, e) \<in> set (ca_ll c) \<Longrightarrow> ce_bytes e \<le> ca_used c"
proof -
  assume ok: "cache_ok c" and mem: "(i, e) \<in> set (ca_ll c)"
  have "0 \<le> sum_list (map (ce_bytes \<circ> snd) (filter (\<lambda>el. fst el \<noteq> i) (ca_ll c)))"
    using ok by (intro sum_list_nonneg) (auto simp: cache_ok_def entry_ok_def entryOverhead_def)
  then show ?thesis using sum_bytes_filter [of "ca_ll c" i e] ok mem by (simp add: cache_ok_def total_bytes_def)
qed

lemma total_overhead: "cache_ok c \<Longrightarrow> entryOverhead * int (length (ca_ll c)) \<le> ca_used c"
proof -
  assume ok: "cache_ok c"
  have "entryOverhead * int (length ll) \<le> sum_list (map (ce_bytes \<circ> snd) ll)"
    if "\<forall>el \<in> set ll. entry_ok h (snd el)" for ll :: "(nat \<times> 's centry) list" and h
    using that by (induction ll) (auto simp: entry_ok_def algebra_simps)
  from this [of "ca_ll c" "ca_hash c"] show ?thesis using ok by (simp add: cache_ok_def total_bytes_def)
qed

lemma stats_only_ok [simp]:
  "(\<And>st. cs_used_bytes (f st) = cs_used_bytes st \<and> cs_entries (f st) = cs_entries st) \<Longrightarrow>
     cache_ok (upd_stats f c) = cache_ok c"
  by (simp add: cache_ok_def upd_stats_def total_bytes_def)

lemma upd_stats_sel [simp]:
  "ca_ll (upd_stats f c) = ca_ll c" "ca_used (upd_stats f c) = ca_used c" "ca_max (upd_stats f c) = ca_max c"
  "ca_hash (upd_stats f c) = ca_hash c" "ca_buckets (upd_stats f c) = ca_buckets c" "ca_next (upd_stats f c) = ca_next c"
  "ca_ll (sync_stats c) = ca_ll c" "ca_used (sync_stats c) = ca_used c" "ca_max (sync_stats c) = ca_max c"
  "ca_hash (sync_stats c) = ca_hash c" "ca_buckets (sync_stats c) = ca_buckets c" "ca_next (sync_stats c) = ca_next c"
  "cs_used_bytes (ca_stats (sync_stats c)) = ca_used c" "cs_entries (ca_stats (sync_stats c)) = length (ca_ll c)"
  by (simp_all add: upd_stats_def sync_stats_def)

section \<open>Eviction\<close>

lemma find_rev_split: "find P (rev xs) = Some x \<Longrightarrow> \<exists>as bs. xs = as @ x # bs \<and> P x \<and> (\<forall>y \<in> set bs. \<not> P y)"
proof (induction xs rule: rev_induct)
  case (snoc y ys)
  show ?case
  proof (cases "P y")
    case True
    with snoc.prems show ?thesis by (intro exI [of _ ys] exI [of _ "[]"]) simp
  next
    case False
    with snoc.prems have "find P (rev ys) = Some x" by simp
    from snoc.IH [OF this] obtain as bs where "ys = as @ x # bs" "P x" "\<forall>z \<in> set bs. \<not> P z" by blast
    with False show ?thesis by (intro exI [of _ as] exI [of _ "bs @ [y]"]) auto
  qed
qed simp

text \<open>What an eviction does: the last element other than the skipped one leaves the list.\<close>

lemma evictOne_Some:
  assumes "evictOne skip c = Some c'" "cache_ok c"
  obtains i e as bs where "ca_ll c = as @ (i, e) # bs" "Some i \<noteq> skip" "\<forall>el \<in> set bs. Some (fst el) = skip"
    "ca_ll c' = as @ bs" "ca_used c' = ca_used c - ce_bytes e" "ca_max c' = ca_max c" "ca_hash c' = ca_hash c"
    "ca_next c' = ca_next c" "cache_ok c'"
proof -
  from assms(1) obtain i e where f: "find (\<lambda>el. Some (fst el) \<noteq> skip) (rev (ca_ll c)) = Some (i, e)"
    by (auto simp: evictOne_def split: option.splits prod.splits)
  from find_rev_split [OF f] obtain as bs where ll: "ca_ll c = as @ (i, e) # bs" "Some i \<noteq> skip"
    "\<forall>el \<in> set bs. Some (fst el) = skip" by auto
  have mem: "(i, e) \<in> set (ca_ll c)" using ll by simp
  have dist: "distinct (map fst (ca_ll c))" using assms(2) by (simp add: cache_ok_def)
  have filt: "filter (\<lambda>el. fst el \<noteq> i) (ca_ll c) = as @ bs"
  proof -
    have "filter (\<lambda>el. fst el \<noteq> i) as = as" "filter (\<lambda>el. fst el \<noteq> i) bs = bs"
      using dist ll(1) by (force simp: filter_id_conv)+
    then show ?thesis by (simp add: ll(1))
  qed
  have used: "\<not> ca_used c - ce_bytes e < 0" using total_nonneg [OF assms(2) mem] by simp
  let ?c2 = "(removeBucketElement (entry_key e) i c)\<lparr>ca_ll := as @ bs, ca_used := ca_used c - ce_bytes e\<rparr>"
  have c': "c' = sync_stats (upd_stats (\<lambda>st. st\<lparr>cs_evictions := cs_evictions st + 1\<rparr>) ?c2)"
    using assms(1) f filt used by (simp add: evictOne_def Let_def removeBucketElement_def)
  have sub: "set (as @ bs) = {el \<in> set (ca_ll c). fst el \<noteq> i}" by (simp flip: filt)
  have bucket: "j \<in> set (ca_buckets c' k) \<longleftrightarrow> (\<exists>e'. (j, e') \<in> set (as @ bs) \<and> entry_key e' = k)" for j k
  proof -
    have bk: "j \<in> set (ca_buckets c k) \<longleftrightarrow> (\<exists>e'. (j, e') \<in> set (ca_ll c) \<and> entry_key e' = k)" "distinct (ca_buckets c k)"
      using assms(2) by (simp_all add: cache_ok_def)
    have only: "e' = e" if "(i, e') \<in> set (ca_ll c)" for e'
      using dist that mem by (metis eq_key_imp_eq_value)
    show ?thesis
    proof (cases "k = entry_key e")
      case True
      then have "j \<in> set (ca_buckets c' k) \<longleftrightarrow> j \<in> set (ca_buckets c k) \<and> j \<noteq> i"
        using bk(2) by (auto simp: c' removeBucketElement_def)
      then show ?thesis unfolding sub using bk(1) by auto
    next
      case False
      then have "j \<in> set (ca_buckets c' k) \<longleftrightarrow> j \<in> set (ca_buckets c k)"
        by (simp add: c' removeBucketElement_def)
      then show ?thesis unfolding sub using bk(1) only False by auto
    qed
  qed
  have sel: "ca_ll c' = as @ bs" "ca_used c' = ca_used c - ce_bytes e" "ca_max c' = ca_max c" "ca_hash c' = ca_hash c"
    "ca_next c' = ca_next c"
    by (simp_all add: c' removeBucketElement_def)
  have old: "(j, f) \<in> set (ca_ll c)" if "(j, f) \<in> set (ca_ll c')" for j f
    using that ll(1) by (auto simp: sel)
  have tot: "total_bytes c' = total_bytes c - ce_bytes e"
    using sum_bytes_filter [OF dist mem] by (simp add: total_bytes_def sel(1) filt)
  have pos: "0 \<le> ce_bytes e"
    using cache_okD(3) [OF assms(2) mem] by (simp add: entry_ok_def entryOverhead_def)
  have "cache_ok c'"
  proof (rule cache_okI, goal_cases)
    case 1 show ?case using dist ll(1) by (simp add: sel)
  next
    case (2 j f) show ?case unfolding sel by (rule cache_okD(2) [OF assms(2) old [OF 2]])
  next
    case (3 j f) show ?case unfolding sel by (rule cache_okD(3) [OF assms(2) old [OF 3]])
  next
    case (4 k) show ?case using cache_okD(4) [OF assms(2)] by (simp add: c' removeBucketElement_def)
  next
    case (5 k j) show ?case unfolding sel by (rule bucket)
  next
    case (6 j f j' f') show ?case by (rule cache_okD(6) [OF assms(2) old [OF 6(1)] old [OF 6(2)] 6(3)])
  qed (use cache_okD(7-9) [OF assms(2)] tot pos in \<open>simp_all add: sel, simp_all add: c' removeBucketElement_def\<close>)
  with ll sel show thesis by (intro that) auto
qed

lemma evictOne_None: "evictOne skip c = None \<Longrightarrow> \<forall>el \<in> set (ca_ll c). Some (fst el) = skip"
proof -
  assume "evictOne skip c = None"
  then have "find (\<lambda>el. Some (fst el) \<noteq> skip) (rev (ca_ll c)) = None"
    by (auto simp: evictOne_def Let_def split: option.splits)
  then show ?thesis unfolding find_None_iff set_rev by blast
qed

text \<open>The loop ends below the threshold; the skipped element stays.\<close>

lemma evict_loop_spec:
  assumes "cache_ok c" "0 \<le> threshold"
    and "case skip of None \<Rightarrow> own = 0 | Some i \<Rightarrow> (\<exists>e. (i, e) \<in> set (ca_ll c) \<and> own = ce_bytes e)"
  defines "c' \<equiv> evict_loop skip own threshold c"
  shows "cache_ok c' \<and> ca_used c' - own \<le> threshold \<and> set (ca_ll c') \<subseteq> set (ca_ll c) \<and>
     ca_max c' = ca_max c \<and> ca_hash c' = ca_hash c \<and> ca_next c' = ca_next c \<and>
     (\<forall>i e. skip = Some i \<longrightarrow> (i, e) \<in> set (ca_ll c) \<longrightarrow> (i, e) \<in> set (ca_ll c')) \<and>
     (skip = None \<longrightarrow> prefix (ca_ll c') (ca_ll c))"
  unfolding c'_def using assms(1-3)
proof (induction skip own threshold c rule: evict_loop.induct)
  case (1 skip own threshold c)
  show ?case
  proof (cases "ca_used c - own > threshold")
    case False
    then have "evict_loop skip own threshold c = c" by (subst evict_loop.simps) simp
    moreover from this have "skip = Some i \<Longrightarrow> evict_loop (Some i) own threshold c = c" for i by simp
    moreover from calculation have "skip = None \<Longrightarrow> evict_loop None own threshold c = c" by simp
    ultimately show ?thesis using 1(2) False by auto
  next
    case True
    show ?thesis
    proof (cases "evictOne skip c")
      case None
      from evictOne_None [OF None] have only: "\<forall>el \<in> set (ca_ll c). Some (fst el) = skip" .
      have "ca_used c = own"
      proof (cases skip)
        case None
        with only have "ca_ll c = []" by (cases "ca_ll c") auto
        with None 1(2,4) show ?thesis by (simp add: cache_ok_def total_bytes_def)
      next
        case (Some i)
        with 1(4) obtain e where e: "(i, e) \<in> set (ca_ll c)" "own = ce_bytes e" by auto
        have "filter (\<lambda>el. fst el \<noteq> i) (ca_ll c) = []" using only Some by (auto simp: filter_empty_conv)
        with sum_bytes_filter [OF _ e(1)] e(2) 1(2) show ?thesis by (simp add: cache_ok_def total_bytes_def)
      qed
      with True 1(3) show ?thesis by simp
    next
      case (Some c1)
      obtain i e as bs where ev: "ca_ll c = as @ (i, e) # bs" "Some i \<noteq> skip" "\<forall>el \<in> set bs. Some (fst el) = skip"
        "ca_ll c1 = as @ bs" "ca_max c1 = ca_max c" "ca_hash c1 = ca_hash c"
        "ca_next c1 = ca_next c" "cache_ok c1"
        by (rule evictOne_Some [OF Some 1(2)])
      have keep: "(j, e') \<in> set (ca_ll c1)" if "skip = Some j" "(j, e') \<in> set (ca_ll c)" for j e'
        using that ev(1,2,4) by auto
      have own: "case skip of None \<Rightarrow> own = 0 | Some i \<Rightarrow> (\<exists>e. (i, e) \<in> set (ca_ll c1) \<and> own = ce_bytes e)"
        using 1(4) keep by (auto split: option.splits)
      note IH = 1(1) [OF True Some ev(8) 1(3) own]
      have eq: "evict_loop skip own threshold c = evict_loop skip own threshold c1"
        using True Some by (subst evict_loop.simps) simp
      have "prefix (ca_ll c1) (ca_ll c)" if "skip = None"
        using ev(1,3,4) that by (cases bs) auto
      moreover have "set (ca_ll c1) \<subseteq> set (ca_ll c)" using ev(1,4) by auto
      moreover have "\<forall>j f. skip = Some j \<longrightarrow> (j, f) \<in> set (ca_ll c) \<longrightarrow> (j, f) \<in> set (ca_ll (evict_loop skip own threshold c1))"
        using IH keep by blast
      moreover have "skip = None \<Longrightarrow> prefix (ca_ll (evict_loop skip own threshold c1)) (ca_ll c1)" using IH by blast
      ultimately show ?thesis unfolding eq using IH ev(5,6,7) prefix_order.trans by (simp add: subset_trans) blast
    qed
  qed
qed

section \<open>Keys\<close>

lemma prefix_loop_length [simp]: "length (prefix_loop hash ident bs ts prev fin n) = n"
  by (induction n arbitrary: prev fin) (simp_all add: Let_def)

lemma prefix_loop_end: "j < n \<Longrightarrow> bk_end (prefix_loop hash ident bs ts prev fin n ! j) = int (fin + Suc j * bs)"
proof (induction n arbitrary: prev fin j)
  case (Suc n)
  show ?case
  proof (cases j)
    case (Suc j')
    with Suc.prems Suc.IH [of j'] show ?thesis by (simp add: Let_def)
  qed (simp add: Let_def)
qed simp

lemma prefix_loop_take:
  "m \<le> n \<Longrightarrow> fin + m * bs \<le> k \<Longrightarrow>
     prefix_loop hash ident bs (take k ts) prev fin m = take m (prefix_loop hash ident bs ts prev fin n)"
proof (induction m arbitrary: n prev fin)
  case (Suc m)
  then obtain n' where n: "n = Suc n'" by (cases n) auto
  have "take bs (drop fin (take k ts)) = take bs (drop fin ts)"
    using Suc.prems by (simp add: drop_take min_def)
  with Suc show ?case by (simp add: n Let_def)
qed simp

text \<open>The keys of a prefix are the first keys of the whole.\<close>

lemma prefixKeys_take:
  assumes "0 < B" "m * nat B \<le> length ts"
  shows "prefixKeys ident B (take (m * nat B) ts) hash = take m (prefixKeys ident B ts hash)"
proof -
  have "m \<le> length ts div nat B" using assms by (simp add: less_eq_div_iff_mult_less_eq)
  moreover have "length (take (m * nat B) ts) div nat B = m" using assms by (simp add: min_def)
  ultimately show ?thesis
    using assms by (simp add: prefixKeys_def prefix_loop_take del: length_take)
qed

lemma prefixKeys_length: "0 < B \<Longrightarrow> length (prefixKeys ident B ts hash) = length ts div nat B"
  by (simp add: prefixKeys_def)

lemma prefixKeys_end:
  "j < length (prefixKeys ident B ts hash) \<Longrightarrow> bk_end (prefixKeys ident B ts hash ! j) = int (Suc j * nat B)"
  unfolding prefixKeys_def by (simp add: prefix_loop_end split: if_splits)

lemma prefix_loop_size: "key \<in> set (prefix_loop hash ident bs ts prev fin n) \<Longrightarrow> bk_size key = int bs"
  by (induction n arbitrary: prev fin) (auto simp: Let_def)

lemma prefixKeys_size: "key \<in> set (prefixKeys ident B ts hash) \<Longrightarrow> bk_size key = B"
  unfolding prefixKeys_def by (auto simp: prefix_loop_size split: if_splits)

section \<open>Lookup\<close>

lemma find_match_Some:
  "find_match ll ident ts is = (Some (i, e), n) \<Longrightarrow> i \<in> set is \<and> map_of ll i = Some e \<and> matches e ident ts"
  by (induction "is" arbitrary: n) (auto simp: Let_def split: option.splits if_splits prod.splits)

lemma find_match_None:
  "find_match ll ident ts is = (None, n) \<Longrightarrow> i \<in> set is \<Longrightarrow> map_of ll i = Some e \<Longrightarrow> \<not> matches e ident ts"
  by (induction "is" arbitrary: n) (auto simp: Let_def split: option.splits if_splits prod.splits)

definition match_at :: "'s cache \<Rightarrow> string \<Rightarrow> int list \<Rightarrow> block_key \<Rightarrow> (nat \<times> 's centry) option" where
  "match_at c ident ts key = fst (find_match (ca_ll c) ident (take (nat (bk_end key)) ts) (ca_buckets c key))"

lemma find_keys_Some:
  "find_keys c ident ts ks = (Some r, n) \<Longrightarrow>
     \<exists>pre key post. ks = pre @ key # post \<and> match_at c ident ts key = Some r \<and> (\<forall>k \<in> set pre. match_at c ident ts k = None)"
proof (induction ks arbitrary: n)
  case (Cons key ks)
  obtain q a where q: "find_match (ca_ll c) ident (take (nat (bk_end key)) ts) (ca_buckets c key) = (q, a)"
    by fastforce
  show ?case
  proof (cases q)
    case None
    with Cons.prems q obtain n' where "find_keys c ident ts ks = (Some r, n')"
      by (auto simp: Let_def split: prod.splits)
    from Cons.IH [OF this] obtain pre key' post where "ks = pre @ key' # post" "match_at c ident ts key' = Some r"
      "\<forall>k \<in> set pre. match_at c ident ts k = None" by blast
    then show ?thesis using None q by (intro exI [of _ "key # pre"] exI [of _ key'] exI [of _ post]) (simp add: match_at_def)
  next
    case (Some r')
    with Cons.prems q have "r' = r" by simp
    with Some q show ?thesis by (intro exI [of _ "[]"] exI [of _ key] exI [of _ ks]) (simp add: match_at_def)
  qed
qed simp

lemma find_keys_None:
  "find_keys c ident ts ks = (None, n) \<Longrightarrow> key \<in> set ks \<Longrightarrow> match_at c ident ts key = None"
  by (induction ks arbitrary: n) (auto simp: match_at_def Let_def split: option.splits prod.splits)

text \<open>The entry a stored prefix of the query has in the buckets is found at its own key.\<close>

lemma stored_prefix_key:
  assumes ok: "cache_ok c" and mem: "(j, e) \<in> set (ca_ll c)" "ce_identity e = ident" "ce_block e = B" "prefix (ce_tokens e) ts"
  defines "ks \<equiv> prefixKeys ident B ts (ca_hash c)"
  obtains m where "0 < m" "m \<le> length ks" "length (ce_tokens e) = m * nat B" "match_at c ident ts (ks ! (m - 1)) \<noteq> None"
proof -
  have e: "entry_ok (ca_hash c) e" by (rule cache_okD(3) [OF ok mem(1)])
  then have B: "0 < B" using mem(3) by (simp add: entry_ok_def)
  have "length (ce_tokens e) mod nat B = 0" using e mem(3) by (simp add: entry_ok_def)
  then obtain m where m: "length (ce_tokens e) = m * nat B" by (metis mod_0_imp_dvd dvd_def mult.commute)
  have tk: "ce_tokens e = take (m * nat B) ts" using mem(4) m by (metis append_eq_conv_conj prefix_def)
  have le: "m * nat B \<le> length ts" using mem(4) m by (metis prefix_length_le)
  have pk: "prefixKeys (ce_identity e) (ce_block e) (ce_tokens e) (ca_hash c) = take m ks"
    unfolding mem(2,3) tk ks_def by (rule prefixKeys_take [OF B le])
  have len: "m \<le> length ks"
    using B le by (simp add: ks_def prefixKeys_length less_eq_div_iff_mult_less_eq)
  have m0: "0 < m" using e pk by (auto simp: entry_ok_def)
  have key: "entry_key e = ks ! (m - 1)"
    using e m0 len unfolding entry_ok_def pk by (simp add: last_conv_nth min_def)
  have "bk_end (ks ! (m - 1)) = int (m * nat B)"
    using prefixKeys_end [of "m - 1" ident B ts "ca_hash c"] m0 len by (simp add: ks_def)
  then have mt: "matches e ident (take (nat (bk_end (ks ! (m - 1)))) ts)"
    using mem(2) tk by (simp only: matches_def nat_int)
  have "j \<in> set (ca_buckets c (ks ! (m - 1)))"
    using cache_okD(5) [OF ok] mem(1) key by blast
  moreover have "map_of (ca_ll c) j = Some e" using cache_okD(1) [OF ok] mem(1) by simp
  ultimately have "match_at c ident ts (ks ! (m - 1)) \<noteq> None"
    using find_match_None mt unfolding match_at_def by (metis prod.collapse)
  with m0 len m show thesis by (rule that)
qed

text \<open>
  The search returns a stored prefix of the query under the same identity and block size, and no
  longer one is stored; when it returns nothing, none is stored.
\<close>

theorem lookup_longest:
  assumes ok: "cache_ok c"
  shows "case fst (find_keys c ident ts (rev (prefixKeys ident B ts (ca_hash c)))) of
      Some (i, e) \<Rightarrow> (i, e) \<in> set (ca_ll c) \<and> ce_identity e = ident \<and> ce_block e = B \<and> prefix (ce_tokens e) ts \<and>
        (\<forall>j f. (j, f) \<in> set (ca_ll c) \<longrightarrow> ce_identity f = ident \<longrightarrow> ce_block f = B \<longrightarrow> prefix (ce_tokens f) ts \<longrightarrow>
          length (ce_tokens f) \<le> length (ce_tokens e))
    | None \<Rightarrow> \<not> (\<exists>j f. (j, f) \<in> set (ca_ll c) \<and> ce_identity f = ident \<and> ce_block f = B \<and> prefix (ce_tokens f) ts)"
proof -
  define ks where "ks = prefixKeys ident B ts (ca_hash c)"
  obtain r n where r: "find_keys c ident ts (rev ks) = (r, n)" by fastforce
  show ?thesis
  proof (cases r)
    case None
    have False if "(j, f) \<in> set (ca_ll c)" "ce_identity f = ident" "ce_block f = B" "prefix (ce_tokens f) ts" for j f
    proof -
      note stored = that
      obtain m where m: "0 < m" "m \<le> length ks" "match_at c ident ts (ks ! (m - 1)) \<noteq> None"
        by (rule stored_prefix_key [OF ok stored, folded ks_def])
      then have "ks ! (m - 1) \<in> set (rev ks)" by simp
      with find_keys_None [of c ident ts "rev ks" n] r None m(3) show False by simp
    qed
    then show ?thesis using r None by (auto simp: ks_def [symmetric])
  next
    case (Some ie)
    obtain i e where ie: "ie = (i, e)" by fastforce
    from find_keys_Some r Some ie obtain pre key post where f: "rev ks = pre @ key # post"
      "match_at c ident ts key = Some (i, e)" "\<forall>k \<in> set pre. match_at c ident ts k = None" by blast
    from f(2) obtain a where "find_match (ca_ll c) ident (take (nat (bk_end key)) ts) (ca_buckets c key) = (Some (i, e), a)"
      unfolding match_at_def by (metis prod.collapse)
    note fm = find_match_Some [OF this]
    have mem: "(i, e) \<in> set (ca_ll c)" using fm by (meson map_of_SomeD)
    have idx: "ks = rev post @ key # rev pre"
    proof -
      have "rev (rev ks) = rev (pre @ key # post)" by (simp only: f(1))
      then show ?thesis by simp
    qed
    have key: "entry_key e = key"
      using fm cache_okD(1) [OF ok] cache_okD(5) [OF ok, of i key] mem by (metis map_of_eq_Some_iff option.inject)
    have "key \<in> set ks" by (simp add: idx)
    then have blk: "ce_block e = B" using key prefixKeys_size unfolding ks_def entry_key_def by force
    have pre: "prefix (ce_tokens e) ts" using fm by (simp add: matches_def take_is_prefix)
    have "key = ks ! length post" by (simp add: idx nth_append)
    moreover have "length post < length ks" by (simp add: idx)
    ultimately have kend: "bk_end key = int (Suc (length post) * nat B)"
      unfolding ks_def by (metis prefixKeys_end)
    have "entry_ok (ca_hash c) e" by (rule cache_okD(3) [OF ok mem])
    then have "ce_end e = int (length (ce_tokens e))" by (simp add: entry_ok_def)
    moreover have "bk_end key = ce_end e" by (simp add: entry_key_def flip: key)
    ultimately have len: "length (ce_tokens e) = Suc (length post) * nat B" using kend by (metis nat_int)
    have best: "length (ce_tokens f) \<le> length (ce_tokens e)"
      if "(j, f) \<in> set (ca_ll c)" "ce_identity f = ident" "ce_block f = B" "prefix (ce_tokens f) ts" for j f
    proof -
      note stored = that
      obtain m where m: "0 < m" "m \<le> length ks" "length (ce_tokens f) = m * nat B" "match_at c ident ts (ks ! (m - 1)) \<noteq> None"
        by (rule stored_prefix_key [OF ok stored, folded ks_def])
      have "m - 1 \<le> length post"
      proof (rule ccontr)
        assume "\<not> m - 1 \<le> length post"
        then have "ks ! (m - 1) = rev pre ! (m - 1 - Suc (length post))" "m - 1 - Suc (length post) < length (rev pre)"
          using m(1,2) by (simp_all add: idx nth_append nth_Cons')
        then have "ks ! (m - 1) \<in> set pre" by (metis nth_mem set_rev)
        with f(3) m(4) show False by simp
      qed
      then have "m \<le> Suc (length post)" using m(1) by simp
      then show ?thesis unfolding len m(3) by (rule mult_le_mono1)
    qed
    show ?thesis using r Some ie mem fm blk pre best by (simp add: ks_def [symmetric] matches_def)
  qed
qed

section \<open>Storing\<close>

lemma prepare_put_Inr:
  assumes "prepare_put ops c ident B ts snap w = (Inr (canon, k, n, key), w')"
  shows "0 < B \<and> length ts mod nat B = 0 \<and> n \<le> ca_max c \<and> entryOverhead \<le> n \<and> 0 < ca_max c \<and>
     CanonicalBytes ident = Inr canon \<and> prefixKeys canon B ts (ca_hash c) \<noteq> [] \<and> key = last (prefixKeys canon B ts (ca_hash c))"
proof -
  have rem: "length ts mod nat B = 0" if "0 < B" "go_rem (int (length ts)) B = 0"
  proof -
    have "int (length ts) mod B = 0" using that by (simp add: go_rem_nonneg)
    then show ?thesis using that(1) by (metis nat_int nat_mod_distrib nat_zero_as_int of_nat_0_le_iff order_less_imp_le)
  qed
  have "0 < B" "go_rem (int (length ts)) B = 0" "n \<le> ca_max c" "0 < ca_max c" "CanonicalBytes ident = Inr canon"
    "prefixKeys canon B ts (ca_hash c) \<noteq> []" "key = last (prefixKeys canon B ts (ca_hash c))"
    "\<exists>b i t. entryBytes b i t = Inr n"
    using assms unfolding prepare_put_def Let_def by (auto split: if_splits sum.splits option.splits prod.splits)
  moreover from this(8) have "entryOverhead \<le> n" using entryBytes_Inr unfolding entryOverhead_def by fastforce
  ultimately show ?thesis using rem by blast
qed

text \<open>Inserting: nothing stored has the same identity, block size and tokens.\<close>

lemma insert_entry_ok:
  fixes c :: "'s cache" and k :: 's
  assumes ok: "cache_ok c" and put: "0 < B" "length ts mod nat B = 0" "n \<le> ca_max c" "entryOverhead \<le> n"
      "prefixKeys canon B ts (ca_hash c) \<noteq> []" "key = last (prefixKeys canon B ts (ca_hash c))"
    and fresh: "\<And>j f. (j, f) \<in> set (ca_ll c) \<Longrightarrow> ce_identity f = canon \<Longrightarrow> ce_block f = B \<Longrightarrow> ce_tokens f \<noteq> ts"
  defines "c' \<equiv> insert_entry canon B ts k n key c"
  shows "cache_ok c' \<and> ca_max c' = ca_max c \<and> ca_hash c' = ca_hash c \<and>
     (\<exists>e rest. ca_ll c' = (ca_next c, e) # rest \<and> prefix rest (ca_ll c) \<and> ce_identity e = canon \<and>
        ce_block e = B \<and> ce_tokens e = ts \<and> ce_snapshot e = k \<and> ce_bytes e = n)"
proof -
  define c1 where "c1 = evict_loop None 0 (ca_max c - n) c"
  define e where "e = \<lparr>ce_identity = canon, ce_block = B, ce_end = int (length ts), ce_digest = bk_digest key,
    ce_tokens = ts, ce_snapshot = k, ce_bytes = n\<rparr>"
  have thr: "0 \<le> ca_max c - n" using put(3) by simp
  from evict_loop_spec [OF ok thr, where skip = None and own = 0, folded c1_def]
  have c1: "cache_ok c1" "ca_used c1 \<le> ca_max c - n" "set (ca_ll c1) \<subseteq> set (ca_ll c)" "ca_max c1 = ca_max c"
    "ca_hash c1 = ca_hash c" "ca_next c1 = ca_next c" "prefix (ca_ll c1) (ca_ll c)" by simp_all
  have last: "bk_end key = int (length ts)" "bk_size key = B"
  proof -
    define ks where "ks = prefixKeys canon B ts (ca_hash c)"
    have "key = ks ! (length ks - 1)" "length ks - 1 < length ks" using put(5,6) by (simp_all add: last_conv_nth ks_def)
    then have "bk_end key = int (Suc (length ks - 1) * nat B)" unfolding ks_def by (metis prefixKeys_end)
    moreover have "Suc (length ks - 1) = length ts div nat B"
      using put(5) prefixKeys_length [OF put(1), of canon ts "ca_hash c"]
      by (metis Suc_diff_1 ks_def length_greater_0_conv)
    ultimately show "bk_end key = int (length ts)" using put(2) by (metis add_0_right div_mult_mod_eq)
    show "bk_size key = B" using put(5,6) prefixKeys_size last_in_set by metis
  qed
  have ekey: "entry_key e = key" using last by (simp add: entry_key_def e_def)
  have eok: "entry_ok (ca_hash c) e"
    using put ekey unfolding entry_ok_def by (simp add: e_def)
  have c': "ca_ll c' = (ca_next c, e) # ca_ll c1" "ca_next c' = Suc (ca_next c)" "ca_max c' = ca_max c"
    "ca_hash c' = ca_hash c" "ca_used c' = ca_used c1 + n" "ca_buckets c' = (ca_buckets c1)(key := ca_buckets c1 key @ [ca_next c])"
    "cs_used_bytes (ca_stats c') = ca_used c1 + n" "cs_entries (ca_stats c') = Suc (length (ca_ll c1))"
    unfolding c'_def insert_entry_def Let_def c1_def [symmetric]
    by (simp_all add: e_def c1 )
  have old: "i < ca_next c" if "(i, f) \<in> set (ca_ll c1)" for i f using cache_okD(2) [OF c1(1) that] c1(6) by simp
  have notin: "ca_next c \<notin> set (ca_buckets c1 j)" for j using cache_okD(5) [OF c1(1)] old by blast
  have diff: "\<not> same_prompt e f" "\<not> same_prompt f e" if "(j, f) \<in> set (ca_ll c1)" for j f
  proof -
    have "(j, f) \<in> set (ca_ll c)" using that c1(3) by blast
    from fresh [OF this] show "\<not> same_prompt e f" "\<not> same_prompt f e" unfolding same_prompt_def e_def by auto
  qed
  have "cache_ok c'"
  proof (rule cache_okI, goal_cases)
    case 1 show ?case using cache_okD(1) [OF c1(1)] old by (fastforce simp: c')
  next
    case (2 j f) then show ?case using old by (fastforce simp: c')
  next
    case (3 j f) then show ?case using eok cache_okD(3) [OF c1(1)] c1(5) by (auto simp: c')
  next
    case (4 j) show ?case using cache_okD(4) [OF c1(1)] notin by (simp add: c')
  next
    case (5 j i) show ?case
      using cache_okD(5) [OF c1(1), of i j] ekey by (auto simp: c')
  next
    case (6 i f j g)
    consider "(i, f) = (ca_next c, e)" "(j, g) = (ca_next c, e)" | "(i, f) = (ca_next c, e)" "(j, g) \<in> set (ca_ll c1)"
      | "(i, f) \<in> set (ca_ll c1)" "(j, g) = (ca_next c, e)" | "(i, f) \<in> set (ca_ll c1)" "(j, g) \<in> set (ca_ll c1)"
      using 6(1,2) by (auto simp: c')
    then show ?case using diff 6(3) cache_okD(6) [OF c1(1)] by cases blast+
  next
    case 7 show ?case using cache_okD(7) [OF c1(1)] by (simp add: c' total_bytes_def e_def)
  qed (use c1(2) cache_okD(9) [OF ok] in \<open>simp_all add: c'\<close>)
  with c' c1(7) show ?thesis by (simp add: e_def)
qed

lemma map_update_ids [simp]: "map fst (map (\<lambda>el. if fst el = i then (i, e) else el) ll) = map fst ll"
  by (induction ll) auto

lemma move_to_front_set [simp]: "set (move_to_front i ll) = set ll"
  by (auto simp: move_to_front_def)

lemma move_to_front_ids: "distinct (map fst ll) \<Longrightarrow> distinct (map fst (move_to_front i ll))"
  by (auto simp: move_to_front_def distinct_map_filter)

lemma move_to_front_length [simp]: "length (move_to_front i ll) = length ll"
  using sum_length_filter_compl [of "\<lambda>el. fst el = i" ll] by (simp add: move_to_front_def)

lemma sum_filter_split: "sum_list (map f (filter P xs)) + sum_list (map f (filter (\<lambda>x. \<not> P x) xs)) = sum_list (map f xs)"
  for f :: "'a \<Rightarrow> int"
  by (induction xs) auto

lemma move_to_front_sum:
  "sum_list (map f (move_to_front i ll)) = sum_list (map f ll)" for f :: "(nat \<times> 'b centry) \<Rightarrow> int"
  using sum_filter_split [of f "\<lambda>el. fst el = i" ll] by (simp add: move_to_front_def)

lemma move_to_front_head:
  assumes "distinct (map fst ll)" "(i, e) \<in> set ll"
  shows "\<exists>rest. move_to_front i ll = (i, e) # rest"
proof -
  obtain as bs where ll: "ll = as @ (i, e) # bs" using split_list [OF assms(2)] by blast
  have "filter (\<lambda>el. fst el = i) as = []" "filter (\<lambda>el. fst el = i) bs = []"
    using assms(1) ll by (force simp: filter_empty_conv)+
  then show ?thesis by (simp add: move_to_front_def ll)
qed

lemma update_sum:
  "distinct (map fst ll) \<Longrightarrow> (i, e) \<in> set ll \<Longrightarrow>
     sum_list (map (ce_bytes \<circ> snd) (map (\<lambda>el. if fst el = i then (i, e') else el) ll)) =
       sum_list (map (ce_bytes \<circ> snd) ll) - ce_bytes e + ce_bytes e'"
proof (induction ll)
  case (Cons el ll)
  show ?case
  proof (cases "el = (i, e)")
    case True
    with Cons.prems have "map (\<lambda>el. if fst el = i then (i, e') else el) ll = ll"
      by (intro map_idI) (force simp: image_iff)
    with True show ?thesis by simp
  next
    case False
    with Cons.prems have "(i, e) \<in> set ll" "fst el \<noteq> i" by auto (force simp: image_iff)
    with Cons show ?thesis by simp
  qed
qed simp

text \<open>Replacing: the stored entry keeps its key and its tokens, and moves to the front.\<close>

lemma replace_entry_ok:
  fixes c :: "'s cache" and k :: 's
  assumes ok: "cache_ok c" and mem: "(i, e) \<in> set (ca_ll c)" and e: "ce_tokens e = ts" "entry_key e = key" "ce_block e = B"
    and put: "n \<le> ca_max c" "entryOverhead \<le> n"
  defines "c' \<equiv> replace_entry i e B ts k n key c"
  shows "cache_ok c' \<and> ca_max c' = ca_max c \<and> ca_hash c' = ca_hash c \<and>
     (\<exists>e' rest. ca_ll c' = (i, e') # rest \<and> ce_identity e' = ce_identity e \<and>
        ce_block e' = B \<and> ce_tokens e' = ts \<and> ce_snapshot e' = k \<and> ce_bytes e' = n)"
proof -
  define c1 where "c1 = evict_loop (Some i) (ce_bytes e) (ca_max c - n) c"
  have thr: "0 \<le> ca_max c - n" using put(1) by simp
  from evict_loop_spec [OF ok thr, where skip = "Some i" and own = "ce_bytes e", folded c1_def] mem
  have c1: "cache_ok c1" "ca_used c1 - ce_bytes e \<le> ca_max c - n" "set (ca_ll c1) \<subseteq> set (ca_ll c)" "ca_max c1 = ca_max c"
    "ca_hash c1 = ca_hash c" "ca_next c1 = ca_next c" "(i, e) \<in> set (ca_ll c1)" by (auto simp: c1_def)
  have eok: "entry_ok (ca_hash c) e" by (rule cache_okD(3) [OF ok mem])
  define e' where "e' = e\<lparr>ce_snapshot := k, ce_bytes := n\<rparr>"
  have e'_eq: "e\<lparr>ce_snapshot := k, ce_bytes := n, ce_block := B, ce_end := int (length ts), ce_digest := bk_digest key\<rparr> = e'"
  proof -
    have "bk_digest key = ce_digest e" by (simp add: entry_key_def flip: e(2))
    moreover have "ce_end e = int (length ts)" using eok e(1) by (simp add: entry_ok_def)
    ultimately show ?thesis using e(1,3) by (simp add: e'_def)
  qed
  have same: "entry_key e' = entry_key e" "entry_ok (ca_hash c) e'" "ce_bytes e' = n"
    "same_prompt e' = same_prompt e" "\<And>f. same_prompt f e' = same_prompt f e"
    using eok put(2) by (auto simp: e'_def entry_key_def entry_ok_def same_prompt_def fun_eq_iff)
  define ll where "ll = map (\<lambda>el. if fst el = i then (i, e') else el) (ca_ll c1)"
  have base: "\<not> ca_used c1 - ce_bytes e < 0" using total_nonneg [OF c1(1,7)] by simp
  have c': "ca_ll c' = move_to_front i ll" "ca_next c' = ca_next c1" "ca_max c' = ca_max c"
    "ca_hash c' = ca_hash c" "ca_used c' = ca_used c1 - ce_bytes e + n" "ca_buckets c' = ca_buckets c1"
    "cs_used_bytes (ca_stats c') = ca_used c1 - ce_bytes e + n" "cs_entries (ca_stats c') = length (ca_ll c1)"
    using base unfolding c'_def replace_entry_def Let_def c1_def [symmetric] e'_eq
    by (simp_all add: ll_def c1 upd_stats_def sync_stats_def)
  have dist: "distinct (map fst (ca_ll c1))" by (rule cache_okD(1) [OF c1(1)])
  have only: "f = e" if "(i, f) \<in> set (ca_ll c1)" for f
    using dist that c1(7) by (metis eq_key_imp_eq_value)
  have member: "(j, f) \<in> set (ca_ll c') \<longleftrightarrow> (if j = i then f = e' else (j, f) \<in> set (ca_ll c1))" for j f
  proof -
    have "(i, e') \<in> set ll" using c1(7) unfolding ll_def by force
    then show ?thesis by (auto simp: c' ll_def)
  qed
  have orig: "\<exists>g. (j, g) \<in> set (ca_ll c1) \<and> entry_key g = entry_key f \<and> same_prompt g = same_prompt f \<and>
      (\<forall>h. same_prompt h g = same_prompt h f) \<and> entry_ok (ca_hash c) f"
    if "(j, f) \<in> set (ca_ll c')" for j f
  proof (cases "j = i")
    case True with that member show ?thesis using c1(7) same by auto
  next
    case False with that member show ?thesis using cache_okD(3) [OF c1(1)] c1(5) by auto
  qed
  have "cache_ok c'"
  proof (rule cache_okI, goal_cases)
    case 1 show ?case using dist unfolding c' by (intro move_to_front_ids) (simp only: ll_def map_update_ids)
  next
    case (2 j f) show ?case using orig [OF 2] cache_okD(2) [OF c1(1)] by (auto simp: c')
  next
    case (3 j f) show ?case unfolding c' using orig [OF 3] by blast
  next
    case (4 j) show ?case using cache_okD(4) [OF c1(1)] by (simp add: c')
  next
    case (5 j m)
    have "(\<exists>f. (m, f) \<in> set (ca_ll c') \<and> entry_key f = j) \<longleftrightarrow> (\<exists>f. (m, f) \<in> set (ca_ll c1) \<and> entry_key f = j)"
    proof (cases "m = i")
      case True
      have "(\<exists>f. (m, f) \<in> set (ca_ll c') \<and> entry_key f = j) \<longleftrightarrow> entry_key e = j"
        unfolding member True by (simp add: same(1))
      moreover have "(\<exists>f. (m, f) \<in> set (ca_ll c1) \<and> entry_key f = j) \<longleftrightarrow> entry_key e = j"
        using only c1(7) unfolding True by blast
      ultimately show ?thesis by blast
    qed (simp add: member)
    then show ?case using cache_okD(5) [OF c1(1)] by (simp add: c')
  next
    case (6 a f b g)
    from orig [OF 6(1)] orig [OF 6(2)] obtain f' g' where "(a, f') \<in> set (ca_ll c1)" "(b, g') \<in> set (ca_ll c1)"
      "same_prompt f' = same_prompt f" "\<forall>h. same_prompt h g' = same_prompt h g" by blast
    with 6(3) show ?case by (metis cache_okD(6) [OF c1(1)])
  next
    case 7 show ?case
      using update_sum [OF dist c1(7), of e'] cache_okD(7) [OF c1(1)] same(3)
      by (simp add: c' total_bytes_def move_to_front_sum ll_def)
  qed (use c1(2) cache_okD(9) [OF ok] in \<open>simp_all add: c' ll_def\<close>)
  moreover have "\<exists>rest. ca_ll c' = (i, e') # rest"
    unfolding c'(1)
  proof (rule move_to_front_head)
    show "distinct (map fst ll)" using dist by (simp only: ll_def map_update_ids)
    show "(i, e') \<in> set ll" using c1(7) unfolding ll_def by force
  qed
  ultimately show ?thesis using c' e by (auto simp: e'_def)
qed

text \<open>
  Storing: on an error only the rejection counters change; on success the cache is still good and
  the front entry is the snapshot under its identity, block size and tokens.
\<close>

lemma Put_error:
  assumes "cache_ok c" "Put ops (Some c) ident B ts snap w = (Some err, co, w')"
  shows "\<exists>c'. co = Some c' \<and> cache_ok c' \<and> ca_ll c' = ca_ll c \<and> ca_buckets c' = ca_buckets c \<and> ca_max c' = ca_max c"
  using assms unfolding Put_def
  by (auto simp: Let_def split: sum.splits prod.splits if_splits)

lemma Put_ok:
  assumes ok: "cache_ok c" and put: "Put ops (Some c) ident B ts snap w = (None, co, w')"
  shows "\<exists>c' canon i e rest. co = Some c' \<and> cache_ok c' \<and> ca_max c' = ca_max c \<and> CanonicalBytes ident = Inr canon \<and>
     ca_ll c' = (i, e) # rest \<and> ce_identity e = canon \<and> ce_block e = B \<and> ce_tokens e = ts"
proof -
  from put obtain canon k n key where p: "prepare_put ops c ident B ts snap w = (Inr (canon, k, n, key), w')"
    by (auto simp: Put_def Let_def split: sum.splits prod.splits if_splits)
  note prep = prepare_put_Inr [OF p]
  obtain found a where fm: "find_match (ca_ll c) canon ts (ca_buckets c key) = (found, a)" by fastforce
  define c1 where "c1 = upd_stats (\<lambda>st. st\<lparr>cs_puts := cs_puts st + 1, cs_collisions := cs_collisions st + a\<rparr>) c"
  have c1: "cache_ok c1" "ca_ll c1 = ca_ll c" "ca_buckets c1 = ca_buckets c" "ca_hash c1 = ca_hash c" "ca_max c1 = ca_max c"
    using ok by (simp_all add: c1_def)
  have co: "co = Some (case found of Some (i, ent) \<Rightarrow> replace_entry i ent B ts k n key c1
      | None \<Rightarrow> insert_entry canon B ts k n key c1)"
    using put unfolding c1_def by (simp add: Put_def p fm Let_def)
  show ?thesis
  proof (cases found)
    case None
    let ?ins = "insert_entry canon B ts k n key c1"
    have fresh: "ce_tokens f \<noteq> ts" if "(j, f) \<in> set (ca_ll c1)" "ce_identity f = canon" "ce_block f = B" for j f
    proof
      assume t: "ce_tokens f = ts"
      have mem: "(j, f) \<in> set (ca_ll c)" using that(1) c1(2) by simp
      have "entry_key f = key" using cache_okD(3) [OF ok mem] prep t that(2,3) by (simp add: entry_ok_def)
      then have "j \<in> set (ca_buckets c key)" using cache_okD(5) [OF ok] mem by blast
      moreover have "map_of (ca_ll c) j = Some f" using cache_okD(1) [OF ok] mem by simp
      ultimately have "\<not> matches f canon ts" using fm None by (metis find_match_None)
      with t that(2) show False by (simp add: matches_def)
    qed
    have "prefixKeys canon B ts (ca_hash c1) \<noteq> []" "key = last (prefixKeys canon B ts (ca_hash c1))" "n \<le> ca_max c1"
      using prep c1 by simp_all
    then have "cache_ok ?ins \<and> ca_max ?ins = ca_max c1 \<and> ca_hash ?ins = ca_hash c1 \<and>
      (\<exists>e rest. ca_ll ?ins = (ca_next c1, e) # rest \<and> prefix rest (ca_ll c1) \<and> ce_identity e = canon \<and>
        ce_block e = B \<and> ce_tokens e = ts \<and> ce_snapshot e = k \<and> ce_bytes e = n)"
      by (intro insert_entry_ok c1(1) fresh) (use prep in simp_all)
    then obtain e rest where ins: "cache_ok ?ins" "ca_max ?ins = ca_max c1" "ca_ll ?ins = (ca_next c1, e) # rest"
      "ce_identity e = canon" "ce_block e = B" "ce_tokens e = ts" by (elim conjE exE) (rule that)
    have "CanonicalBytes ident = Inr canon" using prep by simp
    with ins c1(5) show ?thesis unfolding co None option.case
      by (intro exI [of _ ?ins] exI [of _ canon] exI [of _ "ca_next c1"] exI [of _ e] exI [of _ rest]) simp
  next
    case (Some ie)
    obtain i e where ie: "ie = (i, e)" by fastforce
    from find_match_Some [OF fm [unfolded Some ie]] have f: "i \<in> set (ca_buckets c key)" "map_of (ca_ll c) i = Some e"
      "ce_identity e = canon" "ce_tokens e = ts" by (simp_all add: matches_def)
    have mem: "(i, e) \<in> set (ca_ll c)" using f(2) by (rule map_of_SomeD)
    have key: "entry_key e = key"
    proof -
      obtain g where g: "(i, g) \<in> set (ca_ll c)" "entry_key g = key" using cache_okD(5) [OF ok, of i key] f(1) by blast
      have "g = e" by (rule eq_key_imp_eq_value [OF cache_okD(1) [OF ok] g(1) mem])
      with g(2) show ?thesis by simp
    qed
    have "key \<in> set (prefixKeys canon B ts (ca_hash c))" using prep last_in_set by blast
    then have "bk_size key = B" by (rule prefixKeys_size)
    then have blk: "ce_block e = B" unfolding key [symmetric] entry_key_def by simp
    have mem1: "(i, e) \<in> set (ca_ll c1)" and le: "n \<le> ca_max c1" using mem c1 prep by simp_all
    let ?rep = "replace_entry i e B ts k n key c1"
    have "entryOverhead \<le> n" using prep by simp
    from replace_entry_ok [OF c1(1) mem1 f(4) key blk le this, where k = k] obtain e' rest where
      rep: "cache_ok ?rep" "ca_max ?rep = ca_max c1" "ca_ll ?rep = (i, e') # rest" "ce_identity e' = canon"
      "ce_block e' = B" "ce_tokens e' = ts" unfolding f(3) by (elim conjE exE) (rule that)
    have "CanonicalBytes ident = Inr canon" using prep by simp
    with rep c1(5) show ?thesis unfolding co Some ie option.case prod.case
      by (intro exI [of _ ?rep] exI [of _ canon] exI [of _ i] exI [of _ e'] exI [of _ rest]) simp
  qed
qed

text \<open>A lookup, without interference while it clones, keeps the cache good.\<close>

lemma move_to_front_ok:
  assumes "cache_ok c" shows "cache_ok (c\<lparr>ca_ll := move_to_front i (ca_ll c)\<rparr>)"
proof (rule cache_okI, goal_cases)
  case 1 show ?case using move_to_front_ids cache_okD(1) [OF assms] by auto
next
  case (2 j f) then show ?case using cache_okD(2) [OF assms] by simp
next
  case (3 j f) then show ?case using cache_okD(3) [OF assms] by simp
next
  case (4 j) show ?case using cache_okD(4) [OF assms] by simp
next
  case (5 j m) show ?case using cache_okD(5) [OF assms] by simp
next
  case (6 a f b g) then show ?case using cache_okD(6) [OF assms, of a f b g] by simp
next
  case 7 show ?case using cache_okD(7) [OF assms] by (simp add: total_bytes_def move_to_front_sum)
qed (use cache_okD(8-11) [OF assms] in simp_all)

lemma FindLongest_ok:
  assumes ok: "cache_ok c" and mid: "\<And>c. cache_ok c \<Longrightarrow> cache_ok (mid c)"
    and run: "FindLongest ops mid (Some c) ident B ts w = (r, co, w')"
  shows "\<exists>c'. co = Some c' \<and> cache_ok c'"
proof -
  have fr: "cache_ok ((upd_stats f c)\<lparr>ca_ll := move_to_front i (ca_ll c)\<rparr>)"
    if "\<And>st. cs_used_bytes (f st) = cs_used_bytes st \<and> cs_entries (f st) = cs_entries st" for f i
    using move_to_front_ok [of "upd_stats f c" i] ok that by simp
  show ?thesis using run ok mid [OF fr] unfolding FindLongest_def Let_def
    by (auto split: if_splits sum.splits option.splits prod.splits)
qed

section \<open>What eviction keeps\<close>

text \<open>
  Evicting for an insertion keeps the most recently used entries, as many as fit: with one more
  the threshold would be exceeded.
\<close>

lemma evict_loop_maximal:
  assumes "cache_ok c" "0 \<le> threshold" "length (ca_ll (evict_loop None 0 threshold c)) < length (ca_ll c)"
  shows "threshold < sum_list (map (ce_bytes \<circ> snd) (take (Suc (length (ca_ll (evict_loop None 0 threshold c)))) (ca_ll c)))"
  using assms
proof (induction "length (ca_ll c)" arbitrary: c rule: less_induct)
  case less
  have over: "ca_used c > threshold"
  proof (rule ccontr)
    assume "\<not> ca_used c > threshold"
    then have "evict_loop None 0 threshold c = c" by (subst evict_loop.simps) simp
    with less.prems(3) show False by simp
  qed
  have used: "ca_used c = sum_list (map (ce_bytes \<circ> snd) (ca_ll c))"
    using cache_okD(7) [OF less.prems(1)] by (simp add: total_bytes_def)
  show ?case
  proof (cases "evictOne None c")
    case None
    from evictOne_None [OF None] have "ca_ll c = []" by (cases "ca_ll c") auto
    with over used less.prems(2) show ?thesis by simp
  next
    case (Some c1)
    obtain i e as bs where ev: "ca_ll c = as @ (i, e) # bs" "\<forall>el \<in> set bs. Some (fst el) = None" "ca_ll c1 = as @ bs" "cache_ok c1"
      by (rule evictOne_Some [OF Some less.prems(1)])
    have "bs = []"
    proof (rule ccontr)
      assume "bs \<noteq> []"
      then have "hd bs \<in> set bs" by simp
      with ev(2) have "Some (fst (hd bs)) = None" by (rule bspec)
      then show False by simp
    qed
    with ev(1,3) have ll: "ca_ll c = as @ [(i, e)]" "ca_ll c1 = as" by simp_all
    have eq: "evict_loop None 0 threshold c = evict_loop None 0 threshold c1"
      using over Some by (subst evict_loop.simps) simp
    have pre: "prefix (ca_ll (evict_loop None 0 threshold c1)) (ca_ll c1)"
      using evict_loop_spec [OF ev(4) less.prems(2), where skip = None and own = 0] by simp
    show ?thesis
    proof (cases "length (ca_ll (evict_loop None 0 threshold c1)) < length (ca_ll c1)")
      case True
      from less.hyps [OF _ ev(4) less.prems(2) True] True show ?thesis by (simp add: eq ll)
    next
      case False
      then have "length (ca_ll (evict_loop None 0 threshold c1)) = length as"
        using prefix_length_le [OF pre] by (simp add: ll)
      then show ?thesis using over used by (simp add: eq ll)
    qed
  qed
qed

section \<open>Histories\<close>

text \<open>The caches that calls from a new one lead to.\<close>

inductive cache_reach :: "('w, 's) snap_ops \<Rightarrow> (string \<Rightarrow> digest) \<Rightarrow> int \<Rightarrow> (string \<Rightarrow> digest) option \<Rightarrow> 's cache \<Rightarrow> bool"
  for ops sha m h where
  new: "cache_reach ops sha m h (NewCache sha m h)"
| put: "cache_reach ops sha m h c \<Longrightarrow> Put ops (Some c) ident B ts snap w = (err, Some c', w') \<Longrightarrow> cache_reach ops sha m h c'"
| find_longest: "cache_reach ops sha m h c \<Longrightarrow> FindLongest ops id (Some c) ident B ts w = (r, Some c', w') \<Longrightarrow>
    cache_reach ops sha m h c'"

lemma FindLongest_sel:
  assumes "FindLongest ops id (Some c) ident B ts w = (r, Some c', w')"
  shows "ca_max c' = ca_max c \<and> ca_hash c' = ca_hash c"
  using assms unfolding FindLongest_def Let_def
  by (auto split: if_splits sum.splits option.splits prod.splits)

lemma cache_reach_ok:
  fixes c :: "'s cache"
  shows "cache_reach ops sha m h c \<Longrightarrow> cache_ok c \<and> ca_max c = max 0 m"
proof (induction rule: cache_reach.induct)
  case new
  have "ca_max (NewCache sha m h :: 's cache) = max 0 m" by (auto simp: NewCache_def Let_def)
  with NewCache_ok show ?case by blast
next
  case (put c ident B ts snap w err c' w')
  then show ?case using Put_error [of c ops ident B ts snap w _ "Some c'" w'] Put_ok [of c ops ident B ts snap w "Some c'" w']
    by (cases err) auto
next
  case (find_longest c ident B ts w r c' w')
  then show ?case using FindLongest_ok [of c id ops ident B ts w r "Some c'" w'] FindLongest_sel [of ops c ident B ts w r c' w'] by auto
qed

end
