(* ===== verification/Samples.thy ===== *)
theory Samples
  imports DecideFacts SystemOneFacts Gate SchedulerFacts PromptCacheFacts "HOL-Library.Code_Target_Nat"
begin

text \<open>
  Concrete inputs on which the properties of the development are applied: a byte tokenizer, a
  model that scores every candidate alike, a small schema and the requests that use them.
\<close>

definition byte_tokens :: "string \<Rightarrow> token list" where
  "byte_tokens s = map (\<lambda>c. int (of_char c)) s"

text \<open>Fixed-point numbers in thousandths with the operations of a float; scores are all the same.\<close>

definition fixed_ops :: "int fops" where
  "fixed_ops = \<lparr>f_zero = 0, f_one = 1000, f_add = (+), f_sub = (-), f_mul = (\<lambda>a b. a * b div 1000),
     f_div = (\<lambda>a b. a * 1000 div b),
     f_exp = (\<lambda>_. 1000), f_log = (\<lambda>_. 0), f_abs = abs, f_mathmax = max, f_max = max, f_min = min,
     f_lt = (<), f_of_int = (\<lambda>i. i * 1000), f_isnan = (\<lambda>_. False), f_isinf = (\<lambda>_. False), f_1e9 = 0\<rparr>"

definition even_logits :: "token list \<Rightarrow> token list \<Rightarrow> branch \<Rightarrow> int list" where
  "even_logits shared ctx br = map (\<lambda>_. 0) (br_candidates br)"

definition even_scorer :: "(nat, int) scorer" where
  "even_scorer = \<lparr>score_context = (\<lambda>prompt brs allow w. (Inr (map (even_logits [] prompt) brs), Suc w)),
     score_split = None, score_batch = None, score_trees = None\<rparr>"

definition sample_engine :: "(nat, int) engine" where
  "sample_engine = \<lparr>en_tokenizer = Some byte_tokens, en_validator = None, en_scorer = Some even_scorer,
     en_bos = 2, en_now = (\<lambda>w. (\<lparr>gt_unix = int w, gt_nanos = int w\<rparr>, Suc w)), en_ctx_err = (\<lambda>w. (None, w))\<rparr>"

definition sample_text :: string where
  "sample_text = ''{'' @ [dquote] @ ''ok'' @ [dquote] @ '':{'' @ [dquote] @ ''type'' @ [dquote] @ '':'' @ [dquote] @
     ''boolean'' @ [dquote] @ '','' @ [dquote] @ ''description'' @ [dquote] @ '':'' @ [dquote] @ ''d'' @ [dquote] @ ''}}''"

definition sample_request :: request where
  "sample_request = \<lparr>req_model = ''m'', req_instructions = [], req_schema = sample_text,
     req_contexts = [''a'', ''b''], req_mode = [], req_tree_max = 0, req_cache_prompt = None\<rparr>"

definition sample_isprint :: "nat \<Rightarrow> bool" where "sample_isprint r \<longleftrightarrow> 32 \<le> r \<and> r < 127"

definition sample_schema :: compiled_schema where
  "sample_schema = (case CompileSchema sample_isprint sample_text [] of Inr s \<Rightarrow> s
     | Inl _ \<Rightarrow> \<lparr>system_text = [], cs_fields = [], cs_inputs = []\<rparr>)"

lemma sample_schema_compiles: "CompileSchema sample_isprint sample_text [] = Inr sample_schema"
  by code_simp

lemma sample_decide:
  "\<exists>r w'. decide fixed_ops sample_isprint (Some sample_engine) sample_request None 0 = (Inr r, w')"
proof -
  have "(case decide fixed_ops sample_isprint (Some sample_engine) sample_request None 0 of (Inr r, _) \<Rightarrow> True | _ \<Rightarrow> False)"
    by code_simp
  then show ?thesis by (auto split: prod.splits sum.splits)
qed

end
