(* ===== verification/DecisionProps.thy ===== *)
theory DecisionProps
  imports Samples
begin

text \<open>
  The properties of the decision engine: compilation of schemas and fields, scoring, and whole
  decisions. Each is stated over the definitions of the model and followed by its use on the
  concrete inputs of \<open>Samples\<close>.
\<close>

section \<open>Compiling\<close>

text \<open>An accepted request has 1 to 256 non-empty contexts, a schema, a known mode and a tree
  limit of 1 to 255, and normalising it again changes nothing.\<close>

theorem request_normal_form:
  assumes "NormalizeAndValidate (Some r) = Inr r'"
  shows "request_ok r' \<and> NormalizeAndValidate (Some r') = Inr r' \<and>
    req_contexts r' = req_contexts r \<and> req_schema r' = req_schema r"
  using NormalizeAndValidate_ok [OF assms] NormalizeAndValidate_fixed NormalizeAndValidate_contexts [OF assms] by blast

definition sample_normal :: request where
  "sample_normal = sample_request\<lparr>req_mode := ''auto'', req_tree_max := 128\<rparr>"

theorem request_normal_form_witness:
  "NormalizeAndValidate (Some sample_request) = Inr sample_normal \<and> request_ok sample_normal"
proof -
  have run: "NormalizeAndValidate (Some sample_request) = Inr sample_normal" by code_simp
  from request_normal_form [OF this] run show ?thesis by simp
qed

text \<open>C29. A compiled schema has 1 to 32 fields in strictly increasing order of name, each with 1 to
  255 distinct values that are true and false or JSON strings.\<close>

theorem schema_compiles_well_formed:
  assumes "CompileSchema isprint data instructions = Inr s"
  shows "schema_ok isprint s"
  by (rule CompileSchema_Inr [OF assms])

theorem schema_compiles_well_formed_witness:
  "CompileSchema sample_isprint sample_text [] = Inr sample_schema \<and> schema_ok sample_isprint sample_schema"
  using schema_compiles_well_formed [OF sample_schema_compiles] sample_schema_compiles by simp

text \<open>Factoring the common prefix of the values into the suffix does not change the text the
  model is asked to score.\<close>

theorem field_text_roundtrip:
  assumes "i < length (fs_candidates f)"
  shows "fi_suffix (field_to_input isprint f) @ encoded (fi_candidates (field_to_input isprint f) ! i) =
    field_suffix isprint (fs_name f) @ encoded (fs_candidates f ! i)"
  by (rule field_to_input_text [OF assms])

theorem field_text_roundtrip_witness:
  "fi_suffix (field_to_input sample_isprint (hd (cs_fields sample_schema))) @
     encoded (fi_candidates (field_to_input sample_isprint (hd (cs_fields sample_schema))) ! 1) =
   field_suffix sample_isprint ''ok'' @ ''false''"
proof -
  have "1 < length (fs_candidates (hd (cs_fields sample_schema)))" by code_simp
  from field_text_roundtrip [OF this, of sample_isprint] show ?thesis
    by (simp, code_simp)
qed

text \<open>C24. CompileField succeeds exactly when there are 1 to 255 candidates, each has at least two
  tokens and the same first token, and no candidate is a token prefix of another.\<close>

theorem field_compiles_iff:
  "(\<exists>cf. CompileField (Some enc) input mode treeMax = Inr cf) =
     (0 < length (fi_candidates input) \<and> length (fi_candidates input) \<le> MaxCandidates \<and>
      {i. i < length (fi_candidates input) \<and>
         (length (cand_tokens enc input i) < 2 \<or> cand_tokens enc input i ! 0 \<noteq> cand_tokens enc input 0 ! 0)} = {} \<and>
      {(i, j). i < length (fi_candidates input) \<and> j < length (fi_candidates input) \<and> i \<noteq> j \<and>
         prefix (cand_tokens enc input i) (cand_tokens enc input j)} = {})"
proof (cases "0 < length (fi_candidates input)")
  case True
  have "0 < split_point enc input \<longleftrightarrow> (\<forall>i < length (fi_candidates input).
      2 \<le> length (cand_tokens enc input i) \<and> cand_tokens enc input i ! 0 = cand_tokens enc input 0 ! 0)" (is "_ \<longleftrightarrow> ?r")
  proof
    assume sp: "0 < split_point enc input"
    show ?r
    proof (intro allI impI conjI)
      fix i assume i: "i < length (fi_candidates input)"
      show "2 \<le> length (cand_tokens enc input i)" using split_point_le [OF i, of enc] sp by linarith
      show "cand_tokens enc input i ! 0 = cand_tokens enc input 0 ! 0" by (rule split_point_same [OF i sp])
    qed
  next
    assume r: ?r
    have "1 \<le> split_point enc input"
    proof (rule split_point_max [OF True], intro conjI allI impI)
      fix i assume i: "i < length (fi_candidates input)"
      show "1 \<le> length (cand_tokens enc input i) - 1" using r i by force
      show "cand_tokens enc input i ! k = cand_tokens enc input 0 ! k" if "k < 1" for k using r i that by simp
    qed
    then show "0 < split_point enc input" by simp
  qed
  moreover have "cand_tokens enc input i \<noteq> []" if "2 \<le> length (cand_tokens enc input i)" for i using that by auto
  ultimately have sp: "(\<forall>i < length (fi_candidates input). cand_tokens enc input i \<noteq> []) \<and> 0 < split_point enc input \<longleftrightarrow>
      (\<forall>i < length (fi_candidates input). 2 \<le> length (cand_tokens enc input i) \<and>
        cand_tokens enc input i ! 0 = cand_tokens enc input 0 ! 0)" by blast
  have "{i. i < length (fi_candidates input) \<and>
         (length (cand_tokens enc input i) < 2 \<or> cand_tokens enc input i ! 0 \<noteq> cand_tokens enc input 0 ! 0)} = {} \<longleftrightarrow>
      (\<forall>i < length (fi_candidates input). 2 \<le> length (cand_tokens enc input i) \<and>
        cand_tokens enc input i ! 0 = cand_tokens enc input 0 ! 0)"
    unfolding Collect_empty_eq not_less [symmetric] by blast
  with sp show ?thesis unfolding CompileField_succeeds_iff by blast
qed (simp add: CompileField_succeeds_iff)

text \<open>The suffix of a compiled field followed by the path of a candidate is the tokenisation of
  that candidate, in the order of the input.\<close>

theorem field_paths_spell_candidates:
  assumes "CompileField (Some enc) input mode treeMax = Inr cf" "i < length (fi_candidates input)"
  shows "path_candidate (cf_paths cf ! i) = fi_candidates input ! i \<and>
    cf_suffix cf @ path_tokens (cf_paths cf ! i) = cand_tokens enc input i \<and> field_ok cf"
  using CompileField_path [OF assms] CompileField_Inr(3) [OF assms(1)] by simp

definition sample_input :: field_input where
  "sample_input = \<lparr>fi_suffix = ''a: '',
     fi_candidates = map (\<lambda>s. \<lparr>cand_id = s, encoded = s, cand_value = s\<rparr>) [''xyz'', ''xyw'', ''v'']\<rparr>"

definition sample_field :: compiled_field where
  "sample_field = (case CompileField (Some byte_tokens) sample_input ModeAuto 128 of Inr cf \<Rightarrow> cf
     | Inl _ \<Rightarrow> \<lparr>cf_suffix = [], cf_paths = [], cf_nodes = [], cf_tree = False, cf_rows = 0\<rparr>)"

lemma sample_field_compiles: "CompileField (Some byte_tokens) sample_input ModeAuto 128 = Inr sample_field"
  by code_simp

lemma sample_field_ok: "field_ok sample_field"
  by (rule CompileField_Inr(3) [OF sample_field_compiles])

theorem field_compiles_iff_witness:
  "length (fi_candidates sample_input) \<le> MaxCandidates \<and>
   {(i, j). i < length (fi_candidates sample_input) \<and> j < length (fi_candidates sample_input) \<and> i \<noteq> j \<and>
     prefix (cand_tokens byte_tokens sample_input i) (cand_tokens byte_tokens sample_input j)} = {}"
  using field_compiles_iff [of byte_tokens sample_input ModeAuto 128] sample_field_compiles by blast

theorem field_paths_spell_candidates_witness:
  "cf_suffix sample_field @ path_tokens (cf_paths sample_field ! 1) = byte_tokens (''a: xyw'' @ [newline])"
proof -
  have "1 < length (fi_candidates sample_input)" by code_simp
  from field_paths_spell_candidates [OF sample_field_compiles this]
  show ?thesis by (simp add: cand_tokens_def sample_input_def)
qed

text \<open>C22. The work-list loop lists exactly the token prefixes after which the candidate paths differ,
  each with its next tokens in order, sorted and without repetition.\<close>

theorem trie_nodes_are_branchings:
  "set (buildTrieNodes paths) = {node_at paths p | p. branching paths p} \<and>
   sorted_wrt (<) (map node_prefix (buildTrieNodes paths))"
  using buildTrieNodes_set buildTrieNodes_sorted by blast

section \<open>Scoring a field\<close>

text \<open>C2. On exact arithmetic FinishTree returns, for every candidate, the product of the softmax
  probabilities of its tokens at the branching points it passes; these sum to one, and the winner
  is the first candidate of greatest probability.\<close>

theorem tree_probabilities_exact:
  assumes "field_ok cf" "logits_shape cf logits"
  shows "\<exists>w. FinishTree real_ops cf logits =
      Inr (w, map (exact_prob cf logits) [0..<length (cf_paths cf)]) \<and>
    w < length (cf_paths cf) \<and> (\<Sum>i < length (cf_paths cf). exact_prob cf logits i) = 1 \<and>
    (\<forall>i < length (cf_paths cf). exact_prob cf logits i \<le> exact_prob cf logits w) \<and>
    (\<forall>i < w. exact_prob cf logits i < exact_prob cf logits w)"
  using FinishTree_exact [OF assms] exact_prob_sum [OF assms] by blast

definition sample_logits :: "real list list" where
  "sample_logits = [[1, 2], [0, 3]]"

lemma sample_logits_shape: "logits_shape sample_field sample_logits"
proof -
  have "map (length \<circ> node_options) (cf_nodes sample_field) = [2, 2]" by code_simp
  then show ?thesis
    by (auto simp: logits_shape_def sample_logits_def map_eq_Cons_conv)
qed

theorem tree_probabilities_exact_witness:
  "\<exists>w. FinishTree real_ops sample_field sample_logits =
      Inr (w, map (exact_prob sample_field sample_logits) [0..<length (cf_paths sample_field)]) \<and>
    w < length (cf_paths sample_field)"
  using tree_probabilities_exact [OF sample_field_ok sample_logits_shape] by blast

text \<open>FinishTree returns a result for all logits of the right shape and every arithmetic, NaN
  included; the winner is the first maximum under the comparison.\<close>

theorem tree_scoring_total:
  assumes "field_ok cf" "logits_shape cf logits"
  shows "\<exists>w ps. FinishTree ops cf logits = Inr (w, ps) \<and> length ps = length (cf_paths cf) \<and> w < length (cf_paths cf) \<and>
    w = argmax (f_lt ops) (path_scores ops cf logits)"
proof -
  have len: "length (path_scores ops cf logits) = length (cf_paths cf)" by (simp add: path_scores_def)
  have "path_scores ops cf logits \<noteq> []" using assms(1) len by (auto simp: field_ok_def)
  then have "argmax (f_lt ops) (path_scores ops cf logits) < length (cf_paths cf)" using argmax_less len by metis
  with FinishTree_total [OF assms] len show ?thesis by simp
qed

theorem tree_scoring_total_witness:
  "\<exists>w ps. FinishTree nan_ops sample_field [[None, Some 1], [Some 2, None]] = Inr (w, ps) \<and> length ps = 3 \<and> w < 3"
proof -
  have n: "length (cf_paths sample_field) = 3" by code_simp
  have "map (length \<circ> node_options) (cf_nodes sample_field) = [2, 2]" by code_simp
  then have "logits_shape sample_field [[None, Some 1], [Some 2, None :: real option]]"
    by (auto simp: logits_shape_def map_eq_Cons_conv)
  from tree_scoring_total [OF sample_field_ok this, of nan_ops] show ?thesis unfolding n by blast
qed

text \<open>If scoring returns, every field keeps its place and has a winner among its candidates, in
  at most one round more than there are candidates, whatever the scorer answered.\<close>

theorem every_field_gets_a_winner:
  assumes "\<forall>cf \<in> set cfs. field_ok cf"
    and "scoreFields ops sc shared ctx (map (newFieldState ops) cfs) allow w = (Inr (ss', n), w')"
  shows "map st_compiled ss' = cfs \<and>
    (\<forall>s \<in> set ss'. 0 \<le> st_winner s \<and> st_winner s < int (length (cf_paths (st_compiled s)))) \<and>
    n \<le> 1 + sum_list (map (length \<circ> cf_paths) cfs)"
  using scoreFields_selects [OF assms] by (simp add: selected_def)

text \<open>With a scorer that answers one logit per candidate, scoring terminates without an error for
  all compiled fields.\<close>

theorem scoring_never_fails:
  assumes "scorer_wide sc" "\<forall>cf \<in> set cfs. field_ok cf"
  shows "\<exists>ss n w'. scoreFields ops sc shared ctx (map (newFieldState ops) cfs) allow w = (Inr (ss, n), w')"
  using scoreFields_total [OF assms] by fastforce

lemma even_scorer_wide: "scorer_wide even_scorer"
  by (auto simp: scorer_wide_def even_scorer_def call_scorer_def wide_def even_logits_def list_all2_conv_all_nth)

theorem scoring_never_fails_witness:
  "\<exists>ss n w'. scoreFields fixed_ops even_scorer [1] [2] (map (newFieldState fixed_ops) [sample_field]) True 0 = (Inr (ss, n), w')"
  by (rule scoring_never_fails [OF even_scorer_wide]) (simp add: sample_field_ok)

theorem every_field_gets_a_winner_witness:
  "\<exists>ss n w'. scoreFields fixed_ops even_scorer [1] [2] (map (newFieldState fixed_ops) [sample_field]) True 0 = (Inr (ss, n), w') \<and>
     map st_compiled ss = [sample_field] \<and> (\<forall>s \<in> set ss. 0 \<le> st_winner s) \<and> n \<le> 4"
proof -
  have ok: "\<forall>cf \<in> set [sample_field]. field_ok cf" by (simp add: sample_field_ok)
  obtain ss n w' where run: "scoreFields fixed_ops even_scorer [1] [2] (map (newFieldState fixed_ops) [sample_field]) True 0
      = (Inr (ss, n), w')" using scoreFields_total [OF even_scorer_wide ok] by fastforce
  have "length (cf_paths sample_field) = 3" by code_simp
  with every_field_gets_a_winner [OF ok run] run show ?thesis by auto
qed

text \<open>C3. When the packed scorers agree with the one-context scorer, scoring all contexts in one
  packed call gives every context the same states and rounds as scoring it alone.\<close>

theorem packed_scoring_equals_sequential:
  assumes "serial_scorer lg sc" "packed_scorer lg sc"
    and "\<forall>shared ctx br. length (lg shared ctx br) = length (br_candidates br)"
    and "\<forall>cf \<in> set (pr_fields pr). field_ok cf"
    and "packed_scores sc (pr_shared pr) contexts (pr_fields pr) allow w = (Inr (Some p), w')"
    and "i < length contexts"
  shows "w' = w \<and> context_states ops sc pr i (contexts ! i) (Some (p ! i)) w =
    context_states ops sc pr i (contexts ! i) None w"
  by (rule packed_equals_sequential [OF assms(1,2) _ _ assms(5,6)]) (use assms(3,4) in auto)

definition tree_scorer :: "(nat, int) scorer" where
  "tree_scorer = \<lparr>score_context = (\<lambda>prompt brs allow w. (Inr (map (even_logits [] prompt) brs), w)),
     score_split = None, score_batch = None,
     score_trees = Some (\<lambda>shared ctxs brs allow w. (Inr (map (\<lambda>ctx. map (even_logits shared ctx) brs) ctxs), w))\<rparr>"

definition sample_prepared :: prepared where
  "sample_prepared = \<lparr>pr_request = sample_normal, pr_schema = sample_schema, pr_fields = [sample_field], pr_shared = [1, 2]\<rparr>"

theorem packed_scoring_equals_sequential_witness:
  "\<exists>p. packed_scores tree_scorer [1, 2] [[3], [4]] [sample_field] True 0 = (Inr (Some p), 0) \<and>
     context_states fixed_ops tree_scorer sample_prepared 1 [4] (Some (p ! 1)) 0 =
     context_states fixed_ops tree_scorer sample_prepared 1 [4] None 0"
proof -
  have serial: "serial_scorer even_logits tree_scorer"
    by (simp add: serial_scorer_def call_scorer_def tree_scorer_def even_logits_def)
  have packed: "packed_scorer even_logits tree_scorer" by (simp add: packed_scorer_def tree_scorer_def)
  have wide: "\<forall>shared ctx br. length (even_logits shared ctx br) = length (br_candidates br)" by (simp add: even_logits_def)
  have ok: "\<forall>cf \<in> set (pr_fields sample_prepared). field_ok cf" by (simp add: sample_prepared_def sample_field_ok)
  have "cf_tree sample_field" "length (cf_nodes sample_field) = 2" by code_simp+
  then have tree: "cf_tree sample_field" "cf_nodes sample_field \<noteq> []" by auto
  then have "\<exists>p. packed_scores tree_scorer (pr_shared sample_prepared) [[3], [4]] (pr_fields sample_prepared) True 0 = (Inr (Some p), 0)"
    by (simp add: packed_scores_def tree_scorer_def sample_prepared_def all_branches_def io_bind_def io_return_def Let_def)
  then obtain p where run: "packed_scores tree_scorer (pr_shared sample_prepared) [[3], [4]] (pr_fields sample_prepared) True 0
      = (Inr (Some p), 0)" by blast
  have "1 < length [[3 :: int], [4]]" by simp
  from packed_scoring_equals_sequential [OF serial packed wide ok run this, of fixed_ops] run
  show ?thesis by (auto simp: sample_prepared_def)
qed

section \<open>Whole decisions\<close>

text \<open>C1. A decision that succeeds has one result per context, and each result assigns to exactly the
  fields of the compiled schema one of the values the schema allows.\<close>

theorem decision_results_valid:
  assumes "Decide ops isprint (Some e) request w = (Inr response, w')"
  shows "\<exists>schema. CompileSchema isprint (req_schema request) (req_instructions request) = Inr schema \<and>
    length (rs_results response) = length (req_contexts request) \<and>
    (\<forall>item \<in> set (rs_results response). dom (it_decision item) = fs_name ` set (cs_fields schema) \<and>
      (\<forall>f \<in> set (cs_fields schema). \<exists>c \<in> set (fs_candidates f). it_decision item (fs_name f) = Some (cand_value c)))"
  by (rule decide_items [OF assms [unfolded Decide_def]]) (auto simp: item_ok_def)

theorem decision_results_valid_witness:
  "\<exists>r w'. Decide fixed_ops sample_isprint (Some sample_engine) sample_request 0 = (Inr r, w') \<and>
     length (rs_results r) = 2 \<and> (\<forall>item \<in> set (rs_results r). dom (it_decision item) = {''ok''})"
proof -
  obtain r w' where run: "Decide fixed_ops sample_isprint (Some sample_engine) sample_request 0 = (Inr r, w')"
    using sample_decide unfolding Decide_def by blast
  have names: "map fs_name (cs_fields sample_schema) = [''ok'']" "length (req_contexts sample_request) = 2"
    by (code_simp, simp add: sample_request_def)
  then have dom: "fs_name ` set (cs_fields sample_schema) = {''ok''}" by (metis list.set(1,2) set_map)
  have "CompileSchema sample_isprint (req_schema sample_request) (req_instructions sample_request) = Inr sample_schema"
    using sample_schema_compiles by (simp add: sample_request_def)
  with decision_results_valid [OF run] run names(2) dom show ?thesis by auto
qed

text \<open>The usage of a decision adds up: context tokens and scored rows are the sums over the
  results, the prompt adds the shared tokens, cached tokens are shared tokens, and no prompt
  exceeds 32768 tokens.\<close>

theorem decision_token_accounting:
  assumes "Decide ops isprint (Some e) request w = (Inr response, w')"
  shows "us_context_tokens (rs_usage response) = sum_list (map it_context_tokens (rs_results response)) \<and>
    us_scored_rows (rs_usage response) = sum_list (map it_scored_rows (rs_results response)) \<and>
    us_context_tokens (rs_usage response) < us_prompt_tokens (rs_usage response) \<and>
    (\<forall>item \<in> set (rs_results response).
       us_cached_tokens (rs_usage response) \<le> us_prompt_tokens (rs_usage response) - us_context_tokens (rs_usage response) \<and>
       us_prompt_tokens (rs_usage response) - us_context_tokens (rs_usage response) + it_context_tokens item \<le> MaxContextTokens)"
  by (rule decide_items [OF assms [unfolded Decide_def]]) auto

theorem decision_token_accounting_witness:
  "\<exists>r w'. Decide fixed_ops sample_isprint (Some sample_engine) sample_request 0 = (Inr r, w') \<and>
     us_context_tokens (rs_usage r) < us_prompt_tokens (rs_usage r)"
proof -
  obtain r w' where run: "Decide fixed_ops sample_isprint (Some sample_engine) sample_request 0 = (Inr r, w')"
    using sample_decide unfolding Decide_def by blast
  with decision_token_accounting [OF run] show ?thesis by blast
qed

text \<open>Without an engine, a scorer or a tokenizer a decision fails as not configured, and with a
  cancelled context it fails with the error of the context.\<close>

theorem decision_needs_an_engine:
  "Decide ops isprint None request w = (Inl not_configured, w) \<and>
   fst (Decide ops isprint (Some (e\<lparr>en_ctx_err := \<lambda>w. (Some err, w)\<rparr>)) request w) = Inl err \<and>
   fst (Decide ops isprint (Some (e\<lparr>en_ctx_err := \<lambda>w. (None, w), en_scorer := None\<rparr>)) request w) = Inl not_configured \<and>
   fst (Decide ops isprint (Some (e\<lparr>en_ctx_err := \<lambda>w. (None, w), en_tokenizer := None\<rparr>)) request w) = Inl not_configured"
proof -
  have 1: "Decide ops isprint (Some (e\<lparr>en_ctx_err := \<lambda>w. (Some err, w)\<rparr>)) request w = (Inl err, snd (en_now e w))"
    unfolding Decide_def by (rule decide_cancelled) simp
  have 2: "Decide ops isprint (Some e') request w = (Inl not_configured, snd (en_now e' w))"
    if "en_ctx_err e' = (\<lambda>w. (None, w))" "en_tokenizer e' = None \<or> en_scorer e' = None" for e'
    unfolding Decide_def by (rule decide_unconfigured(2)) (use that in auto)
  show ?thesis using 1 2 decide_unconfigured(1) unfolding Decide_def by (auto simp del: fst_eqD)
qed

end
