(* ===== verification/QuestionProps.thy ===== *)
theory QuestionProps
  imports DecisionProps
begin

text \<open>
  The properties of the typed-question route: what compiled questions satisfy, the exact meaning
  of a candidate's probability, the exact answers, and the shape of a response.
\<close>

definition sample_questions :: string where
  "sample_questions = ''{'' @ [dquote] @ ''q'' @ [dquote] @ '':{'' @ [dquote] @ ''type'' @ [dquote] @ '':'' @ [dquote] @
     ''noul'' @ [dquote] @ '','' @ [dquote] @ ''instructions'' @ [dquote] @ '':'' @ [dquote] @ ''i'' @ [dquote] @ ''}}''"

definition sample_system :: system_request where
  "sample_system = \<lparr>sr_model = ''m'', sr_state = [dquote] @ ''s'' @ [dquote], sr_questions = sample_questions\<rparr>"

lemma sample_compiles:
  "\<exists>schema questions state. compileSystemOne sample_isprint sample_system = Inr (schema, questions, state) \<and>
     map sq_name questions = [''q'']"
proof -
  have "(case compileSystemOne sample_isprint sample_system of Inr (schema, questions, state) \<Rightarrow>
      map sq_name questions = [''q''] | Inl _ \<Rightarrow> False)" by code_simp
  then show ?thesis by (auto split: sum.splits prod.splits)
qed

lemma sample_answers:
  "\<exists>resp w'. SystemOne fixed_ops sample_isprint (\<lambda>_. Some ''0.5'') (Some sample_engine) sample_system 0 = (Inr resp, w')"
proof -
  have "(case SystemOne fixed_ops sample_isprint (\<lambda>_. Some ''0.5'') (Some sample_engine) sample_system 0 of
      (Inr _, _) \<Rightarrow> True | (Inl _, _) \<Rightarrow> False)"
    unfolding SystemOne_def sample_engine_def option.case engine.simps option.distinct if_False by code_simp
  then show ?thesis by (auto split: sum.splits prod.splits)
qed

text \<open>Compiled questions, fields and inputs correspond one to one, names are distinct, and every
  question has the keys its type asks for.\<close>

theorem questions_compile_well_formed:
  assumes "compileSystemOne isprint request = Inr (schema, questions, state)"
  shows "list_all question_ok (zip (cs_fields schema) (zip (cs_inputs schema) questions)) \<and>
    length (cs_inputs schema) = length (cs_fields schema) \<and> length questions = length (cs_fields schema) \<and>
    distinct (map fs_name (cs_fields schema)) \<and> map sq_name questions = map fs_name (cs_fields schema) \<and>
    1 \<le> length questions \<and> length questions \<le> MaxFields"
  using compileSystemOne_ok [OF assms] by blast

theorem questions_compile_well_formed_witness:
  "\<exists>schema questions state. compileSystemOne sample_isprint sample_system = Inr (schema, questions, state) \<and>
     distinct (map fs_name (cs_fields schema)) \<and> map fs_name (cs_fields schema) = [''q'']"
proof -
  obtain schema questions state where run: "compileSystemOne sample_isprint sample_system = Inr (schema, questions, state)"
    "map sq_name questions = [''q'']" using sample_compiles by (elim exE conjE)
  from questions_compile_well_formed [OF run(1)] run show ?thesis by auto
qed

text \<open>On exact arithmetic the candidate results of a tree field pass the checks of
  assembleCandidateResults and carry the exact probabilities and the values of the schema in
  order.\<close>

theorem candidate_probabilities_exact:
  assumes "field_ok cf" "\<forall>br. length (lg br) = length (br_candidates br)"
    and "length (fs_candidates field) = length (cf_paths cf)"
  shows "\<exists>rs. assembleCandidateResults real_ops field (tree_state real_ops lg cf) = Inr rs \<and>
    map cr_probability rs = map (exact_prob cf (field_logits lg cf)) [0..<length (cf_paths cf)] \<and>
    map cr_value rs = map cand_value (fs_candidates field)"
  by (rule assembleCandidateResults_exact [OF assms(1) _ assms(3)]) (use assms(2) in simp)

definition sample_spec :: field_spec where
  "sample_spec = \<lparr>fs_name = ''a'', fs_type = ''enum'', fs_description = [], fs_candidates = fi_candidates sample_input\<rparr>"

theorem candidate_probabilities_exact_witness:
  "\<exists>rs. assembleCandidateResults real_ops sample_spec
      (tree_state real_ops (\<lambda>br. map (\<lambda>_. 0) (br_candidates br)) sample_field) = Inr rs \<and>
    map cr_value rs = [''xyz'', ''xyw'', ''v'']"
proof -
  have len: "length (fs_candidates sample_spec) = length (cf_paths sample_field)" by code_simp
  have "\<forall>br. length (map (\<lambda>_. 0 :: real) (br_candidates br)) = length (br_candidates br)" by simp
  from candidate_probabilities_exact [OF sample_field_ok this len] show ?thesis
    by (auto simp: sample_spec_def sample_input_def)
qed

text \<open>C28. On exact arithmetic an answer is what its type means: a noul is the probability of true; a
  choice is the first most probable key, its confidence how far its probability is above the
  uniform one; a score is the expected level, its confidence one less the mean distance from the
  most probable level, relative to the last level. Probabilities lie in [0, 1] and sum to one
  within 1e-9; a score is not negative and at most the last level, up to that same tolerance.\<close>

theorem answers_are_exact:
  assumes "systemOneAnswer real_ops q field = Inr a" "fr_candidates field \<noteq> []" "ps = map cr_probability (fr_candidates field)"
  shows "length ps = length (sq_keys q) \<and> (\<forall>p \<in> set ps. 0 \<le> p \<and> p \<le> 1) \<and> \<bar>sum_list ps - 1\<bar> \<le> 1 / 1000000000 \<and> exact_answer q ps a"
  using systemOneAnswer_exact [OF assms] by (simp add: unit_values_def)

definition sample_result :: "real field_result" where
  "sample_result = \<lparr>fr_value = ''true'', fr_probability = 1 / 2,
     fr_candidates = [\<lparr>cr_value = ''false'', cr_probability = 1 / 4, cr_selected = False\<rparr>,
       \<lparr>cr_value = ''true'', cr_probability = 3 / 4, cr_selected = True\<rparr>], fr_scored_nodes = 1, fr_tree = True\<rparr>"

definition sample_question :: system_question where
  "sample_question = \<lparr>sq_name = ''q'', sq_kind = ''noul'', sq_keys = [''false'', ''true''], sq_legend = [],
     sq_instruction = [], sq_criteria = []\<rparr>"

definition sample_score :: system_question where
  "sample_score = \<lparr>sq_name = ''s'', sq_kind = ''score'', sq_keys = [''0'', ''1''], sq_legend = [(''0'', ''low''), (''1'', ''high'')],
     sq_instruction = [], sq_criteria = []\<rparr>"

theorem answers_are_exact_witness:
  "systemOneAnswer real_ops sample_question sample_result = Inr (NoulAnswer (3 / 4)) \<and>
   exact_answer sample_question [1 / 4, 3 / 4] (NoulAnswer (3 / 4)) \<and>
   (\<exists>score conf. systemOneAnswer real_ops sample_score sample_result =
      Inr (ScoreAnswer score conf [(''0'', 1 / 4), (''1'', 3 / 4)] (sq_legend sample_score)) \<and> score = 3 / 4 \<and> conf = 3 / 4)"
proof -
  have run: "systemOneAnswer real_ops sample_question sample_result = Inr (NoulAnswer (3 / 4))"
    by (simp add: systemOneAnswer_def sample_question_def sample_result_def last_value_def)
  have c: "fr_candidates sample_result \<noteq> []" "[1 / 4, 3 / 4] = map cr_probability (fr_candidates sample_result)" by (simp_all add: sample_result_def)
  have "\<exists>a. systemOneAnswer real_ops sample_score sample_result = Inr a"
    by (simp add: systemOneAnswer_def sample_score_def sample_result_def Let_def)
  then obtain a where a: "systemOneAnswer real_ops sample_score sample_result = Inr a" ..
  have "exact_answer sample_score [1 / 4, 3 / 4] a" using answers_are_exact [OF a c] by blast
  then obtain score conf w where ans: "a = ScoreAnswer score conf [(''0'', 1 / 4), (''1'', 3 / 4)] (sq_legend sample_score)"
    "score = 3 / 4" "first_max [1 / 4, 3 / 4] w" "conf = max 0 (1 - (\<Sum>j < 2. [1 / 4, 3 / 4] ! j * \<bar>real j - real w\<bar>))"
    by (auto simp: exact_answer_def sample_score_def Let_def numeral_2_eq_2 split: answer.splits)
  have "w = 1" using ans(3) by (auto simp: first_max_def less_Suc_eq numeral_2_eq_2)
  then have "conf = 3 / 4" using ans(4) by (simp add: numeral_2_eq_2)
  then show ?thesis using answers_are_exact [OF run c] run a ans(1,2) by blast
qed

text \<open>C27. A typed response names the requested model and has, in order and under their distinct
  names, one answer for every question of the request; the answer of a question is computed from
  the scored state of the field compiled from that same question.\<close>

theorem every_question_is_answered:
  assumes "SystemOne ops isprint ftext (Some e) request w = (Inr resp, w')"
  shows "\<exists>schema questions state states. compileSystemOne isprint request = Inr (schema, questions, state) \<and>
    map fst (sp_answers resp) = map sq_name questions \<and> distinct (map fst (sp_answers resp)) \<and>
    sp_model resp = sr_model request \<and> length (cs_inputs schema) = length questions \<and>
    scored_states ops isprint e (decision_request request schema state) schema states \<and>
    (\<forall>k < length questions. question_ok (cs_fields schema ! k, cs_inputs schema ! k, questions ! k) \<and>
       (\<exists>field. field_result_of ops (cs_fields schema ! k) (states ! k) = Inr field \<and>
          systemOneAnswer ops (questions ! k) field = Inr (snd (sp_answers resp ! k))))"
proof (rule SystemOne_Inr [OF assms])
  fix schema questions state item decision w1 w2
  assume c: "compileSystemOne isprint request = Inr (schema, questions, state)"
    and d: "decide ops isprint (Some e) (decision_request request schema state) (Some schema) w1 = (Inr decision, w2)" "rs_results decision = [item]"
    and a: "system_answers ops (it_fields item) questions = Inr (sp_answers resp)" and m: "sp_model resp = sr_model request"
  note C = compileSystemOne_ok [OF c]
  obtain states where st: "scored_states ops isprint e (decision_request request schema state) schema states"
    and fr: "\<forall>k < length (cs_fields schema). \<exists>fr. field_result_of ops (cs_fields schema ! k) (states ! k) = Inr fr \<and>
       it_fields item (fs_name (cs_fields schema ! k)) = Some fr"
    by (rule decide_one_context [OF d C(4,2)])
  have "question_ok (cs_fields schema ! k, cs_inputs schema ! k, questions ! k) \<and>
      (\<exists>field. field_result_of ops (cs_fields schema ! k) (states ! k) = Inr field \<and>
         systemOneAnswer ops (questions ! k) field = Inr (snd (sp_answers resp ! k)))" if k: "k < length questions" for k
  proof -
    have "sq_name (questions ! k) = fs_name (cs_fields schema ! k)" using C(3,5) k by (metis nth_map)
    then obtain field where f: "field_result_of ops (cs_fields schema ! k) (states ! k) = Inr field" "it_fields item (sq_name (questions ! k)) = Some field"
      using fr C(3) k by auto
    have "systemOneAnswer ops (questions ! k) field = Inr (snd (sp_answers resp ! k))" using system_answers_Inr(2) [OF a k] f(2) by simp
    moreover have "question_ok (cs_fields schema ! k, cs_inputs schema ! k, questions ! k)"
      using C(1-3) k by (simp add: list_all_length)
    ultimately show ?thesis using f(1) by blast
  qed
  moreover have "distinct (map fst (sp_answers resp))" using system_answers_Inr(1) [OF a] C(4,5) by simp
  ultimately show ?thesis using c m st system_answers_Inr(1) [OF a] C(2,3) by (metis (no_types, lifting))
qed

theorem every_question_is_answered_witness:
  "\<exists>resp w'. SystemOne fixed_ops sample_isprint (\<lambda>_. Some ''0.5'') (Some sample_engine) sample_system 0 = (Inr resp, w') \<and>
     map fst (sp_answers resp) = [''q''] \<and> sp_model resp = ''m''"
proof -
  obtain resp w' where run: "SystemOne fixed_ops sample_isprint (\<lambda>_. Some ''0.5'') (Some sample_engine) sample_system 0
    = (Inr resp, w')" using sample_answers by blast
  from every_question_is_answered [OF run] run sample_compiles show ?thesis by (auto simp: sample_system_def)
qed

end
