(* ===== verification/ServiceProps.thy ===== *)
theory ServiceProps
  imports QuestionProps
begin

text \<open>
  The properties of the HTTP service: the decoding of one bounded JSON document, the status of
  every reply, and the gate that admits one inference at a time.
\<close>

section \<open>One request\<close>

text \<open>DecodeJSON accepts a body exactly when it is within the limit and holds one JSON value,
  followed by white space only, that decodes.\<close>

theorem decode_single_document:
  "(DecodeJSON decode limit body = Inr x) =
     (0 < limit \<and> int (length body) \<le> limit \<and>
      (\<exists>raw v r. json_first body = Some (raw, v, r) \<and> decode raw v = Inr x \<and> skip_ws r = []))"
  by (rule DecodeJSON_Inr)

text \<open>The handler replies with one of eight statuses; 405 exactly to methods other than POST, and
  429 exactly to a POST that finds the gate taken.\<close>

theorem reply_status:
  "fst (fst (serve ops isprint ftext h ctx_err lk systemOne rq w)) \<in> {200, 400, 405, 408, 413, 422, 429, 503} \<and>
   (fst (fst (serve ops isprint ftext h ctx_err lk systemOne rq w)) = 405) = (hr_method rq \<noteq> ''POST'') \<and>
   (fst (fst (serve ops isprint ftext h ctx_err lk systemOne rq w)) = 429) = (hr_method rq = ''POST'' \<and> lk)"
  by (intro conjI serve_status serve_405_iff serve_429_iff)

text \<open>A request that finds the gate taken or has another method changes nothing.\<close>

theorem refused_request_has_no_effect:
  "snd (serve ops isprint ftext h ctx_err True systemOne rq w) = w \<and>
   snd (serve ops isprint ftext h ctx_err lk systemOne (rq\<lparr>hr_method := ''GET''\<rparr>) w) = w"
  using serve_refused_no_effect by fastforce

text \<open>C30. A 200 reply on the decision route means: the method was POST, the gate was free, the body
  was one JSON document within the limit, the model matched, and the reply is the decision of the
  engine.\<close>

theorem ok_reply_is_a_decision:
  assumes "serve ops isprint ftext h ctx_err lk False rq w = ((200, b), w')"
  shows "hr_method rq = ''POST'' \<and> \<not> lk \<and> int (length (hr_body rq)) \<le> MaxRequestBytes \<and>
    (\<exists>raw v r request resp w1. json_first (hr_body rq) = Some (raw, v, r) \<and> skip_ws r = [] \<and>
       decode_request raw v = Inr request \<and> (req_model request = [] \<or> req_model request = hd_model h) \<and>
       Decide ops isprint (hd_engine h) (request\<lparr>req_model := hd_model h\<rparr>) w1 = (Inr resp, w') \<and>
       b = DecisionBody resp \<and> rs_model resp = hd_model h)"
  by (rule serve_200_decision [OF assms])

definition sample_body :: string where
  "sample_body = ''{'' @ [dquote] @ ''contexts'' @ [dquote] @ '':['' @ [dquote] @ ''a'' @ [dquote] @ ''],'' @
     [dquote] @ ''schema'' @ [dquote] @ '':'' @ sample_text @ ''}''"

definition sample_handler :: "(nat, int) handler" where
  "sample_handler = \<lparr>hd_engine = Some sample_engine, hd_model = ''m''\<rparr>"

definition sample_post :: http_request where
  "sample_post = \<lparr>hr_method = ''POST'', hr_body = sample_body\<rparr>"

lemma sample_serve:
  "\<exists>b w'. serve fixed_ops sample_isprint (\<lambda>_. None) sample_handler (\<lambda>w. (None, w)) False False sample_post 0 = ((200, b), w')"
proof -
  have dec: "(case decode_target False sample_body of Inr (Inl r) \<Rightarrow> req_model r = [] \<and>
      (case Decide fixed_ops sample_isprint (Some sample_engine) (r\<lparr>req_model := ''m''\<rparr>) 0 of (Inr _, _) \<Rightarrow> True | _ \<Rightarrow> False)
    | _ \<Rightarrow> False)" by code_simp
  then obtain r resp w' where "decode_target False sample_body = Inr (Inl r)" "req_model r = []"
    "Decide fixed_ops sample_isprint (Some sample_engine) (r\<lparr>req_model := ''m''\<rparr>) 0 = (Inr resp, w')"
    by (auto split: sum.splits prod.splits)
  then show ?thesis
    by (simp add: serve_def serve_locked_def run_engine_def sample_handler_def sample_post_def)
qed

theorem ok_reply_is_a_decision_witness:
  "\<exists>b w' resp. serve fixed_ops sample_isprint (\<lambda>_. None) sample_handler (\<lambda>w. (None, w)) False False sample_post 0
     = ((200, b), w') \<and> b = DecisionBody resp \<and> rs_model resp = ''m''"
proof -
  obtain b w' where run: "serve fixed_ops sample_isprint (\<lambda>_. None) sample_handler (\<lambda>w. (None, w)) False False sample_post 0
     = ((200, b), w')" using sample_serve by blast
  have "hd_model sample_handler = ''m''" by (simp add: sample_handler_def)
  with ok_reply_is_a_decision [OF run] run show ?thesis by metis
qed

section \<open>The gate\<close>

text \<open>C17. In every interleaving of requests and Busy probes at most one client is past the gate, and
  its Unlock never finds the gate unlocked.\<close>

theorem one_request_at_a_time:
  assumes "gate_reachable g" "pcs g i \<noteq> Outside" "pcs g j \<noteq> Outside"
  shows "i = j \<and> Unlock g \<noteq> None"
  using gate_mutex [OF assms] gate_unlock_defined [OF assms(1,2)] by blast

definition gate_busy :: gate_state where
  "gate_busy = emit 7 Admitted (goto 7 Serving (snd (TryLock gate_init)))"

lemma gate_busy_reachable: "gate_reachable gate_busy"
proof -
  have "gate_step gate_init gate_busy" unfolding gate_busy_def
    by (rule gate_step.admit) (simp_all add: gate_init_def TryLock_def)
  then show ?thesis by (rule gate_reachable.step [OF gate_reachable.init])
qed

theorem one_request_at_a_time_witness: "pcs gate_busy 7 = Serving \<and> Unlock gate_busy \<noteq> None"
proof -
  have pc: "pcs gate_busy 7 = Serving" by (simp add: gate_busy_def emit_def goto_def)
  then have "pcs gate_busy 7 \<noteq> Outside" by simp
  with one_request_at_a_time [OF gate_busy_reachable this this] pc show ?thesis by simp
qed

text \<open>In every interleaving the admitted requests are those that have finished, plus the one
  being served.\<close>

theorem admissions_match_finishes:
  assumes "gate_reachable g"
  shows "count_ev Admitted g = count_ev Finished g + (if \<exists>i. pcs g i = Serving then 1 else 0)"
  by (rule gate_counts [OF assms])

theorem admissions_match_finishes_witness: "count_ev Admitted gate_busy = count_ev Finished gate_busy + 1"
proof -
  have "\<exists>i. pcs gate_busy i = Serving" by (auto simp: gate_busy_def emit_def goto_def)
  with admissions_match_finishes [OF gate_busy_reachable] show ?thesis by simp
qed

text \<open>Two concurrent Busy probes are enough for one to report a busy scorer, and for a request to
  be rejected with 429, although no request was ever admitted.\<close>

theorem busy_reported_without_a_request:
  "\<exists>g. gate_reachable g \<and> (1, ReportedBusy) \<in> set (events g) \<and> (2, Rejected) \<in> set (events g) \<and>
     count_ev Admitted g = 0 \<and> (\<nexists>i. pcs g i = Serving)"
  using busy_without_request by blast

end
