(* ===== verification/SchedulerLedger.thy ===== *)
theory SchedulerLedger
  imports SchedulerFacts
begin

text \<open>
  The calls of \<open>Close\<close> on works, observed in the world: \<open>logged ops\<close> are operations that write the
  handle of every work they close to a log and are otherwise \<open>ops\<close>. The log of a history is the
  list of works of the entries the scheduler reports as closed.
\<close>

section \<open>Operations with a log\<close>

type_synonym 'w logged_world = "nat list \<times> 'w"

definition quiet :: "('w \<Rightarrow> 'a \<times> 'w) \<Rightarrow> 'w logged_world \<Rightarrow> 'a \<times> 'w logged_world" where
  "quiet f = (\<lambda>(clog, w). case f w of (x, w') \<Rightarrow> (x, (clog, w')))"

definition logged :: "'w work_ops \<Rightarrow> 'w logged_world work_ops" where
  "logged ops = \<lparr>wk_remaining = \<lambda>k. quiet (wk_remaining ops k), wk_prefill = \<lambda>k n. quiet (wk_prefill ops k n),
     wk_decode = \<lambda>k n. quiet (wk_decode ops k n), wk_finished = \<lambda>k. quiet (wk_finished ops k),
     wk_cancel = (\<lambda>k (clog, w). (clog, wk_cancel ops k w)),
     wk_close = (\<lambda>k (clog, w). case wk_close ops k w of (e, w') \<Rightarrow> (e, (clog @ [k], w'))),
     wk_ctx_err = \<lambda>k. quiet (wk_ctx_err ops k)\<rparr>"

lemma quiet_log: "quiet f w = (x, w') \<Longrightarrow> fst w' = fst w"
  by (auto simp: quiet_def split: prod.splits)

lemma logged_log:
  "wk_remaining (logged ops) k w = (n, w') \<Longrightarrow> fst w' = fst w"
  "wk_prefill (logged ops) k m w = (p, w') \<Longrightarrow> fst w' = fst w"
  "wk_decode (logged ops) k m w = (p, w') \<Longrightarrow> fst w' = fst w"
  "wk_finished (logged ops) k w = (b, w') \<Longrightarrow> fst w' = fst w"
  "wk_ctx_err (logged ops) k w = (e, w') \<Longrightarrow> fst w' = fst w"
  "fst (wk_cancel (logged ops) k w) = fst w"
  "wk_close (logged ops) k w = (e, w') \<Longrightarrow> fst w' = fst w @ [k]"
  by (auto simp: logged_def dest: quiet_log split: prod.splits)

section \<open>The log of a step\<close>

text \<open>\<open>wk\<close> gives the work of an entry by its order.\<close>

definition known :: "(int \<Rightarrow> nat) \<Rightarrow> entry \<Rightarrow> bool" where
  "known wk e \<longleftrightarrow> wk (ent_order e) = ent_work e"

definition ledger :: "nat list \<Rightarrow> (int \<Rightarrow> nat) \<Rightarrow> 'w logged_world run \<Rightarrow> bool" where
  "ledger L wk r \<longleftrightarrow> fst (rn_world r) = L @ map wk (rn_closed r) \<and> (\<forall>e \<in> set (entries (rn_sched r)). known wk e)"

lemma ledger_build [simp]: "ledger L wk (build f r) = ledger L wk r"
  by (simp add: ledger_def build_def)

lemma ledger_world: "ledger L wk r \<Longrightarrow> fst w = fst (rn_world r) \<Longrightarrow> ledger L wk (r\<lparr>rn_world := w\<rparr>)"
  by (simp add: ledger_def)

lemma ledger_retire:
  assumes "ledger L wk r" "known wk ent"
  shows "ledger L wk (retire (logged ops) ent r)"
proof -
  obtain e w where c: "wk_close (logged ops) (ent_work ent) (rn_world r) = (e, w)" by (metis surj_pair)
  have "rn_world (retire (logged ops) ent r) = w" by (simp add: retire_def c set_error_opt_def build_def split: option.split)
  then show ?thesis using assms logged_log(7) [OF c] by (simp add: ledger_def retire_sel known_def)
qed

lemma ledger_ends:
  assumes "ledger L wk r" "known wk ent"
  shows "ledger L wk (cancelEntry (logged ops) ent r)" "ledger L wk (finishEntry (logged ops) ent r)"
    "ledger L wk (errorEntry (logged ops) ent e r)"
proof -
  have "ledger L wk ((build (markCanceled ent) r)\<lparr>rn_world := wk_cancel (logged ops) (ent_work ent) (rn_world (build (markCanceled ent) r))\<rparr>)"
    using assms(1) by (intro ledger_world) (simp_all add: logged_log(6))
  then show "ledger L wk (cancelEntry (logged ops) ent r)" using assms by (simp add: cancelEntry_def Let_def ledger_retire)
  show "ledger L wk (finishEntry (logged ops) ent r)" "ledger L wk (errorEntry (logged ops) ent e r)"
    using assms by (simp_all add: finishEntry_def errorEntry_def ledger_retire)
qed

lemma ledger_asks:
  assumes "ledger L wk r"
  shows "ledger L wk (snd (ctx_done (logged ops) ent r))" "ledger L wk (snd (work_finished (logged ops) ent r))"
    "ledger L wk (snd (validateRemainingPrefill (logged ops) ent r))"
  using assms
  by (auto simp: ctx_done_def work_finished_def validateRemainingPrefill_def intro!: ledger_world split: option.split prod.split dest: logged_log(1,4,5))

lemma ledger_finish_or_cancel:
  assumes "ledger L wk r" "known wk ent"
  shows "ledger L wk (finish_or_cancel (logged ops) ent r)"
proof -
  obtain fin r1 where f: "work_finished (logged ops) ent r = (fin, r1)" by (metis surj_pair)
  obtain d r2 where d: "ctx_done (logged ops) ent r1 = (d, r2)" by (metis surj_pair)
  have "ledger L wk r1" "ledger L wk r2"
    using ledger_asks(2) [OF assms(1), of ops ent] f ledger_asks(1) [of L wk r1 ops ent] d by simp_all
  then show ?thesis using assms(2) by (simp add: finish_or_cancel_def f d ledger_ends)
qed

lemma ledger_loops:
  assumes "ledger L wk r" "\<forall>e \<in> set es. known wk e"
  shows "ledger L wk (cancelDone (logged ops) es r)" "ledger L wk (finish_completed (logged ops) es r)"
    "ledger L wk (finish_or_cancel_all (logged ops) es r)"
proof -
  show "ledger L wk (cancelDone (logged ops) es r)" using assms
  proof (induction es arbitrary: r)
    case (Cons ent es)
    obtain d r1 where d: "ctx_done (logged ops) ent r = (d, r1)" by (metis surj_pair)
    have "ledger L wk r1" using ledger_asks(1) [OF Cons.prems(1), of ops ent] d by simp
    then show ?case using Cons by (simp add: d ledger_ends)
  qed simp
  show "ledger L wk (finish_completed (logged ops) es r)" using assms
  proof (induction es arbitrary: r)
    case (Cons ent es)
    obtain f r1 where f: "work_finished (logged ops) ent r = (f, r1)" by (metis surj_pair)
    have "ledger L wk r1" using ledger_asks(2) [OF Cons.prems(1), of ops ent] f by simp
    then show ?case using Cons by (simp add: f ledger_ends)
  qed simp
  show "ledger L wk (finish_or_cancel_all (logged ops) es r)" using assms
    by (induction es arbitrary: r) (simp_all add: ledger_finish_or_cancel)
qed

lemma ledger_shrinks: "ledger L wk r \<Longrightarrow> rn_world r' = rn_world r \<Longrightarrow> rn_closed r' = rn_closed r \<Longrightarrow>
    set (entries (rn_sched r')) \<subseteq> set (entries (rn_sched r)) \<Longrightarrow> ledger L wk r'"
  by (auto simp: ledger_def)

lemma ledger_compact: "ledger L wk r \<Longrightarrow> ledger L wk (compact r)"
  by (erule ledger_shrinks) (auto simp: compact_def Let_def entries_def compactEntries_def)

lemma ledger_admit: "ledger L wk r \<Longrightarrow> sd_waiting (rn_sched r) = es \<Longrightarrow> ledger L wk (admit es r)"
proof (induction es arbitrary: r)
  case (Cons ent es)
  let ?r = "build (markAdmitted ent) (r\<lparr>rn_sched := (rn_sched r)\<lparr>sd_waiting := es, sd_running := sd_running (rn_sched r) @ [ent]\<rparr>\<rparr>)"
  have "ledger L wk ?r" by (rule ledger_shrinks [OF Cons.prems(1)]) (use Cons.prems(2) in \<open>auto simp: build_def entries_def\<close>)
  moreover have "sd_waiting (rn_sched ?r) = es" by (simp add: build_def)
  ultimately show ?case using Cons.IH Cons.prems(1) by (simp add: Let_def)
qed simp

lemma ledger_account:
  assumes "ledger L wk r" "known wk ent" "fst (snd outcome) = fst (rn_world r)" "account (logged ops) add ent limit outcome r = (u, r')"
  shows "ledger L wk r'"
proof -
  obtain progress callErr w where o: "outcome = ((progress, callErr), w)" by (metis surj_pair)
  have "ledger L wk (r\<lparr>rn_world := w\<rparr>)" using assms(1,3) o by (intro ledger_world) simp_all
  then show ?thesis using assms(2,4) unfolding account_def o
    by (auto simp: Let_def intro!: ledger_ends ledger_finish_or_cancel split: option.splits if_splits)
qed

lemma ledger_one:
  assumes "ledger L wk r" "known wk ent"
  shows "decode_one (logged ops) ent budget r = (u, r') \<Longrightarrow> ledger L wk r'"
    and "prefill_one (logged ops) ent budget r = (u, r') \<Longrightarrow> ledger L wk r'"
proof -
  obtain rem r1 where v: "validateRemainingPrefill (logged ops) ent r = (rem, r1)" by (metis surj_pair)
  obtain fin r2 where f: "work_finished (logged ops) ent r1 = (fin, r2)" by (metis surj_pair)
  have l1: "ledger L wk r1" using ledger_asks(3) [OF assms(1), of ops ent] v by simp
  have l2: "ledger L wk r2" using ledger_asks(2) [OF l1, of ops ent] f by simp
  have out: "fst (snd (wk_decode (logged ops) (ent_work ent) n (rn_world r2))) = fst (rn_world r2)"
    "fst (snd (wk_prefill (logged ops) (ent_work ent) n (rn_world r2))) = fst (rn_world r2)" for n
    using logged_log(2,3) [of ops "ent_work ent" n "rn_world r2"] by (metis prod.collapse)+
  show "ledger L wk r'" if "decode_one (logged ops) ent budget r = (u, r')"
    using that assms l1 l2 ledger_account [OF l2 assms(2) out(1)]
    by (auto simp: decode_one_def v f intro: ledger_ends split: if_splits sum.splits)
  show "ledger L wk r'" if "prefill_one (logged ops) ent budget r = (u, r')"
    using that assms l1 l2 ledger_account [OF l2 assms(2) out(2)]
    by (auto simp: prefill_one_def v f Let_def intro: ledger_ends split: if_splits sum.splits)
qed

lemma ledger_visit:
  assumes "\<And>ent budget r u r'. ledger L wk r \<Longrightarrow> known wk ent \<Longrightarrow> one ent budget r = (u, r') \<Longrightarrow> ledger L wk r'"
    and "\<And>ent budget r u r'. ent \<in> set (entries (rn_sched r)) \<Longrightarrow> 0 < budget \<Longrightarrow> one ent budget r = (u, r') \<Longrightarrow> phase r r'"
  shows "visit one n idx left budget lst r = (l, r') \<Longrightarrow> n = length (sd_running (rn_sched r)) \<Longrightarrow> idx < n \<Longrightarrow> ledger L wk r \<Longrightarrow> ledger L wk r'"
proof (induction left arbitrary: idx budget lst r)
  case (Suc left)
  show ?case
  proof (cases "budget \<le> 0")
    case True
    then show ?thesis using Suc.prems by simp
  next
    case False
    obtain u r1 where o: "one (sd_running (rn_sched r) ! idx) budget r = (u, r1)" by fastforce
    have mem: "sd_running (rn_sched r) ! idx \<in> set (entries (rn_sched r))" using Suc.prems(2,3) entries_parts(2) [of "rn_sched r"] by auto
    have ph: "phase r r1" using assms(2) [OF mem _ o] False by simp
    have "ledger L wk r1" using assms(1) [OF Suc.prems(4) _ o] mem Suc.prems(4) by (simp add: ledger_def)
    moreover have "visit one n (Suc idx mod n) left (budget - u) (if u > 0 then Some idx else lst) r1 = (l, r')" using Suc.prems(1) False o by simp
    moreover have "n = length (sd_running (rn_sched r1))" using Suc.prems(2) phase_running [OF ph] by simp
    moreover have "Suc idx mod n < n" using Suc.prems(3) by (intro mod_less_divisor) simp
    ultimately show ?thesis using Suc.IH by blast
  qed
qed simp

lemma ledger_cursor:
  "ledger L wk (r\<lparr>rn_sched := (rn_sched r)\<lparr>sd_decode_cursor := c\<rparr>\<rparr>) = ledger L wk r"
  "ledger L wk (r\<lparr>rn_sched := (rn_sched r)\<lparr>sd_prefill_cursor := c\<rparr>\<rparr>) = ledger L wk r"
  by (simp_all add: ledger_def)

lemma ledger_decode:
  assumes "ledger L wk r"
  shows "ledger L wk (runDecode (logged ops) r)"
proof -
  let ?n = "length (sd_running (rn_sched r))"
  let ?start = "normalizeCursor (sd_decode_cursor (rn_sched r)) ?n"
  obtain l r' where v: "visit (decode_one (logged ops)) ?n ?start ?n (DecodeBudget (sd_cfg (rn_sched r))) None r = (l, r')" by (metis surj_pair)
  have "ledger L wk r'" if "?n \<noteq> 0"
    by (rule ledger_visit [OF ledger_one(1) decode_one_spec(1) v]) (use that assms normalizeCursor_less in simp_all)
  then show ?thesis using assms v by (simp add: runDecode_def Let_def ledger_cursor)
qed

lemma ledger_prefill:
  assumes "ledger L wk r"
  shows "ledger L wk (runPrefill (logged ops) r)"
proof -
  let ?n = "length (sd_running (rn_sched r))"
  let ?start = "normalizeCursor (sd_prefill_cursor (rn_sched r)) ?n"
  obtain l r' where v: "visit (prefill_one (logged ops)) ?n ?start ?n (PrefillBudget (sd_cfg (rn_sched r))) None r = (l, r')" by (metis surj_pair)
  have "ledger L wk r'" if "?n \<noteq> 0"
    by (rule ledger_visit [OF ledger_one(2) prefill_one_spec(1) v]) (use that assms normalizeCursor_less in simp_all)
  then show ?thesis using assms v by (simp add: runPrefill_def Let_def ledger_cursor)
qed

lemma ledger_step: "ledger L wk r \<Longrightarrow> ledger L wk (step_run (logged ops) r)"
proof -
  assume l: "ledger L wk r"
  have whole: "\<forall>e \<in> set (sd_waiting (rn_sched q)). known wk e" "\<forall>e \<in> set (sd_running (rn_sched q)). known wk e" if "ledger L wk q" for q
    using that by (auto simp: ledger_def entries_def)
  have waiting: "ledger L wk (cancelDoneWaiting (logged ops) q)" and running: "ledger L wk (cancelDoneRunning (logged ops) q)"
    and completed: "ledger L wk (finishCompletedRunning (logged ops) q)" and final: "ledger L wk (finishOrCancelRunning (logged ops) q)"
    if "ledger L wk q" for q
    using ledger_loops [OF that] whole [OF that]
    by (simp_all add: cancelDoneWaiting_def cancelDoneRunning_def finishCompletedRunning_def finishOrCancelRunning_def)
  show ?thesis unfolding step_run_def Let_def
    by (intro ledger_compact final waiting ledger_prefill ledger_decode completed ledger_admit running l refl)
qed

lemma Step_log:
  assumes "Step (logged ops) (Some s) ctx w = (res, w')" "\<forall>e \<in> set (entries s). known wk e"
  shows "case res of Inl _ \<Rightarrow> fst w' = fst w | Inr (results, stats, s', shut) \<Rightarrow> fst w' = fst w @ map wk shut"
proof -
  obtain err w1 where c: "(case ctx of None \<Rightarrow> (None, w) | Some c \<Rightarrow> wk_ctx_err (logged ops) c w) = (err, w1)" by (metis surj_pair)
  have w1: "fst w1 = fst w" using c by (cases ctx) (auto dest: logged_log(5))
  have "ledger (fst w) wk (start_run s w1)" using assms(2) w1 by (simp add: ledger_def start_run_def)
  from ledger_step [OF this, of ops] show ?thesis using assms(1) c w1
    by (auto simp: Step_def Let_def ledger_def split: if_splits)
qed

lemma close_all_log:
  "close_all (logged ops) es w = (errs, shut, w') \<Longrightarrow> \<forall>e \<in> set es. known wk e \<Longrightarrow> fst w' = fst w @ map wk shut"
proof (induction es arbitrary: w errs shut)
  case (Cons ent es)
  obtain e w1 where c: "wk_close (logged ops) (ent_work ent) (wk_cancel (logged ops) (ent_work ent) w) = (e, w1)" by (metis surj_pair)
  obtain errs2 shut2 where r: "close_all (logged ops) es w1 = (errs2, shut2, w')" "shut = ent_order ent # shut2" using Cons.prems(1) c by (auto split: prod.splits)
  have "fst w1 = fst w @ [ent_work ent]" using logged_log(7) [OF c] logged_log(6) [of ops "ent_work ent" w] by simp
  then show ?case using Cons.IH [OF r(1)] Cons.prems(2) r(2) by (simp add: known_def)
qed simp

lemma Close_log:
  assumes "Close (logged ops) (Some s) w = (err, so, shut, w')" "\<forall>e \<in> set (entries s). known wk e"
  shows "fst w' = fst w @ map wk shut"
  using assms close_all_log [of ops "entries s" w] by (auto simp: Close_def entries_def Let_def split: if_splits prod.splits)

section \<open>The log of a history\<close>

text \<open>The works of the requests that \<open>Add\<close> accepted, in order.\<close>

fun added_by :: "sched_call \<Rightarrow> sched \<Rightarrow> nat list" where
  "added_by (CAdd ctx req (Some work)) s = (case Add (Some s) ctx req (Some work) of Inl _ \<Rightarrow> [] | Inr _ \<Rightarrow> [work])"
| "added_by _ s = []"

fun added_works :: "'w work_ops \<Rightarrow> sched_call list \<Rightarrow> sched \<times> 'w \<times> int list \<Rightarrow> nat list" where
  "added_works ops [] st = []"
| "added_works ops (c # cs) st = added_by c (fst st) @ added_works ops cs (run_call ops c st)"

lemma added_works_append: "added_works ops (cs @ [CClose]) st = added_works ops cs st"
  by (induction cs arbitrary: st) simp_all

definition log_ok :: "nat list \<Rightarrow> sched \<times> 'w logged_world \<times> int list \<Rightarrow> bool" where
  "log_ok works st \<longleftrightarrow> (case st of (s, (clog, w), shut) \<Rightarrow> int (length works) = sd_add_order s \<and>
     clog = map (\<lambda>k. works ! nat k) shut \<and> (\<forall>e \<in> set (entries s). known (\<lambda>k. works ! nat k) e))"

lemma log_ok_call:
  assumes "history_ok st" "log_ok works st"
  shows "log_ok (works @ added_by call (fst st)) (run_call (logged ops) call st)"
proof -
  obtain s clog w shut where st: "st = (s, (clog, w), shut)" by (metis surj_pair)
  let ?wk = "\<lambda>k. works ! nat k"
  have ok: "sched_ok s" "DecodeBudget (sd_cfg s) \<le> max_int64" "PrefillBudget (sd_cfg s) \<le> max_int64"
    and un: "set shut \<union> ent_order ` set (entries s) = {0..<sd_add_order s}" using assms(1) by (simp_all add: history_ok_def st)
  have lg: "int (length works) = sd_add_order s" "clog = map ?wk shut" "\<forall>e \<in> set (entries s). known ?wk e"
    using assms(2) by (simp_all add: log_ok_def st)
  show ?thesis
  proof (cases call)
    case (CAdd ctx req work)
    show ?thesis
    proof (cases "Add (Some s) ctx req work")
      case (Inl e)
      then have "added_by call s = []" by (cases work) (simp_all add: CAdd)
      then show ?thesis using lg Inl by (simp add: CAdd st log_ok_def)
    next
      case (Inr s')
      obtain i seq x ent pos where a: "work = Some x"
        "ent = \<lparr>ent_ctx = ctx, ent_id = i, ent_seq = seq, ent_work = x, ent_order = sd_add_order s\<rparr>"
        "pos = sort_search (\<lambda>k. entryLess ent (sd_waiting s ! k)) 0 (length (sd_waiting s))"
        "s' = s\<lparr>sd_add_order := sd_add_order s + 1, sd_index := (sd_index s)(i \<mapsto> ent_order ent), sd_waiting := insertEntry (sd_waiting s) pos ent\<rparr>"
        by (rule Add_Inr [OF Inr]) blast
      have "set (entries s') = insert ent (set (entries s))"
        using set_insertEntry [of pos "sd_waiting s" ent] sort_search_range [of 0 "length (sd_waiting s)"] a(3) by (auto simp: entries_def a(4))
      moreover have old: "(works @ [x]) ! nat k = works ! nat k" if "k \<in> {0..<sd_add_order s}" for k
        using that lg(1) by (auto simp: nth_append)
      moreover have "known (\<lambda>k. (works @ [x]) ! nat k) e" if "e \<in> set (entries s)" for e
      proof -
        have "ent_order e \<in> {0..<sd_add_order s}" using un that by blast
        then show ?thesis using old lg(3) that by (simp add: known_def)
      qed
      moreover have "known (\<lambda>k. (works @ [x]) ! nat k) ent" by (simp add: known_def a(2) flip: lg(1))
      moreover have "map (\<lambda>k. (works @ [x]) ! nat k) shut = map ?wk shut"
      proof (rule map_cong [OF refl])
        fix k assume "k \<in> set shut"
        then have "k \<in> {0..<sd_add_order s}" using un by blast
        then show "(works @ [x]) ! nat k = works ! nat k" by (rule old)
      qed
      moreover have "added_by call s = [x]" using Inr by (simp add: CAdd a(1))
      ultimately show ?thesis using lg by (simp add: CAdd st Inr log_ok_def) (simp add: a(4))
    qed
  next
    case (CStep ctx)
    obtain r w' where step: "Step (logged ops) (Some s) ctx (clog, w) = (r, w')" by (metis surj_pair)
    note logged = Step_log [OF step lg(3)]
    obtain l' v where w': "w' = (l', v)" by (metis surj_pair)
    show ?thesis
    proof (cases r)
      case (Inl e)
      then have "l' = clog" using logged by (simp add: w')
      moreover have "run_call (logged ops) call st = (s, (l', v), shut)" using step by (simp add: CStep st w' Inl)
      ultimately show ?thesis using lg by (simp add: CStep log_ok_def)
    next
      case (Inr q)
      obtain results stats s' cl where q: "q = (results, stats, s', cl)" by (metis surj_pair)
      note S = Step_ok [OF step [unfolded Inr q] ok]
      have "l' = clog @ map ?wk cl" using logged by (simp add: w' Inr q)
      moreover have "run_call (logged ops) call st = (s', (l', v), shut @ cl)" using step by (simp add: CStep st w' Inr q)
      ultimately show ?thesis using lg S(4,5) by (auto simp: CStep log_ok_def)
    qed
  next
    case CClose
    obtain err so cl w' where c: "Close (logged ops) (Some s) (clog, w) = (err, so, cl, w')" by (metis surj_pair)
    have "\<exists>s'. so = Some s' \<and> sd_add_order s' = sd_add_order s \<and> set (entries s') \<subseteq> set (entries s)"
      using c by (auto simp: Close_def Let_def entries_def split: if_splits prod.splits)
    then obtain s' where s': "so = Some s'" "sd_add_order s' = sd_add_order s" "set (entries s') \<subseteq> set (entries s)" by blast
    obtain l' v where w': "w' = (l', v)" by (metis surj_pair)
    have "l' = clog @ map ?wk cl" using Close_log [OF c lg(3)] by (simp add: w')
    moreover have "run_call (logged ops) call st = (s', (l', v), shut @ cl)" using c by (simp add: CClose st w' s'(1))
    ultimately show ?thesis using lg s'(2,3) by (auto simp: CClose log_ok_def)
  qed
qed

lemma log_ok_calls:
  "history_ok st \<Longrightarrow> log_ok works st \<Longrightarrow> log_ok (works @ added_works (logged ops) calls st) (run_calls (logged ops) calls st)"
proof (induction calls arbitrary: works st)
  case (Cons c calls)
  from Cons.IH [OF run_call_ok [OF Cons.prems(1)] log_ok_call [OF Cons.prems]] show ?case by (simp add: run_calls_def)
qed (simp add: run_calls_def)

lemma works_by_order:
  assumes "distinct shut" "set shut = {0..<int (length works)}"
  shows "mset (map (\<lambda>k. works ! nat k) shut) = mset works"
proof -
  have "mset shut = mset (map int [0..<length works])"
  proof (rule set_eq_iff_mset_eq_distinct [THEN iffD1])
    show "distinct shut" "distinct (map int [0..<length works])" using assms(1) by (simp_all add: distinct_map)
    show "set shut = set (map int [0..<length works])" using assms(2) by (simp add: image_int_atLeastLessThan)
  qed
  then have "mset (map (\<lambda>k. works ! nat k) shut) = mset (map (\<lambda>k. works ! nat k) (map int [0..<length works]))" by (metis mset_map)
  also have "map (\<lambda>k. works ! nat k) (map int [0..<length works]) = works" by (simp add: comp_def map_nth)
  finally show ?thesis .
qed

end
