(* ===== verification/RuntimeProps.thy ===== *)
theory RuntimeProps
  imports Samples SchedulerLedger
begin

text \<open>
  The properties of the runtime: the scheduler over any history of calls, and the prompt cache.
\<close>

section \<open>The scheduler\<close>

text \<open>C5. After any history of calls the queue is in arrival order, at most MaxActive requests run,
  ids are unique and indexed, and every request added is either live or closed once, never both.\<close>

theorem scheduler_invariant:
  assumes "New cfg = Inr s0" "DecodeBudget cfg \<le> max_int64" "PrefillBudget cfg \<le> max_int64"
    and "run_calls ops calls (s0, w0, []) = (s, w, shut)"
  shows "sorted_wrt entryLess (sd_waiting s) \<and> int (length (sd_running s)) \<le> MaxActive (sd_cfg s) \<and>
    distinct (map ent_id (sd_waiting s @ sd_running s)) \<and>
    sd_index s = map_of (map (\<lambda>e. (ent_id e, ent_order e)) (sd_waiting s @ sd_running s)) \<and>
    distinct shut \<and> set shut \<inter> ent_order ` set (sd_waiting s @ sd_running s) = {} \<and>
    set shut \<union> ent_order ` set (sd_waiting s @ sd_running s) = {0..<sd_add_order s}"
proof -
  have "history_ok (s, w, shut)" using run_calls_ok [OF history_start [OF assms(1-3)], of ops calls w0] assms(4) by simp
  then show ?thesis by (simp add: history_ok_def sched_ok_def lists_ok_def entries_def index_of_def)
qed

text \<open>C4. Count the Close calls that the works themselves see. Over any history of Add, Step and Close
  calls that ends with Close, every work ever added has seen exactly one, whatever the works do
  and whichever of their calls fail; the queues are then empty and the scheduler is closed.\<close>

theorem every_work_closed_once:
  assumes "New cfg = Inr s0" "DecodeBudget cfg \<le> max_int64" "PrefillBudget cfg \<le> max_int64"
    and "run_calls (logged ops) (calls @ [CClose]) (s0, ([], w0), []) = (s, (closes, w), shut)"
    and "works = added_works (logged ops) calls (s0, ([], w0), [])"
  shows "mset closes = mset works \<and> closes = map (\<lambda>k. works ! nat k) shut \<and> distinct shut \<and>
    set shut = {0..<int (length works)} \<and> sd_waiting s @ sd_running s = [] \<and> sd_closed s"
proof -
  have h: "history_ok (s0, ([], w0), [])" by (rule history_start [OF assms(1-3)])
  have n: "sd_add_order s0 = 0" "entries s0 = []" using New_ok [OF assms(1)] by simp_all
  have "log_ok [] (s0, ([], w0), [])" by (simp add: log_ok_def n)
  from log_ok_calls [OF h this, of ops "calls @ [CClose]"] assms(4)
  have l: "int (length works) = sd_add_order s" "closes = map (\<lambda>k. works ! nat k) shut"
    by (simp_all add: log_ok_def added_works_append assms(5))
  have c: "distinct shut" "set shut = {0..<sd_add_order s}" "entries s = []" "sd_closed s" using closed_once [OF assms(1-4)] by simp_all
  show ?thesis using works_by_order [OF c(1), of works] l c by (simp add: entries_def)
qed

text \<open>A work that needs three tokens of prefill and two of decoding, by its handle's counter.\<close>

definition counting_work :: "(nat \<Rightarrow> int) work_ops" where
  "counting_work = \<lparr>wk_remaining = (\<lambda>k w. (max 0 (w k - 2), w)),
     wk_prefill = (\<lambda>k n w. ((n, None), w(k := w k - n))),
     wk_decode = (\<lambda>k n w. ((1, None), w(k := w k - 1))),
     wk_finished = (\<lambda>k w. (w k \<le> 0, w)), wk_cancel = (\<lambda>k w. w), wk_close = (\<lambda>k w. (None, w)),
     wk_ctx_err = (\<lambda>k w. (None, w))\<rparr>"

definition sample_config :: sched_config where
  "sample_config = \<lparr>MaxActive = 1, DecodeBudget = 2, PrefillBudget = 8\<rparr>"

definition sample_calls :: "sched_call list" where
  "sample_calls = [CAdd None (Some (''a'', 1)) (Some 0), CAdd None (Some (''b'', 0)) (Some 1), CStep None, CStep None, CStep None]"

definition sample_sched :: sched where
  "sample_sched = \<lparr>sd_cfg = sample_config, sd_closed = False, sd_waiting = [], sd_running = [],
     sd_index = Map.empty, sd_add_order = 0, sd_decode_cursor = 0, sd_prefill_cursor = 0\<rparr>"

lemma sample_new: "New sample_config = Inr sample_sched"
  by (simp add: New_def Validate_def sample_config_def sample_sched_def)

lemma sample_budgets: "DecodeBudget sample_config \<le> max_int64" "PrefillBudget sample_config \<le> max_int64"
  by (simp_all add: sample_config_def max_int64_def)

theorem scheduler_invariant_witness:
  "\<exists>s w shut. run_calls counting_work sample_calls (sample_sched, \<lambda>_. 5, []) = (s, w, shut) \<and>
     sorted_wrt entryLess (sd_waiting s) \<and> int (length (sd_running s)) \<le> MaxActive (sd_cfg s) \<and>
     set shut \<union> ent_order ` set (sd_waiting s @ sd_running s) = {0..<sd_add_order s}"
proof -
  obtain s w shut where run: "run_calls counting_work sample_calls (sample_sched, \<lambda>_. 5, []) = (s, w, shut)"
    by (metis surj_pair)
  from scheduler_invariant [OF sample_new sample_budgets run] run show ?thesis by blast
qed

definition two_adds :: "sched_call list" where
  "two_adds = [CAdd None (Some (''a'', 1)) (Some 0), CAdd None (Some (''b'', 0)) (Some 1)]"

theorem every_work_closed_once_witness:
  "\<exists>s closes w shut. run_calls (logged counting_work) (two_adds @ [CClose]) (sample_sched, ([], \<lambda>_. 5), []) = (s, (closes, w), shut) \<and>
     mset closes = {#0, 1#} \<and> set shut = {0, 1}"
proof -
  obtain s closes w shut where run: "run_calls (logged counting_work) (two_adds @ [CClose]) (sample_sched, ([], \<lambda>_. 5), []) = (s, (closes, w), shut)"
    by (metis surj_pair)
  have works: "added_works (logged counting_work) two_adds (sample_sched, ([], \<lambda>_. 5), []) = [0, 1]" by code_simp
  have "{0..<2} = {0, 1 :: int}" by auto
  then show ?thesis using every_work_closed_once [OF sample_new sample_budgets run works [symmetric]] run by auto
qed

text \<open>C31. A step uses no more decode and prefill tokens than its budgets, whatever the works report,
  keeps the invariant, and closes exactly the requests it drops, each once.\<close>

theorem step_keeps_to_its_budgets:
  assumes "Step ops (Some s) ctx w = (Inr (results, stats, s', shut), w')" "sched_ok s"
    and "DecodeBudget (sd_cfg s) \<le> max_int64" "PrefillBudget (sd_cfg s) \<le> max_int64"
  shows "sched_ok s' \<and> sd_cfg s' = sd_cfg s \<and>
    0 \<le> ss_decode_used stats \<and> ss_decode_used stats \<le> DecodeBudget (sd_cfg s) \<and>
    0 \<le> ss_prefill_used stats \<and> ss_prefill_used stats \<le> PrefillBudget (sd_cfg s) \<and>
    distinct shut \<and> set shut = ent_order ` (set (sd_waiting s @ sd_running s) - set (sd_waiting s' @ sd_running s')) \<and>
    set (sd_waiting s' @ sd_running s') \<subseteq> set (sd_waiting s @ sd_running s)"
  using Step_ok [OF assms] unfolding entries_def by blast

lemma sample_step:
  "\<exists>results stats s' shut w'. Step counting_work (Some sample_sched) None (\<lambda>_. 5) = (Inr (results, stats, s', shut), w')"
  by (simp add: Step_def sample_sched_def Let_def)

theorem step_keeps_to_its_budgets_witness:
  "\<exists>results stats s' shut w'. Step counting_work (Some sample_sched) None (\<lambda>_. 5) = (Inr (results, stats, s', shut), w') \<and>
     ss_decode_used stats \<le> 2 \<and> ss_prefill_used stats \<le> 8 \<and> shut = []"
proof -
  obtain results stats s' shut w' where run: "Step counting_work (Some sample_sched) None (\<lambda>_. 5) = (Inr (results, stats, s', shut), w')"
    using sample_step by blast
  have ok: "sched_ok sample_sched" using New_ok [OF sample_new] by simp
  have cfg: "sd_cfg sample_sched = sample_config" "sd_waiting sample_sched = []" "sd_running sample_sched = []"
    by (simp_all add: sample_sched_def)
  from step_keeps_to_its_budgets [OF run ok] sample_budgets run show ?thesis
    unfolding cfg by (auto simp: sample_config_def)
qed

text \<open>Admission moves a leading part of the queue to the end of the running list, in order, and
  stops only when the queue is empty or MaxActive requests run.\<close>

theorem admission_is_fifo:
  "\<exists>k. sd_running (rn_sched (admit (sd_waiting (rn_sched r)) r)) =
      sd_running (rn_sched r) @ take k (sd_waiting (rn_sched r)) \<and>
    sd_waiting (rn_sched (admit (sd_waiting (rn_sched r)) r)) = drop k (sd_waiting (rn_sched r)) \<and>
    (k = length (sd_waiting (rn_sched r)) \<or>
     MaxActive (sd_cfg (rn_sched r)) \<le> int (length (sd_running (rn_sched (admit (sd_waiting (rn_sched r)) r)))))"
proof -
  obtain k where k: "sd_running (rn_sched (admit (sd_waiting (rn_sched r)) r)) =
      sd_running (rn_sched r) @ take k (sd_waiting (rn_sched r))"
    "sd_waiting (rn_sched (admit (sd_waiting (rn_sched r)) r)) = drop k (sd_waiting (rn_sched r))"
    "k < length (sd_waiting (rn_sched r)) \<Longrightarrow>
     MaxActive (sd_cfg (rn_sched r)) \<le> int (length (sd_running (rn_sched (admit (sd_waiting (rn_sched r)) r))))"
    using admit_fifo [of r "sd_waiting (rn_sched r)"] by auto
  show ?thesis
    using k by (intro exI [of _ "min k (length (sd_waiting (rn_sched r)))"]) (auto simp: min_def)
qed

text \<open>A closed scheduler refuses Add and Step with ErrClosed, and closing it again does nothing.\<close>

theorem closed_scheduler_refuses:
  "Add (Some (s\<lparr>sd_closed := True\<rparr>)) ctx (Some (x # xs, seq)) (Some wk) = Inl ErrClosed \<and>
   Step ops (Some (s\<lparr>sd_closed := True\<rparr>)) None w = (Inl ErrClosed, w) \<and>
   Close ops (Some (s\<lparr>sd_closed := True\<rparr>)) w = (None, Some (s\<lparr>sd_closed := True\<rparr>), [], w)"
  by (simp add: Add_def Step_def Close_def)

section \<open>The prompt cache\<close>

text \<open>Distinct prompt identities never have the same canonical bytes.\<close>

theorem identity_bytes_injective:
  assumes "CanonicalBytes a = Inr x" "CanonicalBytes b = Inr x"
  shows "a = b"
  by (rule CanonicalBytes_inj [OF assms])

definition sample_identity :: identity where
  "sample_identity = \<lparr>ModelFingerprint = ''m'', CheckpointFingerprint = ''c'', Backend = ''b'', WeightLayout = ''l'',
     WeightDType = ''d'', KVPolicy = ''p'', KVPrecision = ''k'', ConfigFingerprint = ''f'', RoPEFingerprint = ''r'',
     AdapterID = [], MultimodalHash = [], CacheSalt = []\<rparr>"

lemma sample_canonical: "\<exists>x. CanonicalBytes sample_identity = Inr x"
proof -
  have "(case CanonicalBytes sample_identity of Inr _ \<Rightarrow> True | Inl _ \<Rightarrow> False)" by code_simp
  then show ?thesis by (auto split: sum.splits)
qed

theorem identity_bytes_injective_witness:
  "\<exists>x. CanonicalBytes sample_identity = Inr x \<and> {d. CanonicalBytes d = Inr x} = {sample_identity}"
proof -
  obtain x where x: "CanonicalBytes sample_identity = Inr x" using sample_canonical by blast
  have "{d. CanonicalBytes d = Inr x} = {sample_identity}" using identity_bytes_injective [OF x] x by blast
  with x show ?thesis by blast
qed

text \<open>C12. In every cache that calls lead to, the bytes in use are the sum of the charges of the
  entries, within the budget, and at least 256 per entry; the statistics agree.\<close>

theorem cache_stays_within_budget:
  assumes "cache_reach ops sha m h c"
  shows "ca_used c = sum_list (map (ce_bytes \<circ> snd) (ca_ll c)) \<and> 0 \<le> ca_used c \<and> ca_used c \<le> max 0 m \<and>
    entryOverhead * int (length (ca_ll c)) \<le> ca_used c \<and>
    cs_used_bytes (ca_stats c) = ca_used c \<and> cs_entries (ca_stats c) = length (ca_ll c)"
proof -
  from cache_reach_ok [OF assms] have ok: "cache_ok c" "ca_max c = max 0 m" by blast+
  have "0 \<le> entryOverhead * int (length (ca_ll c))" by (simp add: entryOverhead_def)
  with total_overhead [OF ok(1)] cache_okD(7-11) [OF ok(1)] ok(2) show ?thesis by (simp add: total_bytes_def)
qed

definition sample_snap :: "(nat, nat) snap_ops" where
  "sample_snap = \<lparr>sn_position = (\<lambda>s w. (int s, w)), sn_size = (\<lambda>s w. (Inr 10, w)), sn_clone = (\<lambda>s w. (Some s, Suc w))\<rparr>"

definition sample_cache :: "nat cache" where
  "sample_cache = NewCache (\<lambda>s. s) 1000 None"

lemma sample_put:
  "\<exists>c w'. Put sample_snap (Some sample_cache) sample_identity 2 [7, 8] (Some 2) 0 = (None, Some c, w') \<and> length (ca_ll c) = 1"
proof -
  have "(case Put sample_snap (Some sample_cache) sample_identity 2 [7, 8] (Some 2) 0 of
     (None, Some c, w') \<Rightarrow> length (ca_ll c) = 1 | _ \<Rightarrow> False)" by code_simp
  then show ?thesis by (auto split: option.splits prod.splits)
qed

theorem cache_stays_within_budget_witness:
  "\<exists>c w'. Put sample_snap (Some sample_cache) sample_identity 2 [7, 8] (Some 2) 0 = (None, Some c, w') \<and>
     256 \<le> ca_used c \<and> ca_used c \<le> 1000"
proof -
  obtain c w' where run: "Put sample_snap (Some sample_cache) sample_identity 2 [7, 8] (Some 2) 0 = (None, Some c, w')"
    "length (ca_ll c) = 1" using sample_put by blast
  have "cache_reach sample_snap (\<lambda>s. s) 1000 None c"
    by (rule cache_reach.put [OF cache_reach.new run(1) [unfolded sample_cache_def]])
  from cache_stays_within_budget [OF this] run show ?thesis by (auto simp: entryOverhead_def)
qed

text \<open>The stored entries of an identity and a block size whose tokens are a prefix of a prompt, and
  the last check of a lookup: the clone still fits the charge of its entry.\<close>

definition stored_prefixes :: "'s cache \<Rightarrow> string \<Rightarrow> int \<Rightarrow> int list \<Rightarrow> (nat \<times> 's centry) set" where
  "stored_prefixes c ident B ts = {(i, e). (i, e) \<in> set (ca_ll c) \<and> ce_identity e = ident \<and> ce_block e = B \<and> prefix (ce_tokens e) ts}"

definition charge_fits :: "('w, 's) snap_ops \<Rightarrow> 's centry \<Rightarrow> 's \<Rightarrow> 'w \<Rightarrow> bool" where
  "charge_fits ops e k w = (case fst (sn_size ops k w) of Inl _ \<Rightarrow> False | Inr n \<Rightarrow>
     (case entryBytes n (int (length (ce_identity e))) (int (length (ce_tokens e))) of Inl _ \<Rightarrow> False | Inr b \<Rightarrow> b \<le> ce_bytes e))"

text \<open>C11. For every hash function, FindLongest returns the read clone of a longest stored entry that
  has the identity and block size of the query and whose tokens are a prefix of it, and moves that
  entry to the front; it returns nothing exactly when there is no such entry, the clone fails, or
  the clone would be charged more than the entry was.\<close>

theorem cache_finds_longest_prefix:
  assumes "cache_reach ops sha m h c" "0 < B" "CanonicalBytes identity = Inr ident"
    and "FindLongest ops mid (Some c) identity B ts w = (r, co, w')"
  shows "if stored_prefixes c ident B ts = {} then r = Inr None \<and> w' = w
    else \<exists>i e c1 f. (i, e) \<in> stored_prefixes c ident B ts \<and>
      (\<forall>(j, g) \<in> stored_prefixes c ident B ts. length (ce_tokens g) \<le> length (ce_tokens e)) \<and>
      ca_ll c1 = move_to_front i (ca_ll c) \<and> co = Some (upd_stats f (mid c1)) \<and>
      (case cloneSnapshotForRead ops (ce_snapshot e) (ce_end e) w of
         (None, w1) \<Rightarrow> r = Inr None \<and> w' = w1
       | (Some k, w1) \<Rightarrow> r = Inr (if charge_fits ops e k w1 then Some k else None) \<and> w' = snd (sn_size ops k w1))"
proof -
  have "cache_ok c" using cache_reach_ok [OF assms(1)] by blast
  note found = lookup_longest [OF this, where ident = ident and ts = ts and B = B]
  let ?keys = "rev (prefixKeys ident B ts (ca_hash c))"
  show ?thesis
  proof (cases "fst (find_keys c ident ts ?keys)")
    case None
    with found have "stored_prefixes c ident B ts = {}" by (auto simp: stored_prefixes_def)
    moreover obtain n where "find_keys c ident ts ?keys = (None, n)" using None by (metis prod.collapse)
    ultimately show ?thesis using assms(2-4) by (simp add: FindLongest_def)
  next
    case (Some x)
    obtain i e where x: "x = (i, e)" by (metis surj_pair)
    obtain n where keys: "find_keys c ident ts ?keys = (Some (i, e), n)" using Some x by (metis prod.collapse)
    have mem: "(i, e) \<in> stored_prefixes c ident B ts"
      and longest: "\<forall>(j, g) \<in> stored_prefixes c ident B ts. length (ce_tokens g) \<le> length (ce_tokens e)"
      using found by (auto simp: Some x stored_prefixes_def)
    define c1 where "c1 = (upd_stats (\<lambda>st. st\<lparr>cs_lookups := cs_lookups st + 1, cs_collisions := cs_collisions st + n\<rparr>) c)
      \<lparr>ca_ll := move_to_front i (ca_ll c)\<rparr>"
    have front: "ca_ll c1 = move_to_front i (ca_ll c)" by (simp add: c1_def)
    obtain clone w1 where clone: "cloneSnapshotForRead ops (ce_snapshot e) (ce_end e) w = (clone, w1)" by (metis surj_pair)
    have run: "(case clone of None \<Rightarrow> r = Inr None \<and> w' = w1
        | Some k \<Rightarrow> r = Inr (if charge_fits ops e k w1 then Some k else None) \<and> w' = snd (sn_size ops k w1)) \<and>
      (\<exists>f. co = Some (upd_stats f (mid c1)))"
      using assms(2-4) keys clone
      by (auto simp: FindLongest_def charge_fits_def Let_def c1_def split: option.splits prod.splits sum.splits if_splits)
    from mem longest front run show ?thesis by (auto simp: clone split: option.splits intro!: exI [of _ i] exI [of _ e] exI [of _ c1])
  qed
qed

text \<open>Two prompts are stored, one a prefix of the other.\<close>

definition two_prompts :: "nat cache" where
  "two_prompts = (case Put sample_snap (Some sample_cache) sample_identity 2 [7, 8] (Some 2) 0 of (_, co, _) \<Rightarrow>
     case Put sample_snap co sample_identity 2 [7, 8, 9, 10] (Some 4) 0 of (_, co', _) \<Rightarrow> the co')"

lemma Put_total: "\<exists>err c' w'. Put ops (Some c) identity B ts snap w = (err, Some c', w')"
proof -
  obtain p w1 where prep: "prepare_put ops c identity B ts snap w = (p, w1)" by (metis surj_pair)
  show ?thesis
  proof (cases p)
    case (Inl e) then show ?thesis using prep by (simp add: Put_def)
  next
    case (Inr q)
    obtain canon clone size key where q: "q = (canon, clone, size, key)" by (metis surj_pair)
    obtain found n where "find_match (ca_ll c) canon ts (ca_buckets c key) = (found, n)" by (metis surj_pair)
    then show ?thesis using prep Inr q by (simp add: Put_def Let_def)
  qed
qed

lemma two_prompts_reach: "cache_reach sample_snap (\<lambda>s. s) 1000 None two_prompts"
proof -
  obtain c w1 where first: "Put sample_snap (Some sample_cache) sample_identity 2 [7, 8] (Some 2) 0 = (None, Some c, w1)"
    using sample_put by blast
  obtain err c' w2 where second: "Put sample_snap (Some c) sample_identity 2 [7, 8, 9, 10] (Some 4) 0 = (err, Some c', w2)"
    using Put_total [of sample_snap c sample_identity 2 "[7, 8, 9, 10]" "Some 4" 0] that by blast
  have "cache_reach sample_snap (\<lambda>s. s) 1000 None c'"
    by (rule cache_reach.put [OF cache_reach.put [OF cache_reach.new first [unfolded sample_cache_def]] second])
  then show ?thesis by (simp add: two_prompts_def first second)
qed

lemma two_prompts_lookup:
  "fst (FindLongest sample_snap id (Some two_prompts) sample_identity 2 [7, 8, 9, 10, 11] 0) = Inr (Some 4)"
  by code_simp

theorem cache_finds_longest_prefix_witness:
  "\<exists>i e. (i, e) \<in> set (ca_ll two_prompts) \<and> prefix (ce_tokens e) [7, 8, 9, 10, 11] \<and>
     fst (cloneSnapshotForRead sample_snap (ce_snapshot e) (ce_end e) 0) = Some 4"
proof -
  obtain ident where ident: "CanonicalBytes sample_identity = Inr ident" using sample_canonical by blast
  obtain r co w' where run: "FindLongest sample_snap id (Some two_prompts) sample_identity 2 [7, 8, 9, 10, 11] 0 = (r, co, w')"
    by (metis surj_pair)
  have r: "r = Inr (Some 4)" using two_prompts_lookup by (simp add: run)
  from cache_finds_longest_prefix [OF two_prompts_reach _ ident run, unfolded r] obtain i e where
    e: "(i, e) \<in> stored_prefixes two_prompts ident 2 [7, 8, 9, 10, 11]"
      "case cloneSnapshotForRead sample_snap (ce_snapshot e) (ce_end e) 0 of (None, w1) \<Rightarrow> False
       | (Some k, w1) \<Rightarrow> Some (4 :: nat) = (if charge_fits sample_snap e k w1 then Some k else None)"
    by (auto split: if_splits prod.splits option.splits)
  have "(i, e) \<in> set (ca_ll two_prompts)" "prefix (ce_tokens e) [7, 8, 9, 10, 11]" using e(1) by (simp_all add: stored_prefixes_def)
  moreover have "fst (cloneSnapshotForRead sample_snap (ce_snapshot e) (ce_end e) 0) = Some 4"
    using e(2) by (auto split: prod.splits option.splits if_splits)
  ultimately show ?thesis by blast
qed

text \<open>After a successful Put, a lookup of the stored tokens or of any continuation of them finds
  an entry that covers at least the stored tokens.\<close>

theorem stored_prompt_is_found:
  assumes "cache_reach ops sha m h c" "Put ops (Some c) ident B ts snap w = (None, Some c', w')"
  shows "\<exists>canon i e. CanonicalBytes ident = Inr canon \<and>
    fst (find_keys c' canon (ts @ more_ts) (rev (prefixKeys canon B (ts @ more_ts) (ca_hash c')))) = Some (i, e) \<and>
    ce_identity e = canon \<and> prefix (ce_tokens e) (ts @ more_ts) \<and> length ts \<le> length (ce_tokens e)"
proof -
  have "cache_ok c" using cache_reach_ok [OF assms(1)] by blast
  from Put_ok [OF this assms(2)] obtain canon i e rest where p: "cache_ok c'" "CanonicalBytes ident = Inr canon"
    "ca_ll c' = (i, e) # rest" "ce_identity e = canon" "ce_block e = B" "ce_tokens e = ts" by auto
  have mem: "(i, e) \<in> set (ca_ll c')" "prefix (ce_tokens e) (ts @ more_ts)" using p by simp_all
  note found = lookup_longest [OF p(1), where ident = canon and ts = "ts @ more_ts" and B = B]
  show ?thesis
  proof (cases "fst (find_keys c' canon (ts @ more_ts) (rev (prefixKeys canon B (ts @ more_ts) (ca_hash c'))))")
    case None
    with found mem p(4,5) show ?thesis unfolding None option.case by blast
  next
    case (Some jf)
    obtain j f where jf: "jf = (j, f)" by fastforce
    from found have "ce_identity f = canon" "prefix (ce_tokens f) (ts @ more_ts)" "length (ce_tokens e) \<le> length (ce_tokens f)"
      unfolding Some jf option.case prod.case using mem p(4,5) by blast+
    with p(2,6) Some jf show ?thesis by auto
  qed
qed

theorem stored_prompt_is_found_witness:
  "\<exists>c w' canon i e. Put sample_snap (Some sample_cache) sample_identity 2 [7, 8] (Some 2) 0 = (None, Some c, w') \<and>
     fst (find_keys c canon [7, 8, 9] (rev (prefixKeys canon 2 [7, 8, 9] (ca_hash c)))) = Some (i, e) \<and> 2 \<le> length (ce_tokens e)"
proof -
  obtain c w' where run: "Put sample_snap (Some sample_cache) sample_identity 2 [7, 8] (Some 2) 0 = (None, Some c, w')"
    using sample_put by blast
  have "cache_reach sample_snap (\<lambda>s. s) 1000 None sample_cache" unfolding sample_cache_def by (rule cache_reach.new)
  from stored_prompt_is_found [OF this run, of "[9]"] obtain canon i e where
    "fst (find_keys c canon ([7, 8] @ [9]) (rev (prefixKeys canon 2 ([7, 8] @ [9]) (ca_hash c)))) = Some (i, e)"
    "length [7, 8 :: int] \<le> length (ce_tokens e)" by blast
  then have "fst (find_keys c canon [7, 8, 9] (rev (prefixKeys canon 2 [7, 8, 9] (ca_hash c)))) = Some (i, e)"
    "2 \<le> length (ce_tokens e)" by simp_all
  with run show ?thesis by blast
qed

text \<open>Eviction for an insertion keeps the most recently used entries, and as many of them as fit.\<close>

theorem eviction_keeps_recent_entries:
  assumes "cache_reach ops sha m h c" "0 \<le> threshold"
  shows "prefix (ca_ll (evict_loop None 0 threshold c)) (ca_ll c) \<and>
    ca_used (evict_loop None 0 threshold c) \<le> threshold \<and>
    (ca_ll (evict_loop None 0 threshold c) = ca_ll c \<or>
     threshold < sum_list (map (ce_bytes \<circ> snd) (take (Suc (length (ca_ll (evict_loop None 0 threshold c)))) (ca_ll c))))"
proof -
  have ok: "cache_ok c" using cache_reach_ok [OF assms(1)] by blast
  from evict_loop_spec [OF ok assms(2), where skip = None and own = 0]
  have s: "prefix (ca_ll (evict_loop None 0 threshold c)) (ca_ll c)" "ca_used (evict_loop None 0 threshold c) \<le> threshold"
    by simp_all
  show ?thesis
  proof (cases "length (ca_ll (evict_loop None 0 threshold c)) < length (ca_ll c)")
    case True
    with evict_loop_maximal [OF ok assms(2)] s show ?thesis by blast
  next
    case False
    then have "ca_ll (evict_loop None 0 threshold c) = ca_ll c"
      using s(1) by (metis antisym_conv3 not_equal_is_parallel prefix_length_less parallelD1 prefix_length_le le_antisym not_le prefix_order.le_neq_trans)
    with s show ?thesis by blast
  qed
qed

theorem eviction_keeps_recent_entries_witness:
  "\<exists>c w'. Put sample_snap (Some sample_cache) sample_identity 2 [7, 8] (Some 2) 0 = (None, Some c, w') \<and>
     ca_used (evict_loop None 0 100 c) \<le> 100"
proof -
  obtain c w' where run: "Put sample_snap (Some sample_cache) sample_identity 2 [7, 8] (Some 2) 0 = (None, Some c, w')"
    using sample_put by blast
  have "cache_reach sample_snap (\<lambda>s. s) 1000 None c"
    by (rule cache_reach.put [OF cache_reach.new run [unfolded sample_cache_def]])
  from eviction_keeps_recent_entries [OF this, of 100] run show ?thesis by simp
qed

end
