(* ===== verification/Placement.thy ===== *)
theory Placement
  imports Checked Floats
begin

text \<open>
  \<open>backends/placement/placement.go\<close>: estimates of the memory a model needs, in saturating 64-bit
  arithmetic, and the plan that puts the leading layers on the accelerator. Megabytes are floats,
  over any record of float operations.
\<close>

section \<open>Data\<close>

datatype tier = TierGPU | TierPinnedCPU | TierMmap | TierOther int

definition tier_String :: "tier \<Rightarrow> string" where
  "tier_String t = (case t of TierGPU \<Rightarrow> ''GPU'' | TierPinnedCPU \<Rightarrow> ''CPU-pinned'' | TierMmap \<Rightarrow> ''mmap''
     | TierOther _ \<Rightarrow> ''unknown'')"

record 'f layer_placement =
  lp_layer :: nat
  lp_location :: tier
  lp_weight_mb :: 'f

record 'f placement_plan =
  pp_layers :: "'f layer_placement list"
  pp_resident_mb :: 'f
  pp_gpu_layers :: nat
  pp_cpu_layers :: nat
  pp_mmap_layers :: nat
  pp_total_gpu_mb :: 'f
  pp_total_cpu_mb :: 'f
  pp_avail_gpu_mb :: 'f
  pp_nvfp4_resident_mb :: 'f
  pp_nvfp4_layer_mb :: 'f
  pp_nvfp4_expert_mb :: 'f

record model_size =
  NumLayers :: int
  HiddenSize :: int
  Intermediate :: int
  NumHeads :: int
  NumKVHeads :: int
  HeadDim :: int
  GlobalHeadDim :: int
  VocabSize :: int
  HiddenPerLayer :: int
  QuantBits :: int
  QuantFormat :: string
  IsGemma4 :: bool
  HasDoubleWideMLP :: bool
  NumKVSharedLayers :: int
  NumExperts :: int
  MoEIntermediate :: int

section \<open>Sizes\<close>

abbreviation sat_mul :: "int \<Rightarrow> int \<Rightarrow> int" where "sat_mul \<equiv> SaturatingMulInt64"
abbreviation sat_add :: "int \<Rightarrow> int \<Rightarrow> int" where "sat_add \<equiv> SaturatingAddInt64"

definition nonNegativeInt64 :: "int \<Rightarrow> int" where
  "nonNegativeInt64 v = (if v \<le> 0 then 0 else v)"

definition divCeilInt64 :: "int \<Rightarrow> int \<Rightarrow> int" where
  "divCeilInt64 a b = (if a \<le> 0 \<or> b \<le> 0 then 0 else 1 + go_quot (a - 1) b)"

definition isNVFP4 :: "model_size \<Rightarrow> bool" where
  "isNVFP4 info \<longleftrightarrow> QuantFormat info = ''nvfp4''"

definition isMoE :: "model_size \<Rightarrow> bool" where
  "isMoE info \<longleftrightarrow> NumExperts info > 0 \<and> (MoEIntermediate info > 0 \<or> Intermediate info > 0)"

definition estimateNVFP4MatrixBytes :: "int \<Rightarrow> int \<Rightarrow> int" where
  "estimateNVFP4MatrixBytes inD outD =
     (if inD \<le> 0 \<or> outD \<le> 0 then 0
      else let packed = divCeilInt64 (sat_mul inD outD) 2; f8Scales = sat_mul outD (divCeilInt64 inD 16)
        in sat_add (sat_add packed f8Scales) 4)"

text \<open>The local function \<open>pack\<close> of the INT4 branch, and \<open>matBytes\<close> of the float branch.\<close>

definition int4_matrix_bytes :: "int \<Rightarrow> int \<Rightarrow> int" where
  "int4_matrix_bytes inD outD =
     (if inD \<le> 0 \<or> outD \<le> 0 then 0
      else let numGroups = divCeilInt64 inD 64;
               packed = sat_mul (sat_mul (divCeilInt64 inD 8) outD) 4;
               scales = sat_mul (sat_mul outD numGroups) 4;
               biases = sat_mul (sat_mul outD numGroups) 4
        in sat_add packed (sat_add scales biases))"

definition f32_matrix_bytes :: "int \<Rightarrow> int \<Rightarrow> int" where
  "f32_matrix_bytes inD outD = sat_mul (sat_mul inD outD) 4"

definition layer_head_dim :: "model_size \<Rightarrow> int" where
  "layer_head_dim info =
     (let headDim = nonNegativeInt64 (HeadDim info) in
      if GlobalHeadDim info > 0 \<and> IsGemma4 info
      then (if headDim < nonNegativeInt64 (GlobalHeadDim info) then nonNegativeInt64 (GlobalHeadDim info) else headDim)
      else headDim)"

definition layer_inter :: "model_size \<Rightarrow> int \<Rightarrow> int" where
  "layer_inter info layerIdx =
     (let inter = nonNegativeInt64 (Intermediate info) in
      if HasDoubleWideMLP info \<and> NumKVSharedLayers info > 0
      then (if layerIdx \<ge> wrap64 (NumLayers info - NumKVSharedLayers info) then sat_mul inter 2 else inter)
      else inter)"

text \<open>The values that \<open>add\<close> is called with, in order.\<close>

definition layer_parts :: "model_size \<Rightarrow> int \<Rightarrow> int list" where
  "layer_parts info layerIdx =
     (let h = nonNegativeInt64 (HiddenSize info);
          headDim = layer_head_dim info;
          qDim = sat_mul (nonNegativeInt64 (NumHeads info)) headDim;
          kvDim = sat_mul (nonNegativeInt64 (NumKVHeads info)) headDim;
          inter = layer_inter info layerIdx;
          attention = (\<lambda>pack. [pack h qDim, pack h kvDim, pack h kvDim, pack qDim h]);
          mlp = (\<lambda>pack. [pack h inter, pack h inter, pack inter h]);
          hpl = nonNegativeInt64 (HiddenPerLayer info)
      in (if isNVFP4 info then attention estimateNVFP4MatrixBytes @
            (if isMoE info then [sat_mul (sat_mul h (nonNegativeInt64 (NumExperts info))) 2]
             else mlp estimateNVFP4MatrixBytes)
          else if QuantBits info = 4 then attention int4_matrix_bytes @ mlp int4_matrix_bytes
          else attention f32_matrix_bytes @ mlp f32_matrix_bytes) @
         [sat_mul h 16, sat_mul headDim 8] @
         (if HiddenPerLayer info > 0 then [sat_mul (sat_mul h hpl) 4, sat_mul (sat_mul hpl h) 4, sat_mul h 4] else []) @
         [sat_mul (sat_mul kvDim 8) 1024])"

definition sat_sum :: "int list \<Rightarrow> int" where
  "sat_sum vs = fold (\<lambda>v bytes. sat_add bytes v) vs 0"

definition EstimateLayerWeightBytes :: "model_size \<Rightarrow> int \<Rightarrow> int" where
  "EstimateLayerWeightBytes info layerIdx = sat_sum (layer_parts info layerIdx)"

definition table_bytes :: "model_size \<Rightarrow> int" where
  "table_bytes info =
     (let h = nonNegativeInt64 (HiddenSize info); vocab = nonNegativeInt64 (VocabSize info) in
      if isNVFP4 info then sat_mul (sat_mul vocab h) 2
      else if QuantBits info = 4 then divCeilInt64 (sat_mul vocab h) 2
      else sat_mul (sat_mul vocab h) 4)"

definition work_elems :: "model_size \<Rightarrow> int" where
  "work_elems info =
     (let h = nonNegativeInt64 (HiddenSize info);
          maxHeadDim = (if nonNegativeInt64 (GlobalHeadDim info) > nonNegativeInt64 (HeadDim info)
            then nonNegativeInt64 (GlobalHeadDim info) else nonNegativeInt64 (HeadDim info));
          maxQDim = sat_mul (nonNegativeInt64 (NumHeads info)) maxHeadDim;
          inter = nonNegativeInt64 (Intermediate info);
          maxInter = (if HasDoubleWideMLP info then sat_mul inter 2 else inter)
      in sat_sum [h, h, h, sat_mul maxQDim 2, maxQDim, maxQDim, sat_mul maxInter 2, h])"

definition resident_parts :: "model_size \<Rightarrow> int list" where
  "resident_parts info =
     (let h = nonNegativeInt64 (HiddenSize info); hpl = nonNegativeInt64 (HiddenPerLayer info);
          totalPLI = sat_mul (nonNegativeInt64 (NumLayers info)) hpl
      in [table_bytes info, table_bytes info, sat_mul h 4,
          sat_mul (sat_mul 2048 (nonNegativeInt64 (HeadDim info))) 4, sat_mul (work_elems info) 4] @
         (if HiddenPerLayer info > 0
          then [sat_mul (sat_mul h totalPLI) 4, sat_mul hpl 4, sat_mul (sat_mul totalPLI 4) 2] else []))"

definition EstimateResidentBytes :: "model_size \<Rightarrow> int" where
  "EstimateResidentBytes info = sat_sum (resident_parts info)"

definition EstimateNVFP4ExpertSlotBytes :: "model_size \<Rightarrow> int" where
  "EstimateNVFP4ExpertSlotBytes info =
     (if \<not> isNVFP4 info then 0
      else let h = nonNegativeInt64 (HiddenSize info); moe = nonNegativeInt64 (MoEIntermediate info);
               inter = (if moe = 0 then nonNegativeInt64 (Intermediate info) else moe)
        in sat_sum [estimateNVFP4MatrixBytes h inter, estimateNVFP4MatrixBytes h inter, estimateNVFP4MatrixBytes inter h])"

definition EstimateNVFP4ExpertBytes :: "model_size \<Rightarrow> int" where
  "EstimateNVFP4ExpertBytes info =
     (if \<not> isNVFP4 info \<or> NumExperts info \<le> 0 then 0
      else sat_mul (nonNegativeInt64 (NumExperts info)) (EstimateNVFP4ExpertSlotBytes info))"

definition RecommendNVFP4ExpertSlots :: "model_size \<Rightarrow> int \<Rightarrow> int" where
  "RecommendNVFP4ExpertSlots info budgetBytes =
     (if budgetBytes \<le> 0 then 0
      else let slotBytes = EstimateNVFP4ExpertSlotBytes info in
        if slotBytes \<le> 0 then 0
        else let slots = go_quot budgetBytes slotBytes in if slots > max_int64 then max_int64 else slots)"

section \<open>The plan\<close>

definition uint64ToInt64 :: "int \<Rightarrow> int" where
  "uint64ToInt64 v = (if v > max_int64 then max_int64 else v)"

definition bytesToMB :: "'f fops \<Rightarrow> int \<Rightarrow> 'f" where
  "bytesToMB ops v = f_div ops (f_of_int ops v) (f_of_int ops 1048576)"

text \<open>The auto-fit loop from layer \<open>i\<close> on, \<open>left\<close> layers to go.\<close>

fun auto_fit :: "model_size \<Rightarrow> int \<Rightarrow> nat \<Rightarrow> nat \<Rightarrow> int \<Rightarrow> nat" where
  "auto_fit info remaining i 0 used = 0"
| "auto_fit info remaining i (Suc left) used =
     (let layerBytes = EstimateLayerWeightBytes info (int i) in
      if layerBytes \<le> wrap64 (remaining - used)
      then Suc (auto_fit info remaining (Suc i) left (wrap64 (used + layerBytes)))
      else 0)"

definition place_layer :: "'f fops \<Rightarrow> model_size \<Rightarrow> int \<Rightarrow> nat \<Rightarrow> 'f placement_plan \<times> 'f \<times> 'f \<Rightarrow> 'f placement_plan \<times> 'f \<times> 'f" where
  "place_layer ops info gpuLayers i st = (case st of (plan, totalGPU, totalCPU) \<Rightarrow>
     let mb = bytesToMB ops (EstimateLayerWeightBytes info (int i)) in
     if int i < gpuLayers
     then (plan\<lparr>pp_layers := pp_layers plan @ [\<lparr>lp_layer = i, lp_location = TierGPU, lp_weight_mb = mb\<rparr>],
             pp_gpu_layers := Suc (pp_gpu_layers plan),
             pp_nvfp4_layer_mb := (if isNVFP4 info then f_add ops (pp_nvfp4_layer_mb plan) mb else pp_nvfp4_layer_mb plan)\<rparr>,
           f_add ops totalGPU mb, totalCPU)
     else (plan\<lparr>pp_layers := pp_layers plan @ [\<lparr>lp_layer = i, lp_location = TierMmap, lp_weight_mb = mb\<rparr>],
             pp_mmap_layers := Suc (pp_mmap_layers plan)\<rparr>, totalGPU, f_add ops totalCPU mb))"

definition PlanLayerPlacement :: "'f fops \<Rightarrow> model_size \<Rightarrow> int \<Rightarrow> int \<Rightarrow> 'f placement_plan" where
  "PlanLayerPlacement ops info gpuLayers0 availGPUBytes =
     (let availGPU = uint64ToInt64 availGPUBytes;
          residentBytes = EstimateResidentBytes info;
          remaining = wrap64 (availGPU - residentBytes);
          remainingGPU = (if remaining < 0 then 0 else remaining);
          numLayers = nat (NumLayers info);
          gpuLayers = (if gpuLayers0 < 0 then int (auto_fit info remainingGPU 0 numLayers 0) else gpuLayers0);
          residentMB = bytesToMB ops residentBytes;
          start = \<lparr>pp_layers = [], pp_resident_mb = residentMB, pp_gpu_layers = 0, pp_cpu_layers = 0,
            pp_mmap_layers = 0, pp_total_gpu_mb = f_zero ops, pp_total_cpu_mb = f_zero ops,
            pp_avail_gpu_mb = bytesToMB ops availGPU,
            pp_nvfp4_resident_mb = (if isNVFP4 info then residentMB else f_zero ops),
            pp_nvfp4_layer_mb = f_zero ops, pp_nvfp4_expert_mb = f_zero ops\<rparr>;
          (plan, totalGPU, totalCPU) =
            fold (place_layer ops info gpuLayers) [0..<numLayers] (start, f_zero ops, f_zero ops)
      in plan\<lparr>pp_total_gpu_mb := f_add ops totalGPU (pp_resident_mb plan), pp_total_cpu_mb := totalCPU,
           pp_nvfp4_expert_mb := (if isNVFP4 info then bytesToMB ops (EstimateNVFP4ExpertBytes info)
             else pp_nvfp4_expert_mb plan)\<rparr>)"

end
