(* ===== verification/Budget.thy ===== *)
theory Budget
  imports Placement
begin

text \<open>
  \<open>backends/placement/budget.go\<close>: the budget manager, its four categories and their counters. A
  category outside the four is \<open>BudgetOther\<close>. The mutex makes each operation atomic, the
  counters are atomic by themselves.
\<close>

datatype budget_category = BudgetResident | BudgetLayer | BudgetStream | BudgetExpert | BudgetOther int

record budget_manager =
  ResidentBudget :: int
  LayerBudget :: int
  StreamBudget :: int
  ExpertBudget :: int
  ResidentUsed :: int
  LayerUsed :: int
  StreamUsed :: int
  ExpertUsed :: int
  LayerHits :: "64 word"
  LayerEvicts :: "64 word"
  ExpertHits :: "64 word"
  ExpertEvicts :: "64 word"
  StreamHits :: "64 word"
  StreamEvicts :: "64 word"

definition zero_manager :: budget_manager where
  "zero_manager = \<lparr>ResidentBudget = 0, LayerBudget = 0, StreamBudget = 0, ExpertBudget = 0,
     ResidentUsed = 0, LayerUsed = 0, StreamUsed = 0, ExpertUsed = 0, LayerHits = 0, LayerEvicts = 0,
     ExpertHits = 0, ExpertEvicts = 0, StreamHits = 0, StreamEvicts = 0\<rparr>"

definition mbToBytes :: "int \<Rightarrow> int" where
  "mbToBytes mb = (if mb \<le> 0 then 0 else if mb > go_quot max_int64 1048576 then max_int64
     else wrap64 (wrap64 (mb * 1024) * 1024))"

definition NewBudgetManager :: "int \<Rightarrow> int \<Rightarrow> int \<Rightarrow> int \<Rightarrow> budget_manager" where
  "NewBudgetManager residentMB layerMB streamMB expertMB = zero_manager\<lparr>ResidentBudget := mbToBytes residentMB,
     LayerBudget := mbToBytes layerMB, StreamBudget := mbToBytes streamMB, ExpertBudget := mbToBytes expertMB\<rparr>"

definition NewAutoBudgetManager :: "int \<Rightarrow> int \<Rightarrow> int \<Rightarrow> int \<Rightarrow> int \<Rightarrow> budget_manager" where
  "NewAutoBudgetManager freeBytes totalBytes residentMB streamMB expertMB =
     (if totalBytes = 0 then zero_manager\<lparr>StreamBudget := mbToBytes streamMB\<rparr>
      else
        let avail0 = wrap64 (uint64ToInt64 freeBytes - 268435456);
            available = (if avail0 < 0 then 0 else avail0);
            residentBytes = (if mbToBytes residentMB > available then available else mbToBytes residentMB);
            remaining = wrap64 (available - residentBytes);
            expertBytes = (if mbToBytes expertMB > remaining then remaining else mbToBytes expertMB);
            layerBytes = wrap64 (remaining - expertBytes)
        in zero_manager\<lparr>ResidentBudget := residentBytes, LayerBudget := layerBytes,
             StreamBudget := mbToBytes streamMB, ExpertBudget := expertBytes\<rparr>)"

definition validBudgetCategory :: "budget_category \<Rightarrow> bool" where
  "validBudgetCategory cat \<longleftrightarrow> cat = BudgetResident \<or> cat = BudgetLayer \<or> cat = BudgetStream \<or> cat = BudgetExpert"

text \<open>\<open>budgetAndUsed\<close> returns a pointer to the usage; here reading and writing it.\<close>

definition budgetAndUsed :: "budget_manager \<Rightarrow> budget_category \<Rightarrow> int \<times> int" where
  "budgetAndUsed b cat = (case cat of
     BudgetResident \<Rightarrow> (ResidentBudget b, ResidentUsed b) | BudgetLayer \<Rightarrow> (LayerBudget b, LayerUsed b)
   | BudgetStream \<Rightarrow> (StreamBudget b, StreamUsed b) | BudgetExpert \<Rightarrow> (ExpertBudget b, ExpertUsed b)
   | BudgetOther _ \<Rightarrow> (0, 0))"

definition set_used :: "budget_category \<Rightarrow> int \<Rightarrow> budget_manager \<Rightarrow> budget_manager" where
  "set_used cat n b = (case cat of
     BudgetResident \<Rightarrow> b\<lparr>ResidentUsed := n\<rparr> | BudgetLayer \<Rightarrow> b\<lparr>LayerUsed := n\<rparr>
   | BudgetStream \<Rightarrow> b\<lparr>StreamUsed := n\<rparr> | BudgetExpert \<Rightarrow> b\<lparr>ExpertUsed := n\<rparr> | BudgetOther _ \<Rightarrow> b)"

definition Alloc :: "budget_manager option \<Rightarrow> budget_category \<Rightarrow> int \<Rightarrow> bool \<times> budget_manager option" where
  "Alloc bo cat bytes = (case bo of None \<Rightarrow> (False, None) | Some b \<Rightarrow>
     if \<not> validBudgetCategory cat \<or> bytes \<le> 0 then (bytes = 0 \<and> validBudgetCategory cat, Some b)
     else let (budget, used) = budgetAndUsed b cat in
       if budget > 0 \<and> bytes > wrap64 (budget - used) then (False, Some b)
       else if used > max_int64 - bytes then (False, Some b)
       else (True, Some (set_used cat (wrap64 (used + bytes)) b)))"

definition Free :: "budget_manager option \<Rightarrow> budget_category \<Rightarrow> int \<Rightarrow> budget_manager option" where
  "Free bo cat bytes = (case bo of None \<Rightarrow> None | Some b \<Rightarrow>
     if \<not> validBudgetCategory cat \<or> bytes \<le> 0 then Some b
     else let (budget, used) = budgetAndUsed b cat in
       if bytes \<ge> used then Some (set_used cat 0 b) else Some (set_used cat (wrap64 (used - bytes)) b))"

definition Available :: "budget_manager option \<Rightarrow> budget_category \<Rightarrow> int" where
  "Available bo cat = (case bo of None \<Rightarrow> 0 | Some b \<Rightarrow>
     if \<not> validBudgetCategory cat then 0
     else let (budget, used) = budgetAndUsed b cat in
       if budget = 0 then 4611686018427387903
       else let avail = wrap64 (budget - used) in if avail < 0 then 0 else avail)"

definition Hit :: "budget_manager option \<Rightarrow> budget_category \<Rightarrow> budget_manager option" where
  "Hit bo cat = map_option (\<lambda>b. case cat of BudgetLayer \<Rightarrow> b\<lparr>LayerHits := LayerHits b + 1\<rparr>
     | BudgetExpert \<Rightarrow> b\<lparr>ExpertHits := ExpertHits b + 1\<rparr> | BudgetStream \<Rightarrow> b\<lparr>StreamHits := StreamHits b + 1\<rparr>
     | _ \<Rightarrow> b) bo"

definition Evict :: "budget_manager option \<Rightarrow> budget_category \<Rightarrow> budget_manager option" where
  "Evict bo cat = map_option (\<lambda>b. case cat of BudgetLayer \<Rightarrow> b\<lparr>LayerEvicts := LayerEvicts b + 1\<rparr>
     | BudgetExpert \<Rightarrow> b\<lparr>ExpertEvicts := ExpertEvicts b + 1\<rparr> | BudgetStream \<Rightarrow> b\<lparr>StreamEvicts := StreamEvicts b + 1\<rparr>
     | _ \<Rightarrow> b) bo"

end
