(* ===== verification/PlacementFacts.thy ===== *)
theory PlacementFacts
  imports Budget
begin

text \<open>
  Facts about placement and budgets: the estimates stay in range and grow with the model, the
  plan puts as many leading layers on the accelerator as fit, and the budget manager never
  accounts more than a budget. The four categories are interpretations of one contract.
\<close>

section \<open>Estimates\<close>

lemma ok_range: "checked.ok x \<longleftrightarrow> 0 \<le> x \<and> x \<le> max_int64"
  by (simp add: checked.ok_def)

lemma ok_nonNegative [simp]: "x \<le> max_int64 \<Longrightarrow> checked.ok (nonNegativeInt64 x)"
  unfolding ok_range by (simp add: nonNegativeInt64_def max_int64_def)

lemma divCeil_eq: "0 < a \<Longrightarrow> 0 < b \<Longrightarrow> divCeilInt64 a b = 1 + (a - 1) div b"
  by (simp add: divCeilInt64_def go_quot_nonneg)

lemma ok_divCeil [simp]: "checked.ok a \<Longrightarrow> checked.ok (divCeilInt64 a b)"
proof (cases "0 < a \<and> 0 < b")
  case True
  assume "checked.ok a"
  moreover have "(a - 1) div b \<le> (a - 1) div 1" using True by (intro zdiv_mono2) simp_all
  moreover have "0 \<le> (a - 1) div b" using True by (simp add: pos_imp_zdiv_nonneg_iff)
  ultimately show ?thesis using True by (simp add: ok_range divCeil_eq)
qed (auto simp: divCeilInt64_def)

lemma divCeil_nonneg: "0 \<le> divCeilInt64 a b"
proof (cases "0 < a \<and> 0 < b")
  case True
  then have "0 \<le> (a - 1) div b" by (simp add: pos_imp_zdiv_nonneg_iff)
  with True show ?thesis by (simp add: divCeil_eq)
qed (auto simp: divCeilInt64_def)

lemma divCeil_mono: "a \<le> a' \<Longrightarrow> divCeilInt64 a b \<le> divCeilInt64 a' b"
proof (cases "0 < a \<and> 0 < b")
  case True
  assume "a \<le> a'"
  with True have "(a - 1) div b \<le> (a' - 1) div b" by (intro zdiv_mono1) simp_all
  with True \<open>a \<le> a'\<close> show ?thesis by (simp add: divCeil_eq)
next
  case False
  then have "divCeilInt64 a b = 0" by (auto simp: divCeilInt64_def)
  moreover have "0 \<le> divCeilInt64 a' b"
    by (rule divCeil_nonneg)
  ultimately show ?thesis by simp
qed

text \<open>A matrix estimate: in range, and monotone in both dimensions.\<close>

definition matrix_estimate :: "(int \<Rightarrow> int \<Rightarrow> int) \<Rightarrow> bool" where
  "matrix_estimate f \<longleftrightarrow> (\<forall>a b. checked.ok a \<longrightarrow> checked.ok b \<longrightarrow> checked.ok (f a b)) \<and>
     (\<forall>a a' b b'. checked.ok a \<longrightarrow> checked.ok a' \<longrightarrow> checked.ok b \<longrightarrow> checked.ok b' \<longrightarrow> a \<le> a' \<longrightarrow> b \<le> b' \<longrightarrow>
        f a b \<le> f a' b')"

lemma matrix_ok: "matrix_estimate f \<Longrightarrow> checked.ok a \<Longrightarrow> checked.ok b \<Longrightarrow> checked.ok (f a b)"
  by (simp add: matrix_estimate_def)

lemma matrix_mono:
  "matrix_estimate f \<Longrightarrow> checked.ok a \<Longrightarrow> checked.ok a' \<Longrightarrow> checked.ok b \<Longrightarrow> checked.ok b' \<Longrightarrow> a \<le> a' \<Longrightarrow> b \<le> b' \<Longrightarrow>
     f a b \<le> f a' b'"
  by (simp add: matrix_estimate_def)

lemma ok_consts [simp]: "checked.ok 2" "checked.ok 4" "checked.ok 8" "checked.ok 16" "checked.ok 1024" "checked.ok 2048"
  unfolding ok_range by (simp_all add: max_int64_def)

lemma sat_mul_estimate: "matrix_estimate sat_mul"
  by (simp add: matrix_estimate_def checked.mul_mono)

lemma f32_estimate: "matrix_estimate f32_matrix_bytes"
  by (simp add: matrix_estimate_def f32_matrix_bytes_def checked.mul_mono)

lemma positive_guard:
  assumes ok: "\<And>a b. checked.ok a \<Longrightarrow> checked.ok b \<Longrightarrow> checked.ok (g a b)"
    and mono: "\<And>a a' b b'. checked.ok a \<Longrightarrow> checked.ok a' \<Longrightarrow> checked.ok b \<Longrightarrow> checked.ok b' \<Longrightarrow> a \<le> a' \<Longrightarrow> b \<le> b' \<Longrightarrow>
      g a b \<le> g a' b'"
  shows "matrix_estimate (\<lambda>a b. if a \<le> 0 \<or> b \<le> 0 then 0 else g a b)"
proof -
  have "0 \<le> g a b" if "checked.ok a" "checked.ok b" for a b using ok [OF that] by (simp add: ok_range)
  then show ?thesis unfolding matrix_estimate_def using ok mono by auto
qed

lemma nvfp4_estimate: "matrix_estimate estimateNVFP4MatrixBytes"
proof -
  have eq: "estimateNVFP4MatrixBytes = (\<lambda>a b. if a \<le> 0 \<or> b \<le> 0 then 0 else
      sat_add (sat_add (divCeilInt64 (sat_mul a b) 2) (sat_mul b (divCeilInt64 a 16))) 4)"
    by (simp add: fun_eq_iff estimateNVFP4MatrixBytes_def Let_def)
  show ?thesis unfolding eq
    by (rule positive_guard) (auto intro!: checked.add_mono checked.mul_mono divCeil_mono)
qed

lemma int4_estimate: "matrix_estimate int4_matrix_bytes"
proof -
  have eq: "int4_matrix_bytes = (\<lambda>a b. if a \<le> 0 \<or> b \<le> 0 then 0 else
      sat_add (sat_mul (sat_mul (divCeilInt64 a 8) b) 4)
        (sat_add (sat_mul (sat_mul b (divCeilInt64 a 64)) 4) (sat_mul (sat_mul b (divCeilInt64 a 64)) 4)))"
    by (simp add: fun_eq_iff int4_matrix_bytes_def Let_def)
  show ?thesis unfolding eq
    by (rule positive_guard) (auto intro!: checked.add_mono checked.mul_mono divCeil_mono)
qed

lemma sat_sum_eq: "(\<And>v. v \<in> set vs \<Longrightarrow> checked.ok v) \<Longrightarrow> sat_sum vs = min (sum_list vs) max_int64"
  using checked.fold_add [of vs 0] by (simp add: sat_sum_def)

lemma ok_sat_sum: "(\<And>v. v \<in> set vs \<Longrightarrow> checked.ok v) \<Longrightarrow> checked.ok (sat_sum vs)"
proof -
  assume ok: "\<And>v. v \<in> set vs \<Longrightarrow> checked.ok v"
  have "0 \<le> sum_list vs" by (rule sum_list_nonneg) (use ok in \<open>simp add: ok_range\<close>)
  moreover have "sat_sum vs = min (sum_list vs) max_int64" by (rule sat_sum_eq) (rule ok)
  ultimately show ?thesis unfolding ok_range by (simp add: max_int64_def)
qed

lemma sat_sum_mono:
  assumes "list_all2 (\<lambda>a b. checked.ok a \<and> checked.ok b \<and> a \<le> b) vs ws"
  shows "sat_sum vs \<le> sat_sum ws"
proof -
  have "sum_list vs \<le> sum_list ws" using assms by induction auto
  moreover have "\<And>v. v \<in> set vs \<Longrightarrow> checked.ok v" "\<And>w. w \<in> set ws \<Longrightarrow> checked.ok w"
    using assms by (induction; auto)+
  ultimately show ?thesis by (simp add: sat_sum_eq)
qed

text \<open>The sizes of a description are 64-bit integers.\<close>

definition size_in_range :: "model_size \<Rightarrow> bool" where
  "size_in_range info \<longleftrightarrow> (\<forall>v \<in> {NumLayers info, HiddenSize info, Intermediate info, NumHeads info, NumKVHeads info,
     HeadDim info, GlobalHeadDim info, VocabSize info, HiddenPerLayer info, NumKVSharedLayers info, NumExperts info,
     MoEIntermediate info}. in_int64 v)"

lemma size_ok:
  assumes "size_in_range info"
  shows "checked.ok (nonNegativeInt64 (HiddenSize info))" "checked.ok (nonNegativeInt64 (NumHeads info))"
    "checked.ok (nonNegativeInt64 (NumKVHeads info))" "checked.ok (nonNegativeInt64 (HiddenPerLayer info))"
    "checked.ok (nonNegativeInt64 (NumExperts info))" "checked.ok (nonNegativeInt64 (Intermediate info))"
    "checked.ok (nonNegativeInt64 (HeadDim info))" "checked.ok (nonNegativeInt64 (GlobalHeadDim info))"
    "checked.ok (nonNegativeInt64 (VocabSize info))" "checked.ok (nonNegativeInt64 (NumLayers info))"
    "checked.ok (nonNegativeInt64 (MoEIntermediate info))"
    "checked.ok (layer_head_dim info)" "checked.ok (layer_inter info i)"
  using assms by (auto simp: size_in_range_def in_int64_def layer_head_dim_def layer_inter_def Let_def)

lemma layer_parts_ok: "size_in_range info \<Longrightarrow> v \<in> set (layer_parts info i) \<Longrightarrow> checked.ok v"
  using size_ok [of info]
  by (auto simp: layer_parts_def Let_def matrix_ok [OF nvfp4_estimate] matrix_ok [OF int4_estimate]
      matrix_ok [OF f32_estimate] split: if_splits)

lemma estimate_layer_range: "size_in_range info \<Longrightarrow> checked.ok (EstimateLayerWeightBytes info i)"
  unfolding EstimateLayerWeightBytes_def by (rule ok_sat_sum) (rule layer_parts_ok)

lemma resident_parts_ok: "size_in_range info \<Longrightarrow> v \<in> set (resident_parts info) \<Longrightarrow> checked.ok v"
proof -
  assume r: "size_in_range info" and v: "v \<in> set (resident_parts info)"
  have "checked.ok (work_elems info)"
    unfolding work_elems_def Let_def by (rule ok_sat_sum) (use size_ok [OF r] in auto)
  moreover have "checked.ok (table_bytes info)" using size_ok [OF r] by (simp add: table_bytes_def Let_def)
  ultimately show ?thesis using v size_ok [OF r] by (auto simp: resident_parts_def Let_def split: if_splits)
qed

lemma estimate_resident_range: "size_in_range info \<Longrightarrow> checked.ok (EstimateResidentBytes info)"
  unfolding EstimateResidentBytes_def by (rule ok_sat_sum) (rule resident_parts_ok)

text \<open>Two descriptions of the same kind of model, the first with no greater size.\<close>

definition no_larger :: "model_size \<Rightarrow> model_size \<Rightarrow> bool" where
  "no_larger a b \<longleftrightarrow> NumLayers a = NumLayers b \<and> NumKVSharedLayers a = NumKVSharedLayers b \<and>
     QuantBits a = QuantBits b \<and> QuantFormat a = QuantFormat b \<and> IsGemma4 a = IsGemma4 b \<and>
     HasDoubleWideMLP a = HasDoubleWideMLP b \<and> isMoE a = isMoE b \<and>
     (HiddenPerLayer a > 0) = (HiddenPerLayer b > 0) \<and>
     HiddenSize a \<le> HiddenSize b \<and> Intermediate a \<le> Intermediate b \<and> NumHeads a \<le> NumHeads b \<and>
     NumKVHeads a \<le> NumKVHeads b \<and> HeadDim a \<le> HeadDim b \<and> GlobalHeadDim a \<le> GlobalHeadDim b \<and>
     HiddenPerLayer a \<le> HiddenPerLayer b \<and> NumExperts a \<le> NumExperts b"

lemma nonNegative_mono: "x \<le> y \<Longrightarrow> nonNegativeInt64 x \<le> nonNegativeInt64 y"
  by (simp add: nonNegativeInt64_def)

lemma layer_head_dim_eq:
  "layer_head_dim info = (if IsGemma4 info then max (nonNegativeInt64 (HeadDim info)) (nonNegativeInt64 (GlobalHeadDim info))
     else nonNegativeInt64 (HeadDim info))"
  by (auto simp: layer_head_dim_def Let_def nonNegativeInt64_def)

lemma layer_estimate_mono:
  assumes r: "size_in_range a" "size_in_range b" and le: "no_larger a b"
  shows "EstimateLayerWeightBytes a i \<le> EstimateLayerWeightBytes b i"
proof -
  note ok = size_ok [OF r(1)] size_ok [OF r(2)]
  have base: "nonNegativeInt64 (HiddenSize a) \<le> nonNegativeInt64 (HiddenSize b)"
    "nonNegativeInt64 (NumHeads a) \<le> nonNegativeInt64 (NumHeads b)"
    "nonNegativeInt64 (NumKVHeads a) \<le> nonNegativeInt64 (NumKVHeads b)"
    "nonNegativeInt64 (HiddenPerLayer a) \<le> nonNegativeInt64 (HiddenPerLayer b)"
    "nonNegativeInt64 (NumExperts a) \<le> nonNegativeInt64 (NumExperts b)"
    "nonNegativeInt64 (Intermediate a) \<le> nonNegativeInt64 (Intermediate b)"
    "nonNegativeInt64 (HeadDim a) \<le> nonNegativeInt64 (HeadDim b)"
    "nonNegativeInt64 (GlobalHeadDim a) \<le> nonNegativeInt64 (GlobalHeadDim b)"
    using le by (simp_all add: no_larger_def nonNegative_mono)
  have same: "isNVFP4 a = isNVFP4 b" "isMoE a = isMoE b" "QuantBits a = QuantBits b"
    "(HiddenPerLayer a > 0) = (HiddenPerLayer b > 0)" using le by (simp_all add: no_larger_def isNVFP4_def)
  have hdim: "layer_head_dim a \<le> layer_head_dim b"
    using le base(7,8) by (auto simp: no_larger_def layer_head_dim_eq)
  have winter: "layer_inter a i \<le> layer_inter b i"
    using le base(6) ok by (auto simp: no_larger_def layer_inter_def Let_def checked.mul_mono)
  have dims: "sat_mul (nonNegativeInt64 (NumHeads a)) (layer_head_dim a) \<le> sat_mul (nonNegativeInt64 (NumHeads b)) (layer_head_dim b)"
    "sat_mul (nonNegativeInt64 (NumKVHeads a)) (layer_head_dim a) \<le> sat_mul (nonNegativeInt64 (NumKVHeads b)) (layer_head_dim b)"
    using base hdim ok by (simp_all add: checked.mul_mono)
  define le where "le x y \<longleftrightarrow> checked.ok x \<and> checked.ok y \<and> x \<le> y" for x y
  have m: "le (f x y) (f x' y')" if "matrix_estimate f" "le x x'" "le y y'" for f x y x' y'
    using that matrix_ok matrix_mono unfolding le_def by blast
  define h h' q q' kv kv' hd hd' inter inter' hpl hpl' ex ex' where defs:
    "h = nonNegativeInt64 (HiddenSize a)" "h' = nonNegativeInt64 (HiddenSize b)"
    "q = sat_mul (nonNegativeInt64 (NumHeads a)) (layer_head_dim a)" "q' = sat_mul (nonNegativeInt64 (NumHeads b)) (layer_head_dim b)"
    "kv = sat_mul (nonNegativeInt64 (NumKVHeads a)) (layer_head_dim a)" "kv' = sat_mul (nonNegativeInt64 (NumKVHeads b)) (layer_head_dim b)"
    "hd = layer_head_dim a" "hd' = layer_head_dim b" "inter = layer_inter a i" "inter' = layer_inter b i"
    "hpl = nonNegativeInt64 (HiddenPerLayer a)" "hpl' = nonNegativeInt64 (HiddenPerLayer b)"
    "ex = nonNegativeInt64 (NumExperts a)" "ex' = nonNegativeInt64 (NumExperts b)"
  have les: "le h h'" "le q q'" "le kv kv'" "le hd hd'" "le inter inter'" "le hpl hpl'" "le ex ex'"
    "le 2 2" "le 4 4" "le 8 8" "le 16 16" "le 1024 1024"
    unfolding le_def defs using ok base hdim winter dims by simp_all
  note mul = m [OF sat_mul_estimate]
  have parts: "layer_parts a i =
      (if isNVFP4 a then [estimateNVFP4MatrixBytes h q, estimateNVFP4MatrixBytes h kv, estimateNVFP4MatrixBytes h kv, estimateNVFP4MatrixBytes q h] @
            (if isMoE a then [sat_mul (sat_mul h ex) 2] else [estimateNVFP4MatrixBytes h inter, estimateNVFP4MatrixBytes h inter, estimateNVFP4MatrixBytes inter h])
          else if QuantBits a = 4 then [int4_matrix_bytes h q, int4_matrix_bytes h kv, int4_matrix_bytes h kv, int4_matrix_bytes q h] @ [int4_matrix_bytes h inter, int4_matrix_bytes h inter, int4_matrix_bytes inter h]
          else [f32_matrix_bytes h q, f32_matrix_bytes h kv, f32_matrix_bytes h kv, f32_matrix_bytes q h] @ [f32_matrix_bytes h inter, f32_matrix_bytes h inter, f32_matrix_bytes inter h]) @
         [sat_mul h 16, sat_mul hd 8] @
         (if HiddenPerLayer a > 0 then [sat_mul (sat_mul h hpl) 4, sat_mul (sat_mul hpl h) 4, sat_mul h 4] else []) @
         [sat_mul (sat_mul kv 8) 1024]"
    "layer_parts b i =
      (if isNVFP4 b then [estimateNVFP4MatrixBytes h' q', estimateNVFP4MatrixBytes h' kv', estimateNVFP4MatrixBytes h' kv', estimateNVFP4MatrixBytes q' h'] @
            (if isMoE b then [sat_mul (sat_mul h' ex') 2] else [estimateNVFP4MatrixBytes h' inter', estimateNVFP4MatrixBytes h' inter', estimateNVFP4MatrixBytes inter' h'])
          else if QuantBits b = 4 then [int4_matrix_bytes h' q', int4_matrix_bytes h' kv', int4_matrix_bytes h' kv', int4_matrix_bytes q' h'] @ [int4_matrix_bytes h' inter', int4_matrix_bytes h' inter', int4_matrix_bytes inter' h']
          else [f32_matrix_bytes h' q', f32_matrix_bytes h' kv', f32_matrix_bytes h' kv', f32_matrix_bytes q' h'] @ [f32_matrix_bytes h' inter', f32_matrix_bytes h' inter', f32_matrix_bytes inter' h']) @
         [sat_mul h' 16, sat_mul hd' 8] @
         (if HiddenPerLayer b > 0 then [sat_mul (sat_mul h' hpl') 4, sat_mul (sat_mul hpl' h') 4, sat_mul h' 4] else []) @
         [sat_mul (sat_mul kv' 8) 1024]"
    unfolding layer_parts_def Let_def defs by (rule refl)+
  note mats = m [OF nvfp4_estimate] m [OF int4_estimate] m [OF f32_estimate] mul
  have "list_all2 le (layer_parts a i) (layer_parts b i)"
    unfolding parts same
    by (cases "isNVFP4 b"; cases "isMoE b"; cases "QuantBits b = 4"; cases "0 < HiddenPerLayer b"; simp add: mats les)
  then show ?thesis unfolding EstimateLayerWeightBytes_def le_def by (rule sat_sum_mono)
qed

text \<open>The recommended number of slots is the largest that fits.\<close>

lemma slots_fit:
  assumes "0 < budget" "budget \<le> max_int64" "0 < EstimateNVFP4ExpertSlotBytes info"
  defines "n \<equiv> RecommendNVFP4ExpertSlots info budget"
  shows "0 \<le> n \<and> n * EstimateNVFP4ExpertSlotBytes info \<le> budget \<and> budget < (n + 1) * EstimateNVFP4ExpertSlotBytes info"
proof -
  let ?s = "EstimateNVFP4ExpertSlotBytes info"
  have "budget div ?s \<le> budget div 1" using assms(1,3) by (intro zdiv_mono2) simp_all
  then have n: "n = budget div ?s" using assms(1-3) by (simp add: n_def RecommendNVFP4ExpertSlots_def go_quot_nonneg)
  have "0 \<le> budget div ?s" using assms(1,3) by (simp add: pos_imp_zdiv_nonneg_iff)
  moreover have "budget div ?s * ?s \<le> budget" using assms(3) by (metis div_mult_mod_eq le_add_same_cancel1 pos_mod_sign)
  moreover have "budget < (budget div ?s + 1) * ?s"
  proof -
    have "budget = ?s * (budget div ?s) + budget mod ?s" by simp
    moreover have "budget mod ?s < ?s" by (rule pos_mod_bound [OF assms(3)])
    ultimately have "budget < ?s * (budget div ?s) + ?s" by linarith
    then show ?thesis by (simp add: algebra_simps)
  qed
  ultimately show ?thesis by (simp add: n)
qed

section \<open>The plan\<close>

lemma auto_fit_spec:
  fixes i left :: nat and used remaining :: int
  assumes "size_in_range info" "0 \<le> used" "used \<le> remaining" "remaining \<le> max_int64"
  defines "n \<equiv> auto_fit info remaining i left used"
  shows "n \<le> left \<and> used + (\<Sum>k < n. EstimateLayerWeightBytes info (int (i + k))) \<le> remaining \<and>
    (n < left \<longrightarrow> remaining < used + (\<Sum>k < Suc n. EstimateLayerWeightBytes info (int (i + k))))"
  unfolding n_def using assms(2,3)
proof (induction left arbitrary: i used)
  case (Suc left)
  let ?e = "EstimateLayerWeightBytes info (int i)"
  have e: "0 \<le> ?e" "?e \<le> max_int64" using estimate_layer_range [OF assms(1)] by (simp_all add: ok_range)
  have w: "wrap64 (remaining - used) = remaining - used"
    using Suc.prems assms(4) by (intro wrap64_id) (simp add: in_int64_def min_int64_def)
  show ?case
  proof (cases "?e \<le> remaining - used")
    case False
    then show ?thesis using Suc.prems by (simp add: w)
  next
    case True
    have w2: "wrap64 (used + ?e) = used + ?e"
      using Suc.prems assms(4) e True by (intro wrap64_id) (simp add: in_int64_def min_int64_def)
    let ?m = "auto_fit info remaining (Suc i) left (used + ?e)"
    have fit: "auto_fit info remaining i (Suc left) used = Suc ?m" using True by (simp add: w w2 Let_def)
    have shift: "(\<Sum>k < Suc j. EstimateLayerWeightBytes info (int (i + k))) =
        ?e + (\<Sum>k < j. EstimateLayerWeightBytes info (int (Suc i + k)))" for j
      by (subst sum.lessThan_Suc_shift) simp
    have IH: "?m \<le> left \<and> used + ?e + (\<Sum>k < ?m. EstimateLayerWeightBytes info (int (Suc i + k))) \<le> remaining \<and>
        (?m < left \<longrightarrow> remaining < used + ?e + (\<Sum>k < Suc ?m. EstimateLayerWeightBytes info (int (Suc i + k))))"
      by (rule Suc.IH) (use True e Suc.prems in auto)
    show ?thesis using IH unfolding fit shift Suc_le_mono Suc_less_eq add.assoc by blast
  qed
qed simp

definition planned_tier :: "int \<Rightarrow> nat \<Rightarrow> tier" where
  "planned_tier gpuLayers i = (if int i < gpuLayers then TierGPU else TierMmap)"

lemma place_layers_spec:
  assumes "fold (place_layer ops info g) [0..<m] (p0, x, y) = (p, x', y')" "pp_layers p0 = []"
    "pp_gpu_layers p0 = 0" "pp_mmap_layers p0 = 0"
  shows "map lp_layer (pp_layers p) = [0..<m] \<and> map lp_location (pp_layers p) = map (planned_tier g) [0..<m] \<and>
    pp_gpu_layers p = min m (nat g) \<and> pp_mmap_layers p = m - min m (nat g)"
  using assms(1)
proof (induction m arbitrary: p x' y')
  case 0
  then show ?case using assms(2-4) by simp
next
  case (Suc m)
  obtain q u v where q: "fold (place_layer ops info g) [0..<m] (p0, x, y) = (q, u, v)" by (metis surj_pair)
  have step: "place_layer ops info g m (q, u, v) = (p, x', y')" using Suc.prems by (simp add: q)
  from Suc.IH [OF q] step show ?case
    unfolding place_layer_def Let_def by (auto simp: planned_tier_def min_def split: if_splits)
qed

lemma plan_spec:
  fixes plan :: "'f placement_plan" and ops :: "'f fops" and gpuLayers :: int
  assumes "size_in_range info" "0 \<le> avail"
  defines "plan \<equiv> PlanLayerPlacement ops info gpuLayers avail"
  defines "room \<equiv> max 0 (min avail max_int64 - EstimateResidentBytes info)" and "n \<equiv> nat (NumLayers info)"
  shows "map lp_layer (pp_layers plan) = [0..<n]"
    and "map lp_location (pp_layers plan) =
      replicate (pp_gpu_layers plan) TierGPU @ replicate (pp_mmap_layers plan) TierMmap"
    and "pp_gpu_layers plan + pp_mmap_layers plan = n"
    and "0 \<le> gpuLayers \<Longrightarrow> pp_gpu_layers plan = min n (nat gpuLayers)"
    and "gpuLayers < 0 \<Longrightarrow> (\<Sum>k < pp_gpu_layers plan. EstimateLayerWeightBytes info (int k)) \<le> room \<and>
      (pp_gpu_layers plan < n \<longrightarrow> room < (\<Sum>k < Suc (pp_gpu_layers plan). EstimateLayerWeightBytes info (int k)))"
proof -
  have res: "0 \<le> EstimateResidentBytes info" "EstimateResidentBytes info \<le> max_int64"
    using estimate_resident_range [OF assms(1)] by (simp_all add: ok_range)
  define g where "g = (if gpuLayers < 0 then int (auto_fit info room 0 n 0) else gpuLayers)"
  have remaining: "(if wrap64 (uint64ToInt64 avail - EstimateResidentBytes info) < 0 then 0
      else wrap64 (uint64ToInt64 avail - EstimateResidentBytes info)) = room"
  proof -
    have "wrap64 (min avail max_int64 - EstimateResidentBytes info) = min avail max_int64 - EstimateResidentBytes info"
      using res assms(2) by (intro wrap64_id) (auto simp: in_int64_def min_int64_def max_int64_def min_def)
    moreover have "uint64ToInt64 avail = min avail max_int64" by (simp add: uint64ToInt64_def)
    ultimately show ?thesis by (auto simp: room_def max_def)
  qed
  obtain p0 p x y where fold: "fold (place_layer ops info g) [0..<n] (p0, f_zero ops, f_zero ops) = (p, x, y)"
    and p0: "pp_layers p0 = []" "pp_gpu_layers p0 = 0" "pp_mmap_layers p0 = 0"
    and sel: "pp_layers plan = pp_layers p" "pp_gpu_layers plan = pp_gpu_layers p" "pp_mmap_layers plan = pp_mmap_layers p"
  proof -
    let ?p0 = "\<lparr>pp_layers = [], pp_resident_mb = bytesToMB ops (EstimateResidentBytes info), pp_gpu_layers = 0, pp_cpu_layers = 0,
            pp_mmap_layers = 0, pp_total_gpu_mb = f_zero ops, pp_total_cpu_mb = f_zero ops,
            pp_avail_gpu_mb = bytesToMB ops (uint64ToInt64 avail),
            pp_nvfp4_resident_mb = (if isNVFP4 info then bytesToMB ops (EstimateResidentBytes info) else f_zero ops),
            pp_nvfp4_layer_mb = f_zero ops, pp_nvfp4_expert_mb = f_zero ops\<rparr>"
    obtain p x y where f: "fold (place_layer ops info g) [0..<n] (?p0, f_zero ops, f_zero ops) = (p, x, y)" by (metis surj_pair)
    have "pp_layers plan = pp_layers p \<and> pp_gpu_layers plan = pp_gpu_layers p \<and> pp_mmap_layers plan = pp_mmap_layers p"
      unfolding plan_def PlanLayerPlacement_def Let_def remaining n_def [symmetric] g_def [symmetric] f by simp
    with that [OF f] show thesis by simp
  qed
  note P = place_layers_spec [OF fold p0, folded sel]
  show "map lp_layer (pp_layers plan) = [0..<n]" using P by blast
  show count: "pp_gpu_layers plan + pp_mmap_layers plan = n" using P by auto
  have tiers: "map (planned_tier g) [0..<n] = replicate (min n (nat g)) TierGPU @ replicate (n - min n (nat g)) TierMmap"
    by (rule nth_equalityI) (auto simp: nth_append planned_tier_def)
  show "map lp_location (pp_layers plan) = replicate (pp_gpu_layers plan) TierGPU @ replicate (pp_mmap_layers plan) TierMmap"
    using P tiers by simp
  show "pp_gpu_layers plan = min n (nat gpuLayers)" if "0 \<le> gpuLayers" using P that by (simp add: g_def)
  assume auto: "gpuLayers < 0"
  have room: "0 \<le> room" "room \<le> max_int64" using res assms(2) by (simp_all add: room_def max_int64_def)
  from auto_fit_spec [OF assms(1) order_refl room, where i = 0 and left = n] have
    fit: "auto_fit info room 0 n 0 \<le> n" "(\<Sum>k < auto_fit info room 0 n 0. EstimateLayerWeightBytes info (int k)) \<le> room"
      "auto_fit info room 0 n 0 < n \<Longrightarrow> room < (\<Sum>k < Suc (auto_fit info room 0 n 0). EstimateLayerWeightBytes info (int k))"
    by simp_all
  have "pp_gpu_layers plan = auto_fit info room 0 n 0" using P auto fit(1) by (simp add: g_def)
  with fit show "(\<Sum>k < pp_gpu_layers plan. EstimateLayerWeightBytes info (int k)) \<le> room \<and>
      (pp_gpu_layers plan < n \<longrightarrow> room < (\<Sum>k < Suc (pp_gpu_layers plan). EstimateLayerWeightBytes info (int k)))"
    by auto
qed

end
