(* ===== verification/BudgetFacts.thy ===== *)
theory BudgetFacts
  imports PlacementFacts
begin

text \<open>
  The contract of one memory pool, \<open>byte_pool\<close>: taking succeeds exactly when the bytes fit, giving
  back never goes below zero, and neither changes the limit. Each of the four categories of the
  budget manager is such a pool, beside which the others do not move.
\<close>

section \<open>A pool of bytes\<close>

text \<open>A limit of 0 is no limit; then only the range of the counter bounds the usage.\<close>

definition pool_room :: "int \<Rightarrow> int \<Rightarrow> int" where
  "pool_room limit used = (if limit = 0 then max_int64 - used else limit - used)"

definition pool_fine :: "int \<Rightarrow> int \<Rightarrow> bool" where
  "pool_fine limit used \<longleftrightarrow> 0 \<le> limit \<and> limit \<le> max_int64 \<and> 0 \<le> used \<and> used \<le> max_int64 \<and>
     (0 < limit \<longrightarrow> used \<le> limit)"

locale byte_pool =
  fixes limit used :: "'s \<Rightarrow> int" and grab :: "int \<Rightarrow> 's \<Rightarrow> bool \<times> 's" and give :: "int \<Rightarrow> 's \<Rightarrow> 's"
  assumes grab_limit: "limit (snd (grab n s)) = limit s"
    and give_limit: "limit (give n s) = limit s"
    and grab_no: "n \<le> 0 \<Longrightarrow> grab n s = (n = 0, s)"
    and give_no: "n \<le> 0 \<Longrightarrow> give n s = s"
    and grab_spec: "pool_fine (limit s) (used s) \<Longrightarrow> 0 < n \<Longrightarrow> n \<le> max_int64 \<Longrightarrow>
      fst (grab n s) = (n \<le> pool_room (limit s) (used s)) \<and>
      used (snd (grab n s)) = (if n \<le> pool_room (limit s) (used s) then used s + n else used s)"
    and give_used: "pool_fine (limit s) (used s) \<Longrightarrow> 0 < n \<Longrightarrow> n \<le> max_int64 \<Longrightarrow>
      used (give n s) = max 0 (used s - n)"
begin

lemma grab_fine: "pool_fine (limit s) (used s) \<Longrightarrow> n \<le> max_int64 \<Longrightarrow> pool_fine (limit s) (used (snd (grab n s)))"
  using grab_spec [of s n] by (cases "n \<le> 0") (auto simp: grab_no pool_fine_def pool_room_def)

lemma give_fine: "pool_fine (limit s) (used s) \<Longrightarrow> n \<le> max_int64 \<Longrightarrow> pool_fine (limit s) (used (give n s))"
  using give_used [of s n] by (cases "n \<le> 0") (auto simp: give_no pool_fine_def)

lemma grab_then_give:
  assumes "pool_fine (limit s) (used s)" "0 < n" "n \<le> max_int64" "fst (grab n s)"
  shows "used (give n (snd (grab n s))) = used s"
proof -
  have fits: "used (snd (grab n s)) = used s + n" using grab_spec [OF assms(1-3)] assms(4) by simp
  have "pool_fine (limit (snd (grab n s))) (used (snd (grab n s)))"
    using grab_fine [OF assms(1,3)] by (simp add: grab_limit)
  from give_used [OF this assms(2,3)] show ?thesis using fits assms(1) by (simp add: pool_fine_def)
qed

end

section \<open>The categories\<close>

definition cat_limit :: "budget_category \<Rightarrow> budget_manager \<Rightarrow> int" where
  "cat_limit cat b = fst (budgetAndUsed b cat)"

definition cat_used :: "budget_category \<Rightarrow> budget_manager \<Rightarrow> int" where
  "cat_used cat b = snd (budgetAndUsed b cat)"

definition cat_grab :: "budget_category \<Rightarrow> int \<Rightarrow> budget_manager \<Rightarrow> bool \<times> budget_manager" where
  "cat_grab cat n b = (fst (Alloc (Some b) cat n), the (snd (Alloc (Some b) cat n)))"

definition cat_give :: "budget_category \<Rightarrow> int \<Rightarrow> budget_manager \<Rightarrow> budget_manager" where
  "cat_give cat n b = the (Free (Some b) cat n)"

lemma set_used_same: "validBudgetCategory cat \<Longrightarrow> budgetAndUsed (set_used cat n b) cat = (cat_limit cat b, n)"
  by (auto simp: validBudgetCategory_def budgetAndUsed_def set_used_def cat_limit_def)

lemma set_used_other: "cat' \<noteq> cat \<Longrightarrow> budgetAndUsed (set_used cat n b) cat' = budgetAndUsed b cat'"
  by (cases cat; cases cat') (auto simp: budgetAndUsed_def set_used_def)

lemma set_used_twice: "set_used cat m (set_used cat n b) = set_used cat m b"
  by (cases cat) (auto simp: set_used_def)

lemma set_used_id: "set_used cat (cat_used cat b) b = b"
  by (cases cat) (auto simp: set_used_def cat_used_def budgetAndUsed_def)

lemma pool_room_wrap: "pool_fine l u \<Longrightarrow> 0 < l \<Longrightarrow> wrap64 (l - u) = l - u"
  by (rule wrap64_id) (auto simp: pool_fine_def go_int)

lemma Alloc_some:
  assumes "validBudgetCategory cat" "0 < n" "n \<le> max_int64" "pool_fine (cat_limit cat b) (cat_used cat b)"
  shows "Alloc (Some b) cat n = (if n \<le> pool_room (cat_limit cat b) (cat_used cat b)
     then (True, Some (set_used cat (cat_used cat b + n) b)) else (False, Some b))"
proof -
  obtain l u where lu: "budgetAndUsed b cat = (l, u)" by fastforce
  have f: "pool_fine l u" using assms(4) by (simp add: cat_limit_def cat_used_def lu)
  have w: "wrap64 (u + n) = u + n" if "u \<le> max_int64 - n"
    using that f assms(2) by (intro wrap64_id) (auto simp: pool_fine_def go_int)
  show ?thesis
    unfolding Alloc_def cat_limit_def cat_used_def option.case lu prod.case fst_conv snd_conv Let_def
    using assms(1,2) f pool_room_wrap [OF f] w by (auto simp: pool_room_def pool_fine_def)
qed

lemma Free_some:
  assumes "validBudgetCategory cat" "0 < n" "n \<le> max_int64" "pool_fine (cat_limit cat b) (cat_used cat b)"
  shows "Free (Some b) cat n = Some (set_used cat (max 0 (cat_used cat b - n)) b)"
proof -
  obtain l u where lu: "budgetAndUsed b cat = (l, u)" by fastforce
  have f: "pool_fine l u" using assms(4) by (simp add: cat_limit_def cat_used_def lu)
  have w: "wrap64 (u - n) = u - n" using f assms(2,3) by (intro wrap64_id) (auto simp: pool_fine_def go_int)
  show ?thesis unfolding Free_def cat_used_def option.case lu prod.case snd_conv Let_def
    using assms(1,2) w by (auto simp: max_def)
qed

lemma Alloc_limit: "cat_limit c (the (snd (Alloc (Some b) cat n))) = cat_limit c b"
  by (cases "c = cat"; cases cat)
    (auto simp: Alloc_def Let_def cat_limit_def budgetAndUsed_def set_used_def split: prod.splits budget_category.splits)

lemma Free_limit: "cat_limit c (the (Free (Some b) cat n)) = cat_limit c b"
  by (cases "c = cat"; cases cat)
    (auto simp: Free_def Let_def cat_limit_def budgetAndUsed_def set_used_def split: prod.splits budget_category.splits)

lemma category_pool:
  assumes "validBudgetCategory cat"
  shows "byte_pool (cat_limit cat) (cat_used cat) (cat_grab cat) (cat_give cat)"
proof
  fix n b
  show "cat_limit cat (snd (cat_grab cat n b)) = cat_limit cat b" by (simp add: cat_grab_def Alloc_limit)
  show "cat_limit cat (cat_give cat n b) = cat_limit cat b" by (simp add: cat_give_def Free_limit)
  show "n \<le> 0 \<Longrightarrow> cat_grab cat n b = (n = 0, b)" "n \<le> 0 \<Longrightarrow> cat_give cat n b = b"
    using assms by (simp_all add: cat_grab_def cat_give_def Alloc_def Free_def)
  assume "pool_fine (cat_limit cat b) (cat_used cat b)" "0 < n" "n \<le> max_int64"
  note S = Alloc_some [OF assms this(2,3,1)] Free_some [OF assms this(2,3,1)]
  show "fst (cat_grab cat n b) = (n \<le> pool_room (cat_limit cat b) (cat_used cat b)) \<and>
      cat_used cat (snd (cat_grab cat n b)) =
        (if n \<le> pool_room (cat_limit cat b) (cat_used cat b) then cat_used cat b + n else cat_used cat b)"
    by (simp add: cat_grab_def S cat_used_def set_used_same [OF assms])
  show "cat_used cat (cat_give cat n b) = max 0 (cat_used cat b - n)"
    by (simp add: cat_give_def S cat_used_def set_used_same [OF assms])
qed

interpretation resident: byte_pool "cat_limit BudgetResident" "cat_used BudgetResident" "cat_grab BudgetResident" "cat_give BudgetResident"
  by (rule category_pool) (simp add: validBudgetCategory_def)

interpretation layer: byte_pool "cat_limit BudgetLayer" "cat_used BudgetLayer" "cat_grab BudgetLayer" "cat_give BudgetLayer"
  by (rule category_pool) (simp add: validBudgetCategory_def)

interpretation stream: byte_pool "cat_limit BudgetStream" "cat_used BudgetStream" "cat_grab BudgetStream" "cat_give BudgetStream"
  by (rule category_pool) (simp add: validBudgetCategory_def)

interpretation expert: byte_pool "cat_limit BudgetExpert" "cat_used BudgetExpert" "cat_grab BudgetExpert" "cat_give BudgetExpert"
  by (rule category_pool) (simp add: validBudgetCategory_def)

section \<open>Histories\<close>

datatype budget_call = BAlloc budget_category int | BFree budget_category int | BHit budget_category | BEvict budget_category

fun budget_step :: "budget_call \<Rightarrow> budget_manager \<Rightarrow> budget_manager" where
  "budget_step (BAlloc cat n) b = the (snd (Alloc (Some b) cat n))"
| "budget_step (BFree cat n) b = the (Free (Some b) cat n)"
| "budget_step (BHit cat) b = the (Hit (Some b) cat)"
| "budget_step (BEvict cat) b = the (Evict (Some b) cat)"

fun call_bytes :: "budget_call \<Rightarrow> int" where
  "call_bytes (BAlloc cat n) = n" | "call_bytes (BFree cat n) = n" | "call_bytes _ = 0"

definition manager_fine :: "budget_manager \<Rightarrow> bool" where
  "manager_fine b \<longleftrightarrow> (\<forall>cat \<in> {BudgetResident, BudgetLayer, BudgetStream, BudgetExpert}. pool_fine (cat_limit cat b) (cat_used cat b))"

lemma manager_fine_iff: "manager_fine b \<longleftrightarrow> (\<forall>cat. validBudgetCategory cat \<longrightarrow> pool_fine (cat_limit cat b) (cat_used cat b))"
  by (auto simp: manager_fine_def validBudgetCategory_def)

lemma counters_keep: "budgetAndUsed (the (Hit (Some b) c)) cat = budgetAndUsed b cat"
  "budgetAndUsed (the (Evict (Some b) c)) cat = budgetAndUsed b cat"
  by (cases c; cases cat; simp add: Hit_def Evict_def budgetAndUsed_def)+

lemma Alloc_frame: "c \<noteq> cat \<Longrightarrow> budgetAndUsed (the (snd (Alloc (Some b) cat n))) c = budgetAndUsed b c"
  by (auto simp: Alloc_def Let_def set_used_other split: prod.splits)

lemma Free_frame: "c \<noteq> cat \<Longrightarrow> budgetAndUsed (the (Free (Some b) cat n)) c = budgetAndUsed b c"
  by (auto simp: Free_def Let_def set_used_other split: prod.splits)

lemma step_limit: "cat_limit c (budget_step call b) = cat_limit c b"
proof (cases call)
  case (BAlloc cat n)
  then show ?thesis by (simp add: Alloc_limit)
next
  case (BFree cat n)
  then show ?thesis by (simp add: Free_limit)
qed (simp_all add: counters_keep cat_limit_def)

lemma step_fine:
  assumes "manager_fine b" "call_bytes call \<le> max_int64"
  shows "manager_fine (budget_step call b)"
  unfolding manager_fine_iff
proof (intro allI impI)
  fix c assume c: "validBudgetCategory c"
  have f: "pool_fine (cat_limit c b) (cat_used c b)" using assms(1) c by (simp add: manager_fine_iff)
  note grab = byte_pool.grab_fine [OF category_pool [OF c] f, unfolded cat_grab_def snd_conv]
    and give = byte_pool.give_fine [OF category_pool [OF c] f, unfolded cat_give_def]
  show "pool_fine (cat_limit c (budget_step call b)) (cat_used c (budget_step call b))"
  proof (cases call)
    case (BAlloc cat n)
    with f grab [of n] assms(2) show ?thesis
      by (cases "c = cat") (simp_all add: Alloc_limit, simp_all add: cat_used_def Alloc_frame)
  next
    case (BFree cat n)
    with f give [of n] assms(2) show ?thesis
      by (cases "c = cat") (simp_all add: Free_limit, simp_all add: cat_used_def Free_frame)
  qed (use f in \<open>simp_all add: cat_limit_def cat_used_def counters_keep\<close>)
qed

lemma run_fine:
  assumes "manager_fine b" "\<And>call. call \<in> set calls \<Longrightarrow> call_bytes call \<le> max_int64"
  shows "manager_fine (fold budget_step calls b) \<and> cat_limit c (fold budget_step calls b) = cat_limit c b"
  using assms
proof (induction calls arbitrary: b)
  case (Cons call calls)
  have "manager_fine (budget_step call b)" by (rule step_fine) (use Cons.prems in simp_all)
  from Cons.IH [OF this] Cons.prems show ?case by (simp add: step_limit)
qed simp

section \<open>The constructors\<close>

lemma mbToBytes_spec: "mb \<le> max_int64 \<Longrightarrow> mbToBytes mb = min (max 0 mb * 1048576) max_int64"
proof -
  assume "mb \<le> max_int64"
  have q: "go_quot max_int64 1048576 = 8796093022207" by (simp add: go_quot_def max_int64_def)
  show ?thesis
  proof (cases "0 < mb \<and> mb \<le> 8796093022207")
    case True
    then have "wrap64 (mb * 1024) = mb * 1024" "wrap64 (mb * 1024 * 1024) = mb * 1048576"
      by (subst wrap64_id; simp add: go_int)+
    then show ?thesis using True unfolding mbToBytes_def q by (simp add: min_def max_int64_def)
  next
    case False
    then show ?thesis unfolding mbToBytes_def q by (auto simp: min_def max_int64_def)
  qed
qed

lemma mbToBytes_range: "mb \<le> max_int64 \<Longrightarrow> 0 \<le> mbToBytes mb \<and> mbToBytes mb \<le> max_int64"
  by (auto simp: mbToBytes_spec max_int64_def)

lemmas cat_simps = cat_limit_def cat_used_def budgetAndUsed_def zero_manager_def

lemma new_manager_fine:
  "r \<le> max_int64 \<Longrightarrow> l \<le> max_int64 \<Longrightarrow> t \<le> max_int64 \<Longrightarrow> e \<le> max_int64 \<Longrightarrow> manager_fine (NewBudgetManager r l t e)"
  using mbToBytes_range [of r] mbToBytes_range [of l] mbToBytes_range [of t] mbToBytes_range [of e]
  by (simp add: manager_fine_def NewBudgetManager_def cat_simps pool_fine_def max_int64_def)

lemma auto_limits:
  fixes t :: int
  assumes "0 \<le> free" "tot \<noteq> 0" "r \<le> max_int64" "e \<le> max_int64"
  defines "b \<equiv> NewAutoBudgetManager free tot r t e" and "room \<equiv> max 0 (min free max_int64 - 268435456)"
  shows "ResidentBudget b = min (mbToBytes r) room \<and>
    ExpertBudget b = min (mbToBytes e) (room - ResidentBudget b) \<and>
    LayerBudget b = room - ResidentBudget b - ExpertBudget b \<and> StreamBudget b = mbToBytes t"
proof -
  note R = mbToBytes_range [OF assms(3)] mbToBytes_range [OF assms(4)]
  have w: "wrap64 (uint64ToInt64 free - 268435456) = min free max_int64 - 268435456"
    using assms(1) by (subst wrap64_id) (auto simp: uint64ToInt64_def go_int min_def)
  have room: "(if min free max_int64 - 268435456 < 0 then 0 else min free max_int64 - 268435456) = room"
    by (auto simp: room_def max_def)
  have rr: "0 \<le> room" "room \<le> max_int64" by (simp_all add: room_def max_int64_def)
  have d: "wrap64 (room - x) = room - x" if "0 \<le> x" "x \<le> room" for x
    using that rr by (intro wrap64_id) (simp add: go_int)
  define rb where "rb = min (mbToBytes r) room"
  have rb: "0 \<le> rb" "rb \<le> room" "(if mbToBytes r > room then room else mbToBytes r) = rb"
    using R rr by (auto simp: rb_def)
  define eb where "eb = min (mbToBytes e) (room - rb)"
  have eb: "0 \<le> eb" "eb \<le> room - rb" "(if mbToBytes e > room - rb then room - rb else mbToBytes e) = eb"
    using R rb by (auto simp: eb_def)
  have d2: "wrap64 (room - rb - eb) = room - rb - eb" using d [of "rb + eb"] rb eb by (simp add: diff_diff_eq)
  have "b = zero_manager\<lparr>ResidentBudget := rb, LayerBudget := room - rb - eb, StreamBudget := mbToBytes t, ExpertBudget := eb\<rparr>"
    unfolding b_def NewAutoBudgetManager_def Let_def w room rb(3) d [OF rb(1,2)] eb(3) d2 using assms(2) by simp
  then show ?thesis by (simp add: rb_def eb_def)
qed

lemma auto_manager_fine:
  assumes "0 \<le> free" "r \<le> max_int64" "t \<le> max_int64" "e \<le> max_int64"
  shows "manager_fine (NewAutoBudgetManager free tot r t e)"
proof (cases "tot = 0")
  case True
  then show ?thesis using mbToBytes_range [OF assms(3)]
    by (simp add: manager_fine_def NewAutoBudgetManager_def cat_simps pool_fine_def max_int64_def)
next
  case False
  have used: "cat_used cat (NewAutoBudgetManager free tot r t e) = 0" for cat
    by (cases cat) (simp_all add: NewAutoBudgetManager_def Let_def cat_simps)
  show ?thesis
    using auto_limits [OF assms(1) False assms(2,4), where t = t] mbToBytes_range [OF assms(2)]
      mbToBytes_range [OF assms(3)] mbToBytes_range [OF assms(4)]
    by (auto simp: manager_fine_def used pool_fine_def cat_limit_def budgetAndUsed_def min_def max_def max_int64_def split: if_splits)
qed

end
