(* ===== verification/PlacementProps.thy ===== *)
theory PlacementProps
  imports BudgetFacts Samples
begin

text \<open>
  The properties of layer placement and of the memory budgets.
\<close>

section \<open>Placement\<close>

definition sample_model :: model_size where
  "sample_model = \<lparr>NumLayers = 3, HiddenSize = 64, Intermediate = 128, NumHeads = 2, NumKVHeads = 1, HeadDim = 32,
     GlobalHeadDim = 0, VocabSize = 100, HiddenPerLayer = 0, QuantBits = 4, QuantFormat = ''mlx'', IsGemma4 = False,
     HasDoubleWideMLP = False, NumKVSharedLayers = 0, NumExperts = 0, MoEIntermediate = 0\<rparr>"

lemma sample_model_range: "size_in_range sample_model"
  by (simp add: size_in_range_def sample_model_def go_int)

text \<open>The plan lists every layer once, in order; the leading ones go to the accelerator and the
  rest to the mapped file. With no count given, the leading layers are as many as fit beside the
  resident weights: they fit, and one more would not.\<close>

theorem plan_fills_accelerator:
  assumes "size_in_range info" "0 \<le> avail" "gpuLayers < 0"
  shows "let plan = PlanLayerPlacement ops info gpuLayers avail; n = nat (NumLayers info); g = pp_gpu_layers plan;
      room = max 0 (min avail max_int64 - EstimateResidentBytes info)
    in map lp_layer (pp_layers plan) = [0..<n] \<and>
       map lp_location (pp_layers plan) = replicate g TierGPU @ replicate (n - g) TierMmap \<and> g \<le> n \<and>
       (\<Sum>k < g. EstimateLayerWeightBytes info (int k)) \<le> room \<and>
       (g < n \<longrightarrow> room < (\<Sum>k < Suc g. EstimateLayerWeightBytes info (int k)))"
proof -
  note P = plan_spec [OF assms(1,2), where ops = ops and gpuLayers = gpuLayers]
  have "pp_mmap_layers (PlanLayerPlacement ops info gpuLayers avail) =
      nat (NumLayers info) - pp_gpu_layers (PlanLayerPlacement ops info gpuLayers avail)"
    "pp_gpu_layers (PlanLayerPlacement ops info gpuLayers avail) \<le> nat (NumLayers info)"
    using P(3) by simp_all
  then show ?thesis unfolding Let_def using P(1,2) P(5) [OF assms(3)] by simp
qed

lemma plan_fills_accelerator_witness:
  "pp_gpu_layers (PlanLayerPlacement fixed_ops sample_model (- 1) 200000) \<le> 3"
  using plan_fills_accelerator [OF sample_model_range, where ops = fixed_ops and gpuLayers = "- 1" and avail = 200000]
  by (simp add: Let_def sample_model_def)

text \<open>The estimate of a layer is a 64-bit value that never overflows, and it does not shrink when
  a dimension of the model grows.\<close>

theorem layer_estimate_monotone:
  assumes "size_in_range a" "size_in_range b" "no_larger a b"
  shows "0 \<le> EstimateLayerWeightBytes a i \<and> EstimateLayerWeightBytes a i \<le> EstimateLayerWeightBytes b i \<and>
    EstimateLayerWeightBytes b i \<le> max_int64"
  using layer_estimate_mono [OF assms] estimate_layer_range [OF assms(1)] estimate_layer_range [OF assms(2)]
  by (simp add: ok_range)

lemma layer_estimate_monotone_witness:
  "EstimateLayerWeightBytes sample_model 0 \<le> EstimateLayerWeightBytes (sample_model\<lparr>HiddenSize := 96\<rparr>) 0"
proof -
  have "size_in_range (sample_model\<lparr>HiddenSize := 96\<rparr>)" "no_larger sample_model (sample_model\<lparr>HiddenSize := 96\<rparr>)"
    by (simp_all add: size_in_range_def no_larger_def isMoE_def sample_model_def go_int)
  from layer_estimate_monotone [OF sample_model_range this, of 0] show ?thesis by simp
qed

text \<open>The recommended number of expert slots is the largest whose bytes fit in the budget.\<close>

theorem expert_slots_fill_budget:
  assumes "0 < budget" "budget \<le> max_int64" "0 < EstimateNVFP4ExpertSlotBytes info"
  shows "RecommendNVFP4ExpertSlots info budget * EstimateNVFP4ExpertSlotBytes info \<le> budget \<and>
    budget < (RecommendNVFP4ExpertSlots info budget + 1) * EstimateNVFP4ExpertSlotBytes info"
  using slots_fit [OF assms] by blast

lemma sample_slot_bytes: "EstimateNVFP4ExpertSlotBytes (sample_model\<lparr>QuantFormat := ''nvfp4''\<rparr>) = 13836"
  by code_simp

lemma expert_slots_fill_budget_witness:
  "RecommendNVFP4ExpertSlots (sample_model\<lparr>QuantFormat := ''nvfp4''\<rparr>) 50000 * 13836 \<le> 50000"
  using expert_slots_fill_budget [of 50000 "sample_model\<lparr>QuantFormat := ''nvfp4''\<rparr>"] by (simp add: sample_slot_bytes max_int64_def)

section \<open>Budgets\<close>

text \<open>C32. Whatever is allocated, freed and counted, the limits stay, every usage stays between zero
  and the limit where there is one, and no usage overflows.\<close>

theorem budgets_never_exceeded:
  assumes "manager_fine b" "\<And>call. call \<in> set calls \<Longrightarrow> call_bytes call \<le> max_int64" "validBudgetCategory cat"
  shows "let b' = fold budget_step calls b; (limit, used) = budgetAndUsed b' cat
    in limit = fst (budgetAndUsed b cat) \<and> 0 \<le> used \<and> used \<le> max_int64 \<and> (0 < limit \<longrightarrow> used \<le> limit)"
proof -
  have "manager_fine (fold budget_step calls b)" "cat_limit cat (fold budget_step calls b) = cat_limit cat b"
    using run_fine [OF assms(1,2), where c = cat] by blast+
  then show ?thesis using assms(3)
    by (auto simp: manager_fine_iff pool_fine_def cat_limit_def cat_used_def split: prod.splits)
qed

definition sample_budget :: budget_manager where
  "sample_budget = NewBudgetManager 1 2 0 0"

lemma sample_budget_fine: "manager_fine sample_budget"
  unfolding sample_budget_def by (rule new_manager_fine) (simp_all add: max_int64_def)

definition sample_budget_calls :: "budget_call list" where
  "sample_budget_calls = [BAlloc BudgetLayer 2000000, BAlloc BudgetLayer 2000000, BHit BudgetLayer]"

lemma budgets_never_exceeded_witness:
  "snd (budgetAndUsed (fold budget_step sample_budget_calls sample_budget) BudgetLayer) \<le> 2097152"
proof -
  have bytes: "call_bytes call \<le> max_int64" if "call \<in> set sample_budget_calls" for call
    using that by (auto simp: sample_budget_calls_def max_int64_def)
  have limit: "fst (budgetAndUsed sample_budget BudgetLayer) = 2097152"
    by (simp add: sample_budget_def NewBudgetManager_def budgetAndUsed_def mbToBytes_spec max_int64_def)
  have valid: "validBudgetCategory BudgetLayer" by (simp add: validBudgetCategory_def)
  show ?thesis using budgets_never_exceeded [OF sample_budget_fine bytes valid, of sample_budget_calls] unfolding limit
    by (auto split: prod.splits)
qed

text \<open>C1. With a limit, an allocation succeeds exactly when it is no more than what \<open>Available\<close> reports, and
  freeing the same bytes restores the manager.\<close>

theorem alloc_exactly_available:
  assumes "manager_fine b" "validBudgetCategory cat" "0 < fst (budgetAndUsed b cat)" "0 < n" "n \<le> max_int64"
  shows "fst (Alloc (Some b) cat n) = (n \<le> Available (Some b) cat) \<and>
    (fst (Alloc (Some b) cat n) \<longrightarrow> Free (snd (Alloc (Some b) cat n)) cat n = Some b) \<and>
    (\<not> fst (Alloc (Some b) cat n) \<longrightarrow> snd (Alloc (Some b) cat n) = Some b)"
proof -
  have f: "pool_fine (cat_limit cat b) (cat_used cat b)" using assms(1,2) by (simp add: manager_fine_iff)
  have l: "0 < cat_limit cat b" using assms(3) by (simp add: cat_limit_def)
  have avail: "Available (Some b) cat = pool_room (cat_limit cat b) (cat_used cat b)"
    using assms(2) l f pool_room_wrap [OF f l]
    by (auto simp: Available_def Let_def cat_limit_def cat_used_def pool_room_def pool_fine_def split: prod.splits)
  have undo: "Free (Some (set_used cat (cat_used cat b + n) b)) cat n = Some b"
    if "n \<le> pool_room (cat_limit cat b) (cat_used cat b)"
  proof -
    have new: "cat_limit cat (set_used cat (cat_used cat b + n) b) = cat_limit cat b"
      "cat_used cat (set_used cat (cat_used cat b + n) b) = cat_used cat b + n"
      by (simp_all add: cat_limit_def cat_used_def set_used_same [OF assms(2)])
    have "pool_fine (cat_limit cat b) (cat_used cat b + n)"
      using f l that assms(4) by (simp add: pool_fine_def pool_room_def)
    with Free_some [OF assms(2,4,5), of "set_used cat (cat_used cat b + n) b"] f show ?thesis
      by (simp add: new set_used_twice set_used_id pool_fine_def)
  qed
  show ?thesis using undo by (simp add: avail Alloc_some [OF assms(2,4,5) f])
qed

lemma alloc_exactly_available_witness:
  "fst (Alloc (Some sample_budget) BudgetLayer 5) = (5 \<le> Available (Some sample_budget) BudgetLayer)"
  using alloc_exactly_available [OF sample_budget_fine, where cat = BudgetLayer and n = 5]
  by (simp add: sample_budget_def NewBudgetManager_def zero_manager_def validBudgetCategory_def budgetAndUsed_def
      mbToBytes_spec max_int64_def)

text \<open>The resident, expert and layer budgets of an automatic manager add up exactly to the free
  memory less the 256 MB reserve.\<close>

theorem auto_budget_partitions_free_memory:
  assumes "0 \<le> free" "tot \<noteq> 0" "residentMB \<le> max_int64" "expertMB \<le> max_int64"
  shows "let b = NewAutoBudgetManager free tot residentMB streamMB expertMB; room = max 0 (min free max_int64 - 268435456)
    in ResidentBudget b + ExpertBudget b + LayerBudget b = room \<and>
       ResidentBudget b = min (mbToBytes residentMB) room \<and>
       ExpertBudget b = min (mbToBytes expertMB) (room - ResidentBudget b) \<and> 0 \<le> LayerBudget b"
  using auto_limits [OF assms, where t = streamMB] by (auto simp: Let_def)

lemma auto_budget_partitions_free_memory_witness:
  "ResidentBudget (NewAutoBudgetManager 1000000000 2000000000 100 0 50) +
     ExpertBudget (NewAutoBudgetManager 1000000000 2000000000 100 0 50) +
     LayerBudget (NewAutoBudgetManager 1000000000 2000000000 100 0 50) = 731564544"
proof -
  have "0 \<le> (1000000000::int)" "(2000000000::int) \<noteq> 0" "100 \<le> max_int64" "50 \<le> max_int64"
    by (simp_all add: max_int64_def)
  from auto_budget_partitions_free_memory [OF this, of 0, unfolded Let_def, THEN conjunct1]
  show ?thesis by (simp only:) (simp add: max_int64_def)
qed

text \<open>When the free memory is at most the reserve, the automatic budgets of the accelerator are
  zero, which the manager reads as unlimited: it then grants any allocation.\<close>

theorem exhausted_accelerator_is_unlimited:
  assumes "0 \<le> free" "free \<le> 268435456" "tot \<noteq> 0" "residentMB \<le> max_int64" "expertMB \<le> max_int64" "streamMB \<le> max_int64"
    and "0 < n" "n \<le> max_int64"
  shows "fst (Alloc (Some (NewAutoBudgetManager free tot residentMB streamMB expertMB)) BudgetLayer n) \<and>
    Available (Some (NewAutoBudgetManager free tot residentMB streamMB expertMB)) BudgetLayer = 4611686018427387903"
proof -
  let ?b = "NewAutoBudgetManager free tot residentMB streamMB expertMB"
  have room: "max 0 (min free max_int64 - 268435456) = 0" using assms(2) by simp
  have zero: "LayerBudget ?b = 0" using auto_limits [OF assms(1,3,4,5), where t = streamMB]
      mbToBytes_range [OF assms(4)] mbToBytes_range [OF assms(5)]
    unfolding room by auto
  have used: "LayerUsed ?b = 0" by (simp add: NewAutoBudgetManager_def Let_def zero_manager_def)
  have f: "pool_fine (cat_limit BudgetLayer ?b) (cat_used BudgetLayer ?b)"
    using auto_manager_fine [OF assms(1,4,6,5), where tot = tot] by (simp add: manager_fine_def)
  have v: "validBudgetCategory BudgetLayer" by (simp add: validBudgetCategory_def)
  show ?thesis using assms(8)
    by (simp add: Alloc_some [OF v assms(7,8) f] pool_room_def cat_limit_def cat_used_def budgetAndUsed_def zero used
        Available_def v)
qed

lemma exhausted_accelerator_is_unlimited_witness:
  "fst (Alloc (Some (NewAutoBudgetManager 1000 8000000000 100 0 0)) BudgetLayer 7000000000)"
  using exhausted_accelerator_is_unlimited [of 1000 8000000000 100 0 0 7000000000] by (simp add: max_int64_def)

end
