(* ===== verification/TurboQuant.thy ===== *)
theory TurboQuant
  imports Floats Checked
begin

unbundle bit_operations_syntax

text \<open>
  \<open>runtime/kv/turboquant.go\<close>: the quantizer of the key/value cache. Vectors are rotated, each
  coordinate is mapped to one of \<open>2^bits\<close> levels between the least and the greatest, and the
  levels are packed into bytes. Scratch slices are overwritten before they are read, so only
  their lengths are kept. Arithmetic is a record of operations; the SIMD row and column products
  are parameters that may decline, as in the code, which then runs the scalar loops.
\<close>

section \<open>Operations and state\<close>

record 'f qops = "'f fops" +
  f_sqrt :: "'f \<Rightarrow> 'f"
  f_to_int :: "'f \<Rightarrow> int"
  f_half :: 'f
  f_1e10 :: 'f

record 'f simd =
  GemvRows :: "'f list \<Rightarrow> 'f list \<Rightarrow> nat \<Rightarrow> 'f list option"
  GemvCols :: "'f list \<Rightarrow> 'f list \<Rightarrow> nat \<Rightarrow> 'f list option"

record tq_config =
  KeyBits :: int
  ValueBits :: int
  ProtectedLayers :: "int list"
  ResidualWindow :: int

definition DefaultTurboQuantConfig :: tq_config where
  "DefaultTurboQuantConfig = \<lparr>KeyBits = 4, ValueBits = 2, ProtectedLayers = [0, 1, -1, -2], ResidualWindow = 128\<rparr>"

record 'f tq_state =
  tqConfig :: tq_config
  RotationK :: "'f list"
  RotationV :: "'f list"
  RotationKT :: "'f list"
  RotationVT :: "'f list"
  CodebookK :: "'f list"
  CodebookV :: "'f list"
  tqHeadDim :: int
  tqNumLayers :: int

section \<open>Sizes\<close>

definition clampBits :: "int \<Rightarrow> int" where
  "clampBits bits = (if bits < 1 then 1 else if bits > 8 then 8 else bits)"

definition squareSize :: "int \<Rightarrow> int" where
  "squareSize dm = (if dm < 0 then - 1 else if dm \<noteq> 0 \<and> dm > go_quot max_int64 dm then - 1 else wrap64 (dm * dm))"

definition packedByteLen :: "int \<Rightarrow> int \<Rightarrow> int" where
  "packedByteLen n bits = (if n < 0 \<or> bits < 0 then - 1
     else if bits \<noteq> 0 \<and> n > go_quot (max_int64 - 7) bits then - 1
     else go_quot (wrap64 (wrap64 (n * bits) + 7)) 8)"

section \<open>Packing\<close>

definition pack_bit :: "8 word \<Rightarrow> nat \<Rightarrow> 8 word list \<times> nat \<Rightarrow> 8 word list \<times> nat" where
  "pack_bit idx b st = (case st of (dst, bitPos) \<Rightarrow>
     (if idx AND push_bit b 1 \<noteq> 0
      then dst[bitPos div 8 := dst ! (bitPos div 8) OR push_bit (bitPos mod 8) 1] else dst, bitPos + 1))"

definition pack_value :: "nat \<Rightarrow> 8 word \<Rightarrow> 8 word list \<times> nat \<Rightarrow> 8 word list \<times> nat" where
  "pack_value bits idx st = fold (pack_bit idx) [0..<bits] st"

definition packIndicesTo :: "8 word list \<Rightarrow> 8 word list \<Rightarrow> int \<Rightarrow> 8 word list option" where
  "packIndicesTo dst indices bits0 =
     (let bits = clampBits bits0; packedLen = packedByteLen (int (length indices)) bits in
      if packedLen < 0 \<or> int (length dst) < packedLen then None
      else Some (fst (fold (pack_value (nat bits)) indices
             (replicate (nat packedLen) 0 @ drop (nat packedLen) dst, 0))))"

definition packIndices :: "8 word list \<Rightarrow> int \<Rightarrow> 8 word list option" where
  "packIndices indices bits0 =
     (let bits = clampBits bits0; packedLen = packedByteLen (int (length indices)) bits in
      if packedLen < 0 then None else packIndicesTo (replicate (nat packedLen) 0) indices bits)"

definition unpack_bit :: "8 word list \<Rightarrow> nat \<Rightarrow> 8 word \<times> nat \<Rightarrow> 8 word \<times> nat" where
  "unpack_bit packed b st = (case st of (val, bitPos) \<Rightarrow>
     (if bitPos div 8 < length packed \<and> packed ! (bitPos div 8) AND push_bit (bitPos mod 8) 1 \<noteq> 0
      then val OR push_bit b 1 else val, bitPos + 1))"

definition unpack_value :: "8 word list \<Rightarrow> nat \<Rightarrow> nat \<Rightarrow> 8 word \<times> nat" where
  "unpack_value packed bits bitPos = fold (unpack_bit packed) [0..<bits] (0, bitPos)"

text \<open>The loop over the destination, of which only the length is used.\<close>

fun unpack_loop :: "8 word list \<Rightarrow> nat \<Rightarrow> nat \<Rightarrow> nat \<Rightarrow> 8 word list" where
  "unpack_loop packed bits 0 bitPos = []"
| "unpack_loop packed bits (Suc n) bitPos =
     (case unpack_value packed bits bitPos of (val, bitPos') \<Rightarrow> val # unpack_loop packed bits n bitPos')"

definition unpackIndicesTo :: "nat \<Rightarrow> 8 word list \<Rightarrow> int \<Rightarrow> 8 word list option" where
  "unpackIndicesTo n packed bits = (if n = 0 then None else Some (unpack_loop packed (nat (clampBits bits)) n 0))"

section \<open>Rotations\<close>

definition dot_row :: "'f fops \<Rightarrow> 'f list \<Rightarrow> 'f list \<Rightarrow> nat \<Rightarrow> nat \<Rightarrow> 'f" where
  "dot_row ops rotation vec dm i =
     fold (\<lambda>j sum. f_add ops sum (f_mul ops (rotation ! (i * dm + j)) (vec ! j))) [0..<dm] (f_zero ops)"

definition dot_col :: "'f fops \<Rightarrow> 'f list \<Rightarrow> 'f list \<Rightarrow> nat \<Rightarrow> nat \<Rightarrow> 'f" where
  "dot_col ops rotation vec dm i =
     fold (\<lambda>j sum. f_add ops sum (f_mul ops (rotation ! (j * dm + i)) (vec ! j))) [0..<dm] (f_zero ops)"

text \<open>\<open>None\<close>: the shapes do not fit and the destination stays as it is.\<close>

definition rotateRows :: "'f fops \<Rightarrow> 'f simd \<Rightarrow> nat \<Rightarrow> 'f list \<Rightarrow> 'f list \<Rightarrow> nat \<Rightarrow> 'f list option" where
  "rotateRows ops hw dstLen vec rotation dm =
     (let need = squareSize (int dm) in
      if dm = 0 \<or> need < 0 \<or> dstLen < dm \<or> length vec < dm \<or> int (length rotation) < need then None
      else case GemvRows hw vec rotation dm of Some out \<Rightarrow> Some out
        | None \<Rightarrow> Some (map (dot_row ops rotation vec dm) [0..<dm]))"

definition rotateCols :: "'f fops \<Rightarrow> 'f simd \<Rightarrow> nat \<Rightarrow> 'f list \<Rightarrow> 'f list \<Rightarrow> nat \<Rightarrow> 'f list option" where
  "rotateCols ops hw dstLen vec rotation dm =
     (let need = squareSize (int dm) in
      if dm = 0 \<or> need < 0 \<or> dstLen < dm \<or> length vec < dm \<or> int (length rotation) < need then None
      else case GemvCols hw vec rotation dm of Some out \<Rightarrow> Some out
        | None \<Rightarrow> Some (map (dot_col ops rotation vec dm) [0..<dm]))"

definition transposeSquare :: "'f list \<Rightarrow> int \<Rightarrow> 'f fops \<Rightarrow> 'f list" where
  "transposeSquare src dm ops =
     (let need = squareSize dm; d = nat dm in
      if dm \<le> 0 \<or> need < 0 \<or> int (length src) < need then []
      else fold (\<lambda>r out. fold (\<lambda>c out. out[c * d + r := src ! (r * d + c)]) [0..<d] out) [0..<d]
             (replicate (nat need) (f_zero ops)))"

section \<open>Quantizing\<close>

definition vec_min :: "'f fops \<Rightarrow> 'f list \<Rightarrow> 'f" where
  "vec_min ops xs = fold (\<lambda>v vMin. if f_lt ops v vMin then v else vMin) (tl xs) (hd xs)"

definition vec_max :: "'f fops \<Rightarrow> 'f list \<Rightarrow> 'f" where
  "vec_max ops xs = fold (\<lambda>v vMax. if f_lt ops vMax v then v else vMax) (tl xs) (hd xs)"

definition quantize_level :: "('f, 'm) qops_scheme \<Rightarrow> int \<Rightarrow> 'f \<Rightarrow> 'f \<Rightarrow> 'f \<Rightarrow> 8 word" where
  "quantize_level ops nLevels vMin scale v =
     (let normalized = f_div ops (f_sub ops v vMin) scale;
          idx = f_to_int ops (f_add ops (f_mul ops normalized (f_of_int ops (nLevels - 1))) (f_half ops));
          idx1 = (if idx < 0 then 0 else idx);
          idx2 = (if idx1 \<ge> nLevels then nLevels - 1 else idx1)
      in word_of_int idx2)"

definition levels :: "int \<Rightarrow> int" where
  "levels bits = 2 ^ nat bits"

text \<open>The packed bytes (all of the destination), the least value and the scale; \<open>None\<close> for \<open>false\<close>.
  \<open>rl\<close> and \<open>il\<close> are the lengths of the scratch slices.\<close>

definition quantizeVectorTo ::
  "'f qops \<Rightarrow> 'f simd \<Rightarrow> 8 word list \<Rightarrow> 'f list \<Rightarrow> 'f list \<Rightarrow> int \<Rightarrow> nat \<Rightarrow> nat \<Rightarrow> (8 word list \<times> 'f \<times> 'f) option" where
  "quantizeVectorTo ops hw packedDst vec rotation bits0 rl il =
     (let dm = length vec; bits = clampBits bits0; needRot = squareSize (int dm);
          packedLen = packedByteLen (int dm) bits in
      if dm = 0 \<or> needRot < 0 \<or> packedLen < 0 \<or> int (length packedDst) < packedLen \<or>
         int (length rotation) < needRot \<or> rl < dm \<or> il < dm then None
      else let rotated = (case rotateRows (fops.truncate ops) hw rl vec rotation dm of Some r \<Rightarrow> r
               | None \<Rightarrow> replicate dm (f_zero ops));
             vMin = vec_min (fops.truncate ops) rotated; vMax = vec_max (fops.truncate ops) rotated;
             scale = f_sub ops vMax vMin in
           if f_lt ops scale (f_1e10 ops)
           then Some (replicate (nat packedLen) 0 @ drop (nat packedLen) packedDst, vMin, f_zero ops)
           else case packIndicesTo (take (nat packedLen) packedDst)
                       (map (quantize_level ops (levels bits) vMin scale) rotated) bits of
                  None \<Rightarrow> None
                | Some packed \<Rightarrow> Some (packed @ drop (nat packedLen) packedDst, vMin, scale))"

definition QuantizeKeyTo :: "'f qops \<Rightarrow> 'f simd \<Rightarrow> 'f tq_state option \<Rightarrow> 8 word list \<Rightarrow> 'f list \<Rightarrow> nat \<Rightarrow> nat \<Rightarrow> (8 word list \<times> 'f \<times> 'f) option" where
  "QuantizeKeyTo ops hw tq packedDst vec rl il = (case tq of None \<Rightarrow> None
     | Some t \<Rightarrow> quantizeVectorTo ops hw packedDst vec (RotationK t) (KeyBits (tqConfig t)) rl il)"

definition QuantizeValueTo :: "'f qops \<Rightarrow> 'f simd \<Rightarrow> 'f tq_state option \<Rightarrow> 8 word list \<Rightarrow> 'f list \<Rightarrow> nat \<Rightarrow> nat \<Rightarrow> (8 word list \<times> 'f \<times> 'f) option" where
  "QuantizeValueTo ops hw tq packedDst vec rl il = (case tq of None \<Rightarrow> None
     | Some t \<Rightarrow> quantizeVectorTo ops hw packedDst vec (RotationV t) (ValueBits (tqConfig t)) rl il)"

definition quantizeVectorWithScratch ::
  "'f qops \<Rightarrow> 'f simd \<Rightarrow> 'f list \<Rightarrow> 'f list \<Rightarrow> int \<Rightarrow> nat \<Rightarrow> nat \<Rightarrow> (8 word list \<times> 'f \<times> 'f) option" where
  "quantizeVectorWithScratch ops hw vec rotation bits rl il =
     (let packedLen = packedByteLen (int (length vec)) (clampBits bits) in
      if packedLen < 0 then None
      else quantizeVectorTo ops hw (replicate (nat packedLen) 0) vec rotation bits rl il)"

definition QuantizeKeyWithScratch :: "'f qops \<Rightarrow> 'f simd \<Rightarrow> 'f tq_state option \<Rightarrow> 'f list \<Rightarrow> nat \<Rightarrow> nat \<Rightarrow> (8 word list \<times> 'f \<times> 'f) option" where
  "QuantizeKeyWithScratch ops hw tq vec rl il = (case tq of None \<Rightarrow> None
     | Some t \<Rightarrow> quantizeVectorWithScratch ops hw vec (RotationK t) (KeyBits (tqConfig t)) rl il)"

definition QuantizeValueWithScratch :: "'f qops \<Rightarrow> 'f simd \<Rightarrow> 'f tq_state option \<Rightarrow> 'f list \<Rightarrow> nat \<Rightarrow> nat \<Rightarrow> (8 word list \<times> 'f \<times> 'f) option" where
  "QuantizeValueWithScratch ops hw tq vec rl il = (case tq of None \<Rightarrow> None
     | Some t \<Rightarrow> quantizeVectorWithScratch ops hw vec (RotationV t) (ValueBits (tqConfig t)) rl il)"

definition QuantizeVector :: "'f qops \<Rightarrow> 'f simd \<Rightarrow> 'f list \<Rightarrow> 'f list \<Rightarrow> int \<Rightarrow> 8 word list \<times> 'f \<times> 'f" where
  "QuantizeVector ops hw vec rotation bits =
     (case quantizeVectorWithScratch ops hw vec rotation bits (length vec) (length vec) of
        Some r \<Rightarrow> r
      | None \<Rightarrow> (replicate (nat (packedByteLen (int (length vec)) (clampBits bits))) 0, f_zero ops, f_zero ops))"

definition QuantizeKey :: "'f qops \<Rightarrow> 'f simd \<Rightarrow> 'f tq_state option \<Rightarrow> 'f list \<Rightarrow> 8 word list \<times> 'f \<times> 'f" where
  "QuantizeKey ops hw tq vec = (case tq of None \<Rightarrow> ([], f_zero ops, f_zero ops)
     | Some t \<Rightarrow> QuantizeVector ops hw vec (RotationK t) (KeyBits (tqConfig t)))"

definition QuantizeValue :: "'f qops \<Rightarrow> 'f simd \<Rightarrow> 'f tq_state option \<Rightarrow> 'f list \<Rightarrow> 8 word list \<times> 'f \<times> 'f" where
  "QuantizeValue ops hw tq vec = (case tq of None \<Rightarrow> ([], f_zero ops, f_zero ops)
     | Some t \<Rightarrow> QuantizeVector ops hw vec (RotationV t) (ValueBits (tqConfig t)))"

section \<open>Dequantizing\<close>

definition level_value :: "('f, 'm) fops_scheme \<Rightarrow> int \<Rightarrow> 'f \<Rightarrow> 'f \<Rightarrow> 8 word \<Rightarrow> 'f" where
  "level_value ops nLevels vMin scale idx =
     f_add ops vMin (f_div ops (f_mul ops scale (f_of_int ops (uint idx))) (f_of_int ops (nLevels - 1)))"

text \<open>\<open>transposeForRotation\<close> recognises the built-in rotations by their address.\<close>

datatype 'f rotation = RotK | RotV | RotExternal "'f list"

definition rotation_of :: "'f tq_state \<Rightarrow> 'f rotation \<Rightarrow> 'f list" where
  "rotation_of t r = (case r of RotK \<Rightarrow> RotationK t | RotV \<Rightarrow> RotationV t | RotExternal xs \<Rightarrow> xs)"

definition transposeForRotation :: "'f tq_state \<Rightarrow> 'f rotation \<Rightarrow> 'f list option" where
  "transposeForRotation t r = (case r of RotK \<Rightarrow> if RotationK t = [] then None else Some (RotationKT t)
     | RotV \<Rightarrow> if RotationV t = [] then None else Some (RotationVT t) | RotExternal xs \<Rightarrow> None)"

text \<open>What the call writes to the first \<open>dim\<close> places of the destination. \<open>dl\<close>, \<open>rl\<close> and \<open>il\<close> are
  the lengths of the destination and of the scratch slices. A nil transpose is an empty list.\<close>

definition dequantizeVectorWithScratchTo ::
  "'f qops \<Rightarrow> 'f simd \<Rightarrow> 'f tq_state option \<Rightarrow> nat \<Rightarrow> 8 word list \<Rightarrow> 'f \<Rightarrow> 'f \<Rightarrow> 'f rotation \<Rightarrow> int \<Rightarrow> int \<Rightarrow> nat \<Rightarrow> nat \<Rightarrow> 'f list option" where
  "dequantizeVectorWithScratchTo ops hw tq dl packed vMin scale rot bits0 dm rl il =
     (let bits = clampBits bits0; needRot = squareSize dm; d = nat dm in
      case tq of None \<Rightarrow> None | Some t \<Rightarrow>
        if dm \<le> 0 \<or> needRot < 0 \<or> dl < d \<or> int (length (rotation_of t rot)) < needRot \<or> rl < d \<or> il < d then None
        else case unpackIndicesTo d packed bits of None \<Rightarrow> None
          | Some indices \<Rightarrow>
              let rotated = map (level_value ops (levels bits) vMin scale) indices in
              (case transposeForRotation t rot of
                 Some rt \<Rightarrow> if rt \<noteq> [] \<and> needRot \<le> int (length rt)
                   then rotateRows (fops.truncate ops) hw d rotated rt d
                   else rotateCols (fops.truncate ops) hw d rotated (rotation_of t rot) d
               | None \<Rightarrow> rotateCols (fops.truncate ops) hw d rotated (rotation_of t rot) d))"

definition DequantizeKeyWithScratchTo ::
  "'f qops \<Rightarrow> 'f simd \<Rightarrow> 'f tq_state option \<Rightarrow> nat \<Rightarrow> 8 word list \<Rightarrow> 'f \<Rightarrow> 'f \<Rightarrow> int \<Rightarrow> nat \<Rightarrow> nat \<Rightarrow> 'f list option" where
  "DequantizeKeyWithScratchTo ops hw tq dl packed vMin scale dm rl il = (case tq of None \<Rightarrow> None
     | Some t \<Rightarrow> dequantizeVectorWithScratchTo ops hw tq dl packed vMin scale RotK (KeyBits (tqConfig t)) dm rl il)"

definition DequantizeValueWithScratchTo ::
  "'f qops \<Rightarrow> 'f simd \<Rightarrow> 'f tq_state option \<Rightarrow> nat \<Rightarrow> 8 word list \<Rightarrow> 'f \<Rightarrow> 'f \<Rightarrow> int \<Rightarrow> nat \<Rightarrow> nat \<Rightarrow> 'f list option" where
  "DequantizeValueWithScratchTo ops hw tq dl packed vMin scale dm rl il = (case tq of None \<Rightarrow> None
     | Some t \<Rightarrow> dequantizeVectorWithScratchTo ops hw tq dl packed vMin scale RotV (ValueBits (tqConfig t)) dm rl il)"

text \<open>The forms that allocate their scratch slices, and those that allocate the result; these return zeros
  where dequantizing declines.\<close>

definition maxInt :: "int \<Rightarrow> int \<Rightarrow> int" where
  "maxInt a b = (if a > b then a else b)"

definition dequantizeVectorTo ::
  "'f qops \<Rightarrow> 'f simd \<Rightarrow> 'f tq_state option \<Rightarrow> nat \<Rightarrow> 8 word list \<Rightarrow> 'f \<Rightarrow> 'f \<Rightarrow> 'f rotation \<Rightarrow> int \<Rightarrow> int \<Rightarrow> 'f list option" where
  "dequantizeVectorTo ops hw tq dl packed vMin scale rot bits dm =
     (let n = nat (maxInt dm 0) in dequantizeVectorWithScratchTo ops hw tq dl packed vMin scale rot bits dm n n)"

definition DequantizeVector ::
  "'f qops \<Rightarrow> 'f simd \<Rightarrow> 'f tq_state option \<Rightarrow> 8 word list \<Rightarrow> 'f \<Rightarrow> 'f \<Rightarrow> 'f rotation \<Rightarrow> int \<Rightarrow> int \<Rightarrow> 'f list" where
  "DequantizeVector ops hw tq packed vMin scale rot bits dm =
     (let n = nat (maxInt dm 0) in
      case dequantizeVectorTo ops hw tq n packed vMin scale rot bits dm of Some out \<Rightarrow> out | None \<Rightarrow> replicate n (f_zero ops))"

definition DequantizeKeyTo ::
  "'f qops \<Rightarrow> 'f simd \<Rightarrow> 'f tq_state option \<Rightarrow> nat \<Rightarrow> 8 word list \<Rightarrow> 'f \<Rightarrow> 'f \<Rightarrow> int \<Rightarrow> 'f list option" where
  "DequantizeKeyTo ops hw tq dl packed vMin scale dm = (case tq of None \<Rightarrow> None
     | Some t \<Rightarrow> dequantizeVectorTo ops hw tq dl packed vMin scale RotK (KeyBits (tqConfig t)) dm)"

definition DequantizeValueTo ::
  "'f qops \<Rightarrow> 'f simd \<Rightarrow> 'f tq_state option \<Rightarrow> nat \<Rightarrow> 8 word list \<Rightarrow> 'f \<Rightarrow> 'f \<Rightarrow> int \<Rightarrow> 'f list option" where
  "DequantizeValueTo ops hw tq dl packed vMin scale dm = (case tq of None \<Rightarrow> None
     | Some t \<Rightarrow> dequantizeVectorTo ops hw tq dl packed vMin scale RotV (ValueBits (tqConfig t)) dm)"

definition DequantizeKey :: "'f qops \<Rightarrow> 'f simd \<Rightarrow> 'f tq_state option \<Rightarrow> 8 word list \<Rightarrow> 'f \<Rightarrow> 'f \<Rightarrow> int \<Rightarrow> 'f list" where
  "DequantizeKey ops hw tq packed vMin scale dm =
     (let n = nat (maxInt dm 0) in
      case DequantizeKeyTo ops hw tq n packed vMin scale dm of Some out \<Rightarrow> out | None \<Rightarrow> replicate n (f_zero ops))"

definition DequantizeValue :: "'f qops \<Rightarrow> 'f simd \<Rightarrow> 'f tq_state option \<Rightarrow> 8 word list \<Rightarrow> 'f \<Rightarrow> 'f \<Rightarrow> int \<Rightarrow> 'f list" where
  "DequantizeValue ops hw tq packed vMin scale dm =
     (let n = nat (maxInt dm 0) in
      case DequantizeValueTo ops hw tq n packed vMin scale dm of Some out \<Rightarrow> out | None \<Rightarrow> replicate n (f_zero ops))"

section \<open>The state of a model\<close>

text \<open>\<open>gauss\<close> is the sequence of normal deviates the seeded generator returns from some point on.\<close>

definition gs_column :: "'f qops \<Rightarrow> (nat \<Rightarrow> 'f) \<Rightarrow> nat \<Rightarrow> nat \<Rightarrow> 'f list \<Rightarrow> 'f list" where
  "gs_column ops mat dm j q0 =
     (let copied = fold (\<lambda>i q. q[i * dm + j := mat (i * dm + j)]) [0..<dm] q0;
          projected = fold (\<lambda>k q.
            let dot = fold (\<lambda>i dot. f_add ops dot (f_mul ops (q ! (i * dm + j)) (q ! (i * dm + k)))) [0..<dm] (f_zero ops)
            in fold (\<lambda>i q. q[i * dm + j := f_sub ops (q ! (i * dm + j)) (f_mul ops dot (q ! (i * dm + k)))]) [0..<dm] q)
            [0..<j] copied;
          norm = f_sqrt ops (fold (\<lambda>i norm. f_add ops norm (f_mul ops (projected ! (i * dm + j)) (projected ! (i * dm + j))))
            [0..<dm] (f_zero ops))
      in if f_lt ops (f_1e10 ops) norm
         then fold (\<lambda>i q. q[i * dm + j := f_div ops (q ! (i * dm + j)) norm]) [0..<dm] projected
         else projected)"

definition randomOrthogonal :: "'f qops \<Rightarrow> int \<Rightarrow> (nat \<Rightarrow> 'f) \<Rightarrow> 'f list" where
  "randomOrthogonal ops dm gauss =
     (let need = squareSize dm in
      if dm \<le> 0 \<or> need < 0 then []
      else fold (gs_column ops gauss (nat dm)) [0..<nat dm] (replicate (nat dm * nat dm) (f_zero ops)))"

definition betaOptimalCodebook :: "'f qops \<Rightarrow> int \<Rightarrow> 'f list" where
  "betaOptimalCodebook ops bits0 =
     (let n = levels (clampBits bits0) in
      map (\<lambda>i. let t0 = f_sub ops (f_div ops (f_of_int ops (2 * int i + 1)) (f_of_int ops (2 * n))) (f_half ops);
                   t1 = f_mul ops t0 (f_of_int ops 2);
                   neg = f_lt ops t1 (f_zero ops);
                   sign = (if neg then f_sub ops (f_zero ops) (f_one ops) else f_one ops);
                   t = (if neg then f_sub ops (f_zero ops) t1 else t1)
               in f_mul ops sign (f_sqrt ops t)) [0..<nat n])"

definition NewTurboQuantState :: "'f qops \<Rightarrow> (nat \<Rightarrow> 'f) \<Rightarrow> int \<Rightarrow> int \<Rightarrow> tq_config \<Rightarrow> 'f tq_state" where
  "NewTurboQuantState ops gauss headDim0 numLayers0 cfg0 =
     (let headDim = (if headDim0 < 0 \<or> squareSize headDim0 < 0 then 0 else headDim0);
          numLayers = (if numLayers0 < 0 then 0 else numLayers0);
          cfg = cfg0\<lparr>KeyBits := clampBits (KeyBits cfg0), ValueBits := clampBits (ValueBits cfg0),
            ResidualWindow := (if ResidualWindow cfg0 < 0 then 0 else ResidualWindow cfg0)\<rparr>;
          rk = randomOrthogonal ops headDim gauss;
          rv = randomOrthogonal ops headDim (\<lambda>i. gauss (nat (headDim * headDim) + i))
      in \<lparr>tqConfig = cfg, RotationK = rk, RotationV = rv,
           RotationKT = transposeSquare rk headDim (fops.truncate ops), RotationVT = transposeSquare rv headDim (fops.truncate ops),
           CodebookK = betaOptimalCodebook ops (KeyBits cfg), CodebookV = betaOptimalCodebook ops (ValueBits cfg),
           tqHeadDim = headDim, tqNumLayers = numLayers\<rparr>)"

definition IsProtectedLayer :: "'f tq_state option \<Rightarrow> int \<Rightarrow> bool" where
  "IsProtectedLayer tq layerIdx = (case tq of None \<Rightarrow> False | Some t \<Rightarrow>
     layerIdx \<ge> 0 \<and> (\<exists>pl \<in> set (ProtectedLayers (tqConfig t)).
       layerIdx = (if pl < 0 then wrap64 (tqNumLayers t + pl) else pl)))"

end
