(* ===== verification/KvCache.thy ===== *)
theory KvCache
  imports TurboQuant
begin

text \<open>
  \<open>runtime/kv/cache.go\<close>: the key/value cache of one layer. Recent rows are kept in full; when the
  cache grows past its residual window the oldest full row is quantized, one head at a time. A
  scratch slice of the struct is its length and capacity, since its contents are overwritten
  before they are read. The nil receiver is \<open>None\<close>.
\<close>

section \<open>State\<close>

record 'f kv_entry =
  Packed :: "8 word list"
  HeadVMin :: "'f list"
  HeadScale :: "'f list"

record scratch =
  s_len :: nat
  s_cap :: nat

record 'f kv_cache =
  FullK :: "'f list"
  FullV :: "'f list"
  CompressedK :: "'f kv_entry list"
  CompressedV :: "'f kv_entry list"
  scratchK :: scratch
  scratchV :: scratch
  quantRotated :: scratch
  quantIndices :: scratch
  dequantRotated :: scratch
  dequantIndices :: scratch
  kvDim :: int
  numKVHeads :: int
  headDim :: int
  tq :: "'f tq_state option"
  isProtected :: bool
  residualWindow :: int
  seqLen :: int

record kv_stats =
  st_SeqLen :: int
  st_CompressedCount :: int
  st_FullCount :: int
  st_StoredBytes :: int
  st_ScratchBytes :: int
  st_TotalBytes :: int

record kv_aggregate =
  ag_Layers :: int
  ag_SeqLen :: int
  ag_CompressedCount :: int
  ag_FullCount :: int
  ag_StoredBytes :: int
  ag_ScratchBytes :: int
  ag_TotalBytes :: int

definition no_scratch :: scratch where
  "no_scratch = \<lparr>s_len = 0, s_cap = 0\<rparr>"

text \<open>\<open>if cap(s) < n { s = make([]T, n) }\<close>\<close>

definition ensure :: "nat \<Rightarrow> scratch \<Rightarrow> scratch" where
  "ensure n s = (if s_cap s < n then \<lparr>s_len = n, s_cap = n\<rparr> else s)"

definition NewCompressedKVCache :: "int \<Rightarrow> int \<Rightarrow> int \<Rightarrow> 'f tq_state option \<Rightarrow> bool \<Rightarrow> 'f kv_cache" where
  "NewCompressedKVCache kvDim0 numKVHeads0 headDim0 t prot =
     (let kvD = (if kvDim0 < 0 then 0 else kvDim0);
          heads = (if numKVHeads0 < 0 then 0 else numKVHeads0);
          hdim = (if headDim0 < 0 then 0 else headDim0);
          (headWidth, validHeads) = MulInt heads hdim;
          bad = (heads = 0 \<or> hdim = 0 \<or> \<not> validHeads \<or> headWidth \<noteq> kvD);
          rw0 = (case t of None \<Rightarrow> 128 | Some s \<Rightarrow> ResidualWindow (tqConfig s));
          rw = (if rw0 < 0 then 0 else rw0)
      in \<lparr>FullK = [], FullV = [], CompressedK = [], CompressedV = [], scratchK = no_scratch, scratchV = no_scratch,
           quantRotated = no_scratch, quantIndices = no_scratch, dequantRotated = no_scratch, dequantIndices = no_scratch,
           kvDim = kvD, numKVHeads = (if bad then 0 else heads), headDim = (if bad then 0 else hdim), tq = t,
           isProtected = prot, residualWindow = rw, seqLen = 0\<rparr>)"

section \<open>Checks\<close>

definition storageConsistent :: "'f kv_cache \<Rightarrow> bool" where
  "storageConsistent c \<longleftrightarrow> \<not> (kvDim c \<le> 0 \<or> seqLen c < 0 \<or> length (FullK c) \<noteq> length (FullV c) \<or>
       length (CompressedK c) \<noteq> length (CompressedV c) \<or> go_rem (int (length (FullK c))) (kvDim c) \<noteq> 0) \<and>
     (let (tot, ok) = AddInt (int (length (CompressedK c))) (go_quot (int (length (FullK c))) (kvDim c))
      in ok \<and> tot = seqLen c)"

definition headGeometryValid :: "'f kv_cache \<Rightarrow> bool" where
  "headGeometryValid c \<longleftrightarrow> \<not> (numKVHeads c \<le> 0 \<or> headDim c \<le> 0) \<and>
     (let (width, ok) = MulInt (numKVHeads c) (headDim c) in ok \<and> width = kvDim c)"

definition compressedBytesPerHead :: "int \<Rightarrow> int \<Rightarrow> int \<times> bool" where
  "compressedBytesPerHead hdim bits =
     (if hdim \<le> 0 \<or> bits \<le> 0 then (0, False)
      else case MulInt hdim bits of (payloadBits, ok) \<Rightarrow> if \<not> ok then (0, False)
        else case AddInt payloadBits 7 of (withPadding, ok2) \<Rightarrow> if \<not> ok2 then (0, False)
          else (go_quot withPadding 8, True))"

definition compressedEntryValid :: "'f kv_entry \<Rightarrow> int \<Rightarrow> int \<Rightarrow> bool" where
  "compressedEntryValid entry heads bytesPerHead \<longleftrightarrow> \<not> (heads \<le> 0 \<or> bytesPerHead \<le> 0) \<and>
     (let (packedLen, ok) = MulInt heads bytesPerHead
      in ok \<and> int (length (Packed entry)) \<ge> packedLen \<and> int (length (HeadVMin entry)) \<ge> heads \<and>
         int (length (HeadScale entry)) \<ge> heads)"

section \<open>Compressing\<close>

definition slice :: "nat \<Rightarrow> nat \<Rightarrow> 'a list \<Rightarrow> 'a list" where
  "slice lo hi xs = take (hi - lo) (drop lo xs)"

text \<open>The loop over the heads from \<open>h\<close> on, \<open>n\<close> to go: both entries, or \<open>None\<close> when a head fails.\<close>

fun compress_heads ::
  "'f qops \<Rightarrow> 'f simd \<Rightarrow> 'f kv_cache \<Rightarrow> nat \<Rightarrow> nat \<Rightarrow> 'f list \<Rightarrow> 'f list \<Rightarrow> nat \<Rightarrow> nat \<Rightarrow> 'f kv_entry \<times> 'f kv_entry \<Rightarrow>
     ('f kv_entry \<times> 'f kv_entry) option" where
  "compress_heads ops hw c bk bv kVec vVec h 0 acc = Some acc"
| "compress_heads ops hw c bk bv kVec vVec h (Suc n) (ek, ev) =
     (let hdim = nat (headDim c); headK = slice (h * hdim) ((h + 1) * hdim) kVec; headV = slice (h * hdim) ((h + 1) * hdim) vVec in
      case (QuantizeKeyTo ops hw (tq c) (replicate bk 0) headK hdim hdim, QuantizeValueTo ops hw (tq c) (replicate bv 0) headV hdim hdim) of
        (Some (pk, vMinK, scaleK), Some (pv, vMinV, scaleV)) \<Rightarrow>
          compress_heads ops hw c bk bv kVec vVec (Suc h) n
            (\<lparr>Packed = Packed ek @ pk, HeadVMin = HeadVMin ek @ [vMinK], HeadScale = HeadScale ek @ [scaleK]\<rparr>,
             \<lparr>Packed = Packed ev @ pv, HeadVMin = HeadVMin ev @ [vMinV], HeadScale = HeadScale ev @ [scaleV]\<rparr>)
      | _ \<Rightarrow> None)"

definition no_entry :: "'f kv_entry" where
  "no_entry = \<lparr>Packed = [], HeadVMin = [], HeadScale = []\<rparr>"

definition compressOldest :: "'f qops \<Rightarrow> 'f simd \<Rightarrow> 'f kv_cache \<Rightarrow> 'f kv_cache" where
  "compressOldest ops hw c =
     (case tq c of None \<Rightarrow> c | Some t \<Rightarrow>
      if \<not> storageConsistent c \<or> \<not> headGeometryValid c then c
      else if go_quot (int (length (FullK c))) (kvDim c) \<le> residualWindow c then c
      else let d = nat (kvDim c); kVec = take d (FullK c); vVec = take d (FullV c);
               (bytesPerKeyHead, okKBytes) = compressedBytesPerHead (headDim c) (KeyBits (tqConfig t));
               (bytesPerValueHead, okVBytes) = compressedBytesPerHead (headDim c) (ValueBits (tqConfig t)) in
        if \<not> okKBytes \<or> \<not> okVBytes then c
        else if \<not> snd (MulInt (numKVHeads c) bytesPerKeyHead) \<or> \<not> snd (MulInt (numKVHeads c) bytesPerValueHead) then c
        else let c1 = c\<lparr>quantRotated := ensure (nat (headDim c)) (quantRotated c),
                        quantIndices := ensure (nat (headDim c)) (quantIndices c)\<rparr> in
          case compress_heads ops hw c (nat bytesPerKeyHead) (nat bytesPerValueHead) kVec vVec 0 (nat (numKVHeads c)) (no_entry, no_entry) of
            None \<Rightarrow> c1
          | Some (ek, ev) \<Rightarrow> c1\<lparr>CompressedK := CompressedK c @ [ek], CompressedV := CompressedV c @ [ev],
              FullK := drop d (FullK c), FullV := drop d (FullV c)\<rparr>)"

definition kv_Append :: "'f qops \<Rightarrow> 'f simd \<Rightarrow> 'f kv_cache option \<Rightarrow> 'f list \<Rightarrow> 'f list \<Rightarrow> 'f kv_cache option" where
  "kv_Append ops hw co k v = (case co of None \<Rightarrow> None | Some c \<Rightarrow>
     if kvDim c \<le> 0 \<or> int (length k) \<noteq> kvDim c \<or> int (length v) \<noteq> kvDim c then Some c
     else if \<not> storageConsistent c then Some c
     else case AddInt (seqLen c) 1 of (next_len, ok) \<Rightarrow>
       if \<not> ok then Some c
       else let c1 = c\<lparr>FullK := FullK c @ k, FullV := FullV c @ v, seqLen := next_len\<rparr> in
         Some (if tq c1 \<noteq> None \<and> \<not> isProtected c1 \<and> seqLen c1 > residualWindow c1 then compressOldest ops hw c1 else c1))"

section \<open>Reading\<close>

fun dequant_heads :: "(8 word list \<Rightarrow> 'f \<Rightarrow> 'f \<Rightarrow> 'f list option) \<Rightarrow> nat \<Rightarrow> 'f kv_entry \<Rightarrow> nat \<Rightarrow> nat \<Rightarrow> 'f list option" where
  "dequant_heads deq b entry h 0 = Some []"
| "dequant_heads deq b entry h (Suc n) =
     (case deq (slice (h * b) ((h + 1) * b) (Packed entry)) (HeadVMin entry ! h) (HeadScale entry ! h) of
        None \<Rightarrow> None | Some xs \<Rightarrow> map_option ((@) xs) (dequant_heads deq b entry (Suc h) n))"

fun dequant_entries :: "(8 word list \<Rightarrow> 'f \<Rightarrow> 'f \<Rightarrow> 'f list option) \<Rightarrow> int \<Rightarrow> int \<Rightarrow> 'f kv_entry list \<Rightarrow> 'f list option" where
  "dequant_entries deq heads b [] = Some []"
| "dequant_entries deq heads b (entry # rest) =
     (if \<not> compressedEntryValid entry heads b then None
      else case dequant_heads deq (nat b) entry 0 (nat heads) of None \<Rightarrow> None
        | Some xs \<Rightarrow> map_option ((@) xs) (dequant_entries deq heads b rest))"

text \<open>What \<open>GetK\<close> and \<open>GetV\<close> share: the rows, and the scratch slice of that side, then the rotation
  and index scratch. When a check or a head fails the full rows are returned.\<close>

definition get_rows ::
  "(8 word list \<Rightarrow> 'f \<Rightarrow> 'f \<Rightarrow> 'f list option) \<Rightarrow> int \<Rightarrow> 'f kv_cache \<Rightarrow> 'f kv_entry list \<Rightarrow> 'f list \<Rightarrow> scratch \<Rightarrow>
     'f list \<times> scratch \<times> scratch \<times> scratch" where
  "get_rows deq bits c compressed full s =
     (let same = (full, s, dequantRotated c, dequantIndices c) in
      if compressed = [] then
        (if seqLen c > 0 then (case MulInt (seqLen c) (kvDim c) of (need, ok) \<Rightarrow>
           if ok \<and> int (length full) > need then (take (nat need) full, s, dequantRotated c, dequantIndices c) else same)
         else same)
      else if tq c = None \<or> \<not> storageConsistent c \<or> \<not> headGeometryValid c then same
      else case MulInt (seqLen c) (kvDim c) of (need, ok) \<Rightarrow>
        if \<not> ok then same
        else let s1 = ensure (nat need) s in
          case compressedBytesPerHead (headDim c) bits of (bytesPerHead, ok2) \<Rightarrow>
            if \<not> ok2 then (full, s1, dequantRotated c, dequantIndices c)
            else let r1 = ensure (nat (headDim c)) (dequantRotated c); i1 = ensure (nat (headDim c)) (dequantIndices c) in
              case dequant_entries deq (numKVHeads c) bytesPerHead compressed of
                None \<Rightarrow> (full, s1, r1, i1)
              | Some old \<Rightarrow> (take (nat need) (old @ full), s1\<lparr>s_len := nat need\<rparr>, r1, i1))"

definition key_bits :: "'f kv_cache \<Rightarrow> int" where
  "key_bits c = (case tq c of None \<Rightarrow> 0 | Some t \<Rightarrow> KeyBits (tqConfig t))"

definition value_bits :: "'f kv_cache \<Rightarrow> int" where
  "value_bits c = (case tq c of None \<Rightarrow> 0 | Some t \<Rightarrow> ValueBits (tqConfig t))"

definition deq_key :: "'f qops \<Rightarrow> 'f simd \<Rightarrow> 'f kv_cache \<Rightarrow> 8 word list \<Rightarrow> 'f \<Rightarrow> 'f \<Rightarrow> 'f list option" where
  "deq_key ops hw c packed vMin scale = DequantizeKeyWithScratchTo ops hw (tq c) (nat (headDim c)) packed vMin scale
     (headDim c) (nat (headDim c)) (nat (headDim c))"

definition deq_value :: "'f qops \<Rightarrow> 'f simd \<Rightarrow> 'f kv_cache \<Rightarrow> 8 word list \<Rightarrow> 'f \<Rightarrow> 'f \<Rightarrow> 'f list option" where
  "deq_value ops hw c packed vMin scale = DequantizeValueWithScratchTo ops hw (tq c) (nat (headDim c)) packed vMin scale
     (headDim c) (nat (headDim c)) (nat (headDim c))"

definition GetK :: "'f qops \<Rightarrow> 'f simd \<Rightarrow> 'f kv_cache option \<Rightarrow> 'f list \<times> 'f kv_cache option" where
  "GetK ops hw co = (case co of None \<Rightarrow> ([], None) | Some c \<Rightarrow>
     if kvDim c \<le> 0 then ([], Some c)
     else case get_rows (deq_key ops hw c) (key_bits c) c (CompressedK c) (FullK c) (scratchK c) of (rows, s, r, i) \<Rightarrow>
       (rows, Some (c\<lparr>scratchK := s, dequantRotated := r, dequantIndices := i\<rparr>)))"

definition GetV :: "'f qops \<Rightarrow> 'f simd \<Rightarrow> 'f kv_cache option \<Rightarrow> 'f list \<times> 'f kv_cache option" where
  "GetV ops hw co = (case co of None \<Rightarrow> ([], None) | Some c \<Rightarrow>
     if kvDim c \<le> 0 then ([], Some c)
     else case get_rows (deq_value ops hw c) (value_bits c) c (CompressedV c) (FullV c) (scratchV c) of (rows, s, r, i) \<Rightarrow>
       (rows, Some (c\<lparr>scratchV := s, dequantRotated := r, dequantIndices := i\<rparr>)))"

definition kv_SeqLen :: "'f kv_cache option \<Rightarrow> int" where
  "kv_SeqLen co = (case co of None \<Rightarrow> 0 | Some c \<Rightarrow> seqLen c)"

definition CompressedCount :: "'f kv_cache option \<Rightarrow> int" where
  "CompressedCount co = (case co of None \<Rightarrow> 0 | Some c \<Rightarrow> int (length (CompressedK c)))"

definition FullCount :: "'f kv_cache option \<Rightarrow> int" where
  "FullCount co = (case co of None \<Rightarrow> 0 | Some c \<Rightarrow> if kvDim c \<le> 0 then 0 else go_quot (int (length (FullK c))) (kvDim c))"

definition kv_Reset :: "'f kv_cache option \<Rightarrow> 'f kv_cache option" where
  "kv_Reset co = map_option (\<lambda>c. c\<lparr>FullK := [], FullV := [], CompressedK := [], CompressedV := [],
     scratchK := (scratchK c)\<lparr>s_len := 0\<rparr>, scratchV := (scratchV c)\<lparr>s_len := 0\<rparr>, seqLen := 0\<rparr>) co"

section \<open>Accounting\<close>

fun add_ints :: "int \<Rightarrow> int list \<Rightarrow> int option" where
  "add_ints acc [] = Some acc"
| "add_ints acc (n # ns) = (case AddInt acc n of (s, ok) \<Rightarrow> if ok then add_ints s ns else None)"

definition ScratchBytes :: "'f kv_cache option \<Rightarrow> int" where
  "ScratchBytes co = (case co of None \<Rightarrow> 0 | Some c \<Rightarrow>
     (case add_ints 0 (map (int \<circ> s_len) [scratchK c, scratchV c, quantRotated c, dequantRotated c]) of
        None \<Rightarrow> MaxInt64
      | Some floatElems \<Rightarrow> (case AddInt (int (s_len (quantIndices c))) (int (s_len (dequantIndices c))) of (byteElems, ok) \<Rightarrow>
          if \<not> ok then MaxInt64
          else SaturatingAddInt64 (SaturatingMulInt64 floatElems 4) byteElems)))"

definition entryBytes :: "'f kv_entry \<Rightarrow> int" where
  "entryBytes e = (case AddInt (int (length (HeadVMin e))) (int (length (HeadScale e))) of (headElems, ok) \<Rightarrow>
     if \<not> ok then MaxInt64 else SaturatingAddInt64 (int (length (Packed e))) (SaturatingMulInt64 headElems 4))"

definition MemoryBytes :: "'f kv_cache option \<Rightarrow> int" where
  "MemoryBytes co = (case co of None \<Rightarrow> 0 | Some c \<Rightarrow>
     (case AddInt (int (length (FullK c))) (int (length (FullV c))) of (fullElems, ok) \<Rightarrow>
        if \<not> ok then MaxInt64
        else SaturatingAddInt64 (SaturatingMulInt64 fullElems 4)
          (fold (\<lambda>e compressed. SaturatingAddInt64 compressed (entryBytes e)) (CompressedK c @ CompressedV c) 0)))"

definition TotalMemoryBytes :: "'f kv_cache option \<Rightarrow> int" where
  "TotalMemoryBytes co = SaturatingAddInt64 (MemoryBytes co) (ScratchBytes co)"

definition kv_Stats :: "'f kv_cache option \<Rightarrow> kv_stats" where
  "kv_Stats co = (case co of
     None \<Rightarrow> \<lparr>st_SeqLen = 0, st_CompressedCount = 0, st_FullCount = 0, st_StoredBytes = 0, st_ScratchBytes = 0, st_TotalBytes = 0\<rparr>
   | Some _ \<Rightarrow> let stored = MemoryBytes co; scratch = ScratchBytes co in
       \<lparr>st_SeqLen = kv_SeqLen co, st_CompressedCount = CompressedCount co, st_FullCount = FullCount co,
        st_StoredBytes = stored, st_ScratchBytes = scratch, st_TotalBytes = SaturatingAddInt64 stored scratch\<rparr>)"

definition aggregate_one :: "'f kv_cache option \<Rightarrow> kv_aggregate \<Rightarrow> kv_aggregate" where
  "aggregate_one co out = (if co = None then out else let st = kv_Stats co in
     \<lparr>ag_Layers = ag_Layers out + 1,
      ag_SeqLen = (if st_SeqLen st > ag_SeqLen out then st_SeqLen st else ag_SeqLen out),
      ag_CompressedCount = wrap64 (ag_CompressedCount out + st_CompressedCount st),
      ag_FullCount = wrap64 (ag_FullCount out + st_FullCount st),
      ag_StoredBytes = SaturatingAddInt64 (ag_StoredBytes out) (st_StoredBytes st),
      ag_ScratchBytes = SaturatingAddInt64 (ag_ScratchBytes out) (st_ScratchBytes st),
      ag_TotalBytes = SaturatingAddInt64 (ag_TotalBytes out) (st_TotalBytes st)\<rparr>)"

definition AggregateCompressedKVCacheStats :: "'f kv_cache option list \<Rightarrow> kv_aggregate" where
  "AggregateCompressedKVCacheStats caches = fold aggregate_one caches
     \<lparr>ag_Layers = 0, ag_SeqLen = 0, ag_CompressedCount = 0, ag_FullCount = 0, ag_StoredBytes = 0, ag_ScratchBytes = 0, ag_TotalBytes = 0\<rparr>"

end
