(* ===== verification/KvEstimate.thy ===== *)
theory KvEstimate
  imports KvCache GoText
begin

text \<open>
  \<open>runtime/kv/estimate.go\<close> and \<open>runtime/kv/policy.go\<close>: how many bytes the caches of a model will
  take, and the names of cache types. The estimate multiplies and adds in plain 64-bit
  arithmetic, so every operation wraps. \<open>usesLayer\<close> is an optional callback.
\<close>

section \<open>Estimates\<close>

definition bytesPerVec :: "int \<Rightarrow> int \<Rightarrow> int \<Rightarrow> int" where
  "bytesPerVec kvHeads hdim bits =
     (if bits \<le> 0 then wrap64 (hdim * 4)
      else let packed = go_quot (wrap64 (wrap64 (hdim * bits) + 7)) 8 in wrap64 (kvHeads * wrap64 (packed + 8)))"

definition rows_bytes :: "int \<Rightarrow> int \<Rightarrow> int" where
  "rows_bytes tokens kvD = wrap64 (wrap64 (wrap64 (tokens * kvD) * 2) * 4)"

definition layerUsesKV :: "(int \<Rightarrow> bool) option \<Rightarrow> int \<Rightarrow> bool" where
  "layerUsesKV usesLayer i \<longleftrightarrow> (case usesLayer of None \<Rightarrow> True | Some f \<Rightarrow> f i)"

text \<open>The two loops over the layers: the full bytes and the number of layers with a cache, then the
  estimated bytes and the number of protected layers.\<close>

definition full_step :: "(int \<Rightarrow> bool) option \<Rightarrow> int \<Rightarrow> nat \<Rightarrow> int \<times> int \<Rightarrow> int \<times> int" where
  "full_step usesLayer fullPerLayer i acc = (case acc of (kvLayers, fullBytes) \<Rightarrow>
     if layerUsesKV usesLayer (int i) then (kvLayers + 1, wrap64 (fullBytes + fullPerLayer)) else (kvLayers, fullBytes))"

definition estimate_step ::
  "(int \<Rightarrow> bool) option \<Rightarrow> 'f tq_state \<Rightarrow> int \<Rightarrow> int \<Rightarrow> nat \<Rightarrow> int \<times> int \<Rightarrow> int \<times> int" where
  "estimate_step usesLayer t fullPerLayer perLayer i acc = (case acc of (protectedLayers, estimatedBytes) \<Rightarrow>
     if \<not> layerUsesKV usesLayer (int i) then (protectedLayers, estimatedBytes)
     else if IsProtectedLayer (Some t) (int i) then (protectedLayers + 1, wrap64 (estimatedBytes + fullPerLayer))
     else (protectedLayers, wrap64 (estimatedBytes + perLayer)))"

definition clamp_residual :: "int \<Rightarrow> int \<Rightarrow> int" where
  "clamp_residual residual sl = (let r = (if residual < 0 then 0 else residual) in if r > sl then sl else r)"

definition estimateTurboQuantKVBytesDetailed ::
  "'f qops \<Rightarrow> (nat \<Rightarrow> 'f) \<Rightarrow> int \<Rightarrow> int \<Rightarrow> int \<Rightarrow> int \<Rightarrow> tq_config \<Rightarrow> bool \<Rightarrow> (int \<Rightarrow> bool) option \<Rightarrow> int \<times> int \<times> int \<times> int" where
  "estimateTurboQuantKVBytesDetailed ops gauss layers kvHeads hdim sl cfg enabled usesLayer =
     (if layers \<le> 0 \<or> kvHeads \<le> 0 \<or> hdim \<le> 0 \<or> sl \<le> 0 then (0, 0, 0, 0)
      else let kvD = wrap64 (kvHeads * hdim);
               fullPerLayer = rows_bytes sl kvD;
               (kvLayers, fullBytes) = fold (full_step usesLayer fullPerLayer) [0..<nat layers] (0, 0) in
        if \<not> enabled then (fullBytes, fullBytes, kvLayers, 0)
        else let residual = clamp_residual (ResidualWindow cfg) sl;
                 compressedTokens = wrap64 (sl - residual);
                 compressedPerToken = wrap64 (bytesPerVec kvHeads hdim (KeyBits cfg) + bytesPerVec kvHeads hdim (ValueBits cfg));
                 t = NewTurboQuantState ops gauss hdim layers cfg;
                 perLayer = wrap64 (rows_bytes residual kvD + wrap64 (compressedTokens * compressedPerToken));
                 (protectedLayers, estimatedBytes) = fold (estimate_step usesLayer t fullPerLayer perLayer) [0..<nat layers] (0, 0)
          in (fullBytes, estimatedBytes, kvLayers, protectedLayers))"

definition EstimateTurboQuantKVBytes ::
  "'f qops \<Rightarrow> (nat \<Rightarrow> 'f) \<Rightarrow> int \<Rightarrow> int \<Rightarrow> int \<Rightarrow> int \<Rightarrow> tq_config \<Rightarrow> bool \<Rightarrow> (int \<Rightarrow> bool) option \<Rightarrow> int \<times> int" where
  "EstimateTurboQuantKVBytes ops gauss layers kvHeads hdim sl cfg enabled usesLayer =
     (case estimateTurboQuantKVBytesDetailed ops gauss layers kvHeads hdim sl cfg enabled usesLayer of
        (fullBytes, estimatedBytes, _, _) \<Rightarrow> (fullBytes, estimatedBytes))"

definition EstimateTurboQuantScratchBytes :: "int \<Rightarrow> int \<Rightarrow> int \<Rightarrow> int \<Rightarrow> bool \<Rightarrow> int" where
  "EstimateTurboQuantScratchBytes cacheLayers kvHeads hdim sl enabled =
     (if \<not> enabled \<or> cacheLayers \<le> 0 \<or> kvHeads \<le> 0 \<or> hdim \<le> 0 \<or> sl \<le> 0 then 0
      else let kvD = wrap64 (kvHeads * hdim);
               perLayer1 = SaturatingAddInt64 (wrap64 (hdim * 4)) hdim;
               perLayer2 = SaturatingAddInt64 perLayer1 (wrap64 (hdim * 4));
               perLayer3 = SaturatingAddInt64 perLayer2 hdim
        in SaturatingMulInt64 cacheLayers (SaturatingAddInt64 perLayer3 (rows_bytes sl kvD)))"

definition TurboQuantKVByteSavings :: "('f, 'm) fops_scheme \<Rightarrow> int \<Rightarrow> int \<Rightarrow> int \<times> 'f" where
  "TurboQuantKVByteSavings ops fullBytes estimatedBytes =
     (if fullBytes \<le> 0 then (0, f_zero ops)
      else let saved = wrap64 (fullBytes - estimatedBytes)
        in (if saved < 0 then 0 else saved, f_div ops (f_of_int ops estimatedBytes) (f_of_int ops fullBytes)))"

record 'f kv_estimate =
  FullBytes :: int
  EstimatedBytes :: int
  SavedBytes :: int
  Ratio :: 'f
  KVLayers :: int
  es_ProtectedLayers :: int
  EstimatedScratchBytes :: int
  EstimatedTotalBytes :: int

definition EstimateTurboQuantKV ::
  "'f qops \<Rightarrow> (nat \<Rightarrow> 'f) \<Rightarrow> int \<Rightarrow> int \<Rightarrow> int \<Rightarrow> int \<Rightarrow> tq_config \<Rightarrow> bool \<Rightarrow> (int \<Rightarrow> bool) option \<Rightarrow> 'f kv_estimate" where
  "EstimateTurboQuantKV ops gauss layers kvHeads hdim sl cfg enabled usesLayer =
     (case estimateTurboQuantKVBytesDetailed ops gauss layers kvHeads hdim sl cfg enabled usesLayer of
        (full, estimated, kvLayers, prot) \<Rightarrow>
          let (saved, ratio) = TurboQuantKVByteSavings ops full estimated;
              scratch = EstimateTurboQuantScratchBytes (kvLayers - prot) kvHeads hdim sl enabled
          in \<lparr>FullBytes = full, EstimatedBytes = estimated, SavedBytes = saved, Ratio = ratio, KVLayers = kvLayers,
              es_ProtectedLayers = prot, EstimatedScratchBytes = scratch,
              EstimatedTotalBytes = SaturatingAddInt64 estimated scratch\<rparr>)"

section \<open>Cache types\<close>

text \<open>The name is trimmed and lowered first; \<open>lower\<close> is the Unicode table of \<open>strings.ToLower\<close>.\<close>

definition ParseCacheTypeBits :: "(nat \<Rightarrow> nat) \<Rightarrow> string \<Rightarrow> go_error + int \<times> bool" where
  "ParseCacheTypeBits lower name =
     (let n = ToLower lower (TrimSpace name) in
      if n \<in> {'''', ''f16'', ''bf16'', ''f32'', ''none'', ''full''} then Inr (0, False)
      else if n \<in> {''turbo2'', ''q2_k'', ''q2_0''} then Inr (2, True)
      else if n \<in> {''turbo3'', ''q3_k'', ''q3_0''} then Inr (3, True)
      else if n \<in> {''turbo4'', ''q4_k'', ''q4_0'', ''q4_1''} then Inr (4, True)
      else if n \<in> {''q5_k'', ''q5_0'', ''q5_1''} then Inr (5, True)
      else if n \<in> {''q6_k''} then Inr (6, True)
      else if n \<in> {''q8_0'', ''q8_1'', ''q8''} then Inr (8, True)
      else Inl (Errorf ''unsupported KV cache type %q'' [AS name]))"

text \<open>The configuration is returned beside the error too, as in the code.\<close>

definition TurboQuantConfigFromCacheTypes :: "(nat \<Rightarrow> nat) \<Rightarrow> string \<Rightarrow> string \<Rightarrow> int \<Rightarrow> tq_config \<times> (go_error + bool)" where
  "TurboQuantConfigFromCacheTypes lower keyType valueType rw =
     (let cfg = DefaultTurboQuantConfig;
          cfg1 = (if rw \<ge> 0 then cfg\<lparr>ResidualWindow := rw\<rparr> else cfg) in
      case ParseCacheTypeBits lower keyType of Inl e \<Rightarrow> (cfg1, Inl e)
      | Inr (kBits, kEnabled) \<Rightarrow>
          (case ParseCacheTypeBits lower valueType of Inl e \<Rightarrow> (cfg1, Inl e)
           | Inr (vBits, vEnabled) \<Rightarrow>
               let cfg2 = (if kEnabled then cfg1\<lparr>KeyBits := kBits\<rparr> else cfg1);
                   cfg3 = (if vEnabled then cfg2\<lparr>ValueBits := vBits\<rparr> else cfg2)
               in (cfg3, Inr (kEnabled \<or> vEnabled))))"

end
