(* ===== verification/KvStaging.thy ===== *)
theory KvStaging
  imports KvCache
begin

text \<open>
  \<open>runtime/kv/staging.go\<close>: checkpoints of the caches, taken before a verifier stages candidate
  rows, and what rolls back to them or keeps an accepted prefix. A call that can fail returns
  its error beside the caches, since it may have changed some of them before it failed.
\<close>

section \<open>Plain caches, one list of rows per layer\<close>

record float_checkpoint =
  KLen :: "int list"
  VLen :: "int list"

definition CheckpointFloatKV :: "'f list list \<Rightarrow> 'f list list \<Rightarrow> float_checkpoint" where
  "CheckpointFloatKV kvCacheK kvCacheV =
     \<lparr>KLen = map (int \<circ> length) kvCacheK, VLen = map (int \<circ> length) kvCacheV\<rparr>"

definition kvDimAt :: "int list \<Rightarrow> nat \<Rightarrow> int" where
  "kvDimAt kvDims i = (if i < length kvDims then kvDims ! i else 0)"

definition checkedAppendTarget :: "int \<Rightarrow> int \<Rightarrow> int \<Rightarrow> int \<times> bool" where
  "checkedAppendTarget base keepTokens dm =
     (if base < 0 \<or> keepTokens < 0 \<or> dm < 0 then (0, False)
      else if dm \<noteq> 0 \<and> keepTokens > go_quot max_int64 dm then (0, False)
      else let added = wrap64 (keepTokens * dm) in
        if base > wrap64 (max_int64 - added) then (0, False) else (wrap64 (base + added), True))"

text \<open>The loop over the recorded lengths of one side, from layer \<open>i\<close> on.\<close>

fun keep_side :: "string \<Rightarrow> int list \<Rightarrow> int list \<Rightarrow> int \<Rightarrow> nat \<Rightarrow> 'f list list \<Rightarrow> (go_error + unit) \<times> 'f list list" where
  "keep_side side [] kvDims keepTokens i caches = (Inr (), caches)"
| "keep_side side (n # ns) kvDims keepTokens i caches =
     (if i \<ge> length caches then keep_side side ns kvDims keepTokens (Suc i) caches
      else let dm = kvDimAt kvDims i in
        if dm < 0 then (Inl (Errorf ''layer %d %s kvDim=%d must be >= 0'' [AN (int i), AS side, AN dm]), caches)
        else case checkedAppendTarget n keepTokens dm of (target, ok) \<Rightarrow>
          if \<not> ok \<or> target > int (length (caches ! i))
          then (Inl (Errorf ''layer %d %s target len=%d exceeds current len=%d''
                  [AN (int i), AS side, AN target, AN (int (length (caches ! i)))]), caches)
          else keep_side side ns kvDims keepTokens (Suc i) (caches[i := take (nat target) (caches ! i)]))"

definition float_KeepAppended ::
  "float_checkpoint \<Rightarrow> 'f list list \<Rightarrow> 'f list list \<Rightarrow> int list \<Rightarrow> int \<Rightarrow> (go_error + unit) \<times> 'f list list \<times> 'f list list" where
  "float_KeepAppended cp kvCacheK kvCacheV kvDims keepTokens =
     (if keepTokens < 0 then (Inl (Errorf ''keepTokens=%d must be >= 0'' [AN keepTokens]), kvCacheK, kvCacheV)
      else case keep_side ''K'' (KLen cp) kvDims keepTokens 0 kvCacheK of
        (Inl e, k) \<Rightarrow> (Inl e, k, kvCacheV)
      | (Inr _, k) \<Rightarrow> (case keep_side ''V'' (VLen cp) kvDims keepTokens 0 kvCacheV of (r, v) \<Rightarrow> (r, k, v)))"

definition float_Restore ::
  "float_checkpoint \<Rightarrow> 'f list list \<Rightarrow> 'f list list \<Rightarrow> (go_error + unit) \<times> 'f list list \<times> 'f list list" where
  "float_Restore cp kvCacheK kvCacheV = float_KeepAppended cp kvCacheK kvCacheV [] 0"

section \<open>Compressed caches\<close>

record 'f kv_checkpoint =
  cp_valid :: bool
  cp_fullK :: "'f list"
  cp_fullV :: "'f list"
  cp_compressedKLen :: int
  cp_compressedVLen :: int
  cp_seqLen :: int

definition kv_Checkpoint :: "'f kv_cache option \<Rightarrow> 'f kv_checkpoint" where
  "kv_Checkpoint co = (case co of
     None \<Rightarrow> \<lparr>cp_valid = False, cp_fullK = [], cp_fullV = [], cp_compressedKLen = 0, cp_compressedVLen = 0, cp_seqLen = 0\<rparr>
   | Some c \<Rightarrow> \<lparr>cp_valid = True, cp_fullK = FullK c, cp_fullV = FullV c, cp_compressedKLen = int (length (CompressedK c)),
       cp_compressedVLen = int (length (CompressedV c)), cp_seqLen = seqLen c\<rparr>)"

text \<open>The rows to keep: both slices, or the error; the reads refresh the scratch slices.\<close>

definition keep_rows ::
  "'f qops \<Rightarrow> 'f simd \<Rightarrow> 'f kv_cache \<Rightarrow> 'f kv_checkpoint \<Rightarrow> int \<Rightarrow> (go_error + 'f list \<times> 'f list) \<times> 'f kv_cache" where
  "keep_rows ops hw c cp keepTokens =
     (if keepTokens \<le> 0 then (Inr ([], []), c)
      else if kvDim c \<le> 0 then (Inl (Errorf ''compressed KV kvDim=%d must be > 0 when keeping tokens'' [AN (kvDim c)]), c)
      else case GetK ops hw (Some c) of (allK, c1) \<Rightarrow> case GetV ops hw c1 of (allV, c2) \<Rightarrow>
        (case checkedAppendTarget 0 (cp_seqLen cp) (kvDim c) of (start, ok) \<Rightarrow>
           if \<not> ok then Inl (Errorf ''compressed KV keep start overflows'' [])
           else case checkedAppendTarget start keepTokens (kvDim c) of (stop, ok2) \<Rightarrow>
             if \<not> ok2 then Inl (Errorf ''compressed KV keep end overflows'' [])
             else if start > int (length allK) \<or> start > int (length allV) \<or> stop > int (length allK) \<or> stop > int (length allV)
             then Inl (Errorf ''compressed KV keep range [%d:%d] exceeds K/V lengths %d/%d''
                    [AN start, AN stop, AN (int (length allK)), AN (int (length allV))])
             else Inr (slice (nat start) (nat stop) allK, slice (nat start) (nat stop) allV), the c2))"

fun append_rows :: "'f qops \<Rightarrow> 'f simd \<Rightarrow> nat \<Rightarrow> 'f list \<Rightarrow> 'f list \<Rightarrow> nat \<Rightarrow> nat \<Rightarrow> 'f kv_cache \<Rightarrow> 'f kv_cache" where
  "append_rows ops hw d keepK keepV i 0 c = c"
| "append_rows ops hw d keepK keepV i (Suc n) c =
     append_rows ops hw d keepK keepV (Suc i) n
       (the (kv_Append ops hw (Some c) (slice (i * d) (i * d + d) keepK) (slice (i * d) (i * d + d) keepV)))"

definition rollback :: "'f kv_checkpoint \<Rightarrow> 'f kv_cache \<Rightarrow> 'f kv_cache" where
  "rollback cp c = c\<lparr>FullK := cp_fullK cp, FullV := cp_fullV cp,
     CompressedK := take (nat (cp_compressedKLen cp)) (CompressedK c),
     CompressedV := take (nat (cp_compressedVLen cp)) (CompressedV c),
     scratchK := (scratchK c)\<lparr>s_len := 0\<rparr>, scratchV := (scratchV c)\<lparr>s_len := 0\<rparr>, seqLen := cp_seqLen cp\<rparr>"

definition kv_KeepAppended ::
  "'f qops \<Rightarrow> 'f simd \<Rightarrow> 'f kv_cache option \<Rightarrow> 'f kv_checkpoint \<Rightarrow> int \<Rightarrow> (go_error + unit) \<times> 'f kv_cache option" where
  "kv_KeepAppended ops hw co cp keepTokens = (case co of None \<Rightarrow> (Inr (), None) | Some c \<Rightarrow>
     if \<not> cp_valid cp then (Inr (), Some c)
     else if keepTokens < 0 then (Inl (Errorf ''keepTokens=%d must be >= 0'' [AN keepTokens]), Some c)
     else case checkedAppendTarget (cp_seqLen cp) keepTokens 1 of (targetSeq, ok) \<Rightarrow>
       if \<not> ok then (Inl (Errorf ''compressed KV checkpoint+keep overflows'' []), Some c)
       else if seqLen c < targetSeq
       then (Inl (Errorf ''compressed KV seqLen=%d shorter than checkpoint+keep=%d'' [AN (seqLen c), AN targetSeq]), Some c)
       else if cp_compressedKLen cp < 0 \<or> cp_compressedVLen cp < 0
       then (Inl (Errorf ''checkpoint compressed lengths K/V=%d/%d must be >= 0'' [AN (cp_compressedKLen cp), AN (cp_compressedVLen cp)]), Some c)
       else case keep_rows ops hw c cp keepTokens of
         (Inl e, c1) \<Rightarrow> (Inl e, Some c1)
       | (Inr (keepK, keepV), c1) \<Rightarrow>
           if cp_compressedKLen cp > int (length (CompressedK c1)) \<or> cp_compressedVLen cp > int (length (CompressedV c1))
           then (Inl (Errorf ''checkpoint compressed lengths K/V=%d/%d exceed current %d/%d''
                  [AN (cp_compressedKLen cp), AN (cp_compressedVLen cp), AN (int (length (CompressedK c1))), AN (int (length (CompressedV c1)))]), Some c1)
           else (Inr (), Some (append_rows ops hw (nat (kvDim c)) keepK keepV 0 (nat keepTokens) (rollback cp c1))))"

definition kv_Restore :: "'f qops \<Rightarrow> 'f simd \<Rightarrow> 'f kv_cache option \<Rightarrow> 'f kv_checkpoint \<Rightarrow> (go_error + unit) \<times> 'f kv_cache option" where
  "kv_Restore ops hw co cp = kv_KeepAppended ops hw co cp 0"

definition CheckpointCompressedKV :: "'f kv_cache option list \<Rightarrow> 'f kv_checkpoint list" where
  "CheckpointCompressedKV caches = map kv_Checkpoint caches"

fun KeepCompressedKVAppended_from ::
  "'f qops \<Rightarrow> 'f simd \<Rightarrow> nat \<Rightarrow> 'f kv_cache option list \<Rightarrow> 'f kv_checkpoint list \<Rightarrow> int \<Rightarrow> (go_error + unit) \<times> 'f kv_cache option list" where
  "KeepCompressedKVAppended_from ops hw i [] cps keepTokens = (Inr (), [])"
| "KeepCompressedKVAppended_from ops hw i (c # cs) cps keepTokens =
     (if i < length cps then
        (case kv_KeepAppended ops hw c (cps ! i) keepTokens of
           (Inl e, c') \<Rightarrow> (Inl (Wrapf ''layer %d: %w'' [AN (int i)] e), c' # cs)
         | (Inr _, c') \<Rightarrow> (case KeepCompressedKVAppended_from ops hw (Suc i) cs cps keepTokens of (r, cs') \<Rightarrow> (r, c' # cs')))
      else (case KeepCompressedKVAppended_from ops hw (Suc i) cs cps keepTokens of (r, cs') \<Rightarrow> (r, c # cs')))"

definition KeepCompressedKVAppended ::
  "'f qops \<Rightarrow> 'f simd \<Rightarrow> 'f kv_cache option list \<Rightarrow> 'f kv_checkpoint list \<Rightarrow> int \<Rightarrow> (go_error + unit) \<times> 'f kv_cache option list" where
  "KeepCompressedKVAppended ops hw caches cps keepTokens = KeepCompressedKVAppended_from ops hw 0 caches cps keepTokens"

definition RestoreCompressedKV ::
  "'f qops \<Rightarrow> 'f simd \<Rightarrow> 'f kv_cache option list \<Rightarrow> 'f kv_checkpoint list \<Rightarrow> (go_error + unit) \<times> 'f kv_cache option list" where
  "RestoreCompressedKV ops hw caches cps = KeepCompressedKVAppended ops hw caches cps 0"

end
