(* ===== verification/TurboFacts.thy ===== *)
theory TurboFacts
  imports TurboQuant
begin

text \<open>
  Facts about the quantizer: the packed bytes are the concatenation of the low bits of the
  indices, so unpacking gives them back; the shapes of what the calls return; and, in exact
  arithmetic, the distance of a level from the coordinate it stands for.
\<close>

section \<open>Bits of a byte string\<close>

definition bit_at :: "8 word list \<Rightarrow> nat \<Rightarrow> bool" where
  "bit_at dst j \<longleftrightarrow> j div 8 < length dst \<and> bit (dst ! (j div 8)) (j mod 8)"

definition put_bit :: "bool \<Rightarrow> 8 word list \<times> nat \<Rightarrow> 8 word list \<times> nat" where
  "put_bit x st = (case st of (dst, pos) \<Rightarrow>
     (if x then dst[pos div 8 := dst ! (pos div 8) OR push_bit (pos mod 8) 1] else dst, pos + 1))"

definition low_bits :: "nat \<Rightarrow> 8 word \<Rightarrow> bool list" where
  "low_bits n idx = map (bit idx) [0..<n]"

lemma pack_bit_eq: "pack_bit idx b = put_bit (bit idx b)"
  by (simp add: fun_eq_iff pack_bit_def put_bit_def bit_iff_and_push_bit_not_eq_0)

lemma pack_value_eq: "pack_value n idx = fold put_bit (low_bits n idx)"
  unfolding pack_value_def low_bits_def fold_map by (simp add: comp_def pack_bit_eq [abs_def] fun_eq_iff)

lemma pack_values_eq: "fold (pack_value n) indices = fold put_bit (concat (map (low_bits n) indices))"
  by (induction indices) (simp_all add: pack_value_eq)

lemma bit_at_put:
  assumes "p div 8 < length dst"
  shows "bit_at (dst[p div 8 := dst ! (p div 8) OR 2 ^ (p mod 8)]) j \<longleftrightarrow> bit_at dst j \<or> j = p"
proof (cases "j div 8 = p div 8")
  case True
  then have "j = p \<longleftrightarrow> j mod 8 = p mod 8" by (metis div_mult_mod_eq)
  with True assms show ?thesis by (auto simp: bit_at_def bit_or_iff bit_exp_iff)
next
  case False
  then have "j \<noteq> p" by auto
  with False show ?thesis by (simp add: bit_at_def)
qed

lemma put_bits:
  "pos + length xs \<le> 8 * length dst \<Longrightarrow>
     length (fst (fold put_bit xs (dst, pos))) = length dst \<and>
     bit_at (fst (fold put_bit xs (dst, pos))) j =
       (bit_at dst j \<or> pos \<le> j \<and> j < pos + length xs \<and> xs ! (j - pos))"
proof (induction xs arbitrary: dst pos)
  case (Cons x xs)
  let ?d = "if x then dst[pos div 8 := dst ! (pos div 8) OR push_bit (pos mod 8) 1] else dst"
  have "pos div 8 < length dst" using Cons.prems by (simp add: less_mult_imp_div_less)
  then have d: "bit_at ?d j \<longleftrightarrow> bit_at dst j \<or> x \<and> j = pos" by (simp add: bit_at_put)
  have "Suc pos + length xs \<le> 8 * length ?d" using Cons.prems by simp
  note IH = Cons.IH [OF this]
  have step: "fold put_bit (x # xs) (dst, pos) = fold put_bit xs (?d, Suc pos)" by (simp add: put_bit_def)
  have last: "(j = pos \<and> x \<or> Suc pos \<le> j \<and> j < Suc pos + length xs \<and> xs ! (j - Suc pos)) =
      (pos \<le> j \<and> j < pos + length (x # xs) \<and> (x # xs) ! (j - pos))"
  proof (cases "j \<le> pos")
    case True
    then show ?thesis by (cases "j = pos") auto
  next
    case False
    then have "j - pos = Suc (j - Suc pos)" by simp
    then show ?thesis using False by auto
  qed
  show ?case unfolding step using IH d last by auto
qed auto

lemma nth_low_bits: "i < length indices \<Longrightarrow> b < n \<Longrightarrow> concat (map (low_bits n) indices) ! (i * n + b) = bit (indices ! i) b"
proof (induction indices arbitrary: i)
  case (Cons x indices)
  have len: "length (low_bits n x) = n" by (simp add: low_bits_def)
  show ?case
  proof (cases i)
    case 0
    then show ?thesis using Cons.prems by (simp add: nth_append len) (simp add: low_bits_def)
  next
    case (Suc k)
    then show ?thesis using Cons by (simp add: nth_append len)
  qed
qed simp

lemma length_low_bits: "length (concat (map (low_bits n) indices)) = length indices * n"
  by (induction indices) (simp_all add: low_bits_def)

section \<open>Unpacking\<close>

lemma unpack_bit_eq:
  "unpack_bit packed b (v, pos) = (if bit_at packed pos then v OR push_bit b 1 else v, Suc pos)"
  unfolding unpack_bit_def prod.case bit_at_def bit_iff_and_push_bit_not_eq_0 [of "packed ! (pos div 8)"] by simp

lemma unpack_value_spec:
  assumes "n \<le> 8"
  shows "snd (unpack_value packed n pos) = pos + n"
    and "b < 8 \<Longrightarrow> bit (fst (unpack_value packed n pos)) b \<longleftrightarrow> b < n \<and> bit_at packed (pos + b)"
proof -
  have "snd (fold (unpack_bit packed) [0..<k] (0, pos)) = pos + k \<and>
      (\<forall>b < 8. bit (fst (fold (unpack_bit packed) [0..<k] (0, pos))) b \<longleftrightarrow> b < k \<and> bit_at packed (pos + b))"
    if "k \<le> n" for k using that
  proof (induction k)
    case (Suc k)
    obtain v p where vp: "fold (unpack_bit packed) [0..<k] (0, pos) = (v, p)" by fastforce
    with Suc have p: "p = pos + k" and v: "\<forall>b < 8. bit v b \<longleftrightarrow> b < k \<and> bit_at packed (pos + b)" by auto
    have k: "k < 8" using Suc.prems assms by simp
    have step: "fold (unpack_bit packed) [0..<Suc k] (0, pos) =
        (if bit_at packed (pos + k) then v OR push_bit k 1 else v, Suc (pos + k))"
      by (simp only: upt_Suc_append [OF le0] fold_append fold_simps o_apply vp p unpack_bit_eq)
    show ?case unfolding step using k v by (auto simp: bit_or_iff bit_exp_iff less_Suc_eq)
  qed simp
  from this [OF order_refl] show "snd (unpack_value packed n pos) = pos + n"
    and "b < 8 \<Longrightarrow> bit (fst (unpack_value packed n pos)) b \<longleftrightarrow> b < n \<and> bit_at packed (pos + b)"
    by (simp_all add: unpack_value_def)
qed

lemma length_unpack_loop [simp]: "length (unpack_loop packed n k pos) = k"
  by (induction k arbitrary: pos) (simp_all split: prod.split)

lemma nth_unpack_loop:
  "n \<le> 8 \<Longrightarrow> i < k \<Longrightarrow> b < 8 \<Longrightarrow> bit (unpack_loop packed n k pos ! i) b \<longleftrightarrow> b < n \<and> bit_at packed (pos + i * n + b)"
proof (induction k arbitrary: pos i)
  case (Suc k)
  obtain v p where vp: "unpack_value packed n pos = (v, p)" by fastforce
  note U = unpack_value_spec [OF Suc.prems(1), where packed = packed and pos = pos, unfolded vp]
  show ?case
  proof (cases i)
    case 0
    then show ?thesis using U(2) [OF Suc.prems(3)] by (simp add: vp)
  next
    case (Suc l)
    then show ?thesis using Suc.IH [of l p] Suc.prems U(1) by (simp add: vp algebra_simps)
  qed
qed simp

section \<open>Round trip\<close>

lemma clamp_range: "1 \<le> clampBits bits" "clampBits bits \<le> 8"
  by (simp_all add: clampBits_def)

lemma clamp_idem [simp]: "clampBits (clampBits bits) = clampBits bits"
  by (simp add: clampBits_def)

lemma packedByteLen_eq:
  assumes "0 \<le> n" "1 \<le> bits" "bits \<le> 8" "0 \<le> packedByteLen n bits"
  shows "packedByteLen n bits = (n * bits + 7) div 8" "n * bits + 7 \<le> max_int64"
proof -
  have "\<not> n > go_quot (max_int64 - 7) bits" using assms by (auto simp: packedByteLen_def split: if_splits)
  then have "\<not> max_int64 - 7 < n * bits"
    using assms(2) by (simp add: go_quot_nonneg max_int64_def div_less_iff_int)
  moreover have "0 \<le> n * bits" using assms(1,2) by simp
  ultimately have *: "n * bits + 7 \<le> max_int64" and "wrap64 (n * bits) = n * bits" "wrap64 (n * bits + 7) = n * bits + 7"
    by (auto intro!: wrap64_id simp: go_int)
  then show "packedByteLen n bits = (n * bits + 7) div 8" "n * bits + 7 \<le> max_int64"
    using assms \<open>0 \<le> n * bits\<close> \<open>\<not> n > go_quot (max_int64 - 7) bits\<close> by (simp_all add: packedByteLen_def go_quot_nonneg)
qed

lemma pack_room:
  assumes "0 \<le> packedByteLen (int n) (clampBits bits)"
  shows "n * nat (clampBits bits) \<le> 8 * nat (packedByteLen (int n) (clampBits bits))"
proof -
  note P = packedByteLen_eq(1) [OF _ clamp_range assms]
  have "int n * clampBits bits \<le> 8 * packedByteLen (int n) (clampBits bits)" unfolding P [OF of_nat_0_le_iff] by linarith
  then have "nat (int n * clampBits bits) \<le> nat (8 * packedByteLen (int n) (clampBits bits))" by (rule nat_mono)
  then show ?thesis using clamp_range [of bits] by (simp add: nat_mult_distrib)
qed

lemma packIndicesTo_bits:
  assumes "packIndicesTo dst indices bits = Some packed"
  defines "n \<equiv> nat (clampBits bits)"
  shows "length packed = length dst"
    and "i < length indices \<Longrightarrow> b < n \<Longrightarrow> bit_at packed (i * n + b) \<longleftrightarrow> bit (indices ! i) b"
    and "i < length indices \<Longrightarrow> b < n \<Longrightarrow> (i * n + b) div 8 < length packed"
proof -
  let ?l = "packedByteLen (int (length indices)) (clampBits bits)"
  let ?d = "replicate (nat ?l) 0 @ drop (nat ?l) dst"
  from assms(1) have l: "0 \<le> ?l" "nat ?l \<le> length dst"
    and packed: "packed = fst (fold put_bit (concat (map (low_bits n) indices)) (?d, 0))"
    by (auto simp: packIndicesTo_def Let_def pack_values_eq n_def nat_le_iff split: if_splits)
  have len: "length ?d = length dst" using l by simp
  have room: "length indices * n \<le> 8 * nat ?l" unfolding n_def by (rule pack_room [OF l(1)])
  also have "\<dots> \<le> 8 * length dst" using l(2) by simp
  finally have fits: "0 + length (concat (map (low_bits n) indices)) \<le> 8 * length ?d" unfolding len by (simp add: length_low_bits)
  note PB = put_bits [OF fits]
  show "length packed = length dst" using PB len unfolding packed by simp
  then have lp: "nat ?l \<le> length packed" using l(2) by simp
  assume i: "i < length indices" "b < n"
  have lt: "i * n + b < length indices * n"
  proof -
    have "Suc i * n \<le> length indices * n" using i by (intro mult_right_mono) simp_all
    then show ?thesis using i by simp
  qed
  then have byte: "(i * n + b) div 8 < nat ?l" using room by (intro less_mult_imp_div_less) linarith
  have zero: "\<not> bit_at ?d (i * n + b)" using byte by (simp add: bit_at_def nth_append)
  show "bit_at packed (i * n + b) \<longleftrightarrow> bit (indices ! i) b"
    using PB lt zero unfolding packed by (simp add: length_low_bits nth_low_bits [OF i])
  show "(i * n + b) div 8 < length packed" using byte lp by simp
qed

lemma bit_at_append: "j div 8 < length q \<Longrightarrow> bit_at (q @ rest) j = bit_at q j"
  by (simp add: bit_at_def nth_append)

lemma unpack_pack:
  assumes "packIndicesTo dst indices bits = Some packed" "indices \<noteq> []"
  shows "unpackIndicesTo (length indices) (packed @ rest) bits = Some (map (take_bit (nat (clampBits bits))) indices)"
proof -
  let ?n = "nat (clampBits bits)"
  have n: "?n \<le> 8" using clamp_range(2) [of bits] by simp
  have "unpack_loop (packed @ rest) ?n (length indices) 0 = map (take_bit ?n) indices"
  proof (rule nth_equalityI)
    fix i assume "i < length (unpack_loop (packed @ rest) ?n (length indices) 0)"
    then have i: "i < length indices" by simp
    have bits: "bit_at (packed @ rest) (i * ?n + b) \<longleftrightarrow> bit (indices ! i) b" if "b < ?n" for b
      using packIndicesTo_bits(2,3) [OF assms(1) i that] by (simp add: bit_at_append)
    show "unpack_loop (packed @ rest) ?n (length indices) 0 ! i = map (take_bit ?n) indices ! i"
      by (rule bit_word_eqI) (use i bits nth_unpack_loop [OF n i, where pos = 0] in \<open>auto simp: bit_take_bit_iff\<close>)
  qed simp
  then show ?thesis using assms(2) by (simp add: unpackIndicesTo_def)
qed

section \<open>Shapes\<close>

text \<open>What the SIMD product returns when it does not decline: one value for each row.\<close>

definition simd_ok :: "'f simd \<Rightarrow> bool" where
  "simd_ok hw \<longleftrightarrow> (\<forall>vec rot d out. GemvRows hw vec rot d = Some out \<or> GemvCols hw vec rot d = Some out \<longrightarrow> length out = d)"

lemma length_rotateRows: "simd_ok hw \<Longrightarrow> rotateRows ops hw dl vec rot d = Some out \<Longrightarrow> length out = d"
  by (auto simp: rotateRows_def Let_def simd_ok_def split: if_splits option.splits)

lemma length_rotateCols: "simd_ok hw \<Longrightarrow> rotateCols ops hw dl vec rot d = Some out \<Longrightarrow> length out = d"
  by (auto simp: rotateCols_def Let_def simd_ok_def split: if_splits option.splits)

lemma length_dequantize:
  "simd_ok hw \<Longrightarrow> dequantizeVectorWithScratchTo ops hw tq dl packed vMin scale rot bits d rl il = Some out \<Longrightarrow> length out = nat d"
  by (auto simp: dequantizeVectorWithScratchTo_def Let_def split: if_splits option.splits
      dest: length_rotateRows length_rotateCols)

text \<open>The rotated vector the quantizer works on.\<close>

definition rotated_vec :: "'f qops \<Rightarrow> 'f simd \<Rightarrow> 'f list \<Rightarrow> 'f list \<Rightarrow> 'f list" where
  "rotated_vec ops hw vec rotation = (case GemvRows hw vec rotation (length vec) of Some r \<Rightarrow> r
     | None \<Rightarrow> map (dot_row (fops.truncate ops) rotation vec (length vec)) [0..<length vec])"

lemma quantizeVectorTo_cases:
  assumes "quantizeVectorTo ops hw dst vec rotation bits rl il = Some (packed, vMin, scale)"
  defines "r \<equiv> rotated_vec ops hw vec rotation" and "pl \<equiv> nat (packedByteLen (int (length vec)) (clampBits bits))"
  obtains (flat) "f_lt ops (f_sub ops (vec_max (fops.truncate ops) r) vMin) (f_1e10 ops)" "scale = f_zero ops"
      "packed = replicate pl 0 @ drop pl dst" "vMin = vec_min (fops.truncate ops) r" "vec \<noteq> []"
      "0 \<le> packedByteLen (int (length vec)) (clampBits bits)" "pl \<le> length dst"
    | (spread) q where "\<not> f_lt ops scale (f_1e10 ops)" "scale = f_sub ops (vec_max (fops.truncate ops) r) vMin"
      "vMin = vec_min (fops.truncate ops) r" "vec \<noteq> []" "packed = q @ drop pl dst" "pl \<le> length dst"
      "packIndicesTo (take pl dst) (map (quantize_level ops (levels (clampBits bits)) vMin scale) r) (clampBits bits) = Some q"
      "0 \<le> packedByteLen (int (length vec)) (clampBits bits)"
proof -
  let ?pl = "packedByteLen (int (length vec)) (clampBits bits)"
  have guard: "vec \<noteq> []" "0 \<le> squareSize (int (length vec))" "0 \<le> ?pl" "?pl \<le> int (length dst)"
    "squareSize (int (length vec)) \<le> int (length rotation)" "length vec \<le> rl"
    using assms(1) by (auto simp: quantizeVectorTo_def Let_def split: if_splits)
  have rot: "rotateRows (fops.truncate ops) hw rl vec rotation (length vec) = Some r"
    using guard by (simp add: rotateRows_def r_def rotated_vec_def split: option.split)
  have le: "pl \<le> length dst" using guard(3,4) by (simp add: pl_def)
  let ?scale = "f_sub ops (vec_max (fops.truncate ops) r) (vec_min (fops.truncate ops) r)"
  have no: "(length vec = 0 \<or> squareSize (int (length vec)) < 0 \<or> ?pl < 0 \<or> int (length dst) < ?pl \<or>
      int (length rotation) < squareSize (int (length vec)) \<or> rl < length vec \<or> il < length vec) = False"
    using assms(1) by (auto simp: quantizeVectorTo_def Let_def split: if_splits)
  note Q = assms(1) [unfolded quantizeVectorTo_def Let_def rot option.case no if_False pl_def [symmetric]]
  show thesis
  proof (cases "f_lt ops ?scale (f_1e10 ops)")
    case True
    show thesis by (rule flat) (use Q True guard le in simp_all)
  next
    case False
    then obtain q where q: "packIndicesTo (take pl dst)
        (map (quantize_level ops (levels (clampBits bits)) (vec_min (fops.truncate ops) r) ?scale) r) (clampBits bits) = Some q"
      "packed = q @ drop pl dst" "vMin = vec_min (fops.truncate ops) r" "scale = ?scale"
      using Q by (auto split: option.splits)
    show thesis by (rule spread) (use q False guard le in simp_all)
  qed
qed

lemma length_quantize:
  assumes "quantizeVectorTo ops hw dst vec rotation bits rl il = Some (packed, vMin, scale)"
  shows "length packed = length dst"
  using assms
proof (cases rule: quantizeVectorTo_cases)
  case flat
  then show ?thesis by simp
next
  case (spread q)
  then show ?thesis using packIndicesTo_bits(1) [OF spread(7)] by simp
qed

section \<open>The error of a level, in exact arithmetic\<close>

definition trunc :: "real \<Rightarrow> int" where
  "trunc x = (if 0 \<le> x then \<lfloor>x\<rfloor> else \<lceil>x\<rceil>)"

definition real_qops :: "real qops" where
  "real_qops = fops.extend real_ops \<lparr>f_sqrt = sqrt, f_to_int = trunc, f_half = 1 / 2, f_1e10 = 1 / 10000000000\<rparr>"

lemma real_qops_sel [simp]:
  "fops.truncate real_qops = real_ops" "f_to_int real_qops = trunc" "f_half real_qops = 1 / 2"
  "f_1e10 real_qops = 1 / 10000000000" "f_sqrt real_qops = sqrt"
  "f_add real_qops = (+)" "f_sub real_qops = (-)" "f_mul real_qops = (*)" "f_div real_qops = (/)"
  "f_of_int real_qops = of_int" "f_lt real_qops = (<)" "f_zero real_qops = 0" "f_one real_qops = 1"
  by (simp_all add: real_qops_def fops.extend_def fops.truncate_def real_ops_def)

lemma fold_min_le:
  "fold (\<lambda>v m. if v < m then v else m) xs (m :: real) \<le> m \<and>
     (\<forall>x \<in> set xs. fold (\<lambda>v m. if v < m then v else m) xs m \<le> x)"
proof (induction xs arbitrary: m)
  case (Cons x xs)
  show ?case using Cons [of "if x < m then x else m"] by (auto split: if_splits)
qed simp

lemma fold_max_ge:
  "m \<le> fold (\<lambda>v m. if m < v then v else m) xs (m :: real) \<and>
     (\<forall>x \<in> set xs. x \<le> fold (\<lambda>v m. if m < v then v else m) xs m)"
proof (induction xs arbitrary: m)
  case (Cons x xs)
  show ?case using Cons [of "if m < x then x else m"] by (auto split: if_splits)
qed simp

lemma vec_bounds: "x \<in> set xs \<Longrightarrow> vec_min real_ops xs \<le> x \<and> x \<le> vec_max real_ops xs"
  using fold_min_le [of "tl xs" "hd xs"] fold_max_ge [of "hd xs" "tl xs"]
  by (cases xs) (auto simp: vec_min_def vec_max_def)

lemma levels_ge: "2 \<le> levels (clampBits bits)" "levels (clampBits bits) \<le> 256"
proof -
  have "(2::int) ^ 1 \<le> 2 ^ nat (clampBits bits)" using clamp_range [of bits] by (intro power_increasing) simp_all
  then show "2 \<le> levels (clampBits bits)" by (simp add: levels_def)
  have "(2::int) ^ nat (clampBits bits) \<le> 2 ^ 8" using clamp_range [of bits] by (intro power_increasing) simp_all
  then show "levels (clampBits bits) \<le> 256" by (simp add: levels_def)
qed

lemma level_error:
  assumes "2 \<le> n" "n \<le> 256" "0 < scale" "vMin \<le> v" "v \<le> vMin + scale"
  shows "\<bar>level_value real_qops n vMin scale (quantize_level real_qops n vMin scale v) - v\<bar> \<le> scale / (2 * (of_int n - 1))"
    and "uint (quantize_level real_qops n vMin scale v) < n"
proof -
  define x where "x = (v - vMin) / scale * (of_int n - 1)"
  define k where "k = \<lfloor>x + 1 / 2\<rfloor>"
  have u: "0 \<le> (v - vMin) / scale" "(v - vMin) / scale \<le> 1" using assms by (simp_all add: divide_le_eq)
  have n1: "0 < of_int n - (1::real)" using assms(1) by simp
  have x: "0 \<le> x" "x \<le> of_int n - 1"
    using mult_nonneg_nonneg [OF u(1) less_imp_le [OF n1]] mult_right_mono [OF u(2) less_imp_le [OF n1]]
    unfolding x_def by simp_all
  have k: "0 \<le> k" "k < n" using x by (simp_all add: k_def floor_less_iff)
  have q: "quantize_level real_qops n vMin scale v = word_of_int k"
    using k x by (simp add: quantize_level_def Let_def x_def k_def trunc_def)
  have uk: "uint (word_of_int k :: 8 word) = k" using k assms(2) by (simp add: uint_word_of_int)
  show "uint (quantize_level real_qops n vMin scale v) < n" using k by (simp add: q uk)
  have v: "v = vMin + scale * x / (of_int n - 1)" using n1 assms(3) by (simp add: x_def field_simps)
  have "\<bar>of_int k - x\<bar> \<le> 1 / 2" unfolding k_def by linarith
  then have "scale * \<bar>of_int k - x\<bar> / (of_int n - 1) \<le> scale * (1 / 2) / (of_int n - 1)"
    using assms(3) n1 by (intro divide_right_mono mult_left_mono) simp_all
  moreover have "level_value real_qops n vMin scale (quantize_level real_qops n vMin scale v) - v =
      scale * (of_int k - x) / (of_int n - 1)"
    unfolding q level_value_def uk by (subst v) (simp add: diff_divide_distrib algebra_simps)
  ultimately show "\<bar>level_value real_qops n vMin scale (quantize_level real_qops n vMin scale v) - v\<bar> \<le> scale / (2 * (of_int n - 1))"
    using assms(3) n1 by (simp add: abs_mult)
qed

lemma take_bit_level: "uint w < 2 ^ k \<Longrightarrow> take_bit k w = (w :: 8 word)"
  by (rule word_uint_eqI) (simp add: unsigned_take_bit_eq take_bit_int_eq_self)

lemma quantize_error:
  assumes "quantizeVectorTo real_qops hw dst vec rotation bits rl il = Some (packed, vMin, scale)" "simd_ok hw"
    and "unpackIndicesTo (length vec) packed bits = Some indices" "i < length vec"
  shows "\<bar>level_value real_qops (levels (clampBits bits)) vMin scale (indices ! i) - rotated_vec real_qops hw vec rotation ! i\<bar>
    \<le> max (1 / 10000000000) (scale / (2 * (of_int (levels (clampBits bits)) - 1)))"
proof -
  let ?r = "rotated_vec real_qops hw vec rotation" and ?n = "levels (clampBits bits)"
  have len: "length ?r = length vec" using assms(2) by (auto simp: rotated_vec_def simd_ok_def split: option.splits)
  have b: "vec_min real_ops ?r \<le> ?r ! i" "?r ! i \<le> vec_max real_ops ?r"
    using vec_bounds [of "?r ! i" ?r] assms(4) len by simp_all
  from assms(1) show ?thesis
  proof (cases rule: quantizeVectorTo_cases)
    case flat
    then show ?thesis using b by (simp add: level_value_def)
  next
    case (spread q)
    let ?ix = "map (quantize_level real_qops ?n vMin scale) ?r"
    have pos: "0 < scale" using spread(1) by simp
    have v: "vMin \<le> ?r ! i" "?r ! i \<le> vMin + scale" using spread(2,3) b by simp_all
    have ne: "?r \<noteq> []" using len assms(4) by auto
    have ix: "uint (?ix ! i) < ?n" using level_error(2) [OF levels_ge pos v] assms(4) len by simp
    have "indices = map (take_bit (nat (clampBits bits))) ?ix"
      using unpack_pack [OF spread(7), where rest = "drop (nat (packedByteLen (int (length vec)) (clampBits bits))) dst"]
        assms(3,4) spread(4,5) len ne by (auto simp: unpackIndicesTo_def)
    then have "indices ! i = quantize_level real_qops ?n vMin scale (?r ! i)"
      using take_bit_level [OF ix [unfolded levels_def]] assms(4) len by (simp add: levels_def)
    then show ?thesis using level_error(1) [OF levels_ge pos v] by (simp only: max.coboundedI2)
  qed
qed

end
