(* ===== verification/KvFacts.thy ===== *)
theory KvFacts
  imports KvStaging TurboFacts
begin

text \<open>
  Facts about the key/value cache. \<open>kv_ok\<close> is the invariant of a cache, \<open>ready\<close> what makes its
  quantizer usable. The compressed entries only grow at their end, which is why a checkpoint
  need only keep their number.
\<close>

section \<open>The invariant\<close>

definition ready :: "'f kv_cache \<Rightarrow> bool" where
  "ready c \<longleftrightarrow> (case tq c of None \<Rightarrow> False | Some t \<Rightarrow>
     0 < numKVHeads c \<and> 0 < headDim c \<and> numKVHeads c * headDim c = kvDim c \<and> headDim c * headDim c \<le> max_int64 \<and>
     headDim c * headDim c \<le> int (length (RotationK t)) \<and> headDim c * headDim c \<le> int (length (RotationV t)) \<and>
     1 \<le> KeyBits (tqConfig t) \<and> KeyBits (tqConfig t) \<le> 8 \<and> 1 \<le> ValueBits (tqConfig t) \<and> ValueBits (tqConfig t) \<le> 8)"

definition head_bytes :: "'f kv_cache \<Rightarrow> int \<Rightarrow> nat" where
  "head_bytes c bits = nat ((headDim c * bits + 7) div 8)"

definition entry_ok :: "'f kv_cache \<Rightarrow> int \<Rightarrow> 'f kv_entry \<Rightarrow> bool" where
  "entry_ok c bits e \<longleftrightarrow> length (Packed e) = nat (numKVHeads c) * head_bytes c bits \<and>
     length (HeadVMin e) = nat (numKVHeads c) \<and> length (HeadScale e) = nat (numKVHeads c)"

definition kv_ok :: "'f kv_cache \<Rightarrow> bool" where
  "kv_ok c \<longleftrightarrow> 0 < kvDim c \<and> kvDim c \<le> max_int64 \<and> 0 \<le> seqLen c \<and> seqLen c \<le> max_int64 \<and> 0 \<le> residualWindow c \<and>
     length (FullK c) = length (FullV c) \<and> length (CompressedK c) = length (CompressedV c) \<and>
     int (length (CompressedK c)) \<le> seqLen c \<and>
     int (length (FullK c)) = (seqLen c - int (length (CompressedK c))) * kvDim c \<and>
     (CompressedK c \<noteq> [] \<longrightarrow> ready c) \<and>
     (\<forall>e \<in> set (CompressedK c). entry_ok c (key_bits c) e) \<and> (\<forall>e \<in> set (CompressedV c). entry_ok c (value_bits c) e)"

lemma AddInt_small: "0 \<le> a \<Longrightarrow> 0 \<le> b \<Longrightarrow> a + b \<le> max_int64 \<Longrightarrow> AddInt a b = (a + b, True)"
  by (subst AddInt_spec) (auto simp: go_int)

lemma MulInt_small: "0 \<le> a \<Longrightarrow> 0 \<le> b \<Longrightarrow> a \<le> max_int64 \<Longrightarrow> b \<le> max_int64 \<Longrightarrow> a * b \<le> max_int64 \<Longrightarrow> MulInt a b = (a * b, True)"
  by (subst MulInt_spec) (auto simp: go_int)

lemma kv_okD:
  assumes "kv_ok c"
  shows "0 < kvDim c" "kvDim c \<le> max_int64" "0 \<le> seqLen c" "seqLen c \<le> max_int64" "0 \<le> residualWindow c"
    "length (FullK c) = length (FullV c)" "length (CompressedK c) = length (CompressedV c)"
    "int (length (CompressedK c)) \<le> seqLen c"
    "int (length (FullK c)) = (seqLen c - int (length (CompressedK c))) * kvDim c"
    "CompressedK c \<noteq> [] \<Longrightarrow> ready c"
    "\<And>e. e \<in> set (CompressedK c) \<Longrightarrow> entry_ok c (key_bits c) e" "\<And>e. e \<in> set (CompressedV c) \<Longrightarrow> entry_ok c (value_bits c) e"
  using assms unfolding kv_ok_def by blast+

lemma full_count: "kv_ok c \<Longrightarrow> go_quot (int (length (FullK c))) (kvDim c) = seqLen c - int (length (CompressedK c))"
  unfolding kv_okD(9) using kv_okD(1,8) [of c] by (subst go_quot_nonneg) simp_all

lemma consistent: "kv_ok c \<Longrightarrow> storageConsistent c"
proof -
  assume ok: "kv_ok c"
  note D = kv_okD [OF ok]
  have "go_rem (int (length (FullK c))) (kvDim c) = 0"
    unfolding D(9) using D(1,8) by (subst go_rem_nonneg) simp_all
  moreover have "AddInt (int (length (CompressedK c))) (seqLen c - int (length (CompressedK c))) = (seqLen c, True)"
    using D(3,4,8) by (subst AddInt_small) simp_all
  ultimately show ?thesis unfolding storageConsistent_def full_count [OF ok] Let_def using D(1,3,6,7) by simp
qed

lemma ready_bounds:
  assumes "ready c" "0 < kvDim c" "kvDim c \<le> max_int64"
  shows "headDim c \<le> kvDim c" "numKVHeads c \<le> kvDim c" "headDim c \<le> max_int64" "numKVHeads c \<le> max_int64"
proof -
  have p: "0 < numKVHeads c" "0 < headDim c" "numKVHeads c * headDim c = kvDim c" using assms(1) by (auto simp: ready_def split: option.splits)
  show "headDim c \<le> kvDim c" using p(1,2) by (simp add: p(3) [symmetric])
  show "numKVHeads c \<le> kvDim c" using p(1,2) by (simp add: p(3) [symmetric])
  then show "headDim c \<le> max_int64" "numKVHeads c \<le> max_int64" using \<open>headDim c \<le> kvDim c\<close> assms(3) by simp_all
qed

lemma ready_geometry: "ready c \<Longrightarrow> 0 < kvDim c \<Longrightarrow> kvDim c \<le> max_int64 \<Longrightarrow> headGeometryValid c"
  using ready_bounds [of c] by (auto simp: headGeometryValid_def ready_def MulInt_small split: option.splits)

lemma square_ok: "0 < d \<Longrightarrow> d * d \<le> max_int64 \<Longrightarrow> squareSize d = d * d"
proof -
  assume d: "0 < d" "d * d \<le> max_int64"
  then have "\<not> d > go_quot max_int64 d" by (simp add: go_quot_nonneg max_int64_def div_less_iff_int)
  moreover have "0 < d * d" using d(1) by simp
  then have "wrap64 (d * d) = d * d" using d(2) by (intro wrap64_id) (simp add: go_int)
  ultimately show ?thesis using d by (simp add: squareSize_def)
qed

lemma head_bytes_bounds:
  assumes "0 < d" "d * d \<le> max_int64" "1 \<le> bits" "bits \<le> 8"
  shows "d * bits + 7 \<le> max_int64" "0 < (d * bits + 7) div 8" "(d * bits + 7) div 8 \<le> d"
proof -
  have le: "d * bits \<le> d * 8" using assms by (intro mult_left_mono) simp_all
  have "d * 8 \<le> 64 \<or> d * 8 \<le> d * d"
  proof (cases "d \<le> 8")
    case False
    then show ?thesis using assms(1) by (intro disjI2 mult_left_mono) simp_all
  qed simp
  moreover have "d * 8 + 7 \<le> max_int64"
  proof (cases "d \<le> 1000")
    case True
    then show ?thesis by (simp add: max_int64_def)
  next
    case False
    then have "d * 1000 \<le> d * d" by (intro mult_left_mono) simp_all
    with False assms(2) show ?thesis by linarith
  qed
  ultimately show "d * bits + 7 \<le> max_int64" using le by linarith
  have "1 * 1 \<le> d * bits" using assms(1,3) by (intro mult_mono) simp_all
  then show "0 < (d * bits + 7) div 8" by (simp add: pos_imp_zdiv_pos_iff)
  show "(d * bits + 7) div 8 \<le> d" using le by linarith
qed

lemma bytes_per_head:
  assumes "0 < d" "d * d \<le> max_int64" "1 \<le> bits" "bits \<le> 8" "d \<le> max_int64"
  shows "compressedBytesPerHead d bits = ((d * bits + 7) div 8, True)"
    and "packedByteLen d bits = (d * bits + 7) div 8"
proof -
  note B = head_bytes_bounds [OF assms(1-4)]
  have nn: "0 \<le> d * bits" using assms by simp
  have "MulInt d bits = (d * bits, True)" using B(1) nn assms by (intro MulInt_small) (auto simp: max_int64_def)
  moreover have "AddInt (d * bits) 7 = (d * bits + 7, True)" using B(1) nn by (intro AddInt_small) simp_all
  ultimately show "compressedBytesPerHead d bits = ((d * bits + 7) div 8, True)"
    using assms nn by (simp add: compressedBytesPerHead_def go_quot_nonneg)
  have "\<not> d > go_quot (max_int64 - 7) bits"
    using B(1) assms(3) by (simp add: go_quot_nonneg max_int64_def div_less_iff_int)
  moreover have "wrap64 (d * bits) = d * bits" "wrap64 (d * bits + 7) = d * bits + 7"
    using B(1) nn by (intro wrap64_id; simp add: go_int)+
  ultimately have "0 \<le> packedByteLen d bits"
    using nn assms B(2) by (simp add: packedByteLen_def go_quot_nonneg)
  from packedByteLen_eq(1) [OF _ assms(3,4) this] show "packedByteLen d bits = (d * bits + 7) div 8" using assms(1) by simp
qed

section \<open>Compressing never fails on a ready cache\<close>

lemma pack_total:
  "0 \<le> packedByteLen (int (length ix)) (clampBits bits) \<Longrightarrow> packedByteLen (int (length ix)) (clampBits bits) \<le> int (length dst) \<Longrightarrow>
     packIndicesTo dst ix bits \<noteq> None"
  by (simp add: packIndicesTo_def Let_def)

lemma quantize_total:
  assumes "simd_ok hw" "vec \<noteq> []" "d = int (length vec)" "d * d \<le> max_int64" "d * d \<le> int (length rotation)"
    and "1 \<le> bits" "bits \<le> 8" "length dst = nat ((d * bits + 7) div 8)" "length vec \<le> rl" "length vec \<le> il" "d \<le> max_int64"
  shows "quantizeVectorTo ops hw dst vec rotation bits rl il \<noteq> None"
proof -
  have d: "0 < d" using assms(2,3) by simp
  have cl: "clampBits bits = bits" using assms(6,7) by (simp add: clampBits_def)
  have sq: "squareSize (int (length vec)) = d * d" using square_ok [OF d assms(4)] by (simp add: assms(3))
  have pl: "packedByteLen (int (length vec)) bits = (d * bits + 7) div 8"
    using bytes_per_head(2) [OF d assms(4,6,7,11)] by (simp add: assms(3))
  have pos: "0 \<le> (d * bits + 7) div 8" using head_bytes_bounds(2) [OF d assms(4,6,7)] by simp
  obtain r where r: "rotateRows (fops.truncate ops) hw rl vec rotation (length vec) = Some r"
    using assms(2,5,9) sq d by (fastforce simp: rotateRows_def split: option.split)
  have len: "length r = length vec" by (rule length_rotateRows [OF assms(1) r])
  have "packIndicesTo (take (nat ((d * bits + 7) div 8)) dst) (map f r) bits \<noteq> None" for f
    by (rule pack_total) (use pl pos assms(8) len in \<open>simp_all add: cl\<close>)
  note P = this
  have no: "\<not> (length vec = 0 \<or> d * d < 0 \<or> (d * bits + 7) div 8 < 0 \<or> int (length dst) < (d * bits + 7) div 8 \<or>
      int (length rotation) < d * d \<or> rl < length vec \<or> il < length vec)"
    using assms(2,5,8-10) pos d by (simp add: not_less)
  show ?thesis unfolding quantizeVectorTo_def Let_def cl sq pl r option.case using no
    by (simp add: P split: option.split)
qed

lemma length_slice: "hi \<le> length xs \<Longrightarrow> length (slice lo hi xs) = hi - lo"
  by (simp add: slice_def)

lemma compress_heads_ok:
  assumes "ready c" "simd_ok hw" "0 < kvDim c" "kvDim c \<le> max_int64" "h + n \<le> nat (numKVHeads c)"
    and "length kVec = nat (kvDim c)" "length vVec = nat (kvDim c)"
  defines "bk \<equiv> head_bytes c (key_bits c)" and "bv \<equiv> head_bytes c (value_bits c)"
  shows "\<exists>ek' ev'. compress_heads ops hw c bk bv kVec vVec h n (ek, ev) = Some (ek', ev') \<and>
    length (Packed ek') = length (Packed ek) + n * bk \<and> length (Packed ev') = length (Packed ev) + n * bv \<and>
    length (HeadVMin ek') = length (HeadVMin ek) + n \<and> length (HeadVMin ev') = length (HeadVMin ev) + n \<and>
    length (HeadScale ek') = length (HeadScale ek) + n \<and> length (HeadScale ev') = length (HeadScale ev) + n"
  using assms(5)
proof (induction n arbitrary: h ek ev)
  case (Suc n)
  obtain t where t: "tq c = Some t" and r: "0 < numKVHeads c" "0 < headDim c" "numKVHeads c * headDim c = kvDim c"
    "headDim c * headDim c \<le> max_int64" "headDim c * headDim c \<le> int (length (RotationK t))"
    "headDim c * headDim c \<le> int (length (RotationV t))" "1 \<le> KeyBits (tqConfig t)" "KeyBits (tqConfig t) \<le> 8"
    "1 \<le> ValueBits (tqConfig t)" "ValueBits (tqConfig t) \<le> 8"
    using assms(1) by (auto simp: ready_def split: option.splits)
  let ?d = "nat (headDim c)"
  have dim: "nat (kvDim c) = nat (numKVHeads c) * ?d" using r(1-3) by (metis nat_mult_distrib less_imp_le)
  have "(h + 1) * ?d \<le> nat (numKVHeads c) * ?d" using Suc.prems by (intro mult_right_mono) simp_all
  then have len: "length (slice (h * ?d) ((h + 1) * ?d) kVec) = ?d" "length (slice (h * ?d) ((h + 1) * ?d) vVec) = ?d"
    using assms(6,7) dim by (simp_all add: length_slice)
  have hd_le: "headDim c \<le> max_int64" by (rule ready_bounds(3) [OF assms(1,3,4)])
  let ?hk = "slice (h * ?d) ((h + 1) * ?d) kVec" and ?hv = "slice (h * ?d) ((h + 1) * ?d) vVec"
  have ne: "?hk \<noteq> []" "?hv \<noteq> []" and d: "headDim c = int (length ?hk)" "headDim c = int (length ?hv)" using len r(2) by auto
  have dst: "length (replicate bk (0 :: 8 word)) = nat ((headDim c * KeyBits (tqConfig t) + 7) div 8)"
    "length (replicate bv (0 :: 8 word)) = nat ((headDim c * ValueBits (tqConfig t) + 7) div 8)"
    by (simp_all add: bk_def bv_def head_bytes_def key_bits_def value_bits_def t)
  have "quantizeVectorTo ops hw (replicate bk 0) ?hk (RotationK t) (KeyBits (tqConfig t)) ?d ?d \<noteq> None"
    by (rule quantize_total [OF assms(2) ne(1) d(1) r(4,5,7,8) dst(1) _ _ hd_le]) (simp_all only: len order_refl)
  then obtain pk mk sk where qk: "quantizeVectorTo ops hw (replicate bk 0) ?hk (RotationK t) (KeyBits (tqConfig t)) ?d ?d = Some (pk, mk, sk)"
    by auto
  have "quantizeVectorTo ops hw (replicate bv 0) ?hv (RotationV t) (ValueBits (tqConfig t)) ?d ?d \<noteq> None"
    by (rule quantize_total [OF assms(2) ne(2) d(2) r(4,6,9,10) dst(2) _ _ hd_le]) (simp_all only: len order_refl)
  then obtain pv mv sv where qv: "quantizeVectorTo ops hw (replicate bv 0) ?hv (RotationV t) (ValueBits (tqConfig t)) ?d ?d = Some (pv, mv, sv)"
    by auto
  have pl: "length pk = bk" "length pv = bv" using length_quantize [OF qk] length_quantize [OF qv] by simp_all
  let ?ek = "\<lparr>Packed = Packed ek @ pk, HeadVMin = HeadVMin ek @ [mk], HeadScale = HeadScale ek @ [sk]\<rparr>"
  let ?ev = "\<lparr>Packed = Packed ev @ pv, HeadVMin = HeadVMin ev @ [mv], HeadScale = HeadScale ev @ [sv]\<rparr>"
  have step: "compress_heads ops hw c bk bv kVec vVec h (Suc n) (ek, ev) = compress_heads ops hw c bk bv kVec vVec (Suc h) n (?ek, ?ev)"
    unfolding compress_heads.simps(2) Let_def QuantizeKeyTo_def QuantizeValueTo_def t option.case qk qv by simp
  show ?case unfolding step using Suc.IH [of "Suc h" ?ek ?ev] Suc.prems by (auto simp: pl)
qed simp

section \<open>Appending\<close>

text \<open>What never changes in a cache.\<close>

definition shape :: "'f kv_cache \<Rightarrow> int \<times> int \<times> int \<times> 'f tq_state option \<times> bool \<times> int" where
  "shape c = (kvDim c, numKVHeads c, headDim c, tq c, isProtected c, residualWindow c)"

lemma shape_cong:
  assumes "shape c' = shape c"
  shows "ready c' = ready c" "head_bytes c' b = head_bytes c b" "entry_ok c' b e = entry_ok c b e"
    "key_bits c' = key_bits c" "value_bits c' = value_bits c"
  using assms by (simp_all add: shape_def ready_def head_bytes_def entry_ok_def key_bits_def value_bits_def cong: option.case_cong)

text \<open>What the attention reads: the stored rows and their number.\<close>

definition contents :: "'f kv_cache \<Rightarrow> 'f list \<times> 'f list \<times> 'f kv_entry list \<times> 'f kv_entry list \<times> int" where
  "contents c = (FullK c, FullV c, CompressedK c, CompressedV c, seqLen c)"

lemma compressOldest_grows:
  "\<exists>xs ys. CompressedK (compressOldest ops hw c) = CompressedK c @ xs \<and> CompressedV (compressOldest ops hw c) = CompressedV c @ ys \<and>
     seqLen (compressOldest ops hw c) = seqLen c \<and> shape (compressOldest ops hw c) = shape c"
  unfolding compressOldest_def Let_def
  by (auto simp: shape_def split: option.split prod.split)

lemma Append_grows:
  "\<exists>c' xs ys. kv_Append ops hw (Some c) k v = Some c' \<and> CompressedK c' = CompressedK c @ xs \<and> CompressedV c' = CompressedV c @ ys \<and>
     seqLen c \<le> seqLen c' \<and> shape c' = shape c"
proof -
  let ?c1 = "\<lambda>n. c\<lparr>FullK := FullK c @ k, FullV := FullV c @ v, seqLen := n\<rparr>"
  have le: "seqLen c \<le> n" if "AddInt (seqLen c) 1 = (n, True)" for n
    using that by (auto simp: AddInt_def go_int wrap64_def split: if_splits)
  have one: "shape (?c1 n) = shape c" for n by (simp add: shape_def)
  show ?thesis
    using compressOldest_grows [of ops hw "?c1 (fst (AddInt (seqLen c) 1))"] le one
    unfolding kv_Append_def option.case Let_def by (auto split: prod.split)
qed

text \<open>A cache whose quantizer is not used, or can be.\<close>

definition usable :: "'f kv_cache \<Rightarrow> bool" where
  "usable c \<longleftrightarrow> tq c = None \<or> isProtected c \<or> ready c"

definition compressing :: "'f kv_cache \<Rightarrow> bool" where
  "compressing c \<longleftrightarrow> tq c \<noteq> None \<and> \<not> isProtected c"

definition windowed :: "'f kv_cache \<Rightarrow> bool" where
  "windowed c \<longleftrightarrow> (if compressing c then int (length (CompressedK c)) = max 0 (seqLen c - residualWindow c) else CompressedK c = [])"

lemma compressOldest_ok:
  assumes "kv_ok c" "ready c" "simd_ok hw" "residualWindow c < seqLen c - int (length (CompressedK c))"
  shows "kv_ok (compressOldest ops hw c)" "length (CompressedK (compressOldest ops hw c)) = Suc (length (CompressedK c))"
    "FullK (compressOldest ops hw c) = drop (nat (kvDim c)) (FullK c)" "FullV (compressOldest ops hw c) = drop (nat (kvDim c)) (FullV c)"
proof -
  note D = kv_okD [OF assms(1)]
  let ?d = "nat (kvDim c)"
  obtain t where t: "tq c = Some t" and r: "0 < numKVHeads c" "0 < headDim c" "numKVHeads c * headDim c = kvDim c"
    "headDim c * headDim c \<le> max_int64" "1 \<le> KeyBits (tqConfig t)" "KeyBits (tqConfig t) \<le> 8"
    "1 \<le> ValueBits (tqConfig t)" "ValueBits (tqConfig t) \<le> 8"
    using assms(2) by (auto simp: ready_def split: option.splits)
  note B = ready_bounds [OF assms(2) D(1,2)]
  have rows: "1 \<le> seqLen c - int (length (CompressedK c))" using assms(4) D(5) by simp
  then have "1 * kvDim c \<le> int (length (FullK c))" unfolding D(9) using D(1) by (intro mult_right_mono) simp_all
  then have d: "?d \<le> length (FullK c)" using D(1) by simp
  have len: "length (take ?d (FullK c)) = ?d" "length (take ?d (FullV c)) = ?d" using d D(6) by simp_all
  note bk = bytes_per_head(1) [OF r(2,4,5,6) B(3)] and bv = bytes_per_head(1) [OF r(2,4,7,8) B(3)]
  note hb = head_bytes_bounds [OF r(2,4,5,6)] and hv = head_bytes_bounds [OF r(2,4,7,8)]
  have mul: "snd (MulInt (numKVHeads c) b)" if "0 < b" "b \<le> headDim c" for b
  proof -
    have "numKVHeads c * b \<le> numKVHeads c * headDim c" using that r(1) by (intro mult_left_mono) simp_all
    then show ?thesis using that r(1,3) D(2) B(3,4) by (subst MulInt_small) simp_all
  qed
  have nb: "nat ((headDim c * KeyBits (tqConfig t) + 7) div 8) = head_bytes c (key_bits c)"
    "nat ((headDim c * ValueBits (tqConfig t) + 7) div 8) = head_bytes c (value_bits c)"
    by (simp_all add: head_bytes_def key_bits_def value_bits_def t)
  obtain ek ev where heads: "compress_heads ops hw c (head_bytes c (key_bits c)) (head_bytes c (value_bits c)) (take ?d (FullK c)) (take ?d (FullV c))
      0 (nat (numKVHeads c)) (no_entry, no_entry) = Some (ek, ev)" and e: "entry_ok c (key_bits c) ek" "entry_ok c (value_bits c) ev"
    using compress_heads_ok [OF assms(2,3) D(1,2) _ len, of 0 "nat (numKVHeads c)" ops no_entry no_entry]
    by (auto simp: entry_ok_def no_entry_def)
  let ?c1 = "c\<lparr>quantRotated := ensure (nat (headDim c)) (quantRotated c), quantIndices := ensure (nat (headDim c)) (quantIndices c)\<rparr>"
  have eq: "compressOldest ops hw c = ?c1\<lparr>CompressedK := CompressedK c @ [ek], CompressedV := CompressedV c @ [ev],
      FullK := drop ?d (FullK c), FullV := drop ?d (FullV c)\<rparr>"
    using consistent [OF assms(1)] ready_geometry [OF assms(2) D(1,2)] assms(4) mul [OF hb(2,3)] mul [OF hv(2,3)]
    unfolding compressOldest_def t option.case full_count [OF assms(1)] Let_def bk bv prod.case nb heads by simp
  have sh: "shape (compressOldest ops hw c) = shape c" unfolding eq by (simp add: shape_def)
  show "length (CompressedK (compressOldest ops hw c)) = Suc (length (CompressedK c))"
    "FullK (compressOldest ops hw c) = drop ?d (FullK c)" "FullV (compressOldest ops hw c) = drop ?d (FullV c)"
    unfolding eq by simp_all
  have cnt: "int (length (drop ?d (FullK c))) = (seqLen c - int (Suc (length (CompressedK c)))) * kvDim c"
    using d D(1) D(9) by (simp add: of_nat_diff algebra_simps)
  show "kv_ok (compressOldest ops hw c)"
    unfolding kv_ok_def shape_cong [OF sh] using D cnt rows e assms(2) sh unfolding eq by (auto simp: shape_def)
qed

lemma Append_ok:
  assumes "kv_ok c" "usable c" "simd_ok hw" "windowed c" "int (length k) = kvDim c" "int (length v) = kvDim c" "seqLen c < max_int64"
  obtains c' where "kv_Append ops hw (Some c) k v = Some c'" "kv_ok c'" "usable c'" "windowed c'" "seqLen c' = seqLen c + 1"
    "shape c' = shape c" "\<not> (compressing c \<and> residualWindow c \<le> seqLen c) \<Longrightarrow> FullK c' = FullK c @ k \<and> FullV c' = FullV c @ v \<and>
       CompressedK c' = CompressedK c \<and> CompressedV c' = CompressedV c"
proof -
  note D = kv_okD [OF assms(1)]
  let ?c1 = "c\<lparr>FullK := FullK c @ k, FullV := FullV c @ v, seqLen := seqLen c + 1\<rparr>"
  have add: "AddInt (seqLen c) 1 = (seqLen c + 1, True)" using D(3) assms(7) by (subst AddInt_small) simp_all
  have sh1: "shape ?c1 = shape c" by (simp add: shape_def)
  have ok1: "kv_ok ?c1" unfolding kv_ok_def shape_cong [OF sh1] using D assms(5-7) by (auto simp: algebra_simps)
  define c' where "c' = (if tq c \<noteq> None \<and> \<not> isProtected c \<and> seqLen c + 1 > residualWindow c then compressOldest ops hw ?c1 else ?c1)"
  have app: "kv_Append ops hw (Some c) k v = Some c'"
    using D(1) assms(5,6) consistent [OF assms(1)] unfolding kv_Append_def option.case add prod.case Let_def c'_def by simp
  show thesis
  proof (cases "compressing c \<and> residualWindow c \<le> seqLen c")
    case True
    then have c': "c' = compressOldest ops hw ?c1" and r1: "ready ?c1"
      using assms(2) by (auto simp: c'_def compressing_def usable_def shape_cong [OF sh1])
    have more: "residualWindow ?c1 < seqLen ?c1 - int (length (CompressedK ?c1))"
      using True assms(4) D(5) by (simp add: windowed_def max_def)
    note C = compressOldest_ok [OF ok1 r1 assms(3) more, of ops]
    have g: "seqLen c' = seqLen c + 1" "shape c' = shape c"
      using compressOldest_grows [of ops hw ?c1] sh1 unfolding c' by auto
    have "windowed c'" using C(2) True assms(4) g D(5) by (auto simp: windowed_def compressing_def shape_def c')
    with that [OF app] C(1) g True assms(2) shape_cong(1) [OF g(2)] show thesis
      by (auto simp: c' usable_def shape_def)
  next
    case False
    then have c': "c' = ?c1" by (auto simp: c'_def compressing_def)
    have "windowed c'" using False assms(4) by (auto simp: c' windowed_def compressing_def)
    with that [OF app] ok1 False assms(2) show thesis by (auto simp: c' usable_def shape_def shape_cong [OF sh1])
  qed
qed

section \<open>Staging rows and rolling back\<close>

definition staged :: "'f qops \<Rightarrow> 'f simd \<Rightarrow> ('f list \<times> 'f list) list \<Rightarrow> 'f kv_cache \<Rightarrow> 'f kv_cache" where
  "staged ops hw rows c = fold (\<lambda>(k, v) c. the (kv_Append ops hw (Some c) k v)) rows c"

lemma staged_simps [simp]: "staged ops hw [] c = c"
  "staged ops hw ((k, v) # rows) c = staged ops hw rows (the (kv_Append ops hw (Some c) k v))"
  by (simp_all add: staged_def)

lemma staged_grows:
  "\<exists>xs ys. CompressedK (staged ops hw rows c) = CompressedK c @ xs \<and> CompressedV (staged ops hw rows c) = CompressedV c @ ys \<and>
     seqLen c \<le> seqLen (staged ops hw rows c) \<and> shape (staged ops hw rows c) = shape c"
proof (induction rows arbitrary: c)
  case (Cons r rows)
  obtain k v where r: "r = (k, v)" by fastforce
  obtain c' xs ys where c': "kv_Append ops hw (Some c) k v = Some c'" "CompressedK c' = CompressedK c @ xs"
    "CompressedV c' = CompressedV c @ ys" "seqLen c \<le> seqLen c'" "shape c' = shape c"
    using Append_grows by metis
  show ?case using Cons.IH [of c'] c' by (auto simp: r)
qed simp

definition rows_fit :: "'f kv_cache \<Rightarrow> ('f list \<times> 'f list) list \<Rightarrow> bool" where
  "rows_fit c rows \<longleftrightarrow> (\<forall>(k, v) \<in> set rows. int (length k) = kvDim c \<and> int (length v) = kvDim c)"

lemma staged_ok:
  assumes "kv_ok c" "usable c" "simd_ok hw" "windowed c" "rows_fit c rows" "seqLen c + int (length rows) \<le> max_int64"
  shows "kv_ok (staged ops hw rows c) \<and> usable (staged ops hw rows c) \<and> windowed (staged ops hw rows c) \<and>
    seqLen (staged ops hw rows c) = seqLen c + int (length rows) \<and>
    (\<not> (compressing c \<and> residualWindow c < seqLen c + int (length rows)) \<longrightarrow>
      FullK (staged ops hw rows c) = FullK c @ concat (map fst rows) \<and>
      FullV (staged ops hw rows c) = FullV c @ concat (map snd rows) \<and>
      CompressedK (staged ops hw rows c) = CompressedK c \<and> CompressedV (staged ops hw rows c) = CompressedV c)"
  using assms(1,2,4-6)
proof (induction rows arbitrary: c)
  case (Cons r rows)
  obtain k v where r: "r = (k, v)" by fastforce
  have fit: "int (length k) = kvDim c" "int (length v) = kvDim c" and lt: "seqLen c < max_int64"
    using Cons.prems(4,5) by (auto simp: rows_fit_def r)
  show ?case
  proof (rule Append_ok [OF Cons.prems(1,2) assms(3) Cons.prems(3) fit lt])
    fix c' assume c': "kv_Append ops hw (Some c) k v = Some c'" "kv_ok c'" "usable c'" "windowed c'" "seqLen c' = seqLen c + 1"
      "shape c' = shape c" "\<not> (compressing c \<and> residualWindow c \<le> seqLen c) \<Longrightarrow> FullK c' = FullK c @ k \<and> FullV c' = FullV c @ v \<and>
         CompressedK c' = CompressedK c \<and> CompressedV c' = CompressedV c"
    have "rows_fit c' rows" using Cons.prems(4) c'(6) by (auto simp: rows_fit_def shape_def)
    moreover have "seqLen c' + int (length rows) \<le> max_int64" using Cons.prems(5) c'(5) by simp
    ultimately have IH: "kv_ok (staged ops hw rows c') \<and> usable (staged ops hw rows c') \<and> windowed (staged ops hw rows c') \<and>
      seqLen (staged ops hw rows c') = seqLen c' + int (length rows) \<and>
      (\<not> (compressing c' \<and> residualWindow c' < seqLen c' + int (length rows)) \<longrightarrow>
        FullK (staged ops hw rows c') = FullK c' @ concat (map fst rows) \<and>
        FullV (staged ops hw rows c') = FullV c' @ concat (map snd rows) \<and>
        CompressedK (staged ops hw rows c') = CompressedK c' \<and> CompressedV (staged ops hw rows c') = CompressedV c')"
      by (rule Cons.IH [OF c'(2-4)])
    have same: "compressing c' = compressing c" "residualWindow c' = residualWindow c"
      using c'(6) by (simp_all add: shape_def compressing_def)
    show ?thesis using IH c'(1,5,7) by (auto simp: r same)
  qed
qed simp

lemma target_one: "0 \<le> n \<Longrightarrow> 0 \<le> k \<Longrightarrow> n + k \<le> max_int64 \<Longrightarrow> checkedAppendTarget n k 1 = (n + k, True)"
  by (auto simp: checkedAppendTarget_def go_quot_def go_int wrap64_def)

lemma target_eq:
  assumes "0 \<le> n" "0 \<le> k" "0 < d" "n + k * d \<le> max_int64"
  shows "checkedAppendTarget n k d = (n + k * d, True)"
proof -
  have nn: "0 \<le> k * d" using assms by simp
  have "\<not> k > go_quot max_int64 d" using assms nn by (simp add: go_quot_nonneg max_int64_def div_less_iff_int)
  moreover have "wrap64 (k * d) = k * d" "wrap64 (max_int64 - k * d) = max_int64 - k * d" "wrap64 (n + k * d) = n + k * d"
    by (rule wrap64_id, use assms(1,4) nn in \<open>auto simp: in_int64_def min_int64_def max_int64_def\<close>)+
  ultimately show ?thesis using assms by (simp add: checkedAppendTarget_def Let_def)
qed

lemma restore_staged:
  assumes "0 \<le> seqLen c" "seqLen c \<le> max_int64"
  shows "\<exists>c'. kv_Restore ops hw (Some (staged ops hw rows c)) (kv_Checkpoint (Some c)) = (Inr (), Some c') \<and>
    contents c' = contents c \<and> shape c' = shape c"
proof -
  let ?s = "staged ops hw rows c"
  obtain xs ys where g: "CompressedK ?s = CompressedK c @ xs" "CompressedV ?s = CompressedV c @ ys" "seqLen c \<le> seqLen ?s" "shape ?s = shape c"
    using staged_grows by metis
  have "kv_Restore ops hw (Some ?s) (kv_Checkpoint (Some c)) = (Inr (), Some (rollback (kv_Checkpoint (Some c)) ?s))"
    using g target_one [OF assms(1) order_refl] assms(2)
    by (simp add: kv_Restore_def kv_KeepAppended_def kv_Checkpoint_def keep_rows_def)
  moreover have "contents (rollback (kv_Checkpoint (Some c)) ?s) = contents c"
    using g by (simp add: rollback_def contents_def kv_Checkpoint_def)
  moreover have "shape (rollback (kv_Checkpoint (Some c)) ?s) = shape c" using g(4) by (simp add: rollback_def shape_def)
  ultimately show ?thesis by blast
qed

section \<open>Reading\<close>

lemma dequantize_total:
  assumes "q = Some t" "0 < d" "d * d \<le> max_int64" "d * d \<le> int (length (rotation_of t rot))" "simd_ok hw"
  shows "\<exists>out. dequantizeVectorWithScratchTo ops hw q (nat d) packed vMin scale rot bits d (nat d) (nat d) = Some out \<and> length out = nat d"
proof -
  let ?call = "dequantizeVectorWithScratchTo ops hw q (nat d) packed vMin scale rot bits d (nat d) (nat d)"
  have sq: "squareSize d = d * d" "squareSize (int (nat d)) = d * d" using square_ok [OF assms(2,3)] assms(2) by simp_all
  obtain ix where ix: "unpackIndicesTo (nat d) packed (clampBits bits) = Some ix" "length ix = nat d"
    using assms(2) by (simp add: unpackIndicesTo_def)
  have rows: "rotateRows (fops.truncate ops) hw (nat d) (map f ix) r (nat d) \<noteq> None" if "d * d \<le> int (length r)" for f r
    using that assms(2) sq(2) ix(2) by (auto simp: rotateRows_def split: option.split)
  have cols: "rotateCols (fops.truncate ops) hw (nat d) (map f ix) r (nat d) \<noteq> None" if "d * d \<le> int (length r)" for f r
    using that assms(2) sq(2) ix(2) by (auto simp: rotateCols_def split: option.split)
  have no: "\<not> (d \<le> 0 \<or> d * d < 0 \<or> nat d < nat d \<or> int (length (rotation_of t rot)) < d * d \<or> nat d < nat d \<or> nat d < nat d)"
    using assms(2,4) by (simp add: not_less)
  have "?call \<noteq> None"
    unfolding dequantizeVectorWithScratchTo_def Let_def assms(1) option.case sq ix(1) if_not_P [OF no]
    using rows cols assms(4) by (auto split: option.split)
  then obtain out where out: "?call = Some out" by blast
  from length_dequantize [OF assms(5) out] out show ?thesis by blast
qed

lemma deq_total:
  assumes "ready c" "simd_ok hw"
  shows "\<exists>out. deq_key ops hw c packed vMin scale = Some out \<and> length out = nat (headDim c)"
    and "\<exists>out. deq_value ops hw c packed vMin scale = Some out \<and> length out = nat (headDim c)"
proof -
  obtain t where t: "tq c = Some t" and r: "0 < headDim c" "headDim c * headDim c \<le> max_int64"
    "headDim c * headDim c \<le> int (length (RotationK t))" "headDim c * headDim c \<le> int (length (RotationV t))"
    using assms(1) by (auto simp: ready_def split: option.splits)
  show "\<exists>out. deq_key ops hw c packed vMin scale = Some out \<and> length out = nat (headDim c)"
    unfolding deq_key_def DequantizeKeyWithScratchTo_def t option.case
    by (rule dequantize_total [OF refl r(1,2) _ assms(2)]) (simp add: rotation_of_def r(3))
  show "\<exists>out. deq_value ops hw c packed vMin scale = Some out \<and> length out = nat (headDim c)"
    unfolding deq_value_def DequantizeValueWithScratchTo_def t option.case
    by (rule dequantize_total [OF refl r(1,2) _ assms(2)]) (simp add: rotation_of_def r(4))
qed

lemma dequant_heads_total:
  assumes "\<And>packed vMin scale. \<exists>out. deq packed vMin scale = Some out \<and> length out = d"
  shows "\<exists>xs. dequant_heads deq b e h n = Some xs \<and> length xs = n * d"
proof (induction n arbitrary: h)
  case (Suc n)
  obtain out where "deq (slice (h * b) ((h + 1) * b) (Packed e)) (HeadVMin e ! h) (HeadScale e ! h) = Some out" "length out = d"
    using assms by blast
  with Suc [of "Suc h"] show ?case by auto
qed simp

lemma dequant_entries_total:
  assumes "\<And>packed vMin scale. \<exists>out. deq packed vMin scale = Some out \<and> length out = d"
    and "\<And>e. e \<in> set es \<Longrightarrow> compressedEntryValid e heads b"
  shows "\<exists>xs. dequant_entries deq heads b es = Some xs \<and> length xs = length es * (nat heads * d)"
  using assms(2)
proof (induction es)
  case (Cons e es)
  obtain xs where xs: "dequant_heads deq (nat b) e 0 (nat heads) = Some xs" "length xs = nat heads * d"
    using dequant_heads_total [where deq = deq and d = d, OF assms(1)] by metis
  obtain ys where ys: "dequant_entries deq heads b es = Some ys" "length ys = length es * (nat heads * d)"
    using Cons by auto
  have "compressedEntryValid e heads b" using Cons.prems by simp
  then show ?case using xs ys by simp
qed simp

lemma entry_valid:
  assumes "ready c" "0 < kvDim c" "kvDim c \<le> max_int64" "entry_ok c bits e" "1 \<le> bits" "bits \<le> 8"
  shows "compressedEntryValid e (numKVHeads c) ((headDim c * bits + 7) div 8)"
proof -
  have r: "0 < numKVHeads c" "0 < headDim c" "numKVHeads c * headDim c = kvDim c" "headDim c * headDim c \<le> max_int64"
    using assms(1) by (auto simp: ready_def split: option.splits)
  note B = ready_bounds [OF assms(1-3)] and H = head_bytes_bounds [OF r(2,4) assms(5,6)]
  let ?b = "(headDim c * bits + 7) div 8"
  have "numKVHeads c * ?b \<le> numKVHeads c * headDim c" using H(3) r(1) by (intro mult_left_mono) simp_all
  then have m: "MulInt (numKVHeads c) ?b = (numKVHeads c * ?b, True)"
    using H(2,3) r(1,3) assms(3) B(3,4) by (intro MulInt_small) simp_all
  have "int (nat (numKVHeads c) * nat ?b) = numKVHeads c * ?b" using r(1) H(2) by simp
  then show ?thesis using assms(4) r(1) H(2) by (simp add: compressedEntryValid_def m entry_ok_def head_bytes_def Let_def)
qed

lemma get_rows_spec:
  assumes "kv_ok c" "simd_ok hw" "seqLen c * kvDim c \<le> max_int64"
    and deq: "ready c \<Longrightarrow> (\<And>packed vMin scale. \<exists>out. deq packed vMin scale = Some out \<and> length out = nat (headDim c))"
    and side: "length es = length (CompressedK c)" "length full = length (FullK c)" "\<And>e. e \<in> set es \<Longrightarrow> entry_ok c bits e"
    and bits: "ready c \<Longrightarrow> 1 \<le> bits \<and> bits \<le> 8"
  shows "\<exists>old s' r' i'. get_rows deq bits c es full s = (old @ full, s', r', i') \<and> int (length old) = int (length es) * kvDim c"
proof (cases "es = []")
  case True
  have "MulInt (seqLen c) (kvDim c) = (seqLen c * kvDim c, True)"
    using kv_okD(1-4) [OF assms(1)] assms(3) by (intro MulInt_small) simp_all
  moreover have "int (length full) = seqLen c * kvDim c" using True side kv_okD(9) [OF assms(1)] by simp
  ultimately show ?thesis using True by (intro exI [of _ "[]"]) (simp add: get_rows_def Let_def)
next
  case False
  then have "CompressedK c \<noteq> []" using side(1) by auto
  then have r: "ready c" by (rule kv_okD(10) [OF assms(1)])
  note D = kv_okD [OF assms(1)]
  obtain t where t: "tq c = Some t" and g: "0 < numKVHeads c" "0 < headDim c" "numKVHeads c * headDim c = kvDim c" "headDim c * headDim c \<le> max_int64"
    using r by (auto simp: ready_def split: option.splits)
  have b: "1 \<le> bits" "bits \<le> 8" using bits [OF r] by simp_all
  note bph = bytes_per_head(1) [OF g(2,4) b ready_bounds(3) [OF r D(1,2)]]
  have m: "MulInt (seqLen c) (kvDim c) = (seqLen c * kvDim c, True)"
    using D(1-4) assms(3) by (intro MulInt_small) simp_all
  obtain old where old: "dequant_entries deq (numKVHeads c) ((headDim c * bits + 7) div 8) es = Some old"
    "length old = length es * (nat (numKVHeads c) * nat (headDim c))"
    using dequant_entries_total [where deq = deq and d = "nat (headDim c)", OF deq [OF r] entry_valid [OF r D(1,2) side(3) b], of es] by metis
  have lo: "int (length old) = int (length es) * kvDim c" using old(2) g(1-3) by simp
  have "int (length old) + int (length full) = seqLen c * kvDim c"
    unfolding lo side(1,2) D(9) by (simp add: algebra_simps)
  then have "nat (seqLen c * kvDim c) = length old + length full" by (metis nat_int of_nat_add)
  then have "take (nat (seqLen c * kvDim c)) (old @ full) = old @ full" by simp
  then show ?thesis
    using lo consistent [OF assms(1)] ready_geometry [OF r D(1,2)] False
    by (simp add: get_rows_def t m bph old(1) Let_def)
qed

lemma GetK_spec:
  assumes "kv_ok c" "simd_ok hw" "seqLen c * kvDim c \<le> max_int64"
  shows "\<exists>old c'. GetK ops hw (Some c) = (old @ FullK c, Some c') \<and> int (length old) = int (length (CompressedK c)) * kvDim c \<and>
    contents c' = contents c \<and> shape c' = shape c"
proof -
  note D = kv_okD [OF assms(1)]
  obtain old s r i where g: "get_rows (deq_key ops hw c) (key_bits c) c (CompressedK c) (FullK c) (scratchK c) = (old @ FullK c, s, r, i)"
    "int (length old) = int (length (CompressedK c)) * kvDim c"
    using get_rows_spec [OF assms deq_total(1) [OF _ assms(2), where ops = ops] refl refl D(11)]
    by (fastforce simp: ready_def key_bits_def split: option.splits)
  then show ?thesis using D(1) by (auto simp: GetK_def contents_def shape_def)
qed

lemma GetV_spec:
  assumes "kv_ok c" "simd_ok hw" "seqLen c * kvDim c \<le> max_int64"
  shows "\<exists>old c'. GetV ops hw (Some c) = (old @ FullV c, Some c') \<and> int (length old) = int (length (CompressedV c)) * kvDim c \<and>
    contents c' = contents c \<and> shape c' = shape c"
proof -
  note D = kv_okD [OF assms(1)]
  obtain old s r i where g: "get_rows (deq_value ops hw c) (value_bits c) c (CompressedV c) (FullV c) (scratchV c) = (old @ FullV c, s, r, i)"
    "int (length old) = int (length (CompressedV c)) * kvDim c"
    using get_rows_spec [OF assms deq_total(2) [OF _ assms(2), where ops = ops] D(7) [symmetric] D(6) [symmetric] D(12)]
    by (fastforce simp: ready_def value_bits_def split: option.splits)
  then show ?thesis using D(1) by (auto simp: GetV_def contents_def shape_def)
qed

section \<open>Keeping an accepted prefix\<close>

lemma same_cache:
  assumes "contents c' = contents c" "shape c' = shape c"
  shows "kv_ok c' = kv_ok c" "usable c' = usable c" "windowed c' = windowed c" "compressing c' = compressing c" "rows_fit c' rows = rows_fit c rows"
proof -
  note S = shape_cong [OF assms(2)]
  show "kv_ok c' = kv_ok c" using assms unfolding kv_ok_def S by (simp add: contents_def shape_def)
  show "usable c' = usable c" using assms(2) unfolding usable_def S by (simp add: shape_def)
  show "windowed c' = windowed c" "compressing c' = compressing c" "rows_fit c' rows = rows_fit c rows"
    using assms by (simp_all add: windowed_def compressing_def rows_fit_def contents_def shape_def)
qed

lemma append_rows_staged:
  "append_rows ops hw d keepK keepV i n c =
     staged ops hw (map (\<lambda>i. (slice (i * d) (i * d + d) keepK, slice (i * d) (i * d + d) keepV)) [i..<i + n]) c"
proof (induction n arbitrary: i c)
  case (Suc n)
  have "[i..<i + Suc n] = i # [Suc i..<Suc i + n]" by (simp add: upt_rec)
  then show ?case using Suc by simp
qed simp

lemma slice_concat:
  "(\<And>r. r \<in> set rs \<Longrightarrow> length r = d) \<Longrightarrow> i < length rs \<Longrightarrow> slice (i * d) (i * d + d) (concat rs) = rs ! i"
proof (induction rs arbitrary: i)
  case (Cons r rs)
  show ?case
  proof (cases i)
    case (Suc k)
    have r: "length r = d" using Cons.prems(1) by simp
    have "slice (k * d) (k * d + d) (concat rs) = rs ! k" by (rule Cons.IH) (use Cons.prems Suc in auto)
    then show ?thesis using Suc r by (simp add: slice_def)
  qed (use Cons.prems in \<open>simp add: slice_def\<close>)
qed simp

lemma kept_rows:
  fixes ops :: "'f qops"
  assumes ok: "kv_ok c" "usable c" "simd_ok hw" "windowed c" "rows_fit c rows" "seqLen c + int (length rows) \<le> max_int64"
    and size: "(seqLen c + int (length rows)) * kvDim c \<le> max_int64" "j \<le> length rows"
  defines "s \<equiv> staged ops hw rows c" and "d \<equiv> nat (kvDim c)"
  shows "\<exists>keepK keepV s'. keep_rows ops hw s (kv_Checkpoint (Some c)) (int j) = (Inr (keepK, keepV), s') \<and>
    contents s' = contents s \<and> shape s' = shape s \<and> length keepK = j * d \<and> length keepV = j * d \<and>
    (\<not> (compressing c \<and> residualWindow c < seqLen c + int (length rows)) \<longrightarrow>
       keepK = take (j * d) (concat (map fst rows)) \<and> keepV = take (j * d) (concat (map snd rows)))"
proof (cases "j = 0")
  case True
  then show ?thesis by (simp add: keep_rows_def)
next
  case False
  note S = staged_ok [OF ok, of ops, folded s_def]
  note D = kv_okD [OF ok(1)]
  have sh: "shape s = shape c" using staged_grows [of ops hw rows c] unfolding s_def by metis
  then have dim: "kvDim s = kvDim c" by (simp add: shape_def)
  have sok: "kv_ok s" and sl: "seqLen s = seqLen c + int (length rows)" using S by blast+
  have bound: "seqLen s * kvDim s \<le> max_int64" using size(1) by (simp add: sl dim)
  obtain oldK s1 where K: "GetK ops hw (Some s) = (oldK @ FullK s, Some s1)" "int (length oldK) = int (length (CompressedK s)) * kvDim c"
    "contents s1 = contents s" "shape s1 = shape s" using GetK_spec [OF sok ok(3) bound, of ops] by (auto simp: dim)
  have s1: "kv_ok s1" "seqLen s1 * kvDim s1 \<le> max_int64" "FullV s1 = FullV s" "CompressedV s1 = CompressedV s" "kvDim s1 = kvDim c"
    using same_cache(1) [OF K(3,4)] sok bound K(3,4) dim by (auto simp: contents_def shape_def)
  obtain oldV s2 where V: "GetV ops hw (Some s1) = (oldV @ FullV s, Some s2)" "int (length oldV) = int (length (CompressedV s)) * kvDim c"
    "contents s2 = contents s" "shape s2 = shape s" using GetV_spec [OF s1(1) ok(3) s1(2), of ops] K(3,4) by (auto simp: s1)
  note E = kv_okD [OF sok, unfolded dim]
  have lenK: "int (length (oldK @ FullK s)) = seqLen s * kvDim c" using K(2) E(9) by (simp add: algebra_simps)
  have lenV: "int (length (oldV @ FullV s)) = seqLen s * kvDim c"
    using V(2) E(9) E(6,7) by (simp add: algebra_simps)
  define start where "start = seqLen c * kvDim c"
  define stop where "stop = start + int j * kvDim c"
  have le: "stop \<le> seqLen s * kvDim c"
  proof -
    have "(seqLen c + int j) * kvDim c \<le> (seqLen c + int (length rows)) * kvDim c" using D(1) size(2) by (intro mult_right_mono) simp_all
    then show ?thesis by (simp add: stop_def start_def sl algebra_simps)
  qed
  have nn: "0 \<le> start" "start \<le> stop" using D(1,3) by (simp_all add: start_def stop_def)
  have "stop \<le> max_int64" using le bound by (simp add: dim)
  moreover have "seqLen c * kvDim c \<le> max_int64" using calculation nn by (simp add: start_def)
  ultimately have tgt: "checkedAppendTarget 0 (seqLen c) (kvDim c) = (start, True)" "checkedAppendTarget start (int j) (kvDim c) = (stop, True)"
    using target_eq [of 0 "seqLen c" "kvDim c"] target_eq [of start "int j" "kvDim c"] D(1,3) nn by (simp_all add: start_def stop_def)
  let ?K = "slice (nat start) (nat stop) (oldK @ FullK s)" and ?V = "slice (nat start) (nat stop) (oldV @ FullV s)"
  have keep: "keep_rows ops hw s (kv_Checkpoint (Some c)) (int j) = (Inr (?K, ?V), s2)"
    using False D(1) le nn lenK lenV
    by (simp add: keep_rows_def kv_Checkpoint_def dim K(1) V(1) tgt del: length_append of_nat_add)
  have jd: "nat stop - nat start = j * d" using nn D(1) by (simp add: stop_def d_def nat_diff_distrib nat_mult_distrib nat_add_distrib)
  have len: "length ?K = j * d" "length ?V = j * d"
    using le lenK lenV nn by (subst length_slice; simp add: jd del: length_append)+
  have quiet: "?K = take (j * d) (concat (map fst rows)) \<and> ?V = take (j * d) (concat (map snd rows))"
    if q: "\<not> (compressing c \<and> residualWindow c < seqLen c + int (length rows))"
  proof -
    have F: "FullK s = FullK c @ concat (map fst rows)" "FullV s = FullV c @ concat (map snd rows)"
      "CompressedK s = CompressedK c" "CompressedV s = CompressedV c" using S q by blast+
    have "int (length (oldK @ FullK c)) = start" using K(2) D(9) by (simp add: F start_def algebra_simps)
    moreover have "int (length (oldV @ FullV c)) = start" using V(2) D(6,7,9) by (simp add: F start_def algebra_simps)
    ultimately have "nat start = length (oldK @ FullK c)" "nat start = length (oldV @ FullV c)" by (metis nat_int)+
    then have "drop (nat start) (oldK @ FullK s) = concat (map fst rows)" "drop (nat start) (oldV @ FullV s) = concat (map snd rows)"
      unfolding F by simp_all
    then show ?thesis by (simp add: slice_def jd)
  qed
  show ?thesis using keep V(3,4) len quiet by blast
qed

lemma rollback_same:
  assumes "contents s' = contents s" "shape s' = shape c" "CompressedK s = CompressedK c @ xs" "CompressedV s = CompressedV c @ ys"
  shows "contents (rollback (kv_Checkpoint (Some c)) s') = contents c" "shape (rollback (kv_Checkpoint (Some c)) s') = shape c"
  using assms by (simp_all add: rollback_def contents_def kv_Checkpoint_def shape_def)

lemma keep_staged:
  fixes ops :: "'f qops"
  assumes ok: "kv_ok c" "usable c" "simd_ok hw" "windowed c" "rows_fit c rows" "seqLen c + int (length rows) \<le> max_int64"
    and size: "(seqLen c + int (length rows)) * kvDim c \<le> max_int64" "j \<le> length rows"
  shows "\<exists>c'. kv_KeepAppended ops hw (Some (staged ops hw rows c)) (kv_Checkpoint (Some c)) (int j) = (Inr (), Some c') \<and>
    kv_ok c' \<and> windowed c' \<and> shape c' = shape c \<and> seqLen c' = seqLen c + int j \<and>
    (\<not> (compressing c \<and> residualWindow c < seqLen c + int (length rows)) \<longrightarrow>
       contents c' = contents (staged ops hw (take j rows) c))"
proof -
  let ?s = "staged ops hw rows c" and ?cp = "kv_Checkpoint (Some c)" and ?d = "nat (kvDim c)"
  note D = kv_okD [OF ok(1)]
  obtain xs ys where g: "CompressedK ?s = CompressedK c @ xs" "CompressedV ?s = CompressedV c @ ys" "seqLen c \<le> seqLen ?s" "shape ?s = shape c"
    using staged_grows by metis
  have sl: "seqLen ?s = seqLen c + int (length rows)" using staged_ok [OF ok] by blast
  obtain keepK keepV s' where k: "keep_rows ops hw ?s ?cp (int j) = (Inr (keepK, keepV), s')" "contents s' = contents ?s" "shape s' = shape c"
    "length keepK = j * ?d" "length keepV = j * ?d"
    and quiet: "\<not> (compressing c \<and> residualWindow c < seqLen c + int (length rows)) \<Longrightarrow>
       keepK = take (j * ?d) (concat (map fst rows)) \<and> keepV = take (j * ?d) (concat (map snd rows))"
    using kept_rows [OF ok size, of ops] g(4) by metis
  define rows' where "rows' = map (\<lambda>i. (slice (i * ?d) (i * ?d + ?d) keepK, slice (i * ?d) (i * ?d + ?d) keepV)) [0..<j]"
  define r where "r = rollback ?cp s'"
  have r: "contents r = contents c" "shape r = shape c" using rollback_same [OF k(2,3) g(1,2)] by (simp_all add: r_def)
  note R = same_cache [OF r]
  have rl: "seqLen r = seqLen c" "residualWindow r = residualWindow c" "kvDim ?s = kvDim c" "CompressedK s' = CompressedK ?s" "CompressedV s' = CompressedV ?s"
    using r g(4) k(2) by (simp_all add: contents_def shape_def)
  have call: "kv_KeepAppended ops hw (Some ?s) ?cp (int j) = (Inr (), Some (staged ops hw rows' r))"
  proof -
    have t: "checkedAppendTarget (seqLen c) (int j) 1 = (seqLen c + int j, True)"
      using D(3) ok(6) size(2) by (intro target_one) simp_all
    have cp: "cp_valid ?cp" "cp_seqLen ?cp = seqLen c" "cp_compressedKLen ?cp = int (length (CompressedK c))"
      "cp_compressedVLen ?cp = int (length (CompressedV c))" by (simp_all add: kv_Checkpoint_def)
    have ge: "\<not> seqLen ?s < seqLen c + int j" using sl size(2) by simp
    show ?thesis unfolding kv_KeepAppended_def option.case cp t prod.case k(1) sum.case
      using ge by (simp add: cp rl g append_rows_staged rows'_def r_def)
  qed
  have row_len: "length (slice (i * ?d) (i * ?d + ?d) keepK) = ?d \<and> length (slice (i * ?d) (i * ?d + ?d) keepV) = ?d" if "i < j" for i
  proof -
    have "Suc i * ?d \<le> j * ?d" using that by (intro mult_right_mono) simp_all
    then show ?thesis using k(4,5) by (simp add: length_slice)
  qed
  have fit: "rows_fit r rows'" using row_len D(1) r(2) by (auto simp: rows_fit_def rows'_def shape_def)
  have len: "length rows' = j" by (simp add: rows'_def)
  have room: "seqLen r + int (length rows') \<le> max_int64" using rl(1) ok(6) size(2) by (simp add: len)
  note Z = staged_ok [OF _ _ ok(3) _ fit room, of ops, unfolded R rl len, OF ok(1,2,4)]
  have sh: "shape (staged ops hw rows' r) = shape c" using staged_grows [of ops hw rows' r] r(2) by metis
  have "contents (staged ops hw rows' r) = contents (staged ops hw (take j rows) c)"
    if q: "\<not> (compressing c \<and> residualWindow c < seqLen c + int (length rows))"
  proof -
    have each: "\<And>x. x \<in> set (map fst rows) \<Longrightarrow> length x = ?d" "\<And>x. x \<in> set (map snd rows) \<Longrightarrow> length x = ?d"
      using ok(5) D(1) by (auto simp: rows_fit_def)
    have part: "slice (i * ?d) (i * ?d + ?d) (take (j * ?d) (concat xs)) = xs ! i"
      if "i < j" "j \<le> length xs" "\<And>x. x \<in> set xs \<Longrightarrow> length x = ?d" for i and xs :: "'f list list"
    proof -
      have "Suc i * ?d \<le> j * ?d" using that(1) by (intro mult_right_mono) simp_all
      then have "slice (i * ?d) (i * ?d + ?d) (take (j * ?d) (concat xs)) = slice (i * ?d) (i * ?d + ?d) (concat xs)"
        by (simp add: slice_def drop_take)
      also have "\<dots> = xs ! i" by (rule slice_concat) (use that in auto)
      finally show ?thesis .
    qed
    have rows': "rows' = take j rows"
    proof (rule nth_equalityI)
      show "length rows' = length (take j rows)" using size(2) by (simp add: len)
      fix i assume "i < length rows'"
      then have "i < j" by (simp add: len)
      then show "rows' ! i = take j rows ! i"
        using quiet [OF q] part [of i "map fst rows"] part [of i "map snd rows"] each size(2) by (simp add: rows'_def)
    qed
    have fit2: "rows_fit c (take j rows)" using ok(5) by (auto simp: rows_fit_def dest: in_set_takeD)
    have q2: "\<not> (compressing c \<and> residualWindow c < seqLen c + int j)" using q size(2) by auto
    have room2: "seqLen c + int (length (take j rows)) \<le> max_int64" using ok(6) by simp
    have q3: "\<not> (compressing c \<and> residualWindow c < seqLen c + int (length (take j rows)))" using q by auto
    show ?thesis using staged_ok [OF ok(1-4) fit2 room2, of ops] Z q2 q3 r(1) size(2)
      by (auto simp: rows' contents_def)
  qed
  then show ?thesis using call Z sh by blast
qed

section \<open>A new cache\<close>

lemma length_fold_update: "(\<And>x q. length (f x q) = length q) \<Longrightarrow> length (fold f xs q) = length q"
  by (induction xs arbitrary: q) auto

lemma length_gs_column: "length (gs_column ops mat d j q) = length q"
  unfolding gs_column_def Let_def
  by (simp add: length_fold_update if_distrib [of length])

lemma length_randomOrthogonal:
  "0 < d \<Longrightarrow> d * d \<le> max_int64 \<Longrightarrow> int (length (randomOrthogonal ops d gauss)) = d * d"
  by (simp add: randomOrthogonal_def square_ok length_fold_update length_gs_column)

lemma new_cache:
  fixes ops :: "'f qops" and gauss :: "nat \<Rightarrow> 'f" and layers :: int and prot :: bool and cfg :: tq_config
  assumes "0 < heads" "0 < d" "heads * d \<le> max_int64" "d * d \<le> max_int64"
  defines "c \<equiv> NewCompressedKVCache (heads * d) heads d (Some (NewTurboQuantState ops gauss d layers cfg)) prot"
  shows "kv_ok c" "usable c" "windowed c" "seqLen c = 0" "kvDim c = heads * d"
proof -
  have p: "0 < heads * d" using assms(1,2) by simp
  have le: "heads \<le> heads * d" "d \<le> heads * d" using assms(1,2) by simp_all
  have m: "MulInt heads d = (heads * d, True)" using assms(1-3) le by (intro MulInt_small) linarith+
  let ?t = "NewTurboQuantState ops gauss d layers cfg"
  have len: "int (length (RotationK ?t)) = d * d" "int (length (RotationV ?t)) = d * d"
    using assms(2,4) by (simp_all add: NewTurboQuantState_def Let_def square_ok length_randomOrthogonal)
  have bits: "1 \<le> KeyBits (tqConfig ?t)" "KeyBits (tqConfig ?t) \<le> 8" "1 \<le> ValueBits (tqConfig ?t)" "ValueBits (tqConfig ?t) \<le> 8"
    using clamp_range by (simp_all add: NewTurboQuantState_def Let_def)
  have sel: "kvDim c = heads * d" "numKVHeads c = heads" "headDim c = d" "tq c = Some ?t" "seqLen c = 0" "FullK c = []" "FullV c = []"
    "CompressedK c = []" "CompressedV c = []" "0 \<le> residualWindow c"
    using p assms(1,2) by (simp_all add: c_def NewCompressedKVCache_def Let_def m order_less_not_sym [OF p])
  show "seqLen c = 0" "kvDim c = heads * d" by (rule sel)+
  show "kv_ok c" using p assms(3) by (simp add: kv_ok_def sel)
  show "windowed c" by (simp add: windowed_def sel)
  show "usable c" using assms(1,2,4) len bits by (simp add: usable_def ready_def sel)
qed

section \<open>Plain caches\<close>

lemma keep_side_spec:
  assumes "length xs = length base" "0 \<le> k" "i + length base = length caches"
    and "\<And>j. j < length base \<Longrightarrow> caches ! (i + j) = base ! j @ xs ! j"
    and "\<And>j. j < length base \<Longrightarrow> 0 \<le> kvDimAt dims (i + j) \<and> k * kvDimAt dims (i + j) \<le> int (length (xs ! j)) \<and>
        int (length (base ! j)) + k * kvDimAt dims (i + j) \<le> max_int64"
  shows "keep_side side (map (int \<circ> length) base) dims k i caches =
    (Inr (), take i caches @ map (\<lambda>j. base ! j @ take (nat (k * kvDimAt dims (i + j))) (xs ! j)) [0..<length base])"
  using assms
proof (induction base arbitrary: i caches xs)
  case (Cons b base)
  obtain x xs' where xs: "xs = x # xs'" using Cons.prems(1) by (cases xs) auto
  let ?d = "kvDimAt dims i"
  have d: "0 \<le> ?d" "k * ?d \<le> int (length x)" "int (length b) + k * ?d \<le> max_int64" and ci: "caches ! i = b @ x"
    using Cons.prems(4,5) [of 0] by (auto simp: xs)
  have i: "i < length caches" using Cons.prems(3) by simp
  have t: "checkedAppendTarget (int (length b)) k ?d = (int (length b) + k * ?d, True)"
  proof (cases "?d = 0")
    case True
    then show ?thesis using Cons.prems(2) d(3)
      by (simp add: checkedAppendTarget_def go_int wrap64_def)
  next
    case False
    then show ?thesis using d Cons.prems(2) by (intro target_eq) simp_all
  qed
  have nn: "0 \<le> k * ?d" using Cons.prems(2) d(1) by simp
  let ?new = "b @ take (nat (k * ?d)) x"
  have tk: "take (nat (int (length b) + k * ?d)) (b @ x) = ?new" using nn by (simp add: nat_add_distrib)
  have "keep_side side (map (int \<circ> length) (b # base)) dims k i caches =
      keep_side side (map (int \<circ> length) base) dims k (Suc i) (caches[i := ?new])"
    using i d t by (simp add: ci tk Let_def not_le del: take_append)
  also have "\<dots> = (Inr (), take (Suc i) (caches[i := ?new]) @
      map (\<lambda>j. base ! j @ take (nat (k * kvDimAt dims (Suc i + j))) (xs' ! j)) [0..<length base])"
  proof (rule Cons.IH)
    fix j assume "j < length base"
    then show "caches[i := ?new] ! (Suc i + j) = base ! j @ xs' ! j" "0 \<le> kvDimAt dims (Suc i + j) \<and>
        k * kvDimAt dims (Suc i + j) \<le> int (length (xs' ! j)) \<and> int (length (base ! j)) + k * kvDimAt dims (Suc i + j) \<le> max_int64"
      using Cons.prems(4,5) [of "Suc j"] by (auto simp: xs)
  qed (use Cons.prems xs in auto)
  also have "take (Suc i) (caches[i := ?new]) = take i caches @ [?new]" using i by (simp add: take_Suc_conv_app_nth)
  also have "map (\<lambda>j. (b # base) ! j @ take (nat (k * kvDimAt dims (i + j))) (xs ! j)) [0..<length (b # base)] =
      ?new # map (\<lambda>j. base ! j @ take (nat (k * kvDimAt dims (Suc i + j))) (xs' ! j)) [0..<length base]"
    by (simp add: xs upt_conv_Cons map_Suc_upt [symmetric] del: upt_Suc)
  ultimately show ?case by simp
qed simp

end
