(* ===== verification/KvEstimateFacts.thy ===== *)
theory KvEstimateFacts
  imports KvEstimate KvFacts
begin

text \<open>
  The estimate of the cache bytes against the caches themselves: what a cache with its window
  full stores is what the estimator charges for its layer.
\<close>

section \<open>What a cache stores\<close>

lemma sat_add_small: "0 \<le> a \<Longrightarrow> 0 \<le> b \<Longrightarrow> a + b \<le> max_int64 \<Longrightarrow> SaturatingAddInt64 a b = a + b"
  by (subst checked.add_eq) simp_all

lemma sat_mul_small: "0 \<le> a \<Longrightarrow> 0 \<le> b \<Longrightarrow> a \<le> max_int64 \<Longrightarrow> b \<le> max_int64 \<Longrightarrow> a * b \<le> max_int64 \<Longrightarrow> SaturatingMulInt64 a b = a * b"
  by (subst checked.mul_eq) simp_all

lemma entryBytes_eq:
  assumes "entry_ok c bits e" "0 \<le> numKVHeads c" "numKVHeads c * (int (head_bytes c bits) + 8) \<le> max_int64"
  shows "entryBytes e = numKVHeads c * (int (head_bytes c bits) + 8)"
proof -
  let ?n = "numKVHeads c" and ?b = "int (head_bytes c bits)"
  have split: "?n * (?b + 8) = ?n * ?b + ?n * 8" by (simp add: algebra_simps)
  have nn: "0 \<le> ?n * ?b" using assms(2) by simp
  have le: "?n * ?b + ?n * 8 \<le> max_int64" using assms(3) unfolding split .
  have len: "int (length (Packed e)) = ?n * ?b" "int (length (HeadVMin e)) = ?n" "int (length (HeadScale e)) = ?n"
    using assms(1,2) by (simp_all add: entry_ok_def)
  have "AddInt ?n ?n = (?n + ?n, True)" using assms(2) le nn by (intro AddInt_small) linarith+
  moreover have "SaturatingMulInt64 (?n + ?n) 4 = (?n + ?n) * 4"
  proof (rule sat_mul_small)
    have "(?n + ?n) * 4 = ?n * 8" by simp
    then show "?n + ?n \<le> max_int64" "(?n + ?n) * 4 \<le> max_int64" using assms(2) le nn by linarith+
  qed (use assms(2) in \<open>simp_all add: max_int64_def\<close>)
  moreover have "SaturatingAddInt64 (?n * ?b) ((?n + ?n) * 4) = ?n * ?b + (?n + ?n) * 4"
    using assms(2) le nn by (intro sat_add_small) simp_all
  ultimately show ?thesis by (simp add: entryBytes_def len split)
qed

definition entry_pair_bytes :: "'f kv_cache \<Rightarrow> int" where
  "entry_pair_bytes c = numKVHeads c * (int (head_bytes c (key_bits c)) + 8) + numKVHeads c * (int (head_bytes c (value_bits c)) + 8)"

lemma sum_list_same: "(\<And>x. x \<in> set xs \<Longrightarrow> f x = (k::int)) \<Longrightarrow> sum_list (map f xs) = int (length xs) * k"
  by (induction xs) (simp_all add: algebra_simps)

lemma MemoryBytes_eq:
  assumes "kv_ok c" "0 \<le> numKVHeads c"
    and "8 * int (length (FullK c)) + int (length (CompressedK c)) * entry_pair_bytes c \<le> max_int64"
  shows "MemoryBytes (Some c) = 8 * int (length (FullK c)) + int (length (CompressedK c)) * entry_pair_bytes c"
proof -
  note D = kv_okD [OF assms(1)]
  let ?k = "numKVHeads c * (int (head_bytes c (key_bits c)) + 8)" and ?v = "numKVHeads c * (int (head_bytes c (value_bits c)) + 8)"
  let ?n = "int (length (CompressedK c))" and ?f = "int (length (FullK c))"
  have nn: "0 \<le> ?k" "0 \<le> ?v" using assms(2) by simp_all
  have pair: "?n * entry_pair_bytes c = ?n * ?k + ?n * ?v" by (simp add: entry_pair_bytes_def algebra_simps)
  have nk: "0 \<le> ?n * ?k" "0 \<le> ?n * ?v" using nn by simp_all
  have small: "?k \<le> max_int64 \<and> ?v \<le> max_int64" if "CompressedK c \<noteq> []"
  proof -
    have "1 * ?k \<le> ?n * ?k" "1 * ?v \<le> ?n * ?v" using that nn by (intro mult_right_mono; simp add: Suc_leI)+
    then show ?thesis using assms(3) nk unfolding pair by linarith
  qed
  have K: "entryBytes e = ?k" "?k \<le> max_int64" if "e \<in> set (CompressedK c)" for e
    using entryBytes_eq [OF D(11) [OF that] assms(2)] small that by force+
  have V: "entryBytes e = ?v" "?v \<le> max_int64" if "e \<in> set (CompressedV c)" for e
    using entryBytes_eq [OF D(12) [OF that] assms(2)] small that D(7) by force+
  have tot: "sum_list (map entryBytes (CompressedK c @ CompressedV c)) = ?n * ?k + ?n * ?v"
    using sum_list_same [of "CompressedK c" entryBytes ?k] sum_list_same [of "CompressedV c" entryBytes ?v] K(1) V(1) D(7) by simp
  have "fold (\<lambda>e compressed. SaturatingAddInt64 compressed (entryBytes e)) (CompressedK c @ CompressedV c) 0 =
      fold (\<lambda>v s. SaturatingAddInt64 s v) (map entryBytes (CompressedK c @ CompressedV c)) 0"
    by (simp add: fold_map comp_def)
  also have "\<dots> = min (0 + sum_list (map entryBytes (CompressedK c @ CompressedV c))) max_int64"
    by (rule checked.fold_add) (use K V nn in \<open>auto intro: checked.okI\<close>)
  also have "\<dots> = ?n * ?k + ?n * ?v" unfolding tot using assms(3) by (simp add: pair)
  finally have comp: "fold (\<lambda>e compressed. SaturatingAddInt64 compressed (entryBytes e)) (CompressedK c @ CompressedV c) 0 = ?n * ?k + ?n * ?v" .
  have f8: "0 \<le> ?f" "8 * ?f \<le> max_int64" using assms(3) nk unfolding pair by linarith+
  then have f: "0 \<le> ?f" "?f + ?f \<le> max_int64" "(?f + ?f) * 4 \<le> max_int64" by simp_all
  have fv: "int (length (FullV c)) = ?f" using D(6) by simp
  have "AddInt ?f (int (length (FullV c))) = (?f + ?f, True)" unfolding fv by (rule AddInt_small [OF f(1,1,2)])
  moreover have "SaturatingMulInt64 (?f + ?f) 4 = (?f + ?f) * 4"
    using f by (intro sat_mul_small) (simp_all add: max_int64_def)
  moreover have "SaturatingAddInt64 ((?f + ?f) * 4) (?n * ?k + ?n * ?v) = (?f + ?f) * 4 + (?n * ?k + ?n * ?v)"
    using assms(3) nk unfolding pair by (intro sat_add_small) simp_all
  ultimately show ?thesis unfolding MemoryBytes_def option.case comp by (simp add: pair del: of_nat_add)
qed

section \<open>What the estimator charges\<close>

lemma wrap_small: "0 \<le> x \<Longrightarrow> x \<le> max_int64 \<Longrightarrow> wrap64 x = x"
  by (rule wrap64_id) (simp add: go_int)

lemma rows_bytes_eq:
  assumes "0 \<le> n" "0 \<le> d" "8 * (n * d) \<le> max_int64"
  shows "rows_bytes n d = 8 * (n * d)"
proof -
  have "0 \<le> n * d" using assms by simp
  then show ?thesis unfolding rows_bytes_def using assms(3) by (simp add: wrap_small)
qed

lemma bytesPerVec_eq:
  assumes "0 < kvHeads" "0 < d" "d * d \<le> max_int64" "1 \<le> bits" "bits \<le> 8" "kvHeads * ((d * bits + 7) div 8 + 8) \<le> max_int64"
  shows "bytesPerVec kvHeads d bits = kvHeads * ((d * bits + 7) div 8 + 8)"
proof -
  note H = head_bytes_bounds [OF assms(2-5)]
  have nn: "0 \<le> d * bits" using assms by simp
  have w: "wrap64 (d * bits) = d * bits" "wrap64 (d * bits + 7) = d * bits + 7" using nn H(1) by (simp_all add: wrap_small)
  have "1 * ((d * bits + 7) div 8 + 8) \<le> kvHeads * ((d * bits + 7) div 8 + 8)" using assms(1) H(2) by (intro mult_right_mono) simp_all
  then have "(d * bits + 7) div 8 + 8 \<le> max_int64" using assms(6) unfolding mult_1 by (rule order_trans)
  then have w2: "wrap64 ((d * bits + 7) div 8 + 8) = (d * bits + 7) div 8 + 8" using H(2) by (intro wrap_small) simp_all
  have "wrap64 (kvHeads * ((d * bits + 7) div 8 + 8)) = kvHeads * ((d * bits + 7) div 8 + 8)"
    using assms(1,6) H(2) by (intro wrap_small) simp_all
  then show ?thesis using assms(4) nn by (simp add: bytesPerVec_def w w2 go_quot_nonneg Let_def)
qed

lemma estimate_fold:
  assumes "0 \<le> full" "full \<le> B" "0 \<le> per" "per \<le> B" "int n * B \<le> max_int64"
  shows "snd (fold (estimate_step None t full per) [0..<n] (0, 0)) =
    (\<Sum>i < n. if IsProtectedLayer (Some t) (int i) then full else per)"
proof -
  let ?g = "\<lambda>i. if IsProtectedLayer (Some t) (int i) then full else per"
  have "\<exists>p. fold (estimate_step None t full per) [0..<m] (0, 0) = (p, \<Sum>i < m. ?g i)" if "m \<le> n" for m
    using that
  proof (induction m)
    case (Suc m)
    then obtain p where p: "fold (estimate_step None t full per) [0..<m] (0, 0) = (p, \<Sum>i < m. ?g i)" by auto
    have "(\<Sum>i < Suc m. ?g i) \<le> (\<Sum>i < Suc m. B)" by (rule sum_mono) (use assms in auto)
    also have "\<dots> = int (Suc m) * B" by simp
    also have "\<dots> \<le> int n * B" using Suc.prems assms(1,2) by (intro mult_right_mono) simp_all
    finally have le: "(\<Sum>i < m. ?g i) + ?g m \<le> max_int64" using assms(5) by simp
    have "0 \<le> (\<Sum>i < m. ?g i)" by (rule sum_nonneg) (use assms in auto)
    then have w: "wrap64 ((\<Sum>i < m. ?g i) + ?g m) = (\<Sum>i < m. ?g i) + ?g m" using le assms(1,3) by (intro wrap_small) auto
    have step: "fold (estimate_step None t full per) [0..<Suc m] (0, 0) = estimate_step None t full per m (p, \<Sum>i < m. ?g i)"
      by (simp add: p)
    show ?case unfolding step using w by (simp add: estimate_step_def layerUsesKV_def split: if_splits)
  qed simp
  from this [OF order_refl] show ?thesis by auto
qed

lemma pair_bounds:
  assumes "0 < heads" "0 < d" "d * d \<le> max_int64" "1 \<le> bits" "bits \<le> 8"
  shows "0 \<le> heads * ((d * bits + 7) div 8 + 8)" "heads * ((d * bits + 7) div 8 + 8) \<le> 9 * (heads * d)"
proof -
  note H = head_bytes_bounds [OF assms(2-5)]
  show "0 \<le> heads * ((d * bits + 7) div 8 + 8)" using assms(1) H(2) by simp
  have "heads * ((d * bits + 7) div 8 + 8) \<le> heads * (9 * d)" using H(3) assms(1,2) by (intro mult_left_mono) simp_all
  then show "heads * ((d * bits + 7) div 8 + 8) \<le> 9 * (heads * d)" by simp
qed

text \<open>The caches of a model: one per layer, each with \<open>sl\<close> positions and as many full rows as its
  window holds.\<close>

definition model_caches :: "'f tq_state \<Rightarrow> int \<Rightarrow> int \<Rightarrow> int \<Rightarrow> int \<Rightarrow> 'f kv_cache list \<Rightarrow> bool" where
  "model_caches t heads d rw sl caches \<longleftrightarrow> (\<forall>i < length caches. let c = caches ! i in
     kv_ok c \<and> windowed c \<and> shape c = (heads * d, heads, d, Some t, IsProtectedLayer (Some t) (int i), rw) \<and> seqLen c = sl)"

lemma layer_bytes:
  assumes "kv_ok c" "windowed c" "shape c = (heads * d, heads, d, Some t, prot, rw)" "seqLen c = sl"
    and "0 < heads" "0 < d" "d * d \<le> max_int64" "0 \<le> rw" "0 < sl" "sl * (heads * d) * 18 \<le> max_int64"
    and bits: "1 \<le> KeyBits (tqConfig t)" "KeyBits (tqConfig t) \<le> 8" "1 \<le> ValueBits (tqConfig t)" "ValueBits (tqConfig t) \<le> 8"
  defines "per \<equiv> 8 * (min rw sl * (heads * d)) + (sl - min rw sl) *
    (heads * ((d * KeyBits (tqConfig t) + 7) div 8 + 8) + heads * ((d * ValueBits (tqConfig t) + 7) div 8 + 8))"
  shows "MemoryBytes (Some c) = (if prot then 8 * (sl * (heads * d)) else per)"
    and "0 \<le> per" "per \<le> sl * (heads * d) * 18"
proof -
  note D = kv_okD [OF assms(1)]
  note HK = head_bytes_bounds [OF assms(6,7) bits(1,2)] and HV = head_bytes_bounds [OF assms(6,7) bits(3,4)]
  have sel: "kvDim c = heads * d" "numKVHeads c = heads" "headDim c = d" "tq c = Some t" "isProtected c = prot" "residualWindow c = rw"
    using assms(3) by (simp_all add: shape_def)
  let ?bk = "(d * KeyBits (tqConfig t) + 7) div 8" and ?bv = "(d * ValueBits (tqConfig t) + 7) div 8"
  let ?pair = "heads * (?bk + 8) + heads * (?bv + 8)" and ?r = "min rw sl"
  have pair: "entry_pair_bytes c = ?pair"
    using HK(2) HV(2) by (simp add: entry_pair_bytes_def sel head_bytes_def key_bits_def value_bits_def)
  have "heads * (?bk + 8) \<le> heads * (9 * d)" "heads * (?bv + 8) \<le> heads * (9 * d)"
    using HK(3) HV(3) assms(5,6) by (intro mult_left_mono; simp)+
  then have pl: "?pair \<le> heads * d * 18" "0 \<le> ?pair" using assms(5) HK(2) HV(2) by (simp_all add: algebra_simps)
  have r: "0 \<le> ?r" "?r \<le> sl" using assms(8,9) by simp_all
  have hd: "0 < heads * d" using assms(5,6) by simp
  have rh: "0 \<le> ?r * (heads * d)" by (rule mult_nonneg_nonneg [OF r(1) less_imp_le [OF hd]])
  have "?r * (heads * d * 18) = 18 * (?r * (heads * d))" by simp
  then have "8 * (?r * (heads * d)) \<le> ?r * (heads * d * 18)" using rh by linarith
  moreover have "(sl - ?r) * ?pair \<le> (sl - ?r) * (heads * d * 18)" using r pl by (intro mult_left_mono) simp_all
  ultimately have "per \<le> ?r * (heads * d * 18) + (sl - ?r) * (heads * d * 18)" unfolding per_def by linarith
  also have "\<dots> = sl * (heads * d * 18)" by (simp add: algebra_simps)
  finally show ple: "per \<le> sl * (heads * d) * 18" by (simp add: mult.assoc)
  have "0 \<le> (sl - ?r) * ?pair" using r pl(2) by (intro mult_nonneg_nonneg) simp_all
  moreover have "0 \<le> ?r * (heads * d)" by (rule mult_nonneg_nonneg [OF r(1) less_imp_le [OF hd]])
  ultimately show p0: "0 \<le> per" unfolding per_def by linarith
  have mem: "8 * int (length (FullK c)) + int (length (CompressedK c)) * entry_pair_bytes c = (if prot then 8 * (sl * (heads * d)) else per)"
  proof (cases prot)
    case True
    then have "CompressedK c = []" using assms(2) by (simp add: windowed_def compressing_def sel)
    then show ?thesis using True D(9) by (simp add: sel assms(4))
  next
    case False
    then have n: "int (length (CompressedK c)) = sl - ?r"
      using assms(2,4) by (auto simp: windowed_def compressing_def sel)
    show ?thesis unfolding D(9) n pair per_def using False by (simp add: sel assms(4))
  qed
  have "8 * (sl * (heads * d)) \<le> sl * (heads * d) * 18" using mult_pos_pos [OF assms(9) hd] by linarith
  then have "8 * (sl * (heads * d)) \<le> max_int64" "per \<le> max_int64" using ple assms(10) by linarith+
  then have "(if prot then 8 * (sl * (heads * d)) else per) \<le> max_int64" by presburger
  then show "MemoryBytes (Some c) = (if prot then 8 * (sl * (heads * d)) else per)"
    using MemoryBytes_eq [OF assms(1)] mem assms(5) by (simp add: sel(2))
qed

lemma estimate_matches:
  fixes ops :: "'f qops" and gauss :: "nat \<Rightarrow> 'f" and cfg :: tq_config and d layers :: int and caches :: "'f kv_cache list"
  defines "t \<equiv> NewTurboQuantState ops gauss d layers cfg"
  assumes pos: "0 < heads" "0 < d" "0 < layers" "0 < sl" "0 \<le> ResidualWindow cfg"
    and bits: "1 \<le> KeyBits cfg" "KeyBits cfg \<le> 8" "1 \<le> ValueBits cfg" "ValueBits cfg \<le> 8"
    and size: "d * d \<le> max_int64" "layers * (sl * (heads * d) * 18) \<le> max_int64"
    and caches: "length caches = nat layers" "model_caches t heads d (ResidualWindow cfg) sl caches"
  shows "snd (EstimateTurboQuantKVBytes ops gauss layers heads d sl cfg True None) = (\<Sum>c \<leftarrow> caches. MemoryBytes (Some c))"
proof -
  let ?rw = "ResidualWindow cfg" and ?B = "sl * (heads * d) * 18"
  have tc: "KeyBits (tqConfig t) = KeyBits cfg" "ValueBits (tqConfig t) = ValueBits cfg"
    using bits by (simp_all add: t_def NewTurboQuantState_def Let_def clampBits_def)
  have hd: "0 < heads * d" using pos by simp
  have "1 * (sl * (heads * d) * 18) \<le> layers * (sl * (heads * d) * 18)" using pos mult_pos_pos [OF pos(4) hd] by (intro mult_right_mono) simp_all
  then have shd: "sl * (heads * d) * 18 \<le> layers * (sl * (heads * d) * 18)" unfolding mult_1 .
  then have B: "?B \<le> max_int64" using size(2) by (rule order_trans)
  let ?per = "8 * (min ?rw sl * (heads * d)) + (sl - min ?rw sl) * (heads * ((d * KeyBits cfg + 7) div 8 + 8) + heads * ((d * ValueBits cfg + 7) div 8 + 8))"
  let ?g = "\<lambda>i. if IsProtectedLayer (Some t) (int i) then 8 * (sl * (heads * d)) else ?per"
  have each: "MemoryBytes (Some (caches ! i)) = ?g i" and per: "0 \<le> ?per" "?per \<le> ?B" if "i < nat layers" for i
  proof -
    have C: "kv_ok (caches ! i)" "windowed (caches ! i)"
      "shape (caches ! i) = (heads * d, heads, d, Some t, IsProtectedLayer (Some t) (int i), ?rw)" "seqLen (caches ! i) = sl"
      using caches that by (simp_all add: model_caches_def Let_def)
    note L = layer_bytes [OF C pos(1,2) size(1) pos(5,4) B, unfolded tc, OF bits]
    show "MemoryBytes (Some (caches ! i)) = ?g i" "0 \<le> ?per" "?per \<le> ?B" by (rule L)+
  qed
  have per': "0 \<le> ?per" "?per \<le> ?B" using per [of 0] pos by simp_all
  have "(\<Sum>c \<leftarrow> caches. MemoryBytes (Some c)) = (\<Sum>i < nat layers. MemoryBytes (Some (caches ! i)))"
    unfolding sum_list_sum_nth by (simp add: caches(1) atLeast0LessThan)
  also have "\<dots> = (\<Sum>i < nat layers. ?g i)" by (rule sum.cong) (use each in auto)
  finally have sum: "(\<Sum>c \<leftarrow> caches. MemoryBytes (Some c)) = (\<Sum>i < nat layers. ?g i)" .
  have "1 * (heads * d) \<le> sl * (heads * d)" using pos hd by (intro mult_right_mono) simp_all
  then have hmax: "18 * (heads * d) \<le> max_int64" using B by linarith
  then have kd: "wrap64 (heads * d) = heads * d" using hd by (intro wrap_small) linarith+
  have r: "clamp_residual ?rw sl = min ?rw sl" using pos by (auto simp: clamp_residual_def Let_def)
  have rr: "0 \<le> min ?rw sl" "min ?rw sl \<le> sl" using pos by simp_all
  have sb: "8 * (sl * (heads * d)) \<le> max_int64" using B mult_pos_pos [OF pos(4) hd] by linarith
  have rb: "8 * (min ?rw sl * (heads * d)) \<le> max_int64"
    using mult_right_mono [OF rr(2) less_imp_le [OF hd]] sb by linarith
  have rows: "rows_bytes sl (heads * d) = 8 * (sl * (heads * d))" "rows_bytes (min ?rw sl) (heads * d) = 8 * (min ?rw sl * (heads * d))"
    using rows_bytes_eq sb rb pos rr hd by simp_all
  have token: "wrap64 (bytesPerVec heads d (KeyBits cfg) + bytesPerVec heads d (ValueBits cfg)) =
      heads * ((d * KeyBits cfg + 7) div 8 + 8) + heads * ((d * ValueBits cfg + 7) div 8 + 8)"
  proof -
    note K = pair_bounds [OF pos(1,2) size(1) bits(1,2)] and V = pair_bounds [OF pos(1,2) size(1) bits(3,4)]
    have m: "9 * (heads * d) \<le> max_int64" "18 * (heads * d) \<le> max_int64" using hmax hd by linarith+
    note b = bytesPerVec_eq [OF pos(1,2) size(1) bits(1,2) order_trans [OF K(2) m(1)]]
      bytesPerVec_eq [OF pos(1,2) size(1) bits(3,4) order_trans [OF V(2) m(1)]]
    show ?thesis unfolding b by (rule wrap_small) (use K V m(2) in linarith)+
  qed
  have per_eq: "wrap64 (rows_bytes (min ?rw sl) (heads * d) + wrap64 (wrap64 (sl - min ?rw sl) *
      (heads * ((d * KeyBits cfg + 7) div 8 + 8) + heads * ((d * ValueBits cfg + 7) div 8 + 8)))) = ?per"
  proof -
    let ?x = "heads * ((d * KeyBits cfg + 7) div 8 + 8) + heads * ((d * ValueBits cfg + 7) div 8 + 8)"
    have x: "0 \<le> ?x" using pair_bounds(1) [OF pos(1,2) size(1) bits(1,2)] pair_bounds(1) [OF pos(1,2) size(1) bits(3,4)] by linarith
    have nn: "0 \<le> 8 * (min ?rw sl * (heads * d))" "0 \<le> (sl - min ?rw sl) * ?x"
      using mult_nonneg_nonneg [OF rr(1) less_imp_le [OF hd]] mult_nonneg_nonneg [OF _ x, of "sl - min ?rw sl"] rr(2) by simp_all
    have "sl * 1 \<le> sl * (heads * d)" using hd pos(4) by (intro mult_left_mono) simp_all
    then have "sl \<le> max_int64" using sb pos(4) by linarith
    then have "wrap64 (sl - min ?rw sl) = sl - min ?rw sl" using rr by (intro wrap_small) linarith+
    moreover have "wrap64 ((sl - min ?rw sl) * ?x) = (sl - min ?rw sl) * ?x" using nn per'(2) B by (intro wrap_small) linarith+
    moreover have "wrap64 ?per = ?per" using per' B by (intro wrap_small) linarith+
    ultimately show ?thesis unfolding rows(2) by simp
  qed
  have no: "\<not> (layers \<le> 0 \<or> heads \<le> 0 \<or> d \<le> 0 \<or> sl \<le> 0)" using pos by simp
  have bound: "int (nat layers) * ?B \<le> max_int64" using size(2) pos(3) by simp
  have "snd (fold (estimate_step None t (8 * (sl * (heads * d))) ?per) [0..<nat layers] (0, 0)) = (\<Sum>i < nat layers. ?g i)"
    by (rule estimate_fold [OF _ _ per' bound]) (use pos hd in simp_all)
  then show ?thesis
    unfolding sum EstimateTurboQuantKVBytes_def estimateTurboQuantKVBytesDetailed_def Let_def if_not_P [OF no] kd r token per_eq
      t_def [symmetric] rows(1)
    by (auto split: prod.splits)
qed

end
