(* ===== verification/KvContents.thy ===== *)
theory KvContents
  imports KvFacts
begin

text \<open>
  What a key/value cache holds after rows were appended: which of them are still in full, what the
  compressed entries were made from, and what the two readers return.
\<close>

section \<open>Entries of rows\<close>

definition entry_of :: "('f list \<Rightarrow> (8 word list \<times> 'f \<times> 'f) option) \<Rightarrow> nat \<Rightarrow> nat \<Rightarrow> 'f list \<Rightarrow> 'f kv_entry" where
  "entry_of quant n d row = (let qs = map (\<lambda>h. the (quant (slice (h * d) ((h + 1) * d) row))) [0..<n] in
     \<lparr>Packed = concat (map fst qs), HeadVMin = map (fst \<circ> snd) qs, HeadScale = map (snd \<circ> snd) qs\<rparr>)"

text \<open>The entry of a row of keys and of a row of values.\<close>

definition key_entry :: "'f qops \<Rightarrow> 'f simd \<Rightarrow> 'f kv_cache \<Rightarrow> 'f list \<Rightarrow> 'f kv_entry" where
  "key_entry ops hw c = (let d = nat (headDim c) in
     entry_of (\<lambda>row. QuantizeKeyTo ops hw (tq c) (replicate (head_bytes c (key_bits c)) 0) row d d) (nat (numKVHeads c)) d)"

definition value_entry :: "'f qops \<Rightarrow> 'f simd \<Rightarrow> 'f kv_cache \<Rightarrow> 'f list \<Rightarrow> 'f kv_entry" where
  "value_entry ops hw c = (let d = nat (headDim c) in
     entry_of (\<lambda>row. QuantizeValueTo ops hw (tq c) (replicate (head_bytes c (value_bits c)) 0) row d d) (nat (numKVHeads c)) d)"

text \<open>The row an entry stands for.\<close>

definition row_of :: "(8 word list \<Rightarrow> 'f \<Rightarrow> 'f \<Rightarrow> 'f list option) \<Rightarrow> nat \<Rightarrow> nat \<Rightarrow> 'f kv_entry \<Rightarrow> 'f list" where
  "row_of deq n b e = concat (map (\<lambda>h. the (deq (slice (h * b) ((h + 1) * b) (Packed e)) (HeadVMin e ! h) (HeadScale e ! h))) [0..<n])"

definition key_row :: "'f qops \<Rightarrow> 'f simd \<Rightarrow> 'f kv_cache \<Rightarrow> 'f kv_entry \<Rightarrow> 'f list" where
  "key_row ops hw c = row_of (deq_key ops hw c) (nat (numKVHeads c)) (head_bytes c (key_bits c))"

definition value_row :: "'f qops \<Rightarrow> 'f simd \<Rightarrow> 'f kv_cache \<Rightarrow> 'f kv_entry \<Rightarrow> 'f list" where
  "value_row ops hw c = row_of (deq_value ops hw c) (nat (numKVHeads c)) (head_bytes c (value_bits c))"

lemma entry_shape:
  assumes "shape c' = shape c"
  shows "key_entry ops hw c' = key_entry ops hw c" "value_entry ops hw c' = value_entry ops hw c"
    "key_row ops hw c' = key_row ops hw c" "value_row ops hw c' = value_row ops hw c"
proof -
  have "headDim c' = headDim c" "numKVHeads c' = numKVHeads c" "tq c' = tq c" using assms by (simp_all add: shape_def)
  then show "key_entry ops hw c' = key_entry ops hw c" "value_entry ops hw c' = value_entry ops hw c"
    "key_row ops hw c' = key_row ops hw c" "value_row ops hw c' = value_row ops hw c"
    by (simp_all add: key_entry_def value_entry_def key_row_def value_row_def deq_key_def [abs_def] deq_value_def [abs_def] shape_cong [OF assms])
qed

text \<open>The loop over the heads adds to an entry the parts of the heads it visits.\<close>

definition add_heads :: "('f list \<Rightarrow> (8 word list \<times> 'f \<times> 'f) option) \<Rightarrow> nat \<Rightarrow> 'f list \<Rightarrow> nat list \<Rightarrow> 'f kv_entry \<Rightarrow> 'f kv_entry" where
  "add_heads quant d row hs e = (let qs = map (\<lambda>h. the (quant (slice (h * d) ((h + 1) * d) row))) hs in
     \<lparr>Packed = Packed e @ concat (map fst qs), HeadVMin = HeadVMin e @ map (fst \<circ> snd) qs, HeadScale = HeadScale e @ map (snd \<circ> snd) qs\<rparr>)"

lemma add_heads_simps:
  "add_heads quant d row [] e = e"
  "quant (slice (h * d) ((h + 1) * d) row) = Some (p, m, s) \<Longrightarrow> add_heads quant d row (h # hs) e =
     add_heads quant d row hs \<lparr>Packed = Packed e @ p, HeadVMin = HeadVMin e @ [m], HeadScale = HeadScale e @ [s]\<rparr>"
  by (simp_all add: add_heads_def)

lemma entry_of_add_heads: "entry_of quant n d row = add_heads quant d row [0..<n] no_entry"
  by (simp add: entry_of_def add_heads_def no_entry_def Let_def)

lemma compress_heads_adds:
  fixes c :: "'f kv_cache"
  assumes "compress_heads ops hw c bk bv kVec vVec h n (ek, ev) = Some (ek', ev')"
  defines "d \<equiv> nat (headDim c)"
  shows "ek' = add_heads (\<lambda>row. QuantizeKeyTo ops hw (tq c) (replicate bk 0) row d d) d kVec [h..<h + n] ek \<and>
    ev' = add_heads (\<lambda>row. QuantizeValueTo ops hw (tq c) (replicate bv 0) row d d) d vVec [h..<h + n] ev"
  using assms(1)
proof (induction n arbitrary: h ek ev)
  case (Suc n)
  obtain pk mk sk where qk: "QuantizeKeyTo ops hw (tq c) (replicate bk 0) (slice (h * d) ((h + 1) * d) kVec) d d = Some (pk, mk, sk)"
    using Suc.prems by (auto simp: Let_def d_def split: option.splits)
  obtain pv mv sv where qv: "QuantizeValueTo ops hw (tq c) (replicate bv 0) (slice (h * d) ((h + 1) * d) vVec) d d = Some (pv, mv, sv)"
    using Suc.prems qk by (auto simp: Let_def d_def split: option.splits)
  have "[h..<h + Suc n] = h # [Suc h..<Suc h + n]" by (simp add: upt_rec)
  then show ?case using Suc.IH [of "Suc h"] Suc.prems qk qv
    by (simp add: Let_def d_def [symmetric] add_heads_simps(2) [where quant = "\<lambda>row. QuantizeKeyTo ops hw (tq c) (replicate bk 0) row d d", OF qk]
      add_heads_simps(2) [where quant = "\<lambda>row. QuantizeValueTo ops hw (tq c) (replicate bv 0) row d d", OF qv])
qed (simp add: add_heads_simps)

section \<open>Appending one row\<close>

lemma compressOldest_contents:
  assumes "kv_ok c" "ready c" "simd_ok hw" "residualWindow c < seqLen c - int (length (CompressedK c))"
  shows "CompressedK (compressOldest ops hw c) = CompressedK c @ [key_entry ops hw c (take (nat (kvDim c)) (FullK c))]"
    "CompressedV (compressOldest ops hw c) = CompressedV c @ [value_entry ops hw c (take (nat (kvDim c)) (FullV c))]"
proof -
  note D = kv_okD [OF assms(1)]
  obtain t where t: "tq c = Some t" and r: "0 < numKVHeads c" "0 < headDim c" "numKVHeads c * headDim c = kvDim c"
    "headDim c * headDim c \<le> max_int64" "1 \<le> KeyBits (tqConfig t)" "KeyBits (tqConfig t) \<le> 8"
    "1 \<le> ValueBits (tqConfig t)" "ValueBits (tqConfig t) \<le> 8"
    using assms(2) by (auto simp: ready_def split: option.splits)
  note B = ready_bounds [OF assms(2) D(1,2)]
  note bk = bytes_per_head(1) [OF r(2,4,5,6) B(3)] and bv = bytes_per_head(1) [OF r(2,4,7,8) B(3)]
  have nb: "nat ((headDim c * KeyBits (tqConfig t) + 7) div 8) = head_bytes c (key_bits c)"
    "nat ((headDim c * ValueBits (tqConfig t) + 7) div 8) = head_bytes c (value_bits c)"
    by (simp_all add: head_bytes_def key_bits_def value_bits_def t)
  let ?d = "nat (kvDim c)"
  let ?run = "compress_heads ops hw c (head_bytes c (key_bits c)) (head_bytes c (value_bits c)) (take ?d (FullK c)) (take ?d (FullV c))
      0 (nat (numKVHeads c)) (no_entry, no_entry)"
  have grown: "CompressedK (compressOldest ops hw c) \<noteq> CompressedK c"
    using compressOldest_ok(2) [OF assms, of ops] by auto
  obtain ek ev where heads: "?run = Some (ek, ev)" and
    eq: "CompressedK (compressOldest ops hw c) = CompressedK c @ [ek]" "CompressedV (compressOldest ops hw c) = CompressedV c @ [ev]"
    using grown unfolding compressOldest_def t option.case Let_def bk bv prod.case nb
    by (auto split: if_splits option.splits prod.splits)
  show "CompressedK (compressOldest ops hw c) = CompressedK c @ [key_entry ops hw c (take ?d (FullK c))]"
    "CompressedV (compressOldest ops hw c) = CompressedV c @ [value_entry ops hw c (take ?d (FullV c))]"
    using compress_heads_adds [OF heads] by (simp_all add: eq key_entry_def value_entry_def entry_of_add_heads Let_def)
qed

text \<open>
  The rows \<open>K\<close> and \<open>V\<close>, one after the other, are what was in full before and what was appended since:
  the oldest \<open>m\<close> of them were compressed, the others are still in full.
\<close>

definition compressed_to :: "'f qops \<Rightarrow> 'f simd \<Rightarrow> 'f kv_cache \<Rightarrow> nat \<Rightarrow> 'f list \<Rightarrow> 'f list \<Rightarrow> 'f kv_cache \<Rightarrow> bool" where
  "compressed_to ops hw c m K V c' \<longleftrightarrow> (let d = nat (kvDim c) in m * d \<le> length K \<and> length V = length K \<and>
     CompressedK c' = CompressedK c @ map (\<lambda>i. key_entry ops hw c (slice (i * d) ((i + 1) * d) K)) [0..<m] \<and>
     CompressedV c' = CompressedV c @ map (\<lambda>i. value_entry ops hw c (slice (i * d) ((i + 1) * d) V)) [0..<m] \<and>
     FullK c' = drop (m * d) K \<and> FullV c' = drop (m * d) V)"

lemma Append_contents:
  assumes "kv_ok c" "usable c" "simd_ok hw" "windowed c" "int (length k) = kvDim c" "int (length v) = kvDim c" "seqLen c < max_int64"
    and "kv_Append ops hw (Some c) k v = Some c'"
  shows "\<exists>m. compressed_to ops hw c m (FullK c @ k) (FullV c @ v) c'"
proof -
  note D = kv_okD [OF assms(1)]
  let ?c1 = "c\<lparr>FullK := FullK c @ k, FullV := FullV c @ v, seqLen := seqLen c + 1\<rparr>"
  have add: "AddInt (seqLen c) 1 = (seqLen c + 1, True)" using D(3) assms(7) by (subst AddInt_small) simp_all
  have sh1: "shape ?c1 = shape c" by (simp add: shape_def)
  have ok1: "kv_ok ?c1" unfolding kv_ok_def shape_cong [OF sh1] using D assms(5-7) by (auto simp: algebra_simps)
  have c': "c' = (if tq c \<noteq> None \<and> \<not> isProtected c \<and> seqLen c + 1 > residualWindow c then compressOldest ops hw ?c1 else ?c1)"
    using assms(8) D(1) assms(5,6) consistent [OF assms(1)] unfolding kv_Append_def option.case add prod.case Let_def by simp
  have len: "length (FullV c @ v) = length (FullK c @ k)" "nat (kvDim c) \<le> length (FullK c @ k)" using D(6) assms(5,6) by simp_all
  show ?thesis
  proof (cases "compressing c \<and> residualWindow c \<le> seqLen c")
    case True
    then have eq: "c' = compressOldest ops hw ?c1" and r1: "ready ?c1"
      using assms(2) by (auto simp: c' compressing_def usable_def shape_cong [OF sh1])
    have more: "residualWindow ?c1 < seqLen ?c1 - int (length (CompressedK ?c1))"
      using True assms(4) D(5) by (simp add: windowed_def max_def)
    note C = compressOldest_ok(3,4) [OF ok1 r1 assms(3) more, of ops] compressOldest_contents [OF ok1 r1 assms(3) more, of ops]
    have "compressed_to ops hw c 1 (FullK c @ k) (FullV c @ v) c'"
      using C len unfolding eq entry_shape [OF sh1] by (simp add: compressed_to_def Let_def slice_def)
    then show ?thesis ..
  next
    case False
    then have "c' = ?c1" by (auto simp: c' compressing_def)
    then have "compressed_to ops hw c 0 (FullK c @ k) (FullV c @ v) c'" using len by (simp add: compressed_to_def Let_def)
    then show ?thesis ..
  qed
qed

lemma slice_more: "hi \<le> length xs \<Longrightarrow> slice lo hi (xs @ ys) = slice lo hi xs"
  by (simp add: slice_def)

lemma slice_drop: "slice (i * d) ((i + 1) * d) (drop (m * d) xs) = slice ((m + i) * d) ((m + i + 1) * d) xs"
  by (simp add: slice_def algebra_simps)

lemma compressed_to_trans:
  assumes "compressed_to ops hw c m K V c1" "compressed_to ops hw c1 m' (FullK c1 @ K') (FullV c1 @ V') c'" "shape c1 = shape c"
  shows "compressed_to ops hw c (m + m') (K @ K') (V @ V') c'"
proof -
  let ?d = "nat (kvDim c)"
  have d: "kvDim c1 = kvDim c" using assms(3) by (simp add: shape_def)
  note A = assms(1) [unfolded compressed_to_def Let_def]
  note B = assms(2) [unfolded compressed_to_def Let_def d entry_shape [OF assms(3)]]
  have full: "FullK c1 @ K' = drop (m * ?d) (K @ K')" "FullV c1 @ V' = drop (m * ?d) (V @ V')" using A by simp_all
  have first: "slice (i * ?d) ((i + 1) * ?d) (X @ Y) = slice (i * ?d) ((i + 1) * ?d) X" if "i < m" "m * ?d \<le> length X" for i and X Y :: "'a list"
  proof (rule slice_more)
    have "(i + 1) * ?d \<le> m * ?d" using that(1) by (intro mult_right_mono) simp_all
    then show "(i + 1) * ?d \<le> length X" using that(2) by simp
  qed
  have parts: "map f [0..<m + m'] = map f [0..<m] @ map (\<lambda>i. f (m + i)) [0..<m']" for f :: "nat \<Rightarrow> 'a kv_entry"
    by (rule nth_equalityI) (auto simp: nth_append)
  have same: "map (\<lambda>i. f (slice (i * ?d) ((i + 1) * ?d) (X @ Y))) [0..<m] = map (\<lambda>i. f (slice (i * ?d) ((i + 1) * ?d) X)) [0..<m]"
    if "m * ?d \<le> length X" for f :: "'a list \<Rightarrow> 'a kv_entry" and X Y
    by (rule map_cong [OF refl], subst first) (use that in simp_all)
  have mX: "m * ?d \<le> length K" "m * ?d \<le> length V" using A by simp_all
  have K: "CompressedK c' = CompressedK c @ map (\<lambda>i. key_entry ops hw c (slice (i * ?d) ((i + 1) * ?d) (K @ K'))) [0..<m + m']"
    using A B unfolding parts full slice_drop same [OF mX(1)] by (simp only: append_assoc)
  have V: "CompressedV c' = CompressedV c @ map (\<lambda>i. value_entry ops hw c (slice (i * ?d) ((i + 1) * ?d) (V @ V'))) [0..<m + m']"
    using A B unfolding parts full slice_drop same [OF mX(2)] by (simp only: append_assoc)
  have B2: "m' * ?d \<le> length (drop (m * ?d) (K @ K'))" "length (drop (m * ?d) (V @ V')) = length (drop (m * ?d) (K @ K'))"
    "FullK c' = drop (m' * ?d) (drop (m * ?d) (K @ K'))" "FullV c' = drop (m' * ?d) (drop (m * ?d) (V @ V'))"
    using B unfolding full by blast+
  have sum: "(m + m') * ?d = m' * ?d + m * ?d" by (simp add: algebra_simps)
  have "FullK c' = drop ((m + m') * ?d) (K @ K')" "FullV c' = drop ((m + m') * ?d) (V @ V')"
    unfolding B2(3,4) sum by (simp_all only: drop_drop)
  moreover have "m * ?d \<le> length (K @ K')" "m * ?d \<le> length (V @ V')" using mX by simp_all
  moreover from this have "(m + m') * ?d \<le> length (K @ K')" "length (V @ V') = length (K @ K')"
    using B2(1,2) unfolding length_drop sum by linarith+
  ultimately show ?thesis using K V by (simp only: compressed_to_def Let_def)
qed

section \<open>Appending many\<close>

lemma staged_contents:
  assumes "kv_ok c" "usable c" "simd_ok hw" "windowed c" "rows_fit c rows" "seqLen c + int (length rows) \<le> max_int64"
  shows "\<exists>m. compressed_to ops hw c m (FullK c @ concat (map fst rows)) (FullV c @ concat (map snd rows)) (staged ops hw rows c)"
  using assms(1,2,4-6)
proof (induction rows arbitrary: c)
  case Nil
  then show ?case using kv_okD(6) [OF Nil.prems(1)] by (intro exI [of _ 0]) (simp add: compressed_to_def Let_def)
next
  case (Cons r rows)
  obtain k v where r: "r = (k, v)" by (metis surj_pair)
  have fit: "int (length k) = kvDim c" "int (length v) = kvDim c" and lt: "seqLen c < max_int64"
    using Cons.prems(4,5) by (auto simp: rows_fit_def r)
  show ?case
  proof (rule Append_ok [OF Cons.prems(1,2) assms(3) Cons.prems(3) fit lt])
    fix c' assume c': "kv_Append ops hw (Some c) k v = Some c'" "kv_ok c'" "usable c'" "windowed c'" "seqLen c' = seqLen c + 1" "shape c' = shape c"
    obtain m where m: "compressed_to ops hw c m (FullK c @ k) (FullV c @ v) c'"
      using Append_contents [OF Cons.prems(1,2) assms(3) Cons.prems(3) fit lt c'(1)] by blast
    have "rows_fit c' rows" using Cons.prems(4) c'(6) by (auto simp: rows_fit_def shape_def)
    moreover have "seqLen c' + int (length rows) \<le> max_int64" using Cons.prems(5) c'(5) by simp
    ultimately obtain m' where m': "compressed_to ops hw c' m' (FullK c' @ concat (map fst rows)) (FullV c' @ concat (map snd rows)) (staged ops hw rows c')"
      using Cons.IH [OF c'(2-4)] by blast
    from compressed_to_trans [OF m m' c'(6)] show ?thesis using c'(1) by (auto simp: r)
  qed
qed

section \<open>Reading\<close>

lemma dequant_heads_row:
  assumes "\<And>packed vMin scale. deq packed vMin scale \<noteq> None"
  shows "dequant_heads deq b e h n = Some (concat (map (\<lambda>h. the (deq (slice (h * b) ((h + 1) * b) (Packed e)) (HeadVMin e ! h) (HeadScale e ! h))) [h..<h + n]))"
proof (induction n arbitrary: h)
  case (Suc n)
  have up: "[h..<h + Suc n] = h # [Suc h..<Suc h + n]" by (simp add: upt_rec)
  obtain xs where "deq (slice (h * b) ((h + 1) * b) (Packed e)) (HeadVMin e ! h) (HeadScale e ! h) = Some xs" using assms by blast
  then show ?case using Suc.IH [of "Suc h"] unfolding up by simp
qed simp

lemma dequant_entries_rows:
  assumes "\<And>packed vMin scale. deq packed vMin scale \<noteq> None" "\<And>e. e \<in> set es \<Longrightarrow> compressedEntryValid e heads b"
  shows "dequant_entries deq heads b es = Some (concat (map (row_of deq (nat heads) (nat b)) es))"
  using assms(2)
proof (induction es)
  case (Cons e es)
  then show ?case using dequant_heads_row [where deq = deq and b = "nat b" and e = e and h = 0 and n = "nat heads", OF assms(1)] by (simp add: row_of_def)
qed simp

lemma get_rows_contents:
  assumes "kv_ok c" "simd_ok hw" "seqLen c * kvDim c \<le> max_int64"
    and deq: "ready c \<Longrightarrow> (\<And>packed vMin scale. \<exists>out. deq packed vMin scale = Some out \<and> length out = nat (headDim c))"
    and side: "length es = length (CompressedK c)" "length full = length (FullK c)" "\<And>e. e \<in> set es \<Longrightarrow> entry_ok c bits e"
    and bits: "ready c \<Longrightarrow> 1 \<le> bits \<and> bits \<le> 8"
  shows "fst (get_rows deq bits c es full s) = concat (map (row_of deq (nat (numKVHeads c)) (head_bytes c bits)) es) @ full"
proof (cases "es = []")
  case True
  then show ?thesis using get_rows_spec [where deq = deq and s = s, OF assms] by auto
next
  case False
  then have "CompressedK c \<noteq> []" using side(1) by auto
  then have r: "ready c" by (rule kv_okD(10) [OF assms(1)])
  note D = kv_okD [OF assms(1)]
  obtain t where t: "tq c = Some t" and g: "0 < numKVHeads c" "0 < headDim c" "numKVHeads c * headDim c = kvDim c" "headDim c * headDim c \<le> max_int64"
    using r by (auto simp: ready_def split: option.splits)
  have b: "1 \<le> bits" "bits \<le> 8" using bits [OF r] by simp_all
  note bph = bytes_per_head(1) [OF g(2,4) b ready_bounds(3) [OF r D(1,2)]]
  have m: "MulInt (seqLen c) (kvDim c) = (seqLen c * kvDim c, True)" using D(1-4) assms(3) by (intro MulInt_small) simp_all
  have "deq packed vMin scale \<noteq> None" for packed vMin scale using deq [OF r] by fastforce
  note old = dequant_entries_rows [where deq = deq, OF this entry_valid [OF r D(1,2) side(3) b]]
  let ?old = "concat (map (row_of deq (nat (numKVHeads c)) (head_bytes c bits)) es)"
  obtain old s' r' i' where spec: "get_rows deq bits c es full s = (old @ full, s', r', i')" using get_rows_spec [where deq = deq and s = s, OF assms] by blast
  have "fst (get_rows deq bits c es full s) = take (nat (seqLen c * kvDim c)) (?old @ full)"
    using consistent [OF assms(1)] ready_geometry [OF r D(1,2)] False old
    by (simp add: get_rows_def t m bph Let_def head_bytes_def)
  moreover have "take (nat (seqLen c * kvDim c)) (?old @ full) = ?old @ full"
  proof -
    have "length ?old = length es * (nat (numKVHeads c) * nat (headDim c))"
      using dequant_entries_total [where deq = deq and d = "nat (headDim c)", OF deq [OF r] entry_valid [OF r D(1,2) side(3) b], of es] old
      by (simp add: head_bytes_def)
    then have lo: "int (length ?old) = int (length es) * kvDim c" using g(1-3) by simp
    have "int (length ?old) + int (length full) = seqLen c * kvDim c"
      unfolding lo side(1,2) D(9) by (simp add: algebra_simps)
    then have "nat (seqLen c * kvDim c) = length ?old + length full" by (metis nat_int of_nat_add)
    then show ?thesis by simp
  qed
  ultimately show ?thesis by simp
qed

lemma Get_contents:
  assumes "kv_ok c" "simd_ok hw" "seqLen c * kvDim c \<le> max_int64"
  shows "fst (GetK ops hw (Some c)) = concat (map (key_row ops hw c) (CompressedK c)) @ FullK c"
    "fst (GetV ops hw (Some c)) = concat (map (value_row ops hw c) (CompressedV c)) @ FullV c"
proof -
  note D = kv_okD [OF assms(1)]
  have "fst (get_rows (deq_key ops hw c) (key_bits c) c (CompressedK c) (FullK c) (scratchK c)) =
      concat (map (key_row ops hw c) (CompressedK c)) @ FullK c"
    using get_rows_contents [OF assms deq_total(1) [OF _ assms(2), where ops = ops] refl refl D(11)]
    by (fastforce simp: ready_def key_bits_def key_row_def split: option.splits)
  then show "fst (GetK ops hw (Some c)) = concat (map (key_row ops hw c) (CompressedK c)) @ FullK c"
    using D(1) by (cases "get_rows (deq_key ops hw c) (key_bits c) c (CompressedK c) (FullK c) (scratchK c)") (simp add: GetK_def)
  have "fst (get_rows (deq_value ops hw c) (value_bits c) c (CompressedV c) (FullV c) (scratchV c)) =
      concat (map (value_row ops hw c) (CompressedV c)) @ FullV c"
    using get_rows_contents [OF assms deq_total(2) [OF _ assms(2), where ops = ops] D(7) [symmetric] D(6) [symmetric] D(12)]
    by (fastforce simp: ready_def value_bits_def value_row_def split: option.splits)
  then show "fst (GetV ops hw (Some c)) = concat (map (value_row ops hw c) (CompressedV c)) @ FullV c"
    using D(1) by (cases "get_rows (deq_value ops hw c) (value_bits c) c (CompressedV c) (FullV c) (scratchV c)") (simp add: GetV_def)
qed

end
