(* ===== verification/KvProps.thy ===== *)
theory KvProps
  imports KvEstimateFacts KvContents Samples
begin

text \<open>
  The properties of the quantized key/value cache: the packing, the quantizer, the cache under
  staging and rollback, and the estimate of its size.
\<close>

section \<open>A small cache\<close>

definition no_simd :: "'f simd" where
  "no_simd = \<lparr>GemvRows = (\<lambda>_ _ _. None), GemvCols = (\<lambda>_ _ _. None)\<rparr>"

lemma no_simd_ok: "simd_ok no_simd"
  by (simp add: simd_ok_def no_simd_def)

definition sample_tq :: tq_config where
  "sample_tq = \<lparr>KeyBits = 4, ValueBits = 2, ProtectedLayers = [], ResidualWindow = 2\<rparr>"

definition sample_state :: "real tq_state" where
  "sample_state = NewTurboQuantState real_qops real 2 1 sample_tq"

definition sample_cache :: "real kv_cache" where
  "sample_cache = NewCompressedKVCache (1 * 2) 1 2 (Some sample_state) False"

lemma sample_cache_ok: "kv_ok sample_cache" "usable sample_cache" "windowed sample_cache" "seqLen sample_cache = 0" "kvDim sample_cache = 1 * 2"
  unfolding sample_cache_def sample_state_def by (rule new_cache; simp add: max_int64_def)+

definition sample_rows :: "(real list \<times> real list) list" where
  "sample_rows = [([1, 2], [3, 4]), ([0, 1], [1, 0]), ([5, 5], [2, 1])]"

lemma sample_rows_fit: "rows_fit sample_cache sample_rows"
  by (auto simp: rows_fit_def sample_rows_def sample_cache_ok)

lemma sample_room: "seqLen sample_cache + int (length sample_rows) \<le> max_int64"
  by (simp add: sample_cache_ok sample_rows_def max_int64_def)

section \<open>The quantizer\<close>

text \<open>Packing then unpacking gives the indices back, when each fits in the (clamped) number of
  bits.\<close>

theorem unpack_undoes_pack:
  assumes "packIndices indices bits = Some packed" "indices \<noteq> []" "\<And>w. w \<in> set indices \<Longrightarrow> uint w < 2 ^ nat (clampBits bits)"
  shows "unpackIndicesTo (length indices) packed bits = Some indices"
proof -
  have "packIndicesTo (replicate (nat (packedByteLen (int (length indices)) (clampBits bits))) 0) indices (clampBits bits) = Some packed"
    using assms(1) by (simp add: packIndices_def Let_def split: if_splits)
  from unpack_pack [OF this assms(2), where rest = "[]"]
  have "unpackIndicesTo (length indices) packed bits = Some (map (take_bit (nat (clampBits bits))) indices)"
    using assms(2) by (simp add: unpackIndicesTo_def)
  moreover have "map (take_bit (nat (clampBits bits))) indices = indices"
    by (rule map_idI) (use assms(3) take_bit_level in blast)
  ultimately show ?thesis by simp
qed

lemma sample_packed: "packIndices [5, 1, 7] 3 = Some [205, 1]"
  by code_simp

lemma unpack_undoes_pack_witness: "unpackIndicesTo 3 [205, 1] 3 = Some [5, 1, 7]"
proof -
  have "uint w < 2 ^ nat (clampBits 3)" if "w \<in> set [5, 1, 7 :: 8 word]" for w
    using that by (auto simp: clampBits_def)
  from unpack_undoes_pack [OF sample_packed _ this] show ?thesis by (simp add: numeral_3_eq_3)
qed

text \<open>C33. In exact arithmetic, every coordinate of the rotated vector is restored to within half a
  level, or to within the threshold below which a vector counts as flat.\<close>

theorem quantizer_error_bound:
  assumes "quantizeVectorTo real_qops hw dst vec rotation bits rl il = Some (packed, vMin, scale)" "simd_ok hw"
    and "unpackIndicesTo (length vec) packed bits = Some indices" "i < length vec"
  shows "\<bar>level_value real_qops (levels (clampBits bits)) vMin scale (indices ! i) - rotated_vec real_qops hw vec rotation ! i\<bar>
    \<le> max (1 / 10000000000) (scale / (2 * (of_int (levels (clampBits bits)) - 1)))"
  using quantize_error [OF assms] .

lemma quantizer_error_bound_witness:
  "\<exists>packed vMin scale indices. quantizeVectorTo real_qops no_simd [0] [3, 1] [1, 0, 0, 1] 4 2 2 = Some (packed, vMin, scale) \<and>
     \<bar>level_value real_qops (levels (clampBits 4)) vMin scale (indices ! 1) - rotated_vec real_qops no_simd [3, 1] [1, 0, 0, 1] ! 1\<bar>
       \<le> max (1 / 10000000000) (scale / (2 * (of_int (levels (clampBits 4)) - 1)))"
proof -
  have "quantizeVectorTo real_qops no_simd [0] [3, 1] [1, 0, 0, 1] 4 2 2 \<noteq> None"
    by (rule quantize_total [OF no_simd_ok, where d = 2]) (simp_all add: max_int64_def)
  then obtain p m s where q: "quantizeVectorTo real_qops no_simd [0] [3, 1] [1, 0, 0, 1] 4 2 2 = Some (p, m, s)" by auto
  obtain ix where u: "unpackIndicesTo (length [3, 1 :: real]) p 4 = Some ix" by (simp add: unpackIndicesTo_def)
  from quantizer_error_bound [OF q no_simd_ok u, of 1] q show ?thesis by auto
qed

section \<open>The cache\<close>

text \<open>C34. Appending rows keeps the cache consistent and counts positions. The oldest full rows are
  compressed, each key row into a key entry and each value row into a value entry, in order; the
  full rows left are the newest ones, unchanged; and attention reads the restored entries followed
  by the full rows, for keys and for values.\<close>

theorem cache_keeps_every_position:
  assumes "kv_ok c" "usable c" "simd_ok hw" "windowed c" "rows_fit c rows" "seqLen c + int (length rows) \<le> max_int64"
    and "(seqLen c + int (length rows)) * kvDim c \<le> max_int64"
    and "c' = staged ops hw rows c" "n = seqLen c + int (length rows)" "d = nat (kvDim c)"
    and "K = FullK c @ concat (map fst rows)" "V = FullV c @ concat (map snd rows)"
  shows "seqLen c' = n \<and> storageConsistent c' \<and>
    int (length (CompressedK c')) = (if tq c \<noteq> None \<and> \<not> isProtected c then max 0 (n - residualWindow c) else 0) \<and>
    (\<exists>m. CompressedK c' = CompressedK c @ map (\<lambda>i. key_entry ops hw c (slice (i * d) ((i + 1) * d) K)) [0..<m] \<and>
       CompressedV c' = CompressedV c @ map (\<lambda>i. value_entry ops hw c (slice (i * d) ((i + 1) * d) V)) [0..<m] \<and>
       FullK c' = drop (m * d) K \<and> FullV c' = drop (m * d) V) \<and>
    fst (GetK ops hw (Some c')) = concat (map (key_row ops hw c) (CompressedK c')) @ FullK c' \<and>
    fst (GetV ops hw (Some c')) = concat (map (value_row ops hw c) (CompressedV c')) @ FullV c'"
proof -
  note S = staged_ok [OF assms(1-6), of ops, folded assms(8,9)]
  have ok: "kv_ok c'" "windowed c'" "seqLen c' = n" using S assms(9) by auto
  have sh: "shape c' = shape c" using staged_grows [of ops hw rows c] unfolding assms(8) by metis
  then have eq: "tq c' = tq c" "isProtected c' = isProtected c" "residualWindow c' = residualWindow c" "kvDim c' = kvDim c"
    by (simp_all add: shape_def)
  have "seqLen c' * kvDim c' \<le> max_int64" using assms(7,9) by (simp add: ok(3) eq)
  note G = Get_contents [OF ok(1) assms(3) this, of ops, unfolded entry_shape [OF sh]]
  obtain m where "compressed_to ops hw c m K V c'" using staged_contents [OF assms(1-6), of ops] unfolding assms(8,11,12) by blast
  then have "\<exists>m. CompressedK c' = CompressedK c @ map (\<lambda>i. key_entry ops hw c (slice (i * d) ((i + 1) * d) K)) [0..<m] \<and>
       CompressedV c' = CompressedV c @ map (\<lambda>i. value_entry ops hw c (slice (i * d) ((i + 1) * d) V)) [0..<m] \<and>
       FullK c' = drop (m * d) K \<and> FullV c' = drop (m * d) V" by (auto simp: compressed_to_def Let_def assms(10))
  moreover have "int (length (CompressedK c')) = (if tq c \<noteq> None \<and> \<not> isProtected c then max 0 (n - residualWindow c) else 0)"
    using ok(2) by (auto simp: windowed_def compressing_def eq ok(3))
  ultimately show ?thesis using G ok(3) consistent [OF ok(1)] by blast
qed

lemma cache_keeps_every_position_witness:
  "\<exists>c'. c' = staged real_qops no_simd sample_rows sample_cache \<and> FullK c' = [0, 1, 5, 5] \<and> FullV c' = [1, 0, 2, 1] \<and>
     CompressedK c' = [key_entry real_qops no_simd sample_cache [1, 2]] \<and> CompressedV c' = [value_entry real_qops no_simd sample_cache [3, 4]]"
proof -
  let ?c = "staged real_qops no_simd sample_rows sample_cache"
  have size: "(seqLen sample_cache + int (length sample_rows)) * kvDim sample_cache \<le> max_int64"
    by (simp add: sample_cache_ok sample_rows_def max_int64_def)
  have c: "residualWindow sample_cache = 2" "tq sample_cache \<noteq> None" "\<not> isProtected sample_cache"
    "FullK sample_cache = []" "FullV sample_cache = []" "CompressedK sample_cache = []" "CompressedV sample_cache = []"
    by (simp_all add: sample_cache_def NewCompressedKVCache_def sample_state_def NewTurboQuantState_def sample_tq_def Let_def split: prod.split)
  note P = cache_keeps_every_position [OF sample_cache_ok(1,2) no_simd_ok sample_cache_ok(3) sample_rows_fit sample_room size, of ?c real_qops, OF refl refl refl refl refl]
  have "int (length (CompressedK ?c)) = max 0 (seqLen sample_cache + int (length sample_rows) - 2)" using P c(1-3) by (simp only: if_True simp_thms)
  then have one: "length (CompressedK ?c) = 1" unfolding sample_cache_ok(4) by (simp add: sample_rows_def)
  obtain m where m: "CompressedK ?c = CompressedK sample_cache @ map (\<lambda>i. key_entry real_qops no_simd sample_cache
        (slice (i * nat (kvDim sample_cache)) ((i + 1) * nat (kvDim sample_cache)) (FullK sample_cache @ concat (map fst sample_rows)))) [0..<m]"
      "CompressedV ?c = CompressedV sample_cache @ map (\<lambda>i. value_entry real_qops no_simd sample_cache
        (slice (i * nat (kvDim sample_cache)) ((i + 1) * nat (kvDim sample_cache)) (FullV sample_cache @ concat (map snd sample_rows)))) [0..<m]"
      "FullK ?c = drop (m * nat (kvDim sample_cache)) (FullK sample_cache @ concat (map fst sample_rows))"
      "FullV ?c = drop (m * nat (kvDim sample_cache)) (FullV sample_cache @ concat (map snd sample_rows))"
    using P by blast
  have "m = 1" using m(1) one by (simp add: c)
  then show ?thesis using m unfolding c sample_cache_ok(5) by (simp add: sample_rows_def slice_def)
qed

text \<open>C35. Whatever rows a verifier stages, restoring the checkpoint brings back exactly the rows,
  entries and length the cache had, also when staging compressed and dropped full rows.\<close>

theorem restore_undoes_staging:
  assumes "0 \<le> seqLen c" "seqLen c \<le> max_int64"
  shows "\<exists>c'. kv_Restore ops hw (Some (staged ops hw rows c)) (kv_Checkpoint (Some c)) = (Inr (), Some c') \<and>
    FullK c' = FullK c \<and> FullV c' = FullV c \<and> CompressedK c' = CompressedK c \<and> CompressedV c' = CompressedV c \<and> seqLen c' = seqLen c"
  using restore_staged [OF assms, of ops hw rows] by (auto simp: contents_def)

lemma restore_undoes_staging_witness:
  "\<exists>c'. kv_Restore real_qops no_simd (Some (staged real_qops no_simd sample_rows sample_cache)) (kv_Checkpoint (Some sample_cache)) =
     (Inr (), Some c') \<and> seqLen c' = 0"
  using restore_undoes_staging [of sample_cache real_qops no_simd sample_rows] by (auto simp: sample_cache_ok max_int64_def)

text \<open>C38. Keeping an accepted prefix of the staged rows succeeds and leaves exactly that many more
  positions in a consistent cache; when staging stayed within the window, the cache is the one
  that appended only the prefix.\<close>

theorem keep_accepted_prefix:
  assumes "kv_ok c" "usable c" "simd_ok hw" "windowed c" "rows_fit c rows" "seqLen c + int (length rows) \<le> max_int64"
    and "(seqLen c + int (length rows)) * kvDim c \<le> max_int64" "j \<le> length rows"
  shows "\<exists>c'. kv_KeepAppended ops hw (Some (staged ops hw rows c)) (kv_Checkpoint (Some c)) (int j) = (Inr (), Some c') \<and>
    storageConsistent c' \<and> seqLen c' = seqLen c + int j \<and>
    (seqLen c + int (length rows) \<le> residualWindow c \<longrightarrow> contents c' = contents (staged ops hw (take j rows) c))"
  using keep_staged [OF assms, of ops] consistent by (metis linorder_not_less)

lemma keep_accepted_prefix_witness:
  "\<exists>c'. kv_KeepAppended real_qops no_simd (Some (staged real_qops no_simd sample_rows sample_cache)) (kv_Checkpoint (Some sample_cache)) (int 2) =
     (Inr (), Some c') \<and> seqLen c' = 2"
proof -
  have size: "(seqLen sample_cache + int (length sample_rows)) * kvDim sample_cache \<le> max_int64"
    by (simp add: sample_cache_ok sample_rows_def max_int64_def)
  have "2 \<le> length sample_rows" by (simp add: sample_rows_def)
  from keep_accepted_prefix [OF sample_cache_ok(1,2) no_simd_ok sample_cache_ok(3) sample_rows_fit sample_room size this, of real_qops]
  show ?thesis by (auto simp: sample_cache_ok(4))
qed

section \<open>The estimate\<close>

text \<open>C39. The bytes the estimator predicts for a model are the bytes its caches report, once every
  layer has the predicted number of positions, protected layers included.\<close>

theorem estimate_is_what_caches_store:
  assumes "0 < heads" "0 < d" "0 < layers" "0 < sl" "0 \<le> ResidualWindow cfg"
    and "1 \<le> KeyBits cfg" "KeyBits cfg \<le> 8" "1 \<le> ValueBits cfg" "ValueBits cfg \<le> 8"
    and "d * d \<le> max_int64" "layers * (sl * (heads * d) * 18) \<le> max_int64"
    and "length caches = nat layers" "model_caches (NewTurboQuantState ops gauss d layers cfg) heads d (ResidualWindow cfg) sl caches"
  shows "snd (EstimateTurboQuantKVBytes ops gauss layers heads d sl cfg True None) = (\<Sum>c \<leftarrow> caches. MemoryBytes (Some c))"
  using estimate_matches [OF assms] .

lemma estimate_is_what_caches_store_witness:
  "snd (EstimateTurboQuantKVBytes real_qops real 1 1 2 3 sample_tq True None) =
     MemoryBytes (Some (staged real_qops no_simd sample_rows sample_cache))"
proof -
  let ?c = "staged real_qops no_simd sample_rows sample_cache"
  have S: "kv_ok ?c" "windowed ?c" "seqLen ?c = seqLen sample_cache + int (length sample_rows)"
    using staged_ok [OF sample_cache_ok(1,2) no_simd_ok sample_cache_ok(3) sample_rows_fit sample_room, of real_qops] by blast+
  have n: "seqLen ?c = 3" unfolding S(3) sample_cache_ok(4) by (simp add: sample_rows_def)
  have bad: "MulInt 1 2 = (2, True)" by (subst MulInt_small) (simp_all add: max_int64_def)
  have "shape ?c = shape sample_cache" using staged_grows by metis
  also have "\<dots> = (1 * 2, 1, 2, Some sample_state, False, 2)"
    by (simp add: shape_def sample_cache_def NewCompressedKVCache_def Let_def bad)
      (simp add: sample_state_def NewTurboQuantState_def sample_tq_def Let_def)
  finally have sh: "shape ?c = (1 * 2, 1, 2, Some sample_state, False, 2)" .
  have "\<not> IsProtectedLayer (Some sample_state) 0"
    by (simp add: IsProtectedLayer_def sample_state_def NewTurboQuantState_def sample_tq_def Let_def)
  then have "model_caches (NewTurboQuantState real_qops real 2 1 sample_tq) 1 2 (ResidualWindow sample_tq) 3 [?c]"
    using S n sh by (simp add: model_caches_def sample_state_def [symmetric]) (simp add: sample_tq_def)
  then show ?thesis using estimate_is_what_caches_store [of 1 2 1 3 sample_tq "[?c]" real_qops real]
    by (simp add: sample_tq_def max_int64_def)
qed

text \<open>When only the keys are given a quantized type and the values a full-precision one, the
  configuration still quantizes the values, at the default two bits.\<close>

theorem full_precision_values_are_quantized:
  assumes "ParseCacheTypeBits lower keyType = Inr (kBits, True)" "ParseCacheTypeBits lower valueType = Inr (0, False)"
  shows "snd (TurboQuantConfigFromCacheTypes lower keyType valueType rw) = Inr True \<and>
    KeyBits (fst (TurboQuantConfigFromCacheTypes lower keyType valueType rw)) = kBits \<and>
    ValueBits (fst (TurboQuantConfigFromCacheTypes lower keyType valueType rw)) = 2"
  by (simp add: TurboQuantConfigFromCacheTypes_def assms DefaultTurboQuantConfig_def Let_def)

lemma sample_types: "ParseCacheTypeBits id ''Q8_0'' = Inr (8, True)" "ParseCacheTypeBits id ''f16 '' = Inr (0, False)"
  by code_simp+

lemma full_precision_values_are_quantized_witness:
  "ValueBits (fst (TurboQuantConfigFromCacheTypes id ''Q8_0'' ''f16 '' (- 1))) = 2"
  using full_precision_values_are_quantized [OF sample_types, of "- 1"] by blast

end
