(* ===== verification/Speculative.thy ===== *)
theory Speculative
  imports KvStaging GoText
begin

text \<open>
  Speculative decoding: \<open>model/mtp_accept.go\<close> (which drafted tokens are accepted),
  \<open>model/speculative.go\<close> (proposers and the decoding loop) and the part of
  \<open>model/speculative_state.go\<close> the loop uses. The forward pass of a model, \<open>generatePrepared\<close>,
  is a function of the tokens. The layered cache of a decode state is nil on this path: only
  \<open>EnableLayeredF32KV\<close>, which the loop does not call, sets it.
\<close>

section \<open>Acceptance\<close>

record mtp_acceptance =
  DraftedCount :: int
  VerifiedCount :: int
  AcceptedPrefixLen :: int
  AcceptedTokens :: "int list"
  BonusToken :: int
  OutputTokens :: "int list"
  AllDraftsAccepted :: bool
  FirstRejectedIndex :: int

definition KVKeepTokens :: "mtp_acceptance \<Rightarrow> int" where
  "KVKeepTokens a = (if AcceptedPrefixLen a < 0 then 0 else if AcceptedPrefixLen a \<ge> max_int64 then 0 else AcceptedPrefixLen a + 1)"

fun check_accepted :: "nat \<Rightarrow> int list \<Rightarrow> int list \<Rightarrow> go_error + unit" where
  "check_accepted i [] out = Inr ()"
| "check_accepted i (tok # toks) out =
     (if tok < 0 then Inl (Errorf ''accepted token %d at index %d out of range'' [AN tok, AN (int i)])
      else if out ! i \<noteq> tok
      then Inl (Errorf ''output token %d=%d does not match accepted token %d'' [AN (int i), AN (out ! i), AN tok])
      else check_accepted (Suc i) toks out)"

definition mtp_Validate :: "mtp_acceptance \<Rightarrow> go_error + unit" where
  "mtp_Validate a =
     (if DraftedCount a < 0 \<or> VerifiedCount a < 0 \<or> AcceptedPrefixLen a < 0
      then Inl (Errorf ''invalid MTP acceptance counts drafted=%d verified=%d accepted=%d''
             [AN (DraftedCount a), AN (VerifiedCount a), AN (AcceptedPrefixLen a)])
      else if AcceptedPrefixLen a > DraftedCount a
      then Inl (Errorf ''accepted prefix len=%d exceeds drafted count=%d'' [AN (AcceptedPrefixLen a), AN (DraftedCount a)])
      else if VerifiedCount a \<noteq> AcceptedPrefixLen a
      then Inl (Errorf ''verified count=%d differs from accepted prefix len=%d'' [AN (VerifiedCount a), AN (AcceptedPrefixLen a)])
      else if int (length (AcceptedTokens a)) \<noteq> AcceptedPrefixLen a
      then Inl (Errorf ''accepted tokens len=%d, want accepted prefix len=%d''
             [AN (int (length (AcceptedTokens a))), AN (AcceptedPrefixLen a)])
      else let keep = KVKeepTokens a in
        if keep \<le> 0
        then Inl (Errorf ''accepted prefix len=%d cannot be converted to KV keep count'' [AN (AcceptedPrefixLen a)])
        else if int (length (OutputTokens a)) \<noteq> keep
        then Inl (Errorf ''output tokens len=%d, want accepted prefix plus bonus=%d'' [AN (int (length (OutputTokens a))), AN keep])
        else res_bind (check_accepted 0 (AcceptedTokens a) (OutputTokens a)) (\<lambda>_.
          if BonusToken a < 0 then Inl (Errorf ''bonus token %d out of range'' [AN (BonusToken a)])
          else if OutputTokens a ! nat (AcceptedPrefixLen a) \<noteq> BonusToken a
          then Inl (Errorf ''output bonus token=%d does not match bonus=%d'' [AN (OutputTokens a ! nat (AcceptedPrefixLen a)), AN (BonusToken a)])
          else if AllDraftsAccepted a
          then (if AcceptedPrefixLen a \<noteq> DraftedCount a \<or> FirstRejectedIndex a \<noteq> - 1
                then Inl (Errorf ''all-accepted state inconsistent: accepted=%d drafted=%d firstRejected=%d''
                       [AN (AcceptedPrefixLen a), AN (DraftedCount a), AN (FirstRejectedIndex a)])
                else Inr ())
          else if AcceptedPrefixLen a \<ge> DraftedCount a
          then Inl (Errorf ''rejected state has accepted=%d drafted=%d'' [AN (AcceptedPrefixLen a), AN (DraftedCount a)])
          else if FirstRejectedIndex a \<noteq> AcceptedPrefixLen a
          then Inl (Errorf ''first rejected index=%d, want accepted prefix len=%d'' [AN (FirstRejectedIndex a), AN (AcceptedPrefixLen a)])
          else Inr ()))"

definition CommitAcceptedFloatKV ::
  "'f list list \<Rightarrow> 'f list list \<Rightarrow> float_checkpoint \<Rightarrow> int list \<Rightarrow> mtp_acceptance \<Rightarrow> (go_error + unit) \<times> 'f list list \<times> 'f list list" where
  "CommitAcceptedFloatKV kvCacheK kvCacheV cp kvDims a =
     (case mtp_Validate a of Inl e \<Rightarrow> (Inl e, kvCacheK, kvCacheV)
      | Inr _ \<Rightarrow> if KVKeepTokens a \<le> 0
          then (Inl (Errorf ''invalid MTP KV keep token count from accepted prefix %d'' [AN (AcceptedPrefixLen a)]), kvCacheK, kvCacheV)
          else float_KeepAppended cp kvCacheK kvCacheV kvDims (KVKeepTokens a))"

definition CommitAcceptedCompressedKV ::
  "'f qops \<Rightarrow> 'f simd \<Rightarrow> 'f kv_cache option list \<Rightarrow> 'f kv_checkpoint list \<Rightarrow> mtp_acceptance \<Rightarrow> (go_error + unit) \<times> 'f kv_cache option list" where
  "CommitAcceptedCompressedKV ops hw caches cp a =
     (case mtp_Validate a of Inl e \<Rightarrow> (Inl e, caches)
      | Inr _ \<Rightarrow> if KVKeepTokens a \<le> 0
          then (Inl (Errorf ''invalid MTP KV keep token count from accepted prefix %d'' [AN (AcceptedPrefixLen a)]), caches)
          else KeepCompressedKVAppended ops hw caches cp (KVKeepTokens a))"

fun check_tokens :: "string \<Rightarrow> nat \<Rightarrow> int list \<Rightarrow> go_error + unit" where
  "check_tokens what i [] = Inr ()"
| "check_tokens what i (tok # toks) =
     (if tok < 0 then Inl (Errorf (what @ '' token %d at index %d out of range'') [AN tok, AN (int i)])
      else check_tokens what (Suc i) toks)"

text \<open>The loop that counts the accepted tokens.\<close>

fun match_len :: "int list \<Rightarrow> int list \<Rightarrow> nat" where
  "match_len (d # ds) (v # vs) = (if d = v then Suc (match_len ds vs) else 0)"
| "match_len _ _ = 0"

definition AcceptMTPDraft :: "int list \<Rightarrow> int list \<Rightarrow> go_error + mtp_acceptance" where
  "AcceptMTPDraft drafted verifier =
     res_bind (check_tokens ''drafted'' 0 drafted) (\<lambda>_. res_bind (check_tokens ''verifier'' 0 verifier) (\<lambda>_.
       let g = length drafted in
       if length verifier \<noteq> g + 1
       then Inl (Errorf ''verifier token count=%d, want drafted+1=%d'' [AN (int (length verifier)), AN (int (g + 1))])
       else let accepted = match_len drafted verifier; bonus = verifier ! accepted;
                acceptedTokens = take accepted drafted; allAccepted = (accepted = g) in
         Inr \<lparr>DraftedCount = int g, VerifiedCount = int accepted, AcceptedPrefixLen = int accepted,
              AcceptedTokens = acceptedTokens, BonusToken = bonus, OutputTokens = acceptedTokens @ [bonus],
              AllDraftsAccepted = allAccepted, FirstRejectedIndex = (if allAccepted then - 1 else int accepted)\<rparr>))"

section \<open>Configuration\<close>

record spec_config =
  Enabled :: bool
  BlockSize :: int
  NGram :: int
  MinProposal :: int
  cfg_Proposer :: string
  cfg_Backend :: string
  Debug :: bool

text \<open>\<open>strconv.Atoi\<close>: the value, when it is a decimal number in range.\<close>

definition digits_value :: "string \<Rightarrow> int option" where
  "digits_value s = (if s = [] \<or> (\<exists>c \<in> set s. byte c < 48 \<or> 57 < byte c) then None
     else Some (fold (\<lambda>c v. v * 10 + int (byte c - 48)) s 0))"

definition Atoi :: "string \<Rightarrow> int option" where
  "Atoi s =
     (let (neg, ds) = (case s of c # r \<Rightarrow> if c = CHR ''-'' then (True, r) else if c = CHR ''+'' then (False, r) else (False, s)
                       | [] \<Rightarrow> (False, [])) in
      case digits_value ds of None \<Rightarrow> None
      | Some v \<Rightarrow> let n = (if neg then - v else v) in if in_int64 n then Some n else None)"

definition envString :: "(string \<Rightarrow> string) \<Rightarrow> string \<Rightarrow> string \<Rightarrow> string" where
  "envString env name def = (if env name \<noteq> '''' then env name else def)"

definition envPositiveInt :: "(string \<Rightarrow> string) \<Rightarrow> string \<Rightarrow> int \<Rightarrow> int" where
  "envPositiveInt env name def = (if env name \<noteq> ''''
     then (case Atoi (env name) of Some n \<Rightarrow> if n > 0 then n else def | None \<Rightarrow> def) else def)"

definition Normalize :: "(nat \<Rightarrow> nat) \<Rightarrow> spec_config \<Rightarrow> spec_config" where
  "Normalize lower cfg =
     (let p = ToLower lower (TrimSpace (cfg_Proposer cfg)); b = ToLower lower (TrimSpace (cfg_Backend cfg)) in
      cfg\<lparr>BlockSize := (if BlockSize cfg \<le> 0 then 8 else BlockSize cfg), NGram := (if NGram cfg \<le> 0 then 4 else NGram cfg),
        MinProposal := (if MinProposal cfg \<le> 0 then 2 else MinProposal cfg),
        cfg_Proposer := (if p = '''' then ''prompt'' else p), cfg_Backend := (if b = '''' then ''replay'' else b)\<rparr>)"

definition SpeculativeConfigFromEnv :: "(nat \<Rightarrow> nat) \<Rightarrow> (string \<Rightarrow> string) \<Rightarrow> spec_config" where
  "SpeculativeConfigFromEnv lower env = Normalize lower
     \<lparr>Enabled = (env ''GO_PHERENCE_SPECULATIVE'' = ''1''),
      BlockSize = envPositiveInt env ''GO_PHERENCE_SPECULATIVE_BLOCK'' 8,
      NGram = envPositiveInt env ''GO_PHERENCE_SPECULATIVE_NGRAM'' 4,
      MinProposal = envPositiveInt env ''GO_PHERENCE_SPECULATIVE_MIN_PROPOSAL'' 2,
      cfg_Proposer = envString env ''GO_PHERENCE_SPECULATIVE_PROPOSER'' ''prompt'',
      cfg_Backend = envString env ''GO_PHERENCE_SPECULATIVE_BACKEND'' ''replay'',
      Debug = (env ''GO_PHERENCE_SPECULATIVE_DEBUG'' = ''1'')\<rparr>"

section \<open>Proposers\<close>

definition ngram_match :: "int list \<Rightarrow> nat \<Rightarrow> nat \<Rightarrow> bool" where
  "ngram_match ctx n i \<longleftrightarrow> (let start = length ctx - n in list_all (\<lambda>j. ctx ! (i + j) = ctx ! (start + j)) [0..<n])"

text \<open>The last \<open>i\<close> with \<open>i + n < len\<close> at which the suffix of length \<open>n\<close> occurs.\<close>

definition last_match :: "int list \<Rightarrow> nat \<Rightarrow> nat option" where
  "last_match ctx n = fold (\<lambda>i best. if ngram_match ctx n i then Some i else best) [0..<length ctx - n] None"

fun prompt_lookup :: "int list \<Rightarrow> int \<Rightarrow> nat \<Rightarrow> int list" where
  "prompt_lookup ctx mx 0 = []"
| "prompt_lookup ctx mx (Suc m) =
     (let n = Suc m in case last_match ctx n of
        Some best \<Rightarrow> let avail = int (length ctx) - int (best + n) in
          if avail \<le> 0 then prompt_lookup ctx mx m
          else take (nat (if avail > mx then mx else avail)) (drop (best + n) ctx)
      | None \<Rightarrow> prompt_lookup ctx mx m)"

definition PromptLookupProposal :: "int list \<Rightarrow> int \<Rightarrow> int \<Rightarrow> int list" where
  "PromptLookupProposal ctx mx maxNGram =
     (if mx \<le> 0 \<or> length ctx < 2 then []
      else let n = (if maxNGram \<le> 0 \<or> maxNGram > int (length ctx) - 1 then int (length ctx) - 1 else maxNGram)
        in prompt_lookup ctx mx (nat n))"

datatype proposer = NoopProposer | PromptLookupProposer int | RepeatLastProposer

definition Propose :: "proposer \<Rightarrow> int list \<Rightarrow> int \<Rightarrow> int list" where
  "Propose p ctx mx = (case p of NoopProposer \<Rightarrow> []
     | PromptLookupProposer n \<Rightarrow> PromptLookupProposal ctx mx n
     | RepeatLastProposer \<Rightarrow> if mx \<le> 0 \<or> ctx = [] then [] else replicate (nat mx) (ctx ! (length ctx - 1)))"

definition proposer_Name :: "proposer \<Rightarrow> string" where
  "proposer_Name p = (case p of NoopProposer \<Rightarrow> ''none'' | PromptLookupProposer _ \<Rightarrow> ''prompt'' | RepeatLastProposer \<Rightarrow> ''repeat-last'')"

definition NewSpeculativeProposer :: "spec_config \<Rightarrow> proposer" where
  "NewSpeculativeProposer cfg =
     (let p = cfg_Proposer cfg in
      if p \<in> {''none'', ''off'', ''disabled''} then NoopProposer
      else if p \<in> {''repeat'', ''repeat-last'', ''last''} then RepeatLastProposer
      else PromptLookupProposer (NGram cfg))"

section \<open>Statistics\<close>

record spec_stats =
  ss_VerifierBackend :: string
  ss_Proposer :: string
  Steps :: int
  ProposalSteps :: int
  ProposedTokens :: int
  AcceptedCount :: int
  BonusTokens :: int
  FallbackSteps :: int

definition zero_spec_stats :: spec_stats where
  "zero_spec_stats = \<lparr>ss_VerifierBackend = '''', ss_Proposer = '''', Steps = 0, ProposalSteps = 0, ProposedTokens = 0,
     AcceptedCount = 0, BonusTokens = 0, FallbackSteps = 0\<rparr>"

definition stats_Add :: "spec_stats \<Rightarrow> spec_stats \<Rightarrow> spec_stats" where
  "stats_Add s other = \<lparr>ss_VerifierBackend = (if ss_VerifierBackend s = '''' then ss_VerifierBackend other else ss_VerifierBackend s),
     ss_Proposer = (if ss_Proposer s = '''' then ss_Proposer other else ss_Proposer s),
     Steps = wrap64 (Steps s + Steps other), ProposalSteps = wrap64 (ProposalSteps s + ProposalSteps other),
     ProposedTokens = wrap64 (ProposedTokens s + ProposedTokens other), AcceptedCount = wrap64 (AcceptedCount s + AcceptedCount other),
     BonusTokens = wrap64 (BonusTokens s + BonusTokens other), FallbackSteps = wrap64 (FallbackSteps s + FallbackSteps other)\<rparr>"

definition stats_Average :: "spec_stats \<Rightarrow> int \<Rightarrow> spec_stats" where
  "stats_Average s n = (if n \<le> 1 then s else s\<lparr>Steps := go_quot (Steps s) n, ProposalSteps := go_quot (ProposalSteps s) n,
     ProposedTokens := go_quot (ProposedTokens s) n, AcceptedCount := go_quot (AcceptedCount s) n,
     BonusTokens := go_quot (BonusTokens s) n, FallbackSteps := go_quot (FallbackSteps s) n\<rparr>)"

definition AcceptanceRate :: "('f, 'm) fops_scheme \<Rightarrow> spec_stats \<Rightarrow> 'f" where
  "AcceptanceRate ops s = (if ProposedTokens s \<le> 0 then f_zero ops
     else f_div ops (f_of_int ops (AcceptedCount s)) (f_of_int ops (ProposedTokens s)))"

definition EmittedTokens :: "spec_stats \<Rightarrow> int" where
  "EmittedTokens s = wrap64 (wrap64 (AcceptedCount s + BonusTokens s) + FallbackSteps s)"

definition TokensPerStep :: "('f, 'm) fops_scheme \<Rightarrow> spec_stats \<Rightarrow> 'f" where
  "TokensPerStep ops s = (if Steps s \<le> 0 then f_zero ops
     else f_div ops (f_of_int ops (EmittedTokens s)) (f_of_int ops (Steps s)))"

definition AverageProposalLen :: "('f, 'm) fops_scheme \<Rightarrow> spec_stats \<Rightarrow> 'f" where
  "AverageProposalLen ops s = (if ProposalSteps s \<le> 0 then f_zero ops
     else f_div ops (f_of_int ops (ProposedTokens s)) (f_of_int ops (ProposalSteps s)))"

section \<open>The decode state\<close>

text \<open>What the loop uses of a model: the template around the prompt, generation from prepared tokens, and
  the key/value widths of the layers.\<close>

record llama =
  prepareGenerateTokens :: "int list \<Rightarrow> int list"
  generatePrepared :: "int list \<Rightarrow> int \<Rightarrow> int list"
  LayerKVDims :: "go_error + int list"

record 'f cpu_decode_state =
  Model :: "llama option"
  Output :: "int list"
  KVCacheK :: "'f list list"
  KVCacheV :: "'f list list"
  CompressedKV :: "'f kv_cache option list option"
  KVDims :: "int list"
  ds_backend :: string

record 'f cpu_decode_checkpoint =
  OutputLen :: int
  cp_FloatKV :: float_checkpoint
  cp_CompressedKV :: "'f kv_checkpoint list"

fun capacity_check :: "int \<Rightarrow> nat \<Rightarrow> int list \<Rightarrow> go_error + unit" where
  "capacity_check maxSeq i [] = Inr ()"
| "capacity_check maxSeq i (d # ds) =
     (if d \<le> 0 then capacity_check maxSeq (Suc i) ds
      else if maxSeq > go_quot max_int64 d
      then Inl (Errorf ''layer %d KV capacity overflow: seq=%d dim=%d'' [AN (int i), AN maxSeq, AN d])
      else capacity_check maxSeq (Suc i) ds)"

definition NewCPUDecodeStateForSpeculative :: "llama option \<Rightarrow> int list \<Rightarrow> int \<Rightarrow> string \<Rightarrow> go_error + 'f cpu_decode_state" where
  "NewCPUDecodeStateForSpeculative mo prepared maxTokens backend =
     (case mo of None \<Rightarrow> Inl (Errorf ''nil model'' [])
      | Some m \<Rightarrow> if maxTokens < 0 then Inl (Errorf ''maxTokens=%d must be >= 0'' [AN maxTokens])
        else res_bind (LayerKVDims m) (\<lambda>dims.
          if maxTokens > max_int64 - int (length prepared)
          then Inl (Errorf ''KV max sequence overflow: prepared=%d maxTokens=%d'' [AN (int (length prepared)), AN maxTokens])
          else let maxSeq0 = int (length prepared) + maxTokens; maxSeq = (if maxSeq0 < 1 then 1 else maxSeq0) in
            res_bind (capacity_check maxSeq 0 dims) (\<lambda>_.
              Inr \<lparr>Model = Some m, Output = prepared, KVCacheK = replicate (length dims) [], KVCacheV = replicate (length dims) [],
                   CompressedKV = None, KVDims = dims, ds_backend = ''replay''\<rparr>)))"

definition VerifierBackend :: "'f cpu_decode_state \<Rightarrow> string" where
  "VerifierBackend s = (if ds_backend s = '''' then ''replay'' else ds_backend s)"

definition DecodeOneGreedy :: "'f cpu_decode_state \<Rightarrow> (go_error + int) \<times> 'f cpu_decode_state" where
  "DecodeOneGreedy s = (case Model s of None \<Rightarrow> (Inl (Errorf ''nil decode state/model'' []), s)
     | Some m \<Rightarrow> let verified = generatePrepared m (Output s) 1 in
         if length verified \<le> length (Output s) then (Inl (Errorf ''decode produced no token'' []), s)
         else let tok = verified ! length (Output s) in (Inr tok, s\<lparr>Output := Output s @ [tok]\<rparr>))"

fun greedy_loop :: "nat \<Rightarrow> 'f cpu_decode_state \<Rightarrow> (go_error + unit) \<times> 'f cpu_decode_state" where
  "greedy_loop 0 s = (Inr (), s)"
| "greedy_loop (Suc n) s = (case DecodeOneGreedy s of (Inl e, s') \<Rightarrow> (Inl e, s') | (Inr _, s') \<Rightarrow> greedy_loop n s')"

definition GenerateGreedy :: "int \<Rightarrow> 'f cpu_decode_state \<Rightarrow> (go_error + unit) \<times> 'f cpu_decode_state" where
  "GenerateGreedy n s = (if n < 0 then (Inl (Errorf ''generate greedy n=%d must be >= 0'' [AN n]), s) else greedy_loop (nat n) s)"

definition no_float_checkpoint :: float_checkpoint where
  "no_float_checkpoint = \<lparr>KLen = [], VLen = []\<rparr>"

definition ds_Checkpoint :: "'f cpu_decode_state \<Rightarrow> 'f cpu_decode_checkpoint" where
  "ds_Checkpoint s = (case CompressedKV s of
     Some caches \<Rightarrow> \<lparr>OutputLen = int (length (Output s)), cp_FloatKV = no_float_checkpoint, cp_CompressedKV = CheckpointCompressedKV caches\<rparr>
   | None \<Rightarrow> \<lparr>OutputLen = int (length (Output s)), cp_FloatKV = CheckpointFloatKV (KVCacheK s) (KVCacheV s), cp_CompressedKV = []\<rparr>)"

definition bad_output_len :: "'f cpu_decode_checkpoint \<Rightarrow> 'f cpu_decode_state \<Rightarrow> bool" where
  "bad_output_len cp s \<longleftrightarrow> OutputLen cp < 0 \<or> OutputLen cp > int (length (Output s))"

definition output_len_error :: "'f cpu_decode_checkpoint \<Rightarrow> 'f cpu_decode_state \<Rightarrow> go_error" where
  "output_len_error cp s = Errorf ''checkpoint output len=%d outside current len=%d'' [AN (OutputLen cp), AN (int (length (Output s)))]"

definition ds_Restore :: "'f qops \<Rightarrow> 'f simd \<Rightarrow> 'f cpu_decode_checkpoint \<Rightarrow> 'f cpu_decode_state \<Rightarrow> (go_error + unit) \<times> 'f cpu_decode_state" where
  "ds_Restore ops hw cp s =
     (if bad_output_len cp s then (Inl (output_len_error cp s), s)
      else let s1 = s\<lparr>Output := take (nat (OutputLen cp)) (Output s)\<rparr> in
        case CompressedKV s1 of
          Some caches \<Rightarrow> (case RestoreCompressedKV ops hw caches (cp_CompressedKV cp) of (r, caches') \<Rightarrow> (r, s1\<lparr>CompressedKV := Some caches'\<rparr>))
        | None \<Rightarrow> (case float_Restore (cp_FloatKV cp) (KVCacheK s1) (KVCacheV s1) of (r, k, v) \<Rightarrow> (r, s1\<lparr>KVCacheK := k, KVCacheV := v\<rparr>)))"

definition CommitAcceptedOutputOnly :: "'f cpu_decode_checkpoint \<Rightarrow> mtp_acceptance \<Rightarrow> 'f cpu_decode_state \<Rightarrow> (go_error + unit) \<times> 'f cpu_decode_state" where
  "CommitAcceptedOutputOnly cp a s =
     (case mtp_Validate a of Inl e \<Rightarrow> (Inl e, s)
      | Inr _ \<Rightarrow> if bad_output_len cp s then (Inl (output_len_error cp s), s)
          else (Inr (), s\<lparr>Output := take (nat (OutputLen cp)) (Output s) @ OutputTokens a\<rparr>))"

definition CommitAccepted ::
  "'f qops \<Rightarrow> 'f simd \<Rightarrow> 'f cpu_decode_checkpoint \<Rightarrow> mtp_acceptance \<Rightarrow> 'f cpu_decode_state \<Rightarrow> (go_error + unit) \<times> 'f cpu_decode_state" where
  "CommitAccepted ops hw cp a s =
     (case mtp_Validate a of Inl e \<Rightarrow> (Inl e, s)
      | Inr _ \<Rightarrow> if bad_output_len cp s then (Inl (output_len_error cp s), s)
          else let (r, s1) = (case CompressedKV s of
              Some caches \<Rightarrow> (case KeepCompressedKVAppended ops hw caches (cp_CompressedKV cp) (KVKeepTokens a) of
                (r, caches') \<Rightarrow> (r, s\<lparr>CompressedKV := Some caches'\<rparr>))
            | None \<Rightarrow> (case CommitAcceptedFloatKV (KVCacheK s) (KVCacheV s) (cp_FloatKV cp) (KVDims s) a of
                (r, k, v) \<Rightarrow> (r, s\<lparr>KVCacheK := k, KVCacheV := v\<rparr>))) in
            case r of Inl e \<Rightarrow> (Inl e, s1)
            | Inr _ \<Rightarrow> (Inr (), s1\<lparr>Output := take (nat (OutputLen cp)) (Output s1) @ OutputTokens a\<rparr>))"

text \<open>The verifier decodes on a shadow of the state, from token \<open>i\<close> on, \<open>n\<close> to go.\<close>

fun verify_loop :: "nat \<Rightarrow> nat \<Rightarrow> 'f cpu_decode_state \<Rightarrow> int list \<Rightarrow> go_error + int list" where
  "verify_loop i 0 shadow toks = Inr toks"
| "verify_loop i (Suc n) shadow toks = (case DecodeOneGreedy shadow of
     (Inl e, _) \<Rightarrow> Inl (Wrapf ''verifier token %d: %w'' [AN (int i)] e)
   | (Inr tok, shadow') \<Rightarrow> verify_loop (Suc i) n shadow' (toks @ [tok]))"

definition VerifyGreedyBlock :: "int list \<Rightarrow> 'f cpu_decode_state \<Rightarrow> go_error + mtp_acceptance" where
  "VerifyGreedyBlock drafted s = (case Model s of None \<Rightarrow> Inl (Errorf ''nil decode state/model'' [])
     | Some _ \<Rightarrow> res_bind (verify_loop 0 (length drafted + 1) s []) (AcceptMTPDraft drafted))"

section \<open>The decoding loop\<close>

text \<open>The fallback of the loop: one greedy token, after rolling back to the checkpoint where the code does.\<close>

definition fall_back :: "'f cpu_decode_state \<Rightarrow> spec_stats \<Rightarrow> bool \<times> 'f cpu_decode_state \<times> spec_stats" where
  "fall_back s stats = (case GenerateGreedy 1 s of (r, s') \<Rightarrow>
     (case r of Inl _ \<Rightarrow> False | Inr _ \<Rightarrow> True, s', stats\<lparr>FallbackSteps := FallbackSteps stats + 1\<rparr>))"

definition cut_output :: "nat \<Rightarrow> 'f cpu_decode_state \<Rightarrow> 'f cpu_decode_state" where
  "cut_output limit s = (if length (Output s) > limit then s\<lparr>Output := take limit (Output s)\<rparr> else s)"

text \<open>One turn of the loop; the flag is whether the loop goes on. \<open>limit\<close> is \<open>len(prepared)+maxTokens\<close>.\<close>

definition spec_step ::
  "'f qops \<Rightarrow> 'f simd \<Rightarrow> spec_config \<Rightarrow> proposer \<Rightarrow> nat \<Rightarrow> 'f cpu_decode_state \<Rightarrow> spec_stats \<Rightarrow> bool \<times> 'f cpu_decode_state \<times> spec_stats" where
  "spec_step ops hw cfg p limit s stats0 =
     (let stats = stats0\<lparr>Steps := Steps stats0 + 1\<rparr>;
          remaining = int limit - int (length (Output s));
          block = (if BlockSize cfg \<le> 0 \<or> BlockSize cfg > remaining - 1 then remaining - 1 else BlockSize cfg);
          proposal = Propose p (Output s) block in
      if int (length proposal) < MinProposal cfg then fall_back s stats
      else let stats1 = stats\<lparr>ProposalSteps := ProposalSteps stats + 1, ProposedTokens := ProposedTokens stats + int (length proposal)\<rparr>;
               checkpoint = ds_Checkpoint s in
        case VerifyGreedyBlock proposal s of
          Inl _ \<Rightarrow> fall_back (snd (ds_Restore ops hw checkpoint s)) stats1
        | Inr acceptance \<Rightarrow>
            (case CommitAcceptedOutputOnly checkpoint acceptance s of
               (Inl _, s1) \<Rightarrow> (case fall_back (snd (ds_Restore ops hw checkpoint s1)) stats1 of
                  (go, s2, stats2) \<Rightarrow> (go, if go then cut_output limit s2 else s2, stats2))
             | (Inr _, s1) \<Rightarrow> (True, cut_output limit s1,
                  stats1\<lparr>AcceptedCount := AcceptedCount stats1 + AcceptedPrefixLen acceptance, BonusTokens := BonusTokens stats1 + 1\<rparr>)))"

text \<open>Every turn after which the loop goes on makes the output longer.\<close>

lemma restore_output: "Output (snd (ds_Restore ops hw (ds_Checkpoint s) s)) = Output s \<and> Model (snd (ds_Restore ops hw (ds_Checkpoint s) s)) = Model s"
  by (simp add: ds_Restore_def bad_output_len_def ds_Checkpoint_def Let_def split: option.split prod.split)

lemma fall_back_output:
  assumes "fall_back s stats = (go, s', stats')"
  shows "Model s' = Model s" "go \<Longrightarrow> \<exists>tok. DecodeOneGreedy s = (Inr tok, s') \<and> Output s' = Output s @ [tok]"
    "\<not> go \<Longrightarrow> Output s' = Output s \<and> (\<exists>e. fst (DecodeOneGreedy s) = Inl e)"
  using assms by (auto simp: fall_back_def GenerateGreedy_def DecodeOneGreedy_def Let_def numeral_eq_Suc split: prod.splits sum.splits option.splits if_splits)

lemma commit_output:
  assumes "CommitAcceptedOutputOnly (ds_Checkpoint s) a s = (r, s')"
  shows "Model s' = Model s" "r = Inl e \<Longrightarrow> s' = s"
    "r = Inr u \<Longrightarrow> Output s' = Output s @ OutputTokens a \<and> OutputTokens a \<noteq> []"
proof -
  have len: "0 < length (OutputTokens a)" if "mtp_Validate a = Inr u" for u
    using that by (auto simp: mtp_Validate_def Let_def split: if_splits)
  show "Model s' = Model s" "r = Inl e \<Longrightarrow> s' = s" "r = Inr u \<Longrightarrow> Output s' = Output s @ OutputTokens a \<and> OutputTokens a \<noteq> []"
    using assms len by (auto simp: CommitAcceptedOutputOnly_def bad_output_len_def ds_Checkpoint_def split: sum.splits if_splits option.splits)
qed

definition block_len :: "spec_config \<Rightarrow> nat \<Rightarrow> 'f cpu_decode_state \<Rightarrow> int" where
  "block_len cfg limit s = (let remaining = int limit - int (length (Output s)) in
     if BlockSize cfg \<le> 0 \<or> BlockSize cfg > remaining - 1 then remaining - 1 else BlockSize cfg)"

lemma spec_step_cases:
  assumes "spec_step ops hw cfg p limit s stats = (go, s', stats')"
  obtains (greedy) t st s2 where "fall_back t st = (go, s2, stats')" "Output t = Output s" "Model t = Model s"
      "s' = s2 \<or> go \<and> s' = cut_output limit s2"
      "AcceptedCount st = AcceptedCount stats" "BonusTokens st = BonusTokens stats" "FallbackSteps st = FallbackSteps stats"
    | (block) a s1 where "VerifyGreedyBlock (Propose p (Output s) (block_len cfg limit s)) s = Inr a" "go"
      "CommitAcceptedOutputOnly (ds_Checkpoint s) a s = (Inr (), s1)" "s' = cut_output limit s1"
      "AcceptedCount stats' = AcceptedCount stats + AcceptedPrefixLen a" "BonusTokens stats' = BonusTokens stats + 1"
      "FallbackSteps stats' = FallbackSteps stats"
proof -
  let ?draft = "Propose p (Output s) (block_len cfg limit s)"
  let ?st = "stats\<lparr>Steps := Steps stats + 1\<rparr>"
  let ?st1 = "?st\<lparr>ProposalSteps := ProposalSteps ?st + 1, ProposedTokens := ProposedTokens ?st + int (length ?draft)\<rparr>"
  have step: "spec_step ops hw cfg p limit s stats = (if int (length ?draft) < MinProposal cfg then fall_back s ?st
      else case VerifyGreedyBlock ?draft s of
          Inl _ \<Rightarrow> fall_back (snd (ds_Restore ops hw (ds_Checkpoint s) s)) ?st1
        | Inr a \<Rightarrow> (case CommitAcceptedOutputOnly (ds_Checkpoint s) a s of
               (Inl _, s1) \<Rightarrow> (case fall_back (snd (ds_Restore ops hw (ds_Checkpoint s) s1)) ?st1 of
                  (go, s2, stats2) \<Rightarrow> (go, if go then cut_output limit s2 else s2, stats2))
             | (Inr _, s1) \<Rightarrow> (True, cut_output limit s1,
                  ?st1\<lparr>AcceptedCount := AcceptedCount ?st1 + AcceptedPrefixLen a, BonusTokens := BonusTokens ?st1 + 1\<rparr>)))"
    unfolding spec_step_def block_len_def Let_def ..
  consider (short) "int (length ?draft) < MinProposal cfg"
    | (failed) e where "\<not> int (length ?draft) < MinProposal cfg" "VerifyGreedyBlock ?draft s = Inl e"
    | (refused) a e s1 where "\<not> int (length ?draft) < MinProposal cfg" "VerifyGreedyBlock ?draft s = Inr a"
        "CommitAcceptedOutputOnly (ds_Checkpoint s) a s = (Inl e, s1)"
    | (kept) a s1 where "\<not> int (length ?draft) < MinProposal cfg" "VerifyGreedyBlock ?draft s = Inr a"
        "CommitAcceptedOutputOnly (ds_Checkpoint s) a s = (Inr (), s1)"
  proof (cases "VerifyGreedyBlock ?draft s")
    case (Inr a)
    obtain r s1 where "CommitAcceptedOutputOnly (ds_Checkpoint s) a s = (r, s1)" by fastforce
    with Inr that show thesis by (cases r; cases "int (length ?draft) < MinProposal cfg") auto
  qed (use that in auto)
  then show thesis
  proof cases
    case short
    then show thesis using assms unfolding step by (intro greedy [of s ?st s']) simp_all
  next
    case failed
    then show thesis using assms unfolding step
      by (intro greedy [of "snd (ds_Restore ops hw (ds_Checkpoint s) s)" ?st1 s']) (simp_all add: restore_output)
  next
    case refused
    have "s1 = s" by (rule commit_output(2) [OF refused(3) refl])
    obtain g s2 st2 where f: "fall_back (snd (ds_Restore ops hw (ds_Checkpoint s) s)) ?st1 = (g, s2, st2)" by (metis surj_pair)
    have eq: "spec_step ops hw cfg p limit s stats = (g, if g then cut_output limit s2 else s2, st2)"
      unfolding step refused(2,3) sum.case prod.case \<open>s1 = s\<close> f using refused(1) by simp
    have r: "g = go" "s' = (if g then cut_output limit s2 else s2)" "st2 = stats'" using assms unfolding eq by auto
    have "fall_back (snd (ds_Restore ops hw (ds_Checkpoint s) s)) ?st1 = (go, s2, stats')" using f r by simp
    then show thesis by (rule greedy) (use r in \<open>auto simp: restore_output\<close>)
  next
    case kept
    then show thesis using assms unfolding step by (intro block [of a s1]) auto
  qed
qed

lemma spec_step_grows:
  assumes "spec_step ops hw cfg p limit s stats = (True, s', stats')" "length (Output s) < limit"
  shows "length (Output s) < length (Output s')"
proof -
  have cut: "length (Output s) < length (Output (cut_output limit t))" if "length (Output s) < length (Output t)" for t
    using that assms(2) by (auto simp: cut_output_def)
  from assms(1) show ?thesis
  proof (cases rule: spec_step_cases)
    case (greedy t st s2)
    from fall_back_output(2) [OF greedy(1)] have "length (Output s) < length (Output s2)" using greedy(2) by auto
    then show ?thesis using greedy(4) cut by auto
  next
    case (block a s1)
    from commit_output(3) [OF block(3) refl] have "length (Output s) < length (Output s1)" by auto
    then show ?thesis using block(4) cut by simp
  qed
qed

function spec_loop ::
  "'f qops \<Rightarrow> 'f simd \<Rightarrow> spec_config \<Rightarrow> proposer \<Rightarrow> nat \<Rightarrow> 'f cpu_decode_state \<Rightarrow> spec_stats \<Rightarrow> int list \<times> spec_stats" where
  "spec_loop ops hw cfg p limit s stats =
     (if length (Output s) < limit
      then (case spec_step ops hw cfg p limit s stats of (go, s', stats') \<Rightarrow>
        if go then spec_loop ops hw cfg p limit s' stats' else (Output s', stats'))
      else (Output s, stats))"
  by pat_completeness auto
termination
proof (relation "measure (\<lambda>(ops, hw, cfg, p, limit, s, stats). limit - length (Output s))", goal_cases)
  case (2 ops hw cfg p limit s stats r q s' stats')
  then have "spec_step ops hw cfg p limit s stats = (True, s', stats')" by simp
  from spec_step_grows [OF this 2(1)] 2(1) show ?case by simp
qed simp

declare spec_loop.simps [simp del]

definition GenerateSpeculativeWithStats ::
  "'f qops \<Rightarrow> 'f simd \<Rightarrow> (nat \<Rightarrow> nat) \<Rightarrow> llama \<Rightarrow> int list \<Rightarrow> int \<Rightarrow> spec_config \<Rightarrow> int list \<times> spec_stats" where
  "GenerateSpeculativeWithStats ops hw lower m tokenIDs maxTokens cfg0 =
     (if \<not> Enabled cfg0 \<or> maxTokens \<le> 0 then (generatePrepared m (prepareGenerateTokens m tokenIDs) maxTokens, zero_spec_stats)
      else let cfg = Normalize lower cfg0; prepared = prepareGenerateTokens m tokenIDs in
        if maxTokens > max_int64 - int (length prepared) then (prepared, zero_spec_stats)
        else let p = NewSpeculativeProposer cfg in
          case (NewCPUDecodeStateForSpeculative (Some m) prepared maxTokens (cfg_Backend cfg) :: go_error + 'f cpu_decode_state) of
            Inl _ \<Rightarrow> (generatePrepared m prepared maxTokens, zero_spec_stats)
          | Inr s \<Rightarrow> spec_loop ops hw cfg p (length prepared + nat maxTokens) s
              (zero_spec_stats\<lparr>ss_VerifierBackend := VerifierBackend s, ss_Proposer := proposer_Name p\<rparr>))"

definition GenerateSpeculative ::
  "'f qops \<Rightarrow> 'f simd \<Rightarrow> (nat \<Rightarrow> nat) \<Rightarrow> llama \<Rightarrow> int list \<Rightarrow> int \<Rightarrow> spec_config \<Rightarrow> int list" where
  "GenerateSpeculative ops hw lower m tokenIDs maxTokens cfg = fst (GenerateSpeculativeWithStats ops hw lower m tokenIDs maxTokens cfg)"

end
