(* ===== verification/SpecFacts.thy ===== *)
theory SpecFacts
  imports Speculative KvFacts
begin

text \<open>
  What speculative decoding promises, stated against a reference: \<open>greedy\<close> asks the model for one
  token at a time. The invariant of the loop is that going on greedily from the current output
  gives what going on greedily from the prompt gives.
\<close>

section \<open>The reference\<close>

definition greedy_next :: "llama \<Rightarrow> int list \<Rightarrow> int option" where
  "greedy_next m out = (let v = generatePrepared m out 1 in if length v \<le> length out then None else Some (v ! length out))"

primrec greedy :: "llama \<Rightarrow> nat \<Rightarrow> int list \<Rightarrow> int list" where
  "greedy m 0 out = out"
| "greedy m (Suc n) out = (case greedy_next m out of None \<Rightarrow> out | Some t \<Rightarrow> greedy m n (out @ [t]))"

text \<open>The model produces these tokens after \<open>out\<close>, one by one.\<close>

primrec yields :: "llama \<Rightarrow> int list \<Rightarrow> int list \<Rightarrow> bool" where
  "yields m out [] \<longleftrightarrow> True"
| "yields m out (t # ts) \<longleftrightarrow> greedy_next m out = Some t \<and> yields m (out @ [t]) ts"

lemma yields_take: "yields m out ts \<Longrightarrow> yields m out (take k ts)"
  by (induction ts arbitrary: out k) (auto simp: take_Cons split: nat.split)

lemma yields_greedy: "yields m out ts \<Longrightarrow> length ts \<le> n \<Longrightarrow> greedy m n out = greedy m (n - length ts) (out @ ts)"
proof (induction ts arbitrary: out n)
  case (Cons t ts)
  then obtain n' where "n = Suc n'" by (cases n) auto
  with Cons show ?case by simp
qed simp

lemma yields_snoc: "yields m out (ts @ [t]) \<longleftrightarrow> yields m out ts \<and> greedy_next m (out @ ts) = Some t"
  by (induction ts arbitrary: out) auto

lemma greedy_length: "length out \<le> length (greedy m n out) \<and> length (greedy m n out) \<le> length out + n"
proof (induction n arbitrary: out)
  case (Suc n)
  show ?case using Suc [of "out @ [the (greedy_next m out)]"] by (auto split: option.split)
qed simp

lemma decode_next:
  assumes "Model s = Some m"
  shows "DecodeOneGreedy s = (case greedy_next m (Output s) of
      None \<Rightarrow> (Inl (Errorf ''decode produced no token'' []), s) | Some t \<Rightarrow> (Inr t, s\<lparr>Output := Output s @ [t]\<rparr>))"
  using assms by (simp add: DecodeOneGreedy_def greedy_next_def Let_def)

section \<open>Acceptance\<close>

lemma match_len_le: "match_len d v \<le> length d \<and> match_len d v \<le> length v"
  by (induction d v rule: match_len.induct) auto

lemma match_len_take: "take (match_len d v) d = take (match_len d v) v"
  by (induction d v rule: match_len.induct) auto

lemma match_len_stop: "match_len d v < length d \<Longrightarrow> match_len d v < length v \<Longrightarrow> d ! match_len d v \<noteq> v ! match_len d v"
  by (induction d v rule: match_len.induct) auto

lemma check_tokens_Inr: "check_tokens what i toks = Inr u \<longleftrightarrow> (\<forall>t \<in> set toks. 0 \<le> t)"
  by (induction toks arbitrary: i) auto

lemma check_accepted_Inr:
  "check_accepted i toks out = Inr u \<longleftrightarrow> (\<forall>k < length toks. 0 \<le> toks ! k \<and> out ! (i + k) = toks ! k)"
proof (induction toks arbitrary: i)
  case (Cons t ts)
  have "(\<forall>k < length (t # ts). 0 \<le> (t # ts) ! k \<and> out ! (i + k) = (t # ts) ! k) \<longleftrightarrow>
      0 \<le> t \<and> out ! i = t \<and> (\<forall>k < length ts. 0 \<le> ts ! k \<and> out ! (Suc i + k) = ts ! k)"
    by (auto simp: nth_Cons split: nat.split)
  then show ?case using Cons [of "Suc i"] by (auto simp: not_less)
qed simp

lemma accept_Inr:
  assumes "AcceptMTPDraft drafted verifier = Inr a"
  shows "length verifier = Suc (length drafted)" "\<And>t. t \<in> set drafted \<union> set verifier \<Longrightarrow> 0 \<le> t"
    "DraftedCount a = int (length drafted)" "AcceptedPrefixLen a = int (match_len drafted verifier)"
    "VerifiedCount a = AcceptedPrefixLen a" "AcceptedTokens a = take (match_len drafted verifier) drafted"
    "OutputTokens a = take (Suc (match_len drafted verifier)) verifier" "BonusToken a = verifier ! match_len drafted verifier"
    "AllDraftsAccepted a \<longleftrightarrow> match_len drafted verifier = length drafted"
    "FirstRejectedIndex a = (if match_len drafted verifier = length drafted then - 1 else int (match_len drafted verifier))"
proof -
  have ok: "\<forall>t \<in> set drafted. 0 \<le> t" "\<forall>t \<in> set verifier. 0 \<le> t" and len: "length verifier = Suc (length drafted)"
    using assms by (auto simp: AcceptMTPDraft_def Let_def res_bind_Inr check_tokens_Inr split: if_splits)
  then have a: "a = \<lparr>DraftedCount = int (length drafted), VerifiedCount = int (match_len drafted verifier),
      AcceptedPrefixLen = int (match_len drafted verifier), AcceptedTokens = take (match_len drafted verifier) drafted,
      BonusToken = verifier ! match_len drafted verifier,
      OutputTokens = take (match_len drafted verifier) drafted @ [verifier ! match_len drafted verifier],
      AllDraftsAccepted = (match_len drafted verifier = length drafted),
      FirstRejectedIndex = (if match_len drafted verifier = length drafted then - 1 else int (match_len drafted verifier))\<rparr>"
    using assms by (auto simp: AcceptMTPDraft_def Let_def res_bind_Inr)
  have "match_len drafted verifier < length verifier" using match_len_le [of drafted verifier] len by simp
  then have out: "take (match_len drafted verifier) drafted @ [verifier ! match_len drafted verifier] =
      take (Suc (match_len drafted verifier)) verifier"
    by (simp add: take_Suc_conv_app_nth match_len_take [of drafted verifier])
  show "length verifier = Suc (length drafted)" by (fact len)
  show "\<And>t. t \<in> set drafted \<union> set verifier \<Longrightarrow> 0 \<le> t" using ok by blast
  show "DraftedCount a = int (length drafted)" "AcceptedPrefixLen a = int (match_len drafted verifier)"
    "VerifiedCount a = AcceptedPrefixLen a" "AcceptedTokens a = take (match_len drafted verifier) drafted"
    "OutputTokens a = take (Suc (match_len drafted verifier)) verifier" "BonusToken a = verifier ! match_len drafted verifier"
    "AllDraftsAccepted a \<longleftrightarrow> match_len drafted verifier = length drafted"
    "FirstRejectedIndex a = (if match_len drafted verifier = length drafted then - 1 else int (match_len drafted verifier))"
    unfolding a using out by simp_all
qed

lemma accept_valid:
  assumes "AcceptMTPDraft drafted verifier = Inr a" "int (length drafted) < max_int64"
  shows "mtp_Validate a = Inr ()"
proof -
  note A = accept_Inr [OF assms(1)]
  let ?k = "match_len drafted verifier"
  have k: "?k \<le> length drafted" "?k < length verifier" using match_len_le [of drafted verifier] A(1) by simp_all
  have keep: "KVKeepTokens a = int (Suc ?k)" using assms(2) k(1) by (simp add: KVKeepTokens_def A)
  have "check_accepted 0 (AcceptedTokens a) (OutputTokens a) = Inr ()"
  proof -
    have "take ?k drafted ! i = take (Suc ?k) verifier ! i" if "i < ?k" for i
      using that k arg_cong [OF match_len_take [of drafted verifier], of "\<lambda>xs. xs ! i"] by simp
    moreover have "0 \<le> take ?k drafted ! i" if "i < ?k" for i
      using that k A(2) [of "drafted ! i"] by simp
    ultimately show ?thesis using k unfolding check_accepted_Inr A by simp
  qed
  then have "res_bind (check_accepted 0 (AcceptedTokens a) (OutputTokens a)) f = f ()" for f :: "unit \<Rightarrow> go_error + unit"
    by simp
  moreover have "0 \<le> BonusToken a" using A(2) [of "verifier ! ?k"] k by (simp add: A)
  moreover have "OutputTokens a ! nat (AcceptedPrefixLen a) = BonusToken a" "int (length (AcceptedTokens a)) = AcceptedPrefixLen a"
    "int (length (OutputTokens a)) = KVKeepTokens a" "0 < KVKeepTokens a"
    using k unfolding keep by (simp_all add: A)
  ultimately show ?thesis using k unfolding mtp_Validate_def Let_def by (simp add: A(3,4,5,9,10))
qed

section \<open>The verifier\<close>

lemma verify_loop_yields:
  assumes "verify_loop i n s toks = Inr ts" "Model s = Some m"
  shows "\<exists>new. ts = toks @ new \<and> length new = n \<and> yields m (Output s) new"
  using assms
proof (induction n arbitrary: i s toks)
  case (Suc n)
  from Suc.prems obtain t where t: "greedy_next m (Output s) = Some t"
    by (auto simp: decode_next split: option.splits)
  with Suc.prems have "verify_loop (Suc i) n (s\<lparr>Output := Output s @ [t]\<rparr>) (toks @ [t]) = Inr ts"
    by (simp add: decode_next)
  from Suc.IH [OF this] Suc.prems(2) obtain new where
    "ts = toks @ t # new" "length new = n" "yields m (Output s @ [t]) new" by auto
  with t show ?case by (intro exI [of _ "t # new"]) simp
qed simp

lemma verify_block:
  assumes "VerifyGreedyBlock drafted s = Inr a" "Model s = Some m"
  shows "yields m (Output s) (OutputTokens a)" "length (OutputTokens a) = Suc (nat (AcceptedPrefixLen a))"
    "AcceptedPrefixLen a \<le> int (length drafted)" "0 \<le> AcceptedPrefixLen a"
proof -
  from assms obtain ts where ts: "verify_loop 0 (length drafted + 1) s [] = Inr ts" "AcceptMTPDraft drafted ts = Inr a"
    by (auto simp: VerifyGreedyBlock_def res_bind_Inr)
  from verify_loop_yields [OF ts(1) assms(2)] have y: "yields m (Output s) ts" by auto
  note A = accept_Inr [OF ts(2)]
  show "yields m (Output s) (OutputTokens a)" unfolding A by (rule yields_take [OF y])
  show "length (OutputTokens a) = Suc (nat (AcceptedPrefixLen a))" "AcceptedPrefixLen a \<le> int (length drafted)"
    "0 \<le> AcceptedPrefixLen a"
    using match_len_le [of drafted ts] A(1) by (simp_all add: A)
qed

section \<open>Proposals\<close>

lemma length_prompt_lookup: "0 \<le> mx \<Longrightarrow> int (length (prompt_lookup ctx mx n)) \<le> mx"
  by (induction n) (auto simp: Let_def split: option.split)

lemma length_Propose: "int (length (Propose p ctx mx)) \<le> max 0 mx"
  by (auto simp: Propose_def PromptLookupProposal_def Let_def length_prompt_lookup split: proposer.split)

lemma block_len_bound: "length (Output s) < limit \<Longrightarrow> 0 \<le> block_len cfg limit s \<and> block_len cfg limit s < int limit - int (length (Output s))"
  by (auto simp: block_len_def Let_def)

lemma last_match_spec:
  "case last_match ctx n of
     None \<Rightarrow> \<forall>i < length ctx - n. \<not> ngram_match ctx n i
   | Some b \<Rightarrow> b < length ctx - n \<and> ngram_match ctx n b \<and> (\<forall>i. b < i \<and> i < length ctx - n \<longrightarrow> \<not> ngram_match ctx n i)"
proof -
  have "case fold (\<lambda>i best. if ngram_match ctx n i then Some i else best) [0..<m] None of
      None \<Rightarrow> \<forall>i < m. \<not> ngram_match ctx n i
    | Some b \<Rightarrow> b < m \<and> ngram_match ctx n b \<and> (\<forall>i. b < i \<and> i < m \<longrightarrow> \<not> ngram_match ctx n i)" for m
  proof (induction m)
    case (Suc m)
    then show ?case by (auto simp: less_Suc_eq split: option.splits)
  qed simp
  then show ?thesis unfolding last_match_def .
qed

lemma ngram_match_iff:
  assumes "n \<le> length ctx" "i + n \<le> length ctx"
  shows "ngram_match ctx n i \<longleftrightarrow> take n (drop i ctx) = drop (length ctx - n) ctx"
  using assms by (auto simp: ngram_match_def Let_def list_all_iff list_eq_iff_nth_eq)

lemma prompt_lookup_spec:
  assumes "0 < mx" "N < length ctx"
  shows "case prompt_lookup ctx mx N of
     [] \<Rightarrow> \<forall>n i. 1 \<le> n \<and> n \<le> N \<and> i + n < length ctx \<longrightarrow> \<not> ngram_match ctx n i
   | out \<Rightarrow> \<exists>n b. 1 \<le> n \<and> n \<le> N \<and> b + n < length ctx \<and> ngram_match ctx n b \<and> out = take (nat mx) (drop (b + n) ctx) \<and>
       (\<forall>i. b < i \<and> i + n < length ctx \<longrightarrow> \<not> ngram_match ctx n i) \<and>
       (\<forall>m i. n < m \<and> m \<le> N \<and> i + m < length ctx \<longrightarrow> \<not> ngram_match ctx m i)"
  using assms(2)
proof (induction N)
  case (Suc N)
  show ?case
  proof (cases "last_match ctx (Suc N)")
    case None
    then have none: "\<not> ngram_match ctx (Suc N) i" if "i + Suc N < length ctx" for i
      using last_match_spec [of ctx "Suc N"] that by (auto simp: less_diff_conv)
    from None have eq: "prompt_lookup ctx mx (Suc N) = prompt_lookup ctx mx N" by simp
    show ?thesis
    proof (cases "prompt_lookup ctx mx N")
      case Nil
      then show ?thesis using Suc.IH Suc.prems none unfolding eq by (auto simp: le_Suc_eq)
    next
      case (Cons x xs)
      with Suc.IH Suc.prems obtain n b where
        "1 \<le> n" "n \<le> N" "b + n < length ctx" "ngram_match ctx n b" "x # xs = take (nat mx) (drop (b + n) ctx)"
        "\<forall>i. b < i \<and> i + n < length ctx \<longrightarrow> \<not> ngram_match ctx n i"
        "\<forall>m i. n < m \<and> m \<le> N \<and> i + m < length ctx \<longrightarrow> \<not> ngram_match ctx m i" by auto
      moreover from this none have "\<forall>m i. n < m \<and> m \<le> Suc N \<and> i + m < length ctx \<longrightarrow> \<not> ngram_match ctx m i"
        by (auto simp: le_Suc_eq)
      ultimately show ?thesis unfolding eq Cons list.case by (intro exI [of _ n] exI [of _ b]) auto
    qed
  next
    case (Some b)
    have b: "b + Suc N < length ctx" "ngram_match ctx (Suc N) b"
      "\<forall>i. b < i \<and> i + Suc N < length ctx \<longrightarrow> \<not> ngram_match ctx (Suc N) i"
      using last_match_spec [of ctx "Suc N"] unfolding Some by (auto simp: less_diff_conv)
    let ?out = "take (nat mx) (drop (b + Suc N) ctx)"
    have ne: "?out \<noteq> []" using assms(1) b(1) by simp
    have room: "(if int (length ctx) - int (b + Suc N) > mx then mx else int (length ctx) - int (b + Suc N)) =
        min mx (int (length ctx - (b + Suc N)))" using b(1) by auto
    have out: "take (nat (min mx (int (length ctx - (b + Suc N))))) (drop (b + Suc N) ctx) = ?out"
      using assms(1) by (auto simp: min_def)
    have eq: "prompt_lookup ctx mx (Suc N) = ?out"
      unfolding prompt_lookup.simps Let_def Some option.case room out using b(1) by simp
    from ne obtain x xs where cons: "?out = x # xs" by (cases ?out) auto
    show ?thesis unfolding eq cons list.case
      by (rule exI [of _ "Suc N"], rule exI [of _ b]) (use b cons in auto)
  qed
qed simp

section \<open>The loop\<close>

lemma greedy_cut:
  assumes "yields m out ts" "length out \<le> limit"
  shows "greedy m (limit - length (take limit (out @ ts))) (take limit (out @ ts)) = greedy m (limit - length out) out"
proof -
  let ?k = "min (length ts) (limit - length out)"
  have eq: "take limit (out @ ts) = out @ take ?k ts" using assms(2) by (auto simp: min_def)
  have "greedy m (limit - length out) out = greedy m (limit - length out - length (take ?k ts)) (out @ take ?k ts)"
    by (rule yields_greedy [OF yields_take [OF assms(1)]]) simp
  then show ?thesis unfolding eq by simp
qed

text \<open>The tokens the statistics count, none of them negative.\<close>

definition emitted :: "spec_stats \<Rightarrow> int" where
  "emitted st = AcceptedCount st + BonusTokens st + FallbackSteps st"

lemma cut_output_sel [simp]: "Model (cut_output limit s) = Model s" "Output (cut_output limit s) = take limit (Output s)"
  by (simp_all add: cut_output_def)

lemma fall_back_stats: "fall_back s st = (go, s', st') \<Longrightarrow> emitted st' = emitted st + 1"
  by (auto simp: fall_back_def emitted_def split: prod.splits)

lemma fall_back_next:
  assumes "fall_back t st = (go, s', st')" "Model t = Some m"
  shows "Model s' = Some m" "go \<Longrightarrow> yields m (Output t) [x] \<Longrightarrow> Output s' = Output t @ [x]"
    "go \<longleftrightarrow> greedy_next m (Output t) \<noteq> None" "\<not> go \<Longrightarrow> Output s' = Output t"
  using fall_back_output [OF assms(1)] assms(2) by (cases go; auto simp: decode_next split: option.splits)+

lemma spec_step_ref:
  assumes "spec_step ops hw cfg p limit s st = (go, s', st')" "Model s = Some m" "length (Output s) < limit"
  shows "Model s' = Some m \<and> length (Output s') \<le> limit \<and> (\<not> go \<longrightarrow> length (Output s') < limit) \<and>
    greedy m (limit - length (Output s)) (Output s) = (if go then greedy m (limit - length (Output s')) (Output s') else Output s') \<and>
    emitted st' - emitted st = int (length (Output s')) - int (length (Output s)) + (if go then 0 else 1)"
  using assms(1)
proof (cases rule: spec_step_cases)
    case (greedy t st1 s2)
    have t: "Model t = Some m" "Output t = Output s" using greedy assms(2) by simp_all
    note F = fall_back_next [OF greedy(1) t(1)] and e = fall_back_stats [OF greedy(1)]
    have e1: "emitted st1 = emitted st" using greedy by (simp add: emitted_def)
    obtain n where n: "limit - length (Output s) = Suc n" using assms(3) by (cases "limit - length (Output s)") auto
    show ?thesis
    proof (cases go)
      case True
      then obtain x where x: "greedy_next m (Output s) = Some x" using F(3) t by auto
      have out: "Output s2 = Output s @ [x]" using F(2) [OF True] x t by simp
      have s': "Output s' = Output s @ [x]" "Model s' = Some m" using greedy(4) out F(1) assms(3) by auto
      have "n = limit - length (Output s')" using n s' by simp
      then show ?thesis using True s' x assms(3) e e1 by (simp add: n)
    next
      case False
      then have "greedy_next m (Output s) = None" "Output s2 = Output s" "s' = s2" using F t greedy(4) by auto
      then show ?thesis using False F(1) assms(3) e e1 by (simp add: n)
    qed
  next
    case (block a s1)
    let ?draft = "Propose p (Output s) (block_len cfg limit s)"
    note V = verify_block [OF block(1) assms(2)]
    have out: "Output s1 = Output s @ OutputTokens a" "Model s1 = Some m"
      using commit_output [OF block(3)] assms(2) by auto
    have "int (length ?draft) < int limit - int (length (Output s))"
      using length_Propose [of p "Output s" "block_len cfg limit s"] block_len_bound [OF assms(3), of cfg] by linarith
    then have fits: "length (Output s @ OutputTokens a) \<le> limit" using V(2,3,4) assms(3) by simp
    have s': "Output s' = Output s @ OutputTokens a" "Model s' = Some m" using block(4) out fits by auto
    have "greedy m (limit - length (Output s')) (Output s') = greedy m (limit - length (Output s)) (Output s)"
      using greedy_cut [OF V(1), of limit] assms(3) fits by (simp add: s')
    moreover have "emitted st' - emitted st = int (length (Output s')) - int (length (Output s))"
      unfolding s' emitted_def block(5-7) using V(2,4) by simp
    moreover have "length (Output s') \<le> limit" using fits by (simp add: s')
    ultimately show ?thesis using s'(2) block(2) by simp
qed

lemma spec_loop_ref:
  assumes "Model s = Some m" "length (Output s) \<le> limit" "spec_loop ops hw cfg p limit s st = (out, st')"
  shows "out = greedy m (limit - length (Output s)) (Output s) \<and>
    emitted st' - emitted st = int (length out) - int (length (Output s)) + (if length out < limit then 1 else 0)"
  using assms
proof (induction ops hw cfg p limit s st rule: spec_loop.induct)
  case (1 ops hw cfg p limit s st)
  show ?case
  proof (cases "length (Output s) < limit")
    case True
    obtain go s1 st1 where step: "spec_step ops hw cfg p limit s st = (go, s1, st1)" by (metis surj_pair)
    have R: "Model s1 = Some m" "length (Output s1) \<le> limit" "\<not> go \<Longrightarrow> length (Output s1) < limit"
      "greedy m (limit - length (Output s)) (Output s) = (if go then greedy m (limit - length (Output s1)) (Output s1) else Output s1)"
      "emitted st1 - emitted st = int (length (Output s1)) - int (length (Output s)) + (if go then 0 else 1)"
      using spec_step_ref [OF step "1.prems"(1) True] by simp_all
    show ?thesis
    proof (cases go)
      case go: True
      have "spec_loop ops hw cfg p limit s1 st1 = (out, st')"
        using "1.prems"(3) True step go by (simp add: spec_loop.simps)
      from "1.IH" [OF True step [symmetric] refl go R(1,2) this]
      have "out = greedy m (limit - length (Output s1)) (Output s1)"
        "emitted st' - emitted st1 = int (length out) - int (length (Output s1)) + (if length out < limit then 1 else 0)" by simp_all
      with R(4,5) go show ?thesis by simp
    next
      case False
      with "1.prems"(3) True step have eq: "out = Output s1" "st' = st1" by (simp_all add: spec_loop.simps)
      with False R(3,4,5) show ?thesis by simp
    qed
  next
    case False
    with "1.prems" show ?thesis by (simp add: spec_loop.simps)
  qed
qed

definition counts_ok :: "spec_stats \<Rightarrow> bool" where
  "counts_ok st \<longleftrightarrow> 0 \<le> AcceptedCount st \<and> 0 \<le> BonusTokens st \<and> 0 \<le> FallbackSteps st"

lemma spec_step_counts:
  assumes "spec_step ops hw cfg p limit s st = (go, s', st')" "Model s = Some m" "counts_ok st"
  shows "counts_ok st'"
  using assms(1)
proof (cases rule: spec_step_cases)
  case (greedy t st1 s2)
  then show ?thesis using assms(3) by (auto simp: fall_back_def counts_ok_def split: prod.splits)
next
  case (block a s1)
  then show ?thesis using verify_block(4) [OF block(1) assms(2)] assms(3) by (simp add: counts_ok_def)
qed

lemma spec_loop_counts:
  assumes "Model s = Some m" "length (Output s) \<le> limit" "spec_loop ops hw cfg p limit s st = (out, st')" "counts_ok st"
  shows "counts_ok st'"
  using assms
proof (induction ops hw cfg p limit s st rule: spec_loop.induct)
  case (1 ops hw cfg p limit s st)
  show ?case
  proof (cases "length (Output s) < limit")
    case True
    obtain go s1 st1 where step: "spec_step ops hw cfg p limit s st = (go, s1, st1)" by (metis surj_pair)
    have ok: "counts_ok st1" by (rule spec_step_counts [OF step "1.prems"(1,4)])
    have R: "Model s1 = Some m" "length (Output s1) \<le> limit" using spec_step_ref [OF step "1.prems"(1) True] by simp_all
    have run: "(if go then spec_loop ops hw cfg p limit s1 st1 else (Output s1, st1)) = (out, st')"
      using "1.prems"(3) True step by (simp add: spec_loop.simps)
    show ?thesis
    proof (cases go)
      case go: True
      then have "spec_loop ops hw cfg p limit s1 st1 = (out, st')" using run by simp
      from "1.IH" [OF True step [symmetric] refl go R this ok] show ?thesis .
    next
      case False
      then show ?thesis using run ok by simp
    qed
  next
    case False
    with "1.prems" show ?thesis by (simp add: spec_loop.simps)
  qed
qed

lemma emitted_EmittedTokens:
  assumes "counts_ok st" "emitted st \<le> max_int64"
  shows "EmittedTokens st = emitted st"
proof -
  have "in_int64 (AcceptedCount st + BonusTokens st)" "in_int64 (AcceptedCount st + BonusTokens st + FallbackSteps st)"
    using assms by (auto simp: counts_ok_def emitted_def in_int64_def min_int64_def)
  then show ?thesis by (simp add: EmittedTokens_def emitted_def)
qed

section \<open>Generation\<close>

lemma new_state_sel:
  assumes "NewCPUDecodeStateForSpeculative (Some m) prepared maxTokens backend = Inr s"
  shows "Model s = Some m" "Output s = prepared"
  using assms by (auto simp: NewCPUDecodeStateForSpeculative_def Let_def res_bind_Inr split: if_splits)

lemma generate_ref:
  fixes s :: "'f cpu_decode_state"
  assumes "Enabled cfg" "0 < maxTokens" "prepared = prepareGenerateTokens m ids"
    and "maxTokens \<le> max_int64 - int (length prepared)"
    and "(NewCPUDecodeStateForSpeculative (Some m) prepared maxTokens (cfg_Backend (Normalize lower cfg)) :: go_error + 'f cpu_decode_state) = Inr s"
    and "GenerateSpeculativeWithStats (ops :: 'f qops) hw lower m ids maxTokens cfg = (out, st)"
  shows "out = greedy m (nat maxTokens) prepared"
    "EmittedTokens st = int (length out) - int (length prepared) + (if length out < length prepared + nat maxTokens then 1 else 0)"
proof -
  let ?cfg = "Normalize lower cfg" and ?limit = "length prepared + nat maxTokens"
  let ?st0 = "zero_spec_stats\<lparr>ss_VerifierBackend := VerifierBackend s, ss_Proposer := proposer_Name (NewSpeculativeProposer ?cfg)\<rparr>"
  have "\<not> (\<not> Enabled cfg \<or> maxTokens \<le> 0)" "\<not> maxTokens > max_int64 - int (length prepared)" using assms(1,2,4) by simp_all
  then have run: "spec_loop ops hw ?cfg (NewSpeculativeProposer ?cfg) ?limit s ?st0 = (out, st)"
    using assms(6) unfolding GenerateSpeculativeWithStats_def Let_def assms(3) [symmetric] assms(5) by simp
  note sel = new_state_sel [OF assms(5)]
  have len: "length (Output s) \<le> ?limit" using sel by simp
  have ok: "counts_ok ?st0" "emitted ?st0 = 0" by (simp_all add: counts_ok_def emitted_def zero_spec_stats_def)
  from spec_loop_ref [OF sel(1) len run] ok(2) sel(2)
  have R: "out = greedy m (nat maxTokens) prepared"
    "emitted st = int (length out) - int (length prepared) + (if length out < ?limit then 1 else 0)" by simp_all
  show "out = greedy m (nat maxTokens) prepared" by (fact R(1))
  have "length out \<le> ?limit" using greedy_length [of prepared m "nat maxTokens"] R(1) by simp
  then have "emitted st \<le> maxTokens" using R(2) assms(2) by (auto split: if_splits)
  then have "EmittedTokens st = emitted st"
    by (intro emitted_EmittedTokens [OF spec_loop_counts [OF sel(1) len run ok(1)]]) (use assms(4) in linarith)
  then show "EmittedTokens st = int (length out) - int (length prepared) + (if length out < ?limit then 1 else 0)"
    using R(2) by simp
qed

section \<open>Committing staged rows\<close>

definition stage_rows :: "'f list list \<Rightarrow> 'f list list \<Rightarrow> 'f cpu_decode_state \<Rightarrow> 'f cpu_decode_state" where
  "stage_rows rowsK rowsV s = s\<lparr>KVCacheK := map2 (@) (KVCacheK s) rowsK, KVCacheV := map2 (@) (KVCacheV s) rowsV\<rparr>"

text \<open>Rows for \<open>n\<close> positions of every layer.\<close>

definition rows_for :: "int list \<Rightarrow> int \<Rightarrow> 'f list list \<Rightarrow> 'f list list \<Rightarrow> bool" where
  "rows_for dims n base rows \<longleftrightarrow> length rows = length base \<and> (\<forall>j < length base. 0 \<le> kvDimAt dims j \<and>
     int (length (rows ! j)) = n * kvDimAt dims j \<and> int (length (base ! j)) + n * kvDimAt dims j \<le> max_int64)"

lemma keep_side_rows:
  assumes "rows_for dims n base rows" "0 \<le> k" "k \<le> n"
  shows "keep_side side (map (int \<circ> length) base) dims k 0 (map2 (@) base rows) =
    (Inr (), map (\<lambda>j. base ! j @ take (nat (k * kvDimAt dims j)) (rows ! j)) [0..<length base])"
proof -
  have len: "length rows = length base" using assms(1) by (simp add: rows_for_def)
  have row: "0 \<le> kvDimAt dims j \<and> k * kvDimAt dims j \<le> int (length (rows ! j)) \<and>
      int (length (base ! j)) + k * kvDimAt dims j \<le> max_int64" if "j < length base" for j
  proof -
    have r: "0 \<le> kvDimAt dims j" "int (length (rows ! j)) = n * kvDimAt dims j"
      "int (length (base ! j)) + n * kvDimAt dims j \<le> max_int64" using assms(1) that by (auto simp: rows_for_def)
    have "k * kvDimAt dims j \<le> n * kvDimAt dims j" using assms(3) r(1) by (rule mult_right_mono)
    with r show ?thesis by simp
  qed
  have "keep_side side (map (int \<circ> length) base) dims k 0 (map2 (@) base rows) =
      (Inr (), take 0 (map2 (@) base rows) @ map (\<lambda>j. base ! j @ take (nat (k * kvDimAt dims (0 + j))) (rows ! j)) [0..<length base])"
    by (rule keep_side_spec) (use len row assms(2) in simp_all)
  then show ?thesis by simp
qed

lemma accept_iff:
  "(\<exists>a. AcceptMTPDraft drafted verifier = Inr a) \<longleftrightarrow>
    length verifier = length drafted + 1 \<and> (\<forall>t \<in> set drafted \<union> set verifier. 0 \<le> t)"
  by (auto simp: AcceptMTPDraft_def res_bind_Inr check_tokens_Inr Let_def)

lemma keep_count:
  assumes "AcceptMTPDraft drafted verifier = Inr a" "int (length drafted) < max_int64"
  shows "KVKeepTokens a = int (length (OutputTokens a))" "0 < KVKeepTokens a" "KVKeepTokens a \<le> int (length drafted) + 1"
  using assms(2) match_len_le [of drafted verifier] accept_Inr(1,4,7) [OF assms(1)] by (simp_all add: KVKeepTokens_def)

lemma commit_staged:
  assumes "CompressedKV s = None" "AcceptMTPDraft drafted verifier = Inr a" "int (length drafted) < max_int64"
    and "rows_for (KVDims s) (int (length drafted) + 1) (KVCacheK s) rowsK" "rows_for (KVDims s) (int (length drafted) + 1) (KVCacheV s) rowsV"
  shows "CommitAccepted ops hw (ds_Checkpoint s) a (stage_rows rowsK rowsV s) = (Inr (), s
    \<lparr>Output := Output s @ OutputTokens a,
     KVCacheK := map (\<lambda>j. KVCacheK s ! j @ take (nat (KVKeepTokens a * kvDimAt (KVDims s) j)) (rowsK ! j)) [0..<length (KVCacheK s)],
     KVCacheV := map (\<lambda>j. KVCacheV s ! j @ take (nat (KVKeepTokens a * kvDimAt (KVDims s) j)) (rowsV ! j)) [0..<length (KVCacheV s)]\<rparr>)"
proof -
  note K = keep_count [OF assms(2,3)]
  have k: "0 \<le> KVKeepTokens a" using K(2) by simp
  note side = keep_side_rows [OF assms(4) k K(3)] keep_side_rows [OF assms(5) k K(3)]
  show ?thesis using K(2) assms(1)
    by (simp add: CommitAccepted_def accept_valid [OF assms(2,3)] bad_output_len_def ds_Checkpoint_def stage_rows_def
      CommitAcceptedFloatKV_def float_KeepAppended_def CheckpointFloatKV_def side Let_def)
qed

section \<open>Committing staged rows of quantized caches\<close>

definition stage_layers :: "'f qops \<Rightarrow> 'f simd \<Rightarrow> ('f list \<times> 'f list) list list \<Rightarrow> 'f kv_cache option list \<Rightarrow> 'f kv_cache option list" where
  "stage_layers ops hw rows caches = map2 (\<lambda>rs co. map_option (staged ops hw rs) co) rows caches"

text \<open>\<open>n\<close> rows for every layer, each of its width; a layer may be nil.\<close>

definition layers_fit :: "nat \<Rightarrow> 'f kv_cache option list \<Rightarrow> ('f list \<times> 'f list) list list \<Rightarrow> bool" where
  "layers_fit n caches rows \<longleftrightarrow> length rows = length caches \<and> (\<forall>j < length caches. case caches ! j of None \<Rightarrow> True | Some c \<Rightarrow>
     length (rows ! j) = n \<and> rows_fit c (rows ! j) \<and> kv_ok c \<and> usable c \<and> windowed c \<and>
     seqLen c + int n \<le> max_int64 \<and> (seqLen c + int n) * kvDim c \<le> max_int64)"

text \<open>The layer \<open>co'\<close> is \<open>co\<close> after keeping the first \<open>k\<close> of the rows: so many more positions, and
  exactly those rows when staging stayed within the window.\<close>

definition kept_layer :: "'f qops \<Rightarrow> 'f simd \<Rightarrow> nat \<Rightarrow> ('f list \<times> 'f list) list \<Rightarrow> 'f kv_cache option \<Rightarrow> 'f kv_cache option \<Rightarrow> bool" where
  "kept_layer ops hw k rows co co' \<longleftrightarrow> (case co of None \<Rightarrow> co' = None | Some c \<Rightarrow> \<exists>c'. co' = Some c' \<and>
     storageConsistent c' \<and> shape c' = shape c \<and> seqLen c' = seqLen c + int k \<and>
     (\<not> (compressing c \<and> residualWindow c < seqLen c + int (length rows)) \<longrightarrow> contents c' = contents (staged ops hw (take k rows) c)))"

lemma keep_all:
  assumes "\<forall>j < length cs. i + j < length cps \<and> fst (kv_KeepAppended ops hw (cs ! j) (cps ! (i + j)) k) = Inr ()"
  shows "KeepCompressedKVAppended_from ops hw i cs cps k =
    (Inr (), map (\<lambda>j. snd (kv_KeepAppended ops hw (cs ! j) (cps ! (i + j)) k)) [0..<length cs])"
  using assms
proof (induction cs arbitrary: i)
  case (Cons c cs)
  have first: "i < length cps" "fst (kv_KeepAppended ops hw c (cps ! i) k) = Inr ()" using Cons.prems by (auto dest: spec [of _ 0])
  obtain c' where c': "kv_KeepAppended ops hw c (cps ! i) k = (Inr (), c')" using first(2) by (metis prod.collapse)
  have rest: "\<forall>j < length cs. Suc i + j < length cps \<and> fst (kv_KeepAppended ops hw (cs ! j) (cps ! (Suc i + j)) k) = Inr ()"
  proof (intro allI impI)
    fix j assume "j < length cs"
    then show "Suc i + j < length cps \<and> fst (kv_KeepAppended ops hw (cs ! j) (cps ! (Suc i + j)) k) = Inr ()"
      using Cons.prems [THEN spec, of "Suc j"] by simp
  qed
  have up: "[0..<length (c # cs)] = 0 # map Suc [0..<length cs]" by (simp add: upt_conv_Cons map_Suc_upt del: upt_Suc)
  show ?case using Cons.IH [OF rest] first(1) c' unfolding up by simp
qed simp

lemma keep_layers_staged:
  assumes "layers_fit n caches rows" "simd_ok hw" "k \<le> n"
  shows "\<exists>caches'. KeepCompressedKVAppended ops hw (stage_layers ops hw rows caches) (CheckpointCompressedKV caches) (int k) = (Inr (), caches') \<and>
    length caches' = length caches \<and> (\<forall>j < length caches. kept_layer ops hw k (rows ! j) (caches ! j) (caches' ! j))"
proof -
  let ?cs = "stage_layers ops hw rows caches" and ?cps = "CheckpointCompressedKV caches"
  have len: "length ?cs = length caches" "length ?cps = length caches" "length rows = length caches"
    using assms(1) by (simp_all add: stage_layers_def CheckpointCompressedKV_def layers_fit_def)
  have layer: "\<exists>co'. kv_KeepAppended ops hw (?cs ! j) (?cps ! j) (int k) = (Inr (), co') \<and> kept_layer ops hw k (rows ! j) (caches ! j) co'"
    if j: "j < length caches" for j
  proof (cases "caches ! j")
    case None
    then show ?thesis using j len(3) by (simp add: stage_layers_def kv_KeepAppended_def kept_layer_def)
  next
    case (Some c)
    then have c: "length (rows ! j) = n" "rows_fit c (rows ! j)" "kv_ok c" "usable c" "windowed c"
      "seqLen c + int n \<le> max_int64" "(seqLen c + int n) * kvDim c \<le> max_int64"
      using assms(1) j by (auto simp: layers_fit_def split: option.splits)
    have "\<exists>c'. kv_KeepAppended ops hw (Some (staged ops hw (rows ! j) c)) (kv_Checkpoint (Some c)) (int k) = (Inr (), Some c') \<and>
        kv_ok c' \<and> windowed c' \<and> shape c' = shape c \<and> seqLen c' = seqLen c + int k \<and>
        (\<not> (compressing c \<and> residualWindow c < seqLen c + int (length (rows ! j))) \<longrightarrow> contents c' = contents (staged ops hw (take k (rows ! j)) c))"
      by (rule keep_staged [OF c(3,4) assms(2) c(5,2)]) (use c assms(3) in simp_all)
    then show ?thesis using j len(3) Some consistent by (auto simp: stage_layers_def CheckpointCompressedKV_def kept_layer_def)
  qed
  have "fst (kv_KeepAppended ops hw (?cs ! j) (?cps ! (0 + j)) (int k)) = Inr ()" if "j < length ?cs" for j
    using layer [of j] that len(1) by auto
  then have run: "KeepCompressedKVAppended ops hw ?cs ?cps (int k) =
      (Inr (), map (\<lambda>j. snd (kv_KeepAppended ops hw (?cs ! j) (?cps ! (0 + j)) (int k))) [0..<length ?cs])"
    unfolding KeepCompressedKVAppended_def using len by (intro keep_all) simp
  have "kept_layer ops hw k (rows ! j) (caches ! j) (snd (kv_KeepAppended ops hw (?cs ! j) (?cps ! (0 + j)) (int k)))" if "j < length caches" for j
    using layer [OF that] by auto
  then show ?thesis using run len(1) by simp
qed

lemma commit_staged_layers:
  assumes "CompressedKV s = Some caches" "AcceptMTPDraft drafted verifier = Inr a" "int (length drafted) < max_int64"
    and "layers_fit (length drafted + 1) caches rows" "simd_ok hw"
  shows "\<exists>caches'. CommitAccepted ops hw (ds_Checkpoint s) a (s\<lparr>CompressedKV := Some (stage_layers ops hw rows caches)\<rparr>) =
      (Inr (), s\<lparr>Output := Output s @ OutputTokens a, CompressedKV := Some caches'\<rparr>) \<and>
    length caches' = length caches \<and>
    (\<forall>j < length caches. kept_layer ops hw (length (OutputTokens a)) (rows ! j) (caches ! j) (caches' ! j))"
proof -
  note K = keep_count [OF assms(2,3)]
  have "length (OutputTokens a) \<le> length drafted + 1" using K(1,3) by simp
  from keep_layers_staged [OF assms(4,5) this, of ops] obtain caches' where
    c: "KeepCompressedKVAppended ops hw (stage_layers ops hw rows caches) (CheckpointCompressedKV caches) (KVKeepTokens a) = (Inr (), caches')"
    "length caches' = length caches" "\<forall>j < length caches. kept_layer ops hw (length (OutputTokens a)) (rows ! j) (caches ! j) (caches' ! j)"
    unfolding K(1) by blast
  have "CommitAccepted ops hw (ds_Checkpoint s) a (s\<lparr>CompressedKV := Some (stage_layers ops hw rows caches)\<rparr>) =
      (Inr (), s\<lparr>Output := Output s @ OutputTokens a, CompressedKV := Some caches'\<rparr>)"
    using c(1) assms(1) by (simp add: CommitAccepted_def accept_valid [OF assms(2,3)] bad_output_len_def ds_Checkpoint_def Let_def)
  then show ?thesis using c(2,3) by blast
qed

end
