(* ===== verification/SpecProps.thy ===== *)
theory SpecProps
  imports SpecFacts KvProps
begin

text \<open>
  The properties of speculative decoding.
\<close>

section \<open>A small model\<close>

text \<open>It repeats 0, 1, 2 by position, adds as many tokens as it is asked for, and has two layers.\<close>

definition sample_llama :: llama where
  "sample_llama = \<lparr>prepareGenerateTokens = (\<lambda>ids. 7 # ids),
     generatePrepared = (\<lambda>out n. out @ map (\<lambda>i. int ((length out + i) mod 3)) [0..<nat n]), LayerKVDims = Inr [2, 1]\<rparr>"

definition sample_spec :: spec_config where
  "sample_spec = \<lparr>Enabled = True, BlockSize = 4, NGram = 2, MinProposal = 1, cfg_Proposer = ''prompt'', cfg_Backend = '''', Debug = False\<rparr>"

definition sample_cpu_state :: "int cpu_decode_state" where
  "sample_cpu_state = \<lparr>Model = Some sample_llama, Output = [7, 1, 2, 0, 1], KVCacheK = [[], []], KVCacheV = [[], []],
     CompressedKV = None, KVDims = [2, 1], ds_backend = ''replay''\<rparr>"

definition sample_quantized_state :: "real cpu_decode_state" where
  "sample_quantized_state = \<lparr>Model = Some sample_llama, Output = [7], KVCacheK = [], KVCacheV = [],
     CompressedKV = Some [Some sample_cache], KVDims = [2], ds_backend = ''replay''\<rparr>"

definition fixed_qops :: "int qops" where
  "fixed_qops = fops.extend fixed_ops \<lparr>f_sqrt = id, f_to_int = (\<lambda>i. i div 1000), f_half = 500, f_1e10 = 0\<rparr>"

definition declining_simd :: "int simd" where
  "declining_simd = \<lparr>GemvRows = (\<lambda>_ _ _. None), GemvCols = (\<lambda>_ _ _. None)\<rparr>"

lemma sample_new_state:
  "(NewCPUDecodeStateForSpeculative (Some sample_llama) [7, 1, 2, 0, 1] 6 (cfg_Backend (Normalize id sample_spec)) :: go_error + int cpu_decode_state) =
     Inr sample_cpu_state"
  by (simp add: NewCPUDecodeStateForSpeculative_def sample_llama_def sample_cpu_state_def go_int Let_def go_quot_def numeral_2_eq_2)

lemma sample_prepared: "[7, 1, 2, 0, 1] = prepareGenerateTokens sample_llama [1, 2, 0, 1]"
  by (simp add: sample_llama_def)

section \<open>Decoding\<close>

text \<open>C7. When a decode state can be built, speculative generation returns the tokens of greedy
  decoding, one forward pass per token, for every proposer and configuration.\<close>

theorem speculation_equals_greedy:
  fixes ops :: "'f qops"
  assumes "Enabled cfg" "0 < maxTokens" "prepared = prepareGenerateTokens m ids" "maxTokens \<le> max_int64 - int (length prepared)"
    and "(NewCPUDecodeStateForSpeculative (Some m) prepared maxTokens (cfg_Backend (Normalize lower cfg)) :: go_error + 'f cpu_decode_state) = Inr s"
  shows "GenerateSpeculative ops hw lower m ids maxTokens cfg = greedy m (nat maxTokens) prepared"
  unfolding GenerateSpeculative_def by (rule generate_ref(1) [OF assms prod.collapse [symmetric]])

lemma speculation_equals_greedy_witness:
  "GenerateSpeculative fixed_qops declining_simd id sample_llama [1, 2, 0, 1] 6 sample_spec = [7, 1, 2, 0, 1, 2, 0, 1, 2, 0, 1]"
proof -
  have "greedy sample_llama (nat 6) [7, 1, 2, 0, 1] = [7, 1, 2, 0, 1, 2, 0, 1, 2, 0, 1]" by code_simp
  moreover have "Enabled sample_spec" by (simp add: sample_spec_def)
  ultimately show ?thesis
    using speculation_equals_greedy [OF _ _ sample_prepared _ sample_new_state, of fixed_qops declining_simd] by (simp add: max_int64_def)
qed

text \<open>If the fallback decodes greedily, speculative generation returns what it returns, whether
  or not speculation is enabled and a decode state can be built.\<close>

theorem speculation_is_transparent:
  assumes "\<And>out n. 0 \<le> n \<Longrightarrow> generatePrepared m out n = greedy m (nat n) out"
    and "maxTokens \<le> max_int64 - int (length (prepareGenerateTokens m ids))"
  shows "GenerateSpeculative (ops :: 'f qops) hw lower m ids maxTokens cfg = generatePrepared m (prepareGenerateTokens m ids) maxTokens"
proof (cases "Enabled cfg \<and> 0 < maxTokens")
  case True
  show ?thesis
  proof (cases "NewCPUDecodeStateForSpeculative (Some m) (prepareGenerateTokens m ids) maxTokens (cfg_Backend (Normalize lower cfg)) :: go_error + 'f cpu_decode_state")
    case (Inl e)
    then show ?thesis using True assms(2) by (simp add: GenerateSpeculative_def GenerateSpeculativeWithStats_def Let_def)
  next
    case (Inr s)
    then show ?thesis using True generate_ref(1) [OF _ _ refl assms(2) Inr prod.collapse [symmetric], where ops = ops and hw = hw] assms(1)
      by (simp add: GenerateSpeculative_def)
  qed
next
  case False
  then show ?thesis by (auto simp: GenerateSpeculative_def GenerateSpeculativeWithStats_def)
qed

lemma sample_llama_greedy: "0 \<le> k \<Longrightarrow> generatePrepared sample_llama out k = greedy sample_llama (nat k) out"
proof -
  have "greedy sample_llama n out = out @ map (\<lambda>i. int ((length out + i) mod 3)) [0..<n]" for n out
  proof (induction n arbitrary: out)
    case (Suc n)
    have "greedy_next sample_llama out = Some (int (length out mod 3))" by (simp add: greedy_next_def sample_llama_def Let_def)
    then show ?case using Suc [of "out @ [int (length out mod 3)]"]
      by (simp add: upt_conv_Cons map_Suc_upt [symmetric] comp_def del: upt_Suc)
  qed simp
  then show ?thesis by (simp add: sample_llama_def)
qed

lemma speculation_is_transparent_witness:
  "GenerateSpeculative fixed_qops declining_simd id sample_llama [4] 20 sample_spec = generatePrepared sample_llama [7, 4] 20"
  using speculation_is_transparent [OF sample_llama_greedy, of 20 "[4]" fixed_qops declining_simd id sample_spec]
  by (simp add: sample_llama_def max_int64_def)

text \<open>x\<close>

theorem emitted_tokens_are_counted:
  fixes ops :: "'f qops"
  assumes "Enabled cfg" "0 < maxTokens" "prepared = prepareGenerateTokens m ids" "maxTokens \<le> max_int64 - int (length prepared)"
    and "(NewCPUDecodeStateForSpeculative (Some m) prepared maxTokens (cfg_Backend (Normalize lower cfg)) :: go_error + 'f cpu_decode_state) = Inr s"
  shows "case GenerateSpeculativeWithStats ops hw lower m ids maxTokens cfg of (out, st) \<Rightarrow>
    EmittedTokens st = int (length out) - int (length prepared) + (if length out < length prepared + nat maxTokens then 1 else 0)"
  using generate_ref(2) [OF assms] by (auto split: prod.split)

lemma emitted_tokens_are_counted_witness:
  "EmittedTokens (snd (GenerateSpeculativeWithStats fixed_qops declining_simd id sample_llama [1, 2, 0, 1] 6 sample_spec)) = 6"
proof -
  have out: "fst (GenerateSpeculativeWithStats fixed_qops declining_simd id sample_llama [1, 2, 0, 1] 6 sample_spec) = greedy sample_llama 6 [7, 1, 2, 0, 1]"
    using generate_ref(1) [OF _ _ sample_prepared _ sample_new_state prod.collapse [symmetric]] by (simp add: sample_spec_def max_int64_def)
  have "length (greedy sample_llama 6 [7, 1, 2, 0, 1]) = 11" by code_simp
  then show ?thesis
    using emitted_tokens_are_counted [OF _ _ sample_prepared _ sample_new_state, of fixed_qops declining_simd] out
    by (simp add: sample_spec_def max_int64_def split: prod.splits)
qed

section \<open>Acceptance and proposals\<close>

text \<open>Acceptance fails only on malformed tokens; otherwise it keeps the longest prefix of the
  draft that the verifier chose too, followed by one token of the verifier, and the acceptance it
  builds is valid.\<close>

theorem longest_prefix_is_accepted:
  assumes "int (length drafted) < max_int64"
  shows "case AcceptMTPDraft drafted verifier of
     Inl e \<Rightarrow> length verifier \<noteq> length drafted + 1 \<or> (\<exists>t \<in> set drafted \<union> set verifier. t < 0)
   | Inr a \<Rightarrow> let k = nat (AcceptedPrefixLen a) in
       mtp_Validate a = Inr () \<and> k \<le> length drafted \<and> take k drafted = take k verifier \<and>
       (k < length drafted \<longrightarrow> drafted ! k \<noteq> verifier ! k) \<and> OutputTokens a = take (k + 1) verifier \<and>
       KVKeepTokens a = int (length (OutputTokens a))"
proof (cases "AcceptMTPDraft drafted verifier")
  case (Inl e)
  then show ?thesis using accept_iff [of drafted verifier] by (simp add: not_le)
next
  case (Inr a)
  note A = accept_Inr [OF Inr]
  show ?thesis using Inr accept_valid [OF Inr assms] match_len_le [of drafted verifier] match_len_take [of drafted verifier]
      match_len_stop [of drafted verifier] keep_count [OF Inr assms] A(1,4,7) by (simp add: Let_def)
qed

lemma longest_prefix_is_accepted_witness:
  "case AcceptMTPDraft [5, 6, 7] [5, 6, 9, 1] of Inl e \<Rightarrow> False | Inr a \<Rightarrow> OutputTokens a = [5, 6, 9]"
proof -
  have "case AcceptMTPDraft [5, 6, 7] [5, 6, 9, 1] of Inl e \<Rightarrow> False | Inr a \<Rightarrow> AcceptedPrefixLen a = 2" by code_simp
  then show ?thesis using longest_prefix_is_accepted [of "[5, 6, 7]" "[5, 6, 9, 1]"]
    by (auto simp: Let_def max_int64_def split: sum.splits)
qed

text \<open>Prompt lookup proposes what follows the most recent earlier occurrence of the longest
  suffix that occurs before, within the limits on match and proposal, and nothing when no suffix
  occurs.\<close>

theorem proposal_follows_longest_match:
  assumes "0 < mx" "2 \<le> length ctx"
  shows "let N = (if 1 \<le> maxNGram \<and> maxNGram < int (length ctx) then nat maxNGram else length ctx - 1);
      occurs = (\<lambda>n i. take n (drop i ctx) = drop (length ctx - n) ctx) in
    case PromptLookupProposal ctx mx maxNGram of
      [] \<Rightarrow> \<forall>n i. 1 \<le> n \<and> n \<le> N \<and> i + n < length ctx \<longrightarrow> \<not> occurs n i
    | out \<Rightarrow> \<exists>n b. 1 \<le> n \<and> n \<le> N \<and> b + n < length ctx \<and> occurs n b \<and> out = take (nat mx) (drop (b + n) ctx) \<and>
        (\<forall>i. b < i \<and> i + n < length ctx \<longrightarrow> \<not> occurs n i) \<and>
        (\<forall>m i. n < m \<and> m \<le> N \<and> i + m < length ctx \<longrightarrow> \<not> occurs m i)"
proof -
  let ?N = "if 1 \<le> maxNGram \<and> maxNGram < int (length ctx) then nat maxNGram else length ctx - 1"
  have N: "?N < length ctx" using assms(2) by auto
  have out: "PromptLookupProposal ctx mx maxNGram = prompt_lookup ctx mx ?N"
    using assms by (auto simp: PromptLookupProposal_def Let_def nat_diff_distrib)
  have occ: "ngram_match ctx n i \<longleftrightarrow> take n (drop i ctx) = drop (length ctx - n) ctx" if "i + n < length ctx" for n i
    using that by (intro ngram_match_iff) simp_all
  show ?thesis
  proof (cases "prompt_lookup ctx mx ?N")
    case Nil
    with prompt_lookup_spec [OF assms(1) N] show ?thesis unfolding Let_def out Nil by (auto simp: occ)
  next
    case (Cons x xs)
    from prompt_lookup_spec [OF assms(1) N] obtain n b where nb: "1 \<le> n" "n \<le> ?N" "b + n < length ctx" "ngram_match ctx n b"
      "x # xs = take (nat mx) (drop (b + n) ctx)" "\<forall>i. b < i \<and> i + n < length ctx \<longrightarrow> \<not> ngram_match ctx n i"
      "\<forall>m i. n < m \<and> m \<le> ?N \<and> i + m < length ctx \<longrightarrow> \<not> ngram_match ctx m i"
      unfolding Cons list.case by blast
    then show ?thesis unfolding Let_def out Cons list.case
      by (intro exI [of _ n] exI [of _ b]) (simp add: occ)
  qed
qed

lemma proposal_follows_longest_match_witness: "PromptLookupProposal [1, 2, 3, 1, 2, 4, 1, 2] 2 4 = [4, 1]"
proof -
  have "PromptLookupProposal [1, 2, 3, 1, 2, 4, 1, 2] 2 4 = [4, 1]" by code_simp
  then show ?thesis using proposal_follows_longest_match [of 2 "[1, 2, 3, 1, 2, 4, 1, 2]" 4] by simp
qed

text \<open>C19. After a verifier staged one row per drafted token and one more, committing an acceptance
  appends its tokens to the output and keeps, in every layer, as many rows as tokens were
  accepted. Float layers then hold exactly the first of the staged rows; quantized layers hold
  that many more positions, and exactly what appending those rows alone would leave when staging
  stayed within the window.\<close>

theorem commit_keeps_accepted_rows:
  assumes "AcceptMTPDraft drafted verifier = Inr a" "int (length drafted) < max_int64" "simd_ok hw" "n = length (OutputTokens a)"
  shows "case CompressedKV s of
    None \<Rightarrow> rows_for (KVDims s) (int (length drafted) + 1) (KVCacheK s) rowsK \<and> rows_for (KVDims s) (int (length drafted) + 1) (KVCacheV s) rowsV \<longrightarrow>
      (\<exists>s'. CommitAccepted ops hw (ds_Checkpoint s) a (stage_rows rowsK rowsV s) = (Inr (), s') \<and> Output s' = Output s @ OutputTokens a \<and>
        (\<forall>j < length (KVCacheK s). KVCacheK s' ! j = KVCacheK s ! j @ take (n * nat (kvDimAt (KVDims s) j)) (rowsK ! j)) \<and>
        (\<forall>j < length (KVCacheV s). KVCacheV s' ! j = KVCacheV s ! j @ take (n * nat (kvDimAt (KVDims s) j)) (rowsV ! j)))
  | Some caches \<Rightarrow> layers_fit (length drafted + 1) caches rows \<longrightarrow>
      (\<exists>s' caches'. CommitAccepted ops hw (ds_Checkpoint s) a (s\<lparr>CompressedKV := Some (stage_layers ops hw rows caches)\<rparr>) = (Inr (), s') \<and>
        Output s' = Output s @ OutputTokens a \<and> CompressedKV s' = Some caches' \<and> length caches' = length caches \<and>
        (\<forall>j < length caches. kept_layer ops hw n (rows ! j) (caches ! j) (caches' ! j)))"
proof (cases "CompressedKV s")
  case None
  then show ?thesis using commit_staged [OF None assms(1,2), of rowsK rowsV ops hw] keep_count(1) [OF assms(1,2)] assms(4)
    by (auto simp: nat_mult_distrib)
next
  case (Some caches)
  then show ?thesis using commit_staged_layers [OF Some assms(1,2) _ assms(3), of rows ops] assms(4) by auto
qed

text \<open>One drafted token, rejected: of the two staged rows one is kept, in plain caches and in a
  quantized one.\<close>

lemma commit_keeps_accepted_rows_witness:
  "(\<exists>s'. CommitAccepted fixed_qops declining_simd (ds_Checkpoint sample_cpu_state)
      \<lparr>DraftedCount = 1, VerifiedCount = 0, AcceptedPrefixLen = 0, AcceptedTokens = [], BonusToken = 2, OutputTokens = [2],
        AllDraftsAccepted = False, FirstRejectedIndex = 0\<rparr>
      (stage_rows [[1, 2, 3, 4], [5, 6]] [[7, 8, 9, 10], [11, 12]] sample_cpu_state) = (Inr (), s') \<and>
     Output s' = [7, 1, 2, 0, 1, 2] \<and> KVCacheK s' ! 0 = [1, 2]) \<and>
   (\<exists>s' c'. CommitAccepted real_qops no_simd (ds_Checkpoint sample_quantized_state)
      \<lparr>DraftedCount = 1, VerifiedCount = 0, AcceptedPrefixLen = 0, AcceptedTokens = [], BonusToken = 2, OutputTokens = [2],
        AllDraftsAccepted = False, FirstRejectedIndex = 0\<rparr>
      (sample_quantized_state\<lparr>CompressedKV := Some (stage_layers real_qops no_simd [take 2 sample_rows] [Some sample_cache])\<rparr>) = (Inr (), s') \<and>
     Output s' = [7, 2] \<and> CompressedKV s' = Some [Some c'] \<and> seqLen c' = 1)"
proof
  have a: "AcceptMTPDraft [1] [2, 0] = Inr \<lparr>DraftedCount = 1, VerifiedCount = 0, AcceptedPrefixLen = 0, AcceptedTokens = [],
      BonusToken = 2, OutputTokens = [2], AllDraftsAccepted = False, FirstRejectedIndex = 0\<rparr>"
    by (simp add: AcceptMTPDraft_def)
  have n: "int (length [1 :: int]) < max_int64" by (simp add: max_int64_def)
  note P = commit_keeps_accepted_rows [OF a n]
  have "simd_ok declining_simd" by (simp add: simd_ok_def declining_simd_def)
  moreover have "rows_for (KVDims sample_cpu_state) (int (length [1 :: int]) + 1) (KVCacheK sample_cpu_state) [[1, 2, 3, 4], [5, 6]]"
    "rows_for (KVDims sample_cpu_state) (int (length [1 :: int]) + 1) (KVCacheV sample_cpu_state) [[7, 8, 9, 10], [11, 12]]"
    by (simp_all add: rows_for_def sample_cpu_state_def kvDimAt_def less_Suc_eq max_int64_def)
  ultimately show "\<exists>s'. CommitAccepted fixed_qops declining_simd (ds_Checkpoint sample_cpu_state)
      \<lparr>DraftedCount = 1, VerifiedCount = 0, AcceptedPrefixLen = 0, AcceptedTokens = [], BonusToken = 2, OutputTokens = [2],
        AllDraftsAccepted = False, FirstRejectedIndex = 0\<rparr>
      (stage_rows [[1, 2, 3, 4], [5, 6]] [[7, 8, 9, 10], [11, 12]] sample_cpu_state) = (Inr (), s') \<and>
     Output s' = [7, 1, 2, 0, 1, 2] \<and> KVCacheK s' ! 0 = [1, 2]"
    using P [of declining_simd 1 sample_cpu_state "[[1, 2, 3, 4], [5, 6]]" "[[7, 8, 9, 10], [11, 12]]" fixed_qops "[]"]
    by (auto simp: sample_cpu_state_def kvDimAt_def)
  have fit: "layers_fit (length [1 :: int] + 1) [Some sample_cache] [take 2 sample_rows]"
    using sample_cache_ok by (simp add: layers_fit_def rows_fit_def sample_rows_def max_int64_def)
  have sel: "CompressedKV sample_quantized_state = Some [Some sample_cache]" "Output sample_quantized_state = [7]"
    by (simp_all add: sample_quantized_state_def)
  from P [OF no_simd_ok refl, of sample_quantized_state "[]" "[]" real_qops "[take 2 sample_rows]", unfolded sel option.case, THEN mp, OF fit]
  obtain s' caches' where s': "CommitAccepted real_qops no_simd (ds_Checkpoint sample_quantized_state)
      \<lparr>DraftedCount = 1, VerifiedCount = 0, AcceptedPrefixLen = 0, AcceptedTokens = [], BonusToken = 2, OutputTokens = [2],
        AllDraftsAccepted = False, FirstRejectedIndex = 0\<rparr>
      (sample_quantized_state\<lparr>CompressedKV := Some (stage_layers real_qops no_simd [take 2 sample_rows] [Some sample_cache])\<rparr>) = (Inr (), s')"
    "Output s' = [7, 2]" "CompressedKV s' = Some caches'" "length caches' = 1"
    "kept_layer real_qops no_simd 1 (take 2 sample_rows) (Some sample_cache) (caches' ! 0)" by auto
  obtain co where "caches' = [co]" using s'(4) by (cases caches') auto
  then obtain c' where "caches' = [Some c']" "seqLen c' = 1" using s'(5) by (auto simp: kept_layer_def sample_cache_ok(4))
  then show "\<exists>s' c'. CommitAccepted real_qops no_simd (ds_Checkpoint sample_quantized_state)
      \<lparr>DraftedCount = 1, VerifiedCount = 0, AcceptedPrefixLen = 0, AcceptedTokens = [], BonusToken = 2, OutputTokens = [2],
        AllDraftsAccepted = False, FirstRejectedIndex = 0\<rparr>
      (sample_quantized_state\<lparr>CompressedKV := Some (stage_layers real_qops no_simd [take 2 sample_rows] [Some sample_cache])\<rparr>) = (Inr (), s') \<and>
     Output s' = [7, 2] \<and> CompressedKV s' = Some [Some c'] \<and> seqLen c' = 1"
    using s'(1-3) by blast
qed

end
