(* ===== verification/Graph.thy ===== *)
theory Graph
  imports Checked GoText
begin

text \<open>
  \<open>runtime/graph/graph.go\<close>: the graph of operations over typed values. Element types and operation
  kinds are strings, as in the source; the attributes of a node, which nothing here reads, are of
  any type.
\<close>

section \<open>Values and nodes\<close>

type_synonym dtype = string
type_synonym opkind = string

definition F32 :: dtype where "F32 = ''f32''"
definition F16 :: dtype where "F16 = ''f16''"
definition BF16 :: dtype where "BF16 = ''bf16''"
definition I32 :: dtype where "I32 = ''i32''"
definition I64 :: dtype where "I64 = ''i64''"
definition Q2K :: dtype where "Q2K = ''q2_k''"
definition Q3K :: dtype where "Q3K = ''q3_k''"
definition Q6K :: dtype where "Q6K = ''q6_k''"
definition Q8K :: dtype where "Q8K = ''q8_k''"
definition Q4G :: dtype where "Q4G = ''q4_g''"

text \<open>The operations whose output may share the storage of an input; the planner asks for these.\<close>

definition OpView :: opkind where "OpView = ''view''"
definition OpReshape :: opkind where "OpReshape = ''reshape''"
definition OpSlice :: opkind where "OpSlice = ''slice''"
definition OpTranspose :: opkind where "OpTranspose = ''transpose''"
definition OpContiguous :: opkind where "OpContiguous = ''contiguous''"

fun numel_loop :: "int \<Rightarrow> int list \<Rightarrow> int" where
  "numel_loop n [] = n"
| "numel_loop n (d # ds) = (case MulInt n d of (n', ok) \<Rightarrow> if ok then numel_loop n' ds else - 1)"

definition Numel :: "int list \<Rightarrow> int" where
  "Numel shape = numel_loop 1 shape"

fun join_comma :: "string list \<Rightarrow> string" where
  "join_comma [] = ''''"
| "join_comma [s] = s"
| "join_comma (s # ss) = s @ '','' @ join_comma ss"

definition shape_String :: "int list \<Rightarrow> string" where
  "shape_String s = ''['' @ join_comma (map Itoa s) @ '']''"

record gvalue =
  v_ID :: int
  v_Name :: string
  v_Shape :: "int list"
  v_DType :: dtype
  v_Persistent :: bool

datatype stream_kind = StreamAny | StreamCPU | StreamGPU | StreamOther int

record 'a gnode =
  n_ID :: int
  n_Name :: string
  n_Op :: opkind
  n_Inputs :: "int list"
  n_Outputs :: "int list"
  n_Attrs :: 'a
  n_StreamHint :: stream_kind

record 'a graph =
  g_Name :: string
  g_Values :: "gvalue list"
  g_Nodes :: "'a gnode list"

section \<open>Building\<close>

definition NewGraph :: "string \<Rightarrow> 'a graph" where
  "NewGraph name = \<lparr>g_Name = name, g_Values = [], g_Nodes = []\<rparr>"

definition AddValue :: "string \<Rightarrow> int list \<Rightarrow> dtype \<Rightarrow> bool \<Rightarrow> 'a graph \<Rightarrow> int \<times> 'a graph" where
  "AddValue name shape dt persistent g =
     (let i = int (length (g_Values g)) in
      (i, g\<lparr>g_Values := g_Values g @ [\<lparr>v_ID = i, v_Name = name, v_Shape = shape, v_DType = dt, v_Persistent = persistent\<rparr>]\<rparr>))"

definition AddNode :: "string \<Rightarrow> opkind \<Rightarrow> int list \<Rightarrow> int list \<Rightarrow> 'a \<Rightarrow> 'a graph \<Rightarrow> int \<times> 'a graph" where
  "AddNode name op inputs outputs attrs g =
     (let i = int (length (g_Nodes g)) in
      (i, g\<lparr>g_Nodes := g_Nodes g @ [\<lparr>n_ID = i, n_Name = name, n_Op = op, n_Inputs = inputs, n_Outputs = outputs,
        n_Attrs = attrs, n_StreamHint = StreamAny\<rparr>]\<rparr>))"

text \<open>An index out of range panics.\<close>

definition graph_Value :: "'a graph \<Rightarrow> int \<Rightarrow> gvalue option" where
  "graph_Value g i = (if 0 \<le> i \<and> i < int (length (g_Values g)) then Some (g_Values g ! nat i) else None)"

section \<open>Validation\<close>

text \<open>\<open>DTypeSize\<close> is from \<open>plan.go\<close>.\<close>

definition DTypeSize :: "dtype \<Rightarrow> int" where
  "DTypeSize t = (if t = F32 \<or> t = I32 then 4 else if t = F16 \<or> t = BF16 then 2 else if t = I64 then 8
     else if t \<in> {Q2K, Q3K, Q6K, Q8K, Q4G} then 1 else 4)"

fun check_values :: "nat \<Rightarrow> gvalue list \<Rightarrow> go_error + unit" where
  "check_values i [] = Inr ()"
| "check_values i (v # vs) =
     (if v_ID v \<noteq> int i then Inl (Errorf ''value %d has inconsistent id %d'' [AN (int i), AN (v_ID v)])
      else if Numel (v_Shape v) < 0 then Inl (Errorf ''value %q invalid/overflowing shape'' [AS (v_Name v)])
      else if \<not> snd (MulInt (Numel (v_Shape v)) (DTypeSize (v_DType v)))
      then Inl (Errorf ''value %q byte size overflows'' [AS (v_Name v)])
      else check_values (Suc i) vs)"

fun check_inputs :: "gvalue list \<Rightarrow> string \<Rightarrow> bool list \<Rightarrow> int list \<Rightarrow> go_error + unit" where
  "check_inputs vals name defined [] = Inr ()"
| "check_inputs vals name defined (inp # rest) =
     (if inp < 0 \<or> inp \<ge> int (length vals) then Inl (Errorf ''node %q: input %d out of range'' [AS name, AN inp])
      else if \<not> defined ! nat inp
      then Inl (Errorf ''node %q: input %q used before definition'' [AS name, AS (v_Name (vals ! nat inp))])
      else check_inputs vals name defined rest)"

fun check_outputs :: "gvalue list \<Rightarrow> string \<Rightarrow> bool list \<Rightarrow> int list \<Rightarrow> go_error + bool list" where
  "check_outputs vals name defined [] = Inr defined"
| "check_outputs vals name defined (out # rest) =
     (if out < 0 \<or> out \<ge> int (length vals) then Inl (Errorf ''node %q: output %d out of range'' [AS name, AN out])
      else if defined ! nat out \<and> \<not> v_Persistent (vals ! nat out)
      then Inl (Errorf ''node %q redefines transient %q'' [AS name, AS (v_Name (vals ! nat out))])
      else check_outputs vals name (defined[nat out := True]) rest)"

fun check_nodes :: "gvalue list \<Rightarrow> nat \<Rightarrow> bool list \<Rightarrow> 'a gnode list \<Rightarrow> go_error + unit" where
  "check_nodes vals idx defined [] = Inr ()"
| "check_nodes vals idx defined (n # ns) =
     (if n_ID n \<noteq> int idx then Inl (Errorf ''node %d has inconsistent id %d'' [AN (int idx), AN (n_ID n)])
      else if n_Name n = '''' then Inl (Errorf ''node %d has empty name'' [AN (n_ID n)])
      else res_bind (check_inputs vals (n_Name n) defined (n_Inputs n)) (\<lambda>_.
        res_bind (check_outputs vals (n_Name n) defined (n_Outputs n)) (\<lambda>defined'. check_nodes vals (Suc idx) defined' ns)))"

definition ValidateGraph :: "'a graph option \<Rightarrow> go_error + unit" where
  "ValidateGraph go = (case go of None \<Rightarrow> Inl (Errorf ''nil graph'' [])
     | Some g \<Rightarrow> res_bind (check_values 0 (g_Values g)) (\<lambda>_.
         check_nodes (g_Values g) 0 (map v_Persistent (g_Values g)) (g_Nodes g)))"

end
