(* ===== verification/GraphPlan.thy ===== *)
theory GraphPlan
  imports Graph
begin

text \<open>
  \<open>runtime/graph/plan.go\<close> and \<open>executor.go\<close>: when each value is last used, which transient buffer it
  gets, and the executor that runs a plan by calling one function per operation. The maps of the
  source are maps; reading a missing key gives 0, as in Go.
\<close>

section \<open>Plans\<close>

record 'a gstep =
  st_Node :: "'a gnode"
  InputBufs :: "int list"
  OutputBufs :: "int list"

record gbuffer =
  b_ID :: int
  b_Name :: string
  b_Shape :: "int list"
  b_DType :: dtype
  b_Bytes :: int

record 'a gplan =
  p_Graph :: "'a graph"
  p_Steps :: "'a gstep list"
  p_Buffers :: "gbuffer list"
  LastUse :: "int \<rightharpoonup> nat"

definition valueBytes :: "gvalue \<Rightarrow> int" where
  "valueBytes v = (let n = Numel (v_Shape v) in if n \<le> 0 then 0 else wrap64 (n * DTypeSize (v_DType v)))"

section \<open>Last uses\<close>

definition go_get :: "('k \<rightharpoonup> 'v) \<Rightarrow> 'k \<Rightarrow> 'v \<Rightarrow> 'v" where
  "go_get m k zero = (case m k of Some v \<Rightarrow> v | None \<Rightarrow> zero)"

definition use_inputs :: "nat \<Rightarrow> int list \<Rightarrow> (int \<rightharpoonup> nat) \<Rightarrow> (int \<rightharpoonup> nat)" where
  "use_inputs i inputs m = fold (\<lambda>inp m. m(inp \<mapsto> i)) inputs m"

fun direct_uses :: "nat \<Rightarrow> 'a gnode list \<Rightarrow> (int \<rightharpoonup> nat) \<Rightarrow> (int \<rightharpoonup> nat)" where
  "direct_uses i [] m = m"
| "direct_uses i (n # ns) m = direct_uses (Suc i) ns (use_inputs i (n_Inputs n) m)"

definition is_view :: "opkind \<Rightarrow> bool" where
  "is_view op \<longleftrightarrow> op = OpView \<or> op = OpReshape \<or> op = OpSlice \<or> op = OpTranspose \<or> op = OpContiguous"

definition view_end :: "nat \<Rightarrow> nat \<Rightarrow> int list \<Rightarrow> (int \<rightharpoonup> nat) \<Rightarrow> nat" where
  "view_end n_nodes i outputs m =
     fold (\<lambda>out end. let use = (case m out of Some u \<Rightarrow> u | None \<Rightarrow> n_nodes) in if use > end then use else end) outputs i"

definition extend_uses :: "nat \<Rightarrow> int list \<Rightarrow> (int \<rightharpoonup> nat) \<Rightarrow> (int \<rightharpoonup> nat)" where
  "extend_uses end inputs m = fold (\<lambda>inp m. if end > go_get m inp 0 then m(inp \<mapsto> end) else m) inputs m"

text \<open>The walk backwards over the nodes before \<open>k\<close>.\<close>

fun view_uses :: "'a gnode list \<Rightarrow> nat \<Rightarrow> (int \<rightharpoonup> nat) \<Rightarrow> (int \<rightharpoonup> nat)" where
  "view_uses nodes 0 m = m"
| "view_uses nodes (Suc i) m =
     (let node = nodes ! i in
      view_uses nodes i (if is_view (n_Op node)
        then extend_uses (view_end (length nodes) i (n_Outputs node) m) (n_Inputs node) m else m))"

definition lastUses :: "'a gnode list \<Rightarrow> (int \<rightharpoonup> nat)" where
  "lastUses nodes = view_uses nodes (length nodes) (direct_uses 0 nodes Map.empty)"

definition releaseAt :: "gvalue list \<Rightarrow> (int \<rightharpoonup> nat) \<Rightarrow> nat \<Rightarrow> int list" where
  "releaseAt vals lastUse i = map v_ID (filter (\<lambda>v. lastUse (v_ID v) = Some i \<and> \<not> v_Persistent v) vals)"

section \<open>Buffers\<close>

record planner =
  valueBuf :: "int \<rightharpoonup> int"
  free_list :: "int list"
  buffers :: "gbuffer list"

text \<open>The first fit, and the list without it.\<close>

fun first_fit :: "gbuffer list \<Rightarrow> dtype \<Rightarrow> int \<Rightarrow> int list \<Rightarrow> (int \<times> int list) option" where
  "first_fit bufs dt need [] = None"
| "first_fit bufs dt need (b # bs) =
     (if b_DType (bufs ! nat b) = dt \<and> b_Bytes (bufs ! nat b) \<ge> need then Some (b, bs)
      else map_option (\<lambda>(r, rest). (r, b # rest)) (first_fit bufs dt need bs))"

definition alloc_buffer :: "gvalue \<Rightarrow> planner \<Rightarrow> int \<times> planner" where
  "alloc_buffer v p =
     (if v_Persistent v then (- 1, p)
      else let need = valueBytes v in
        case first_fit (buffers p) (v_DType v) need (free_list p) of
          Some (b, rest) \<Rightarrow> (b, p\<lparr>free_list := rest\<rparr>)
        | None \<Rightarrow> let b = int (length (buffers p)) in
            (b, p\<lparr>buffers := buffers p @ [\<lparr>b_ID = b, b_Name = v_Name v, b_Shape = v_Shape v, b_DType = v_DType v, b_Bytes = need\<rparr>]\<rparr>))"

fun alloc_outputs :: "gvalue list \<Rightarrow> int list \<Rightarrow> planner \<Rightarrow> int list \<times> planner" where
  "alloc_outputs vals [] p = ([], p)"
| "alloc_outputs vals (out # rest) p =
     (case alloc_buffer (vals ! nat out) p of (b, p1) \<Rightarrow>
      case alloc_outputs vals rest (p1\<lparr>valueBuf := (valueBuf p1)(out \<mapsto> b)\<rparr>) of (bs, p2) \<Rightarrow> (b # bs, p2))"

definition release :: "int \<Rightarrow> planner \<Rightarrow> planner" where
  "release v p = (case valueBuf p v of Some b \<Rightarrow> p\<lparr>free_list := free_list p @ [b], valueBuf := (valueBuf p)(v := None)\<rparr> | None \<Rightarrow> p)"

definition plan_step :: "gvalue list \<Rightarrow> (int \<rightharpoonup> nat) \<Rightarrow> nat \<Rightarrow> 'a gnode \<Rightarrow> planner \<Rightarrow> 'a gstep \<times> planner" where
  "plan_step vals lastUse i n p =
     (let ins = map (\<lambda>inp. if v_Persistent (vals ! nat inp) then - 1 else go_get (valueBuf p) inp 0) (n_Inputs n) in
      case alloc_outputs vals (n_Outputs n) p of (outs, p1) \<Rightarrow>
        (\<lparr>st_Node = n, InputBufs = ins, OutputBufs = outs\<rparr>, fold release (releaseAt vals lastUse i) p1))"

fun plan_nodes :: "gvalue list \<Rightarrow> (int \<rightharpoonup> nat) \<Rightarrow> nat \<Rightarrow> 'a gnode list \<Rightarrow> planner \<Rightarrow> 'a gstep list \<times> planner" where
  "plan_nodes vals lastUse i [] p = ([], p)"
| "plan_nodes vals lastUse i (n # ns) p =
     (case plan_step vals lastUse i n p of (s, p1) \<Rightarrow>
      case plan_nodes vals lastUse (Suc i) ns p1 of (ss, p2) \<Rightarrow> (s # ss, p2))"

fun sum_bytes :: "int \<Rightarrow> gbuffer list \<Rightarrow> int" where
  "sum_bytes n [] = n"
| "sum_bytes n (b # bs) = (case AddInt n (b_Bytes b) of (n', ok) \<Rightarrow> if ok then sum_bytes n' bs else - 1)"

definition WorkspaceBytes :: "'a gplan option \<Rightarrow> int" where
  "WorkspaceBytes po = (case po of None \<Rightarrow> 0 | Some p \<Rightarrow> sum_bytes 0 (p_Buffers p))"

definition no_buffers :: planner where
  "no_buffers = \<lparr>valueBuf = Map.empty, free_list = [], buffers = []\<rparr>"

definition BuildPlan :: "'a graph option \<Rightarrow> go_error + 'a gplan" where
  "BuildPlan go = (case go of None \<Rightarrow> Inl (Errorf ''nil graph'' [])
     | Some g \<Rightarrow> res_bind (ValidateGraph (Some g)) (\<lambda>_.
         let lastUse = lastUses (g_Nodes g);
             (steps, p) = plan_nodes (g_Values g) lastUse 0 (g_Nodes g) no_buffers;
             plan = \<lparr>p_Graph = g, p_Steps = steps, p_Buffers = buffers p, LastUse = lastUse\<rparr>
         in if WorkspaceBytes (Some plan) < 0 then Inl (Errorf ''workspace byte sum overflows'' []) else Inr plan))"

section \<open>Running a plan\<close>

text \<open>\<open>FuncExecutor\<close>: a function per operation, over a world of any type.\<close>

type_synonym ('a, 'w) func_executor = "opkind \<rightharpoonup> ('a gstep \<Rightarrow> ('w, unit) io)"

definition Prepare :: "('a, 'w) func_executor \<Rightarrow> 'a gplan option \<Rightarrow> go_error + unit" where
  "Prepare e p = Inr ()"

fun run_steps :: "('a, 'w) func_executor \<Rightarrow> 'a gstep list \<Rightarrow> ('w, unit) io" where
  "run_steps e [] = io_return ()"
| "run_steps e (s # ss) = (case e (n_Op (st_Node s)) of
     None \<Rightarrow> io_lift (Inl (Errorf ''no executor for op %s (%s)'' [AS (n_Op (st_Node s)), AS (n_Name (st_Node s))]))
   | Some f \<Rightarrow> (\<lambda>w. case f s w of (Inl e', w') \<Rightarrow> (Inl (Wrapf ''%s: %w'' [AS (n_Name (st_Node s))] e'), w')
       | (Inr _, w') \<Rightarrow> run_steps e ss w'))"

definition RunPlan :: "('a, 'w) func_executor \<Rightarrow> 'a gplan option \<Rightarrow> ('w, unit) io" where
  "RunPlan e po = (case po of None \<Rightarrow> io_lift (Inl (Errorf ''nil plan'' [])) | Some p \<Rightarrow> run_steps e (p_Steps p))"

end
