(* ===== verification/GraphFacts.thy ===== *)
theory GraphFacts
  imports GraphPlan
begin

text \<open>
  What a valid graph satisfies, the lifetimes the planner computes, and the invariant of the buffer
  assignment: the buffers of the values that are live are pairwise different and not free.
\<close>

section \<open>Valid graphs\<close>

definition persistent :: "gvalue list \<Rightarrow> int \<Rightarrow> bool" where
  "persistent vals x \<longleftrightarrow> v_Persistent (vals ! nat x)"

definition in_vals :: "gvalue list \<Rightarrow> int \<Rightarrow> bool" where
  "in_vals vals x \<longleftrightarrow> 0 \<le> x \<and> x < int (length vals)"

definition outs_before :: "'a gnode list \<Rightarrow> nat \<Rightarrow> int set" where
  "outs_before nodes i = (\<Union>n \<in> set (take i nodes). set (n_Outputs n))"

definition node_fine :: "gvalue list \<Rightarrow> int set \<Rightarrow> 'a gnode \<Rightarrow> bool" where
  "node_fine vals defd n \<longleftrightarrow>
     (\<forall>x \<in> set (n_Inputs n). in_vals vals x \<and> (persistent vals x \<or> x \<in> defd)) \<and>
     (\<forall>x \<in> set (n_Outputs n). in_vals vals x \<and> (\<not> persistent vals x \<longrightarrow> x \<notin> defd)) \<and>
     distinct (filter (\<lambda>x. \<not> persistent vals x) (n_Outputs n))"

definition value_fine :: "gvalue \<Rightarrow> bool" where
  "value_fine v \<longleftrightarrow> 0 \<le> Numel (v_Shape v) \<and> Numel (v_Shape v) * DTypeSize (v_DType v) \<le> max_int64"

definition well_formed :: "gvalue list \<Rightarrow> 'a gnode list \<Rightarrow> bool" where
  "well_formed vals nodes \<longleftrightarrow> (\<forall>i < length vals. v_ID (vals ! i) = int i \<and> value_fine (vals ! i)) \<and>
     (\<forall>i < length nodes. node_fine vals (outs_before nodes i) (nodes ! i))"

lemma outs_before_simps [simp]: "outs_before nodes 0 = {}"
  "i < length nodes \<Longrightarrow> outs_before nodes (Suc i) = outs_before nodes i \<union> set (n_Outputs (nodes ! i))"
  by (auto simp: outs_before_def take_Suc_conv_app_nth)

lemma outs_before_mono: "i \<le> j \<Longrightarrow> outs_before nodes i \<subseteq> outs_before nodes j"
  unfolding outs_before_def by (rule UN_mono) (auto dest: set_take_subset_set_take)

lemma mul_ok: "0 \<le> a \<Longrightarrow> 0 \<le> b \<Longrightarrow> snd (MulInt a b) \<longleftrightarrow> a * b \<le> max_int64"
  by (cases "b = 0") (auto simp: MulInt_def go_int quot_guard [unfolded go_int] not_less [symmetric])

lemma dtype_size: "0 < DTypeSize t" "DTypeSize t \<le> 8"
  by (simp_all add: DTypeSize_def)

lemma check_values_Inr: "check_values i vs = Inr u \<Longrightarrow> j < length vs \<Longrightarrow> v_ID (vs ! j) = int (i + j) \<and> value_fine (vs ! j)"
proof (induction vs arbitrary: i j)
  case (Cons v vs)
  then show ?case
    using mul_ok [of "Numel (v_Shape v)" "DTypeSize (v_DType v)"] dtype_size [of "v_DType v"]
    by (cases j) (auto simp: value_fine_def not_less split: if_splits)
qed simp

lemma check_inputs_Inr:
  "check_inputs vals name defined xs = Inr u \<longleftrightarrow> (\<forall>x \<in> set xs. in_vals vals x \<and> defined ! nat x)"
  by (induction xs) (auto simp: in_vals_def)

lemma check_outputs_Inr:
  assumes "check_outputs vals name defined xs = Inr defined'" "length defined = length vals"
    and "\<And>x. in_vals vals x \<Longrightarrow> defined ! nat x \<longleftrightarrow> persistent vals x \<or> x \<in> D"
  shows "length defined' = length vals \<and> (\<forall>x. in_vals vals x \<longrightarrow> (defined' ! nat x \<longleftrightarrow> persistent vals x \<or> x \<in> D \<union> set xs)) \<and>
    (\<forall>x \<in> set xs. in_vals vals x \<and> (\<not> persistent vals x \<longrightarrow> x \<notin> D)) \<and> distinct (filter (\<lambda>x. \<not> persistent vals x) xs)"
  using assms
proof (induction xs arbitrary: defined D)
  case (Cons x xs)
  from Cons.prems(1) have x: "in_vals vals x" "\<not> (defined ! nat x \<and> \<not> persistent vals x)"
    and rest: "check_outputs vals name (defined[nat x := True]) xs = Inr defined'"
    by (auto simp: in_vals_def persistent_def split: if_splits)
  have "defined[nat x := True] ! nat y \<longleftrightarrow> persistent vals y \<or> y \<in> insert x D" if "in_vals vals y" for y
  proof -
    have "nat x = nat y \<longleftrightarrow> y = x" using that x(1) by (auto simp: in_vals_def)
    then show ?thesis using that x Cons.prems(2) Cons.prems(3) [OF that] by (auto simp: in_vals_def nth_list_update)
  qed
  from Cons.IH [OF rest _ this] Cons.prems(2) x Cons.prems(3) [OF x(1)] show ?case by auto
qed simp

lemma check_nodes_Inr:
  assumes "check_nodes vals idx defined ns = Inr u" "length defined = length vals"
    and "\<And>x. in_vals vals x \<Longrightarrow> defined ! nat x \<longleftrightarrow> persistent vals x \<or> x \<in> D" "j < length ns"
  shows "node_fine vals (D \<union> outs_before ns j) (ns ! j)"
  using assms
proof (induction ns arbitrary: idx defined D j)
  case (Cons n ns)
  from Cons.prems(1) obtain u' defined' where ins: "check_inputs vals (n_Name n) defined (n_Inputs n) = Inr u'"
    and outs: "check_outputs vals (n_Name n) defined (n_Outputs n) = Inr defined'"
    and rest: "check_nodes vals (Suc idx) defined' ns = Inr u"
    by (auto simp: res_bind_Inr split: if_splits)
  note O = check_outputs_Inr [OF outs Cons.prems(2,3)]
  have first: "node_fine vals D n" using ins O Cons.prems(3) unfolding node_fine_def check_inputs_Inr by blast
  have before: "outs_before (n # ns) (Suc k) = set (n_Outputs n) \<union> outs_before ns k" for k by (simp add: outs_before_def)
  show ?case
  proof (cases j)
    case (Suc k)
    have "length defined' = length vals" "\<And>x. in_vals vals x \<Longrightarrow> defined' ! nat x \<longleftrightarrow> persistent vals x \<or> x \<in> D \<union> set (n_Outputs n)"
      using O by blast+
    from Cons.IH [OF rest this, of k] Cons.prems(4) Suc show ?thesis by (simp add: before Un_assoc)
  qed (use first in simp)
qed simp

lemma validate_fine: "ValidateGraph (Some g) = Inr u \<Longrightarrow> well_formed (g_Values g) (g_Nodes g)"
  unfolding well_formed_def
proof (intro conjI allI impI)
  fix i
  assume v: "ValidateGraph (Some g) = Inr u"
  then have vals: "check_values 0 (g_Values g) = Inr ()"
    and nodes: "check_nodes (g_Values g) 0 (map v_Persistent (g_Values g)) (g_Nodes g) = Inr u"
    by (auto simp: ValidateGraph_def res_bind_Inr)
  show "v_ID (g_Values g ! i) = int i" "value_fine (g_Values g ! i)" if "i < length (g_Values g)"
    using check_values_Inr [OF vals that] by simp_all
  have "map v_Persistent (g_Values g) ! nat x \<longleftrightarrow> persistent (g_Values g) x \<or> x \<in> {}" if "in_vals (g_Values g) x" for x
    using that by (simp add: persistent_def in_vals_def nat_less_iff)
  from check_nodes_Inr [OF nodes _ this, of i]
  show "node_fine (g_Values g) (outs_before (g_Nodes g) i) (g_Nodes g ! i)" if "i < length (g_Nodes g)"
    using that by simp
qed

section \<open>Lifetimes\<close>

definition uses :: "'a gnode list \<Rightarrow> nat \<Rightarrow> int \<Rightarrow> bool" where
  "uses nodes i x \<longleftrightarrow> i < length nodes \<and> x \<in> set (n_Inputs (nodes ! i))"

text \<open>The step after which a value may be released; \<open>n\<close>, past the last step, for never.\<close>

definition last_step :: "nat \<Rightarrow> (int \<rightharpoonup> nat) \<Rightarrow> int \<Rightarrow> nat" where
  "last_step n L x = (case L x of Some u \<Rightarrow> u | None \<Rightarrow> n)"

lemma use_inputs_sel: "use_inputs i xs m x = (if x \<in> set xs then Some i else m x)"
  unfolding use_inputs_def by (induction xs arbitrary: m) auto

lemma direct_uses_sel:
  "direct_uses i ns m x = (if \<exists>j. uses ns j x then Some (i + (GREATEST j. uses ns j x)) else m x)"
proof (induction ns arbitrary: i m)
  case Nil
  then show ?case by (simp add: uses_def)
next
  case (Cons n ns)
  have suc: "uses (n # ns) (Suc j) x \<longleftrightarrow> uses ns j x" for j by (simp add: uses_def)
  have zero: "uses (n # ns) 0 x \<longleftrightarrow> x \<in> set (n_Inputs n)" by (simp add: uses_def)
  have bound: "uses ms j x \<Longrightarrow> j \<le> length ms" for j and ms :: "'a gnode list" by (simp add: uses_def)
  show ?case
  proof (cases "\<exists>j. uses ns j x")
    case True
    then obtain j where j: "uses ns j x" by blast
    let ?g = "GREATEST j. uses ns j x"
    have g: "uses ns ?g x" "\<And>k. uses ns k x \<Longrightarrow> k \<le> ?g"
      using GreatestI_nat [of "\<lambda>j. uses ns j x", OF j bound] Greatest_le_nat [of "\<lambda>j. uses ns j x", OF _ bound] by blast+
    have "(GREATEST j. uses (n # ns) j x) = Suc ?g"
    proof (rule Greatest_equality)
      show "uses (n # ns) (Suc ?g) x" using g(1) suc by simp
      show "k \<le> Suc ?g" if "uses (n # ns) k x" for k using that g(2) suc by (cases k) auto
    qed
    then show ?thesis using Cons True suc by auto
  next
    case False
    then have only: "uses (n # ns) k x \<longleftrightarrow> k = 0 \<and> x \<in> set (n_Inputs n)" for k using suc zero by (cases k) auto
    have "(GREATEST j :: nat. j = 0) = 0" by (rule Greatest_equality) simp_all
    then show ?thesis using Cons False unfolding only by (simp add: use_inputs_sel)
  qed
qed

definition steps_ok :: "nat \<Rightarrow> (int \<rightharpoonup> nat) \<Rightarrow> bool" where
  "steps_ok n m \<longleftrightarrow> (\<forall>x u. m x = Some u \<longrightarrow> u \<le> n)"

text \<open>\<open>m'\<close> has the keys of \<open>m\<close> and no smaller steps.\<close>

definition extends :: "(int \<rightharpoonup> nat) \<Rightarrow> (int \<rightharpoonup> nat) \<Rightarrow> bool" where
  "extends m m' \<longleftrightarrow> (\<forall>x. (m x = None \<longrightarrow> m' x = None) \<and> (\<forall>u. m x = Some u \<longrightarrow> (\<exists>u'. m' x = Some u' \<and> u \<le> u')))"

lemma extends_refl [simp]: "extends m m"
  by (auto simp: extends_def)

lemma extends_some: "extends m m' \<Longrightarrow> m x = Some u \<Longrightarrow> \<exists>u'. m' x = Some u' \<and> u \<le> u'"
  unfolding extends_def by blast

lemma extends_trans:
  assumes "extends a b" "extends b c"
  shows "extends a c"
  unfolding extends_def
proof (intro allI conjI impI)
  fix x u
  show "c x = None" if "a x = None" using that assms by (simp add: extends_def)
  show "\<exists>u'. c x = Some u' \<and> u \<le> u'" if "a x = Some u"
    using extends_some [OF assms(1) that] extends_some [OF assms(2)] by (meson order.trans)
qed

lemma extends_last: "extends m m' \<Longrightarrow> last_step n m x \<le> last_step n m' x"
  using extends_some [of m m' x] by (cases "m x") (fastforce simp: last_step_def extends_def)+

lemma extend_uses_spec:
  assumes "\<And>x. x \<in> set xs \<Longrightarrow> m x \<noteq> None"
  shows "extends m (extend_uses e xs m)" "x \<in> set xs \<Longrightarrow> e \<le> last_step n (extend_uses e xs m) x"
    "x \<notin> set xs \<Longrightarrow> extend_uses e xs m x = m x" "e \<le> n \<Longrightarrow> steps_ok n m \<Longrightarrow> steps_ok n (extend_uses e xs m)"
proof -
  have "extend_uses e xs m = (\<lambda>x. if x \<in> set xs then Some (max e (the (m x))) else m x)"
    using assms
  proof (induction xs arbitrary: m)
    case Nil
    then show ?case by (simp add: extend_uses_def)
  next
    case (Cons y ys)
    let ?m = "if e > go_get m y 0 then m(y \<mapsto> e) else m"
    have y: "m y = Some (the (m y))" using Cons.prems by auto
    have m: "?m = m(y \<mapsto> max e (the (m y)))"
      using y by (auto simp: go_get_def max_def fun_eq_iff split: option.splits)
    have "extend_uses e (y # ys) m = extend_uses e ys ?m" by (simp add: extend_uses_def)
    also have "\<dots> = (\<lambda>x. if x \<in> set ys then Some (max e (the (?m x))) else ?m x)"
      by (rule Cons.IH) (use Cons.prems in auto)
    finally show ?case unfolding m by (auto simp: fun_eq_iff)
  qed
  moreover have "m x = Some (the (m x))" if "x \<in> set xs" for x using assms [OF that] by simp
  ultimately show "extends m (extend_uses e xs m)" "x \<in> set xs \<Longrightarrow> e \<le> last_step n (extend_uses e xs m) x"
    "x \<notin> set xs \<Longrightarrow> extend_uses e xs m x = m x" "e \<le> n \<Longrightarrow> steps_ok n m \<Longrightarrow> steps_ok n (extend_uses e xs m)"
    using assms by (auto simp: extends_def last_step_def steps_ok_def)
qed

lemma view_end_spec:
  assumes "i \<le> n" "steps_ok n m"
  shows "i \<le> view_end n i outs m \<and> view_end n i outs m \<le> n \<and> (\<forall>y \<in> set outs. last_step n m y \<le> view_end n i outs m)"
proof -
  have "i \<le> fold (\<lambda>out end. let use = (case m out of Some u \<Rightarrow> u | None \<Rightarrow> n) in if use > end then use else end) outs i"
    and "view_end n i outs m \<le> n \<and> (\<forall>y \<in> set outs. last_step n m y \<le> view_end n i outs m) \<and> i \<le> view_end n i outs m"
  proof -
    have "\<forall>y. last_step n m y \<le> n" using assms(2) by (auto simp: last_step_def steps_ok_def split: option.split)
    moreover have "view_end n i outs m = fold (\<lambda>y e. max e (last_step n m y)) outs i"
      unfolding view_end_def by (rule fold_cong) (auto simp: last_step_def Let_def max_def split: option.split)
    moreover have "(\<forall>y. f y \<le> n) \<Longrightarrow> i \<le> n \<Longrightarrow> fold (\<lambda>y e. max e (f y)) outs i \<le> n \<and>
        (\<forall>y \<in> set outs. f y \<le> fold (\<lambda>y e. max e (f y)) outs i) \<and> i \<le> fold (\<lambda>y e. max e (f y)) outs i" for f :: "int \<Rightarrow> nat"
    proof (induction outs arbitrary: i)
      case (Cons y ys)
      from Cons.IH [of "max i (f y)"] Cons.prems show ?case by auto
    qed simp
    ultimately show "view_end n i outs m \<le> n \<and> (\<forall>y \<in> set outs. last_step n m y \<le> view_end n i outs m) \<and> i \<le> view_end n i outs m"
      using assms(1) by presburger
    then show "i \<le> fold (\<lambda>out end. let use = (case m out of Some u \<Rightarrow> u | None \<Rightarrow> n) in if use > end then use else end) outs i"
      unfolding view_end_def by simp
  qed
  then show ?thesis by blast
qed

lemma view_uses_spec:
  assumes "k \<le> length nodes" "\<forall>i < k. \<forall>x \<in> set (n_Inputs (nodes ! i)). m x \<noteq> None" "steps_ok (length nodes) m"
  shows "extends m (view_uses nodes k m) \<and> steps_ok (length nodes) (view_uses nodes k m) \<and>
    (\<forall>x. (\<forall>i < k. x \<notin> set (n_Inputs (nodes ! i))) \<longrightarrow> view_uses nodes k m x = m x) \<and>
    (\<forall>i < k. is_view (n_Op (nodes ! i)) \<longrightarrow> (\<forall>x \<in> set (n_Inputs (nodes ! i)). \<forall>y \<in> set (n_Outputs (nodes ! i)).
       (\<forall>j \<le> i. y \<notin> set (n_Inputs (nodes ! j))) \<longrightarrow>
       last_step (length nodes) (view_uses nodes k m) y \<le> last_step (length nodes) (view_uses nodes k m) x))"
  using assms
proof (induction k arbitrary: m)
  case (Suc k)
  let ?n = "nodes ! k" and ?N = "length nodes"
  let ?e = "view_end ?N k (n_Outputs ?n) m"
  define m' where "m' = (if is_view (n_Op ?n) then extend_uses ?e (n_Inputs ?n) m else m)"
  have dom: "m x \<noteq> None" if "x \<in> set (n_Inputs ?n)" for x using Suc.prems(2) that by blast
  note E = extend_uses_spec [of "n_Inputs ?n" m, OF dom]
  note V = view_end_spec [of k ?N m "n_Outputs ?n", OF _ Suc.prems(3)]
  have k: "k \<le> ?N" using Suc.prems(1) by simp
  have ext: "extends m m'" and ok: "steps_ok ?N m'" and same: "\<And>x. x \<notin> set (n_Inputs ?n) \<Longrightarrow> m' x = m x"
    using E Suc.prems(3) V k by (auto simp: m'_def)
  have eq: "view_uses nodes (Suc k) m = view_uses nodes k m'" by (simp add: m'_def Let_def)
  have dom': "\<forall>i < k. \<forall>x \<in> set (n_Inputs (nodes ! i)). m' x \<noteq> None"
  proof (intro allI impI ballI)
    fix i x
    assume "i < k" "x \<in> set (n_Inputs (nodes ! i))"
    then have "m x \<noteq> None" using Suc.prems(2) less_SucI by blast
    with extends_some [OF ext] show "m' x \<noteq> None" by fastforce
  qed
  from Suc.IH [OF k dom' ok] have IH: "extends m' (view_uses nodes k m')" "steps_ok ?N (view_uses nodes k m')"
    "\<And>x. \<forall>i < k. x \<notin> set (n_Inputs (nodes ! i)) \<Longrightarrow> view_uses nodes k m' x = m' x"
    "\<And>i x y. i < k \<Longrightarrow> is_view (n_Op (nodes ! i)) \<Longrightarrow> x \<in> set (n_Inputs (nodes ! i)) \<Longrightarrow> y \<in> set (n_Outputs (nodes ! i)) \<Longrightarrow>
       \<forall>j \<le> i. y \<notin> set (n_Inputs (nodes ! j)) \<Longrightarrow> last_step ?N (view_uses nodes k m') y \<le> last_step ?N (view_uses nodes k m') x"
    by blast+
  have own: "last_step ?N (view_uses nodes k m') y \<le> last_step ?N (view_uses nodes k m') x"
    if v: "is_view (n_Op ?n)" "x \<in> set (n_Inputs ?n)" "y \<in> set (n_Outputs ?n)" "\<forall>j \<le> k. y \<notin> set (n_Inputs (nodes ! j))" for x y
  proof -
    have "view_uses nodes k m' y = m y" using IH(3) [of y] same [of y] v(4) by auto
    then have "last_step ?N (view_uses nodes k m') y = last_step ?N m y" by (simp add: last_step_def)
    also have "\<dots> \<le> ?e" using V k v(3) by blast
    also have "\<dots> \<le> last_step ?N m' x" using E(2) [of x ?e ?N] v(1,2) by (simp add: m'_def)
    also have "\<dots> \<le> last_step ?N (view_uses nodes k m') x" by (rule extends_last [OF IH(1)])
    finally show ?thesis .
  qed
  show ?case unfolding eq
  proof (intro conjI allI impI ballI)
    show "extends m (view_uses nodes k m')" by (rule extends_trans [OF ext IH(1)])
    show "steps_ok ?N (view_uses nodes k m')" by (rule IH(2))
    show "view_uses nodes k m' x = m x" if "\<forall>i < Suc k. x \<notin> set (n_Inputs (nodes ! i))" for x
      using IH(3) [of x] same [of x] that by simp
    show "last_step ?N (view_uses nodes k m') y \<le> last_step ?N (view_uses nodes k m') x"
      if "i < Suc k" "is_view (n_Op (nodes ! i))" "x \<in> set (n_Inputs (nodes ! i))" "y \<in> set (n_Outputs (nodes ! i))"
        "\<forall>j \<le> i. y \<notin> set (n_Inputs (nodes ! j))" for i x y
      using that own [of x y] IH(4) [of i x y] by (cases "i = k") auto
  qed
qed simp

lemma lastUses_spec:
  fixes nodes :: "'a gnode list"
  assumes "well_formed vals nodes"
  defines "L \<equiv> lastUses nodes"
  shows "uses nodes i x \<Longrightarrow> L x \<noteq> None \<and> i \<le> last_step (length nodes) L x"
    "L x = Some u \<Longrightarrow> u \<le> length nodes \<and> (\<exists>i \<le> u. uses nodes i x)"
    "i < length nodes \<Longrightarrow> is_view (n_Op (nodes ! i)) \<Longrightarrow> x \<in> set (n_Inputs (nodes ! i)) \<Longrightarrow> y \<in> set (n_Outputs (nodes ! i)) \<Longrightarrow>
       \<not> persistent vals y \<Longrightarrow> last_step (length nodes) L y \<le> last_step (length nodes) L x"
proof -
  let ?N = "length nodes" and ?D = "direct_uses 0 nodes Map.empty"
  have bound: "uses nodes j x \<Longrightarrow> j \<le> ?N" for j x by (simp add: uses_def)
  have D: "?D x = (if \<exists>j. uses nodes j x then Some (GREATEST j. uses nodes j x) else None)" for x
    using direct_uses_sel [of 0 nodes Map.empty x] by simp
  have G: "uses nodes (GREATEST j. uses nodes j x) x \<and> j \<le> (GREATEST j. uses nodes j x)" if "uses nodes j x" for j x
    using GreatestI_nat [of "\<lambda>j. uses nodes j x", OF that bound [of _ x]] Greatest_le_nat [of "\<lambda>j. uses nodes j x", OF that bound [of _ x]] by blast
  have dom: "\<forall>i < ?N. \<forall>x \<in> set (n_Inputs (nodes ! i)). ?D x \<noteq> None"
    unfolding D by (auto simp: uses_def)
  have ok: "steps_ok ?N ?D" using G by (auto simp: steps_ok_def D uses_def split: if_splits) (meson less_imp_le)
  from view_uses_spec [OF order_refl dom ok] have V: "extends ?D L" "steps_ok ?N L"
    "\<And>i x y. i < ?N \<Longrightarrow> is_view (n_Op (nodes ! i)) \<Longrightarrow> x \<in> set (n_Inputs (nodes ! i)) \<Longrightarrow> y \<in> set (n_Outputs (nodes ! i)) \<Longrightarrow>
       \<forall>j \<le> i. y \<notin> set (n_Inputs (nodes ! j)) \<Longrightarrow> last_step ?N L y \<le> last_step ?N L x"
    unfolding L_def lastUses_def by blast+
  show "L x \<noteq> None \<and> i \<le> last_step ?N L x" if u: "uses nodes i x"
  proof -
    have "?D x = Some (GREATEST j. uses nodes j x)" using u by (auto simp: D)
    from extends_some [OF V(1) this] G [OF u] show ?thesis by (auto simp: last_step_def)
  qed
  show "u \<le> ?N \<and> (\<exists>i \<le> u. uses nodes i x)" if u: "L x = Some u"
  proof -
    from u V(1) have "?D x \<noteq> None" by (auto simp: extends_def)
    then obtain j where j: "uses nodes j x" by (auto simp: D split: if_splits)
    then have "?D x = Some (GREATEST j. uses nodes j x)" by (auto simp: D)
    from extends_some [OF V(1) this] u have "(GREATEST j. uses nodes j x) \<le> u" by auto
    with G [OF j] V(2) u show ?thesis by (auto simp: steps_ok_def)
  qed
  show "last_step ?N L y \<le> last_step ?N L x"
    if "i < ?N" "is_view (n_Op (nodes ! i))" "x \<in> set (n_Inputs (nodes ! i))" "y \<in> set (n_Outputs (nodes ! i))" "\<not> persistent vals y"
  proof (rule V(3) [OF that(1-4)])
    have new: "y \<notin> outs_before nodes i" using assms(1) that unfolding well_formed_def node_fine_def by blast
    show "\<forall>j \<le> i. y \<notin> set (n_Inputs (nodes ! j))"
    proof (intro allI impI notI)
      fix j
      assume j: "j \<le> i" "y \<in> set (n_Inputs (nodes ! j))"
      then have "y \<in> outs_before nodes j" using assms(1) that unfolding well_formed_def node_fine_def by (meson order.strict_trans1)
      then show False using outs_before_mono [OF j(1), of nodes] new by blast
    qed
  qed
qed

end
