(* ===== verification/GraphBuffers.thy ===== *)
theory GraphBuffers
  imports GraphFacts
begin

text \<open>
  The invariant of the buffer assignment along the steps of a plan, and the execution of a plan on
  its buffers, compared with the execution of the graph on one cell per value.
\<close>

section \<open>Assignment\<close>

definition fits :: "gvalue list \<Rightarrow> gbuffer list \<Rightarrow> int \<Rightarrow> int \<Rightarrow> bool" where
  "fits vals bufs x b \<longleftrightarrow> 0 \<le> b \<and> b < int (length bufs) \<and> b_DType (bufs ! nat b) = v_DType (vals ! nat x) \<and>
     valueBytes (vals ! nat x) \<le> b_Bytes (bufs ! nat b)"

definition pinv :: "gvalue list \<Rightarrow> int set \<Rightarrow> planner \<Rightarrow> bool" where
  "pinv vals S p \<longleftrightarrow> (\<forall>x. \<not> persistent vals x \<longrightarrow> (valueBuf p x \<noteq> None \<longleftrightarrow> x \<in> S)) \<and> (\<forall>x \<in> S. \<not> persistent vals x) \<and>
     (\<forall>x \<in> S. fits vals (buffers p) x (the (valueBuf p x)) \<and> the (valueBuf p x) \<notin> set (free_list p)) \<and>
     inj_on (\<lambda>x. the (valueBuf p x)) S \<and> distinct (free_list p) \<and> (\<forall>b \<in> set (free_list p). 0 \<le> b \<and> b < int (length (buffers p)))"

lemma first_fit_Some:
  assumes "first_fit bufs dt need fr = Some (b, rest)"
  shows "\<exists>a c. fr = a @ b # c \<and> rest = a @ c" "b_DType (bufs ! nat b) = dt" "need \<le> b_Bytes (bufs ! nat b)"
proof -
  have "(\<exists>a c. fr = a @ b # c \<and> rest = a @ c) \<and> b_DType (bufs ! nat b) = dt \<and> need \<le> b_Bytes (bufs ! nat b)"
    using assms
  proof (induction fr arbitrary: rest)
    case (Cons f fr)
    then show ?case
    proof (cases "b_DType (bufs ! nat f) = dt \<and> b_Bytes (bufs ! nat f) \<ge> need")
      case True
      then show ?thesis using Cons.prems by (auto intro: exI [of _ "[]"])
    next
      case False
      then obtain rest' where "first_fit bufs dt need fr = Some (b, rest')" "rest = f # rest'" using Cons.prems by auto
      with Cons.IH [of rest'] show ?thesis by (metis append_Cons)
    qed
  qed simp
  then show "\<exists>a c. fr = a @ b # c \<and> rest = a @ c" "b_DType (bufs ! nat b) = dt" "need \<le> b_Bytes (bufs ! nat b)" by blast+
qed

lemma alloc_buffer_inv:
  assumes "pinv vals S p" "\<not> persistent vals x" "x \<notin> S" "alloc_buffer (vals ! nat x) p = (b, p1)"
  shows "pinv vals (insert x S) (p1\<lparr>valueBuf := (valueBuf p1)(x \<mapsto> b)\<rparr>)" "valueBuf p1 = valueBuf p"
    "\<exists>more. buffers p1 = buffers p @ more"
proof -
  have np: "\<not> v_Persistent (vals ! nat x)" using assms(2) by (simp add: persistent_def)
  have "valueBuf p1 = valueBuf p \<and> (\<exists>more. buffers p1 = buffers p @ more) \<and> fits vals (buffers p1) x b \<and>
      (\<forall>y \<in> S. the (valueBuf p y) \<noteq> b) \<and> set (free_list p1) \<subseteq> set (free_list p) - {b} \<and> distinct (free_list p1)"
  proof (cases "first_fit (buffers p) (v_DType (vals ! nat x)) (valueBytes (vals ! nat x)) (free_list p)")
    case None
    then have p1: "b = int (length (buffers p))" "p1 = p\<lparr>buffers := buffers p @
        [\<lparr>b_ID = b, b_Name = v_Name (vals ! nat x), b_Shape = v_Shape (vals ! nat x), b_DType = v_DType (vals ! nat x),
          b_Bytes = valueBytes (vals ! nat x)\<rparr>]\<rparr>"
      using assms(4) np by (auto simp: alloc_buffer_def Let_def)
    have "\<forall>y \<in> S. the (valueBuf p y) < int (length (buffers p))" using assms(1) by (auto simp: pinv_def fits_def)
    moreover have "b \<notin> set (free_list p)" using assms(1) p1(1) by (auto simp: pinv_def)
    moreover have "distinct (free_list p)" using assms(1) by (simp add: pinv_def)
    ultimately show ?thesis unfolding p1(2) by (auto simp: fits_def p1(1))
  next
    case (Some r)
    obtain b' rest where r: "r = (b', rest)" by (cases r)
    have p1: "b' = b" "p1 = p\<lparr>free_list := rest\<rparr>" using Some assms(4) np r by (auto simp: alloc_buffer_def Let_def)
    note F = first_fit_Some [OF Some [unfolded r]]
    obtain a c where ac: "free_list p = a @ b # c" "rest = a @ c" using F(1) p1(1) by blast
    have "b \<in> set (free_list p)" using ac by simp
    then have "0 \<le> b" "b < int (length (buffers p))" "\<forall>y \<in> S. the (valueBuf p y) \<noteq> b" using assms(1) by (auto simp: pinv_def)
    moreover have "distinct (a @ b # c)" using assms(1) ac by (simp add: pinv_def)
    ultimately show ?thesis using F p1 ac by (auto simp: fits_def)
  qed
  then obtain more where P: "valueBuf p1 = valueBuf p" "buffers p1 = buffers p @ more" "fits vals (buffers p1) x b"
    "\<forall>y \<in> S. the (valueBuf p y) \<noteq> b" "set (free_list p1) \<subseteq> set (free_list p) - {b}" "distinct (free_list p1)" by blast
  then show "valueBuf p1 = valueBuf p" "\<exists>more. buffers p1 = buffers p @ more" by blast+
  have grow: "fits vals (buffers p @ more) y c" if "fits vals (buffers p) y c" for y c
    using that by (auto simp: fits_def nth_append)
  show "pinv vals (insert x S) (p1\<lparr>valueBuf := (valueBuf p1)(x \<mapsto> b)\<rparr>)"
    unfolding pinv_def
  proof (intro conjI allI ballI impI)
    fix y
    assume "\<not> persistent vals y"
    then show "valueBuf (p1\<lparr>valueBuf := (valueBuf p1)(x \<mapsto> b)\<rparr>) y \<noteq> None \<longleftrightarrow> y \<in> insert x S"
      using assms(1) by (auto simp: P(1) pinv_def)
  next
    fix y
    assume y: "y \<in> insert x S"
    show "\<not> persistent vals y" using y assms(1,2) by (auto simp: pinv_def)
    show "fits vals (buffers (p1\<lparr>valueBuf := (valueBuf p1)(x \<mapsto> b)\<rparr>)) y (the (valueBuf (p1\<lparr>valueBuf := (valueBuf p1)(x \<mapsto> b)\<rparr>) y))"
      "the (valueBuf (p1\<lparr>valueBuf := (valueBuf p1)(x \<mapsto> b)\<rparr>) y) \<notin> set (free_list (p1\<lparr>valueBuf := (valueBuf p1)(x \<mapsto> b)\<rparr>))"
      using y assms(1,3) P(3,5) grow by (auto simp: P(1,2) pinv_def)
  next
    show "inj_on (\<lambda>y. the (valueBuf (p1\<lparr>valueBuf := (valueBuf p1)(x \<mapsto> b)\<rparr>) y)) (insert x S)"
      using assms(1,3) P(4) by (auto simp: inj_on_def pinv_def P(1))
    show "distinct (free_list (p1\<lparr>valueBuf := (valueBuf p1)(x \<mapsto> b)\<rparr>))" using P(6) by simp
  next
    fix c
    assume "c \<in> set (free_list (p1\<lparr>valueBuf := (valueBuf p1)(x \<mapsto> b)\<rparr>))"
    then have "c \<in> set (free_list p)" using P(5) by auto
    then show "0 \<le> c" "c < int (length (buffers (p1\<lparr>valueBuf := (valueBuf p1)(x \<mapsto> b)\<rparr>)))"
      using assms(1) by (auto simp: pinv_def P(2))
  qed
qed

definition transients :: "gvalue list \<Rightarrow> int list \<Rightarrow> int set" where
  "transients vals xs = {x \<in> set xs. \<not> persistent vals x}"

lemma alloc_outputs_inv:
  assumes "pinv vals S p" "distinct (filter (\<lambda>x. \<not> persistent vals x) xs)" "transients vals xs \<inter> S = {}"
    and "alloc_outputs vals xs p = (bs, p')"
  shows "pinv vals (S \<union> transients vals xs) p' \<and> (\<forall>x. x \<notin> set xs \<longrightarrow> valueBuf p' x = valueBuf p x) \<and>
    (\<exists>more. buffers p' = buffers p @ more) \<and>
    bs = map (\<lambda>x. if persistent vals x then - 1 else the (valueBuf p' x)) xs"
  using assms
proof (induction xs arbitrary: S p bs)
  case (Cons x xs)
  obtain b p1 where b: "alloc_buffer (vals ! nat x) p = (b, p1)" by fastforce
  let ?p = "p1\<lparr>valueBuf := (valueBuf p1)(x \<mapsto> b)\<rparr>"
  obtain bs' where rest: "alloc_outputs vals xs ?p = (bs', p')" and bs: "bs = b # bs'"
    using Cons.prems(4) b by (auto split: prod.splits)
  show ?case
  proof (cases "persistent vals x")
    case True
    then have p1: "b = - 1" "p1 = p" using b by (auto simp: alloc_buffer_def persistent_def)
    have "pinv vals S ?p" using Cons.prems(1) True by (auto simp: pinv_def p1 inj_on_def)
    moreover have "transients vals (x # xs) = transients vals xs" using True by (auto simp: transients_def)
    ultimately show ?thesis using Cons.IH [OF _ _ _ rest, of S] Cons.prems(2,3) True by (simp add: bs p1)
  next
    case False
    then have new: "x \<notin> S" "x \<notin> set xs" using Cons.prems(2,3) by (auto simp: transients_def)
    note A = alloc_buffer_inv [OF Cons.prems(1) False new(1) b]
    have d: "distinct (filter (\<lambda>x. \<not> persistent vals x) xs)" "transients vals xs \<inter> insert x S = {}"
      using Cons.prems(2,3) new False by (auto simp: transients_def)
    note IH = Cons.IH [OF A(1) d rest]
    have "insert x S \<union> transients vals xs = S \<union> transients vals (x # xs)" using False by (auto simp: transients_def)
    moreover have "valueBuf p' x = Some b" using IH new(2) by simp
    ultimately show ?thesis using IH A(2,3) False by (auto simp: bs)
  qed
qed (simp add: transients_def)

lemma release_inv:
  assumes "pinv vals S p" "x \<in> S"
  shows "pinv vals (S - {x}) (release x p)" "buffers (release x p) = buffers p"
    "y \<noteq> x \<Longrightarrow> valueBuf (release x p) y = valueBuf p y"
proof -
  from assms obtain b where b: "valueBuf p x = Some b" unfolding pinv_def by blast
  have p: "release x p = p\<lparr>free_list := free_list p @ [b], valueBuf := (valueBuf p)(x := None)\<rparr>" by (simp add: release_def b)
  have inj: "inj_on (\<lambda>x. the (valueBuf p x)) S" using assms(1) by (simp add: pinv_def)
  have other: "the (valueBuf p y) \<noteq> b" if "y \<in> S - {x}" for y
    using inj_onD [OF inj, of y x] that assms(2) b by auto
  have fb: "fits vals (buffers p) x b" "b \<notin> set (free_list p)" using assms b by (force simp: pinv_def)+
  show "pinv vals (S - {x}) (release x p)"
    using assms(1) other fb unfolding pinv_def p by (auto simp: inj_on_def fits_def)
  show "buffers (release x p) = buffers p" "y \<noteq> x \<Longrightarrow> valueBuf (release x p) y = valueBuf p y" by (simp_all add: p)
qed

lemma release_all_inv:
  "pinv vals S p \<Longrightarrow> distinct xs \<Longrightarrow> set xs \<subseteq> S \<Longrightarrow>
    pinv vals (S - set xs) (fold release xs p) \<and> buffers (fold release xs p) = buffers p \<and>
    (\<forall>y. y \<notin> set xs \<longrightarrow> valueBuf (fold release xs p) y = valueBuf p y)"
proof (induction xs arbitrary: S p)
  case (Cons x xs)
  have x: "x \<in> S" using Cons.prems(3) by simp
  note R = release_inv [OF Cons.prems(1) x]
  have "set xs \<subseteq> S - {x}" using Cons.prems by auto
  from Cons.IH [OF R(1) _ this] Cons.prems(2) R(2,3) show ?case by (simp add: Diff_insert2 [symmetric])
qed simp

section \<open>The steps of a plan\<close>

primrec planner_at :: "gvalue list \<Rightarrow> (int \<rightharpoonup> nat) \<Rightarrow> 'a gnode list \<Rightarrow> nat \<Rightarrow> planner" where
  "planner_at vals L nodes 0 = no_buffers"
| "planner_at vals L nodes (Suc i) = snd (plan_step vals L i (nodes ! i) (planner_at vals L nodes i))"

lemma plan_nodes_at:
  "i \<le> length nodes \<Longrightarrow> plan_nodes vals L i (drop i nodes) (planner_at vals L nodes i) =
    (map (\<lambda>k. fst (plan_step vals L k (nodes ! k) (planner_at vals L nodes k))) [i..<length nodes], planner_at vals L nodes (length nodes))"
proof (induction "length nodes - i" arbitrary: i)
  case (Suc d)
  then have i: "i < length nodes" by simp
  have d: "drop i nodes = nodes ! i # drop (Suc i) nodes" by (rule Cons_nth_drop_Suc [OF i, symmetric])
  have "plan_nodes vals L (Suc i) (drop (Suc i) nodes) (planner_at vals L nodes (Suc i)) =
    (map (\<lambda>k. fst (plan_step vals L k (nodes ! k) (planner_at vals L nodes k))) [Suc i..<length nodes], planner_at vals L nodes (length nodes))"
    by (rule Suc(1)) (use Suc(2) i in simp_all)
  moreover obtain s p1 where "plan_step vals L i (nodes ! i) (planner_at vals L nodes i) = (s, p1)" by fastforce
  ultimately show ?case unfolding d by (simp add: upt_conv_Cons [OF i])
qed simp

text \<open>The transient values that hold a buffer: before step \<open>i\<close>, and while it runs.\<close>

definition held :: "gvalue list \<Rightarrow> (int \<rightharpoonup> nat) \<Rightarrow> 'a gnode list \<Rightarrow> nat \<Rightarrow> int set" where
  "held vals L nodes i = {x \<in> outs_before nodes i. \<not> persistent vals x \<and> i \<le> last_step (length nodes) L x}"

definition in_use :: "gvalue list \<Rightarrow> (int \<rightharpoonup> nat) \<Rightarrow> 'a gnode list \<Rightarrow> nat \<Rightarrow> int set" where
  "in_use vals L nodes i = {x \<in> outs_before nodes (Suc i). \<not> persistent vals x \<and> i \<le> last_step (length nodes) L x}"

definition mid_at :: "gvalue list \<Rightarrow> (int \<rightharpoonup> nat) \<Rightarrow> 'a gnode list \<Rightarrow> nat \<Rightarrow> planner" where
  "mid_at vals L nodes i = snd (alloc_outputs vals (n_Outputs (nodes ! i)) (planner_at vals L nodes i))"

lemma release_spec:
  assumes "\<forall>i < length vals. v_ID (vals ! i) = int i"
  shows "distinct (releaseAt vals L i)"
    "set (releaseAt vals L i) = {x. in_vals vals x \<and> L x = Some i \<and> \<not> persistent vals x}"
proof -
  have ids: "map v_ID vals = map int [0..<length vals]" by (rule nth_equalityI) (use assms in simp_all)
  then have "distinct (map v_ID vals)" by (simp add: distinct_map)
  then show "distinct (releaseAt vals L i)" unfolding releaseAt_def by (rule distinct_map_filter)
  have "\<exists>v \<in> set vals. v_ID v = x \<and> L x = Some i \<and> \<not> v_Persistent v" if "in_vals vals x" "L x = Some i" "\<not> persistent vals x" for x
    using that assms by (intro bexI [of _ "vals ! nat x"]) (auto simp: in_vals_def persistent_def)
  then show "set (releaseAt vals L i) = {x. in_vals vals x \<and> L x = Some i \<and> \<not> persistent vals x}"
    using assms by (fastforce simp: releaseAt_def in_set_conv_nth in_vals_def persistent_def)
qed

lemma step_sets:
  assumes "well_formed vals nodes" "i < length nodes" "L = lastUses nodes"
  shows "held vals L nodes i \<union> transients vals (n_Outputs (nodes ! i)) = in_use vals L nodes i"
    "transients vals (n_Outputs (nodes ! i)) \<inter> held vals L nodes i = {}"
    "set (releaseAt vals L i) \<subseteq> in_use vals L nodes i"
    "in_use vals L nodes i - set (releaseAt vals L i) = held vals L nodes (Suc i)"
    "distinct (filter (\<lambda>x. \<not> persistent vals x) (n_Outputs (nodes ! i)))"
    "\<And>x. x \<in> set (n_Inputs (nodes ! i)) \<Longrightarrow> persistent vals x \<or> x \<in> held vals L nodes i"
    "\<And>x. x \<in> set (n_Outputs (nodes ! i)) \<Longrightarrow> in_vals vals x"
proof -
  note U = lastUses_spec [OF assms(1), folded assms(3)]
  have fine: "\<And>j. j < length nodes \<Longrightarrow> node_fine vals (outs_before nodes j) (nodes ! j)" and ids: "\<forall>i < length vals. v_ID (vals ! i) = int i"
    using assms(1) by (auto simp: well_formed_def)
  have new: "x \<notin> outs_before nodes i" if "x \<in> transients vals (n_Outputs (nodes ! i))" for x
    using fine [OF assms(2)] that by (auto simp: node_fine_def transients_def)
  have early: "x \<in> outs_before nodes u" if e: "L x = Some u" "\<not> persistent vals x" for x u
  proof -
    obtain j where j: "j \<le> u" "uses nodes j x" using U(2) [OF e(1)] by blast
    then have "x \<in> outs_before nodes j" using fine [of j] e(2) by (auto simp: uses_def node_fine_def)
    then show ?thesis using outs_before_mono [OF j(1), of nodes] by blast
  qed
  have later: "i \<le> last_step (length nodes) L x" if "x \<in> transients vals (n_Outputs (nodes ! i))" for x
  proof (cases "L x")
    case (Some u)
    have "x \<in> outs_before nodes u" using early [OF Some] that by (auto simp: transients_def)
    then have "\<not> u \<le> i" using new [OF that] outs_before_mono [of u i nodes] by blast
    then show ?thesis using Some by (simp add: last_step_def)
  qed (use assms(2) in \<open>simp add: last_step_def\<close>)
  show "held vals L nodes i \<union> transients vals (n_Outputs (nodes ! i)) = in_use vals L nodes i"
    using later assms(2) by (auto simp: held_def in_use_def transients_def)
  show "transients vals (n_Outputs (nodes ! i)) \<inter> held vals L nodes i = {}" using new by (auto simp: held_def)
  have rel: "set (releaseAt vals L i) = {x. in_vals vals x \<and> L x = Some i \<and> \<not> persistent vals x}"
    by (rule release_spec(2) [OF ids])
  show "set (releaseAt vals L i) \<subseteq> in_use vals L nodes i"
    using early outs_before_mono [of i "Suc i" nodes] by (fastforce simp: rel in_use_def last_step_def)
  have range: "in_vals vals x" if o: "x \<in> outs_before nodes (Suc i)" for x
  proof -
    obtain n where "n \<in> set (take (Suc i) nodes)" "x \<in> set (n_Outputs n)" using o by (auto simp: outs_before_def)
    moreover obtain j where "j < length nodes" "n = nodes ! j"
      using calculation(1) by (auto simp: in_set_conv_nth)
    ultimately have "j < length nodes" "x \<in> set (n_Outputs (nodes ! j))" by simp_all
    then show ?thesis using fine [of j] by (auto simp: node_fine_def)
  qed
  have "Suc i \<le> last_step (length nodes) L x \<longleftrightarrow> i \<le> last_step (length nodes) L x \<and> L x \<noteq> Some i" for x
    using assms(2) by (auto simp: last_step_def split: option.split)
  then show "in_use vals L nodes i - set (releaseAt vals L i) = held vals L nodes (Suc i)"
    using range by (auto simp: rel in_use_def held_def simp del: outs_before_simps)
  show "distinct (filter (\<lambda>x. \<not> persistent vals x) (n_Outputs (nodes ! i)))" using fine [OF assms(2)] by (simp add: node_fine_def)
  show "persistent vals x \<or> x \<in> held vals L nodes i" if "x \<in> set (n_Inputs (nodes ! i))" for x
    using fine [OF assms(2)] that U(1) [of i x] assms(2) by (auto simp: node_fine_def held_def uses_def)
  show "in_vals vals x" if "x \<in> set (n_Outputs (nodes ! i))" for x
    using fine [OF assms(2)] that by (auto simp: node_fine_def)
qed

lemma planner_at_inv:
  assumes "well_formed vals nodes" "L = lastUses nodes"
  shows "i \<le> length nodes \<Longrightarrow> pinv vals (held vals L nodes i) (planner_at vals L nodes i)"
    "i < length nodes \<Longrightarrow> pinv vals (in_use vals L nodes i) (mid_at vals L nodes i) \<and>
      (\<forall>x. x \<notin> set (n_Outputs (nodes ! i)) \<longrightarrow> valueBuf (mid_at vals L nodes i) x = valueBuf (planner_at vals L nodes i) x) \<and>
      (\<exists>more. buffers (mid_at vals L nodes i) = buffers (planner_at vals L nodes i) @ more) \<and>
      OutputBufs (fst (plan_step vals L i (nodes ! i) (planner_at vals L nodes i))) =
        map (\<lambda>x. if persistent vals x then - 1 else the (valueBuf (mid_at vals L nodes i) x)) (n_Outputs (nodes ! i)) \<and>
      planner_at vals L nodes (Suc i) = fold release (releaseAt vals L i) (mid_at vals L nodes i)"
proof -
  have mid: "pinv vals (in_use vals L nodes i) (mid_at vals L nodes i) \<and>
      (\<forall>x. x \<notin> set (n_Outputs (nodes ! i)) \<longrightarrow> valueBuf (mid_at vals L nodes i) x = valueBuf (planner_at vals L nodes i) x) \<and>
      (\<exists>more. buffers (mid_at vals L nodes i) = buffers (planner_at vals L nodes i) @ more) \<and>
      OutputBufs (fst (plan_step vals L i (nodes ! i) (planner_at vals L nodes i))) =
        map (\<lambda>x. if persistent vals x then - 1 else the (valueBuf (mid_at vals L nodes i) x)) (n_Outputs (nodes ! i)) \<and>
      planner_at vals L nodes (Suc i) = fold release (releaseAt vals L i) (mid_at vals L nodes i)"
    if i: "i < length nodes" and p: "pinv vals (held vals L nodes i) (planner_at vals L nodes i)" for i
  proof -
    note S = step_sets [OF assms(1) i assms(2)]
    obtain bs p' where a: "alloc_outputs vals (n_Outputs (nodes ! i)) (planner_at vals L nodes i) = (bs, p')" by fastforce
    have m: "mid_at vals L nodes i = p'" by (simp add: mid_at_def a)
    from alloc_outputs_inv [OF p S(5,2) a] show ?thesis unfolding m S(1) by (simp add: plan_step_def a)
  qed
  have live: "pinv vals (held vals L nodes i) (planner_at vals L nodes i)" if "i \<le> length nodes" for i
    using that
  proof (induction i)
    case 0
    then show ?case by (simp add: pinv_def held_def no_buffers_def)
  next
    case (Suc i)
    then have i: "i < length nodes" by simp
    note S = step_sets [OF assms(1) i assms(2)]
    have ids: "\<forall>i < length vals. v_ID (vals ! i) = int i" using assms(1) by (simp add: well_formed_def)
    have M: "pinv vals (in_use vals L nodes i) (mid_at vals L nodes i)"
      "planner_at vals L nodes (Suc i) = fold release (releaseAt vals L i) (mid_at vals L nodes i)"
      using mid [OF i] Suc.IH i by auto
    from release_all_inv [OF M(1) release_spec(1) [OF ids] S(3)] show ?case unfolding M(2) S(4) by blast
  qed
  then show "i \<le> length nodes \<Longrightarrow> pinv vals (held vals L nodes i) (planner_at vals L nodes i)" .
  show "i < length nodes \<Longrightarrow> pinv vals (in_use vals L nodes i) (mid_at vals L nodes i) \<and>
      (\<forall>x. x \<notin> set (n_Outputs (nodes ! i)) \<longrightarrow> valueBuf (mid_at vals L nodes i) x = valueBuf (planner_at vals L nodes i) x) \<and>
      (\<exists>more. buffers (mid_at vals L nodes i) = buffers (planner_at vals L nodes i) @ more) \<and>
      OutputBufs (fst (plan_step vals L i (nodes ! i) (planner_at vals L nodes i))) =
        map (\<lambda>x. if persistent vals x then - 1 else the (valueBuf (mid_at vals L nodes i) x)) (n_Outputs (nodes ! i)) \<and>
      planner_at vals L nodes (Suc i) = fold release (releaseAt vals L i) (mid_at vals L nodes i)"
    using mid live by simp
qed

section \<open>The buffer of a value\<close>

definition step_pairs :: "'a gstep \<Rightarrow> (int \<times> int) list" where
  "step_pairs s = zip (n_Outputs (st_Node s)) (OutputBufs s)"

definition assigned :: "'a gplan \<Rightarrow> int \<Rightarrow> int option" where
  "assigned plan = map_of (concat (map step_pairs (p_Steps plan)))"

lemma map_of_zip_same:
  "length xs = length ys \<Longrightarrow> x \<in> set xs \<Longrightarrow> (\<And>k. k < length xs \<Longrightarrow> xs ! k = x \<Longrightarrow> ys ! k = c) \<Longrightarrow> map_of (zip xs ys) x = Some c"
proof (induction xs ys rule: list_induct2)
  case (Cons y ys z zs)
  show ?case
  proof (cases "y = x")
    case True
    then show ?thesis using Cons.prems(2) [of 0] by simp
  next
    case False
    then show ?thesis using Cons.prems(1) Cons.prems(2) [of "Suc k" for k] by (simp add: Cons.IH)
  qed
qed simp

lemma build_plan_Inr:
  assumes "BuildPlan (Some g) = Inr plan"
  shows "ValidateGraph (Some g) = Inr ()" "p_Graph plan = g" "LastUse plan = lastUses (g_Nodes g)"
    "p_Steps plan = map (\<lambda>k. fst (plan_step (g_Values g) (lastUses (g_Nodes g)) k (g_Nodes g ! k)
       (planner_at (g_Values g) (lastUses (g_Nodes g)) (g_Nodes g) k))) [0..<length (g_Nodes g)]"
    "p_Buffers plan = buffers (planner_at (g_Values g) (lastUses (g_Nodes g)) (g_Nodes g) (length (g_Nodes g)))"
    "0 \<le> WorkspaceBytes (Some plan)"
  using assms plan_nodes_at [of 0 "g_Nodes g" "g_Values g" "lastUses (g_Nodes g)"]
  by (auto simp: BuildPlan_def res_bind_Inr Let_def split: prod.splits if_splits)

lemma buffers_grow:
  assumes "well_formed vals nodes" "L = lastUses nodes" "i < length nodes"
  shows "\<exists>more. buffers (planner_at vals L nodes (length nodes)) = buffers (mid_at vals L nodes i) @ more"
proof -
  have ids: "\<forall>i < length vals. v_ID (vals ! i) = int i" using assms(1) by (simp add: well_formed_def)
  have suc: "buffers (planner_at vals L nodes (Suc j)) = buffers (mid_at vals L nodes j) \<and>
      (\<exists>more. buffers (mid_at vals L nodes j) = buffers (planner_at vals L nodes j) @ more)" if "j < length nodes" for j
  proof -
    from planner_at_inv(2) [OF assms(1,2) that] have M: "pinv vals (in_use vals L nodes j) (mid_at vals L nodes j)"
      "planner_at vals L nodes (Suc j) = fold release (releaseAt vals L j) (mid_at vals L nodes j)"
      "\<exists>more. buffers (mid_at vals L nodes j) = buffers (planner_at vals L nodes j) @ more" by blast+
    show ?thesis unfolding M(2)
      using M(3) release_all_inv [OF M(1) release_spec(1) [OF ids] step_sets(3) [OF assms(1) that assms(2)]] by simp
  qed
  have "\<exists>more. buffers (planner_at vals L nodes (i + Suc d)) = buffers (mid_at vals L nodes i) @ more" if "i + Suc d \<le> length nodes" for d
    using that
  proof (induction d)
    case 0
    then show ?case using suc [of i] by simp
  next
    case (Suc d)
    then obtain more where more: "buffers (planner_at vals L nodes (i + Suc d)) = buffers (mid_at vals L nodes i) @ more" by auto
    from suc [of "i + Suc d"] Suc.prems obtain m2 where
      "buffers (planner_at vals L nodes (Suc (i + Suc d))) = buffers (planner_at vals L nodes (i + Suc d)) @ m2" by auto
    then show ?case unfolding more by simp
  qed
  moreover obtain d where "length nodes = i + Suc d" using assms(3) less_iff_Suc_add by auto
  ultimately show ?thesis by simp
qed

lemma assigned_spec:
  assumes "BuildPlan (Some g) = Inr plan" "i < length (g_Nodes g)" "x \<in> in_use (g_Values g) (LastUse plan) (g_Nodes g) i"
  shows "assigned plan x = valueBuf (mid_at (g_Values g) (LastUse plan) (g_Nodes g) i) x"
proof -
  let ?vals = "g_Values g" and ?nodes = "g_Nodes g" and ?L = "LastUse plan"
  note B = build_plan_Inr [OF assms(1)]
  have wf: "well_formed ?vals ?nodes" by (rule validate_fine [OF B(1)])
  have ids: "\<forall>i < length ?vals. v_ID (?vals ! i) = int i" using wf by (simp add: well_formed_def)
  define ps where "ps k = step_pairs (fst (plan_step ?vals ?L k (?nodes ! k) (planner_at ?vals ?L ?nodes k)))" for k
  define upto where "upto k = map_of (concat (map ps [0..<k]))" for k
  have node: "st_Node (fst (plan_step ?vals ?L k (?nodes ! k) p)) = ?nodes ! k" for k p by (simp add: plan_step_def Let_def split: prod.split)
  have pairs: "ps k = zip (n_Outputs (?nodes ! k)) (map (\<lambda>x. if persistent ?vals x then - 1 else the (valueBuf (mid_at ?vals ?L ?nodes k) x)) (n_Outputs (?nodes ! k)))"
    if "k < length ?nodes" for k
    using planner_at_inv(2) [OF wf B(3) that] by (simp add: ps_def step_pairs_def node)
  have upto_Suc: "upto (Suc k) x = (case upto k x of Some b \<Rightarrow> Some b | None \<Rightarrow> map_of (ps k) x)" for k x
    by (simp add: upto_def map_add_def)
  have keys: "fst ` set (ps k) = set (n_Outputs (?nodes ! k))" if "k < length ?nodes" for k
    unfolding pairs [OF that] by (simp flip: set_map)
  have dom: "k \<le> length ?nodes \<Longrightarrow> upto k x = None \<longleftrightarrow> x \<notin> outs_before ?nodes k" for k x
  proof (induction k)
    case (Suc k)
    then show ?case using keys [of k] by (auto simp: upto_Suc map_of_eq_None_iff split: option.splits)
  qed (simp add: upto_def)
  have mid: "upto (Suc k) x = valueBuf (mid_at ?vals ?L ?nodes k) x"
    if k: "k < length ?nodes" and x: "x \<in> in_use ?vals ?L ?nodes k"
      and old: "x \<in> held ?vals ?L ?nodes k \<Longrightarrow> upto k x = valueBuf (planner_at ?vals ?L ?nodes k) x" for k x
  proof -
    note S = step_sets [OF wf k B(3)]
    from planner_at_inv(2) [OF wf B(3) k] have M: "pinv ?vals (in_use ?vals ?L ?nodes k) (mid_at ?vals ?L ?nodes k)"
      "\<And>x. x \<notin> set (n_Outputs (?nodes ! k)) \<Longrightarrow> valueBuf (mid_at ?vals ?L ?nodes k) x = valueBuf (planner_at ?vals ?L ?nodes k) x" by blast+
    have tr: "\<not> persistent ?vals x" using x by (simp add: in_use_def)
    then have some: "valueBuf (mid_at ?vals ?L ?nodes k) x \<noteq> None" using M(1) x by (simp add: pinv_def)
    show ?thesis
    proof (cases "x \<in> held ?vals ?L ?nodes k")
      case True
      then have "x \<in> outs_before ?nodes k" "x \<notin> set (n_Outputs (?nodes ! k))" using S(2) tr by (auto simp: held_def transients_def)
      then show ?thesis using old [OF True] M(2) dom [of k x] k by (auto simp: upto_Suc split: option.splits)
    next
      case False
      then have x': "x \<in> set (n_Outputs (?nodes ! k))" using S(1) x by (auto simp: transients_def)
      have "x \<notin> outs_before ?nodes k" using False tr x unfolding held_def in_use_def by simp
      then have "upto k x = None" using dom [of k x] k by simp
      moreover have "map_of (ps k) x = Some (the (valueBuf (mid_at ?vals ?L ?nodes k) x))"
        unfolding pairs [OF k] by (rule map_of_zip_same) (use x' tr in auto)
      ultimately show ?thesis using some by (simp add: upto_Suc)
    qed
  qed
  have live: "\<forall>x \<in> held ?vals ?L ?nodes k. upto k x = valueBuf (planner_at ?vals ?L ?nodes k) x" if "k \<le> length ?nodes" for k
    using that
  proof (induction k)
    case (Suc k)
    then have k: "k < length ?nodes" by simp
    note S = step_sets [OF wf k B(3)]
    from planner_at_inv(2) [OF wf B(3) k] have M: "pinv ?vals (in_use ?vals ?L ?nodes k) (mid_at ?vals ?L ?nodes k)"
      "planner_at ?vals ?L ?nodes (Suc k) = fold release (releaseAt ?vals ?L k) (mid_at ?vals ?L ?nodes k)" by blast+
    have "valueBuf (planner_at ?vals ?L ?nodes (Suc k)) x = valueBuf (mid_at ?vals ?L ?nodes k) x" if "x \<in> held ?vals ?L ?nodes (Suc k)" for x
      using release_all_inv [OF M(1) release_spec(1) [OF ids] S(3)] that S(4) unfolding M(2) by blast
    then show ?case using mid [OF k] Suc S(4) by fastforce
  qed (simp add: held_def)
  have fixed: "upto j x = upto (Suc i) x" if "Suc i \<le> j" "x \<in> outs_before ?nodes (Suc i)" "j \<le> length ?nodes" for j x
    using that
  proof (induction j rule: dec_induct)
    case (step j)
    then have "upto j x \<noteq> None" using dom [of j x] outs_before_mono [of "Suc i" j ?nodes] by auto
    then show ?case using step by (auto simp: upto_Suc)
  qed simp
  have "assigned plan x = upto (length ?nodes) x"
    unfolding assigned_def upto_def B(4) ps_def B(3) by (simp add: comp_def)
  also have "\<dots> = upto (Suc i) x" by (rule fixed) (use assms(2,3) in \<open>auto simp: in_use_def\<close>)
  also have "\<dots> = valueBuf (mid_at ?vals ?L ?nodes i) x"
    by (rule mid [OF assms(2,3)]) (use live [of i] assms(2) in simp)
  finally show ?thesis .
qed

end
