(* ===== verification/GraphRun.thy ===== *)
theory GraphRun
  imports GraphBuffers
begin

text \<open>
  What a plan guarantees, read off the plan alone, and the execution of a plan on its buffers: a
  kernel computes the outputs of a node from its inputs; \<open>run_graph\<close> keeps one cell per value,
  \<open>buffer_op\<close> reads and writes the buffers that the step names.
\<close>

section \<open>What a plan guarantees\<close>

lemma plan_steps:
  assumes "BuildPlan (Some g) = Inr plan"
  shows "length (p_Steps plan) = length (g_Nodes g)" "i < length (g_Nodes g) \<Longrightarrow> st_Node (p_Steps plan ! i) = g_Nodes g ! i"
proof -
  have "st_Node (fst (plan_step vals L k n p)) = n" for vals L k p and n :: "'a gnode"
    by (simp add: plan_step_def Let_def split: prod.split)
  then show "length (p_Steps plan) = length (g_Nodes g)" "i < length (g_Nodes g) \<Longrightarrow> st_Node (p_Steps plan ! i) = g_Nodes g ! i"
    by (simp_all add: build_plan_Inr(4) [OF assms])
qed

definition buffer_of :: "gvalue list \<Rightarrow> 'a gplan \<Rightarrow> int \<Rightarrow> int" where
  "buffer_of vals plan x = (if persistent vals x then - 1 else the (assigned plan x))"

lemma plan_buffers:
  assumes "BuildPlan (Some g) = Inr plan" "i < length (g_Nodes g)"
  shows "InputBufs (p_Steps plan ! i) = map (buffer_of (g_Values g) plan) (n_Inputs (g_Nodes g ! i))"
    "OutputBufs (p_Steps plan ! i) = map (buffer_of (g_Values g) plan) (n_Outputs (g_Nodes g ! i))"
    "inj_on (buffer_of (g_Values g) plan) (in_use (g_Values g) (LastUse plan) (g_Nodes g) i)"
    "x \<in> in_use (g_Values g) (LastUse plan) (g_Nodes g) i \<Longrightarrow> fits (g_Values g) (p_Buffers plan) x (buffer_of (g_Values g) plan x)"
proof -
  let ?vals = "g_Values g" and ?nodes = "g_Nodes g" and ?L = "LastUse plan"
  note B = build_plan_Inr [OF assms(1)]
  have wf: "well_formed ?vals ?nodes" by (rule validate_fine [OF B(1)])
  note S = step_sets [OF wf assms(2) B(3)] and A = assigned_spec [OF assms]
  from planner_at_inv(2) [OF wf B(3) assms(2)] have M: "pinv ?vals (in_use ?vals ?L ?nodes i) (mid_at ?vals ?L ?nodes i)"
    "\<And>x. x \<notin> set (n_Outputs (?nodes ! i)) \<Longrightarrow> valueBuf (mid_at ?vals ?L ?nodes i) x = valueBuf (planner_at ?vals ?L ?nodes i) x"
    "OutputBufs (fst (plan_step ?vals ?L i (?nodes ! i) (planner_at ?vals ?L ?nodes i))) =
        map (\<lambda>x. if persistent ?vals x then - 1 else the (valueBuf (mid_at ?vals ?L ?nodes i) x)) (n_Outputs (?nodes ! i))" by blast+
  have step: "p_Steps plan ! i = fst (plan_step ?vals ?L i (?nodes ! i) (planner_at ?vals ?L ?nodes i))"
    using assms(2) by (simp add: B(3,4))
  have tr: "\<not> persistent ?vals x" if "x \<in> in_use ?vals ?L ?nodes i" for x using that by (simp add: in_use_def)
  have val: "buffer_of ?vals plan x = the (valueBuf (mid_at ?vals ?L ?nodes i) x)" if "x \<in> in_use ?vals ?L ?nodes i" for x
    using A [OF that] tr [OF that] by (simp add: buffer_of_def)
  have out: "(if persistent ?vals x then - 1 else the (valueBuf (mid_at ?vals ?L ?nodes i) x)) = buffer_of ?vals plan x"
    if "x \<in> set (n_Outputs (?nodes ! i))" for x
  proof (cases "persistent ?vals x")
    case False
    then have "x \<in> in_use ?vals ?L ?nodes i" using S(1) that by (auto simp: transients_def)
    then show ?thesis using val False by simp
  qed (simp add: buffer_of_def)
  then show "OutputBufs (p_Steps plan ! i) = map (buffer_of ?vals plan) (n_Outputs (?nodes ! i))"
    unfolding step M(3) by simp
  have inp: "(if v_Persistent (?vals ! nat x) then - 1 else go_get (valueBuf (planner_at ?vals ?L ?nodes i)) x 0) = buffer_of ?vals plan x"
    if x: "x \<in> set (n_Inputs (?nodes ! i))" for x
  proof (cases "persistent ?vals x")
    case True
    then show ?thesis by (simp add: buffer_of_def persistent_def)
  next
    case False
    then have l: "x \<in> held ?vals ?L ?nodes i" using S(6) [OF x] by simp
    then have u: "x \<in> in_use ?vals ?L ?nodes i" "x \<notin> set (n_Outputs (?nodes ! i))" using S(1,2) False by (auto simp: transients_def)
    have "valueBuf (mid_at ?vals ?L ?nodes i) x \<noteq> None" using M(1) u(1) False by (simp add: pinv_def)
    then show ?thesis using M(2) [OF u(2)] val [OF u(1)] False by (auto simp: go_get_def persistent_def)
  qed
  show "InputBufs (p_Steps plan ! i) = map (buffer_of ?vals plan) (n_Inputs (?nodes ! i))"
    unfolding step using inp by (simp add: plan_step_def Let_def split: prod.split)
  have "inj_on (\<lambda>x. the (valueBuf (mid_at ?vals ?L ?nodes i) x)) (in_use ?vals ?L ?nodes i)" using M(1) by (simp add: pinv_def)
  then show "inj_on (buffer_of ?vals plan) (in_use ?vals ?L ?nodes i)" by (subst inj_on_cong [OF val])
  obtain more where more: "p_Buffers plan = buffers (mid_at ?vals ?L ?nodes i) @ more"
    using buffers_grow [OF wf B(3) assms(2)] by (auto simp: B(3,5))
  show "fits ?vals (p_Buffers plan) x (buffer_of ?vals plan x)" if "x \<in> in_use ?vals ?L ?nodes i"
    using M(1) that unfolding val [OF that] more by (auto simp: pinv_def fits_def nth_append)
qed

section \<open>Execution\<close>

type_synonym ('a, 'v) kernel = "'a gnode \<Rightarrow> 'v list \<Rightarrow> 'v list"

definition run_node :: "('a, 'v) kernel \<Rightarrow> 'a gnode \<Rightarrow> (int \<Rightarrow> 'v) \<Rightarrow> (int \<Rightarrow> 'v)" where
  "run_node K n env = fold (\<lambda>(x, y) e. e(x := y)) (zip (n_Outputs n) (K n (map env (n_Inputs n)))) env"

definition run_graph :: "('a, 'v) kernel \<Rightarrow> 'a gnode list \<Rightarrow> (int \<Rightarrow> 'v) \<Rightarrow> (int \<Rightarrow> 'v)" where
  "run_graph K nodes env = fold (run_node K) nodes env"

text \<open>The storage of an execution: a cell per persistent value, and the buffers.\<close>

type_synonym 'v storage = "(int \<Rightarrow> 'v) \<times> (int \<Rightarrow> 'v)"

definition load :: "'v storage \<Rightarrow> int \<times> int \<Rightarrow> 'v" where
  "load w xb = (case xb of (x, b) \<Rightarrow> if b = - 1 then fst w x else snd w b)"

definition store :: "(int \<times> int) \<times> 'v \<Rightarrow> 'v storage \<Rightarrow> 'v storage" where
  "store xby w = (case xby of ((x, b), y) \<Rightarrow> if b = - 1 then ((fst w)(x := y), snd w) else (fst w, (snd w)(b := y)))"

definition buffer_op :: "('a, 'v) kernel \<Rightarrow> 'a gstep \<Rightarrow> ('v storage, unit) io" where
  "buffer_op K s w = (let n = st_Node s; ins = map (load w) (zip (n_Inputs n) (InputBufs s)) in
     (Inr (), fold store (zip (zip (n_Outputs n) (OutputBufs s)) (K n ins)) w))"

text \<open>The storage agrees with the cells on the persistent values and on a set of transient ones.\<close>

definition agrees :: "gvalue list \<Rightarrow> (int \<Rightarrow> int) \<Rightarrow> int set \<Rightarrow> 'v storage \<Rightarrow> (int \<Rightarrow> 'v) \<Rightarrow> bool" where
  "agrees vals buf S w env \<longleftrightarrow> (\<forall>x. persistent vals x \<longrightarrow> fst w x = env x) \<and> (\<forall>x \<in> S. snd w (buf x) = env x)"

lemma store_agrees:
  assumes "agrees vals buf S w env" "length xs = length ys" "inj_on buf (S \<union> transients vals xs)"
    and "\<And>x. persistent vals x \<Longrightarrow> buf x = - 1" "\<And>x. x \<in> transients vals xs \<Longrightarrow> buf x \<noteq> - 1" "\<And>x. x \<in> S \<Longrightarrow> \<not> persistent vals x"
  shows "agrees vals buf (S \<union> transients vals xs) (fold store (zip (zip xs (map buf xs)) ys) w) (fold (\<lambda>(x, y) e. e(x := y)) (zip xs ys) env)"
  using assms(2,1,3,5,6)
proof (induction xs ys arbitrary: S w env rule: list_induct2)
  case Nil
  then show ?case by (simp add: transients_def)
next
  case (Cons x xs y ys)
  let ?T = "S \<union> transients vals [x]"
  have sets: "S \<union> transients vals (x # xs) = ?T \<union> transients vals xs" by (auto simp: transients_def)
  have "agrees vals buf ?T (store ((x, buf x), y) w) (env(x := y))"
  proof (cases "persistent vals x")
    case True
    then show ?thesis using Cons.prems(1,4) assms(4) [OF True] by (auto simp: agrees_def store_def transients_def)
  next
    case False
    then have x: "x \<in> transients vals (x # xs)" by (simp add: transients_def)
    have "buf z \<noteq> buf x" if "z \<in> S" "z \<noteq> x" for z using inj_onD [OF Cons.prems(2), of z x] that x by blast
    then show ?thesis using Cons.prems(1) Cons.prems(3) [OF x] False by (auto simp: agrees_def store_def transients_def)
  qed
  moreover have "inj_on buf (?T \<union> transients vals xs)" using Cons.prems(2) unfolding sets .
  moreover have "buf z \<noteq> - 1" if "z \<in> transients vals xs" for z using Cons.prems(3) [of z] that by (auto simp: transients_def)
  moreover have "\<not> persistent vals z" if "z \<in> ?T" for z using Cons.prems(4) that by (auto simp: transients_def)
  ultimately have "agrees vals buf (?T \<union> transients vals xs) (fold store (zip (zip xs (map buf xs)) ys) (store ((x, buf x), y) w))
      (fold (\<lambda>(x, y) e. e(x := y)) (zip xs ys) (env(x := y)))" by (rule Cons.IH)
  then show ?case unfolding sets by (simp del: fun_upd_apply)
qed

lemma step_agrees:
  assumes "BuildPlan (Some g) = Inr plan" "i < length (g_Nodes g)" "length (K (g_Nodes g ! i) (map env (n_Inputs (g_Nodes g ! i)))) = length (n_Outputs (g_Nodes g ! i))"
    and "agrees (g_Values g) (buffer_of (g_Values g) plan) (held (g_Values g) (LastUse plan) (g_Nodes g) i) w env"
  shows "\<exists>w'. buffer_op K (p_Steps plan ! i) w = (Inr (), w') \<and>
    agrees (g_Values g) (buffer_of (g_Values g) plan) (held (g_Values g) (LastUse plan) (g_Nodes g) (Suc i)) w' (run_node K (g_Nodes g ! i) env)"
proof -
  let ?vals = "g_Values g" and ?n = "g_Nodes g ! i" and ?buf = "buffer_of (g_Values g) plan" and ?live = "held (g_Values g) (LastUse plan) (g_Nodes g) i"
  note B = build_plan_Inr [OF assms(1)] and P = plan_buffers [OF assms(1,2)]
  have wf: "well_formed ?vals (g_Nodes g)" by (rule validate_fine [OF B(1)])
  note S = step_sets [OF wf assms(2) B(3)]
  have node: "st_Node (p_Steps plan ! i) = ?n" by (rule plan_steps(2) [OF assms(1,2)])
  have nonneg: "?buf x \<noteq> - 1" if "x \<in> in_use ?vals (LastUse plan) (g_Nodes g) i" for x using P(4) [OF that] by (simp add: fits_def)
  have "load w (x, ?buf x) = env x" if x: "x \<in> set (n_Inputs ?n)" for x
  proof (cases "persistent ?vals x")
    case True
    then show ?thesis using assms(4) by (simp add: load_def buffer_of_def agrees_def)
  next
    case False
    then have "x \<in> ?live" using S(6) [OF x] by simp
    then show ?thesis using assms(4) nonneg [of x] S(1) by (auto simp: load_def agrees_def)
  qed
  then have ins: "map (load w) (zip (n_Inputs ?n) (InputBufs (p_Steps plan ! i))) = map env (n_Inputs ?n)"
    unfolding P(1) by (simp add: zip_map2 zip_same_conv_map comp_def)
  let ?ys = "K ?n (map env (n_Inputs ?n))"
  have "agrees ?vals ?buf (?live \<union> transients ?vals (n_Outputs ?n))
      (fold store (zip (zip (n_Outputs ?n) (map ?buf (n_Outputs ?n))) ?ys) w) (fold (\<lambda>(x, y) e. e(x := y)) (zip (n_Outputs ?n) ?ys) env)"
  proof (rule store_agrees [OF assms(4)])
    show "length (n_Outputs ?n) = length ?ys" using assms(3) by simp
    show "inj_on ?buf (?live \<union> transients ?vals (n_Outputs ?n))" using P(3) unfolding S(1) .
    show "?buf x = - 1" if "persistent ?vals x" for x using that by (simp add: buffer_of_def)
    show "?buf x \<noteq> - 1" if "x \<in> transients ?vals (n_Outputs ?n)" for x using nonneg S(1) that by blast
    show "\<not> persistent ?vals x" if "x \<in> ?live" for x using that by (simp add: held_def)
  qed
  then have "agrees ?vals ?buf (held ?vals (LastUse plan) (g_Nodes g) (Suc i))
      (fold store (zip (zip (n_Outputs ?n) (map ?buf (n_Outputs ?n))) ?ys) w) (run_node K ?n env)"
    using S(4) unfolding S(1) run_node_def agrees_def by blast
  moreover have "buffer_op K (p_Steps plan ! i) w = (Inr (), fold store (zip (zip (n_Outputs ?n) (map ?buf (n_Outputs ?n))) ?ys) w)"
    by (simp add: buffer_op_def Let_def node ins P(2))
  ultimately show ?thesis by blast
qed

lemma run_agrees:
  assumes "BuildPlan (Some g) = Inr plan" "\<And>n xs. n \<in> set (g_Nodes g) \<Longrightarrow> length (K n xs) = length (n_Outputs n)"
    and "\<And>x. persistent (g_Values g) x \<Longrightarrow> fst w x = env x"
  shows "\<exists>w'. RunPlan (\<lambda>_. Some (buffer_op K)) (Some plan) w = (Inr (), w') \<and>
    agrees (g_Values g) (buffer_of (g_Values g) plan) (held (g_Values g) (LastUse plan) (g_Nodes g) (length (g_Nodes g))) w' (run_graph K (g_Nodes g) env)"
proof -
  let ?ag = "\<lambda>i. agrees (g_Values g) (buffer_of (g_Values g) plan) (held (g_Values g) (LastUse plan) (g_Nodes g) i)" and ?N = "length (g_Nodes g)"
  have "i \<le> ?N \<Longrightarrow> ?ag i w env \<Longrightarrow> \<exists>w'. run_steps (\<lambda>_. Some (buffer_op K)) (drop i (p_Steps plan)) w = (Inr (), w') \<and>
      ?ag ?N w' (fold (run_node K) (drop i (g_Nodes g)) env)" for i w env
  proof (induction "?N - i" arbitrary: i w env)
    case 0
    then show ?case using plan_steps(1) [OF assms(1)] by (simp add: io_return_def)
  next
    case (Suc d)
    then have i: "i < ?N" by simp
    obtain w1 where w1: "buffer_op K (p_Steps plan ! i) w = (Inr (), w1)" "?ag (Suc i) w1 (run_node K (g_Nodes g ! i) env)"
      using step_agrees [OF assms(1) i, of K env w] assms(2) [of "g_Nodes g ! i"] Suc(4) i by auto
    have "d = ?N - Suc i" "Suc i \<le> ?N" using Suc(2) i by simp_all
    from Suc(1) [OF this w1(2)] obtain w' where
      "run_steps (\<lambda>_. Some (buffer_op K)) (drop (Suc i) (p_Steps plan)) w1 = (Inr (), w')"
      "?ag ?N w' (fold (run_node K) (drop (Suc i) (g_Nodes g)) (run_node K (g_Nodes g ! i) env))" by auto
    moreover have "drop i (p_Steps plan) = p_Steps plan ! i # drop (Suc i) (p_Steps plan)"
      using i plan_steps(1) [OF assms(1)] by (simp add: Cons_nth_drop_Suc)
    moreover have "drop i (g_Nodes g) = g_Nodes g ! i # drop (Suc i) (g_Nodes g)" using i by (simp add: Cons_nth_drop_Suc)
    ultimately show ?case by (simp add: w1(1))
  qed
  from this [of 0 w env] show ?thesis using assms(3)
    by (simp add: RunPlan_def run_graph_def agrees_def held_def)
qed

end
