(* ===== verification/GraphProps.thy ===== *)
theory GraphProps
  imports GraphRun Samples
begin

text \<open>
  The properties of the execution planner.
\<close>

section \<open>A small graph\<close>

definition sample_value :: "int \<Rightarrow> string \<Rightarrow> int list \<Rightarrow> bool \<Rightarrow> gvalue" where
  "sample_value i name shape pers = \<lparr>v_ID = i, v_Name = name, v_Shape = shape, v_DType = F32, v_Persistent = pers\<rparr>"

definition sample_node :: "int \<Rightarrow> string \<Rightarrow> opkind \<Rightarrow> int list \<Rightarrow> int list \<Rightarrow> unit gnode" where
  "sample_node i name op ins outs = \<lparr>n_ID = i, n_Name = name, n_Op = op, n_Inputs = ins, n_Outputs = outs, n_Attrs = (), n_StreamHint = StreamAny\<rparr>"

definition sample_graph :: "unit graph" where
  "sample_graph = \<lparr>g_Name = ''g'',
     g_Values = [sample_value 0 ''x'' [2, 3] False, sample_value 1 ''w'' [2, 3] True, sample_value 2 ''h'' [2, 3] False,
       sample_value 3 ''r'' [6] False, sample_value 4 ''s'' [6] False, sample_value 5 ''y'' [6] False],
     g_Nodes = [sample_node 0 ''in'' ''input'' [] [0], sample_node 1 ''mul'' ''mul'' [0, 1] [2], sample_node 2 ''view'' OpReshape [2] [3],
       sample_node 3 ''act'' ''silu'' [3] [4], sample_node 4 ''add'' ''add'' [4, 3] [5]]\<rparr>"

definition sample_plan :: "unit gplan" where
  "sample_plan = (case BuildPlan (Some sample_graph) of Inr p \<Rightarrow> p | Inl _ \<Rightarrow>
     \<lparr>p_Graph = sample_graph, p_Steps = [], p_Buffers = [], LastUse = Map.empty\<rparr>)"

lemma sample_plan_builds: "BuildPlan (Some sample_graph) = Inr sample_plan"
proof -
  have "case BuildPlan (Some sample_graph) of Inr _ \<Rightarrow> True | Inl _ \<Rightarrow> False" by code_simp
  then show ?thesis by (auto simp: sample_plan_def split: sum.splits)
qed

lemma sample_plan_buffers: "map OutputBufs (p_Steps sample_plan) = [[0], [1], [0], [2], [3]]"
  by code_simp

text \<open>A kernel that adds up its inputs, and one, into every output.\<close>

definition sample_kernel :: "(unit, int) kernel" where
  "sample_kernel n xs = replicate (length (n_Outputs n)) (sum_list xs + 1)"

section \<open>Planning\<close>

text \<open>C6. Running the steps of a plan on its shared buffers leaves every persistent value, and every
  result that is never read, as running the nodes of the graph on values of their own would.\<close>

theorem plan_runs_like_the_graph:
  assumes "BuildPlan (Some g) = Inr plan" "\<And>n xs. n \<in> set (g_Nodes g) \<Longrightarrow> length (K n xs) = length (n_Outputs n)"
    and "\<And>x. v_Persistent (g_Values g ! nat x) \<Longrightarrow> fst w x = env x"
  shows "\<exists>w'. RunPlan (\<lambda>_. Some (buffer_op K)) (Some plan) w = (Inr (), w') \<and>
    (\<forall>x. v_Persistent (g_Values g ! nat x) \<longrightarrow> fst w' x = run_graph K (g_Nodes g) env x) \<and>
    (\<forall>n \<in> set (g_Nodes g). \<forall>x \<in> set (n_Outputs n). \<not> v_Persistent (g_Values g ! nat x) \<and> LastUse plan x = None \<longrightarrow>
       (\<exists>b. assigned plan x = Some b \<and> snd w' b = run_graph K (g_Nodes g) env x))"
proof -
  let ?N = "length (g_Nodes g)"
  have "\<exists>w'. RunPlan (\<lambda>_. Some (buffer_op K)) (Some plan) w = (Inr (), w') \<and>
    agrees (g_Values g) (buffer_of (g_Values g) plan) (held (g_Values g) (LastUse plan) (g_Nodes g) ?N) w' (run_graph K (g_Nodes g) env)"
    by (rule run_agrees [OF assms(1,2)]) (simp_all add: assms(3) persistent_def)
  then obtain w' where w': "RunPlan (\<lambda>_. Some (buffer_op K)) (Some plan) w = (Inr (), w')"
    "agrees (g_Values g) (buffer_of (g_Values g) plan) (held (g_Values g) (LastUse plan) (g_Nodes g) ?N) w' (run_graph K (g_Nodes g) env)"
    by blast
  have "\<exists>b. assigned plan x = Some b \<and> snd w' b = run_graph K (g_Nodes g) env x"
    if x: "n \<in> set (g_Nodes g)" "x \<in> set (n_Outputs n)" "\<not> v_Persistent (g_Values g ! nat x)" "LastUse plan x = None" for n x
  proof -
    obtain i where i: "i < ?N" "g_Nodes g ! i = n" using x(1) by (auto simp: in_set_conv_nth)
    have t: "\<not> persistent (g_Values g) x" using x(3) by (simp add: persistent_def)
    have u: "x \<in> in_use (g_Values g) (LastUse plan) (g_Nodes g) i" using i x t by (simp add: in_use_def last_step_def)
    have l: "x \<in> held (g_Values g) (LastUse plan) (g_Nodes g) ?N"
      using u outs_before_mono [of "Suc i" ?N "g_Nodes g"] i x(4) by (auto simp: in_use_def held_def last_step_def)
    from assigned_spec [OF assms(1) i(1) u] obtain b where "assigned plan x = Some b"
      using planner_at_inv(2) [OF validate_fine [OF build_plan_Inr(1) [OF assms(1)]] build_plan_Inr(3) [OF assms(1)] i(1)] u t
      by (auto simp: pinv_def)
    then show ?thesis using w'(2) l t by (auto simp: agrees_def buffer_of_def)
  qed
  then show ?thesis using w' unfolding agrees_def persistent_def by blast
qed

lemma plan_runs_like_the_graph_witness:
  "\<exists>w'. RunPlan (\<lambda>_. Some (buffer_op sample_kernel)) (Some sample_plan) (\<lambda>_. 10, \<lambda>_. 0) = (Inr (), w') \<and>
     (\<exists>b. assigned sample_plan 5 = Some b \<and> snd w' b = 28)"
proof -
  have len: "length (sample_kernel n xs) = length (n_Outputs n)" for n xs by (simp add: sample_kernel_def)
  have "\<exists>w'. RunPlan (\<lambda>_. Some (buffer_op sample_kernel)) (Some sample_plan) (\<lambda>_. 10, \<lambda>_. 0) = (Inr (), w') \<and>
    (\<forall>x. v_Persistent (g_Values sample_graph ! nat x) \<longrightarrow> fst w' x = run_graph sample_kernel (g_Nodes sample_graph) (\<lambda>_. 10) x) \<and>
    (\<forall>n \<in> set (g_Nodes sample_graph). \<forall>x \<in> set (n_Outputs n). \<not> v_Persistent (g_Values sample_graph ! nat x) \<and> LastUse sample_plan x = None \<longrightarrow>
       (\<exists>b. assigned sample_plan x = Some b \<and> snd w' b = run_graph sample_kernel (g_Nodes sample_graph) (\<lambda>_. 10) x))"
    by (rule plan_runs_like_the_graph [OF sample_plan_builds]) (simp_all add: len)
  then obtain w' where w': "RunPlan (\<lambda>_. Some (buffer_op sample_kernel)) (Some sample_plan) (\<lambda>_. 10, \<lambda>_. 0) = (Inr (), w')"
    "\<forall>n \<in> set (g_Nodes sample_graph). \<forall>x \<in> set (n_Outputs n). \<not> v_Persistent (g_Values sample_graph ! nat x) \<and> LastUse sample_plan x = None \<longrightarrow>
       (\<exists>b. assigned sample_plan x = Some b \<and> snd w' b = run_graph sample_kernel (g_Nodes sample_graph) (\<lambda>_. 10) x)" by blast
  have "LastUse sample_plan 5 = None" "run_graph sample_kernel (g_Nodes sample_graph) (\<lambda>_. 10) 5 = 28" by code_simp+
  moreover have "sample_node 4 ''add'' ''add'' [4, 3] [5] \<in> set (g_Nodes sample_graph)" by (simp add: sample_graph_def)
  moreover have "\<not> v_Persistent (g_Values sample_graph ! nat 5)" by code_simp
  moreover have "5 \<in> set (n_Outputs (sample_node 4 ''add'' ''add'' [4, 3] [5]))" by (simp add: sample_node_def)
  ultimately show ?thesis using w' by metis
qed

text \<open>C18. At every step of a plan the values in use lie in pairwise distinct buffers that are large
  enough and of their type, and the step reads and writes the buffers of its inputs and outputs.\<close>

theorem live_values_have_their_own_buffer:
  assumes "BuildPlan (Some g) = Inr plan" "i < length (g_Nodes g)"
  shows "let vals = g_Values g; s = p_Steps plan ! i; live_now = in_use vals (LastUse plan) (g_Nodes g) i in
    st_Node s = g_Nodes g ! i \<and> length (p_Steps plan) = length (g_Nodes g) \<and>
    InputBufs s = map (buffer_of vals plan) (n_Inputs (g_Nodes g ! i)) \<and>
    OutputBufs s = map (buffer_of vals plan) (n_Outputs (g_Nodes g ! i)) \<and>
    (\<forall>x \<in> set (n_Inputs (g_Nodes g ! i)) \<union> set (n_Outputs (g_Nodes g ! i)). v_Persistent (vals ! nat x) \<or> x \<in> live_now) \<and>
    inj_on (buffer_of vals plan) live_now \<and> (\<forall>x \<in> live_now. fits vals (p_Buffers plan) x (buffer_of vals plan x))"
proof -
  note B = build_plan_Inr [OF assms(1)]
  note S = step_sets [OF validate_fine [OF B(1)] assms(2) B(3)]
  have "v_Persistent (g_Values g ! nat x) \<or> x \<in> in_use (g_Values g) (LastUse plan) (g_Nodes g) i"
    if "x \<in> set (n_Inputs (g_Nodes g ! i)) \<union> set (n_Outputs (g_Nodes g ! i))" for x
    using that S(1,6) by (auto simp: transients_def persistent_def)
  then show ?thesis using plan_steps [OF assms(1)] plan_buffers [OF assms] assms(2) by (simp add: Let_def)
qed

lemma live_values_have_their_own_buffer_witness:
  "inj_on (buffer_of (g_Values sample_graph) sample_plan) (in_use (g_Values sample_graph) (LastUse sample_plan) (g_Nodes sample_graph) 3)"
  using live_values_have_their_own_buffer [OF sample_plan_builds, of 3] by (simp add: Let_def) (simp add: sample_graph_def)

text \<open>x\<close>

theorem views_keep_their_backing:
  assumes "BuildPlan (Some g) = Inr plan" "i < length (g_Nodes g)" "is_view (n_Op (g_Nodes g ! i))"
    and "x \<in> set (n_Inputs (g_Nodes g ! i))" "y \<in> set (n_Outputs (g_Nodes g ! i))"
    and "\<not> v_Persistent (g_Values g ! nat x)" "\<not> v_Persistent (g_Values g ! nat y)"
    and "i \<le> j" "y \<in> in_use (g_Values g) (LastUse plan) (g_Nodes g) j"
  shows "x \<in> in_use (g_Values g) (LastUse plan) (g_Nodes g) j"
proof -
  note B = build_plan_Inr [OF assms(1)]
  have wf: "well_formed (g_Values g) (g_Nodes g)" by (rule validate_fine [OF B(1)])
  have t: "\<not> persistent (g_Values g) x" "\<not> persistent (g_Values g) y" using assms(6,7) by (simp_all add: persistent_def)
  have "last_step (length (g_Nodes g)) (LastUse plan) y \<le> last_step (length (g_Nodes g)) (LastUse plan) x"
    unfolding B(3) by (rule lastUses_spec(3) [OF wf assms(2-5) t(2)])
  moreover have "x \<in> outs_before (g_Nodes g) i"
    using step_sets(6) [OF wf assms(2) B(3) assms(4)] t(1) by (auto simp: held_def)
  then have "x \<in> outs_before (g_Nodes g) (Suc j)" using outs_before_mono [of i "Suc j" "g_Nodes g"] assms(8) by auto
  ultimately show ?thesis using assms(9) t(1) by (auto simp: in_use_def)
qed

lemma views_keep_their_backing_witness:
  "2 \<in> in_use (g_Values sample_graph) (LastUse sample_plan) (g_Nodes sample_graph) 4"
proof (rule views_keep_their_backing [OF sample_plan_builds, of 2 2 3 4])
  have l: "LastUse sample_plan 3 = Some 4" by code_simp
  show "3 \<in> in_use (g_Values sample_graph) (LastUse sample_plan) (g_Nodes sample_graph) 4"
    using l by (auto simp: in_use_def last_step_def outs_before_def persistent_def sample_graph_def sample_node_def sample_value_def)
qed (simp_all add: sample_graph_def sample_node_def sample_value_def is_view_def OpView_def OpReshape_def)

end
