(* ===== verification/PrefillPlan.thy ===== *)
theory PrefillPlan
  imports Checked
begin

text \<open>
  \<open>model/prefill_chunk_plan.go\<close>: how a prompt is cut into chunks whose scratch buffers fit a budget.
  Sizes are 64-bit values and every product and sum is checked. The arguments of an error message
  that are structures or slices are listed flat.
\<close>

section \<open>Checked arithmetic of the package\<close>

definition checkedProduct :: "int \<Rightarrow> int \<Rightarrow> int \<times> bool" where
  "checkedProduct a b = (if a < 0 \<or> b < 0 then (0, False)
     else if b \<noteq> 0 \<and> a > go_quot max_int64 b then (0, False) else (wrap64 (a * b), True))"

definition checkedAddNonNegative :: "int \<Rightarrow> int \<Rightarrow> int \<times> bool" where
  "checkedAddNonNegative a b = (if a < 0 \<or> b < 0 then (0, False)
     else if a > wrap64 (max_int64 - b) then (0, False) else (wrap64 (a + b), True))"

section \<open>Data\<close>

definition PrefillChunkBudgetUnlimited :: int where "PrefillChunkBudgetUnlimited = - 1"
definition defaultPrefillChunkSizes :: "int list" where "defaultPrefillChunkSizes = [32, 64, 128]"
definition prefillCPUHiddenBuffersPerRow :: int where "prefillCPUHiddenBuffersPerRow = 6"
definition prefillGPUHiddenBuffersPerRow :: int where "prefillGPUHiddenBuffersPerRow = 5"
definition prefillQBuffersPerRow :: int where "prefillQBuffersPerRow = 2"
definition prefillKVBuffersPerRow :: int where "prefillKVBuffersPerRow = 2"
definition prefillMLPBuffersPerRow :: int where "prefillMLPBuffersPerRow = 2"
definition prefillCPUReusableBufferCount :: int where "prefillCPUReusableBufferCount = 12"
definition prefillGPUReusableBufferCount :: int where "prefillGPUReusableBufferCount = 11"

text \<open>The sizes of a float32 and of a slice header on a 64-bit platform.\<close>

definition prefillFloat32Bytes :: int where "prefillFloat32Bytes = 4"
definition prefillSliceHeaderBytes :: int where "prefillSliceHeaderBytes = 24"

record chunk_dims =
  cd_HiddenSize :: int
  cd_QDim :: int
  cd_KVDim :: int
  cd_Intermediate :: int
  cd_Layers :: int

definition zero_dims :: chunk_dims where
  "zero_dims = \<lparr>cd_HiddenSize = 0, cd_QDim = 0, cd_KVDim = 0, cd_Intermediate = 0, cd_Layers = 0\<rparr>"

definition dims_args :: "chunk_dims \<Rightarrow> err_arg list" where
  "dims_args d = [AN (cd_HiddenSize d), AN (cd_QDim d), AN (cd_KVDim d), AN (cd_Intermediate d), AN (cd_Layers d)]"

record scratch_estimate =
  se_Dims :: chunk_dims
  CPURowBytes :: int
  GPURowBytes :: int
  ReusableRowBytes :: int
  FixedBytes :: int

record chunk_span =
  Start :: int
  End :: int

record chunk_plan =
  cp_Tokens :: int
  cp_Dims :: chunk_dims
  AllowedChunkSizes :: "int list"
  BudgetBytes :: int
  ChunkSize :: int
  Disabled :: bool
  Spans :: "chunk_span list"
  cp_Scratch :: scratch_estimate
  PeakRows :: int
  PeakScratchBytes :: int

definition StructSpans :: "chunk_plan \<Rightarrow> (int \<times> int) list" where
  "StructSpans p = map (\<lambda>s. (Start s, End s)) (Spans p)"

section \<open>The scratch of a chunk\<close>

definition TotalBytes :: "scratch_estimate \<Rightarrow> int \<Rightarrow> go_error + int" where
  "TotalBytes e rows =
     (if rows < 0 then Inl (Errorf ''prefill chunk rows %d out of range'' [AN rows])
      else if rows = 0 then Inr 0
      else case checkedProduct rows (ReusableRowBytes e) of (rowBytes, ok) \<Rightarrow>
        if \<not> ok then Inl (Errorf ''prefill chunk scratch byte size overflow rows=%d per_row=%d'' [AN rows, AN (ReusableRowBytes e)])
        else case checkedAddNonNegative (FixedBytes e) rowBytes of (all, ok2) \<Rightarrow>
          if \<not> ok2 then Inl (Errorf ''prefill chunk scratch total overflow rows=%d fixed=%d per_row=%d''
               [AN rows, AN (FixedBytes e), AN (ReusableRowBytes e)])
          else Inr all)"

definition validatePrefillChunkModelDims :: "chunk_dims \<Rightarrow> go_error + unit" where
  "validatePrefillChunkModelDims d =
     (if cd_HiddenSize d \<le> 0 then Inl (Errorf ''prefill chunk hidden size %d out of range'' [AN (cd_HiddenSize d)])
      else if cd_QDim d \<le> 0 then Inl (Errorf ''prefill chunk q dim %d out of range'' [AN (cd_QDim d)])
      else if cd_KVDim d \<le> 0 then Inl (Errorf ''prefill chunk kv dim %d out of range'' [AN (cd_KVDim d)])
      else if cd_Intermediate d \<le> 0 then Inl (Errorf ''prefill chunk intermediate size %d out of range'' [AN (cd_Intermediate d)])
      else if cd_Layers d \<le> 0 then Inl (Errorf ''prefill chunk layer count %d out of range'' [AN (cd_Layers d)])
      else Inr ())"

text \<open>The sum of four counts, each addition made only if the ones before it were in range.\<close>

definition sum_row :: "int \<Rightarrow> int \<Rightarrow> int \<Rightarrow> int \<Rightarrow> int \<times> bool" where
  "sum_row hidden q kv mlp =
     (let (a, ok1) = checkedAddNonNegative hidden q;
          (b, ok2) = (if ok1 then checkedAddNonNegative a kv else (a, ok1))
      in if ok2 then checkedAddNonNegative b mlp else (b, ok2))"

definition EstimatePrefillChunkScratch :: "chunk_dims \<Rightarrow> go_error + scratch_estimate" where
  "EstimatePrefillChunkScratch d = res_bind (validatePrefillChunkModelDims d) (\<lambda>_.
     let (cpuHidden, okCPUHidden) = checkedProduct (cd_HiddenSize d) prefillCPUHiddenBuffersPerRow;
         (gpuHidden, okGPUHidden) = checkedProduct (cd_HiddenSize d) prefillGPUHiddenBuffersPerRow;
         (qFloats, okQ) = checkedProduct (cd_QDim d) prefillQBuffersPerRow;
         (kvFloats, okKV) = checkedProduct (cd_KVDim d) prefillKVBuffersPerRow;
         (mlpFloats, okMLP) = checkedProduct (cd_Intermediate d) prefillMLPBuffersPerRow
     in if \<not> okCPUHidden \<or> \<not> okGPUHidden \<or> \<not> okQ \<or> \<not> okKV \<or> \<not> okMLP
        then Inl (Errorf ''prefill chunk scratch row size overflow dims=%+v'' (dims_args d))
        else let (cpuRowFloats, okC) = sum_row cpuHidden qFloats kvFloats mlpFloats in
        if \<not> okC then Inl (Errorf ''prefill chunk CPU scratch row total overflow dims=%+v'' (dims_args d))
        else let (gpuRowFloats, okG) = sum_row gpuHidden qFloats kvFloats mlpFloats in
        if \<not> okG then Inl (Errorf ''prefill chunk GPU scratch row total overflow dims=%+v'' (dims_args d))
        else let (cpuRowBytes, okCPUBytes) = checkedProduct cpuRowFloats prefillFloat32Bytes;
                 (gpuRowBytes, okGPUBytes) = checkedProduct gpuRowFloats prefillFloat32Bytes;
                 (cpuFixedBytes, okCPUFixed) = checkedProduct prefillCPUReusableBufferCount prefillSliceHeaderBytes;
                 (gpuFixedBytes, okGPUFixed) = checkedProduct prefillGPUReusableBufferCount prefillSliceHeaderBytes
        in if \<not> okCPUBytes \<or> \<not> okGPUBytes \<or> \<not> okCPUFixed \<or> \<not> okGPUFixed
           then Inl (Errorf ''prefill chunk scratch byte conversion overflow dims=%+v'' (dims_args d))
           else Inr \<lparr>se_Dims = d, CPURowBytes = cpuRowBytes, GPURowBytes = gpuRowBytes,
                  ReusableRowBytes = (if gpuRowBytes > cpuRowBytes then gpuRowBytes else cpuRowBytes),
                  FixedBytes = (if gpuFixedBytes > cpuFixedBytes then gpuFixedBytes else cpuFixedBytes)\<rparr>)"

section \<open>Chunk sizes and spans\<close>

text \<open>The loop over the sorted sizes, from index \<open>i\<close> on.\<close>

fun dedup_sizes :: "nat \<Rightarrow> int \<Rightarrow> int list \<Rightarrow> go_error + int list" where
  "dedup_sizes i prev [] = Inr []"
| "dedup_sizes i prev (sz # rest) =
     (if sz \<le> 0 then Inl (Errorf ''prefill chunk size %d out of range'' [AN sz])
      else if i > 0 \<and> sz = prev then dedup_sizes (Suc i) prev rest
      else res_bind (dedup_sizes (Suc i) sz rest) (\<lambda>out. Inr (sz # out)))"

definition normalizePrefillChunkSizes :: "int list \<Rightarrow> go_error + int list" where
  "normalizePrefillChunkSizes sizes =
     (if sizes = [] then Inr defaultPrefillChunkSizes
      else res_bind (dedup_sizes 0 0 (sort sizes)) (\<lambda>out.
        if out = [] then Inl (Errorf ''prefill chunk sizes empty'' []) else Inr out))"

text \<open>The loop over the spans. The chunk size is checked before the loop in the code; the check is repeated
  here, with the upper bound every \<open>int\<close> meets, because the loop ends only for such a size.\<close>

function span_loop :: "int \<Rightarrow> int \<Rightarrow> int \<Rightarrow> go_error + chunk_span list" where
  "span_loop tokens chunkSize start =
     (if chunkSize \<le> 0 \<or> chunkSize > max_int64 then Inl (Errorf ''prefill chunk size %d out of range'' [AN chunkSize])
      else if start < tokens
      then (case checkedAddNonNegative start chunkSize of (stop, ok) \<Rightarrow>
        if \<not> ok then Inl (Errorf ''prefill chunk span overflow start=%d size=%d'' [AN start, AN chunkSize])
        else let stop' = (if stop > tokens then tokens else stop) in
          res_bind (span_loop tokens chunkSize stop') (\<lambda>rest. Inr (\<lparr>Start = start, End = stop'\<rparr> # rest)))
      else Inr [])"
  by pat_completeness auto
termination
proof (relation "measure (\<lambda>(tokens, chunkSize, start). nat (tokens - start))", goal_cases)
  case (2 tokens chunkSize start stop ok stop')
  then have g: "0 \<le> start" "\<not> start > wrap64 (max_int64 - chunkSize)" "stop = wrap64 (start + chunkSize)" "0 < chunkSize" "chunkSize \<le> max_int64"
    by (auto simp: checkedAddNonNegative_def split: if_splits)
  then have "wrap64 (max_int64 - chunkSize) = max_int64 - chunkSize" by (intro wrap64_id) (simp add: go_int)
  then have "in_int64 (start + chunkSize)" using g by (simp add: go_int)
  then have "start < stop" using g by simp
  then show ?case using 2 by auto
qed simp

declare span_loop.simps [simp del]

definition buildPrefillChunkSpans :: "int \<Rightarrow> int \<Rightarrow> go_error + chunk_span list" where
  "buildPrefillChunkSpans tokens chunkSize =
     (if tokens < 0 then Inl (Errorf ''prefill chunk token count %d out of range'' [AN tokens])
      else if tokens = 0 then Inr []
      else if chunkSize \<le> 0 then Inl (Errorf ''prefill chunk size %d out of range'' [AN chunkSize])
      else span_loop tokens chunkSize 0)"

section \<open>The plan\<close>

text \<open>The loop over the sizes from the largest down; 0 when none fits.\<close>

fun choose_chunk :: "scratch_estimate \<Rightarrow> int \<Rightarrow> int \<Rightarrow> int list \<Rightarrow> go_error + int" where
  "choose_chunk e tokens budget [] = Inr 0"
| "choose_chunk e tokens budget (sz # rest) =
     (if sz > tokens then choose_chunk e tokens budget rest
      else res_bind (TotalBytes e sz) (\<lambda>need. if need \<le> budget then Inr sz else choose_chunk e tokens budget rest))"

definition chunk_size :: "scratch_estimate \<Rightarrow> int \<Rightarrow> int \<Rightarrow> int list \<Rightarrow> go_error + int" where
  "chunk_size e tokens budget normalized =
     (if tokens < normalized ! 0
      then res_bind (TotalBytes e tokens) (\<lambda>need. if need > budget
        then Inl (Errorf ''prefill chunk scratch budget %d too small for tail batch of %d tokens (need %d)'' [AN budget, AN tokens, AN need])
        else Inr tokens)
      else res_bind (choose_chunk e tokens budget (rev normalized)) (\<lambda>chosen. if chosen = 0
        then Inl (Errorf ''prefill chunk scratch budget %d too small for allowed chunk sizes %v'' (AN budget # map AN normalized))
        else Inr chosen))"

definition peak_rows :: "chunk_span list \<Rightarrow> int" where
  "peak_rows spans = fold (\<lambda>s peak. let rows = wrap64 (End s - Start s) in if rows > peak then rows else peak) spans 0"

definition NewPrefillChunkPlan :: "int \<Rightarrow> chunk_dims \<Rightarrow> int \<Rightarrow> int list \<Rightarrow> go_error + chunk_plan" where
  "NewPrefillChunkPlan tokens d budget sizes =
     (if tokens < 0 then Inl (Errorf ''prefill chunk token count %d out of range'' [AN tokens])
      else if budget < PrefillChunkBudgetUnlimited then Inl (Errorf ''prefill chunk scratch budget %d out of range'' [AN budget])
      else res_bind (EstimatePrefillChunkScratch d) (\<lambda>e. res_bind (normalizePrefillChunkSizes sizes) (\<lambda>normalized.
        let plan = \<lparr>cp_Tokens = tokens, cp_Dims = d, AllowedChunkSizes = normalized, BudgetBytes = budget, ChunkSize = 0,
              Disabled = False, Spans = [], cp_Scratch = e, PeakRows = 0, PeakScratchBytes = 0\<rparr> in
        if tokens = 0 then Inr plan
        else if budget = PrefillChunkBudgetUnlimited
        then res_bind (buildPrefillChunkSpans tokens tokens) (\<lambda>spans. res_bind (TotalBytes e tokens) (\<lambda>peak.
          Inr (plan\<lparr>Disabled := True, ChunkSize := tokens, Spans := spans, PeakRows := tokens, PeakScratchBytes := peak\<rparr>)))
        else res_bind (chunk_size e tokens budget normalized) (\<lambda>chosen.
          res_bind (buildPrefillChunkSpans tokens chosen) (\<lambda>spans. res_bind (TotalBytes e (peak_rows spans)) (\<lambda>peak.
            Inr (plan\<lparr>ChunkSize := chosen, Spans := spans, PeakRows := peak_rows spans, PeakScratchBytes := peak\<rparr>)))))))"

end
