(* ===== verification/PrefillFacts.thy ===== *)
theory PrefillFacts
  imports PrefillPlan
begin

text \<open>
  Facts about chunk plans: what the checked arithmetic returns, the estimate as a formula, the
  normal form of the sizes, and the spans.
\<close>

section \<open>Arithmetic\<close>

lemma checkedProduct_iff: "checkedProduct a b = (v, True) \<longleftrightarrow> 0 \<le> a \<and> 0 \<le> b \<and> v = a * b \<and> a * b \<le> max_int64"
proof (cases "0 \<le> a \<and> 0 \<le> b")
  case True
  then have "b \<noteq> 0 \<Longrightarrow> a > go_quot max_int64 b \<longleftrightarrow> max_int64 < a * b" by (intro quot_guard) simp_all
  moreover have "\<not> max_int64 < a * b \<Longrightarrow> wrap64 (a * b) = a * b" using True by (intro wrap64_id mul_in_int64) simp_all
  moreover have "(0 :: int) \<le> max_int64" by (simp add: max_int64_def)
  ultimately show ?thesis using True by (cases "b = 0") (auto simp: checkedProduct_def)
qed (auto simp: checkedProduct_def)

lemma checkedAdd_iff:
  assumes "b \<le> max_int64"
  shows "checkedAddNonNegative a b = (v, True) \<longleftrightarrow> 0 \<le> a \<and> 0 \<le> b \<and> v = a + b \<and> a + b \<le> max_int64"
proof (cases "0 \<le> a \<and> 0 \<le> b")
  case True
  then have "wrap64 (max_int64 - b) = max_int64 - b" using assms by (intro wrap64_id) (simp add: go_int)
  moreover have "a + b \<le> max_int64 \<Longrightarrow> wrap64 (a + b) = a + b" using True by (intro wrap64_id) (simp add: go_int)
  ultimately show ?thesis using True by (auto simp: checkedAddNonNegative_def)
qed (auto simp: checkedAddNonNegative_def)

lemma flag_True: "p = (v, b) \<Longrightarrow> b \<Longrightarrow> p = (v, True)"
  by simp

definition scratch_bytes :: "chunk_dims \<Rightarrow> int \<Rightarrow> int" where
  "scratch_bytes d rows = (if rows = 0 then 0 else 288 +
     rows * (4 * (6 * cd_HiddenSize d + 2 * cd_QDim d + 2 * cd_KVDim d + 2 * cd_Intermediate d)))"

lemma sum_row_True:
  assumes "sum_row a b c e = (v, True)" "b \<le> max_int64" "c \<le> max_int64" "e \<le> max_int64"
  shows "v = a + b + c + e \<and> 0 \<le> a \<and> v \<le> max_int64"
  using assms by (auto simp: sum_row_def Let_def checkedAdd_iff split: prod.splits if_splits dest!: flag_True)

lemma estimate_Inr:
  assumes "EstimatePrefillChunkScratch d = Inr e"
  shows "0 < cd_HiddenSize d" "0 < cd_QDim d" "0 < cd_KVDim d" "0 < cd_Intermediate d" "0 < cd_Layers d"
    "CPURowBytes e = 4 * (6 * cd_HiddenSize d + 2 * cd_QDim d + 2 * cd_KVDim d + 2 * cd_Intermediate d)"
    "GPURowBytes e = 4 * (5 * cd_HiddenSize d + 2 * cd_QDim d + 2 * cd_KVDim d + 2 * cd_Intermediate d)"
    "ReusableRowBytes e = CPURowBytes e" "FixedBytes e = 288" "se_Dims e = d"
proof -
  from assms have v: "validatePrefillChunkModelDims d = Inr ()" by (auto simp: EstimatePrefillChunkScratch_def res_bind_Inr)
  then show pos: "0 < cd_HiddenSize d" "0 < cd_QDim d" "0 < cd_KVDim d" "0 < cd_Intermediate d" "0 < cd_Layers d"
    by (auto simp: validatePrefillChunkModelDims_def split: if_splits)
  obtain ch gh q kv ml where p: "checkedProduct (cd_HiddenSize d) prefillCPUHiddenBuffersPerRow = (ch, True)"
    "checkedProduct (cd_HiddenSize d) prefillGPUHiddenBuffersPerRow = (gh, True)"
    "checkedProduct (cd_QDim d) prefillQBuffersPerRow = (q, True)" "checkedProduct (cd_KVDim d) prefillKVBuffersPerRow = (kv, True)"
    "checkedProduct (cd_Intermediate d) prefillMLPBuffersPerRow = (ml, True)"
    using assms by (auto simp: EstimatePrefillChunkScratch_def v Let_def split: prod.splits if_splits)
  obtain c g where r: "sum_row ch q kv ml = (c, True)" "sum_row gh q kv ml = (g, True)"
    using assms by (auto simp: EstimatePrefillChunkScratch_def v p Let_def split: prod.splits if_splits)
  obtain cb gb where b: "checkedProduct c prefillFloat32Bytes = (cb, True)" "checkedProduct g prefillFloat32Bytes = (gb, True)"
    using assms by (auto simp: EstimatePrefillChunkScratch_def v p r Let_def split: prod.splits if_splits)
  have f: "checkedProduct prefillCPUReusableBufferCount prefillSliceHeaderBytes = (288, True)"
    "checkedProduct prefillGPUReusableBufferCount prefillSliceHeaderBytes = (264, True)"
    by (simp_all add: checkedProduct_iff prefillCPUReusableBufferCount_def prefillGPUReusableBufferCount_def prefillSliceHeaderBytes_def max_int64_def)
  have e: "e = \<lparr>se_Dims = d, CPURowBytes = cb, GPURowBytes = gb, ReusableRowBytes = (if gb > cb then gb else cb), FixedBytes = 288\<rparr>"
    using assms by (simp add: EstimatePrefillChunkScratch_def v p r b f Let_def)
  note P = p [unfolded checkedProduct_iff prefillCPUHiddenBuffersPerRow_def prefillGPUHiddenBuffersPerRow_def
      prefillQBuffersPerRow_def prefillKVBuffersPerRow_def prefillMLPBuffersPerRow_def]
  have ul: "q \<le> max_int64" "kv \<le> max_int64" "ml \<le> max_int64" using P by simp_all
  have cg: "c = ch + q + kv + ml" "g = gh + q + kv + ml"
    using sum_row_True [OF r(1) ul] sum_row_True [OF r(2) ul] by simp_all
  have "cb = 4 * (6 * cd_HiddenSize d + 2 * cd_QDim d + 2 * cd_KVDim d + 2 * cd_Intermediate d)"
    "gb = 4 * (5 * cd_HiddenSize d + 2 * cd_QDim d + 2 * cd_KVDim d + 2 * cd_Intermediate d)"
    using b P cg by (simp_all add: checkedProduct_iff prefillFloat32Bytes_def)
  then show "CPURowBytes e = 4 * (6 * cd_HiddenSize d + 2 * cd_QDim d + 2 * cd_KVDim d + 2 * cd_Intermediate d)"
    "GPURowBytes e = 4 * (5 * cd_HiddenSize d + 2 * cd_QDim d + 2 * cd_KVDim d + 2 * cd_Intermediate d)"
    "ReusableRowBytes e = CPURowBytes e" "FixedBytes e = 288" "se_Dims e = d"
    using pos unfolding e by simp_all
qed

lemma total_iff:
  assumes "ReusableRowBytes e = r" "FixedBytes e = f" "0 < r" "0 \<le> f"
  shows "TotalBytes e rows = Inr t \<longleftrightarrow> 0 \<le> rows \<and> t = (if rows = 0 then 0 else f + rows * r) \<and> t \<le> max_int64"
proof (cases "0 < rows")
  case False
  then show ?thesis by (auto simp: TotalBytes_def max_int64_def)
next
  case True
  have nn: "0 \<le> rows * r" using True assms(3) by simp
  obtain p ok where p: "checkedProduct rows r = (p, ok)" by fastforce
  show ?thesis
  proof (cases ok)
    case False
    then have "\<not> rows * r \<le> max_int64" using checkedProduct_iff [of rows r "rows * r"] p True assms(3) by auto
    then show ?thesis using True False p assms nn by (simp add: TotalBytes_def)
  next
    case ok: True
    then have rb: "p = rows * r" "rows * r \<le> max_int64" using checkedProduct_iff [of rows r p] p by simp_all
    obtain v ok2 where a: "checkedAddNonNegative f (rows * r) = (v, ok2)" by fastforce
    have "ok2 \<longleftrightarrow> f + rows * r \<le> max_int64" "ok2 \<Longrightarrow> v = f + rows * r"
      using checkedAdd_iff [OF rb(2), of f] a nn assms(4) by (cases ok2; auto)+
    then show ?thesis using True ok p rb a assms(1,2) by (auto simp: TotalBytes_def)
  qed
qed

lemma total_Inr:
  assumes "EstimatePrefillChunkScratch d = Inr e"
  shows "TotalBytes e rows = Inr t \<longleftrightarrow> 0 \<le> rows \<and> t = scratch_bytes d rows \<and> scratch_bytes d rows \<le> max_int64"
proof -
  note E = estimate_Inr [OF assms]
  have "TotalBytes e rows = Inr t \<longleftrightarrow> 0 \<le> rows \<and> t = scratch_bytes d rows \<and> t \<le> max_int64"
    unfolding scratch_bytes_def by (rule total_iff) (use E in simp_all)
  then show ?thesis by auto
qed

section \<open>Sizes\<close>

lemma dedup_later:
  assumes "dedup_sizes i prev xs = Inr out" "0 < i" "sorted xs" "\<And>x. x \<in> set xs \<Longrightarrow> prev \<le> x"
  shows "set out = set xs - {prev} \<and> sorted_wrt (<) out \<and> (\<forall>x \<in> set xs. 0 < x)"
  using assms
proof (induction xs arbitrary: i prev out)
  case (Cons x xs)
  show ?case
  proof (cases "x = prev")
    case True
    with Cons.prems have "dedup_sizes (Suc i) prev xs = Inr out" "0 < x" by (auto split: if_splits)
    from Cons.IH [OF this(1)] Cons.prems(3,4) this(2) True show ?thesis by auto
  next
    case False
    with Cons.prems obtain out' where o: "dedup_sizes (Suc i) x xs = Inr out'" "out = x # out'" "0 < x"
      by (auto simp: res_bind_Inr split: if_splits)
    have x: "\<And>y. y \<in> set xs \<Longrightarrow> x \<le> y" using Cons.prems(3) by simp
    from Cons.IH [OF o(1) _ _ x] Cons.prems(3) have IH: "set out' = set xs - {x}" "sorted_wrt (<) out'" "\<forall>y \<in> set xs. 0 < y" by simp_all
    have "prev \<notin> set (x # xs)" using False x Cons.prems(4) [of x] by fastforce
    then show ?thesis using IH o(2,3) x by force
  qed
qed simp

lemma normalize_sizes_Inr:
  assumes "normalizePrefillChunkSizes sizes = Inr out"
  shows "out \<noteq> []" "sorted_wrt (<) out" "\<And>x. x \<in> set out \<Longrightarrow> 0 < x"
    "set out = (if sizes = [] then {32, 64, 128} else set sizes)"
proof -
  have "out \<noteq> [] \<and> sorted_wrt (<) out \<and> (\<forall>x \<in> set out. 0 < x) \<and> set out = (if sizes = [] then {32, 64, 128} else set sizes)"
  proof (cases "sizes = []")
    case True
    then show ?thesis using assms by (auto simp: normalizePrefillChunkSizes_def defaultPrefillChunkSizes_def)
  next
    case False
    then obtain x xs where xs: "sort sizes = x # xs" by (cases "sort sizes") (use length_sort [of "\<lambda>x. x" sizes] in auto)
    from assms False have d: "dedup_sizes 0 0 (x # xs) = Inr out" unfolding xs [symmetric]
      by (auto simp: normalizePrefillChunkSizes_def res_bind_Inr split: if_splits)
    then obtain out' where o: "dedup_sizes 1 x xs = Inr out'" "out = x # out'" "0 < x" by (auto simp: res_bind_Inr split: if_splits)
    have s: "sorted (x # xs)" by (simp flip: xs)
    from dedup_later [OF o(1)] s have D: "set out' = set xs - {x}" "sorted_wrt (<) out'" "\<forall>y \<in> set xs. 0 < y" by simp_all
    have "set sizes = insert x (set xs)" using arg_cong [OF xs, of set] by simp
    then show ?thesis using D o s False by force
  qed
  then show "out \<noteq> []" "sorted_wrt (<) out" "\<And>x. x \<in> set out \<Longrightarrow> 0 < x"
    "set out = (if sizes = [] then {32, 64, 128} else set sizes)" by blast+
qed

section \<open>Spans\<close>

definition tiles :: "int \<Rightarrow> int \<Rightarrow> int \<Rightarrow> chunk_span list \<Rightarrow> bool" where
  "tiles start tokens c spans \<longleftrightarrow> concat (map (\<lambda>s. [Start s..End s - 1]) spans) = [start..tokens - 1] \<and>
     (\<forall>s \<in> set spans. Start s < End s \<and> End s - Start s \<le> c) \<and>
     (\<forall>i. Suc i < length spans \<longrightarrow> End (spans ! i) - Start (spans ! i) = c)"

lemma span_loop_Inr:
  assumes "0 \<le> start" "start \<le> tokens" "tokens \<le> max_int64" "span_loop tokens c start = Inr spans"
  shows "tiles start tokens c spans" "\<forall>s \<in> set spans. start \<le> Start s \<and> End s \<le> tokens"
proof -
  have "tiles start tokens c spans \<and> (\<forall>s \<in> set spans. start \<le> Start s \<and> End s \<le> tokens)"
    using assms
  proof (induction tokens c start arbitrary: spans rule: span_loop.induct)
    case (1 tokens c start)
    have c: "0 < c" "c \<le> max_int64" using "1.prems"(4) by (auto simp: span_loop.simps split: if_splits)
    show ?case
    proof (cases "start < tokens")
      case False
      then show ?thesis using 1 c by (simp add: span_loop.simps tiles_def)
    next
      case True
      obtain stop ok where a: "checkedAddNonNegative start c = (stop, ok)" by fastforce
      define stop' where "stop' = (if stop > tokens then tokens else stop)"
      from "1.prems"(4) obtain rest where r: "ok" "span_loop tokens c stop' = Inr rest" "spans = \<lparr>Start = start, End = stop'\<rparr> # rest"
        by (subst (asm) span_loop.simps) (use c True in \<open>auto simp: a res_bind_Inr Let_def stop'_def split: if_splits\<close>)
      have stop: "stop = start + c" using a r(1) checkedAdd_iff [OF c(2), of start stop] by simp
      have s: "start < stop'" "stop' \<le> tokens" "stop' - start \<le> c" using c True by (auto simp: stop'_def stop)
      have IH: "tiles stop' tokens c rest" "\<forall>s \<in> set rest. stop' \<le> Start s \<and> End s \<le> tokens"
        using "1.IH" [OF _ True a [symmetric] _ stop'_def, of rest] r(1,2) s c "1.prems" by auto
      have "[start..tokens - 1] = [start..stop' - 1] @ [stop'..tokens - 1]"
        using upto_split2 [of start "stop' - 1" "tokens - 1"] s by simp
      moreover have "End (spans ! i) - Start (spans ! i) = c" if i: "Suc i < length spans" for i
      proof (cases i)
        case 0
        then have "rest \<noteq> []" using i r(3) by auto
        then have "stop' < tokens" using IH(2) IH(1) by (cases rest) (auto simp: tiles_def)
        then show ?thesis using 0 r(3) by (simp add: stop'_def stop split: if_splits)
      next
        case (Suc k)
        then show ?thesis using i IH(1) r(3) by (simp add: tiles_def)
      qed
      ultimately have "tiles start tokens c spans" using IH(1) s r(3) by (auto simp: tiles_def)
      then show ?thesis using IH(2) s r(3) by auto
    qed
  qed
  then show "tiles start tokens c spans" "\<forall>s \<in> set spans. start \<le> Start s \<and> End s \<le> tokens" by blast+
qed

lemma span_loop_total:
  assumes "0 \<le> start" "0 < c" "c \<le> max_int64" "tokens + c \<le> max_int64"
  shows "\<exists>spans. span_loop tokens c start = Inr spans"
  using assms
proof (induction tokens c start rule: span_loop.induct)
  case (1 tokens c start)
  show ?case
  proof (cases "start < tokens")
    case False
    then show ?thesis using 1 by (auto simp: span_loop.simps)
  next
    case True
    have c: "c \<le> max_int64" using "1.prems" by simp
    have a: "checkedAddNonNegative start c = (start + c, True)" using 1 True checkedAdd_iff [OF c, of start "start + c"] by simp
    define stop' where "stop' = (if start + c > tokens then tokens else start + c)"
    have "\<exists>spans. span_loop tokens c stop' = Inr spans"
      using "1.IH" [OF _ True a [symmetric] _ stop'_def] "1.prems" c True by (auto simp: stop'_def)
    then show ?thesis using True "1.prems" c by (subst span_loop.simps) (auto simp: a Let_def stop'_def)
  qed
qed

lemma peak_rows_spec:
  assumes "\<And>s. s \<in> set spans \<Longrightarrow> 0 \<le> Start s \<and> Start s < End s \<and> End s \<le> max_int64" "spans \<noteq> []"
  shows "\<exists>s \<in> set spans. peak_rows spans = End s - Start s" "\<And>s. s \<in> set spans \<Longrightarrow> End s - Start s \<le> peak_rows spans"
proof -
  have "peak_rows spans = fold (\<lambda>s peak. max (End s - Start s) peak) spans 0"
    unfolding peak_rows_def
  proof (rule fold_cong [OF refl refl])
    fix s
    assume "s \<in> set spans"
    then have "wrap64 (End s - Start s) = End s - Start s" using assms(1) by (intro wrap64_id) (force simp: go_int)
    then show "(\<lambda>peak. let rows = wrap64 (End s - Start s) in if rows > peak then rows else peak) = (\<lambda>peak. max (End s - Start s) peak)"
      by (auto simp: Let_def max_def)
  qed
  also have "\<dots> = fold max (map (\<lambda>s. End s - Start s) spans) 0" by (simp add: fold_map comp_def)
  also have "\<dots> = Max (insert 0 ((\<lambda>s. End s - Start s) ` set spans))" by (simp add: Max.set_eq_fold [symmetric])
  finally have p: "peak_rows spans = Max (insert 0 ((\<lambda>s. End s - Start s) ` set spans))" .
  show le: "\<And>s. s \<in> set spans \<Longrightarrow> End s - Start s \<le> peak_rows spans" unfolding p by simp
  have "peak_rows spans \<in> insert 0 ((\<lambda>s. End s - Start s) ` set spans)" unfolding p by (rule Max_in) simp_all
  moreover have "0 < peak_rows spans" using assms le by (cases spans) fastforce+
  ultimately show "\<exists>s \<in> set spans. peak_rows spans = End s - Start s" by auto
qed

section \<open>The choice of a size\<close>

lemma choose_chunk_Inr:
  assumes "choose_chunk e tokens budget sizes = Inr c" "EstimatePrefillChunkScratch d = Inr e" "sorted_wrt (>) sizes" "\<And>x. x \<in> set sizes \<Longrightarrow> 0 < x"
  shows "(c = 0 \<and> (\<forall>x \<in> set sizes. x \<le> tokens \<longrightarrow> budget < scratch_bytes d x)) \<or>
    (c \<in> set sizes \<and> c \<le> tokens \<and> scratch_bytes d c \<le> budget \<and> (\<forall>x \<in> set sizes. c < x \<and> x \<le> tokens \<longrightarrow> budget < scratch_bytes d x))"
  using assms(1,3,4)
proof (induction sizes)
  case (Cons x xs)
  show ?case
  proof (cases "x > tokens")
    case True
    then show ?thesis using Cons by auto
  next
    case False
    with Cons.prems obtain need where "TotalBytes e x = Inr need" and r: "(if need \<le> budget then Inr x else choose_chunk e tokens budget xs) = Inr c"
      by (auto simp: res_bind_Inr)
    then have need: "need = scratch_bytes d x" using total_Inr [OF assms(2)] by simp
    show ?thesis
    proof (cases "need \<le> budget")
      case True
      then show ?thesis using r False Cons.prems(2) need by auto
    next
      case False
      then show ?thesis using r Cons need by auto
    qed
  qed
qed simp

end
