(* ===== verification/PrefillProps.thy ===== *)
theory PrefillProps
  imports PrefillFacts Samples
begin

text \<open>
  The properties of prefill chunking.
\<close>

definition sample_dims :: chunk_dims where
  "sample_dims = \<lparr>cd_HiddenSize = 8, cd_QDim = 8, cd_KVDim = 4, cd_Intermediate = 16, cd_Layers = 2\<rparr>"

text \<open>A plan with spans, and the choice it made.\<close>

lemma plan_Inr:
  assumes "NewPrefillChunkPlan tokens d budget sizes = Inr plan" "0 < tokens"
  obtains e where "EstimatePrefillChunkScratch d = Inr e" "normalizePrefillChunkSizes sizes = Inr (AllowedChunkSizes plan)"
    "- 1 \<le> budget" "buildPrefillChunkSpans tokens (ChunkSize plan) = Inr (Spans plan)" "TotalBytes e (PeakRows plan) = Inr (PeakScratchBytes plan)"
    "if budget = - 1 then ChunkSize plan = tokens \<and> PeakRows plan = tokens
     else chunk_size e tokens budget (AllowedChunkSizes plan) = Inr (ChunkSize plan) \<and> PeakRows plan = peak_rows (Spans plan)"
proof -
  from assms have b: "- 1 \<le> budget" by (auto simp: NewPrefillChunkPlan_def PrefillChunkBudgetUnlimited_def split: if_splits)
  from assms obtain e ns where e: "EstimatePrefillChunkScratch d = Inr e" "normalizePrefillChunkSizes sizes = Inr ns"
    by (auto simp: NewPrefillChunkPlan_def res_bind_Inr split: if_splits)
  show thesis
    by (rule that [of e]) (use assms e b in \<open>auto simp: NewPrefillChunkPlan_def PrefillChunkBudgetUnlimited_def Let_def res_bind_Inr split: if_splits\<close>)
qed

lemma spans_tile:
  assumes "buildPrefillChunkSpans tokens c = Inr spans" "0 < tokens" "tokens \<le> max_int64"
  shows "0 < c" "tiles 0 tokens c spans" "spans \<noteq> []" "\<And>s. s \<in> set spans \<Longrightarrow> 0 \<le> Start s \<and> Start s < End s \<and> End s \<le> max_int64 \<and> End s - Start s \<le> c \<and> End s \<le> tokens"
proof -
  have l: "span_loop tokens c 0 = Inr spans" and c: "0 < c" using assms(1,2) by (auto simp: buildPrefillChunkSpans_def split: if_splits)
  have t: "tiles 0 tokens c spans" and r: "\<forall>s \<in> set spans. 0 \<le> Start s \<and> End s \<le> tokens"
    using span_loop_Inr [OF _ _ assms(3) l] assms(2) by simp_all
  then show "0 < c" "tiles 0 tokens c spans" "\<And>s. s \<in> set spans \<Longrightarrow> 0 \<le> Start s \<and> Start s < End s \<and> End s \<le> max_int64 \<and> End s - Start s \<le> c \<and> End s \<le> tokens"
    using c assms(3) by (force simp: tiles_def)+
  show "spans \<noteq> []" using t assms(2) by (auto simp: tiles_def)
qed

text \<open>C26. The spans of a chunk plan tile the prompt without gap or overlap, none longer than the
  chunk size; the peak is their longest, its scratch is computed exactly and stays within the
  budget.\<close>

theorem chunks_tile_the_prompt:
  assumes "NewPrefillChunkPlan tokens d budget sizes = Inr plan" "0 < tokens" "tokens \<le> max_int64"
  shows "tiles 0 tokens (ChunkSize plan) (Spans plan) \<and> 0 < PeakRows plan \<and> PeakRows plan \<le> ChunkSize plan \<and>
    (\<forall>s \<in> set (Spans plan). End s - Start s \<le> PeakRows plan) \<and> PeakScratchBytes plan = scratch_bytes d (PeakRows plan) \<and>
    (0 \<le> budget \<longrightarrow> PeakScratchBytes plan \<le> budget)"
proof -
  from plan_Inr [OF assms(1,2)] obtain e where P: "EstimatePrefillChunkScratch d = Inr e" "normalizePrefillChunkSizes sizes = Inr (AllowedChunkSizes plan)"
    "buildPrefillChunkSpans tokens (ChunkSize plan) = Inr (Spans plan)" "TotalBytes e (PeakRows plan) = Inr (PeakScratchBytes plan)"
    "if budget = - 1 then ChunkSize plan = tokens \<and> PeakRows plan = tokens
     else chunk_size e tokens budget (AllowedChunkSizes plan) = Inr (ChunkSize plan) \<and> PeakRows plan = peak_rows (Spans plan)"
    by blast
  note S = spans_tile [OF P(3) assms(2,3)] and N = normalize_sizes_Inr [OF P(2)]
  have peak: "PeakScratchBytes plan = scratch_bytes d (PeakRows plan)" using P(4) total_Inr [OF P(1)] by simp
  show ?thesis
  proof (cases "budget = - 1")
    case True
    have "End s - Start s \<le> tokens" if "s \<in> set (Spans plan)" for s using S(4) [OF that] by simp
    then show ?thesis using P(5) S(2) peak assms(2) True by simp
  next
    case False
    have rows: "\<And>s. s \<in> set (Spans plan) \<Longrightarrow> 0 \<le> Start s \<and> Start s < End s \<and> End s \<le> max_int64" using S(4) by blast
    note K = peak_rows_spec [OF rows S(3)]
    obtain s where s: "s \<in> set (Spans plan)" "PeakRows plan = End s - Start s" using K(1) P(5) False by auto
    then have le: "PeakRows plan \<le> ChunkSize plan" "0 < PeakRows plan" using S(4) [OF s(1)] by simp_all
    have mono: "scratch_bytes d (PeakRows plan) \<le> scratch_bytes d (ChunkSize plan)"
      using le estimate_Inr(1-4) [OF P(1)] by (auto simp: scratch_bytes_def intro!: mult_right_mono)
    have "scratch_bytes d (ChunkSize plan) \<le> budget"
    proof (cases "tokens < AllowedChunkSizes plan ! 0")
      case True
      then show ?thesis using P(5) False assms(2) by (auto simp: chunk_size_def res_bind_Inr total_Inr [OF P(1)] split: if_splits)
    next
      case small: False
      then obtain c where c: "choose_chunk e tokens budget (rev (AllowedChunkSizes plan)) = Inr c" "c \<noteq> 0" "c = ChunkSize plan"
        using P(5) False by (auto simp: chunk_size_def res_bind_Inr split: if_splits)
      have "sorted_wrt (>) (rev (AllowedChunkSizes plan))" "\<And>x. x \<in> set (rev (AllowedChunkSizes plan)) \<Longrightarrow> 0 < x"
        using N(2,3) by (simp_all add: sorted_wrt_rev)
      from choose_chunk_Inr [OF c(1) P(1) this] c show ?thesis by auto
    qed
    then have "PeakScratchBytes plan \<le> budget" using peak mono by simp
    then show ?thesis using S(2) le K(2) P(5) False peak by auto
  qed
qed

lemma sample_chunks:
  "case NewPrefillChunkPlan 100 sample_dims 20000 [16, 64, 32, 16] of Inr p \<Rightarrow> ChunkSize p = 32 \<and> length (Spans p) = 4 | Inl _ \<Rightarrow> False"
  by code_simp

lemma chunks_tile_the_prompt_witness:
  "\<exists>p. NewPrefillChunkPlan 100 sample_dims 20000 [16, 64, 32, 16] = Inr p \<and> tiles 0 100 32 (Spans p) \<and> PeakScratchBytes p \<le> 20000"
proof -
  obtain p where p: "NewPrefillChunkPlan 100 sample_dims 20000 [16, 64, 32, 16] = Inr p" "ChunkSize p = 32"
    using sample_chunks by (auto split: sum.splits)
  from chunks_tile_the_prompt [OF p(1)] p show ?thesis by (simp add: max_int64_def)
qed

text \<open>Under a budget the chunk size is the largest allowed size that is no longer than the prompt
  and whose scratch fits, or the whole prompt when it is shorter than every allowed size.\<close>

theorem chunk_is_largest_that_fits:
  assumes "NewPrefillChunkPlan tokens d budget sizes = Inr plan" "0 < tokens" "0 \<le> budget"
  shows "let allowed = (if sizes = [] then {32, 64, 128} else set sizes) in
    set (AllowedChunkSizes plan) = allowed \<and> scratch_bytes d (ChunkSize plan) \<le> budget \<and>
    (if \<forall>x \<in> allowed. tokens < x then ChunkSize plan = tokens
     else ChunkSize plan \<in> allowed \<and> ChunkSize plan \<le> tokens \<and> (\<forall>x \<in> allowed. ChunkSize plan < x \<and> x \<le> tokens \<longrightarrow> budget < scratch_bytes d x))"
proof -
  from plan_Inr [OF assms(1,2)] obtain e where P: "EstimatePrefillChunkScratch d = Inr e" "normalizePrefillChunkSizes sizes = Inr (AllowedChunkSizes plan)"
    "if budget = - 1 then ChunkSize plan = tokens \<and> PeakRows plan = tokens
     else chunk_size e tokens budget (AllowedChunkSizes plan) = Inr (ChunkSize plan) \<and> PeakRows plan = peak_rows (Spans plan)"
    by blast
  let ?a = "AllowedChunkSizes plan"
  have c: "chunk_size e tokens budget ?a = Inr (ChunkSize plan)" using P(3) assms(3) by (simp split: if_splits)
  note N = normalize_sizes_Inr [OF P(2)]
  have head: "(\<forall>x \<in> set ?a. tokens < x) \<longleftrightarrow> tokens < ?a ! 0"
    using N(1,2) by (cases ?a) force+
  have "scratch_bytes d (ChunkSize plan) \<le> budget \<and> (if \<forall>x \<in> set ?a. tokens < x then ChunkSize plan = tokens
     else ChunkSize plan \<in> set ?a \<and> ChunkSize plan \<le> tokens \<and> (\<forall>x \<in> set ?a. ChunkSize plan < x \<and> x \<le> tokens \<longrightarrow> budget < scratch_bytes d x))"
  proof (cases "tokens < ?a ! 0")
    case True
    then show ?thesis using c unfolding head by (auto simp: chunk_size_def res_bind_Inr total_Inr [OF P(1)] split: if_splits)
  next
    case False
    then have ch: "choose_chunk e tokens budget (rev ?a) = Inr (ChunkSize plan)" "ChunkSize plan \<noteq> 0"
      using c by (auto simp: chunk_size_def res_bind_Inr split: if_splits)
    have "sorted_wrt (>) (rev ?a)" "\<And>x. x \<in> set (rev ?a) \<Longrightarrow> 0 < x" using N(2,3) by (simp_all add: sorted_wrt_rev)
    from choose_chunk_Inr [OF ch(1) P(1) this] ch(2) False show ?thesis unfolding head by auto
  qed
  then show ?thesis unfolding Let_def N(4) [symmetric] by simp
qed

lemma chunk_is_largest_that_fits_witness: "20000 < scratch_bytes sample_dims 64"
proof -
  obtain p where p: "NewPrefillChunkPlan 100 sample_dims 20000 [16, 64, 32, 16] = Inr p" "ChunkSize p = 32"
    using sample_chunks by (auto split: sum.splits)
  from chunk_is_largest_that_fits [OF p(1)] p(2) show ?thesis by (simp add: Let_def)
qed

text \<open>When the sizes and estimates stay within 64 bits and the scratch of some allowed size fits
  the budget and is no longer than the prompt, planning succeeds.\<close>

theorem fitting_prompt_gets_a_plan:
  assumes "EstimatePrefillChunkScratch d = Inr e" "sizes \<noteq> []" "\<And>x. x \<in> set sizes \<Longrightarrow> 0 < x \<and> x \<le> max_int64"
    and "0 < tokens" "0 \<le> budget" "\<And>x. x \<in> set sizes \<Longrightarrow> tokens + x \<le> max_int64 \<and> scratch_bytes d x \<le> max_int64"
    and "x \<in> set sizes" "x \<le> tokens" "scratch_bytes d x \<le> budget"
  shows "\<exists>plan. NewPrefillChunkPlan tokens d budget sizes = Inr plan"
proof -
  have dd: "\<exists>out. dedup_sizes i prev xs = Inr out" if "\<And>x. x \<in> set xs \<Longrightarrow> 0 < x" for i prev xs
    using that
  proof (induction xs arbitrary: i prev)
    case (Cons y ys)
    have y: "0 < y" using Cons.prems by simp
    have "\<exists>out. dedup_sizes (Suc i) z ys = Inr out" for z by (rule Cons.IH) (use Cons.prems in auto)
    then obtain o1 o2 where "dedup_sizes (Suc i) prev ys = Inr o1" "dedup_sizes (Suc i) y ys = Inr o2" by metis
    then show ?case using y by auto
  qed simp
  have "\<exists>out. dedup_sizes 0 0 (sort sizes) = Inr out" by (rule dd) (use assms(3) in simp)
  then obtain out where "dedup_sizes 0 0 (sort sizes) = Inr out" ..
  moreover from this have "out \<noteq> []"
    using assms(2) length_sort [of "\<lambda>x. x" sizes] by (cases "sort sizes") (auto simp: res_bind_Inr split: if_splits)
  ultimately have n: "normalizePrefillChunkSizes sizes = Inr out" using assms(2) by (simp add: normalizePrefillChunkSizes_def)
  note N = normalize_sizes_Inr [OF n]
  have so: "set out = set sizes" using N(4) assms(2) by simp
  have total: "TotalBytes e y = Inr (scratch_bytes d y)" if "y \<in> set sizes" for y
    using total_Inr [OF assms(1)] assms(3) [OF that] assms(6) [OF that] by simp
  have "\<exists>c. choose_chunk e tokens budget ys = Inr c" if "set ys \<subseteq> set sizes" for ys
    using that by (induction ys) (auto simp: total)
  then obtain c where c: "choose_chunk e tokens budget (rev out) = Inr c" using so by (metis set_rev subset_refl)
  have "sorted_wrt (>) (rev out)" "\<And>y. y \<in> set (rev out) \<Longrightarrow> 0 < y" using N(2,3) by (simp_all add: sorted_wrt_rev)
  from choose_chunk_Inr [OF c assms(1) this] have cc: "c \<noteq> 0" "c \<in> set sizes" "c \<le> tokens"
    using assms(7-9) so N(3) [of x] by auto
  have "\<not> tokens < out ! 0"
  proof -
    have "x \<in> set out" using assms(7) so by simp
    then have "out ! 0 \<le> x" using N(2) by (cases out) auto
    then show ?thesis using assms(8) by simp
  qed
  then have k: "chunk_size e tokens budget out = Inr c" using c cc by (simp add: chunk_size_def)
  have cp: "0 < c" "c \<le> max_int64" "tokens + c \<le> max_int64" using assms(3,6) cc(2) by auto
  obtain spans where "span_loop tokens c 0 = Inr spans" using span_loop_total [of 0 c tokens] cp by auto
  then have sp: "buildPrefillChunkSpans tokens c = Inr spans" using assms(4) cp by (simp add: buildPrefillChunkSpans_def)
  note S = spans_tile [OF sp assms(4)]
  have tm: "tokens \<le> max_int64" using cp by simp
  have rows: "\<And>s. s \<in> set spans \<Longrightarrow> 0 \<le> Start s \<and> Start s < End s \<and> End s \<le> max_int64" using S(4) [OF tm] by blast
  obtain s where s: "s \<in> set spans" "peak_rows spans = End s - Start s" using peak_rows_spec(1) [OF rows S(3) [OF tm]] by auto
  then have pk: "0 < peak_rows spans" "peak_rows spans \<le> c" using S(4) [OF tm s(1)] by simp_all
  then have "scratch_bytes d (peak_rows spans) \<le> scratch_bytes d c"
    using estimate_Inr(1-4) [OF assms(1)] by (auto simp: scratch_bytes_def intro!: mult_right_mono)
  then have "TotalBytes e (peak_rows spans) = Inr (scratch_bytes d (peak_rows spans))"
    using total_Inr [OF assms(1)] pk(1) assms(6) [OF cc(2)] by auto
  then show ?thesis using assms(1,4,5) n k sp by (simp add: NewPrefillChunkPlan_def PrefillChunkBudgetUnlimited_def Let_def)
qed

lemma fitting_prompt_gets_a_plan_witness: "\<exists>plan. NewPrefillChunkPlan 1000 sample_dims 20000 [16, 64] = Inr plan"
proof -
  have "case EstimatePrefillChunkScratch sample_dims of Inr _ \<Rightarrow> True | Inl _ \<Rightarrow> False" by code_simp
  then obtain e where e: "EstimatePrefillChunkScratch sample_dims = Inr e" by (auto split: sum.splits)
  show ?thesis
    by (rule fitting_prompt_gets_a_plan [OF e, where x = 16]) (auto simp: scratch_bytes_def sample_dims_def max_int64_def)
qed

end
