(* ===== verification/RowStore.thy ===== *)
theory RowStore
  imports Checked
begin

text \<open>
  \<open>runtime/kv/f32_store.go\<close>: paired key and value rows of a fixed width, in an unbounded linear
  store or in a ring that overwrites its oldest row. A nil pointer is \<open>None\<close>; the interface value
  \<open>F32KVStore\<close> is one of the two stores. A slice is the list of its elements: a view, which
  shares storage in the source, is what it shows at the moment of the call. \<open>rowSlice\<close> returns
  \<open>None\<close> where the source returns false; a materialised row list is nil exactly when it is empty.
\<close>

record 'f kv_view =
  FirstK :: "'f list"
  FirstV :: "'f list"
  SecondK :: "'f list"
  SecondV :: "'f list"
  StartToken :: int

definition empty_view :: "int \<Rightarrow> 'f kv_view" where
  "empty_view start = \<lparr>FirstK = [], FirstV = [], SecondK = [], SecondV = [], StartToken = start\<rparr>"

record 'f store_cp =
  sc_valid :: bool
  sc_dim :: int
  sc_capacity :: int
  sc_startToken :: int
  sc_tokens :: int
  sc_k :: "'f list"
  sc_v :: "'f list"

definition no_store_cp :: "'f store_cp" where
  "no_store_cp = \<lparr>sc_valid = False, sc_dim = 0, sc_capacity = 0, sc_startToken = 0, sc_tokens = 0, sc_k = [], sc_v = []\<rparr>"

record 'f linear_kv =
  li_dim :: int
  li_startToken :: int
  li_tokens :: int
  li_k :: "'f list"
  li_v :: "'f list"

record 'f ring_kv =
  ri_dim :: int
  ri_capacity :: int
  ri_startToken :: int
  ri_tokens :: int
  ri_head :: int
  ri_k :: "'f list"
  ri_v :: "'f list"

definition NewLinearF32KV :: "int \<Rightarrow> 'f linear_kv" where
  "NewLinearF32KV dm = \<lparr>li_dim = (if dm < 0 then 0 else dm), li_startToken = 0, li_tokens = 0, li_k = [], li_v = []\<rparr>"

definition NewRingF32KV :: "'f \<Rightarrow> int \<Rightarrow> int \<Rightarrow> 'f ring_kv" where
  "NewRingF32KV z dim0 capacity0 =
     (let dm = (if dim0 < 0 then 0 else dim0); cap = (if capacity0 < 0 then 0 else capacity0);
          none = \<lparr>ri_dim = dm, ri_capacity = 0, ri_startToken = 0, ri_tokens = 0, ri_head = 0, ri_k = [], ri_v = []\<rparr> in
      if dm = 0 \<or> cap = 0 then none
      else case MulInt dm cap of (elems, ok) \<Rightarrow>
        if \<not> ok then none
        else none\<lparr>ri_capacity := cap, ri_k := replicate (nat elems) z, ri_v := replicate (nat elems) z\<rparr>)"

section \<open>Helpers\<close>

definition rowSlice :: "'f list \<Rightarrow> int \<Rightarrow> int \<Rightarrow> int \<Rightarrow> 'f list option" where
  "rowSlice buf dm startRow rows =
     (if dm < 0 \<or> startRow < 0 \<or> rows < 0 then None
      else if rows = 0 then Some []
      else case MulInt startRow dm of (start, ok1) \<Rightarrow> if \<not> ok1 then None
      else case MulInt rows dm of (count, ok2) \<Rightarrow> if \<not> ok2 then None
      else case AddInt start count of (stop, ok3) \<Rightarrow>
        if \<not> ok3 \<or> stop > int (length buf) then None else Some (take (nat (stop - start)) (drop (nat start) buf)))"

definition materializeView :: "'f kv_view \<Rightarrow> 'f list \<times> 'f list \<times> int" where
  "materializeView view =
     (if length (FirstK view) \<noteq> length (FirstV view) \<or> length (SecondK view) \<noteq> length (SecondV view) then ([], [], StartToken view)
      else case AddInt (int (length (FirstK view))) (int (length (SecondK view))) of (n, ok) \<Rightarrow>
        if \<not> ok then ([], [], StartToken view)
        else if n = 0 then ([], [], StartToken view)
        else (FirstK view @ SecondK view, FirstV view @ SecondV view, StartToken view))"

definition logicalF32KVBytes :: "int \<Rightarrow> int \<Rightarrow> int" where
  "logicalF32KVBytes tokens dm =
     (if tokens < 0 \<or> dm < 0 then 0
      else case MulInt tokens dm of (elems, ok) \<Rightarrow> if \<not> ok then MaxInt64 else SaturatingMulInt64 elems 8)"

definition validateF32KVCheckpoint :: "'f store_cp \<Rightarrow> go_error + int" where
  "validateF32KVCheckpoint cp =
     (if \<not> sc_valid cp then Inl (Errorf ''invalid checkpoint'' [])
      else if sc_dim cp < 0 \<or> sc_capacity cp < 0 \<or> sc_tokens cp < 0 \<or> sc_startToken cp < 0
      then Inl (Errorf ''checkpoint has negative fields'' [])
      else if sc_tokens cp > 0 \<and> sc_dim cp \<le> 0 then Inl (Errorf ''checkpoint tokens=%d require dim > 0'' [AN (sc_tokens cp)])
      else if sc_capacity cp \<noteq> 0 \<and> sc_tokens cp > sc_capacity cp
      then Inl (Errorf ''checkpoint tokens=%d exceed capacity=%d'' [AN (sc_tokens cp), AN (sc_capacity cp)])
      else case MulInt (sc_tokens cp) (sc_dim cp) of (need, ok) \<Rightarrow>
        if \<not> ok then Inl (Errorf ''checkpoint tokens=%d dim=%d overflow'' [AN (sc_tokens cp), AN (sc_dim cp)])
        else if int (length (sc_k cp)) \<noteq> need \<or> int (length (sc_v cp)) \<noteq> need
        then Inl (Errorf ''checkpoint K/V len=%d/%d want %d'' [AN (int (length (sc_k cp))), AN (int (length (sc_v cp))), AN need])
        else Inr need)"

section \<open>The linear store\<close>

definition linear_validateState :: "'f linear_kv \<Rightarrow> go_error + unit" where
  "linear_validateState s =
     (if li_dim s < 0 \<or> li_tokens s < 0 \<or> li_startToken s < 0 then Inl (Errorf ''linear KV malformed state'' [])
      else case MulInt (li_tokens s) (li_dim s) of (need, ok) \<Rightarrow>
        if \<not> ok then Inl (Errorf ''linear KV state overflow'' [])
        else if int (length (li_k s)) \<noteq> need \<or> int (length (li_v s)) \<noteq> need
        then Inl (Errorf ''linear KV malformed K/V len=%d/%d want %d'' [AN (int (length (li_k s))), AN (int (length (li_v s))), AN need])
        else Inr ())"

definition linear_append :: "'f linear_kv \<Rightarrow> 'f list \<Rightarrow> 'f list \<Rightarrow> go_error + 'f linear_kv" where
  "linear_append s k v = res_bind (linear_validateState s) (\<lambda>_.
     if li_dim s \<le> 0 then Inl (Errorf ''linear KV dim=%d must be > 0'' [AN (li_dim s)])
     else if int (length k) \<noteq> li_dim s \<or> int (length v) \<noteq> li_dim s
     then Inl (Errorf ''linear KV row len=%d/%d want %d'' [AN (int (length k)), AN (int (length v)), AN (li_dim s)])
     else if \<not> snd (AddInt (li_tokens s) 1) then Inl (Errorf ''linear KV token count overflow'' [])
     else if \<not> snd (AddInt (int (length (li_k s))) (li_dim s)) then Inl (Errorf ''linear KV K length overflow'' [])
     else if \<not> snd (AddInt (int (length (li_v s))) (li_dim s)) then Inl (Errorf ''linear KV V length overflow'' [])
     else Inr (s\<lparr>li_k := li_k s @ k, li_v := li_v s @ v, li_tokens := li_tokens s + 1\<rparr>))"

text \<open>A call that fails leaves the store as it was.\<close>

definition keep_on_error :: "'s \<Rightarrow> go_error + 's \<Rightarrow> (go_error + unit) \<times> 's" where
  "keep_on_error s r = (case r of Inl e \<Rightarrow> (Inl e, s) | Inr s' \<Rightarrow> (Inr (), s'))"

definition on_pointer :: "string \<Rightarrow> ('s \<Rightarrow> go_error + 's) \<Rightarrow> 's option \<Rightarrow> (go_error + unit) \<times> 's option" where
  "on_pointer nil_error f so = (case so of None \<Rightarrow> (Inl (Errorf nil_error []), None)
     | Some s \<Rightarrow> map_prod id Some (keep_on_error s (f s)))"

definition linear_Append :: "'f linear_kv option \<Rightarrow> 'f list \<Rightarrow> 'f list \<Rightarrow> (go_error + unit) \<times> 'f linear_kv option" where
  "linear_Append so k v = on_pointer ''nil LinearF32KV'' (\<lambda>s. linear_append s k v) so"

definition linear_Tokens :: "'f linear_kv option \<Rightarrow> int" where
  "linear_Tokens so = (case so of None \<Rightarrow> 0 | Some s \<Rightarrow> li_tokens s)"

definition linear_Dim :: "'f linear_kv option \<Rightarrow> int" where
  "linear_Dim so = (case so of None \<Rightarrow> 0 | Some s \<Rightarrow> li_dim s)"

definition linear_Capacity :: "'f linear_kv option \<Rightarrow> int" where
  "linear_Capacity so = 0"

definition linear_View :: "'f linear_kv option \<Rightarrow> 'f kv_view" where
  "linear_View so = (case so of None \<Rightarrow> empty_view 0 | Some s \<Rightarrow>
     (case linear_validateState s of
        Inl _ \<Rightarrow> empty_view (li_startToken s)
      | Inr _ \<Rightarrow> if li_tokens s = 0 then empty_view (li_startToken s)
          else (empty_view (li_startToken s))\<lparr>FirstK := li_k s, FirstV := li_v s\<rparr>))"

definition linear_Materialize :: "'f linear_kv option \<Rightarrow> 'f list \<times> 'f list \<times> int" where
  "linear_Materialize so = (case so of None \<Rightarrow> ([], [], 0) | Some s \<Rightarrow> materializeView (linear_View (Some s)))"

definition linear_Reset :: "'f linear_kv option \<Rightarrow> 'f linear_kv option" where
  "linear_Reset so = map_option (\<lambda>s. s\<lparr>li_k := [], li_v := [], li_tokens := 0, li_startToken := 0\<rparr>) so"

definition linear_Bytes :: "'f linear_kv option \<Rightarrow> int" where
  "linear_Bytes so = (case so of None \<Rightarrow> 0 | Some s \<Rightarrow> logicalF32KVBytes (li_tokens s) (li_dim s))"

definition linear_Checkpoint :: "'f linear_kv option \<Rightarrow> 'f store_cp" where
  "linear_Checkpoint so = (case so of None \<Rightarrow> no_store_cp | Some s \<Rightarrow>
     (case linear_Materialize (Some s) of (k, v, start) \<Rightarrow>
       if li_tokens s > 0 \<and> (k = [] \<or> v = []) then no_store_cp
       else \<lparr>sc_valid = True, sc_dim = li_dim s, sc_capacity = 0, sc_startToken = start, sc_tokens = li_tokens s, sc_k = k, sc_v = v\<rparr>))"

definition linear_restore :: "'f store_cp \<Rightarrow> 'f linear_kv \<Rightarrow> go_error + 'f linear_kv" where
  "linear_restore cp s = res_bind (validateF32KVCheckpoint cp) (\<lambda>_.
     if li_dim s \<noteq> sc_dim cp then Inl (Errorf ''linear KV dim=%d checkpoint dim=%d'' [AN (li_dim s), AN (sc_dim cp)])
     else Inr (s\<lparr>li_k := sc_k cp, li_v := sc_v cp, li_tokens := sc_tokens cp, li_startToken := sc_startToken cp\<rparr>))"

definition linear_Restore :: "'f linear_kv option \<Rightarrow> 'f store_cp \<Rightarrow> (go_error + unit) \<times> 'f linear_kv option" where
  "linear_Restore so cp = on_pointer ''nil LinearF32KV'' (linear_restore cp) so"

section \<open>The ring\<close>

definition ring_validateStorage :: "'f ring_kv \<Rightarrow> go_error + unit" where
  "ring_validateStorage s =
     (case MulInt (ri_capacity s) (ri_dim s) of (expected, ok) \<Rightarrow>
       if \<not> ok then Inl (Errorf ''ring KV storage size overflow'' [])
       else if int (length (ri_k s)) < expected \<or> int (length (ri_v s)) < expected
       then Inl (Errorf ''ring KV malformed storage len=%d/%d want >= %d'' [AN (int (length (ri_k s))), AN (int (length (ri_v s))), AN expected])
       else Inr ())"

definition ring_validateState :: "'f ring_kv \<Rightarrow> go_error + unit" where
  "ring_validateState s =
     (if ri_dim s < 0 \<or> ri_capacity s < 0 \<or> ri_tokens s < 0 \<or> ri_startToken s < 0 \<or> ri_head s < 0
      then Inl (Errorf ''ring KV malformed state'' [])
      else if ri_capacity s = 0
      then if ri_tokens s \<noteq> 0 \<or> ri_head s \<noteq> 0 \<or> length (ri_k s) \<noteq> 0 \<or> length (ri_v s) \<noteq> 0
           then Inl (Errorf ''ring KV malformed zero-capacity state'' []) else Inr ()
      else if ri_tokens s > ri_capacity s \<or> ri_head s \<ge> ri_capacity s
      then Inl (Errorf ''ring KV malformed token/head state'' [])
      else ring_validateStorage s)"

text \<open>Go's \<open>copy\<close> into the window of \<open>len\<close> elements that begins at \<open>start\<close>.\<close>

definition copy_window :: "'f list \<Rightarrow> nat \<Rightarrow> nat \<Rightarrow> 'f list \<Rightarrow> 'f list" where
  "copy_window buf start len src = (let n = min len (length src) in take start buf @ take n src @ drop (start + n) buf)"

definition copyRow :: "'f ring_kv \<Rightarrow> int \<Rightarrow> 'f list \<Rightarrow> 'f list \<Rightarrow> go_error + 'f ring_kv" where
  "copyRow s row k v =
     (case rowSlice (ri_k s) (ri_dim s) row 1 of
        None \<Rightarrow> Inl (Errorf ''ring KV row %d outside K storage'' [AN row])
      | Some ks \<Rightarrow> (case rowSlice (ri_v s) (ri_dim s) row 1 of
          None \<Rightarrow> Inl (Errorf ''ring KV row %d outside V storage'' [AN row])
        | Some vs \<Rightarrow> Inr (s\<lparr>ri_k := copy_window (ri_k s) (nat (row * ri_dim s)) (length ks) k,
              ri_v := copy_window (ri_v s) (nat (row * ri_dim s)) (length vs) v\<rparr>)))"

definition ring_append :: "'f ring_kv \<Rightarrow> 'f list \<Rightarrow> 'f list \<Rightarrow> go_error + 'f ring_kv" where
  "ring_append s k v = res_bind (ring_validateState s) (\<lambda>_.
     if ri_dim s \<le> 0 then Inl (Errorf ''ring KV dim=%d must be > 0'' [AN (ri_dim s)])
     else if ri_capacity s \<le> 0 then Inl (Errorf ''ring KV capacity=%d must be > 0'' [AN (ri_capacity s)])
     else if int (length k) \<noteq> ri_dim s \<or> int (length v) \<noteq> ri_dim s
     then Inl (Errorf ''ring KV row len=%d/%d want %d'' [AN (int (length k)), AN (int (length v)), AN (ri_dim s)])
     else if ri_tokens s < ri_capacity s
     then (case AddInt (ri_head s) (ri_tokens s) of (total_rows, ok) \<Rightarrow>
       if \<not> ok then Inl (Errorf ''ring KV write index overflow'' [])
       else let idx = (if total_rows \<ge> ri_capacity s then total_rows - ri_capacity s else total_rows) in
         res_bind (copyRow s idx k v) (\<lambda>s1. Inr (s1\<lparr>ri_tokens := ri_tokens s1 + 1\<rparr>)))
     else if \<not> snd (AddInt (ri_startToken s) 1) then Inl (Errorf ''ring KV startToken overflow'' [])
     else res_bind (copyRow s (ri_head s) k v) (\<lambda>s1.
       let h = ri_head s1 + 1 in
       Inr (s1\<lparr>ri_head := (if h = ri_capacity s1 then 0 else h), ri_startToken := ri_startToken s1 + 1\<rparr>)))"

definition ring_Append :: "'f ring_kv option \<Rightarrow> 'f list \<Rightarrow> 'f list \<Rightarrow> (go_error + unit) \<times> 'f ring_kv option" where
  "ring_Append so k v = on_pointer ''nil RingF32KV'' (\<lambda>s. ring_append s k v) so"

definition ring_Tokens :: "'f ring_kv option \<Rightarrow> int" where
  "ring_Tokens so = (case so of None \<Rightarrow> 0 | Some s \<Rightarrow> ri_tokens s)"

definition ring_Dim :: "'f ring_kv option \<Rightarrow> int" where
  "ring_Dim so = (case so of None \<Rightarrow> 0 | Some s \<Rightarrow> ri_dim s)"

definition ring_Capacity :: "'f ring_kv option \<Rightarrow> int" where
  "ring_Capacity so = (case so of None \<Rightarrow> 0 | Some s \<Rightarrow> ri_capacity s)"

definition ring_View :: "'f ring_kv option \<Rightarrow> 'f kv_view" where
  "ring_View so = (case so of None \<Rightarrow> empty_view 0 | Some s \<Rightarrow>
     (let none = empty_view (ri_startToken s) in
      case ring_validateState s of
        Inl _ \<Rightarrow> none
      | Inr _ \<Rightarrow>
         if ri_tokens s = 0 then none
         else case AddInt (ri_head s) (ri_tokens s) of (total_rows, ok) \<Rightarrow>
           if \<not> ok then none
           else if total_rows \<le> ri_capacity s
           then (case (rowSlice (ri_k s) (ri_dim s) (ri_head s) (ri_tokens s), rowSlice (ri_v s) (ri_dim s) (ri_head s) (ri_tokens s)) of
               (Some k1, Some v1) \<Rightarrow> none\<lparr>FirstK := k1, FirstV := v1\<rparr>
             | _ \<Rightarrow> none)
           else let firstRows = ri_capacity s - ri_head s; secondRows = ri_tokens s - firstRows in
             (case (rowSlice (ri_k s) (ri_dim s) (ri_head s) firstRows, rowSlice (ri_v s) (ri_dim s) (ri_head s) firstRows,
                    rowSlice (ri_k s) (ri_dim s) 0 secondRows, rowSlice (ri_v s) (ri_dim s) 0 secondRows) of
               (Some k1, Some v1, Some k2, Some v2) \<Rightarrow> none\<lparr>FirstK := k1, FirstV := v1, SecondK := k2, SecondV := v2\<rparr>
             | _ \<Rightarrow> none)))"

definition ring_Materialize :: "'f ring_kv option \<Rightarrow> 'f list \<times> 'f list \<times> int" where
  "ring_Materialize so = (case so of None \<Rightarrow> ([], [], 0) | Some s \<Rightarrow> materializeView (ring_View (Some s)))"

definition ring_Reset :: "'f ring_kv option \<Rightarrow> 'f ring_kv option" where
  "ring_Reset so = map_option (\<lambda>s. s\<lparr>ri_tokens := 0, ri_head := 0, ri_startToken := 0\<rparr>) so"

definition ring_Bytes :: "'f ring_kv option \<Rightarrow> int" where
  "ring_Bytes so = (case so of None \<Rightarrow> 0 | Some s \<Rightarrow> logicalF32KVBytes (ri_tokens s) (ri_dim s))"

definition ring_Checkpoint :: "'f ring_kv option \<Rightarrow> 'f store_cp" where
  "ring_Checkpoint so = (case so of None \<Rightarrow> no_store_cp | Some s \<Rightarrow>
     (case ring_Materialize (Some s) of (k, v, start) \<Rightarrow>
       if ri_tokens s > 0 \<and> (k = [] \<or> v = []) then no_store_cp
       else \<lparr>sc_valid = True, sc_dim = ri_dim s, sc_capacity = ri_capacity s, sc_startToken = start, sc_tokens = ri_tokens s, sc_k = k, sc_v = v\<rparr>))"

definition ring_restore :: "'f store_cp \<Rightarrow> 'f ring_kv \<Rightarrow> go_error + 'f ring_kv" where
  "ring_restore cp s = res_bind (validateF32KVCheckpoint cp) (\<lambda>need.
     if ri_dim s \<noteq> sc_dim cp then Inl (Errorf ''ring KV dim=%d checkpoint dim=%d'' [AN (ri_dim s), AN (sc_dim cp)])
     else if sc_tokens cp > ri_capacity s
     then Inl (Errorf ''ring KV checkpoint tokens=%d exceed capacity=%d'' [AN (sc_tokens cp), AN (ri_capacity s)])
     else res_bind (ring_validateStorage s) (\<lambda>_.
       let s1 = (if need > 0 then s\<lparr>ri_k := copy_window (ri_k s) 0 (nat need) (sc_k cp), ri_v := copy_window (ri_v s) 0 (nat need) (sc_v cp)\<rparr> else s) in
       Inr (s1\<lparr>ri_tokens := sc_tokens cp, ri_head := 0, ri_startToken := sc_startToken cp\<rparr>)))"

definition ring_Restore :: "'f ring_kv option \<Rightarrow> 'f store_cp \<Rightarrow> (go_error + unit) \<times> 'f ring_kv option" where
  "ring_Restore so cp = on_pointer ''nil RingF32KV'' (ring_restore cp) so"

section \<open>The interface\<close>

datatype 'f kv_store = LinearF32KV "'f linear_kv option" | RingF32KV "'f ring_kv option"

fun store_Append :: "'f kv_store \<Rightarrow> 'f list \<Rightarrow> 'f list \<Rightarrow> (go_error + unit) \<times> 'f kv_store" where
  "store_Append (LinearF32KV s) k v = map_prod id LinearF32KV (linear_Append s k v)"
| "store_Append (RingF32KV s) k v = map_prod id RingF32KV (ring_Append s k v)"

fun store_Tokens :: "'f kv_store \<Rightarrow> int" where
  "store_Tokens (LinearF32KV s) = linear_Tokens s"
| "store_Tokens (RingF32KV s) = ring_Tokens s"

fun store_Dim :: "'f kv_store \<Rightarrow> int" where
  "store_Dim (LinearF32KV s) = linear_Dim s"
| "store_Dim (RingF32KV s) = ring_Dim s"

fun store_View :: "'f kv_store \<Rightarrow> 'f kv_view" where
  "store_View (LinearF32KV s) = linear_View s"
| "store_View (RingF32KV s) = ring_View s"

fun store_Materialize :: "'f kv_store \<Rightarrow> 'f list \<times> 'f list \<times> int" where
  "store_Materialize (LinearF32KV s) = linear_Materialize s"
| "store_Materialize (RingF32KV s) = ring_Materialize s"

fun store_Reset :: "'f kv_store \<Rightarrow> 'f kv_store" where
  "store_Reset (LinearF32KV s) = LinearF32KV (linear_Reset s)"
| "store_Reset (RingF32KV s) = RingF32KV (ring_Reset s)"

fun store_Bytes :: "'f kv_store \<Rightarrow> int" where
  "store_Bytes (LinearF32KV s) = linear_Bytes s"
| "store_Bytes (RingF32KV s) = ring_Bytes s"

fun store_Checkpoint :: "'f kv_store \<Rightarrow> 'f store_cp" where
  "store_Checkpoint (LinearF32KV s) = linear_Checkpoint s"
| "store_Checkpoint (RingF32KV s) = ring_Checkpoint s"

fun store_Restore :: "'f kv_store \<Rightarrow> 'f store_cp \<Rightarrow> (go_error + unit) \<times> 'f kv_store" where
  "store_Restore (LinearF32KV s) cp = map_prod id LinearF32KV (linear_Restore s cp)"
| "store_Restore (RingF32KV s) cp = map_prod id RingF32KV (ring_Restore s cp)"

end
