(* ===== verification/LayeredKv.thy ===== *)
theory LayeredKv
  imports RowStore
begin

text \<open>
  \<open>runtime/kv/layered_f32_store.go\<close>: one row store per layer, linear for layers that attend to the
  whole history and a ring for layers with a sliding window. A nil manager and a nil interface value
  are \<open>None\<close>. Methods that change the manager return it; a call that fails halfway returns what it
  had changed by then. Comparison of float32 values is the parameter \<open>feq\<close>, for which a NaN need not
  equal itself.
\<close>

record layer_config =
  lc_dim :: int
  lc_sliding :: bool
  lc_window :: int

record 'f layered_cp =
  ly_valid :: bool
  ly_chunk :: int
  ly_configs :: "layer_config list"
  ly_layers :: "'f store_cp list"

definition no_layered_cp :: "'f layered_cp" where
  "no_layered_cp = \<lparr>ly_valid = False, ly_chunk = 0, ly_configs = [], ly_layers = []\<rparr>"

record 'f layered_kv =
  la_configs :: "layer_config list"
  la_stores :: "'f kv_store option list"
  la_chunk :: int

section \<open>Configurations\<close>

definition validateLayerF32KVConfig :: "layer_config \<Rightarrow> int \<Rightarrow> go_error + unit" where
  "validateLayerF32KVConfig cfg chunk =
     (if lc_dim cfg \<le> 0 then Inl (Errorf ''dim=%d must be > 0'' [AN (lc_dim cfg)])
      else if \<not> lc_sliding cfg
      then if lc_window cfg \<noteq> 0 then Inl (Errorf ''non-sliding layer has slidingWindow=%d'' [AN (lc_window cfg)]) else Inr ()
      else if lc_window cfg \<le> 0 then Inl (Errorf ''slidingWindow=%d must be > 0'' [AN (lc_window cfg)])
      else if \<not> snd (AddInt (lc_window cfg) chunk) then Inl (Errorf ''sliding window=%d chunk=%d overflow'' [AN (lc_window cfg), AN chunk])
      else Inr ())"

definition at_layer :: "nat \<Rightarrow> go_error + 'a \<Rightarrow> go_error + 'a" where
  "at_layer i r = (case r of Inl e \<Rightarrow> Inl (Wrapf ''layer %d: %w'' [AN (int i)] e) | Inr x \<Rightarrow> Inr x)"

fun validate_configs :: "nat \<Rightarrow> layer_config list \<Rightarrow> int \<Rightarrow> go_error + unit" where
  "validate_configs i [] chunk = Inr ()"
| "validate_configs i (cfg # rest) chunk =
     res_bind (at_layer i (validateLayerF32KVConfig cfg chunk)) (\<lambda>_. validate_configs (Suc i) rest chunk)"

definition validateLayerF32KVConfigs :: "layer_config list \<Rightarrow> int \<Rightarrow> go_error + unit" where
  "validateLayerF32KVConfigs configs chunk =
     (if chunk < 0 then Inl (Errorf ''maxPrefillChunk=%d must be >= 0'' [AN chunk]) else validate_configs 0 configs chunk)"

definition layerF32KVCapacity :: "layer_config \<Rightarrow> int \<Rightarrow> go_error + int" where
  "layerF32KVCapacity cfg chunk = res_bind (validateLayerF32KVConfig cfg chunk) (\<lambda>_.
     if \<not> lc_sliding cfg then Inr 0
     else case AddInt (lc_window cfg) chunk of (cap, ok) \<Rightarrow>
       if \<not> ok then Inl (Errorf ''sliding window=%d chunk=%d overflow'' [AN (lc_window cfg), AN chunk]) else Inr cap)"

text \<open>The callers drop the error, which leaves 0.\<close>

definition capacity_of :: "layer_config \<Rightarrow> int \<Rightarrow> int" where
  "capacity_of cfg chunk = (case layerF32KVCapacity cfg chunk of Inl _ \<Rightarrow> 0 | Inr c \<Rightarrow> c)"

definition exactF32KVBytes :: "int \<Rightarrow> int \<Rightarrow> go_error + int" where
  "exactF32KVBytes tokens dm =
     (if tokens < 0 \<or> dm < 0 then Inl (Errorf ''tokens=%d dim=%d must be >= 0'' [AN tokens, AN dm])
      else case MulInt tokens dm of (elems, ok) \<Rightarrow>
        if \<not> ok then Inl (Errorf ''tokens=%d dim=%d overflow'' [AN tokens, AN dm])
        else if elems > go_quot MaxInt64 8 then Inl (Errorf ''bytes overflow for tokens=%d dim=%d'' [AN tokens, AN dm])
        else Inr (wrap64 (elems * 8)))"

fun estimate_layers :: "nat \<Rightarrow> layer_config list \<Rightarrow> int \<Rightarrow> int \<Rightarrow> int \<Rightarrow> int \<Rightarrow> go_error + int \<times> int" where
  "estimate_layers i [] maxContext chunk linearBytes ringBytes = Inr (linearBytes, ringBytes)"
| "estimate_layers i (cfg # rest) maxContext chunk linearBytes ringBytes =
     (if lc_sliding cfg
      then (case exactF32KVBytes (capacity_of cfg chunk) (lc_dim cfg) of
          Inl e \<Rightarrow> Inl (Wrapf ''layer %d ring estimate: %w'' [AN (int i)] e)
        | Inr b \<Rightarrow> estimate_layers (Suc i) rest maxContext chunk linearBytes (SaturatingAddInt64 ringBytes b))
      else (case exactF32KVBytes maxContext (lc_dim cfg) of
          Inl e \<Rightarrow> Inl (Wrapf ''layer %d linear estimate: %w'' [AN (int i)] e)
        | Inr b \<Rightarrow> estimate_layers (Suc i) rest maxContext chunk (SaturatingAddInt64 linearBytes b) ringBytes))"

definition EstimateLayeredF32KVBytes :: "layer_config list \<Rightarrow> int \<Rightarrow> int \<Rightarrow> go_error + int \<times> int" where
  "EstimateLayeredF32KVBytes configs maxContext chunk =
     (if maxContext < 0 then Inl (Errorf ''maxContext=%d must be >= 0'' [AN maxContext])
      else res_bind (validateLayerF32KVConfigs configs chunk) (\<lambda>_. estimate_layers 0 configs maxContext chunk 0 0))"

section \<open>Validation of the manager\<close>

definition validateLayerStore :: "'f layered_kv \<Rightarrow> nat \<Rightarrow> 'f kv_store option \<Rightarrow> go_error + unit" where
  "validateLayerStore m layer so =
     (if layer \<ge> length (la_configs m) then Inl Panic
      else let cfg = la_configs m ! layer in
      case so of
        None \<Rightarrow> Inl (Errorf ''layer %d has nil store'' [AN (int layer)])
      | Some store \<Rightarrow>
          if store_Dim store \<noteq> lc_dim cfg then Inl (Errorf ''layer %d dim=%d want %d'' [AN (int layer), AN (store_Dim store), AN (lc_dim cfg)])
          else if lc_sliding cfg
          then (case store of
              LinearF32KV _ \<Rightarrow> Inl (Errorf ''layer %d expected RingF32KV'' [AN (int layer)])
            | RingF32KV r \<Rightarrow>
                if ring_Capacity r \<noteq> capacity_of cfg (la_chunk m)
                then Inl (Errorf ''layer %d capacity=%d want %d'' [AN (int layer), AN (ring_Capacity r), AN (capacity_of cfg (la_chunk m))])
                else at_layer layer (case r of None \<Rightarrow> Inl Panic | Some s \<Rightarrow> ring_validateState s))
          else (case store of
              RingF32KV _ \<Rightarrow> Inl (Errorf ''layer %d expected LinearF32KV'' [AN (int layer)])
            | LinearF32KV l \<Rightarrow>
                if linear_Capacity l \<noteq> 0
                then Inl (Errorf ''layer %d linear capacity=%d want 0'' [AN (int layer), AN (linear_Capacity l)])
                else at_layer layer (case l of None \<Rightarrow> Inl Panic | Some s \<Rightarrow> linear_validateState s)))"

fun validate_stores :: "'f layered_kv \<Rightarrow> nat \<Rightarrow> 'f kv_store option list \<Rightarrow> go_error + unit" where
  "validate_stores m i [] = Inr ()"
| "validate_stores m i (so # rest) = res_bind (validateLayerStore m i so) (\<lambda>_. validate_stores m (Suc i) rest)"

definition layered_Validate :: "'f layered_kv option \<Rightarrow> go_error + unit" where
  "layered_Validate mo = (case mo of None \<Rightarrow> Inl (Errorf ''nil LayeredF32KV'' []) | Some m \<Rightarrow>
     res_bind (validateLayerF32KVConfigs (la_configs m) (la_chunk m)) (\<lambda>_.
       if length (la_stores m) \<noteq> length (la_configs m)
       then Inl (Errorf ''layered KV stores=%d want %d'' [AN (int (length (la_stores m))), AN (int (length (la_configs m)))])
       else validate_stores m 0 (la_stores m)))"

definition NewLayeredF32KV :: "'f \<Rightarrow> layer_config list \<Rightarrow> int \<Rightarrow> go_error + 'f layered_kv" where
  "NewLayeredF32KV z configs chunk = res_bind (validateLayerF32KVConfigs configs chunk) (\<lambda>_.
     let m = \<lparr>la_configs = configs,
         la_stores = map (\<lambda>cfg. Some (if lc_sliding cfg then RingF32KV (Some (NewRingF32KV z (lc_dim cfg) (capacity_of cfg chunk)))
            else LinearF32KV (Some (NewLinearF32KV (lc_dim cfg))))) configs, la_chunk = chunk\<rparr> in
     res_bind (layered_Validate (Some m)) (\<lambda>_. Inr m))"

section \<open>Access by layer\<close>

definition storeForLayer :: "'f layered_kv option \<Rightarrow> int \<Rightarrow> go_error + 'f kv_store" where
  "storeForLayer mo layer = (case mo of None \<Rightarrow> Inl (Errorf ''nil LayeredF32KV'' []) | Some m \<Rightarrow>
     if layer < 0 \<or> layer \<ge> int (length (la_stores m))
     then Inl (Errorf ''layer %d out of range [0,%d)'' [AN layer, AN (int (length (la_stores m)))])
     else (case la_stores m ! nat layer of None \<Rightarrow> Inl (Errorf ''layer %d has nil store'' [AN layer]) | Some s \<Rightarrow> Inr s))"

definition set_store :: "nat \<Rightarrow> 'f kv_store \<Rightarrow> 'f layered_kv \<Rightarrow> 'f layered_kv" where
  "set_store i s m = m\<lparr>la_stores := (la_stores m)[i := Some s]\<rparr>"

definition layered_Append :: "'f layered_kv option \<Rightarrow> int \<Rightarrow> 'f list \<Rightarrow> 'f list \<Rightarrow> (go_error + unit) \<times> 'f layered_kv option" where
  "layered_Append mo layer k v = (case storeForLayer mo layer of
       Inl e \<Rightarrow> (Inl e, mo)
     | Inr store \<Rightarrow> (case store_Append store k v of (r, store') \<Rightarrow> (r, map_option (set_store (nat layer) store') mo)))"

definition validated :: "'f layered_kv option \<Rightarrow> int \<Rightarrow> go_error + 'f kv_store" where
  "validated mo layer = res_bind (storeForLayer mo layer) (\<lambda>store.
     case mo of None \<Rightarrow> Inl Panic | Some m \<Rightarrow> res_bind (validateLayerStore m (nat layer) (Some store)) (\<lambda>_. Inr store))"

definition layered_View :: "'f layered_kv option \<Rightarrow> int \<Rightarrow> go_error + 'f kv_view" where
  "layered_View mo layer = res_bind (validated mo layer) (\<lambda>store. Inr (store_View store))"

definition MaterializeLayer :: "'f layered_kv option \<Rightarrow> int \<Rightarrow> go_error + 'f list \<times> 'f list \<times> int" where
  "MaterializeLayer mo layer = res_bind (validated mo layer) (\<lambda>store. Inr (store_Materialize store))"

definition layered_Reset :: "'f layered_kv option \<Rightarrow> 'f layered_kv option" where
  "layered_Reset mo = map_option (\<lambda>m. m\<lparr>la_stores := map (map_option store_Reset) (la_stores m)\<rparr>) mo"

definition layered_Bytes :: "'f layered_kv option \<Rightarrow> int" where
  "layered_Bytes mo = (case mo of None \<Rightarrow> 0 | Some m \<Rightarrow>
     fold (\<lambda>so acc. case so of None \<Rightarrow> acc | Some s \<Rightarrow> SaturatingAddInt64 acc (store_Bytes s)) (la_stores m) 0)"

section \<open>Checkpoints\<close>

fun checkpoint_layers :: "'f kv_store option list \<Rightarrow> 'f store_cp list option" where
  "checkpoint_layers [] = Some []"
| "checkpoint_layers (so # rest) = (case so of None \<Rightarrow> None | Some s \<Rightarrow>
     if \<not> sc_valid (store_Checkpoint s) then None else map_option ((#) (store_Checkpoint s)) (checkpoint_layers rest))"

definition layered_Checkpoint :: "'f layered_kv option \<Rightarrow> 'f layered_cp" where
  "layered_Checkpoint mo = (case mo of None \<Rightarrow> no_layered_cp | Some m \<Rightarrow>
     (case layered_Validate (Some m) of Inl _ \<Rightarrow> no_layered_cp | Inr _ \<Rightarrow>
       (case checkpoint_layers (la_stores m) of None \<Rightarrow> no_layered_cp
        | Some layers \<Rightarrow> \<lparr>ly_valid = True, ly_chunk = la_chunk m, ly_configs = la_configs m, ly_layers = layers\<rparr>)))"

fun validate_cp_layers :: "nat \<Rightarrow> layer_config list \<Rightarrow> int \<Rightarrow> 'f store_cp list \<Rightarrow> go_error + unit" where
  "validate_cp_layers i configs chunk [] = Inr ()"
| "validate_cp_layers i configs chunk (cp # rest) =
     (case validateF32KVCheckpoint cp of
        Inl e \<Rightarrow> Inl (Wrapf ''layer %d: %w'' [AN (int i)] e)
      | Inr _ \<Rightarrow> let expected = capacity_of (configs ! i) chunk in
          if sc_dim cp \<noteq> lc_dim (configs ! i)
          then Inl (Errorf ''layer %d checkpoint dim=%d want %d'' [AN (int i), AN (sc_dim cp), AN (lc_dim (configs ! i))])
          else if sc_capacity cp \<noteq> expected
          then Inl (Errorf ''layer %d checkpoint capacity=%d want %d'' [AN (int i), AN (sc_capacity cp), AN expected])
          else validate_cp_layers (Suc i) configs chunk rest)"

definition validateLayeredF32KVCheckpoint :: "'f layered_cp \<Rightarrow> go_error + unit" where
  "validateLayeredF32KVCheckpoint cp =
     (if \<not> ly_valid cp then Inl (Errorf ''invalid layered checkpoint'' [])
      else res_bind (validateLayerF32KVConfigs (ly_configs cp) (ly_chunk cp)) (\<lambda>_.
        if length (ly_layers cp) \<noteq> length (ly_configs cp)
        then Inl (Errorf ''layered checkpoint layers=%d want %d'' [AN (int (length (ly_layers cp))), AN (int (length (ly_configs cp)))])
        else validate_cp_layers 0 (ly_configs cp) (ly_chunk cp) (ly_layers cp)))"

definition validateLayerCheckpoint :: "'f layered_kv \<Rightarrow> nat \<Rightarrow> 'f store_cp \<Rightarrow> go_error + unit" where
  "validateLayerCheckpoint m layer cp =
     (let cfg = la_configs m ! layer in
      case validateF32KVCheckpoint cp of
        Inl e \<Rightarrow> Inl (Wrapf ''layer %d: %w'' [AN (int layer)] e)
      | Inr _ \<Rightarrow> let expected = capacity_of cfg (la_chunk m) in
          if sc_dim cp \<noteq> lc_dim cfg then Inl (Errorf ''layer %d checkpoint dim=%d want %d'' [AN (int layer), AN (sc_dim cp), AN (lc_dim cfg)])
          else if sc_capacity cp \<noteq> expected
          then Inl (Errorf ''layer %d checkpoint capacity=%d want %d'' [AN (int layer), AN (sc_capacity cp), AN expected])
          else Inr ())"

fun match_configs :: "'f layered_kv \<Rightarrow> 'f layered_cp \<Rightarrow> nat \<Rightarrow> nat \<Rightarrow> go_error + unit" where
  "match_configs m cp i 0 = Inr ()"
| "match_configs m cp i (Suc left) =
     (if la_configs m ! i \<noteq> ly_configs cp ! i then Inl (Errorf ''layered KV checkpoint config mismatch at layer %d'' [AN (int i)])
      else res_bind (validateLayerCheckpoint m i (ly_layers cp ! i)) (\<lambda>_. match_configs m cp (Suc i) left))"

definition validateRestoreCheckpoint :: "'f layered_kv option \<Rightarrow> 'f layered_cp \<Rightarrow> go_error + unit" where
  "validateRestoreCheckpoint mo cp = (case mo of None \<Rightarrow> Inl (Errorf ''nil LayeredF32KV'' []) | Some m \<Rightarrow>
     res_bind (layered_Validate (Some m)) (\<lambda>_. res_bind (validateLayeredF32KVCheckpoint cp) (\<lambda>_.
       if ly_chunk cp \<noteq> la_chunk m
       then Inl (Errorf ''layered KV checkpoint maxPrefillChunk=%d want %d'' [AN (ly_chunk cp), AN (la_chunk m)])
       else if length (ly_configs cp) \<noteq> length (la_configs m)
       then Inl (Errorf ''layered KV checkpoint layers=%d want %d'' [AN (int (length (ly_configs cp))), AN (int (length (la_configs m)))])
       else match_configs m cp 0 (length (la_configs m)))))"

fun restore_stores :: "nat \<Rightarrow> 'f store_cp list \<Rightarrow> 'f kv_store option list \<Rightarrow> (go_error + unit) \<times> 'f kv_store option list" where
  "restore_stores i cps [] = (Inr (), [])"
| "restore_stores i cps (so # rest) =
     (case so of None \<Rightarrow> (Inl Panic, so # rest)
      | Some s \<Rightarrow> if i \<ge> length cps then (Inl Panic, so # rest)
        else (case store_Restore s (cps ! i) of
            (Inl e, s') \<Rightarrow> (Inl (Wrapf ''layer %d: %w'' [AN (int i)] e), Some s' # rest)
          | (Inr _, s') \<Rightarrow> map_prod id ((#) (Some s')) (restore_stores (Suc i) cps rest)))"

definition restoreLayers :: "'f layered_cp \<Rightarrow> 'f layered_kv \<Rightarrow> (go_error + unit) \<times> 'f layered_kv" where
  "restoreLayers cp m = (case restore_stores 0 (ly_layers cp) (la_stores m) of (r, stores) \<Rightarrow> (r, m\<lparr>la_stores := stores\<rparr>))"

definition layered_Restore :: "'f layered_kv option \<Rightarrow> 'f layered_cp \<Rightarrow> (go_error + unit) \<times> 'f layered_kv option" where
  "layered_Restore mo cp = (case validateRestoreCheckpoint mo cp of
       Inl e \<Rightarrow> (Inl e, mo)
     | Inr _ \<Rightarrow> (case mo of None \<Rightarrow> (Inl Panic, None) | Some m \<Rightarrow> map_prod id Some (restoreLayers cp m)))"

section \<open>Keeping appended rows\<close>

definition equalFloat32Slices :: "('f \<Rightarrow> 'f \<Rightarrow> bool) \<Rightarrow> 'f list \<Rightarrow> 'f list \<Rightarrow> bool" where
  "equalFloat32Slices feq a b = list_all2 feq a b"

text \<open>The rows of the checkpoint that a layer still has must not have changed.\<close>

definition check_overlap :: "('f \<Rightarrow> 'f \<Rightarrow> bool) \<Rightarrow> nat \<Rightarrow> 'f store_cp \<Rightarrow> 'f list \<Rightarrow> 'f list \<Rightarrow> int \<Rightarrow> int \<Rightarrow> int \<Rightarrow> go_error + unit" where
  "check_overlap feq i cp currentK currentV currentStart currentTokens overlapRows =
     (if overlapRows > 0
      then if overlapRows > currentTokens
        then Inl (Errorf ''layer %d checkpoint overlap rows=%d exceed current tokens=%d'' [AN (int i), AN overlapRows, AN currentTokens])
        else let off = currentStart - sc_startToken cp in
          if off < 0
          then Inl (Errorf ''layer %d current start token=%d precedes checkpoint start=%d'' [AN (int i), AN currentStart, AN (sc_startToken cp)])
          else (case rowSlice (sc_k cp) (sc_dim cp) off overlapRows of None \<Rightarrow> Inl (Errorf ''layer %d checkpoint K overlap out of range'' [AN (int i)])
          | Some wantK \<Rightarrow> (case rowSlice (sc_v cp) (sc_dim cp) off overlapRows of None \<Rightarrow> Inl (Errorf ''layer %d checkpoint V overlap out of range'' [AN (int i)])
          | Some wantV \<Rightarrow> (case rowSlice currentK (sc_dim cp) 0 overlapRows of None \<Rightarrow> Inl (Errorf ''layer %d current K overlap out of range'' [AN (int i)])
          | Some gotK \<Rightarrow> (case rowSlice currentV (sc_dim cp) 0 overlapRows of None \<Rightarrow> Inl (Errorf ''layer %d current V overlap out of range'' [AN (int i)])
          | Some gotV \<Rightarrow> if \<not> equalFloat32Slices feq gotK wantK \<or> \<not> equalFloat32Slices feq gotV wantV
              then Inl (Errorf ''layer %d checkpoint prefix mismatch'' [AN (int i)]) else Inr ()))))
      else Inr ())"

text \<open>One layer: the number of staged tokens, and the rows to keep.\<close>

definition keep_layer :: "('f \<Rightarrow> 'f \<Rightarrow> bool) \<Rightarrow> nat \<Rightarrow> 'f store_cp \<Rightarrow> int \<Rightarrow> int \<Rightarrow> 'f kv_store \<Rightarrow> go_error + int \<times> 'f list \<times> 'f list" where
  "keep_layer feq i cp keepTokens stagedTokens store =
     (case store_Materialize store of (currentK, currentV, currentStart) \<Rightarrow>
      let currentTokens = store_Tokens store in
      case AddInt (sc_startToken cp) (sc_tokens cp) of (checkpointEnd, ok1) \<Rightarrow>
        if \<not> ok1 then Inl (Errorf ''layer %d checkpoint end token overflow'' [AN (int i)])
        else case AddInt currentStart currentTokens of (currentEnd, ok2) \<Rightarrow>
        if \<not> ok2 then Inl (Errorf ''layer %d current end token overflow'' [AN (int i)])
        else if currentEnd < checkpointEnd
        then Inl (Errorf ''layer %d current end token=%d shorter than checkpoint end=%d'' [AN (int i), AN currentEnd, AN checkpointEnd])
        else let layerStaged = currentEnd - checkpointEnd in
        if \<not> stagedTokens < 0 \<and> layerStaged \<noteq> stagedTokens
        then Inl (Errorf ''layer %d staged tokens=%d want %d'' [AN (int i), AN layerStaged, AN stagedTokens])
        else let staged' = (if stagedTokens < 0 then layerStaged else stagedTokens) in
        if keepTokens > layerStaged
        then Inl (Errorf ''layer %d staged tokens=%d shorter than keepTokens=%d'' [AN (int i), AN layerStaged, AN keepTokens])
        else if keepTokens = 0 then Inr (staged', [], [])
        else if currentStart > checkpointEnd then Inl (Errorf ''layer %d checkpoint prefix no longer recoverable'' [AN (int i)])
        else res_bind (check_overlap feq i cp currentK currentV currentStart currentTokens (checkpointEnd - currentStart)) (\<lambda>_.
          case rowSlice currentK (sc_dim cp) (checkpointEnd - currentStart) keepTokens of
            None \<Rightarrow> Inl (Errorf ''layer %d kept K rows out of range'' [AN (int i)])
          | Some keepK \<Rightarrow> (case rowSlice currentV (sc_dim cp) (checkpointEnd - currentStart) keepTokens of
              None \<Rightarrow> Inl (Errorf ''layer %d kept V rows out of range'' [AN (int i)])
            | Some keepV \<Rightarrow> Inr (staged', keepK, keepV))))"

fun keep_layers :: "('f \<Rightarrow> 'f \<Rightarrow> bool) \<Rightarrow> nat \<Rightarrow> 'f store_cp list \<Rightarrow> int \<Rightarrow> int \<Rightarrow> 'f kv_store option list \<Rightarrow> go_error + ('f list \<times> 'f list) list" where
  "keep_layers feq i cps keepTokens stagedTokens [] = Inr []"
| "keep_layers feq i cps keepTokens stagedTokens (so # rest) =
     (case so of None \<Rightarrow> Inl Panic | Some s \<Rightarrow>
        res_bind (keep_layer feq i (cps ! i) keepTokens stagedTokens s) (\<lambda>(staged', k, v).
          res_bind (keep_layers feq (Suc i) cps keepTokens staged' rest) (\<lambda>kept. Inr ((k, v) # kept))))"

text \<open>The kept rows of one layer are appended one by one.\<close>

fun replay_rows :: "nat \<Rightarrow> nat \<Rightarrow> nat \<Rightarrow> 'f list \<times> 'f list \<Rightarrow> 'f kv_store \<Rightarrow> (go_error + unit) \<times> 'f kv_store" where
  "replay_rows dm row 0 kept s = (Inr (), s)"
| "replay_rows dm row (Suc left) kept s =
     (case store_Append s (take dm (drop (row * dm) (fst kept))) (take dm (drop (row * dm) (snd kept))) of
        (Inl e, s') \<Rightarrow> (Inl e, s')
      | (Inr _, s') \<Rightarrow> replay_rows dm (Suc row) left kept s')"

fun replay_layers :: "layer_config list \<Rightarrow> nat \<Rightarrow> nat \<Rightarrow> ('f list \<times> 'f list) list \<Rightarrow> 'f kv_store option list \<Rightarrow>
    (go_error + unit) \<times> 'f kv_store option list" where
  "replay_layers configs keep i (kept # rest) (so # stores) =
     (case so of None \<Rightarrow> (Inl Panic, so # stores) | Some s \<Rightarrow>
       (case replay_rows (nat (lc_dim (configs ! i))) 0 keep kept s of
          (Inl e, s') \<Rightarrow> (Inl (Wrapf ''layer %d: %w'' [AN (int i)] e), Some s' # stores)
        | (Inr _, s') \<Rightarrow> map_prod id ((#) (Some s')) (replay_layers configs keep (Suc i) rest stores)))"
| "replay_layers configs keep i _ stores = (Inr (), stores)"

text \<open>The first error, which the message only prints, is left out of the second.\<close>

definition rollback_layers :: "'f layered_cp \<Rightarrow> go_error \<Rightarrow> 'f layered_kv \<Rightarrow> (go_error + unit) \<times> 'f layered_kv" where
  "rollback_layers cp e m = (case restoreLayers cp m of
       (Inl e', m') \<Rightarrow> (Inl (Wrapf ''keep appended failed: %v (rollback failed: %w)'' [] e'), m')
     | (Inr _, m') \<Rightarrow> (Inl e, m'))"

definition layered_KeepAppended :: "('f \<Rightarrow> 'f \<Rightarrow> bool) \<Rightarrow> 'f layered_kv option \<Rightarrow> 'f layered_cp \<Rightarrow> int \<Rightarrow> (go_error + unit) \<times> 'f layered_kv option" where
  "layered_KeepAppended feq mo cp keepTokens =
     (if keepTokens < 0 then (Inl (Errorf ''keepTokens=%d must be >= 0'' [AN keepTokens]), mo)
      else case validateRestoreCheckpoint mo cp of Inl e \<Rightarrow> (Inl e, mo) | Inr _ \<Rightarrow>
      let saved = layered_Checkpoint mo in
      if \<not> ly_valid saved then (Inl (Errorf ''failed to checkpoint current layered KV state'' []), mo)
      else case mo of None \<Rightarrow> (Inl Panic, None) | Some m \<Rightarrow>
      (case keep_layers feq 0 (ly_layers cp) keepTokens (- 1) (la_stores m) of
         Inl e \<Rightarrow> (Inl e, mo)
       | Inr kept \<Rightarrow>
         (case restoreLayers cp m of
            (Inl e, m1) \<Rightarrow> map_prod id Some (rollback_layers saved e m1)
          | (Inr _, m1) \<Rightarrow>
            (case replay_layers (la_configs m1) (nat keepTokens) 0 kept (la_stores m1) of
               (Inl e, stores) \<Rightarrow> map_prod id Some (rollback_layers saved e (m1\<lparr>la_stores := stores\<rparr>))
             | (Inr _, stores) \<Rightarrow> (Inr (), Some (m1\<lparr>la_stores := stores\<rparr>))))))"

end
