(* ===== verification/RowStoreFacts.thy ===== *)
theory RowStoreFacts
  imports RowStore
begin

text \<open>
  What the stores of \<open>RowStore\<close> hold, as a window of rows: the linear store all rows appended, the
  ring the last ones up to its capacity. The locale \<open>row_store\<close> is the contract of the interface
  \<open>F32KVStore\<close>: \<open>Append\<close> pushes a row, \<open>Materialize\<close> lists the window, a checkpoint restores it.
\<close>

type_synonym 'f row = "'f list \<times> 'f list"

section \<open>Windows\<close>

definition push :: "nat option \<Rightarrow> int \<times> 'r list \<Rightarrow> 'r \<Rightarrow> int \<times> 'r list" where
  "push c w r = (case w of (st, rows) \<Rightarrow> (case c of
     None \<Rightarrow> (st, rows @ [r])
   | Some n \<Rightarrow> if length rows < n then (st, rows @ [r]) else (st + 1, tl rows @ [r])))"

definition window :: "nat option \<Rightarrow> 'r list \<Rightarrow> 'r list" where
  "window c xs = (case c of None \<Rightarrow> xs | Some n \<Rightarrow> drop (length xs - n) xs)"

definition window_start :: "nat option \<Rightarrow> 'r list \<Rightarrow> int" where
  "window_start c xs = int (length xs) - int (length (window c xs))"

lemma window_sel [simp]: "window None xs = xs" "window (Some n) xs = drop (length xs - n) xs"
  by (simp_all add: window_def)

lemma window_short: "(case c of None \<Rightarrow> True | Some n \<Rightarrow> length xs \<le> n) \<Longrightarrow> window c xs = xs"
  by (cases c) auto

lemma push_window:
  assumes "case c of None \<Rightarrow> True | Some n \<Rightarrow> 0 < n"
  shows "push c (st + window_start c xs, window c xs) r = (st + window_start c (xs @ [r]), window c (xs @ [r]))"
proof (cases c)
  case (Some n)
  show ?thesis
  proof (cases "length xs < n")
    case False
    then have "Suc (length xs) - n = Suc (length xs - n)" by simp
    then have "tl (drop (length xs - n) xs) = drop (Suc (length xs) - n) xs" by (simp add: drop_Suc tl_drop)
    then show ?thesis using False Some assms by (simp add: push_def window_start_def)
  qed (use Some in \<open>simp add: push_def window_start_def\<close>)
qed (simp add: push_def window_start_def)

lemma pushes_window:
  assumes "case c of None \<Rightarrow> True | Some n \<Rightarrow> 0 < n"
  shows "foldl (push c) (st + window_start c xs, window c xs) ys = (st + window_start c (xs @ ys), window c (xs @ ys))"
proof (induction ys arbitrary: xs)
  case (Cons y ys)
  then show ?case using Cons.IH [of "xs @ [y]"] by (simp add: push_window [OF assms])
qed simp

section \<open>The contract of a row store\<close>

definition row_fits :: "nat \<Rightarrow> 'f row \<Rightarrow> bool" where
  "row_fits dm r \<longleftrightarrow> length (fst r) = dm \<and> length (snd r) = dm"

text \<open>Room for \<open>n\<close> more rows: no counter and no slice length leaves 64 bits.\<close>

definition row_room :: "nat \<times> nat option \<Rightarrow> int \<Rightarrow> nat \<Rightarrow> nat \<Rightarrow> bool" where
  "row_room sh st have_rows n \<longleftrightarrow> st + int (have_rows + n) \<le> max_int64 \<and> (snd sh = None \<longrightarrow> int ((have_rows + n) * fst sh) \<le> max_int64)"

lemma row_room_le:
  assumes "row_room sh st h n" "h' + n' \<le> h + n" "st' + int (h' + n') \<le> st + int (h + n)"
  shows "row_room sh st' h' n'"
proof -
  have "(h' + n') * fst sh \<le> (h + n) * fst sh" by (rule mult_right_mono) (use assms(2) in simp_all)
  then have "int ((h' + n') * fst sh) \<le> int ((h + n) * fst sh)" by (simp only: of_nat_le_iff)
  then show ?thesis using assms(1,3) unfolding row_room_def by linarith
qed

fun append_all :: "('s \<Rightarrow> 'f list \<Rightarrow> 'f list \<Rightarrow> (go_error + unit) \<times> 's) \<Rightarrow> 'f row list \<Rightarrow> 's \<Rightarrow> (go_error + unit) \<times> 's" where
  "append_all app [] s = (Inr (), s)"
| "append_all app (r # rs) s = (case app s (fst r) (snd r) of (Inl e, s') \<Rightarrow> (Inl e, s') | (Inr _, s') \<Rightarrow> append_all app rs s')"

locale row_store =
  fixes holds :: "'s \<Rightarrow> nat \<times> nat option \<Rightarrow> int \<Rightarrow> 'f row list \<Rightarrow> bool"
    and app :: "'s \<Rightarrow> 'f list \<Rightarrow> 'f list \<Rightarrow> (go_error + unit) \<times> 's"
    and materialize :: "'s \<Rightarrow> 'f list \<times> 'f list \<times> int"
    and checkpoint :: "'s \<Rightarrow> 'f store_cp"
    and restore :: "'s \<Rightarrow> 'f store_cp \<Rightarrow> (go_error + unit) \<times> 's"
  assumes shape: "holds s sh st rows \<Longrightarrow> 0 < fst sh \<and> 0 \<le> st \<and> (\<forall>r \<in> set rows. row_fits (fst sh) r) \<and>
        (case snd sh of None \<Rightarrow> True | Some n \<Rightarrow> 0 < n \<and> length rows \<le> n)"
    and app_ok: "holds s sh st rows \<Longrightarrow> row_fits (fst sh) r \<Longrightarrow> row_room sh st (length rows) 1 \<Longrightarrow>
        \<exists>s'. app s (fst r) (snd r) = (Inr (), s') \<and> holds s' sh (fst (push (snd sh) (st, rows) r)) (snd (push (snd sh) (st, rows) r))"
    and materialize_ok: "holds s sh st rows \<Longrightarrow> materialize s = (concat (map fst rows), concat (map snd rows), st)"
    and restore_ok: "holds s sh st rows \<Longrightarrow> holds s' sh st' rows' \<Longrightarrow> \<exists>s''. restore s' (checkpoint s) = (Inr (), s'') \<and> holds s'' sh st rows"
begin

lemma push_sums: "holds s sh st rows \<Longrightarrow> push (snd sh) (st, rows) r = (st', rows') \<Longrightarrow>
    st' + int (length rows') = st + int (length rows) + 1 \<and> length rows' \<le> Suc (length rows)"
  using shape [of s sh st rows] by (auto simp: push_def split: option.splits if_splits)

lemma append_all_ok:
  assumes "holds s sh st rows" "\<forall>r \<in> set rs. row_fits (fst sh) r" "row_room sh st (length rows) (length rs)"
  shows "\<exists>s'. append_all app rs s = (Inr (), s') \<and> (case foldl (push (snd sh)) (st, rows) rs of (st', rows') \<Rightarrow> holds s' sh st' rows')"
  using assms
proof (induction rs arbitrary: s st rows)
  case (Cons r rs)
  obtain st1 rows1 where p: "push (snd sh) (st, rows) r = (st1, rows1)" by (cases "push (snd sh) (st, rows) r")
  have "row_room sh st (length rows) 1" using Cons.prems(3) by (rule row_room_le) simp_all
  then obtain s1 where s1: "app s (fst r) (snd r) = (Inr (), s1)" "holds s1 sh st1 rows1"
    using app_ok [OF Cons.prems(1), of r] Cons.prems(2) p by auto
  have "length rows1 \<le> Suc (length rows)" "st1 + int (length rows1) = st + int (length rows) + 1"
    using push_sums [OF Cons.prems(1) p] by auto
  then have "row_room sh st1 (length rows1) (length rs)" using Cons.prems(3) by (intro row_room_le [OF Cons.prems(3)]) auto
  from Cons.IH [OF s1(2) _ this] Cons.prems(2) s1(1) p show ?case by auto
qed auto

text \<open>From an empty store, the window is the last rows.\<close>

lemma append_all_new:
  assumes "holds s sh 0 []" "\<forall>r \<in> set rs. row_fits (fst sh) r" "row_room sh 0 0 (length rs)"
  shows "\<exists>s'. append_all app rs s = (Inr (), s') \<and> holds s' sh (window_start (snd sh) rs) (window (snd sh) rs) \<and>
    materialize s' = (concat (map fst (window (snd sh) rs)), concat (map snd (window (snd sh) rs)), window_start (snd sh) rs)"
proof -
  have c: "case snd sh of None \<Rightarrow> True | Some n \<Rightarrow> 0 < n" using shape [OF assms(1)] by (auto split: option.splits)
  have "window (snd sh) [] = ([] :: 'f row list)" "window_start (snd sh) ([] :: 'f row list) = 0"
    by (auto simp: window_def window_start_def split: option.splits)
  then have "foldl (push (snd sh)) (0, []) rs = (window_start (snd sh) rs, window (snd sh) rs)"
    using pushes_window [OF c, of 0 "[]" rs] by simp
  then show ?thesis using append_all_ok [OF assms(1,2)] assms(3) materialize_ok by fastforce
qed

end

end
