(* ===== verification/RingFacts.thy ===== *)
theory RingFacts
  imports RowStoreFacts
begin

text \<open>
  The linear store and the ring fulfil the contract \<open>row_store\<close>. The rows of a ring of capacity
  \<open>cap\<close> lie in the slots \<open>(head + j) mod cap\<close> of its buffers.
\<close>

lemma concat_lengths:
  assumes "\<forall>x \<in> set xs. length x = n"
  shows "length (concat xs) = length xs * n"
  using assms by (induction xs) auto

lemma concat_rows:
  assumes "\<forall>r \<in> set rows. row_fits dm r"
  shows "length (concat (map fst rows)) = length rows * dm" "length (concat (map snd rows)) = length rows * dm"
  using assms by (auto simp: row_fits_def intro!: concat_lengths [where n = dm, THEN trans])

lemma max64: "in_int64 (int n) \<longleftrightarrow> int n \<le> max_int64"
  by (simp add: go_int)

lemma in_int64_max [simp]: "in_int64 max_int64"
  by (simp add: go_int)

lemma AddInt_nat: "int a + int b \<le> max_int64 \<Longrightarrow> AddInt (int a) (int b) = (int (a + b), True)"
  by (subst AddInt_spec) (auto simp: go_int)

lemma MulInt_nat: "int (a * b) \<le> max_int64 \<Longrightarrow> int a \<le> max_int64 \<Longrightarrow> int b \<le> max_int64 \<Longrightarrow>
    MulInt (int a) (int b) = (int (a * b), True)"
  by (subst MulInt_spec) (auto simp: go_int)

lemma rows_le: "0 < d \<Longrightarrow> int (n * d) \<le> m \<Longrightarrow> int n \<le> m"
proof -
  assume "0 < d" "int (n * d) \<le> m"
  moreover from \<open>0 < d\<close> have "n * 1 \<le> n * d" by (intro mult_le_mono2) simp
  then have "int n \<le> int (n * d)" by (simp only: of_nat_le_iff mult_1_right)
  ultimately show ?thesis by linarith
qed

lemma materialize_parts:
  assumes "length k1 = length v1" "length k2 = length v2" "int (length k1 + length k2) \<le> max_int64"
  shows "materializeView \<lparr>FirstK = k1, FirstV = v1, SecondK = k2, SecondV = v2, StartToken = st\<rparr> = (k1 @ k2, v1 @ v2, st)"
proof (cases "length k1 + length k2 = 0")
  case True
  then show ?thesis using assms AddInt_nat [of "length k1" "length k2"] by (simp add: materializeView_def)
next
  case False
  then have "\<not> int (length k1 + length k2) = 0" by linarith
  then show ?thesis using assms AddInt_nat [of "length k1" "length k2"] by (simp add: materializeView_def)
qed

lemma materialize_empty [simp]: "materializeView (empty_view st) = ([], [], st)"
  using materialize_parts [of "[]" "[]" "[]" "[]" st] by (simp add: empty_view_def max_int64_def)

section \<open>The linear store\<close>

definition linear_holds :: "'f linear_kv option \<Rightarrow> nat \<times> nat option \<Rightarrow> int \<Rightarrow> 'f row list \<Rightarrow> bool" where
  "linear_holds so sh st rows \<longleftrightarrow> snd sh = None \<and> 0 < fst sh \<and> int (fst sh) \<le> max_int64 \<and> 0 \<le> st \<and> (\<forall>r \<in> set rows. row_fits (fst sh) r) \<and>
     int (length rows * fst sh) \<le> max_int64 \<and>
     so = Some \<lparr>li_dim = int (fst sh), li_startToken = st, li_tokens = int (length rows),
       li_k = concat (map fst rows), li_v = concat (map snd rows)\<rparr>"

lemma linear_valid:
  assumes "linear_holds so sh st rows"
  obtains s where "so = Some s" "linear_validateState s = Inr ()" "li_dim s = int (fst sh)" "li_tokens s = int (length rows)"
    "li_startToken s = st" "li_k s = concat (map fst rows)" "li_v s = concat (map snd rows)"
    "length (li_k s) = length rows * fst sh" "length (li_v s) = length rows * fst sh"
proof -
  note h = assms [unfolded linear_holds_def]
  have l: "length (concat (map fst rows)) = length rows * fst sh" "length (concat (map snd rows)) = length rows * fst sh"
    using h by (intro concat_rows; simp)+
  have "int (length rows) \<le> max_int64" using h rows_le [of "fst sh" "length rows"] by blast
  then have "MulInt (int (length rows)) (int (fst sh)) = (int (length rows * fst sh), True)" using h by (intro MulInt_nat) simp_all
  then show thesis using h l by (intro that) (auto simp: linear_validateState_def)
qed

lemma linear_materialize:
  assumes "linear_holds so sh st rows"
  shows "linear_Materialize so = (concat (map fst rows), concat (map snd rows), st)"
proof -
  obtain s where s: "so = Some s" "linear_validateState s = Inr ()" "li_tokens s = int (length rows)" "li_startToken s = st"
      "li_k s = concat (map fst rows)" "li_v s = concat (map snd rows)"
      "length (li_k s) = length rows * fst sh" "length (li_v s) = length rows * fst sh"
    using linear_valid [OF assms] by metis
  have "int (length rows * fst sh) \<le> max_int64" using assms by (simp add: linear_holds_def)
  then show ?thesis using s materialize_parts [of "li_k s" "li_v s" "[]" "[]" st]
    by (cases "rows = []") (simp_all add: linear_Materialize_def linear_View_def empty_view_def del: of_nat_mult)
qed

lemma not_nil:
  assumes "rows \<noteq> []" "\<forall>r \<in> set rows. row_fits dm r" "0 < dm"
  shows "concat (map fst rows) \<noteq> []" "concat (map snd rows) \<noteq> []"
  using concat_rows [OF assms(2)] assms(1,3) by (metis length_0_conv mult_is_0 neq0_conv)+

lemma linear_checkpoint:
  assumes "linear_holds so sh st rows"
  shows "linear_Checkpoint so = \<lparr>sc_valid = True, sc_dim = int (fst sh), sc_capacity = 0, sc_startToken = st, sc_tokens = int (length rows),
      sc_k = concat (map fst rows), sc_v = concat (map snd rows)\<rparr>"
proof -
  obtain s where s: "so = Some s" "li_dim s = int (fst sh)" "li_tokens s = int (length rows)" using linear_valid [OF assms] by metis
  have "rows \<noteq> [] \<Longrightarrow> concat (map fst rows) \<noteq> [] \<and> concat (map snd rows) \<noteq> []"
    using not_nil [of rows "fst sh"] assms by (simp add: linear_holds_def)
  then show ?thesis using s linear_materialize [OF assms] by (auto simp: linear_Checkpoint_def)
qed

text \<open>Checkpoints of the window of a store are valid.\<close>

lemma checkpoint_valid:
  assumes "\<forall>r \<in> set rows. row_fits dm r" "0 < dm" "int dm \<le> max_int64" "0 \<le> st" "int (length rows * dm) \<le> max_int64"
    and "0 \<le> cap" "cap \<noteq> 0 \<longrightarrow> int (length rows) \<le> cap"
  shows "validateF32KVCheckpoint \<lparr>sc_valid = True, sc_dim = int dm, sc_capacity = cap, sc_startToken = st, sc_tokens = int (length rows),
      sc_k = concat (map fst rows), sc_v = concat (map snd rows)\<rparr> = Inr (int (length rows * dm))"
proof -
  have "MulInt (int (length rows)) (int dm) = (int (length rows * dm), True)"
    using rows_le [OF assms(2,5)] assms by (intro MulInt_nat) simp_all
  then show ?thesis using assms concat_rows [OF assms(1)] by (auto simp: validateF32KVCheckpoint_def)
qed

interpretation lin: row_store linear_holds linear_Append linear_Materialize linear_Checkpoint linear_Restore
proof (unfold_locales, goal_cases)
  case (1 so sh st rows)
  then show ?case by (simp add: linear_holds_def)
next
  case (2 so sh st rows r)
  note h = 2(1) [unfolded linear_holds_def]
  obtain s where s: "so = Some s" "linear_validateState s = Inr ()" "li_dim s = int (fst sh)" "li_tokens s = int (length rows)"
      "length (li_k s) = length rows * fst sh" "length (li_v s) = length rows * fst sh"
    using linear_valid [OF 2(1)] by metis
  have room: "int (length rows * fst sh + fst sh) \<le> max_int64" "int (length rows + 1) \<le> max_int64"
    using 2(3) h by (simp_all add: row_room_def algebra_simps)
  then have "AddInt (int (length rows)) 1 = (int (length rows + 1), True)"
    "AddInt (int (length rows * fst sh)) (int (fst sh)) = (int (length rows * fst sh + fst sh), True)"
    using AddInt_nat [of "length rows" 1] AddInt_nat [of "length rows * fst sh" "fst sh"] by simp_all
  then have "linear_append s (fst r) (snd r) = Inr (s\<lparr>li_k := li_k s @ fst r, li_v := li_v s @ snd r, li_tokens := li_tokens s + 1\<rparr>)"
    using s h 2(2) by (simp add: linear_append_def row_fits_def)
  then have "linear_Append so (fst r) (snd r) = (Inr (), Some (s\<lparr>li_k := li_k s @ fst r, li_v := li_v s @ snd r, li_tokens := li_tokens s + 1\<rparr>))"
    using s(1) by (simp add: linear_Append_def on_pointer_def keep_on_error_def)
  moreover have "linear_holds (Some (s\<lparr>li_k := li_k s @ fst r, li_v := li_v s @ snd r, li_tokens := li_tokens s + 1\<rparr>)) sh st (rows @ [r])"
  proof -
    have "int (length (rows @ [r]) * fst sh) \<le> max_int64" using room(1) by (simp add: add.commute)
    moreover have "s = \<lparr>li_dim = int (fst sh), li_startToken = st, li_tokens = int (length rows), li_k = concat (map fst rows), li_v = concat (map snd rows)\<rparr>"
      using s(1) h by simp
    then have "s\<lparr>li_k := li_k s @ fst r, li_v := li_v s @ snd r, li_tokens := li_tokens s + 1\<rparr> = \<lparr>li_dim = int (fst sh), li_startToken = st,
        li_tokens = int (length (rows @ [r])), li_k = concat (map fst (rows @ [r])), li_v = concat (map snd (rows @ [r]))\<rparr>" by simp
    moreover have "\<forall>x \<in> set (rows @ [r]). row_fits (fst sh) x" using h 2(2) by simp
    ultimately show ?thesis using h unfolding linear_holds_def by blast
  qed
  ultimately show ?case using h by (simp add: push_def)
next
  case (3 so sh st rows)
  then show ?case by (rule linear_materialize)
next
  case (4 so sh st rows so' st' rows')
  note h = 4(1) [unfolded linear_holds_def]
  define cp where "cp = linear_Checkpoint so"
  have cp: "cp = \<lparr>sc_valid = True, sc_dim = int (fst sh), sc_capacity = 0, sc_startToken = st, sc_tokens = int (length rows),
      sc_k = concat (map fst rows), sc_v = concat (map snd rows)\<rparr>" using linear_checkpoint [OF 4(1)] by (simp add: cp_def)
  have "validateF32KVCheckpoint cp = Inr (int (length rows * fst sh))" unfolding cp by (rule checkpoint_valid) (use h in simp_all)
  moreover have "so' = Some \<lparr>li_dim = int (fst sh), li_startToken = st', li_tokens = int (length rows'), li_k = concat (map fst rows'), li_v = concat (map snd rows')\<rparr>"
    using 4(2) by (simp add: linear_holds_def)
  ultimately have "linear_Restore so' cp = (Inr (), so)" using h by (simp add: linear_Restore_def on_pointer_def keep_on_error_def linear_restore_def cp)
  then show ?case using 4(1) by (simp add: cp_def)
qed

section \<open>Slots\<close>

definition slot :: "nat \<Rightarrow> 'f list \<Rightarrow> nat \<Rightarrow> 'f list" where
  "slot dm buf i = take dm (drop (i * dm) buf)"

lemma take_slots: "take (n * dm) (drop (a * dm) buf) = concat (map (slot dm buf) [a..<a + n])"
proof (induction n)
  case (Suc n)
  have "take (Suc n * dm) (drop (a * dm) buf) = take (n * dm) (drop (a * dm) buf) @ take dm (drop (n * dm) (drop (a * dm) buf))"
    by (simp add: take_add add.commute [of dm])
  then show ?case using Suc by (simp add: slot_def algebra_simps)
qed simp

lemma slot_end:
  fixes i cap dm :: nat
  assumes "i < cap"
  shows "i * dm + dm \<le> cap * dm"
proof -
  from assms have "Suc i * dm \<le> cap * dm" by (intro mult_right_mono) simp_all
  then show ?thesis by simp
qed

lemma length_slot: "i < cap \<Longrightarrow> length buf = cap * dm \<Longrightarrow> length (slot dm buf i) = dm"
  using slot_end [of i cap dm] by (simp add: slot_def)

lemma rowSlice_rows:
  assumes "(a + n) * dm \<le> length buf" "0 < n" "int (length buf) \<le> max_int64" "0 < dm"
  shows "rowSlice buf (int dm) (int a) (int n) = Some (concat (map (slot dm buf) [a..<a + n]))"
proof -
  have l: "a * dm + n * dm \<le> length buf" using assms(1) by (simp add: algebra_simps)
  then have b: "int (a * dm + n * dm) \<le> max_int64" "int (a * dm) \<le> max_int64" "int (n * dm) \<le> max_int64" using assms(3) by linarith+
  have "1 * dm \<le> n * dm" using assms(2) by (intro mult_right_mono) simp_all
  then have "int dm \<le> max_int64" using b(3) by linarith
  moreover have "int a \<le> max_int64" "int n \<le> max_int64" using rows_le [OF assms(4)] b by blast+
  ultimately have "MulInt (int a) (int dm) = (int (a * dm), True)" "MulInt (int n) (int dm) = (int (n * dm), True)"
    "AddInt (int (a * dm)) (int (n * dm)) = (int (a * dm + n * dm), True)"
    using b AddInt_nat [of "a * dm" "n * dm"] by (simp_all add: MulInt_nat del: of_nat_mult)
  moreover have "nat (int (a * dm + n * dm) - int (a * dm)) = n * dm" by (metis add_diff_cancel_left' nat_int of_nat_add)
  moreover have "\<not> int (length buf) < int (a * dm + n * dm)" using l by linarith
  ultimately show ?thesis using assms(2) take_slots [of n dm a buf] by (simp add: rowSlice_def del: of_nat_mult of_nat_add)
qed

lemma take_before:
  assumes "p + d \<le> q" "q \<le> length buf"
  shows "take d (drop p (take q buf @ xs)) = take d (drop p buf)"
proof -
  have "p \<le> q" "d \<le> q - p" "p \<le> length buf" "d \<le> length buf - p" using assms by linarith+
  then show ?thesis using assms(2) by (simp add: drop_take)
qed

lemma slot_copy:
  assumes "length buf = cap * dm" "i < cap" "j < cap" "length k = dm"
  shows "slot dm (copy_window buf (i * dm) dm k) j = (if j = i then k else slot dm buf j)"
proof -
  have c: "copy_window buf (i * dm) dm k = take (i * dm) buf @ k @ drop (i * dm + dm) buf" using assms(4) by (simp add: copy_window_def)
  have i: "i * dm + dm \<le> length buf" using assms(1) slot_end [OF assms(2)] by simp
  consider "j < i" | "j = i" | "i < j" by linarith
  then show ?thesis
  proof cases
    case 1
    then have "j * dm + dm \<le> i * dm" by (rule slot_end)
    then show ?thesis using 1 i take_before [of "j * dm" dm "i * dm" buf] by (simp add: c slot_def)
  next
    case 2
    then show ?thesis using i assms(4) by (simp add: c slot_def)
  next
    case 3
    then have "i * dm + dm \<le> j * dm" by (rule slot_end)
    then have "drop (j * dm) (take (i * dm) buf @ k @ drop (i * dm + dm) buf) = drop (j * dm) buf" using i assms(4) 3 by simp
    then show ?thesis using 3 by (simp add: c slot_def)
  qed
qed

lemma length_copy_window: "start + len \<le> length buf \<Longrightarrow> length (copy_window buf start len src) = length buf"
  by (simp add: copy_window_def Let_def)

section \<open>The ring\<close>

definition ring_index :: "nat \<Rightarrow> nat \<Rightarrow> nat \<Rightarrow> nat" where
  "ring_index cap h j = (if h + j < cap then h + j else h + j - cap)"

lemma ring_index_less: "h < cap \<Longrightarrow> j < cap \<Longrightarrow> ring_index cap h j < cap"
  by (auto simp: ring_index_def)

lemma ring_index_inj: "h < cap \<Longrightarrow> i < cap \<Longrightarrow> j < cap \<Longrightarrow> ring_index cap h i = ring_index cap h j \<longleftrightarrow> i = j"
  by (auto simp: ring_index_def split: if_splits)

lemma ring_indices:
  assumes "h < cap" "n \<le> cap" "\<not> h + n \<le> cap"
  shows "map (ring_index cap h) [0..<n] = [h..<cap] @ [0..<n - (cap - h)]"
  by (rule nth_equalityI) (use assms in \<open>auto simp: ring_index_def nth_append\<close>)

text \<open>Row \<open>j\<close> of the window lies in slot \<open>ring_index cap head j\<close> of both buffers.\<close>

definition slots_hold :: "nat \<Rightarrow> nat \<Rightarrow> 'f list \<Rightarrow> 'f list \<Rightarrow> nat \<Rightarrow> 'f row list \<Rightarrow> bool" where
  "slots_hold dm cap k v h rows \<longleftrightarrow> length k = cap * dm \<and> length v = cap * dm \<and> h < cap \<and> length rows \<le> cap \<and>
     (\<forall>j < length rows. rows ! j = (slot dm k (ring_index cap h j), slot dm v (ring_index cap h j)))"

definition ring_holds :: "'f ring_kv option \<Rightarrow> nat \<times> nat option \<Rightarrow> int \<Rightarrow> 'f row list \<Rightarrow> bool" where
  "ring_holds so sh st rows \<longleftrightarrow> (\<exists>s cap h. so = Some s \<and> snd sh = Some cap \<and> 0 < fst sh \<and> 0 < cap \<and> int (cap * fst sh) \<le> max_int64 \<and>
     int (2 * cap) \<le> max_int64 \<and> 0 \<le> st \<and> slots_hold (fst sh) cap (ri_k s) (ri_v s) h rows \<and>
     ri_dim s = int (fst sh) \<and> ri_capacity s = int cap \<and> ri_startToken s = st \<and> ri_tokens s = int (length rows) \<and> ri_head s = int h)"

lemma slots_rows:
  assumes "slots_hold dm cap k v h rows"
  shows "map fst rows = map (\<lambda>j. slot dm k (ring_index cap h j)) [0..<length rows]"
    "map snd rows = map (\<lambda>j. slot dm v (ring_index cap h j)) [0..<length rows]" "\<forall>r \<in> set rows. row_fits dm r"
proof -
  note h = assms [unfolded slots_hold_def]
  show "map fst rows = map (\<lambda>j. slot dm k (ring_index cap h j)) [0..<length rows]"
    "map snd rows = map (\<lambda>j. slot dm v (ring_index cap h j)) [0..<length rows]"
    by (rule nth_equalityI; use h in simp)+
  show "\<forall>r \<in> set rows. row_fits dm r"
  proof
    fix r assume "r \<in> set rows"
    then obtain j where "j < length rows" "r = rows ! j" by (metis in_set_conv_nth)
    then show "row_fits dm r" using h ring_index_less [of h cap j]
      by (auto simp: row_fits_def intro: length_slot)
  qed
qed

text \<open>What the proofs about a ring start from.\<close>

lemma ring_facts:
  assumes "ring_holds so sh st rows"
  obtains s cap h where "so = Some s" "snd sh = Some cap" "0 < fst sh" "0 < cap" "int (cap * fst sh) \<le> max_int64" "int (2 * cap) \<le> max_int64"
    "0 \<le> st" "slots_hold (fst sh) cap (ri_k s) (ri_v s) h rows" "ri_dim s = int (fst sh)" "ri_capacity s = int cap" "ri_startToken s = st"
    "ri_tokens s = int (length rows)" "ri_head s = int h" "ring_validateState s = Inr ()" "ring_validateStorage s = Inr ()"
    "h < cap" "length rows \<le> cap" "length (ri_k s) = cap * fst sh" "length (ri_v s) = cap * fst sh"
proof -
  from assms obtain s cap h where s: "so = Some s" "snd sh = Some cap" "0 < fst sh" "0 < cap" "int (cap * fst sh) \<le> max_int64" "int (2 * cap) \<le> max_int64"
    "0 \<le> st" "slots_hold (fst sh) cap (ri_k s) (ri_v s) h rows" "ri_dim s = int (fst sh)" "ri_capacity s = int cap" "ri_startToken s = st"
    "ri_tokens s = int (length rows)" "ri_head s = int h" by (auto simp: ring_holds_def)
  have l: "h < cap" "length rows \<le> cap" "length (ri_k s) = cap * fst sh" "length (ri_v s) = cap * fst sh" using s(8) by (simp_all add: slots_hold_def)
  have "1 * fst sh \<le> cap * fst sh" using s(4) by (intro mult_right_mono) simp_all
  then have "int (fst sh) \<le> max_int64" "int cap \<le> max_int64" using s(5,6) by linarith+
  then have "MulInt (int cap) (int (fst sh)) = (int (cap * fst sh), True)" using s(5) by (intro MulInt_nat)
  then have "ring_validateStorage s = Inr ()" using s l by (simp add: ring_validateStorage_def del: of_nat_mult)
  moreover from this have "ring_validateState s = Inr ()" using s l by (simp add: ring_validateState_def)
  ultimately show thesis using that s l by blast
qed

lemma ring_materialize:
  assumes "ring_holds so sh st rows"
  shows "ring_Materialize so = (concat (map fst rows), concat (map snd rows), st)"
proof -
  from assms obtain s cap h where s: "so = Some s" "snd sh = Some cap" "0 < fst sh" "0 < cap" "int (cap * fst sh) \<le> max_int64" "int (2 * cap) \<le> max_int64"
    "slots_hold (fst sh) cap (ri_k s) (ri_v s) h rows" "ri_dim s = int (fst sh)" "ri_capacity s = int cap" "ri_startToken s = st"
    "ri_tokens s = int (length rows)" "ri_head s = int h" "ring_validateState s = Inr ()"
    "h < cap" "length rows \<le> cap" "length (ri_k s) = cap * fst sh" "length (ri_v s) = cap * fst sh" by (rule ring_facts)
  note R = slots_rows [OF s(7)]
  let ?n = "length rows" and ?d = "fst sh"
  have sum_rows: "AddInt (int h) (int ?n) = (int (h + ?n), True)" using s(6,14,15) by (intro AddInt_nat) linarith
  have C: "length (concat (map fst rows)) = ?n * ?d" "length (concat (map snd rows)) = ?n * ?d" using concat_rows [OF R(3)] .
  have "?n * ?d \<le> cap * ?d" using s(15) by (intro mult_right_mono) simp_all
  then have small: "int (?n * ?d) \<le> max_int64" using s(5) by linarith
  show ?thesis
  proof (cases "rows = []")
    case True
    then show ?thesis using s by (simp add: ring_Materialize_def ring_View_def Let_def)
  next
    case ne: False
    show ?thesis
    proof (cases "h + ?n \<le> cap")
      case True
      have f: "map (\<lambda>j. slot ?d buf (ring_index cap h j)) [0..<?n] = map (slot ?d buf) [h..<h + ?n]" for buf :: "'a list"
        by (rule nth_equalityI) (use True in \<open>auto simp: ring_index_def intro: arg_cong [of _ _ "slot _ _"]\<close>)
      have "(h + ?n) * ?d \<le> cap * ?d" using True by (intro mult_right_mono) simp_all
      then have "rowSlice (ri_k s) (int ?d) (int h) (int ?n) = Some (concat (map fst rows))" "rowSlice (ri_v s) (int ?d) (int h) (int ?n) = Some (concat (map snd rows))"
        using rowSlice_rows [of h ?n ?d "ri_k s"] rowSlice_rows [of h ?n ?d "ri_v s"] s(3,5,16,17) ne R(1,2) f by (simp_all del: of_nat_mult)
      then have "ring_View (Some s) = \<lparr>FirstK = concat (map fst rows), FirstV = concat (map snd rows), SecondK = [], SecondV = [], StartToken = st\<rparr>"
        using s True ne sum_rows by (simp add: ring_View_def Let_def empty_view_def)
      then show ?thesis using s(1) materialize_parts [of "concat (map fst rows)" "concat (map snd rows)" "[]" "[]" st] C small
        by (simp add: ring_Materialize_def del: of_nat_mult)
    next
      case False
      let ?a = "cap - h" and ?b = "?n - (cap - h)"
      have f: "map (\<lambda>j. slot ?d buf (ring_index cap h j)) [0..<?n] = map (slot ?d buf) [h..<cap] @ map (slot ?d buf) [0..<?b]" for buf :: "'a list"
      proof -
        have "map (slot ?d buf) (map (ring_index cap h) [0..<?n]) = map (slot ?d buf) ([h..<cap] @ [0..<?b])"
          by (simp only: ring_indices [OF s(14,15) False])
        then show ?thesis by (simp add: comp_def)
      qed
      have i: "int cap - int h = int ?a" "int ?n - int ?a = int ?b" using s(14) False by linarith+
      have "?b * ?d \<le> cap * ?d" using s(15) by (intro mult_right_mono) simp_all
      then have sl: "rowSlice buf (int ?d) (int h) (int ?a) = Some (concat (map (slot ?d buf) [h..<cap]))"
        "rowSlice buf (int ?d) 0 (int ?b) = Some (concat (map (slot ?d buf) [0..<?b]))" if "length buf = cap * ?d" for buf :: "'a list"
        using rowSlice_rows [of h ?a ?d buf] rowSlice_rows [of 0 ?b ?d buf] s(3,5,14) False that by (simp_all del: of_nat_mult)
      then have V: "ring_View (Some s) = \<lparr>FirstK = concat (map (slot ?d (ri_k s)) [h..<cap]), FirstV = concat (map (slot ?d (ri_v s)) [h..<cap]),
          SecondK = concat (map (slot ?d (ri_k s)) [0..<?b]), SecondV = concat (map (slot ?d (ri_v s)) [0..<?b]), StartToken = st\<rparr>"
        using s(8-13) sl [OF s(16)] sl [OF s(17)] False ne sum_rows i by (simp add: ring_View_def Let_def empty_view_def del: of_nat_diff)
      have ls: "length (concat (map (slot ?d buf) is)) = length is * ?d" if "length buf = cap * ?d" "\<forall>i \<in> set is. i < cap" for buf :: "'a list" and "is"
        using that length_slot [of _ cap buf ?d] by (intro concat_lengths [where n = ?d, THEN trans]) auto
      have "?a + ?b = ?n" using s(14) False by linarith
      then have "?a * ?d + ?b * ?d = ?n * ?d" by (metis add_mult_distrib)
      then have "materializeView (ring_View (Some s)) = (concat (map (slot ?d (ri_k s)) [h..<cap]) @ concat (map (slot ?d (ri_k s)) [0..<?b]),
          concat (map (slot ?d (ri_v s)) [h..<cap]) @ concat (map (slot ?d (ri_v s)) [0..<?b]), st)"
        unfolding V
      proof (intro materialize_parts)
        have L: "length (concat (map (slot ?d buf) [h..<cap])) = ?a * ?d" "length (concat (map (slot ?d buf) [0..<?b])) = ?b * ?d"
          if "length buf = cap * ?d" for buf :: "'a list"
        proof -
          have b: "\<forall>i \<in> set [0..<?b]. i < cap" by (intro ballI) (use s(15) in \<open>simp; linarith\<close>)
          show "length (concat (map (slot ?d buf) [h..<cap])) = ?a * ?d" using ls [OF that, of "[h..<cap]"] by simp
          show "length (concat (map (slot ?d buf) [0..<?b])) = ?b * ?d" using ls [OF that b] by simp
        qed
        show "length (concat (map (slot ?d (ri_k s)) [h..<cap])) = length (concat (map (slot ?d (ri_v s)) [h..<cap]))"
          "length (concat (map (slot ?d (ri_k s)) [0..<?b])) = length (concat (map (slot ?d (ri_v s)) [0..<?b]))"
          by (simp_all only: L [OF s(16)] L [OF s(17)])
        show "int (length (concat (map (slot ?d (ri_k s)) [h..<cap])) + length (concat (map (slot ?d (ri_k s)) [0..<?b]))) \<le> max_int64"
          using \<open>?a * ?d + ?b * ?d = ?n * ?d\<close> small by (simp only: L [OF s(16)])
      qed
      then show ?thesis using s(1) R(1,2) f by (simp add: ring_Materialize_def)
    qed
  qed
qed

lemma copyRow_ok:
  assumes "length (ri_k s) = cap * d" "length (ri_v s) = cap * d" "int (cap * d) \<le> max_int64" "0 < d" "i < cap" "ri_dim s = int d"
  shows "copyRow s (int i) k v = Inr (s\<lparr>ri_k := copy_window (ri_k s) (i * d) d k, ri_v := copy_window (ri_v s) (i * d) d v\<rparr>)"
proof -
  have "(i + 1) * d \<le> cap * d" using assms(5) by (intro mult_right_mono) simp_all
  then have "rowSlice buf (int d) (int i) 1 = Some (slot d buf i)" if "length buf = cap * d" for buf :: "'a list"
    using rowSlice_rows [of i 1 d buf] assms(3,4) that by simp
  moreover have "nat (int i * int d) = i * d" by (metis nat_int of_nat_mult)
  ultimately show ?thesis using assms length_slot [OF assms(5,1)] length_slot [OF assms(5,2)] by (simp add: copyRow_def)
qed

lemma slots_push:
  assumes "slots_hold d cap k v h rows" "length rows < cap" "row_fits d r"
  shows "slots_hold d cap (copy_window k (ring_index cap h (length rows) * d) d (fst r)) (copy_window v (ring_index cap h (length rows) * d) d (snd r)) h (rows @ [r])"
proof -
  note H = assms(1) [unfolded slots_hold_def]
  let ?i = "ring_index cap h (length rows)"
  have i: "?i < cap" using H assms(2) by (simp add: ring_index_less)
  then have l: "?i * d + d \<le> cap * d" by (rule slot_end)
  have "slot d (copy_window buf (?i * d) d x) (ring_index cap h j) = (if j = length rows then x else slot d buf (ring_index cap h j))"
    if "length buf = cap * d" "length x = d" "j \<le> length rows" for buf x :: "'a list" and j
    using slot_copy [OF that(1) i ring_index_less that(2), of h j] ring_index_inj [of h cap j "length rows"] H assms(2) that(3) by simp
  then show ?thesis using H l assms(2,3) by (auto simp: slots_hold_def length_copy_window nth_append row_fits_def less_Suc_eq)
qed

lemma slots_turn:
  assumes "slots_hold d cap k v h rows" "length rows = cap" "row_fits d r" "h' = (if h + 1 = cap then 0 else h + 1)"
  shows "slots_hold d cap (copy_window k (h * d) d (fst r)) (copy_window v (h * d) d (snd r)) h' (tl rows @ [r])"
proof -
  note H = assms(1) [unfolded slots_hold_def]
  have h: "h < cap" using H by simp
  then have l: "h * d + d \<le> cap * d" by (rule slot_end)
  have sl: "slot d (copy_window buf (h * d) d x) (ring_index cap h' j) = (if j = cap - 1 then x else slot d buf (ring_index cap h (Suc j)))"
    if "length buf = cap * d" "length x = d" "j < cap" for buf x :: "'a list" and j
  proof -
    have i: "ring_index cap h' j = (if j = cap - 1 then h else ring_index cap h (Suc j))" "j \<noteq> cap - 1 \<Longrightarrow> ring_index cap h (Suc j) \<noteq> h"
      using h that(3) assms(4) by (auto simp: ring_index_def)
    have "ring_index cap h' j < cap" using h that(3) assms(4) by (intro ring_index_less) auto
    from slot_copy [OF that(1) h this that(2)] i show ?thesis by auto
  qed
  have "(tl rows @ [r]) ! j = (if j = cap - 1 then r else rows ! Suc j)" if "j < cap" for j
    using that assms(2) by (auto simp: nth_append nth_tl)
  then show ?thesis using H l assms sl h by (auto simp: slots_hold_def length_copy_window row_fits_def)
qed

lemma ring_append_holds:
  assumes "ring_holds so sh st rows" "row_fits (fst sh) r" "row_room sh st (length rows) 1"
  shows "\<exists>so'. ring_Append so (fst r) (snd r) = (Inr (), so') \<and> ring_holds so' sh (fst (push (snd sh) (st, rows) r)) (snd (push (snd sh) (st, rows) r))"
proof -
  from assms(1) obtain s cap h where s: "so = Some s" "snd sh = Some cap" "0 < fst sh" "0 < cap" "int (cap * fst sh) \<le> max_int64" "int (2 * cap) \<le> max_int64"
    "0 \<le> st" "slots_hold (fst sh) cap (ri_k s) (ri_v s) h rows" "ri_dim s = int (fst sh)" "ri_capacity s = int cap" "ri_startToken s = st"
    "ri_tokens s = int (length rows)" "ri_head s = int h" "ring_validateState s = Inr ()"
    "h < cap" "length rows \<le> cap" "length (ri_k s) = cap * fst sh" "length (ri_v s) = cap * fst sh" by (rule ring_facts)
  let ?d = "fst sh" and ?n = "length rows"
  let ?put = "\<lambda>i. s\<lparr>ri_k := copy_window (ri_k s) (i * ?d) ?d (fst r), ri_v := copy_window (ri_v s) (i * ?d) ?d (snd r)\<rparr>"
  have put: "copyRow s (int i) (fst r) (snd r) = Inr (?put i)" if "i < cap" for i by (rule copyRow_ok [OF s(17,18,5,3) that s(9)])
  show ?thesis
  proof (cases "?n < cap")
    case True
    have "AddInt (int h) (int ?n) = (int (h + ?n), True)" using s(6,15,16) by (intro AddInt_nat) linarith
    moreover have "copyRow s (if int (h + ?n) \<ge> ri_capacity s then int (h + ?n) - ri_capacity s else int (h + ?n)) (fst r) (snd r) = Inr (?put (ring_index cap h ?n))"
    proof -
      have i: "(if int (h + ?n) \<ge> ri_capacity s then int (h + ?n) - ri_capacity s else int (h + ?n)) = int (ring_index cap h ?n)"
        unfolding s(10) by (auto simp: ring_index_def)
      have "ring_index cap h ?n < cap" using True s(15) by (simp add: ring_index_less)
      then show ?thesis unfolding i by (rule put)
    qed
    ultimately have "ring_append s (fst r) (snd r) = Inr ((?put (ring_index cap h ?n))\<lparr>ri_tokens := ri_tokens s + 1\<rparr>)"
      using s True assms(2) unfolding ring_append_def Let_def by (simp add: row_fits_def del: of_nat_add split del: if_split)
    moreover have "ring_holds (Some ((?put (ring_index cap h ?n))\<lparr>ri_tokens := ri_tokens s + 1\<rparr>)) sh st (rows @ [r])"
      unfolding ring_holds_def using s True slots_push [OF s(8) True assms(2)] by (intro exI [of _ "(?put (ring_index cap h ?n))\<lparr>ri_tokens := ri_tokens s + 1\<rparr>"] exI [of _ cap] exI [of _ h]) simp
    ultimately show ?thesis using s(1,2) True by (simp add: ring_Append_def on_pointer_def keep_on_error_def push_def)
  next
    case False
    then have full: "?n = cap" using s(16) by simp
    define h' where "h' = (if h + 1 = cap then 0 else h + 1)"
    have "st + 1 \<le> max_int64" using assms(3) by (simp add: row_room_def)
    then have "AddInt st 1 = (st + 1, True)" using AddInt_nat [of "nat st" 1] s(7) by simp
    moreover have "(if int h + 1 = int cap then 0 else int h + 1) = int h'" by (auto simp: h'_def)
    ultimately have "ring_append s (fst r) (snd r) = Inr ((?put h)\<lparr>ri_head := int h', ri_startToken := st + 1\<rparr>)"
      using s full assms(2) put by (cases "h + 1 = cap") (auto simp: ring_append_def row_fits_def Let_def h'_def)
    moreover have "ring_holds (Some ((?put h)\<lparr>ri_head := int h', ri_startToken := st + 1\<rparr>)) sh (st + 1) (tl rows @ [r])"
      unfolding ring_holds_def using s full slots_turn [OF s(8) full assms(2) h'_def] by (intro exI [of _ "(?put h)\<lparr>ri_head := int h', ri_startToken := st + 1\<rparr>"] exI [of _ cap] exI [of _ h']) simp
    ultimately show ?thesis using s(1,2) False by (simp add: ring_Append_def on_pointer_def keep_on_error_def push_def)
  qed
qed

section \<open>Checkpoints of the ring\<close>

lemma ring_checkpoint:
  assumes "ring_holds so sh st rows" "snd sh = Some cap"
  shows "ring_Checkpoint so = \<lparr>sc_valid = True, sc_dim = int (fst sh), sc_capacity = int cap, sc_startToken = st, sc_tokens = int (length rows),
      sc_k = concat (map fst rows), sc_v = concat (map snd rows)\<rparr>"
proof -
  obtain s cap' h where s: "so = Some s" "snd sh = Some cap'" "0 < fst sh" "slots_hold (fst sh) cap' (ri_k s) (ri_v s) h rows"
      "ri_dim s = int (fst sh)" "ri_capacity s = int cap'" "ri_tokens s = int (length rows)"
    using assms(1) by (rule ring_facts)
  have "rows \<noteq> [] \<Longrightarrow> concat (map fst rows) \<noteq> [] \<and> concat (map snd rows) \<noteq> []"
    using not_nil [OF _ slots_rows(3) [OF s(4)] s(3)] by simp
  then show ?thesis using s ring_materialize [OF assms(1)] assms(2) by (auto simp: ring_Checkpoint_def)
qed

lemma slots_restored:
  assumes "length k = cap * d" "length v = cap * d" "0 < cap" "length rows \<le> cap" "\<forall>r \<in> set rows. row_fits d r"
  shows "slots_hold d cap (copy_window k 0 (length rows * d) (concat (map fst rows))) (copy_window v 0 (length rows * d) (concat (map snd rows))) 0 rows"
proof -
  have n: "length rows * d \<le> cap * d" using assms(4) by (intro mult_right_mono) simp_all
  have sl: "slot d (copy_window buf 0 (length rows * d) (concat (map f rows))) j = f (rows ! j)"
    if "length buf = cap * d" "\<forall>r \<in> set rows. length (f r) = d" "j < length rows" for buf :: "'a list" and f j
  proof -
    have l: "length (concat (map f rows)) = length rows * d" using that(2) by (intro concat_lengths [where n = d, THEN trans]) auto
    have split: "concat (map f rows) = concat (map f (take j rows)) @ f (rows ! j) @ concat (map f (drop (Suc j) rows))"
      using id_take_nth_drop [OF that(3)] by (metis concat.simps(2) concat_append list.simps(9) map_append)
    have "length (concat (map f (take j rows))) = length (take j rows) * d" using that(2) by (intro concat_lengths [where n = d, THEN trans]) (auto dest: in_set_takeD)
    moreover have "length (f (rows ! j)) = d" using that(2,3) by simp
    ultimately have t: "take d (drop (j * d) (concat (map f rows) @ zs)) = f (rows ! j)" for zs unfolding split using that(3) by simp
    have "copy_window buf 0 (length rows * d) (concat (map f rows)) = concat (map f rows) @ drop (length rows * d) buf"
      using l by (simp add: copy_window_def)
    then show ?thesis using t by (simp only: slot_def)
  qed
  have "ring_index cap 0 j = j" if "j < length rows" for j using that assms(4) by (simp add: ring_index_def)
  moreover have "\<forall>r \<in> set rows. length (fst r) = d" "\<forall>r \<in> set rows. length (snd r) = d" using assms(5) by (simp_all add: row_fits_def)
  ultimately have "rows ! j = (slot d (copy_window k 0 (length rows * d) (concat (map fst rows))) (ring_index cap 0 j),
      slot d (copy_window v 0 (length rows * d) (concat (map snd rows))) (ring_index cap 0 j))" if "j < length rows" for j
    using sl [OF assms(1) _ that, of fst] sl [OF assms(2) _ that, of snd] that by simp
  then show ?thesis using assms(1-4) n by (simp add: slots_hold_def length_copy_window)
qed

lemma ring_restore_holds:
  assumes "ring_holds so sh st rows" "ring_holds so' sh st' rows'"
  shows "\<exists>so''. ring_Restore so' (ring_Checkpoint so) = (Inr (), so'') \<and> ring_holds so'' sh st rows"
proof -
  from assms(2) obtain s cap h where s: "so' = Some s" "snd sh = Some cap" "0 < fst sh" "0 < cap" "int (cap * fst sh) \<le> max_int64" "int (2 * cap) \<le> max_int64"
    "ri_dim s = int (fst sh)" "ri_capacity s = int cap" "ring_validateStorage s = Inr ()" "length (ri_k s) = cap * fst sh" "length (ri_v s) = cap * fst sh"
    by (rule ring_facts)
  from assms(1) obtain s0 cap0 h0 where s0': "so = Some s0" "snd sh = Some cap0" "0 \<le> st" "slots_hold (fst sh) cap0 (ri_k s0) (ri_v s0) h0 rows" "length rows \<le> cap0"
    by (rule ring_facts)
  then have s0: "0 \<le> st" "slots_hold (fst sh) cap (ri_k s0) (ri_v s0) h0 rows" "length rows \<le> cap" using s(2) by simp_all
  note R = slots_rows(3) [OF s0(2)]
  define cp where "cp = ring_Checkpoint so"
  have cp: "cp = \<lparr>sc_valid = True, sc_dim = int (fst sh), sc_capacity = int cap, sc_startToken = st, sc_tokens = int (length rows),
      sc_k = concat (map fst rows), sc_v = concat (map snd rows)\<rparr>" using ring_checkpoint [OF assms(1) s(2)] by (simp add: cp_def)
  have "length rows * fst sh \<le> cap * fst sh" using s0(3) by (intro mult_right_mono) simp_all
  moreover have "1 * fst sh \<le> cap * fst sh" using s(4) by (intro mult_right_mono) simp_all
  ultimately have b: "int (length rows * fst sh) \<le> max_int64" "int (fst sh) \<le> max_int64" using s(5) by linarith+
  have v: "validateF32KVCheckpoint cp = Inr (int (length rows * fst sh))"
    unfolding cp by (rule checkpoint_valid) (use R s s0 b in auto)
  let ?s1 = "s\<lparr>ri_k := copy_window (ri_k s) 0 (length rows * fst sh) (concat (map fst rows)), ri_v := copy_window (ri_v s) 0 (length rows * fst sh) (concat (map snd rows))\<rparr>"
  have s1: "rows = [] \<Longrightarrow> ?s1 = s" by (simp add: copy_window_def)
  have "ring_restore cp s = Inr (?s1\<lparr>ri_tokens := int (length rows), ri_head := 0, ri_startToken := st\<rparr>)"
  proof (cases "rows = []")
    case True
    then show ?thesis using s s0(3) v s1 by (simp add: ring_restore_def cp)
  next
    case False
    then have "nat (int (length rows * fst sh)) = length rows * fst sh" "0 < int (length rows * fst sh)" using s(3) by (simp_all only: nat_int of_nat_0_less_iff) simp
    then show ?thesis using s s0(3) v by (simp add: ring_restore_def cp Let_def del: of_nat_mult nat_int)
  qed
  moreover have "ring_holds (Some (?s1\<lparr>ri_tokens := int (length rows), ri_head := 0, ri_startToken := st\<rparr>)) sh st rows"
    unfolding ring_holds_def using s s0(1) slots_restored [OF s(10,11,4) s0(3) R]
    by (intro exI [of _ "?s1\<lparr>ri_tokens := int (length rows), ri_head := 0, ri_startToken := st\<rparr>"] exI [of _ cap] exI [of _ 0]) simp
  ultimately show ?thesis using s(1) by (simp add: ring_Restore_def on_pointer_def keep_on_error_def cp_def)
qed

interpretation ring: row_store ring_holds ring_Append ring_Materialize ring_Checkpoint ring_Restore
proof (unfold_locales, goal_cases)
  case (1 so sh st rows)
  then obtain s cap h where "so = Some s" "snd sh = Some cap" "0 < fst sh" "0 < cap" "0 \<le> st" "slots_hold (fst sh) cap (ri_k s) (ri_v s) h rows" "length rows \<le> cap"
    by (rule ring_facts)
  then show ?case using slots_rows(3) [of "fst sh" cap "ri_k s" "ri_v s" h rows] by simp
next
  case (2 so sh st rows r)
  then show ?case by (rule ring_append_holds)
next
  case (3 so sh st rows)
  then show ?case by (rule ring_materialize)
next
  case (4 so sh st rows so' st' rows')
  then show ?case by (rule ring_restore_holds)
qed

section \<open>New stores and the interface\<close>

lemma new_linear_holds: "0 < d \<Longrightarrow> int d \<le> max_int64 \<Longrightarrow> linear_holds (Some (NewLinearF32KV (int d))) (d, None) 0 []"
  by (simp add: linear_holds_def NewLinearF32KV_def max_int64_def)

lemma new_ring_holds:
  assumes "0 < d" "0 < cap" "int (d * cap) \<le> max_int64" "int (2 * cap) \<le> max_int64"
  shows "ring_holds (Some (NewRingF32KV z (int d) (int cap))) (d, Some cap) 0 []"
proof -
  have "1 * d \<le> cap * d" using assms(2) by (intro mult_right_mono) simp_all
  then have "d \<le> d * cap" by (simp add: mult.commute)
  then have "int d \<le> max_int64" "int cap \<le> max_int64" using assms(3,4) by linarith+
  then have "MulInt (int d) (int cap) = (int (d * cap), True)" using assms(3) by (intro MulInt_nat)
  then show ?thesis using assms by (auto simp: ring_holds_def NewRingF32KV_def slots_hold_def mult.commute nat_mult_distrib)
qed

fun store_holds :: "'f kv_store \<Rightarrow> nat \<times> nat option \<Rightarrow> int \<Rightarrow> 'f row list \<Rightarrow> bool" where
  "store_holds (LinearF32KV s) sh st rows = linear_holds s sh st rows"
| "store_holds (RingF32KV s) sh st rows = ring_holds s sh st rows"

lemma store_kind: "store_holds s sh st rows \<Longrightarrow> (case snd sh of None \<Rightarrow> \<exists>l. s = LinearF32KV l | Some n \<Rightarrow> \<exists>r. s = RingF32KV r)"
  by (cases s) (auto simp: linear_holds_def ring_holds_def)

interpretation store: row_store store_holds store_Append store_Materialize store_Checkpoint store_Restore
proof (unfold_locales, goal_cases)
  case (1 s sh st rows)
  then show ?case using lin.shape ring.shape by (cases s) simp_all
next
  case (2 s sh st rows r)
  then show ?case using lin.app_ok [of _ sh st rows r] ring.app_ok [of _ sh st rows r] by (cases s) fastforce+
next
  case (3 s sh st rows)
  then show ?case using lin.materialize_ok ring.materialize_ok by (cases s) simp_all
next
  case (4 s sh st rows s' st' rows')
  consider l l' where "s = LinearF32KV l" "s' = LinearF32KV l'" | r r' where "s = RingF32KV r" "s' = RingF32KV r'"
    using store_kind [OF 4(1)] store_kind [OF 4(2)] by (auto split: option.splits)
  then show ?case
  proof cases
    case 1
    then show ?thesis using lin.restore_ok [of l sh st rows l' st' rows'] 4 by auto
  next
    case 2
    then show ?thesis using ring.restore_ok [of r sh st rows r' st' rows'] 4 by auto
  qed
qed

end
