(* ===== verification/LayeredFacts.thy ===== *)
theory LayeredFacts
  imports LayeredKv RingFacts
begin

text \<open>
  What a layered manager holds: for every layer the window of its store. Validation accepts such a
  manager and its checkpoints, restoring brings the windows back, and \<open>KeepAppended\<close> replays the
  rows it is told to keep. The facts about single layers come from the contract of the stores.
\<close>

section \<open>Slices of row lists\<close>

lemma take_concat_rows:
  assumes "\<forall>x \<in> set xs. length x = d"
  shows "take (n * d) (concat xs) = concat (take n xs)" "drop (n * d) (concat xs) = concat (drop n xs)"
proof -
  have "take (n * d) (concat xs) = concat (take n xs) \<and> drop (n * d) (concat xs) = concat (drop n xs)"
    using assms
  proof (induction xs arbitrary: n)
    case (Cons x xs)
    then show ?case using Cons.IH [of "n - 1"] by (cases n) auto
  qed simp
  then show "take (n * d) (concat xs) = concat (take n xs)" "drop (n * d) (concat xs) = concat (drop n xs)" by simp_all
qed

lemma rowSlice_concat:
  assumes "\<forall>x \<in> set xs. length x = d" "0 < d" "a + n \<le> length xs" "0 < n" "int (length xs * d) \<le> max_int64"
  shows "rowSlice (concat xs) (int d) (int a) (int n) = Some (concat (take n (drop a xs)))"
proof -
  have l: "length (concat xs) = length xs * d" using assms(1) by (rule concat_lengths)
  have "(a + n) * d \<le> length xs * d" using assms(3) by (intro mult_right_mono) simp_all
  then have "rowSlice (concat xs) (int d) (int a) (int n) = Some (concat (map (slot d (concat xs)) [a..<a + n]))"
    using assms l by (intro rowSlice_rows) simp_all
  also have "concat (map (slot d (concat xs)) [a..<a + n]) = take (n * d) (concat (drop a xs))"
    using take_slots [of n d a "concat xs"] take_concat_rows(2) [OF assms(1)] by simp
  also have "\<dots> = concat (take n (drop a xs))" by (rule take_concat_rows(1)) (use assms(1) in \<open>auto dest: in_set_dropD\<close>)
  finally show ?thesis .
qed

section \<open>Layers\<close>

definition layer_shape :: "layer_config \<Rightarrow> int \<Rightarrow> nat \<times> nat option" where
  "layer_shape cfg chunk = (nat (lc_dim cfg), if lc_sliding cfg then Some (nat (lc_window cfg + chunk)) else None)"

definition config_ok :: "layer_config \<Rightarrow> int \<Rightarrow> bool" where
  "config_ok cfg chunk \<longleftrightarrow> validateLayerF32KVConfig cfg chunk = Inr () \<and> lc_dim cfg \<le> max_int64 \<and> lc_window cfg \<le> max_int64 \<and> 0 \<le> chunk \<and> chunk \<le> max_int64"

lemma config_facts:
  assumes "config_ok cfg chunk"
  shows "0 < lc_dim cfg" "int (fst (layer_shape cfg chunk)) = lc_dim cfg"
    "capacity_of cfg chunk = (case snd (layer_shape cfg chunk) of None \<Rightarrow> 0 | Some n \<Rightarrow> int n)"
    "lc_sliding cfg \<Longrightarrow> 0 < lc_window cfg \<and> lc_window cfg + chunk \<le> max_int64"
proof -
  show pos: "0 < lc_dim cfg" using assms by (auto simp: config_ok_def validateLayerF32KVConfig_def split: if_splits)
  then show "int (fst (layer_shape cfg chunk)) = lc_dim cfg" by (simp add: layer_shape_def)
  show w: "0 < lc_window cfg \<and> lc_window cfg + chunk \<le> max_int64" if "lc_sliding cfg"
    using assms that AddInt_spec [of "lc_window cfg" chunk] by (auto simp: config_ok_def validateLayerF32KVConfig_def go_int split: if_splits)
  show "capacity_of cfg chunk = (case snd (layer_shape cfg chunk) of None \<Rightarrow> 0 | Some n \<Rightarrow> int n)"
    using assms w AddInt_spec [of "lc_window cfg" chunk]
    by (auto simp: config_ok_def capacity_of_def layerF32KVCapacity_def layer_shape_def go_int)
qed

definition window_cp :: "nat \<times> nat option \<Rightarrow> int \<Rightarrow> 'f row list \<Rightarrow> 'f store_cp" where
  "window_cp sh st rows = \<lparr>sc_valid = True, sc_dim = int (fst sh), sc_capacity = (case snd sh of None \<Rightarrow> 0 | Some n \<Rightarrow> int n), sc_startToken = st,
     sc_tokens = int (length rows), sc_k = concat (map fst rows), sc_v = concat (map snd rows)\<rparr>"

text \<open>All that the manager asks of a store.\<close>

lemma store_facts:
  assumes "store_holds s sh st rows"
  shows "store_Checkpoint s = window_cp sh st rows" "store_Tokens s = int (length rows)" "store_Dim s = int (fst sh)"
    "validateF32KVCheckpoint (window_cp sh st rows) = Inr (int (length rows * fst sh))" "int (length rows * fst sh) \<le> max_int64"
    "case snd sh of None \<Rightarrow> \<exists>l. s = LinearF32KV (Some l) \<and> linear_validateState l = Inr ()
       | Some n \<Rightarrow> \<exists>r. s = RingF32KV (Some r) \<and> ring_validateState r = Inr () \<and> ri_capacity r = int n"
proof -
  have "(store_Checkpoint s = window_cp sh st rows \<and> store_Tokens s = int (length rows) \<and> store_Dim s = int (fst sh)) \<and>
    (int (fst sh) \<le> max_int64 \<and> int (length rows * fst sh) \<le> max_int64) \<and>
    (case snd sh of None \<Rightarrow> \<exists>l. s = LinearF32KV (Some l) \<and> linear_validateState l = Inr ()
       | Some n \<Rightarrow> \<exists>r. s = RingF32KV (Some r) \<and> ring_validateState r = Inr () \<and> ri_capacity r = int n)"
  proof (cases s)
    case (LinearF32KV l)
    then have h: "linear_holds l sh st rows" using assms by simp
    obtain l0 where "l = Some l0" "linear_validateState l0 = Inr ()" "li_dim l0 = int (fst sh)" "li_tokens l0 = int (length rows)"
      using linear_valid [OF h] by metis
    then show ?thesis using LinearF32KV h linear_checkpoint [OF h]
      by (simp add: linear_holds_def window_cp_def linear_Tokens_def linear_Dim_def del: of_nat_mult)
  next
    case (RingF32KV r)
    then have h: "ring_holds r sh st rows" using assms by simp
    then obtain r0 cap h0 where r: "r = Some r0" "snd sh = Some cap" "0 < fst sh" "0 < cap" "int (cap * fst sh) \<le> max_int64" "ri_dim r0 = int (fst sh)"
        "ri_capacity r0 = int cap" "ri_tokens r0 = int (length rows)" "ring_validateState r0 = Inr ()" "length rows \<le> cap"
      by (rule ring_facts)
    have "length rows * fst sh \<le> cap * fst sh" using r(10) by (intro mult_right_mono) simp_all
    moreover have "1 * fst sh \<le> cap * fst sh" using r(4) by (intro mult_right_mono) simp_all
    ultimately have "int (length rows * fst sh) \<le> max_int64" "int (fst sh) \<le> max_int64" using r(5) by linarith+
    then show ?thesis using RingF32KV r ring_checkpoint [OF h r(2)] by (simp add: window_cp_def ring_Tokens_def ring_Dim_def del: of_nat_mult)
  qed
  note P = conjunct1 [OF this] conjunct2 [OF this]
  show "store_Checkpoint s = window_cp sh st rows" "store_Tokens s = int (length rows)" "store_Dim s = int (fst sh)" using P(1) by blast+
  show "int (length rows * fst sh) \<le> max_int64" using P(2) by blast
  show "case snd sh of None \<Rightarrow> \<exists>l. s = LinearF32KV (Some l) \<and> linear_validateState l = Inr ()
       | Some n \<Rightarrow> \<exists>r. s = RingF32KV (Some r) \<and> ring_validateState r = Inr () \<and> ri_capacity r = int n" using P(2) by blast
  show "validateF32KVCheckpoint (window_cp sh st rows) = Inr (int (length rows * fst sh))"
    unfolding window_cp_def by (rule checkpoint_valid) (use store.shape [OF assms] P(2) in \<open>auto split: option.splits\<close>)
qed

section \<open>The manager\<close>

type_synonym 'f windows = "(int \<times> 'f row list) list"

definition layered_holds :: "'f layered_kv \<Rightarrow> layer_config list \<Rightarrow> int \<Rightarrow> 'f windows \<Rightarrow> bool" where
  "layered_holds m configs chunk ws \<longleftrightarrow> la_configs m = configs \<and> la_chunk m = chunk \<and> 0 \<le> chunk \<and> length ws = length configs \<and>
     length (la_stores m) = length configs \<and>
     (\<forall>i < length configs. config_ok (configs ! i) chunk \<and>
        (\<exists>s. la_stores m ! i = Some s \<and> store_holds s (layer_shape (configs ! i) chunk) (fst (ws ! i)) (snd (ws ! i))))"

lemma layered_at:
  assumes "layered_holds m configs chunk ws" "i < length configs"
  obtains s where "la_stores m ! i = Some s" "store_holds s (layer_shape (configs ! i) chunk) (fst (ws ! i)) (snd (ws ! i))" "config_ok (configs ! i) chunk"
  using assms by (auto simp: layered_holds_def)

lemma validate_store_ok:
  assumes "la_configs m = configs" "la_chunk m = chunk" "i < length configs" "config_ok (configs ! i) chunk"
    and "store_holds s (layer_shape (configs ! i) chunk) st rows"
  shows "validateLayerStore m i (Some s) = Inr ()"
proof -
  note F = store_facts [OF assms(5)] and C = config_facts [OF assms(4)]
  show ?thesis
  proof (cases "lc_sliding (configs ! i)")
    case True
    then have "snd (layer_shape (configs ! i) chunk) = Some (nat (lc_window (configs ! i) + chunk))" by (simp add: layer_shape_def)
    then show ?thesis using F(3,6) C True assms(1-3) by (auto simp: validateLayerStore_def Let_def at_layer_def ring_Capacity_def)
  next
    case False
    then have "snd (layer_shape (configs ! i) chunk) = None" by (simp add: layer_shape_def)
    then show ?thesis using F(3,6) C False assms(1-3) by (auto simp: validateLayerStore_def Let_def at_layer_def linear_Capacity_def)
  qed
qed

lemma configs_ok:
  assumes "\<forall>cfg \<in> set configs. validateLayerF32KVConfig cfg chunk = Inr ()"
  shows "validate_configs i configs chunk = Inr ()"
  using assms by (induction configs arbitrary: i) (auto simp: at_layer_def)

lemma layered_configs_ok:
  assumes "layered_holds m configs chunk ws"
  shows "validateLayerF32KVConfigs configs chunk = Inr ()"
proof -
  have "\<forall>cfg \<in> set configs. validateLayerF32KVConfig cfg chunk = Inr ()"
    using assms by (auto simp: layered_holds_def config_ok_def in_set_conv_nth)
  then show ?thesis using assms configs_ok by (auto simp: validateLayerF32KVConfigs_def layered_holds_def)
qed

lemma validate_stores_ok:
  assumes "\<forall>j < length sos. validateLayerStore m (i + j) (sos ! j) = Inr ()"
  shows "validate_stores m i sos = Inr ()"
  using assms
proof (induction sos arbitrary: i)
  case (Cons so sos)
  have "validateLayerStore m i so = Inr ()" using Cons.prems [rule_format, of 0] by simp
  moreover have "validate_stores m (Suc i) sos = Inr ()" by (rule Cons.IH) (use Cons.prems [rule_format, of "Suc _"] in auto)
  ultimately show ?case by simp
qed simp

lemma layered_valid:
  assumes "layered_holds m configs chunk ws"
  shows "layered_Validate (Some m) = Inr ()"
proof -
  note h = assms [unfolded layered_holds_def]
  have "validateLayerStore m j (la_stores m ! j) = Inr ()" if "j < length configs" for j
    using layered_at [OF assms that] validate_store_ok [of m configs chunk j] h that by metis
  then have "validate_stores m 0 (la_stores m) = Inr ()" using h by (intro validate_stores_ok) simp
  then show ?thesis using h layered_configs_ok [OF assms] by (simp add: layered_Validate_def)
qed

definition windows_cp :: "layer_config list \<Rightarrow> int \<Rightarrow> 'f windows \<Rightarrow> 'f store_cp list" where
  "windows_cp configs chunk ws = map2 (\<lambda>cfg w. window_cp (layer_shape cfg chunk) (fst w) (snd w)) configs ws"

lemma checkpoint_layers_Some: "\<forall>j < length sos. \<exists>s. sos ! j = Some s \<and> sc_valid (store_Checkpoint s) \<and> store_Checkpoint s = cps ! j \<Longrightarrow>
    length cps = length sos \<Longrightarrow> checkpoint_layers sos = Some cps"
proof (induction sos arbitrary: cps)
  case (Cons so sos)
  obtain c cs where cps: "cps = c # cs" using Cons.prems(2) by (cases cps) auto
  have "checkpoint_layers sos = Some cs" by (rule Cons.IH) (use Cons.prems [unfolded cps] in \<open>force+\<close>)
  then show ?case using Cons.prems(1) [rule_format, of 0] by (auto simp: cps)
qed simp

lemma layered_checkpoint:
  assumes "layered_holds m configs chunk ws"
  shows "layered_Checkpoint (Some m) = \<lparr>ly_valid = True, ly_chunk = chunk, ly_configs = configs, ly_layers = windows_cp configs chunk ws\<rparr>"
proof -
  note h = assms [unfolded layered_holds_def]
  have "checkpoint_layers (la_stores m) = Some (windows_cp configs chunk ws)"
  proof (rule checkpoint_layers_Some)
    show "length (windows_cp configs chunk ws) = length (la_stores m)" using h by (simp add: windows_cp_def)
    show "\<forall>j < length (la_stores m). \<exists>s. la_stores m ! j = Some s \<and> sc_valid (store_Checkpoint s) \<and> store_Checkpoint s = windows_cp configs chunk ws ! j"
    proof (intro allI impI)
      fix j assume "j < length (la_stores m)"
      then have j: "j < length configs" using h by simp
      obtain s where s: "la_stores m ! j = Some s" "store_holds s (layer_shape (configs ! j) chunk) (fst (ws ! j)) (snd (ws ! j))" "config_ok (configs ! j) chunk"
        using layered_at [OF assms j] by metis
      then show "\<exists>s. la_stores m ! j = Some s \<and> sc_valid (store_Checkpoint s) \<and> store_Checkpoint s = windows_cp configs chunk ws ! j"
        using store_facts(1) [OF s(2)] j h by (simp add: windows_cp_def window_cp_def)
    qed
  qed
  then show ?thesis using h layered_valid [OF assms] by (simp add: layered_Checkpoint_def)
qed

lemma window_cp_sel: "sc_dim (window_cp sh st rows) = int (fst sh)" "sc_capacity (window_cp sh st rows) = (case snd sh of None \<Rightarrow> 0 | Some n \<Rightarrow> int n)"
  "sc_startToken (window_cp sh st rows) = st" "sc_tokens (window_cp sh st rows) = int (length rows)"
  "sc_k (window_cp sh st rows) = concat (map fst rows)" "sc_v (window_cp sh st rows) = concat (map snd rows)"
  by (simp_all add: window_cp_def)

lemma windows_cp_nth: "i < length configs \<Longrightarrow> length ws = length configs \<Longrightarrow>
    windows_cp configs chunk ws ! i = window_cp (layer_shape (configs ! i) chunk) (fst (ws ! i)) (snd (ws ! i))"
  by (simp add: windows_cp_def)

lemma validate_cp_layers_ok:
  assumes "\<forall>j < length cps. config_ok (configs ! (i + j)) chunk \<and> (\<exists>st rows n. cps ! j = window_cp (layer_shape (configs ! (i + j)) chunk) st rows \<and> validateF32KVCheckpoint (cps ! j) = Inr n)"
  shows "validate_cp_layers i configs chunk cps = Inr ()"
  using assms
proof (induction cps arbitrary: i)
  case (Cons cp cps)
  obtain st rows n where c: "config_ok (configs ! i) chunk" "cp = window_cp (layer_shape (configs ! i) chunk) st rows" "validateF32KVCheckpoint cp = Inr n"
    using Cons.prems [rule_format, of 0] by auto
  have "validate_cp_layers (Suc i) configs chunk cps = Inr ()"
    by (rule Cons.IH) (use Cons.prems [rule_format, of "Suc _"] in auto)
  then show ?case using c config_facts(2,3) [OF c(1)] by (simp add: window_cp_sel Let_def)
qed simp

lemma match_configs_ok:
  assumes "la_configs m = ly_configs cp" "\<forall>j < n. validateLayerCheckpoint m (i + j) (ly_layers cp ! (i + j)) = Inr ()"
  shows "match_configs m cp i n = Inr ()"
  using assms(2)
proof (induction n arbitrary: i)
  case (Suc n)
  have "match_configs m cp (Suc i) n = Inr ()" by (rule Suc.IH) (use Suc.prems [rule_format, of "Suc _"] in auto)
  then show ?case using assms(1) Suc.prems [rule_format, of 0] by simp
qed simp

text \<open>A checkpoint of a manager is accepted by every manager of the same shape.\<close>

lemma cp_accepted:
  assumes "layered_holds m configs chunk ws" "layered_holds m' configs chunk ws'"
  shows "validateRestoreCheckpoint (Some m') (layered_Checkpoint (Some m)) = Inr ()"
proof -
  note h = assms(1) [unfolded layered_holds_def] and h' = assms(2) [unfolded layered_holds_def]
  define cp where "cp = layered_Checkpoint (Some m)"
  have cp: "cp = \<lparr>ly_valid = True, ly_chunk = chunk, ly_configs = configs, ly_layers = windows_cp configs chunk ws\<rparr>"
    using layered_checkpoint [OF assms(1)] by (simp add: cp_def)
  have at_j: "config_ok (configs ! j) chunk \<and> (\<exists>n. validateF32KVCheckpoint (windows_cp configs chunk ws ! j) = Inr n) \<and>
      windows_cp configs chunk ws ! j = window_cp (layer_shape (configs ! j) chunk) (fst (ws ! j)) (snd (ws ! j))" if j: "j < length configs" for j
  proof -
    obtain s where s: "store_holds s (layer_shape (configs ! j) chunk) (fst (ws ! j)) (snd (ws ! j))" "config_ok (configs ! j) chunk"
      using layered_at [OF assms(1) j] by metis
    show ?thesis using s(2) store_facts(4) [OF s(1)] windows_cp_nth [OF j] h by auto
  qed
  have "length (windows_cp configs chunk ws) = length configs" using h by (simp add: windows_cp_def)
  moreover from this have "validate_cp_layers 0 configs chunk (windows_cp configs chunk ws) = Inr ()"
    by (intro validate_cp_layers_ok) (metis at_j add_0)
  moreover have "validateLayerCheckpoint m' j (windows_cp configs chunk ws ! j) = Inr ()" if j: "j < length configs" for j
    using at_j [OF j] h' config_facts(2,3) [of "configs ! j" chunk] by (auto simp: validateLayerCheckpoint_def window_cp_sel Let_def)
  then have "match_configs m' cp 0 (length configs) = Inr ()" using h' by (intro match_configs_ok) (simp_all add: cp)
  ultimately show ?thesis unfolding cp_def [symmetric] using h' layered_valid [OF assms(2)] layered_configs_ok [OF assms(1)]
    by (simp add: validateRestoreCheckpoint_def validateLayeredF32KVCheckpoint_def cp)
qed

lemma restore_stores_ok:
  assumes "\<forall>j < length sos. i + j < length cps \<and> (\<exists>s s'. sos ! j = Some s \<and> store_Restore s (cps ! (i + j)) = (Inr (), s') \<and> P j s')"
  shows "\<exists>stores. restore_stores i cps sos = (Inr (), stores) \<and> length stores = length sos \<and> (\<forall>j < length sos. \<exists>s'. stores ! j = Some s' \<and> P j s')"
  using assms
proof (induction sos arbitrary: i P)
  case (Cons so sos)
  obtain s s' where s: "so = Some s" "store_Restore s (cps ! i) = (Inr (), s')" "P 0 s'" "i < length cps" using Cons.prems [rule_format, of 0] by auto
  have "\<exists>stores. restore_stores (Suc i) cps sos = (Inr (), stores) \<and> length stores = length sos \<and> (\<forall>j < length sos. \<exists>s'. stores ! j = Some s' \<and> P (Suc j) s')"
    by (rule Cons.IH) (use Cons.prems [rule_format, of "Suc _"] in auto)
  then obtain stores where st: "restore_stores (Suc i) cps sos = (Inr (), stores)" "length stores = length sos" "\<forall>j < length sos. \<exists>s'. stores ! j = Some s' \<and> P (Suc j) s'"
    by blast
  have "\<forall>j < length (so # sos). \<exists>s''. (Some s' # stores) ! j = Some s'' \<and> P j s''"
  proof (intro allI impI)
    fix j assume "j < length (so # sos)"
    then show "\<exists>s''. (Some s' # stores) ! j = Some s'' \<and> P j s''" using s(3) st(3) by (cases j) auto
  qed
  then show ?case using s st(1,2) by simp
qed simp

lemma restore_layers:
  assumes "layered_holds m configs chunk ws" "layered_holds m' configs chunk ws'"
  shows "\<exists>m''. restoreLayers (layered_Checkpoint (Some m)) m' = (Inr (), m'') \<and> layered_holds m'' configs chunk ws"
proof -
  note h = assms(1) [unfolded layered_holds_def] and h' = assms(2) [unfolded layered_holds_def]
  let ?P = "\<lambda>j s'. store_holds s' (layer_shape (configs ! j) chunk) (fst (ws ! j)) (snd (ws ! j))"
  have "\<exists>stores. restore_stores 0 (windows_cp configs chunk ws) (la_stores m') = (Inr (), stores) \<and> length stores = length (la_stores m') \<and>
      (\<forall>j < length (la_stores m'). \<exists>s'. stores ! j = Some s' \<and> ?P j s')"
  proof (rule restore_stores_ok, intro allI impI)
    fix j assume "j < length (la_stores m')"
    then have j: "j < length configs" using h' by simp
    obtain s where s: "store_holds s (layer_shape (configs ! j) chunk) (fst (ws ! j)) (snd (ws ! j))" using layered_at [OF assms(1) j] by metis
    obtain s1 where s1: "la_stores m' ! j = Some s1" "store_holds s1 (layer_shape (configs ! j) chunk) (fst (ws' ! j)) (snd (ws' ! j))"
      using layered_at [OF assms(2) j] by metis
    have "windows_cp configs chunk ws ! j = store_Checkpoint s" using store_facts(1) [OF s] windows_cp_nth [OF j, of ws chunk] h by simp
    then show "0 + j < length (windows_cp configs chunk ws) \<and>
        (\<exists>s s'. la_stores m' ! j = Some s \<and> store_Restore s (windows_cp configs chunk ws ! (0 + j)) = (Inr (), s') \<and> ?P j s')"
      using store.restore_ok [OF s s1(2)] s1(1) j h by (auto simp: windows_cp_def)
  qed
  then show ?thesis using h h' layered_checkpoint [OF assms(1)] by (auto simp: restoreLayers_def layered_holds_def)
qed

section \<open>Rows to keep\<close>

text \<open>What staging \<open>news\<close> leaves of a window, as long as it does not push out staged rows.\<close>

lemma pushes_drop:
  assumes "case c of None \<Rightarrow> True | Some n \<Rightarrow> 0 < n \<and> length rows \<le> n \<and> length news \<le> n"
  obtains d where "foldl (push c) (st, rows) news = (st + int d, drop d (rows @ news))" "d \<le> length rows"
proof -
  have w: "window c rows = rows" "window_start c rows = 0" using assms by (auto simp: window_start_def window_def split: option.splits)
  let ?d = "length (rows @ news) - length (window c (rows @ news))"
  have "foldl (push c) (st, rows) news = (st + window_start c (rows @ news), window c (rows @ news))"
    using pushes_window [of c st rows news] assms w by (auto split: option.splits)
  moreover have "window c (rows @ news) = drop ?d (rows @ news)" "window_start c (rows @ news) = int ?d" "?d \<le> length rows"
    using assms by (auto simp: window_def window_start_def split: option.splits)
  ultimately show thesis by (intro that [of ?d]) simp_all
qed

lemma keep_layer_ok:
  assumes "store_holds s0 sh st rows" "store_holds s sh st' rows'" "foldl (push (snd sh)) (st, rows) news = (st', rows')"
    and "\<forall>r \<in> set news. row_fits (fst sh) r" "case snd sh of None \<Rightarrow> True | Some n \<Rightarrow> length news \<le> n"
    and "st + int (length rows + length news) \<le> max_int64" "keep \<le> length news"
    and "\<forall>r \<in> set rows. \<forall>x \<in> set (fst r) \<union> set (snd r). feq x x" "staged = - 1 \<or> staged = int (length news)"
  shows "\<exists>k v. keep_layer feq i (window_cp sh st rows) (int keep) staged s = Inr (int (length news), k, v) \<and>
    (keep = 0 \<or> (k, v) = (concat (map fst (take keep news)), concat (map snd (take keep news))))"
proof -
  note S0 = store.shape [OF assms(1)] and S = store.shape [OF assms(2)]
  have "case snd sh of None \<Rightarrow> True | Some n \<Rightarrow> 0 < n \<and> length rows \<le> n \<and> length news \<le> n" using S0 assms(5) by (auto split: option.splits)
  then obtain d where d: "foldl (push (snd sh)) (st, rows) news = (st + int d, drop d (rows @ news))" "d \<le> length rows" by (rule pushes_drop)
  have w: "st' = st + int d" "rows' = drop d (rows @ news)" using assms(3) d(1) by simp_all
  have mat: "store_Materialize s = (concat (map fst rows'), concat (map snd rows'), st')" by (rule store.materialize_ok [OF assms(2)])
  have ends: "AddInt st (int (length rows)) = (st + int (length rows), True)"
      "AddInt st' (int (length rows')) = (st + int (length rows + length news), True)"
    using S0 assms(6) d(2) by (simp_all add: AddInt_spec go_int w)
  let ?o = "length rows - d"
  have fits: "\<forall>r \<in> set rows. row_fits (fst sh) r" "\<forall>r \<in> set rows'. row_fits (fst sh) r" "0 < fst sh" using S0 S by auto
  have slices: "rowSlice (concat (map f xs)) (int (fst sh)) (int a) (int n) = Some (concat (map f (take n (drop a xs))))"
    if "f = fst \<or> f = snd" "xs = rows \<or> xs = rows'" "a + n \<le> length xs" "0 < n" for f :: "'a list \<times> 'a list \<Rightarrow> 'a list" and xs a n
  proof -
    have "\<forall>x \<in> set (map f xs). length x = fst sh" using that(1,2) fits by (auto simp: row_fits_def)
    moreover have "int (length (map f xs) * fst sh) \<le> max_int64" using that(2) store_facts(5) [OF assms(1)] store_facts(5) [OF assms(2)] by auto
    ultimately show ?thesis using rowSlice_concat [of "map f xs" "fst sh" a n] fits(3) that(3,4) by (simp add: take_map drop_map)
  qed
  have same: "take ?o rows' = drop d rows" "take n (drop ?o rows') = take n news" for n using d(2) by (simp_all add: w)
  have overlap: "check_overlap feq i (window_cp sh st rows) (concat (map fst rows')) (concat (map snd rows')) st' (int (length rows')) (st + int (length rows) - st') = Inr ()"
  proof (cases "?o = 0")
    case True
    then show ?thesis using d(2) by (simp add: check_overlap_def w)
  next
    case False
    have o: "st + int (length rows) - st' = int ?o" using d(2) by (simp add: w)
    have le: "?o \<le> length rows'" "d + ?o \<le> length rows" using d(2) by (simp_all add: w)
    have eq: "equalFloat32Slices feq (concat (map f (drop d rows))) (concat (map f (drop d rows)))" if "f = fst \<or> f = snd" for f :: "'a list \<times> 'a list \<Rightarrow> 'a list"
      using assms(8) that by (auto simp: equalFloat32Slices_def list_all2_same dest: in_set_dropD)
    have sl: "rowSlice (concat (map f rows)) (int (fst sh)) (int d) (int ?o) = Some (concat (map f (drop d rows)))"
        "rowSlice (concat (map f rows')) (int (fst sh)) 0 (int ?o) = Some (concat (map f (drop d rows)))" if "f = fst \<or> f = snd" for f :: "'a list \<times> 'a list \<Rightarrow> 'a list"
      using slices [OF that, of rows d ?o] slices [OF that, of rows' 0 ?o] le False same by simp_all
    have "st' - st = int d" by (simp add: w)
    then show ?thesis using sl [of fst] sl [of snd] eq [of fst] eq [of snd] False le(1)
      by (simp add: check_overlap_def window_cp_sel o Let_def del: of_nat_diff)
  qed
  have keeps: "rowSlice (concat (map f rows')) (int (fst sh)) (st + int (length rows) - st') (int keep) = Some (concat (map f (take keep news)))"
    if "f = fst \<or> f = snd" "keep \<noteq> 0" for f :: "'a list \<times> 'a list \<Rightarrow> 'a list"
  proof -
    have "st + int (length rows) - st' = int ?o" using d(2) by (simp add: w)
    moreover have "?o + keep \<le> length rows'" using assms(7) d(2) by (simp add: w)
    ultimately show ?thesis using slices [OF that(1), of rows' ?o keep] same(2) that(2) by simp
  qed
  show ?thesis
  proof (cases "keep = 0")
    case True
    then show ?thesis using assms(9) ends mat store_facts(2) [OF assms(2)] by (auto simp: keep_layer_def window_cp_sel Let_def)
  next
    case False
    have "\<not> st' > st + int (length rows)" using d(2) by (simp add: w)
    then show ?thesis using assms(7,9) ends mat store_facts(2) [OF assms(2)] overlap keeps [of fst] keeps [of snd] False
      by (auto simp: keep_layer_def window_cp_sel Let_def)
  qed
qed

end
