(* ===== verification/LayeredKeep.thy ===== *)
theory LayeredKeep
  imports LayeredFacts
begin

text \<open>
  Sequences of \<open>Append\<close> calls on a layered manager, in any order over the layers, and \<open>KeepAppended\<close>
  after them: the manager then holds what appending only the kept rows would have left.
\<close>

section \<open>The loops of KeepAppended\<close>

lemma keep_layers_ok:
  assumes "\<forall>j < length sos. \<exists>s. sos ! j = Some s \<and>
      (\<forall>staged. staged = - 1 \<or> staged = n \<longrightarrow> (\<exists>k v. keep_layer feq (i + j) (cps ! (i + j)) keep staged s = Inr (n, k, v) \<and> Q j (k, v)))"
    and "staged = - 1 \<or> staged = n"
  shows "\<exists>kept. keep_layers feq i cps keep staged sos = Inr kept \<and> length kept = length sos \<and> (\<forall>j < length sos. Q j (kept ! j))"
  using assms
proof (induction sos arbitrary: i Q staged)
  case (Cons so sos)
  obtain s k v where s: "so = Some s" "keep_layer feq i (cps ! i) keep staged s = Inr (n, k, v)" "Q 0 (k, v)"
    using Cons.prems(1) [rule_format, of 0] Cons.prems(2) by auto
  have "\<exists>kept. keep_layers feq (Suc i) cps keep n sos = Inr kept \<and> length kept = length sos \<and> (\<forall>j < length sos. Q (Suc j) (kept ! j))"
    by (rule Cons.IH) (use Cons.prems(1) [rule_format, of "Suc _"] in auto)
  then obtain kept where k: "keep_layers feq (Suc i) cps keep n sos = Inr kept" "length kept = length sos" "\<forall>j < length sos. Q (Suc j) (kept ! j)" by blast
  have "\<forall>j < length (so # sos). Q j (((k, v) # kept) ! j)"
  proof (intro allI impI)
    fix j assume "j < length (so # sos)"
    then show "Q j (((k, v) # kept) ! j)" using s(3) k(3) by (cases j) auto
  qed
  then show ?case using s k(1,2) by simp
qed simp

lemma nth_slice:
  assumes "\<forall>x \<in> set xs. length x = d" "j < length xs"
  shows "take d (drop (j * d) (concat xs)) = xs ! j"
proof -
  have "drop (j * d) (concat xs) = xs ! j @ concat (drop (Suc j) xs)"
    using take_concat_rows(2) [OF assms(1), of j] Cons_nth_drop_Suc [OF assms(2)] by (metis concat.simps(2))
  then show ?thesis using assms by simp
qed

lemma replay_rows_eq:
  assumes "\<forall>r \<in> set rs. row_fits dm r" "row + left \<le> length rs"
  shows "replay_rows dm row left (concat (map fst rs), concat (map snd rs)) s = append_all store_Append (take left (drop row rs)) s"
  using assms(2)
proof (induction left arbitrary: row s)
  case (Suc left)
  have "take dm (drop (row * dm) (concat (map f rs))) = f (rs ! row)" if "f = fst \<or> f = snd" for f :: "'a list \<times> 'a list \<Rightarrow> 'a list"
    using nth_slice [of "map f rs" dm row] assms(1) Suc.prems that by (auto simp: row_fits_def)
  moreover have "take (Suc left) (drop row rs) = rs ! row # take left (drop (Suc row) rs)"
    using Suc.prems Cons_nth_drop_Suc [of row rs] by (metis add_Suc_right less_eq_Suc_le less_add_Suc1 order_less_le_trans take_Suc_Cons)
  ultimately show ?case using Suc.IH [of "Suc row"] Suc.prems by (auto split: prod.splits sum.splits)
qed simp

lemma replay_layers_ok:
  assumes "length kept = length sos"
    and "\<forall>j < length sos. \<exists>s s'. sos ! j = Some s \<and> replay_rows (nat (lc_dim (configs ! (i + j)))) 0 keep (kept ! j) s = (Inr (), s') \<and> P j s'"
  shows "\<exists>stores. replay_layers configs keep i kept sos = (Inr (), stores) \<and> length stores = length sos \<and> (\<forall>j < length sos. \<exists>s'. stores ! j = Some s' \<and> P j s')"
  using assms
proof (induction sos arbitrary: i kept P)
  case (Cons so sos)
  obtain x xs where kept: "kept = x # xs" using Cons.prems(1) by (cases kept) auto
  obtain s s' where s: "so = Some s" "replay_rows (nat (lc_dim (configs ! i))) 0 keep x s = (Inr (), s')" "P 0 s'"
    using Cons.prems(2) [rule_format, of 0] by (auto simp: kept)
  have "\<exists>stores. replay_layers configs keep (Suc i) xs sos = (Inr (), stores) \<and> length stores = length sos \<and> (\<forall>j < length sos. \<exists>s'. stores ! j = Some s' \<and> P (Suc j) s')"
    by (rule Cons.IH) (use Cons.prems [unfolded kept] Cons.prems(2) [rule_format, of "Suc _"] kept in auto)
  then obtain stores where st: "replay_layers configs keep (Suc i) xs sos = (Inr (), stores)" "length stores = length sos" "\<forall>j < length sos. \<exists>s'. stores ! j = Some s' \<and> P (Suc j) s'"
    by blast
  have "\<forall>j < length (so # sos). \<exists>s''. (Some s' # stores) ! j = Some s'' \<and> P j s''"
  proof (intro allI impI)
    fix j assume "j < length (so # sos)"
    then show "\<exists>s''. (Some s' # stores) ! j = Some s'' \<and> P j s''" using s(3) st(3) by (cases j) auto
  qed
  then show ?case using s st(1,2) by (simp add: kept)
qed simp

section \<open>Appending to layers\<close>

type_synonym 'f append_op = "nat \<times> 'f row"

fun run_appends :: "'f append_op list \<Rightarrow> 'f layered_kv option \<Rightarrow> (go_error + unit) \<times> 'f layered_kv option" where
  "run_appends [] mo = (Inr (), mo)"
| "run_appends (op # ops) mo = (case layered_Append mo (int (fst op)) (fst (snd op)) (snd (snd op)) of
     (Inl e, mo') \<Rightarrow> (Inl e, mo') | (Inr _, mo') \<Rightarrow> run_appends ops mo')"

definition rows_at :: "nat \<Rightarrow> 'f append_op list \<Rightarrow> 'f row list" where
  "rows_at i ops = map snd (filter (\<lambda>op. fst op = i) ops)"

lemma rows_at_simps [simp]: "rows_at i [] = []" "rows_at i (op # ops) = (if fst op = i then snd op # rows_at i ops else rows_at i ops)"
  "rows_at i (ops @ ops') = rows_at i ops @ rows_at i ops'"
  by (auto simp: rows_at_def)

definition staged_windows :: "layer_config list \<Rightarrow> int \<Rightarrow> 'f windows \<Rightarrow> (nat \<Rightarrow> 'f row list) \<Rightarrow> 'f windows" where
  "staged_windows configs chunk ws news = map (\<lambda>i. foldl (push (snd (layer_shape (configs ! i) chunk))) (ws ! i) (news i)) [0..<length configs]"

definition op_fits :: "layer_config list \<Rightarrow> 'f append_op \<Rightarrow> bool" where
  "op_fits configs op \<longleftrightarrow> fst op < length configs \<and> row_fits (nat (lc_dim (configs ! fst op))) (snd op)"

definition layer_room :: "layer_config list \<Rightarrow> int \<Rightarrow> 'f windows \<Rightarrow> 'f append_op list \<Rightarrow> bool" where
  "layer_room configs chunk ws ops \<longleftrightarrow>
     (\<forall>i < length configs. row_room (layer_shape (configs ! i) chunk) (fst (ws ! i)) (length (snd (ws ! i))) (length (rows_at i ops)))"

lemma append_layer:
  assumes "layered_holds m configs chunk ws" "op_fits configs (i, r)" "row_room (layer_shape (configs ! i) chunk) (fst (ws ! i)) (length (snd (ws ! i))) 1"
  shows "\<exists>m'. layered_Append (Some m) (int i) (fst r) (snd r) = (Inr (), Some m') \<and>
    layered_holds m' configs chunk (ws[i := push (snd (layer_shape (configs ! i) chunk)) (ws ! i) r])"
proof -
  note h = assms(1) [unfolded layered_holds_def]
  have i: "i < length configs" "row_fits (fst (layer_shape (configs ! i) chunk)) r" using assms(2) by (auto simp: op_fits_def layer_shape_def)
  obtain s where s: "la_stores m ! i = Some s" "store_holds s (layer_shape (configs ! i) chunk) (fst (ws ! i)) (snd (ws ! i))" "config_ok (configs ! i) chunk"
    using layered_at [OF assms(1) i(1)] by metis
  obtain s' where s': "store_Append s (fst r) (snd r) = (Inr (), s')"
      "store_holds s' (layer_shape (configs ! i) chunk) (fst (push (snd (layer_shape (configs ! i) chunk)) (ws ! i) r)) (snd (push (snd (layer_shape (configs ! i) chunk)) (ws ! i) r))"
    using store.app_ok [OF s(2) i(2) assms(3)] by auto
  have "layered_holds (set_store i s' m) configs chunk (ws[i := push (snd (layer_shape (configs ! i) chunk)) (ws ! i) r])"
    using h i(1) s'(2) by (auto simp: layered_holds_def set_store_def nth_list_update)
  moreover have "storeForLayer (Some m) (int i) = Inr s" using s(1) i(1) h by (simp add: storeForLayer_def)
  ultimately show ?thesis using s'(1) by (simp add: layered_Append_def)
qed

lemma run_appends_ok:
  assumes "layered_holds m configs chunk ws" "\<forall>op \<in> set ops. op_fits configs op" "layer_room configs chunk ws ops"
  shows "\<exists>m'. run_appends ops (Some m) = (Inr (), Some m') \<and> layered_holds m' configs chunk (staged_windows configs chunk ws (\<lambda>i. rows_at i ops))"
  using assms
proof (induction ops arbitrary: m ws)
  case Nil
  have "length ws = length configs" using Nil(1) by (simp add: layered_holds_def)
  then have "staged_windows configs chunk ws (\<lambda>i. rows_at i []) = ws" using map_nth [of ws] by (simp add: staged_windows_def)
  then show ?case using Nil by simp
next
  case (Cons op ops)
  obtain i r where op: "op = (i, r)" by (cases op)
  have fit: "op_fits configs (i, r)" using Cons.prems(2) by (simp add: op)
  then have i: "i < length configs" by (simp add: op_fits_def)
  let ?c = "snd (layer_shape (configs ! i) chunk)" and ?sh = "layer_shape (configs ! i) chunk"
  have room: "row_room ?sh (fst (ws ! i)) (length (snd (ws ! i))) (length (rows_at i (op # ops)))" using Cons.prems(3) i by (auto simp: layer_room_def)
  then have "row_room ?sh (fst (ws ! i)) (length (snd (ws ! i))) 1" by (rule row_room_le) (simp_all add: op)
  from append_layer [OF Cons.prems(1) fit this] obtain m1 where
    m1: "layered_Append (Some m) (int i) (fst r) (snd r) = (Inr (), Some m1)" "layered_holds m1 configs chunk (ws[i := push ?c (ws ! i) r])" by blast
  obtain s where s: "store_holds s ?sh (fst (ws ! i)) (snd (ws ! i))" using layered_at [OF Cons.prems(1) i] by metis
  have len: "length ws = length configs" using Cons.prems(1) by (simp add: layered_holds_def)
  have "layer_room configs chunk (ws[i := push ?c (ws ! i) r]) ops"
    unfolding layer_room_def
  proof (intro allI impI)
    fix j assume j: "j < length configs"
    obtain st1 rows1 where p: "push ?c (fst (ws ! i), snd (ws ! i)) r = (st1, rows1)" by (cases "push ?c (ws ! i) r") simp
    note P = store.push_sums [OF s p]
    show "row_room (layer_shape (configs ! j) chunk) (fst (ws[i := push ?c (ws ! i) r] ! j)) (length (snd (ws[i := push ?c (ws ! i) r] ! j))) (length (rows_at j ops))"
    proof (cases "j = i")
      case True
      have "row_room ?sh st1 (length rows1) (length (rows_at i ops))"
        using room by (rule row_room_le) (use P in \<open>simp_all add: op\<close>)
      then show ?thesis using True i p len by simp
    next
      case False
      then show ?thesis using Cons.prems(3) j by (auto simp: layer_room_def op)
    qed
  qed
  from Cons.IH [OF m1(2) _ this] Cons.prems(2) obtain m' where
    m': "run_appends ops (Some m1) = (Inr (), Some m')" "layered_holds m' configs chunk (staged_windows configs chunk (ws[i := push ?c (ws ! i) r]) (\<lambda>i. rows_at i ops))" by auto
  have "staged_windows configs chunk (ws[i := push ?c (ws ! i) r]) (\<lambda>i. rows_at i ops) = staged_windows configs chunk ws (\<lambda>i. rows_at i (op # ops))"
    using len by (auto simp: staged_windows_def op nth_list_update)
  then show ?case using m1(1) m' by (simp add: op)
qed

section \<open>Keeping a prefix\<close>

lemma keep_appended_ok:
  assumes "layered_holds m0 configs chunk ws" "layered_holds m configs chunk (staged_windows configs chunk ws (\<lambda>i. rows_at i ops))"
    and "\<forall>op \<in> set ops. op_fits configs op" "layer_room configs chunk ws ops"
    and "\<forall>i < length configs. length (rows_at i ops) = n \<and> (lc_sliding (configs ! i) \<longrightarrow> int n \<le> lc_window (configs ! i) + chunk)" "keep \<le> n"
    and "\<forall>i < length configs. \<forall>r \<in> set (snd (ws ! i)). \<forall>x \<in> set (fst r) \<union> set (snd r). feq x x"
  shows "\<exists>m'. layered_KeepAppended feq (Some m) (layered_Checkpoint (Some m0)) (int keep) = (Inr (), Some m') \<and>
    layered_holds m' configs chunk (staged_windows configs chunk ws (\<lambda>i. take keep (rows_at i ops)))"
proof -
  note h = assms(2) [unfolded layered_holds_def]
  have len: "length ws = length configs" using assms(1) by (simp add: layered_holds_def)
  define cp where "cp = layered_Checkpoint (Some m0)"
  have cps: "ly_layers cp = windows_cp configs chunk ws" using layered_checkpoint [OF assms(1)] by (simp add: cp_def)
  let ?Q = "\<lambda>j kv. keep = 0 \<or> kv = (concat (map fst (take keep (rows_at j ops))), concat (map snd (take keep (rows_at j ops))))"
  have fits: "\<forall>r \<in> set (rows_at i ops). row_fits (fst (layer_shape (configs ! i) chunk)) r" for i
    using assms(3) by (auto simp: op_fits_def rows_at_def layer_shape_def)
  have "\<exists>kept. keep_layers feq 0 (ly_layers cp) (int keep) (- 1) (la_stores m) = Inr kept \<and> length kept = length (la_stores m) \<and> (\<forall>j < length (la_stores m). ?Q j (kept ! j))"
  proof (rule keep_layers_ok [where n = "int n"], intro allI impI)
    fix j assume "j < length (la_stores m)"
    then have j: "j < length configs" using h by simp
    let ?sh = "layer_shape (configs ! j) chunk"
    obtain s0 where s0: "store_holds s0 ?sh (fst (ws ! j)) (snd (ws ! j))" "config_ok (configs ! j) chunk" using layered_at [OF assms(1) j] by metis
    obtain s where s: "la_stores m ! j = Some s" "store_holds s ?sh (fst (staged_windows configs chunk ws (\<lambda>i. rows_at i ops) ! j)) (snd (staged_windows configs chunk ws (\<lambda>i. rows_at i ops) ! j))"
      using layered_at [OF assms(2) j] by metis
    have e: "foldl (push (snd ?sh)) (fst (ws ! j), snd (ws ! j)) (rows_at j ops) =
        (fst (staged_windows configs chunk ws (\<lambda>i. rows_at i ops) ! j), snd (staged_windows configs chunk ws (\<lambda>i. rows_at i ops) ! j))" using j by (simp add: staged_windows_def)
    have cap: "case snd ?sh of None \<Rightarrow> True | Some c \<Rightarrow> length (rows_at j ops) \<le> c" using assms(5) j by (auto simp: layer_shape_def)
    have room: "fst (ws ! j) + int (length (snd (ws ! j)) + length (rows_at j ops)) \<le> max_int64" using assms(4) j by (auto simp: layer_room_def row_room_def)
    have n: "length (rows_at j ops) = n" using assms(5) j by simp
    have "\<exists>k v. keep_layer feq j (windows_cp configs chunk ws ! j) (int keep) staged s = Inr (int n, k, v) \<and> ?Q j (k, v)" if st: "staged = - 1 \<or> staged = int n" for staged
      using keep_layer_ok [OF s0(1) s(2) e fits cap room, of keep feq staged j] assms(6,7) j st n windows_cp_nth [OF j len] by auto
    then show "\<exists>s. la_stores m ! j = Some s \<and> (\<forall>staged. staged = - 1 \<or> staged = int n \<longrightarrow>
        (\<exists>k v. keep_layer feq (0 + j) (ly_layers cp ! (0 + j)) (int keep) staged s = Inr (int n, k, v) \<and> ?Q j (k, v)))"
      using s(1) by (simp add: cps)
  qed simp
  then obtain kept where kept: "keep_layers feq 0 (ly_layers cp) (int keep) (- 1) (la_stores m) = Inr kept" "length kept = length configs"
      "\<forall>j < length configs. ?Q j (kept ! j)" using h by auto
  obtain m1 where m1: "restoreLayers cp m = (Inr (), m1)" "layered_holds m1 configs chunk ws"
    using restore_layers [OF assms(1,2)] by (auto simp: cp_def)
  note h1 = m1(2) [unfolded layered_holds_def]
  let ?P = "\<lambda>j s'. store_holds s' (layer_shape (configs ! j) chunk) (fst (staged_windows configs chunk ws (\<lambda>i. take keep (rows_at i ops)) ! j)) (snd (staged_windows configs chunk ws (\<lambda>i. take keep (rows_at i ops)) ! j))"
  have "\<exists>stores. replay_layers configs keep 0 kept (la_stores m1) = (Inr (), stores) \<and> length stores = length (la_stores m1) \<and>
      (\<forall>j < length (la_stores m1). \<exists>s'. stores ! j = Some s' \<and> ?P j s')"
  proof (rule replay_layers_ok)
    show "length kept = length (la_stores m1)" using kept(2) h1 by simp
    show "\<forall>j < length (la_stores m1). \<exists>s s'. la_stores m1 ! j = Some s \<and> replay_rows (nat (lc_dim (configs ! (0 + j)))) 0 keep (kept ! j) s = (Inr (), s') \<and> ?P j s'"
    proof (intro allI impI)
      fix j assume "j < length (la_stores m1)"
      then have j: "j < length configs" using h1 by simp
      let ?sh = "layer_shape (configs ! j) chunk" and ?rs = "take keep (rows_at j ops)"
      obtain s where s: "la_stores m1 ! j = Some s" "store_holds s ?sh (fst (ws ! j)) (snd (ws ! j))" using layered_at [OF m1(2) j] by metis
      have "row_room ?sh (fst (ws ! j)) (length (snd (ws ! j))) (length (rows_at j ops))" using assms(4) j by (simp add: layer_room_def)
      then have "row_room ?sh (fst (ws ! j)) (length (snd (ws ! j))) (length ?rs)" by (rule row_room_le) simp_all
      moreover have "\<forall>r \<in> set ?rs. row_fits (fst ?sh) r" using fits [of j] by (auto dest: in_set_takeD)
      ultimately obtain s' where s': "append_all store_Append ?rs s = (Inr (), s')" "?P j s'"
        using store.append_all_ok [OF s(2), of ?rs] j by (auto simp: staged_windows_def case_prod_beta)
      have "replay_rows (nat (lc_dim (configs ! j))) 0 keep (kept ! j) s = (Inr (), s')"
      proof (cases "keep = 0")
        case False
        have "length ?rs = keep" using assms(5,6) j by simp
        then show ?thesis using replay_rows_eq [of ?rs "nat (lc_dim (configs ! j))" 0 keep s] kept(3) j False fits [of j] s'(1)
          by (auto simp: layer_shape_def dest: in_set_takeD)
      qed (use s'(1) in simp)
      then show "\<exists>s s'. la_stores m1 ! j = Some s \<and> replay_rows (nat (lc_dim (configs ! (0 + j)))) 0 keep (kept ! j) s = (Inr (), s') \<and> ?P j s'"
        using s(1) s'(2) by auto
    qed
  qed
  then obtain stores where st: "replay_layers configs keep 0 kept (la_stores m1) = (Inr (), stores)" "length stores = length configs"
      "\<forall>j < length configs. \<exists>s'. stores ! j = Some s' \<and> ?P j s'" using h1 by auto
  have "validateRestoreCheckpoint (Some m) cp = Inr ()" using cp_accepted [OF assms(1,2)] by (simp add: cp_def)
  moreover have "ly_valid (layered_Checkpoint (Some m))" using layered_checkpoint [OF assms(2)] by simp
  ultimately have "layered_KeepAppended feq (Some m) cp (int keep) = (Inr (), Some (m1\<lparr>la_stores := stores\<rparr>))"
    using kept(1) m1(1) h1 st(1) by (simp add: layered_KeepAppended_def Let_def)
  moreover have "layered_holds (m1\<lparr>la_stores := stores\<rparr>) configs chunk (staged_windows configs chunk ws (\<lambda>i. take keep (rows_at i ops)))"
    using h1 st(2,3) by (simp add: layered_holds_def staged_windows_def)
  ultimately show ?thesis by (auto simp: cp_def)
qed

end
