(* ===== verification/LayeredProps.thy ===== *)
theory LayeredProps
  imports LayeredKeep
begin

text \<open>
  The properties of the row stores and of the layered manager, from an empty manager on, and one
  concrete run: a sliding layer of two rows plus a chunk of one, and a linear layer.
\<close>

section \<open>A new manager\<close>

definition layers_fit :: "layer_config list \<Rightarrow> int \<Rightarrow> bool" where
  "layers_fit configs chunk \<longleftrightarrow> chunk \<le> max_int64 \<and> (\<forall>cfg \<in> set configs. lc_dim cfg \<le> max_int64 \<and> lc_window cfg \<le> max_int64 \<and>
     (lc_sliding cfg \<longrightarrow> 2 * (lc_window cfg + chunk) \<le> max_int64))"

lemma validate_configs_Inr:
  "validate_configs i configs chunk = Inr () \<Longrightarrow> cfg \<in> set configs \<Longrightarrow> validateLayerF32KVConfig cfg chunk = Inr ()"
  by (induction configs arbitrary: i) (auto simp: at_layer_def res_bind_Inr split: sum.splits)

lemma validate_stores_Inr: "validate_stores m i sos = Inr () \<Longrightarrow> j < length sos \<Longrightarrow> validateLayerStore m (i + j) (sos ! j) = Inr ()"
proof (induction sos arbitrary: i j)
  case (Cons so sos)
  then show ?case using Cons.IH [of "Suc i" "j - 1"] by (cases j) (auto simp: res_bind_Inr)
qed simp

lemma new_manager_holds:
  assumes "NewLayeredF32KV z configs chunk = Inr m" "layers_fit configs chunk"
  shows "layered_holds m configs chunk (replicate (length configs) (0, []))"
proof -
  let ?store = "\<lambda>cfg. if lc_sliding cfg then RingF32KV (Some (NewRingF32KV z (lc_dim cfg) (capacity_of cfg chunk))) else LinearF32KV (Some (NewLinearF32KV (lc_dim cfg)))"
  have m: "m = \<lparr>la_configs = configs, la_stores = map (\<lambda>cfg. Some (?store cfg)) configs, la_chunk = chunk\<rparr>"
    "validateLayerF32KVConfigs configs chunk = Inr ()" "layered_Validate (Some m) = Inr ()"
    using assms(1) by (auto simp: NewLayeredF32KV_def res_bind_Inr Let_def)
  have chunk: "0 \<le> chunk" "validate_configs 0 configs chunk = Inr ()" using m(2) by (auto simp: validateLayerF32KVConfigs_def split: if_splits)
  have vs: "validate_stores m 0 (la_stores m) = Inr ()" using m(2,3) by (auto simp: layered_Validate_def m(1) res_bind_Inr)
  have "config_ok (configs ! i) chunk \<and> store_holds (?store (configs ! i)) (layer_shape (configs ! i) chunk) 0 []" if i: "i < length configs" for i
  proof -
    let ?c = "configs ! i"
    have fit: "lc_dim ?c \<le> max_int64" "lc_window ?c \<le> max_int64" "chunk \<le> max_int64" "lc_sliding ?c \<longrightarrow> 2 * (lc_window ?c + chunk) \<le> max_int64"
      using assms(2) i by (auto simp: layers_fit_def)
    have ok: "config_ok ?c chunk" using validate_configs_Inr [OF chunk(2)] i chunk(1) fit by (simp add: config_ok_def)
    note C = config_facts [OF ok]
    show ?thesis
    proof (cases "lc_sliding ?c")
      case False
      then show ?thesis using ok new_linear_holds [of "nat (lc_dim ?c)"] C(1) fit(1) by (simp add: layer_shape_def)
    next
      case True
      have v: "validateLayerStore m i (Some (?store ?c)) = Inr ()" using validate_stores_Inr [OF vs, of i] i by (simp add: m(1))
      let ?cap = "nat (lc_window ?c + chunk)"
      have cap: "capacity_of ?c chunk = int ?cap" "0 < ?cap" "int (2 * ?cap) \<le> max_int64" using C True fit(4) chunk(1) by (auto simp: layer_shape_def)
      have "ri_capacity (NewRingF32KV z (lc_dim ?c) (int ?cap)) = int ?cap"
        using v True i cap(1) by (auto simp: validateLayerStore_def m(1) Let_def ring_Capacity_def split: if_splits)
      then have "snd (MulInt (lc_dim ?c) (int ?cap))" using C(1) cap(2) by (auto simp: NewRingF32KV_def Let_def split: if_splits prod.splits)
      then have "lc_dim ?c * int ?cap \<le> max_int64"
        using C(1) fit(1) cap(3) MulInt_spec [of "lc_dim ?c" "int ?cap"] by (auto simp: go_int split: if_splits)
      then have "int (nat (lc_dim ?c) * ?cap) \<le> max_int64" using C(1) by simp
      then show ?thesis using new_ring_holds [of "nat (lc_dim ?c)" ?cap z] C(1) cap ok True by (simp add: layer_shape_def)
    qed
  qed
  then show ?thesis using chunk(1) by (auto simp: layered_holds_def m(1))
qed

text \<open>The windows after a sequence of calls on a new manager.\<close>

definition layer_window :: "layer_config \<Rightarrow> int \<Rightarrow> 'f row list \<Rightarrow> 'f list \<times> 'f list \<times> int" where
  "layer_window cfg chunk rows = (let kept = window (if lc_sliding cfg then Some (nat (lc_window cfg + chunk)) else None) rows in
     (concat (map fst kept), concat (map snd kept), int (length rows) - int (length kept)))"

definition rows_fit_memory :: "layer_config list \<Rightarrow> 'f append_op list \<Rightarrow> bool" where
  "rows_fit_memory configs ops \<longleftrightarrow> (\<forall>op \<in> set ops. op_fits configs op) \<and> (\<forall>i < length configs. int (length (rows_at i ops)) * lc_dim (configs ! i) \<le> max_int64)"

definition new_windows :: "layer_config list \<Rightarrow> 'f windows" where
  "new_windows configs = replicate (length configs) (0, [])"

definition shown_windows :: "layer_config list \<Rightarrow> int \<Rightarrow> (nat \<Rightarrow> 'f row list) \<Rightarrow> 'f windows" where
  "shown_windows configs chunk rows = map (\<lambda>i. (window_start (snd (layer_shape (configs ! i) chunk)) (rows i), window (snd (layer_shape (configs ! i) chunk)) (rows i))) [0..<length configs]"

lemma cap_pos: "config_ok cfg chunk \<Longrightarrow> case snd (layer_shape cfg chunk) of None \<Rightarrow> True | Some n \<Rightarrow> 0 < n"
  using config_facts(4) [of cfg chunk] by (auto simp: layer_shape_def config_ok_def)

lemma staged_shown:
  assumes "\<forall>i < length configs. config_ok (configs ! i) chunk"
  shows "staged_windows configs chunk (shown_windows configs chunk rows) news = shown_windows configs chunk (\<lambda>i. rows i @ news i)"
    "new_windows configs = shown_windows configs chunk (\<lambda>_. [])"
proof -
  show "staged_windows configs chunk (shown_windows configs chunk rows) news = shown_windows configs chunk (\<lambda>i. rows i @ news i)"
    unfolding staged_windows_def
  proof (rule nth_equalityI)
    fix i assume "i < length (map (\<lambda>i. foldl (push (snd (layer_shape (configs ! i) chunk))) (shown_windows configs chunk rows ! i) (news i)) [0..<length configs])"
    then have i: "i < length configs" by simp
    then have "config_ok (configs ! i) chunk" using assms by simp
    from pushes_window [OF cap_pos [OF this], of 0 "rows i" "news i"] i
    show "map (\<lambda>i. foldl (push (snd (layer_shape (configs ! i) chunk))) (shown_windows configs chunk rows ! i) (news i)) [0..<length configs] ! i =
        shown_windows configs chunk (\<lambda>i. rows i @ news i) ! i" by (simp add: shown_windows_def)
  qed (simp add: shown_windows_def)
  show "new_windows configs = shown_windows configs chunk (\<lambda>_. [])"
    by (rule nth_equalityI) (auto simp: new_windows_def shown_windows_def window_start_def window_def split: option.splits)
qed

lemma length_window: "length (window c xs) \<le> length xs"
  by (simp add: window_def split: option.splits)

lemma shown_room:
  assumes "\<forall>i < length configs. config_ok (configs ! i) chunk" "\<forall>i < length configs. int (length (rows i) + length (rows_at i ops)) * lc_dim (configs ! i) \<le> max_int64"
  shows "layer_room configs chunk (shown_windows configs chunk rows) ops"
  unfolding layer_room_def
proof (intro allI impI)
  fix i assume i: "i < length configs"
  let ?sh = "layer_shape (configs ! i) chunk"
  have d: "int (fst ?sh) = lc_dim (configs ! i)" "0 < fst ?sh" using config_facts(1,2) [of "configs ! i" chunk] assms(1) i by auto
  have "int ((length (rows i) + length (rows_at i ops)) * fst ?sh) \<le> max_int64" using assms(2) i d(1) by simp
  moreover from this have "int (length (rows i) + length (rows_at i ops)) \<le> max_int64" by (rule rows_le [OF d(2)])
  ultimately have "row_room ?sh 0 (length (rows i)) (length (rows_at i ops))" by (simp only: row_room_def) simp
  then show "row_room ?sh (fst (shown_windows configs chunk rows ! i)) (length (snd (shown_windows configs chunk rows ! i))) (length (rows_at i ops))"
    by (rule row_room_le) (use length_window [of "snd ?sh" "rows i"] i in \<open>simp_all add: shown_windows_def window_start_def\<close>)
qed

lemma shown_materialize:
  assumes "layered_holds m configs chunk (shown_windows configs chunk rows)" "i < length configs"
  shows "MaterializeLayer (Some m) (int i) = Inr (layer_window (configs ! i) chunk (rows i))"
proof -
  note h = assms(1) [unfolded layered_holds_def]
  obtain s where s: "la_stores m ! i = Some s" "store_holds s (layer_shape (configs ! i) chunk) (fst (shown_windows configs chunk rows ! i)) (snd (shown_windows configs chunk rows ! i))" "config_ok (configs ! i) chunk"
    using layered_at [OF assms] by metis
  have "validateLayerStore m i (Some s) = Inr ()" using validate_store_ok [OF _ _ assms(2) s(3,2)] h by simp
  moreover have "storeForLayer (Some m) (int i) = Inr s" using s(1) assms(2) h by (simp add: storeForLayer_def)
  ultimately show ?thesis using store.materialize_ok [OF s(2)] assms(2)
    by (simp add: MaterializeLayer_def validated_def shown_windows_def layer_window_def layer_shape_def window_start_def Let_def)
qed

text \<open>Calls on a manager that shows windows.\<close>

lemma shown_run:
  assumes "layered_holds m configs chunk (shown_windows configs chunk rows)" "\<forall>op \<in> set ops. op_fits configs op"
    and "\<forall>i < length configs. int (length (rows i) + length (rows_at i ops)) * lc_dim (configs ! i) \<le> max_int64"
  shows "\<exists>m'. run_appends ops (Some m) = (Inr (), Some m') \<and> layered_holds m' configs chunk (shown_windows configs chunk (\<lambda>i. rows i @ rows_at i ops))"
proof -
  have ok: "\<forall>i < length configs. config_ok (configs ! i) chunk" using assms(1) by (simp add: layered_holds_def)
  show ?thesis using run_appends_ok [OF assms(1,2) shown_room [OF ok assms(3)]] by (simp add: staged_shown(1) [OF ok])
qed

lemma new_run:
  assumes "NewLayeredF32KV z configs chunk = Inr m" "layers_fit configs chunk" "rows_fit_memory configs ops"
  shows "\<exists>m'. run_appends ops (Some m) = (Inr (), Some m') \<and> layered_holds m' configs chunk (shown_windows configs chunk (\<lambda>i. rows_at i ops))"
proof -
  have new: "layered_holds m configs chunk (new_windows configs)" unfolding new_windows_def by (rule new_manager_holds [OF assms(1,2)])
  then have ok: "\<forall>i < length configs. config_ok (configs ! i) chunk" by (simp add: layered_holds_def)
  show ?thesis using shown_run [of m configs chunk "\<lambda>_. []" ops] new assms(3) by (simp add: staged_shown(2) [OF ok] rows_fit_memory_def)
qed

section \<open>Properties\<close>

text \<open>x\<close>

theorem ring_keeps_the_last_rows:
  assumes "0 < d" "0 < cap" "int (d * cap) \<le> max_int64" "int (2 * cap) \<le> max_int64" "int (length rows) \<le> max_int64" "\<forall>r \<in> set rows. row_fits d r"
  shows "\<exists>s. append_all ring_Append rows (Some (NewRingF32KV z (int d) (int cap))) = (Inr (), s) \<and>
    ring_Materialize s = (concat (map fst (drop (length rows - cap) rows)), concat (map snd (drop (length rows - cap) rows)), int (length rows - cap)) \<and>
    ring_Tokens s = int (min cap (length rows))"
proof -
  have "\<forall>r \<in> set rows. row_fits (fst (d, Some cap)) r" "row_room (d, Some cap) 0 0 (length rows)" using assms(5,6) by (simp_all add: row_room_def)
  from ring.append_all_new [OF new_ring_holds [OF assms(1-4)] this] obtain s where
    s: "append_all ring_Append rows (Some (NewRingF32KV z (int d) (int cap))) = (Inr (), s)"
      "ring_holds s (d, Some cap) (window_start (Some cap) rows) (window (Some cap) rows)"
      "ring_Materialize s = (concat (map fst (drop (length rows - cap) rows)), concat (map snd (drop (length rows - cap) rows)), window_start (Some cap) rows)" by auto
  have "ring_Tokens s = int (length (window (Some cap) rows))" using s(2) by (auto simp: ring_holds_def ring_Tokens_def)
  then show ?thesis using s(1,3) by (auto simp: window_start_def min_def)
qed

lemma ring_keeps_the_last_rows_witness:
  "\<exists>s. append_all ring_Append [([1], [2]), ([3], [4]), ([5], [6])] (Some (NewRingF32KV (0::nat) 1 2)) = (Inr (), s) \<and>
    ring_Materialize s = ([3, 5], [4, 6], 1)"
  using ring_keeps_the_last_rows [of 1 2 "[([1], [2]), ([3], [4]), ([5], [6])]" "0::nat"] by (auto simp: max_int64_def row_fits_def)

text \<open>C10. Whatever rows are appended to the layers of a new manager, every layer shows all of its
  rows when it keeps them all, and its last window + chunk rows when it slides, with the position
  of the first; the manager passes its own validation.\<close>

theorem layers_show_their_windows:
  assumes "NewLayeredF32KV z configs chunk = Inr m" "layers_fit configs chunk" "rows_fit_memory configs ops"
  shows "\<exists>m'. run_appends ops (Some m) = (Inr (), Some m') \<and> layered_Validate (Some m') = Inr () \<and>
    (\<forall>i < length configs. MaterializeLayer (Some m') (int i) = Inr (layer_window (configs ! i) chunk (rows_at i ops)))"
proof -
  obtain m' where m': "run_appends ops (Some m) = (Inr (), Some m')" "layered_holds m' configs chunk (shown_windows configs chunk (\<lambda>i. rows_at i ops))"
    using new_run [OF assms] by blast
  then show ?thesis using shown_materialize [OF m'(2)] layered_valid [OF m'(2)] by auto
qed


section \<open>A concrete run\<close>

definition sample_layers :: "layer_config list" where
  "sample_layers = [\<lparr>lc_dim = 1, lc_sliding = True, lc_window = 2\<rparr>, \<lparr>lc_dim = 2, lc_sliding = False, lc_window = 0\<rparr>]"

definition sample_before :: "nat append_op list" where
  "sample_before = [(0, ([1], [2])), (1, ([1, 2], [3, 4])), (0, ([3], [4])), (0, ([5], [6]))]"

definition sample_staged :: "nat append_op list" where
  "sample_staged = [(0, ([7], [8])), (1, ([5, 6], [7, 8])), (1, ([9, 9], [9, 9])), (0, ([9], [9]))]"

lemma sample_layers_new: "\<exists>m. NewLayeredF32KV (0::nat) sample_layers 1 = Inr m"
proof -
  have "case NewLayeredF32KV (0::nat) sample_layers 1 of Inr _ \<Rightarrow> True | Inl _ \<Rightarrow> False" by code_simp
  then show ?thesis by (auto split: sum.splits)
qed

lemma sample_layers_fit: "layers_fit sample_layers 1" "rows_fit_memory sample_layers (sample_before @ sample_staged)" "rows_fit_memory sample_layers sample_before"
  by (auto simp: layers_fit_def rows_fit_memory_def op_fits_def row_fits_def sample_layers_def sample_before_def sample_staged_def max_int64_def less_Suc_eq)

lemma layers_show_their_windows_witness:
  "\<exists>m m'. NewLayeredF32KV (0::nat) sample_layers 1 = Inr m \<and> run_appends sample_before (Some m) = (Inr (), Some m') \<and>
    MaterializeLayer (Some m') 0 = Inr ([1, 3, 5], [2, 4, 6], 0) \<and> MaterializeLayer (Some m') 1 = Inr ([1, 2], [3, 4], 0)"
proof -
  obtain m where m: "NewLayeredF32KV (0::nat) sample_layers 1 = Inr m" using sample_layers_new by blast
  obtain m' where m': "run_appends sample_before (Some m) = (Inr (), Some m')"
      "\<forall>i < length sample_layers. MaterializeLayer (Some m') (int i) = Inr (layer_window (sample_layers ! i) 1 (rows_at i sample_before))"
    using layers_show_their_windows [OF m sample_layers_fit(1,3)] by blast
  show ?thesis using m m'(1) m'(2) [rule_format, of 0] m'(2) [rule_format, of 1]
    by (auto simp: sample_layers_def sample_before_def layer_window_def window_def numeral_2_eq_2)
qed


end
