(* ===== verification/ReuseCache.thy ===== *)
theory ReuseCache
  imports Checked "HOL-Library.AList"
begin

text \<open>
  \<open>runtime/kv/reuse.go\<close>: a cache of prompt chunks under a byte budget, least recently used first out.
  List elements are pointers shared by the list and the map, so both hold identifiers into a heap of
  entries; \<open>cc_next\<close> is the next fresh identifier. The map is an association list with distinct keys. The mutex makes every call atomic. Snapshots are
  values here, so cloning one copies nothing more; \<open>uint64\<close> counters wrap.
\<close>

record chunk_key =
  ModelID :: string
  Backend :: string
  DType :: string
  LayerLayout :: string
  TokenHash :: int
  ChunkSize :: int
  EndPos :: int

record 'f layer_snapshot =
  ls_K :: "'f list"
  ls_V :: "'f list"
  ls_SeqLen :: int
  ls_KVDim :: int

record 'f kv_snapshot =
  ss_Layers :: "'f layer_snapshot list"
  ss_SeqLen :: int
  ss_Hidden :: "'f list"

record 'f chunk_entry =
  ce_Key :: chunk_key
  ce_Tokens :: "int list"
  ce_Snap :: "'f kv_snapshot"
  ce_Bytes :: int
  ce_LastUse :: int

record 'f chunk_cache =
  cc_max :: int
  cc_used :: int
  cc_tick :: int
  cc_ll :: "nat list"
  cc_items :: "(chunk_key \<times> nat) list"
  cc_heap :: "nat \<rightharpoonup> 'f chunk_entry"
  cc_next :: nat

definition NewChunkCache :: "int \<Rightarrow> 'f chunk_cache" where
  "NewChunkCache maxBytes = \<lparr>cc_max = (if maxBytes < 0 then 0 else maxBytes), cc_used = 0, cc_tick = 0, cc_ll = [],
     cc_items = [], cc_heap = Map.empty, cc_next = 0\<rparr>"

section \<open>Hashing\<close>

text \<open>\<open>hash/fnv\<close>, variant 1a over 64 bits, on the eight little-endian bytes of a number.\<close>

definition fnv_byte :: "64 word \<Rightarrow> 64 word \<Rightarrow> 64 word" where
  "fnv_byte h b = (xor h b) * 1099511628211"

definition byte_of :: "64 word \<Rightarrow> nat \<Rightarrow> 64 word" where
  "byte_of u i = take_bit 8 (drop_bit (8 * i) u)"

definition fnv_number :: "64 word \<Rightarrow> 64 word \<Rightarrow> 64 word" where
  "fnv_number h u = fold (\<lambda>i h. fnv_byte h (byte_of u i)) [0..<8] h"

definition HashTokenChunk :: "64 word \<Rightarrow> int list \<Rightarrow> 64 word" where
  "HashTokenChunk prev tokens = fold (\<lambda>t h. fnv_number h (word_of_int t)) tokens (fnv_number 14695981039346656037 prev)"

section \<open>Sizes\<close>

definition add_floats :: "int \<Rightarrow> int \<Rightarrow> go_error + int" where
  "add_floats v n =
     (if v < 0 then Inl (Errorf ''negative length %d'' [AN v])
      else if v > go_quot (2 ^ 62 - n) 4 then Inl (Errorf ''snapshot size overflow'' [])
      else Inr (wrap64 (n + v * 4)))"

fun add_layers :: "'f layer_snapshot list \<Rightarrow> int \<Rightarrow> go_error + int" where
  "add_layers [] n = Inr n"
| "add_layers (l # ls) n = res_bind (add_floats (int (length (ls_K l))) n) (\<lambda>n1.
     res_bind (add_floats (int (length (ls_V l))) n1) (\<lambda>n2. add_layers ls n2))"

definition EstimateSnapshotBytes :: "'f kv_snapshot \<Rightarrow> go_error + int" where
  "EstimateSnapshotBytes s = res_bind (add_layers (ss_Layers s) 0) (\<lambda>n. add_floats (int (length (ss_Hidden s))) n)"

fun add_parts :: "int list \<Rightarrow> int \<Rightarrow> int option" where
  "add_parts [] n = Some n"
| "add_parts (p # ps) n = (if p < 0 \<or> p > wrap64 (max_int64 - n) then None else add_parts ps (wrap64 (n + p)))"

definition EstimateChunkEntryBytes :: "chunk_key \<Rightarrow> int \<Rightarrow> 'f kv_snapshot \<Rightarrow> int \<Rightarrow> go_error + int" where
  "EstimateChunkEntryBytes key tokens snap retained = res_bind (EstimateSnapshotBytes snap) (\<lambda>payload.
     if tokens < 0 \<or> retained < 0 then Inl (Errorf ''negative retained size'' [])
     else let layers = int (length (ss_Layers snap)) in
       if tokens > go_quot max_int64 8 \<or> layers > go_quot max_int64 64 then Inl (Errorf ''entry size overflow'' [])
       else (case add_parts [256, wrap64 (tokens * 8), wrap64 (layers * 64), int (length (ModelID key)), int (length (Backend key)),
                int (length (DType key)), int (length (LayerLayout key)), retained] payload of
           None \<Rightarrow> Inl (Errorf ''entry size overflow'' [])
         | Some n \<Rightarrow> Inr n))"

definition CloneSnapshot :: "'f kv_snapshot \<Rightarrow> 'f kv_snapshot" where
  "CloneSnapshot s = \<lparr>ss_Layers = map (\<lambda>l. \<lparr>ls_K = ls_K l, ls_V = ls_V l, ls_SeqLen = ls_SeqLen l, ls_KVDim = ls_KVDim l\<rparr>) (ss_Layers s),
     ss_SeqLen = ss_SeqLen s, ss_Hidden = ss_Hidden s\<rparr>"

section \<open>Operations\<close>

text \<open>Removing a nil element, or one whose entry is gone, would panic.\<close>

definition chunk_remove :: "nat \<Rightarrow> 'f chunk_cache \<Rightarrow> 'f chunk_cache option" where
  "chunk_remove el c = (case cc_heap c el of None \<Rightarrow> None | Some ent \<Rightarrow>
     Some (c\<lparr>cc_items := AList.delete (ce_Key ent) (cc_items c), cc_used := wrap64 (cc_used c - ce_Bytes ent),
       cc_ll := remove1 el (cc_ll c), cc_heap := (cc_heap c)(el := None)\<rparr>))"

lemma chunk_remove_shorter:
  assumes "chunk_remove el c = Some c'" "el \<in> set (cc_ll c)"
  shows "length (cc_ll c') < length (cc_ll c)"
  using assms length_pos_if_in_set [OF assms(2)] by (auto simp: chunk_remove_def length_remove1 split: option.splits)

function chunk_evict :: "int \<Rightarrow> 'f chunk_cache \<Rightarrow> 'f chunk_cache option" where
  "chunk_evict bytes c =
     (if cc_used c > wrap64 (cc_max c - bytes)
      then if cc_ll c = [] then None
        else (case chunk_remove (last (cc_ll c)) c of None \<Rightarrow> None | Some c' \<Rightarrow> chunk_evict bytes c')
      else Some c)"
  by pat_completeness auto
termination
  by (relation "measure (\<lambda>(bytes, c). length (cc_ll c))") (auto simp: chunk_remove_shorter)

declare chunk_evict.simps [simp del]

definition chunk_insert :: "chunk_key \<Rightarrow> int list \<Rightarrow> 'f kv_snapshot \<Rightarrow> int \<Rightarrow> 'f chunk_cache \<Rightarrow> 'f chunk_cache" where
  "chunk_insert key tokens snap bytes c =
     (let tick = wrapu64 (cc_tick c + 1); el = cc_next c;
          ent = \<lparr>ce_Key = key, ce_Tokens = tokens, ce_Snap = CloneSnapshot snap, ce_Bytes = bytes, ce_LastUse = tick\<rparr> in
      c\<lparr>cc_tick := tick, cc_heap := (cc_heap c)(el \<mapsto> ent), cc_next := el + 1, cc_ll := el # cc_ll c,
        cc_items := AList.update key el (cc_items c), cc_used := wrap64 (cc_used c + bytes)\<rparr>)"

definition PutWithRetainedBytes ::
  "'f chunk_cache option \<Rightarrow> chunk_key \<Rightarrow> int list \<Rightarrow> 'f kv_snapshot \<Rightarrow> int \<Rightarrow> (go_error + unit) \<times> 'f chunk_cache option" where
  "PutWithRetainedBytes co key tokens snap retained = (case co of None \<Rightarrow> (Inl (Errorf ''nil chunk cache'' []), None) | Some c \<Rightarrow>
     (case EstimateChunkEntryBytes key (int (length tokens)) snap retained of
        Inl e \<Rightarrow> (Inl e, Some c)
      | Inr bytes \<Rightarrow>
          if cc_max c \<le> 0 \<or> bytes > cc_max c then (Inl (Errorf ''chunk cache entry exceeds budget'' []), Some c)
          else (case (case map_of (cc_items c) key of None \<Rightarrow> Some c | Some old \<Rightarrow> chunk_remove old c) of
              None \<Rightarrow> (Inl Panic, Some c)
            | Some c1 \<Rightarrow> (case chunk_evict bytes c1 of
                None \<Rightarrow> (Inl Panic, Some c1)
              | Some c2 \<Rightarrow> (Inr (), Some (chunk_insert key tokens snap bytes c2))))))"

definition chunk_Put :: "'f chunk_cache option \<Rightarrow> chunk_key \<Rightarrow> int list \<Rightarrow> 'f kv_snapshot \<Rightarrow> (go_error + unit) \<times> 'f chunk_cache option" where
  "chunk_Put co key tokens snap = PutWithRetainedBytes co key tokens snap 0"

definition chunk_Get :: "'f chunk_cache option \<Rightarrow> chunk_key \<Rightarrow> 'f chunk_entry option \<times> 'f chunk_cache option" where
  "chunk_Get co key = (case co of None \<Rightarrow> (None, None) | Some c \<Rightarrow>
     (case map_of (cc_items c) key of None \<Rightarrow> (None, Some c) | Some el \<Rightarrow>
       (case cc_heap c el of None \<Rightarrow> (None, Some c) | Some ent \<Rightarrow>
         let tick = wrapu64 (cc_tick c + 1); ent' = ent\<lparr>ce_LastUse := tick\<rparr> in
         (Some (ent'\<lparr>ce_Snap := CloneSnapshot (ce_Snap ent')\<rparr>),
          Some (c\<lparr>cc_tick := tick, cc_heap := (cc_heap c)(el \<mapsto> ent'), cc_ll := el # remove1 el (cc_ll c)\<rparr>)))))"

definition chunk_Contains :: "'f chunk_cache option \<Rightarrow> chunk_key \<Rightarrow> bool" where
  "chunk_Contains co key = (case co of None \<Rightarrow> False | Some c \<Rightarrow> map_of (cc_items c) key \<noteq> None)"

definition UsedBytes :: "'f chunk_cache option \<Rightarrow> int" where
  "UsedBytes co = (case co of None \<Rightarrow> 0 | Some c \<Rightarrow> cc_used c)"

definition MaxBytes :: "'f chunk_cache option \<Rightarrow> int" where
  "MaxBytes co = (case co of None \<Rightarrow> 0 | Some c \<Rightarrow> cc_max c)"

definition chunk_Len :: "'f chunk_cache option \<Rightarrow> int" where
  "chunk_Len co = (case co of None \<Rightarrow> 0 | Some c \<Rightarrow> int (length (cc_items c)))"

end
