(* ===== verification/ReuseFacts.thy ===== *)
theory ReuseFacts
  imports ReuseCache
begin

text \<open>
  The chunk cache as a list of entries, most recently used first: the invariant that ties list, map
  and heap together, and what each operation does to the list.
\<close>

section \<open>Sizes\<close>

lemma add_floats_Inr:
  assumes "add_floats v n = Inr t" "0 \<le> n" "n \<le> 2 ^ 62"
  shows "0 \<le> v \<and> t = n + v * 4 \<and> n \<le> t \<and> t \<le> 2 ^ 62"
proof -
  have v: "0 \<le> v" "\<not> v > go_quot (2 ^ 62 - n) 4" "t = wrap64 (n + v * 4)" using assms(1) by (auto simp: add_floats_def split: if_splits)
  then have "v * 4 \<le> 2 ^ 62 - n" using assms(2,3) go_quot_nonneg [of "2 ^ 62 - n" 4] by auto
  then show ?thesis using v(1,3) assms(2) by (auto simp: go_int)
qed

definition floats_in :: "'f kv_snapshot \<Rightarrow> int" where
  "floats_in s = sum_list (map (\<lambda>l. int (length (ls_K l)) + int (length (ls_V l))) (ss_Layers s)) + int (length (ss_Hidden s))"

lemma add_layers_Inr:
  assumes "add_layers ls n = Inr t" "0 \<le> n" "n \<le> 2 ^ 62"
  shows "t = n + 4 * sum_list (map (\<lambda>l. int (length (ls_K l)) + int (length (ls_V l))) ls) \<and> 0 \<le> t \<and> t \<le> 2 ^ 62"
  using assms
proof (induction ls arbitrary: n)
  case (Cons l ls)
  obtain n1 n2 where n: "add_floats (int (length (ls_K l))) n = Inr n1" "add_floats (int (length (ls_V l))) n1 = Inr n2" "add_layers ls n2 = Inr t"
    using Cons.prems(1) by (auto simp: res_bind_Inr)
  note A = add_floats_Inr [OF n(1) Cons.prems(2,3)]
  then have "0 \<le> n1" "n1 \<le> 2 ^ 62" using Cons.prems(2) by auto
  note B = add_floats_Inr [OF n(2) this]
  then have "0 \<le> n2" "n2 \<le> 2 ^ 62" using \<open>0 \<le> n1\<close> by auto
  from Cons.IH [OF n(3) this] show ?case using A B by (simp add: algebra_simps)
qed simp

lemma EstimateSnapshotBytes_Inr:
  assumes "EstimateSnapshotBytes s = Inr t"
  shows "t = 4 * floats_in s \<and> 0 \<le> t \<and> t \<le> 2 ^ 62"
proof -
  obtain n where n: "add_layers (ss_Layers s) 0 = Inr n" "add_floats (int (length (ss_Hidden s))) n = Inr t"
    using assms by (auto simp: EstimateSnapshotBytes_def res_bind_Inr)
  note A = add_layers_Inr [OF n(1)]
  then have "0 \<le> n" "n \<le> 2 ^ 62" by simp_all
  from add_floats_Inr [OF n(2) this] A show ?thesis by (simp add: floats_in_def)
qed

lemma add_parts_Some:
  assumes "add_parts ps n = Some t" "0 \<le> n" "n \<le> max_int64"
  shows "t = n + sum_list ps \<and> (\<forall>p \<in> set ps. 0 \<le> p) \<and> t \<le> max_int64"
  using assms
proof (induction ps arbitrary: n)
  case (Cons p ps)
  have p: "0 \<le> p" "p \<le> max_int64 - n" "add_parts ps (wrap64 (n + p)) = Some t"
    using Cons.prems wrap64_id [of "max_int64 - n"] by (auto simp: go_int split: if_splits)
  then have "wrap64 (n + p) = n + p" using Cons.prems(2) by (simp add: go_int)
  then show ?case using Cons.IH [of "n + p"] p Cons.prems(2) by auto
qed simp

text \<open>Conversely, sizes that fit are estimated.\<close>

lemma add_floats_fits:
  assumes "0 \<le> v" "0 \<le> n" "n + 4 * v \<le> 2 ^ 62"
  shows "add_floats v n = Inr (n + 4 * v)"
proof -
  have "v \<le> go_quot (2 ^ 62 - n) 4" using assms go_quot_nonneg [of "2 ^ 62 - n" 4] by auto
  then show ?thesis using assms by (auto simp: add_floats_def go_int)
qed

lemma add_layers_fits:
  assumes "0 \<le> n" "n + 4 * sum_list (map (\<lambda>l. int (length (ls_K l)) + int (length (ls_V l))) ls) \<le> 2 ^ 62"
  shows "add_layers ls n = Inr (n + 4 * sum_list (map (\<lambda>l. int (length (ls_K l)) + int (length (ls_V l))) ls))"
  using assms
proof (induction ls arbitrary: n)
  case (Cons l ls)
  have "0 \<le> sum_list (map (\<lambda>l. int (length (ls_K l)) + int (length (ls_V l))) ls)" by (rule sum_list_nonneg) auto
  then show ?case using Cons.prems Cons.IH [of "n + 4 * int (length (ls_K l)) + 4 * int (length (ls_V l))"]
    by (simp add: add_floats_fits algebra_simps)
qed simp

lemma EstimateSnapshotBytes_fits:
  assumes "4 * floats_in s \<le> 2 ^ 62"
  shows "EstimateSnapshotBytes s = Inr (4 * floats_in s)"
proof -
  have n: "0 \<le> sum_list (map (\<lambda>l. int (length (ls_K l)) + int (length (ls_V l))) (ss_Layers s))" by (rule sum_list_nonneg) auto
  then have "add_layers (ss_Layers s) 0 = Inr (4 * sum_list (map (\<lambda>l. int (length (ls_K l)) + int (length (ls_V l))) (ss_Layers s)))"
    using assms add_layers_fits [of 0 "ss_Layers s"] by (simp add: floats_in_def)
  then show ?thesis using n assms by (simp add: EstimateSnapshotBytes_def floats_in_def add_floats_fits)
qed

lemma add_parts_fits:
  assumes "\<forall>p \<in> set ps. 0 \<le> p" "0 \<le> n" "n + sum_list ps \<le> max_int64"
  shows "add_parts ps n = Some (n + sum_list ps)"
  using assms
proof (induction ps arbitrary: n)
  case (Cons p ps)
  have "0 \<le> sum_list ps" using Cons.prems(1) by (intro sum_list_nonneg) auto
  then have f: "n + p \<le> max_int64" "p \<le> max_int64 - n" "0 \<le> p" using Cons.prems by auto
  then have "wrap64 (n + p) = n + p" "wrap64 (max_int64 - n) = max_int64 - n" using Cons.prems(2) by (auto simp: go_int)
  then show ?case using Cons.IH [of "n + p"] Cons.prems f by (simp add: algebra_simps)
qed simp

definition entry_cost :: "chunk_key \<Rightarrow> int \<Rightarrow> 'f kv_snapshot \<Rightarrow> int \<Rightarrow> int" where
  "entry_cost key tokens snap retained = 256 + 8 * tokens + 64 * int (length (ss_Layers snap)) + 4 * floats_in snap +
     int (length (ModelID key) + length (Backend key) + length (DType key) + length (LayerLayout key)) + retained"

lemma EstimateChunkEntryBytes_Inr:
  assumes "EstimateChunkEntryBytes key tokens snap retained = Inr t"
  shows "t = entry_cost key tokens snap retained \<and> 256 \<le> t \<and> t \<le> max_int64"
proof -
  let ?l = "int (length (ss_Layers snap))"
  obtain payload where p: "EstimateSnapshotBytes snap = Inr payload" "\<not> (tokens < 0 \<or> retained < 0)" "\<not> (tokens > go_quot max_int64 8 \<or> ?l > go_quot max_int64 64)"
      "add_parts [256, wrap64 (tokens * 8), wrap64 (?l * 64), int (length (ModelID key)), int (length (Backend key)), int (length (DType key)), int (length (LayerLayout key)), retained] payload = Some t"
    using assms by (auto simp: EstimateChunkEntryBytes_def res_bind_Inr Let_def split: if_splits option.splits)
  note P = EstimateSnapshotBytes_Inr [OF p(1)]
  have "tokens * 8 \<le> max_int64" "?l * 64 \<le> max_int64" using p(2,3) by (auto simp: quot_guard)
  then have "wrap64 (tokens * 8) = tokens * 8" "wrap64 (?l * 64) = ?l * 64" using p(2) by (auto simp: go_int)
  moreover have "payload \<le> max_int64" using P by (simp add: go_int)
  ultimately show ?thesis using add_parts_Some [OF p(4)] P p(2) by (auto simp: entry_cost_def)
qed

lemma EstimateChunkEntryBytes_iff:
  assumes "0 \<le> tokens"
  shows "EstimateChunkEntryBytes key tokens snap retained = Inr t \<longleftrightarrow> t = entry_cost key tokens snap retained \<and>
    0 \<le> retained \<and> 4 * floats_in snap \<le> 2 ^ 62 \<and> t \<le> max_int64"
proof
  assume est: "EstimateChunkEntryBytes key tokens snap retained = Inr t"
  obtain payload where p: "EstimateSnapshotBytes snap = Inr payload" "\<not> (tokens < 0 \<or> retained < 0)"
    using est by (auto simp: EstimateChunkEntryBytes_def res_bind_Inr Let_def split: if_splits option.splits)
  show "t = entry_cost key tokens snap retained \<and> 0 \<le> retained \<and> 4 * floats_in snap \<le> 2 ^ 62 \<and> t \<le> max_int64"
    using EstimateChunkEntryBytes_Inr [OF est] EstimateSnapshotBytes_Inr [OF p(1)] p(2) by auto
next
  assume fits: "t = entry_cost key tokens snap retained \<and> 0 \<le> retained \<and> 4 * floats_in snap \<le> 2 ^ 62 \<and> t \<le> max_int64"
  let ?l = "int (length (ss_Layers snap))"
  have fl: "0 \<le> floats_in snap" unfolding floats_in_def by (intro add_nonneg_nonneg sum_list_nonneg) auto
  then have small: "tokens * 8 \<le> max_int64" "?l * 64 \<le> max_int64" using fits assms by (auto simp: entry_cost_def)
  have wrapped: "wrap64 (tokens * 8) = tokens * 8" "wrap64 (?l * 64) = ?l * 64" using small assms by (auto simp: go_int)
  have guard: "\<not> (tokens > go_quot max_int64 8 \<or> ?l > go_quot max_int64 64)" using small assms by (auto simp: quot_guard)
  have "add_parts [256, tokens * 8, ?l * 64, int (length (ModelID key)), int (length (Backend key)), int (length (DType key)), int (length (LayerLayout key)), retained] (4 * floats_in snap) = Some t"
    using fits assms fl add_parts_fits [of "[256, tokens * 8, ?l * 64, int (length (ModelID key)), int (length (Backend key)), int (length (DType key)), int (length (LayerLayout key)), retained]" "4 * floats_in snap"]
    by (simp add: entry_cost_def algebra_simps)
  then show "EstimateChunkEntryBytes key tokens snap retained = Inr t"
    using fits guard assms EstimateSnapshotBytes_fits [of snap] by (simp add: EstimateChunkEntryBytes_def wrapped del: add_parts.simps)
qed

section \<open>The invariant\<close>

definition entry_at :: "'f chunk_cache \<Rightarrow> nat \<Rightarrow> 'f chunk_entry" where
  "entry_at c el = the (cc_heap c el)"

definition entries :: "'f chunk_cache \<Rightarrow> 'f chunk_entry list" where
  "entries c = map (entry_at c) (cc_ll c)"

definition cost :: "'f chunk_entry list \<Rightarrow> int" where
  "cost es = sum_list (map ce_Bytes es)"

definition chunk_ok :: "'f chunk_cache \<Rightarrow> bool" where
  "chunk_ok c \<longleftrightarrow> distinct (cc_ll c) \<and> distinct (map fst (cc_items c)) \<and> set (cc_ll c) = dom (cc_heap c) \<and> (\<forall>el \<in> set (cc_ll c). el < cc_next c) \<and>
     (\<forall>key el. map_of (cc_items c) key = Some el \<longleftrightarrow> el \<in> set (cc_ll c) \<and> ce_Key (entry_at c el) = key) \<and>
     (\<forall>e \<in> set (entries c). 0 < ce_Bytes e) \<and> cc_used c = cost (entries c) \<and> cc_used c \<le> cc_max c \<and> 0 \<le> cc_max c \<and> cc_max c \<le> max_int64"

lemma chunk_okD:
  assumes "chunk_ok c"
  shows "distinct (cc_ll c)" "distinct (map fst (cc_items c))" "set (cc_ll c) = dom (cc_heap c)" "\<And>el. el \<in> set (cc_ll c) \<Longrightarrow> el < cc_next c"
    "\<And>key el. map_of (cc_items c) key = Some el \<longleftrightarrow> el \<in> set (cc_ll c) \<and> ce_Key (entry_at c el) = key"
    "\<And>e. e \<in> set (entries c) \<Longrightarrow> 0 < ce_Bytes e" "cc_used c = cost (entries c)" "cc_used c \<le> cc_max c" "0 \<le> cc_max c" "cc_max c \<le> max_int64"
  using assms by (auto simp: chunk_ok_def)

lemma keys_distinct:
  assumes "chunk_ok c"
  shows "distinct (map ce_Key (entries c))"
proof -
  note O = chunk_okD [OF assms]
  have "inj_on (\<lambda>el. ce_Key (entry_at c el)) (set (cc_ll c))"
    by (rule inj_onI) (metis O(5) option.inject)
  then show ?thesis using O(1) by (simp add: entries_def distinct_map comp_def)
qed

lemma entry_in: "chunk_ok c \<Longrightarrow> el \<in> set (cc_ll c) \<Longrightarrow> cc_heap c el = Some (entry_at c el)"
  using chunk_okD(3) [of c] by (auto simp: entry_at_def)

lemma cost_nonneg: "(\<And>e. e \<in> set es \<Longrightarrow> 0 < ce_Bytes e) \<Longrightarrow> 0 \<le> cost es"
  unfolding cost_def by (induction es) (auto simp: less_imp_le add_nonneg_nonneg)

lemma cost_simps [simp]: "cost [] = 0" "cost (e # es) = ce_Bytes e + cost es" "cost (es @ es') = cost es + cost es'"
  by (simp_all add: cost_def)

lemma entries_frame: "\<forall>el \<in> set (cc_ll c'). cc_heap c' el = cc_heap c el \<Longrightarrow> entries c' = map (entry_at c) (cc_ll c')"
  by (simp add: entries_def entry_at_def)

section \<open>Removal and eviction\<close>

lemma chunk_remove_ok:
  assumes "chunk_ok c" "el \<in> set (cc_ll c)"
  obtains c' where "chunk_remove el c = Some c'" "chunk_ok c'" "cc_max c' = cc_max c" "cc_tick c' = cc_tick c" "cc_next c' = cc_next c"
    "cc_ll c' = remove1 el (cc_ll c)" "entries c' = map (entry_at c) (remove1 el (cc_ll c))"
    "entries c' = filter (\<lambda>e. ce_Key e \<noteq> ce_Key (entry_at c el)) (entries c)"
proof -
  note O = chunk_okD [OF assms(1)]
  let ?e = "entry_at c el"
  define c' where "c' = c\<lparr>cc_items := AList.delete (ce_Key ?e) (cc_items c), cc_used := wrap64 (cc_used c - ce_Bytes ?e), cc_ll := remove1 el (cc_ll c), cc_heap := (cc_heap c)(el := None)\<rparr>"
  have sel: "cc_items c' = AList.delete (ce_Key ?e) (cc_items c)" "cc_used c' = wrap64 (cc_used c - ce_Bytes ?e)" "cc_ll c' = remove1 el (cc_ll c)"
    "cc_heap c' = (cc_heap c)(el := None)" "cc_max c' = cc_max c" "cc_tick c' = cc_tick c" "cc_next c' = cc_next c" by (simp_all add: c'_def)
  have r: "chunk_remove el c = Some c'" using entry_in [OF assms] by (simp add: chunk_remove_def c'_def)
  have mem: "set (remove1 el (cc_ll c)) = set (cc_ll c) - {el}" using O(1) by simp
  have at: "x \<in> set (remove1 el (cc_ll c)) \<Longrightarrow> entry_at c' x = entry_at c x" for x using mem by (simp add: entry_at_def sel)
  have E: "entries c' = map (entry_at c) (remove1 el (cc_ll c))" unfolding entries_def by (rule map_cong [OF sel(3) at])
  have key: "ce_Key (entry_at c x) = ce_Key ?e \<longleftrightarrow> x = el" if "x \<in> set (cc_ll c)" for x
    using O(5) assms(2) that by (metis option.inject)
  have "remove1 el (cc_ll c) = filter (\<lambda>x. ce_Key (entry_at c x) \<noteq> ce_Key ?e) (cc_ll c)"
    using distinct_remove1_removeAll [OF O(1)] key by (auto simp: removeAll_filter_not_eq intro!: filter_cong)
  then have F: "entries c' = filter (\<lambda>e. ce_Key e \<noteq> ce_Key ?e) (entries c)"
    unfolding E by (simp only: entries_def filter_map comp_def)
  have cost: "cost (entries c) = ce_Bytes ?e + cost (entries c')"
    unfolding E using assms(2) O(1) by (simp add: cost_def entries_def comp_def sum_list_map_remove1 [of el])
  have pos: "\<And>e. e \<in> set (entries c') \<Longrightarrow> 0 < ce_Bytes e" using O(6) by (auto simp: F)
  have p: "0 < ce_Bytes ?e" using O(6) assms(2) by (simp add: entries_def)
  have n: "0 \<le> cost (entries c')" by (rule cost_nonneg [OF pos])
  have "cc_used c - ce_Bytes ?e = cost (entries c')" using O(7) cost by linarith
  moreover have "in_int64 (cost (entries c'))" using n p O(7,8,10) cost unfolding in_int64_def min_int64_def by linarith
  ultimately have used: "cc_used c' = cost (entries c')" by (simp add: sel)
  have cost_le: "cost (entries c') \<le> cc_max c" using O(7,8) cost p by linarith
  have it: "map_of (cc_items c') key = Some x \<longleftrightarrow> x \<in> set (cc_ll c') \<and> ce_Key (entry_at c' x) = key" for key x
  proof (cases "x \<in> set (remove1 el (cc_ll c))")
    case True
    then have "x \<in> set (cc_ll c)" "x \<noteq> el" unfolding mem by simp_all
    then show ?thesis using True at [OF True] O(5) [of key x] key [of x] by (auto simp: sel(1,3) delete_conv')
  next
    case False
    then have "map_of (cc_items c') key \<noteq> Some x" unfolding mem using O(5) [of key x] by (auto simp: sel(1) delete_conv' split: if_splits)
    then show ?thesis using False by (simp add: sel(3))
  qed
  have "chunk_ok c'"
    unfolding chunk_ok_def
  proof (intro conjI allI ballI)
    show "distinct (map fst (cc_items c'))" using O(2) by (simp add: sel distinct_delete)
    show "set (cc_ll c') = dom (cc_heap c')" unfolding sel(3,4) mem using O(3) by auto
    show "x < cc_next c'" if "x \<in> set (cc_ll c')" for x using that O(4) unfolding sel(3,7) mem by simp
    show "0 < ce_Bytes e" if "e \<in> set (entries c')" for e using pos that .
  qed (use it used cost_le O(1,9,10) in \<open>simp_all add: sel\<close>)
  then show thesis using r E F by (intro that [of c']) (simp_all add: sel)
qed

text \<open>The longest prefix that fits.\<close>

fun keep_front :: "int \<Rightarrow> 'f chunk_entry list \<Rightarrow> 'f chunk_entry list" where
  "keep_front limit [] = []"
| "keep_front limit (e # es) = (if ce_Bytes e \<le> limit then e # keep_front (limit - ce_Bytes e) es else [])"

lemma keep_front_all: "(\<And>e. e \<in> set es \<Longrightarrow> 0 < ce_Bytes e) \<Longrightarrow> cost es \<le> limit \<Longrightarrow> keep_front limit es = es"
proof (induction es arbitrary: limit)
  case (Cons e es)
  have "0 \<le> cost es" by (rule cost_nonneg) (use Cons.prems(1) in simp)
  then show ?case using Cons by simp
qed simp

lemma keep_front_snoc: "(\<And>x. x \<in> set es \<Longrightarrow> 0 < ce_Bytes x) \<Longrightarrow> limit < cost (es @ [e]) \<Longrightarrow> keep_front limit (es @ [e]) = keep_front limit es"
  by (induction es arbitrary: limit) auto

lemma chunk_evict_ok:
  assumes "chunk_ok c" "0 < bytes" "bytes \<le> cc_max c"
  shows "\<exists>c'. chunk_evict bytes c = Some c' \<and> chunk_ok c' \<and> entries c' = keep_front (cc_max c - bytes) (entries c) \<and>
    cost (entries c') \<le> cc_max c - bytes \<and> cc_max c' = cc_max c \<and> cc_tick c' = cc_tick c"
  using assms
proof (induction "length (cc_ll c)" arbitrary: c rule: less_induct)
  case less
  note O = chunk_okD [OF less.prems(1)]
  have w: "wrap64 (cc_max c - bytes) = cc_max c - bytes" using less.prems(2,3) O(10) by (simp add: go_int)
  show ?case
  proof (cases "cc_used c > cc_max c - bytes")
    case False
    then show ?thesis using less.prems(1) w O keep_front_all [of "entries c" "cc_max c - bytes"] by (simp add: chunk_evict.simps)
  next
    case True
    have ne: "cc_ll c \<noteq> []" using True O(7) less.prems(3) by (auto simp: entries_def)
    then have l: "last (cc_ll c) \<in> set (cc_ll c)" by simp
    obtain c1 where c1: "chunk_remove (last (cc_ll c)) c = Some c1" "chunk_ok c1" "cc_max c1 = cc_max c" "cc_tick c1 = cc_tick c"
        "entries c1 = map (entry_at c) (remove1 (last (cc_ll c)) (cc_ll c))" "cc_ll c1 = remove1 (last (cc_ll c)) (cc_ll c)"
      by (rule chunk_remove_ok [OF less.prems(1) l]) blast
    have "remove1 (last (cc_ll c)) (cc_ll c) = butlast (cc_ll c)"
      using O(1) ne by (cases "cc_ll c" rule: rev_cases) (auto simp: remove1_append)
    then have b: "entries c1 = butlast (entries c)" "entries c = butlast (entries c) @ [last (entries c)]"
      using c1(5) ne by (auto simp: entries_def map_butlast)
    have pos: "\<And>e. e \<in> set (butlast (entries c)) \<Longrightarrow> 0 < ce_Bytes e" using O(6) by (auto dest: in_set_butlastD)
    have k: "keep_front (cc_max c - bytes) (entries c) = keep_front (cc_max c - bytes) (entries c1)"
      using keep_front_snoc [of "butlast (entries c)" "cc_max c - bytes" "last (entries c)", OF pos] True O(7) b by simp
    have "length (cc_ll c1) < length (cc_ll c)" using chunk_remove_shorter [OF c1(1) l] .
    from less.hyps [OF this c1(2)] less.prems c1(3,4) k show ?thesis using True w ne c1(1) by (simp add: chunk_evict.simps [of bytes c])
  qed
qed

section \<open>Insertion and lookup\<close>

lemma CloneSnapshot_same [simp]: "CloneSnapshot s = s"
proof -
  have "map (\<lambda>l. \<lparr>ls_K = ls_K l, ls_V = ls_V l, ls_SeqLen = ls_SeqLen l, ls_KVDim = ls_KVDim l\<rparr>) ls = ls" for ls :: "'a layer_snapshot list"
    by (induction ls) simp_all
  then show ?thesis by (simp add: CloneSnapshot_def)
qed

definition next_tick :: "int \<Rightarrow> int" where
  "next_tick t = wrapu64 (t + 1)"

lemma chunk_insert_ok:
  assumes "chunk_ok c" "map_of (cc_items c) key = None" "0 < bytes" "cost (entries c) \<le> cc_max c - bytes"
  shows "chunk_ok (chunk_insert key tokens snap bytes c) \<and>
    entries (chunk_insert key tokens snap bytes c) =
      \<lparr>ce_Key = key, ce_Tokens = tokens, ce_Snap = snap, ce_Bytes = bytes, ce_LastUse = next_tick (cc_tick c)\<rparr> # entries c \<and>
    cc_max (chunk_insert key tokens snap bytes c) = cc_max c \<and> cc_tick (chunk_insert key tokens snap bytes c) = next_tick (cc_tick c)"
proof -
  note O = chunk_okD [OF assms(1)]
  let ?c = "chunk_insert key tokens snap bytes c" and ?n = "cc_next c"
  let ?e = "\<lparr>ce_Key = key, ce_Tokens = tokens, ce_Snap = snap, ce_Bytes = bytes, ce_LastUse = next_tick (cc_tick c)\<rparr>"
  have c: "?c = c\<lparr>cc_tick := next_tick (cc_tick c), cc_heap := (cc_heap c)(?n \<mapsto> ?e), cc_next := ?n + 1, cc_ll := ?n # cc_ll c,
      cc_items := AList.update key ?n (cc_items c), cc_used := wrap64 (cc_used c + bytes)\<rparr>"
    by (simp add: chunk_insert_def next_tick_def Let_def)
  have fresh: "?n \<notin> set (cc_ll c)" using O(4) by blast
  have at: "entry_at ?c ?n = ?e" "\<And>x. x \<in> set (cc_ll c) \<Longrightarrow> entry_at ?c x = entry_at c x" using fresh by (auto simp: c entry_at_def)
  have E: "entries ?c = ?e # entries c"
  proof -
    have "cc_ll ?c = ?n # cc_ll c" by (simp add: c)
    then show ?thesis using at by (simp add: entries_def)
  qed
  have "0 \<le> cost (entries c)" using O(6) by (rule cost_nonneg)
  then have used: "wrap64 (cc_used c + bytes) = cost (entries ?c)" using O(7,10) assms(3,4) by (simp add: E go_int)
  have nokey: "\<And>x. x \<in> set (cc_ll c) \<Longrightarrow> ce_Key (entry_at c x) \<noteq> key" using O(5) assms(2) by force
  have "chunk_ok ?c"
    unfolding chunk_ok_def
  proof (intro conjI allI ballI)
    show "distinct (cc_ll ?c)" using O(1) fresh by (simp add: c)
    show "distinct (map fst (cc_items ?c))" using O(2) by (simp add: c distinct_update)
    show "set (cc_ll ?c) = dom (cc_heap ?c)" using O(3) by (simp add: c)
    show "x < cc_next ?c" if "x \<in> set (cc_ll ?c)" for x using that O(4) by (auto simp: c less_Suc_eq)
    show "map_of (cc_items ?c) k = Some x \<longleftrightarrow> x \<in> set (cc_ll ?c) \<and> ce_Key (entry_at ?c x) = k" for k x
    proof (cases "x = ?n")
      case True
      then show ?thesis using O(5) fresh at(1) by (auto simp: c update_conv' dest: O(4))
    next
      case False
      then have "x \<in> set (cc_ll ?c) \<longleftrightarrow> x \<in> set (cc_ll c)" by (simp add: c)
      then show ?thesis using False O(5) nokey at(2) by (auto simp: c update_conv')
    qed
    show "0 < ce_Bytes e" if "e \<in> set (entries ?c)" for e using O(6) that assms(3) by (auto simp: E)
    show u: "cc_used ?c = cost (entries ?c)" using used by (simp add: c)
    have "cost (entries ?c) \<le> cc_max c" using assms(4) by (simp add: E)
    then show "cc_used ?c \<le> cc_max ?c" unfolding u by (simp add: c)
  qed (use O(9,10) in \<open>simp_all add: c\<close>)
  then show ?thesis using E by (simp add: c)
qed

end
