(* ===== verification/ReuseProps.thy ===== *)
theory ReuseProps
  imports ReuseFacts
begin

text \<open>
  The chunk cache implements a list of entries in order of use: a call history on the cache and on
  the list lead to the same entries. From it follow the budget and the round trip.
\<close>

section \<open>The list\<close>

definition lru_put :: "int \<Rightarrow> 'f chunk_entry \<Rightarrow> 'f chunk_entry list \<Rightarrow> 'f chunk_entry list" where
  "lru_put limit e es = e # keep_front (limit - ce_Bytes e) (filter (\<lambda>x. ce_Key x \<noteq> ce_Key e) es)"

datatype 'f chunk_call = PutCall chunk_key "int list" "'f kv_snapshot" int | GetCall chunk_key

fun call_cache :: "'f chunk_call \<Rightarrow> 'f chunk_cache option \<Rightarrow> 'f chunk_cache option" where
  "call_cache (PutCall key tokens snap retained) co = snd (PutWithRetainedBytes co key tokens snap retained)"
| "call_cache (GetCall key) co = snd (chunk_Get co key)"

fun call_list :: "int \<Rightarrow> 'f chunk_call \<Rightarrow> int \<times> 'f chunk_entry list \<Rightarrow> int \<times> 'f chunk_entry list" where
  "call_list limit (PutCall key tokens snap retained) (t, es) =
     (case EstimateChunkEntryBytes key (int (length tokens)) snap retained of
        Inl _ \<Rightarrow> (t, es)
      | Inr bytes \<Rightarrow> if limit \<le> 0 \<or> bytes > limit then (t, es)
          else (next_tick t, lru_put limit \<lparr>ce_Key = key, ce_Tokens = tokens, ce_Snap = snap, ce_Bytes = bytes, ce_LastUse = next_tick t\<rparr> es))"
| "call_list limit (GetCall key) (t, es) =
     (case filter (\<lambda>e. ce_Key e = key) es of
        [] \<Rightarrow> (t, es)
      | e # _ \<Rightarrow> (next_tick t, e\<lparr>ce_LastUse := next_tick t\<rparr> # filter (\<lambda>x. ce_Key x \<noteq> key) es))"

section \<open>The operations\<close>

lemma item_key:
  assumes "chunk_ok c"
  shows "map_of (cc_items c) key = None \<longleftrightarrow> key \<notin> set (map ce_Key (entries c))"
proof -
  have "map_of (cc_items c) key \<noteq> None \<longleftrightarrow> (\<exists>el \<in> set (cc_ll c). ce_Key (entry_at c el) = key)"
    using chunk_okD(5) [OF assms] by auto
  then show ?thesis by (auto simp: entries_def)
qed

lemma keep_front_subset: "set (keep_front limit es) \<subseteq> set es"
  by (induction es arbitrary: limit) auto

lemma Put_spec:
  assumes "chunk_ok c" "EstimateChunkEntryBytes key (int (length tokens)) snap retained = Inr bytes" "0 < cc_max c" "bytes \<le> cc_max c"
  shows "\<exists>c'. PutWithRetainedBytes (Some c) key tokens snap retained = (Inr (), Some c') \<and> chunk_ok c' \<and> cc_max c' = cc_max c \<and>
    cc_tick c' = next_tick (cc_tick c) \<and>
    entries c' = lru_put (cc_max c) \<lparr>ce_Key = key, ce_Tokens = tokens, ce_Snap = snap, ce_Bytes = bytes, ce_LastUse = next_tick (cc_tick c)\<rparr> (entries c)"
proof -
  have b: "0 < bytes" using EstimateChunkEntryBytes_Inr [OF assms(2)] by simp
  obtain c1 where c1: "(case map_of (cc_items c) key of None \<Rightarrow> Some c | Some old \<Rightarrow> chunk_remove old c) = Some c1" "chunk_ok c1" "cc_max c1 = cc_max c"
      "cc_tick c1 = cc_tick c" "entries c1 = filter (\<lambda>x. ce_Key x \<noteq> key) (entries c)"
  proof (cases "map_of (cc_items c) key")
    case None
    then have "filter (\<lambda>x. ce_Key x \<noteq> key) (entries c) = entries c" using item_key [OF assms(1), of key] by (auto simp: filter_id_conv)
    then show thesis using None assms(1) by (intro that [of c]) simp_all
  next
    case (Some old)
    then have o: "old \<in> set (cc_ll c)" "ce_Key (entry_at c old) = key" using chunk_okD(5) [OF assms(1)] by simp_all
    obtain c1 where "chunk_remove old c = Some c1" "chunk_ok c1" "cc_max c1 = cc_max c" "cc_tick c1 = cc_tick c"
        "entries c1 = filter (\<lambda>e. ce_Key e \<noteq> ce_Key (entry_at c old)) (entries c)" by (rule chunk_remove_ok [OF assms(1) o(1)]) blast
    then show thesis using Some o(2) by (intro that [of c1]) simp_all
  qed
  obtain c2 where c2: "chunk_evict bytes c1 = Some c2" "chunk_ok c2" "entries c2 = keep_front (cc_max c - bytes) (entries c1)"
      "cost (entries c2) \<le> cc_max c - bytes" "cc_max c2 = cc_max c" "cc_tick c2 = cc_tick c"
    using chunk_evict_ok [OF c1(2) b] assms(4) c1(3,4) by auto
  have "key \<notin> set (map ce_Key (entries c2))" using keep_front_subset [of "cc_max c - bytes" "entries c1"] by (auto simp: c2(3) c1(5))
  then have none: "map_of (cc_items c2) key = None" using item_key [OF c2(2)] by simp
  have I: "chunk_ok (chunk_insert key tokens snap bytes c2)" "cc_max (chunk_insert key tokens snap bytes c2) = cc_max c"
      "cc_tick (chunk_insert key tokens snap bytes c2) = next_tick (cc_tick c)"
      "entries (chunk_insert key tokens snap bytes c2) = \<lparr>ce_Key = key, ce_Tokens = tokens, ce_Snap = snap, ce_Bytes = bytes, ce_LastUse = next_tick (cc_tick c)\<rparr> # entries c2"
    using chunk_insert_ok [OF c2(2) none b, of tokens snap] c2(4-6) by simp_all
  have "PutWithRetainedBytes (Some c) key tokens snap retained = (Inr (), Some (chunk_insert key tokens snap bytes c2))"
    using assms(2-4) c1(1) c2(1) by (simp add: PutWithRetainedBytes_def)
  then show ?thesis using I c1(5) c2(3) by (simp add: lru_put_def)
qed

lemma Get_hit:
  assumes "chunk_ok c" "filter (\<lambda>e. ce_Key e = key) (entries c) = e # rest"
  shows "\<exists>c'. chunk_Get (Some c) key = (Some (e\<lparr>ce_LastUse := next_tick (cc_tick c)\<rparr>), Some c') \<and> chunk_ok c' \<and> cc_max c' = cc_max c \<and>
    cc_tick c' = next_tick (cc_tick c) \<and> entries c' = e\<lparr>ce_LastUse := next_tick (cc_tick c)\<rparr> # filter (\<lambda>x. ce_Key x \<noteq> key) (entries c)"
proof -
  note O = chunk_okD [OF assms(1)]
  have "e \<in> set (filter (\<lambda>e. ce_Key e = key) (entries c))" unfolding assms(2) by simp
  then have "e \<in> set (entries c)" "ce_Key e = key" by simp_all
  then obtain el where el: "el \<in> set (cc_ll c)" "e = entry_at c el" "ce_Key (entry_at c el) = key" by (auto simp: entries_def)
  define e' where "e' = e\<lparr>ce_LastUse := next_tick (cc_tick c)\<rparr>"
  define c' where "c' = c\<lparr>cc_tick := next_tick (cc_tick c), cc_heap := (cc_heap c)(el \<mapsto> e'), cc_ll := el # remove1 el (cc_ll c)\<rparr>"
  have sel: "cc_items c' = cc_items c" "cc_used c' = cc_used c" "cc_ll c' = el # remove1 el (cc_ll c)" "cc_heap c' = (cc_heap c)(el \<mapsto> e')"
    "cc_max c' = cc_max c" "cc_tick c' = next_tick (cc_tick c)" "cc_next c' = cc_next c" by (simp_all add: c'_def)
  have items: "map_of (cc_items c) key = Some el" using O(5) el by simp
  have g: "chunk_Get (Some c) key = (Some e', Some c')"
    using items entry_in [OF assms(1) el(1)] el(2) by (simp add: chunk_Get_def c'_def e'_def next_tick_def Let_def)
  have mem: "set (remove1 el (cc_ll c)) = set (cc_ll c) - {el}" "set (cc_ll c') = set (cc_ll c)" using O(1) el(1) by (auto simp: sel)
  have at: "entry_at c' el = e'" "\<And>x. x \<in> set (remove1 el (cc_ll c)) \<Longrightarrow> entry_at c' x = entry_at c x" unfolding mem by (simp_all add: entry_at_def sel)
  have key: "ce_Key (entry_at c x) = key \<longleftrightarrow> x = el" if "x \<in> set (cc_ll c)" for x
    using O(5) el that by (metis option.inject)
  obtain c1 where c1: "entries c1 = map (entry_at c) (remove1 el (cc_ll c))" "entries c1 = filter (\<lambda>e. ce_Key e \<noteq> ce_Key (entry_at c el)) (entries c)"
    by (rule chunk_remove_ok [OF assms(1) el(1)]) blast
  have "map (entry_at c') (remove1 el (cc_ll c)) = map (entry_at c) (remove1 el (cc_ll c))" by (rule map_cong [OF refl at(2)])
  then have E: "entries c' = e' # filter (\<lambda>x. ce_Key x \<noteq> key) (entries c)" using c1 el(3) at(1) unfolding entries_def sel(3) by simp
  have "cost (entries c) = ce_Bytes (entry_at c el) + cost (map (entry_at c) (remove1 el (cc_ll c)))"
    using el(1) by (simp add: cost_def entries_def comp_def sum_list_map_remove1 [of el])
  then have cost: "cost (entries c') = cost (entries c)" using c1 el E by (simp add: e'_def)
  have "chunk_ok c'"
    unfolding chunk_ok_def
  proof (intro conjI allI ballI)
    show "distinct (cc_ll c')" using O(1) mem(1) by (simp add: sel)
    show "set (cc_ll c') = dom (cc_heap c')" unfolding mem(2) sel(4) using O(3) el(1) by auto
    show "x < cc_next c'" if "x \<in> set (cc_ll c')" for x using that O(4) unfolding mem(2) sel(7) by simp
    show "map_of (cc_items c') k = Some x \<longleftrightarrow> x \<in> set (cc_ll c') \<and> ce_Key (entry_at c' x) = k" for k x
    proof (cases "x = el")
      case True
      then show ?thesis using O(5) el at(1) unfolding sel(1) mem(2) by (auto simp: e'_def)
    next
      case False
      then show ?thesis using O(5) at(2) [of x] unfolding sel(1) mem by auto
    qed
    have "0 < ce_Bytes e'" using O(6) \<open>e \<in> set (entries c)\<close> by (simp add: e'_def)
    then show "0 < ce_Bytes x" if "x \<in> set (entries c')" for x using that O(6) unfolding E by auto
    show "cc_used c' = cost (entries c')" "cc_used c' \<le> cc_max c'" using cost O(7,8) by (simp_all add: sel)
  qed (use O(2,9,10) in \<open>simp_all add: sel\<close>)
  then show ?thesis using g E by (simp add: sel e'_def)
qed

lemma Get_miss:
  assumes "chunk_ok c" "filter (\<lambda>e. ce_Key e = key) (entries c) = []"
  shows "chunk_Get (Some c) key = (None, Some c)"
proof -
  have "key \<notin> set (map ce_Key (entries c))" using assms(2) by (auto simp: filter_empty_conv)
  then have "map_of (cc_items c) key = None" using item_key [OF assms(1)] by simp
  then show ?thesis by (simp add: chunk_Get_def)
qed

lemma call_refines:
  assumes "chunk_ok c"
  shows "\<exists>c'. call_cache call (Some c) = Some c' \<and> chunk_ok c' \<and> cc_max c' = cc_max c \<and> (cc_tick c', entries c') = call_list (cc_max c) call (cc_tick c, entries c)"
proof (cases call)
  case (PutCall key tokens snap retained)
  show ?thesis
  proof (cases "EstimateChunkEntryBytes key (int (length tokens)) snap retained")
    case (Inl e)
    then show ?thesis using PutCall assms by (simp add: PutWithRetainedBytes_def)
  next
    case (Inr bytes)
    show ?thesis
    proof (cases "cc_max c \<le> 0 \<or> bytes > cc_max c")
      case True
      then show ?thesis using PutCall Inr assms by (simp add: PutWithRetainedBytes_def)
    next
      case False
      then show ?thesis using Put_spec [OF assms Inr] PutCall Inr by auto
    qed
  qed
next
  case (GetCall key)
  then show ?thesis using Get_miss [OF assms] Get_hit [OF assms] assms by (cases "filter (\<lambda>e. ce_Key e = key) (entries c)") fastforce+
qed

lemma calls_refine:
  assumes "chunk_ok c"
  shows "\<exists>c'. fold call_cache calls (Some c) = Some c' \<and> chunk_ok c' \<and> cc_max c' = cc_max c \<and>
    (cc_tick c', entries c') = fold (call_list (cc_max c)) calls (cc_tick c, entries c)"
  using assms
proof (induction calls arbitrary: c)
  case (Cons call calls)
  obtain c1 where c1: "call_cache call (Some c) = Some c1" "chunk_ok c1" "cc_max c1 = cc_max c" "(cc_tick c1, entries c1) = call_list (cc_max c) call (cc_tick c, entries c)"
    using call_refines [OF Cons.prems] by blast
  show ?case using Cons.IH [OF c1(2)] c1 by auto
qed simp

lemma new_cache_ok:
  assumes "maxBytes \<le> max_int64"
  shows "chunk_ok (NewChunkCache maxBytes)" "entries (NewChunkCache maxBytes) = []" "cc_tick (NewChunkCache maxBytes) = 0"
    "cc_max (NewChunkCache maxBytes) = max 0 maxBytes"
  using assms by (auto simp: NewChunkCache_def chunk_ok_def entries_def max_int64_def)

section \<open>The clock\<close>

text \<open>While the clock has not wrapped, the entries are in order of their last use.\<close>

definition in_order :: "int \<times> 'f chunk_entry list \<Rightarrow> bool" where
  "in_order w \<longleftrightarrow> 0 \<le> fst w \<and> sorted_wrt (\<lambda>a b. ce_LastUse b < ce_LastUse a) (snd w) \<and> (\<forall>e \<in> set (snd w). ce_LastUse e \<le> fst w)"

lemma sorted_keep_front: "sorted_wrt R es \<Longrightarrow> sorted_wrt R (keep_front limit es)"
proof (induction es arbitrary: limit)
  case (Cons e es)
  then show ?case using keep_front_subset [of "limit - ce_Bytes e" es] by auto
qed simp

lemma call_in_order:
  assumes "in_order w" "fst w < max_uint64"
  shows "in_order (call_list limit call w) \<and> fst (call_list limit call w) \<le> fst w + 1"
proof -
  obtain t es where w: "w = (t, es)" by (cases w)
  have t: "next_tick t = t + 1" "0 \<le> t" using assms by (simp_all add: w next_tick_def wrapu64_def in_order_def max_uint64_def)
  have s: "sorted_wrt (\<lambda>a b. ce_LastUse b < ce_LastUse a) es" "\<forall>e \<in> set es. ce_LastUse e \<le> t" using assms(1) by (simp_all add: w in_order_def)
  show ?thesis
  proof (cases call)
    case (PutCall key tokens snap retained)
    show ?thesis
    proof (cases "EstimateChunkEntryBytes key (int (length tokens)) snap retained")
      case (Inr bytes)
      have "sorted_wrt (\<lambda>a b. ce_LastUse b < ce_LastUse a) (keep_front (limit - bytes) (filter (\<lambda>x. ce_Key x \<noteq> key) es))"
        by (intro sorted_keep_front sorted_wrt_filter s(1))
      then show ?thesis using PutCall Inr assms(1) t s(2) keep_front_subset [of "limit - bytes" "filter (\<lambda>x. ce_Key x \<noteq> key) es"]
        by (fastforce simp: w in_order_def lru_put_def)
    qed (use PutCall assms(1) in \<open>simp add: w\<close>)
  next
    case (GetCall key)
    show ?thesis
    proof (cases "filter (\<lambda>e. ce_Key e = key) es")
      case (Cons e rest)
      then show ?thesis using GetCall t s sorted_wrt_filter [OF s(1), of "\<lambda>x. ce_Key x \<noteq> key"] by (force simp: w in_order_def)
    qed (use GetCall assms(1) in \<open>simp add: w\<close>)
  qed
qed

lemma calls_in_order:
  "in_order w \<Longrightarrow> fst w + int (length calls) \<le> max_uint64 \<Longrightarrow> in_order (fold (call_list limit) calls w)"
proof (induction calls arbitrary: w)
  case (Cons call calls)
  then show ?case using call_in_order [OF Cons.prems(1), of limit call] by simp
qed simp

section \<open>Properties\<close>

text \<open>C13. After any calls, the chunk cache holds the entries of a list kept in order of use with the
  least recently used cut off where the budget ends; the bytes in use are their costs, within the
  budget, and until the clock wraps the last uses decrease along the list.\<close>

theorem chunk_cache_is_lru:
  assumes "maxBytes \<le> max_int64"
  shows "\<exists>c. fold call_cache calls (Some (NewChunkCache maxBytes)) = Some c \<and>
    (cc_tick c, entries c) = fold (call_list (max 0 maxBytes)) calls (0, []) \<and>
    UsedBytes (Some c) = cost (entries c) \<and> UsedBytes (Some c) \<le> max 0 maxBytes \<and> chunk_Len (Some c) = int (length (entries c)) \<and>
    (\<forall>key. chunk_Contains (Some c) key \<longleftrightarrow> key \<in> set (map ce_Key (entries c))) \<and>
    (int (length calls) \<le> max_uint64 \<longrightarrow> sorted_wrt (\<lambda>a b. ce_LastUse b < ce_LastUse a) (entries c))"
proof -
  note N = new_cache_ok [OF assms]
  obtain c where c: "fold call_cache calls (Some (NewChunkCache maxBytes)) = Some c" "chunk_ok c" "cc_max c = max 0 maxBytes"
      "(cc_tick c, entries c) = fold (call_list (max 0 maxBytes)) calls (0, [])"
    using calls_refine [OF N(1), of calls] unfolding N(2-4) by blast
  note O = chunk_okD [OF c(2)]
  have "length (cc_items c) = length (cc_ll c)"
  proof -
    have "set (map fst (cc_items c)) = set (map ce_Key (entries c))" using item_key [OF c(2)] by (auto simp: map_of_eq_None_iff)
    then have "length (map fst (cc_items c)) = length (map ce_Key (entries c))" using O(2) keys_distinct [OF c(2)] by (metis distinct_card)
    then show ?thesis by (simp add: entries_def)
  qed
  moreover have "sorted_wrt (\<lambda>a b. ce_LastUse b < ce_LastUse a) (entries c)" if "int (length calls) \<le> max_uint64"
    using calls_in_order [of "(0, [])" calls "max 0 maxBytes"] that unfolding c(4) [symmetric] by (simp add: in_order_def)
  moreover have "chunk_Contains (Some c) key \<longleftrightarrow> key \<in> set (map ce_Key (entries c))" for key using item_key [OF c(2), of key] by (simp add: chunk_Contains_def)
  moreover have "length (entries c) = length (cc_ll c)" by (simp add: entries_def)
  ultimately show ?thesis using c O(7,8) by (auto simp: UsedBytes_def chunk_Len_def)
qed

definition sample_snap :: "int kv_snapshot" where
  "sample_snap = \<lparr>ss_Layers = [\<lparr>ls_K = [1, 2], ls_V = [3, 4], ls_SeqLen = 1, ls_KVDim = 2\<rparr>], ss_SeqLen = 1, ss_Hidden = [5]\<rparr>"

definition sample_key :: "int \<Rightarrow> chunk_key" where
  "sample_key n = \<lparr>ModelID = ''m'', Backend = ''cpu'', DType = ''f32'', LayerLayout = ''l'', TokenHash = n, ChunkSize = 1, EndPos = 1\<rparr>"

lemma sample_estimate: "EstimateChunkEntryBytes (sample_key n) 1 sample_snap 0 = Inr 356"
  by (simp add: EstimateChunkEntryBytes_def EstimateSnapshotBytes_def sample_snap_def sample_key_def add_floats_def go_quot_def wrap64_def max_int64_def)

lemma chunk_cache_is_lru_witness:
  "\<exists>c. fold call_cache [PutCall (sample_key 1) [7] sample_snap 0, PutCall (sample_key 2) [8] sample_snap 0, GetCall (sample_key 1), PutCall (sample_key 3) [9] sample_snap 0]
      (Some (NewChunkCache 800)) = Some c \<and> map (TokenHash \<circ> ce_Key) (entries c) = [3, 1] \<and> UsedBytes (Some c) = 712"
proof -
  let ?calls = "[PutCall (sample_key 1) [7] sample_snap 0, PutCall (sample_key 2) [8] sample_snap 0, GetCall (sample_key 1), PutCall (sample_key 3) [9] sample_snap 0]"
  obtain c where c: "fold call_cache ?calls (Some (NewChunkCache 800)) = Some c" "(cc_tick c, entries c) = fold (call_list (max 0 800)) ?calls (0, [])"
      "UsedBytes (Some c) = cost (entries c)" using chunk_cache_is_lru [of 800 ?calls] by (auto simp: max_int64_def)
  have k: "sample_key m = sample_key n \<longleftrightarrow> m = n" for m n by (auto simp: sample_key_def)
  have "map (TokenHash \<circ> ce_Key) (entries c) = [3, 1] \<and> cost (entries c) = 712"
    using c(2) by (simp add: sample_estimate k lru_put_def next_tick_def wrapu64_def) (simp add: sample_key_def)
  then show ?thesis using c by auto
qed

text \<open>C37. Storing a chunk succeeds exactly when the retained bytes are not negative, the floats of
  the snapshot take no more than 2^62 bytes and the charge is within the budget. A failure changes
  nothing; after a success the next lookup of the key returns the tokens and the snapshot that
  were stored, charged what the estimate says.\<close>

theorem stored_chunk_is_returned:
  assumes "maxBytes \<le> max_int64" "fold call_cache calls (Some (NewChunkCache maxBytes)) = co"
    and "charge = entry_cost key (int (length tokens)) snap retained"
  shows "case PutWithRetainedBytes co key tokens snap retained of
     (Inl e, co') \<Rightarrow> co' = co \<and> \<not> (0 \<le> retained \<and> 4 * floats_in snap \<le> 2 ^ 62 \<and> charge \<le> maxBytes) \<and>
       (case EstimateChunkEntryBytes key (int (length tokens)) snap retained of
          Inl e' \<Rightarrow> e = e' | Inr bytes \<Rightarrow> bytes = charge \<and> maxBytes < charge)
   | (Inr _, co') \<Rightarrow> 0 \<le> retained \<and> 4 * floats_in snap \<le> 2 ^ 62 \<and> charge \<le> maxBytes \<and>
       EstimateChunkEntryBytes key (int (length tokens)) snap retained = Inr charge \<and>
       (\<exists>e. fst (chunk_Get co' key) = Some e \<and> ce_Key e = key \<and> ce_Tokens e = tokens \<and> ce_Snap e = snap \<and> ce_Bytes e = charge)"
proof -
  note N = new_cache_ok [OF assms(1)]
  obtain c where c: "co = Some c" "chunk_ok c" "cc_max c = max 0 maxBytes" using calls_refine [OF N(1), of calls] N(4) assms(2) by auto
  have charge: "EstimateChunkEntryBytes key (int (length tokens)) snap retained = Inr t \<longleftrightarrow>
      t = charge \<and> 0 \<le> retained \<and> 4 * floats_in snap \<le> 2 ^ 62 \<and> t \<le> max_int64" for t
    unfolding assms(3) by (rule EstimateChunkEntryBytes_iff) simp
  show ?thesis
  proof (cases "EstimateChunkEntryBytes key (int (length tokens)) snap retained")
    case (Inl e)
    then have "\<not> (0 \<le> retained \<and> 4 * floats_in snap \<le> 2 ^ 62 \<and> charge \<le> max_int64)" using charge by (metis sum.distinct(1))
    then show ?thesis using Inl c assms(1) by (auto simp: PutWithRetainedBytes_def)
  next
    case (Inr bytes)
    note B = EstimateChunkEntryBytes_Inr [OF Inr] and C = charge [THEN iffD1, OF Inr]
    show ?thesis
    proof (cases "cc_max c \<le> 0 \<or> bytes > cc_max c")
      case True
      then have "maxBytes < charge" using c B C by auto
      then show ?thesis using Inr c C True by (simp add: PutWithRetainedBytes_def)
    next
      case False
      then obtain c' where c': "PutWithRetainedBytes (Some c) key tokens snap retained = (Inr (), Some c')" "chunk_ok c'"
          "entries c' = lru_put (cc_max c) \<lparr>ce_Key = key, ce_Tokens = tokens, ce_Snap = snap, ce_Bytes = bytes, ce_LastUse = next_tick (cc_tick c)\<rparr> (entries c)"
        using Put_spec [OF c(2) Inr] by auto
      then have "filter (\<lambda>e. ce_Key e = key) (entries c') = \<lparr>ce_Key = key, ce_Tokens = tokens, ce_Snap = snap, ce_Bytes = bytes, ce_LastUse = next_tick (cc_tick c)\<rparr> #
          filter (\<lambda>e. ce_Key e = key) (tl (entries c'))" by (simp add: lru_put_def)
      from Get_hit [OF c'(2) this] show ?thesis using c c'(1) Inr C False by auto
    qed
  qed
qed

lemma stored_chunk_is_returned_witness:
  "\<exists>co e. PutWithRetainedBytes (Some (NewChunkCache 800)) (sample_key 1) [7] sample_snap 0 = (Inr (), co) \<and> fst (chunk_Get co (sample_key 1)) = Some e \<and> ce_Tokens e = [7]"
proof -
  obtain r co where p: "PutWithRetainedBytes (Some (NewChunkCache 800)) (sample_key 1) [7] sample_snap 0 = (r, co)" by fastforce
  have r: "r = Inr ()"
  proof (cases r)
    case (Inl e)
    then show ?thesis using stored_chunk_is_returned [of 800 "[]" "Some (NewChunkCache 800)" _ "sample_key 1" "[7]" sample_snap 0] p
        sample_estimate [of 1] by (auto simp: max_int64_def)
  qed simp
  then show ?thesis using stored_chunk_is_returned [of 800 "[]" "Some (NewChunkCache 800)" _ "sample_key 1" "[7]" sample_snap 0] p
    by (auto simp: max_int64_def)
qed

end
