(* ===== verification/Advisor.thy ===== *)
theory Advisor
  imports Checked "HOL-Library.AList"
begin

text \<open>
  \<open>runtime/memory/mmap_advisor.go\<close>: bookkeeping of the pages of a mapped file that were announced as
  needed, used or no longer needed. The mapped bytes matter only by their number. The map of ranges is
  an association list with distinct keys; Go visits it in any order, which is the argument \<open>order\<close> of
  \<open>EvictCold\<close>, and the other loops over it do not depend on the order. The call of \<open>madvise\<close> is a
  parameter over a world, and the clock is the argument \<open>now\<close>. After \<open>Detach\<close> the region is empty. On a
  nil advisor every operation does nothing, which is left out.
\<close>

datatype range_state = RangeCold | RangePrefetching | RangeHot

text \<open>The states are numbered in this order.\<close>

fun state_number :: "range_state \<Rightarrow> nat" where
  "state_number RangeCold = 0"
| "state_number RangePrefetching = 1"
| "state_number RangeHot = 2"

instantiation range_state :: linorder
begin

definition less_eq_range_state :: "range_state \<Rightarrow> range_state \<Rightarrow> bool" where
  "less_eq_range_state a b \<longleftrightarrow> state_number a \<le> state_number b"

definition less_range_state :: "range_state \<Rightarrow> range_state \<Rightarrow> bool" where
  "less_range_state a b \<longleftrightarrow> state_number a < state_number b"

instance
proof
  show "a = b" if "a \<le> b" "b \<le> a" for a b :: range_state
    using that by (cases a; cases b) (simp_all add: less_eq_range_state_def)
qed (auto simp: less_eq_range_state_def less_range_state_def)

end

record advised_range =
  ar_Offset :: int
  ar_Bytes :: int
  ar_State :: range_state
  ar_Hits :: int
  ar_Evicts :: int
  ar_LastUsed :: int

record mmap_advisor =
  ad_base_len :: int
  ad_pageSize :: int
  ad_ranges :: "(int \<times> advised_range) list"
  ad_TotalPrefetches :: int
  ad_TotalEvictions :: int
  ad_TotalBytes :: int
  ad_PeakBytes :: int

definition NewMmapAdvisor :: "int \<Rightarrow> int \<Rightarrow> mmap_advisor" where
  "NewMmapAdvisor ospage len = \<lparr>ad_base_len = len, ad_pageSize = (if ospage \<le> 0 then 4096 else ospage), ad_ranges = [],
     ad_TotalPrefetches = 0, ad_TotalEvictions = 0, ad_TotalBytes = 0, ad_PeakBytes = 0\<rparr>"

definition Detach :: "mmap_advisor \<Rightarrow> mmap_advisor" where
  "Detach a = a\<lparr>ad_base_len := 0, ad_ranges := [], ad_TotalBytes := 0\<rparr>"

section \<open>Ranges\<close>

definition align :: "mmap_advisor \<Rightarrow> int \<Rightarrow> int \<Rightarrow> int \<times> int" where
  "align a offset bytes =
     (if ad_pageSize a \<le> 0 then (0, 0)
      else let alignedOff = and_not offset (ad_pageSize a - 1); leading = wrap64 (offset - alignedOff) in
        (alignedOff, and_not (wrap64 (leading + bytes + ad_pageSize a - 1)) (ad_pageSize a - 1)))"

definition boundedRange :: "mmap_advisor \<Rightarrow> int \<Rightarrow> int \<Rightarrow> (int \<times> int) option" where
  "boundedRange a offset bytes0 =
     (let baseLen = ad_base_len a in
      if baseLen = 0 \<or> bytes0 \<le> 0 \<or> offset < 0 \<or> offset \<ge> baseLen then None
      else let bytes = (if bytes0 > baseLen - offset then baseLen - offset else bytes0) in
        case align a offset bytes of (off, sz0) \<Rightarrow>
          if off < 0 \<or> off \<ge> baseLen then None
          else let sz = (if sz0 > baseLen - off then baseLen - off else sz0) in
            if sz > 0 then Some (off, sz) else None)"

definition sanitizeRange :: "advised_range \<Rightarrow> advised_range" where
  "sanitizeRange r = (let r1 = (if ar_Offset r < 0 then r\<lparr>ar_Offset := 0\<rparr> else r) in if ar_Bytes r1 < 0 then r1\<lparr>ar_Bytes := 0\<rparr> else r1)"

definition saturatingSubInt64 :: "int \<Rightarrow> int \<Rightarrow> int" where
  "saturatingSubInt64 a b = (if a \<le> b then 0 else wrap64 (a - b))"

definition saturatingAddUint64 :: "int \<Rightarrow> int \<Rightarrow> int" where
  "saturatingAddUint64 a b = (if a > wrapu64 (max_uint64 - b) then max_uint64 else wrapu64 (a + b))"

text \<open>The bytes that the ranges, sorted by offset, cover together.\<close>

fun union_loop :: "advised_range list \<Rightarrow> int \<Rightarrow> int \<Rightarrow> int" where
  "union_loop [] total_bytes stop = total_bytes"
| "union_loop (r # rs) total_bytes stop =
     (if ar_Offset r > wrap64 (MaxInt64 - ar_Bytes r) then MaxInt64
      else let nxt = SaturatingAddInt64 (ar_Offset r) (ar_Bytes r); start = max stop (ar_Offset r) in
        union_loop rs (if nxt > start then SaturatingAddInt64 total_bytes (wrap64 (nxt - start)) else total_bytes) (max stop nxt))"

definition counted :: "advised_range \<Rightarrow> bool" where
  "counted r \<longleftrightarrow> ar_State r \<noteq> RangeCold \<and> ar_Bytes r > 0"

definition recomputeTotalsLocked :: "mmap_advisor \<Rightarrow> mmap_advisor" where
  "recomputeTotalsLocked a =
     (let rs = map (\<lambda>(k, r). (k, sanitizeRange r)) (ad_ranges a);
          total_bytes = union_loop (sort_key ar_Offset (filter counted (map snd rs))) 0 0 in
      a\<lparr>ad_ranges := rs, ad_TotalBytes := total_bytes, ad_PeakBytes := (if total_bytes > ad_PeakBytes a then total_bytes else ad_PeakBytes a)\<rparr>)"

section \<open>Advice\<close>

type_synonym 'w madvise = "int \<Rightarrow> int \<Rightarrow> int \<Rightarrow> ('w, unit) io"

definition MADV_WILLNEED :: int where "MADV_WILLNEED = 3"
definition MADV_DONTNEED :: int where "MADV_DONTNEED = 4"

text \<open>The range that a use of the pages from \<open>off\<close> on is booked on.\<close>

definition book_use :: "int \<Rightarrow> range_state \<Rightarrow> int \<Rightarrow> int \<Rightarrow> mmap_advisor \<Rightarrow> mmap_advisor" where
  "book_use now st off sz a =
     (let r = (case map_of (ad_ranges a) off of Some r \<Rightarrow> r
            | None \<Rightarrow> \<lparr>ar_Offset = off, ar_Bytes = 0, ar_State = RangeCold, ar_Hits = 0, ar_Evicts = 0, ar_LastUsed = 0\<rparr>);
          r' = r\<lparr>ar_Bytes := max (ar_Bytes r) sz, ar_State := st, ar_Hits := wrapu64 (ar_Hits r + 1), ar_LastUsed := now\<rparr> in
      recomputeTotalsLocked (a\<lparr>ad_ranges := AList.update off r' (ad_ranges a)\<rparr>))"

definition Prefetch :: "'w madvise \<Rightarrow> int \<Rightarrow> int \<Rightarrow> int \<Rightarrow> mmap_advisor \<Rightarrow> 'w \<Rightarrow> (go_error + unit) \<times> mmap_advisor \<times> 'w" where
  "Prefetch adv now offset bytes a w = (case boundedRange a offset bytes of
       None \<Rightarrow> (Inr (), a, w)
     | Some (off, sz) \<Rightarrow> (case adv off sz MADV_WILLNEED w of
           (Inl e, w') \<Rightarrow> (Inl (Wrapf ''madvise WILLNEED [%d:%d]: %w'' [AN off, AN (off + sz)] e), a, w')
         | (Inr _, w') \<Rightarrow> (let a1 = book_use now RangePrefetching off sz a in
             (Inr (), a1\<lparr>ad_TotalPrefetches := wrapu64 (ad_TotalPrefetches a1 + 1)\<rparr>, w'))))"

definition Touch :: "int \<Rightarrow> int \<Rightarrow> int \<Rightarrow> mmap_advisor \<Rightarrow> mmap_advisor" where
  "Touch now offset bytes a = (case boundedRange a offset bytes of
       None \<Rightarrow> a
     | Some (off, sz) \<Rightarrow> book_use now RangeHot off sz a)"

text \<open>A range is made cold when it lies within the evicted pages.\<close>

definition cool :: "int \<Rightarrow> int \<Rightarrow> advised_range \<Rightarrow> advised_range" where
  "cool off sz r =
     (if ar_Offset r \<ge> off \<and> SaturatingAddInt64 (ar_Offset r) (ar_Bytes r) \<le> off + sz
      then r\<lparr>ar_State := RangeCold, ar_Evicts := saturatingAddUint64 (ar_Evicts r) 1\<rparr> else r)"

definition evictLocked :: "'w madvise \<Rightarrow> int \<Rightarrow> int \<Rightarrow> mmap_advisor \<Rightarrow> 'w \<Rightarrow> (go_error + unit) \<times> mmap_advisor \<times> 'w" where
  "evictLocked adv off sz a w = (case adv off sz MADV_DONTNEED w of
       (Inl e, w') \<Rightarrow> (Inl (Wrapf ''madvise DONTNEED [%d:%d]: %w'' [AN off, AN (off + sz)] e), a, w')
     | (Inr _, w') \<Rightarrow> (let a1 = recomputeTotalsLocked (a\<lparr>ad_ranges := map (\<lambda>(k, r). (k, cool off sz r)) (ad_ranges a)\<rparr>) in
         (Inr (), a1\<lparr>ad_TotalEvictions := wrapu64 (ad_TotalEvictions a1 + 1)\<rparr>, w')))"

definition advisor_Evict :: "'w madvise \<Rightarrow> int \<Rightarrow> int \<Rightarrow> mmap_advisor \<Rightarrow> 'w \<Rightarrow> (go_error + unit) \<times> mmap_advisor \<times> 'w" where
  "advisor_Evict adv offset bytes a w = (case boundedRange a offset bytes of
       None \<Rightarrow> (Inr (), a, w)
     | Some (off, sz) \<Rightarrow> evictLocked adv off sz a w)"

definition overlaps_recent :: "int \<Rightarrow> int \<Rightarrow> int \<Rightarrow> advised_range \<Rightarrow> bool" where
  "overlaps_recent cutoff off sz r \<longleftrightarrow> ar_State r \<noteq> RangeCold \<and> ar_LastUsed r \<ge> cutoff \<and> ar_Offset r < off + sz \<and>
     SaturatingAddInt64 (ar_Offset r) (ar_Bytes r) > off"

fun evict_cold_loop :: "'w madvise \<Rightarrow> int \<Rightarrow> int list \<Rightarrow> int \<Rightarrow> mmap_advisor \<Rightarrow> 'w \<Rightarrow> (int \<times> (go_error + unit)) \<times> mmap_advisor \<times> 'w" where
  "evict_cold_loop adv cutoff [] n a w = ((n, Inr ()), a, w)"
| "evict_cold_loop adv cutoff (k # ks) n a w =
     (case map_of (ad_ranges a) k of None \<Rightarrow> evict_cold_loop adv cutoff ks n a w
      | Some r \<Rightarrow>
        if ar_State r = RangeCold \<or> ar_LastUsed r \<ge> cutoff then evict_cold_loop adv cutoff ks n a w
        else (case boundedRange a (ar_Offset r) (ar_Bytes r) of None \<Rightarrow> evict_cold_loop adv cutoff ks n a w
        | Some (off, sz) \<Rightarrow>
            if \<exists>other \<in> set (map snd (ad_ranges a)). overlaps_recent cutoff off sz other then evict_cold_loop adv cutoff ks n a w
            else (case evictLocked adv off sz a w of
                (Inl e, a', w') \<Rightarrow> ((n, Inl e), a', w')
              | (Inr _, a', w') \<Rightarrow> evict_cold_loop adv cutoff ks (n + 1) a' w')))"

definition EvictCold :: "'w madvise \<Rightarrow> int list \<Rightarrow> int \<Rightarrow> mmap_advisor \<Rightarrow> 'w \<Rightarrow> (int \<times> (go_error + unit)) \<times> mmap_advisor \<times> 'w" where
  "EvictCold adv order cutoff a w = evict_cold_loop adv cutoff order 0 a w"

section \<open>Merging\<close>

definition mergeCompatible :: "range_state \<Rightarrow> range_state \<Rightarrow> bool" where
  "mergeCompatible a b \<longleftrightarrow> (a = RangeCold) = (b = RangeCold)"

definition merge_into :: "advised_range \<Rightarrow> advised_range \<Rightarrow> advised_range" where
  "merge_into cur r =
     (let curEnd = SaturatingAddInt64 (ar_Offset cur) (ar_Bytes cur); rEnd = SaturatingAddInt64 (ar_Offset r) (ar_Bytes r) in
      cur\<lparr>ar_Bytes := (if rEnd > curEnd then saturatingSubInt64 rEnd (ar_Offset cur) else ar_Bytes cur),
        ar_Hits := saturatingAddUint64 (ar_Hits cur) (ar_Hits r), ar_Evicts := saturatingAddUint64 (ar_Evicts cur) (ar_Evicts r),
        ar_LastUsed := (if ar_LastUsed r > ar_LastUsed cur then ar_LastUsed r else ar_LastUsed cur),
        ar_State := (if ar_State r > ar_State cur then ar_State r else ar_State cur)\<rparr>)"

fun merge_loop :: "advised_range \<Rightarrow> advised_range list \<Rightarrow> (int \<times> advised_range) list \<Rightarrow> (int \<times> advised_range) list" where
  "merge_loop cur [] merged = AList.update (ar_Offset cur) cur merged"
| "merge_loop cur (r0 # rs) merged =
     (let r = sanitizeRange r0 in
      if ar_Offset r \<le> SaturatingAddInt64 (ar_Offset cur) (ar_Bytes cur) \<and> mergeCompatible (ar_State cur) (ar_State r)
      then merge_loop (merge_into cur r) rs merged
      else merge_loop r rs (AList.update (ar_Offset cur) cur merged))"

definition MergeRanges :: "mmap_advisor \<Rightarrow> mmap_advisor" where
  "MergeRanges a =
     (if length (ad_ranges a) < 2 then a
      else case sort_key ar_Offset (map snd (ad_ranges a)) of
        [] \<Rightarrow> a
      | r # rs \<Rightarrow> recomputeTotalsLocked (a\<lparr>ad_ranges := merge_loop (sanitizeRange r) rs []\<rparr>))"

definition advisor_Stats :: "mmap_advisor \<Rightarrow> int \<times> int \<times> int" where
  "advisor_Stats a = (int (length (ad_ranges a)), ad_TotalBytes a, ad_PeakBytes a)"

definition RangeStats :: "mmap_advisor \<Rightarrow> advised_range list" where
  "RangeStats a = sort_key ar_Offset (map snd (ad_ranges a))"

end
