(* ===== verification/AdvisorFacts.thy ===== *)
theory AdvisorFacts
  imports Advisor
begin

text \<open>
  The invariant of the advisor: the ranges are page-aligned, lie in the region, have distinct keys,
  and the totals count the bytes of the ranges that are not cold, each byte once.
\<close>

section \<open>Sets of bytes\<close>

definition extent :: "advised_range \<Rightarrow> int set" where
  "extent r = {ar_Offset r..<ar_Offset r + ar_Bytes r}"

definition covered :: "advised_range set \<Rightarrow> int set" where
  "covered rs = \<Union>(extent ` rs)"

lemma covered_simps [simp]: "covered {} = {}" "covered (insert r rs) = extent r \<union> covered rs"
  by (simp_all add: covered_def)

lemma covered_Un [simp]: "covered (rs \<union> rs') = covered rs \<union> covered rs'"
  by (auto simp: covered_def)

definition range_in :: "int \<Rightarrow> advised_range \<Rightarrow> bool" where
  "range_in L r \<longleftrightarrow> 0 \<le> ar_Offset r \<and> 0 < ar_Bytes r \<and> ar_Offset r + ar_Bytes r \<le> L"

lemma finite_covered: "finite rs \<Longrightarrow> finite (covered rs)"
  by (auto simp: covered_def extent_def)

lemma end_of_range:
  assumes "range_in L r" "L \<le> max_int64"
  shows "SaturatingAddInt64 (ar_Offset r) (ar_Bytes r) = ar_Offset r + ar_Bytes r" "\<not> ar_Offset r > wrap64 (max_int64 - ar_Bytes r)"
  using assms by (auto simp: range_in_def SaturatingAddInt64_spec go_int)

text \<open>The loop counts what lies at or after \<open>stop\<close>.\<close>

lemma union_loop_counts:
  assumes "\<forall>r \<in> set rs. range_in L r" "sorted (map ar_Offset rs)" "0 \<le> n" "n \<le> stop" "stop \<le> L" "L \<le> max_int64"
  shows "union_loop rs n stop = n + int (card (covered (set rs) \<inter> {stop..}))"
  using assms
proof (induction rs arbitrary: n stop)
  case (Cons r rs)
  let ?o = "ar_Offset r" and ?e = "ar_Offset r + ar_Bytes r"
  have r: "0 \<le> ?o" "?o < ?e" "?e \<le> L" using Cons.prems(1) by (simp_all add: range_in_def)
  have in_L: "range_in L r" using Cons.prems(1) by simp
  note E = end_of_range [OF in_L Cons.prems(6)]
  define n' where "n' = (if ?e > max stop ?o then n + (?e - max stop ?o) else n)"
  have n': "0 \<le> n'" "n' \<le> max stop ?e" "max stop ?e \<le> L" using Cons.prems(3-5) r by (auto simp: n'_def)
  have step: "union_loop (r # rs) n stop = union_loop rs n' (max stop ?e)"
  proof (cases "?e > max stop ?o")
    case True
    then have "SaturatingAddInt64 n (wrap64 (?e - max stop ?o)) = n'"
      using n' Cons.prems(3-6) r by (simp add: n'_def SaturatingAddInt64_spec go_int)
    then show ?thesis using True E by (simp add: Let_def)
  next
    case False
    then have "n' = n" by (simp only: n'_def if_False)
    then show ?thesis using False E by (simp add: Let_def del: max_less_iff_conj)
  qed
  have "union_loop rs n' (max stop ?e) = n' + int (card (covered (set rs) \<inter> {max stop ?e..}))"
    by (rule Cons.IH) (use Cons.prems n' in auto)
  moreover have "covered (set (r # rs)) \<inter> {stop..} = {max stop ?o..<?e} \<union> (covered (set rs) \<inter> {max stop ?e..})"
  proof -
    have "b \<in> {?o..<?e}" if inb: "b \<in> covered (set rs)" "b < ?e" for b
    proof -
      obtain x where "x \<in> set rs" "ar_Offset x \<le> b" using inb(1) by (auto simp: covered_def extent_def)
      then show ?thesis using Cons.prems(2) inb(2) by auto
    qed
    then have "\<And>b. b \<in> covered (set rs) \<Longrightarrow> b < ?e \<Longrightarrow> ?o \<le> b" by simp
    then show ?thesis by (auto simp: extent_def) (metis linorder_not_le)+
  qed
  moreover have "card ({max stop ?o..<?e} \<union> (covered (set rs) \<inter> {max stop ?e..})) = card {max stop ?o..<?e} + card (covered (set rs) \<inter> {max stop ?e..})"
    by (rule card_Un_disjoint) (auto simp: finite_covered)
  moreover have "n' = n + int (card {max stop ?o..<?e})" by (auto simp: n'_def)
  ultimately show ?case using step by simp
qed simp

section \<open>Alignment\<close>

definition paged :: "mmap_advisor \<Rightarrow> bool" where
  "paged a \<longleftrightarrow> (\<exists>k. ad_pageSize a = 2 ^ k) \<and> 0 \<le> ad_base_len a \<and> ad_base_len a + 2 * ad_pageSize a \<le> max_int64"

definition page_range :: "mmap_advisor \<Rightarrow> int \<Rightarrow> int \<Rightarrow> bool" where
  "page_range a off sz \<longleftrightarrow> 0 \<le> off \<and> 0 < sz \<and> off + sz \<le> ad_base_len a \<and> off mod ad_pageSize a = 0 \<and>
     (sz mod ad_pageSize a = 0 \<or> off + sz = ad_base_len a)"

lemma align_spec:
  assumes "paged a" "0 \<le> o'" "0 < b" "o' + b \<le> ad_base_len a"
  shows "align a o' b = (o' - o' mod ad_pageSize a, ad_pageSize a * ((o' mod ad_pageSize a + b + ad_pageSize a - 1) div ad_pageSize a))"
proof -
  obtain k where k: "ad_pageSize a = 2 ^ k" using assms(1) by (auto simp: paged_def)
  let ?p = "ad_pageSize a"
  have p: "0 < ?p" by (simp add: k)
  have m: "0 \<le> o' mod ?p" "o' mod ?p < ?p" "o' mod ?p \<le> o'" using p assms(2) by (simp_all add: zmod_le_nonneg_dividend)
  have L: "ad_base_len a + 2 * ?p \<le> max_int64" using assms(1) by (simp add: paged_def)
  have w: "wrap64 (o' mod ?p) = o' mod ?p" "wrap64 (o' mod ?p + b + ?p - 1) = o' mod ?p + b + ?p - 1"
    using m L p assms(2-4) by (intro wrap64_id; unfold in_int64_def min_int64_def; linarith)+
  have an: "and_not x (?p - 1) = x - x mod ?p" for x using and_not_mask [of x k] by (simp add: k)
  show ?thesis using w round_up(1) [OF p] p by (simp add: align_def an Let_def)
qed

lemma boundedRange_spec:
  assumes "paged a" "boundedRange a o' b = Some (off, sz)"
  shows "page_range a off sz" "off \<le> o'" "min (o' + b) (ad_base_len a) \<le> off + sz"
proof -
  let ?p = "ad_pageSize a" and ?L = "ad_base_len a"
  have p: "0 < ?p" using assms(1) by (auto simp: paged_def)
  define b' where "b' = (if b > ?L - o' then ?L - o' else b)"
  have g: "?L \<noteq> 0" "0 < b" "0 \<le> o'" "o' < ?L" using assms(2) by (auto simp: boundedRange_def Let_def split: if_splits)
  then have b': "0 < b'" "o' + b' \<le> ?L" "o' + b' = min (o' + b) ?L" by (auto simp: b'_def)
  define up where "up = ?p * ((o' mod ?p + b' + ?p - 1) div ?p)"
  have al: "align a o' b' = (o' - o' mod ?p, up)" using align_spec [OF assms(1) g(3) b'(1,2)] by (simp add: up_def)
  have r: "off = o' - o' mod ?p" "sz = (if up > ?L - off then ?L - off else up)" "0 < sz"
    using assms(2) g al by (auto simp: boundedRange_def Let_def b'_def [symmetric] split: if_splits)
  have u: "o' mod ?p + b' \<le> up" using round_up(2) [OF p, of "o' mod ?p + b'"] by (simp add: up_def)
  have o: "0 \<le> o' mod ?p" "o' mod ?p \<le> o'" using p g(3) by (simp_all add: zmod_le_nonneg_dividend)
  have "off mod ?p = 0" unfolding r(1) by (simp add: mod_diff_right_eq)
  moreover have "sz mod ?p = 0 \<or> off + sz = ?L" using r(2) by (auto simp: up_def)
  ultimately show "page_range a off sz" using r o b' u g by (auto simp: page_range_def)
  show "off \<le> o'" using r(1) o by simp
  show "min (o' + b) ?L \<le> off + sz" using r(1,2) u b' by (auto split: if_splits)
qed

lemma boundedRange_pages:
  assumes "paged a" "page_range a off sz"
  shows "boundedRange a off sz = Some (off, sz)"
proof -
  let ?p = "ad_pageSize a" and ?L = "ad_base_len a"
  have p: "0 < ?p" using assms(1) by (auto simp: paged_def)
  have h: "0 \<le> off" "0 < sz" "off + sz \<le> ?L" "off mod ?p = 0" "sz mod ?p = 0 \<or> off + sz = ?L" using assms(2) by (simp_all add: page_range_def)
  let ?up = "?p * ((sz + ?p - 1) div ?p)"
  have al: "align a off sz = (off, ?up)" using align_spec [OF assms(1) h(1-3)] h(4) by simp
  have "(if ?up > ?L - off then ?L - off else ?up) = sz"
    using h(3,5) round_up(2,4) [OF p, of sz] by auto
  then show ?thesis using h al by (auto simp: boundedRange_def Let_def)
qed

section \<open>The invariant\<close>

definition ranges_of :: "mmap_advisor \<Rightarrow> advised_range set" where
  "ranges_of a = snd ` set (ad_ranges a)"

definition hot_bytes :: "mmap_advisor \<Rightarrow> int set" where
  "hot_bytes a = covered {r \<in> ranges_of a. ar_State r \<noteq> RangeCold}"

definition entry_ok :: "mmap_advisor \<Rightarrow> int \<times> advised_range \<Rightarrow> bool" where
  "entry_ok a kr \<longleftrightarrow> ar_Offset (snd kr) = fst kr \<and> page_range a (fst kr) (ar_Bytes (snd kr))"

definition ranges_ok :: "mmap_advisor \<Rightarrow> bool" where
  "ranges_ok a \<longleftrightarrow> paged a \<and> distinct (map fst (ad_ranges a)) \<and> (\<forall>kr \<in> set (ad_ranges a). entry_ok a kr)"

definition advisor_ok :: "mmap_advisor \<Rightarrow> bool" where
  "advisor_ok a \<longleftrightarrow> ranges_ok a \<and> ad_TotalBytes a = int (card (hot_bytes a)) \<and> ad_TotalBytes a \<le> ad_PeakBytes a"

lemma ranges_in:
  assumes "ranges_ok a" "r \<in> ranges_of a"
  shows "range_in (ad_base_len a) r" "page_range a (ar_Offset r) (ar_Bytes r)" "map_of (ad_ranges a) (ar_Offset r) = Some r"
proof -
  obtain k where k: "(k, r) \<in> set (ad_ranges a)" using assms(2) by (auto simp: ranges_of_def)
  then have e: "ar_Offset r = k" "page_range a k (ar_Bytes r)" using assms(1) by (auto simp: ranges_ok_def entry_ok_def)
  then show "range_in (ad_base_len a) r" "page_range a (ar_Offset r) (ar_Bytes r)" by (simp_all add: range_in_def page_range_def)
  show "map_of (ad_ranges a) (ar_Offset r) = Some r" using k e(1) assms(1) by (simp add: ranges_ok_def)
qed

lemma sanitize_same: "0 \<le> ar_Offset r \<Longrightarrow> 0 \<le> ar_Bytes r \<Longrightarrow> sanitizeRange r = r"
  by (simp add: sanitizeRange_def)

lemma hot_bytes_bound:
  assumes "ranges_ok a"
  shows "hot_bytes a \<subseteq> {0..<ad_base_len a}" "int (card (hot_bytes a)) \<le> ad_base_len a"
proof -
  show s: "hot_bytes a \<subseteq> {0..<ad_base_len a}"
  proof
    fix b assume "b \<in> hot_bytes a"
    then obtain r where "r \<in> ranges_of a" "b \<in> extent r" by (auto simp: hot_bytes_def covered_def)
    then show "b \<in> {0..<ad_base_len a}" using ranges_in(1) [OF assms] by (force simp: extent_def range_in_def)
  qed
  have "0 \<le> ad_base_len a" using assms by (simp add: ranges_ok_def paged_def)
  then show "int (card (hot_bytes a)) \<le> ad_base_len a" using card_mono [OF _ s] by simp
qed

lemma recompute_ok:
  assumes "ranges_ok a"
  shows "advisor_ok (recomputeTotalsLocked a)" "ad_ranges (recomputeTotalsLocked a) = ad_ranges a" "ad_base_len (recomputeTotalsLocked a) = ad_base_len a"
    "ad_pageSize (recomputeTotalsLocked a) = ad_pageSize a" "ad_PeakBytes a \<le> ad_PeakBytes (recomputeTotalsLocked a)"
    "ad_PeakBytes (recomputeTotalsLocked a) \<le> max (ad_PeakBytes a) (ad_base_len a)"
    "ad_TotalEvictions (recomputeTotalsLocked a) = ad_TotalEvictions a" "ad_TotalPrefetches (recomputeTotalsLocked a) = ad_TotalPrefetches a"
proof -
  have inr: "range_in (ad_base_len a) r" if "r \<in> ranges_of a" for r using ranges_in(1) [OF assms that] .
  have same: "map (\<lambda>(k, r). (k, sanitizeRange r)) (ad_ranges a) = ad_ranges a"
  proof (rule map_idI)
    fix x assume "x \<in> set (ad_ranges a)"
    then have "range_in (ad_base_len a) (snd x)" using inr by (auto simp: ranges_of_def)
    then show "(case x of (k, r) \<Rightarrow> (k, sanitizeRange r)) = x" by (simp add: split_beta range_in_def sanitize_same)
  qed
  let ?rs = "sort_key ar_Offset (filter counted (map snd (ad_ranges a)))"
  have set_rs: "set ?rs = {r \<in> ranges_of a. ar_State r \<noteq> RangeCold}"
    using inr by (auto simp: ranges_of_def counted_def range_in_def)
  have "0 < ad_pageSize a" using assms by (auto simp: ranges_ok_def paged_def)
  then have small: "0 \<le> ad_base_len a" "ad_base_len a \<le> max_int64" using assms by (simp_all add: ranges_ok_def paged_def)
  have "union_loop ?rs 0 0 = 0 + int (card (covered (set ?rs) \<inter> {0..}))"
    by (rule union_loop_counts [where L = "ad_base_len a"])
      (use inr set_rs small in auto)
  also have "covered (set ?rs) \<inter> {0..} = hot_bytes a"
    using hot_bytes_bound(1) [OF assms] unfolding set_rs hot_bytes_def by auto
  finally have total_eq: "union_loop ?rs 0 0 = int (card (hot_bytes a))" by simp
  have R: "recomputeTotalsLocked a = a\<lparr>ad_ranges := ad_ranges a, ad_TotalBytes := int (card (hot_bytes a)),
      ad_PeakBytes := (if int (card (hot_bytes a)) > ad_PeakBytes a then int (card (hot_bytes a)) else ad_PeakBytes a)\<rparr>"
    unfolding recomputeTotalsLocked_def Let_def same total_eq by simp
  show "ad_ranges (recomputeTotalsLocked a) = ad_ranges a" "ad_base_len (recomputeTotalsLocked a) = ad_base_len a"
    "ad_pageSize (recomputeTotalsLocked a) = ad_pageSize a" "ad_PeakBytes a \<le> ad_PeakBytes (recomputeTotalsLocked a)"
    "ad_TotalEvictions (recomputeTotalsLocked a) = ad_TotalEvictions a" "ad_TotalPrefetches (recomputeTotalsLocked a) = ad_TotalPrefetches a"
    by (simp_all add: R)
  show "ad_PeakBytes (recomputeTotalsLocked a) \<le> max (ad_PeakBytes a) (ad_base_len a)" using hot_bytes_bound(2) [OF assms] by (simp add: R)
  show "advisor_ok (recomputeTotalsLocked a)" using assms
    by (simp add: R advisor_ok_def ranges_ok_def paged_def entry_ok_def page_range_def hot_bytes_def ranges_of_def)
qed

lemma advisor_shape_cong:
  assumes "ad_base_len a' = ad_base_len a" "ad_pageSize a' = ad_pageSize a"
  shows "paged a' = paged a" "page_range a' off sz = page_range a off sz" "entry_ok a' kr = entry_ok a kr" "boundedRange a' off sz = boundedRange a off sz"
proof -
  have "align a' = align a" by (intro ext) (simp add: align_def assms)
  then show "boundedRange a' off sz = boundedRange a off sz" unfolding boundedRange_def assms by (simp only:)
qed (use assms in \<open>simp_all add: paged_def page_range_def entry_ok_def\<close>)

lemma set_update: "set (AList.update k v xs) \<subseteq> insert (k, v) (set xs)"
  by (induction xs) auto

section \<open>Operations keep the invariant\<close>

lemma book_use_ok:
  assumes "ranges_ok a" "page_range a off sz"
  shows "advisor_ok (book_use now st off sz a)" "ad_base_len (book_use now st off sz a) = ad_base_len a" "ad_pageSize (book_use now st off sz a) = ad_pageSize a"
    "ad_PeakBytes a \<le> ad_PeakBytes (book_use now st off sz a)" "ad_PeakBytes (book_use now st off sz a) \<le> max (ad_PeakBytes a) (ad_base_len a)"
proof -
  define r where "r = (case map_of (ad_ranges a) off of Some r \<Rightarrow> r
      | None \<Rightarrow> \<lparr>ar_Offset = off, ar_Bytes = 0, ar_State = RangeCold, ar_Hits = 0, ar_Evicts = 0, ar_LastUsed = 0\<rparr>)"
  define r' where "r' = r\<lparr>ar_Bytes := max (ar_Bytes r) sz, ar_State := st, ar_Hits := wrapu64 (ar_Hits r + 1), ar_LastUsed := now\<rparr>"
  define a1 where "a1 = a\<lparr>ad_ranges := AList.update off r' (ad_ranges a)\<rparr>"
  have b: "book_use now st off sz a = recomputeTotalsLocked a1" unfolding book_use_def Let_def a1_def r'_def r_def ..
  have sh: "ad_base_len a1 = ad_base_len a" "ad_pageSize a1 = ad_pageSize a" "ad_PeakBytes a1 = ad_PeakBytes a" by (simp_all add: a1_def)
  note C = advisor_shape_cong [OF sh(1,2)]
  have "entry_ok a (off, r')"
  proof (cases "map_of (ad_ranges a) off")
    case None
    then show ?thesis using assms(2) by (simp add: entry_ok_def r'_def r_def page_range_def max_def)
  next
    case (Some r0)
    then have "entry_ok a (off, r0)" using assms(1) by (auto simp: ranges_ok_def dest: map_of_SomeD)
    then show ?thesis using assms(2) Some by (auto simp: entry_ok_def r'_def r_def page_range_def max_def)
  qed
  moreover have "set (ad_ranges a1) \<subseteq> insert (off, r') (set (ad_ranges a))" using set_update by (simp add: a1_def)
  ultimately have "\<forall>kr \<in> set (ad_ranges a1). entry_ok a1 kr" using assms(1) unfolding C(3) ranges_ok_def by blast
  moreover have "distinct (map fst (ad_ranges a1))" using assms(1) by (simp add: a1_def ranges_ok_def distinct_update)
  ultimately have "ranges_ok a1" using assms(1) by (simp add: ranges_ok_def C)
  from recompute_ok [OF this]
  show "advisor_ok (book_use now st off sz a)" "ad_base_len (book_use now st off sz a) = ad_base_len a" "ad_pageSize (book_use now st off sz a) = ad_pageSize a"
    "ad_PeakBytes a \<le> ad_PeakBytes (book_use now st off sz a)" "ad_PeakBytes (book_use now st off sz a) \<le> max (ad_PeakBytes a) (ad_base_len a)"
    unfolding b sh by blast+
qed

lemma advisor_ok_counters: "advisor_ok (a\<lparr>ad_TotalEvictions := x\<rparr>) = advisor_ok a" "advisor_ok (a\<lparr>ad_TotalPrefetches := x\<rparr>) = advisor_ok a"
  by (simp_all add: advisor_ok_def ranges_ok_def paged_def entry_ok_def page_range_def hot_bytes_def ranges_of_def)

lemma cool_sel [simp]: "ar_Offset (cool off sz r) = ar_Offset r" "ar_Bytes (cool off sz r) = ar_Bytes r" "ar_LastUsed (cool off sz r) = ar_LastUsed r"
  by (simp_all add: cool_def)

lemma cool_ranges:
  assumes "ranges_ok a"
  shows "ranges_ok (a\<lparr>ad_ranges := map (\<lambda>(k, r). (k, cool off sz r)) (ad_ranges a)\<rparr>)"
  using assms by (auto simp: ranges_ok_def paged_def entry_ok_def page_range_def comp_def split_beta)

lemma evict_ok:
  assumes "ranges_ok a" "evictLocked adv off sz a w = (r, a', w')" "advisor_ok a"
  shows "advisor_ok a'" "ad_base_len a' = ad_base_len a" "ad_pageSize a' = ad_pageSize a"
    "ad_PeakBytes a \<le> ad_PeakBytes a'" "ad_PeakBytes a' \<le> max (ad_PeakBytes a) (ad_base_len a)"
    "ad_ranges a' = (case r of Inl _ \<Rightarrow> ad_ranges a | Inr _ \<Rightarrow> map (\<lambda>(k, r). (k, cool off sz r)) (ad_ranges a))"
proof -
  define a1 where "a1 = a\<lparr>ad_ranges := map (\<lambda>(k, r). (k, cool off sz r)) (ad_ranges a)\<rparr>"
  have sh: "ad_base_len a1 = ad_base_len a" "ad_pageSize a1 = ad_pageSize a" "ad_PeakBytes a1 = ad_PeakBytes a"
    "ad_ranges a1 = map (\<lambda>(k, r). (k, cool off sz r)) (ad_ranges a)" by (simp_all add: a1_def)
  have R: "ranges_ok a1" unfolding a1_def by (rule cool_ranges [OF assms(1)])
  let ?a2 = "recomputeTotalsLocked a1"
  have "(\<exists>e. r = Inl e \<and> a' = a) \<or> (r = Inr () \<and> a' = ?a2\<lparr>ad_TotalEvictions := wrapu64 (ad_TotalEvictions ?a2 + 1)\<rparr>)"
    using assms(2) by (auto simp: evictLocked_def Let_def a1_def split: prod.splits sum.splits)
  then have "advisor_ok a' \<and> ad_base_len a' = ad_base_len a \<and> ad_pageSize a' = ad_pageSize a \<and>
    ad_PeakBytes a \<le> ad_PeakBytes a' \<and> ad_PeakBytes a' \<le> max (ad_PeakBytes a) (ad_base_len a) \<and>
    ad_ranges a' = (case r of Inl _ \<Rightarrow> ad_ranges a | Inr _ \<Rightarrow> ad_ranges a1)"
    using recompute_ok [OF R] assms(3) unfolding sh(1-3) by (elim disjE) (auto simp: advisor_ok_counters)
  then show "advisor_ok a'" "ad_base_len a' = ad_base_len a" "ad_pageSize a' = ad_pageSize a"
    "ad_PeakBytes a \<le> ad_PeakBytes a'" "ad_PeakBytes a' \<le> max (ad_PeakBytes a) (ad_base_len a)"
    "ad_ranges a' = (case r of Inl _ \<Rightarrow> ad_ranges a | Inr _ \<Rightarrow> map (\<lambda>(k, r). (k, cool off sz r)) (ad_ranges a))"
    unfolding sh(4) by simp_all
qed

end
