(* ===== verification/AdvisorProps.thy ===== *)
theory AdvisorProps
  imports AdvisorFacts
begin

text \<open>
  What the advisor promises: its totals are exact after any history of calls, evicting what is cold
  spares the ranges used since the cutoff in whatever order the map is visited, and merging ranges
  changes neither the bytes that are hot nor the protection of a recent use.
\<close>

section \<open>Merging\<close>

definition cold :: "advised_range \<Rightarrow> bool" where
  "cold r \<longleftrightarrow> ar_State r = RangeCold"

definition absorbed :: "advised_range \<Rightarrow> advised_range \<Rightarrow> bool" where
  "absorbed x y \<longleftrightarrow> extent x \<subseteq> extent y \<and> cold x = cold y \<and> ar_LastUsed x \<le> ar_LastUsed y"

lemma absorbed_refl [simp]: "absorbed x x"
  by (simp add: absorbed_def)

lemma absorbed_trans: "absorbed x y \<Longrightarrow> absorbed y z \<Longrightarrow> absorbed x z"
  by (auto simp: absorbed_def)

lemma page_range_in: "page_range a (ar_Offset r) (ar_Bytes r) \<Longrightarrow> range_in (ad_base_len a) r"
  by (simp add: page_range_def range_in_def)

lemma merge_state: "mergeCompatible (ar_State x) (ar_State y) \<Longrightarrow> ((if ar_State y > ar_State x then ar_State y else ar_State x) = RangeCold) = (ar_State x = RangeCold)"
  by (cases "ar_State x"; cases "ar_State y") (auto simp: mergeCompatible_def less_range_state_def)

lemma merge_into_spec:
  assumes "paged a" "page_range a (ar_Offset x) (ar_Bytes x)" "page_range a (ar_Offset y) (ar_Bytes y)"
    and "ar_Offset x \<le> ar_Offset y" "ar_Offset y \<le> ar_Offset x + ar_Bytes x" "mergeCompatible (ar_State x) (ar_State y)"
  shows "ar_Offset (merge_into x y) = ar_Offset x" "page_range a (ar_Offset x) (ar_Bytes (merge_into x y))"
    "extent (merge_into x y) = extent x \<union> extent y" "cold (merge_into x y) = cold x" "absorbed x (merge_into x y)" "absorbed y (merge_into x y)"
proof -
  let ?p = "ad_pageSize a"
  have "0 < ?p" using assms(1) by (auto simp: paged_def)
  then have L: "0 \<le> ad_base_len a" "ad_base_len a \<le> max_int64" using assms(1) by (simp_all add: paged_def)
  note X = end_of_range(1) [OF page_range_in [OF assms(2)] L(2)] and Y = end_of_range(1) [OF page_range_in [OF assms(3)] L(2)]
  have x: "0 \<le> ar_Offset x" "0 < ar_Bytes x" "ar_Offset x + ar_Bytes x \<le> ad_base_len a" "ar_Offset x mod ?p = 0"
      "ar_Bytes x mod ?p = 0 \<or> ar_Offset x + ar_Bytes x = ad_base_len a" using assms(2) by (simp_all add: page_range_def)
  have y: "0 < ar_Bytes y" "ar_Offset y + ar_Bytes y \<le> ad_base_len a" "ar_Offset y mod ?p = 0"
      "ar_Bytes y mod ?p = 0 \<or> ar_Offset y + ar_Bytes y = ad_base_len a" using assms(3) by (simp_all add: page_range_def)
  define b where "b = (if ar_Offset y + ar_Bytes y > ar_Offset x + ar_Bytes x then ar_Offset y + ar_Bytes y - ar_Offset x else ar_Bytes x)"
  have sub: "ar_Offset y + ar_Bytes y > ar_Offset x + ar_Bytes x \<Longrightarrow>
      saturatingSubInt64 (ar_Offset y + ar_Bytes y) (ar_Offset x) = ar_Offset y + ar_Bytes y - ar_Offset x"
    using x y L by (simp add: saturatingSubInt64_def go_int)
  have m: "ar_Bytes (merge_into x y) = b" using sub by (simp add: merge_into_def Let_def X Y b_def)
  show o: "ar_Offset (merge_into x y) = ar_Offset x" by (simp add: merge_into_def Let_def)
  have "(ar_Offset y + ar_Bytes y - ar_Offset x) mod ?p = 0" if "ar_Bytes y mod ?p = 0"
  proof -
    have "?p dvd ar_Offset y" "?p dvd ar_Bytes y" "?p dvd ar_Offset x" using that x(4) y(3) by (simp_all add: mod_eq_0_iff_dvd)
    then show ?thesis by (simp add: mod_eq_0_iff_dvd)
  qed
  then show "page_range a (ar_Offset x) (ar_Bytes (merge_into x y))" unfolding m using x y assms(4) by (auto simp: page_range_def b_def)
  show e: "extent (merge_into x y) = extent x \<union> extent y" unfolding extent_def o m using assms(4,5) y(1) x(2) by (auto simp: b_def)
  show c: "cold (merge_into x y) = cold x" using merge_state [OF assms(6)] by (simp add: cold_def merge_into_def Let_def)
  have "cold x = cold y" using assms(6) by (simp add: cold_def mergeCompatible_def)
  then show "absorbed x (merge_into x y)" "absorbed y (merge_into x y)" using e c by (auto simp: absorbed_def merge_into_def Let_def)
qed

lemma merge_loop_ok:
  assumes "paged a" "\<forall>kr \<in> set merged. entry_ok a kr" "distinct (map fst merged)" "page_range a (ar_Offset cur) (ar_Bytes cur)"
    and "\<forall>x \<in> set rs. page_range a (ar_Offset x) (ar_Bytes x)" "sorted_wrt (<) (map ar_Offset (last_seen # rs))" "ar_Offset cur \<le> ar_Offset last_seen"
    and "\<forall>kr \<in> set merged. fst kr < ar_Offset cur"
  shows "(\<forall>kr \<in> set (merge_loop cur rs merged). entry_ok a kr) \<and> distinct (map fst (merge_loop cur rs merged)) \<and>
    (\<forall>c. covered {x \<in> snd ` set (merge_loop cur rs merged). cold x = c} = covered {x \<in> snd ` set merged \<union> {cur} \<union> set rs. cold x = c}) \<and>
    (\<forall>x \<in> snd ` set merged \<union> {cur} \<union> set rs. \<exists>y \<in> snd ` set (merge_loop cur rs merged). absorbed x y)"
  using assms
proof (induction rs arbitrary: cur merged last_seen)
  case Nil
  have n: "AList.update (ar_Offset cur) cur merged = merged @ [(ar_Offset cur, cur)]"
  proof -
    have "ar_Offset cur \<notin> fst ` set merged" using Nil.prems(8) by force
    then show ?thesis by (induction merged) auto
  qed
  have "entry_ok a (ar_Offset cur, cur)" using Nil.prems(4) by (simp add: entry_ok_def)
  moreover have "distinct (map fst (merged @ [(ar_Offset cur, cur)]))" using Nil.prems(3,8) by force
  moreover have "snd ` set (merged @ [(ar_Offset cur, cur)]) = snd ` set merged \<union> {cur}" by auto
  ultimately show ?case using Nil.prems(2) by (force simp: n intro: absorbed_refl)
next
  case (Cons r rs)
  have "0 < ad_pageSize a" using Cons.prems(1) by (auto simp: paged_def)
  then have L: "ad_base_len a \<le> max_int64" using Cons.prems(1) by (simp add: paged_def)
  have pr: "page_range a (ar_Offset r) (ar_Bytes r)" using Cons.prems(5) by simp
  have san: "sanitizeRange r = r" using page_range_in [OF pr] by (simp add: range_in_def sanitize_same)
  have E: "SaturatingAddInt64 (ar_Offset cur) (ar_Bytes cur) = ar_Offset cur + ar_Bytes cur"
    using end_of_range(1) [OF page_range_in [OF Cons.prems(4)] L] .
  have le: "ar_Offset cur \<le> ar_Offset r" "ar_Offset cur < ar_Offset r" using Cons.prems(6,7) by auto
  have srt: "sorted_wrt (<) (map ar_Offset (r # rs))" using Cons.prems(6) by simp
  show ?case
  proof (cases "ar_Offset r \<le> ar_Offset cur + ar_Bytes cur \<and> mergeCompatible (ar_State cur) (ar_State r)")
    case True
    note M = merge_into_spec [OF Cons.prems(1,4) pr le(1)] True
    have step: "merge_loop cur (r # rs) merged = merge_loop (merge_into cur r) rs merged" using True by (simp add: san E Let_def)
    have mi: "ar_Offset (merge_into cur r) = ar_Offset cur" "page_range a (ar_Offset (merge_into cur r)) (ar_Bytes (merge_into cur r))"
      "extent (merge_into cur r) = extent cur \<union> extent r" "cold (merge_into cur r) = cold cur" "absorbed cur (merge_into cur r)" "absorbed r (merge_into cur r)"
      using M by simp_all
    have "cold r = cold cur" using mi(4,6) by (simp add: absorbed_def)
    then have cov: "covered {x \<in> snd ` set merged \<union> {merge_into cur r} \<union> set rs. cold x = c} = covered {x \<in> snd ` set merged \<union> {cur} \<union> set (r # rs). cold x = c}" for c
    proof -
      have "{x \<in> snd ` set merged \<union> {m} \<union> set rs. cold x = c} = {x \<in> snd ` set merged \<union> set rs. cold x = c} \<union> (if cold m = c then {m} else {})" for m by auto
      moreover have "{x \<in> snd ` set merged \<union> {cur} \<union> set (r # rs). cold x = c} = {x \<in> snd ` set merged \<union> set rs. cold x = c} \<union> (if cold cur = c then {cur, r} else {})"
        using \<open>cold r = cold cur\<close> by auto
      ultimately show ?thesis using mi(3,4) by (simp only: covered_Un) (auto simp: covered_def)
    qed
    have IH: "(\<forall>kr \<in> set (merge_loop (merge_into cur r) rs merged). entry_ok a kr) \<and> distinct (map fst (merge_loop (merge_into cur r) rs merged)) \<and>
      (\<forall>c. covered {x \<in> snd ` set (merge_loop (merge_into cur r) rs merged). cold x = c} = covered {x \<in> snd ` set merged \<union> {merge_into cur r} \<union> set rs. cold x = c}) \<and>
      (\<forall>x \<in> snd ` set merged \<union> {merge_into cur r} \<union> set rs. \<exists>y \<in> snd ` set (merge_loop (merge_into cur r) rs merged). absorbed x y)"
    proof (rule Cons.IH [where last_seen = r, OF Cons.prems(1-3) mi(2) _ srt])
      show "\<forall>x \<in> set rs. page_range a (ar_Offset x) (ar_Bytes x)" using Cons.prems(5) by simp
      show "ar_Offset (merge_into cur r) \<le> ar_Offset r" "\<forall>kr \<in> set merged. fst kr < ar_Offset (merge_into cur r)"
        unfolding mi(1) using le Cons.prems(8) by simp_all
    qed
    have ab: "\<exists>y \<in> snd ` set (merge_loop cur (r # rs) merged). absorbed x y" if x: "x \<in> snd ` set merged \<union> {cur} \<union> set (r # rs)" for x
    proof -
      have all: "\<forall>x \<in> snd ` set merged \<union> {merge_into cur r} \<union> set rs. \<exists>y \<in> snd ` set (merge_loop cur (r # rs) merged). absorbed x y" using IH unfolding step by blast
      obtain z where z: "z \<in> snd ` set merged \<union> {merge_into cur r} \<union> set rs" "absorbed x z"
      proof (cases "x = cur \<or> x = r")
        case True
        then show thesis using mi(5,6) that [of "merge_into cur r"] by auto
      next
        case False
        then show thesis using x that [of x] by auto
      qed
      obtain y where y: "y \<in> snd ` set (merge_loop cur (r # rs) merged)" "absorbed z y" using bspec [OF all z(1)] by (rule bexE)
      have "absorbed x y" by (rule absorbed_trans [OF z(2) y(2)])
      then show ?thesis using y(1) by (rule bexI)
    qed
    show ?thesis using IH cov ab unfolding step by blast
  next
    case False
    let ?merged = "AList.update (ar_Offset cur) cur merged"
    have step: "merge_loop cur (r # rs) merged = merge_loop r rs ?merged" unfolding merge_loop.simps Let_def san E using False by (rule if_not_P)
    have n: "?merged = merged @ [(ar_Offset cur, cur)]"
    proof -
      have "ar_Offset cur \<notin> fst ` set merged" using Cons.prems(8) by force
      then show ?thesis by (induction merged) auto
    qed
    have im: "snd ` set ?merged \<union> {r} \<union> set rs = snd ` set merged \<union> {cur} \<union> set (r # rs)" by (auto simp: n)
    have "(\<forall>kr \<in> set (merge_loop r rs ?merged). entry_ok a kr) \<and> distinct (map fst (merge_loop r rs ?merged)) \<and>
      (\<forall>c. covered {x \<in> snd ` set (merge_loop r rs ?merged). cold x = c} = covered {x \<in> snd ` set ?merged \<union> {r} \<union> set rs. cold x = c}) \<and>
      (\<forall>x \<in> snd ` set ?merged \<union> {r} \<union> set rs. \<exists>y \<in> snd ` set (merge_loop r rs ?merged). absorbed x y)"
    proof (rule Cons.IH [where last_seen = r])
      show "\<forall>kr \<in> set ?merged. entry_ok a kr" using Cons.prems(2,4) by (auto simp: n entry_ok_def)
      show "distinct (map fst ?merged)" using Cons.prems(3,8) unfolding n by force
      show "\<forall>kr \<in> set ?merged. fst kr < ar_Offset r" using Cons.prems(8) le unfolding n by force
    qed (use Cons.prems pr srt in auto)
    then show ?thesis unfolding im step by blast
  qed
qed

lemma merge_ok:
  assumes "advisor_ok a"
  shows "advisor_ok (MergeRanges a) \<and> ad_base_len (MergeRanges a) = ad_base_len a \<and> ad_pageSize (MergeRanges a) = ad_pageSize a \<and>
    ad_PeakBytes a \<le> ad_PeakBytes (MergeRanges a) \<and> ad_PeakBytes (MergeRanges a) \<le> max (ad_PeakBytes a) (ad_base_len a) \<and>
    (\<forall>c. covered {x \<in> ranges_of (MergeRanges a). cold x = c} = covered {x \<in> ranges_of a. cold x = c}) \<and>
    (\<forall>x \<in> ranges_of a. \<exists>y \<in> ranges_of (MergeRanges a). absorbed x y)"
proof (cases "length (ad_ranges a) < 2")
  case True
  then have "MergeRanges a = a" by (simp add: MergeRanges_def)
  moreover have "\<exists>y \<in> ranges_of a. absorbed x y" if "x \<in> ranges_of a" for x using absorbed_refl that by blast
  ultimately show ?thesis using assms by simp
next
  case False
  have ok: "ranges_ok a" using assms by (simp add: advisor_ok_def)
  let ?s = "sort_key ar_Offset (map snd (ad_ranges a))"
  have set_s: "set ?s = ranges_of a" by (simp add: ranges_of_def)
  have "length ?s = length (ad_ranges a)" by simp
  then obtain r rs where s: "?s = r # rs" using False by (cases ?s) auto
  have "map ar_Offset (map snd (ad_ranges a)) = map fst (ad_ranges a)" using ok by (auto simp: ranges_ok_def entry_ok_def)
  moreover have "distinct (map fst (ad_ranges a))" using ok by (simp add: ranges_ok_def)
  ultimately have "distinct (map ar_Offset (map snd (ad_ranges a)))" by (rule ssubst)
  then have "distinct (map ar_Offset ?s)" by (metis distinct_map distinct_sort set_sort)
  moreover have "sorted (map ar_Offset ?s)" by simp
  ultimately have srt: "sorted_wrt (<) (map ar_Offset (r # rs))" unfolding s [symmetric] by (simp add: strict_sorted_iff)
  have pr: "page_range a (ar_Offset x) (ar_Bytes x)" if "x \<in> set (r # rs)" for x
    using ranges_in(2) [OF ok] that set_s unfolding s by blast
  have san: "sanitizeRange r = r" using page_range_in [OF pr [of r]] by (simp add: range_in_def sanitize_same)
  let ?out = "merge_loop r rs []"
  have M: "(\<forall>kr \<in> set ?out. entry_ok a kr) \<and> distinct (map fst ?out) \<and>
    (\<forall>c. covered {x \<in> snd ` set ?out. cold x = c} = covered {x \<in> snd ` set ([] :: (int \<times> advised_range) list) \<union> {r} \<union> set rs. cold x = c}) \<and>
    (\<forall>x \<in> snd ` set ([] :: (int \<times> advised_range) list) \<union> {r} \<union> set rs. \<exists>y \<in> snd ` set ?out. absorbed x y)"
    by (rule merge_loop_ok [where last_seen = r]) (use ok pr srt in \<open>auto simp: ranges_ok_def\<close>)
  define a1 where "a1 = a\<lparr>ad_ranges := ?out\<rparr>"
  have sel: "ad_ranges a1 = ?out" "ad_base_len a1 = ad_base_len a" "ad_pageSize a1 = ad_pageSize a" "ad_PeakBytes a1 = ad_PeakBytes a" by (simp_all add: a1_def)
  have eq: "MergeRanges a = recomputeTotalsLocked a1" using False s san by (simp add: MergeRanges_def a1_def)
  have "ranges_ok a1" using ok M unfolding ranges_ok_def advisor_shape_cong [OF sel(2,3)] sel(1) by blast
  note R = recompute_ok [OF this]
  have out: "ranges_of (recomputeTotalsLocked a1) = snd ` set ?out" by (simp add: ranges_of_def R(2) sel)
  have "snd ` set ([] :: (int \<times> advised_range) list) \<union> {r} \<union> set rs = ranges_of a" using set_s unfolding s by auto
  then show ?thesis using R M unfolding eq out sel by simp
qed

section \<open>Evicting\<close>

definition recent :: "int \<Rightarrow> advised_range \<Rightarrow> bool" where
  "recent cutoff r \<longleftrightarrow> \<not> cold r \<and> cutoff \<le> ar_LastUsed r"

text \<open>A call of \<open>madvise\<close> that records its arguments and may fail.\<close>

definition recording :: "((int \<times> int \<times> int) list \<Rightarrow> go_error option) \<Rightarrow> (int \<times> int \<times> int) list madvise" where
  "recording fails off sz advice w = (case fails w of None \<Rightarrow> Inr () | Some e \<Rightarrow> Inl e, w @ [(off, sz, advice)])"

definition cooled :: "int \<times> advised_range \<Rightarrow> int \<times> advised_range \<Rightarrow> bool" where
  "cooled x y \<longleftrightarrow> fst y = fst x \<and> extent (snd y) = extent (snd x) \<and> ar_LastUsed (snd y) = ar_LastUsed (snd x) \<and> (snd y = snd x \<or> cold (snd y))"

lemma cooled_refl: "cooled x x" by (simp add: cooled_def)

lemma cooled_trans: "cooled x y \<Longrightarrow> cooled y z \<Longrightarrow> cooled x z"
  by (auto simp: cooled_def)

lemma evict_step:
  assumes "advisor_ok a" "(k, r) \<in> set (ad_ranges a)" "\<not> (\<exists>other \<in> set (map snd (ad_ranges a)). overlaps_recent cutoff k (ar_Bytes r) other)"
    and "evictLocked (recording fails) k (ar_Bytes r) a w = (res, a', w')"
  shows "w' = w @ [(k, ar_Bytes r, MADV_DONTNEED)]" "list_all2 cooled (ad_ranges a) (ad_ranges a')"
    "\<forall>kr \<in> set (ad_ranges a). recent cutoff (snd kr) \<longrightarrow> kr \<in> set (ad_ranges a') \<and> {k..<k + ar_Bytes r} \<inter> extent (snd kr) = {}"
    "res = Inr () \<Longrightarrow> \<exists>r'. (k, r') \<in> set (ad_ranges a') \<and> cold r'"
proof -
  have ok: "ranges_ok a" using assms(1) by (simp add: advisor_ok_def)
  show "w' = w @ [(k, ar_Bytes r, MADV_DONTNEED)]" using assms(4) by (auto simp: evictLocked_def recording_def Let_def split: option.splits)
  note R = evict_ok(6) [OF ok assms(4,1)]
  have "0 < ad_pageSize a" using ok by (auto simp: ranges_ok_def paged_def)
  then have L: "ad_base_len a \<le> max_int64" using ok by (simp add: ranges_ok_def paged_def)
  have cool: "cooled x (fst x, cool k (ar_Bytes r) (snd x))" for x
    by (auto simp: cooled_def extent_def cool_def cold_def)
  show "list_all2 cooled (ad_ranges a) (ad_ranges a')"
    unfolding R using cool by (auto simp: list_all2_conv_all_nth cooled_refl split_beta split: sum.splits)
  have sep: "cool k (ar_Bytes r) (snd kr) = snd kr \<and> {k..<k + ar_Bytes r} \<inter> extent (snd kr) = {}" if kr: "kr \<in> set (ad_ranges a)" "recent cutoff (snd kr)" for kr
  proof -
    have "snd kr \<in> ranges_of a" using kr(1) by (auto simp: ranges_of_def)
    note I = ranges_in(1) [OF ok this]
    note E = end_of_range(1) [OF I L]
    have "\<not> overlaps_recent cutoff k (ar_Bytes r) (snd kr)" using assms(3) kr(1) by auto
    then have "\<not> (ar_Offset (snd kr) < k + ar_Bytes r \<and> ar_Offset (snd kr) + ar_Bytes (snd kr) > k)"
      using kr(2) E by (simp add: overlaps_recent_def recent_def cold_def)
    then show ?thesis using I E by (auto simp: cool_def extent_def range_in_def)
  qed
  then show "\<forall>kr \<in> set (ad_ranges a). recent cutoff (snd kr) \<longrightarrow> kr \<in> set (ad_ranges a') \<and> {k..<k + ar_Bytes r} \<inter> extent (snd kr) = {}"
    unfolding R by (force split: sum.splits)
  show "\<exists>r'. (k, r') \<in> set (ad_ranges a') \<and> cold r'" if "res = Inr ()"
  proof -
    have k: "ar_Offset r = k" using ok assms(2) by (auto simp: ranges_ok_def entry_ok_def)
    have "r \<in> ranges_of a" using assms(2) by (force simp: ranges_of_def)
    from end_of_range(1) [OF ranges_in(1) [OF ok this] L] have "cold (cool k (ar_Bytes r) r)" using k by (simp add: cool_def cold_def)
    then show ?thesis using assms(2) that unfolding R by force
  qed
qed

lemma cooled_keys: "list_all2 cooled xs ys \<Longrightarrow> map fst ys = map fst xs"
  by (induction rule: list_all2_induct) (auto simp: cooled_def)

lemma cooled_at:
  assumes "list_all2 cooled xs ys" "distinct (map fst xs)" "(k, x) \<in> set xs"
  obtains y where "(k, y) \<in> set ys" "cooled (k, x) (k, y)"
proof -
  obtain i where i: "i < length xs" "xs ! i = (k, x)" using assms(3) by (metis in_set_conv_nth)
  then have c: "cooled (k, x) (ys ! i)" "i < length ys" using assms(1) by (auto simp: list_all2_conv_all_nth)
  then have "ys ! i = (k, snd (ys ! i))" by (simp add: cooled_def prod_eq_iff)
  then show thesis using c that [of "snd (ys ! i)"] by (metis nth_mem)
qed

lemma evict_cold_loop_ok:
  assumes "advisor_ok a" "evict_cold_loop (recording fails) cutoff ks n a w = ((n', res), a', w')"
  shows "advisor_ok a' \<and> ad_base_len a' = ad_base_len a \<and> ad_pageSize a' = ad_pageSize a \<and> ad_PeakBytes a \<le> ad_PeakBytes a' \<and>
    ad_PeakBytes a' \<le> max (ad_PeakBytes a) (ad_base_len a) \<and> list_all2 cooled (ad_ranges a) (ad_ranges a') \<and>
    (\<forall>kr \<in> set (ad_ranges a). recent cutoff (snd kr) \<longrightarrow> kr \<in> set (ad_ranges a')) \<and>
    (\<exists>news. w' = w @ news \<and> (\<forall>(off, sz, advice) \<in> set news. advice = MADV_DONTNEED \<and>
       (\<forall>r \<in> ranges_of a. recent cutoff r \<longrightarrow> {off..<off + sz} \<inter> extent r = {}))) \<and>
    (res = Inr () \<longrightarrow> (\<forall>k \<in> set ks. \<forall>r. (k, r) \<in> set (ad_ranges a') \<and> \<not> cold r \<and> ar_LastUsed r < cutoff \<longrightarrow>
       (\<exists>x \<in> ranges_of a'. recent cutoff x \<and> extent x \<inter> extent r \<noteq> {})))"
  using assms
proof (induction ks arbitrary: n a w)
  case Nil
  then show ?case by (auto simp: list_all2_refl cooled_refl list.rel_refl)
next
  case (Cons k ks)
  have ok: "ranges_ok a" using Cons.prems(1) by (simp add: advisor_ok_def)
  have "0 < ad_pageSize a" using ok by (auto simp: ranges_ok_def paged_def)
  then have L: "ad_base_len a \<le> max_int64" using ok by (simp add: ranges_ok_def paged_def)
  have d: "distinct (map fst (ad_ranges a))" using ok by (simp add: ranges_ok_def)
  text \<open>The key needs no eviction: it is absent, cold, recent, or overlaps a recent range.\<close>
  have skip: ?case if run: "evict_cold_loop (recording fails) cutoff ks n a w = ((n', res), a', w')"
      and fine: "\<And>r. (k, r) \<in> set (ad_ranges a) \<Longrightarrow> \<not> cold r \<Longrightarrow> ar_LastUsed r < cutoff \<Longrightarrow> \<exists>x \<in> ranges_of a. recent cutoff x \<and> extent x \<inter> extent r \<noteq> {}"
  proof -
    note IH = Cons.IH [OF Cons.prems(1) run]
    have keep: "list_all2 cooled (ad_ranges a) (ad_ranges a')" "\<forall>kr \<in> set (ad_ranges a). recent cutoff (snd kr) \<longrightarrow> kr \<in> set (ad_ranges a')" using IH by blast+
    have "\<exists>x \<in> ranges_of a'. recent cutoff x \<and> extent x \<inter> extent r \<noteq> {}"
      if r: "(k, r) \<in> set (ad_ranges a')" "\<not> cold r" "ar_LastUsed r < cutoff" for r
    proof -
      have "k \<in> fst ` set (ad_ranges a)" using r(1) cooled_keys [OF keep(1)] by (metis fst_conv image_eqI list.set_map)
      then obtain r0 where r0: "(k, r0) \<in> set (ad_ranges a)" by auto
      obtain y where y: "(k, y) \<in> set (ad_ranges a')" "cooled (k, r0) (k, y)" by (rule cooled_at [OF keep(1) d r0])
      have "distinct (map fst (ad_ranges a'))" using d cooled_keys [OF keep(1)] by simp
      then have "y = r" using y(1) r(1) by (metis eq_key_imp_eq_value)
      then have "r = r0" using y(2) r(2) by (simp add: cooled_def)
      then obtain x where x: "x \<in> ranges_of a" "recent cutoff x" "extent x \<inter> extent r \<noteq> {}" using fine [OF r0] r(2,3) by auto
      then have "x \<in> ranges_of a'" using keep(2) by (force simp: ranges_of_def)
      then show ?thesis using x(2,3) by blast
    qed
    then show ?thesis using IH by (simp add: Ball_def)
  qed
  show ?case
  proof (cases "map_of (ad_ranges a) k")
    case None
    have "(k, r) \<notin> set (ad_ranges a)" for r using None by (metis map_of_eq_None_iff fst_conv image_eqI)
    then show ?thesis using Cons.prems(2) None by (intro skip) simp_all
  next
    case (Some r)
    then have kr: "(k, r) \<in> set (ad_ranges a)" by (rule map_of_SomeD)
    have only: "r' = r" if "(k, r') \<in> set (ad_ranges a)" for r' using kr that d by (metis eq_key_imp_eq_value)
    have k: "ar_Offset r = k" "page_range a k (ar_Bytes r)" using ok kr by (auto simp: ranges_ok_def entry_ok_def)
    have b: "boundedRange a (ar_Offset r) (ar_Bytes r) = Some (k, ar_Bytes r)" using boundedRange_pages [OF _ k(2)] ok k(1) by (simp add: ranges_ok_def)
    show ?thesis
    proof (cases "ar_State r = RangeCold \<or> ar_LastUsed r \<ge> cutoff")
      case True
      then show ?thesis using Cons.prems(2) Some only by (intro skip) (auto simp: cold_def)
    next
      case old: False
      show ?thesis
      proof (cases "\<exists>other \<in> set (map snd (ad_ranges a)). overlaps_recent cutoff k (ar_Bytes r) other")
        case True
        then obtain x where x: "x \<in> ranges_of a" "overlaps_recent cutoff k (ar_Bytes r) x" by (auto simp: ranges_of_def)
        note E = end_of_range(1) [OF ranges_in(1) [OF ok x(1)] L]
        have "max k (ar_Offset x) \<in> extent x \<inter> extent r" using x(2) E ranges_in(1) [OF ok x(1)] k
          by (auto simp: extent_def overlaps_recent_def range_in_def page_range_def)
        then have "\<exists>x \<in> ranges_of a. recent cutoff x \<and> extent x \<inter> extent r \<noteq> {}"
          using x by (auto simp: recent_def overlaps_recent_def cold_def)
        moreover have "evict_cold_loop (recording fails) cutoff ks n a w = ((n', res), a', w')" using Cons.prems(2) Some old b True by simp
        ultimately show ?thesis using only by (intro skip) auto
      next
        case False
        obtain r1 a1 w1 where e: "evictLocked (recording fails) k (ar_Bytes r) a w = (r1, a1, w1)" by (metis prod_cases3)
        note S = evict_step [OF Cons.prems(1) kr False e] and K = evict_ok [OF ok e Cons.prems(1)]
        have sep: "\<forall>x \<in> ranges_of a. recent cutoff x \<longrightarrow> {k..<k + ar_Bytes r} \<inter> extent x = {}" using S(3) by (auto simp: ranges_of_def)
        show ?thesis
        proof (cases r1)
          case (Inl err)
          then have "res = Inl err" "a' = a1" "w' = w1" using Cons.prems(2) Some old b False e by auto
          moreover have "\<exists>news. w1 = w @ news \<and> (\<forall>(off, sz, advice) \<in> set news. advice = MADV_DONTNEED \<and>
              (\<forall>r \<in> ranges_of a. recent cutoff r \<longrightarrow> {off..<off + sz} \<inter> extent r = {}))" using S(1) sep by auto
          ultimately show ?thesis using S(2,3) K(1-5) by auto
        next
          case (Inr u)
          then have run: "evict_cold_loop (recording fails) cutoff ks (n + 1) a1 w1 = ((n', res), a', w')" using Cons.prems(2) Some old b False e by auto
          note IH = Cons.IH [OF K(1) run]
          have keep: "list_all2 cooled (ad_ranges a1) (ad_ranges a')" using IH by blast
          have ok1: "distinct (map fst (ad_ranges a1))" using K(1) by (simp add: advisor_ok_def ranges_ok_def)
          have "list_all2 cooled (ad_ranges a) (ad_ranges a')" using list_all2_trans [OF _ S(2) keep] cooled_trans by blast
          moreover have "\<forall>kr \<in> set (ad_ranges a). recent cutoff (snd kr) \<longrightarrow> kr \<in> set (ad_ranges a')" using S(3) IH by blast
          moreover have "\<exists>news. w' = w @ news \<and> (\<forall>(off, sz, advice) \<in> set news. advice = MADV_DONTNEED \<and>
              (\<forall>r \<in> ranges_of a. recent cutoff r \<longrightarrow> {off..<off + sz} \<inter> extent r = {}))"
          proof -
            obtain news where n: "w' = w1 @ news" "\<forall>(off, sz, advice) \<in> set news. advice = MADV_DONTNEED \<and>
              (\<forall>r \<in> ranges_of a1. recent cutoff r \<longrightarrow> {off..<off + sz} \<inter> extent r = {})" using IH by blast
            have "\<forall>r \<in> ranges_of a. recent cutoff r \<longrightarrow> r \<in> ranges_of a1" using S(3) by (force simp: ranges_of_def)
            then show ?thesis using n S(1) sep by (intro exI [of _ "(k, ar_Bytes r, MADV_DONTNEED) # news"]) fastforce
          qed
          moreover have "\<exists>x \<in> ranges_of a'. recent cutoff x \<and> extent x \<inter> extent r' \<noteq> {}"
            if g: "res = Inr ()" "k' \<in> set (k # ks)" "(k', r') \<in> set (ad_ranges a')" "\<not> cold r'" "ar_LastUsed r' < cutoff" for k' r'
          proof (cases "k' = k")
            case True
            obtain r0 where r0: "(k, r0) \<in> set (ad_ranges a1)" "cold r0" using S(4) Inr by auto
            obtain y where y: "(k, y) \<in> set (ad_ranges a')" "cooled (k, r0) (k, y)" by (rule cooled_at [OF keep ok1 r0(1)])
            have "distinct (map fst (ad_ranges a'))" using ok1 cooled_keys [OF keep] by simp
            then have "y = r'" using y(1) g(3) True by (metis eq_key_imp_eq_value)
            then show ?thesis using y(2) r0(2) g(4) by (auto simp: cooled_def)
          next
            case False
            then show ?thesis using IH g by auto
          qed
          ultimately show ?thesis using IH K(2-5) by (auto simp: ranges_of_def)
        qed
      qed
    qed
  qed
qed

section \<open>What an eviction changes\<close>

text \<open>
  A range after some evictions: each one that covers it wholly made it cold and was counted, the
  others, also those that only overlap it, left it as it was.
\<close>

definition evicted_once :: "int \<times> int \<times> int \<Rightarrow> advised_range \<Rightarrow> advised_range" where
  "evicted_once e r = (case e of (off, sz, _) \<Rightarrow> if extent r \<subseteq> {off..<off + sz}
     then r\<lparr>ar_State := RangeCold, ar_Evicts := saturatingAddUint64 (ar_Evicts r) 1\<rparr> else r)"

definition evicted_by :: "(int \<times> int \<times> int) list \<Rightarrow> advised_range \<Rightarrow> advised_range" where
  "evicted_by news r = fold evicted_once news r"

definition old_hot :: "int \<Rightarrow> mmap_advisor \<Rightarrow> int \<times> int \<times> int \<Rightarrow> bool" where
  "old_hot cutoff a e \<longleftrightarrow> (\<exists>r \<in> ranges_of a. \<not> cold r \<and> ar_LastUsed r < cutoff \<and> e = (ar_Offset r, ar_Bytes r, MADV_DONTNEED))"

lemma evicted_once_eq:
  assumes "ranges_ok a" "(k, r) \<in> set (ad_ranges a)"
  shows "cool off sz r = evicted_once (off, sz, advice) r"
proof -
  have "0 < ad_pageSize a" using assms(1) by (auto simp: ranges_ok_def paged_def)
  then have L: "ad_base_len a \<le> max_int64" using assms(1) by (simp add: ranges_ok_def paged_def)
  have "r \<in> ranges_of a" using assms(2) by (force simp: ranges_of_def)
  note I = ranges_in(1) [OF assms(1) this]
  have "extent r \<subseteq> {off..<off + sz} \<longleftrightarrow> off \<le> ar_Offset r \<and> ar_Offset r + ar_Bytes r \<le> off + sz"
    using I by (auto simp: extent_def range_in_def)
  then show ?thesis using end_of_range(1) [OF I L] by (simp add: cool_def evicted_once_def)
qed

lemma old_hot_mono:
  assumes "\<forall>kr \<in> set (ad_ranges a1). \<exists>r. kr = (fst kr, evicted_once e r) \<and> (fst kr, r) \<in> set (ad_ranges a)" "old_hot cutoff a1 x"
  shows "old_hot cutoff a x"
proof -
  obtain kr where kr: "kr \<in> set (ad_ranges a1)" "\<not> cold (snd kr)" "ar_LastUsed (snd kr) < cutoff" "x = (ar_Offset (snd kr), ar_Bytes (snd kr), MADV_DONTNEED)"
    using assms(2) by (auto simp: old_hot_def ranges_of_def)
  obtain r where r: "kr = (fst kr, evicted_once e r)" "(fst kr, r) \<in> set (ad_ranges a)" using assms(1) kr(1) by blast
  have s: "snd kr = evicted_once e r" using r(1) by (metis snd_conv)
  have "evicted_once e r = r" using kr(2) unfolding s by (auto simp: evicted_once_def cold_def split: prod.splits if_splits)
  then have "r = snd kr" using s by simp
  moreover have "r \<in> ranges_of a" using r(2) by (force simp: ranges_of_def)
  ultimately show ?thesis using kr(2-4) by (auto simp: old_hot_def)
qed

lemma evict_cold_effect:
  assumes "advisor_ok a" "evict_cold_loop (recording fails) cutoff ks n a w = ((n', res), a', w')"
  shows "\<exists>news failed. w' = w @ news @ failed \<and> n' = n + int (length news) \<and>
    (case res of Inr _ \<Rightarrow> failed = [] | Inl _ \<Rightarrow> length failed = 1) \<and>
    ad_ranges a' = map (\<lambda>(k, r). (k, evicted_by news r)) (ad_ranges a) \<and> (\<forall>e \<in> set (news @ failed). old_hot cutoff a e)"
  using assms
proof (induction ks arbitrary: n a w)
  case Nil
  then show ?case by (intro exI [of _ "[]"]) (auto simp: evicted_by_def)
next
  case (Cons k ks)
  have ok: "ranges_ok a" using Cons.prems(1) by (simp add: advisor_ok_def)
  show ?case
  proof (cases "evict_cold_loop (recording fails) cutoff (k # ks) n a w = evict_cold_loop (recording fails) cutoff ks n a w")
    case True
    then show ?thesis using Cons.IH [OF Cons.prems(1)] Cons.prems(2) by metis
  next
    case False
    then obtain r where r: "map_of (ad_ranges a) k = Some r" "\<not> (ar_State r = RangeCold \<or> ar_LastUsed r \<ge> cutoff)"
      by (auto split: option.splits if_splits)
    then have kr: "(k, r) \<in> set (ad_ranges a)" by (simp add: map_of_SomeD)
    have k: "ar_Offset r = k" "page_range a k (ar_Bytes r)" using ok kr by (auto simp: ranges_ok_def entry_ok_def)
    have b: "boundedRange a (ar_Offset r) (ar_Bytes r) = Some (k, ar_Bytes r)" using boundedRange_pages [OF _ k(2)] ok k(1) by (simp add: ranges_ok_def)
    obtain r1 a1 w1 where e: "evictLocked (recording fails) k (ar_Bytes r) a w = (r1, a1, w1)" by (metis prod_cases3)
    let ?e = "(k, ar_Bytes r, MADV_DONTNEED)"
    have w1: "w1 = w @ [?e]" using e by (auto simp: evictLocked_def recording_def Let_def split: option.splits)
    have old: "old_hot cutoff a ?e" using r(2) kr k(1) by (force simp: old_hot_def ranges_of_def cold_def)
    note K = evict_ok [OF ok e Cons.prems(1)]
    have step: "(case r1 of Inl e \<Rightarrow> ((n, Inl e), a1, w1) | Inr _ \<Rightarrow> evict_cold_loop (recording fails) cutoff ks (n + 1) a1 w1) = ((n', res), a', w')"
      using Cons.prems(2) False r b e by (auto split: if_splits)
    show ?thesis
    proof (cases r1)
      case (Inl err)
      then show ?thesis using step K(6) w1 old by (intro exI [of _ "[]"] exI [of _ "[?e]"]) (auto simp: evicted_by_def)
    next
      case (Inr u)
      then have run: "evict_cold_loop (recording fails) cutoff ks (n + 1) a1 w1 = ((n', res), a', w')" using step by simp
      obtain news failed where IH: "w' = w1 @ news @ failed" "n' = n + 1 + int (length news)" "case res of Inr _ \<Rightarrow> failed = [] | Inl _ \<Rightarrow> length failed = 1"
          "ad_ranges a' = map (\<lambda>(k, r). (k, evicted_by news r)) (ad_ranges a1)" "\<forall>e \<in> set (news @ failed). old_hot cutoff a1 e"
        using Cons.IH [OF K(1) run] by blast
      have a1: "ad_ranges a1 = map (\<lambda>(k, r). (k, evicted_once ?e r)) (ad_ranges a)"
        using K(6) Inr evicted_once_eq [OF ok] by (auto intro!: map_cong)
      have "old_hot cutoff a x" if "old_hot cutoff a1 x" for x
        by (rule old_hot_mono [of a1 ?e a cutoff, OF _ that]) (auto simp: a1)
      then have "\<forall>e \<in> set ((?e # news) @ failed). old_hot cutoff a e" using IH(5) old by auto
      moreover have "ad_ranges a' = map (\<lambda>(k, r). (k, evicted_by (?e # news) r)) (ad_ranges a)"
        unfolding IH(4) a1 by (simp add: evicted_by_def split_beta)
      ultimately show ?thesis using IH(1-3) w1 by (intro exI [of _ "?e # news"] exI [of _ failed]) simp
    qed
  qed
qed

section \<open>Histories\<close>

datatype advisor_call = PrefetchCall int int int | TouchCall int int int | EvictCall int int | EvictColdCall "int list" int | MergeCall | DetachCall

type_synonym advice_log = "(int \<times> int \<times> int) list"

fun run_call :: "(advice_log \<Rightarrow> go_error option) \<Rightarrow> advisor_call \<Rightarrow> mmap_advisor \<times> advice_log \<Rightarrow> mmap_advisor \<times> advice_log" where
  "run_call fails (PrefetchCall now o' b) (a, w) = snd (Prefetch (recording fails) now o' b a w)"
| "run_call fails (TouchCall now o' b) (a, w) = (Touch now o' b a, w)"
| "run_call fails (EvictCall o' b) (a, w) = snd (advisor_Evict (recording fails) o' b a w)"
| "run_call fails (EvictColdCall order cutoff) (a, w) = snd (EvictCold (recording fails) order cutoff a w)"
| "run_call fails MergeCall (a, w) = (MergeRanges a, w)"
| "run_call fails DetachCall (a, w) = (Detach a, w)"

definition advisor_run :: "(advice_log \<Rightarrow> go_error option) \<Rightarrow> advisor_call list \<Rightarrow> mmap_advisor \<Rightarrow> mmap_advisor \<times> advice_log" where
  "advisor_run fails calls a = fold (run_call fails) calls (a, [])"

lemma new_advisor_ok:
  assumes "ospage = 2 ^ k" "0 \<le> len" "len + 2 * ospage \<le> max_int64"
  shows "advisor_ok (NewMmapAdvisor ospage len)" "ad_base_len (NewMmapAdvisor ospage len) = len" "ad_PeakBytes (NewMmapAdvisor ospage len) = 0"
  using assms by (auto simp: NewMmapAdvisor_def advisor_ok_def ranges_ok_def paged_def hot_bytes_def ranges_of_def)

lemma book_call_ok:
  assumes "advisor_ok a" "boundedRange a o' b = Some (off, sz)"
  shows "advisor_ok (book_use now st off sz a) \<and> ad_base_len (book_use now st off sz a) = ad_base_len a \<and>
    ad_PeakBytes (book_use now st off sz a) \<le> max (ad_PeakBytes a) (ad_base_len a)"
proof -
  have ok: "ranges_ok a" "paged a" using assms(1) by (simp_all add: advisor_ok_def ranges_ok_def)
  from book_use_ok [OF ok(1) boundedRange_spec(1) [OF ok(2) assms(2)]] show ?thesis by simp
qed

lemma advisor_call_ok:
  assumes "advisor_ok a" "ad_base_len a \<le> len" "ad_PeakBytes a \<le> len" "run_call fails call (a, w) = (a', w')"
  shows "advisor_ok a' \<and> ad_base_len a' \<le> len \<and> ad_PeakBytes a' \<le> len"
proof (cases call)
  case (PrefetchCall now o' b)
  show ?thesis
  proof (cases "boundedRange a o' b")
    case (Some p)
    then obtain off sz where p: "boundedRange a o' b = Some (off, sz)" by (cases p) auto
    from book_call_ok [OF assms(1) p, of now RangePrefetching] show ?thesis
      using assms p PrefetchCall by (auto simp: Prefetch_def Let_def advisor_ok_counters split: prod.splits sum.splits)
  qed (use assms PrefetchCall in \<open>simp add: Prefetch_def\<close>)
next
  case (TouchCall now o' b)
  show ?thesis
  proof (cases "boundedRange a o' b")
    case (Some p)
    then obtain off sz where p: "boundedRange a o' b = Some (off, sz)" by (cases p) auto
    from book_call_ok [OF assms(1) p, of now RangeHot] show ?thesis using assms p TouchCall by (auto simp: Touch_def)
  qed (use assms TouchCall in \<open>simp add: Touch_def\<close>)
next
  case (EvictCall o' b)
  show ?thesis
  proof (cases "boundedRange a o' b")
    case (Some p)
    then obtain off sz where p: "boundedRange a o' b = Some (off, sz)" by (cases p) auto
    have ok: "ranges_ok a" using assms(1) by (simp add: advisor_ok_def)
    obtain res where "evictLocked (recording fails) off sz a w = (res, a', w')" using assms(4) p EvictCall
      by (cases "evictLocked (recording fails) off sz a w") (auto simp: advisor_Evict_def)
    from evict_ok [OF ok this assms(1)] show ?thesis using assms(2,3) by simp
  qed (use assms EvictCall in \<open>simp add: advisor_Evict_def\<close>)
next
  case (EvictColdCall order cutoff)
  obtain n res where "evict_cold_loop (recording fails) cutoff order 0 a w = ((n, res), a', w')"
    using assms(4) EvictColdCall by (cases "evict_cold_loop (recording fails) cutoff order 0 a w") (auto simp: EvictCold_def)
  note facts = evict_cold_loop_ok [OF assms(1) this]
  have "ad_PeakBytes a' \<le> max (ad_PeakBytes a) (ad_base_len a)" using facts by blast
  also have "\<dots> \<le> len" using assms(2,3) by (rule max.boundedI [rotated])
  finally show ?thesis using facts assms(2) by simp
next
  case MergeCall
  then show ?thesis using merge_ok [OF assms(1)] assms by auto
next
  case DetachCall
  have "0 \<le> ad_TotalBytes a" using assms(1) by (simp add: advisor_ok_def)
  moreover have "0 \<le> ad_base_len a" using assms(1) by (simp add: advisor_ok_def ranges_ok_def paged_def)
  ultimately show ?thesis using assms DetachCall
    by (auto simp: Detach_def advisor_ok_def ranges_ok_def paged_def hot_bytes_def ranges_of_def)
qed

lemma advisor_run_ok:
  assumes "advisor_ok a" "ad_base_len a \<le> len" "ad_PeakBytes a \<le> len" "fold (run_call fails) calls (a, w) = (a', w')"
  shows "advisor_ok a' \<and> ad_base_len a' \<le> len \<and> ad_PeakBytes a' \<le> len"
  using assms
proof (induction calls arbitrary: a w)
  case (Cons call calls)
  obtain a1 w1 where c: "run_call fails call (a, w) = (a1, w1)" by fastforce
  then have "fold (run_call fails) calls (a1, w1) = (a', w')" using Cons.prems(4) by simp
  with Cons.IH advisor_call_ok [OF Cons.prems(1-3) c] show ?case by blast
qed simp

section \<open>Properties\<close>

text \<open>C20. Whatever ranges are prefetched, touched, evicted and merged, and whichever advice fails,
  the total is the number of distinct bytes in ranges that are not cold, never more than the peak
  or the mapping, and the ranges are page-aligned, non-empty and filed under their offset.\<close>

theorem advised_bytes_are_counted:
  assumes "ospage = 2 ^ k" "0 \<le> len" "len + 2 * ospage \<le> max_int64" "advisor_run fails calls (NewMmapAdvisor ospage len) = (a, w)"
  shows "ad_TotalBytes a = int (card (hot_bytes a)) \<and> hot_bytes a \<subseteq> {0..<ad_base_len a} \<and> ad_TotalBytes a \<le> ad_PeakBytes a \<and> ad_PeakBytes a \<le> len \<and>
    distinct (map fst (ad_ranges a)) \<and> (\<forall>(off, r) \<in> set (ad_ranges a). ar_Offset r = off \<and> off mod ad_pageSize a = 0 \<and> 0 < ar_Bytes r)"
proof -
  note N = new_advisor_ok [OF assms(1-3)]
  have "advisor_ok a \<and> ad_base_len a \<le> len \<and> ad_PeakBytes a \<le> len"
    by (rule advisor_run_ok [OF N(1)]) (use N assms(2,4) in \<open>simp_all add: advisor_run_def\<close>)
  moreover from this have "ranges_ok a" by (simp add: advisor_ok_def)
  ultimately show ?thesis using hot_bytes_bound [of a] by (auto simp: advisor_ok_def ranges_ok_def entry_ok_def page_range_def)
qed

definition no_failure :: "advice_log \<Rightarrow> go_error option" where
  "no_failure w = None"

definition sample_calls :: "advisor_call list" where
  "sample_calls = [TouchCall 5 0 5000, PrefetchCall 6 4096 100, TouchCall 9 20000 1, EvictCall 20000 1]"

lemma advised_bytes_are_counted_witness:
  "\<exists>a w. advisor_run no_failure sample_calls (NewMmapAdvisor 4096 20481) = (a, w) \<and> ad_TotalBytes a = int (card (hot_bytes a)) \<and> ad_TotalBytes a = 8192"
proof -
  obtain a w where aw: "advisor_run no_failure sample_calls (NewMmapAdvisor 4096 20481) = (a, w)" by fastforce
  have "ad_TotalBytes (fst (advisor_run no_failure sample_calls (NewMmapAdvisor 4096 20481))) = 8192" by code_simp
  then show ?thesis using advised_bytes_are_counted [of 4096 12 20481 no_failure sample_calls a w] aw by (simp add: max_int64_def)
qed

text \<open>C21. Evicting cold ranges advises away whole ranges that were hot and old, never a byte of a
  recently used one. Afterwards exactly the ranges that lie wholly inside an evicted one are cold
  and all else is unchanged; the count is the number of successful advices, and an error means
  that one more advice failed. Without an error, the old ranges still hot are those that overlap a
  recent one.\<close>

theorem evict_cold_spares_recent_ranges:
  assumes "ospage = 2 ^ k" "0 \<le> len" "len + 2 * ospage \<le> max_int64" "advisor_run fails calls (NewMmapAdvisor ospage len) = (a, w)"
    and "EvictCold (recording fails) order cutoff a w = ((n, res), a', w')"
  shows "\<exists>news failed. w' = w @ news @ failed \<and> n = int (length news) \<and> (case res of Inr _ \<Rightarrow> failed = [] | Inl _ \<Rightarrow> length failed = 1) \<and>
    (\<forall>(off, sz, advice) \<in> set (news @ failed). old_hot cutoff a (off, sz, advice) \<and>
       (\<forall>r \<in> ranges_of a. recent cutoff r \<longrightarrow> {off..<off + sz} \<inter> extent r = {})) \<and>
    ad_ranges a' = map (\<lambda>(k, r). (k, evicted_by news r)) (ad_ranges a) \<and>
    (\<forall>kr \<in> set (ad_ranges a). recent cutoff (snd kr) \<longrightarrow> kr \<in> set (ad_ranges a')) \<and>
    (res = Inr () \<and> set order = set (map fst (ad_ranges a)) \<longrightarrow> (\<forall>r \<in> ranges_of a'. \<not> cold r \<and> ar_LastUsed r < cutoff \<longrightarrow>
       (\<exists>x \<in> ranges_of a'. recent cutoff x \<and> extent x \<inter> extent r \<noteq> {})))"
proof -
  note N = new_advisor_ok [OF assms(1-3)]
  have "advisor_ok a \<and> ad_base_len a \<le> len \<and> ad_PeakBytes a \<le> len"
    by (rule advisor_run_ok [OF N(1)]) (use N assms(2,4) in \<open>simp_all add: advisor_run_def\<close>)
  then have ok: "advisor_ok a" by blast
  note run = assms(5) [unfolded EvictCold_def]
  note R = evict_cold_loop_ok [OF ok run]
  obtain news failed where E: "w' = w @ news @ failed" "n = int (length news)" "case res of Inr _ \<Rightarrow> failed = [] | Inl _ \<Rightarrow> length failed = 1"
      "ad_ranges a' = map (\<lambda>(k, r). (k, evicted_by news r)) (ad_ranges a)" "\<forall>e \<in> set (news @ failed). old_hot cutoff a e"
    using evict_cold_effect [OF ok run] by auto
  have apart: "\<forall>(off, sz, advice) \<in> set (news @ failed). \<forall>r \<in> ranges_of a. recent cutoff r \<longrightarrow> {off..<off + sz} \<inter> extent r = {}"
  proof -
    obtain news2 where n2: "w' = w @ news2" "\<forall>(off, sz, advice) \<in> set news2. advice = MADV_DONTNEED \<and>
       (\<forall>r \<in> ranges_of a. recent cutoff r \<longrightarrow> {off..<off + sz} \<inter> extent r = {})" using R by blast
    then have "news2 = news @ failed" using E(1) by simp
    then show ?thesis using n2(2) by (simp add: split_beta)
  qed
  have keys: "map fst (ad_ranges a') = map fst (ad_ranges a)" using R cooled_keys by blast
  have "k \<in> set order" if "set order = set (map fst (ad_ranges a))" "(k, r) \<in> set (ad_ranges a')" for k r
    using that keys by (metis fst_conv image_eqI list.set_map)
  then have "res = Inr () \<and> set order = set (map fst (ad_ranges a)) \<longrightarrow> (\<forall>r \<in> ranges_of a'. \<not> cold r \<and> ar_LastUsed r < cutoff \<longrightarrow>
       (\<exists>x \<in> ranges_of a'. recent cutoff x \<and> extent x \<inter> extent r \<noteq> {}))" using R by (fastforce simp: ranges_of_def)
  moreover have "\<forall>(off, sz, advice) \<in> set (news @ failed). old_hot cutoff a (off, sz, advice) \<and>
      (\<forall>r \<in> ranges_of a. recent cutoff r \<longrightarrow> {off..<off + sz} \<inter> extent r = {})"
    using E(5) apart by (simp add: split_beta)
  moreover have "\<forall>kr \<in> set (ad_ranges a). recent cutoff (snd kr) \<longrightarrow> kr \<in> set (ad_ranges a')" using R by blast
  ultimately show ?thesis using E(1-4) by blast
qed

text \<open>Two ranges overlap; the first is evicted and the advice for the second fails: the second stays
  hot, also on the page that both share.\<close>

definition overlap_calls :: "advisor_call list" where
  "overlap_calls = [TouchCall 5 0 8192, TouchCall 3 4096 8192]"

definition fails_later :: "advice_log \<Rightarrow> go_error option" where
  "fails_later w = (if w = [] then None else Some (Errorf ''failed'' []))"

lemma evict_cold_spares_recent_ranges_witness:
  "\<exists>a w n res a' w' news. advisor_run fails_later overlap_calls (NewMmapAdvisor 4096 20481) = (a, w) \<and> EvictCold (recording fails_later) [0, 4096] 9 a w = ((n, res), a', w') \<and>
    ad_ranges a' = map (\<lambda>(k, r). (k, evicted_by news r)) (ad_ranges a) \<and> map (cold \<circ> snd) (ad_ranges a') = [True, False] \<and> length news = 1"
proof -
  obtain a w where aw: "advisor_run fails_later overlap_calls (NewMmapAdvisor 4096 20481) = (a, w)" by (metis surj_pair)
  obtain n res a' w' where e: "EvictCold (recording fails_later) [0, 4096] 9 a w = ((n, res), a', w')" by (metis surj_pair)
  have "(case advisor_run fails_later overlap_calls (NewMmapAdvisor 4096 20481) of (a, w) \<Rightarrow>
      case EvictCold (recording fails_later) [0, 4096] 9 a w of ((n, _), a', _) \<Rightarrow> map (cold \<circ> snd) (ad_ranges a') = [True, False] \<and> n = 1)"
    by code_simp
  then have "map (cold \<circ> snd) (ad_ranges a') = [True, False]" "n = 1" using aw e by simp_all
  moreover obtain news where "ad_ranges a' = map (\<lambda>(k, r). (k, evicted_by news r)) (ad_ranges a)" "n = int (length news)"
    using evict_cold_spares_recent_ranges [of 4096 12 20481 fails_later overlap_calls a w, OF _ _ _ aw e] by (auto simp: max_int64_def)
  ultimately show ?thesis using aw e by (intro exI [of _ a] exI [of _ w] exI [of _ n] exI [of _ res] exI [of _ a'] exI [of _ w'] exI [of _ news]) simp
qed

text \<open>C23. Merging ranges changes neither the set of hot bytes nor the total, and every range ends up
  inside a range that is cold exactly when it was and was used at least as recently.\<close>

theorem merging_keeps_hot_bytes:
  assumes "ospage = 2 ^ k" "0 \<le> len" "len + 2 * ospage \<le> max_int64" "advisor_run fails calls (NewMmapAdvisor ospage len) = (a, w)"
  shows "hot_bytes (MergeRanges a) = hot_bytes a \<and> ad_TotalBytes (MergeRanges a) = ad_TotalBytes a \<and>
    (\<forall>x \<in> ranges_of a. \<exists>y \<in> ranges_of (MergeRanges a). extent x \<subseteq> extent y \<and> (ar_State x = RangeCold \<longleftrightarrow> ar_State y = RangeCold) \<and> ar_LastUsed x \<le> ar_LastUsed y)"
proof -
  note N = new_advisor_ok [OF assms(1-3)]
  have "advisor_ok a \<and> ad_base_len a \<le> len \<and> ad_PeakBytes a \<le> len"
    by (rule advisor_run_ok [OF N(1)]) (use N assms(2,4) in \<open>simp_all add: advisor_run_def\<close>)
  then have ok: "advisor_ok a" by blast
  note M = merge_ok [OF ok]
  have "covered {x \<in> ranges_of (MergeRanges a). cold x = False} = covered {x \<in> ranges_of a. cold x = False}" using M by blast
  then have h: "hot_bytes (MergeRanges a) = hot_bytes a" by (simp add: hot_bytes_def cold_def)
  moreover have "ad_TotalBytes (MergeRanges a) = ad_TotalBytes a" using M ok h by (simp add: advisor_ok_def)
  ultimately show ?thesis using M by (auto simp: absorbed_def cold_def)
qed

lemma merging_keeps_hot_bytes_witness:
  "\<exists>a w. advisor_run no_failure sample_calls (NewMmapAdvisor 4096 20481) = (a, w) \<and> ad_TotalBytes (MergeRanges a) = ad_TotalBytes a \<and> length (ad_ranges (MergeRanges a)) = 2"
proof -
  obtain a w where aw: "advisor_run no_failure sample_calls (NewMmapAdvisor 4096 20481) = (a, w)" by fastforce
  have "length (ad_ranges (MergeRanges (fst (advisor_run no_failure sample_calls (NewMmapAdvisor 4096 20481))))) = 2" by code_simp
  then show ?thesis using merging_keeps_hot_bytes [of 4096 12 20481 no_failure sample_calls a w] aw by (auto simp: max_int64_def)
qed

end
