(* ===== verification/ExpertManifest.thy ===== *)
theory ExpertManifest
  imports Checked GoText "HOL-Library.AList" "HOL-Library.Product_Lexorder"
begin

text \<open>
  \<open>runtime/expertstream\<close>: the manifest of a package of experts (\<open>types.go\<close>, \<open>manifest.go\<close>), the layout
  of quantized components (\<open>quant.go\<close>) and the integer helpers at the end of \<open>reader.go\<close>. File contents
  are byte strings. The operating system is the record \<open>os_ops\<close> of calls on a world: opening, sizing,
  reading and closing files, and mapping memory; the hash and the JSON decoder of the standard library
  are arguments. The maps of the source are association lists; Go visits a map in any order, which
  decides only which of several overlaps a failing validation names and in which order files are closed.
\<close>

unbundle bit_operations_syntax

section \<open>Data\<close>

record quant_spec =
  qs_OutDim :: int
  qs_InDim :: int
  qs_GroupSize :: int
  qs_Bits :: int

record component_spec =
  cs_Offset :: int
  cs_Size :: int
  cs_DType :: string
  cs_Shape :: "int list"
  cs_Quant :: "quant_spec option"

record expert_spec =
  es_Key :: int
  es_File :: string
  es_Gate :: component_spec
  es_Up :: component_spec
  es_Down :: component_spec

record data_file =
  df_ID :: string
  df_Path :: string
  df_Size :: int
  df_SHA256 :: string

record manifest =
  mf_Version :: int
  mf_ModelID :: string
  mf_Layers :: int
  mf_Experts :: int
  mf_Alignment :: int
  mf_Files :: "data_file list"
  mf_Entries :: "expert_spec list"

record quant_layout =
  ql_WeightSize :: int
  ql_ScaleSize :: int
  ql_BiasSize :: int
  ql_Groups :: int
  ql_PackFactor :: int

text \<open>An open file. \<open>fr_file\<close> is \<open>None\<close> once it is closed.\<close>

record 'h file_ref =
  fr_spec :: data_file
  fr_absPath :: string
  fr_file :: "'h option"

text \<open>The layout names its file by the identifier, which the source follows through a pointer.\<close>

record expert_layout =
  el_spec :: expert_spec
  el_span :: int
  el_upRel :: int
  el_downRel :: int
  el_spanEnd :: int

record file_interval =
  iv_start :: int
  iv_end :: int
  iv_key :: int

definition ManifestVersion :: int where
  "ManifestVersion = 1"

definition DefaultMaxSlotBytes :: int where
  "DefaultMaxSlotBytes = 1073741824"

abbreviation invalid_manifest :: "string \<Rightarrow> err_arg list \<Rightarrow> go_error" where
  "invalid_manifest f args \<equiv> Wrapf (''%w: '' @ f) args (Sentinel ''ErrInvalidManifest'')"

abbreviation checksum_mismatch :: "string \<Rightarrow> err_arg list \<Rightarrow> go_error" where
  "checksum_mismatch f args \<equiv> Wrapf (''%w: '' @ f) args (Sentinel ''ErrChecksumMismatch'')"

section \<open>Integers\<close>

definition isPowerOfTwo :: "int \<Rightarrow> bool" where
  "isPowerOfTwo v \<longleftrightarrow> v > 0 \<and> v AND (v - 1) = 0"

definition alignUp :: "int \<Rightarrow> int \<Rightarrow> go_error + int" where
  "alignUp v alignment =
     (if \<not> isPowerOfTwo alignment then Inl (Errorf ''alignment=%d must be a positive power of two'' [AN alignment])
      else if v < 0 then Inl (Errorf ''value must be non-negative'' [])
      else let mask = alignment - 1 in
        if v > 0 \<and> v > max_int64 - mask then Inl (Errorf ''align overflow'' [])
        else Inr (and_not (wrap64 (v + mask)) mask))"

definition checkedAdd :: "int \<Rightarrow> int \<Rightarrow> go_error + int" where
  "checkedAdd a b =
     (if b > 0 \<and> a > wrap64 (max_int64 - b) then Inl (Errorf ''overflow'' [])
      else if b < 0 \<and> a < wrap64 (min_int64 - b) then Inl (Errorf ''overflow'' [])
      else Inr (wrap64 (a + b)))"

definition checkedProduct :: "int \<Rightarrow> int \<Rightarrow> go_error + int" where
  "checkedProduct a b =
     (if a = 0 \<or> b = 0 then Inr 0
      else if a > 0 \<and> b > 0 \<and> a > go_quot max_int64 b then Inl (Errorf ''overflow'' [])
      else if a < 0 \<and> b < 0 \<and> a < go_quot max_int64 b then Inl (Errorf ''overflow'' [])
      else if a > 0 \<and> b < 0 \<and> b < go_quot min_int64 a then Inl (Errorf ''overflow'' [])
      else if a < 0 \<and> b > 0 \<and> a < go_quot min_int64 b then Inl (Errorf ''overflow'' [])
      else Inr (wrap64 (a * b)))"

text \<open>An error that only names what went wrong replaces the one a helper returned.\<close>

definition or_error :: "go_error + 'a \<Rightarrow> go_error \<Rightarrow> go_error + 'a" where
  "or_error r e = (case r of Inl _ \<Rightarrow> Inl e | Inr x \<Rightarrow> Inr x)"

lemma or_error_simps [simp]: "or_error (Inr x) e = Inr x" "or_error (Inl e') e = Inl e"
  by (simp_all add: or_error_def)

lemma or_error_Inr [go_res]: "or_error r e = Inr x \<longleftrightarrow> r = Inr x"
  by (cases r) simp_all

text \<open>A slice expression \<open>xs[a:b]\<close> on a slice without slack.\<close>

definition go_slice :: "'a list \<Rightarrow> int \<Rightarrow> int \<Rightarrow> go_error + 'a list" where
  "go_slice xs a b = (if 0 \<le> a \<and> a \<le> b \<and> b \<le> int (length xs) then Inr (take (nat (b - a)) (drop (nat a) xs)) else Inl Panic)"

section \<open>Quantized components\<close>

definition Layout :: "quant_spec \<Rightarrow> int \<Rightarrow> go_error + quant_layout" where
  "Layout q componentSize =
     (if componentSize \<le> 0 then Inl (Errorf ''mlx quant component size=%d must be positive'' [AN componentSize])
      else if qs_OutDim q \<le> 0 \<or> qs_InDim q \<le> 0 \<or> qs_GroupSize q \<le> 0
      then Inl (Errorf ''mlx quant dims must be positive out_dim=%d in_dim=%d group_size=%d'' [AN (qs_OutDim q), AN (qs_InDim q), AN (qs_GroupSize q)])
      else if qs_Bits q \<le> 0 \<or> qs_Bits q > 32 \<or> go_rem 32 (qs_Bits q) \<noteq> 0
      then Inl (Errorf ''mlx quant bits=%d must be a positive divisor of 32'' [AN (qs_Bits q)])
      else let packFactor = go_quot 32 (qs_Bits q) in
      if go_rem (qs_InDim q) packFactor \<noteq> 0
      then Inl (Errorf ''mlx quant in_dim=%d is not divisible by pack_factor=%d (bits=%d)'' [AN (qs_InDim q), AN packFactor, AN (qs_Bits q)])
      else if go_rem (qs_InDim q) (qs_GroupSize q) \<noteq> 0
      then Inl (Errorf ''mlx quant in_dim=%d is not divisible by group_size=%d'' [AN (qs_InDim q), AN (qs_GroupSize q)])
      else let groups = go_quot (qs_InDim q) (qs_GroupSize q) in
      res_bind (or_error (checkedProduct (qs_OutDim q) (go_quot (qs_InDim q) packFactor)) (Errorf ''mlx quant weight element count overflows'' [])) (\<lambda>weightElems.
      res_bind (or_error (checkedProduct weightElems 4) (Errorf ''mlx quant weight byte size overflows'' [])) (\<lambda>weightSize.
      res_bind (or_error (checkedProduct (qs_OutDim q) groups) (Errorf ''mlx quant scale element count overflows'' [])) (\<lambda>scaleElems.
      res_bind (or_error (checkedProduct scaleElems 4) (Errorf ''mlx quant scale byte size overflows'' [])) (\<lambda>scaleSize.
      let biasSize = scaleSize in
      res_bind (or_error (checkedAdd weightSize scaleSize) (Errorf ''mlx quant total byte size overflows'' [])) (\<lambda>total.
      res_bind (or_error (checkedAdd total biasSize) (Errorf ''mlx quant total byte size overflows'' [])) (\<lambda>total.
      if total \<noteq> componentSize
      then Inl (Errorf ''mlx quant total size=%d does not match component size=%d (weight=%d scale=%d bias=%d)''
        [AN total, AN componentSize, AN weightSize, AN scaleSize, AN biasSize])
      else Inr \<lparr>ql_WeightSize = weightSize, ql_ScaleSize = scaleSize, ql_BiasSize = biasSize, ql_Groups = groups, ql_PackFactor = packFactor\<rparr>)))))))"

definition SplitBytes :: "quant_spec \<Rightarrow> string \<Rightarrow> go_error + string \<times> string \<times> string" where
  "SplitBytes q raw =
     res_bind (Layout q (int (length raw))) (\<lambda>layout.
     res_bind (go_slice raw 0 (ql_WeightSize layout)) (\<lambda>w.
     res_bind (go_slice raw (ql_WeightSize layout) (wrap64 (ql_WeightSize layout + ql_ScaleSize layout))) (\<lambda>s.
     res_bind (go_slice raw (wrap64 (ql_WeightSize layout + ql_ScaleSize layout)) (int (length raw))) (\<lambda>b. Inr (w, s, b)))))"

section \<open>Components\<close>

text \<open>\<open>lower\<close> is the Unicode table that \<open>strings.ToLower\<close> uses beyond ASCII.\<close>

definition normalizeDType :: "(nat \<Rightarrow> nat) \<Rightarrow> string \<Rightarrow> string" where
  "normalizeDType lower s = ToLower lower (TrimSpace s)"

definition dtypeBytes :: "(nat \<Rightarrow> nat) \<Rightarrow> string \<Rightarrow> int option" where
  "dtypeBytes lower dtype =
     (let d = normalizeDType lower dtype in
      if d \<in> {''u8'', ''i8''} then Some 1
      else if d \<in> {''u16'', ''i16'', ''f16'', ''bf16''} then Some 2
      else if d \<in> {''u32'', ''i32'', ''f32''} then Some 4
      else if d \<in> {''u64'', ''i64'', ''f64''} then Some 8
      else None)"

definition DTypeMLXQuant :: string where
  "DTypeMLXQuant = ''mlxq''"

fun shape_elements :: "string \<Rightarrow> int list \<Rightarrow> int \<Rightarrow> go_error + int" where
  "shape_elements name [] elements = Inr elements"
| "shape_elements name (dim # dims) elements =
     res_bind (or_error (checkedProduct elements dim) (Errorf ''%s shape overflows'' [AS name])) (shape_elements name dims)"

definition validateComponent :: "(nat \<Rightarrow> nat) \<Rightarrow> component_spec \<Rightarrow> string \<Rightarrow> go_error + unit" where
  "validateComponent lower spec name =
     (if cs_Offset spec < 0 then Inl (Errorf ''%s offset must be non-negative'' [AS name])
      else if cs_Size spec \<le> 0 then Inl (Errorf ''%s size must be positive'' [AS name])
      else let dtype = normalizeDType lower (cs_DType spec) in
      if dtype = [] then Inl (Errorf ''%s dtype is empty'' [AS name])
      else if (dtype = DTypeMLXQuant) \<noteq> (cs_Quant spec \<noteq> None)
      then Inl (Errorf ''%s dtype=%q and quant metadata must be specified together'' [AS name, AS (cs_DType spec)])
      else case cs_Quant spec of
        Some q \<Rightarrow> (case Layout q (cs_Size spec) of Inl _ \<Rightarrow> Inl (Errorf ''%s: %v'' [AS name]) | Inr _ \<Rightarrow> Inr ())
      | None \<Rightarrow>
        if cs_Shape spec = [] then Inl (Errorf ''%s shape is empty'' [AS name])
        else case filter (\<lambda>dim. dim \<le> 0) (cs_Shape spec) of
          dim # _ \<Rightarrow> Inl (Errorf ''%s shape contains non-positive dim %d'' [AS name, AN dim])
        | [] \<Rightarrow> (case dtypeBytes lower dtype of
            None \<Rightarrow> Inr ()
          | Some elemBytes \<Rightarrow>
              res_bind (shape_elements name (cs_Shape spec) 1) (\<lambda>elements.
              res_bind (or_error (checkedProduct elements elemBytes) (Errorf ''%s byte size overflows'' [AS name])) (\<lambda>wantBytes.
                if cs_Size spec \<noteq> wantBytes
                then Inl (Errorf ''%s size=%d does not match dtype=%s shape=%v bytes=%d'' [AS name, AN (cs_Size spec), AS (cs_DType spec), AN wantBytes])
                else Inr ()))))"

section \<open>The manifest\<close>

definition make_layout :: "expert_spec \<Rightarrow> int \<Rightarrow> expert_layout" where
  "make_layout entry spanEnd = \<lparr>el_spec = entry, el_span = wrap64 (spanEnd - cs_Offset (es_Gate entry)),
     el_upRel = wrap64 (cs_Offset (es_Up entry) - cs_Offset (es_Gate entry)),
     el_downRel = wrap64 (cs_Offset (es_Down entry) - cs_Offset (es_Gate entry)), el_spanEnd = spanEnd\<rparr>"

text \<open>The checks of one entry that do not depend on the entries before it.\<close>

definition entry_layout :: "(nat \<Rightarrow> nat) \<Rightarrow> int \<Rightarrow> (string \<times> 'h file_ref) list \<Rightarrow> expert_spec \<Rightarrow> go_error + expert_layout" where
  "entry_layout lower alignment files entry =
     (case map_of files (es_File entry) of
        None \<Rightarrow> Inl (invalid_manifest ''expert key=%d references unknown file %q'' [AN (es_Key entry), AS (es_File entry)])
      | Some f \<Rightarrow>
        res_bind (or_error (validateComponent lower (es_Gate entry) ''gate'') (invalid_manifest ''expert key=%d %v'' [AN (es_Key entry)])) (\<lambda>_.
        res_bind (or_error (validateComponent lower (es_Up entry) ''up'') (invalid_manifest ''expert key=%d %v'' [AN (es_Key entry)])) (\<lambda>_.
        res_bind (or_error (validateComponent lower (es_Down entry) ''down'') (invalid_manifest ''expert key=%d %v'' [AN (es_Key entry)])) (\<lambda>_.
        if cs_Offset (es_Gate entry) < 0 \<or> go_rem (cs_Offset (es_Gate entry)) alignment \<noteq> 0
        then Inl (invalid_manifest ''expert key=%d gate offset=%d is not aligned to %d'' [AN (es_Key entry), AN (cs_Offset (es_Gate entry)), AN alignment])
        else if cs_Offset (es_Up entry) \<noteq> wrap64 (cs_Offset (es_Gate entry) + cs_Size (es_Gate entry))
        then Inl (invalid_manifest ''expert key=%d up offset=%d is not contiguous after gate'' [AN (es_Key entry), AN (cs_Offset (es_Up entry))])
        else if cs_Offset (es_Down entry) \<noteq> wrap64 (cs_Offset (es_Up entry) + cs_Size (es_Up entry))
        then Inl (invalid_manifest ''expert key=%d down offset=%d is not contiguous after up'' [AN (es_Key entry), AN (cs_Offset (es_Down entry))])
        else res_bind (or_error (checkedAdd (cs_Offset (es_Down entry)) (cs_Size (es_Down entry))) (invalid_manifest ''expert key=%d span overflow'' [AN (es_Key entry)])) (\<lambda>spanEnd.
          if spanEnd > df_Size (fr_spec f)
          then Inl (invalid_manifest ''expert key=%d span end=%d exceeds file %q size=%d'' [AN (es_Key entry), AN spanEnd, AS (es_File entry), AN (df_Size (fr_spec f))])
          else let layout = make_layout entry spanEnd in
            if el_span layout \<le> 0 then Inl (invalid_manifest ''expert key=%d span must be positive'' [AN (es_Key entry)])
            else Inr layout)))))"

fun layouts_loop :: "(nat \<Rightarrow> nat) \<Rightarrow> int \<Rightarrow> (string \<times> 'h file_ref) list \<Rightarrow> expert_spec list \<Rightarrow> (int \<times> expert_layout) list \<Rightarrow> int \<Rightarrow>
    go_error + (int \<times> expert_layout) list \<times> int" where
  "layouts_loop lower alignment files [] layouts maxSpan = Inr (layouts, maxSpan)"
| "layouts_loop lower alignment files (entry # rest) layouts maxSpan =
     (if map_of layouts (es_Key entry) \<noteq> None then Inl (invalid_manifest ''duplicate expert key=%d'' [AN (es_Key entry)])
      else res_bind (entry_layout lower alignment files entry) (\<lambda>layout.
        layouts_loop lower alignment files rest (layouts @ [(es_Key entry, layout)]) (max maxSpan (el_span layout))))"

definition layout_interval :: "int \<times> expert_layout \<Rightarrow> file_interval" where
  "layout_interval kl = \<lparr>iv_start = cs_Offset (es_Gate (el_spec (snd kl))), iv_end = el_spanEnd (snd kl), iv_key = fst kl\<rparr>"

text \<open>The intervals of each file, in the order in which the entries name the files.\<close>

definition file_regions :: "(int \<times> expert_layout) list \<Rightarrow> (string \<times> file_interval list) list" where
  "file_regions layouts =
     map (\<lambda>fid. (fid, map layout_interval (filter (\<lambda>kl. es_File (el_spec (snd kl)) = fid) layouts)))
       (remdups (map (\<lambda>kl. es_File (el_spec (snd kl))) layouts))"

fun overlap :: "file_interval list \<Rightarrow> (int \<times> int) option" where
  "overlap (a # b # rest) = (if iv_start b < iv_end a then Some (iv_key a, iv_key b) else overlap (b # rest))"
| "overlap _ = None"

definition check_region :: "string \<times> file_interval list \<Rightarrow> go_error + unit" where
  "check_region region = (case overlap (sort_key (\<lambda>iv. (iv_start iv, iv_key iv)) (snd region)) of
      None \<Rightarrow> Inr ()
    | Some (a, b) \<Rightarrow> Inl (invalid_manifest ''file %q experts %d and %d overlap'' [AS (fst region), AN a, AN b]))"

definition validateManifest :: "(nat \<Rightarrow> nat) \<Rightarrow> manifest \<Rightarrow> (string \<times> 'h file_ref) list \<Rightarrow> go_error + (int \<times> expert_layout) list \<times> int" where
  "validateManifest lower m files =
     (if mf_Version m \<noteq> ManifestVersion then Inl (invalid_manifest ''version=%d want=%d'' [AN (mf_Version m), AN ManifestVersion])
      else if TrimSpace (mf_ModelID m) = [] then Inl (invalid_manifest ''model_id is empty'' [])
      else if mf_Layers m \<le> 0 \<or> mf_Experts m \<le> 0
      then Inl (invalid_manifest ''layers=%d experts=%d must be positive'' [AN (mf_Layers m), AN (mf_Experts m)])
      else if \<not> isPowerOfTwo (mf_Alignment m)
      then Inl (invalid_manifest ''alignment=%d must be a positive power of two'' [AN (mf_Alignment m)])
      else res_bind (or_error (checkedProduct (mf_Layers m) (mf_Experts m)) (invalid_manifest ''layers*experts overflow'' [])) (\<lambda>wantEntries.
        if int (length (mf_Entries m)) \<noteq> wantEntries
        then Inl (invalid_manifest ''entries=%d want=%d'' [AN (int (length (mf_Entries m))), AN wantEntries])
        else res_bind (layouts_loop lower (mf_Alignment m) files (mf_Entries m) [] 0) (\<lambda>(layouts, maxSpan).
          res_bind (res_iter check_region (file_regions layouts)) (\<lambda>_.
            if maxSpan \<le> 0 then Inl (invalid_manifest ''no expert payloads'' []) else Inr (layouts, maxSpan)))))"

end
