(* ===== verification/ExpertReader.thy ===== *)
theory ExpertReader
  imports ExpertManifest
begin

text \<open>
  \<open>runtime/expertstream\<close>: opening a package (\<open>manifest.go\<close>), aligned slots (\<open>alloc.go\<close>) and the reader that
  keeps experts in a fixed number of slots (\<open>reader.go\<close>). The operating system is a record of calls on a
  world. The mutex makes each method one step. The workers of a load write to different slots and only
  read files; they are modelled one assignment after the other in the order \<open>done_in\<close> in which they end,
  which decides which of several errors is reported. On a nil reader every method fails or does nothing.
\<close>

section \<open>The operating system\<close>

text \<open>\<open>os_ReadAt h n off\<close> returns the bytes it read, at most \<open>n\<close>, and possibly an error; \<open>EOF\<close> is the
  error value of package io. \<open>os_Mmap\<close> returns the address of zeroed memory.\<close>

record ('w, 'h) os_ops =
  os_ReadFile :: "string \<Rightarrow> ('w, string) io"
  os_Dir :: "string \<Rightarrow> string"
  os_Join :: "string \<Rightarrow> string \<Rightarrow> string"
  os_Open :: "string \<Rightarrow> ('w, 'h) io"
  os_Stat :: "'h \<Rightarrow> ('w, int) io"
  os_Seek :: "'h \<Rightarrow> ('w, unit) io"
  os_ReadAll :: "'h \<Rightarrow> ('w, string) io"
  os_ReadAt :: "'h \<Rightarrow> nat \<Rightarrow> int \<Rightarrow> 'w \<Rightarrow> (string \<times> go_error option) \<times> 'w"
  os_Close :: "'h \<Rightarrow> ('w, unit) io"
  os_Mmap :: "int \<Rightarrow> ('w, int) io"
  os_Munmap :: "int \<Rightarrow> int \<Rightarrow> ('w, unit) io"

definition IsAbs :: "string \<Rightarrow> bool" where
  "IsAbs path \<longleftrightarrow> take 1 path = ''/''"

section \<open>Hashes\<close>

definition hex_nibble :: "char \<Rightarrow> nat option" where
  "hex_nibble c = (if 48 \<le> byte c \<and> byte c \<le> 57 then Some (byte c - 48)
     else if 97 \<le> byte c \<and> byte c \<le> 102 then Some (byte c - 87)
     else if 65 \<le> byte c \<and> byte c \<le> 70 then Some (byte c - 55) else None)"

fun hex_decode :: "string \<Rightarrow> go_error + string" where
  "hex_decode [] = Inr []"
| "hex_decode [c] = Inl (External (if hex_nibble c = None then 1 else 0))"
| "hex_decode (a # b # s) = (case (hex_nibble a, hex_nibble b) of
      (Some x, Some y) \<Rightarrow> res_bind (hex_decode s) (\<lambda>r. Inr (chr (16 * x + y) # r))
    | _ \<Rightarrow> Inl (External 1))"

definition decodeSHA256 :: "string \<Rightarrow> go_error + string" where
  "decodeSHA256 s = res_bind (hex_decode (TrimSpace s)) (\<lambda>b.
     if length b \<noteq> 32 then Inl (Errorf ''want %d bytes got %d'' [AN 32, AN (int (length b))]) else Inr b)"

definition equalSHA256 :: "string \<Rightarrow> string \<Rightarrow> bool" where
  "equalSHA256 a b \<longleftrightarrow> length a = length b \<and>
     fold (\<lambda>(x, y) diff. diff OR (word_of_nat (byte x) XOR word_of_nat (byte y))) (zip a b) (0 :: 8 word) = 0"

definition hashFileSHA256 :: "('w, 'h) os_ops \<Rightarrow> (string \<Rightarrow> string) \<Rightarrow> 'h \<Rightarrow> ('w, string) io" where
  "hashFileSHA256 os sha256 f = io_bind (os_Seek os f) (\<lambda>_. io_bind (os_ReadAll os f) (\<lambda>blob. io_return (sha256 blob)))"

section \<open>Opening a package\<close>

definition closeFile :: "('w, 'h) os_ops \<Rightarrow> 'h \<Rightarrow> 'w \<Rightarrow> 'w" where
  "closeFile os h w = snd (os_Close os h w)"

definition closeFiles :: "('w, 'h) os_ops \<Rightarrow> (string \<times> 'h file_ref) list \<Rightarrow> 'w \<Rightarrow> 'w" where
  "closeFiles os files w = fold (\<lambda>(_, f) w. case fr_file f of None \<Rightarrow> w | Some h \<Rightarrow> closeFile os h w) files w"

text \<open>The checks of one file: an error leaves the file it opened closed.\<close>

definition check_file :: "('w, 'h) os_ops \<Rightarrow> (string \<Rightarrow> string) \<Rightarrow> data_file \<Rightarrow> string \<Rightarrow> 'h \<Rightarrow> ('w, unit) io" where
  "check_file os sha256 spec wantHash f =
     io_bind (os_Stat os f) (\<lambda>fsize.
       if fsize \<noteq> df_Size spec
       then io_lift (Inl (checksum_mismatch ''file %q size mismatch got=%d want=%d'' [AS (df_ID spec), AN fsize, AN (df_Size spec)]))
       else io_bind (hashFileSHA256 os sha256 f) (\<lambda>haveHash.
         if \<not> equalSHA256 haveHash wantHash
         then io_lift (Inl (checksum_mismatch ''file %q sha256 mismatch'' [AS (df_ID spec)]))
         else io_return ()))"

definition open_file :: "('w, 'h) os_ops \<Rightarrow> (string \<Rightarrow> string) \<Rightarrow> string \<Rightarrow> (string \<times> 'h file_ref) list \<Rightarrow> data_file \<Rightarrow> ('w, 'h file_ref) io" where
  "open_file os sha256 baseDir out spec =
     (if TrimSpace (df_ID spec) = [] then io_lift (Inl (invalid_manifest ''file id is empty'' []))
      else if map_of out (df_ID spec) \<noteq> None then io_lift (Inl (invalid_manifest ''duplicate file id %q'' [AS (df_ID spec)]))
      else if TrimSpace (df_Path spec) = [] then io_lift (Inl (invalid_manifest ''file %q path is empty'' [AS (df_ID spec)]))
      else if df_Size spec \<le> 0 then io_lift (Inl (invalid_manifest ''file %q size must be positive'' [AS (df_ID spec)]))
      else case decodeSHA256 (df_SHA256 spec) of
        Inl _ \<Rightarrow> io_lift (Inl (invalid_manifest ''file %q sha256: %v'' [AS (df_ID spec)]))
      | Inr wantHash \<Rightarrow>
        let absPath = (if IsAbs (df_Path spec) then df_Path spec else os_Join os baseDir (df_Path spec)) in
        io_bind (os_Open os absPath) (\<lambda>f w.
          case check_file os sha256 spec wantHash f w of
            (Inl e, w') \<Rightarrow> (Inl e, closeFile os f w')
          | (Inr _, w') \<Rightarrow> (Inr \<lparr>fr_spec = spec, fr_absPath = absPath, fr_file = Some f\<rparr>, w')))"

fun open_files :: "('w, 'h) os_ops \<Rightarrow> (string \<Rightarrow> string) \<Rightarrow> string \<Rightarrow> data_file list \<Rightarrow> (string \<times> 'h file_ref) list \<Rightarrow> ('w, (string \<times> 'h file_ref) list) io" where
  "open_files os sha256 baseDir [] out w = (Inr out, w)"
| "open_files os sha256 baseDir (spec # rest) out w =
     (case open_file os sha256 baseDir out spec w of
        (Inl e, w') \<Rightarrow> (Inl e, closeFiles os out w')
      | (Inr f, w') \<Rightarrow> open_files os sha256 baseDir rest (out @ [(df_ID spec, f)]) w')"

definition validateAndOpenFiles :: "('w, 'h) os_ops \<Rightarrow> (string \<Rightarrow> string) \<Rightarrow> string \<Rightarrow> data_file list \<Rightarrow> ('w, (string \<times> 'h file_ref) list) io" where
  "validateAndOpenFiles os sha256 baseDir files =
     (if files = [] then io_lift (Inl (invalid_manifest ''no files'' [])) else open_files os sha256 baseDir files [])"

definition openManifest :: "('w, 'h) os_ops \<Rightarrow> (string \<Rightarrow> string) \<Rightarrow> (string \<Rightarrow> go_error + manifest) \<Rightarrow> (nat \<Rightarrow> nat) \<Rightarrow> string \<Rightarrow>
    ('w, manifest \<times> (string \<times> 'h file_ref) list \<times> (int \<times> expert_layout) list \<times> int) io" where
  "openManifest os sha256 decode lower manifestPath =
     io_bind (os_ReadFile os manifestPath) (\<lambda>blob.
     io_bind (io_lift (or_error (decode blob) (invalid_manifest ''decode %s: %v'' [AS manifestPath]))) (\<lambda>m.
     io_bind (validateAndOpenFiles os sha256 (os_Dir os manifestPath) (mf_Files m)) (\<lambda>files w.
       case validateManifest lower m files of
         Inl e \<Rightarrow> (Inl e, closeFiles os files w)
       | Inr (layouts, maxSpan) \<Rightarrow> (Inr (m, files, layouts, maxSpan), w))))"

section \<open>Slots\<close>

text \<open>\<open>sl_raw\<close> is the address and length of the mapping behind a slot, \<open>None\<close> when it has none.\<close>

record expert_slot =
  sl_index :: nat
  sl_raw :: "(int \<times> int) option"
  sl_addr :: int
  sl_buf :: string
  sl_loaded :: bool
  sl_key :: int
  sl_span :: int
  sl_lastUse :: int

definition alignPtr :: "int \<Rightarrow> int \<Rightarrow> int" where
  "alignPtr v alignment = (let mask = wrapu64 (alignment - 1) in and_not (wrapu64 (v + mask)) mask)"

definition freeAligned :: "('w, 'h) os_ops \<Rightarrow> (int \<times> int) option \<Rightarrow> ('w, unit) io" where
  "freeAligned os raw = (case raw of None \<Rightarrow> io_return () | Some (base, len) \<Rightarrow> os_Munmap os base len)"

definition allocAligned :: "('w, 'h) os_ops \<Rightarrow> int \<Rightarrow> int \<Rightarrow> ('w, (int \<times> int) \<times> int \<times> string) io" where
  "allocAligned os sz alignment =
     (if sz \<le> 0 then io_lift (Inl (Errorf ''size must be positive'' []))
      else if \<not> isPowerOfTwo alignment then io_lift (Inl (Errorf ''alignment must be a positive power of two'' []))
      else io_bind (io_lift (or_error (checkedAdd sz (alignment - 1)) (Errorf ''aligned allocation overflow'' []))) (\<lambda>rawLen.
        if rawLen > MaxInt64 then io_lift (Inl (Errorf ''aligned allocation too large'' []))
        else (\<lambda>w. case os_Mmap os rawLen w of
          (Inl e, w') \<Rightarrow> (Inl (Wrapf ''mmap: %w'' [] e), w')
        | (Inr base, w') \<Rightarrow>
          let aligned = alignPtr base alignment; delta = wrap64 (aligned - base) in
          if delta < 0 \<or> wrap64 (delta + sz) > rawLen
          then (Inl (Errorf ''aligned allocation bounds'' []), snd (os_Munmap os base rawLen w'))
          else (Inr ((base, rawLen), wrapu64 (base + delta), replicate (nat sz) (chr 0)), w'))))"

section \<open>The reader\<close>

record 'h expert_reader =
  rd_closed :: bool
  rd_manifest :: manifest
  rd_alignment :: int
  rd_slotSize :: int
  rd_workers :: int
  rd_files :: "(string \<times> 'h file_ref) list"
  rd_experts :: "(int \<times> expert_layout) list"
  rd_slots :: "expert_slot list"
  rd_keyToSlot :: "int \<rightharpoonup> nat"
  rd_clock :: int

record reader_options =
  op_Slots :: int
  op_Workers :: int
  op_MaxSlotBytes :: int

definition free_slots :: "('w, 'h) os_ops \<Rightarrow> expert_slot list \<Rightarrow> 'w \<Rightarrow> 'w" where
  "free_slots os slots w = fold (\<lambda>sl w. snd (freeAligned os (sl_raw sl) w)) slots w"

fun alloc_slots :: "('w, 'h) os_ops \<Rightarrow> int \<Rightarrow> int \<Rightarrow> nat \<Rightarrow> expert_slot list \<Rightarrow> ('w, expert_slot list) io" where
  "alloc_slots os slotSize alignment 0 slots w = (Inr slots, w)"
| "alloc_slots os slotSize alignment (Suc left) slots w =
     (case allocAligned os slotSize alignment w of
        (Inl e, w') \<Rightarrow> (Inl e, free_slots os slots w')
      | (Inr (raw, addr, buf), w') \<Rightarrow> alloc_slots os slotSize alignment left
          (slots @ [\<lparr>sl_index = length slots, sl_raw = Some raw, sl_addr = addr, sl_buf = buf, sl_loaded = False, sl_key = 0, sl_span = 0, sl_lastUse = 0\<rparr>]) w')"

text \<open>The sizes that \<open>Open\<close> computes: of a slot, and of its mapping in whole pages.\<close>

definition slot_sizes :: "int \<Rightarrow> int \<Rightarrow> int \<Rightarrow> int \<Rightarrow> int \<Rightarrow> go_error + int" where
  "slot_sizes page maxSpan alignment slots budget =
     res_bind (alignUp maxSpan alignment) (\<lambda>slotSize.
     res_bind (checkedAdd slotSize alignment) (\<lambda>mappingBytes.
     res_bind (alignUp mappingBytes page) (\<lambda>mappingBytes.
       case checkedProduct mappingBytes slots of
         Inl _ \<Rightarrow> Inl (Wrapf ''%w: slots=%d bytes/slot=%d budget=%d'' [AN slots, AN mappingBytes, AN budget] (Sentinel ''ErrMemoryBudget''))
       | Inr totalBytes \<Rightarrow>
         if totalBytes > budget
         then Inl (Wrapf ''%w: slots=%d bytes/slot=%d budget=%d'' [AN slots, AN mappingBytes, AN budget] (Sentinel ''ErrMemoryBudget''))
         else Inr slotSize)))"

definition reader_Open :: "('w, 'h) os_ops \<Rightarrow> (string \<Rightarrow> string) \<Rightarrow> (string \<Rightarrow> go_error + manifest) \<Rightarrow> (nat \<Rightarrow> nat) \<Rightarrow> int \<Rightarrow> string \<Rightarrow> reader_options \<Rightarrow>
    ('w, 'h expert_reader) io" where
  "reader_Open os sha256 decode lower page manifestPath opts =
     (if op_Slots opts \<le> 0 \<or> op_Slots opts > 65536 \<or> op_MaxSlotBytes opts < 0
      then io_lift (Inl (Errorf ''expertstream: slots must be in 1..65536 and byte budget nonnegative'' []))
      else io_bind (openManifest os sha256 decode lower manifestPath) (\<lambda>(m, files, experts, maxSpan) w.
        if op_Slots opts > int (length experts)
        then (Inl (Errorf ''expertstream: slots exceed expert inventory'' []), closeFiles os files w)
        else let workers = (if op_Workers opts \<le> 0 then 1 else op_Workers opts);
                 budget = (if op_MaxSlotBytes opts = 0 then DefaultMaxSlotBytes else op_MaxSlotBytes opts) in
        case slot_sizes page maxSpan (mf_Alignment m) (op_Slots opts) budget of
          Inl e \<Rightarrow> (Inl e, closeFiles os files w)
        | Inr slotSize \<Rightarrow>
          (case alloc_slots os slotSize (mf_Alignment m) (nat (op_Slots opts)) [] w of
             (Inl e, w') \<Rightarrow> (Inl e, closeFiles os files w')
           | (Inr slots, w') \<Rightarrow> (Inr \<lparr>rd_closed = False, rd_manifest = m, rd_alignment = mf_Alignment m, rd_slotSize = slotSize,
               rd_workers = workers, rd_files = files, rd_experts = experts, rd_slots = slots, rd_keyToSlot = Map.empty, rd_clock = 0\<rparr>, w'))))"

section \<open>Closing\<close>

fun close_slots :: "('w, 'h) os_ops \<Rightarrow> expert_slot list \<Rightarrow> 'w \<Rightarrow> (expert_slot list \<times> go_error list) \<times> 'w" where
  "close_slots os [] w = (([], []), w)"
| "close_slots os (sl # rest) w =
     (case freeAligned os (sl_raw sl) w of (r, w1) \<Rightarrow>
      case close_slots os rest w1 of ((slots, errs), w2) \<Rightarrow>
        ((sl\<lparr>sl_raw := None, sl_buf := []\<rparr> # slots, (case r of Inl e \<Rightarrow> e # errs | Inr _ \<Rightarrow> errs)), w2))"

text \<open>\<open>fr_file\<close> is set to nil only when there is a file to close.\<close>

fun close_handles :: "('w, 'h) os_ops \<Rightarrow> (string \<times> 'h file_ref) list \<Rightarrow> 'w \<Rightarrow> ((string \<times> 'h file_ref) list \<times> go_error list) \<times> 'w" where
  "close_handles os [] w = (([], []), w)"
| "close_handles os ((fid, f) # rest) w =
     (case (case fr_file f of None \<Rightarrow> (Inr (), w) | Some h \<Rightarrow> os_Close os h w) of (r, w1) \<Rightarrow>
      case close_handles os rest w1 of ((files, errs), w2) \<Rightarrow>
        (((fid, f\<lparr>fr_file := None\<rparr>) # files, (case r of Inl e \<Rightarrow> e # errs | Inr _ \<Rightarrow> errs)), w2))"

definition reader_Close :: "('w, 'h) os_ops \<Rightarrow> 'h expert_reader \<Rightarrow> 'w \<Rightarrow> ((go_error + unit) \<times> 'h expert_reader) \<times> 'w" where
  "reader_Close os r w =
     (if rd_closed r then ((Inr (), r), w)
      else case close_slots os (rd_slots r) w of ((slots, errs1), w1) \<Rightarrow>
        case close_handles os (rd_files r) w1 of ((files, errs2), w2) \<Rightarrow>
          let errs = errs1 @ errs2 in
          ((if errs = [] then Inr () else Inl (Joined errs), r\<lparr>rd_closed := True, rd_slots := slots, rd_files := files\<rparr>), w2))"

definition reader_Manifest :: "'h expert_reader \<Rightarrow> manifest" where
  "reader_Manifest r = rd_manifest r"

section \<open>Reading\<close>

text \<open>The rest of \<open>dst\<close> from \<open>got\<close> on is read until it is full or a read fails or returns nothing.\<close>

function readFullAt :: "('w, 'h) os_ops \<Rightarrow> 'h \<Rightarrow> string \<Rightarrow> nat \<Rightarrow> int \<Rightarrow> string \<Rightarrow> 'w \<Rightarrow> (string \<times> (go_error + unit)) \<times> 'w" where
  "readFullAt os h path len off got w =
     (if length got \<ge> len then ((got, Inr ()), w)
      else case os_ReadAt os h (len - length got) (wrap64 (off + int (length got))) w of ((bytes, err), w') \<Rightarrow>
        let got' = got @ bytes in
        case err of
          Some e \<Rightarrow>
            if length got' = len then ((got', Inr ()), w')
            else if errors_is e ''EOF''
            then ((got', Inl (Wrapf ''%w: file=%s offset=%d read=%d want=%d'' [AS path, AN off, AN (int (length got')), AN (int len)] (Sentinel ''ErrShortRead''))), w')
            else ((got', Inl (Wrapf ''file=%s offset=%d: %w'' [AS path, AN (wrap64 (off + int (length got')))] e)), w')
        | None \<Rightarrow>
            if bytes = []
            then ((got', Inl (Wrapf ''%w: file=%s offset=%d read=%d want=%d'' [AS path, AN off, AN (int (length got')), AN (int len)] (Sentinel ''ErrShortRead''))), w')
            else readFullAt os h path len off got' w')"
  by pat_completeness auto
termination
  by (relation "measure (\<lambda>(os, h, path, len, off, got, w). len - length got)") (auto intro!: diff_less_mono2)

declare readFullAt.simps [simp del]

section \<open>Loading\<close>

record loaded_part =
  lp_DType :: string
  lp_Shape :: "int list"
  lp_Bytes :: string
  lp_Quant :: "quant_spec option"

record loaded_expert =
  le_Key :: int
  le_SlotIndex :: nat
  le_SlotBytes :: string
  le_Gate :: loaded_part
  le_Up :: loaded_part
  le_Down :: loaded_part

record slot_assignment =
  sa_key :: int
  sa_layout :: expert_layout
  sa_slotIndex :: nat

definition touchSlotLocked :: "nat \<Rightarrow> 'h expert_reader \<Rightarrow> 'h expert_reader" where
  "touchSlotLocked i r = (let clock = wrapu64 (rd_clock r + 1) in
     r\<lparr>rd_clock := clock, rd_slots := (rd_slots r)[i := (rd_slots r ! i)\<lparr>sl_lastUse := clock\<rparr>]\<rparr>)"

text \<open>The distinct keys in order of first occurrence: the slots to keep, touched, and the keys to load.
  An unknown key ends the loop after the keys before it were touched.\<close>

fun scan_keys :: "int list \<Rightarrow> int list \<Rightarrow> int list \<Rightarrow> nat list \<Rightarrow> 'h expert_reader \<Rightarrow> (go_error + int list \<times> int list \<times> nat list) \<times> 'h expert_reader" where
  "scan_keys [] unique missing keep r = (Inr (unique, missing, keep), r)"
| "scan_keys (key # keys) unique missing keep r =
     (if key \<in> set unique then scan_keys keys unique missing keep r
      else if map_of (rd_experts r) key = None then (Inl (Wrapf ''%w: key=%d'' [AN key] (Sentinel ''ErrUnknownExpert'')), r)
      else case rd_keyToSlot r key of
        Some i \<Rightarrow> scan_keys keys (unique @ [key]) missing (keep @ [i]) (touchSlotLocked i r)
      | None \<Rightarrow> scan_keys keys (unique @ [key]) (missing @ [key]) keep r)"

definition slot_candidates :: "expert_slot list \<Rightarrow> nat list \<Rightarrow> nat list" where
  "slot_candidates slots keep =
     (let free = filter (\<lambda>i. i \<notin> set keep) [0..<length slots] in
      sort (filter (\<lambda>i. \<not> sl_loaded (slots ! i)) free) @
      sort_key (\<lambda>i. (sl_lastUse (slots ! i), sl_index (slots ! i))) (filter (\<lambda>i. sl_loaded (slots ! i)) free))"

definition assignSlotsLocked :: "'h expert_reader \<Rightarrow> int list \<Rightarrow> nat list \<Rightarrow> go_error + slot_assignment list" where
  "assignSlotsLocked r missing keep =
     (if missing = [] then Inr []
      else let candidates = slot_candidates (rd_slots r) keep in
        if length candidates < length missing
        then Inl (Wrapf ''%w: need=%d available=%d'' [AN (int (length missing)), AN (int (length candidates))] (Sentinel ''ErrSlotCapacity''))
        else res_map (\<lambda>(key, i). case map_of (rd_experts r) key of None \<Rightarrow> Inl Panic
            | Some layout \<Rightarrow> Inr \<lparr>sa_key = key, sa_layout = layout, sa_slotIndex = i\<rparr>) (zip missing candidates))"

text \<open>One job of a worker: the bytes of the expert are read into the start of the slot.\<close>

definition load_assignment :: "('w, 'h) os_ops \<Rightarrow> slot_assignment \<Rightarrow> 'h expert_reader \<times> 'w \<Rightarrow> (go_error + unit) \<times> ('h expert_reader \<times> 'w)" where
  "load_assignment os sa = (\<lambda>(r, w).
     (let sl = rd_slots r ! sa_slotIndex sa; layout = sa_layout sa; span = el_span layout in
      if span < 0 \<or> span > int (length (sl_buf sl)) then (Inl Panic, (r, w))
      else case map_of (rd_files r) (es_File (el_spec layout)) of None \<Rightarrow> (Inl Panic, (r, w))
      | Some f \<Rightarrow> (case fr_file f of
          None \<Rightarrow> (Inl (Wrapf ''expert key=%d: %w'' [AN (sa_key sa)] (Sentinel ''os.ErrInvalid'')), (r, w))
        | Some h \<Rightarrow> (case readFullAt os h (fr_absPath f) (nat span) (cs_Offset (es_Gate (el_spec layout))) [] w of ((got, res), w') \<Rightarrow>
            ((case res of Inl e \<Rightarrow> Inl (Wrapf ''expert key=%d: %w'' [AN (sa_key sa)] e) | Inr _ \<Rightarrow> Inr ()),
             (r\<lparr>rd_slots := (rd_slots r)[sa_slotIndex sa := sl\<lparr>sl_buf := take (nat span) got @ drop (length (take (nat span) got)) (sl_buf sl)\<rparr>]\<rparr>, w'))))))"

text \<open>Every assignment is tried; the first error in order of completion is returned.\<close>

fun loadAssignmentsLocked :: "('w, 'h) os_ops \<Rightarrow> slot_assignment list \<Rightarrow> 'h expert_reader \<times> 'w \<Rightarrow> (go_error + unit) \<times> ('h expert_reader \<times> 'w)" where
  "loadAssignmentsLocked os [] rw = (Inr (), rw)"
| "loadAssignmentsLocked os (sa # rest) rw =
     (case load_assignment os sa rw of (res, rw1) \<Rightarrow>
      case loadAssignmentsLocked os rest rw1 of (res', rw2) \<Rightarrow>
        ((case res of Inl e \<Rightarrow> Inl e | Inr _ \<Rightarrow> res'), rw2))"

definition forget_key :: "nat \<Rightarrow> 'h expert_reader \<Rightarrow> 'h expert_reader" where
  "forget_key i r = (if sl_loaded (rd_slots r ! i) then r\<lparr>rd_keyToSlot := (rd_keyToSlot r)(sl_key (rd_slots r ! i) := None)\<rparr> else r)"

definition discard_assignment :: "slot_assignment \<Rightarrow> 'h expert_reader \<Rightarrow> 'h expert_reader" where
  "discard_assignment sa r = (let i = sa_slotIndex sa; r1 = forget_key i r in
     r1\<lparr>rd_slots := (rd_slots r1)[i := (rd_slots r1 ! i)\<lparr>sl_loaded := False, sl_key := 0, sl_span := 0\<rparr>]\<rparr>)"

definition discardAssignmentsLocked :: "slot_assignment list \<Rightarrow> 'h expert_reader \<Rightarrow> 'h expert_reader" where
  "discardAssignmentsLocked sas r = fold discard_assignment sas r"

definition enter_assignment :: "slot_assignment \<Rightarrow> 'h expert_reader \<Rightarrow> 'h expert_reader" where
  "enter_assignment sa r = (let i = sa_slotIndex sa; r1 = forget_key i r;
     r2 = touchSlotLocked i (r1\<lparr>rd_slots := (rd_slots r1)[i := (rd_slots r1 ! i)\<lparr>sl_loaded := True, sl_key := sa_key sa, sl_span := el_span (sa_layout sa)\<rparr>]\<rparr>) in
     r2\<lparr>rd_keyToSlot := (rd_keyToSlot r2)(sa_key sa := Some i)\<rparr>)"

definition part_view :: "component_spec \<Rightarrow> string \<Rightarrow> loaded_part" where
  "part_view spec bytes = \<lparr>lp_DType = cs_DType spec, lp_Shape = cs_Shape spec, lp_Bytes = bytes, lp_Quant = cs_Quant spec\<rparr>"

definition expert_view :: "'h expert_reader \<Rightarrow> int \<Rightarrow> go_error + loaded_expert" where
  "expert_view r key =
     (case (map_of (rd_experts r) key, rd_keyToSlot r key) of
        (Some layout, Some i) \<Rightarrow>
          if i < length (rd_slots r) then
            let spec = el_spec layout; upStart = el_upRel layout; downStart = el_downRel layout;
                upEnd = wrap64 (upStart + cs_Size (es_Up spec)); downEnd = wrap64 (downStart + cs_Size (es_Down spec)) in
            res_bind (go_slice (sl_buf (rd_slots r ! i)) 0 (el_span layout)) (\<lambda>span.
            res_bind (go_slice span 0 (cs_Size (es_Gate spec))) (\<lambda>gate.
            res_bind (go_slice span upStart upEnd) (\<lambda>up.
            res_bind (go_slice span downStart downEnd) (\<lambda>down.
              Inr \<lparr>le_Key = key, le_SlotIndex = i, le_SlotBytes = span, le_Gate = part_view (es_Gate spec) gate,
                le_Up = part_view (es_Up spec) up, le_Down = part_view (es_Down spec) down\<rparr>))))
          else Inl Panic
      | _ \<Rightarrow> Inl Panic)"

definition loadLocked :: "('w, 'h) os_ops \<Rightarrow> (slot_assignment list \<Rightarrow> slot_assignment list) \<Rightarrow> int list \<Rightarrow> 'h expert_reader \<times> 'w \<Rightarrow>
    (go_error + loaded_expert list) \<times> ('h expert_reader \<times> 'w)" where
  "loadLocked os done_in keys = (\<lambda>(r, w).
     (if rd_closed r then (Inl (Sentinel ''ErrClosed''), (r, w))
      else if keys = [] then (Inr [], (r, w))
      else case scan_keys keys [] [] [] r of
        (Inl e, r1) \<Rightarrow> (Inl e, (r1, w))
      | (Inr (unique, missing, keep), r1) \<Rightarrow>
        if length unique > length (rd_slots r1)
        then (Inl (Wrapf ''%w: need=%d slots=%d'' [AN (int (length unique)), AN (int (length (rd_slots r1)))] (Sentinel ''ErrSlotCapacity'')), (r1, w))
        else case assignSlotsLocked r1 missing keep of
          Inl e \<Rightarrow> (Inl e, (r1, w))
        | Inr sas \<Rightarrow>
          (case loadAssignmentsLocked os (done_in sas) (r1, w) of
             (Inl e, (r2, w')) \<Rightarrow> (Inl e, (discardAssignmentsLocked sas r2, w'))
           | (Inr _, (r2, w')) \<Rightarrow>
             let r3 = fold enter_assignment sas r2 in
             (res_map (expert_view r3) keys, (r3, w')))))"

definition reader_Load :: "('w, 'h) os_ops \<Rightarrow> (slot_assignment list \<Rightarrow> slot_assignment list) \<Rightarrow> 'h expert_reader option \<Rightarrow> int list \<Rightarrow> 'w \<Rightarrow>
    (go_error + loaded_expert list) \<times> ('h expert_reader option \<times> 'w)" where
  "reader_Load os done_in ro keys w =
     (case ro of None \<Rightarrow> (Inl (Sentinel ''ErrClosed''), (None, w))
      | Some r \<Rightarrow> (case loadLocked os done_in keys (r, w) of (res, (r', w')) \<Rightarrow> (res, (Some r', w'))))"

text \<open>The callback runs while the reader is locked; \<open>None\<close> is a nil callback.\<close>

definition WithExperts :: "('w, 'h) os_ops \<Rightarrow> (slot_assignment list \<Rightarrow> slot_assignment list) \<Rightarrow> 'h expert_reader option \<Rightarrow> int list \<Rightarrow>
    (loaded_expert list \<Rightarrow> ('w, unit) io) option \<Rightarrow> 'w \<Rightarrow> (go_error + unit) \<times> ('h expert_reader option \<times> 'w)" where
  "WithExperts os done_in ro keys fno w =
     (case ro of None \<Rightarrow> (Inl (Sentinel ''ErrClosed''), (None, w))
      | Some r \<Rightarrow> (case fno of None \<Rightarrow> (Inl (Errorf ''expertstream: nil callback'' []), (Some r, w))
        | Some fn \<Rightarrow> (case loadLocked os done_in keys (r, w) of
            (Inl e, (r', w')) \<Rightarrow> (Inl e, (Some r', w'))
          | (Inr loaded, (r', w')) \<Rightarrow> (case fn loaded w' of (res, w'') \<Rightarrow> (res, (Some r', w''))))))"

end
