(* ===== verification/ExpertFacts.thy ===== *)
theory ExpertFacts
  imports ExpertReader
begin

text \<open>
  What the helpers of \<open>ExpertManifest\<close> compute on values that fit: checked arithmetic, alignment, the layout of
  quantized components, and which manifests are accepted.
\<close>

section \<open>Integers\<close>

lemma checkedAdd_spec:
  assumes "in_int64 a" "in_int64 b"
  shows "checkedAdd a b = (if in_int64 (a + b) then Inr (a + b) else Inl (Errorf ''overflow'' []))"
  using assms by (auto simp: checkedAdd_def go_int wrap64_def)

lemma checkedProduct_spec:
  assumes "0 \<le> a" "0 \<le> b" "in_int64 a" "in_int64 b"
  shows "checkedProduct a b = (if a * b \<le> max_int64 then Inr (a * b) else Inl (Errorf ''overflow'' []))"
proof (cases "a = 0 \<or> b = 0")
  case True
  then show ?thesis by (auto simp: checkedProduct_def go_int)
next
  case False
  then have ab: "0 < a" "0 < b" using assms by simp_all
  show ?thesis
  proof (cases "max_int64 < a * b")
    case False
    then have "in_int64 (a * b)" using ab by (simp add: mul_in_int64)
    then show ?thesis using ab False by (simp add: checkedProduct_def quot_guard)
  qed (use ab in \<open>simp add: checkedProduct_def quot_guard\<close>)
qed

lemma power_isPowerOfTwo: "isPowerOfTwo p \<Longrightarrow> \<exists>k. p = 2 ^ k"
  by (auto simp: isPowerOfTwo_def intro: power_of_two)

lemma alignUp_spec:
  assumes "isPowerOfTwo p" "0 \<le> v" "in_int64 v" "in_int64 p"
  shows "alignUp v p = (if v + p - 1 \<le> max_int64 then Inr (p * ((v + p - 1) div p)) else Inl (Errorf ''align overflow'' []))"
proof -
  obtain k where k: "p = 2 ^ k" using power_isPowerOfTwo [OF assms(1)] by blast
  have p: "0 < p" by (simp add: k)
  have "and_not (v + (p - 1)) (p - 1) = p * ((v + p - 1) div p)"
    using and_not_mask [of "v + p - 1" k] round_up(1) [OF p, of v] by (simp add: k add_diff_eq)
  then show ?thesis using assms p by (auto simp: alignUp_def Let_def go_int algebra_simps)
qed

lemma alignPtr_spec:
  assumes "isPowerOfTwo p" "0 \<le> v" "v + p \<le> max_uint64"
  shows "alignPtr v p = p * ((v + p - 1) div p)"
proof -
  obtain k where k: "p = 2 ^ k" using power_isPowerOfTwo [OF assms(1)] by blast
  have p: "0 < p" by (simp add: k)
  have m: "wrapu64 (p - 1) = p - 1" "wrapu64 (v + (p - 1)) = v + (p - 1)" using assms p by (simp_all add: wrapu64_def go_int)
  show ?thesis unfolding alignPtr_def Let_def m
    using and_not_mask [of "v + p - 1" k] round_up(1) [OF p, of v] by (simp add: k add_diff_eq)
qed

lemma int_div_le_self: "0 \<le> x \<Longrightarrow> 0 < d \<Longrightarrow> x div d \<le> x" for x d :: int
  by (metis div_by_1 int_one_le_iff_zero_less zdiv_mono2 zero_less_one)

section \<open>Quantized components\<close>

definition quant_fits :: "quant_spec \<Rightarrow> bool" where
  "quant_fits q \<longleftrightarrow> in_int64 (qs_OutDim q) \<and> in_int64 (qs_InDim q) \<and> in_int64 (qs_GroupSize q) \<and> in_int64 (qs_Bits q)"

definition quant_shape_ok :: "quant_spec \<Rightarrow> bool" where
  "quant_shape_ok q \<longleftrightarrow> 0 < qs_OutDim q \<and> 0 < qs_InDim q \<and> 0 < qs_GroupSize q \<and> 0 < qs_Bits q \<and> qs_Bits q dvd 32 \<and>
     32 div qs_Bits q dvd qs_InDim q \<and> qs_GroupSize q dvd qs_InDim q"

definition weight_bytes :: "quant_spec \<Rightarrow> int" where
  "weight_bytes q = qs_OutDim q * (qs_InDim q div (32 div qs_Bits q)) * 4"

definition scale_bytes :: "quant_spec \<Rightarrow> int" where
  "scale_bytes q = qs_OutDim q * (qs_InDim q div qs_GroupSize q) * 4"

lemma bits_pos: "quant_shape_ok q \<Longrightarrow> 0 < 32 div qs_Bits q \<and> qs_Bits q \<le> 32"
proof -
  assume a: "quant_shape_ok q"
  then have "qs_Bits q dvd 32" "0 < qs_Bits q" by (simp_all add: quant_shape_ok_def)
  moreover then have "qs_Bits q \<le> 32" by (intro zdvd_imp_le) simp_all
  ultimately show ?thesis by (simp add: pos_imp_zdiv_pos_iff)
qed

lemma quant_sizes_pos:
  assumes "quant_shape_ok q"
  shows "0 < weight_bytes q" "0 < scale_bytes q"
proof -
  have "0 < qs_InDim q div d" if "0 < d" "d dvd qs_InDim q" for d
    using assms that zdvd_imp_le [of d "qs_InDim q"] by (simp add: quant_shape_ok_def pos_imp_zdiv_pos_iff)
  from this [of "32 div qs_Bits q"] this [of "qs_GroupSize q"] show "0 < weight_bytes q" "0 < scale_bytes q"
    using assms bits_pos [OF assms] by (simp_all add: quant_shape_ok_def weight_bytes_def scale_bytes_def)
qed

lemma product_Inr:
  assumes "0 < a" "0 < b" "in_int64 a" "in_int64 b"
  shows "checkedProduct a b = Inr x \<longleftrightarrow> in_int64 (a * b) \<and> x = a * b"
proof -
  have "min_int64 \<le> a * b" by (rule order.trans [OF _ mult_nonneg_nonneg]) (use assms in \<open>simp_all add: go_int\<close>)
  then show ?thesis using assms by (auto simp: checkedProduct_spec in_int64_def)
qed

lemma sum_Inr: "in_int64 a \<Longrightarrow> in_int64 b \<Longrightarrow> checkedAdd a b = Inr x \<longleftrightarrow> in_int64 (a + b) \<and> x = a + b"
  by (auto simp: checkedAdd_spec)

lemma Layout_shape:
  assumes "Layout q n = Inr l"
  shows "quant_shape_ok q"
proof -
  have pos: "0 < qs_OutDim q" "0 < qs_InDim q" "0 < qs_GroupSize q" "0 < qs_Bits q"
    and r: "go_rem 32 (qs_Bits q) = 0" "go_rem (qs_InDim q) (go_quot 32 (qs_Bits q)) = 0" "go_rem (qs_InDim q) (qs_GroupSize q) = 0"
    using assms unfolding Layout_def Let_def by (simp_all split: if_splits)
  moreover have "go_quot 32 (qs_Bits q) = 32 div qs_Bits q" "0 \<le> 32 div qs_Bits q" using pos(4) by (simp_all add: go_quot_nonneg pos_imp_zdiv_nonneg_iff)
  ultimately show ?thesis by (simp add: quant_shape_ok_def go_rem_nonneg mod_eq_0_iff_dvd)
qed

lemma Layout_unfold:
  assumes "quant_shape_ok q"
  shows "\<exists>e1 e2. Layout q n = (if n \<le> 0 then Inl e1 else
      res_bind (or_error (checkedProduct (qs_OutDim q) (qs_InDim q div (32 div qs_Bits q))) (Errorf ''mlx quant weight element count overflows'' [])) (\<lambda>weightElems.
      res_bind (or_error (checkedProduct weightElems 4) (Errorf ''mlx quant weight byte size overflows'' [])) (\<lambda>weightSize.
      res_bind (or_error (checkedProduct (qs_OutDim q) (qs_InDim q div qs_GroupSize q)) (Errorf ''mlx quant scale element count overflows'' [])) (\<lambda>scaleElems.
      res_bind (or_error (checkedProduct scaleElems 4) (Errorf ''mlx quant scale byte size overflows'' [])) (\<lambda>scaleSize.
      res_bind (or_error (checkedAdd weightSize scaleSize) (Errorf ''mlx quant total byte size overflows'' [])) (\<lambda>total.
      res_bind (or_error (checkedAdd total scaleSize) (Errorf ''mlx quant total byte size overflows'' [])) (\<lambda>total.
      if total \<noteq> n then Inl (e2 total weightSize scaleSize)
      else Inr \<lparr>ql_WeightSize = weightSize, ql_ScaleSize = scaleSize, ql_BiasSize = scaleSize, ql_Groups = qs_InDim q div qs_GroupSize q, ql_PackFactor = 32 div qs_Bits q\<rparr>)))))))"
proof -
  note B = bits_pos [OF assms]
  have pos: "0 < qs_OutDim q" "0 < qs_InDim q" "0 < qs_GroupSize q" "0 < qs_Bits q" "qs_Bits q dvd 32" "32 div qs_Bits q dvd qs_InDim q" "qs_GroupSize q dvd qs_InDim q"
    using assms by (simp_all add: quant_shape_ok_def)
  have q: "go_quot 32 (qs_Bits q) = 32 div qs_Bits q" "go_rem 32 (qs_Bits q) = 0" using pos by (simp_all add: go_quot_nonneg go_rem_nonneg)
  have r: "go_rem (qs_InDim q) (32 div qs_Bits q) = 0" "go_quot (qs_InDim q) (32 div qs_Bits q) = qs_InDim q div (32 div qs_Bits q)"
    using pos B by (simp_all add: go_quot_nonneg go_rem_nonneg)
  have g: "go_rem (qs_InDim q) (qs_GroupSize q) = 0" "go_quot (qs_InDim q) (qs_GroupSize q) = qs_InDim q div qs_GroupSize q"
    using pos by (simp_all add: go_quot_nonneg go_rem_nonneg)
  show ?thesis unfolding Layout_def Let_def q r g using pos B by (auto simp: not_le [symmetric] intro!: exI)
qed

lemma quant_sums:
  fixes x y :: int
  assumes "0 < x" "0 < y" "x * 4 + y * 4 + y * 4 \<le> max_int64"
  shows "in_int64 x" "in_int64 (x * 4)" "in_int64 y" "in_int64 (y * 4)" "in_int64 (x * 4 + y * 4)" "in_int64 (x * 4 + y * 4 + y * 4)"
  using assms by (simp_all add: go_int)

lemma Layout_iff:
  assumes "quant_fits q" "in_int64 n"
  shows "Layout q n = Inr l \<longleftrightarrow> quant_shape_ok q \<and> n = weight_bytes q + 2 * scale_bytes q \<and>
    l = \<lparr>ql_WeightSize = weight_bytes q, ql_ScaleSize = scale_bytes q, ql_BiasSize = scale_bytes q,
         ql_Groups = qs_InDim q div qs_GroupSize q, ql_PackFactor = 32 div qs_Bits q\<rparr>"
proof (cases "quant_shape_ok q")
  case False
  then show ?thesis using Layout_shape by blast
next
  case True
  note B = bits_pos [OF True] and W = quant_sizes_pos [OF True]
  let ?o = "qs_OutDim q" and ?i = "qs_InDim q" and ?p = "32 div qs_Bits q" and ?g = "qs_GroupSize q"
  have pos: "0 < ?o" "0 < ?i" "0 < ?g" using True by (simp_all add: quant_shape_ok_def)
  define a b where "a = ?i div ?p" and "b = ?i div ?g"
  have d: "0 < a" "0 < b" using W pos by (auto simp: a_def b_def weight_bytes_def scale_bytes_def zero_less_mult_iff)
  have "a \<le> ?i" "b \<le> ?i" unfolding a_def b_def using pos B by (simp_all add: int_div_le_self)
  then have di: "in_int64 a" "in_int64 b" "in_int64 ?o" using assms(1) d by (auto simp: quant_fits_def go_int)
  have wb: "weight_bytes q = ?o * a * 4" "scale_bytes q = ?o * b * 4" by (simp_all add: weight_bytes_def scale_bytes_def a_def b_def)
  have oa: "0 < ?o * a" "0 < ?o * b" "in_int64 4" using pos d by (simp_all add: go_int)
  have oa4: "0 < ?o * a * 4" "0 < ?o * b * 4" using oa by simp_all
  obtain e1 e2 where L: "Layout q n = (if n \<le> 0 then Inl e1 else
      res_bind (or_error (checkedProduct ?o a) (Errorf ''mlx quant weight element count overflows'' [])) (\<lambda>weightElems.
      res_bind (or_error (checkedProduct weightElems 4) (Errorf ''mlx quant weight byte size overflows'' [])) (\<lambda>weightSize.
      res_bind (or_error (checkedProduct ?o b) (Errorf ''mlx quant scale element count overflows'' [])) (\<lambda>scaleElems.
      res_bind (or_error (checkedProduct scaleElems 4) (Errorf ''mlx quant scale byte size overflows'' [])) (\<lambda>scaleSize.
      res_bind (or_error (checkedAdd weightSize scaleSize) (Errorf ''mlx quant total byte size overflows'' [])) (\<lambda>total.
      res_bind (or_error (checkedAdd total scaleSize) (Errorf ''mlx quant total byte size overflows'' [])) (\<lambda>total.
      if total \<noteq> n then Inl (e2 total weightSize scaleSize)
      else Inr \<lparr>ql_WeightSize = weightSize, ql_ScaleSize = scaleSize, ql_BiasSize = scaleSize, ql_Groups = b, ql_PackFactor = ?p\<rparr>)))))))"
    using Layout_unfold [OF True, of n] unfolding a_def b_def by blast
  note P = product_Inr [OF pos(1) d(1) di(3,1)] product_Inr [OF pos(1) d(2) di(3,2)] product_Inr [OF oa(1) _ _ oa(3)] product_Inr [OF oa(2) _ _ oa(3)]
  show ?thesis
  proof
    assume "Layout q n = Inr l"
    then have "0 < n \<and> (in_int64 (?o * a) \<and> in_int64 (?o * a * 4) \<and> in_int64 (?o * b) \<and> in_int64 (?o * b * 4)) \<and> n = ?o * a * 4 + ?o * b * 4 + ?o * b * 4 \<and>
        l = \<lparr>ql_WeightSize = ?o * a * 4, ql_ScaleSize = ?o * b * 4, ql_BiasSize = ?o * b * 4, ql_Groups = b, ql_PackFactor = ?p\<rparr>"
      unfolding L by (auto simp: go_res P sum_Inr split: if_splits)
    then show "quant_shape_ok q \<and> n = weight_bytes q + 2 * scale_bytes q \<and> l = \<lparr>ql_WeightSize = weight_bytes q, ql_ScaleSize = scale_bytes q, ql_BiasSize = scale_bytes q,
         ql_Groups = ?i div ?g, ql_PackFactor = ?p\<rparr>" unfolding wb b_def [symmetric] using True by simp
  next
    assume R: "quant_shape_ok q \<and> n = weight_bytes q + 2 * scale_bytes q \<and> l = \<lparr>ql_WeightSize = weight_bytes q, ql_ScaleSize = scale_bytes q, ql_BiasSize = scale_bytes q,
         ql_Groups = ?i div ?g, ql_PackFactor = ?p\<rparr>"
    then have n: "n = ?o * a * 4 + ?o * b * 4 + ?o * b * 4" "n \<le> max_int64" using assms(2) by (simp_all add: wb go_int)
    then have I: "in_int64 (?o * a)" "in_int64 (?o * a * 4)" "in_int64 (?o * b)" "in_int64 (?o * b * 4)" "in_int64 (?o * a * 4 + ?o * b * 4)" "in_int64 (?o * a * 4 + ?o * b * 4 + ?o * b * 4)"
      using quant_sums [OF oa(1,2)] by simp_all
    have "checkedProduct ?o a = Inr (?o * a)" "checkedProduct (?o * a) 4 = Inr (?o * a * 4)" "checkedProduct ?o b = Inr (?o * b)" "checkedProduct (?o * b) 4 = Inr (?o * b * 4)"
      "checkedAdd (?o * a * 4) (?o * b * 4) = Inr (?o * a * 4 + ?o * b * 4)" "checkedAdd (?o * a * 4 + ?o * b * 4) (?o * b * 4) = Inr (?o * a * 4 + ?o * b * 4 + ?o * b * 4)"
      using P I by (simp_all add: sum_Inr)
    moreover have "\<not> n \<le> 0" using n(1) oa4 by linarith
    ultimately show "Layout q n = Inr l" unfolding L using R n(1) by (simp add: wb b_def [symmetric] algebra_simps)
  qed
qed

text \<open>Splitting the bytes of a component.\<close>

lemma go_slice_Inr: "go_slice xs a b = Inr ys \<longleftrightarrow> 0 \<le> a \<and> a \<le> b \<and> b \<le> int (length xs) \<and> ys = take (nat (b - a)) (drop (nat a) xs)"
  by (auto simp: go_slice_def)

lemma SplitBytes_iff:
  assumes "quant_fits q" "in_int64 (int (length raw))"
  shows "SplitBytes q raw = Inr (w, s, b) \<longleftrightarrow> quant_shape_ok q \<and> raw = w @ s @ b \<and>
    int (length w) = weight_bytes q \<and> int (length s) = scale_bytes q \<and> int (length b) = scale_bytes q" (is "?L \<longleftrightarrow> ?R")
proof
  let ?w = "weight_bytes q" and ?s = "scale_bytes q"
  have sum: "wrap64 (?w + ?s) = ?w + ?s" if "quant_shape_ok q" "int (length raw) = ?w + 2 * ?s"
    using quant_sizes_pos [OF that(1)] that(2) assms(2) by (intro wrap64_id) (simp add: go_int)
  assume ?L
  then obtain l where l: "Layout q (int (length raw)) = Inr l" by (auto simp: SplitBytes_def go_res)
  note L = l [unfolded Layout_iff [OF assms]]
  note pos = quant_sizes_pos [OF conjunct1 [OF L]]
  have n: "length raw = nat ?w + 2 * nat ?s" using L pos by linarith
  have wsb: "w = take (nat ?w) raw" "s = take (nat (?w + ?s - ?w)) (drop (nat ?w) raw)" "b = take (nat (int (length raw) - (?w + ?s))) (drop (nat (?w + ?s)) raw)"
    using \<open>?L\<close> l L sum by (auto simp: SplitBytes_def go_res go_slice_Inr)
  have nn: "nat (?s + ?w) = nat ?s + nat ?w" using pos by linarith
  have "length (drop (nat (?w + ?s)) raw) \<le> nat (int (length raw) - (?w + ?s))" using n pos by simp
  then have "b = drop (nat ?s) (drop (nat ?w) raw)" using wsb(3) by (simp add: nn add.commute)
  moreover have "s = take (nat ?s) (drop (nat ?w) raw)" using wsb(2) by simp
  ultimately have "raw = w @ s @ b" using wsb(1) by (simp only: append_take_drop_id)
  moreover have "int (length w) = ?w" "int (length s) = ?s" using wsb(1,2) n pos by simp_all
  ultimately show ?R using L by simp
next
  let ?w = "weight_bytes q" and ?s = "scale_bytes q"
  assume R: ?R
  note pos = quant_sizes_pos [OF conjunct1 [OF R]]
  have n: "int (length raw) = ?w + 2 * ?s" using R by simp
  have sum: "wrap64 (?w + ?s) = ?w + ?s" using pos n assms(2) by (intro wrap64_id) (simp add: go_int)
  have ws: "nat ?w = length w" "nat ?s = length s" "nat (?w + ?s) = length w + length s" "length b = length s" using R by linarith+
  obtain l where l: "Layout q (int (length raw)) = Inr l" "ql_WeightSize l = ?w" "ql_ScaleSize l = ?s"
    using Layout_iff [OF assms] R n by simp
  show ?L using R l n pos ws sum by (simp add: SplitBytes_def go_slice_def)
qed

section \<open>Which manifests are accepted\<close>

definition component_fits :: "component_spec \<Rightarrow> bool" where
  "component_fits c \<longleftrightarrow> in_int64 (cs_Offset c) \<and> in_int64 (cs_Size c)"

definition entry_fits :: "expert_spec \<Rightarrow> bool" where
  "entry_fits e \<longleftrightarrow> component_fits (es_Gate e) \<and> component_fits (es_Up e) \<and> component_fits (es_Down e)"

abbreviation entry_start :: "expert_spec \<Rightarrow> int" where
  "entry_start e \<equiv> cs_Offset (es_Gate e)"

definition entry_end :: "expert_spec \<Rightarrow> int" where
  "entry_end e = cs_Offset (es_Down e) + cs_Size (es_Down e)"

text \<open>The payload of an entry: three valid components one after the other, inside their file.\<close>

definition expert_entry_ok :: "(nat \<Rightarrow> nat) \<Rightarrow> int \<Rightarrow> (string \<times> 'h file_ref) list \<Rightarrow> expert_spec \<Rightarrow> bool" where
  "expert_entry_ok lower alignment files e \<longleftrightarrow>
     validateComponent lower (es_Gate e) ''gate'' = Inr () \<and> validateComponent lower (es_Up e) ''up'' = Inr () \<and> validateComponent lower (es_Down e) ''down'' = Inr () \<and>
     alignment dvd entry_start e \<and> cs_Offset (es_Up e) = entry_start e + cs_Size (es_Gate e) \<and> cs_Offset (es_Down e) = cs_Offset (es_Up e) + cs_Size (es_Up e) \<and>
     (\<exists>f. map_of files (es_File e) = Some f \<and> entry_end e \<le> df_Size (fr_spec f))"

lemma component_bounds: "validateComponent lower c name = Inr () \<Longrightarrow> 0 \<le> cs_Offset c \<and> 0 < cs_Size c"
  by (auto simp: validateComponent_def split: if_splits)

definition entry_layout_of :: "expert_spec \<Rightarrow> expert_layout" where
  "entry_layout_of e = \<lparr>el_spec = e, el_span = entry_end e - entry_start e, el_upRel = cs_Size (es_Gate e),
     el_downRel = cs_Size (es_Gate e) + cs_Size (es_Up e), el_spanEnd = entry_end e\<rparr>"

lemma wrap_sum_nonneg:
  assumes "0 \<le> a" "0 \<le> b" "in_int64 a" "in_int64 b" "0 \<le> c" "in_int64 c"
  shows "c = wrap64 (a + b) \<longleftrightarrow> c = a + b"
proof (cases "in_int64 (a + b)")
  case False
  then have big: "9223372036854775808 \<le> a + b" "a + b < 18446744073709551616" using assms by (auto simp: go_int)
  then have "(a + b + 9223372036854775808) mod 18446744073709551616 = a + b + 9223372036854775808 - 18446744073709551616"
    using mod_pos_geq [of 18446744073709551616 "a + b + 9223372036854775808"]
      mod_pos_pos_trivial [of "a + b + 9223372036854775808 - 18446744073709551616" 18446744073709551616] by simp
  then show ?thesis using assms False by (auto simp: go_int wrap64_def)
qed simp

lemma entry_layout_iff:
  assumes "entry_fits e" "0 < alignment" "\<And>fid f. map_of files fid = Some f \<Longrightarrow> in_int64 (df_Size (fr_spec f))"
  shows "entry_layout lower alignment files e = Inr l \<longleftrightarrow> expert_entry_ok lower alignment files e \<and> l = entry_layout_of e"
proof (cases "validateComponent lower (es_Gate e) ''gate'' = Inr () \<and> validateComponent lower (es_Up e) ''up'' = Inr () \<and> validateComponent lower (es_Down e) ''down'' = Inr ()")
  case False
  then show ?thesis by (auto simp: entry_layout_def expert_entry_ok_def go_res split: option.splits)
next
  case True
  note bounds = True [THEN conjunct1, THEN component_bounds] True [THEN conjunct2, THEN conjunct1, THEN component_bounds] True [THEN conjunct2, THEN conjunct2, THEN component_bounds]
  have fits: "in_int64 (cs_Offset (es_Gate e))" "in_int64 (cs_Size (es_Gate e))" "in_int64 (cs_Offset (es_Up e))" "in_int64 (cs_Size (es_Up e))"
      "in_int64 (cs_Offset (es_Down e))" "in_int64 (cs_Size (es_Down e))" using assms(1) by (simp_all add: entry_fits_def component_fits_def)
  have al: "go_rem (entry_start e) alignment = 0 \<longleftrightarrow> alignment dvd entry_start e" using bounds assms(2) by (simp add: go_rem_nonneg mod_eq_0_iff_dvd)
  have up: "cs_Offset (es_Up e) = wrap64 (entry_start e + cs_Size (es_Gate e)) \<longleftrightarrow> cs_Offset (es_Up e) = entry_start e + cs_Size (es_Gate e)"
    using wrap_sum_nonneg bounds fits by simp
  have down: "cs_Offset (es_Down e) = wrap64 (cs_Offset (es_Up e) + cs_Size (es_Up e)) \<longleftrightarrow> cs_Offset (es_Down e) = cs_Offset (es_Up e) + cs_Size (es_Up e)"
    using wrap_sum_nonneg bounds fits by simp
  have stop: "checkedAdd (cs_Offset (es_Down e)) (cs_Size (es_Down e)) = Inr x \<longleftrightarrow> in_int64 (entry_end e) \<and> x = entry_end e" for x
    using fits by (simp add: sum_Inr entry_end_def)
  have layout: "make_layout e (entry_end e) = entry_layout_of e"
    if "cs_Offset (es_Up e) = entry_start e + cs_Size (es_Gate e)" "cs_Offset (es_Down e) = cs_Offset (es_Up e) + cs_Size (es_Up e)" "in_int64 (entry_end e)"
  proof -
    have "in_int64 (entry_end e - entry_start e)" "in_int64 (cs_Offset (es_Up e) - entry_start e)" "in_int64 (cs_Offset (es_Down e) - entry_start e)"
      using that bounds fits by (auto simp: go_int entry_end_def)
    then show ?thesis using that by (simp add: make_layout_def entry_layout_of_def)
  qed
  have span: "0 < el_span (entry_layout_of e)" if "cs_Offset (es_Up e) = entry_start e + cs_Size (es_Gate e)" "cs_Offset (es_Down e) = cs_Offset (es_Up e) + cs_Size (es_Up e)"
    using that bounds by (simp add: entry_layout_of_def entry_end_def)
  have endfits: "in_int64 (entry_end e)" if "map_of files fid = Some f" "entry_end e \<le> df_Size (fr_spec f)" for fid f
    using assms(3) [OF that(1)] that(2) bounds by (auto simp: go_int entry_end_def)
  show ?thesis
  proof
    assume "entry_layout lower alignment files e = Inr l"
    then obtain f x where f: "map_of files (es_File e) = Some f" "alignment dvd entry_start e" "cs_Offset (es_Up e) = entry_start e + cs_Size (es_Gate e)"
        "cs_Offset (es_Down e) = cs_Offset (es_Up e) + cs_Size (es_Up e)" "checkedAdd (cs_Offset (es_Down e)) (cs_Size (es_Down e)) = Inr x"
        "x \<le> df_Size (fr_spec f)" "l = make_layout e x"
      unfolding entry_layout_def Let_def up down al using True by (auto simp: go_res split: option.splits if_splits)
    have x: "in_int64 (entry_end e)" "x = entry_end e" using f(5) by (simp_all only: stop)
    show "expert_entry_ok lower alignment files e \<and> l = entry_layout_of e"
      using True f layout [OF f(3,4) x(1)] x(2) by (simp add: expert_entry_ok_def)
  next
    assume R: "expert_entry_ok lower alignment files e \<and> l = entry_layout_of e"
    then obtain f where f: "map_of files (es_File e) = Some f" "entry_end e \<le> df_Size (fr_spec f)" by (auto simp: expert_entry_ok_def)
    have ud: "cs_Offset (es_Up e) = entry_start e + cs_Size (es_Gate e)" "cs_Offset (es_Down e) = cs_Offset (es_Up e) + cs_Size (es_Up e)" "alignment dvd entry_start e"
      using R by (simp_all add: expert_entry_ok_def)
    have "checkedAdd (cs_Offset (es_Down e)) (cs_Size (es_Down e)) = Inr (entry_end e)" using stop endfits [OF f] by simp
    then show "entry_layout lower alignment files e = Inr l"
      using True R f ud(3) layout [OF ud(1,2) endfits [OF f]] span [OF ud(1,2)] up [THEN iffD2, OF ud(1)] down [THEN iffD2, OF ud(2)] bounds al
      by (simp add: entry_layout_def Let_def)
  qed
qed

lemma layouts_loop_iff:
  assumes "\<forall>e \<in> set es. entry_fits e" "0 < alignment" "\<And>fid f. map_of files fid = Some f \<Longrightarrow> in_int64 (df_Size (fr_spec f))"
  shows "layouts_loop lower alignment files es acc m = Inr (ls, m') \<longleftrightarrow>
    (\<forall>e \<in> set es. expert_entry_ok lower alignment files e) \<and> distinct (map es_Key es) \<and> es_Key ` set es \<inter> fst ` set acc = {} \<and>
    ls = acc @ map (\<lambda>e. (es_Key e, entry_layout_of e)) es \<and> m' = fold (\<lambda>e m. max m (entry_end e - entry_start e)) es m"
  using assms(1)
proof (induction es arbitrary: acc m)
  case (Cons e es)
  have fits: "entry_fits e" "\<forall>e \<in> set es. entry_fits e" using Cons.prems by simp_all
  have span: "el_span (entry_layout_of e) = entry_end e - entry_start e" by (simp add: entry_layout_of_def)
  show ?case
    by (auto simp: go_res entry_layout_iff [OF fits(1) assms(2,3)] Cons.IH [OF fits(2)] span map_of_eq_None_iff domIff split: if_splits)
qed auto

text \<open>The payloads of two entries do not share a byte of a file.\<close>

definition apart :: "file_interval \<Rightarrow> file_interval \<Rightarrow> bool" where
  "apart a b \<longleftrightarrow> iv_end a \<le> iv_start b \<or> iv_end b \<le> iv_start a"

lemma overlap_None:
  assumes "sorted (map (\<lambda>iv. (iv_start iv, iv_key iv)) ivs)" "\<forall>iv \<in> set ivs. iv_start iv < iv_end iv"
  shows "overlap ivs = None \<longleftrightarrow> sorted_wrt (\<lambda>a b. iv_end a \<le> iv_start b) ivs"
  using assms
proof (induction ivs rule: overlap.induct)
  case (1 a b rest)
  have IH: "overlap (b # rest) = None \<longleftrightarrow> sorted_wrt (\<lambda>a b. iv_end a \<le> iv_start b) (b # rest)" if "\<not> iv_start b < iv_end a"
    using 1 that by simp
  have "iv_start b \<le> iv_start x" if "x \<in> set rest" for x using 1(2) that by (fastforce simp: less_eq_prod_def)
  then show ?case using IH 1(3) by (auto simp: not_less intro: order.trans)
qed auto

lemma apart_sorted:
  assumes "sorted (map (\<lambda>iv. (iv_start iv, iv_key iv)) ivs)" "\<forall>iv \<in> set ivs. iv_start iv < iv_end iv" "distinct ivs"
  shows "sorted_wrt (\<lambda>a b. iv_end a \<le> iv_start b) ivs \<longleftrightarrow> pairwise apart (set ivs)"
  using assms
proof (induction ivs)
  case (Cons a ivs)
  have "iv_start a \<le> iv_start b" if "b \<in> set ivs" for b using Cons.prems(1) that by (fastforce simp: less_eq_prod_def)
  then have "apart a b \<longleftrightarrow> iv_end a \<le> iv_start b" "apart b a \<longleftrightarrow> iv_end a \<le> iv_start b" if "b \<in> set ivs" for b
    using Cons.prems(2) that by (force simp: apart_def)+
  then show ?case using Cons by (auto simp: pairwise_insert)
qed simp

lemma check_region_iff:
  assumes "\<forall>iv \<in> set ivs. iv_start iv < iv_end iv" "distinct ivs"
  shows "check_region (fid, ivs) = Inr () \<longleftrightarrow> pairwise apart (set ivs)"
proof -
  let ?s = "sort_key (\<lambda>iv. (iv_start iv, iv_key iv)) ivs"
  have s: "sorted (map (\<lambda>iv. (iv_start iv, iv_key iv)) ?s)" "\<forall>iv \<in> set ?s. iv_start iv < iv_end iv" "distinct ?s" using assms by simp_all
  have "check_region (fid, ivs) = Inr () \<longleftrightarrow> overlap ?s = None" by (auto simp: check_region_def split: option.splits)
  also have "\<dots> \<longleftrightarrow> pairwise apart (set ?s)" using overlap_None [OF s(1,2)] apart_sorted [OF s] by simp
  finally show ?thesis by simp
qed

definition entry_layouts :: "manifest \<Rightarrow> (int \<times> expert_layout) list" where
  "entry_layouts m = map (\<lambda>e. (es_Key e, entry_layout_of e)) (mf_Entries m)"

definition entries_apart :: "expert_spec list \<Rightarrow> bool" where
  "entries_apart es \<longleftrightarrow> (\<forall>e \<in> set es. \<forall>e' \<in> set es. es_Key e \<noteq> es_Key e' \<and> es_File e = es_File e' \<longrightarrow>
     entry_end e \<le> entry_start e' \<or> entry_end e' \<le> entry_start e)"

definition manifest_ok :: "(nat \<Rightarrow> nat) \<Rightarrow> manifest \<Rightarrow> (string \<times> 'h file_ref) list \<Rightarrow> bool" where
  "manifest_ok lower m files \<longleftrightarrow> mf_Version m = 1 \<and> TrimSpace (mf_ModelID m) \<noteq> [] \<and> 0 < mf_Layers m \<and> 0 < mf_Experts m \<and>
     isPowerOfTwo (mf_Alignment m) \<and> int (length (mf_Entries m)) = mf_Layers m * mf_Experts m \<and> distinct (map es_Key (mf_Entries m)) \<and>
     (\<forall>e \<in> set (mf_Entries m). expert_entry_ok lower (mf_Alignment m) files e) \<and> entries_apart (mf_Entries m)"

definition manifest_fits :: "manifest \<Rightarrow> (string \<times> 'h file_ref) list \<Rightarrow> bool" where
  "manifest_fits m files \<longleftrightarrow> in_int64 (mf_Layers m) \<and> in_int64 (mf_Experts m) \<and> in_int64 (mf_Alignment m) \<and> in_int64 (int (length (mf_Entries m))) \<and>
     (\<forall>e \<in> set (mf_Entries m). entry_fits e) \<and> (\<forall>fid f. map_of files fid = Some f \<longrightarrow> in_int64 (df_Size (fr_spec f)))"

lemma entry_span_pos: "expert_entry_ok lower alignment files e \<Longrightarrow> 0 \<le> entry_start e \<and> entry_start e < entry_end e"
  using component_bounds [of lower "es_Gate e" "''gate''"] component_bounds [of lower "es_Up e" "''up''"] component_bounds [of lower "es_Down e" "''down''"]
  by (auto simp: expert_entry_ok_def entry_end_def)

lemma file_regions_set:
  "(fid, ivs) \<in> set (file_regions ls) \<longleftrightarrow> fid \<in> (\<lambda>kl. es_File (el_spec (snd kl))) ` set ls \<and> ivs = map layout_interval (filter (\<lambda>kl. es_File (el_spec (snd kl)) = fid) ls)"
  by (auto simp: file_regions_def)

lemma regions_ok_iff:
  assumes "\<forall>e \<in> set es. entry_start e < entry_end e" "distinct (map es_Key es)"
  shows "res_iter check_region (file_regions (map (\<lambda>e. (es_Key e, entry_layout_of e)) es)) = Inr () \<longleftrightarrow> entries_apart es"
proof -
  let ?ls = "map (\<lambda>e. (es_Key e, entry_layout_of e)) es"
  define iv where "iv e = layout_interval (es_Key e, entry_layout_of e)" for e
  have iv: "iv_start (iv e) = entry_start e" "iv_end (iv e) = entry_end e" "iv_key (iv e) = es_Key e" for e
    by (simp_all add: iv_def layout_interval_def entry_layout_of_def)
  have f: "map layout_interval (filter (\<lambda>kl. es_File (el_spec (snd kl)) = fid) ?ls) = map iv (filter (\<lambda>e. es_File e = fid) es)" for fid
    by (induction es) (simp_all add: iv_def entry_layout_of_def)
  have region: "check_region (fid, map iv (filter (\<lambda>e. es_File e = fid) es)) = Inr () \<longleftrightarrow> pairwise apart (iv ` {e \<in> set es. es_File e = fid})" for fid
  proof -
    have "distinct (map es_Key (filter (\<lambda>e. es_File e = fid) es))" using assms(2) by (simp add: distinct_map inj_on_def)
    then have "distinct (map iv_key (map iv (filter (\<lambda>e. es_File e = fid) es)))" by (simp add: iv(3) comp_def)
    then have "distinct (map iv (filter (\<lambda>e. es_File e = fid) es))" by (rule distinct_map [THEN iffD1, THEN conjunct1])
    then show ?thesis using check_region_iff [of "map iv (filter (\<lambda>e. es_File e = fid) es)" fid] assms(1) by (auto simp: iv)
  qed
  have inj: "iv e \<noteq> iv e' \<longleftrightarrow> es_Key e \<noteq> es_Key e'" if "e \<in> set es" "e' \<in> set es" for e e'
    using that assms(2) iv(3) by (auto simp: distinct_map inj_on_def) metis
  have R: "set (file_regions ?ls) = (\<lambda>fid. (fid, map iv (filter (\<lambda>e. es_File e = fid) es))) ` es_File ` set es"
    unfolding file_regions_def f by (auto simp: entry_layout_of_def image_image)
  have "res_iter check_region (file_regions ?ls) = Inr () \<longleftrightarrow> (\<forall>fid \<in> es_File ` set es. pairwise apart (iv ` {e \<in> set es. es_File e = fid}))"
    unfolding res_iter_Inr R by (simp add: region)
  also have "\<dots> \<longleftrightarrow> entries_apart es"
  proof -
    have "(\<forall>fid \<in> es_File ` set es. pairwise apart (iv ` {e \<in> set es. es_File e = fid})) \<longleftrightarrow>
        (\<forall>e \<in> set es. \<forall>e' \<in> set es. es_File e = es_File e' \<and> iv e \<noteq> iv e' \<longrightarrow> apart (iv e) (iv e'))"
      unfolding pairwise_image unfolding pairwise_def by fastforce
    also have "\<dots> \<longleftrightarrow> entries_apart es" unfolding entries_apart_def apart_def iv using inj by blast
    finally show ?thesis .
  qed
  finally show ?thesis .
qed

lemma fold_max: "fold (\<lambda>e m. max m (f e)) es m = Max (insert m (f ` set es))" for f :: "'a \<Rightarrow> int"
proof (induction es arbitrary: m)
  case (Cons a es)
  show ?case unfolding list.set fold.simps comp_apply Cons.IH by (cases "f ` set es = {}") (simp_all add: max.assoc)
qed simp

lemma validateManifest_iff:
  assumes "manifest_fits m files"
  shows "validateManifest lower m files = Inr (ls, mx) \<longleftrightarrow>
    manifest_ok lower m files \<and> ls = entry_layouts m \<and> mx = Max ((\<lambda>e. entry_end e - entry_start e) ` set (mf_Entries m))"
proof (cases "mf_Version m = 1 \<and> TrimSpace (mf_ModelID m) \<noteq> [] \<and> 0 < mf_Layers m \<and> 0 < mf_Experts m \<and> isPowerOfTwo (mf_Alignment m)")
  case False
  then show ?thesis by (auto simp: validateManifest_def manifest_ok_def ManifestVersion_def)
next
  case True
  let ?es = "mf_Entries m" and ?span = "\<lambda>e. entry_end e - entry_start e"
  have fits: "in_int64 (mf_Layers m)" "in_int64 (mf_Experts m)" "in_int64 (int (length ?es))" "\<forall>e \<in> set ?es. entry_fits e"
      "\<And>fid f. map_of files fid = Some f \<Longrightarrow> in_int64 (df_Size (fr_spec f))" using assms by (simp_all add: manifest_fits_def)
  have al: "0 < mf_Alignment m" using True by (simp add: isPowerOfTwo_def)
  have count: "(checkedProduct (mf_Layers m) (mf_Experts m) = Inr x \<and> int (length ?es) = x) \<longleftrightarrow> int (length ?es) = mf_Layers m * mf_Experts m \<and> x = mf_Layers m * mf_Experts m" for x
    using True fits(1-3) by (auto simp: product_Inr)
  have "validateManifest lower m files = Inr (ls, mx) \<longleftrightarrow> int (length ?es) = mf_Layers m * mf_Experts m \<and>
      layouts_loop lower (mf_Alignment m) files ?es [] 0 = Inr (ls, mx) \<and> res_iter check_region (file_regions ls) = Inr () \<and> 0 < mx"
    using True count by (auto simp: validateManifest_def ManifestVersion_def go_res not_le split: if_splits)
  also have "\<dots> \<longleftrightarrow> int (length ?es) = mf_Layers m * mf_Experts m \<and> (\<forall>e \<in> set ?es. expert_entry_ok lower (mf_Alignment m) files e) \<and> distinct (map es_Key ?es) \<and>
      ls = entry_layouts m \<and> mx = fold (\<lambda>e m. max m (?span e)) ?es 0 \<and> res_iter check_region (file_regions ls) = Inr () \<and> 0 < mx"
    using layouts_loop_iff [OF fits(4) al fits(5), where lower = lower and acc = "[]" and m = 0 and ls = ls and m' = mx] by (auto simp: entry_layouts_def)
  also have "\<dots> \<longleftrightarrow> manifest_ok lower m files \<and> ls = entry_layouts m \<and> mx = Max (?span ` set ?es)"
  proof (cases "int (length ?es) = mf_Layers m * mf_Experts m \<and> (\<forall>e \<in> set ?es. expert_entry_ok lower (mf_Alignment m) files e) \<and> distinct (map es_Key ?es)")
    case T: True
    have pos: "\<forall>e \<in> set ?es. entry_start e < entry_end e" using T entry_span_pos by blast
    have "0 < int (length ?es)" using T True by simp
    then have ne: "?es \<noteq> []" by auto
    then have gr: "0 < Max (?span ` set ?es)" using pos by (subst Max_gr_iff) (auto simp: neq_Nil_conv)
    then have "Max (insert 0 (?span ` set ?es)) = Max (?span ` set ?es)" using ne by simp
    then show ?thesis using T True regions_ok_iff [OF pos] gr by (auto simp: manifest_ok_def entry_layouts_def fold_max)
  qed (auto simp: manifest_ok_def)
  finally show ?thesis .
qed

end
