(* ===== verification/ReaderFacts.thy ===== *)
theory ReaderFacts
  imports ExpertFacts "HOL-Library.Multiset"
begin

text \<open>
  The invariant of the reader: the map from keys to slots is the inverse of the keys in the loaded slots, and
  a loaded slot starts with the bytes of its expert in the file. Every step of a load keeps it, whether the
  reads succeed or not; \<open>ok_except\<close> is the invariant while some slots are being overwritten.
\<close>

section \<open>Reading\<close>

text \<open>What reading promises: the bytes returned are those of the file at the offset, no more than asked.\<close>

definition reads_content :: "('w, 'h) os_ops \<Rightarrow> ('h \<Rightarrow> string) \<Rightarrow> bool" where
  "reads_content os content \<longleftrightarrow> (\<forall>h n off w bs e w'. 0 \<le> off \<longrightarrow> os_ReadAt os h n off w = ((bs, e), w') \<longrightarrow>
     length bs \<le> n \<and> bs = take (length bs) (drop (nat off) (content h)))"

definition file_bytes :: "string \<Rightarrow> int \<Rightarrow> int \<Rightarrow> string" where
  "file_bytes blob off n = take (nat n) (drop (nat off) blob)"

lemma readFullAt_reads:
  assumes "reads_content os content" "0 \<le> off" "off + int len \<le> max_int64" "length got \<le> len" "got = take (length got) (drop (nat off) (content h))"
    and "readFullAt os h path len off got w = ((got', res), w')"
  shows "got' = take (length got') (drop (nat off) (content h)) \<and> length got \<le> length got' \<and> length got' \<le> len \<and> (res = Inr () \<longrightarrow> length got' = len)"
  using assms(4-6)
proof (induction "len - length got" arbitrary: got w rule: less_induct)
  case less
  show ?case
  proof (cases "length got \<ge> len")
    case True
    then have "readFullAt os h path len off got w = ((got, Inr ()), w)" by (simp add: readFullAt.simps)
    then show ?thesis using less.prems True by auto
  next
    case False
    let ?o = "off + int (length got)"
    have o: "wrap64 ?o = ?o" using assms(2,3) False by (intro wrap64_id) (simp add: go_int)
    obtain bs e w1 where rd: "os_ReadAt os h (len - length got) ?o w = ((bs, e), w1)" by (metis prod.collapse)
    have "length bs \<le> len - length got" "bs = take (length bs) (drop (nat ?o) (content h))"
      using assms(1) rd assms(2) unfolding reads_content_def by (meson add_nonneg_nonneg of_nat_0_le_iff)+
    moreover have "nat ?o = length got + nat off" using assms(2) by simp
    ultimately have b: "length bs \<le> len - length got" "bs = take (length bs) (drop (length got) (drop (nat off) (content h)))" by simp_all
    have bs: "length (got @ bs) \<le> len" using b(1) False by simp
    have "got @ bs = take (length got) (drop (nat off) (content h)) @ take (length bs) (drop (length got) (drop (nat off) (content h)))"
      using less.prems(2) b(2) by simp
    also have "\<dots> = take (length (got @ bs)) (drop (nat off) (content h))" by (simp only: length_append take_add)
    finally have bs2: "got @ bs = take (length (got @ bs)) (drop (nat off) (content h))" .
    show ?thesis
    proof (cases "e = None \<and> bs \<noteq> []")
      case True
      then have "readFullAt os h path len off (got @ bs) w1 = ((got', res), w')"
        using less.prems(3) False rd by (simp add: readFullAt.simps [of os h path len off got] o)
      moreover have "len - length (got @ bs) < len - length got" using True False by (intro diff_less_mono2) (simp_all add: not_le)
      ultimately show ?thesis using less.hyps [OF _ bs bs2] by fastforce
    next
      case F: False
      then have g: "got' = got @ bs" "res = Inr () \<longrightarrow> length (got @ bs) = len"
        using less.prems(3) False rd by (auto simp: readFullAt.simps [of os h path len off got] o Let_def split: option.splits if_splits)
      show ?thesis unfolding g(1) using bs g(2) by (intro conjI bs2) simp_all
    qed
  qed
qed

section \<open>The invariant\<close>

definition layout_in :: "'h expert_reader \<Rightarrow> expert_layout \<Rightarrow> bool" where
  "layout_in r lo \<longleftrightarrow> (let spec = el_spec lo in
     0 < cs_Size (es_Gate spec) \<and> 0 < cs_Size (es_Up spec) \<and> 0 < cs_Size (es_Down spec) \<and>
     el_upRel lo = cs_Size (es_Gate spec) \<and> el_downRel lo = cs_Size (es_Gate spec) + cs_Size (es_Up spec) \<and>
     el_span lo = cs_Size (es_Gate spec) + cs_Size (es_Up spec) + cs_Size (es_Down spec) \<and> el_span lo \<le> rd_slotSize r \<and>
     0 \<le> entry_start spec \<and> entry_start spec + el_span lo \<le> max_int64 \<and>
     cs_Offset (es_Up spec) = entry_start spec + cs_Size (es_Gate spec) \<and> cs_Offset (es_Down spec) = cs_Offset (es_Up spec) + cs_Size (es_Up spec) \<and>
     (\<exists>f h. map_of (rd_files r) (es_File spec) = Some f \<and> fr_file f = Some h))"

definition handle_of :: "'h expert_reader \<Rightarrow> string \<Rightarrow> 'h" where
  "handle_of r fid = the (fr_file (the (map_of (rd_files r) fid)))"

definition payload :: "('h \<Rightarrow> string) \<Rightarrow> 'h expert_reader \<Rightarrow> expert_layout \<Rightarrow> string" where
  "payload content r lo = file_bytes (content (handle_of r (es_File (el_spec lo)))) (entry_start (el_spec lo)) (el_span lo)"

definition holds_payload :: "('h \<Rightarrow> string) \<Rightarrow> 'h expert_reader \<Rightarrow> string \<Rightarrow> expert_layout \<Rightarrow> bool" where
  "holds_payload content r buf lo \<longleftrightarrow> take (nat (el_span lo)) buf = payload content r lo \<and> int (length (payload content r lo)) = el_span lo"

definition slots_ok :: "'h expert_reader \<Rightarrow> bool" where
  "slots_ok r \<longleftrightarrow> (\<forall>i < length (rd_slots r). sl_index (rd_slots r ! i) = i \<and> int (length (sl_buf (rd_slots r ! i))) = rd_slotSize r)"

definition keys_ok :: "'h expert_reader \<Rightarrow> bool" where
  "keys_ok r \<longleftrightarrow> (\<forall>k i. rd_keyToSlot r k = Some i \<longleftrightarrow> i < length (rd_slots r) \<and> sl_loaded (rd_slots r ! i) \<and> sl_key (rd_slots r ! i) = k)"

definition contents_ok :: "('h \<Rightarrow> string) \<Rightarrow> nat set \<Rightarrow> 'h expert_reader \<Rightarrow> bool" where
  "contents_ok content S r \<longleftrightarrow> (\<forall>i < length (rd_slots r). i \<notin> S \<longrightarrow> sl_loaded (rd_slots r ! i) \<longrightarrow>
     (\<exists>lo. map_of (rd_experts r) (sl_key (rd_slots r ! i)) = Some lo \<and> holds_payload content r (sl_buf (rd_slots r ! i)) lo))"

definition layouts_ok :: "'h expert_reader \<Rightarrow> bool" where
  "layouts_ok r \<longleftrightarrow> \<not> rd_closed r \<and> (\<forall>k lo. map_of (rd_experts r) k = Some lo \<longrightarrow> es_Key (el_spec lo) = k \<and> layout_in r lo)"

definition ok_except :: "('h \<Rightarrow> string) \<Rightarrow> nat set \<Rightarrow> 'h expert_reader \<Rightarrow> bool" where
  "ok_except content S r \<longleftrightarrow> layouts_ok r \<and> slots_ok r \<and> keys_ok r \<and> contents_ok content S r"

abbreviation reader_ok :: "('h \<Rightarrow> string) \<Rightarrow> 'h expert_reader \<Rightarrow> bool" where
  "reader_ok content r \<equiv> ok_except content {} r"

text \<open>What no load changes.\<close>

definition load_frame :: "'h expert_reader \<Rightarrow> bool \<times> manifest \<times> int \<times> int \<times> int \<times> (string \<times> 'h file_ref) list \<times> (int \<times> expert_layout) list \<times> nat \<times> (int \<times> int) option list" where
  "load_frame r = (rd_closed r, rd_manifest r, rd_alignment r, rd_slotSize r, rd_workers r, rd_files r, rd_experts r, length (rd_slots r), map sl_raw (rd_slots r))"

lemma frame_cong:
  assumes "load_frame r' = load_frame r"
  shows "layouts_ok r' = layouts_ok r" "payload content r' = payload content r" "holds_payload content r' = holds_payload content r"
    "rd_slotSize r' = rd_slotSize r" "rd_experts r' = rd_experts r" "rd_files r' = rd_files r" "length (rd_slots r') = length (rd_slots r)" "rd_closed r' = rd_closed r"
    "rd_manifest r' = rd_manifest r" "map sl_raw (rd_slots r') = map sl_raw (rd_slots r)"
proof -
  show sel: "rd_slotSize r' = rd_slotSize r" "rd_experts r' = rd_experts r" "rd_files r' = rd_files r" "length (rd_slots r') = length (rd_slots r)" "rd_closed r' = rd_closed r"
    "rd_manifest r' = rd_manifest r" "map sl_raw (rd_slots r') = map sl_raw (rd_slots r)" using assms by (simp_all add: load_frame_def)
  show "layouts_ok r' = layouts_ok r" by (simp add: layouts_ok_def layout_in_def sel)
  show p: "payload content r' = payload content r" by (rule ext) (simp add: payload_def handle_of_def sel)
  show "holds_payload content r' = holds_payload content r" by (intro ext) (simp add: holds_payload_def p)
qed

text \<open>The slots agree but for the time of their last use.\<close>

definition untimed :: "expert_slot \<Rightarrow> expert_slot" where
  "untimed sl = sl\<lparr>sl_lastUse := 0\<rparr>"

lemma untimed_fields:
  assumes "untimed a = untimed b"
  shows "sl_index a = sl_index b" "sl_buf a = sl_buf b" "sl_loaded a = sl_loaded b" "sl_key a = sl_key b"
  using assms by (cases a; cases b; simp add: untimed_def)+

definition same_slots :: "'h expert_reader \<Rightarrow> 'h expert_reader \<Rightarrow> bool" where
  "same_slots r r' \<longleftrightarrow> load_frame r' = load_frame r \<and> rd_keyToSlot r' = rd_keyToSlot r \<and> map untimed (rd_slots r') = map untimed (rd_slots r)"

lemma same_slots_refl: "same_slots r r"
  by (simp add: same_slots_def)

lemma same_slots_trans: "same_slots r r1 \<Longrightarrow> same_slots r1 r2 \<Longrightarrow> same_slots r r2"
  by (simp add: same_slots_def)

lemma same_slots_at:
  assumes "same_slots r r'" "i < length (rd_slots r)"
  shows "untimed (rd_slots r' ! i) = untimed (rd_slots r ! i)"
proof -
  have "map untimed (rd_slots r') ! i = map untimed (rd_slots r) ! i" using assms(1) by (simp add: same_slots_def)
  moreover have "i < length (rd_slots r')" using assms frame_cong(7) [of r' r] by (simp add: same_slots_def)
  ultimately show ?thesis using assms(2) by (metis nth_map)
qed

lemma same_slots_ok:
  assumes "same_slots r r'" "ok_except content S r"
  shows "ok_except content S r'"
proof -
  have f: "load_frame r' = load_frame r" "rd_keyToSlot r' = rd_keyToSlot r" using assms(1) by (simp_all add: same_slots_def)
  note C = frame_cong [OF f(1)]
  note s = untimed_fields [OF same_slots_at [OF assms(1)]]
  show ?thesis using assms(2) by (simp add: ok_except_def slots_ok_def keys_ok_def contents_ok_def C f(2) s cong: conj_cong)
qed

lemma map_untimed_touch: "map untimed (slots[i := (slots ! i)\<lparr>sl_lastUse := t\<rparr>]) = map untimed slots"
  by (simp add: untimed_def)

lemma touch_same: "same_slots r (touchSlotLocked i r)"
  by (simp add: same_slots_def touchSlotLocked_def Let_def load_frame_def map_untimed_touch)

section \<open>Scanning the keys\<close>

definition resident :: "'h expert_reader \<Rightarrow> int \<Rightarrow> bool" where
  "resident r k \<longleftrightarrow> rd_keyToSlot r k \<noteq> None"

definition slot_of :: "'h expert_reader \<Rightarrow> int \<Rightarrow> nat" where
  "slot_of r k = the (rd_keyToSlot r k)"

definition touched_only :: "nat set \<Rightarrow> 'h expert_reader \<Rightarrow> 'h expert_reader \<Rightarrow> bool" where
  "touched_only S r r' \<longleftrightarrow> same_slots r r' \<and> (\<forall>i < length (rd_slots r). i \<notin> S \<longrightarrow> rd_slots r' ! i = rd_slots r ! i)"

lemma touched_trans: "touched_only S r r1 \<Longrightarrow> touched_only S' r1 r2 \<Longrightarrow> touched_only (S \<union> S') r r2"
proof -
  assume a: "touched_only S r r1" "touched_only S' r1 r2"
  then have s: "same_slots r r1" "same_slots r1 r2" by (simp_all add: touched_only_def)
  then have "length (rd_slots r1) = length (rd_slots r)" by (intro frame_cong(7)) (simp add: same_slots_def)
  then show ?thesis using a same_slots_trans [OF s] by (simp add: touched_only_def)
qed

lemma same_slots_keys: "same_slots r r' \<Longrightarrow> keys_ok r' = keys_ok r"
proof -
  assume s: "same_slots r r'"
  then have f: "load_frame r' = load_frame r" "rd_keyToSlot r' = rd_keyToSlot r" by (simp_all add: same_slots_def)
  show ?thesis using untimed_fields [OF same_slots_at [OF s]] by (simp add: keys_ok_def frame_cong(7) [OF f(1)] f(2) cong: conj_cong)
qed

lemma scan_keys_spec:
  assumes "keys_ok r" "scan_keys keys unique (filter (\<lambda>k. \<not> resident r k) unique) (map (slot_of r) (filter (resident r) unique)) r = (res, r')" "distinct unique"
  shows "touched_only (slot_of r ` {k \<in> set keys. resident r k}) r r' \<and>
    (case res of Inl e \<Rightarrow> (\<exists>k \<in> set keys. k \<notin> set unique \<and> map_of (rd_experts r) k = None)
     | Inr (u, missing, keep) \<Rightarrow> distinct u \<and> set u = set unique \<union> set keys \<and> missing = filter (\<lambda>k. \<not> resident r k) u \<and>
         keep = map (slot_of r) (filter (resident r) u) \<and> (\<forall>k \<in> set keys - set unique. map_of (rd_experts r) k \<noteq> None))"
  using assms
proof (induction keys arbitrary: unique r)
  case Nil
  then show ?case by (auto simp: touched_only_def same_slots_refl)
next
  case (Cons key keys)
  show ?case
  proof (cases "key \<in> set unique")
    case True
    from Cons.IH [OF Cons.prems(1) _ Cons.prems(3)] True Cons.prems(2) show ?thesis
      by (auto simp: touched_only_def insert_absorb split: sum.splits)
  next
    case new: False
    show ?thesis
    proof (cases "map_of (rd_experts r) key = None")
      case True
      then have "res = Inl (Wrapf ''%w: key=%d'' [AN key] (Sentinel ''ErrUnknownExpert''))" "r' = r" using Cons.prems(2) new by simp_all
      then show ?thesis using True new by (auto simp: touched_only_def same_slots_refl)
    next
      case known: False
      have d: "distinct (unique @ [key])" using new Cons.prems(3) by simp
      show ?thesis
      proof (cases "rd_keyToSlot r key")
        case None
        then have nr: "\<not> resident r key" by (simp add: resident_def)
        then have "scan_keys keys (unique @ [key]) (filter (\<lambda>k. \<not> resident r k) (unique @ [key])) (map (slot_of r) (filter (resident r) (unique @ [key]))) r = (res, r')"
          using Cons.prems(2) new known None by simp
        from Cons.IH [OF Cons.prems(1) this d] show ?thesis using known nr
          by (auto simp: touched_only_def split: sum.splits)
      next
        case (Some i)
        let ?r = "touchSlotLocked i r"
        have f: "load_frame ?r = load_frame r" "rd_keyToSlot ?r = rd_keyToSlot r" using touch_same [of r i] by (simp_all add: same_slots_def)
        have i: "i = slot_of r key" "resident r key" using Some by (simp_all add: slot_of_def resident_def)
        have res: "resident ?r = resident r" "slot_of ?r = slot_of r" by (rule ext, simp add: resident_def slot_of_def f)+
        have "scan_keys keys (unique @ [key]) (filter (\<lambda>k. \<not> resident ?r k) (unique @ [key])) (map (slot_of ?r) (filter (resident ?r) (unique @ [key]))) ?r = (res, r')"
          using Cons.prems(2) new known Some i unfolding res by simp
        from Cons.IH [OF _ this d] Cons.prems(1) have IH: "touched_only (slot_of r ` {k \<in> set keys. resident r k}) ?r r' \<and>
            (case res of Inl e \<Rightarrow> (\<exists>k \<in> set keys. k \<notin> set (unique @ [key]) \<and> map_of (rd_experts r) k = None)
             | Inr (u, missing, keep) \<Rightarrow> distinct u \<and> set u = set (unique @ [key]) \<union> set keys \<and> missing = filter (\<lambda>k. \<not> resident r k) u \<and>
                 keep = map (slot_of r) (filter (resident r) u) \<and> (\<forall>k \<in> set keys - set (unique @ [key]). map_of (rd_experts r) k \<noteq> None))"
          unfolding res frame_cong(5) [OF f(1)] using same_slots_keys [OF touch_same] by blast
        have t: "touched_only {i} r ?r" using touch_same [of r i] by (simp add: touched_only_def touchSlotLocked_def Let_def)
        have "touched_only (slot_of r ` {k \<in> set (key # keys). resident r k}) r r'"
          using touched_trans [OF t conjunct1 [OF IH]] i by (auto simp: touched_only_def)
        then show ?thesis using conjunct2 [OF IH] known by (auto split: sum.splits)
      qed
    qed
  qed
qed

section \<open>Assigning slots\<close>

lemma slot_candidates_spec:
  "distinct (slot_candidates slots keep)" "set (slot_candidates slots keep) = {i. i < length slots \<and> i \<notin> set keep}"
  by (auto simp: slot_candidates_def Let_def)

definition assigned_slots :: "slot_assignment list \<Rightarrow> nat set" where
  "assigned_slots sas = sa_slotIndex ` set sas"

text \<open>Assignments to distinct slots outside \<open>keep\<close>, one per missing key, each with the layout of its key.\<close>

definition assignments_ok :: "'h expert_reader \<Rightarrow> slot_assignment list \<Rightarrow> bool" where
  "assignments_ok r sas \<longleftrightarrow> distinct (map sa_slotIndex sas) \<and> assigned_slots sas \<subseteq> {..<length (rd_slots r)} \<and>
     (\<forall>sa \<in> set sas. map_of (rd_experts r) (sa_key sa) = Some (sa_layout sa))"

lemma assign_loop:
  assumes "length missing \<le> length cand" "\<forall>k \<in> set missing. map_of experts k \<noteq> None"
  shows "\<exists>sas. res_map (\<lambda>(key, i). case map_of experts key of None \<Rightarrow> Inl Panic
      | Some layout \<Rightarrow> Inr \<lparr>sa_key = key, sa_layout = layout, sa_slotIndex = i\<rparr>) (zip missing cand) = Inr sas \<and>
    map sa_key sas = missing \<and> map sa_slotIndex sas = take (length missing) cand \<and> (\<forall>sa \<in> set sas. map_of experts (sa_key sa) = Some (sa_layout sa))"
  using assms
proof (induction missing arbitrary: cand)
  case (Cons k ks)
  then obtain c cs where "cand = c # cs" "length ks \<le> length cs" by (cases cand) auto
  moreover obtain lo where "map_of experts k = Some lo" using Cons.prems(2) by auto
  ultimately show ?case using Cons.IH [of cs] Cons.prems(2) by fastforce
qed simp

lemma assignSlots_spec:
  assumes "\<forall>k \<in> set missing. map_of (rd_experts r) k \<noteq> None" "distinct missing" "distinct keep" "set keep \<subseteq> {..<length (rd_slots r)}"
    and "length missing + length keep \<le> length (rd_slots r)"
  shows "\<exists>sas. assignSlotsLocked r missing keep = Inr sas \<and> map sa_key sas = missing \<and> assignments_ok r sas \<and> assigned_slots sas \<inter> set keep = {} \<and>
    map sa_slotIndex sas = take (length missing) (slot_candidates (rd_slots r) keep)"
proof -
  let ?c = "slot_candidates (rd_slots r) keep"
  note c = slot_candidates_spec [of "rd_slots r" keep]
  have "card (set ?c) = card ({..<length (rd_slots r)} - set keep)" unfolding c(2) by (intro arg_cong [where f = card]) auto
  also have "\<dots> = length (rd_slots r) - length keep" using assms(3,4) by (simp add: card_Diff_subset distinct_card)
  finally have len: "length missing \<le> length ?c" using assms(5) distinct_card [OF c(1)] by simp
  obtain sas where s: "assignSlotsLocked r missing keep = Inr sas" "map sa_key sas = missing" "map sa_slotIndex sas = take (length missing) ?c"
      "\<forall>sa \<in> set sas. map_of (rd_experts r) (sa_key sa) = Some (sa_layout sa)"
  proof (cases "missing = []")
    case True
    then show thesis using that [of "[]"] by (simp add: assignSlotsLocked_def)
  next
    case False
    then have "assignSlotsLocked r missing keep = res_map (\<lambda>(key, i). case map_of (rd_experts r) key of None \<Rightarrow> Inl Panic
        | Some layout \<Rightarrow> Inr \<lparr>sa_key = key, sa_layout = layout, sa_slotIndex = i\<rparr>) (zip missing ?c)"
      using len by (simp add: assignSlotsLocked_def Let_def not_less)
    with assign_loop [OF len assms(1)] that show thesis by metis
  qed
  have "assigned_slots sas = set (take (length missing) ?c)" unfolding assigned_slots_def s(3) [symmetric] by simp
  then have "assigned_slots sas \<subseteq> {i. i < length (rd_slots r) \<and> i \<notin> set keep}" using c(2) set_take_subset by metis
  moreover have "distinct (map sa_slotIndex sas)" unfolding s(3) using c(1) by simp
  ultimately show ?thesis using s by (auto simp: assignments_ok_def)
qed

section \<open>Filling slots\<close>

lemma ok_except_mono: "ok_except content S r \<Longrightarrow> S \<subseteq> S' \<Longrightarrow> ok_except content S' r"
  by (auto simp: ok_except_def contents_ok_def)

text \<open>The reader after new contents of slot \<open>i\<close>.\<close>

definition set_buf :: "nat \<Rightarrow> string \<Rightarrow> 'h expert_reader \<Rightarrow> 'h expert_reader" where
  "set_buf i buf r = r\<lparr>rd_slots := (rd_slots r)[i := (rd_slots r ! i)\<lparr>sl_buf := buf\<rparr>]\<rparr>"

lemma set_buf_frame [simp]: "load_frame (set_buf i buf r) = load_frame r" "rd_keyToSlot (set_buf i buf r) = rd_keyToSlot r"
  by (simp_all add: set_buf_def load_frame_def)

lemma set_buf_at: "i < length (rd_slots r) \<Longrightarrow> rd_slots (set_buf i buf r) ! j = (if j = i then (rd_slots r ! i)\<lparr>sl_buf := buf\<rparr> else rd_slots r ! j)"
  by (simp add: set_buf_def nth_list_update)

lemma set_buf_ok:
  assumes "ok_except content S r" "i \<in> S" "i < length (rd_slots r)" "length buf = length (sl_buf (rd_slots r ! i))"
  shows "ok_except content S (set_buf i buf r)"
proof -
  note C = frame_cong [OF set_buf_frame(1) [of i buf r]]
  show ?thesis using assms by (auto simp: ok_except_def slots_ok_def keys_ok_def contents_ok_def C set_buf_at [OF assms(3)])
qed

lemma load_assignment_spec:
  assumes "reads_content os content" "ok_except content S r" "sa_slotIndex sa \<in> S" "sa_slotIndex sa < length (rd_slots r)"
    and "map_of (rd_experts r) (sa_key sa) = Some (sa_layout sa)" "load_assignment os sa (r, w) = (res, (r', w'))"
  shows "\<exists>buf. r' = set_buf (sa_slotIndex sa) buf r \<and> length buf = length (sl_buf (rd_slots r ! sa_slotIndex sa)) \<and>
    (res = Inr () \<longrightarrow> holds_payload content r buf (sa_layout sa))"
proof -
  let ?lo = "sa_layout sa" and ?sl = "rd_slots r ! sa_slotIndex sa"
  have lay: "layout_in r ?lo" and buf: "int (length (sl_buf ?sl)) = rd_slotSize r"
    using assms(2,4,5) by (auto simp: ok_except_def layouts_ok_def slots_ok_def)
  obtain f h where f: "map_of (rd_files r) (es_File (el_spec ?lo)) = Some f" "fr_file f = Some h" and span: "0 < el_span ?lo" "el_span ?lo \<le> rd_slotSize r"
      "0 \<le> entry_start (el_spec ?lo)" "entry_start (el_spec ?lo) + el_span ?lo \<le> max_int64"
    using lay by (auto simp: layout_in_def Let_def)
  have h: "payload content r ?lo = file_bytes (content h) (entry_start (el_spec ?lo)) (el_span ?lo)" using f by (simp add: payload_def handle_of_def)
  obtain got rs w1 where rd: "readFullAt os h (fr_absPath f) (nat (el_span ?lo)) (entry_start (el_spec ?lo)) [] w = ((got, rs), w1)"
    by (metis prod.collapse)
  note G = readFullAt_reads [OF assms(1) span(3) _ _ _ rd]
  have g: "got = take (length got) (drop (nat (entry_start (el_spec ?lo))) (content h))" "length got \<le> nat (el_span ?lo)" "rs = Inr () \<Longrightarrow> length got = nat (el_span ?lo)"
    using G span by simp_all
  have res: "res = (case rs of Inl e \<Rightarrow> Inl (Wrapf ''expert key=%d: %w'' [AN (sa_key sa)] e) | Inr _ \<Rightarrow> Inr ())"
    and r': "r' = set_buf (sa_slotIndex sa) (got @ drop (length got) (sl_buf ?sl)) r"
    using assms(6) f rd span buf g(2) by (simp_all add: load_assignment_def Let_def set_buf_def)
  have "holds_payload content r (got @ drop (length got) (sl_buf ?sl)) ?lo" if "rs = Inr ()"
  proof -
    have "got = file_bytes (content h) (entry_start (el_spec ?lo)) (el_span ?lo)" using g(1) g(3) [OF that] by (simp add: file_bytes_def)
    then show ?thesis using g(3) [OF that] span by (simp add: holds_payload_def h)
  qed
  moreover have "length got \<le> length (sl_buf ?sl)" using g(2) span buf by linarith
  ultimately show ?thesis unfolding r' res by (intro exI [of _ "got @ drop (length got) (sl_buf ?sl)"]) (auto split: sum.splits)
qed

lemma load_assignments_spec:
  assumes "reads_content os content" "ok_except content S r" "assigned_slots xs \<subseteq> S" "assignments_ok r xs"
    and "loadAssignmentsLocked os xs (r, w) = (res, (r', w'))"
  shows "ok_except content S r' \<and> load_frame r' = load_frame r \<and> rd_keyToSlot r' = rd_keyToSlot r \<and>
    (\<forall>i < length (rd_slots r). \<exists>buf. rd_slots r' ! i = (rd_slots r ! i)\<lparr>sl_buf := buf\<rparr> \<and> (i \<notin> assigned_slots xs \<longrightarrow> buf = sl_buf (rd_slots r ! i))) \<and>
    (res = Inr () \<longrightarrow> (\<forall>sa \<in> set xs. holds_payload content r (sl_buf (rd_slots r' ! sa_slotIndex sa)) (sa_layout sa)))"
  using assms(2-)
proof (induction xs arbitrary: r w res)
  case Nil
  have "\<exists>buf. rd_slots r ! i = (rd_slots r ! i)\<lparr>sl_buf := buf\<rparr> \<and> buf = sl_buf (rd_slots r ! i)" for i by (intro exI [of _ "sl_buf (rd_slots r ! i)"]) simp
  then show ?case using Nil by (auto simp: assigned_slots_def)
next
  case (Cons sa xs)
  obtain res1 r1 w1 where a: "load_assignment os sa (r, w) = (res1, (r1, w1))" by (metis prod.collapse)
  obtain res2 where b: "loadAssignmentsLocked os xs (r1, w1) = (res2, (r', w'))" and res: "res = (case res1 of Inl e \<Rightarrow> Inl e | Inr _ \<Rightarrow> res2)"
    using Cons.prems(4) a by (auto split: prod.splits)
  let ?i = "sa_slotIndex sa"
  have i: "?i \<in> S" "?i < length (rd_slots r)" "map_of (rd_experts r) (sa_key sa) = Some (sa_layout sa)" "?i \<notin> assigned_slots xs"
    using Cons.prems(2,3) by (auto simp: assigned_slots_def assignments_ok_def)
  obtain buf where r1: "r1 = set_buf ?i buf r" "length buf = length (sl_buf (rd_slots r ! ?i))" "res1 = Inr () \<longrightarrow> holds_payload content r buf (sa_layout sa)"
    using load_assignment_spec [OF assms(1) Cons.prems(1) i(1-3) a] by blast
  note F = set_buf_frame [of ?i buf r, folded r1(1)]
  note C = frame_cong [OF F(1)]
  have ok1: "ok_except content S r1" unfolding r1(1) by (rule set_buf_ok [OF Cons.prems(1) i(1,2) r1(2)])
  have "assignments_ok r1 xs" using Cons.prems(3) by (auto simp: assignments_ok_def assigned_slots_def C)
  moreover have "assigned_slots xs \<subseteq> S" using Cons.prems(2) by (auto simp: assigned_slots_def)
  ultimately have IH: "ok_except content S r' \<and> load_frame r' = load_frame r1 \<and> rd_keyToSlot r' = rd_keyToSlot r1 \<and>
    (\<forall>i < length (rd_slots r1). \<exists>buf. rd_slots r' ! i = (rd_slots r1 ! i)\<lparr>sl_buf := buf\<rparr> \<and> (i \<notin> assigned_slots xs \<longrightarrow> buf = sl_buf (rd_slots r1 ! i))) \<and>
    (res2 = Inr () \<longrightarrow> (\<forall>sa \<in> set xs. holds_payload content r1 (sl_buf (rd_slots r' ! sa_slotIndex sa)) (sa_layout sa)))"
    using Cons.IH [OF ok1 _ _ b] by blast
  have at: "rd_slots r1 ! j = (if j = ?i then (rd_slots r ! ?i)\<lparr>sl_buf := buf\<rparr> else rd_slots r ! j)" for j unfolding r1(1) by (rule set_buf_at [OF i(2)])
  have slots: "\<exists>buf. rd_slots r' ! j = (rd_slots r ! j)\<lparr>sl_buf := buf\<rparr> \<and> (j \<notin> assigned_slots (sa # xs) \<longrightarrow> buf = sl_buf (rd_slots r ! j))" if inb: "j < length (rd_slots r)" for j
  proof -
    obtain b where b: "rd_slots r' ! j = (rd_slots r1 ! j)\<lparr>sl_buf := b\<rparr>" "j \<notin> assigned_slots xs \<longrightarrow> b = sl_buf (rd_slots r1 ! j)"
      using IH [THEN conjunct2, THEN conjunct2, THEN conjunct2, THEN conjunct1, rule_format, of j] inb by (auto simp: C)
    show ?thesis using b at [of j] by (intro exI [of _ b]) (auto simp: assigned_slots_def)
  qed
  have own: "sl_buf (rd_slots r' ! ?i) = buf" using IH i(2,4) at [of ?i] by (auto simp: C)
  show ?case using IH F slots own r1(3) by (auto simp: res C split: sum.splits)
qed

section \<open>Discarding and entering\<close>

definition vacate :: "nat set \<Rightarrow> (int \<rightharpoonup> nat) \<Rightarrow> int \<rightharpoonup> nat" where
  "vacate A m k = (case m k of None \<Rightarrow> None | Some i \<Rightarrow> if i \<in> A then None else Some i)"

lemma vacate_simps: "vacate {} m = m" "vacate A (vacate B m) = vacate (A \<union> B) m"
  by (auto simp: vacate_def fun_eq_iff split: option.splits)

lemma forget_key_at:
  assumes "keys_ok r" "i < length (rd_slots r)"
  shows "rd_keyToSlot (forget_key i r) = vacate {i} (rd_keyToSlot r)" "rd_slots (forget_key i r) = rd_slots r" "load_frame (forget_key i r) = load_frame r" "rd_clock (forget_key i r) = rd_clock r"
proof -
  show "rd_keyToSlot (forget_key i r) = vacate {i} (rd_keyToSlot r)"
  proof
    fix k
    have "rd_keyToSlot r k = Some i \<longleftrightarrow> sl_loaded (rd_slots r ! i) \<and> sl_key (rd_slots r ! i) = k" using assms by (simp add: keys_ok_def)
    moreover have "vacate {i} (rd_keyToSlot r) k = (if rd_keyToSlot r k = Some i then None else rd_keyToSlot r k)" by (simp add: vacate_def split: option.splits)
    ultimately show "rd_keyToSlot (forget_key i r) k = vacate {i} (rd_keyToSlot r) k" by (auto simp: forget_key_def)
  qed
qed (simp_all add: forget_key_def load_frame_def)

lemma discard_at:
  assumes "keys_ok r" "sa_slotIndex sa < length (rd_slots r)"
  shows "rd_keyToSlot (discard_assignment sa r) = vacate {sa_slotIndex sa} (rd_keyToSlot r)" "load_frame (discard_assignment sa r) = load_frame r"
    "rd_slots (discard_assignment sa r) = (rd_slots r)[sa_slotIndex sa := (rd_slots r ! sa_slotIndex sa)\<lparr>sl_loaded := False, sl_key := 0, sl_span := 0\<rparr>]"
  using forget_key_at [OF assms] by (simp_all add: discard_assignment_def Let_def load_frame_def)

lemma discard_ok:
  assumes "ok_except content S r" "sa_slotIndex sa < length (rd_slots r)"
  shows "ok_except content (S - {sa_slotIndex sa}) (discard_assignment sa r)"
proof -
  have k: "keys_ok r" using assms(1) by (simp add: ok_except_def)
  note D = discard_at [OF k assms(2)]
  note C = frame_cong [OF D(2)]
  have "slots_ok (discard_assignment sa r)" using assms by (simp add: ok_except_def slots_ok_def C D(3) nth_list_update)
  moreover have "keys_ok (discard_assignment sa r)" unfolding keys_ok_def
  proof (intro allI)
    fix k i
    have "rd_keyToSlot r k = Some i \<longleftrightarrow> i < length (rd_slots r) \<and> sl_loaded (rd_slots r ! i) \<and> sl_key (rd_slots r ! i) = k" using k by (simp add: keys_ok_def)
    then show "rd_keyToSlot (discard_assignment sa r) k = Some i \<longleftrightarrow> i < length (rd_slots (discard_assignment sa r)) \<and>
        sl_loaded (rd_slots (discard_assignment sa r) ! i) \<and> sl_key (rd_slots (discard_assignment sa r) ! i) = k"
      unfolding D(1,3) using assms(2) by (cases "rd_keyToSlot r k") (auto simp: vacate_def nth_list_update)
  qed
  moreover have "contents_ok content (S - {sa_slotIndex sa}) (discard_assignment sa r)" using assms by (auto simp: ok_except_def contents_ok_def C D(3) nth_list_update)
  ultimately show ?thesis using assms(1) by (simp add: ok_except_def C)
qed

lemma discard_all_ok:
  assumes "ok_except content S r" "assigned_slots sas \<subseteq> {..<length (rd_slots r)}"
  shows "ok_except content (S - assigned_slots sas) (discardAssignmentsLocked sas r) \<and> load_frame (discardAssignmentsLocked sas r) = load_frame r \<and>
    rd_keyToSlot (discardAssignmentsLocked sas r) = vacate (assigned_slots sas) (rd_keyToSlot r)"
  using assms
proof (induction sas arbitrary: S r)
  case Nil
  then show ?case by (simp add: discardAssignmentsLocked_def assigned_slots_def vacate_simps)
next
  case (Cons sa sas)
  have i: "sa_slotIndex sa < length (rd_slots r)" "keys_ok r" using Cons.prems by (auto simp: assigned_slots_def ok_except_def)
  note D = discard_at [OF i(2,1)] discard_ok [OF Cons.prems(1) i(1)]
  have a: "assigned_slots sas \<subseteq> {..<length (rd_slots (discard_assignment sa r))}" using Cons.prems(2) by (auto simp: assigned_slots_def D(3))
  show ?case using Cons.IH [OF D(4) a] D(1,2) by (simp add: discardAssignmentsLocked_def assigned_slots_def vacate_simps Diff_insert Un_commute [of "{_}"] set_diff_eq conj_ac)
qed

lemma enter_at:
  assumes "keys_ok r" "sa_slotIndex sa < length (rd_slots r)"
  shows "rd_keyToSlot (enter_assignment sa r) = (vacate {sa_slotIndex sa} (rd_keyToSlot r))(sa_key sa := Some (sa_slotIndex sa))" "load_frame (enter_assignment sa r) = load_frame r"
    "rd_slots (enter_assignment sa r) = (rd_slots r)[sa_slotIndex sa := (rd_slots r ! sa_slotIndex sa)\<lparr>sl_loaded := True, sl_key := sa_key sa,
       sl_span := el_span (sa_layout sa), sl_lastUse := wrapu64 (rd_clock r + 1)\<rparr>]"
  using forget_key_at [OF assms] assms(2) by (simp_all add: enter_assignment_def touchSlotLocked_def Let_def load_frame_def)

lemma enter_keys:
  assumes "keys_ok r" "sa_slotIndex sa < length (rd_slots r)" "rd_keyToSlot r (sa_key sa) = None"
  shows "keys_ok (enter_assignment sa r)"
  unfolding keys_ok_def
proof (intro allI)
  fix k i
    have "rd_keyToSlot r k' = Some i \<longleftrightarrow> i < length (rd_slots r) \<and> sl_loaded (rd_slots r ! i) \<and> sl_key (rd_slots r ! i) = k'" for k' using assms(1) by (simp add: keys_ok_def)
    from this [of k] this [of "sa_key sa"] show "rd_keyToSlot (enter_assignment sa r) k = Some i \<longleftrightarrow> i < length (rd_slots (enter_assignment sa r)) \<and>
        sl_loaded (rd_slots (enter_assignment sa r) ! i) \<and> sl_key (rd_slots (enter_assignment sa r) ! i) = k"
      unfolding enter_at [OF assms(1,2)] using assms(2,3) by (cases "rd_keyToSlot r k") (auto simp: vacate_def nth_list_update)
qed

lemma enter_ok:
  assumes "ok_except content S r" "sa_slotIndex sa < length (rd_slots r)" "rd_keyToSlot r (sa_key sa) = None"
    and "map_of (rd_experts r) (sa_key sa) = Some (sa_layout sa)" "holds_payload content r (sl_buf (rd_slots r ! sa_slotIndex sa)) (sa_layout sa)"
  shows "ok_except content (S - {sa_slotIndex sa}) (enter_assignment sa r)"
proof -
  have k: "keys_ok r" using assms(1) by (simp add: ok_except_def)
  note D = enter_at [OF k assms(2)]
  note C = frame_cong [OF D(2)]
  have "slots_ok (enter_assignment sa r)" using assms by (simp add: ok_except_def slots_ok_def C D(3) nth_list_update)
  moreover have "keys_ok (enter_assignment sa r)" by (rule enter_keys [OF k assms(2,3)])
  moreover have "contents_ok content (S - {sa_slotIndex sa}) (enter_assignment sa r)" using assms by (auto simp: ok_except_def contents_ok_def C D(3) nth_list_update)
  ultimately show ?thesis using assms(1) by (simp add: ok_except_def C)
qed

definition keys_of :: "slot_assignment list \<Rightarrow> int \<rightharpoonup> nat" where
  "keys_of sas = map_of (map (\<lambda>sa. (sa_key sa, sa_slotIndex sa)) sas)"

lemma enter_all_ok:
  assumes "ok_except content S r" "assignments_ok r sas" "distinct (map sa_key sas)" "\<forall>sa \<in> set sas. rd_keyToSlot r (sa_key sa) = None \<and>
      holds_payload content r (sl_buf (rd_slots r ! sa_slotIndex sa)) (sa_layout sa)"
  shows "ok_except content (S - assigned_slots sas) (fold enter_assignment sas r) \<and> load_frame (fold enter_assignment sas r) = load_frame r \<and>
    rd_keyToSlot (fold enter_assignment sas r) = vacate (assigned_slots sas) (rd_keyToSlot r) ++ keys_of sas"
  using assms
proof (induction sas arbitrary: S r)
  case Nil
  then show ?case by (simp add: assigned_slots_def vacate_simps keys_of_def)
next
  case (Cons sa sas)
  let ?i = "sa_slotIndex sa" and ?r = "enter_assignment sa r"
  have i: "?i < length (rd_slots r)" "keys_ok r" "?i \<notin> assigned_slots sas" using Cons.prems by (auto simp: assigned_slots_def ok_except_def assignments_ok_def)
  note D = enter_at [OF i(2,1)]
  note C = frame_cong [OF D(2)]
  have ok: "ok_except content (S - {?i}) ?r" using enter_ok [OF Cons.prems(1) i(1)] Cons.prems(2,4) by (simp add: assignments_ok_def)
  have a: "assignments_ok ?r sas" using Cons.prems(2) by (auto simp: assignments_ok_def assigned_slots_def C)
  have rest: "\<forall>s \<in> set sas. rd_keyToSlot ?r (sa_key s) = None \<and> holds_payload content ?r (sl_buf (rd_slots ?r ! sa_slotIndex s)) (sa_layout s)"
  proof
    fix s assume s: "s \<in> set sas"
    have "sa_key s \<in> sa_key ` set sas" "sa_slotIndex s \<in> assigned_slots sas" using s by (simp_all add: assigned_slots_def)
    then have "sa_key s \<noteq> sa_key sa" "sa_slotIndex s \<noteq> ?i" using Cons.prems(3) i(3) by auto
    then show "rd_keyToSlot ?r (sa_key s) = None \<and> holds_payload content ?r (sl_buf (rd_slots ?r ! sa_slotIndex s)) (sa_layout s)"
      using Cons.prems(4) s by (auto simp: D(1,3) C vacate_def)
  qed
  have "S - {?i} - assigned_slots sas = S - assigned_slots (sa # sas)" by (auto simp: assigned_slots_def)
  moreover have "vacate (assigned_slots sas) (rd_keyToSlot ?r) ++ keys_of sas = vacate (assigned_slots (sa # sas)) (rd_keyToSlot r) ++ keys_of (sa # sas)"
  proof
    fix k
    have "keys_of sas (sa_key sa) = None" using Cons.prems(3) by (auto simp: keys_of_def map_of_eq_None_iff comp_def)
    then show "(vacate (assigned_slots sas) (rd_keyToSlot ?r) ++ keys_of sas) k = (vacate (assigned_slots (sa # sas)) (rd_keyToSlot r) ++ keys_of (sa # sas)) k"
      using i(3) by (auto simp: D(1) vacate_def map_add_def keys_of_def assigned_slots_def split: option.splits)
  qed
  ultimately show ?case using Cons.IH [OF ok a _ rest] Cons.prems(3) D(2) by simp
qed

section \<open>What a load returns\<close>

lemma file_bytes_part:
  assumes "0 \<le> off" "0 \<le> a" "0 \<le> m" "a + m \<le> n"
  shows "take (nat m) (drop (nat a) (file_bytes blob off n)) = file_bytes blob (off + a) m"
proof -
  have "nat m \<le> nat n - nat a" "nat (off + a) = nat a + nat off" using assms by linarith+
  then show ?thesis by (simp add: file_bytes_def drop_take min_def)
qed

lemma go_slice_part:
  assumes "0 \<le> off" "0 \<le> a" "0 \<le> m" "a + m \<le> n" "int (length (file_bytes blob off n)) = n"
  shows "go_slice (file_bytes blob off n) a (a + m) = Inr (file_bytes blob (off + a) m)"
  using file_bytes_part [OF assms(1-4), of blob] assms by (simp add: go_slice_Inr)

definition file_part :: "('h \<Rightarrow> string) \<Rightarrow> 'h \<Rightarrow> component_spec \<Rightarrow> loaded_part" where
  "file_part content h c = part_view c (file_bytes (content h) (cs_Offset c) (cs_Size c))"

text \<open>The expert as the files have it, in slot \<open>i\<close>.\<close>

definition file_expert :: "('h \<Rightarrow> string) \<Rightarrow> 'h expert_reader \<Rightarrow> expert_spec \<Rightarrow> nat \<Rightarrow> loaded_expert" where
  "file_expert content r e i = (let h = handle_of r (es_File e) in
     \<lparr>le_Key = es_Key e, le_SlotIndex = i, le_SlotBytes = file_bytes (content h) (entry_start e) (entry_end e - entry_start e),
      le_Gate = file_part content h (es_Gate e), le_Up = file_part content h (es_Up e), le_Down = file_part content h (es_Down e)\<rparr>)"

lemma expert_view_ok:
  assumes "reader_ok content r" "rd_keyToSlot r k = Some i" "map_of (rd_experts r) k = Some lo"
  shows "expert_view r k = Inr (file_expert content r (el_spec lo) i)"
proof -
  let ?s = "el_spec lo" and ?buf = "sl_buf (rd_slots r ! i)" and ?h = "handle_of r (es_File (el_spec lo))"
  have i: "i < length (rd_slots r)" "sl_loaded (rd_slots r ! i)" "sl_key (rd_slots r ! i) = k" using assms(1,2) by (simp_all add: ok_except_def keys_ok_def)
  have hp: "holds_payload content r ?buf lo" using assms(1,3) i by (auto simp: ok_except_def contents_ok_def)
  have len: "int (length ?buf) = rd_slotSize r" using assms(1) i(1) by (simp add: ok_except_def slots_ok_def)
  have key: "es_Key ?s = k" and lay: "layout_in r lo" using assms(1,3) by (simp_all add: ok_except_def layouts_ok_def)
  then have L: "0 < cs_Size (es_Gate ?s)" "0 < cs_Size (es_Up ?s)" "0 < cs_Size (es_Down ?s)" "el_upRel lo = cs_Size (es_Gate ?s)"
      "el_downRel lo = cs_Size (es_Gate ?s) + cs_Size (es_Up ?s)" "el_span lo = cs_Size (es_Gate ?s) + cs_Size (es_Up ?s) + cs_Size (es_Down ?s)"
      "el_span lo \<le> rd_slotSize r" "0 \<le> entry_start ?s" "entry_start ?s + el_span lo \<le> max_int64"
      "cs_Offset (es_Up ?s) = entry_start ?s + cs_Size (es_Gate ?s)" "cs_Offset (es_Down ?s) = cs_Offset (es_Up ?s) + cs_Size (es_Up ?s)"
    by (simp_all add: layout_in_def Let_def)
  define P where "P = payload content r lo"
  have P: "P = file_bytes (content ?h) (entry_start ?s) (el_span lo)" by (simp add: P_def payload_def)
  have plen: "int (length P) = el_span lo" and tk: "take (nat (el_span lo)) ?buf = P" using hp by (simp_all add: holds_payload_def P_def)
  have w: "wrap64 (el_upRel lo + cs_Size (es_Up ?s)) = el_upRel lo + cs_Size (es_Up ?s)" "wrap64 (el_downRel lo + cs_Size (es_Down ?s)) = el_span lo"
    using L by (auto simp: go_int intro!: wrap64_id [THEN trans])
  have "go_slice ?buf 0 (el_span lo) = Inr P" using L len tk by (simp add: go_slice_Inr)
  moreover have "go_slice P 0 (cs_Size (es_Gate ?s)) = Inr (file_bytes (content ?h) (entry_start ?s) (cs_Size (es_Gate ?s)))"
    using go_slice_part [OF L(8) _ _ _ plen [unfolded P], of 0 "cs_Size (es_Gate ?s)"] L by (simp add: P)
  moreover have "go_slice P (el_upRel lo) (el_upRel lo + cs_Size (es_Up ?s)) = Inr (file_bytes (content ?h) (cs_Offset (es_Up ?s)) (cs_Size (es_Up ?s)))"
    using go_slice_part [OF L(8) _ _ _ plen [unfolded P], of "el_upRel lo" "cs_Size (es_Up ?s)"] L(1-6,10) by (simp add: P)
  moreover have "el_span lo = el_downRel lo + cs_Size (es_Down ?s)" "entry_start ?s + el_downRel lo = cs_Offset (es_Down ?s)" using L by simp_all
  then have "go_slice P (el_downRel lo) (el_span lo) = Inr (file_bytes (content ?h) (cs_Offset (es_Down ?s)) (cs_Size (es_Down ?s)))"
    using go_slice_part [OF L(8) _ _ _ plen [unfolded P], of "el_downRel lo" "cs_Size (es_Down ?s)"] L(1-5) by (simp add: P)
  moreover have "entry_end ?s - entry_start ?s = el_span lo" using L by (simp add: entry_end_def)
  ultimately show ?thesis using assms(2,3) i(1) key
    by (simp add: expert_view_def Let_def w file_expert_def file_part_def P)
qed

section \<open>A load\<close>

definition missing_keys :: "'h expert_reader \<Rightarrow> int list \<Rightarrow> int set" where
  "missing_keys r keys = {k \<in> set keys. \<not> resident r k}"

definition kept_slots :: "'h expert_reader \<Rightarrow> int list \<Rightarrow> nat set" where
  "kept_slots r keys = slot_of r ` {k \<in> set keys. resident r k}"

text \<open>A load gave the keys that were missing the first candidates among the slots that hold none of the
  requested experts; \<open>r1\<close> is the reader after the requested residents were touched.\<close>

definition took_slots :: "'h expert_reader \<Rightarrow> int list \<Rightarrow> slot_assignment list \<Rightarrow> bool" where
  "took_slots r keys sas \<longleftrightarrow> (\<exists>r1 keep. touched_only (kept_slots r keys) r r1 \<and> set keep = kept_slots r keys \<and>
     sa_key ` set sas = missing_keys r keys \<and> distinct (map sa_key sas) \<and> map sa_slotIndex sas = take (length sas) (slot_candidates (rd_slots r1) keep))"

definition can_load :: "'h expert_reader \<Rightarrow> int list \<Rightarrow> bool" where
  "can_load r keys \<longleftrightarrow> (\<forall>k \<in> set keys. map_of (rd_experts r) k \<noteq> None) \<and> card (set keys) \<le> length (rd_slots r)"

text \<open>The error of a load that passed the checks is one that reading an expert into a slot returned.\<close>

definition failed_read :: "('w, 'h) os_ops \<Rightarrow> ('h \<Rightarrow> string) \<Rightarrow> 'h expert_reader \<Rightarrow> 'w \<Rightarrow> go_error \<Rightarrow> bool" where
  "failed_read os content r w e \<longleftrightarrow> (\<exists>r1 xs. ok_except content (assigned_slots xs) r1 \<and> load_frame r1 = load_frame r \<and> assignments_ok r1 xs \<and>
     fst (loadAssignmentsLocked os xs (r1, w)) = Inl e)"

lemma keys_ok_inj: "keys_ok r \<Longrightarrow> rd_keyToSlot r k = Some i \<Longrightarrow> rd_keyToSlot r k' = Some i \<Longrightarrow> k = k'"
  by (auto simp: keys_ok_def)

lemma load_spec:
  assumes "reads_content os content" "reader_ok content r" "\<And>xs. mset (done_in xs) = mset xs" "loadLocked os done_in keys (r, w) = (res, (r', w'))"
  shows "reader_ok content r' \<and> load_frame r' = load_frame r \<and>
    (if can_load r keys then \<exists>sas. took_slots r keys sas \<and> rd_keyToSlot r' = vacate (assigned_slots sas) (rd_keyToSlot r) ++ (case res of Inl e \<Rightarrow> Map.empty | Inr _ \<Rightarrow> keys_of sas) \<and>
        assigned_slots sas \<inter> kept_slots r keys = {} \<and> (\<forall>out. res = Inr out \<longrightarrow> set keys \<subseteq> dom (rd_keyToSlot r') \<and>
          out = map (\<lambda>k. file_expert content r (el_spec (the (map_of (rd_experts r) k))) (slot_of r' k)) keys) \<and>
        (\<forall>e. res = Inl e \<longrightarrow> failed_read os content r w e)
      else (\<exists>e. res = Inl e) \<and> rd_keyToSlot r' = rd_keyToSlot r)"
proof (cases "keys = []")
  case True
  have open': "\<not> rd_closed r" using assms(2) by (simp add: ok_except_def layouts_ok_def)
  then have "res = Inr [] \<and> r' = r" using assms(4) True by (simp add: loadLocked_def)
  moreover have "took_slots r [] []" unfolding took_slots_def
    by (intro exI [of _ r] exI [of _ "[]"]) (simp add: touched_only_def same_slots_refl kept_slots_def missing_keys_def)
  ultimately show ?thesis using True assms(2) by (auto simp: can_load_def intro!: exI [of _ "[]"] simp: assigned_slots_def vacate_simps keys_of_def)
next
  case False
  have open': "\<not> rd_closed r" and ko: "keys_ok r" using assms(2) by (simp_all add: ok_except_def layouts_ok_def)
  obtain sres r1 where sc: "scan_keys keys [] [] [] r = (sres, r1)" by (metis prod.collapse)
  note S = scan_keys_spec [OF ko, of keys "[]" sres r1, simplified, OF sc]
  then have t: "touched_only (kept_slots r keys) r r1" by (simp add: kept_slots_def)
  then have ss: "same_slots r r1" by (simp add: touched_only_def)
  have ok1: "reader_ok content r1" by (rule same_slots_ok [OF ss assms(2)])
  have f: "load_frame r1 = load_frame r" "rd_keyToSlot r1 = rd_keyToSlot r" using ss by (simp_all add: same_slots_def)
  note C = frame_cong [OF f(1)]
  show ?thesis
  proof (cases sres)
    case (Inl e)
    then have "\<not> can_load r keys" using S by (auto simp: can_load_def)
    moreover have "res = Inl e" "r' = r1" using assms(4) open' False sc Inl by (simp_all add: loadLocked_def)
    ultimately show ?thesis using ok1 f by simp
  next
    case (Inr umk)
    obtain u missing keep where umk: "umk = (u, missing, keep)" by (cases umk)
    have u: "distinct u" "set u = set keys" "missing = filter (\<lambda>k. \<not> resident r k) u" "keep = map (slot_of r) (filter (resident r) u)"
      "\<forall>k \<in> set keys. map_of (rd_experts r) k \<noteq> None" using S Inr umk by simp_all
    have len: "length u = card (set keys)" using u(1,2) distinct_card by metis
    show ?thesis
    proof (cases "length u > length (rd_slots r)")
      case True
      then have "\<not> can_load r keys" by (simp add: can_load_def len)
      moreover have "(\<exists>e. res = Inl e) \<and> r' = r1" using assms(4) open' False sc Inr umk True by (auto simp: loadLocked_def C)
      ultimately show ?thesis using ok1 f by simp
    next
      case fits: False
      have can: "can_load r keys" using fits u(5) by (simp add: can_load_def len)
      have keep: "set keep = kept_slots r keys" using u by (auto simp: kept_slots_def)
      have kin: "kept_slots r keys \<subseteq> {..<length (rd_slots r)}"
      proof
        fix i assume "i \<in> kept_slots r keys"
        then obtain k where "rd_keyToSlot r k = Some i" by (auto simp: kept_slots_def resident_def slot_of_def)
        then show "i \<in> {..<length (rd_slots r)}" using ko by (simp add: keys_ok_def)
      qed
      have inj: "inj_on (slot_of r) {k. resident r k}"
      proof (rule inj_onI)
        fix x y assume "x \<in> {k. resident r k}" "y \<in> {k. resident r k}" "slot_of r x = slot_of r y"
        then obtain i where "rd_keyToSlot r x = Some i" "rd_keyToSlot r y = Some i" by (auto simp: resident_def slot_of_def)
        then show "x = y" by (rule keys_ok_inj [OF ko])
      qed
      have dk: "distinct keep" unfolding u(4) using u(1) by (auto simp: distinct_map intro: inj_on_subset [OF inj])
      have "length missing + length keep = length u" unfolding u(3,4) using sum_length_filter_compl [of "resident r" u] by simp
      then have room: "length missing + length keep \<le> length (rd_slots r1)" using fits by (simp add: C)
      have known: "\<forall>k \<in> set missing. map_of (rd_experts r1) k \<noteq> None" using u by (simp add: C)
      have dm: "distinct missing" unfolding u(3) using u(1) by simp
      obtain sas where sas: "assignSlotsLocked r1 missing keep = Inr sas" "map sa_key sas = missing" "assignments_ok r1 sas" "assigned_slots sas \<inter> set keep = {}"
          "map sa_slotIndex sas = take (length missing) (slot_candidates (rd_slots r1) keep)"
        using assignSlots_spec [OF known dm dk _ room] kin keep by (auto simp: C)
      have lm: "length missing = length sas" using sas(2) by (metis length_map)
      have mk: "sa_key ` set sas = missing_keys r keys" unfolding set_map [symmetric] sas(2) u(3) using u(2) by (auto simp: missing_keys_def)
      have took: "took_slots r keys sas" unfolding took_slots_def using t keep mk sas(2,5) dm lm by (intro exI [of _ r1] exI [of _ keep]) simp
      have don: "set (done_in sas) = set sas" "assigned_slots (done_in sas) = assigned_slots sas" using mset_eq_setD [OF assms(3)] by (simp_all add: assigned_slots_def)
      have dd: "distinct (map sa_slotIndex (done_in sas))"
        using sas(3) mset_eq_imp_distinct_iff [of "map sa_slotIndex (done_in sas)" "map sa_slotIndex sas"] assms(3) by (simp add: assignments_ok_def)
      then have ado: "assignments_ok r1 (done_in sas)" using sas(3) by (simp add: assignments_ok_def don)
      obtain lres r2 w2 where ld: "loadAssignmentsLocked os (done_in sas) (r1, w) = (lres, (r2, w2))" by (metis prod.collapse)
      note LD = load_assignments_spec [OF assms(1) ok_except_mono [OF ok1, of "assigned_slots sas"] _ ado ld]
      have l2: "ok_except content (assigned_slots sas) r2" "load_frame r2 = load_frame r1" "rd_keyToSlot r2 = rd_keyToSlot r1"
        "lres = Inr () \<Longrightarrow> \<forall>sa \<in> set sas. holds_payload content r1 (sl_buf (rd_slots r2 ! sa_slotIndex sa)) (sa_layout sa)"
        using LD by (simp_all add: don)
      note C2 = frame_cong [OF l2(2)]
      have as2: "assigned_slots sas \<subseteq> {..<length (rd_slots r2)}" using sas(3) by (simp add: assignments_ok_def C2)
      have disj: "assigned_slots sas \<inter> kept_slots r keys = {}" using sas(4) keep by simp
      show ?thesis
      proof (cases lres)
        case (Inl e)
        then have "res = Inl e \<and> r' = discardAssignmentsLocked sas r2" using assms(4) open' False sc Inr umk fits sas(1) ld by (simp add: loadLocked_def C)
        moreover have "failed_read os content r w e" unfolding failed_read_def
          by (intro exI [of _ r1] exI [of _ "done_in sas"]) (simp add: ok_except_mono [OF ok1] f ado ld Inl)
        ultimately show ?thesis using discard_all_ok [OF l2(1) as2] can took disj l2(2,3) f by auto
      next
        case L: (Inr x)
        let ?r3 = "fold enter_assignment sas r2"
        have new: "\<forall>sa \<in> set sas. rd_keyToSlot r2 (sa_key sa) = None \<and> holds_payload content r2 (sl_buf (rd_slots r2 ! sa_slotIndex sa)) (sa_layout sa)"
        proof
          fix sa assume sa: "sa \<in> set sas"
          then have "\<not> resident r (sa_key sa)" using mk by (auto simp: missing_keys_def)
          then show "rd_keyToSlot r2 (sa_key sa) = None \<and> holds_payload content r2 (sl_buf (rd_slots r2 ! sa_slotIndex sa)) (sa_layout sa)"
            using l2(3,4) L sa f by (simp add: resident_def C2)
        qed
        have "assignments_ok r2 sas" using sas(3) by (simp add: assignments_ok_def C2)
        from enter_all_ok [OF l2(1) this _ new] have e3: "reader_ok content ?r3" "load_frame ?r3 = load_frame r2"
            "rd_keyToSlot ?r3 = vacate (assigned_slots sas) (rd_keyToSlot r2) ++ keys_of sas" using dm sas(2) by simp_all
        have r': "r' = ?r3" "res = res_map (expert_view ?r3) keys" using assms(4) open' False sc Inr umk fits sas(1) ld L by (auto simp: loadLocked_def C Let_def)
        have fr: "load_frame ?r3 = load_frame r" using e3(2) l2(2) f by simp
        note C3 = frame_cong [OF fr]
        have kts: "rd_keyToSlot ?r3 = vacate (assigned_slots sas) (rd_keyToSlot r) ++ keys_of sas" using e3(3) l2(3) f by simp
        have dom: "\<exists>i. rd_keyToSlot ?r3 k = Some i" if "k \<in> set keys" for k
        proof (cases "resident r k")
          case True
          then have "slot_of r k \<in> kept_slots r keys" using that by (simp add: kept_slots_def)
          then have "slot_of r k \<notin> assigned_slots sas" using disj by auto
          then show ?thesis using True by (auto simp: kts map_add_def vacate_def resident_def slot_of_def split: option.splits)
        next
          case False
          then have "k \<in> sa_key ` set sas" using mk that by (simp add: missing_keys_def)
          then have "keys_of sas k \<noteq> None" by (auto simp: keys_of_def map_of_eq_None_iff image_image)
          then show ?thesis by (auto simp: kts map_add_def split: option.splits)
        qed
        have he: "file_expert content ?r3 = file_expert content r" by (intro ext) (simp add: file_expert_def handle_of_def C3)
        have "res_map (expert_view ?r3) keys = Inr (map (\<lambda>k. file_expert content r (el_spec (the (map_of (rd_experts r) k))) (slot_of ?r3 k)) keys)"
          unfolding res_map_Inr
        proof (rule list_all2_all_nthI)
          fix n assume n: "n < length keys"
          have "keys ! n \<in> set keys" using n by simp
          then obtain i lo where "rd_keyToSlot ?r3 (keys ! n) = Some i" "map_of (rd_experts ?r3) (keys ! n) = Some lo" using dom u(5) unfolding C3 by blast
          from expert_view_ok [OF e3(1) this] this n show "expert_view ?r3 (keys ! n) = Inr (map (\<lambda>k. file_expert content r (el_spec (the (map_of (rd_experts r) k))) (slot_of ?r3 k)) keys ! n)"
            by (simp add: slot_of_def C3 he)
        qed simp
        moreover have "set keys \<subseteq> dom (rd_keyToSlot ?r3)" using dom by blast
        ultimately have "took_slots r keys sas \<and> rd_keyToSlot ?r3 = vacate (assigned_slots sas) (rd_keyToSlot r) ++ (case res of Inl e \<Rightarrow> Map.empty | Inr _ \<Rightarrow> keys_of sas) \<and>
            assigned_slots sas \<inter> kept_slots r keys = {} \<and> (\<forall>out. res = Inr out \<longrightarrow> set keys \<subseteq> dom (rd_keyToSlot ?r3) \<and>
              out = map (\<lambda>k. file_expert content r (el_spec (the (map_of (rd_experts r) k))) (slot_of ?r3 k)) keys) \<and> (\<forall>e. res = Inl e \<longrightarrow> failed_read os content r w e)"
          using took kts disj r'(2) by simp
        then show ?thesis unfolding r'(1) if_P [OF can] using e3(1) fr by blast
      qed
    qed
  qed
qed

section \<open>Reads that deliver\<close>

text \<open>Reading inside a file returns all the bytes asked for, or some of them and no error.\<close>

definition reads_ahead :: "('w, 'h) os_ops \<Rightarrow> ('h \<Rightarrow> string) \<Rightarrow> bool" where
  "reads_ahead os content \<longleftrightarrow> (\<forall>h n off w bs e w'. 0 \<le> off \<longrightarrow> 0 < n \<longrightarrow> off + int n \<le> int (length (content h)) \<longrightarrow>
     os_ReadAt os h n off w = ((bs, e), w') \<longrightarrow> length bs = n \<or> e = None \<and> bs \<noteq> [])"

definition files_long :: "('h \<Rightarrow> string) \<Rightarrow> 'h expert_reader \<Rightarrow> bool" where
  "files_long content r \<longleftrightarrow> (\<forall>k lo. map_of (rd_experts r) k = Some lo \<longrightarrow>
     entry_start (el_spec lo) + el_span lo \<le> int (length (content (handle_of r (es_File (el_spec lo))))))"

lemma readFullAt_total:
  assumes "reads_content os content" "reads_ahead os content" "0 \<le> off" "off + int len \<le> int (length (content h))" "off + int len \<le> max_int64" "length got \<le> len"
  shows "\<exists>got' w'. readFullAt os h path len off got w = ((got', Inr ()), w')"
  using assms(6)
proof (induction "len - length got" arbitrary: got w rule: less_induct)
  case less
  show ?case
  proof (cases "length got = len")
    case True
    then show ?thesis by (simp add: readFullAt.simps)
  next
    case False
    let ?o = "off + int (length got)"
    have o: "wrap64 ?o = ?o" "0 \<le> ?o" using assms(3,5) less.prems by (auto intro!: wrap64_id simp: go_int)
    obtain bs e w1 where rd: "os_ReadAt os h (len - length got) ?o w = ((bs, e), w1)" by (metis prod.collapse)
    have b: "length bs \<le> len - length got" using assms(1) rd o(2) unfolding reads_content_def by blast
    have n: "0 < len - length got" "?o + int (len - length got) \<le> int (length (content h))" using less.prems False assms(4) by auto
    have "length bs = len - length got \<or> e = None \<and> bs \<noteq> []" using assms(2) rd o(2) n unfolding reads_ahead_def by blast
    then consider "length (got @ bs) = len" | "e = None" "bs \<noteq> []" "length (got @ bs) < len" using b less.prems by fastforce
    then show ?thesis
    proof cases
      case 1
      then have "readFullAt os h path len off (got @ bs) w1 = ((got @ bs, Inr ()), w1)" by (simp add: readFullAt.simps)
      then show ?thesis using 1 False less.prems rd o by (auto simp: readFullAt.simps [of os h path len off got] Let_def split: option.splits)
    next
      case 2
      have "\<exists>got' w'. readFullAt os h path len off (got @ bs) w1 = ((got', Inr ()), w')" using 2 by (intro less.hyps) (auto intro!: diff_less_mono2)
      then show ?thesis using 2 False less.prems rd o by (auto simp: readFullAt.simps [of os h path len off got])
    qed
  qed
qed

lemma load_assignments_total:
  assumes "reads_content os content" "reads_ahead os content" "ok_except content S r" "files_long content r" "assigned_slots xs \<subseteq> S" "assignments_ok r xs"
  shows "fst (loadAssignmentsLocked os xs (r, w)) = Inr ()"
  using assms(3-)
proof (induction xs arbitrary: r w)
  case (Cons sa xs)
  let ?i = "sa_slotIndex sa" and ?lo = "sa_layout sa"
  obtain res1 r1 w1 where a: "load_assignment os sa (r, w) = (res1, (r1, w1))" by (metis prod.collapse)
  have i: "?i \<in> S" "?i < length (rd_slots r)" "map_of (rd_experts r) (sa_key sa) = Some ?lo" using Cons.prems(3,4) by (auto simp: assigned_slots_def assignments_ok_def)
  obtain buf where r1: "r1 = set_buf ?i buf r" "length buf = length (sl_buf (rd_slots r ! ?i))"
    using load_assignment_spec [OF assms(1) Cons.prems(1) i a] by blast
  have C: "load_frame r1 = load_frame r" unfolding r1(1) by simp
  have "ok_except content S r1" unfolding r1(1) by (rule set_buf_ok [OF Cons.prems(1) i(1,2) r1(2)])
  moreover have "files_long content r1" using Cons.prems(2) by (simp add: files_long_def handle_of_def frame_cong [OF C])
  moreover have "assignments_ok r1 xs" "assigned_slots xs \<subseteq> S" using Cons.prems(3,4) by (auto simp: assignments_ok_def assigned_slots_def frame_cong [OF C])
  ultimately have IH: "fst (loadAssignmentsLocked os xs (r1, w1)) = Inr ()" using Cons.IH by blast
  have lay: "layout_in r ?lo" and buf: "int (length (sl_buf (rd_slots r ! ?i))) = rd_slotSize r"
    using Cons.prems(1) i(2,3) by (auto simp: ok_except_def layouts_ok_def slots_ok_def)
  then obtain f h where f: "map_of (rd_files r) (es_File (el_spec ?lo)) = Some f" "fr_file f = Some h" and span: "0 < el_span ?lo" "el_span ?lo \<le> rd_slotSize r"
      "0 \<le> entry_start (el_spec ?lo)" "entry_start (el_spec ?lo) + el_span ?lo \<le> max_int64"
    by (auto simp: layout_in_def Let_def)
  have "handle_of r (es_File (el_spec ?lo)) = h" using f by (simp add: handle_of_def)
  then have "entry_start (el_spec ?lo) + el_span ?lo \<le> int (length (content h))" using Cons.prems(2) [unfolded files_long_def, rule_format, OF i(3)] by simp
  then obtain got v where "readFullAt os h (fr_absPath f) (nat (el_span ?lo)) (entry_start (el_spec ?lo)) [] w = ((got, Inr ()), v)"
    using readFullAt_total [OF assms(1,2) span(3), of "nat (el_span ?lo)" h "[]"] span by fastforce
  then have "res1 = Inr ()" using a f span buf by (simp add: load_assignment_def Let_def)
  then show ?case using IH a by (auto split: prod.splits)
qed simp

lemma load_total:
  assumes "reads_content os content" "reads_ahead os content" "reader_ok content r" "files_long content r" "\<And>xs. mset (done_in xs) = mset xs" "can_load r keys"
  shows "\<exists>out. fst (loadLocked os done_in keys (r, w)) = Inr out"
proof -
  obtain res r' w' where l: "loadLocked os done_in keys (r, w) = (res, (r', w'))" by (metis prod.collapse)
  have "\<not> failed_read os content r w e" for e
  proof
    assume "failed_read os content r w e"
    then obtain r1 xs where x: "ok_except content (assigned_slots xs) r1" "load_frame r1 = load_frame r" "assignments_ok r1 xs" "fst (loadAssignmentsLocked os xs (r1, w)) = Inl e"
      unfolding failed_read_def by blast
    have "files_long content r1" using assms(4) by (simp add: files_long_def handle_of_def frame_cong [OF x(2)])
    then show False using load_assignments_total [OF assms(1,2) x(1) _ _ x(3), of w] x(4) by simp
  qed
  then show ?thesis using load_spec [OF assms(1,3,5) l] assms(6) l by (cases res) auto
qed

end
