(* ===== verification/ReaderUses.thy ===== *)
theory ReaderUses
  imports ReaderFacts
begin

text \<open>
  When experts are used: the list of uses of a history of loads, and that the times the reader stores
  in its slots order the resident experts by their last use in that list.
\<close>

section \<open>Uses\<close>

text \<open>The distinct keys of a request in the order in which they first occur.\<close>

fun first_asked :: "int set \<Rightarrow> int list \<Rightarrow> int list" where
  "first_asked seen [] = []"
| "first_asked seen (k # ks) = (if k \<in> seen then first_asked seen ks else k # first_asked (insert k seen) ks)"

text \<open>
  The experts a load that leads from \<open>r\<close> to \<open>r'\<close> uses: those it finds in a slot, up to the first unknown
  key, also when the load then fails, and after them those it brings in.
\<close>

definition uses_of :: "'h expert_reader \<Rightarrow> int list \<Rightarrow> 'h expert_reader \<Rightarrow> int list" where
  "uses_of r keys r' = filter (resident r) (takeWhile (\<lambda>k. map_of (rd_experts r) k \<noteq> None) (first_asked {} keys)) @
     filter (\<lambda>k. \<not> resident r k \<and> resident r' k) (first_asked {} keys)"

fun use_trace :: "('w, 'h) os_ops \<Rightarrow> ((slot_assignment list \<Rightarrow> slot_assignment list) \<times> int list) list \<Rightarrow> 'h expert_reader \<times> 'w \<Rightarrow> int list" where
  "use_trace os [] rw = []"
| "use_trace os ((done_in, keys) # calls) (r, w) = (case loadLocked os done_in keys (r, w) of (_, (r', w')) \<Rightarrow>
     uses_of r keys r' @ use_trace os calls (r', w'))"

text \<open>How many uses there were after the last one of \<open>k\<close>.\<close>

definition recency :: "int list \<Rightarrow> int \<Rightarrow> nat" where
  "recency uses k = length (takeWhile (\<lambda>x. x \<noteq> k) (rev uses))"

lemma recency_snoc: "recency (uses @ [x]) k = (if x = k then 0 else Suc (recency uses k))"
  by (simp add: recency_def)

lemma recency_at: "k \<in> set uses \<Longrightarrow> recency uses k < length uses \<and> rev uses ! recency uses k = k"
proof -
  assume "k \<in> set uses"
  then have "k \<in> set (rev uses)" by simp
  then have "takeWhile (\<lambda>x. x \<noteq> k) (rev uses) \<noteq> rev uses" using set_takeWhileD by fastforce
  then have "recency uses k < length (rev uses)" unfolding recency_def
    by (metis length_takeWhile_le nat_less_le takeWhile_eq_take take_all_iff)
  then show ?thesis unfolding recency_def using nth_length_takeWhile [of "\<lambda>x. x \<noteq> k" "rev uses"] by simp
qed

lemma recency_inj: "k \<in> set uses \<Longrightarrow> k' \<in> set uses \<Longrightarrow> recency uses k = recency uses k' \<Longrightarrow> k = k'"
  using recency_at by metis

section \<open>The clock\<close>

text \<open>The clock counts the uses, and every resident expert carries the number of its last use.\<close>

definition timed :: "'h expert_reader \<Rightarrow> int list \<Rightarrow> bool" where
  "timed r uses \<longleftrightarrow> rd_clock r = int (length uses) \<and> (\<forall>k. resident r k \<longrightarrow> k \<in> set uses \<and>
     sl_lastUse (rd_slots r ! slot_of r k) + int (recency uses k) = int (length uses))"

lemma timed_mono:
  assumes "keys_ok r" "timed r uses" "rd_clock r' = rd_clock r" "map sl_lastUse (rd_slots r') = map sl_lastUse (rd_slots r)"
    and "\<And>k i. rd_keyToSlot r' k = Some i \<Longrightarrow> rd_keyToSlot r k = Some i"
  shows "timed r' uses"
proof -
  have len: "length (rd_slots r') = length (rd_slots r)" using assms(4) by (metis length_map)
  have "resident r k \<and> sl_lastUse (rd_slots r' ! slot_of r' k) = sl_lastUse (rd_slots r ! slot_of r k)" if k: "resident r' k" for k
  proof -
    obtain i where i: "rd_keyToSlot r' k = Some i" using k by (auto simp: resident_def)
    then have r: "rd_keyToSlot r k = Some i" by (rule assms(5))
    then have "i < length (rd_slots r)" using assms(1) by (auto simp: keys_ok_def)
    then have "sl_lastUse (rd_slots r' ! i) = sl_lastUse (rd_slots r ! i)" using assms(4) len by (metis nth_map)
    then show ?thesis using i r by (simp add: resident_def slot_of_def)
  qed
  then show ?thesis using assms(2,3) by (simp add: timed_def)
qed

lemma next_use: "int (length uses) + 1 < 2 ^ 64 \<Longrightarrow> wrapu64 (int (length uses) + 1) = int (length uses) + 1"
  by (simp add: wrapu64_def)

lemma touch_timed:
  assumes "keys_ok r" "timed r uses" "rd_keyToSlot r k = Some i" "int (length uses) + 1 < 2 ^ 64"
  shows "timed (touchSlotLocked i r) (uses @ [k])"
proof -
  have i: "i < length (rd_slots r)" using assms(1,3) by (auto simp: keys_ok_def)
  have c: "wrapu64 (rd_clock r + 1) = int (length uses) + 1" using assms(2) next_use [OF assms(4)] by (simp add: timed_def)
  have other: "slot_of r k' \<noteq> i" if "resident r k'" "k' \<noteq> k" for k'
    using that assms(3) keys_ok_inj [OF assms(1), of k' i k] by (auto simp: resident_def slot_of_def)
  have sel: "resident (touchSlotLocked i r) = resident r" "slot_of (touchSlotLocked i r) = slot_of r" "rd_clock (touchSlotLocked i r) = int (length uses) + 1"
    "rd_slots (touchSlotLocked i r) = (rd_slots r)[i := (rd_slots r ! i)\<lparr>sl_lastUse := int (length uses) + 1\<rparr>]"
    using c by (simp_all add: touchSlotLocked_def Let_def resident_def slot_of_def fun_eq_iff)
  have k: "slot_of r k = i" using assms(3) by (simp add: slot_of_def)
  have "k' \<in> set (uses @ [k]) \<and> sl_lastUse (rd_slots (touchSlotLocked i r) ! slot_of r k') + int (recency (uses @ [k]) k') = int (length (uses @ [k]))"
    if "resident r k'" for k'
  proof (cases "k' = k")
    case True
    then show ?thesis using i k by (simp add: sel recency_snoc)
  next
    case False
    have "k' \<in> set uses" "sl_lastUse (rd_slots r ! slot_of r k') + int (recency uses k') = int (length uses)" using that assms(2) by (simp_all add: timed_def)
    then show ?thesis using other [OF that False] False by (simp add: sel recency_snoc)
  qed
  then show ?thesis by (simp add: timed_def sel)
qed

lemma scan_timed:
  assumes "keys_ok r" "timed r uses" "scan_keys keys unique missing keep r = (res, r')"
    and "hits = filter (resident r) (takeWhile (\<lambda>k. map_of (rd_experts r) k \<noteq> None) (first_asked (set unique) keys))"
    and "int (length uses) + int (length hits) < 2 ^ 64"
  shows "timed r' (uses @ hits)"
  using assms
proof (induction keys arbitrary: unique missing keep r uses hits)
  case (Cons key keys)
  show ?case
  proof (cases "key \<in> set unique")
    case True
    then show ?thesis using Cons.IH [OF Cons.prems(1,2) _ _ Cons.prems(5)] Cons.prems(3,4) by auto
  next
    case new: False
    show ?thesis
    proof (cases "map_of (rd_experts r) key = None")
      case True
      then show ?thesis using Cons.prems(2-4) new by simp
    next
      case known: False
      have set': "set (unique @ [key]) = insert key (set unique)" by auto
      show ?thesis
      proof (cases "rd_keyToSlot r key")
        case None
        then have "hits = filter (resident r) (takeWhile (\<lambda>k. map_of (rd_experts r) k \<noteq> None) (first_asked (set (unique @ [key])) keys))"
          using Cons.prems(4) new known None unfolding set' by (simp add: resident_def [of r key])
        from Cons.IH [OF Cons.prems(1,2) _ this Cons.prems(5)] Cons.prems(3) new known None show ?thesis by simp
      next
        case (Some i)
        let ?r = "touchSlotLocked i r"
        define hits' where "hits' = filter (resident r) (takeWhile (\<lambda>k. map_of (rd_experts r) k \<noteq> None) (first_asked (set (unique @ [key])) keys))"
        have hits: "hits = key # hits'" using Cons.prems(4) new known Some unfolding hits'_def set' by (simp add: resident_def [of r key])
        have same: "resident ?r = resident r" "rd_experts ?r = rd_experts r" "keys_ok ?r"
          using same_slots_keys [OF touch_same [of r i]] Cons.prems(1) by (simp_all add: touchSlotLocked_def Let_def resident_def fun_eq_iff)
        have "timed ?r (uses @ [key])" by (rule touch_timed [OF Cons.prems(1,2) Some]) (use Cons.prems(5) hits in simp)
        moreover have "scan_keys keys (unique @ [key]) missing (keep @ [i]) ?r = (res, r')" using Cons.prems(3) new known Some by simp
        ultimately have "timed r' ((uses @ [key]) @ hits')"
          by (rule Cons.IH [OF same(3)]) (use Cons.prems(5) hits in \<open>simp_all add: same hits'_def\<close>)
        then show ?thesis by (simp add: hits)
      qed
    qed
  qed
qed simp

lemma scan_asked:
  "scan_keys keys unique missing keep r = (Inr (u, m, kp), r') \<Longrightarrow>
    u = unique @ first_asked (set unique) keys \<and> m = missing @ filter (\<lambda>k. \<not> resident r k) (first_asked (set unique) keys)"
proof (induction keys arbitrary: unique missing keep r)
  case (Cons key keys)
  have set': "set (unique @ [key]) = insert key (set unique)" by auto
  have same: "resident (touchSlotLocked i r) = resident r" for i by (simp add: touchSlotLocked_def Let_def resident_def fun_eq_iff)
  note IH = Cons.IH [of "unique @ [key]", unfolded set']
  show ?case
  proof (cases "key \<in> set unique")
    case True
    then show ?thesis using Cons.IH [of unique missing keep r] Cons.prems by simp
  next
    case new: False
    then have known: "map_of (rd_experts r) key \<noteq> None" using Cons.prems by (auto split: if_splits)
    show ?thesis
    proof (cases "rd_keyToSlot r key")
      case None
      then show ?thesis using IH [of "missing @ [key]" keep r] Cons.prems new known by (simp add: resident_def [of r key])
    next
      case (Some i)
      then show ?thesis using IH [of missing "keep @ [i]" "touchSlotLocked i r"] Cons.prems new known by (simp add: same resident_def [of r key])
    qed
  qed
qed simp

section \<open>A load\<close>

definition held_keys :: "expert_slot \<Rightarrow> bool \<times> int \<times> int" where
  "held_keys sl = (sl_loaded sl, sl_key sl, sl_lastUse sl)"

text \<open>Reading files into slots changes neither keys nor times.\<close>

definition same_keys :: "'h expert_reader \<Rightarrow> 'h expert_reader \<Rightarrow> bool" where
  "same_keys r r' \<longleftrightarrow> rd_clock r' = rd_clock r \<and> rd_keyToSlot r' = rd_keyToSlot r \<and> map held_keys (rd_slots r') = map held_keys (rd_slots r)"

lemma load_assignment_same: "load_assignment os sa (r, w) = (res, (r', w')) \<Longrightarrow> same_keys r r'"
proof -
  have "map held_keys (slots[i := (slots ! i)\<lparr>sl_buf := b\<rparr>]) = map held_keys slots" for slots i b
    by (cases "i < length slots") (simp_all add: held_keys_def map_update list_update_same_conv list_update_beyond)
  moreover assume "load_assignment os sa (r, w) = (res, (r', w'))"
  ultimately show ?thesis by (auto simp: same_keys_def load_assignment_def Let_def split: if_splits option.splits prod.splits)
qed

lemma load_assignments_same: "loadAssignmentsLocked os sas (r, w) = (res, (r', w')) \<Longrightarrow> same_keys r r'"
proof (induction sas arbitrary: r w res)
  case (Cons sa sas)
  obtain res1 r1 w1 where l: "load_assignment os sa (r, w) = (res1, (r1, w1))" by (metis prod.collapse)
  obtain res2 where "loadAssignmentsLocked os sas (r1, w1) = (res2, (r', w'))" using Cons.prems l by (auto split: prod.splits)
  from Cons.IH [OF this] load_assignment_same [OF l] show ?case by (simp add: same_keys_def)
qed (simp add: same_keys_def)

lemma same_keys_ok:
  assumes "same_keys r r'"
  shows "keys_ok r' = keys_ok r" "map sl_lastUse (rd_slots r') = map sl_lastUse (rd_slots r)" "length (rd_slots r') = length (rd_slots r)"
proof -
  have h: "map held_keys (rd_slots r') = map held_keys (rd_slots r)" using assms by (simp add: same_keys_def)
  then show len: "length (rd_slots r') = length (rd_slots r)" by (metis length_map)
  have at_slot: "held_keys (rd_slots r' ! i) = held_keys (rd_slots r ! i)" if "i < length (rd_slots r)" for i
    using h len that by (metis nth_map)
  then show "map sl_lastUse (rd_slots r') = map sl_lastUse (rd_slots r)" using len by (intro nth_equalityI) (simp_all add: held_keys_def)
  show "keys_ok r' = keys_ok r" using at_slot assms by (simp add: keys_ok_def len same_keys_def held_keys_def cong: conj_cong)
qed

lemma discard_times:
  "rd_clock (discardAssignmentsLocked sas r) = rd_clock r \<and> map sl_lastUse (rd_slots (discardAssignmentsLocked sas r)) = map sl_lastUse (rd_slots r) \<and>
    (rd_keyToSlot (discardAssignmentsLocked sas r) k = Some i \<longrightarrow> rd_keyToSlot r k = Some i)"
proof (induction sas arbitrary: r)
  case (Cons sa sas)
  have up: "map sl_lastUse (slots[i := (slots ! i)\<lparr>sl_loaded := False, sl_key := 0, sl_span := 0\<rparr>]) = map sl_lastUse slots" for slots i
    by (cases "i < length slots") (simp_all add: map_update list_update_same_conv list_update_beyond)
  have "rd_clock (discard_assignment sa r) = rd_clock r \<and> map sl_lastUse (rd_slots (discard_assignment sa r)) = map sl_lastUse (rd_slots r) \<and>
      (rd_keyToSlot (discard_assignment sa r) k = Some i \<longrightarrow> rd_keyToSlot r k = Some i)"
    by (auto simp: discard_assignment_def forget_key_def Let_def up split: if_splits)
  then show ?case using Cons.IH [of "discard_assignment sa r"] by (auto simp: discardAssignmentsLocked_def)
qed (simp add: discardAssignmentsLocked_def)

lemma enter_clock: "rd_clock (enter_assignment sa r) = wrapu64 (rd_clock r + 1)"
  by (simp add: enter_assignment_def touchSlotLocked_def forget_key_def Let_def)

lemma enter_timed:
  assumes "keys_ok r" "timed r uses" "sa_slotIndex sa < length (rd_slots r)" "int (length uses) + 1 < 2 ^ 64"
  shows "timed (enter_assignment sa r) (uses @ [sa_key sa])"
proof -
  have c: "wrapu64 (rd_clock r + 1) = int (length uses) + 1" using assms(2) next_use [OF assms(4)] by (simp add: timed_def)
  note E = enter_at [OF assms(1,3)]
  show ?thesis using assms(2,3) unfolding timed_def enter_clock E(3) c
    by (auto simp: resident_def slot_of_def E(1) vacate_def recency_snoc nth_list_update split: option.splits if_splits)
qed

lemma enter_fresh:
  assumes "keys_ok r" "distinct (map sa_slotIndex (sa # sas))" "distinct (map sa_key (sa # sas))" "assigned_slots (sa # sas) \<subseteq> {..<length (rd_slots r)}"
    and "\<forall>s \<in> set (sa # sas). rd_keyToSlot r (sa_key s) = None"
  shows "keys_ok (enter_assignment sa r)" "assigned_slots sas \<subseteq> {..<length (rd_slots (enter_assignment sa r))}"
    "\<forall>s \<in> set sas. rd_keyToSlot (enter_assignment sa r) (sa_key s) = None" "sa_slotIndex sa < length (rd_slots r)" "sa_slotIndex sa \<notin> assigned_slots sas"
proof -
  show i: "sa_slotIndex sa < length (rd_slots r)" "sa_slotIndex sa \<notin> assigned_slots sas" using assms(2,4) by (auto simp: assigned_slots_def)
  note E = enter_at [OF assms(1) i(1)]
  show "keys_ok (enter_assignment sa r)" by (rule enter_keys [OF assms(1) i(1)]) (use assms(5) in simp)
  show "assigned_slots sas \<subseteq> {..<length (rd_slots (enter_assignment sa r))}" using assms(4) by (auto simp: assigned_slots_def E(3))
  have "sa_key s \<noteq> sa_key sa" if "s \<in> set sas" for s using assms(3) that by (auto simp: image_iff)
  then show "\<forall>s \<in> set sas. rd_keyToSlot (enter_assignment sa r) (sa_key s) = None" using assms(5) by (simp add: E(1) vacate_def)
qed

lemma enter_all_timed:
  assumes "keys_ok r" "timed r uses" "distinct (map sa_slotIndex sas)" "distinct (map sa_key sas)" "assigned_slots sas \<subseteq> {..<length (rd_slots r)}"
    and "\<forall>sa \<in> set sas. rd_keyToSlot r (sa_key sa) = None" "int (length uses) + int (length sas) < 2 ^ 64"
  shows "timed (fold enter_assignment sas r) (uses @ map sa_key sas)"
  using assms
proof (induction sas arbitrary: r uses)
  case (Cons sa sas)
  note F = enter_fresh [OF Cons.prems(1,3-6)]
  have "int (length uses) + 1 < 2 ^ 64" using Cons.prems(7) by simp
  note t = enter_timed [OF Cons.prems(1,2) F(4) this]
  have "timed (fold enter_assignment sas (enter_assignment sa r)) ((uses @ [sa_key sa]) @ map sa_key sas)"
    by (rule Cons.IH [OF F(1) t _ _ F(2,3)]) (use Cons.prems in simp_all)
  then show ?case by simp
qed simp

lemma enter_all_keeps:
  assumes "keys_ok r" "distinct (map sa_slotIndex sas)" "distinct (map sa_key sas)" "assigned_slots sas \<subseteq> {..<length (rd_slots r)}"
    and "\<forall>sa \<in> set sas. rd_keyToSlot r (sa_key sa) = None" "rd_keyToSlot r k = Some i" "i \<notin> assigned_slots sas"
  shows "rd_keyToSlot (fold enter_assignment sas r) k = Some i"
  using assms
proof (induction sas arbitrary: r)
  case (Cons sa sas)
  note F = enter_fresh [OF Cons.prems(1-5)]
  have "i \<noteq> sa_slotIndex sa" "k \<noteq> sa_key sa" "i \<notin> assigned_slots sas" using Cons.prems(5-7) by (auto simp: assigned_slots_def)
  then have "rd_keyToSlot (enter_assignment sa r) k = Some i" using Cons.prems(6) by (simp add: enter_at [OF Cons.prems(1) F(4)] vacate_def)
  then show ?case using Cons.IH [OF F(1) _ _ F(2,3)] Cons.prems(2,3) \<open>i \<notin> assigned_slots sas\<close> by simp
qed simp

lemma enter_all_resident:
  assumes "keys_ok r" "distinct (map sa_slotIndex sas)" "distinct (map sa_key sas)" "assigned_slots sas \<subseteq> {..<length (rd_slots r)}"
    and "\<forall>sa \<in> set sas. rd_keyToSlot r (sa_key sa) = None"
  shows "\<forall>sa \<in> set sas. resident (fold enter_assignment sas r) (sa_key sa)"
  using assms
proof (induction sas arbitrary: r)
  case (Cons sa sas)
  note F = enter_fresh [OF Cons.prems]
  have "rd_keyToSlot (enter_assignment sa r) (sa_key sa) = Some (sa_slotIndex sa)" by (simp add: enter_at [OF Cons.prems(1) F(4)])
  then have "rd_keyToSlot (fold enter_assignment sas (enter_assignment sa r)) (sa_key sa) = Some (sa_slotIndex sa)"
    using Cons.prems(2,3) by (intro enter_all_keeps [OF F(1) _ _ F(2,3) _ F(5)]) simp_all
  then show ?case using Cons.IH [OF F(1) _ _ F(2,3)] Cons.prems(2,3) by (simp add: resident_def)
qed simp

lemma assign_parts:
  assumes "assignSlotsLocked r missing keep = Inr sas"
  shows "map sa_key sas = missing" "assigned_slots sas \<subseteq> {..<length (rd_slots r)}" "distinct (map sa_slotIndex sas)"
proof -
  have "map sa_key sas = missing \<and> map sa_slotIndex sas = take (length missing) (slot_candidates (rd_slots r) keep)"
  proof (cases "missing = []")
    case True
    then show ?thesis using assms by (simp add: assignSlotsLocked_def)
  next
    case False
    let ?c = "slot_candidates (rd_slots r) keep"
    have len: "\<not> length ?c < length missing" using assms False by (auto simp: assignSlotsLocked_def Let_def split: if_splits)
    then have l: "list_all2 (\<lambda>x sa. (case x of (key, i) \<Rightarrow> case map_of (rd_experts r) key of None \<Rightarrow> Inl Panic
        | Some layout \<Rightarrow> Inr \<lparr>sa_key = key, sa_layout = layout, sa_slotIndex = i\<rparr>) = Inr sa) (zip missing ?c) sas"
      using assms False by (simp add: assignSlotsLocked_def Let_def res_map_Inr)
    have "list_all2 (\<lambda>x sa. sa_key sa = fst x \<and> sa_slotIndex sa = snd x) (zip missing ?c) sas"
      by (rule list_all2_mono [OF l]) (auto split: option.splits prod.splits)
    then have "map sa_key sas = map fst (zip missing ?c)" "map sa_slotIndex sas = map snd (zip missing ?c)"
      by (induction rule: list_all2_induct) simp_all
    then show ?thesis using len by (simp add: map_fst_zip_take map_snd_zip_take)
  qed
  then show "map sa_key sas = missing" "assigned_slots sas \<subseteq> {..<length (rd_slots r)}" "distinct (map sa_slotIndex sas)"
    using slot_candidates_spec [of "rd_slots r" keep] set_take_subset [of "length missing" "slot_candidates (rd_slots r) keep"]
    unfolding assigned_slots_def set_map [symmetric] by auto
qed

lemma distinct_asked: "distinct (first_asked seen keys) \<and> set (first_asked seen keys) = set keys - seen"
  by (induction keys arbitrary: seen) auto

lemma load_timed:
  assumes "keys_ok r" "\<not> rd_closed r" "timed r uses" "loadLocked os done_in keys (r, w) = (res, (r', w'))"
    and "int (length uses) + int (length (uses_of r keys r')) < 2 ^ 64"
  shows "timed r' (uses @ uses_of r keys r')"
proof (cases "keys = []")
  case True
  then show ?thesis using assms(2-4) by (simp add: loadLocked_def uses_of_def)
next
  case False
  define hits where "hits = filter (resident r) (takeWhile (\<lambda>k. map_of (rd_experts r) k \<noteq> None) (first_asked {} keys))"
  obtain sres r1 where sc: "scan_keys keys [] [] [] r = (sres, r1)" by (metis prod.collapse)
  have "same_slots r r1"
    using scan_keys_spec [OF assms(1), of keys "[]" sres r1, simplified, OF sc] by (auto simp: touched_only_def)
  then have f: "load_frame r1 = load_frame r" "rd_keyToSlot r1 = rd_keyToSlot r" and k1: "keys_ok r1"
    using same_slots_keys assms(1) by (auto simp: same_slots_def)
  have hl: "int (length uses) + int (length hits) < 2 ^ 64" using assms(5) by (simp add: uses_of_def hits_def)
  have t1: "timed r1 (uses @ hits)" by (rule scan_timed [OF assms(1,3) sc _ hl]) (simp add: hits_def)
  have hits_only: "uses_of r keys x = hits" if "\<And>k i. rd_keyToSlot x k = Some i \<Longrightarrow> rd_keyToSlot r k = Some i" for x
  proof -
    have "\<not> (\<not> resident r k \<and> resident x k)" for k using that by (auto simp: resident_def)
    then have "filter (\<lambda>k. \<not> resident r k \<and> resident x k) (first_asked {} keys) = []" by (simp add: filter_empty_conv)
    then show ?thesis by (simp add: uses_of_def hits_def)
  qed
  show ?thesis
  proof (cases "r' = r1")
    case True
    then show ?thesis using t1 hits_only [of r1] f by simp
  next
    case moved: False
    then obtain u missing keep sas where u: "sres = Inr (u, missing, keep)" "assignSlotsLocked r1 missing keep = Inr sas"
      "\<not> length u > length (rd_slots r1)" using assms(2,4) False sc by (auto simp: loadLocked_def split: sum.splits prod.splits if_splits)
    obtain lres r2 w2 where ld: "loadAssignmentsLocked os (done_in sas) (r1, w) = (lres, (r2, w2))" by (metis prod.collapse)
    note same = load_assignments_same [OF ld]
    then have L: "rd_clock r2 = rd_clock r1" "rd_keyToSlot r2 = rd_keyToSlot r1" by (simp_all add: same_keys_def)
    note S = same_keys_ok [OF same]
    have t2: "timed r2 (uses @ hits)" by (rule timed_mono [OF k1 t1]) (use L S in simp_all)
    have r': "r' = (case lres of Inl _ \<Rightarrow> discardAssignmentsLocked sas r2 | Inr _ \<Rightarrow> fold enter_assignment sas r2)"
      using assms(2,4) False sc u ld by (auto simp: loadLocked_def Let_def split: sum.splits)
    have k2: "keys_ok r2" using S(1) k1 by simp
    show ?thesis
    proof (cases lres)
      case (Inl e)
      then have d: "r' = discardAssignmentsLocked sas r2" by (simp add: r')
      have "timed r' (uses @ hits)" unfolding d by (rule timed_mono [OF k2 t2]) (use discard_times [of sas r2] in auto)
      moreover have "uses_of r keys r' = hits" by (rule hits_only) (use discard_times [of sas r2] L f in \<open>simp add: d\<close>)
      ultimately show ?thesis by simp
    next
      case (Inr x)
      then have e: "r' = fold enter_assignment sas r2" by (simp add: r')
      have m: "missing = filter (\<lambda>k. \<not> resident r k) (first_asked {} keys)" using scan_asked [OF sc [unfolded u(1)]] by simp
      note A = assign_parts [OF u(2)]
      have fresh: "\<forall>sa \<in> set sas. rd_keyToSlot r2 (sa_key sa) = None"
      proof
        fix sa assume "sa \<in> set sas"
        then have "sa_key sa \<in> set missing" unfolding A(1) [symmetric] by simp
        then show "rd_keyToSlot r2 (sa_key sa) = None" using L f by (simp add: m resident_def)
      qed
      have dm: "distinct (map sa_key sas)" unfolding A(1) m using distinct_asked by simp
      have len2: "assigned_slots sas \<subseteq> {..<length (rd_slots r2)}" using A(2) S(3) by simp
      let ?new = "filter (\<lambda>k. \<not> resident r k \<and> resident r' k) (first_asked {} keys)"
      have room: "int (length (uses @ hits)) + int (length sas) < 2 ^ 64" if "length ?new = length sas"
        using assms(5) that by (simp add: uses_of_def hits_def)
      have new: "?new = missing" if "\<forall>sa \<in> set sas. resident r' (sa_key sa)"
      proof -
        have "resident r' k" if "k \<in> set missing" for k using that \<open>\<forall>sa \<in> set sas. resident r' (sa_key sa)\<close> unfolding A(1) [symmetric] by auto
        then show ?thesis unfolding m by (intro filter_cong [OF refl]) auto
      qed
      have all: "\<forall>sa \<in> set sas. resident r' (sa_key sa)" unfolding e by (rule enter_all_resident [OF k2 A(3) dm len2 fresh])
      have "length sas = length missing" using A(1) by (metis length_map)
      then have "timed r' ((uses @ hits) @ map sa_key sas)" unfolding e
        by (intro enter_all_timed [OF k2 t2 A(3) dm len2 fresh] room) (use new [OF all] in simp)
      then show ?thesis using new [OF all] by (simp add: A(1) uses_of_def hits_def)
    qed
  qed
qed

section \<open>Histories\<close>

lemma timed_start: "rd_clock r = 0 \<Longrightarrow> rd_keyToSlot r = Map.empty \<Longrightarrow> timed r []"
  by (simp add: timed_def resident_def)

lemma reader_Open_start:
  assumes "reader_Open os sha256 decode lower page path opts w0 = (Inr r0, w1)"
  shows "rd_clock r0 = 0 \<and> rd_keyToSlot r0 = Map.empty"
  using assms by (auto simp: reader_Open_def io_bind_def io_lift_def Let_def split: if_splits sum.splits prod.splits)

end
