(* ===== verification/OpenFacts.thy ===== *)
theory OpenFacts
  imports ReaderUses
begin

text \<open>
  Opening a reader: which readers come out, how large and where their slots are, and what happens to open files
  and mappings. \<open>tracked\<close> adds to a world the files that are open and the mappings that exist, so that
  every release can be counting_reads; a file or mapping counts as released once the call that gives it back was
  made, whatever that call returns.
\<close>

section \<open>The reader that comes out\<close>

definition decoded_fits :: "manifest \<Rightarrow> bool" where
  "decoded_fits m \<longleftrightarrow> in_int64 (mf_Layers m) \<and> in_int64 (mf_Experts m) \<and> in_int64 (mf_Alignment m) \<and> in_int64 (int (length (mf_Entries m))) \<and>
     (\<forall>e \<in> set (mf_Entries m). entry_fits e) \<and> (\<forall>f \<in> set (mf_Files m). in_int64 (df_Size f))"

text \<open>The JSON decoder stores numbers in 64-bit fields.\<close>

definition decodes_int64 :: "(string \<Rightarrow> go_error + manifest) \<Rightarrow> bool" where
  "decodes_int64 decode \<longleftrightarrow> (\<forall>blob m. decode blob = Inr m \<longrightarrow> decoded_fits m)"

definition is_open :: "data_file list \<Rightarrow> string \<times> 'h file_ref \<Rightarrow> bool" where
  "is_open specs kf \<longleftrightarrow> fr_spec (snd kf) \<in> set specs \<and> fst kf = df_ID (fr_spec (snd kf)) \<and> fr_file (snd kf) \<noteq> None"

lemma open_file_ok: "open_file os sha256 baseDir out spec w = (Inr f, w') \<Longrightarrow> fr_spec f = spec \<and> fr_file f \<noteq> None"
  by (auto simp: open_file_def go_res io_case_eq Let_def split: if_split_asm sum.split_asm)

lemma open_files_from:
  assumes "open_files os sha256 baseDir specs out w = (Inr files, w')" "kf \<in> set files"
  shows "kf \<in> set out \<or> (\<exists>spec \<in> set specs. \<exists>out' v v'. fst kf = df_ID spec \<and> open_file os sha256 baseDir out' spec v = (Inr (snd kf), v'))"
  using assms
proof (induction specs arbitrary: out w)
  case (Cons spec rest)
  obtain f w1 where f: "open_file os sha256 baseDir out spec w = (Inr f, w1)" "open_files os sha256 baseDir rest (out @ [(df_ID spec, f)]) w1 = (Inr files, w')"
    using Cons.prems(1) by (auto simp: io_case_eq)
  from Cons.IH [OF f(2) Cons.prems(2)] show ?case
  proof
    assume "kf \<in> set (out @ [(df_ID spec, f)])"
    then show ?thesis using f(1) by auto
  qed auto
qed simp

lemma validateAndOpenFiles_from:
  assumes "validateAndOpenFiles os sha256 baseDir specs w = (Inr files, w')" "kf \<in> set files"
  shows "\<exists>spec \<in> set specs. \<exists>out' v v'. fst kf = df_ID spec \<and> open_file os sha256 baseDir out' spec v = (Inr (snd kf), v')"
proof -
  have "open_files os sha256 baseDir specs [] w = (Inr files, w')" using assms(1) by (cases "specs = []") (simp_all add: validateAndOpenFiles_def)
  from open_files_from [OF this assms(2)] show ?thesis by simp
qed

lemma validateAndOpenFiles_ok: "validateAndOpenFiles os sha256 baseDir specs w = (Inr files, w') \<Longrightarrow> \<forall>kf \<in> set files. is_open specs kf"
proof
  fix kf assume a: "validateAndOpenFiles os sha256 baseDir specs w = (Inr files, w')" "kf \<in> set files"
  from validateAndOpenFiles_from [OF a] obtain spec out' v v' where s: "spec \<in> set specs" "fst kf = df_ID spec"
      "open_file os sha256 baseDir out' spec v = (Inr (snd kf), v')"
    by (elim bexE exE conjE)
  then show "is_open specs kf" using open_file_ok [OF s(3)] by (simp add: is_open_def)
qed

text \<open>The size that the operating system reports is the length of the file.\<close>

definition stats_length :: "('w, 'h) os_ops \<Rightarrow> ('h \<Rightarrow> string) \<Rightarrow> bool" where
  "stats_length os content \<longleftrightarrow> (\<forall>h w n w'. os_Stat os h w = (Inr n, w') \<longrightarrow> n = int (length (content h)))"

definition sized :: "('h \<Rightarrow> string) \<Rightarrow> 'h file_ref \<Rightarrow> bool" where
  "sized content f \<longleftrightarrow> int (length (content (the (fr_file f)))) = df_Size (fr_spec f)"

lemma check_file_size:
  assumes "stats_length os content" "check_file os sha256 spec hash h w = (Inr x, w')"
  shows "int (length (content h)) = df_Size spec"
proof -
  obtain v where "os_Stat os h w = (Inr (df_Size spec), v)" using assms(2) by (auto simp: check_file_def go_res split: if_split_asm)
  then show ?thesis using assms(1) unfolding stats_length_def by metis
qed

lemma open_file_sized:
  assumes "stats_length os content" "open_file os sha256 baseDir out spec w = (Inr f, w')"
  shows "sized content f"
  using assms(2) check_file_size [OF assms(1)] by (auto simp: open_file_def go_res io_case_eq Let_def sized_def split: if_split_asm sum.split_asm)

lemma validateAndOpenFiles_sized:
  "stats_length os content \<Longrightarrow> validateAndOpenFiles os sha256 baseDir specs w = (Inr files, w') \<Longrightarrow> \<forall>kf \<in> set files. sized content (snd kf)"
proof
  fix kf assume a: "stats_length os content" "validateAndOpenFiles os sha256 baseDir specs w = (Inr files, w')" "kf \<in> set files"
  from validateAndOpenFiles_from [OF a(2,3)] obtain spec out' v v' where "open_file os sha256 baseDir out' spec v = (Inr (snd kf), v')"
    by (elim bexE exE conjE)
  then show "sized content (snd kf)" by (rule open_file_sized [OF a(1)])
qed

lemma reader_Open_sized:
  assumes "stats_length os content" "reader_Open os sha256 decode lower page path opts w = (Inr r, w')"
  shows "\<forall>kf \<in> set (rd_files r). sized content (snd kf)"
proof -
  obtain m files experts maxSpan w1 where o: "openManifest os sha256 decode lower path w = (Inr (m, files, experts, maxSpan), w1)" "rd_files r = files"
    using assms(2) by (auto simp: reader_Open_def go_res io_case_eq sum_case_eq Let_def split: if_split_asm)
  obtain w2 where "validateAndOpenFiles os sha256 (os_Dir os path) (mf_Files m) w2 = (Inr files, w1)"
    using o(1) by (auto simp: openManifest_def go_res sum_case_eq split: prod.split_asm)
  then show ?thesis using validateAndOpenFiles_sized [OF assms(1)] o(2) by blast
qed

lemma open_manifest_ok:
  assumes "decodes_int64 decode" "openManifest os sha256 decode lower path w = (Inr (m, files, experts, maxSpan), w')"
  shows "manifest_ok lower m files \<and> decoded_fits m \<and> experts = entry_layouts m \<and> maxSpan = Max ((\<lambda>e. entry_end e - entry_start e) ` set (mf_Entries m)) \<and>
    (\<forall>kf \<in> set files. is_open (mf_Files m) kf)"
proof -
  obtain blob w1 where m: "decode blob = Inr m" "validateAndOpenFiles os sha256 (os_Dir os path) (mf_Files m) w1 = (Inr files, w')"
      "validateManifest lower m files = Inr (experts, maxSpan)"
    using assms(2) by (auto simp: openManifest_def go_res sum_case_eq split: prod.split_asm)
  have fit: "decoded_fits m" using assms(1) m(1) by (auto simp: decodes_int64_def)
  note op = validateAndOpenFiles_ok [OF m(2)]
  have "in_int64 (df_Size (fr_spec f))" if "map_of files fid = Some f" for fid f
    using map_of_SomeD [OF that] op fit by (auto simp: is_open_def decoded_fits_def)
  then have "manifest_fits m files" using fit by (simp add: manifest_fits_def decoded_fits_def)
  then show ?thesis using m(3) fit op by (simp add: validateManifest_iff)
qed

lemma entry_layouts_map: "distinct (map es_Key (mf_Entries m)) \<Longrightarrow> map_of (entry_layouts m) k = Some lo \<longleftrightarrow> (\<exists>e \<in> set (mf_Entries m). es_Key e = k \<and> lo = entry_layout_of e)"
proof -
  assume d: "distinct (map es_Key (mf_Entries m))"
  then have "distinct (map fst (entry_layouts m))" by (simp add: entry_layouts_def comp_def)
  then have "map_of (entry_layouts m) k = Some lo \<longleftrightarrow> (k, lo) \<in> set (entry_layouts m)" by simp
  then show ?thesis by (auto simp: entry_layouts_def)
qed

text \<open>The slots that are allocated: empty, numbered and of the right size.\<close>

definition fresh_slot :: "int \<Rightarrow> int \<Rightarrow> expert_slot \<Rightarrow> bool" where
  "fresh_slot sz alignment sl \<longleftrightarrow> \<not> sl_loaded sl \<and> int (length (sl_buf sl)) = sz \<and> sl_lastUse sl = 0 \<and>
     (\<exists>base. sl_raw sl = Some (base, sz + alignment - 1) \<and> (0 \<le> base \<and> base + (sz + alignment - 1) \<le> max_uint64 \<longrightarrow>
        sl_addr sl mod alignment = 0 \<and> base \<le> sl_addr sl \<and> sl_addr sl + sz \<le> base + (sz + alignment - 1)))"

lemma allocAligned_ok:
  assumes "allocAligned os sz alignment w = (Inr (raw, addr, buf), w')" "in_int64 sz" "in_int64 alignment"
  shows "0 < sz \<and> isPowerOfTwo alignment \<and> sz + alignment - 1 \<le> max_int64 \<and> int (length buf) = sz \<and>
    (\<exists>base w1. os_Mmap os (sz + alignment - 1) w = (Inr base, w1) \<and> raw = (base, sz + alignment - 1) \<and>
      (0 \<le> base \<and> base + (sz + alignment - 1) \<le> max_uint64 \<longrightarrow> addr mod alignment = 0 \<and> base \<le> addr \<and> addr + sz \<le> base + (sz + alignment - 1)))"
proof -
  have pos: "0 < sz" "isPowerOfTwo alignment" using assms(1) by (auto simp: allocAligned_def split: if_splits)
  then have al: "0 < alignment" by (simp add: isPowerOfTwo_def)
  then have fit: "in_int64 (alignment - 1)" using assms(3) by (simp add: go_int)
  obtain base w1 where c: "in_int64 (sz + (alignment - 1))" "os_Mmap os (sz + (alignment - 1)) w = (Inr base, w1)" "raw = (base, sz + (alignment - 1))"
      "addr = wrapu64 (base + wrap64 (alignPtr base alignment - base))" "buf = replicate (nat sz) (chr 0)" "0 \<le> wrap64 (alignPtr base alignment - base)"
    using assms(1) pos by (auto simp: allocAligned_def go_res sum_Inr [OF assms(2) fit] Let_def io_case_eq split: if_split_asm)
  let ?a = "alignment * ((base + alignment - 1) div alignment)"
  have "addr mod alignment = 0 \<and> base \<le> addr \<and> addr + sz \<le> base + (sz + alignment - 1)" if "0 \<le> base" "base + (sz + alignment - 1) \<le> max_uint64"
  proof -
    have a: "alignPtr base alignment = ?a" using alignPtr_spec [OF pos(2) that(1)] that(2) pos(1) by simp
    note R = round_up(2,3) [OF al, of base]
    have d: "wrap64 (?a - base) = ?a - base" using R assms(3) by (intro wrap64_id) (simp add: go_int)
    have "addr = ?a" using c(4) R that pos(1) unfolding a d by (simp add: wrapu64_def go_int)
    then show ?thesis using R by simp
  qed
  then show ?thesis using pos c al by (auto simp: go_int add_diff_eq)
qed

lemma alloc_slots_ok:
  assumes "alloc_slots os sz alignment n slots w = (Inr slots', w')" "in_int64 sz" "in_int64 alignment"
    and "\<forall>i < length slots. fresh_slot sz alignment (slots ! i) \<and> sl_index (slots ! i) = i"
  shows "length slots' = length slots + n \<and> (\<forall>i < length slots'. fresh_slot sz alignment (slots' ! i) \<and> sl_index (slots' ! i) = i)"
  using assms(1,4)
proof (induction n arbitrary: slots w)
  case (Suc n)
  obtain raw addr buf w1 where a: "allocAligned os sz alignment w = (Inr (raw, addr, buf), w1)" using Suc.prems(1) by (auto simp: io_case_eq)
  let ?sl = "\<lparr>sl_index = length slots, sl_raw = Some raw, sl_addr = addr, sl_buf = buf, sl_loaded = False, sl_key = 0, sl_span = 0, sl_lastUse = 0\<rparr>"
  have "fresh_slot sz alignment ?sl" using allocAligned_ok [OF a assms(2,3)] by (auto simp: fresh_slot_def)
  then have "\<forall>i < length (slots @ [?sl]). fresh_slot sz alignment ((slots @ [?sl]) ! i) \<and> sl_index ((slots @ [?sl]) ! i) = i"
    using Suc.prems(2) by (auto simp: nth_append less_Suc_eq)
  from Suc.IH [OF _ this] Suc.prems(1) a show ?case by simp
qed simp

lemma slot_sizes_ok:
  assumes "slot_sizes page maxSpan alignment slots budget = Inr sz" "isPowerOfTwo alignment" "isPowerOfTwo page" "in_int64 alignment" "in_int64 page"
    and "0 < maxSpan" "in_int64 maxSpan" "0 < slots" "in_int64 slots"
  shows "maxSpan \<le> sz \<and> in_int64 sz \<and> slots * (page * ((sz + alignment + page - 1) div page)) \<le> budget"
proof -
  have p: "0 < alignment" "0 < page" using assms(2,3) by (simp_all add: isPowerOfTwo_def)
  obtain mb mapped t where c: "alignUp maxSpan alignment = Inr sz" "checkedAdd sz alignment = Inr mb" "alignUp mb page = Inr mapped" "checkedProduct mapped slots = Inr t" "t \<le> budget"
    using assms(1) by (auto simp: slot_sizes_def go_res sum_case_eq split: if_split_asm)
  have sz: "sz = alignment * ((maxSpan + alignment - 1) div alignment)" "maxSpan + alignment - 1 \<le> max_int64"
    using c(1) assms(6) alignUp_spec [OF assms(2) _ assms(7,4)] by (simp_all split: if_split_asm)
  note R = round_up(2,3) [OF p(1), of maxSpan, folded sz(1)]
  have szf: "in_int64 sz" "0 < sz" using R sz(2) assms(6) by (auto simp: go_int)
  have mb: "in_int64 mb" "mb = sz + alignment" using c(2) sum_Inr [OF szf(1) assms(4)] by simp_all
  have up: "mapped = page * ((sz + alignment + page - 1) div page)" "sz + alignment + page - 1 \<le> max_int64"
    using c(3) alignUp_spec [OF assms(3) _ mb(1) assms(5)] szf(2) p mb(2) by (simp_all split: if_split_asm)
  have m: "0 < mapped" "in_int64 mapped" using round_up(2,3) [OF p(2), of "sz + alignment", folded up(1)] up(2) szf p by (auto simp: go_int)
  have "mapped * slots \<le> budget" using c(4,5) product_Inr [OF m(1) assms(8) m(2) assms(9)] by simp
  then show ?thesis using R szf by (simp add: mult.commute up(1))
qed

lemma layout_of_entry:
  assumes "manifest_ok lower m files" "e \<in> set (mf_Entries m)" "\<forall>kf \<in> set files. is_open (mf_Files m) kf" "decoded_fits m"
    and "rd_files r = files" "entry_end e - entry_start e \<le> rd_slotSize r"
  shows "layout_in r (entry_layout_of e)"
proof -
  have ok: "expert_entry_ok lower (mf_Alignment m) files e" using assms(1,2) by (simp add: manifest_ok_def)
  then obtain f where f: "map_of files (es_File e) = Some f" "entry_end e \<le> df_Size (fr_spec f)" by (auto simp: expert_entry_ok_def)
  have o: "fr_spec f \<in> set (mf_Files m)" "fr_file f \<noteq> None" using map_of_SomeD [OF f(1)] assms(3) by (auto simp: is_open_def)
  then have "df_Size (fr_spec f) \<le> max_int64" using assms(4) by (auto simp: decoded_fits_def go_int)
  then have "entry_end e \<le> max_int64" using f(2) by simp
  then show ?thesis using ok f(1) o(2) component_bounds [of lower "es_Gate e" "''gate''"] component_bounds [of lower "es_Up e" "''up''"]
      component_bounds [of lower "es_Down e" "''down''"] assms(5,6)
    by (auto simp: layout_in_def entry_layout_of_def expert_entry_ok_def entry_end_def Let_def)
qed

lemma reader_Open_ok:
  assumes "decodes_int64 decode" "isPowerOfTwo page" "in_int64 page" "reader_Open os sha256 decode lower page path opts w = (Inr r, w')"
  shows "reader_ok content r \<and> decoded_fits (rd_manifest r) \<and> manifest_ok lower (rd_manifest r) (rd_files r) \<and> rd_experts r = entry_layouts (rd_manifest r) \<and>
    (\<forall>kf \<in> set (rd_files r). is_open (mf_Files (rd_manifest r)) kf) \<and> (\<forall>k. rd_keyToSlot r k = None) \<and>
    int (length (rd_slots r)) = op_Slots opts \<and> in_int64 (rd_slotSize r) \<and>
    (\<forall>i < length (rd_slots r). fresh_slot (rd_slotSize r) (mf_Alignment (rd_manifest r)) (rd_slots r ! i) \<and> sl_index (rd_slots r ! i) = i) \<and>
    op_Slots opts * (page * ((rd_slotSize r + mf_Alignment (rd_manifest r) + page - 1) div page)) \<le>
      (if op_MaxSlotBytes opts = 0 then DefaultMaxSlotBytes else op_MaxSlotBytes opts)"
proof -
  obtain m files experts maxSpan w1 sz slots where o: "0 < op_Slots opts" "op_Slots opts \<le> 65536" "openManifest os sha256 decode lower path w = (Inr (m, files, experts, maxSpan), w1)"
      "slot_sizes page maxSpan (mf_Alignment m) (op_Slots opts) (if op_MaxSlotBytes opts = 0 then DefaultMaxSlotBytes else op_MaxSlotBytes opts) = Inr sz"
      "alloc_slots os sz (mf_Alignment m) (nat (op_Slots opts)) [] w1 = (Inr slots, w')"
      "r = \<lparr>rd_closed = False, rd_manifest = m, rd_alignment = mf_Alignment m, rd_slotSize = sz, rd_workers = (if op_Workers opts \<le> 0 then 1 else op_Workers opts),
         rd_files = files, rd_experts = experts, rd_slots = slots, rd_keyToSlot = Map.empty, rd_clock = 0\<rparr>"
    using assms(4) by (auto simp: reader_Open_def go_res io_case_eq sum_case_eq Let_def split: if_split_asm)
  have M: "manifest_ok lower m files" "decoded_fits m" "experts = entry_layouts m" "maxSpan = Max ((\<lambda>e. entry_end e - entry_start e) ` set (mf_Entries m))"
      "\<forall>kf \<in> set files. is_open (mf_Files m) kf" using open_manifest_ok [OF assms(1) o(3)] by simp_all
  have al: "isPowerOfTwo (mf_Alignment m)" "in_int64 (mf_Alignment m)" "distinct (map es_Key (mf_Entries m))" using M(1,2) by (simp_all add: manifest_ok_def decoded_fits_def)
  have span_le: "entry_end e - entry_start e \<le> maxSpan" if "e \<in> set (mf_Entries m)" for e unfolding M(4) using that by (intro Max_ge) simp_all
  have "0 < int (length (mf_Entries m))" using M(1) by (simp add: manifest_ok_def)
  then have ne: "mf_Entries m \<noteq> []" by auto
  then have "maxSpan \<in> (\<lambda>e. entry_end e - entry_start e) ` set (mf_Entries m)" unfolding M(4) by (intro Max_in) simp_all
  then obtain e0 where e0: "e0 \<in> set (mf_Entries m)" "maxSpan = entry_end e0 - entry_start e0" by blast
  have lay0: "layout_in (r\<lparr>rd_slotSize := maxSpan\<rparr>) (entry_layout_of e0)" by (rule layout_of_entry [OF M(1) e0(1) M(5,2)]) (simp_all add: o(6) e0(2))
  have sp: "0 < maxSpan" "in_int64 maxSpan"
  proof -
    have "expert_entry_ok lower (mf_Alignment m) files e0" using M(1) e0(1) by (simp add: manifest_ok_def)
    then have "0 \<le> entry_start e0" "entry_start e0 < entry_end e0" using entry_span_pos by blast+
    then show "0 < maxSpan" "in_int64 maxSpan" using lay0 e0(2) by (auto simp: layout_in_def entry_layout_of_def Let_def go_int)
  qed
  have S: "maxSpan \<le> sz" "in_int64 sz" "op_Slots opts * (page * ((sz + mf_Alignment m + page - 1) div page)) \<le> (if op_MaxSlotBytes opts = 0 then DefaultMaxSlotBytes else op_MaxSlotBytes opts)"
    using slot_sizes_ok [OF o(4) al(1) assms(2) al(2) assms(3) sp] o(1,2) by (simp_all add: go_int)
  have A: "length slots = nat (op_Slots opts)" "\<forall>i < length slots. fresh_slot sz (mf_Alignment m) (slots ! i) \<and> sl_index (slots ! i) = i"
    using alloc_slots_ok [OF o(5) S(2) al(2)] by simp_all
  have "layouts_ok r" unfolding layouts_ok_def
  proof (intro conjI allI impI)
    show "\<not> rd_closed r" by (simp add: o(6))
    fix k lo assume "map_of (rd_experts r) k = Some lo"
    then obtain e where e: "e \<in> set (mf_Entries m)" "es_Key e = k" "lo = entry_layout_of e" using entry_layouts_map [OF al(3)] by (auto simp: o(6) M(3))
    then show "es_Key (el_spec lo) = k" by (simp add: entry_layout_of_def)
    show "layout_in r lo" unfolding e(3) using span_le [OF e(1)] S(1) by (intro layout_of_entry [OF M(1) e(1) M(5,2)]) (simp_all add: o(6))
  qed
  moreover have "slots_ok r" "keys_ok r" "contents_ok content {} r" using A by (auto simp: o(6) slots_ok_def keys_ok_def contents_ok_def fresh_slot_def)
  ultimately show ?thesis using M(1,2,3,5) A S o(1,6) by (simp add: ok_except_def)
qed

lemma reader_Open_long:
  assumes "decodes_int64 decode" "isPowerOfTwo page" "in_int64 page" "stats_length os content" "reader_Open os sha256 decode lower page path opts w = (Inr r, w')"
  shows "files_long content r"
  unfolding files_long_def
proof (intro allI impI)
  fix k lo assume lo: "map_of (rd_experts r) k = Some lo"
  note O = reader_Open_ok [OF assms(1-3,5)]
  have m: "manifest_ok lower (rd_manifest r) (rd_files r)" "rd_experts r = entry_layouts (rd_manifest r)" using O by simp_all
  then have "distinct (map es_Key (mf_Entries (rd_manifest r)))" by (simp add: manifest_ok_def)
  then obtain e where e: "e \<in> set (mf_Entries (rd_manifest r))" "lo = entry_layout_of e" using entry_layouts_map lo m(2) by metis
  then obtain f where f: "map_of (rd_files r) (es_File e) = Some f" "entry_end e \<le> df_Size (fr_spec f)" using m(1) by (auto simp: manifest_ok_def expert_entry_ok_def)
  have "sized content f" using reader_Open_sized [OF assms(4,5)] map_of_SomeD [OF f(1)] by fastforce
  then show "entry_start (el_spec lo) + el_span lo \<le> int (length (content (handle_of r (es_File (el_spec lo)))))"
    using f by (simp add: e(2) entry_layout_of_def handle_of_def sized_def)
qed

section \<open>Files and mappings\<close>

type_synonym ('w, 'h) tracked_world = "'h multiset \<times> (int \<times> int) multiset \<times> 'w"

definition held_open :: "('w, 'h) tracked_world \<Rightarrow> 'h multiset \<times> (int \<times> int) multiset" where
  "held_open w = (fst w, fst (snd w))"

definition pass :: "('w, 'a) io \<Rightarrow> (('w, 'h) tracked_world, 'a) io" where
  "pass m = (\<lambda>(hs, ms, w). case m w of (r, w') \<Rightarrow> (r, (hs, ms, w')))"

definition tracked :: "('w, 'h) os_ops \<Rightarrow> (('w, 'h) tracked_world, 'h) os_ops" where
  "tracked os = \<lparr>os_ReadFile = \<lambda>p. pass (os_ReadFile os p), os_Dir = os_Dir os, os_Join = os_Join os,
     os_Open = (\<lambda>p (hs, ms, w). case os_Open os p w of (r, w') \<Rightarrow> (r, ((case r of Inl _ \<Rightarrow> hs | Inr h \<Rightarrow> add_mset h hs), ms, w'))),
     os_Stat = \<lambda>h. pass (os_Stat os h), os_Seek = \<lambda>h. pass (os_Seek os h), os_ReadAll = \<lambda>h. pass (os_ReadAll os h),
     os_ReadAt = (\<lambda>h n off (hs, ms, w). case os_ReadAt os h n off w of (r, w') \<Rightarrow> (r, (hs, ms, w'))),
     os_Close = (\<lambda>h (hs, ms, w). case os_Close os h w of (r, w') \<Rightarrow> (r, (hs - {#h#}, ms, w'))),
     os_Mmap = (\<lambda>len (hs, ms, w). case os_Mmap os len w of (r, w') \<Rightarrow> (r, (hs, (case r of Inl _ \<Rightarrow> ms | Inr base \<Rightarrow> add_mset (base, len) ms), w'))),
     os_Munmap = (\<lambda>base len (hs, ms, w). case os_Munmap os base len w of (r, w') \<Rightarrow> (r, (hs, ms - {#(base, len)#}, w')))\<rparr>"

lemma pass_held: "pass m w = (r, w') \<Longrightarrow> held_open w' = held_open w"
  by (auto simp: pass_def held_open_def split: prod.splits)

lemma tracked_held:
  "os_ReadFile (tracked os) p w = (r1, w') \<Longrightarrow> held_open w' = held_open w"
  "os_Stat (tracked os) h w = (r2, w') \<Longrightarrow> held_open w' = held_open w"
  "os_Seek (tracked os) h w = (r3, w') \<Longrightarrow> held_open w' = held_open w"
  "os_ReadAll (tracked os) h w = (r1, w') \<Longrightarrow> held_open w' = held_open w"
  "os_ReadAt (tracked os) h n off w = (r4, w') \<Longrightarrow> held_open w' = held_open w"
  by (auto simp: tracked_def held_open_def dest: pass_held split: prod.splits)

lemma tracked_changes:
  "os_Open (tracked os) p w = (r, w') \<Longrightarrow> held_open w' = (case r of Inl _ \<Rightarrow> held_open w | Inr h \<Rightarrow> (add_mset h (fst (held_open w)), snd (held_open w)))"
  "os_Close (tracked os) h w = (r5, w') \<Longrightarrow> held_open w' = (fst (held_open w) - {#h#}, snd (held_open w))"
  "os_Mmap (tracked os) len w = (r6, w') \<Longrightarrow> held_open w' = (case r6 of Inl _ \<Rightarrow> held_open w | Inr base \<Rightarrow> (fst (held_open w), add_mset (base, len) (snd (held_open w))))"
  "os_Munmap (tracked os) base len w = (r5, w') \<Longrightarrow> held_open w' = (fst (held_open w), snd (held_open w) - {#(base, len)#})"
  by (auto simp: tracked_def held_open_def split: prod.splits sum.splits)

definition handles :: "(string \<times> 'h file_ref) list \<Rightarrow> 'h multiset" where
  "handles files = mset (List.map_filter (\<lambda>kf. fr_file (snd kf)) files)"

definition mappings :: "expert_slot list \<Rightarrow> (int \<times> int) multiset" where
  "mappings slots = mset (List.map_filter sl_raw slots)"

lemma handles_simps [simp]: "handles [] = {#}" "handles (kf # files) = (case fr_file (snd kf) of None \<Rightarrow> handles files | Some h \<Rightarrow> add_mset h (handles files))"
    "handles (xs @ ys) = handles xs + handles ys"
  by (simp_all add: handles_def map_filter_def split: option.splits)

lemma mappings_simps [simp]: "mappings [] = {#}" "mappings (sl # slots) = (case sl_raw sl of None \<Rightarrow> mappings slots | Some m \<Rightarrow> add_mset m (mappings slots))"
    "mappings (xs @ ys) = mappings xs + mappings ys"
  by (simp_all add: mappings_def map_filter_def split: option.splits)

lemma closeFiles_held: "held_open (closeFiles (tracked os) files w) = (fst (held_open w) - handles files, snd (held_open w))"
proof (induction files arbitrary: w)
  case Nil
  then show ?case by (simp add: closeFiles_def)
next
  case (Cons kf files)
  obtain fid f where kf: "kf = (fid, f)" by (cases kf)
  show ?case
  proof (cases "fr_file f")
    case None
    then show ?thesis using Cons.IH by (simp add: closeFiles_def kf)
  next
    case (Some h)
    have "held_open (closeFile (tracked os) h w) = (fst (held_open w) - {#h#}, snd (held_open w))"
      unfolding closeFile_def by (rule tracked_changes(2)) (rule prod.collapse [symmetric])
    then show ?thesis using Cons.IH [of "closeFile (tracked os) h w"] Some by (simp add: closeFiles_def kf)
  qed
qed

lemma free_slots_held: "held_open (free_slots (tracked os) slots w) = (fst (held_open w), snd (held_open w) - mappings slots)"
proof (induction slots arbitrary: w)
  case Nil
  then show ?case by (simp add: free_slots_def)
next
  case (Cons sl slots)
  show ?case
  proof (cases "sl_raw sl")
    case None
    then show ?thesis using Cons.IH by (simp add: free_slots_def freeAligned_def)
  next
    case (Some m)
    obtain base len where m: "m = (base, len)" by (cases m)
    have "held_open (snd (os_Munmap (tracked os) base len w)) = (fst (held_open w), snd (held_open w) - {#m#})"
      unfolding m by (rule tracked_changes(4)) (rule prod.collapse [symmetric])
    then show ?thesis using Cons.IH [of "snd (os_Munmap (tracked os) base len w)"] Some m by (simp add: free_slots_def freeAligned_def)
  qed
qed

lemma check_file_held: "check_file (tracked os) sha256 spec hash h w = (r, w') \<Longrightarrow> held_open w' = held_open w"
  by (auto simp: check_file_def hashFileSHA256_def io_bind_def dest!: tracked_held split: prod.splits sum.splits if_splits)

lemma open_file_held:
  assumes "open_file (tracked os) sha256 baseDir out spec w = (r, w')"
  shows "r = Inl e \<Longrightarrow> held_open w' = held_open w" "r = Inr f \<Longrightarrow> held_open w' = (fst (held_open w) + handles [(fid, f)], snd (held_open w))"
proof -
  let ?path = "if IsAbs (df_Path spec) then df_Path spec else os_Join os baseDir (df_Path spec)"
  have closed: "held_open (closeFile (tracked os) h v) = (fst (held_open v) - {#h#}, snd (held_open v))" for h v
    unfolding closeFile_def by (rule tracked_changes(2)) (rule prod.collapse [symmetric])
  have join: "os_Join (tracked os) = os_Join os" by (simp add: tracked_def)
  show "held_open w' = held_open w" if "r = Inl e"
    using assms that unfolding open_file_def join Let_def
    by (cases "decodeSHA256 (df_SHA256 spec)") (auto simp: go_res io_bind_Inl io_case_eq closed dest!: tracked_changes(1) check_file_held split: if_split_asm)
  show "held_open w' = (fst (held_open w) + handles [(fid, f)], snd (held_open w))" if "r = Inr f"
    using assms that unfolding open_file_def join Let_def
    by (cases "decodeSHA256 (df_SHA256 spec)") (auto simp: go_res io_bind_Inl io_case_eq dest!: tracked_changes(1) check_file_held split: if_split_asm)
qed

lemma open_files_held:
  assumes "open_files (tracked os) sha256 baseDir specs out w = (r, w')" "held_open w = (H + handles out, ms)"
  shows "held_open w' = (case r of Inl _ \<Rightarrow> (H, ms) | Inr files \<Rightarrow> (H + handles files, ms))"
  using assms
proof (induction specs arbitrary: out w)
  case (Cons spec rest)
  obtain r1 w1 where f: "open_file (tracked os) sha256 baseDir out spec w = (r1, w1)" by (metis prod.collapse)
  show ?case
  proof (cases r1)
    case (Inl e)
    then have "w' = closeFiles (tracked os) out w1" "\<exists>e. r = Inl e" using Cons.prems(1) f by auto
    then show ?thesis using open_file_held(1) [OF f Inl] Cons.prems(2) by (auto simp: closeFiles_held)
  next
    case (Inr g)
    then have "open_files (tracked os) sha256 baseDir rest (out @ [(df_ID spec, g)]) w1 = (r, w')" using Cons.prems(1) f by simp
    from Cons.IH [OF this] show ?thesis using open_file_held(2) [OF f Inr, of "df_ID spec"] Cons.prems(2) by (simp add: add.assoc del: handles_simps(2))
  qed
qed auto

lemma openManifest_held:
  assumes "openManifest (tracked os) sha256 decode lower path w = (r, w')"
  shows "held_open w' = (case r of Inl _ \<Rightarrow> held_open w | Inr (m, files, layouts, maxSpan) \<Rightarrow> (fst (held_open w) + handles files, snd (held_open w)))"
proof -
  have V: "held_open v' = (case q of Inl _ \<Rightarrow> held_open v | Inr files \<Rightarrow> (fst (held_open v) + handles files, snd (held_open v)))"
    if "validateAndOpenFiles (tracked os) sha256 dir specs v = (q, v')" for dir specs v q v'
    using that open_files_held [of os sha256 dir specs "[]" v q v' "fst (held_open v)" "snd (held_open v)"]
    by (cases "specs = []") (auto simp: validateAndOpenFiles_def split: sum.splits)
  show ?thesis using assms unfolding openManifest_def
    by (cases r) (auto simp: go_res io_bind_Inl sum_case_eq closeFiles_held dest!: tracked_held(1) V split: prod.split_asm)
qed

lemma allocAligned_held:
  assumes "allocAligned (tracked os) sz alignment w = (r, w')"
  shows "held_open w' = (case r of Inl _ \<Rightarrow> held_open w | Inr (raw, addr, buf) \<Rightarrow> (fst (held_open w), add_mset raw (snd (held_open w))))"
proof -
  have unmapped: "held_open (snd (os_Munmap (tracked os) base len v)) = (fst (held_open v), snd (held_open v) - {#(base, len)#})" for base len v
    by (rule tracked_changes(4)) (rule prod.collapse [symmetric])
  show ?thesis using assms unfolding allocAligned_def Let_def
    by (cases r) (auto simp: go_res io_bind_Inl io_case_eq unmapped dest!: tracked_changes(3) split: if_split_asm)
qed

lemma alloc_slots_held:
  assumes "alloc_slots (tracked os) sz alignment n slots w = (r, w')" "held_open w = (H, ms + mappings slots)"
  shows "held_open w' = (case r of Inl _ \<Rightarrow> (H, ms) | Inr slots' \<Rightarrow> (H, ms + mappings slots'))"
  using assms
proof (induction n arbitrary: slots w)
  case (Suc n)
  obtain r1 w1 where a: "allocAligned (tracked os) sz alignment w = (r1, w1)" by (metis prod.collapse)
  note h = allocAligned_held [OF a]
  show ?case
  proof (cases r1)
    case (Inl e)
    then show ?thesis using Suc.prems a h by (auto simp: free_slots_held)
  next
    case (Inr x)
    obtain raw addr buf where x: "x = (raw, addr, buf)" by (cases x)
    let ?sl = "\<lparr>sl_index = length slots, sl_raw = Some raw, sl_addr = addr, sl_buf = buf, sl_loaded = False, sl_key = 0, sl_span = 0, sl_lastUse = 0\<rparr>"
    have "alloc_slots (tracked os) sz alignment n (slots @ [?sl]) w1 = (r, w')" using Suc.prems(1) a Inr x by simp
    from Suc.IH [OF this] show ?thesis using h Inr x Suc.prems(2) by simp
  qed
qed auto

lemma reader_Open_held:
  assumes "reader_Open (tracked os) sha256 decode lower page path opts w = (r, w')"
  shows "held_open w' = (case r of Inl _ \<Rightarrow> held_open w | Inr rd \<Rightarrow> (fst (held_open w) + handles (rd_files rd), snd (held_open w) + mappings (rd_slots rd)))"
proof -
  have A: "held_open v' = (case q of Inl _ \<Rightarrow> held_open v | Inr slots \<Rightarrow> (fst (held_open v), snd (held_open v) + mappings slots))"
    if "alloc_slots (tracked os) sz al n [] v = (q, v')" for sz al n v q v'
    using alloc_slots_held [OF that, of "fst (held_open v)" "snd (held_open v)"] by (simp split: sum.splits)
  show ?thesis using assms unfolding reader_Open_def Let_def
    by (cases r) (auto simp: go_res io_bind_Inl io_case_eq sum_case_eq closeFiles_held dest!: openManifest_held A split: if_split_asm prod.split_asm)
qed

section \<open>Closing\<close>

lemma close_slots_held:
  assumes "close_slots (tracked os) slots w = ((slots', errs), w')"
  shows "held_open w' = (fst (held_open w), snd (held_open w) - mappings slots)"
  using assms
proof (induction slots arbitrary: w slots' errs)
  case (Cons sl rest)
  obtain q w1 where a: "freeAligned (tracked os) (sl_raw sl) w = (q, w1)" by (metis prod.collapse)
  obtain sls es where b: "close_slots (tracked os) rest w1 = ((sls, es), w')" using Cons.prems a by (auto split: prod.splits)
  have "held_open w1 = (fst (held_open w), snd (held_open w) - (case sl_raw sl of None \<Rightarrow> {#} | Some m \<Rightarrow> {#m#}))"
    using a by (auto simp: freeAligned_def dest: tracked_changes(4) split: option.splits)
  then show ?case using Cons.IH [OF b] by (simp split: option.splits)
qed simp

lemma close_handles_held:
  assumes "close_handles (tracked os) files w = ((files', errs), w')"
  shows "held_open w' = (fst (held_open w) - handles files, snd (held_open w))"
  using assms
proof (induction files arbitrary: w files' errs)
  case (Cons kf rest)
  obtain fid f where kf: "kf = (fid, f)" by (cases kf)
  obtain q w1 where a: "(case fr_file f of None \<Rightarrow> (Inr (), w) | Some h \<Rightarrow> os_Close (tracked os) h w) = (q, w1)" by (metis prod.collapse)
  obtain fs es where b: "close_handles (tracked os) rest w1 = ((fs, es), w')" using Cons.prems a by (auto simp: kf split: prod.splits)
  have "held_open w1 = (fst (held_open w) - (case fr_file f of None \<Rightarrow> {#} | Some h \<Rightarrow> {#h#}), snd (held_open w))"
    using a by (auto dest: tracked_changes(2) split: option.splits)
  then show ?case using Cons.IH [OF b] by (simp add: kf split: option.splits)
qed simp

lemma reader_Close_held:
  assumes "reader_Close (tracked os) r w = ((res, r'), w')" "\<not> rd_closed r"
  shows "held_open w' = (fst (held_open w) - handles (rd_files r), snd (held_open w) - mappings (rd_slots r)) \<and> rd_closed r'"
proof -
  obtain slots errs1 w1 where a: "close_slots (tracked os) (rd_slots r) w = ((slots, errs1), w1)" by (metis prod.collapse)
  obtain files errs2 where b: "close_handles (tracked os) (rd_files r) w1 = ((files, errs2), w')" "rd_closed r'"
    using assms a by (auto simp: reader_Close_def Let_def split: prod.splits)
  show ?thesis using close_slots_held [OF a] close_handles_held [OF b(1)] b(2) by simp
qed

lemma reader_Close_again: "rd_closed r \<Longrightarrow> reader_Close os r w = ((Inr (), r), w)"
  by (simp add: reader_Close_def)

section \<open>Loads hold what they held\<close>

lemma readFullAt_held: "readFullAt (tracked os) h path len off got w = ((got', res), w') \<Longrightarrow> held_open w' = held_open w"
proof (induction "len - length got" arbitrary: got w rule: less_induct)
  case less
  show ?case
  proof (cases "length got \<ge> len")
    case True
    then show ?thesis using less.prems by (simp add: readFullAt.simps)
  next
    case False
    obtain bs e w1 where rd: "os_ReadAt (tracked os) h (len - length got) (wrap64 (off + int (length got))) w = ((bs, e), w1)" by (metis prod.collapse)
    note h = tracked_held(5) [OF rd]
    show ?thesis
    proof (cases "e = None \<and> bs \<noteq> []")
      case True
      then have "readFullAt (tracked os) h path len off (got @ bs) w1 = ((got', res), w')" using less.prems False rd by (simp add: readFullAt.simps [of "tracked os" h path len off got])
      moreover have "len - length (got @ bs) < len - length got" using True False by (intro diff_less_mono2) (simp_all add: not_le)
      ultimately show ?thesis using less.hyps h by metis
    next
      case F: False
      then have "w' = w1" using less.prems False rd by (auto simp: readFullAt.simps [of "tracked os" h path len off got] Let_def split: option.splits if_splits)
      then show ?thesis using h by simp
    qed
  qed
qed

lemma load_assignments_held: "loadAssignmentsLocked (tracked os) sas (r, w) = (res, (r', w')) \<Longrightarrow> held_open w' = held_open w"
proof (induction sas arbitrary: r w res)
  case (Cons sa sas)
  obtain res1 r1 w1 where a: "load_assignment (tracked os) sa (r, w) = (res1, (r1, w1))" by (metis prod.collapse)
  have "held_open w1 = held_open w" using a by (auto simp: load_assignment_def Let_def dest!: readFullAt_held split: if_split_asm option.split_asm prod.split_asm)
  moreover obtain res2 where "loadAssignmentsLocked (tracked os) sas (r1, w1) = (res2, (r', w'))" using Cons.prems a by (auto split: prod.splits)
  ultimately show ?case using Cons.IH by metis
qed simp

lemma load_held: "loadLocked (tracked os) done_in keys (r, w) = (res, (r', w')) \<Longrightarrow> held_open w' = held_open w"
  by (auto simp: loadLocked_def Let_def dest!: load_assignments_held split: if_split_asm sum.split_asm prod.split_asm)

end
