(* ===== verification/ExpertProps.thy ===== *)
theory ExpertProps
  imports OpenFacts
begin

text \<open>
  The properties of \<open>runtime/expertstream\<close>: which manifests are accepted, that an opened reader fits its budget,
  that loaded experts are the bytes of the files, which experts make room, and that nothing stays open.
\<close>

section \<open>Sequences of loads\<close>

definition run_loads :: "('w, 'h) os_ops \<Rightarrow> ((slot_assignment list \<Rightarrow> slot_assignment list) \<times> int list) list \<Rightarrow> 'h expert_reader \<times> 'w \<Rightarrow> 'h expert_reader \<times> 'w" where
  "run_loads os calls rw = fold (\<lambda>(done_in, keys) rw. snd (loadLocked os done_in keys rw)) calls rw"

definition reorders :: "(slot_assignment list \<Rightarrow> slot_assignment list) \<Rightarrow> bool" where
  "reorders done_in \<longleftrightarrow> (\<forall>xs. mset (done_in xs) = mset xs)"

lemma run_loads_simps: "run_loads os [] rw = rw" "run_loads os ((d, keys) # calls) rw = run_loads os calls (snd (loadLocked os d keys rw))"
  by (simp_all add: run_loads_def)

lemma run_loads_ok:
  assumes "reads_content os content" "reader_ok content r" "\<forall>c \<in> set calls. reorders (fst c)" "run_loads os calls (r, w) = (r', w')"
  shows "reader_ok content r' \<and> load_frame r' = load_frame r"
  using assms(2-)
proof (induction calls arbitrary: r w)
  case (Cons c calls)
  obtain d keys where c: "c = (d, keys)" by (cases c)
  obtain res r1 w1 where l: "loadLocked os d keys (r, w) = (res, (r1, w1))" by (metis prod.collapse)
  have d: "\<And>xs. mset (d xs) = mset xs" using Cons.prems(2) c by (simp add: reorders_def)
  have "reader_ok content r1" "load_frame r1 = load_frame r" using load_spec [OF assms(1) Cons.prems(1) d l] by simp_all
  moreover have "run_loads os calls (r1, w1) = (r', w')" using Cons.prems(3) c l by (simp add: run_loads_simps)
  ultimately show ?case using Cons.IH Cons.prems(2) by fastforce
qed (simp add: run_loads_simps)

lemma run_loads_held: "run_loads (tracked os) calls (r, w) = (r', w') \<Longrightarrow> held_open w' = held_open w"
proof (induction calls arbitrary: r w)
  case (Cons c calls)
  obtain d keys where c: "c = (d, keys)" by (cases c)
  obtain res r1 w1 where l: "loadLocked (tracked os) d keys (r, w) = (res, (r1, w1))" by (metis prod.collapse)
  have "run_loads (tracked os) calls (r1, w1) = (r', w')" using Cons.prems c l by (simp add: run_loads_simps)
  from Cons.IH [OF this] show ?case using load_held [OF l] by simp
qed (simp add: run_loads_simps)

lemma trace_timed:
  assumes "reads_content os content" "reader_ok content r" "\<forall>c \<in> set calls. reorders (fst c)" "run_loads os calls (r, w) = (r', w')"
    and "timed r uses" "int (length uses) + int (length (use_trace os calls (r, w))) < 2 ^ 64"
  shows "timed r' (uses @ use_trace os calls (r, w))"
  using assms(2-)
proof (induction calls arbitrary: r w uses)
  case (Cons c calls)
  obtain d keys where c: "c = (d, keys)" by (cases c)
  obtain res r1 w1 where l: "loadLocked os d keys (r, w) = (res, (r1, w1))" by (metis prod.collapse)
  have d: "\<And>xs. mset (d xs) = mset xs" using Cons.prems(2) c by (simp add: reorders_def)
  have ok: "keys_ok r" "\<not> rd_closed r" using Cons.prems(1) by (simp_all add: ok_except_def layouts_ok_def)
  have ok1: "reader_ok content r1" using load_spec [OF assms(1) Cons.prems(1) d l] by simp
  have tr: "use_trace os (c # calls) (r, w) = uses_of r keys r1 @ use_trace os calls (r1, w1)" using l by (simp add: c)
  have "timed r1 (uses @ uses_of r keys r1)" by (rule load_timed [OF ok Cons.prems(4) l]) (use Cons.prems(5) tr in simp)
  moreover have "run_loads os calls (r1, w1) = (r', w')" using Cons.prems(3) c l by (simp add: run_loads_simps)
  ultimately have "timed r' ((uses @ uses_of r keys r1) @ use_trace os calls (r1, w1))"
    using Cons.prems(2,5) tr by (intro Cons.IH [OF ok1]) simp_all
  then show ?case using tr by simp
qed (simp add: run_loads_simps)

section \<open>Which experts make room\<close>

lemma take_sorted_part:
  assumes "i \<in> set (take n (xs @ ys))" "i \<in> set ys" "j \<in> set (drop n (xs @ ys))" "j \<in> set ys" "distinct (xs @ ys)" "sorted (map f ys)"
  shows "f i \<le> f j"
proof -
  have ni: "i \<notin> set xs" "j \<notin> set xs" using assms(2,4,5) by auto
  have i: "i \<in> set (take (n - length xs) ys)" using assms(1) ni(1) set_take_subset [of n xs] by auto
  have j: "j \<in> set (drop (n - length xs) ys)" using assms(3) ni(2) set_drop_subset [of n xs] by auto
  have "sorted (map f (take (n - length xs) ys) @ map f (drop (n - length xs) ys))" using assms(6) by (simp flip: map_append)
  then show ?thesis using i j by (auto simp: sorted_append)
qed

definition last_use :: "'h expert_reader \<Rightarrow> int \<Rightarrow> int" where
  "last_use r k = sl_lastUse (rd_slots r ! slot_of r k)"

lemma vacated:
  assumes "m' = vacate A m ++ n" "m k = Some i" "m' k = None"
  shows "i \<in> A"
  using assms by (auto simp: vacate_def split: if_split_asm option.split_asm)

lemma kept_slot_key: "x \<in> kept_slots r keys \<Longrightarrow> \<exists>k \<in> set keys. rd_keyToSlot r k = Some x"
  by (auto simp: kept_slots_def resident_def slot_of_def)

lemma eviction_order:
  assumes "keys_ok r" "took_slots r keys sas" "assigned_slots sas \<inter> kept_slots r keys = {}"
    and "rd_keyToSlot r' = vacate (assigned_slots sas) (rd_keyToSlot r) ++ n" "dom n \<subseteq> set keys" "resident r k" "\<not> resident r' k"
  shows "(resident r k' \<and> resident r' k' \<and> k' \<notin> set keys \<longrightarrow> last_use r k \<le> last_use r k') \<and>
    length (filter (\<lambda>sl. \<not> sl_loaded sl) (rd_slots r)) < card (missing_keys r keys)"
proof -
  obtain r1 keep where t: "touched_only (kept_slots r keys) r r1" "set keep = kept_slots r keys" "sa_key ` set sas = missing_keys r keys" "distinct (map sa_key sas)"
      "map sa_slotIndex sas = take (length sas) (slot_candidates (rd_slots r1) keep)" using assms(2) by (auto simp: took_slots_def)
  let ?i = "slot_of r k" and ?c = "slot_candidates (rd_slots r1) keep"
  have ss: "same_slots r r1" using t(1) by (simp add: touched_only_def)
  have len: "length (rd_slots r1) = length (rd_slots r)" using ss by (intro frame_cong(7)) (simp add: same_slots_def)
  have loaded: "sl_loaded (rd_slots r1 ! x) = sl_loaded (rd_slots r ! x)" if "x < length (rd_slots r)" for x by (rule untimed_fields(3) [OF same_slots_at [OF ss that]])
  have same: "rd_slots r1 ! x = rd_slots r ! x" if "x < length (rd_slots r)" "x \<notin> kept_slots r keys" for x using t(1) that by (simp add: touched_only_def)
  have k: "rd_keyToSlot r k = Some ?i" using assms(6) by (auto simp: resident_def slot_of_def)
  then have i: "?i < length (rd_slots r)" "sl_loaded (rd_slots r ! ?i)" using assms(1) by (simp_all add: keys_ok_def)
  have "?i \<in> assigned_slots sas" using vacated [OF assms(4) k] assms(7) by (simp add: resident_def)
  then have it: "?i \<in> set (take (length sas) ?c)" "?i \<notin> kept_slots r keys" using assms(3) unfolding assigned_slots_def set_map [symmetric] t(5) by auto
  define free where "free = filter (\<lambda>x. x \<notin> set keep) [0..<length (rd_slots r1)]"
  define ul where "ul = sort (filter (\<lambda>x. \<not> sl_loaded (rd_slots r1 ! x)) free)"
  define ld where "ld = sort_key (\<lambda>x. (sl_lastUse (rd_slots r1 ! x), sl_index (rd_slots r1 ! x))) (filter (\<lambda>x. sl_loaded (rd_slots r1 ! x)) free)"
  have c: "?c = ul @ ld" by (simp add: slot_candidates_def Let_def ul_def ld_def free_def)
  have ldset: "set ld = {x. x < length (rd_slots r) \<and> x \<notin> kept_slots r keys \<and> sl_loaded (rd_slots r ! x)}"
    by (auto simp: ld_def free_def t(2) len loaded)
  have ulset: "set ul = {x. x < length (rd_slots r) \<and> x \<notin> kept_slots r keys \<and> \<not> sl_loaded (rd_slots r ! x)}"
    by (auto simp: ul_def free_def t(2) len loaded)
  have d: "distinct (ul @ ld)" unfolding c [symmetric] by (rule slot_candidates_spec(1))
  have "?i \<notin> set ul" using i by (simp add: ulset)
  then have "\<not> length sas \<le> length ul" using it(1) unfolding c by (auto dest: in_set_takeD)
  moreover have "length ul = length (filter (\<lambda>sl. \<not> sl_loaded sl) (rd_slots r))"
  proof -
    have nk: "x \<notin> kept_slots r keys" if "x < length (rd_slots r)" "\<not> sl_loaded (rd_slots r ! x)" for x
      using kept_slot_key [of x r keys] assms(1) that by (auto simp: keys_ok_def)
    have "length ul = card (set ul)" using d by (simp add: distinct_card)
    also have "set ul = {x. x < length (rd_slots r) \<and> \<not> sl_loaded (rd_slots r ! x)}" using nk by (auto simp: ulset)
    also have "card \<dots> = length (filter (\<lambda>sl. \<not> sl_loaded sl) (rd_slots r))" by (simp add: length_filter_conv_card)
    finally show ?thesis .
  qed
  moreover have "length sas = card (missing_keys r keys)" unfolding t(3) [symmetric] set_map [symmetric] using distinct_card [OF t(4)] by simp
  moreover have "last_use r k \<le> last_use r k'" if k': "resident r k'" "resident r' k'" "k' \<notin> set keys"
  proof -
    let ?j = "slot_of r k'"
    have kj: "rd_keyToSlot r k' = Some ?j" using k'(1) by (auto simp: resident_def slot_of_def)
    then have j: "?j < length (rd_slots r)" "sl_loaded (rd_slots r ! ?j)" using assms(1) by (simp_all add: keys_ok_def)
    have jk: "?j \<notin> kept_slots r keys"
    proof
      assume "?j \<in> kept_slots r keys"
      then obtain k2 where k2: "k2 \<in> set keys" "rd_keyToSlot r k2 = Some ?j" using kept_slot_key by blast
      have "k2 = k'" by (rule keys_ok_inj [OF assms(1) k2(2) kj])
      then show False using k2(1) k'(3) by simp
    qed
    have "n k' = None" using assms(5) k'(3) by auto
    then have "?j \<notin> assigned_slots sas" using k'(2) kj by (auto simp: resident_def assms(4) vacate_def map_add_def split: if_split_asm option.split_asm)
    then have "?j \<notin> set (take (length sas) ?c)" unfolding assigned_slots_def set_map [symmetric] t(5) by simp
    moreover have "?j \<in> set ?c" using j jk unfolding c by (simp add: ldset)
    ultimately have jd: "?j \<in> set (drop (length sas) ?c)" by (metis Un_iff append_take_drop_id set_append)
    have "?i \<in> set ld" "?j \<in> set ld" using i it(2) j jk by (simp_all add: ldset)
    then have "(sl_lastUse (rd_slots r1 ! ?i), sl_index (rd_slots r1 ! ?i)) \<le> (sl_lastUse (rd_slots r1 ! ?j), sl_index (rd_slots r1 ! ?j))"
      using take_sorted_part [OF it(1) [unfolded c] _ jd [unfolded c] _ d, of "\<lambda>x. (sl_lastUse (rd_slots r1 ! x), sl_index (rd_slots r1 ! x))"] by (simp add: ld_def)
    then show ?thesis unfolding last_use_def using same [OF i(1) it(2)] same [OF j(1) jk] by (auto simp: less_eq_prod_def)
  qed
  ultimately show ?thesis by linarith
qed

text \<open>A reader after any loads: how it was opened, and the loads since.\<close>

definition session :: "('w, 'h) os_ops \<Rightarrow> (string \<Rightarrow> string) \<Rightarrow> (string \<Rightarrow> go_error + manifest) \<Rightarrow> (nat \<Rightarrow> nat) \<Rightarrow> int \<Rightarrow> string \<Rightarrow> reader_options \<Rightarrow>
    ((slot_assignment list \<Rightarrow> slot_assignment list) \<times> int list) list \<Rightarrow> 'w \<Rightarrow> 'h expert_reader \<Rightarrow> 'h expert_reader \<times> 'w \<Rightarrow> bool" where
  "session os sha256 decode lower page path opts calls w0 r0 rw \<longleftrightarrow> decodes_int64 decode \<and> isPowerOfTwo page \<and> in_int64 page \<and>
     (\<forall>c \<in> set calls. reorders (fst c)) \<and>
     (case reader_Open os sha256 decode lower page path opts w0 of (Inl _, _) \<Rightarrow> False | (Inr r, w1) \<Rightarrow> r = r0 \<and> run_loads os calls (r0, w1) = rw)"

lemma session_opened:
  assumes "session os sha256 decode lower page path opts calls w0 r0 (r, w)" "reads_content os content"
  obtains w1 where "reader_Open os sha256 decode lower page path opts w0 = (Inr r0, w1)" "run_loads os calls (r0, w1) = (r, w)"
    "reader_ok content r" "load_frame r = load_frame r0"
proof -
  obtain x w1 where o: "reader_Open os sha256 decode lower page path opts w0 = (x, w1)" by fastforce
  then have x: "x = Inr r0" "run_loads os calls (r0, w1) = (r, w)" using assms(1) by (auto simp: session_def split: sum.splits)
  have "reader_ok content r0" using reader_Open_ok [of decode page os sha256 lower path opts w0 r0 w1 content] o x(1) assms(1) by (simp add: session_def)
  then have "reader_ok content r \<and> load_frame r = load_frame r0" using run_loads_ok [OF assms(2) _ _ x(2)] assms(1) by (simp add: session_def)
  then show ?thesis using that o x by simp
qed

lemma session_manifest:
  assumes "session os sha256 decode lower page path opts calls w0 r0 (r, w)" "reads_content os content"
  shows "map_of (rd_experts r) k = Some lo \<longleftrightarrow> (\<exists>e \<in> set (mf_Entries (rd_manifest r0)). es_Key e = k \<and> lo = entry_layout_of e)"
    "int (length (rd_slots r)) = op_Slots opts" "handle_of r = handle_of r0" "file_expert content r = file_expert content r0"
proof -
  obtain w1 where o: "reader_Open os sha256 decode lower page path opts w0 = (Inr r0, w1)" and f: "load_frame r = load_frame r0" by (rule session_opened [OF assms])
  note O = reader_Open_ok [OF _ _ _ o, of content]
  have m: "manifest_ok lower (rd_manifest r0) (rd_files r0)" "rd_experts r0 = entry_layouts (rd_manifest r0)" "int (length (rd_slots r0)) = op_Slots opts"
    using O assms(1) by (simp_all add: session_def)
  show "map_of (rd_experts r) k = Some lo \<longleftrightarrow> (\<exists>e \<in> set (mf_Entries (rd_manifest r0)). es_Key e = k \<and> lo = entry_layout_of e)"
    using m(1) entry_layouts_map by (simp add: frame_cong(5) [OF f] m(2) manifest_ok_def)
  show "int (length (rd_slots r)) = op_Slots opts" using m(3) by (simp add: frame_cong(7) [OF f])
  show h: "handle_of r = handle_of r0" by (simp add: handle_of_def fun_eq_iff frame_cong(6) [OF f])
  show "file_expert content r = file_expert content r0" by (simp add: file_expert_def fun_eq_iff h)
qed

lemma reader_Load_Some: "reader_Load os done_in (Some r) keys w = (res, ro) \<longleftrightarrow> (\<exists>r' w'. loadLocked os done_in keys (r, w) = (res, (r', w')) \<and> ro = (Some r', w'))"
  by (cases "loadLocked os done_in keys (r, w)") (auto simp: reader_Load_def)

section \<open>A sample package\<close>

text \<open>Three experts of one layer in one file of twelve bytes; the operating system reads at most two bytes
  at a time and counts the calls it gets.\<close>

definition sample_blob :: string where
  "sample_blob = ''GUD!gguduvw!''"

definition sample_part :: "int \<Rightarrow> int \<Rightarrow> component_spec" where
  "sample_part off n = \<lparr>cs_Offset = off, cs_Size = n, cs_DType = ''U8'', cs_Shape = [n], cs_Quant = None\<rparr>"

definition sample_manifest :: manifest where
  "sample_manifest = \<lparr>mf_Version = 1, mf_ModelID = ''m'', mf_Layers = 1, mf_Experts = 3, mf_Alignment = 4,
     mf_Files = [\<lparr>df_ID = ''f'', df_Path = ''/f'', df_Size = 12, df_SHA256 = replicate 64 (CHR ''0'')\<rparr>],
     mf_Entries = [\<lparr>es_Key = 7, es_File = ''f'', es_Gate = sample_part 0 1, es_Up = sample_part 1 1, es_Down = sample_part 2 1\<rparr>,
                   \<lparr>es_Key = 9, es_File = ''f'', es_Gate = sample_part 4 2, es_Up = sample_part 6 1, es_Down = sample_part 7 1\<rparr>,
                   \<lparr>es_Key = 5, es_File = ''f'', es_Gate = sample_part 8 1, es_Up = sample_part 9 1, es_Down = sample_part 10 1\<rparr>]\<rparr>"

definition sample_os :: "(nat, unit) os_ops" where
  "sample_os = \<lparr>os_ReadFile = \<lambda>_ w. (Inr [], w), os_Dir = id, os_Join = (@), os_Open = \<lambda>_ w. (Inr (), w), os_Stat = \<lambda>_ w. (Inr 12, w),
     os_Seek = \<lambda>_ w. (Inr (), w), os_ReadAll = \<lambda>_ w. (Inr sample_blob, w),
     os_ReadAt = \<lambda>_ n off w. ((take (min n 2) (drop (nat off) sample_blob), None), Suc w), os_Close = \<lambda>_ w. (Inr (), w),
     os_Mmap = \<lambda>_ w. (Inr 4098, w), os_Munmap = \<lambda>_ _ w. (Inr (), w)\<rparr>"

definition sample_open :: "(nat, unit expert_reader) io" where
  "sample_open = reader_Open sample_os (\<lambda>_. replicate 32 (chr 0)) (\<lambda>_. Inr sample_manifest) id 4096 ''/m'' \<lparr>op_Slots = 2, op_Workers = 0, op_MaxSlotBytes = 0\<rparr>"

definition sample_loads :: "((slot_assignment list \<Rightarrow> slot_assignment list) \<times> int list) list" where
  "sample_loads = [(rev, [9, 7]), (rev, [7])]"


definition sample_files :: "(string \<times> unit file_ref) list" where
  "sample_files = [(''f'', \<lparr>fr_spec = hd (mf_Files sample_manifest), fr_absPath = ''/f'', fr_file = Some ()\<rparr>)]"

definition sample_slot :: "nat \<Rightarrow> expert_slot" where
  "sample_slot i = \<lparr>sl_index = i, sl_raw = Some (4098, 7), sl_addr = 4100, sl_buf = replicate 4 (chr 0), sl_loaded = False, sl_key = 0, sl_span = 0, sl_lastUse = 0\<rparr>"

lemma sample_steps:
  "validateAndOpenFiles sample_os (\<lambda>_. replicate 32 (chr 0)) ''/m'' (mf_Files sample_manifest) 0 = (Inr sample_files, 0)"
  "slot_sizes 4096 4 4 2 DefaultMaxSlotBytes = Inr 4"
  "alloc_slots sample_os 4 4 2 [] 0 = (Inr [sample_slot 0, sample_slot 1], 0)"
    apply code_simp
   apply code_simp
  apply code_simp
  done


lemma sample_dtypes: "normalizeDType id ''U8'' = ''u8''" "normalizeDType id ''u8'' = ''u8''"
  by code_simp+

lemma sample_part_simps: "cs_Offset (sample_part off n) = off" "cs_Size (sample_part off n) = n"
  by (simp_all add: sample_part_def)

lemma sample_part_ok: "0 \<le> off \<Longrightarrow> 0 < n \<Longrightarrow> n \<le> 12 \<Longrightarrow> validateComponent id (sample_part off n) name = Inr ()"
  by (simp add: validateComponent_def sample_part_def sample_dtypes dtypeBytes_def DTypeMLXQuant_def checkedProduct_spec go_int)

lemma sample_fits: "manifest_fits sample_manifest sample_files"
  by (simp add: manifest_fits_def sample_manifest_def sample_files_def sample_part_def entry_fits_def component_fits_def go_int)

lemma sample_valid: "validateManifest id sample_manifest sample_files = Inr (entry_layouts sample_manifest, 4)"
proof -
  have m: "TrimSpace ''m'' \<noteq> []" "isPowerOfTwo 4" by code_simp+
  have "manifest_ok id sample_manifest sample_files"
    using m by (simp add: sample_part_ok sample_part_simps manifest_ok_def expert_entry_ok_def entries_apart_def entry_end_def sample_manifest_def sample_files_def)
  then show ?thesis by (simp add: validateManifest_iff [OF sample_fits]) (simp add: sample_manifest_def sample_part_def entry_end_def)
qed

definition sample_reader :: "unit expert_reader" where
  "sample_reader = \<lparr>rd_closed = False, rd_manifest = sample_manifest, rd_alignment = 4, rd_slotSize = 4, rd_workers = 1, rd_files = sample_files,
     rd_experts = entry_layouts sample_manifest, rd_slots = [sample_slot 0, sample_slot 1], rd_keyToSlot = Map.empty, rd_clock = 0\<rparr>"

lemma sample_opens: "sample_open 0 = (Inr sample_reader, 0)"
proof -
  have m: "mf_Alignment sample_manifest = 4" "length (entry_layouts sample_manifest) = 3" by (simp_all add: sample_manifest_def entry_layouts_def)
  have "openManifest sample_os (\<lambda>_. replicate 32 (chr 0)) (\<lambda>_. Inr sample_manifest) id ''/m'' 0 = (Inr (sample_manifest, sample_files, entry_layouts sample_manifest, 4), 0)"
    using sample_steps(1) sample_valid by (simp add: openManifest_def io_bind_def io_lift_def) (simp add: sample_os_def)
  then show ?thesis using sample_steps(2,3) m by (simp add: sample_open_def reader_Open_def io_bind_def sample_reader_def Let_def numeral_2_eq_2)
qed

lemma sample_runs: "(case run_loads sample_os sample_loads (sample_reader, 0) of (r, w) \<Rightarrow>
    rd_keyToSlot r 5 = None \<and> rd_keyToSlot r 7 \<noteq> None \<and> rd_keyToSlot r 9 \<noteq> None \<and>
    (case reader_Load sample_os id (Some r) [5, 7, 5] w of (Inl _, _) \<Rightarrow> False | (Inr out, ro) \<Rightarrow> map le_SlotBytes out = [''uvw'', ''GUD'', ''uvw'']))"
  by code_simp

lemma take_some: "length (take (min n m) s) \<le> n \<and> take (min n m) s = take (length (take (min n m) s)) s"
  by (simp add: min_def)

lemma sample_contracts: "decodes_int64 (\<lambda>_. Inr sample_manifest)" "reads_content sample_os (\<lambda>_. sample_blob)" "stats_length sample_os (\<lambda>_. sample_blob)"
    "isPowerOfTwo 4096" "in_int64 4096" "reorders rev"
proof -
  show "reads_content sample_os (\<lambda>_. sample_blob)" unfolding reads_content_def
  proof (intro allI impI)
    fix h n off w bs e w'
    assume "os_ReadAt sample_os h n off w = ((bs, e), w')"
    then have "bs = take (min n 2) (drop (nat off) sample_blob)" by (simp add: sample_os_def)
    then show "length bs \<le> n \<and> bs = take (length bs) (drop (nat off) sample_blob)" using take_some by metis
  qed
qed (simp_all add: decodes_int64_def decoded_fits_def sample_manifest_def sample_part_def entry_fits_def component_fits_def go_int
      sample_os_def stats_length_def sample_blob_def isPowerOfTwo_def reorders_def)

lemma sample_ahead: "reads_ahead sample_os (\<lambda>_. sample_blob)"
  by (auto simp: reads_ahead_def sample_os_def simp flip: length_greater_0_conv)

lemma sample_session: "session sample_os (\<lambda>_. replicate 32 (chr 0)) (\<lambda>_. Inr sample_manifest) id 4096 ''/m'' \<lparr>op_Slots = 2, op_Workers = 0, op_MaxSlotBytes = 0\<rparr>
    sample_loads 0 sample_reader (run_loads sample_os sample_loads (sample_reader, 0))"
  using sample_contracts(1,4,5) sample_opens by (simp add: session_def sample_open_def sample_loads_def reorders_def)

lemma sample_evicts: "(case run_loads sample_os sample_loads (sample_reader, 0) of (r, w) \<Rightarrow>
    rd_keyToSlot r 7 \<noteq> None \<and> rd_keyToSlot r 9 \<noteq> None \<and>
    (case fst (snd (reader_Load sample_os id (Some r) [5] w)) of None \<Rightarrow> False | Some r' \<Rightarrow> rd_keyToSlot r' 7 \<noteq> None \<and> rd_keyToSlot r' 9 = None))"
  by code_simp

section \<open>Loaded experts\<close>

text \<open>C8. After any loads on an opened package, failed ones included, a successful load returns the
  experts in the order asked for, distinct experts in distinct slots, and every byte of every part
  is the byte of the file at the offset its manifest entry names.\<close>

theorem loaded_experts_are_file_bytes:
  assumes "session os sha256 decode lower page path opts calls w0 r0 (r, w)" "reads_content os content"
    and "reorders done_in" "reader_Load os done_in (Some r) keys w = (Inr out, ro)"
  shows "map le_Key out = keys \<and> (\<forall>x \<in> set out. \<forall>y \<in> set out. le_SlotIndex x = le_SlotIndex y \<longleftrightarrow> le_Key x = le_Key y) \<and>
    (\<forall>x \<in> set out. int (le_SlotIndex x) < op_Slots opts \<and>
      (\<exists>e \<in> set (mf_Entries (rd_manifest r0)). x = file_expert content r0 e (le_SlotIndex x)))"
proof -
  have s: "reader_ok content r" by (rule session_opened [OF assms(1,2)])
  obtain r' w' where l: "loadLocked os done_in keys (r, w) = (Inr out, (r', w'))" using assms(4) by (auto simp: reader_Load_Some)
  note L = load_spec [OF assms(2) s _ l]
  have k: "reader_ok content r'" "load_frame r' = load_frame r" "can_load r keys" "set keys \<subseteq> dom (rd_keyToSlot r')"
      "out = map (\<lambda>k. file_expert content r (el_spec (the (map_of (rd_experts r) k))) (slot_of r' k)) keys"
    using L assms(3) by (auto simp: reorders_def split: if_split_asm)
  have K: "keys_ok r'" using k(1) by (simp add: ok_except_def)
  have len: "length (rd_slots r') = length (rd_slots r)" by (rule frame_cong(7) [OF k(2)])
  have e: "\<exists>e \<in> set (mf_Entries (rd_manifest r0)). es_Key e = k \<and> el_spec (the (map_of (rd_experts r) k)) = e" if inb: "k \<in> set keys" for k
    proof -
    obtain lo where "map_of (rd_experts r) k = Some lo" using k(3) inb by (auto simp: can_load_def)
    then show ?thesis using session_manifest(1) [OF assms(1,2), of k lo] by (auto simp: entry_layout_of_def)
  qed
  have i: "rd_keyToSlot r' k = Some (slot_of r' k) \<and> slot_of r' k < length (rd_slots r)" if "k \<in> set keys" for k
    using k(4) that K len by (fastforce simp: slot_of_def keys_ok_def)
  have lt: "int (slot_of r' k) < op_Slots opts" if "k \<in> set keys" for k
    using i [OF that] session_manifest(2) [OF assms(1,2)] by linarith
  have inj: "slot_of r' k = slot_of r' k' \<longleftrightarrow> k = k'" if "k \<in> set keys" "k' \<in> set keys" for k k'
    using i [OF that(1)] i [OF that(2)] keys_ok_inj [OF K] by metis
  have f: "le_Key (file_expert content r0 e n) = es_Key e" "le_SlotIndex (file_expert content r0 e n) = n" for e n by (simp_all add: file_expert_def Let_def)
  have kk: "es_Key (el_spec (the (map_of (rd_experts r) k))) = k" if "k \<in> set keys" for k using e [OF that] by auto
  have "map le_Key out = keys" using kk by (simp add: k(5) session_manifest(4) [OF assms(1,2)] f comp_def cong: map_cong)
  moreover have "\<forall>x \<in> set out. \<forall>y \<in> set out. le_SlotIndex x = le_SlotIndex y \<longleftrightarrow> le_Key x = le_Key y"
    using kk inj by (simp add: k(5) session_manifest(4) [OF assms(1,2)] f)
  moreover have "\<forall>x \<in> set out. int (le_SlotIndex x) < op_Slots opts \<and> (\<exists>e \<in> set (mf_Entries (rd_manifest r0)). x = file_expert content r0 e (le_SlotIndex x))"
    using e lt by (auto simp: k(5) session_manifest(4) [OF assms(1,2)] f)
  ultimately show ?thesis by blast
qed

theorem loaded_experts_are_file_bytes_witness:
  "(case run_loads sample_os sample_loads (sample_reader, 0) of (r, w) \<Rightarrow> case reader_Load sample_os id (Some r) [5, 7, 5] w of (Inl _, _) \<Rightarrow> False
    | (Inr out, ro) \<Rightarrow> map le_Key out = [5, 7, 5] \<and> map le_SlotBytes out = [''uvw'', ''GUD'', ''uvw''])"
proof -
  obtain r w where r: "run_loads sample_os sample_loads (sample_reader, 0) = (r, w)" by fastforce
  obtain res ro where l: "reader_Load sample_os id (Some r) [5, 7, 5] w = (res, ro)" by (metis prod.collapse)
  obtain out where o: "res = Inr out" "map le_SlotBytes out = [''uvw'', ''GUD'', ''uvw'']" using sample_runs r l by (auto split: sum.splits)
  have "map le_Key out = [5, 7, 5]"
    using loaded_experts_are_file_bytes [OF sample_session [unfolded r] sample_contracts(2) _ l [unfolded o(1)]] by (simp add: reorders_def)
  then show ?thesis using o by (simp add: r l)
qed

text \<open>C15. When reads inside a file deliver and files do not change, a load succeeds exactly when all
  keys are in the manifest and no more distinct ones are asked for than there are slots, whatever
  was loaded before.\<close>

theorem loads_succeed_exactly_when_possible:
  assumes "session os sha256 decode lower page path opts calls w0 r0 (r, w)" "reads_content os content"
    and "reads_ahead os content" "stats_length os content" "reorders done_in" "reader_Load os done_in (Some r) keys w = (res, ro)"
  shows "(\<exists>out. res = Inr out) \<longleftrightarrow> set keys \<subseteq> es_Key ` set (mf_Entries (rd_manifest r0)) \<and> int (card (set keys)) \<le> op_Slots opts"
proof -
  obtain w1 where o: "reader_Open os sha256 decode lower page path opts w0 = (Inr r0, w1)" and s: "reader_ok content r" and f: "load_frame r = load_frame r0"
    by (rule session_opened [OF assms(1,2)])
  have "files_long content r0" using reader_Open_long [OF _ _ _ assms(4) o] assms(1) by (simp add: session_def)
  then have long: "files_long content r" by (simp add: files_long_def frame_cong(5) [OF f] session_manifest(3) [OF assms(1,2)])
  obtain r' w' where l: "loadLocked os done_in keys (r, w) = (res, (r', w'))" using assms(6) by (auto simp: reader_Load_Some)
  have d: "mset (done_in xs) = mset xs" for xs using assms(5) by (simp add: reorders_def)
  have "(\<exists>out. res = Inr out) \<longleftrightarrow> can_load r keys"
    using load_spec [OF assms(2) s d l] load_total [OF assms(2,3) s long d, of keys w] l by (auto split: if_split_asm)
  also have "\<dots> \<longleftrightarrow> set keys \<subseteq> es_Key ` set (mf_Entries (rd_manifest r0)) \<and> int (card (set keys)) \<le> op_Slots opts"
  proof -
    have "(map_of (rd_experts r) k \<noteq> None) \<longleftrightarrow> k \<in> es_Key ` set (mf_Entries (rd_manifest r0))" for k
      using session_manifest(1) [OF assms(1,2), of k] by (auto simp: image_iff)
    then show ?thesis by (auto simp: can_load_def subset_iff simp flip: session_manifest(2) [OF assms(1,2)])
  qed
  finally show ?thesis .
qed

theorem loads_succeed_exactly_when_possible_witness:
  "(case run_loads sample_os sample_loads (sample_reader, 0) of (r, w) \<Rightarrow> \<exists>out. fst (reader_Load sample_os rev (Some r) [5, 9] w) = Inr out)"
proof -
  obtain r w where r: "run_loads sample_os sample_loads (sample_reader, 0) = (r, w)" by fastforce
  obtain res ro where l: "reader_Load sample_os rev (Some r) [5, 9] w = (res, ro)" by (metis prod.collapse)
  have "\<exists>out. res = Inr out"
    using loads_succeed_exactly_when_possible [OF sample_session [unfolded r] sample_contracts(2) sample_ahead sample_contracts(3,6) l]
    by (simp add: sample_reader_def sample_manifest_def)
  then show ?thesis by (auto simp: r l)
qed

text \<open>C16. An expert leaves its slot only when the empty slots are too few for the experts to load, is
  not one that was asked for, and was used before every expert that stays without being asked for.
  The order of use is the order of the lookups and loads in the whole history, failed ones
  included, as long as there are fewer than 2^64 of them; the last-use fields of the slots agree
  with it.\<close>

theorem least_recent_experts_leave:
  assumes "session os sha256 decode lower page path opts calls w0 r0 (r, w)" "reads_content os content"
    and "reorders done_in" "reader_Load os done_in (Some r) keys w = (res, (Some r', w'))" "resident r k" "\<not> resident r' k"
    and "w1 = snd (reader_Open os sha256 decode lower page path opts w0)" "uses = use_trace os calls (r0, w1)"
  shows "k \<notin> set keys \<and> length (filter (\<lambda>sl. \<not> sl_loaded sl) (rd_slots r)) < card {k' \<in> set keys. \<not> resident r k'} \<and>
    (\<forall>k'. resident r k' \<and> resident r' k' \<and> k' \<notin> set keys \<longrightarrow> last_use r k \<le> last_use r k') \<and>
    (length uses < 2 ^ 64 \<longrightarrow> k \<in> set uses \<and> (\<forall>k'. resident r k' \<and> resident r' k' \<and> k' \<notin> set keys \<longrightarrow>
       k' \<in> set uses \<and> recency uses k' < recency uses k))"
proof -
  obtain v where s: "reader_ok content r" and o: "reader_Open os sha256 decode lower page path opts w0 = (Inr r0, v)" "run_loads os calls (r0, v) = (r, w)"
    by (rule session_opened [OF assms(1,2)])
  then have K: "keys_ok r" by (simp add: ok_except_def)
  have l: "loadLocked os done_in keys (r, w) = (res, (r', w'))" using assms(4) by (auto simp: reader_Load_Some)
  have d: "mset (done_in xs) = mset xs" for xs using assms(3) by (simp add: reorders_def)
  note L = load_spec [OF assms(2) s d l]
  have "can_load r keys" using L assms(5,6) by (auto simp: resident_def split: if_split_asm)
  then obtain sas n where S: "took_slots r keys sas" "rd_keyToSlot r' = vacate (assigned_slots sas) (rd_keyToSlot r) ++ n" "assigned_slots sas \<inter> kept_slots r keys = {}"
    and n: "n = (case res of Inl e \<Rightarrow> Map.empty | Inr _ \<Rightarrow> keys_of sas)" using L by auto
  have "dom n \<subseteq> missing_keys r keys" using S(1) by (auto simp: n keys_of_def took_slots_def dom_map_of_conv_image_fst image_image split: sum.splits)
  then have dn: "dom n \<subseteq> set keys" by (auto simp: missing_keys_def)
  note E = eviction_order [OF K S(1,3,2) dn assms(5,6)]
  obtain i where i: "rd_keyToSlot r k = Some i" using assms(5) by (auto simp: resident_def)
  have "i \<in> assigned_slots sas" using vacated [OF S(2) i] assms(6) by (simp add: resident_def)
  moreover have "i \<in> kept_slots r keys" if "k \<in> set keys"
  proof -
    have "slot_of r k \<in> kept_slots r keys" using that assms(5) unfolding kept_slots_def by blast
    then show ?thesis by (simp add: slot_of_def i)
  qed
  ultimately have kn: "k \<notin> set keys" using S(3) by blast
  have order: "last_use r k \<le> last_use r k'" if "resident r k'" "resident r' k'" "k' \<notin> set keys" for k' using E that by blast
  have recent: "k \<in> set uses \<and> (\<forall>k'. resident r k' \<and> resident r' k' \<and> k' \<notin> set keys \<longrightarrow> k' \<in> set uses \<and> recency uses k' < recency uses k)"
    if "length uses < 2 ^ 64"
  proof -
    have "reader_ok content r0" using reader_Open_ok [of decode page os sha256 lower path opts w0 r0 v content] o(1) assms(1) by (simp add: session_def)
    moreover have "timed r0 []" by (rule timed_start) (use reader_Open_start [OF o(1)] in simp_all)
    moreover have "uses = use_trace os calls (r0, v)" using assms(7,8) o(1) by simp
    ultimately have t: "timed r uses"
      using trace_timed [OF assms(2) _ _ o(2), of "[]"] assms(1) that by (simp add: session_def)
    have kt: "k \<in> set uses" "last_use r k + int (recency uses k) = int (length uses)" using t assms(5) by (simp_all add: timed_def last_use_def)
    have "k' \<in> set uses \<and> recency uses k' < recency uses k" if k': "resident r k'" "resident r' k'" "k' \<notin> set keys" for k'
    proof -
      have u: "k' \<in> set uses" "last_use r k' + int (recency uses k') = int (length uses)" using t k'(1) by (simp_all add: timed_def last_use_def)
      then have "recency uses k' \<le> recency uses k" using order [OF k'] kt(2) by linarith
      moreover have "recency uses k' \<noteq> recency uses k" using recency_inj [OF u(1) kt(1)] k'(2) assms(6) by blast
      ultimately show ?thesis using u(1) by simp
    qed
    then show ?thesis using kt(1) by blast
  qed
  show ?thesis using E kn order recent unfolding missing_keys_def by blast
qed

theorem least_recent_experts_leave_witness:
  "(case run_loads sample_os sample_loads (sample_reader, 0) of (r, w) \<Rightarrow> case reader_Load sample_os id (Some r) [5] w of (_, (None, _)) \<Rightarrow> False
    | (_, (Some r', _)) \<Rightarrow> \<not> resident r' 9 \<and> resident r' 7 \<and>
        use_trace sample_os sample_loads (sample_reader, 0) = [9, 7, 7] \<and> recency [9, 7, 7] 7 < recency [9, 7, 7] 9)"
proof -
  obtain r w where r: "run_loads sample_os sample_loads (sample_reader, 0) = (r, w)" by fastforce
  obtain res r' w' where l: "reader_Load sample_os id (Some r) [5] w = (res, (Some r', w'))" using reader_Load_Some by (metis prod.collapse)
  have e: "resident r 9" "resident r 7" "resident r' 7" "\<not> resident r' 9" using sample_evicts r l by (simp_all add: resident_def)
  have o: "snd (reader_Open sample_os (\<lambda>_. replicate 32 (chr 0)) (\<lambda>_. Inr sample_manifest) id 4096 ''/m'' \<lparr>op_Slots = 2, op_Workers = 0, op_MaxSlotBytes = 0\<rparr> 0) = 0"
    using sample_opens by (simp add: sample_open_def)
  have u: "use_trace sample_os sample_loads (sample_reader, 0) = [9, 7, 7]" by code_simp
  have "recency [9, 7, 7] 7 < recency [9, 7, 7] 9"
    using least_recent_experts_leave [OF sample_session [unfolded r] sample_contracts(2) _ l e(1,4) o [symmetric] u [symmetric]] e(2,3) by (simp add: reorders_def)
  then show ?thesis using e(3,4) u by (simp add: r l)
qed

section \<open>Opening\<close>

text \<open>C25. Validation accepts a manifest exactly when version, name, counts and alignment are right,
  the keys are distinct, the parts of every entry are valid, contiguous, aligned and inside their
  file, and no two entries of a file overlap; it then returns the layouts and the longest span.\<close>

theorem manifest_accepted_iff:
  assumes "manifest_fits m files"
  shows "validateManifest lower m files = Inr (ls, mx) \<longleftrightarrow>
    manifest_ok lower m files \<and> ls = entry_layouts m \<and> mx = Max ((\<lambda>e. entry_end e - entry_start e) ` set (mf_Entries m))"
  by (rule validateManifest_iff [OF assms])

theorem manifest_accepted_iff_witness:
  "validateManifest id sample_manifest sample_files = Inr (entry_layouts sample_manifest, 4) \<and> manifest_ok id sample_manifest sample_files"
  using manifest_accepted_iff [OF sample_fits, of id "entry_layouts sample_manifest" 4] sample_valid by simp

text \<open>The mappings of the slots, rounded to pages, stay within the budget; every slot is aligned, empty and
  large enough for every expert.\<close>

theorem opened_slots_fit_budget:
  assumes "session os sha256 decode lower page path opts [] w0 r0 rw"
  shows "int (length (rd_slots r0)) = op_Slots opts \<and>
    op_Slots opts * (page * ((rd_slotSize r0 + mf_Alignment (rd_manifest r0) + page - 1) div page)) \<le>
      (if op_MaxSlotBytes opts = 0 then DefaultMaxSlotBytes else op_MaxSlotBytes opts) \<and>
    (\<forall>sl \<in> set (rd_slots r0). fresh_slot (rd_slotSize r0) (mf_Alignment (rd_manifest r0)) sl) \<and>
    (\<forall>e \<in> set (mf_Entries (rd_manifest r0)). entry_end e - entry_start e \<le> rd_slotSize r0)"
proof -
  obtain w1 where o: "reader_Open os sha256 decode lower page path opts w0 = (Inr r0, w1)" using assms by (auto simp: session_def split: prod.splits sum.splits)
  note O = reader_Open_ok [OF _ _ _ o, of "\<lambda>_. []"]
  have m: "manifest_ok lower (rd_manifest r0) (rd_files r0)" "rd_experts r0 = entry_layouts (rd_manifest r0)" "layouts_ok r0"
    using O assms by (simp_all add: session_def ok_except_def)
  have "entry_end e - entry_start e \<le> rd_slotSize r0" if inb: "e \<in> set (mf_Entries (rd_manifest r0))" for e
  proof -
    have "map_of (rd_experts r0) (es_Key e) = Some (entry_layout_of e)" using m(1,2) entry_layouts_map inb by (auto simp: manifest_ok_def)
    then have "layout_in r0 (entry_layout_of e)" using m(3) by (auto simp: layouts_ok_def)
    then show ?thesis by (simp add: layout_in_def entry_layout_of_def Let_def)
  qed
  then show ?thesis using O assms by (auto simp: session_def in_set_conv_nth)
qed

theorem opened_slots_fit_budget_witness:
  "2 * (4096 * ((4 + 4 + 4096 - 1) div 4096)) \<le> DefaultMaxSlotBytes \<and> (\<forall>sl \<in> set (rd_slots sample_reader). fresh_slot 4 4 sl)"
proof -
  have "session sample_os (\<lambda>_. replicate 32 (chr 0)) (\<lambda>_. Inr sample_manifest) id 4096 ''/m'' \<lparr>op_Slots = 2, op_Workers = 0, op_MaxSlotBytes = 0\<rparr>
      [] 0 sample_reader (sample_reader, 0)"
    using sample_contracts(1,4,5) sample_opens by (simp add: session_def sample_open_def run_loads_simps)
  from opened_slots_fit_budget [OF this] show ?thesis by (simp add: sample_reader_def sample_manifest_def)
qed

section \<open>Nothing stays open\<close>

lemma tracked_reads: "reads_content os content \<Longrightarrow> reads_content (tracked os) content"
  unfolding reads_content_def by (simp add: tracked_def split: prod.splits)

lemma frame_mappings:
  assumes "load_frame r' = load_frame r"
  shows "handles (rd_files r') = handles (rd_files r)" "mappings (rd_slots r') = mappings (rd_slots r)"
proof -
  have m: "List.map_filter sl_raw slots = List.map_filter id (map sl_raw slots)" for slots
    by (induction slots) (auto simp: List.map_filter_simps split: option.split)
  show "handles (rd_files r') = handles (rd_files r)" using frame_cong(6) [OF assms] by simp
  show "mappings (rd_slots r') = mappings (rd_slots r)" unfolding mappings_def m frame_cong(10) [OF assms] ..
qed

text \<open>C14. An Open that fails closes every file and unmaps every slot it acquired; after Close every
  file and mapping of a reader is released once, and the closed reader does nothing more.\<close>

theorem nothing_stays_open:
  assumes "reads_content os content" "decodes_int64 decode" "isPowerOfTwo page" "in_int64 page" "\<forall>c \<in> set calls. reorders (fst c)"
    and "reader_Open (tracked os) sha256 decode lower page path opts (hs, ms, w) = (opened, w1)"
    and "\<And>r0. opened = Inr r0 \<Longrightarrow> run_loads (tracked os) calls (r0, w1) = (r, w2) \<and> reader_Close (tracked os) r w2 = ((res, r'), w3)"
  shows "case opened of Inl e \<Rightarrow> held_open w1 = (hs, ms)
    | Inr r0 \<Rightarrow> held_open w3 = (hs, ms) \<and> reader_Close (tracked os) r' w3 = ((Inr (), r'), w3) \<and>
        reader_Load (tracked os) done_in (Some r') keys w3 = (Inl (Sentinel ''ErrClosed''), (Some r', w3))"
proof (cases opened)
  case (Inl e)
  then show ?thesis using reader_Open_held [OF assms(6)] by (simp add: held_open_def)
next
  case (Inr r0)
  have o: "reader_Open (tracked os) sha256 decode lower page path opts (hs, ms, w) = (Inr r0, w1)" using assms(6) Inr by simp
  have l: "run_loads (tracked os) calls (r0, w1) = (r, w2)" and c: "reader_Close (tracked os) r w2 = ((res, r'), w3)" using assms(7) [OF Inr] by simp_all
  have r0: "reader_ok content r0" using reader_Open_ok [OF assms(2-4) o, of content] by simp
  have r: "reader_ok content r" "load_frame r = load_frame r0" using run_loads_ok [OF tracked_reads [OF assms(1)] r0 assms(5) l] by simp_all
  have "\<not> rd_closed r" using r(1) by (simp add: ok_except_def layouts_ok_def)
  note C = reader_Close_held [OF c this]
  have "held_open w1 = (hs + handles (rd_files r0), ms + mappings (rd_slots r0))" using reader_Open_held [OF o] by (simp add: held_open_def)
  then have "held_open w3 = (hs, ms)" using C run_loads_held [OF l] frame_mappings [OF r(2)] by simp
  moreover have "loadLocked (tracked os) done_in keys (r', w3) = (Inl (Sentinel ''ErrClosed''), (r', w3))" using C by (simp add: loadLocked_def)
  then have "reader_Load (tracked os) done_in (Some r') keys w3 = (Inl (Sentinel ''ErrClosed''), (Some r', w3))" by (simp add: reader_Load_def)
  ultimately show ?thesis using C by (simp add: Inr reader_Close_again)
qed

theorem nothing_stays_open_witness:
  "case reader_Open (tracked sample_os) (\<lambda>_. replicate 32 (chr 0)) (\<lambda>_. Inr sample_manifest) id 4096 ''/m'' \<lparr>op_Slots = 2, op_Workers = 0, op_MaxSlotBytes = 8192\<rparr> ({#}, {#}, 0) of
     (Inl e, w1) \<Rightarrow> held_open w1 = ({#}, {#})
   | (Inr r0, w1) \<Rightarrow> (case run_loads (tracked sample_os) sample_loads (r0, w1) of (r, w2) \<Rightarrow>
       case reader_Close (tracked sample_os) r w2 of ((res, r'), w3) \<Rightarrow> held_open w3 = ({#}, {#}))"
proof -
  obtain opened w1 where o: "reader_Open (tracked sample_os) (\<lambda>_. replicate 32 (chr 0)) (\<lambda>_. Inr sample_manifest) id 4096 ''/m''
      \<lparr>op_Slots = 2, op_Workers = 0, op_MaxSlotBytes = 8192\<rparr> ({#}, {#}, 0) = (opened, w1)" by (metis prod.collapse)
  obtain r w2 where l: "run_loads (tracked sample_os) sample_loads (projr opened, w1) = (r, w2)" by (metis prod.collapse)
  obtain res r' w3 where c: "reader_Close (tracked sample_os) r w2 = ((res, r'), w3)" by (metis prod.collapse)
  have "\<forall>c \<in> set sample_loads. reorders (fst c)" by (simp add: sample_loads_def reorders_def)
  from nothing_stays_open [OF sample_contracts(2,1,4,5) this o, of r w2 res r' w3] show ?thesis using l c by (auto simp: o split: sum.splits)
qed

section \<open>Quantized parts and reads\<close>

text \<open>C36. Splitting a quantized component succeeds exactly when its dimensions fit each other and its
  length, and then returns the weights, scales and biases whose concatenation it is.\<close>

theorem quant_parts_tile_component:
  assumes "quant_fits q" "in_int64 (int (length raw))"
  shows "SplitBytes q raw = Inr (w, s, b) \<longleftrightarrow> quant_shape_ok q \<and> raw = w @ s @ b \<and>
    int (length w) = weight_bytes q \<and> int (length s) = scale_bytes q \<and> int (length b) = scale_bytes q"
  by (rule SplitBytes_iff [OF assms])

definition sample_quant :: quant_spec where
  "sample_quant = \<lparr>qs_OutDim = 1, qs_InDim = 4, qs_GroupSize = 4, qs_Bits = 8\<rparr>"

theorem quant_parts_tile_component_witness:
  "SplitBytes sample_quant ''wwwwssssbbbb'' = Inr (''wwww'', ''ssss'', ''bbbb'')"
proof -
  have "quant_shape_ok sample_quant" by (simp add: quant_shape_ok_def sample_quant_def)
  then show ?thesis
    by (subst quant_parts_tile_component) (simp_all add: quant_fits_def sample_quant_def go_int weight_bytes_def scale_bytes_def)
qed

text \<open>The operating system with a counter of its positional reads.\<close>

definition uncounted :: "('w, 'a) io \<Rightarrow> (nat \<times> 'w, 'a) io" where
  "uncounted m = (\<lambda>(n, w). case m w of (r, w') \<Rightarrow> (r, (n, w')))"

definition counting_reads :: "('w, 'h) os_ops \<Rightarrow> (nat \<times> 'w, 'h) os_ops" where
  "counting_reads os = \<lparr>os_ReadFile = \<lambda>p. uncounted (os_ReadFile os p), os_Dir = os_Dir os, os_Join = os_Join os,
     os_Open = \<lambda>p. uncounted (os_Open os p), os_Stat = \<lambda>h. uncounted (os_Stat os h), os_Seek = \<lambda>h. uncounted (os_Seek os h),
     os_ReadAll = \<lambda>h. uncounted (os_ReadAll os h),
     os_ReadAt = (\<lambda>h n off (c, w). case os_ReadAt os h n off w of (r, w') \<Rightarrow> (r, (Suc c, w'))),
     os_Close = \<lambda>h. uncounted (os_Close os h), os_Mmap = \<lambda>n. uncounted (os_Mmap os n), os_Munmap = \<lambda>a n. uncounted (os_Munmap os a n)\<rparr>"

lemma readFullAt_counted:
  "\<exists>c'. readFullAt (counting_reads os) h path len off got (c, w) = (fst (readFullAt os h path len off got w), (c', snd (readFullAt os h path len off got w))) \<and>
    c' \<le> c + (len - length got)"
proof (induction "len - length got" arbitrary: got c w rule: less_induct)
  case less
  show ?case
  proof (cases "len \<le> length got")
    case True
    then show ?thesis by (simp add: readFullAt.simps)
  next
    case False
    obtain bs e w1 where rd: "os_ReadAt os h (len - length got) (wrap64 (off + int (length got))) w = ((bs, e), w1)" by (metis prod.collapse)
    then have rd': "os_ReadAt (counting_reads os) h (len - length got) (wrap64 (off + int (length got))) (c, w) = ((bs, e), (Suc c, w1))" by (simp add: counting_reads_def)
    show ?thesis
    proof (cases "e = None \<and> bs \<noteq> []")
      case True
      then have "len - length (got @ bs) < len - length got" using False by (auto intro!: diff_less_mono2)
      from less.hyps [OF this, of "Suc c" w1] this show ?thesis using True False rd rd'
        by (auto simp: readFullAt.simps [of os h path len off got] readFullAt.simps [of "counting_reads os" h path len off got])
    next
      case e: False
      then show ?thesis using False rd rd'
        by (auto simp: readFullAt.simps [of os h path len off got] readFullAt.simps [of "counting_reads os" h path len off got] Let_def split: option.splits)
    qed
  qed
qed

text \<open>C40. Reading a range ends after at most as many positional reads as it has bytes, whatever the
  file answers.\<close>

theorem a_read_ends_within_its_length:
  "case readFullAt (counting_reads os) h path len off [] (0, w) of (r, (calls, w')) \<Rightarrow> readFullAt os h path len off [] w = (r, w') \<and> calls \<le> len"
  using readFullAt_counted [of os h path len off "[]" 0 w] by (cases "readFullAt os h path len off [] w") auto

end
