(* ===== verification/Spec2Isabelle.thy ===== *)
theory Spec2Isabelle
  imports Checked DecisionProps QuestionProps ServiceProps RuntimeProps PlacementProps KvProps SpecProps GraphProps PrefillProps
    LayeredProps ReuseProps AdvisorProps ExpertProps
begin

text \<open>
  A verification development for the control logic of go-system-one: the decision service of
  \<open>model/gosystemone\<close> with its HTTP front end, and the model-neutral runtime under it.

  The program. A request names a schema (fields with finite sets of allowed values) and contexts.
  \<open>schema.go\<close> turns the schema into fields and a system prompt; \<open>trie.go\<close> turns each field into
  token paths and a trie of branching points; \<open>engine.go\<close> asks a scorer for the logits of the next
  token at the branching points and picks, for every context and field, the most probable value.
  \<open>systemone.go\<close> offers typed questions on top of the same engine, \<open>http.go\<close> serves both
  routes behind a gate that admits one inference at a time. Beside and under it stand
  \<^item> \<open>runtime/inferencesched\<close>, which interleaves decoding and prefill of many requests,
  \<^item> \<open>runtime/promptcache\<close>, which reuses the state of a prompt prefix,
  \<^item> \<open>runtime/kv\<close>: the quantized key/value cache, float row stores and the manager of one store per
    layer, checkpoints and partial keeping for speculation, the cache of prompt chunks, estimates,
  \<^item> \<open>model/speculative*.go\<close> and \<open>model/mtp_*.go\<close>: proposing, verifying and accepting drafted
    tokens; \<open>model/prefill_chunk_plan.go\<close>: cutting a prompt into chunks under a scratch budget,
  \<^item> \<open>runtime/graph\<close>: graphs of tensor operations, their validation and a plan that shares buffers,
  \<^item> \<open>backends/placement\<close>: which layers go to the accelerator, and the accounts of its memory,
  \<^item> \<open>runtime/memory\<close>: which pages of a mapped file are announced as needed or as cold,
  \<^item> \<open>runtime/expertstream\<close>: experts of a mixture read on demand from a package into a few slots.

  Theories, in the order they build on each other:
  \<^item> \<open>Prelude\<close>: 64-bit integers (values of type \<open>int\<close> with the wrap-around written out), errors as
    left values of a sum, \<open>res_bind\<close> for the early return, \<open>io\<close> for calls that change a world;
    \<open>Checked\<close>: \<open>internal/checked/int.go\<close>, with a locale of saturating arithmetic.
  \<^item> \<open>Floats\<close>: float arithmetic as a record of operations. What is proved for every record holds
    for IEEE arithmetic; \<open>real_ops\<close> is exact arithmetic, on which the meaning of a score is stated.
  \<^item> \<open>GoText\<close>, \<open>Json\<close>: what the code uses of Go's text and JSON packages, on byte strings.
  \<^item> \<open>DecisionTypes\<close> (\<open>types.go\<close>), \<open>Schema\<close> (\<open>schema.go\<close>), \<open>Trie\<close> and \<open>TreeScore\<close> (\<open>trie.go\<close>), with
    \<open>TrieSpec\<close> the abstract trie: a prefix is a node exactly when the paths branch after it.
  \<^item> \<open>Engine\<close>, \<open>Decide\<close> (\<open>engine.go\<close>): rounds of scoring, packed scoring, assembly and the whole
    decision; \<open>EngineFacts\<close>, \<open>DecideFacts\<close>: the invariant of a field's state, termination, the
    equality of packed and sequential scoring, and what a response satisfies.
  \<^item> \<open>SystemOne\<close>, \<open>SystemOneFacts\<close> (\<open>systemone.go\<close>): the typed questions, their answers on exact
    arithmetic (\<open>exact_answer\<close>), and which scored field each answer is computed from.
  \<^item> \<open>Http\<close> (\<open>http.go\<close>, \<open>internal/httpinput/json.go\<close>): one request as a function of what \<open>TryLock\<close>
    finds; \<open>Gate\<close>: the interleavings of requests and \<open>Busy\<close> probes as a step relation.
  \<^item> \<open>Scheduler\<close>, \<open>SchedulerFacts\<close> (\<open>scheduler.go\<close>): the scheduler as a state that \<open>Add\<close>, \<open>Step\<close> and
    \<open>Close\<close> change; the locale \<open>budgeted_visit\<close> states what the two visiting loops share.
    \<open>rn_closed\<close> and the list \<open>Close\<close> returns are history variables, written where the model calls
    \<open>wk_close\<close>. \<open>SchedulerLedger\<close> does without them: \<open>logged\<close> makes the works write every close into
    the world, and the theorem counts the closes found there.
  \<^item> \<open>Identity\<close>, \<open>PromptCache\<close>, \<open>PromptCacheFacts\<close> (\<open>identity.go\<close>, \<open>cache.go\<close>): the cache as a list
    in order of use with buckets of identifiers under chained hashes.
  \<^item> \<open>Placement\<close>, \<open>PlacementFacts\<close> (\<open>placement.go\<close>): estimates in saturating arithmetic and the layer
    plan; \<open>Budget\<close>, \<open>BudgetFacts\<close> (\<open>budget.go\<close>): the four accounts are interpretations of the
    locale \<open>byte_pool\<close>.
  \<^item> \<open>TurboQuant\<close>, \<open>TurboFacts\<close> (\<open>turboquant.go\<close>): rotation, quantizing and packing of vectors;
    \<open>KvCache\<close> (\<open>cache.go\<close>), \<open>KvStaging\<close> (\<open>staging.go\<close>), \<open>KvFacts\<close>: the cache of a layer, its invariant
    \<open>kv_ok\<close>, checkpoints and rollback; \<open>KvContents\<close>: which rows a cache holds in full, from which
    rows its entries were made, and what the readers return; \<open>KvEstimate\<close>, \<open>KvEstimateFacts\<close>
    (\<open>estimate.go\<close>, \<open>policy.go\<close>): the predicted sizes against \<open>MemoryBytes\<close>.
  \<^item> \<open>RowStore\<close>, \<open>RowStoreFacts\<close>, \<open>RingFacts\<close> (\<open>f32_store.go\<close>): the linear and the ring store as windows
    of rows; the locale \<open>row_store\<close> is their contract, with the interpretations \<open>lin\<close>, \<open>ring\<close> and
    \<open>store\<close>. \<open>LayeredKv\<close>, \<open>LayeredFacts\<close>, \<open>LayeredKeep\<close> (\<open>layered_f32_store.go\<close>): one store per layer,
    validation, restoring, and keeping a prefix of staged rows by replaying it.
  \<^item> \<open>ReuseCache\<close>, \<open>ReuseFacts\<close> (\<open>reuse.go\<close>): the chunk cache, as an abstract list in order of use.
  \<^item> \<open>Speculative\<close>, \<open>SpecFacts\<close> (\<open>speculative.go\<close>, \<open>speculative_state.go\<close>, \<open>mtp_accept.go\<close>,
    \<open>mtp_stats.go\<close>): proposers, acceptance, the decode state with float or quantized caches, and the
    decoding loop, against the reference \<open>greedy\<close>, which asks the model for one token at a time.
  \<^item> \<open>Graph\<close>, \<open>GraphPlan\<close> (\<open>graph.go\<close>, \<open>plan.go\<close>, \<open>executor.go\<close>): graphs, plans and their execution;
    \<open>GraphFacts\<close>, \<open>GraphBuffers\<close>, \<open>GraphRun\<close>: lifetimes, the invariant of the buffer assignment,
    and the comparison with one cell per value.
  \<^item> \<open>PrefillPlan\<close>, \<open>PrefillFacts\<close> (\<open>prefill_chunk_plan.go\<close>): scratch estimates, chunk size, spans.
  \<^item> \<open>Advisor\<close>, \<open>AdvisorFacts\<close> (\<open>mmap_advisor.go\<close>): the advised ranges; the states of a range are an
    instance of \<open>linorder\<close>. The abstract view is the set of bytes in ranges that are not cold.
  \<^item> \<open>ExpertManifest\<close>, \<open>ExpertFacts\<close> (\<open>types.go\<close>, \<open>manifest.go\<close>, \<open>quant.go\<close>): validation of a package;
    \<open>ExpertReader\<close>, \<open>ReaderFacts\<close> (\<open>reader.go\<close>, \<open>alloc.go\<close>): opening, loading and closing, with the
    invariant between keys, slots and file bytes; \<open>ReaderUses\<close>: the uses a history of loads makes,
    and that the stored times order the experts by them; \<open>OpenFacts\<close>: the files and mappings in a
    world that tracks them.
  \<^item> \<open>Samples\<close> and the theories ending in \<open>Props\<close>: the properties, each applied to a concrete input.

  Parameters. The scorer, the tokenizer, the validator, the clock, the request context, the
  scheduled work, the snapshots and the hashes, the forward pass, the kernels of graph nodes, the
  SIMD products (which may decline), random deviates, \<open>madvise\<close>, the file system, SHA-256 and the
  decoding of a package's JSON are functions, most over a world of any type, because the code calls
  them through interfaces or libraries; nothing is assumed of them but what a theorem names.
  Go's iteration over a map is an argument where its order matters (\<open>order\<close> of \<open>EvictCold\<close>), as is
  the order in which concurrent reads end (\<open>done_in\<close> of \<open>reader_Load\<close>; it reorders). Counters of
  tokens, rows and statistics that the code keeps in \<open>int\<close> are unbounded in the decision service,
  where a limit proved elsewhere (contexts, fields, tokens) keeps them small; the runtime's sizes,
  clocks and totals wrap or saturate as in the code. Mutexes make the calls of the scheduler, the
  chunk cache, the advisor and the reader and the locked sections of the prompt cache atomic; what
  other goroutines do to the prompt cache while a snapshot is cloned is the argument \<open>mid\<close> of
  \<open>FindLongest\<close>.

  Bounds. The scheduler's budgets are at most \<open>max_int64\<close>, as Go's \<open>int\<close> makes them; clocks order
  uses until they wrap, which the theorems state as fewer than \<open>2 ^ 64\<close> uses; the advisor's mapping
  leaves room for two pages below \<open>max_int64\<close>; a score stays below the last level up to 1e-9, the
  error that the code accepts in the sum of the probabilities.

  Termination. The loops that are not structural (JSON and text scanning, the trie, greedy scoring
  and scoring rounds, eviction in both caches, spans, positional reads, speculative decoding) are
  functions with a measure, so every model function is total and no fuel is used anywhere.

  Not modelled: the forward passes, tensors, loaders, tokenizers and compute backends (numeric
  kernels and device code behind the scorer), half-precision conversions, the execution graphs of
  multi-token prediction and the use of the layered manager by it, the writing of response bodies,
  the JSON nesting limit of encoding/json, textual reports, and command line and web assets.
\<close>

end
